(* ===== verification/Prelude.thy ===== *)
theory Prelude
  imports
    Main
    "HOL-Library.AList"
    "HOL-Library.Multiset"
    "HOL-Library.List_Lexorder"
    "HOL-Library.Char_ord"
    "HOL-Library.Product_Lexorder"
begin

text \<open>
  Shared vocabulary of the development. The program is written in Python; this theory names
  the few Python notions every component uses and collects the generic facts about them:
  dictionaries as association lists in insertion order, \<open>sorted(set(\<dots>))\<close>, results that may
  raise, and decimal rendering of integers. The collection \<open>py_simps\<close> gathers the equations
  the component theories unfold together.

  A Python \<open>str\<close> is the list of its code points. The model holds the code points below 256,
  one \<^typ>\<open>char\<close> each; the lexicographic order on lists is Python's order on strings.
\<close>

named_theorems py_simps \<open>equations of the Python vocabulary\<close>

type_synonym pystr = string

section \<open>Dictionaries in insertion order\<close>

text \<open>
  A \<open>dict\<close> is an association list with distinct keys. \<open>d.get(k)\<close> is \<^const>\<open>map_of\<close>;
  \<open>d[k] = v\<close> keeps the position of a present key and appends a new one, which is
  \<^const>\<open>AList.update\<close>.
\<close>

type_synonym ('k, 'v) dict = "('k \<times> 'v) list"

abbreviation dget :: "('k, 'v) dict \<Rightarrow> 'k \<Rightarrow> 'v option" where
  "dget d k \<equiv> map_of d k"

abbreviation dset :: "'k \<Rightarrow> 'v \<Rightarrow> ('k, 'v) dict \<Rightarrow> ('k, 'v) dict" where
  "dset k v d \<equiv> AList.update k v d"

definition dkeys :: "('k, 'v) dict \<Rightarrow> 'k list" where
  "dkeys d = map fst d"

definition wf_dict :: "('k, 'v) dict \<Rightarrow> bool" where
  "wf_dict d \<longleftrightarrow> distinct (map fst d)"

text \<open>\<open>d.get(k, default)\<close>.\<close>

definition dget_or :: "('k, 'v) dict \<Rightarrow> 'k \<Rightarrow> 'v \<Rightarrow> 'v" where
  "dget_or d k x = (case dget d k of None \<Rightarrow> x | Some v \<Rightarrow> v)"

text \<open>\<open>{k: v for k, v in d.items() if k not in ks}\<close>.\<close>

definition dwithout :: "'k list \<Rightarrow> ('k, 'v) dict \<Rightarrow> ('k, 'v) dict" where
  "dwithout ks d = filter (\<lambda>p. fst p \<notin> set ks) d"

lemma dget_dset: "dget (dset k v d) k' = (if k' = k then Some v else dget d k')"
  by (simp add: update_conv')

lemma dkeys_dset: "set (dkeys (dset k v d)) = insert k (set (dkeys d))"
  by (induction d) (auto simp: dkeys_def)

lemma wf_dict_dset [intro]: "wf_dict d \<Longrightarrow> wf_dict (dset k v d)"
  by (simp add: wf_dict_def distinct_update)

lemma wf_dict_Nil [simp]: "wf_dict []"
  by (simp add: wf_dict_def)

lemma wf_dict_dwithout [intro]: "wf_dict d \<Longrightarrow> wf_dict (dwithout ks d)"
  by (simp add: wf_dict_def dwithout_def distinct_map_filter)

lemma dget_dwithout: "dget (dwithout ks d) k = (if k \<in> set ks then None else dget d k)"
  by (induction d) (auto simp: dwithout_def)

lemma dkeys_dwithout: "set (dkeys (dwithout ks d)) = set (dkeys d) - set ks"
  by (auto simp: dkeys_def dwithout_def)

lemma dset_mem: "p \<in> set (dset k v d) \<Longrightarrow> p = (k, v) \<or> p \<in> set d"
  by (induction d) (auto split: if_splits)

lemma dget_None_iff: "dget d k = None \<longleftrightarrow> k \<notin> set (dkeys d)"
  by (simp add: map_of_eq_None_iff dkeys_def)

lemma dset_append: "dget d k = None \<Longrightarrow> dset k v d = d @ [(k, v)]"
  by (induction d) (auto split: if_splits)

lemma dkeys_update: "k \<in> set (dkeys d) \<Longrightarrow> dkeys (dset k v d) = dkeys d"
  by (induction d) (auto simp: dkeys_def)

lemma dget_or_dset: "dget_or (dset k v d) k' x = (if k' = k then v else dget_or d k' x)"
  by (simp add: dget_or_def dget_dset)

lemma dget_Some_in: "dget d k = Some v \<Longrightarrow> (k, v) \<in> set d"
  by (rule map_of_SomeD)

lemma dget_wf_iff: "wf_dict d \<Longrightarrow> dget d k = Some v \<longleftrightarrow> (k, v) \<in> set d"
  by (simp add: wf_dict_def)

lemmas dict_simps = dget_dset dkeys_dset dget_dwithout dkeys_dwithout

declare dict_simps [py_simps]

section \<open>Sorting\<close>

text \<open>\<open>sorted(set(xs))\<close>.\<close>

definition sorted_set :: "'a::linorder list \<Rightarrow> 'a list" where
  "sorted_set xs = sort (remdups xs)"

lemma set_sorted_set [simp]: "set (sorted_set xs) = set xs"
  by (simp add: sorted_set_def)

lemma distinct_sorted_set [simp]: "distinct (sorted_set xs)"
  by (simp add: sorted_set_def)

lemma sorted_sorted_set [simp]: "sorted (sorted_set xs)"
  by (simp add: sorted_set_def)

lemma sorted_set_cong: "set xs = set ys \<Longrightarrow> sorted_set xs = sorted_set ys"
  by (rule sorted_distinct_set_unique) auto

text \<open>A stable sort by a key with distinct values does not depend on the input order.\<close>

lemma sort_key_permute:
  assumes "mset xs = mset ys" and "distinct (map f xs)"
  shows "sort_key f xs = sort_key f ys"
proof (rule properties_for_sort_key)
  show "mset (sort_key f ys) = mset xs" using assms(1) by simp
  show "sorted (map f (sort_key f ys))" by simp
  have dist: "distinct (map f ys)"
    using assms by (metis mset_eq_imp_distinct_iff mset_map)
  have one: "length (filter (\<lambda>x. f k = f x) zs) \<le> 1" if "distinct (map f zs)" for k zs
    using that
  proof (induction zs)
    case (Cons z zs)
    show ?case
    proof (cases "f k = f z")
      case True
      then have "filter (\<lambda>x. f k = f x) zs = []"
        using Cons.prems by (force simp: filter_empty_conv)
      then show ?thesis using True by simp
    next
      case False
      then show ?thesis using Cons by simp
    qed
  qed simp
  fix k assume "k \<in> set (sort_key f ys)"
  let ?l = "filter (\<lambda>x. f k = f x) (sort_key f ys)" and ?r = "filter (\<lambda>x. f k = f x) xs"
  have "mset ?l = mset ?r" using assms(1) by simp
  moreover have "length ?r \<le> 1" by (rule one [OF assms(2)])
  ultimately show "?l = ?r"
  proof (cases ?r)
    case (Cons a as)
    then have "?r = [a]" using \<open>length ?r \<le> 1\<close> by simp
    moreover have "mset ?l = {#a#}" using \<open>mset ?l = mset ?r\<close> \<open>?r = [a]\<close> by (metis mset_single_iff)
    ultimately show ?thesis by (metis mset_single_iff)
  qed (metis mset_zero_iff)
qed

section \<open>Results that may raise\<close>

text \<open>\<open>Inl e\<close> is a raised exception, \<open>Inr x\<close> a returned value.\<close>

definition rbind :: "'e + 'a \<Rightarrow> ('a \<Rightarrow> 'e + 'b) \<Rightarrow> 'e + 'b" where
  "rbind r f = (case r of Inl e \<Rightarrow> Inl e | Inr x \<Rightarrow> f x)"

lemma rbind_simps [simp, py_simps]:
  "rbind (Inl e) f = Inl e"
  "rbind (Inr x) f = f x"
  by (simp_all add: rbind_def)

lemma rbind_Inr_iff: "rbind r f = Inr y \<longleftrightarrow> (\<exists>x. r = Inr x \<and> f x = Inr y)"
  by (cases r) auto

lemma rbind_Inl_iff: "rbind r f = Inl e \<longleftrightarrow> r = Inl e \<or> (\<exists>x. r = Inr x \<and> f x = Inl e)"
  by (cases r) auto

text \<open>A loop over a list that stops at the first exception.\<close>

fun rfold :: "('s \<Rightarrow> 'a \<Rightarrow> 'e + 's) \<Rightarrow> 's \<Rightarrow> 'a list \<Rightarrow> 'e + 's" where
  "rfold f s [] = Inr s"
| "rfold f s (x # xs) = rbind (f s x) (\<lambda>t. rfold f t xs)"

lemma rfold_append: "rfold f s (xs @ ys) = rbind (rfold f s xs) (\<lambda>t. rfold f t ys)"
proof (induction xs arbitrary: s)
  case (Cons x xs)
  then show ?case by (cases "f s x") simp_all
qed simp

lemma rfold_invariant:
  assumes "rfold f s xs = Inr t" and "P s"
    and "\<And>s x t. P s \<Longrightarrow> x \<in> set xs \<Longrightarrow> f s x = Inr t \<Longrightarrow> P t"
  shows "P t"
  using assms
proof (induction xs arbitrary: s)
  case (Cons x xs)
  from Cons.prems(1) obtain u where u: "f s x = Inr u" "rfold f u xs = Inr t"
    by (auto simp: rbind_Inr_iff)
  have "P u" using Cons.prems(2,3) u(1) by auto
  then show ?case
    using Cons.IH [OF u(2)] Cons.prems(3) by (metis list.set_intros(2))
qed simp

text \<open>\<open>[f(x) for x in xs]\<close> where \<open>f\<close> may raise.\<close>

fun rmap :: "('a \<Rightarrow> 'e + 'b) \<Rightarrow> 'a list \<Rightarrow> 'e + 'b list" where
  "rmap f [] = Inr []"
| "rmap f (x # xs) = rbind (f x) (\<lambda>y. rbind (rmap f xs) (\<lambda>ys. Inr (y # ys)))"

lemma rmap_Inr: "(\<And>x. x \<in> set xs \<Longrightarrow> f x = Inr (g x)) \<Longrightarrow> rmap f xs = Inr (map g xs)"
  by (induction xs) auto

lemma rmap_length: "rmap f xs = Inr ys \<Longrightarrow> length ys = length xs"
  by (induction xs arbitrary: ys) (auto simp: rbind_Inr_iff)

lemma rmap_mem: "rmap f xs = Inr ys \<Longrightarrow> x \<in> set xs \<Longrightarrow> \<exists>y. f x = Inr y"
  by (induction xs arbitrary: ys) (auto simp: rbind_Inr_iff)

lemma rmap_list_all2: "rmap f xs = Inr ys \<Longrightarrow> list_all2 (\<lambda>x y. f x = Inr y) xs ys"
  by (induction xs arbitrary: ys) (auto simp: rbind_Inr_iff)

lemma rmap_set: "rmap f xs = Inr ys \<Longrightarrow> y \<in> set ys \<longleftrightarrow> (\<exists>x \<in> set xs. f x = Inr y)"
  by (induction xs arbitrary: ys) (auto simp: rbind_Inr_iff)

section \<open>Codecs\<close>

text \<open>
  The interface of an encoder and a validating decoder: what the encoder writes for a valid value
  decodes to that value, and the decoder never yields an invalid one.
\<close>

locale codec =
  fixes enc :: "'a \<Rightarrow> 'j"
    and dec :: "'j \<Rightarrow> 'e + 'a"
    and valid :: "'a \<Rightarrow> bool"
  assumes dec_enc: "valid x \<Longrightarrow> dec (enc x) = Inr x"
    and dec_valid: "dec j = Inr x \<Longrightarrow> valid x"
begin

lemma enc_inj: "valid x \<Longrightarrow> valid y \<Longrightarrow> enc x = enc y \<Longrightarrow> x = y"
  by (metis dec_enc sum.inject(2))

lemma reencode: "dec j = Inr x \<Longrightarrow> dec (enc x) = Inr x"
  by (simp add: dec_enc dec_valid)

lemma valid_iff: "valid x \<longleftrightarrow> (\<exists>j. dec j = Inr x)"
  using dec_enc dec_valid by blast

end

section \<open>Decimal rendering\<close>

text \<open>\<open>str(n)\<close> of an integer.\<close>

fun nat_str :: "nat \<Rightarrow> string" where
  "nat_str n = (if n < 10 then [char_of (48 + n)]
                else nat_str (n div 10) @ [char_of (48 + n mod 10)])"

declare nat_str.simps [simp del]

definition int_str :: "int \<Rightarrow> string" where
  "int_str i = (if i < 0 then ''-'' @ nat_str (nat (- i)) else nat_str (nat i))"

lemma nat_str_nonempty [simp]: "nat_str n \<noteq> []"
  by (subst nat_str.simps) simp

text \<open>\<open>int(text, 16)\<close> on hexadecimal digits, and \<open>format(n, "0wx")\<close> for a value of \<open>w\<close> digits.\<close>

definition hex_digit :: "nat \<Rightarrow> char" where
  "hex_digit n = (if n < 10 then char_of (48 + n) else char_of (87 + n))"

definition hex_val :: "char \<Rightarrow> nat" where
  "hex_val c = (let n = of_char c in if n < 58 then n - 48 else n - 87)"

definition is_hex :: "char \<Rightarrow> bool" where
  "is_hex c \<longleftrightarrow> (let n = (of_char c :: nat) in 48 \<le> n \<and> n \<le> 57 \<or> 97 \<le> n \<and> n \<le> 102)"

definition hex_value :: "string \<Rightarrow> nat" where
  "hex_value s = foldl (\<lambda>a c. 16 * a + hex_val c) 0 s"

fun hex_pad :: "nat \<Rightarrow> nat \<Rightarrow> string" where
  "hex_pad 0 n = []"
| "hex_pad (Suc w) n = hex_pad w (n div 16) @ [hex_digit (n mod 16)]"

lemma hex_digit_props:
  assumes "n < 16" shows "is_hex (hex_digit n)" and "hex_val (hex_digit n) = n"
  using assms by (simp_all add: hex_digit_def is_hex_def hex_val_def Let_def)

lemma length_hex_pad [simp]: "length (hex_pad w n) = w"
  by (induction w arbitrary: n) auto

lemma hex_pad_is_hex: "c \<in> set (hex_pad w n) \<Longrightarrow> is_hex c"
  by (induction w arbitrary: n) (auto intro: hex_digit_props)

lemma hex_value_pad: "n < 16 ^ w \<Longrightarrow> hex_value (hex_pad w n) = n"
proof (induction w arbitrary: n)
  case (Suc w)
  from Suc.prems have "n div 16 < 16 ^ w" by (simp add: less_mult_imp_div_less mult.commute)
  from Suc.IH [OF this] show ?case
    by (simp add: hex_value_def hex_digit_props)
qed (simp add: hex_value_def)

section \<open>\<open>str.join\<close> and \<open>str.split\<close>\<close>

fun join :: "string \<Rightarrow> string list \<Rightarrow> string" where
  "join sep [] = []"
| "join sep [x] = x"
| "join sep (x # y # zs) = x @ sep @ join sep (y # zs)"

fun split_on :: "char \<Rightarrow> string \<Rightarrow> string list" where
  "split_on c [] = [[]]"
| "split_on c (x # xs) = (if x = c then [] # split_on c xs
     else case split_on c xs of [] \<Rightarrow> [[x]] | y # ys \<Rightarrow> (x # y) # ys)"

lemma split_on_nonempty [simp]: "split_on c xs \<noteq> []"
  by (induction xs) (simp_all split: list.split)

lemma split_on_append: "split_on c (xs @ c # ys) = split_on c xs @ split_on c ys"
proof (induction xs)
  case (Cons x xs)
  then show ?case by (cases "split_on c xs") auto
qed simp

lemma split_join: "xs \<noteq> [] \<Longrightarrow> split_on c (join [c] xs) = concat (map (split_on c) xs)"
  by (induction "[c]" xs rule: join.induct) (simp_all add: split_on_append)

lemma split_no_sep: "c \<notin> set xs \<Longrightarrow> split_on c xs = [xs]"
  by (induction xs) auto

section \<open>Dictionaries by key\<close>

text \<open>\<open>{key(x): x for x in xs}\<close>: a later element replaces an earlier one in its place.\<close>

definition dict_by :: "('a \<Rightarrow> 'k) \<Rightarrow> 'a list \<Rightarrow> ('k, 'a) dict" where
  "dict_by key xs = foldl (\<lambda>d x. dset (key x) x d) [] xs"

lemma dget_dset_fold:
  "dget (foldl (\<lambda>d x. dset (key x) x d) d0 xs) k
     = (case map_of (rev (map (\<lambda>x. (key x, x)) xs)) k of None \<Rightarrow> dget d0 k | Some x \<Rightarrow> Some x)"
proof (induction xs arbitrary: d0)
  case (Cons x xs)
  then show ?case by (cases "map_of (rev (map (\<lambda>x. (key x, x)) xs)) k") (simp_all add: dget_dset map_add_def)
qed simp

lemma dict_by_wf: "wf_dict (dict_by key xs)"
proof -
  have "wf_dict (foldl (\<lambda>d x. dset (key x) x d) d xs)" if "wf_dict d" for d
    using that by (induction xs arbitrary: d) auto
  then show ?thesis by (simp add: dict_by_def)
qed

lemma dict_by_keys: "p \<in> set (dict_by key xs) \<Longrightarrow> fst p = key (snd p)"
proof -
  have "\<forall>p \<in> set (foldl (\<lambda>d x. dset (key x) x d) d xs). fst p = key (snd p)" if "\<forall>p \<in> set d. fst p = key (snd p)" for d
    using that
  proof (induction xs arbitrary: d)
    case (Cons x xs)
    have "\<forall>p \<in> set (dset (key x) x d). fst p = key (snd p)"
      using Cons.prems by (induction d) auto
    then show ?case using Cons.IH by simp
  qed simp
  from this [of "[]"] show "p \<in> set (dict_by key xs) \<Longrightarrow> fst p = key (snd p)" by (simp add: dict_by_def)
qed

definition row_at :: "('a \<Rightarrow> 'k) \<Rightarrow> 'a list \<Rightarrow> 'k \<Rightarrow> 'a option" where
  "row_at key rows k = map_of (map (\<lambda>r. (key r, r)) rows) k"

lemma row_at_Some: "distinct (map key rows) \<Longrightarrow> row_at key rows k = Some r \<longleftrightarrow> r \<in> set rows \<and> key r = k"
  by (induction rows) (auto simp: row_at_def image_iff)

lemma row_at_None: "row_at key rows k = None \<longleftrightarrow> k \<notin> key ` set rows"
  by (auto simp: row_at_def map_of_eq_None_iff image_image)

lemma row_at_perm: "distinct (map key xs) \<Longrightarrow> mset xs = mset ys \<Longrightarrow> row_at key xs = row_at key ys"
  using row_at_Some [of key xs] row_at_Some [of key ys]
  by (intro ext) (metis mset_eq_imp_distinct_iff mset_eq_setD mset_map not_Some_eq)

lemma dget_dict_by: "distinct (map key xs) \<Longrightarrow> dget (dict_by key xs) k = row_at key xs k"
proof -
  assume d: "distinct (map key xs)"
  have "dget (dict_by key xs) k = row_at key (rev xs) k"
    unfolding dict_by_def dget_dset_fold row_at_def by (simp add: rev_map split: option.splits)
  then show ?thesis using row_at_perm [OF d, of "rev xs"] by simp
qed

lemma distinct_map_sort_key: "distinct (map f (sort_key f xs)) \<longleftrightarrow> distinct (map f xs)"
proof -
  have "mset (map f (sort_key f xs)) = mset (map f xs)" by simp
  then show ?thesis by (rule mset_eq_imp_distinct_iff)
qed

lemma fold_insert:
  "distinct acc \<Longrightarrow> distinct (fold List.insert xs acc) \<and> set (fold List.insert xs acc) = set acc \<union> set xs"
  by (induction xs arbitrary: acc) auto

lemma option_ext: "(\<And>r. x = Some r \<longleftrightarrow> y = Some r) \<Longrightarrow> x = y"
  by (metis not_Some_eq)

end
