(* ===== verification/Py_Json.thy ===== *)
theory Py_Json
  imports Prelude
begin

text \<open>
  Decoded JSON values (what \<open>json.loads\<close> returns) and the canonical compact encoding
  \<open>json.dumps(obj, separators=(",", ":"), sort_keys=True, ensure_ascii=False)\<close> that the journal
  uses both for the bytes on disk and under every content digest
  (\<open>bin/_lib_journal.py\<close>, \<open>_canonical_json\<close> and \<open>_sha256_canonical\<close>). A float is kept
  as its \<open>repr\<close> text. \<open>hashlib.sha256(\<dots>).hexdigest()\<close> is the argument \<open>H\<close> of every function
  that hashes, so that each fact holds for every digest function.
\<close>

datatype json =
    JNull
  | JBool bool
  | JInt int
  | JFloat string
  | JStr string
  | JArr "json list"
  | JObj "(string \<times> json) list"

type_synonym jobj = "(string, json) dict"

section \<open>Field access\<close>

text \<open>\<open>record.get(k)\<close>: a missing key and a null value both read as \<open>None\<close>.\<close>

definition jget :: "jobj \<Rightarrow> string \<Rightarrow> json" where
  "jget d k = (case dget d k of None \<Rightarrow> JNull | Some v \<Rightarrow> v)"

definition jget_or :: "jobj \<Rightarrow> string \<Rightarrow> json \<Rightarrow> json" where
  "jget_or d k x = dget_or d k x"

definition has_key :: "string \<Rightarrow> jobj \<Rightarrow> bool" where
  "has_key k d \<longleftrightarrow> k \<in> set (dkeys d)"

text \<open>\<open>isinstance(x, str) and x\<close>: a non-empty string.\<close>

fun nonempty_str :: "json \<Rightarrow> bool" where
  "nonempty_str (JStr s) = (s \<noteq> [])"
| "nonempty_str _ = False"

text \<open>\<open>type(x) is int and x >= 0\<close>: a boolean is not an \<open>int\<close> here.\<close>

fun nonneg_int :: "json \<Rightarrow> bool" where
  "nonneg_int (JInt i) = (0 \<le> i)"
| "nonneg_int _ = False"

fun the_str :: "json \<Rightarrow> string" where
  "the_str (JStr s) = s"
| "the_str _ = []"

fun the_int :: "json \<Rightarrow> int" where
  "the_int (JInt i) = i"
| "the_int _ = 0"

fun is_str :: "json \<Rightarrow> bool" where
  "is_str (JStr s) = True"
| "is_str _ = False"

fun is_obj :: "json \<Rightarrow> bool" where
  "is_obj (JObj d) = True"
| "is_obj _ = False"

fun the_obj :: "json \<Rightarrow> jobj" where
  "the_obj (JObj d) = d"
| "the_obj _ = []"

text \<open>\<open>bool(v)\<close> of a decoded value.\<close>

definition truthy :: "json \<Rightarrow> bool" where
  "truthy v = (case v of JNull \<Rightarrow> False | JBool b \<Rightarrow> b | JInt i \<Rightarrow> i \<noteq> 0
     | JFloat t \<Rightarrow> t \<noteq> ''0.0'' \<and> t \<noteq> ''-0.0'' | JStr s \<Rightarrow> s \<noteq> [] | JArr xs \<Rightarrow> xs \<noteq> [] | JObj d \<Rightarrow> d \<noteq> [])"

lemma nonempty_strE: "nonempty_str j \<Longrightarrow> (\<And>s. j = JStr s \<Longrightarrow> s \<noteq> [] \<Longrightarrow> P) \<Longrightarrow> P"
  by (cases j) auto

lemma nonneg_intE: "nonneg_int j \<Longrightarrow> (\<And>i. j = JInt i \<Longrightarrow> 0 \<le> i \<Longrightarrow> P) \<Longrightarrow> P"
  by (cases j) auto

lemma is_strE: "is_str j \<Longrightarrow> (\<And>s. j = JStr s \<Longrightarrow> P) \<Longrightarrow> P"
  by (cases j) auto

lemma is_objE: "is_obj j \<Longrightarrow> (\<And>d. j = JObj d \<Longrightarrow> P) \<Longrightarrow> P"
  by (cases j) auto

lemma jget_simps [simp, py_simps]:
  "jget [] k = JNull"
  "jget ((k', v) # d) k = (if k' = k then v else jget d k)"
  by (simp_all add: jget_def)

lemma jget_dset [py_simps]: "jget (dset k v d) k' = (if k' = k then v else jget d k')"
  by (simp add: jget_def dget_dset)

lemma jget_dwithout [py_simps]:
  "jget (dwithout ks d) k = (if k \<in> set ks then JNull else jget d k)"
  by (simp add: jget_def dget_dwithout)

lemma has_key_simps [simp, py_simps]:
  "has_key k [] = False"
  "has_key k ((k', v) # d) = (k = k' \<or> has_key k d)"
  by (simp_all add: has_key_def dkeys_def)

lemma jget_missing: "\<not> has_key k d \<Longrightarrow> jget d k = JNull"
  by (simp add: jget_def has_key_def flip: dget_None_iff)

text \<open>\<open>set(record) == {\<dots>}\<close>.\<close>

definition has_exact_keys :: "string list \<Rightarrow> jobj \<Rightarrow> bool" where
  "has_exact_keys ks d \<longleftrightarrow> set (dkeys d) = set ks"

section \<open>Canonical encoding\<close>

text \<open>The escapes of \<open>json.dumps(\<dots>, ensure_ascii=False)\<close>.\<close>

definition escape_char :: "char \<Rightarrow> string" where
  "escape_char c = (let n = (of_char c :: nat) in
     if n = 34 then [CHR 0x5C, CHR 0x22]
     else if n = 92 then [CHR 0x5C, CHR 0x5C]
     else if n = 8 then [CHR 0x5C, CHR ''b'']
     else if n = 12 then [CHR 0x5C, CHR ''f'']
     else if n = 10 then [CHR 0x5C, CHR ''n'']
     else if n = 13 then [CHR 0x5C, CHR ''r'']
     else if n = 9 then [CHR 0x5C, CHR ''t'']
     else if n < 32 then
       [CHR 0x5C, CHR ''u'', CHR ''0'', CHR ''0'', hex_digit (n div 16), hex_digit (n mod 16)]
     else [c])"

definition quote_str :: "string \<Rightarrow> string" where
  "quote_str s = [CHR 0x22] @ concat (map escape_char s) @ [CHR 0x22]"

function canonical_json :: "json \<Rightarrow> string" where
  "canonical_json JNull = ''null''"
| "canonical_json (JBool b) = (if b then ''true'' else ''false'')"
| "canonical_json (JInt i) = int_str i"
| "canonical_json (JFloat t) = t"
| "canonical_json (JStr s) = quote_str s"
| "canonical_json (JArr xs) = ''['' @ join '','' (map canonical_json xs) @ '']''"
| "canonical_json (JObj d) =
     ''{'' @ join '','' (map (\<lambda>p. quote_str (fst p) @ '':'' @ canonical_json (snd p))
                           (sort_key fst d)) @ ''}''"
  by pat_completeness auto
termination
proof (relation "measure size", goal_cases)
  case (2 xs x)
  then show ?case by (simp add: size_list_estimation' less_Suc_eq_le)
next
  case (3 d p)
  then have p: "p \<in> set d" by simp
  have "size (snd p) \<le> size_prod (\<lambda>_. 0) size p" by (cases p) simp
  then have "size (snd p) \<le> size_list (size_prod (\<lambda>_. 0) size) d"
    by (rule size_list_estimation' [OF p])
  then show ?case by (simp add: less_Suc_eq_le)
qed simp

text \<open>\<open>_sha256_canonical\<close>: the prefixed digest of the canonical encoding.\<close>

definition sha256_canonical :: "(string \<Rightarrow> string) \<Rightarrow> json \<Rightarrow> string" where
  "sha256_canonical H v = ''sha256:'' @ H (canonical_json v)"

text \<open>Key order does not matter: the encoding of a dictionary depends on its items only.\<close>

lemma canonical_json_permute:
  assumes "mset d = mset d'" and "wf_dict d"
  shows "canonical_json (JObj d) = canonical_json (JObj d')"
proof -
  have "sort_key fst d = sort_key fst d'"
    using assms by (intro sort_key_permute) (auto simp: wf_dict_def)
  then show ?thesis by simp
qed

lemma sha256_canonical_permute:
  "mset d = mset d' \<Longrightarrow> wf_dict d \<Longrightarrow>
    sha256_canonical H (JObj d) = sha256_canonical H (JObj d')"
  by (simp only: sha256_canonical_def canonical_json_permute)

lemma canonical_json_same_items:
  assumes "wf_dict d" and "wf_dict d'" and "\<And>k. dget d k = dget d' k"
  shows "canonical_json (JObj d) = canonical_json (JObj d')"
proof (rule canonical_json_permute)
  have "set d = set d'"
  proof (rule set_eqI)
    fix p :: "string \<times> json"
    show "p \<in> set d \<longleftrightarrow> p \<in> set d'"
      using assms dget_wf_iff [of d "fst p" "snd p"] dget_wf_iff [of d' "fst p" "snd p"] by simp
  qed
  moreover have "distinct d" "distinct d'"
    using assms(1,2) by (simp_all add: wf_dict_def distinct_map)
  ultimately show "mset d = mset d'" by (simp add: set_eq_iff_mset_eq_distinct)
qed (rule assms(1))

end
