(* ===== verification/Account_Protocol.thy ===== *)
theory Account_Protocol
  imports Py_Json
begin

text \<open>
  \<open>bin/_lib_account_protocol.py\<close>: the account-bound journal protocol. Journal records carry up to
  three writer stamps (\<open>wpg\<close>, \<open>wpr\<close>, \<open>wpx\<close>); three durable operations record physical
  boundaries of the journal (the cutover and two revisions); a record past a boundary is admitted
  only by its stamps or by its family. The theory models the stamps, the codec of the three
  boundaries, the family allow-list, the admission predicate and the order-independent digest of
  the excluded coordinates.
\<close>

section \<open>Stamps\<close>

datatype protocol_error = ValueError string | TypeError

definition PROTOCOL_GENERATION :: string where "PROTOCOL_GENERATION = ''account-bound-v1''"
definition WPG :: string where "WPG = ''wpg''"
definition WPR :: string where "WPR = ''wpr''"
definition WPX :: string where "WPX = ''wpx''"
definition PROTOCOL_REVISION :: int where "PROTOCOL_REVISION = 2"
definition SUCCESSOR_REVISION :: int where "SUCCESSOR_REVISION = 3"

definition STAMP_KEYS :: "string list" where "STAMP_KEYS = [WPG, WPR, WPX]"

lemmas stamp_consts [py_simps] = PROTOCOL_GENERATION_def WPG_def WPR_def WPX_def
  PROTOCOL_REVISION_def SUCCESSOR_REVISION_def STAMP_KEYS_def

definition is_stamped :: "json \<Rightarrow> bool" where
  "is_stamped r = (case r of JObj d \<Rightarrow> jget d WPG = JStr PROTOCOL_GENERATION | _ \<Rightarrow> False)"

definition has_current_revision :: "json \<Rightarrow> bool" where
  "has_current_revision r = (case r of JObj d \<Rightarrow> jget d WPR = JInt PROTOCOL_REVISION | _ \<Rightarrow> False)"

definition has_successor_revision :: "json \<Rightarrow> bool" where
  "has_successor_revision r =
     (case r of JObj d \<Rightarrow> jget d WPX = JInt SUCCESSOR_REVISION | _ \<Rightarrow> False)"

definition stamp :: "json \<Rightarrow> protocol_error + json" where
  "stamp r = (case r of
     JObj d \<Rightarrow>
       if jget d WPG \<noteq> JNull \<and> jget d WPG \<noteq> JStr PROTOCOL_GENERATION
         then Inl (ValueError ''record already carries writer generation'')
       else if has_key WPR d \<and> \<not> has_current_revision r
         then Inl (ValueError ''record already carries protocol revision'')
       else if has_key WPX d \<and> \<not> has_successor_revision r
         then Inl (ValueError ''record already carries successor revision'')
       else Inr (JObj (dset WPX (JInt SUCCESSOR_REVISION)
              (dset WPR (JInt PROTOCOL_REVISION) (dset WPG (JStr PROTOCOL_GENERATION) d))))
   | _ \<Rightarrow> Inl (ValueError ''journal record must be a dict''))"

definition strip_stamp :: "json \<Rightarrow> json" where
  "strip_stamp r = (case r of
     JObj d \<Rightarrow> if \<exists>k \<in> set STAMP_KEYS. has_key k d then JObj (dwithout STAMP_KEYS d) else r
   | _ \<Rightarrow> r)"

lemma dwithout_dset_in: "k \<in> set ks \<Longrightarrow> dwithout ks (dset k v d) = dwithout ks d"
  by (induction d) (auto simp: dwithout_def)

lemma dwithout_absent: "(\<And>k. k \<in> set ks \<Longrightarrow> \<not> has_key k d) \<Longrightarrow> dwithout ks d = d"
  by (force simp: dwithout_def has_key_def dkeys_def intro!: filter_True)

lemma strip_stamp_obj: "strip_stamp (JObj d) = JObj (dwithout STAMP_KEYS d)"
  by (auto simp: strip_stamp_def intro: dwithout_absent [symmetric])

lemma stamp_InrE:
  assumes "stamp r = Inr r'"
  obtains d where "r = JObj d" and "r' = JObj (dset WPX (JInt SUCCESSOR_REVISION)
      (dset WPR (JInt PROTOCOL_REVISION) (dset WPG (JStr PROTOCOL_GENERATION) d)))"
  using assms by (auto simp: stamp_def split: json.splits if_splits)

lemma stamp_stamps:
  "stamp r = Inr r' \<Longrightarrow> is_stamped r' \<and> has_current_revision r' \<and> has_successor_revision r'"
  by (erule stamp_InrE)
    (simp add: is_stamped_def has_current_revision_def has_successor_revision_def py_simps)

lemma strip_stamp_stamp: "stamp r = Inr r' \<Longrightarrow> strip_stamp r' = strip_stamp r"
  by (erule stamp_InrE) (simp add: strip_stamp_obj dwithout_dset_in STAMP_KEYS_def)

section \<open>Boundaries\<close>

definition CUTOVER_OP_KIND :: string where "CUTOVER_OP_KIND = ''account_bound_cutover''"
definition REVISION_OP_KIND :: string where "REVISION_OP_KIND = ''account_bound_revision''"
definition REVISION3_OP_KIND :: string where "REVISION3_OP_KIND = ''account_bound_revision_v3''"
definition LEGACY_SPOOL_ACTIVITY_KIND :: string where
  "LEGACY_SPOOL_ACTIVITY_KIND = ''legacy_spool_activity''"
definition INVENTORY_OPERATIONS :: "string list" where
  "INVENTORY_OPERATIONS = [''list'', ''stat'', ''read'']"

lemmas boundary_consts [py_simps] = CUTOVER_OP_KIND_def REVISION_OP_KIND_def
  REVISION3_OP_KIND_def

record coordinate =
  co_segment :: string
  co_offset :: int

type_synonym extents = "(string, int) dict"

record revision_boundary =
  rb_segment :: string
  rb_end_offset :: int
  rb_frozen_extents :: extents
  rb_digest :: "string option"
  rb_cutover_segment :: string
  rb_cutover_offset :: int
  rb_failure :: "jobj option"
  rb_episode :: "(string \<times> int) option"

record revision3_boundary =
  r3_segment :: string
  r3_end_offset :: int
  r3_frozen_extents :: extents
  r3_digest :: "string option"
  r3_cutover_segment :: string
  r3_cutover_offset :: int
  r3_revision2_segment :: string
  r3_revision2_offset :: int
  r3_failure :: "jobj option"
  r3_episode :: "(string \<times> int) option"

record cutover_boundary =
  cb_segment :: string
  cb_end_offset :: int
  cb_frozen_extents :: extents
  cb_digest :: "string option"
  cb_failure :: "jobj option"
  cb_revision :: "revision_boundary option"
  cb_revision3 :: "revision3_boundary option"

text \<open>\<open>is_historical\<close> reads only \<open>frozen_extents\<close>, for any of the three boundaries.\<close>

definition is_historical :: "coordinate \<Rightarrow> extents \<Rightarrow> bool" where
  "is_historical c ext =
     (case dget ext (co_segment c) of None \<Rightarrow> False | Some e \<Rightarrow> co_offset c < e)"

definition is_inventory_failure :: "json \<Rightarrow> bool" where
  "is_inventory_failure v = (case v of
     JObj d \<Rightarrow>
       is_str (jget d ''path'') \<and> jget d ''operation'' \<in> JStr ` set INVENTORY_OPERATIONS
       \<and> nonempty_str (jget d ''error'')
       \<and> (jget d ''message'' = JNull \<or> is_str (jget d ''message''))
   | _ \<Rightarrow> False)"

definition inventory_failure_evidence ::
    "string \<Rightarrow> string \<Rightarrow> string \<Rightarrow> string \<Rightarrow> protocol_error + jobj" where
  "inventory_failure_evidence path operation err message =
     (let evidence = [(''path'', JStr path), (''operation'', JStr operation),
                      (''error'', JStr err)]
                     @ (if message \<noteq> [] then [(''message'', JStr message)] else [])
      in if \<not> is_inventory_failure (JObj evidence)
         then Inl (ValueError ''invalid inventory failure evidence'') else Inr evidence)"

text \<open>
  \<open>_DIGEST_RE\<close> is \<open>^sha256:[0-9a-f]{64}$\<close>; in Python \<open>$\<close> also matches before one final
  newline.
\<close>

definition digest_re_match :: "string \<Rightarrow> bool" where
  "digest_re_match s = (take 7 s = ''sha256:'' \<and> list_all is_hex (take 64 (drop 7 s))
     \<and> (length s = 71 \<or> (length s = 72 \<and> s ! 71 = CHR 0x0A)))"

text \<open>
  The codec of \<open>frozenExtents\<close>: a JSON object of non-negative integers. Python compares
  dictionaries without regard to order, so the model keeps the decoded one in key order.
\<close>

definition extents_json :: "extents \<Rightarrow> json" where
  "extents_json ext = JObj (map (\<lambda>k. (k, JInt (the (dget ext k)))) (sorted_set (dkeys ext)))"

definition valid_extents :: "json \<Rightarrow> bool" where
  "valid_extents v = (case v of
     JObj d \<Rightarrow> list_all (\<lambda>k. k \<noteq> [] \<and> nonneg_int (jget d k)) (dkeys d) | _ \<Rightarrow> False)"

definition extents_of :: "json \<Rightarrow> extents" where
  "extents_of v = (let d = the_obj v in
     map (\<lambda>k. (k, the_int (jget d k))) (sorted_set (dkeys d)))"

definition opt_str :: "string option \<Rightarrow> json" where
  "opt_str x = (case x of None \<Rightarrow> JNull | Some s \<Rightarrow> JStr s)"

definition boundary_payload :: "cutover_boundary \<Rightarrow> jobj" where
  "boundary_payload b =
     [(''segment'', JStr (cb_segment b)), (''endOffset'', JInt (cb_end_offset b)),
      (''frozenExtents'', extents_json (cb_frozen_extents b)),
      (''legacySpoolBaselineDigest'', opt_str (cb_digest b))]
     @ (case cb_failure b of None \<Rightarrow> []
        | Some f \<Rightarrow> [(''legacySpoolInventoryFailure'', JObj f)])"

text \<open>The checks of \<open>boundary_from_op\<close> on the fields it reads from the payload, in its order.\<close>

definition cutover_of_fields ::
    "json \<Rightarrow> json \<Rightarrow> json \<Rightarrow> json \<Rightarrow> json \<Rightarrow> protocol_error + cutover_boundary" where
  "cutover_of_fields segment end_offset extents digest failure =
     (if \<not> nonempty_str segment then Inl (ValueError ''cutover boundary segment is invalid'')
      else if \<not> nonneg_int end_offset
        then Inl (ValueError ''cutover boundary endOffset is invalid'')
      else if \<not> valid_extents extents
        then Inl (ValueError ''cutover boundary frozenExtents is invalid'')
      else if failure = JNull \<and> \<not> (is_str digest \<and> digest_re_match (the_str digest))
        then Inl (ValueError ''cutover boundary legacy spool digest is invalid'')
      else if failure \<noteq> JNull \<and> (\<not> is_inventory_failure failure \<or> digest \<noteq> JNull)
        then Inl (ValueError ''cutover boundary legacy spool inventory failure is invalid'')
      else Inr \<lparr>cb_segment = the_str segment, cb_end_offset = the_int end_offset,
                cb_frozen_extents = extents_of extents,
                cb_digest = (if digest = JNull then None else Some (the_str digest)),
                cb_failure = (if failure = JNull then None else Some (the_obj failure)),
                cb_revision = None, cb_revision3 = None\<rparr>)"

definition boundary_from_op :: "json \<Rightarrow> protocol_error + cutover_boundary" where
  "boundary_from_op r =
     (if \<not> is_obj r \<or> jget (the_obj r) ''t'' \<noteq> JStr ''op''
        then Inl (ValueError ''cutover boundary must come from an op record'')
      else let payload = jget (the_obj r) ''payload''; p = the_obj payload in
        if \<not> is_obj payload \<or> jget p ''kind'' \<noteq> JStr CUTOVER_OP_KIND
          then Inl (ValueError ''record is not an account_bound_cutover op'')
        else cutover_of_fields (jget p ''segment'') (jget p ''endOffset'')
               (jget p ''frozenExtents'') (jget p ''legacySpoolBaselineDigest'')
               (jget p ''legacySpoolInventoryFailure''))"

definition coordinate_member :: "json \<Rightarrow> bool" where
  "coordinate_member v = (case v of
     JObj d \<Rightarrow> has_exact_keys [''segment'', ''offset''] d \<and> nonempty_str (jget d ''segment'')
       \<and> nonneg_int (jget d ''offset'')
   | _ \<Rightarrow> False)"

definition coordinate_json :: "string \<Rightarrow> int \<Rightarrow> json" where
  "coordinate_json seg off = JObj [(''segment'', JStr seg), (''offset'', JInt off)]"

text \<open>The failure evidence and the episode coordinate, as both revision payloads append them.\<close>

definition failure_fields :: "jobj option \<Rightarrow> (string \<times> int) option \<Rightarrow> jobj" where
  "failure_fields failure episode = (case failure of None \<Rightarrow> []
     | Some f \<Rightarrow> (''legacySpoolInventoryFailure'', JObj f)
         # (case episode of None \<Rightarrow> []
            | Some (seg, off) \<Rightarrow> [(''inventoryEpisode'', coordinate_json seg off)]))"

definition revision_boundary_payload :: "revision_boundary \<Rightarrow> jobj" where
  "revision_boundary_payload b =
     [(''revision'', JInt PROTOCOL_REVISION),
      (''cutover'', coordinate_json (rb_cutover_segment b) (rb_cutover_offset b)),
      (''segment'', JStr (rb_segment b)), (''endOffset'', JInt (rb_end_offset b)),
      (''frozenExtents'', extents_json (rb_frozen_extents b)),
      (''legacySpoolBaselineDigest'', opt_str (rb_digest b))]
     @ failure_fields (rb_failure b) (rb_episode b)"

definition revision3_boundary_payload :: "revision3_boundary \<Rightarrow> jobj" where
  "revision3_boundary_payload b =
     [(''revision'', JInt SUCCESSOR_REVISION),
      (''cutover'', coordinate_json (r3_cutover_segment b) (r3_cutover_offset b)),
      (''revision2'', coordinate_json (r3_revision2_segment b) (r3_revision2_offset b)),
      (''segment'', JStr (r3_segment b)), (''endOffset'', JInt (r3_end_offset b)),
      (''frozenExtents'', extents_json (r3_frozen_extents b)),
      (''legacySpoolBaselineDigest'', opt_str (r3_digest b))]
     @ failure_fields (r3_failure b) (r3_episode b)"

text \<open>
  The revision decoders pass the payload without their own fields, under the cutover's (the
  revision's) kind, to the decoder they extend.
\<close>

definition strip_revision_fields :: "jobj \<Rightarrow> jobj" where
  "strip_revision_fields p = dset ''kind'' (JStr CUTOVER_OP_KIND)
     (dwithout [''revision'', ''cutover'', ''inventoryEpisode''] p)"

definition revision_boundary_from_op :: "json \<Rightarrow> protocol_error + revision_boundary" where
  "revision_boundary_from_op r =
     (if \<not> is_obj r \<or> jget (the_obj r) ''t'' \<noteq> JStr ''op''
        then Inl (ValueError ''revision boundary must come from an op record'')
      else let payload = jget (the_obj r) ''payload''; p = the_obj payload;
               cutover = jget p ''cutover''; episode = jget p ''inventoryEpisode'' in
        if \<not> is_obj payload \<or> jget p ''kind'' \<noteq> JStr REVISION_OP_KIND
          then Inl (ValueError ''record is not an account_bound_revision op'')
        else if jget p ''revision'' \<noteq> JInt PROTOCOL_REVISION
          then Inl (ValueError ''revision boundary revision is invalid'')
        else if \<not> coordinate_member cutover
          then Inl (ValueError ''revision boundary cutover coordinate is invalid'')
        else if episode \<noteq> JNull
            \<and> (jget p ''legacySpoolInventoryFailure'' = JNull \<or> \<not> coordinate_member episode)
          then Inl (ValueError ''revision boundary inventory episode is invalid'')
        else rbind (boundary_from_op (JObj [(''t'', JStr ''op''),
                 (''payload'', JObj (strip_revision_fields p))]))
          (\<lambda>base. Inr \<lparr>rb_segment = cb_segment base, rb_end_offset = cb_end_offset base,
             rb_frozen_extents = cb_frozen_extents base, rb_digest = cb_digest base,
             rb_cutover_segment = the_str (jget (the_obj cutover) ''segment''),
             rb_cutover_offset = the_int (jget (the_obj cutover) ''offset''),
             rb_failure = cb_failure base,
             rb_episode = (if episode = JNull then None
                else Some (the_str (jget (the_obj episode) ''segment''),
                           the_int (jget (the_obj episode) ''offset'')))\<rparr>))"

definition strip_revision3_fields :: "jobj \<Rightarrow> jobj" where
  "strip_revision3_fields p = dset ''revision'' (JInt PROTOCOL_REVISION)
     (dset ''kind'' (JStr REVISION_OP_KIND) (dwithout [''revision2''] p))"

definition revision3_boundary_from_op :: "json \<Rightarrow> protocol_error + revision3_boundary" where
  "revision3_boundary_from_op r =
     (if \<not> is_obj r \<or> jget (the_obj r) ''t'' \<noteq> JStr ''op''
        then Inl (ValueError ''revision-3 boundary must come from an op record'')
      else let payload = jget (the_obj r) ''payload''; p = the_obj payload;
               revision2 = jget p ''revision2'' in
        if \<not> is_obj payload \<or> jget p ''kind'' \<noteq> JStr REVISION3_OP_KIND
          then Inl (ValueError ''record is not an account_bound_revision_v3 op'')
        else if jget p ''revision'' \<noteq> JInt SUCCESSOR_REVISION
          then Inl (ValueError ''revision-3 boundary revision is invalid'')
        else if \<not> coordinate_member revision2
          then Inl (ValueError ''revision-3 boundary revision-2 coordinate is invalid'')
        else rbind (revision_boundary_from_op (JObj [(''t'', JStr ''op''),
                 (''payload'', JObj (strip_revision3_fields p))]))
          (\<lambda>base. Inr \<lparr>r3_segment = rb_segment base, r3_end_offset = rb_end_offset base,
             r3_frozen_extents = rb_frozen_extents base, r3_digest = rb_digest base,
             r3_cutover_segment = rb_cutover_segment base,
             r3_cutover_offset = rb_cutover_offset base,
             r3_revision2_segment = the_str (jget (the_obj revision2) ''segment''),
             r3_revision2_offset = the_int (jget (the_obj revision2) ''offset''),
             r3_failure = rb_failure base, r3_episode = rb_episode base\<rparr>))"

definition with_revision :: "cutover_boundary option \<Rightarrow> revision_boundary option
    \<Rightarrow> protocol_error + cutover_boundary option" where
  "with_revision boundary revision = (case boundary of
     None \<Rightarrow> Inr None
   | Some b \<Rightarrow>
       if (case revision of None \<Rightarrow> False | Some r \<Rightarrow>
             (rb_cutover_segment r, rb_cutover_offset r) \<noteq> (cb_segment b, cb_end_offset b))
         then Inl (ValueError ''revision boundary names a different cutover'')
       else let revision3 = (case cb_revision3 b of None \<Rightarrow> None | Some r3 \<Rightarrow>
              (case revision of None \<Rightarrow> None | Some r \<Rightarrow>
                 if (r3_revision2_segment r3, r3_revision2_offset r3)
                    \<noteq> (rb_segment r, rb_end_offset r) then None else Some r3))
            in Inr (Some (b\<lparr>cb_revision := revision, cb_revision3 := revision3\<rparr>)))"

definition with_revision3 :: "cutover_boundary option \<Rightarrow> revision3_boundary option
    \<Rightarrow> protocol_error + cutover_boundary option" where
  "with_revision3 boundary revision3 = (case boundary of
     None \<Rightarrow> Inr None
   | Some b \<Rightarrow> (case revision3 of
       None \<Rightarrow> Inr (Some (b\<lparr>cb_revision3 := None\<rparr>))
     | Some r3 \<Rightarrow>
         if (r3_cutover_segment r3, r3_cutover_offset r3) \<noteq> (cb_segment b, cb_end_offset b)
           then Inl (ValueError ''revision-3 boundary names a different cutover'')
         else if (case cb_revision b of None \<Rightarrow> True | Some r \<Rightarrow>
               (r3_revision2_segment r3, r3_revision2_offset r3) \<noteq> (rb_segment r, rb_end_offset r))
           then Inl (ValueError ''revision-3 boundary names a different revision-2 op'')
         else Inr (Some (b\<lparr>cb_revision3 := Some r3\<rparr>))))"

definition original_boundary :: "cutover_boundary option \<Rightarrow> cutover_boundary option" where
  "original_boundary boundary =
     map_option (\<lambda>b. b\<lparr>cb_revision := None, cb_revision3 := None\<rparr>) boundary"

section \<open>The codec round-trips\<close>

definition wf_extents :: "extents \<Rightarrow> bool" where
  "wf_extents ext \<longleftrightarrow> sorted (map fst ext) \<and> wf_dict ext \<and> (\<forall>(k, v) \<in> set ext. k \<noteq> [] \<and> 0 \<le> v)"

definition wf_baseline :: "string option \<Rightarrow> jobj option \<Rightarrow> bool" where
  "wf_baseline digest failure = (case failure of
     None \<Rightarrow> (case digest of None \<Rightarrow> False | Some s \<Rightarrow> digest_re_match s)
   | Some f \<Rightarrow> digest = None \<and> is_inventory_failure (JObj f))"

definition wf_position :: "string \<Rightarrow> int \<Rightarrow> bool" where
  "wf_position seg off \<longleftrightarrow> seg \<noteq> [] \<and> 0 \<le> off"

definition wf_cutover :: "cutover_boundary \<Rightarrow> bool" where
  "wf_cutover b \<longleftrightarrow> wf_position (cb_segment b) (cb_end_offset b)
     \<and> wf_extents (cb_frozen_extents b) \<and> wf_baseline (cb_digest b) (cb_failure b)
     \<and> cb_revision b = None \<and> cb_revision3 b = None"

definition wf_episode :: "jobj option \<Rightarrow> (string \<times> int) option \<Rightarrow> bool" where
  "wf_episode failure episode = (case episode of None \<Rightarrow> True
     | Some (seg, off) \<Rightarrow> failure \<noteq> None \<and> wf_position seg off)"

definition wf_revision :: "revision_boundary \<Rightarrow> bool" where
  "wf_revision b \<longleftrightarrow> wf_position (rb_segment b) (rb_end_offset b)
     \<and> wf_extents (rb_frozen_extents b) \<and> wf_baseline (rb_digest b) (rb_failure b)
     \<and> wf_position (rb_cutover_segment b) (rb_cutover_offset b)
     \<and> wf_episode (rb_failure b) (rb_episode b)"

definition wf_revision3 :: "revision3_boundary \<Rightarrow> bool" where
  "wf_revision3 b \<longleftrightarrow> wf_position (r3_segment b) (r3_end_offset b)
     \<and> wf_extents (r3_frozen_extents b) \<and> wf_baseline (r3_digest b) (r3_failure b)
     \<and> wf_position (r3_cutover_segment b) (r3_cutover_offset b)
     \<and> wf_position (r3_revision2_segment b) (r3_revision2_offset b)
     \<and> wf_episode (r3_failure b) (r3_episode b)"

lemmas wf_boundary_defs = wf_position_def wf_cutover_def wf_revision_def wf_revision3_def
  wf_episode_def wf_baseline_def

text \<open>The operation record that carries a payload, as the writers build it.\<close>

definition op_of :: "string \<Rightarrow> jobj \<Rightarrow> json" where
  "op_of kind payload = JObj [(''t'', JStr ''op''), (''payload'', JObj ((''kind'', JStr kind) # payload))]"

text \<open>The extents codec.\<close>

lemma map_sorted_set_dkeys:
  assumes "wf_dict d" and "sorted (map fst d)"
  shows "map (\<lambda>k. (k, the (dget d k))) (sorted_set (dkeys d)) = d"
proof -
  have "sorted_set (dkeys d) = map fst d"
    using assms by (simp add: sorted_set_def dkeys_def wf_dict_def sorted_sort_id)
  moreover have "map (\<lambda>p. (fst p, the (dget d (fst p)))) d = d"
    using assms(1) by (intro map_idI) (auto simp: wf_dict_def)
  ultimately show ?thesis by (simp add: comp_def)
qed

lemma dget_map_keys: "dget (map (\<lambda>k. (k, f k)) ks) k = (if k \<in> set ks then Some (f k) else None)"
  by (induction ks) auto

lemma dkeys_map_keys [simp]: "dkeys (map (\<lambda>k. (k, f k)) ks) = ks"
  by (simp add: dkeys_def comp_def)

lemma extents_json_inverse:
  assumes "wf_extents ext"
  shows "extents_of (extents_json ext) = ext"
proof -
  let ?ks = "sorted_set (dkeys ext)"
  have "extents_of (extents_json ext) = map (\<lambda>k. (k, the (dget ext k))) (sorted_set ?ks)"
    by (auto simp: extents_of_def extents_json_def jget_def dget_map_keys)
  also have "sorted_set ?ks = ?ks" by (rule sorted_set_cong) simp
  also have "map (\<lambda>k. (k, the (dget ext k))) ?ks = ext"
    using assms by (intro map_sorted_set_dkeys) (auto simp: wf_extents_def)
  finally show ?thesis .
qed

lemma valid_extents_json: "wf_extents ext \<Longrightarrow> valid_extents (extents_json ext)"
  by (fastforce simp: valid_extents_def extents_json_def list_all_iff jget_def dget_map_keys
      wf_extents_def dkeys_def wf_dict_def)

lemma wf_extents_of: "valid_extents v \<Longrightarrow> wf_extents (extents_of v)"
  by (cases v) (auto simp: valid_extents_def wf_extents_def extents_of_def wf_dict_def comp_def
      list_all_iff elim!: nonneg_intE)

text \<open>One decoding step inverts one encoding step, field by field.\<close>

lemma is_inventory_failure_obj: "is_inventory_failure j \<Longrightarrow> JObj (the_obj j) = j"
  by (cases j) (auto simp: is_inventory_failure_def)

lemmas payload_simps = boundary_payload_def revision_boundary_payload_def
  revision3_boundary_payload_def failure_fields_def opt_str_def op_of_def
  extents_json_inverse valid_extents_json

lemma coordinate_member_json [simp]:
  "coordinate_member (coordinate_json seg off) \<longleftrightarrow> wf_position seg off"
  "coordinate_json seg off \<noteq> JNull"
  "the_str (jget (the_obj (coordinate_json seg off)) ''segment'') = seg"
  "the_int (jget (the_obj (coordinate_json seg off)) ''offset'') = off"
  by (auto simp: coordinate_member_def coordinate_json_def wf_position_def has_exact_keys_def
      dkeys_def)

lemma coordinate_member_wf:
  "coordinate_member v \<Longrightarrow>
    wf_position (the_str (jget (the_obj v) ''segment'')) (the_int (jget (the_obj v) ''offset''))"
  by (auto simp: coordinate_member_def wf_position_def elim!: nonempty_strE nonneg_intE
      split: json.splits)

lemma cutover_of_fields_inverse:
  assumes "wf_position seg off" and "wf_extents ext" and "wf_baseline digest failure"
  shows "cutover_of_fields (JStr seg) (JInt off) (extents_json ext) (opt_str digest)
           (case failure of None \<Rightarrow> JNull | Some f \<Rightarrow> JObj f)
       = Inr \<lparr>cb_segment = seg, cb_end_offset = off, cb_frozen_extents = ext, cb_digest = digest,
              cb_failure = failure, cb_revision = None, cb_revision3 = None\<rparr>"
  using assms by (auto simp: cutover_of_fields_def wf_position_def wf_baseline_def opt_str_def
      valid_extents_json extents_json_inverse split: option.splits)

lemma cutover_of_fields_wf: "cutover_of_fields s e x d f = Inr b \<Longrightarrow> wf_cutover b"
  by (auto simp: cutover_of_fields_def wf_boundary_defs wf_extents_of is_inventory_failure_obj
      elim!: nonempty_strE nonneg_intE is_strE split: if_splits)

lemma boundary_from_op_op_of:
  "boundary_from_op (JObj [(''t'', JStr ''op''), (''payload'', JObj p)]) =
     (if jget p ''kind'' \<noteq> JStr CUTOVER_OP_KIND
      then Inl (ValueError ''record is not an account_bound_cutover op'')
      else cutover_of_fields (jget p ''segment'') (jget p ''endOffset'') (jget p ''frozenExtents'')
        (jget p ''legacySpoolBaselineDigest'') (jget p ''legacySpoolInventoryFailure''))"
  by (simp add: boundary_from_op_def)

lemma boundary_from_op_payload:
  "wf_cutover b \<Longrightarrow> boundary_from_op (op_of CUTOVER_OP_KIND (boundary_payload b)) = Inr b"
  using cutover_of_fields_inverse [of "cb_segment b" "cb_end_offset b" "cb_frozen_extents b"
      "cb_digest b" "cb_failure b"]
  by (cases "cb_failure b")
    (simp_all add: op_of_def boundary_from_op_op_of boundary_payload_def wf_cutover_def)

lemma boundary_from_op_wf: "boundary_from_op r = Inr b \<Longrightarrow> wf_cutover b"
  by (auto simp: boundary_from_op_def Let_def dest: cutover_of_fields_wf split: if_splits)

interpretation cutover_codec: codec
  "\<lambda>b. op_of CUTOVER_OP_KIND (boundary_payload b)" boundary_from_op wf_cutover
  by unfold_locales (rule boundary_from_op_payload, assumption, rule boundary_from_op_wf)

text \<open>The fields both revision payloads end with.\<close>

lemma failure_fields_jget [simp]:
  "jget (failure_fields failure episode) ''legacySpoolInventoryFailure''
     = (case failure of None \<Rightarrow> JNull | Some f \<Rightarrow> JObj f)"
  "jget (failure_fields failure episode) ''inventoryEpisode'' =
     (case failure of None \<Rightarrow> JNull | Some f \<Rightarrow>
       (case episode of None \<Rightarrow> JNull | Some p \<Rightarrow> coordinate_json (fst p) (snd p)))"
  by (auto simp: failure_fields_def split: option.splits)

lemma revision_from_op_payload:
  assumes wf: "wf_revision b"
    and fields: "jget p ''kind'' = JStr REVISION_OP_KIND" "jget p ''revision'' = JInt PROTOCOL_REVISION"
      "jget p ''cutover'' = coordinate_json (rb_cutover_segment b) (rb_cutover_offset b)"
      "jget p ''segment'' = JStr (rb_segment b)" "jget p ''endOffset'' = JInt (rb_end_offset b)"
      "jget p ''frozenExtents'' = extents_json (rb_frozen_extents b)"
      "jget p ''legacySpoolBaselineDigest'' = opt_str (rb_digest b)"
      "jget p ''legacySpoolInventoryFailure'' = jget (failure_fields (rb_failure b) (rb_episode b))
         ''legacySpoolInventoryFailure''"
      "jget p ''inventoryEpisode'' = jget (failure_fields (rb_failure b) (rb_episode b))
         ''inventoryEpisode''"
  shows "revision_boundary_from_op (JObj [(''t'', JStr ''op''), (''payload'', JObj p)]) = Inr b"
proof -
  have base: "boundary_from_op (JObj [(''t'', JStr ''op''), (''payload'',
      JObj (strip_revision_fields p))]) = Inr \<lparr>cb_segment = rb_segment b,
        cb_end_offset = rb_end_offset b, cb_frozen_extents = rb_frozen_extents b,
        cb_digest = rb_digest b, cb_failure = rb_failure b, cb_revision = None,
        cb_revision3 = None\<rparr>"
    using wf by (simp add: boundary_from_op_op_of strip_revision_fields_def jget_dset
        jget_dwithout fields cutover_of_fields_inverse wf_revision_def)
  show ?thesis using wf
    by (cases "rb_failure b"; cases "rb_episode b")
      (simp_all add: revision_boundary_from_op_def fields base wf_revision_def wf_episode_def
        split_beta)
qed

lemma revision_roundtrip:
  "wf_revision b \<Longrightarrow>
    revision_boundary_from_op (op_of REVISION_OP_KIND (revision_boundary_payload b)) = Inr b"
  unfolding op_of_def by (rule revision_from_op_payload) (simp_all add: revision_boundary_payload_def)

lemma boundary_from_op_failure:
  "boundary_from_op (JObj [(''t'', JStr ''op''), (''payload'', JObj p)]) = Inr b \<Longrightarrow>
    cb_failure b = None \<longleftrightarrow> jget p ''legacySpoolInventoryFailure'' = JNull"
  by (auto simp: boundary_from_op_op_of cutover_of_fields_def split: if_splits)

lemma revision_from_op_wf:
  assumes "revision_boundary_from_op r = Inr b"
  shows "wf_revision b"
proof -
  let ?p = "the_obj (jget (the_obj r) ''payload'')"
  from assms obtain base where base: "boundary_from_op (JObj [(''t'', JStr ''op''),
        (''payload'', JObj (strip_revision_fields ?p))]) = Inr base"
    by (auto simp: revision_boundary_from_op_def Let_def rbind_Inr_iff split: if_splits)
  have "cb_failure base = None \<longleftrightarrow> jget ?p ''legacySpoolInventoryFailure'' = JNull"
    using boundary_from_op_failure [OF base]
    by (simp add: strip_revision_fields_def jget_dset jget_dwithout)
  then show ?thesis
    using assms boundary_from_op_wf [OF base]
    by (auto simp: revision_boundary_from_op_def Let_def base wf_revision_def wf_cutover_def
        wf_episode_def coordinate_member_wf split: if_splits)
qed

interpretation revision_codec: codec
  "\<lambda>b. op_of REVISION_OP_KIND (revision_boundary_payload b)" revision_boundary_from_op wf_revision
  by unfold_locales (rule revision_roundtrip, assumption, rule revision_from_op_wf)

text \<open>The revision-2 boundary a revision-3 boundary decodes through.\<close>

definition revision3_base :: "revision3_boundary \<Rightarrow> revision_boundary" where
  "revision3_base b = \<lparr>rb_segment = r3_segment b, rb_end_offset = r3_end_offset b,
     rb_frozen_extents = r3_frozen_extents b, rb_digest = r3_digest b,
     rb_cutover_segment = r3_cutover_segment b, rb_cutover_offset = r3_cutover_offset b,
     rb_failure = r3_failure b, rb_episode = r3_episode b\<rparr>"

lemma revision3_roundtrip:
  assumes "wf_revision3 b"
  shows "revision3_boundary_from_op (op_of REVISION3_OP_KIND (revision3_boundary_payload b)) = Inr b"
proof -
  let ?p = "(''kind'', JStr REVISION3_OP_KIND) # revision3_boundary_payload b"
  have "revision_boundary_from_op (JObj [(''t'', JStr ''op''), (''payload'',
      JObj (strip_revision3_fields ?p))]) = Inr (revision3_base b)"
    by (rule revision_from_op_payload)
      (use assms in \<open>simp_all add: wf_revision3_def wf_revision_def revision3_base_def
        strip_revision3_fields_def jget_dset jget_dwithout revision3_boundary_payload_def\<close>)
  then show ?thesis using assms
    by (simp add: revision3_boundary_from_op_def op_of_def revision3_base_def wf_revision3_def)
       (simp add: revision3_boundary_payload_def)
qed

lemma revision3_from_op_wf: "revision3_boundary_from_op r = Inr b \<Longrightarrow> wf_revision3 b"
  by (auto simp: revision3_boundary_from_op_def Let_def rbind_Inr_iff wf_revision3_def
      wf_revision_def coordinate_member_wf dest!: revision_from_op_wf split: if_splits)

interpretation revision3_codec: codec
  "\<lambda>b. op_of REVISION3_OP_KIND (revision3_boundary_payload b)" revision3_boundary_from_op
  wf_revision3
  by unfold_locales (rule revision3_roundtrip, assumption, rule revision3_from_op_wf)

section \<open>Attaching revisions\<close>

text \<open>A boundary is coherent when each attached revision extends exactly the one below it.\<close>

definition coherent :: "cutover_boundary \<Rightarrow> bool" where
  "coherent b \<longleftrightarrow>
     (case cb_revision b of None \<Rightarrow> cb_revision3 b = None
      | Some r \<Rightarrow> (rb_cutover_segment r, rb_cutover_offset r) = (cb_segment b, cb_end_offset b)
          \<and> (case cb_revision3 b of None \<Rightarrow> True | Some r3 \<Rightarrow>
                (r3_cutover_segment r3, r3_cutover_offset r3) = (cb_segment b, cb_end_offset b)
                \<and> (r3_revision2_segment r3, r3_revision2_offset r3)
                   = (rb_segment r, rb_end_offset r)))"

lemma with_revision_coherent:
  "with_revision (Some b) r = Inr (Some b') \<Longrightarrow> coherent b \<Longrightarrow> coherent b' \<and> cb_revision b' = r"
  by (auto simp: with_revision_def coherent_def Let_def split: option.splits if_splits)

lemma with_revision3_coherent:
  "with_revision3 (Some b) r3 = Inr (Some b') \<Longrightarrow> coherent b \<Longrightarrow> coherent b' \<and> cb_revision3 b' = r3"
  by (auto simp: with_revision3_def coherent_def split: option.splits if_splits)

lemma original_boundary_coherent: "original_boundary b = Some b' \<Longrightarrow> coherent b'"
  by (auto simp: original_boundary_def coherent_def)

end
