(* ===== verification/Account_Admission.thy ===== *)
theory Account_Admission
  imports Account_Protocol "HOL-Library.Multiset"
begin

text \<open>
  \<open>bin/_lib_account_protocol.py\<close>, sections "admission" and "excluded-population digest": the
  family allow-list \<open>_family\<close>, the single admission predicate \<open>classify_admission\<close> and the
  order-independent digest of a set of excluded coordinates.
\<close>

section \<open>Families\<close>

datatype family = ClaudeObservation | ClaudeOp | ClaudeEvent | Administrative | Protocol
  | Codex | Unknown

datatype reason = NoCutover | Historical | Stamped | CodexOnly | Excluded
  | RevisionUnstamped | Revision3Unstamped

record admission =
  ad_admitted :: bool
  ad_family :: family
  ad_reason :: reason

definition CLAUDE_OP_KINDS :: "string list" where
  "CLAUDE_OP_KINDS = [''account_observe'', ''account_label'', ''accounts_cutover'',
     ''weekly_credit_floor'', ''sync_week'', ''claude_cost_account'']"

definition CODEX_OP_KINDS :: "string list" where
  "CODEX_OP_KINDS = [''codex_file_account'', ''codex_window_attribution'',
     ''codex_window_attribution_retract'']"

definition ADMIN_OP_KINDS :: "string list" where
  "ADMIN_OP_KINDS = [''journal_protocol_resolution'', ''claude_weekly_observation_decision'',
     ''journal_protocol_resolution_v2'', ''journal_protocol_resolution_v3'',
     ''journal_protocol_resolution_v4'', ''claude_weekly_observation_decision_v2'']"

definition PROTOCOL_OP_KINDS :: "string list" where
  "PROTOCOL_OP_KINDS = [CUTOVER_OP_KIND, LEGACY_SPOOL_ACTIVITY_KIND, REVISION_OP_KIND,
     REVISION3_OP_KIND, ''legacy_spool_inventory_completion'', ''outcome_authority_completion'',
     ''outcome_axis_release'']"

definition ADMIN_RECORD_TYPES :: "string list" where
  "ADMIN_RECORD_TYPES = [''correction'', ''correction_batch'']"

definition CLAUDE_EVT_KINDS :: "string list" where
  "CLAUDE_EVT_KINDS = [''snapshot_accept'', ''weekly_cost_snapshot'', ''week_reset'',
     ''five_hour_credit'', ''five_hour_block_close'', ''percent_milestone'',
     ''five_hour_milestone'', ''weekly_credit_effects'', ''projected'', ''project_budget'',
     ''meter_rate_change'', ''meter_rate_change_supersession'']"

definition QUOTA_EVT_KINDS :: "string list" where
  "QUOTA_EVT_KINDS = [''quota_alert_arming'', ''quota_threshold_event'']"

text \<open>
  \<open>x in frozenset(\<dots>)\<close> hashes \<open>x\<close>: a list or a dict is unhashable and raises \<open>TypeError\<close>.
\<close>

definition in_frozenset :: "json \<Rightarrow> string list \<Rightarrow> protocol_error + bool" where
  "in_frozenset v ks = (case v of JArr _ \<Rightarrow> Inl TypeError | JObj _ \<Rightarrow> Inl TypeError
     | JStr s \<Rightarrow> Inr (s \<in> set ks) | _ \<Rightarrow> Inr False)"

definition in_tuple :: "json \<Rightarrow> string list \<Rightarrow> bool" where
  "in_tuple v ks = (case v of JStr s \<Rightarrow> s \<in> set ks | _ \<Rightarrow> False)"

definition op_family :: "jobj \<Rightarrow> json \<Rightarrow> protocol_error + (family \<times> bool)" where
  "op_family payload kind =
     rbind (in_frozenset kind CODEX_OP_KINDS) (\<lambda>codex.
       if codex then Inr (Codex, True)
       else if in_tuple kind [''account_observe'', ''account_label'']
         then (if jget payload ''provider'' = JStr ''codex'' then Inr (Codex, True)
               else Inr (ClaudeOp, False))
       else if in_tuple kind CLAUDE_OP_KINDS then Inr (ClaudeOp, False)
       else if in_tuple kind ADMIN_OP_KINDS then Inr (Administrative, False)
       else if in_tuple kind PROTOCOL_OP_KINDS then Inr (Protocol, False)
       else Inr (Unknown, False))"

definition evt_family :: "jobj \<Rightarrow> json \<Rightarrow> protocol_error + (family \<times> bool)" where
  "evt_family payload kind =
     rbind (in_frozenset kind CLAUDE_EVT_KINDS) (\<lambda>claude.
       if claude then Inr (ClaudeEvent, False)
       else if kind = JStr ''budget''
         then (if jget payload ''vendor'' = JStr ''codex'' then Inr (Codex, True)
               else Inr (ClaudeEvent, False))
       else if in_tuple kind QUOTA_EVT_KINDS
         then (if jget payload ''source'' = JStr ''codex'' then Inr (Codex, True)
               else Inr (ClaudeEvent, False))
       else Inr (Unknown, False))"

definition obs_family :: "jobj \<Rightarrow> json \<Rightarrow> (family \<times> bool)" where
  "obs_family record kind =
     (if jget record ''provider'' = JStr ''claude'' then (ClaudeObservation, False)
      else if jget record ''provider'' = JStr ''codex'' \<and> kind = JStr ''quota_window_snapshot''
        then (Codex, True)
      else (Unknown, False))"

definition family_of :: "json \<Rightarrow> protocol_error + (family \<times> bool)" where
  "family_of r =
     (if \<not> is_obj r then Inr (Unknown, False)
      else let record = the_obj r; t = jget record ''t''; payload = jget record ''payload'' in
        rbind (in_frozenset t ADMIN_RECORD_TYPES) (\<lambda>admin.
          if admin then Inr (Administrative, False)
          else if \<not> is_obj payload then Inr (Unknown, False)
          else let kind = jget (the_obj payload) ''kind'' in
            if t = JStr ''obs'' then Inr (obs_family record kind)
            else if t = JStr ''op'' then op_family (the_obj payload) kind
            else if t = JStr ''evt'' then evt_family (the_obj payload) kind
            else Inr (Unknown, False)))"

definition record_family :: "json \<Rightarrow> protocol_error + family" where
  "record_family r = rbind (family_of r) (\<lambda>(f, _). Inr f)"

section \<open>Admission\<close>

definition opt_or :: "'a option \<Rightarrow> 'a option \<Rightarrow> 'a option" where
  "opt_or x y = (case x of None \<Rightarrow> y | Some _ \<Rightarrow> x)"

definition classify_admission :: "json \<Rightarrow> coordinate \<Rightarrow> cutover_boundary option
    \<Rightarrow> revision_boundary option \<Rightarrow> revision3_boundary option \<Rightarrow> protocol_error + admission" where
  "classify_admission record coord boundary revision_boundary revision3_boundary =
     rbind (family_of record) (\<lambda>(family, codex_only).
       let answer = (\<lambda>a r. Inr \<lparr>ad_admitted = a, ad_family = family, ad_reason = r\<rparr>) in
       case boundary of
         None \<Rightarrow> answer True NoCutover
       | Some b \<Rightarrow>
           if is_historical coord (cb_frozen_extents b) then answer True Historical
           else if is_stamped record then
             (let revision = opt_or revision_boundary (cb_revision b);
                  revision3 = opt_or revision3_boundary (cb_revision3 b) in
              if \<not> ((case revision of None \<Rightarrow> True
                       | Some r \<Rightarrow> is_historical coord (rb_frozen_extents r))
                    \<or> has_current_revision record)
                then (if codex_only then answer True CodexOnly
                      else answer False RevisionUnstamped)
              else if (case revision3 of None \<Rightarrow> True
                       | Some r \<Rightarrow> is_historical coord (r3_frozen_extents r))
                    \<or> has_successor_revision record
                then answer True Stamped
              else if codex_only then answer True CodexOnly
              else answer False Revision3Unstamped)
           else if codex_only then answer True CodexOnly
           else answer False Excluded)"

text \<open>Whether a fence lets a stamped record through: absent, historical, or carrying its stamp.\<close>

definition past_fence2 :: "json \<Rightarrow> coordinate \<Rightarrow> revision_boundary option \<Rightarrow> bool" where
  "past_fence2 r c f \<longleftrightarrow> f = None \<or> is_historical c (rb_frozen_extents (the f))
     \<or> has_current_revision r"

definition past_fence3 :: "json \<Rightarrow> coordinate \<Rightarrow> revision3_boundary option \<Rightarrow> bool" where
  "past_fence3 r c f \<longleftrightarrow> f = None \<or> is_historical c (r3_frozen_extents (the f))
     \<or> has_successor_revision r"

lemma classify_admission_shape:
  assumes "family_of r = Inr (f, codex)"
  shows "\<exists>reason. classify_admission r c (Some b) r2 r3 =
     Inr \<lparr>ad_admitted = (is_historical c (cb_frozen_extents b) \<or> codex
            \<or> (is_stamped r \<and> past_fence2 r c (opt_or r2 (cb_revision b))
               \<and> past_fence3 r c (opt_or r3 (cb_revision3 b)))),
          ad_family = f, ad_reason = reason\<rparr>"
  using assms
  by (auto simp: classify_admission_def past_fence2_def past_fence3_def Let_def split: option.splits)

lemma classify_admission_error:
  "classify_admission r c b r2 r3 = Inl e \<longleftrightarrow> family_of r = Inl e"
proof (cases "family_of r")
  case (Inl x)
  then show ?thesis by (simp add: classify_admission_def)
next
  case (Inr p)
  obtain f codex where p: "p = (f, codex)" by fastforce
  have "\<exists>a. classify_admission r c b r2 r3 = Inr a"
  proof (cases b)
    case None
    then show ?thesis using Inr p by (simp add: classify_admission_def)
  next
    case (Some x)
    then show ?thesis using classify_admission_shape Inr p by blast
  qed
  then show ?thesis using Inr by auto
qed

lemma classify_excluded_reason:
  "classify_admission r c b r2 r3 = Inr a \<Longrightarrow>
    ad_admitted a \<longleftrightarrow> ad_reason a \<notin> {Excluded, RevisionUnstamped, Revision3Unstamped}"
  by (cases b; cases "opt_or r2 (cb_revision (the b))"; cases "opt_or r3 (cb_revision3 (the b))")
    (auto simp: classify_admission_def Let_def rbind_Inr_iff split: if_splits)

section \<open>The excluded-population digest\<close>

definition DIGEST_MODULUS :: nat where "DIGEST_MODULUS = 16 ^ 64"

text \<open>\<open>int.from_bytes(sha256(data).digest(), "big")\<close> is the value of the hexadecimal digest.\<close>

definition coordinate_term :: "(string \<Rightarrow> string) \<Rightarrow> coordinate \<Rightarrow> nat" where
  "coordinate_term H c = hex_value (H (co_segment c @ [CHR 0x00] @ int_str (co_offset c)))"

definition coordinate_population_digest ::
    "(string \<Rightarrow> string) \<Rightarrow> coordinate list \<Rightarrow> string option \<Rightarrow> protocol_error + string" where
  "coordinate_population_digest H coords base =
     (let start = (case base of None \<Rightarrow> Inr 0
        | Some s \<Rightarrow> if \<not> digest_re_match s
            then Inl (ValueError ''coordinate population digest is invalid'')
            else Inr (hex_value (take 64 (drop 7 s))))
      in rbind start (\<lambda>total.
        Inr (''sha256:'' @ hex_pad 64
          (foldl (\<lambda>total c. (total + coordinate_term H c) mod DIGEST_MODULUS) total coords))))"

text \<open>The abstract value: the sum of the terms modulo the modulus.\<close>

definition digest_of_nat :: "nat \<Rightarrow> string" where
  "digest_of_nat n = ''sha256:'' @ hex_pad 64 n"

lemma digest_re_match_of_nat: "digest_re_match (digest_of_nat n)"
  by (auto simp: digest_re_match_def digest_of_nat_def list_all_iff dest: hex_pad_is_hex)

lemma hex_value_digest_of_nat:
  "n < DIGEST_MODULUS \<Longrightarrow> hex_value (take 64 (drop 7 (digest_of_nat n))) = n"
  by (simp add: digest_of_nat_def DIGEST_MODULUS_def hex_value_pad del: hex_pad.simps)

lemma foldl_terms:
  "t < DIGEST_MODULUS \<Longrightarrow> foldl (\<lambda>total c. (total + coordinate_term H c) mod DIGEST_MODULUS) t cs
     = (t + sum_list (map (coordinate_term H) cs)) mod DIGEST_MODULUS"
proof (induction cs arbitrary: t)
  case (Cons c cs)
  have "0 < DIGEST_MODULUS" by (simp add: DIGEST_MODULUS_def)
  then show ?case
    using Cons.IH [of "(t + coordinate_term H c) mod DIGEST_MODULUS"]
    by (simp add: mod_simps add.assoc)
qed simp

lemma population_digest_sum:
  "coordinate_population_digest H cs None
     = Inr (digest_of_nat (sum_list (map (coordinate_term H) cs) mod DIGEST_MODULUS))"
  using foldl_terms [of 0 H cs]
  by (simp add: coordinate_population_digest_def digest_of_nat_def DIGEST_MODULUS_def)

lemma population_digest_extend:
  "n < DIGEST_MODULUS \<Longrightarrow> coordinate_population_digest H cs (Some (digest_of_nat n))
     = Inr (digest_of_nat ((n + sum_list (map (coordinate_term H) cs)) mod DIGEST_MODULUS))"
  by (simp add: coordinate_population_digest_def digest_re_match_of_nat hex_value_digest_of_nat
      foldl_terms) (simp add: digest_of_nat_def)

section \<open>Properties\<close>

text \<open>Encoding a decoded boundary and decoding it again gives the same boundary, for each of the
  three boundary operations: whatever \<open>boundary_from_op\<close>, \<open>revision_boundary_from_op\<close> or
  \<open>revision3_boundary_from_op\<close> accepts is well formed (positions named and non-negative, extents
  non-negative, exactly one of digest and failure evidence) and survives its payload codec.\<close>

theorem boundary_codecs_stable:
  "(boundary_from_op r = Inr b \<longrightarrow>
      wf_cutover b \<and> boundary_from_op (op_of CUTOVER_OP_KIND (boundary_payload b)) = Inr b)
   \<and> (revision_boundary_from_op r2 = Inr b2 \<longrightarrow>
      wf_revision b2
      \<and> revision_boundary_from_op (op_of REVISION_OP_KIND (revision_boundary_payload b2)) = Inr b2)
   \<and> (revision3_boundary_from_op r3 = Inr b3 \<longrightarrow>
      wf_revision3 b3
      \<and> revision3_boundary_from_op (op_of REVISION3_OP_KIND (revision3_boundary_payload b3)) = Inr b3)"
  using cutover_codec.dec_valid cutover_codec.reencode revision_codec.dec_valid
    revision_codec.reencode revision3_codec.dec_valid revision3_codec.reencode
  by blast

definition sample_failure :: jobj where
  "sample_failure = [(''path'', JStr ''/s''), (''operation'', JStr ''list''), (''error'', JStr ''EIO'')]"

definition sample_revision3 :: revision3_boundary where
  "sample_revision3 = \<lparr>r3_segment = ''observations-2026-11.jsonl'', r3_end_offset = 90,
     r3_frozen_extents = [(''bootstrap-1'', 40), (''observations-2026-11.jsonl'', 90)],
     r3_digest = None, r3_cutover_segment = ''bootstrap-1'', r3_cutover_offset = 40,
     r3_revision2_segment = ''observations-2026-11.jsonl'', r3_revision2_offset = 60,
     r3_failure = Some sample_failure, r3_episode = Some (''bootstrap-1'', 41)\<rparr>"

definition sample_revision :: revision_boundary where
  "sample_revision = \<lparr>rb_segment = ''observations-2026-11.jsonl'', rb_end_offset = 60,
     rb_frozen_extents = [(''bootstrap-1'', 40), (''observations-2026-11.jsonl'', 60)],
     rb_digest = None, rb_cutover_segment = ''bootstrap-1'', rb_cutover_offset = 40,
     rb_failure = Some sample_failure, rb_episode = None\<rparr>"

definition sample_cutover :: cutover_boundary where
  "sample_cutover = \<lparr>cb_segment = ''bootstrap-1'', cb_end_offset = 40,
     cb_frozen_extents = [(''bootstrap-1'', 40)], cb_digest = Some (digest_of_nat 7),
     cb_failure = None, cb_revision = None, cb_revision3 = None\<rparr>"

lemma sample_wf: "wf_cutover sample_cutover" "wf_revision sample_revision"
    "wf_revision3 sample_revision3"
  by (simp_all add: wf_boundary_defs wf_extents_def wf_dict_def sample_cutover_def
      sample_revision_def sample_revision3_def sample_failure_def digest_re_match_of_nat
      is_inventory_failure_def INVENTORY_OPERATIONS_def)

theorem boundary_codecs_stable_witness:
  "boundary_from_op (op_of CUTOVER_OP_KIND (boundary_payload sample_cutover)) = Inr sample_cutover
   \<and> revision3_boundary_from_op (op_of REVISION3_OP_KIND (revision3_boundary_payload sample_revision3))
     = Inr sample_revision3"
  using boundary_codecs_stable boundary_from_op_payload [OF sample_wf(1)]
    revision_roundtrip [OF sample_wf(2)] revision3_roundtrip [OF sample_wf(3)] by blast

text \<open>C13: The admission predicate in closed form: once there is a cutover, a record whose family is
  decided is admitted exactly when it lies inside the historical extents, is proven Codex-only, or
  carries the current writer generation and passes both revision fences; and it is excluded only
  for one of the three excluding reasons.\<close>

theorem admission_closed_form:
  assumes "family_of r = Inr (f, codex)"
  shows "\<exists>a. classify_admission r c (Some b) r2 r3 = Inr a \<and> ad_family a = f
    \<and> (ad_admitted a \<longleftrightarrow> is_historical c (cb_frozen_extents b) \<or> codex
        \<or> (is_stamped r \<and> past_fence2 r c (opt_or r2 (cb_revision b))
           \<and> past_fence3 r c (opt_or r3 (cb_revision3 b))))
    \<and> (ad_admitted a \<longleftrightarrow> ad_reason a \<notin> {Excluded, RevisionUnstamped, Revision3Unstamped})"
proof -
  from classify_admission_shape [OF assms, of c b r2 r3] obtain reason where
    *: "classify_admission r c (Some b) r2 r3 = Inr \<lparr>ad_admitted =
      (is_historical c (cb_frozen_extents b) \<or> codex \<or> (is_stamped r
        \<and> past_fence2 r c (opt_or r2 (cb_revision b)) \<and> past_fence3 r c (opt_or r3 (cb_revision3 b)))),
      ad_family = f, ad_reason = reason\<rparr>" ..
  show ?thesis using classify_excluded_reason [OF *] * by simp
qed

definition sample_record :: json where
  "sample_record = JObj [(''t'', JStr ''op''), (''payload'', JObj [(''kind'', JStr ''sync_week'')]),
     (''wpg'', JStr ''account-bound-v1''), (''wpr'', JInt 2)]"

lemma sample_record_family: "family_of sample_record = Inr (ClaudeOp, False)"
  by (simp add: family_of_def sample_record_def in_frozenset_def op_family_def in_tuple_def
      ADMIN_RECORD_TYPES_def CODEX_OP_KINDS_def CLAUDE_OP_KINDS_def)

theorem admission_closed_form_witness:
  "\<exists>a. classify_admission sample_record \<lparr>co_segment = ''bootstrap-1'', co_offset = 50\<rparr>
      (Some sample_cutover) (Some sample_revision) (Some sample_revision3) = Inr a
    \<and> \<not> ad_admitted a"
  using admission_closed_form [OF sample_record_family,
      of "\<lparr>co_segment = ''bootstrap-1'', co_offset = 50\<rparr>" sample_cutover
      "Some sample_revision" "Some sample_revision3"]
  by (auto simp: sample_record_def sample_cutover_def sample_revision3_def is_historical_def
      opt_or_def past_fence3_def has_successor_revision_def WPX_def)

text \<open>No boundary re-admits what an earlier rule excludes: a record admitted under a cutover with
  revisions attached is admitted when revision 3 is dropped, and also under the original cutover
  boundary alone.\<close>

theorem fences_only_exclude:
  assumes "classify_admission r c (Some b) None None = Inr a" and "ad_admitted a"
  shows "(\<exists>a2. classify_admission r c (Some (b\<lparr>cb_revision3 := None\<rparr>)) None None = Inr a2
      \<and> ad_admitted a2)
    \<and> (\<exists>a1. classify_admission r c (original_boundary (Some b)) None None = Inr a1
      \<and> ad_admitted a1)"
proof (rule conjI)
  obtain f codex where fam: "family_of r = Inr (f, codex)"
    using assms(1) by (cases "family_of r") (auto simp: classify_admission_def)
  show "\<exists>a2. classify_admission r c (Some (b\<lparr>cb_revision3 := None\<rparr>)) None None = Inr a2
      \<and> ad_admitted a2"
    using classify_admission_shape [OF fam, of c b None None] assms
      classify_admission_shape [OF fam, of c "b\<lparr>cb_revision3 := None\<rparr>" None None]
    by (auto simp: opt_or_def past_fence3_def)
  show "\<exists>a1. classify_admission r c (original_boundary (Some b)) None None = Inr a1
      \<and> ad_admitted a1"
    using classify_admission_shape [OF fam, of c b None None] assms
      classify_admission_shape [OF fam, of c "b\<lparr>cb_revision := None, cb_revision3 := None\<rparr>" None None]
    by (auto simp: opt_or_def past_fence2_def past_fence3_def original_boundary_def)
qed

lemma sample_admitted:
  "\<exists>a. classify_admission sample_record \<lparr>co_segment = ''bootstrap-1'', co_offset = 30\<rparr>
     (Some (sample_cutover\<lparr>cb_revision := Some sample_revision,
        cb_revision3 := Some sample_revision3\<rparr>)) None None = Inr a \<and> ad_admitted a"
  using classify_admission_shape [OF sample_record_family,
      of "\<lparr>co_segment = ''bootstrap-1'', co_offset = 30\<rparr>" "sample_cutover\<lparr>cb_revision :=
        Some sample_revision, cb_revision3 := Some sample_revision3\<rparr>" None None]
  by (auto simp: sample_cutover_def is_historical_def)

theorem fences_only_exclude_witness:
  "\<exists>a1. classify_admission sample_record \<lparr>co_segment = ''bootstrap-1'', co_offset = 30\<rparr>
     (original_boundary (Some (sample_cutover\<lparr>cb_revision := Some sample_revision,
        cb_revision3 := Some sample_revision3\<rparr>))) None None = Inr a1 \<and> ad_admitted a1"
  using fences_only_exclude sample_admitted by blast

text \<open>Attaching boundaries keeps them coherent: from the cutover's own boundary, a successful
  \<open>with_revision\<close> followed by a successful \<open>with_revision3\<close> yields a boundary whose revision
  names that cutover and whose revision 3 names that cutover and that revision; replacing the
  revision afterwards never leaves a revision 3 that extends another one.\<close>

theorem attach_revisions_coherent:
  assumes "with_revision (original_boundary (Some b)) r = Inr (Some b1)"
    and "with_revision3 (Some b1) r3 = Inr (Some b2)"
    and "with_revision (Some b2) r' = Inr (Some b3)"
  shows "coherent b1 \<and> coherent b2 \<and> coherent b3
    \<and> cb_revision b1 = r \<and> cb_revision3 b2 = r3 \<and> cb_revision b3 = r'"
proof -
  have 0: "original_boundary (Some b) = Some (b\<lparr>cb_revision := None, cb_revision3 := None\<rparr>)"
    by (simp add: original_boundary_def)
  note c0 = original_boundary_coherent [OF 0]
  note c1 = with_revision_coherent [OF assms(1) [unfolded 0] c0]
  note c2 = with_revision3_coherent [OF assms(2) c1 [THEN conjunct1]]
  note c3 = with_revision_coherent [OF assms(3) c2 [THEN conjunct1]]
  show ?thesis using c1 c2 c3 by blast
qed

theorem attach_revisions_coherent_witness:
  "coherent (sample_cutover\<lparr>cb_revision := Some sample_revision,
     cb_revision3 := Some sample_revision3\<rparr>)"
  by (rule attach_revisions_coherent [THEN conjunct2, THEN conjunct1, of sample_cutover "Some sample_revision"
        "sample_cutover\<lparr>cb_revision := Some sample_revision\<rparr>" "Some sample_revision3" _ None
        "sample_cutover\<lparr>cb_revision := None, cb_revision3 := None\<rparr>"])
    (simp_all add: original_boundary_def with_revision_def with_revision3_def
      sample_cutover_def sample_revision_def sample_revision3_def)

text \<open>The excluded-population digest is order-independent and incremental: extending the digest
  of one batch of coordinates by another gives the digest of any list with the same coordinates,
  in any order.\<close>

theorem population_digest_incremental:
  assumes "mset zs = mset xs + mset ys"
  shows "rbind (coordinate_population_digest H xs None)
           (\<lambda>d. coordinate_population_digest H ys (Some d))
       = coordinate_population_digest H zs None"
proof -
  let ?s = "\<lambda>cs. sum_list (map (coordinate_term H) cs)"
  have pos: "0 < DIGEST_MODULUS" by (simp add: DIGEST_MODULUS_def)
  have "?s zs = sum_mset (image_mset (coordinate_term H) (mset zs))"
    by (metis mset_map sum_mset_sum_list)
  also have "\<dots> = ?s xs + ?s ys"
    by (simp add: assms) (metis mset_map sum_mset_sum_list)
  finally show ?thesis
    using pos by (simp add: population_digest_sum population_digest_extend mod_simps)
qed

theorem population_digest_incremental_witness:
  "rbind (coordinate_population_digest (\<lambda>s. ''ff'') [\<lparr>co_segment = ''a'', co_offset = 1\<rparr>] None)
     (\<lambda>d. coordinate_population_digest (\<lambda>s. ''ff'')
        [\<lparr>co_segment = ''b'', co_offset = 2\<rparr>, \<lparr>co_segment = ''a'', co_offset = 9\<rparr>] (Some d))
   = coordinate_population_digest (\<lambda>s. ''ff'') [\<lparr>co_segment = ''a'', co_offset = 9\<rparr>,
       \<lparr>co_segment = ''a'', co_offset = 1\<rparr>, \<lparr>co_segment = ''b'', co_offset = 2\<rparr>] None"
  by (rule population_digest_incremental) simp

text \<open>A family decision, and so an admission, raises only on an unhashable \<open>t\<close> or payload
  \<open>kind\<close>: an event whose payload kind is a list raises \<open>TypeError\<close> even before any cutover,
  instead of being the unknown family that anything not named is meant to have.\<close>

theorem unhashable_kind_raises:
  "classify_admission (JObj [(''t'', JStr ''evt''), (''payload'', JObj [(''kind'', JArr ks)])])
     c boundary r2 r3 = Inl TypeError"
  by (simp add: classify_admission_error family_of_def in_frozenset_def evt_family_def
      ADMIN_RECORD_TYPES_def)

end
