(* ===== verification/Journal_Records.thy ===== *)
theory Journal_Records
  imports Account_Admission
begin

text \<open>
  \<open>bin/_lib_journal.py\<close>, sections "identity" and "fully-formed line records", and the builders
  and validators of the correction protocol: content ids, the observation, operation and event
  builders, the stamping of a record about to be appended and its inverses, the bounded violation
  evidence, the operator acknowledgement, and the begin/action/commit records of a correction
  batch. \<open>H\<close> is \<open>hashlib.sha256(\<dots>).hexdigest()\<close> throughout.
\<close>

section \<open>Errors\<close>

text \<open>
  \<open>JournalProtocolError\<close> with its message; \<open>Unhashable\<close> is the \<open>TypeError\<close> of a membership test
  in a set with a list or a dictionary.
\<close>

datatype journal_error = JournalProtocolError string | Unhashable

definition unhashable :: "json \<Rightarrow> bool" where
  "unhashable v = (case v of JArr _ \<Rightarrow> True | JObj _ \<Rightarrow> True | _ \<Rightarrow> False)"

definition require :: "bool \<Rightarrow> string \<Rightarrow> (journal_error + 'a) \<Rightarrow> journal_error + 'a" where
  "require b msg k = (if b then k else Inl (JournalProtocolError msg))"

lemma require_Inr [simp]: "require b msg k = Inr x \<longleftrightarrow> b \<and> k = Inr x"
  by (simp add: require_def)

lemma require_True [simp]: "require True msg k = k"
  by (simp add: require_def)

text \<open>\<open>v in {\<dots>}\<close> with a set of strings.\<close>

definition require_in :: "json \<Rightarrow> string list \<Rightarrow> string \<Rightarrow> (journal_error + 'a) \<Rightarrow> journal_error + 'a"
  where
  "require_in v ks msg k =
     (if unhashable v then Inl Unhashable else require (in_tuple v ks) msg k)"

lemma require_in_Inr [simp]:
  "require_in v ks msg k = Inr x \<longleftrightarrow> in_tuple v ks \<and> k = Inr x"
  by (cases v) (auto simp: require_in_def unhashable_def in_tuple_def)

lemma in_tuple_iff: "in_tuple v ks \<longleftrightarrow> (\<exists>s \<in> set ks. v = JStr s)"
  by (cases v) (auto simp: in_tuple_def)

section \<open>Identity\<close>

definition LINE_VERSION :: int where "LINE_VERSION = 1"
definition SEGMENT_PREFIX :: string where "SEGMENT_PREFIX = ''observations-''"
definition BOOTSTRAP_PREFIX :: string where "BOOTSTRAP_PREFIX = ''bootstrap-''"

text \<open>\<open>value == 1\<close>: in Python \<open>True\<close> and \<open>1.0\<close> are equal to \<open>1\<close>.\<close>

definition is_line_version :: "json \<Rightarrow> bool" where
  "is_line_version v \<longleftrightarrow> v = JInt LINE_VERSION \<or> v = JBool True \<or> v = JFloat ''1.0''"

definition starts_with :: "string \<Rightarrow> string \<Rightarrow> bool" where
  "starts_with s p \<longleftrightarrow> take (length p) s = p"

definition content_id :: "(string \<Rightarrow> string) \<Rightarrow> jobj \<Rightarrow> string" where
  "content_id H record = ''o:'' @ take 16 (H (canonical_json (JObj record)))"

definition bootstrap_id :: "string \<Rightarrow> int \<Rightarrow> string" where
  "bootstrap_id tab rowid = ''b:'' @ tab @ '':'' @ int_str rowid"

definition evt_id :: "string \<Rightarrow> string list \<Rightarrow> string" where
  "evt_id kind parts = kind @ '':'' @ join '':'' parts"

definition WEEK_RESET_ORIGIN_MARKER :: string where "WEEK_RESET_ORIGIN_MARKER = ''origin''"

text \<open>An absent and an empty origin are the same: the test is Python's truth value.\<close>

definition week_reset_identity_parts ::
    "string \<Rightarrow> string \<Rightarrow> string \<Rightarrow> string option \<Rightarrow> string list" where
  "week_reset_identity_parts account_key old_end new_end origin =
     (case origin of Some (c # cs) \<Rightarrow> [account_key, WEEK_RESET_ORIGIN_MARKER, c # cs]
      | _ \<Rightarrow> [account_key, old_end, new_end])"

definition effects_payload_digest :: "(string \<Rightarrow> string) \<Rightarrow> jobj \<Rightarrow> jobj option \<Rightarrow> string" where
  "effects_payload_digest H payload refs =
     (let effective = (case refs of None \<Rightarrow> payload
        | Some r \<Rightarrow> fold (\<lambda>(k, v) d. dset k v d) r payload)
      in take 16 (H (canonical_json (JObj effective))))"

text \<open>Segment order: bootstraps, then observation segments, then anything else.\<close>

definition segment_sort_key :: "string \<Rightarrow> nat \<times> string" where
  "segment_sort_key name =
     (if starts_with name BOOTSTRAP_PREFIX then (0, name)
      else if starts_with name SEGMENT_PREFIX then (1, name) else (2, name))"

text \<open>\<open>max(xs, key = f)\<close>: the first element with the greatest key.\<close>

fun max_by :: "('a \<Rightarrow> 'k::linorder) \<Rightarrow> 'a \<Rightarrow> 'a list \<Rightarrow> 'a" where
  "max_by f m [] = m"
| "max_by f m (x # xs) = max_by f (if f m < f x then x else m) xs"

definition reusable_bootstrap_name ::
    "string \<Rightarrow> int \<Rightarrow> (string \<times> int option \<times> string option) list \<Rightarrow> string option" where
  "reusable_bootstrap_name candidate_digest candidate_size existing =
     (case filter (\<lambda>(name, _, _). starts_with name BOOTSTRAP_PREFIX) existing of
        [] \<Rightarrow> None
      | b # bs \<Rightarrow> (case max_by (\<lambda>(name, _, _). segment_sort_key name) b bs of
          (name, Some sz, Some digest) \<Rightarrow>
            if sz = candidate_size \<and> digest = candidate_digest then Some name else None
        | _ \<Rightarrow> None))"

text \<open>\<open>rfind\<close> of the newline in the final window of a segment.\<close>

fun last_newline :: "string \<Rightarrow> nat option" where
  "last_newline [] = None"
| "last_newline (c # cs) = (case last_newline cs of Some i \<Rightarrow> Some (Suc i)
     | None \<Rightarrow> if c = CHR 0x0A then Some 0 else None)"

definition valid_tail_offset :: "string \<Rightarrow> int \<Rightarrow> int" where
  "valid_tail_offset chunk chunk_start = (case last_newline chunk of
     None \<Rightarrow> chunk_start | Some idx \<Rightarrow> chunk_start + int idx + 1)"

definition segment_name :: "nat \<Rightarrow> nat \<Rightarrow> string" where
  "segment_name year month =
     (let pad = (\<lambda>w n. replicate (w - length (nat_str n)) CHR ''0'' @ nat_str n)
      in SEGMENT_PREFIX @ pad 4 year @ ''-'' @ pad 2 month @ ''.jsonl'')"

section \<open>Writers\<close>

text \<open>An optional keyword argument whose default is computed by the callee.\<close>

datatype 'a arg = Default | Given "'a option"

definition resolve_arg :: "'a option \<Rightarrow> 'a arg \<Rightarrow> 'a option" where
  "resolve_arg d a = (case a of Default \<Rightarrow> d | Given x \<Rightarrow> x)"

definition put_opt :: "string \<Rightarrow> json option \<Rightarrow> jobj \<Rightarrow> jobj" where
  "put_opt k v d = (case v of None \<Rightarrow> d | Some x \<Rightarrow> dset k x d)"

definition writer_core :: "jobj \<Rightarrow> string option \<Rightarrow> int arg \<Rightarrow> int arg \<Rightarrow> jobj" where
  "writer_core core generation revision successor =
     (let rev = resolve_arg (case generation of None \<Rightarrow> None | Some _ \<Rightarrow> Some PROTOCOL_REVISION)
                  revision;
          suc = resolve_arg (case rev of None \<Rightarrow> None | Some _ \<Rightarrow> Some SUCCESSOR_REVISION) successor
      in put_opt WPX (map_option JInt suc) (put_opt WPR (map_option JInt rev)
           (put_opt WPG (map_option JStr generation) core)))"

definition make_obs :: "(string \<Rightarrow> string) \<Rightarrow> string \<Rightarrow> string \<Rightarrow> string \<Rightarrow> jobj \<Rightarrow> string option
    \<Rightarrow> string option \<Rightarrow> int arg \<Rightarrow> int arg \<Rightarrow> jobj" where
  "make_obs H at src provider payload account generation revision successor =
     (let core = writer_core (put_opt ''account'' (map_option JStr account)
            [(''t'', JStr ''obs''), (''at'', JStr at), (''src'', JStr src),
             (''provider'', JStr provider), (''payload'', JObj payload)])
            generation revision successor
      in (''v'', JInt LINE_VERSION) # core @ [(''id'', JStr (content_id H core))])"

definition make_op :: "(string \<Rightarrow> string) \<Rightarrow> string \<Rightarrow> string \<Rightarrow> jobj
    \<Rightarrow> string option \<Rightarrow> int arg \<Rightarrow> int arg \<Rightarrow> jobj" where
  "make_op H at src payload generation revision successor =
     (let core = writer_core [(''t'', JStr ''op''), (''at'', JStr at), (''src'', JStr src),
             (''payload'', JObj payload)] generation revision successor
      in (''v'', JInt LINE_VERSION) # core @ [(''id'', JStr (content_id H core))])"

text \<open>The identity-bearing subset of a content-id line, and whether its id verifies over it.\<close>

definition id_core :: "jobj \<Rightarrow> jobj" where
  "id_core record = dwithout [''v'', ''id''] record"

definition is_content_record :: "jobj \<Rightarrow> bool" where
  "is_content_record record \<longleftrightarrow> in_tuple (jget record ''t'') [''obs'', ''op'']
     \<and> is_str (jget record ''id'') \<and> starts_with (the_str (jget record ''id'')) ''o:''"

definition id_verifies :: "(string \<Rightarrow> string) \<Rightarrow> jobj \<Rightarrow> bool" where
  "id_verifies H record \<longleftrightarrow> is_content_record record
     \<and> content_id H (id_core record) = the_str (jget record ''id'')"

text \<open>The shared tail of \<open>prepare_record\<close> and of its inverses.\<close>

definition reidentify :: "(string \<Rightarrow> string) \<Rightarrow> jobj \<Rightarrow> jobj \<Rightarrow> jobj" where
  "reidentify H record out = (if id_verifies H record
     then dset ''id'' (JStr (content_id H (id_core out))) out else out)"

definition prepare_record :: "(string \<Rightarrow> string) \<Rightarrow> jobj \<Rightarrow> protocol_error + jobj" where
  "prepare_record H record =
     (if is_stamped (JObj record) \<and> has_current_revision (JObj record)
          \<and> has_successor_revision (JObj record) then Inr record
      else rbind (stamp (JObj record)) (\<lambda>stamped. Inr (reidentify H record (the_obj stamped))))"

definition without_keys :: "(string \<Rightarrow> string) \<Rightarrow> jobj \<Rightarrow> string list \<Rightarrow> jobj" where
  "without_keys H record ks = reidentify H record (dwithout ks record)"

definition unstamped_record :: "(string \<Rightarrow> string) \<Rightarrow> jobj \<Rightarrow> jobj" where
  "unstamped_record H record =
     (if \<not> has_key WPG record \<and> \<not> has_key WPR record \<and> \<not> has_key WPX record then record
      else reidentify H record (dwithout [WPG, WPR, WPX] record))"

definition prerevision_record :: "(string \<Rightarrow> string) \<Rightarrow> jobj \<Rightarrow> jobj" where
  "prerevision_record H record =
     (if \<not> has_key WPR record \<and> \<not> has_key WPX record then record
      else without_keys H record [WPR, WPX])"

definition revision2_record :: "(string \<Rightarrow> string) \<Rightarrow> jobj \<Rightarrow> jobj" where
  "revision2_record H record =
     (if \<not> has_key WPX record then record else without_keys H record [WPX])"

definition event_content_hash :: "(string \<Rightarrow> string) \<Rightarrow> jobj \<Rightarrow> string" where
  "event_content_hash H record = sha256_canonical H (strip_stamp (JObj record))"

definition validate_revision :: "json \<Rightarrow> journal_error + int" where
  "validate_revision r =
     require (nonneg_int r) ''event rev must be a non-negative integer'' (Inr (the_int r))"

definition event_revision :: "jobj \<Rightarrow> journal_error + int" where
  "event_revision record = validate_revision (jget_or record ''rev'' (JInt 0))"

text \<open>The three writer stamps a freshly built event or correction line carries.\<close>

definition writer_stamps :: jobj where
  "writer_stamps = [(WPG, JStr PROTOCOL_GENERATION), (WPR, JInt PROTOCOL_REVISION),
     (WPX, JInt SUCCESSOR_REVISION)]"

definition make_evt :: "string \<Rightarrow> string \<Rightarrow> string \<Rightarrow> jobj \<Rightarrow> json \<Rightarrow> journal_error + jobj" where
  "make_evt kind ident at payload revision = rbind (validate_revision revision) (\<lambda>r.
     Inr ([(''v'', JInt LINE_VERSION), (''t'', JStr ''evt''), (''id'', JStr ident),
           (''rev'', JInt r), (''at'', JStr at), (''src'', JStr ''ingest''),
           (''payload'', JObj (dset ''kind'' (JStr kind) payload))] @ writer_stamps))"

section \<open>Lemmas\<close>

text \<open>Dictionary updates, as the writers chain them.\<close>

lemma dset_fresh: "\<not> has_key k d \<Longrightarrow> dset k v d = d @ [(k, v)]"
  by (induction d) (auto simp: has_key_def dkeys_def)

lemma dwithout_append: "dwithout ks (a @ b) = dwithout ks a @ dwithout ks b"
  by (simp add: dwithout_def)

lemma dwithout_dset_out: "k \<notin> set ks \<Longrightarrow> dwithout ks (dset k v d) = dset k v (dwithout ks d)"
  by (induction d) (auto simp: dwithout_def)

lemma dset_same: "dget d k = Some v \<Longrightarrow> dset k v d = d"
  by (induction d) (auto split: if_splits)

lemma dset_dset_same: "dset k v (dset k w d) = dset k v d"
  by (induction d) auto

lemma has_key_dset: "has_key k (dset k' v d) \<longleftrightarrow> k = k' \<or> has_key k d"
  using dkeys_dset [of k' v d] by (auto simp: has_key_def)

lemma has_key_dwithout: "has_key k (dwithout ks d) \<longleftrightarrow> has_key k d \<and> k \<notin> set ks"
  using dkeys_dwithout [of ks d] by (auto simp: has_key_def)

lemma jget_Some: "jget d k = v \<Longrightarrow> v \<noteq> JNull \<Longrightarrow> dget d k = Some v"
  by (auto simp: jget_def split: option.splits)

lemma starts_with_content_id [simp]: "starts_with (content_id H core) ''o:''"
  by (simp add: content_id_def starts_with_def)

lemma id_core_dset_id [simp]: "id_core (dset ''id'' v d) = id_core d"
  by (simp add: id_core_def dwithout_dset_in)

text \<open>Re-identification only touches the id, and makes it verify.\<close>

lemma reidentify_id: "id_verifies H r \<Longrightarrow> jget out ''t'' = jget r ''t''
    \<Longrightarrow> id_verifies H (reidentify H r out)"
  by (simp add: reidentify_def id_verifies_def is_content_record_def py_simps)

lemma reidentify_other: "k \<noteq> ''id'' \<Longrightarrow> jget (reidentify H r out) k = jget out k"
  by (simp add: reidentify_def jget_dset)

lemma has_key_reidentify: "k \<noteq> ''id'' \<Longrightarrow> has_key k (reidentify H r out) = has_key k out"
  by (simp add: reidentify_def has_key_dset)

definition stamped_of :: "jobj \<Rightarrow> jobj" where
  "stamped_of d = dset WPX (JInt SUCCESSOR_REVISION)
     (dset WPR (JInt PROTOCOL_REVISION) (dset WPG (JStr PROTOCOL_GENERATION) d))"

lemma fully_stamped_iff:
  "is_stamped (JObj r) \<and> has_current_revision (JObj r) \<and> has_successor_revision (JObj r)
    \<longleftrightarrow> jget r WPG = JStr PROTOCOL_GENERATION \<and> jget r WPR = JInt PROTOCOL_REVISION
      \<and> jget r WPX = JInt SUCCESSOR_REVISION"
  by (simp add: is_stamped_def has_current_revision_def has_successor_revision_def)

lemma prepare_recordE:
  assumes "prepare_record H r = Inr r'"
  obtains "r' = r" "is_stamped (JObj r)" "has_current_revision (JObj r)"
      "has_successor_revision (JObj r)"
  | "r' = reidentify H r (stamped_of r)"
  using assms
  by (auto simp: prepare_record_def rbind_Inr_iff stamped_of_def elim!: stamp_InrE split: if_splits)

lemma jget_stamped_of: "k \<notin> set STAMP_KEYS \<Longrightarrow> jget (stamped_of r) k = jget r k"
  by (auto simp: stamped_of_def STAMP_KEYS_def jget_dset)

lemma prepare_record_fields:
  assumes "prepare_record H r = Inr r'"
  shows "jget r' WPG = JStr PROTOCOL_GENERATION \<and> jget r' WPR = JInt PROTOCOL_REVISION
      \<and> jget r' WPX = JInt SUCCESSOR_REVISION
      \<and> (\<forall>k. k \<noteq> ''id'' \<and> k \<notin> set STAMP_KEYS \<longrightarrow> jget r' k = jget r k)"
  using assms
proof (cases rule: prepare_recordE)
  case 1
  have "jget r WPG = JStr PROTOCOL_GENERATION \<and> jget r WPR = JInt PROTOCOL_REVISION
      \<and> jget r WPX = JInt SUCCESSOR_REVISION"
    using fully_stamped_iff [of r] 1(2-4) by blast
  then show ?thesis using 1(1) by simp
next
  case 2
  have "jget (stamped_of r) WPG = JStr PROTOCOL_GENERATION"
    "jget (stamped_of r) WPR = JInt PROTOCOL_REVISION"
    "jget (stamped_of r) WPX = JInt SUCCESSOR_REVISION"
    by (simp_all add: stamped_of_def py_simps)
  then show ?thesis using 2 jget_stamped_of [of _ r] reidentify_other [of _ H r "stamped_of r"]
    by (simp add: WPG_def WPR_def WPX_def)
qed

lemma prepare_record_idempotent: "prepare_record H r = Inr r' \<Longrightarrow> prepare_record H r' = Inr r'"
  using prepare_record_fields [of H r r'] fully_stamped_iff [of r'] by (simp add: prepare_record_def)

lemma t_not_stamp [simp]: "''t'' \<notin> set STAMP_KEYS" "''id'' \<notin> set STAMP_KEYS" "''v'' \<notin> set STAMP_KEYS"
  by (simp_all add: py_simps)

lemma prepare_record_verifies:
  "prepare_record H r = Inr r' \<Longrightarrow> id_verifies H r \<Longrightarrow> id_verifies H r'"
  by (erule prepare_recordE) (auto intro: reidentify_id simp: jget_stamped_of)

lemma dwithout_stamped_of: "dwithout STAMP_KEYS (stamped_of r) = dwithout STAMP_KEYS r"
  by (simp add: stamped_of_def dwithout_dset_in STAMP_KEYS_def)

text \<open>Stamping and unstamping are inverse on records without stamps.\<close>

lemma unstamped_prepare:
  assumes "prepare_record H r = Inr r'" and fresh: "\<And>k. k \<in> set STAMP_KEYS \<Longrightarrow> \<not> has_key k r"
    and idok: "id_verifies H r \<or> \<not> is_content_record r"
  shows "unstamped_record H r' = r"
  using assms(1)
proof (cases rule: prepare_recordE)
  case 1
  then have "has_key WPG r" using fully_stamped_iff [of r] jget_missing [of WPG r] by fastforce
  then show ?thesis using fresh by (simp add: STAMP_KEYS_def)
next
  case 2
  have keys: "has_key WPG r'"
    using 2 by (simp add: has_key_reidentify WPG_def stamped_of_def has_key_dset)
  have plain: "dwithout STAMP_KEYS (stamped_of r) = r"
    using fresh by (simp add: dwithout_stamped_of dwithout_absent)
  have out: "dwithout STAMP_KEYS r' = (if id_verifies H r
      then dset ''id'' (JStr (content_id H (id_core (stamped_of r)))) r else r)"
    using 2 plain by (simp add: reidentify_def dwithout_dset_out)
  have same_t: "jget r' ''t'' = jget r ''t''"
    using 2 by (simp add: reidentify_other jget_stamped_of)
  have same_id: "\<not> id_verifies H r \<Longrightarrow> jget r' ''id'' = jget r ''id''"
    using 2 by (simp add: reidentify_def jget_stamped_of)
  have "unstamped_record H r' = reidentify H r' (dwithout STAMP_KEYS r')"
    using keys by (simp add: unstamped_record_def STAMP_KEYS_def)
  also have "\<dots> = r"
  proof (cases "id_verifies H r")
    case True
    then have "id_verifies H r'" using prepare_record_verifies assms(1) by blast
    moreover from True have "dget r ''id'' = Some (JStr (content_id H (id_core r)))"
      by (intro jget_Some) (auto simp: id_verifies_def is_content_record_def elim!: is_strE)
    ultimately show ?thesis
      using True by (simp add: reidentify_def out dset_dset_same dset_same)
  next
    case False
    then have "\<not> is_content_record r" using idok by blast
    then have "\<not> id_verifies H r'"
      using same_t same_id [OF False] by (auto simp: id_verifies_def is_content_record_def)
    then show ?thesis using False by (simp add: reidentify_def out)
  qed
  finally show ?thesis .
qed

lemma event_hash_prepare:
  assumes "prepare_record H r = Inr r'" and "jget r ''t'' = JStr ''evt''"
  shows "event_content_hash H r' = event_content_hash H r"
  using assms(1)
proof (cases rule: prepare_recordE)
  case 2
  have "\<not> id_verifies H r" using assms(2) by (simp add: id_verifies_def is_content_record_def in_tuple_def)
  then have "r' = stamped_of r" using 2 by (simp add: reidentify_def)
  then show ?thesis by (simp add: event_content_hash_def strip_stamp_obj dwithout_stamped_of)
qed simp

text \<open>The builders compute ids that verify.\<close>

lemma put_opt_keys:
  "has_key k (put_opt k' v d) \<longleftrightarrow> (k = k' \<and> v \<noteq> None) \<or> has_key k d"
  by (auto simp: put_opt_def has_key_dset split: option.splits)

lemma writer_core_keys: "has_key k (writer_core core g r s) \<Longrightarrow> has_key k core \<or> k \<in> set STAMP_KEYS"
  by (auto simp: writer_core_def put_opt_keys Let_def STAMP_KEYS_def)

lemma jget_put_opt: "jget (put_opt k' v d) k = (if k = k' \<and> v \<noteq> None then the v else jget d k)"
  by (auto simp: put_opt_def jget_dset split: option.splits)

lemma jget_writer_core: "k \<notin> set STAMP_KEYS \<Longrightarrow> jget (writer_core core g r s) k = jget core k"
  by (auto simp: writer_core_def Let_def jget_put_opt STAMP_KEYS_def)

lemma jget_append: "jget (a @ b) k = (if has_key k a then jget a k else jget b k)"
  by (induction a) auto

lemma built_id_verifies:
  assumes "\<not> has_key ''v'' core" "\<not> has_key ''id'' core" "in_tuple (jget core ''t'') [''obs'', ''op'']"
  shows "id_verifies H ((''v'', v) # core @ [(''id'', JStr (content_id H core))])"
proof -
  have "dwithout [''v'', ''id''] core = core"
    using assms by (intro dwithout_absent) auto
  then have "id_core ((''v'', v) # core @ [(''id'', JStr (content_id H core))]) = core"
    by (simp add: id_core_def dwithout_def)
  moreover have "has_key ''t'' core"
    using assms(3) jget_missing by (fastforce simp: in_tuple_def)
  ultimately show ?thesis
    using assms by (simp add: id_verifies_def is_content_record_def jget_append)
qed

lemma make_op_verifies: "id_verifies H (make_op H at src payload g r s)"
  unfolding make_op_def Let_def
  by (rule built_id_verifies) (auto dest!: writer_core_keys simp: jget_writer_core in_tuple_def)

lemma make_obs_verifies: "id_verifies H (make_obs H at src provider payload account g r s)"
  unfolding make_obs_def Let_def
  by (rule built_id_verifies)
    (auto dest!: writer_core_keys simp: jget_writer_core jget_put_opt in_tuple_def put_opt_keys)

text \<open>The greatest element under a key.\<close>

lemma max_by_in: "max_by f m xs \<in> insert m (set xs)"
  by (induction xs arbitrary: m) (auto split: if_splits)

lemma max_by_start: "f m \<le> f (max_by f m xs)"
  by (induction xs arbitrary: m) (fastforce, simp, meson le_less_linear order.trans less_imp_le)

lemma max_by_ge: "x \<in> insert m (set xs) \<Longrightarrow> f x \<le> f (max_by f m xs)"
proof (induction xs arbitrary: m)
  case (Cons y xs)
  have "f m \<le> f (if f m < f y then y else m)" "f y \<le> f (if f m < f y then y else m)" by auto
  then show ?case
    using Cons max_by_start [of f "if f m < f y then y else m" xs]
    by (auto intro: order.trans)
qed simp

lemma reusable_bootstrapD:
  assumes "reusable_bootstrap_name dg sz existing = Some name"
  shows "(name, Some sz, Some dg) \<in> set existing \<and> starts_with name BOOTSTRAP_PREFIX
    \<and> (\<forall>(n, _, _) \<in> set existing. starts_with n BOOTSTRAP_PREFIX
         \<longrightarrow> segment_sort_key n \<le> segment_sort_key name)"
proof -
  let ?bs = "filter (\<lambda>(name, _, _). starts_with name BOOTSTRAP_PREFIX) existing"
  let ?f = "\<lambda>(name, _, _). segment_sort_key name"
  obtain b bs where bs: "?bs = b # bs"
    using assms by (auto simp: reusable_bootstrap_name_def split: list.splits)
  have m: "max_by ?f b bs = (name, Some sz, Some dg)"
    using assms bs
    by (auto simp: reusable_bootstrap_name_def split: prod.splits option.splits if_splits)
  have "max_by ?f b bs \<in> set ?bs" using max_by_in [of ?f b bs] bs by simp
  moreover have "\<forall>x \<in> set ?bs. ?f x \<le> segment_sort_key name"
    using max_by_ge [of _ b bs ?f] m bs by simp
  ultimately show ?thesis using m by auto
qed

text \<open>The last newline of a window.\<close>

lemma last_newline_None: "last_newline cs = None \<longleftrightarrow> CHR 0x0A \<notin> set cs"
  by (induction cs) (auto split: option.splits)

lemma last_newline_Some:
  "last_newline cs = Some i \<Longrightarrow> i < length cs \<and> cs ! i = CHR 0x0A \<and> CHR 0x0A \<notin> set (drop (Suc i) cs)"
proof (induction cs arbitrary: i)
  case (Cons c cs)
  then show ?case
    by (cases "last_newline cs") (auto simp: last_newline_None split: if_splits)
qed simp

text \<open>Zero-padded decimal numerals of equal width order like the numbers.\<close>

fun dec_pad :: "nat \<Rightarrow> nat \<Rightarrow> string" where
  "dec_pad 0 n = []"
| "dec_pad (Suc w) n = dec_pad w (n div 10) @ [char_of (48 + n mod 10)]"

lemma length_dec_pad [simp]: "length (dec_pad w n) = w"
  by (induction w arbitrary: n) auto

lemma char_of_48: "(char_of (48 :: nat) :: char) = CHR ''0''"
  by code_simp

lemma dec_pad_zero: "dec_pad w 0 = replicate w CHR ''0''"
  by (induction w) (simp_all add: replicate_append_same char_of_48)

lemma zero_pad_dec_pad:
  "n < 10 ^ w \<Longrightarrow> 0 < w \<Longrightarrow> replicate (w - length (nat_str n)) CHR ''0'' @ nat_str n = dec_pad w n"
proof (induction w arbitrary: n)
  case (Suc w)
  show ?case
  proof (cases "n < 10")
    case True
    then show ?thesis by (simp add: nat_str.simps [of n] dec_pad_zero)
  next
    case False
    then have "0 < w" using Suc.prems by (cases w) auto
    moreover have "n div 10 < 10 ^ w" using Suc.prems by (simp add: less_mult_imp_div_less mult.commute)
    ultimately show ?thesis using Suc.IH [of "n div 10"] False
      by (subst (1 2) nat_str.simps) simp
  qed
qed simp

lemma snoc_less_iff:
  fixes a b :: "'a::linorder"
  shows "length xs = length ys \<Longrightarrow> xs @ [a] < ys @ [b] \<longleftrightarrow> xs < ys \<or> (xs = ys \<and> a < b)"
  by (induction xs ys rule: list_induct2) auto

lemma append_less_iff:
  fixes xs :: "'a::linorder list"
  shows "length xs = length ys \<Longrightarrow> xs @ as < ys @ bs \<longleftrightarrow> xs < ys \<or> (xs = ys \<and> as < bs)"
  by (induction xs ys rule: list_induct2) auto

lemma digit_less: "a < 10 \<Longrightarrow> b < 10 \<Longrightarrow> (char_of (48 + a) :: char) < char_of (48 + b) \<longleftrightarrow> a < (b::nat)"
  by (simp add: less_char_def)

lemma div_mod_less_iff:
  fixes m n :: nat
  shows "m < n \<longleftrightarrow> m div 10 < n div 10 \<or> (m div 10 = n div 10 \<and> m mod 10 < n mod 10)"
proof -
  define a b c d where "a = m div 10" and "b = m mod 10" and "c = n div 10" and "d = n mod 10"
  then have "m = 10 * a + b" "n = 10 * c + d" "b < 10" "d < 10" by auto
  then show ?thesis unfolding a_def [symmetric] b_def [symmetric] c_def [symmetric] d_def [symmetric]
    by arith
qed

lemma dec_pad_less:
  "m < 10 ^ w \<Longrightarrow> n < 10 ^ w \<Longrightarrow> dec_pad w m < dec_pad w n \<longleftrightarrow> m < n"
proof (induction w arbitrary: m n)
  case (Suc w)
  have "m div 10 < 10 ^ w" "n div 10 < 10 ^ w"
    using Suc.prems by (simp_all add: less_mult_imp_div_less mult.commute)
  note IH = Suc.IH [OF this] Suc.IH [OF this(2,1)]
  have eq: "dec_pad w (m div 10) = dec_pad w (n div 10) \<longleftrightarrow> m div 10 = n div 10"
    using IH by (metis less_irrefl nat_neq_iff)
  have "dec_pad (Suc w) m < dec_pad (Suc w) n
      \<longleftrightarrow> m div 10 < n div 10 \<or> (m div 10 = n div 10 \<and> m mod 10 < n mod 10)"
    by (simp add: snoc_less_iff IH eq digit_less)
  also have "\<dots> \<longleftrightarrow> m < n"
    by (rule div_mod_less_iff [symmetric])
  finally show ?case .
qed simp

lemma dec_pad_eq: "m < 10 ^ w \<Longrightarrow> n < 10 ^ w \<Longrightarrow> dec_pad w m = dec_pad w n \<longleftrightarrow> m = n"
  using dec_pad_less [of m w n] dec_pad_less [of n w m] by (metis less_irrefl nat_neq_iff)

lemma segment_name_padded:
  "y < 10 ^ 4 \<Longrightarrow> m < 10 ^ 2 \<Longrightarrow>
    segment_name y m = SEGMENT_PREFIX @ dec_pad 4 y @ ''-'' @ dec_pad 2 m @ ''.jsonl''"
  using zero_pad_dec_pad [of y 4] zero_pad_dec_pad [of m 2]
  by (simp add: segment_name_def Let_def)

section \<open>Properties\<close>

text \<open>Preparing a record for append is idempotent and transport only: every field but the id and
  the three stamps is kept, an id that verified over the old core verifies over the stamped one,
  the semantic hash of an event does not move, and for a record that carried no stamp the previous
  release's shape, id included, is recovered exactly by \<open>unstamped_record\<close>.\<close>

theorem prepare_record_transport_only:
  assumes "prepare_record H r = Inr r'"
  shows "prepare_record H r' = Inr r'
    \<and> (\<forall>k. k \<noteq> ''id'' \<and> k \<notin> set STAMP_KEYS \<longrightarrow> jget r' k = jget r k)
    \<and> (id_verifies H r \<longrightarrow> id_verifies H r')
    \<and> (jget r ''t'' = JStr ''evt'' \<longrightarrow> event_content_hash H r' = event_content_hash H r)
    \<and> ((\<forall>k \<in> set STAMP_KEYS. \<not> has_key k r) \<and> (id_verifies H r \<or> \<not> is_content_record r)
         \<longrightarrow> unstamped_record H r' = r)"
proof (intro conjI impI)
  show "\<forall>k. k \<noteq> ''id'' \<and> k \<notin> set STAMP_KEYS \<longrightarrow> jget r' k = jget r k"
    using prepare_record_fields [OF assms] by blast
  show "unstamped_record H r' = r" if *: "(\<forall>k \<in> set STAMP_KEYS. \<not> has_key k r)
      \<and> (id_verifies H r \<or> \<not> is_content_record r)"
    using unstamped_prepare [OF assms bspec [OF conjunct1 [OF *]] conjunct2 [OF *]] .
qed (fact prepare_record_idempotent [OF assms], rule prepare_record_verifies [OF assms],
     assumption, rule event_hash_prepare [OF assms], assumption)

theorem prepare_record_transport_only_witness:
  "\<exists>r'. prepare_record (\<lambda>s. s) (make_op (\<lambda>s. s) ''2026-01-01'' ''s'' [] None Default Default) = Inr r'
    \<and> unstamped_record (\<lambda>s. s) r' = make_op (\<lambda>s. s) ''2026-01-01'' ''s'' [] None Default Default"
proof -
  let ?r = "make_op (\<lambda>s. s) ''2026-01-01'' ''s'' [] None Default Default"
  have fresh: "\<forall>k \<in> set STAMP_KEYS. \<not> has_key k ?r"
    by (simp add: make_op_def Let_def writer_core_def resolve_arg_def put_opt_def py_simps)
  then have "stamp (JObj ?r) = Inr (JObj (stamped_of ?r))"
    by (simp add: stamp_def stamped_of_def STAMP_KEYS_def jget_missing)
  then obtain r' where r': "prepare_record (\<lambda>s. s) ?r = Inr r'"
    by (cases "prepare_record (\<lambda>s. s) ?r") (auto simp: prepare_record_def split: if_splits)
  have "unstamped_record (\<lambda>s. s) r' = ?r"
    using prepare_record_transport_only [OF r'] fresh make_op_verifies by (elim conjE) simp
  then show ?thesis using r' by (intro exI conjI)
qed

text \<open>The content id of every observation and operation line the builders make, current or of
  a previous release's shape, verifies over the line; and so does the id of the line
  without its stamps.\<close>

theorem built_records_verify:
  "id_verifies H (make_obs H at src provider payload account g r s)
   \<and> id_verifies H (make_op H at src payload g r s)
   \<and> id_verifies H (unstamped_record H (make_op H at src payload g r s))
   \<and> id_verifies H (unstamped_record H (make_obs H at src provider payload account g r s))"
proof -
  have "id_verifies H (unstamped_record H x)" if "id_verifies H x" for x
    using that reidentify_id [OF that, of "dwithout [WPG, WPR, WPX] x"]
    by (auto simp: unstamped_record_def jget_dwithout py_simps)
  then show ?thesis using make_op_verifies make_obs_verifies by blast
qed

text \<open>A cutover reuses a published bootstrap only when it matches the candidate's size and digest
  exactly and no published bootstrap is canonically newer, so the reused segment is the one the
  cursor must cover.\<close>

theorem reused_bootstrap_is_newest:
  assumes "reusable_bootstrap_name dg sz existing = Some name"
  shows "(name, Some sz, Some dg) \<in> set existing
    \<and> (\<forall>(n, _, _) \<in> set existing. starts_with n BOOTSTRAP_PREFIX
         \<longrightarrow> segment_sort_key n \<le> segment_sort_key name)"
  using reusable_bootstrapD [OF assms] by blast

theorem reused_bootstrap_is_newest_witness:
  "reusable_bootstrap_name ''d'' 5 [(''bootstrap-2'', Some 5, Some ''d''),
     (''observations-3'', Some 9, None), (''bootstrap-1'', None, None)] = Some ''bootstrap-2''
   \<and> segment_sort_key ''bootstrap-1'' \<le> segment_sort_key ''bootstrap-2''"
proof -
  have *: "reusable_bootstrap_name ''d'' 5 [(''bootstrap-2'', Some 5, Some ''d''),
     (''observations-3'', Some 9, None), (''bootstrap-1'', None, None)] = Some ''bootstrap-2''"
    by code_simp
  have "starts_with ''bootstrap-1'' BOOTSTRAP_PREFIX" by code_simp
  then show ?thesis using reused_bootstrap_is_newest [OF *] * by simp
qed

text \<open>The torn-tail scan never moves outside the window it was given; what it keeps of the window
  is empty or ends with a newline, and what it cuts holds no newline, so exactly the incomplete
  last line is dropped.\<close>

theorem torn_tail_cut:
  "\<exists>n. n \<le> length chunk \<and> valid_tail_offset chunk start = start + int n
     \<and> (take n chunk = [] \<or> last (take n chunk) = CHR 0x0A)
     \<and> CHR 0x0A \<notin> set (drop n chunk)"
proof (cases "last_newline chunk")
  case None
  then show ?thesis by (intro exI [of _ 0]) (simp add: valid_tail_offset_def flip: last_newline_None)
next
  case (Some i)
  note last_newline_Some [OF Some]
  then show ?thesis
    using Some by (intro exI [of _ "Suc i"])
      (simp add: valid_tail_offset_def take_Suc_conv_app_nth)
qed

text \<open>Observation segments sort chronologically: for four-digit years the canonical segment order
  on their names is the order of (year, month), and every bootstrap sorts before all of them.\<close>

theorem segments_chronological:
  assumes "y < 10000" and "y' < 10000" and "m < 100" and "m' < 100"
  shows "(segment_sort_key (segment_name y m) < segment_sort_key (segment_name y' m')
      \<longleftrightarrow> y < y' \<or> (y = y' \<and> m < m'))
    \<and> segment_sort_key (BOOTSTRAP_PREFIX @ stem) < segment_sort_key (segment_name y m)"
proof -
  have key: "segment_sort_key (segment_name a b) = (1, segment_name a b)"
    if "a < 10000" "b < 100" for a b
    using that by (simp add: segment_name_padded segment_sort_key_def starts_with_def
        SEGMENT_PREFIX_def BOOTSTRAP_PREFIX_def)
  have same: "p @ x < p @ y \<longleftrightarrow> x < y" for p x y :: string
    by (simp add: append_less_iff)
  have "segment_name y m < segment_name y' m' \<longleftrightarrow> y < y' \<or> (y = y' \<and> m < m')"
    using assms
    by (simp add: segment_name_padded same append_less_iff dec_pad_less dec_pad_eq)
  moreover have "segment_sort_key (BOOTSTRAP_PREFIX @ stem) = (0, BOOTSTRAP_PREFIX @ stem)"
    by (simp add: segment_sort_key_def starts_with_def)
  ultimately show ?thesis using assms by (simp add: key)
qed

theorem segments_chronological_witness:
  "segment_sort_key (segment_name 2025 12) < segment_sort_key (segment_name 2026 1)"
  using segments_chronological [of 2025 2026 12 1] by simp

end
