(* ===== verification/Journal_Batches.thy ===== *)
theory Journal_Batches
  imports Journal_Records
begin

text \<open>
  \<open>bin/_lib_journal.py\<close>, the correction protocol's builders and validators: bounded violation
  evidence, the operator acknowledgement of violations, correction actions, the
  begin/action/commit records of one batch, and the candidates the selector draws from them.
\<close>

section \<open>Violations\<close>

datatype batch_phase = Begin | Commit

record violation =
  vi_batch :: string
  vi_kind :: string
  vi_evidence :: "(string \<times> json) list"

definition evidence_json :: "(string \<times> json) list \<Rightarrow> json" where
  "evidence_json e = JObj e"

definition fingerprint :: "(string \<Rightarrow> string) \<Rightarrow> violation \<Rightarrow> string" where
  "fingerprint H v = sha256_canonical H (JObj [(''batchId'', JStr (vi_batch v)),
     (''kind'', JStr (vi_kind v)), (''evidence'', evidence_json (vi_evidence v))])"

definition protocol_violation :: "string \<Rightarrow> string \<Rightarrow> (string \<times> json) list \<Rightarrow> violation" where
  "protocol_violation batch_id kind evidence =
     \<lparr>vi_batch = batch_id, vi_kind = kind, vi_evidence = evidence\<rparr>"

text \<open>The check of \<open>ProtocolViolation.__post_init__\<close>: one to eight scalars under distinct names.\<close>

definition violation_ok :: "violation \<Rightarrow> bool" where
  "violation_ok v \<longleftrightarrow> vi_batch v \<noteq> [] \<and> vi_kind v \<noteq> []
     \<and> 1 \<le> length (vi_evidence v) \<and> length (vi_evidence v) \<le> 8
     \<and> distinct (map fst (vi_evidence v))
     \<and> list_all (\<lambda>(k, x). k \<noteq> [] \<and> (case x of JInt _ \<Rightarrow> True | JStr _ \<Rightarrow> True | _ \<Rightarrow> False))
         (vi_evidence v)"

definition violation_to_dict :: "(string \<Rightarrow> string) \<Rightarrow> violation \<Rightarrow> jobj" where
  "violation_to_dict H v = [(''batchId'', JStr (vi_batch v)), (''kind'', JStr (vi_kind v)),
     (''evidence'', evidence_json (vi_evidence v)), (''fingerprint'', JStr (fingerprint H v))]"

section \<open>Acknowledgements\<close>

definition PROTOCOL_RESOLUTION_KINDS :: "string list" where
  "PROTOCOL_RESOLUTION_KINDS = [''journal_protocol_resolution'', ''journal_protocol_resolution_v2'',
     ''journal_protocol_resolution_v3'', ''journal_protocol_resolution_v4'']"

definition RESOLUTION_SRC :: string where "RESOLUTION_SRC = ''journal-repair''"

definition valid_prefix_hash :: "string \<Rightarrow> bool" where
  "valid_prefix_hash s \<longleftrightarrow> starts_with s ''sha256:'' \<and> length s = 71 \<and> list_all is_hex (drop 7 s)"

definition violation_ref :: "(string \<Rightarrow> string) \<Rightarrow> violation \<Rightarrow> json" where
  "violation_ref H v = JObj [(''batch_id'', JStr (vi_batch v)), (''kind'', JStr (vi_kind v)),
     (''fingerprint'', JStr (fingerprint H v))]"

definition make_protocol_resolution :: "(string \<Rightarrow> string) \<Rightarrow> string \<Rightarrow> violation list
    \<Rightarrow> string \<times> int \<Rightarrow> string \<Rightarrow> protocol_error + jobj" where
  "make_protocol_resolution H at violations high_water prefix_hash =
     (if at = [] then Inl (ValueError ''protocol resolution at must be a non-empty string'')
      else if violations = []
        then Inl (ValueError ''protocol resolution requires at least one violation'')
      else let vs = sort_key (fingerprint H) violations in
        if \<not> distinct (map (fingerprint H) vs)
          then Inl (ValueError ''protocol resolution violations must be unique'')
        else if fst high_water = [] \<or> snd high_water < 0
          then Inl (ValueError ''protocol resolution high-water is invalid'')
        else if \<not> valid_prefix_hash prefix_hash
          then Inl (ValueError ''protocol resolution prefix hash is invalid'')
        else Inr (make_op H at RESOLUTION_SRC
          [(''kind'', JStr ''journal_protocol_resolution_v4''),
           (''violations'', JArr (map (violation_ref H) vs)),
           (''journal_high_water'', JObj [(''segment'', JStr (fst high_water)),
              (''offset'', JInt (snd high_water))]),
           (''journal_prefix_hash'', JStr prefix_hash)]
          (Some PROTOCOL_GENERATION) Default Default))"

record resolution =
  rs_audit_id :: string
  rs_high_water :: "string \<times> int"
  rs_prefix_hash :: string
  rs_refs :: "jobj list"

definition is_protocol_resolution :: "json \<Rightarrow> journal_error + bool" where
  "is_protocol_resolution r = (case r of
     JObj d \<Rightarrow> if jget d ''t'' = JStr ''op'' \<and> is_obj (jget d ''payload'')
       then let k = jget (the_obj (jget d ''payload'')) ''kind'' in
         (if unhashable k then Inl Unhashable else Inr (in_tuple k PROTOCOL_RESOLUTION_KINDS))
       else Inr False
   | _ \<Rightarrow> Inr False)"

definition ref_fields :: "string list" where
  "ref_fields = [''batch_id'', ''kind'', ''fingerprint'']"

definition validate_ref :: "json \<Rightarrow> journal_error + jobj" where
  "validate_ref ref =
     require (is_obj ref \<and> has_exact_keys ref_fields (the_obj ref))
       ''journal protocol resolution violation shape is invalid''
     (require (list_all (\<lambda>k. nonempty_str (jget (the_obj ref) k)) ref_fields)
       ''journal protocol resolution violation identity is invalid''
     (Inr (the_obj ref)))"

definition validate_protocol_resolution ::
    "(string \<Rightarrow> string) \<Rightarrow> jobj \<Rightarrow> journal_error + resolution" where
  "validate_protocol_resolution H r =
     (let required = [''v'', ''t'', ''id'', ''at'', ''src'', ''payload'']; payload = jget r ''payload'';
          p = the_obj payload; hw = jget p ''journal_high_water'';
          core = put_opt WPX (dget r WPX) (put_opt WPR (dget r WPR) (put_opt WPG (dget r WPG)
            [(''t'', jget r ''t''), (''at'', jget r ''at''), (''src'', jget r ''src''),
             (''payload'', payload)])) in
      require (has_exact_keys required r \<or> has_exact_keys (required @ [WPG]) r
          \<or> has_exact_keys (required @ [WPG, WPR]) r
          \<or> has_exact_keys (required @ [WPG, WPR, WPX]) r)
        ''journal protocol resolution record shape is invalid''
     (require (is_line_version (jget r ''v'') \<and> jget r ''t'' = JStr ''op''
          \<and> jget r ''src'' = JStr RESOLUTION_SRC \<and> nonempty_str (jget r ''at''))
        ''journal protocol resolution record identity is invalid''
     (require (jget r ''id'' = JStr (content_id H core))
        ''journal protocol resolution record id does not match its content''
     (require (is_obj payload \<and> has_exact_keys
          [''kind'', ''violations'', ''journal_high_water'', ''journal_prefix_hash''] p)
        ''journal protocol resolution payload shape is invalid''
     (require_in (jget p ''kind'') PROTOCOL_RESOLUTION_KINDS
        ''journal protocol resolution kind is invalid''
     (require (is_obj hw \<and> has_exact_keys [''segment'', ''offset''] (the_obj hw))
        ''journal protocol resolution high-water shape is invalid''
     (require (nonempty_str (jget (the_obj hw) ''segment'')
          \<and> nonneg_int (jget (the_obj hw) ''offset''))
        ''journal protocol resolution high-water is invalid''
     (require (is_str (jget p ''journal_prefix_hash'')
          \<and> valid_prefix_hash (the_str (jget p ''journal_prefix_hash'')))
        ''journal protocol resolution prefix hash is invalid''
     (case jget p ''violations'' of
        JArr (ref # refs) \<Rightarrow> rbind (rmap validate_ref (ref # refs)) (\<lambda>normalized.
          require (distinct (map (\<lambda>d. jget d ''fingerprint'') normalized))
            ''journal protocol resolution violations must be unique''
            (Inr \<lparr>rs_audit_id = the_str (jget r ''id''),
                  rs_high_water = (the_str (jget (the_obj hw) ''segment''),
                                   the_int (jget (the_obj hw) ''offset'')),
                  rs_prefix_hash = the_str (jget p ''journal_prefix_hash''),
                  rs_refs = normalized\<rparr>))
      | _ \<Rightarrow> Inl (JournalProtocolError
          ''journal protocol resolution requires exact violations''))))))))))"

section \<open>Correction actions\<close>

definition correction_action_core :: "jobj \<Rightarrow> jobj" where
  "correction_action_core r = map (\<lambda>k. (k, jget r k))
     [''action'', ''id'', ''rev'', ''at'', ''src'', ''payload'']"

definition validate_action_core :: "json \<Rightarrow> journal_error + jobj" where
  "validate_action_core action =
     (let a = the_obj action; payload = jget a ''payload'' in
      require (is_obj action \<and> has_exact_keys [''action'', ''id'', ''rev'', ''at'', ''payload''] a)
        ''correction action must contain action,id,rev,at,payload''
     (require_in (jget a ''action'') [''replace'', ''tombstone'']
        ''correction action must be replace or tombstone''
     (require (nonempty_str (jget a ''id''))
        ''correction action id must be a non-empty string''
     (rbind (validate_revision (jget a ''rev'')) (\<lambda>_.
      require (nonempty_str (jget a ''at''))
        ''correction action at must be a non-empty string''
     (let checked = Inr [(''action'', jget a ''action''), (''id'', jget a ''id''),
            (''rev'', jget a ''rev''), (''at'', jget a ''at''), (''src'', JStr ''rederive''),
            (''payload'', if is_obj payload then payload else JNull)] in
      if jget a ''action'' = JStr ''replace''
        then require (is_obj payload \<and> is_str (jget (the_obj payload) ''kind''))
               ''replacement correction payload must contain a string kind'' checked
        else require (payload = JNull) ''tombstone correction payload must be null'' checked))))))"

section \<open>Correction batches\<close>

definition batch_marker :: "string \<Rightarrow> string \<Rightarrow> string \<Rightarrow> int \<Rightarrow> string \<Rightarrow> jobj" where
  "batch_marker batch_id family at n actions_hash =
     [(''v'', JInt LINE_VERSION), (''t'', JStr ''correction_batch''), (''id'', JStr batch_id),
      (''at'', JStr at), (''src'', JStr ''rederive''), (''family'', JStr family),
      (''action_count'', JInt n), (''actions_hash'', JStr actions_hash)] @ writer_stamps"

definition phase_name :: "batch_phase \<Rightarrow> string" where
  "phase_name p = (case p of Begin \<Rightarrow> ''begin'' | Commit \<Rightarrow> ''commit'')"

definition marker_record :: "jobj \<Rightarrow> batch_phase \<Rightarrow> jobj" where
  "marker_record marker p = marker @ [(''phase'', JStr (phase_name p))]"

definition action_record :: "string \<Rightarrow> nat \<Rightarrow> jobj \<Rightarrow> jobj" where
  "action_record batch_id seq core =
     [(''v'', JInt LINE_VERSION), (''t'', JStr ''correction'')] @ core
     @ [(''batch'', JStr batch_id), (''seq'', JInt (int seq))] @ writer_stamps"

definition make_correction_batch :: "(string \<Rightarrow> string) \<Rightarrow> json \<Rightarrow> json \<Rightarrow> json \<Rightarrow> json list
    \<Rightarrow> journal_error + jobj list" where
  "make_correction_batch H batch_id family at actions =
     require (nonempty_str batch_id) ''correction batch id must be a non-empty string''
     (require (nonempty_str family) ''correction family must be a non-empty string''
     (require (nonempty_str at) ''correction batch at must be a non-empty string''
     (rbind (rmap validate_action_core actions) (\<lambda>cores.
       let marker = batch_marker (the_str batch_id) (the_str family) (the_str at)
             (int (length cores)) (sha256_canonical H (JArr (map JObj cores)))
       in Inr (marker_record marker Begin
            # map (\<lambda>(seq, core). action_record (the_str batch_id) seq core) (enumerate 0 cores)
            @ [marker_record marker Commit])))))"

definition ends_with :: "string \<Rightarrow> string \<Rightarrow> bool" where
  "ends_with s q \<longleftrightarrow> length q \<le> length s \<and> drop (length s - length q) s = q"

definition revision_batch_id :: "string \<Rightarrow> json list \<Rightarrow> string" where
  "revision_batch_id batch_id begins =
     (if begins = [] \<or> list_ex has_successor_revision begins then batch_id
      else let suffix = '':wpr'' @ int_str PROTOCOL_REVISION;
               logical = (if ends_with batch_id suffix
                 then take (length batch_id - length suffix) batch_id else batch_id)
           in logical @ '':wpx'' @ int_str SUCCESSOR_REVISION)"

text \<open>
  \<open>int(text, 16)\<close> succeeds on more than hexadecimal digits: surrounding white space, one sign,
  a \<open>0x\<close> prefix and single underscores between digits.
\<close>

definition py_space :: "char \<Rightarrow> bool" where
  "py_space c \<longleftrightarrow> (let n = (of_char c :: nat) in (9 \<le> n \<and> n \<le> 13) \<or> (28 \<le> n \<and> n \<le> 32)
     \<or> n = 133 \<or> n = 160)"

definition py_strip :: "string \<Rightarrow> string" where
  "py_strip s = rev (dropWhile py_space (rev (dropWhile py_space s)))"

definition py_hex_char :: "char \<Rightarrow> bool" where
  "py_hex_char c \<longleftrightarrow> (let n = (of_char c :: nat) in
     (48 \<le> n \<and> n \<le> 57) \<or> (97 \<le> n \<and> n \<le> 102) \<or> (65 \<le> n \<and> n \<le> 70))"

text \<open>A run of digits; the flag says whether the previous character was a digit.\<close>

fun py_hex_run :: "bool \<Rightarrow> string \<Rightarrow> bool" where
  "py_hex_run digit [] = digit"
| "py_hex_run digit (c # cs) =
     (if c = CHR ''_'' then digit \<and> py_hex_run False cs
      else py_hex_char c \<and> py_hex_run True cs)"

definition py_int16_ok :: "string \<Rightarrow> bool" where
  "py_int16_ok text =
     (let s = py_strip text;
          u = (case s of c # cs \<Rightarrow> if c = CHR ''+'' \<or> c = CHR ''-'' then cs else s | [] \<Rightarrow> s);
          w = (if take 2 u = ''0x'' \<or> take 2 u = ''0X''
               then (case drop 2 u of c # cs \<Rightarrow> if c = CHR ''_'' then cs else c # cs | [] \<Rightarrow> [])
               else u)
      in py_hex_run False w)"

definition validate_batch_marker :: "jobj \<Rightarrow> journal_error + jobj" where
  "validate_batch_marker r =
     (let ah = the_str (jget r ''actions_hash'') in
      require (nonempty_str (jget r ''id'')) ''correction batch id must be a non-empty string''
     (require_in (jget r ''phase'') [''begin'', ''commit'']
        ''correction batch phase must be begin or commit''
     (require (nonempty_str (jget r ''family''))
        ''correction batch family must be a non-empty string''
     (require (nonempty_str (jget r ''at'')) ''correction batch at must be a non-empty string''
     (require (jget r ''src'' = JStr ''rederive'') ''correction batch src must be rederive''
     (require (nonneg_int (jget r ''action_count''))
        ''correction batch action_count must be a non-negative integer''
     (require (is_str (jget r ''actions_hash'') \<and> starts_with ah ''sha256:'' \<and> length ah = 71
          \<and> py_int16_ok (drop 7 ah))
        ''correction batch actions_hash is invalid''
     (Inr [(''v'', jget_or r ''v'' (JInt LINE_VERSION)), (''t'', JStr ''correction_batch''),
        (''id'', jget r ''id''), (''at'', jget r ''at''), (''src'', JStr ''rederive''),
        (''family'', jget r ''family''), (''action_count'', jget r ''action_count''),
        (''actions_hash'', jget r ''actions_hash'')]))))))))"

definition validate_correction_record :: "jobj \<Rightarrow> journal_error + jobj" where
  "validate_correction_record r =
     require (nonempty_str (jget r ''batch'')) ''correction batch must be a non-empty string''
     (require (nonneg_int (jget r ''seq'')) ''correction seq must be a non-negative integer''
     (require (jget r ''src'' = JStr ''rederive'') ''correction src must be rederive''
     (rbind (validate_action_core (JObj [(''action'', jget r ''action''), (''id'', jget r ''id''),
          (''rev'', jget r ''rev''), (''at'', jget r ''at''), (''payload'', jget r ''payload'')]))
       (\<lambda>core. Inr ([(''v'', jget_or r ''v'' (JInt LINE_VERSION)), (''t'', JStr ''correction'')]
          @ core @ [(''batch'', jget r ''batch''), (''seq'', jget r ''seq'')])))))"

section \<open>Candidates\<close>

datatype event_status = ActiveEvt | TombstoneEvt

record effective_event =
  ev_id :: string
  ev_rev :: int
  ev_status :: event_status
  ev_hash :: string
  ev_batch :: "string option"
  ev_record :: "jobj option"
  ev_sequence :: nat

definition candidate_from_evt ::
    "(string \<Rightarrow> string) \<Rightarrow> jobj \<Rightarrow> nat \<Rightarrow> journal_error + effective_event" where
  "candidate_from_evt H r sequence =
     require (nonempty_str (jget r ''id'')) ''event id must be a non-empty string''
     (rbind (event_revision r) (\<lambda>revision.
       require (revision = 0)
         ''ordinary evt revision must be 0; use a completed correction batch''
       (require (is_obj (jget r ''payload'')) ''event payload must be an object''
       (Inr \<lparr>ev_id = the_str (jget r ''id''), ev_rev = revision, ev_status = ActiveEvt,
             ev_hash = event_content_hash H r, ev_batch = None, ev_record = Some r,
             ev_sequence = sequence\<rparr>))))"

text \<open>The replacement event a correction stands for.\<close>

definition correction_event :: "jobj \<Rightarrow> jobj" where
  "correction_event r = [(''v'', JInt LINE_VERSION), (''t'', JStr ''evt''), (''id'', jget r ''id''),
     (''rev'', jget r ''rev''), (''at'', jget r ''at''), (''src'', jget r ''src''),
     (''payload'', jget r ''payload'')]"

definition candidate_from_correction ::
    "(string \<Rightarrow> string) \<Rightarrow> jobj \<Rightarrow> nat \<Rightarrow> effective_event" where
  "candidate_from_correction H r sequence =
     (if jget r ''action'' = JStr ''tombstone''
      then \<lparr>ev_id = the_str (jget r ''id''), ev_rev = the_int (jget r ''rev''),
            ev_status = TombstoneEvt,
            ev_hash = sha256_canonical H (JObj (correction_action_core r)),
            ev_batch = Some (the_str (jget r ''batch'')), ev_record = None,
            ev_sequence = sequence\<rparr>
      else \<lparr>ev_id = the_str (jget r ''id''), ev_rev = the_int (jget r ''rev''),
            ev_status = ActiveEvt,
            ev_hash = sha256_canonical H (JObj (correction_event r)),
            ev_batch = Some (the_str (jget r ''batch'')),
            ev_record = Some (correction_event r),
            ev_sequence = sequence\<rparr>)"

text \<open>
  \<open>payload.get("kind") == "quota_alert_arming"\<close>: a record in hand always carries a validated
  revision, so the check of the revision cannot raise here.
\<close>

definition is_legacy_arming_record :: "jobj \<Rightarrow> bool" where
  "is_legacy_arming_record r \<longleftrightarrow> jget_or r ''rev'' (JInt 0) = JInt 0
     \<and> (let payload = the_obj (jget r ''payload'') in
          jget payload ''kind'' = JStr ''quota_alert_arming''
          \<and> \<not> has_key ''journal_identity_version'' payload)"

definition is_legacy_arming_state :: "effective_event \<Rightarrow> bool" where
  "is_legacy_arming_state c \<longleftrightarrow> ev_status c = ActiveEvt
     \<and> (case ev_record c of None \<Rightarrow> False | Some r \<Rightarrow> is_legacy_arming_record r)"

section \<open>Lemmas\<close>

text \<open>The documented shape of \<open>hexdigest()\<close>: 64 lower-case hexadecimal digits.\<close>

definition hexdigest :: "(string \<Rightarrow> string) \<Rightarrow> bool" where
  "hexdigest H \<longleftrightarrow> (\<forall>s. length (H s) = 64 \<and> list_all is_hex (H s))"

lemma hexdigest_valid: "hexdigest H \<Longrightarrow> valid_prefix_hash (sha256_canonical H v)"
  by (simp add: hexdigest_def valid_prefix_hash_def sha256_canonical_def starts_with_def)

lemma is_hex_char: "is_hex c \<Longrightarrow> c \<noteq> CHR ''_'' \<and> py_hex_char c"
  by (auto simp: is_hex_def py_hex_char_def Let_def)

lemma py_hex_run_hex: "list_all is_hex s \<Longrightarrow> (s = [] \<longrightarrow> b) \<Longrightarrow> py_hex_run b s"
  by (induction s arbitrary: b) (simp_all add: is_hex_char)

lemma py_strip_hex: "list_all is_hex s \<Longrightarrow> py_strip s = s"
proof -
  assume hex: "list_all is_hex s"
  have no_space: "\<not> py_space c" if "is_hex c" for c
    using that by (auto simp: is_hex_def py_space_def Let_def)
  have keep: "dropWhile py_space t = t" if "list_all is_hex t" for t
    using that no_space by (cases t) auto
  show ?thesis using hex by (simp add: py_strip_def keep)
qed

lemma py_int16_hex:
  assumes "list_all is_hex s" and "s \<noteq> []" shows "py_int16_ok s"
proof -
  obtain c cs where s: "s = c # cs" using assms(2) by (cases s) auto
  have "c \<noteq> CHR ''+''" "c \<noteq> CHR ''-''" using assms(1) s by (auto simp: is_hex_def)
  moreover have "take 2 s \<noteq> ''0x''" "take 2 s \<noteq> ''0X''"
    using assms(1) s by (cases cs; auto simp: is_hex_def)+
  moreover have "py_hex_run False s" using assms by (simp add: py_hex_run_hex)
  ultimately show ?thesis
    using assms(1) s by (auto simp: py_int16_ok_def py_strip_hex simp del: py_hex_run.simps)
qed

lemma hexdigest_marker_hash:
  assumes "hexdigest H"
  shows "starts_with (sha256_canonical H v) ''sha256:'' \<and> length (sha256_canonical H v) = 71
    \<and> py_int16_ok (drop 7 (sha256_canonical H v))"
proof -
  have "H (canonical_json v) \<noteq> []" using assms unfolding hexdigest_def
    by (metis list.size(3) zero_neq_numeral)
  then show ?thesis
    using assms by (simp add: hexdigest_def sha256_canonical_def starts_with_def py_int16_hex)
qed

text \<open>The shape of a checked action.\<close>

definition action_core :: "string \<Rightarrow> string \<Rightarrow> int \<Rightarrow> string \<Rightarrow> json \<Rightarrow> jobj" where
  "action_core act ident revision at payload =
     [(''action'', JStr act), (''id'', JStr ident), (''rev'', JInt revision), (''at'', JStr at),
      (''src'', JStr ''rederive''), (''payload'', payload)]"

definition wf_action :: "string \<Rightarrow> string \<Rightarrow> int \<Rightarrow> string \<Rightarrow> json \<Rightarrow> bool" where
  "wf_action act ident revision at payload \<longleftrightarrow> ident \<noteq> [] \<and> 0 \<le> revision \<and> at \<noteq> []
     \<and> ((act = ''replace'' \<and> is_obj payload \<and> is_str (jget (the_obj payload) ''kind''))
        \<or> (act = ''tombstone'' \<and> payload = JNull))"

definition wf_core :: "jobj \<Rightarrow> bool" where
  "wf_core c \<longleftrightarrow> (\<exists>act ident revision at payload.
     c = action_core act ident revision at payload \<and> wf_action act ident revision at payload)"

lemma validate_action_core_wf: "validate_action_core a = Inr c \<Longrightarrow> wf_core c"
  by (auto simp: validate_action_core_def validate_revision_def Let_def rbind_Inr_iff in_tuple_iff
      wf_core_def action_core_def wf_action_def elim!: nonempty_strE nonneg_intE split: if_splits)

lemma wf_coreE:
  assumes "wf_core c"
  obtains act ident revision at payload where
    "c = action_core act ident revision at payload" "wf_action act ident revision at payload"
  using assms by (auto simp: wf_core_def)

text \<open>A correction record normalizes to its own fields, and its core is the action it carries.\<close>

definition normal_action :: "string \<Rightarrow> nat \<Rightarrow> jobj \<Rightarrow> jobj" where
  "normal_action batch_id seq core =
     [(''v'', JInt LINE_VERSION), (''t'', JStr ''correction'')] @ core
     @ [(''batch'', JStr batch_id), (''seq'', JInt (int seq))]"

lemma validate_action_core_again:
  assumes "wf_action act ident revision at payload"
  shows "validate_action_core (JObj [(''action'', JStr act), (''id'', JStr ident),
      (''rev'', JInt revision), (''at'', JStr at), (''payload'', payload)])
    = Inr (action_core act ident revision at payload)"
proof -
  have "has_exact_keys [''action'', ''id'', ''rev'', ''at'', ''payload'']
      [(''action'', JStr act), (''id'', JStr ident), (''rev'', JInt revision), (''at'', JStr at),
       (''payload'', payload)]"
    by (simp add: has_exact_keys_def dkeys_def)
  then show ?thesis
    using assms
    by (auto simp: validate_action_core_def validate_revision_def wf_action_def action_core_def
        in_tuple_def require_in_def unhashable_def)
qed

lemma validate_correction_action_record:
  assumes "wf_core core" and "batch_id \<noteq> []"
  shows "validate_correction_record (action_record batch_id seq core)
    = Inr (normal_action batch_id seq core)"
proof -
  obtain act ident revision at payload where
    c: "core = action_core act ident revision at payload" "wf_action act ident revision at payload"
    using assms(1) by (rule wf_coreE)
  let ?r = "action_record batch_id seq core"
  have "jget ?r ''action'' = JStr act" "jget ?r ''id'' = JStr ident" "jget ?r ''rev'' = JInt revision"
    "jget ?r ''at'' = JStr at" "jget ?r ''payload'' = payload" "jget ?r ''batch'' = JStr batch_id"
    "jget ?r ''seq'' = JInt (int seq)" "jget ?r ''src'' = JStr ''rederive''"
    "jget_or ?r ''v'' (JInt LINE_VERSION) = JInt LINE_VERSION"
    by (simp_all add: action_record_def c action_core_def jget_or_def dget_or_def)
  then show ?thesis
    using assms(2) c(2) validate_action_core_again [OF c(2)]
    by (simp add: validate_correction_record_def normal_action_def c(1))
qed

lemma normal_action_core:
  "wf_core core \<Longrightarrow> correction_action_core (normal_action batch_id seq core) = core"
  by (erule wf_coreE) (simp add: correction_action_core_def normal_action_def action_core_def)

lemma normal_action_fields:
  "wf_core core \<Longrightarrow> jget (normal_action batch_id seq core) ''batch'' = JStr batch_id
    \<and> jget (normal_action batch_id seq core) ''seq'' = JInt (int seq)"
  by (erule wf_coreE) (simp add: normal_action_def action_core_def)

text \<open>A marker record normalizes to its identity without stamps and phase.\<close>

definition normal_marker :: "string \<Rightarrow> string \<Rightarrow> string \<Rightarrow> int \<Rightarrow> string \<Rightarrow> jobj" where
  "normal_marker batch_id family at n actions_hash =
     [(''v'', JInt LINE_VERSION), (''t'', JStr ''correction_batch''), (''id'', JStr batch_id),
      (''at'', JStr at), (''src'', JStr ''rederive''), (''family'', JStr family),
      (''action_count'', JInt n), (''actions_hash'', JStr actions_hash)]"

lemma validate_marker_record:
  assumes "hexdigest H" and "batch_id \<noteq> []" and "family \<noteq> []" and "at \<noteq> []"
  shows "validate_batch_marker (marker_record (batch_marker batch_id family at (int n)
      (sha256_canonical H v)) p) = Inr (normal_marker batch_id family at (int n) (sha256_canonical H v))"
proof -
  let ?r = "marker_record (batch_marker batch_id family at (int n) (sha256_canonical H v)) p"
  have "jget ?r ''id'' = JStr batch_id" "jget ?r ''family'' = JStr family" "jget ?r ''at'' = JStr at"
    "jget ?r ''src'' = JStr ''rederive''" "jget ?r ''action_count'' = JInt (int n)"
    "jget ?r ''actions_hash'' = JStr (sha256_canonical H v)"
    "jget ?r ''phase'' = JStr (phase_name p)"
    "jget_or ?r ''v'' (JInt LINE_VERSION) = JInt LINE_VERSION"
    by (simp_all add: marker_record_def batch_marker_def writer_stamps_def py_simps jget_or_def
        dget_or_def)
  moreover have "in_tuple (JStr (phase_name p)) [''begin'', ''commit'']"
    by (cases p) (simp_all add: phase_name_def in_tuple_def)
  ultimately show ?thesis
    using assms hexdigest_marker_hash [OF assms(1), of v]
    by (simp add: validate_batch_marker_def normal_marker_def)
qed

lemma make_correction_batchE:
  assumes "make_correction_batch H b f a actions = Inr records"
  obtains bid family at cores where "b = JStr bid" "f = JStr family" "a = JStr at"
    "bid \<noteq> []" "family \<noteq> []" "at \<noteq> []" "rmap validate_action_core actions = Inr cores"
    "list_all wf_core cores"
    "records = marker_record (batch_marker bid family at (int (length cores))
        (sha256_canonical H (JArr (map JObj cores)))) Begin
      # map (\<lambda>(seq, core). action_record bid seq core) (enumerate 0 cores)
      @ [marker_record (batch_marker bid family at (int (length cores))
        (sha256_canonical H (JArr (map JObj cores)))) Commit]"
proof -
  have wf: "list_all wf_core cores" if "rmap validate_action_core xs = Inr cores" for xs cores
    using that
    by (induction xs arbitrary: cores) (auto simp: rbind_Inr_iff dest: validate_action_core_wf)
  show thesis
    using assms that wf
    by (auto simp: make_correction_batch_def rbind_Inr_iff Let_def elim!: nonempty_strE)
qed

text \<open>An acknowledgement the writer builds, field by field.\<close>

definition resolution_payload :: "(string \<Rightarrow> string) \<Rightarrow> violation list \<Rightarrow> string \<times> int \<Rightarrow> string \<Rightarrow> jobj"
  where
  "resolution_payload H vs hw ph = [(''kind'', JStr ''journal_protocol_resolution_v4''),
     (''violations'', JArr (map (violation_ref H) vs)),
     (''journal_high_water'', JObj [(''segment'', JStr (fst hw)), (''offset'', JInt (snd hw))]),
     (''journal_prefix_hash'', JStr ph)]"

definition stamped_op :: "string \<Rightarrow> string \<Rightarrow> jobj \<Rightarrow> jobj" where
  "stamped_op at src payload = [(''t'', JStr ''op''), (''at'', JStr at), (''src'', JStr src),
     (''payload'', JObj payload)] @ writer_stamps"

lemma make_op_default:
  "make_op H at src payload (Some PROTOCOL_GENERATION) Default Default =
     (''v'', JInt LINE_VERSION) # stamped_op at src payload
       @ [(''id'', JStr (content_id H (stamped_op at src payload)))]"
  by (simp add: make_op_def stamped_op_def writer_core_def resolve_arg_def put_opt_def
      writer_stamps_def py_simps)

lemma validate_violation_ref:
  "vi_batch v \<noteq> [] \<Longrightarrow> vi_kind v \<noteq> [] \<Longrightarrow>
    validate_ref (violation_ref H v) = Inr (the_obj (violation_ref H v))"
  by (simp add: validate_ref_def violation_ref_def has_exact_keys_def dkeys_def ref_fields_def
      fingerprint_def sha256_canonical_def)

lemma fingerprint_violation_ref:
  "jget (the_obj (violation_ref H v)) ''fingerprint'' = JStr (fingerprint H v)"
  by (simp add: violation_ref_def)

lemma validate_stamped_resolution:
  fixes H at src payload
  defines "r \<equiv> make_op H at src payload (Some PROTOCOL_GENERATION) Default Default"
  shows "has_exact_keys [''v'', ''t'', ''id'', ''at'', ''src'', ''payload'', WPG, WPR, WPX] r
    \<and> put_opt WPX (dget r WPX) (put_opt WPR (dget r WPR) (put_opt WPG (dget r WPG)
        [(''t'', JStr ''op''), (''at'', JStr at), (''src'', JStr src),
         (''payload'', JObj payload)])) = stamped_op at src payload
    \<and> jget r ''v'' = JInt LINE_VERSION \<and> jget r ''t'' = JStr ''op'' \<and> jget r ''src'' = JStr src
    \<and> jget r ''at'' = JStr at \<and> jget r ''payload'' = JObj payload
    \<and> jget r ''id'' = JStr (content_id H (stamped_op at src payload))"
  unfolding r_def make_op_default
  by (auto simp: stamped_op_def has_exact_keys_def dkeys_def writer_stamps_def put_opt_def
      WPG_def WPR_def WPX_def)

lemma resolution_payload_fields:
  fixes H vs hw ph
  defines "p \<equiv> resolution_payload H vs hw ph"
  shows "has_exact_keys [''kind'', ''violations'', ''journal_high_water'', ''journal_prefix_hash''] p
    \<and> jget p ''kind'' = JStr ''journal_protocol_resolution_v4''
    \<and> jget p ''violations'' = JArr (map (violation_ref H) vs)
    \<and> jget p ''journal_high_water''
        = JObj [(''segment'', JStr (fst hw)), (''offset'', JInt (snd hw))]
    \<and> jget p ''journal_prefix_hash'' = JStr ph"
  by (auto simp: p_def resolution_payload_def has_exact_keys_def dkeys_def)

lemma resolution_roundtrip:
  assumes made: "make_protocol_resolution H at vs hw ph = Inr r"
    and names: "\<And>v. v \<in> set vs \<Longrightarrow> vi_batch v \<noteq> [] \<and> vi_kind v \<noteq> []"
  shows "validate_protocol_resolution H r = Inr \<lparr>rs_audit_id = the_str (jget r ''id''),
     rs_high_water = hw, rs_prefix_hash = ph,
     rs_refs = map (the_obj \<circ> violation_ref H) (sort_key (fingerprint H) vs)\<rparr>"
proof -
  let ?vs = "sort_key (fingerprint H) vs"
  let ?p = "resolution_payload H ?vs hw ph"
  have r: "r = make_op H at RESOLUTION_SRC ?p (Some PROTOCOL_GENERATION) Default Default"
    and at: "at \<noteq> []" and ne: "vs \<noteq> []" and dist: "distinct (map (fingerprint H) ?vs)"
    and hw: "fst hw \<noteq> []" "0 \<le> snd hw" and ph: "valid_prefix_hash ph"
    using made by (auto simp: make_protocol_resolution_def resolution_payload_def Let_def
        split: if_splits)
  note f = validate_stamped_resolution [of H at RESOLUTION_SRC ?p, folded r]
    and q = resolution_payload_fields [of H ?vs hw ph]
  have "map (violation_ref H) ?vs \<noteq> []"
    using ne by (metis Nil_is_map_conv set_empty set_sort)
  then obtain x xs where xs: "map (violation_ref H) ?vs = x # xs" by (meson neq_Nil_conv)
  have "rmap validate_ref (map (violation_ref H) ?vs)
      = Inr (map the_obj (map (violation_ref H) ?vs))"
    by (rule rmap_Inr) (use names validate_violation_ref in auto)
  then have refs: "rmap validate_ref (x # xs) = Inr (map (the_obj \<circ> violation_ref H) ?vs)"
    unfolding xs by (simp add: xs [symmetric])
  have "distinct (map (\<lambda>d. jget d ''fingerprint'') (map (the_obj \<circ> violation_ref H) ?vs))"
    using dist by (simp add: comp_def fingerprint_violation_ref distinct_map inj_on_def)
  moreover have "in_tuple (JStr ''journal_protocol_resolution_v4'') PROTOCOL_RESOLUTION_KINDS"
    by (simp add: in_tuple_def PROTOCOL_RESOLUTION_KINDS_def)
  moreover have "has_exact_keys [''segment'', ''offset''] [(''segment'', JStr (fst hw)), (''offset'', JInt (snd hw))]"
    by (simp add: has_exact_keys_def dkeys_def)
  ultimately show ?thesis
    unfolding validate_protocol_resolution_def Let_def
    using f q at hw ph
    by (simp add: refs xs is_line_version_def require_in_def unhashable_def
        del: rmap.simps)
qed

lemma resolution_recognised:
  assumes "make_protocol_resolution H at vs hw ph = Inr r"
  shows "is_protocol_resolution (JObj r) = Inr True \<and> jget r ''t'' = JStr ''op''"
proof -
  let ?p = "resolution_payload H (sort_key (fingerprint H) vs) hw ph"
  have r: "r = make_op H at RESOLUTION_SRC ?p (Some PROTOCOL_GENERATION) Default Default"
    using assms by (auto simp: make_protocol_resolution_def resolution_payload_def Let_def
        split: if_splits)
  note f = validate_stamped_resolution [of H at RESOLUTION_SRC ?p, folded r]
  show ?thesis
    using f by (simp add: is_protocol_resolution_def resolution_payload_fields unhashable_def
        in_tuple_def PROTOCOL_RESOLUTION_KINDS_def)
qed

section \<open>Properties\<close>

text \<open>C38: An acknowledgement built from violations that name a batch and a kind passes the reader's
  validator, which recovers exactly the high water, the prefix hash and the references to those
  violations in fingerprint order, under the record's own id as the audit id; appending it changes
  nothing, since it is born fully stamped.\<close>

theorem acknowledgement_roundtrip:
  assumes "make_protocol_resolution H at vs hw ph = Inr r"
    and "\<forall>v \<in> set vs. vi_batch v \<noteq> [] \<and> vi_kind v \<noteq> []"
  shows "validate_protocol_resolution H r = Inr \<lparr>rs_audit_id = the_str (jget r ''id''),
     rs_high_water = hw, rs_prefix_hash = ph,
     rs_refs = map (the_obj \<circ> violation_ref H) (sort_key (fingerprint H) vs)\<rparr>
   \<and> is_protocol_resolution (JObj r) = Inr True \<and> prepare_record H r = Inr r"
proof -
  let ?p = "resolution_payload H (sort_key (fingerprint H) vs) hw ph"
  have r: "r = make_op H at RESOLUTION_SRC ?p (Some PROTOCOL_GENERATION) Default Default"
    using assms(1) by (auto simp: make_protocol_resolution_def resolution_payload_def Let_def
        split: if_splits)
  have "is_protocol_resolution (JObj r) = Inr True" using resolution_recognised [OF assms(1)] by blast
  moreover have "jget r WPG = JStr PROTOCOL_GENERATION \<and> jget r WPR = JInt PROTOCOL_REVISION
      \<and> jget r WPX = JInt SUCCESSOR_REVISION"
    unfolding r make_op_default
    by (simp add: stamped_op_def writer_stamps_def WPG_def WPR_def WPX_def)
  then have "prepare_record H r = Inr r"
    using fully_stamped_iff [of r] by (simp add: prepare_record_def)
  ultimately show ?thesis
    using resolution_roundtrip [OF assms(1)] assms(2) by simp
qed

definition sample_digest :: "string \<Rightarrow> string" where
  "sample_digest s = hex_pad 64 (foldl (\<lambda>a c. (31 * a + of_char c) mod 65521) 0 s)"

definition sample_violation :: violation where
  "sample_violation = \<lparr>vi_batch = ''b1'', vi_kind = ''commit_without_begin'',
     vi_evidence = [(''commitSequence'', JInt 4)]\<rparr>"

lemma hexdigest_sample: "hexdigest sample_digest"
  by (auto simp: hexdigest_def sample_digest_def list_all_iff dest: hex_pad_is_hex)

theorem acknowledgement_roundtrip_witness:
  "\<exists>r. make_protocol_resolution sample_digest ''2026-01-01'' [sample_violation]
      (''observations-2026-01.jsonl'', 90) (sha256_canonical sample_digest JNull) = Inr r
    \<and> is_protocol_resolution (JObj r) = Inr True"
proof -
  have "valid_prefix_hash (sha256_canonical sample_digest JNull)"
    by (rule hexdigest_valid) (rule hexdigest_sample)
  then obtain r where r: "make_protocol_resolution sample_digest ''2026-01-01'' [sample_violation]
      (''observations-2026-01.jsonl'', 90) (sha256_canonical sample_digest JNull) = Inr r"
    by (simp add: make_protocol_resolution_def Let_def)
  have "\<forall>v \<in> set [sample_violation]. vi_batch v \<noteq> [] \<and> vi_kind v \<noteq> []"
    by (simp add: sample_violation_def)
  from acknowledgement_roundtrip [OF r this] r show ?thesis by blast
qed

end
