(* ===== verification/Journal_Fold.thy ===== *)
theory Journal_Fold
  imports Journal_Batches
begin

text \<open>
  \<open>bin/_lib_journal.py\<close>: \<open>SelectorFold\<close>, \<open>fold_records\<close> and \<open>resolve_batches\<close>. Phase 1 accumulates a
  record stream, phase 2 decides for each correction batch whether it completed, is tainted or is
  incomplete. A list index of the stream is the record's sequence number.
\<close>

section \<open>State\<close>

record marker_row =
  mk_core :: jobj
  mk_digest :: string
  mk_identity :: string
  mk_sequence :: nat

record action_row =
  ac_record :: jobj
  ac_digest :: string
  ac_sequence :: nat

record selector_fold =
  fd_candidates :: "effective_event list"
  fd_markers :: "(string, (string, marker_row) dict) dict"
  fd_actions :: "(string, (int, action_row) dict) dict"
  fd_resolutions :: "(nat \<times> resolution) list"
  fd_tainted :: "string set"
  fd_violations :: "(string \<times> string \<times> string, violation) dict"
  fd_available :: "(string, nat) dict"
  fd_completed :: "string set"

definition empty_fold :: selector_fold where
  "empty_fold = \<lparr>fd_candidates = [], fd_markers = [], fd_actions = [], fd_resolutions = [],
     fd_tainted = {}, fd_violations = [], fd_available = [], fd_completed = {}\<rparr>"

definition taint :: "(string \<Rightarrow> string) \<Rightarrow> violation \<Rightarrow> nat \<Rightarrow> selector_fold \<Rightarrow> selector_fold" where
  "taint H v available_after f = (let fp = fingerprint H v in
     f\<lparr>fd_tainted := insert (vi_batch v) (fd_tainted f),
       fd_violations := dset (vi_batch v, vi_kind v, fp) v (fd_violations f),
       fd_available := dset fp (min available_after
          (dget_or (fd_available f) fp available_after)) (fd_available f)\<rparr>)"

section \<open>Phase 1\<close>

definition fold_marker :: "(string \<Rightarrow> string) \<Rightarrow> selector_fold \<Rightarrow> jobj \<Rightarrow> nat
    \<Rightarrow> journal_error + selector_fold" where
  "fold_marker H f r sequence = rbind (validate_batch_marker r) (\<lambda>normalized.
     let batch_id = the_str (jget normalized ''id''); phase = the_str (jget r ''phase'');
         digest = sha256_canonical H (JObj r);
         identity = sha256_canonical H (JObj (dwithout [''phase''] r));
         rows = dget_or (fd_markers f) batch_id []
     in Inr (case dget rows phase of
          None \<Rightarrow> f\<lparr>fd_markers := dset batch_id (dset phase \<lparr>mk_core = normalized,
             mk_digest = digest, mk_identity = identity, mk_sequence = sequence\<rparr> rows)
             (fd_markers f)\<rparr>
        | Some prior \<Rightarrow> if mk_digest prior = digest then f
            else taint H (protocol_violation batch_id ''marker_conflict''
              [(''phase'', JStr phase), (''firstRecordHash'', JStr (mk_digest prior)),
               (''conflictingRecordHash'', JStr digest)]) (max (mk_sequence prior) sequence) f))"

definition fold_action :: "(string \<Rightarrow> string) \<Rightarrow> selector_fold \<Rightarrow> jobj \<Rightarrow> nat
    \<Rightarrow> journal_error + selector_fold" where
  "fold_action H f r sequence = rbind (validate_correction_record r) (\<lambda>normalized.
     let batch_id = the_str (jget normalized ''batch''); seq = the_int (jget normalized ''seq'');
         digest = sha256_canonical H (JObj r);
         rows = dget_or (fd_actions f) batch_id []
     in Inr (case dget rows seq of
          None \<Rightarrow> f\<lparr>fd_actions := dset batch_id (dset seq \<lparr>ac_record = normalized,
             ac_digest = digest, ac_sequence = sequence\<rparr> rows) (fd_actions f)\<rparr>
        | Some prior \<Rightarrow> if ac_digest prior = digest then f
            else taint H (protocol_violation batch_id ''action_sequence_conflict''
              [(''actionSequence'', JInt seq), (''firstRecordHash'', JStr (ac_digest prior)),
               (''conflictingRecordHash'', JStr digest)]) (max (ac_sequence prior) sequence) f))"

definition fold_one :: "(string \<Rightarrow> string) \<Rightarrow> selector_fold \<Rightarrow> json \<Rightarrow> nat
    \<Rightarrow> journal_error + selector_fold" where
  "fold_one H f record sequence = (case record of
     JObj r \<Rightarrow>
       if jget r ''t'' = JStr ''evt'' then rbind (candidate_from_evt H r sequence)
         (\<lambda>c. Inr (f\<lparr>fd_candidates := fd_candidates f @ [c]\<rparr>))
       else rbind (is_protocol_resolution record) (\<lambda>is_resolution.
         if is_resolution then rbind (validate_protocol_resolution H r)
           (\<lambda>res. Inr (f\<lparr>fd_resolutions := fd_resolutions f @ [(sequence, res)]\<rparr>))
         else if jget r ''t'' = JStr ''correction_batch'' then fold_marker H f r sequence
         else if jget r ''t'' = JStr ''correction'' then fold_action H f r sequence
         else Inr f)
   | _ \<Rightarrow> Inr f)"

fun fold_records :: "(string \<Rightarrow> string) \<Rightarrow> selector_fold \<Rightarrow> json list \<Rightarrow> nat
    \<Rightarrow> journal_error + selector_fold \<times> nat" where
  "fold_records H f [] sequence = Inr (f, sequence)"
| "fold_records H f (r # rs) sequence =
     rbind (fold_one H f r sequence) (\<lambda>g. fold_records H g rs (Suc sequence))"

section \<open>Phase 2\<close>

text \<open>\<open>range(n)\<close>.\<close>

definition py_range :: "int \<Rightarrow> int list" where
  "py_range n = [0..n - 1]"

definition seq_json :: "nat \<Rightarrow> json" where
  "seq_json n = JInt (int n)"

definition order_violation :: "(string \<Rightarrow> string) \<Rightarrow> string \<Rightarrow> nat \<Rightarrow> nat \<Rightarrow> nat list \<Rightarrow> violation" where
  "order_violation H batch_id begin_seq commit_seq order =
     protocol_violation batch_id ''record_order_violation''
       [(''beginSequence'', seq_json begin_seq), (''commitSequence'', seq_json commit_seq),
        (''recordOrderHash'', JStr (sha256_canonical H (JArr (map seq_json order))))]"

text \<open>The checks of one batch that has both markers, in the order of the loop body.\<close>

definition check_markers :: "(string \<Rightarrow> string) \<Rightarrow> string \<Rightarrow> marker_row \<Rightarrow> marker_row
    \<Rightarrow> selector_fold \<Rightarrow> selector_fold" where
  "check_markers H batch_id b c f =
     (let bs = mk_sequence b; cs = mk_sequence c;
          f = (if mk_identity b \<noteq> mk_identity c
            then taint H (protocol_violation batch_id ''marker_manifest_mismatch''
              [(''beginSequence'', seq_json bs), (''commitSequence'', seq_json cs),
               (''beginIdentityHash'', JStr (mk_identity b)),
               (''commitIdentityHash'', JStr (mk_identity c))]) (max bs cs) f
            else f)
      in if bs \<ge> cs then taint H (order_violation H batch_id bs cs [bs, cs]) (max bs cs) f else f)"

definition check_actions :: "(string \<Rightarrow> string) \<Rightarrow> string \<Rightarrow> marker_row \<Rightarrow> marker_row
    \<Rightarrow> (int, action_row) dict \<Rightarrow> selector_fold \<Rightarrow> selector_fold" where
  "check_actions H batch_id b c acts f =
     (let bs = mk_sequence b; cs = mk_sequence c;
          n = the_int (jget (mk_core b) ''action_count'');
          present = sort (dkeys acts)
      in if present \<noteq> py_range n
        then taint H (protocol_violation batch_id ''manifest_action_sequence_mismatch''
            [(''expectedActionCount'', JInt n), (''actualActionCount'', JInt (int (length present))),
             (''presentSequencesHash'', JStr (sha256_canonical H (JArr (map JInt present))))])
          (fold max (map (ac_sequence \<circ> snd) acts) (max bs cs)) f
        else let rows = map (\<lambda>s. the (dget acts s)) (py_range n);
                 seqs = map ac_sequence rows;
                 last = fold max seqs (max bs cs);
                 f = (if seqs \<noteq> sort seqs \<or> \<not> list_all (\<lambda>s. bs < s \<and> s < cs) seqs
                   then taint H (order_violation H batch_id bs cs ([bs] @ seqs @ [cs])) last f
                   else f);
                 expected = jget (mk_core b) ''actions_hash'';
                 actual = sha256_canonical H
                   (JArr (map (\<lambda>row. JObj (correction_action_core (ac_record row))) rows))
             in if JStr actual \<noteq> expected
               then taint H (protocol_violation batch_id ''manifest_actions_hash_mismatch''
                   [(''expectedActionsHash'', expected), (''actualActionsHash'', JStr actual)]) last f
               else f)"

definition batch_candidates :: "(string \<Rightarrow> string) \<Rightarrow> marker_row \<Rightarrow> (int, action_row) dict
    \<Rightarrow> effective_event list" where
  "batch_candidates H b acts =
     map (\<lambda>s. let row = the (dget acts s) in
            candidate_from_correction H (ac_record row) (ac_sequence row))
       (py_range (the_int (jget (mk_core b) ''action_count'')))"

definition resolve_batch :: "(string \<Rightarrow> string) \<Rightarrow> string \<Rightarrow> selector_fold \<Rightarrow> selector_fold" where
  "resolve_batch H batch_id f =
     (let rows = dget_or (fd_markers f) batch_id [] in
      case (dget rows ''begin'', dget rows ''commit'') of
        (None, Some c) \<Rightarrow>
          taint H (protocol_violation batch_id ''commit_without_begin''
            [(''commitSequence'', seq_json (mk_sequence c)),
             (''commitRecordHash'', JStr (mk_digest c))]) (mk_sequence c) f
      | (Some b, Some c) \<Rightarrow>
          let acts = dget_or (fd_actions f) batch_id [];
              g = check_actions H batch_id b c acts (check_markers H batch_id b c f)
          in if batch_id \<in> fd_tainted g then g
             else g\<lparr>fd_completed := insert batch_id (fd_completed g),
                    fd_candidates := fd_candidates g @ batch_candidates H b acts\<rparr>
      | _ \<Rightarrow> f)"

definition resolve_batches :: "(string \<Rightarrow> string) \<Rightarrow> string list option \<Rightarrow> selector_fold \<Rightarrow> selector_fold"
  where
  "resolve_batches H batch_ids f =
     fold (resolve_batch H) (sorted_set (case batch_ids of Some ids \<Rightarrow> ids
        | None \<Rightarrow> dkeys (fd_markers f) @ dkeys (fd_actions f))) f"

section \<open>What a batch resolves to\<close>

text \<open>
  The specification of completion, over the accumulated rows: both markers with one identity, all
  announced actions and no other, in order between the markers, under the announced hash.
\<close>

definition sound_rows :: "(string \<Rightarrow> string) \<Rightarrow> marker_row \<Rightarrow> marker_row \<Rightarrow> (int, action_row) dict
    \<Rightarrow> bool" where
  "sound_rows H b c acts \<longleftrightarrow>
     (let n = the_int (jget (mk_core b) ''action_count'');
          rows = map (\<lambda>s. the (dget acts s)) (py_range n) in
      mk_identity b = mk_identity c \<and> mk_sequence b < mk_sequence c
      \<and> sort (dkeys acts) = py_range n
      \<and> sorted (map ac_sequence rows)
      \<and> (\<forall>row \<in> set rows. mk_sequence b < ac_sequence row \<and> ac_sequence row < mk_sequence c)
      \<and> jget (mk_core b) ''actions_hash'' = JStr (sha256_canonical H
          (JArr (map (\<lambda>row. JObj (correction_action_core (ac_record row))) rows))))"

definition batch_sound :: "(string \<Rightarrow> string) \<Rightarrow> selector_fold \<Rightarrow> string \<Rightarrow> bool" where
  "batch_sound H f batch_id \<longleftrightarrow> batch_id \<notin> fd_tainted f
     \<and> (\<exists>b c. dget (dget_or (fd_markers f) batch_id []) ''begin'' = Some b
         \<and> dget (dget_or (fd_markers f) batch_id []) ''commit'' = Some c
         \<and> sound_rows H b c (dget_or (fd_actions f) batch_id []))"

definition sound_candidates :: "(string \<Rightarrow> string) \<Rightarrow> selector_fold \<Rightarrow> string \<Rightarrow> effective_event list"
  where
  "sound_candidates H f batch_id = (if batch_sound H f batch_id
     then batch_candidates H (the (dget (dget_or (fd_markers f) batch_id []) ''begin''))
            (dget_or (fd_actions f) batch_id [])
     else [])"

lemma taint_simps [simp]:
  "fd_tainted (taint H v a f) = insert (vi_batch v) (fd_tainted f)"
  "fd_markers (taint H v a f) = fd_markers f"
  "fd_actions (taint H v a f) = fd_actions f"
  "fd_candidates (taint H v a f) = fd_candidates f"
  "fd_completed (taint H v a f) = fd_completed f"
  "fd_resolutions (taint H v a f) = fd_resolutions f"
  by (simp_all add: taint_def Let_def)

lemma violation_batch [simp]:
  "vi_batch (protocol_violation b k e) = b" "vi_batch (order_violation H b x y z) = b"
  by (simp_all add: protocol_violation_def order_violation_def)

lemma sort_eq_self_iff: "xs = sort xs \<longleftrightarrow> sorted xs" for xs :: "'a::linorder list"
  by (metis sorted_sort sorted_sort_id)

lemma check_tainted:
  "bid \<in> fd_tainted (check_actions H bid b c acts (check_markers H bid b c f))
    \<longleftrightarrow> bid \<in> fd_tainted f \<or> \<not> sound_rows H b c acts"
  unfolding check_actions_def check_markers_def sound_rows_def Let_def
  by (auto simp: sort_eq_self_iff list_all_iff linorder_not_le eq_commute [of "JStr _"])

lemma check_frame:
  "fd_tainted (check_actions H bid b c acts (check_markers H bid b c f))
     \<subseteq> insert bid (fd_tainted f)"
  "fd_markers (check_actions H bid b c acts (check_markers H bid b c f)) = fd_markers f"
  "fd_actions (check_actions H bid b c acts (check_markers H bid b c f)) = fd_actions f"
  "fd_candidates (check_actions H bid b c acts (check_markers H bid b c f)) = fd_candidates f"
  "fd_completed (check_actions H bid b c acts (check_markers H bid b c f)) = fd_completed f"
  unfolding check_actions_def check_markers_def Let_def by auto

text \<open>One step of phase 2 decides exactly its own batch.\<close>

lemma resolve_batch_result:
  "fd_completed (resolve_batch H bid f)
     = (if batch_sound H f bid then insert bid (fd_completed f) else fd_completed f)"
  "fd_candidates (resolve_batch H bid f) = fd_candidates f @ sound_candidates H f bid"
  by (auto simp: resolve_batch_def sound_candidates_def batch_sound_def Let_def check_tainted
      check_frame split: option.splits)

lemma resolve_batch_frame:
  "fd_markers (resolve_batch H bid f) = fd_markers f"
  "fd_actions (resolve_batch H bid f) = fd_actions f"
  "b' \<noteq> bid \<Longrightarrow> b' \<in> fd_tainted (resolve_batch H bid f) \<longleftrightarrow> b' \<in> fd_tainted f"
proof -
  show "fd_markers (resolve_batch H bid f) = fd_markers f"
    "fd_actions (resolve_batch H bid f) = fd_actions f"
    by (auto simp: resolve_batch_def Let_def check_frame split: option.splits)
  have "fd_tainted (check_actions H bid b c acts (check_markers H bid b c f)) - {bid}
      = fd_tainted f - {bid}" for b c acts
    unfolding check_actions_def check_markers_def Let_def by auto
  then show "b' \<noteq> bid \<Longrightarrow> b' \<in> fd_tainted (resolve_batch H bid f) \<longleftrightarrow> b' \<in> fd_tainted f"
    by (auto simp: resolve_batch_def Let_def split: option.splits)
qed

lemma batch_sound_frame:
  "b' \<noteq> bid \<Longrightarrow> batch_sound H (resolve_batch H bid f) b' = batch_sound H f b'"
  "b' \<noteq> bid \<Longrightarrow> sound_candidates H (resolve_batch H bid f) b' = sound_candidates H f b'"
proof -
  show 1: "b' \<noteq> bid \<Longrightarrow> batch_sound H (resolve_batch H bid f) b' = batch_sound H f b'"
    by (simp add: batch_sound_def resolve_batch_frame)
  show "b' \<noteq> bid \<Longrightarrow> sound_candidates H (resolve_batch H bid f) b' = sound_candidates H f b'"
    by (simp add: sound_candidates_def resolve_batch_frame 1)
qed

text \<open>Phase 2 as a whole.\<close>

lemma resolve_fold:
  "distinct ids \<Longrightarrow>
     fd_completed (fold (resolve_batch H) ids f)
       = fd_completed f \<union> {b \<in> set ids. batch_sound H f b}
   \<and> fd_candidates (fold (resolve_batch H) ids f)
       = fd_candidates f @ concat (map (sound_candidates H f) ids)"
proof (induction ids arbitrary: f)
  case (Cons b ids)
  have "{x \<in> set ids. batch_sound H (resolve_batch H b f) x} = {x \<in> set ids. batch_sound H f x}"
    using Cons.prems batch_sound_frame(1) [of _ b H f] by (metis (no_types) distinct.simps(2))
  moreover have m: "map (sound_candidates H (resolve_batch H b f)) ids = map (sound_candidates H f) ids"
    using Cons.prems batch_sound_frame(2) [of _ b H f] by (intro map_cong) (metis distinct.simps(2))+
  moreover note arg_cong [OF m, of concat]
  ultimately show ?case
    using Cons by (auto simp: resolve_batch_result)
qed simp

lemma resolve_batches_result:
  "fd_completed (resolve_batches H (Some ids) f)
     = fd_completed f \<union> {b \<in> set ids. batch_sound H f b}"
  "fd_candidates (resolve_batches H (Some ids) f)
     = fd_candidates f @ concat (map (sound_candidates H f) (sorted_set ids))"
  using resolve_fold [of "sorted_set ids"] by (simp_all add: resolve_batches_def)

lemma resolve_batches_None:
  "resolve_batches H None f = resolve_batches H (Some (dkeys (fd_markers f) @ dkeys (fd_actions f))) f"
  by (simp add: resolve_batches_def)

lemma batch_sound_keys: "batch_sound H f b \<Longrightarrow> b \<in> set (dkeys (fd_markers f))"
  by (cases "dget (fd_markers f) b")
    (auto simp: batch_sound_def dget_or_def dkeys_def dest: map_of_SomeD intro: rev_image_eqI)

lemma completed_iff:
  "b \<in> fd_completed (resolve_batches H None f) \<longleftrightarrow> b \<in> fd_completed f \<or> batch_sound H f b"
  by (auto simp: resolve_batches_None resolve_batches_result dest: batch_sound_keys)

lemma all_candidates:
  "set (fd_candidates (resolve_batches H None f))
     = set (fd_candidates f) \<union> (\<Union>b \<in> {b. batch_sound H f b}. set (sound_candidates H f b))"
  by (auto simp: resolve_batches_None resolve_batches_result sound_candidates_def
      dest: batch_sound_keys)

section \<open>What the stream says about the rows\<close>

definition mrow :: "selector_fold \<Rightarrow> string \<Rightarrow> string \<Rightarrow> marker_row option" where
  "mrow f b p = dget (dget_or (fd_markers f) b []) p"

definition arow :: "selector_fold \<Rightarrow> string \<Rightarrow> int \<Rightarrow> action_row option" where
  "arow f b s = dget (dget_or (fd_actions f) b []) s"

definition marker_rec :: "json \<Rightarrow> string \<Rightarrow> string \<Rightarrow> bool" where
  "marker_rec j b p \<longleftrightarrow> (\<exists>r. j = JObj r \<and> jget r ''t'' = JStr ''correction_batch''
     \<and> jget r ''id'' = JStr b \<and> jget r ''phase'' = JStr p)"

definition action_rec :: "json \<Rightarrow> string \<Rightarrow> int \<Rightarrow> bool" where
  "action_rec j b s \<longleftrightarrow> (\<exists>r. j = JObj r \<and> jget r ''t'' = JStr ''correction''
     \<and> jget r ''batch'' = JStr b \<and> jget r ''seq'' = JInt s)"

text \<open>The row a record would contribute.\<close>

definition marker_of :: "(string \<Rightarrow> string) \<Rightarrow> json \<Rightarrow> nat \<Rightarrow> marker_row \<Rightarrow> bool" where
  "marker_of H j i m \<longleftrightarrow> validate_batch_marker (the_obj j) = Inr (mk_core m)
     \<and> mk_digest m = sha256_canonical H j
     \<and> mk_identity m = sha256_canonical H (JObj (dwithout [''phase''] (the_obj j)))
     \<and> mk_sequence m = i"

definition action_of :: "(string \<Rightarrow> string) \<Rightarrow> json \<Rightarrow> nat \<Rightarrow> action_row \<Rightarrow> bool" where
  "action_of H j i a \<longleftrightarrow> validate_correction_record (the_obj j) = Inr (ac_record a)
     \<and> ac_digest a = sha256_canonical H j \<and> ac_sequence a = i"

lemma mrow_update: "mrow (f\<lparr>fd_markers := dset b (dset p m (dget_or (fd_markers f) b [])) (fd_markers f)\<rparr>) b' p'
    = (if b' = b \<and> p' = p then Some m else mrow f b' p')"
  by (simp add: mrow_def dget_or_def dget_dset)

lemma arow_update: "arow (f\<lparr>fd_actions := dset b (dset s a (dget_or (fd_actions f) b [])) (fd_actions f)\<rparr>) b' s'
    = (if b' = b \<and> s' = s then Some a else arow f b' s')"
  by (simp add: arow_def dget_or_def dget_dset)

lemma validate_batch_marker_fields:
  assumes "validate_batch_marker r = Inr core"
  obtains b p where "jget r ''id'' = JStr b" "jget r ''phase'' = JStr p"
    "jget core ''id'' = JStr b"
  using assms by (auto simp: validate_batch_marker_def Let_def in_tuple_iff elim!: nonempty_strE)

lemma validate_correction_fields:
  assumes "validate_correction_record r = Inr rec"
  obtains b s core where "jget r ''batch'' = JStr b" "jget r ''seq'' = JInt s" "0 \<le> s"
    "jget rec ''batch'' = JStr b" "jget rec ''seq'' = JInt s" "wf_core core"
    "correction_action_core rec = core"
proof -
  obtain core where c: "validate_action_core (JObj [(''action'', jget r ''action''),
      (''id'', jget r ''id''), (''rev'', jget r ''rev''), (''at'', jget r ''at''),
      (''payload'', jget r ''payload'')]) = Inr core"
    and rec: "rec = [(''v'', jget_or r ''v'' (JInt LINE_VERSION)), (''t'', JStr ''correction'')]
          @ core @ [(''batch'', jget r ''batch''), (''seq'', jget r ''seq'')]"
    and f: "nonempty_str (jget r ''batch'')" "nonneg_int (jget r ''seq'')"
    using assms by (auto simp: validate_correction_record_def rbind_Inr_iff)
  have wf: "wf_core core" using c by (rule validate_action_core_wf)
  obtain act ident revision at payload where core: "core = action_core act ident revision at payload"
    using wf by (rule wf_coreE)
  show thesis
    using f wf that
    by (auto simp: rec core correction_action_core_def action_core_def elim!: nonempty_strE nonneg_intE)
qed

text \<open>One record changes the rows in one of five ways.\<close>

lemma fold_one_cases:
  assumes "fold_one H f j n = Inr g"
  obtains (other) "\<And>b p. \<not> marker_rec j b p" "\<And>b s. \<not> action_rec j b s" "mrow g = mrow f"
      "arow g = arow f" "fd_tainted g = fd_tainted f"
  | (marker) b p m where "marker_rec j b p" "marker_of H j n m" "mrow f b p = None"
      "mrow g = (\<lambda>b' p'. if b' = b \<and> p' = p then Some m else mrow f b' p')" "arow g = arow f"
      "fd_tainted g = fd_tainted f"
  | (marker_again) b p m where "marker_rec j b p" "mrow f b p = Some m" "mrow g = mrow f"
      "arow g = arow f" "fd_tainted g = (if mk_digest m = sha256_canonical H j then fd_tainted f
         else insert b (fd_tainted f))"
  | (action) b s a where "action_rec j b s" "action_of H j n a" "arow f b s = None"
      "arow g = (\<lambda>b' s'. if b' = b \<and> s' = s then Some a else arow f b' s')" "mrow g = mrow f"
      "fd_tainted g = fd_tainted f"
  | (action_again) b s a where "action_rec j b s" "arow f b s = Some a" "mrow g = mrow f"
      "arow g = arow f" "fd_tainted g = (if ac_digest a = sha256_canonical H j then fd_tainted f
         else insert b (fd_tainted f))"
proof -
  have same: thesis if "\<And>b p. \<not> marker_rec j b p" "\<And>b s. \<not> action_rec j b s"
      "fd_markers g = fd_markers f" "fd_actions g = fd_actions f" "fd_tainted g = fd_tainted f"
    by (rule other) (use that in \<open>simp_all add: mrow_def arow_def fun_eq_iff\<close>)
  show thesis
  proof (cases "\<exists>r. j = JObj r \<and> jget r ''t'' \<in> {JStr ''correction_batch'', JStr ''correction''}")
    case False
    then have no: "\<And>b p. \<not> marker_rec j b p" "\<And>b s. \<not> action_rec j b s"
      by (auto simp: marker_rec_def action_rec_def)
    have "fd_markers g = fd_markers f \<and> fd_actions g = fd_actions f \<and> fd_tainted g = fd_tainted f"
      using assms False
      by (auto simp: fold_one_def rbind_Inr_iff split: json.splits if_splits)
    then show thesis using same no by blast
  next
    case True
    then obtain r where j: "j = JObj r"
      and t: "jget r ''t'' = JStr ''correction_batch'' \<or> jget r ''t'' = JStr ''correction''" by auto
    from t show thesis
    proof
      assume t: "jget r ''t'' = JStr ''correction_batch''"
      then have fm: "fold_marker H f r n = Inr g"
        using assms j by (simp add: fold_one_def is_protocol_resolution_def)
      then obtain core where core: "validate_batch_marker r = Inr core"
        by (auto simp: fold_marker_def rbind_Inr_iff)
      from core obtain b p where f: "jget r ''id'' = JStr b" "jget r ''phase'' = JStr p"
          "jget core ''id'' = JStr b"
        by (rule validate_batch_marker_fields)
      have rec: "marker_rec j b p" using j t f by (simp add: marker_rec_def)
      show thesis
      proof (cases "mrow f b p")
        case None
        let ?m = "\<lparr>mk_core = core, mk_digest = sha256_canonical H (JObj r),
            mk_identity = sha256_canonical H (JObj (dwithout [''phase''] r)), mk_sequence = n\<rparr>"
        have g: "g = f\<lparr>fd_markers := dset b (dset p ?m (dget_or (fd_markers f) b [])) (fd_markers f)\<rparr>"
          using fm core f None by (simp add: fold_marker_def Let_def mrow_def)
        show thesis
          by (rule marker [OF rec _ None, of ?m])
            (simp_all add: marker_of_def j core g mrow_update fun_eq_iff arow_def)
      next
        case (Some m)
        then have "g = f \<and> mk_digest m = sha256_canonical H j
          \<or> mk_digest m \<noteq> sha256_canonical H j \<and> (\<exists>v a. g = taint H v a f \<and> vi_batch v = b)"
          using fm core f j by (fastforce simp: fold_marker_def Let_def mrow_def split: if_splits)
        then show thesis
          by (intro marker_again [OF rec Some]) (auto simp: mrow_def arow_def fun_eq_iff)
      qed
    next
      assume t: "jget r ''t'' = JStr ''correction''"
      then have fa: "fold_action H f r n = Inr g"
        using assms j by (simp add: fold_one_def is_protocol_resolution_def)
      then obtain rec where core: "validate_correction_record r = Inr rec"
        by (auto simp: fold_action_def rbind_Inr_iff)
      from core obtain b s where f: "jget r ''batch'' = JStr b" "jget r ''seq'' = JInt s"
          "jget rec ''batch'' = JStr b" "jget rec ''seq'' = JInt s"
        by (rule validate_correction_fields)
      have arec: "action_rec j b s" using j t f by (simp add: action_rec_def)
      show thesis
      proof (cases "arow f b s")
        case None
        let ?a = "\<lparr>ac_record = rec, ac_digest = sha256_canonical H (JObj r), ac_sequence = n\<rparr>"
        have g: "g = f\<lparr>fd_actions := dset b (dset s ?a (dget_or (fd_actions f) b [])) (fd_actions f)\<rparr>"
          using fa core f None by (simp add: fold_action_def Let_def arow_def)
        show thesis
          by (rule action [OF arec _ None, of ?a])
            (simp_all add: action_of_def j core g arow_update fun_eq_iff mrow_def)
      next
        case (Some a)
        then have "g = f \<and> ac_digest a = sha256_canonical H j
          \<or> ac_digest a \<noteq> sha256_canonical H j \<and> (\<exists>v x. g = taint H v x f \<and> vi_batch v = b)"
          using fa core f j by (fastforce simp: fold_action_def Let_def arow_def split: if_splits)
        then show thesis
          by (intro action_again [OF arec Some]) (auto simp: mrow_def arow_def fun_eq_iff)
      qed
    qed
  qed
qed

text \<open>What the accumulated rows say about the stream they were accumulated from.\<close>

definition digest_at :: "(string \<Rightarrow> string) \<Rightarrow> json list \<Rightarrow> nat \<Rightarrow> string" where
  "digest_at H rs i = sha256_canonical H (rs ! i)"

definition rows_from_stream :: "(string \<Rightarrow> string) \<Rightarrow> json list \<Rightarrow> selector_fold \<Rightarrow> bool" where
  "rows_from_stream H rs f \<longleftrightarrow>
     (\<forall>b p m. mrow f b p = Some m \<longrightarrow> mk_sequence m < length rs
        \<and> marker_rec (rs ! mk_sequence m) b p \<and> marker_of H (rs ! mk_sequence m) (mk_sequence m) m)
   \<and> (\<forall>b s a. arow f b s = Some a \<longrightarrow> ac_sequence a < length rs
        \<and> action_rec (rs ! ac_sequence a) b s \<and> action_of H (rs ! ac_sequence a) (ac_sequence a) a)"

definition stream_in_rows :: "(string \<Rightarrow> string) \<Rightarrow> json list \<Rightarrow> selector_fold \<Rightarrow> bool" where
  "stream_in_rows H rs f \<longleftrightarrow>
     (\<forall>i < length rs. (\<forall>b p. marker_rec (rs ! i) b p \<longrightarrow>
          (\<exists>m. mrow f b p = Some m \<and> (mk_digest m = digest_at H rs i \<or> b \<in> fd_tainted f)))
      \<and> (\<forall>b s. action_rec (rs ! i) b s \<longrightarrow>
          (\<exists>a. arow f b s = Some a \<and> (ac_digest a = digest_at H rs i \<or> b \<in> fd_tainted f))))"

definition same_slot :: "json \<Rightarrow> json \<Rightarrow> string \<Rightarrow> bool" where
  "same_slot j j' b \<longleftrightarrow> (\<exists>p. marker_rec j b p \<and> marker_rec j' b p)
     \<or> (\<exists>s. action_rec j b s \<and> action_rec j' b s)"

definition taints_from_stream :: "(string \<Rightarrow> string) \<Rightarrow> json list \<Rightarrow> selector_fold \<Rightarrow> bool" where
  "taints_from_stream H rs f \<longleftrightarrow> (\<forall>b \<in> fd_tainted f. \<exists>i j. i < j \<and> j < length rs
     \<and> same_slot (rs ! i) (rs ! j) b \<and> digest_at H rs i \<noteq> digest_at H rs j)"

definition fold_inv :: "(string \<Rightarrow> string) \<Rightarrow> json list \<Rightarrow> selector_fold \<Rightarrow> bool" where
  "fold_inv H rs f \<longleftrightarrow> rows_from_stream H rs f \<and> stream_in_rows H rs f \<and> taints_from_stream H rs f"

lemma rec_deterministic:
  "marker_rec j b p \<Longrightarrow> marker_rec j b' p' \<Longrightarrow> b = b' \<and> p = p'"
  "action_rec j b s \<Longrightarrow> action_rec j b' s' \<Longrightarrow> b = b' \<and> s = s'"
  "marker_rec j b p \<Longrightarrow> \<not> action_rec j b' s'"
  by (auto simp: marker_rec_def action_rec_def)

lemma rows_from_stream_grow:
  assumes "rows_from_stream H rs f"
    and "\<And>b p m. mrow g b p = Some m \<Longrightarrow> mrow f b p = Some m
        \<or> marker_rec j b p \<and> marker_of H j (length rs) m"
    and "\<And>b s a. arow g b s = Some a \<Longrightarrow> arow f b s = Some a
        \<or> action_rec j b s \<and> action_of H j (length rs) a"
  shows "rows_from_stream H (rs @ [j]) g"
proof -
  have "mk_sequence m = length rs" if "marker_of H j (length rs) m" for m
    using that by (simp add: marker_of_def)
  moreover have "ac_sequence a = length rs" if "action_of H j (length rs) a" for a
    using that by (simp add: action_of_def)
  ultimately show ?thesis
    using assms unfolding rows_from_stream_def
    by (intro conjI allI impI) (metis length_append_singleton less_Suc_eq nth_append nth_append_length)+
qed

lemma stream_in_rows_grow:
  assumes "stream_in_rows H rs f"
    and "\<And>b p m. mrow f b p = Some m \<Longrightarrow> mrow g b p = Some m"
    and "\<And>b s a. arow f b s = Some a \<Longrightarrow> arow g b s = Some a"
    and "fd_tainted f \<subseteq> fd_tainted g"
    and "\<And>b p. marker_rec j b p \<Longrightarrow> \<exists>m. mrow g b p = Some m
        \<and> (mk_digest m = sha256_canonical H j \<or> b \<in> fd_tainted g)"
    and "\<And>b s. action_rec j b s \<Longrightarrow> \<exists>a. arow g b s = Some a
        \<and> (ac_digest a = sha256_canonical H j \<or> b \<in> fd_tainted g)"
  shows "stream_in_rows H (rs @ [j]) g"
  unfolding stream_in_rows_def
proof (intro allI impI conjI)
  fix i b p assume i: "i < length (rs @ [j])" and r: "marker_rec ((rs @ [j]) ! i) b p"
  show "\<exists>m. mrow g b p = Some m \<and> (mk_digest m = digest_at H (rs @ [j]) i \<or> b \<in> fd_tainted g)"
  proof (cases "i < length rs")
    case True
    then show ?thesis
      using assms(1,2,4) r unfolding stream_in_rows_def digest_at_def
      by (metis nth_append subsetD)
  next
    case False
    then show ?thesis using i r assms(5) by (auto simp: digest_at_def nth_append less_Suc_eq)
  qed
next
  fix i b s assume i: "i < length (rs @ [j])" and r: "action_rec ((rs @ [j]) ! i) b s"
  show "\<exists>a. arow g b s = Some a \<and> (ac_digest a = digest_at H (rs @ [j]) i \<or> b \<in> fd_tainted g)"
  proof (cases "i < length rs")
    case True
    then show ?thesis
      using assms(1,3,4) r unfolding stream_in_rows_def digest_at_def
      by (metis nth_append subsetD)
  next
    case False
    then show ?thesis using i r assms(6) by (auto simp: digest_at_def nth_append less_Suc_eq)
  qed
qed

lemma taints_from_stream_grow:
  assumes "taints_from_stream H rs f"
    and "\<And>b. b \<in> fd_tainted g \<Longrightarrow> b \<in> fd_tainted f \<or> (\<exists>i < length rs. same_slot (rs ! i) j b
        \<and> digest_at H rs i \<noteq> sha256_canonical H j)"
  shows "taints_from_stream H (rs @ [j]) g"
  unfolding taints_from_stream_def
proof
  fix b assume "b \<in> fd_tainted g"
  from assms(2) [OF this]
  show "\<exists>i k. i < k \<and> k < length (rs @ [j]) \<and> same_slot ((rs @ [j]) ! i) ((rs @ [j]) ! k) b
      \<and> digest_at H (rs @ [j]) i \<noteq> digest_at H (rs @ [j]) k"
  proof
    assume "b \<in> fd_tainted f"
    then obtain i k where "i < k" "k < length rs" "same_slot (rs ! i) (rs ! k) b"
      "digest_at H rs i \<noteq> digest_at H rs k"
      using assms(1) unfolding taints_from_stream_def by blast
    then show ?thesis
      by (intro exI [of _ i] exI [of _ k]) (simp add: digest_at_def nth_append)
  next
    assume "\<exists>i < length rs. same_slot (rs ! i) j b \<and> digest_at H rs i \<noteq> sha256_canonical H j"
    then obtain i where "i < length rs" "same_slot (rs ! i) j b"
      "digest_at H rs i \<noteq> sha256_canonical H j" by blast
    then show ?thesis
      by (intro exI [of _ i] exI [of _ "length rs"]) (simp add: digest_at_def nth_append)
  qed
qed

lemma fold_inv_step:
  assumes inv: "fold_inv H rs f" and step: "fold_one H f j (length rs) = Inr g"
  shows "fold_inv H (rs @ [j]) g"
proof -
  note i = inv [unfolded fold_inv_def]
  note R = rows_from_stream_grow [OF i [THEN conjunct1]]
    and S = stream_in_rows_grow [OF i [THEN conjunct2, THEN conjunct1]]
    and T = taints_from_stream_grow [OF i [THEN conjunct2, THEN conjunct2]]
  have old: "mk_sequence m < length rs" "marker_rec (rs ! mk_sequence m) b p"
      "mk_digest m = digest_at H rs (mk_sequence m)" if "mrow f b p = Some m" for b p m
    using i that unfolding rows_from_stream_def marker_of_def digest_at_def by blast+
  have old': "ac_sequence a < length rs" "action_rec (rs ! ac_sequence a) b s"
      "ac_digest a = digest_at H rs (ac_sequence a)" if "arow f b s = Some a" for b s a
    using i that unfolding rows_from_stream_def action_of_def digest_at_def by blast+
  from step show ?thesis
  proof (cases rule: fold_one_cases)
    case other
    then show ?thesis unfolding fold_inv_def by (intro conjI R S T) auto
  next
    case (marker b p m)
    have u: "\<And>b' p'. marker_rec j b' p' \<Longrightarrow> b' = b \<and> p' = p" "\<And>b' s. \<not> action_rec j b' s"
      using rec_deterministic marker(1) by blast+
    have g: "mrow g b' p' = (if b' = b \<and> p' = p then Some m else mrow f b' p')" for b' p'
      by (simp add: marker(4))
    have dig: "mk_digest m = sha256_canonical H j" using marker(2) by (simp add: marker_of_def)
    show ?thesis
      unfolding fold_inv_def
    proof (intro conjI R S T)
      show "mrow f b' p' = Some m' \<or> marker_rec j b' p' \<and> marker_of H j (length rs) m'"
        if "mrow g b' p' = Some m'" for b' p' m'
        using that g marker(1,2) by (metis option.inject)
      show "mrow g b' p' = Some m'" if "mrow f b' p' = Some m'" for b' p' m'
        using that g marker(3) by (metis option.distinct(1))
      show "\<exists>m. mrow g b' p' = Some m \<and> (mk_digest m = sha256_canonical H j \<or> b' \<in> fd_tainted g)"
        if "marker_rec j b' p'" for b' p'
        using u(1) [OF that] g dig by simp
    qed (use u(2) marker(5,6) in simp_all)
  next
    case (marker_again b p m)
    have u: "\<And>b' p'. marker_rec j b' p' \<Longrightarrow> b' = b \<and> p' = p" "\<And>b' s. \<not> action_rec j b' s"
      using rec_deterministic marker_again(1) by blast+
    have tainted: "b' \<in> fd_tainted g
        \<longleftrightarrow> b' \<in> fd_tainted f \<or> (b' = b \<and> mk_digest m \<noteq> sha256_canonical H j)" for b'
      by (auto simp: marker_again(5))
    have new: "same_slot (rs ! mk_sequence m) j b"
      using old(2) [OF marker_again(2)] marker_again(1) unfolding same_slot_def by blast
    show ?thesis
      unfolding fold_inv_def
    proof (intro conjI R S T)
      show "\<exists>m. mrow g b' p' = Some m
          \<and> (mk_digest m = sha256_canonical H j \<or> b' \<in> fd_tainted g)"
        if "marker_rec j b' p'" for b' p'
        using u(1) [OF that] tainted marker_again(2-4) by auto
      show "b' \<in> fd_tainted f \<or> (\<exists>i < length rs. same_slot (rs ! i) j b'
          \<and> digest_at H rs i \<noteq> sha256_canonical H j)" if "b' \<in> fd_tainted g" for b'
        using that tainted new old(1,3) [OF marker_again(2)] by metis
    qed (use u(2) marker_again(3,4) tainted in \<open>simp_all add: subset_iff\<close>)
  next
    case (action b s a)
    have u: "\<And>b' s'. action_rec j b' s' \<Longrightarrow> b' = b \<and> s' = s" "\<And>b' p. \<not> marker_rec j b' p"
      using rec_deterministic action(1) by blast+
    have g: "arow g b' s' = (if b' = b \<and> s' = s then Some a else arow f b' s')" for b' s'
      by (simp add: action(4))
    have dig: "ac_digest a = sha256_canonical H j" using action(2) by (simp add: action_of_def)
    show ?thesis
      unfolding fold_inv_def
    proof (intro conjI R S T)
      show "arow f b' s' = Some a' \<or> action_rec j b' s' \<and> action_of H j (length rs) a'"
        if "arow g b' s' = Some a'" for b' s' a'
        using that g action(1,2) by (metis option.inject)
      show "arow g b' s' = Some a'" if "arow f b' s' = Some a'" for b' s' a'
        using that g action(3) by (metis option.distinct(1))
      show "\<exists>a. arow g b' s' = Some a \<and> (ac_digest a = sha256_canonical H j \<or> b' \<in> fd_tainted g)"
        if "action_rec j b' s'" for b' s'
        using u(1) [OF that] g dig by simp
    qed (use u(2) action(5,6) in simp_all)
  next
    case (action_again b s a)
    have u: "\<And>b' s'. action_rec j b' s' \<Longrightarrow> b' = b \<and> s' = s" "\<And>b' p. \<not> marker_rec j b' p"
      using rec_deterministic action_again(1) by blast+
    have tainted: "b' \<in> fd_tainted g
        \<longleftrightarrow> b' \<in> fd_tainted f \<or> (b' = b \<and> ac_digest a \<noteq> sha256_canonical H j)" for b'
      by (auto simp: action_again(5))
    have new: "same_slot (rs ! ac_sequence a) j b"
      using old'(2) [OF action_again(2)] action_again(1) unfolding same_slot_def by blast
    show ?thesis
      unfolding fold_inv_def
    proof (intro conjI R S T)
      show "\<exists>a. arow g b' s' = Some a
          \<and> (ac_digest a = sha256_canonical H j \<or> b' \<in> fd_tainted g)"
        if "action_rec j b' s'" for b' s'
        using u(1) [OF that] tainted action_again(2-4) by auto
      show "b' \<in> fd_tainted f \<or> (\<exists>i < length rs. same_slot (rs ! i) j b'
          \<and> digest_at H rs i \<noteq> sha256_canonical H j)" if "b' \<in> fd_tainted g" for b'
        using that tainted new old'(1,3) [OF action_again(2)] by metis
    qed (use u(2) action_again(3,4) tainted in \<open>simp_all add: subset_iff\<close>)
  qed
qed

lemma fold_records_append:
  "fold_records H f (xs @ ys) n = rbind (fold_records H f xs n) (\<lambda>(g, k). fold_records H g ys k)"
proof (induction xs arbitrary: f n)
  case (Cons x xs)
  then show ?case by (cases "fold_one H f x n") simp_all
qed simp

lemma fold_records_length: "fold_records H f rs n = Inr (g, k) \<Longrightarrow> k = n + length rs"
  by (induction rs arbitrary: f n) (fastforce simp: rbind_Inr_iff)+

lemma fold_records_induct:
  assumes "fold_records H f rs 0 = Inr (g, n)" and "P [] f"
    and "\<And>rs j f g. P rs f \<Longrightarrow> fold_one H f j (length rs) = Inr g \<Longrightarrow> P (rs @ [j]) g"
  shows "P rs g"
  using assms(1)
proof (induction rs arbitrary: g n rule: rev_induct)
  case (snoc j rs)
  from snoc.prems obtain h k where h: "fold_records H f rs 0 = Inr (h, k)"
    and g: "fold_one H h j k = Inr g" by (auto simp: fold_records_append rbind_Inr_iff)
  from fold_records_length [OF h] have "k = length rs" by simp
  then show ?case using assms(3) snoc.IH [OF h] g by blast
qed (use assms(2) in simp)

lemma fold_inv_stream:
  assumes "fold_records H empty_fold rs 0 = Inr (f, n)" shows "fold_inv H rs f"
  using assms
proof (rule fold_records_induct)
  show "fold_inv H [] empty_fold"
    by (simp add: fold_inv_def rows_from_stream_def stream_in_rows_def taints_from_stream_def
        mrow_def arow_def empty_fold_def dget_or_def)
qed (rule fold_inv_step)

lemma fold_one_plain:
  assumes "fold_one H f j n = Inr g"
  shows "fd_completed g = fd_completed f
    \<and> ((\<forall>c \<in> set (fd_candidates f). ev_batch c = None)
        \<longrightarrow> (\<forall>c \<in> set (fd_candidates g). ev_batch c = None))"
  using assms
  by (auto simp: fold_one_def fold_marker_def fold_action_def rbind_Inr_iff Let_def
      candidate_from_evt_def split: json.splits if_splits option.splits)

lemma fold_stream_plain:
  assumes "fold_records H empty_fold rs 0 = Inr (f, n)"
  shows "fd_completed f = {} \<and> (\<forall>c \<in> set (fd_candidates f). ev_batch c = None)"
  by (rule fold_records_induct [OF assms, where P = "\<lambda>_ f. fd_completed f = {}
      \<and> (\<forall>c \<in> set (fd_candidates f). ev_batch c = None)"])
    (simp add: empty_fold_def, use fold_one_plain in metis)

lemma validated_core_raw:
  assumes "validate_correction_record r = Inr rec"
  shows "correction_action_core rec = correction_action_core r"
  using assms
  by (auto simp: validate_correction_record_def validate_action_core_def validate_revision_def
      rbind_Inr_iff Let_def correction_action_core_def in_tuple_iff split: if_splits)

lemma sort_dkeys_range:
  "sort (dkeys d) = py_range n \<Longrightarrow> dget d s \<noteq> None \<longleftrightarrow> 0 \<le> s \<and> s < n"
proof -
  assume "sort (dkeys d) = py_range n"
  then have "set (dkeys d) = {0..<n}" by (metis atLeastLessThan_iff py_range_def set_sort
        set_upto atLeastAtMost_iff zle_diff1_eq subsetI subset_antisym)
  then show ?thesis by (simp add: dget_None_iff)
qed

lemma marker_core_fields:
  "validate_batch_marker r = Inr core \<Longrightarrow>
     jget core ''action_count'' = jget r ''action_count''
   \<and> jget core ''actions_hash'' = jget r ''actions_hash'' \<and> nonneg_int (jget r ''action_count'')"
  by (auto simp: validate_batch_marker_def Let_def)

lemma fold_inv_rows:
  assumes "fold_inv H rs f"
  shows "mrow f b p = Some m \<Longrightarrow> mk_sequence m < length rs
      \<and> marker_rec (rs ! mk_sequence m) b p \<and> marker_of H (rs ! mk_sequence m) (mk_sequence m) m"
    and "arow f b s = Some a \<Longrightarrow> ac_sequence a < length rs
      \<and> action_rec (rs ! ac_sequence a) b s \<and> action_of H (rs ! ac_sequence a) (ac_sequence a) a"
    and "i < length rs \<Longrightarrow> marker_rec (rs ! i) b p \<Longrightarrow>
      \<exists>m. mrow f b p = Some m \<and> (mk_digest m = digest_at H rs i \<or> b \<in> fd_tainted f)"
    and "i < length rs \<Longrightarrow> action_rec (rs ! i) b s \<Longrightarrow>
      \<exists>a. arow f b s = Some a \<and> (ac_digest a = digest_at H rs i \<or> b \<in> fd_tainted f)"
  using assms unfolding fold_inv_def rows_from_stream_def stream_in_rows_def by blast+

text \<open>An untainted batch: two records in one slot are byte-identical up to the digest.\<close>

lemma untainted_same_slot:
  assumes "fold_inv H rs f" "b \<notin> fd_tainted f" "x < length rs" "y < length rs"
    "same_slot (rs ! x) (rs ! y) b"
  shows "digest_at H rs x = digest_at H rs y"
  using fold_inv_rows(3,4) [OF assms(1)] assms(2-) unfolding same_slot_def by (metis option.inject)

text \<open>The normalized correction a stream record stands for.\<close>

definition normal_of :: "json \<Rightarrow> jobj" where
  "normal_of j = (case validate_correction_record (the_obj j) of Inr r \<Rightarrow> r | Inl _ \<Rightarrow> [])"

definition action_at :: "json list \<Rightarrow> string \<Rightarrow> nat \<Rightarrow> nat \<Rightarrow> bool" where
  "action_at rs b s x \<longleftrightarrow> x < length rs \<and> action_rec (rs ! x) b (int s)
     \<and> validate_correction_record (the_obj (rs ! x)) = Inr (normal_of (rs ! x))"

text \<open>A complete set of action rows is read off stream positions.\<close>

lemma action_positions:
  assumes inv: "fold_inv H rs f"
    and keys: "sort (dkeys (dget_or (fd_actions f) b [])) = py_range n" and n: "0 \<le> n"
  obtains xs where "int (length xs) = n" "\<forall>s < length xs. action_at rs b s (xs ! s)"
    "map (\<lambda>s. the (dget (dget_or (fd_actions f) b []) s)) (py_range n)
       = map (\<lambda>x. \<lparr>ac_record = normal_of (rs ! x), ac_digest = digest_at H rs x, ac_sequence = x\<rparr>) xs"
proof
  let ?rows = "map (\<lambda>s. the (dget (dget_or (fd_actions f) b []) s)) (py_range n)"
  let ?xs = "map ac_sequence ?rows"
  show len: "int (length ?xs) = n" using n by (simp add: py_range_def)
  have row: "?rows ! s = \<lparr>ac_record = normal_of (rs ! (?xs ! s)), ac_digest = digest_at H rs (?xs ! s),
        ac_sequence = ?xs ! s\<rparr> \<and> action_at rs b s (?xs ! s)" if s: "s < length ?xs" for s
  proof -
    have "arow f b (int s) \<noteq> None"
      using sort_dkeys_range [OF keys, of "int s"] s len by (simp add: arow_def)
    then obtain a where a: "arow f b (int s) = Some a" by blast
    have "?rows ! s = a" using a s n by (simp add: py_range_def arow_def)
    moreover have "?xs ! s = ac_sequence (?rows ! s)" using s by simp
    ultimately show ?thesis
      using fold_inv_rows(2) [OF inv a]
      by (auto simp: action_of_def action_at_def normal_of_def digest_at_def)
  qed
  then show "\<forall>s < length ?xs. action_at rs b s (?xs ! s)" by blast
  show "?rows = map (\<lambda>x. \<lparr>ac_record = normal_of (rs ! x), ac_digest = digest_at H rs x,
      ac_sequence = x\<rparr>) ?xs"
    by (rule nth_equalityI) (use row in auto)
qed

text \<open>The stream positions that complete a batch: begin, the actions in order, commit.\<close>

definition batch_at :: "(string \<Rightarrow> string) \<Rightarrow> json list \<Rightarrow> string \<Rightarrow> nat \<Rightarrow> nat list \<Rightarrow> nat \<Rightarrow> bool"
  where
  "batch_at H rs b i xs k \<longleftrightarrow>
     k < length rs \<and> i < k \<and> sorted xs \<and> (\<forall>x \<in> set xs. i < x \<and> x < k)
   \<and> marker_rec (rs ! i) b ''begin'' \<and> marker_rec (rs ! k) b ''commit''
   \<and> (\<forall>s < length xs. action_at rs b s (xs ! s))
   \<and> sha256_canonical H (JObj (dwithout [''phase''] (the_obj (rs ! i))))
       = sha256_canonical H (JObj (dwithout [''phase''] (the_obj (rs ! k))))
   \<and> jget (the_obj (rs ! i)) ''action_count'' = JInt (int (length xs))
   \<and> jget (the_obj (rs ! i)) ''actions_hash'' = JStr (sha256_canonical H
       (JArr (map (\<lambda>x. JObj (correction_action_core (the_obj (rs ! x)))) xs)))
   \<and> (\<forall>x < length rs. \<forall>y < length rs. same_slot (rs ! x) (rs ! y) b
       \<longrightarrow> digest_at H rs x = digest_at H rs y)
   \<and> (\<forall>x < length rs. \<forall>s. action_rec (rs ! x) b s \<longrightarrow> 0 \<le> s \<and> s < int (length xs))"

definition stream_candidates :: "(string \<Rightarrow> string) \<Rightarrow> json list \<Rightarrow> nat list \<Rightarrow> effective_event list"
  where
  "stream_candidates H rs xs = map (\<lambda>x. candidate_from_correction H (normal_of (rs ! x)) x) xs"

lemma batch_sound_at:
  assumes inv: "fold_inv H rs f" and sound: "batch_sound H f b"
  obtains i xs k where "batch_at H rs b i xs k" "sound_candidates H f b = stream_candidates H rs xs"
proof -
  from sound obtain B C where B: "mrow f b ''begin'' = Some B" and C: "mrow f b ''commit'' = Some C"
    and rows: "sound_rows H B C (dget_or (fd_actions f) b [])" and clean: "b \<notin> fd_tainted f"
    by (auto simp: batch_sound_def mrow_def)
  define n i k where "n = the_int (jget (mk_core B) ''action_count'')" and "i = mk_sequence B"
    and "k = mk_sequence C"
  have iB: "i < length rs" "marker_rec (rs ! i) b ''begin''" "marker_of H (rs ! i) i B"
    and kC: "k < length rs" "marker_rec (rs ! k) b ''commit''" "marker_of H (rs ! k) k C"
    using fold_inv_rows(1) [OF inv] B C by (simp_all add: i_def k_def)
  have core: "jget (the_obj (rs ! i)) ''action_count'' = JInt n" "0 \<le> n"
    "jget (mk_core B) ''actions_hash'' = jget (the_obj (rs ! i)) ''actions_hash''"
    using iB(3) marker_core_fields [of "the_obj (rs ! i)" "mk_core B"]
    by (auto simp: marker_of_def n_def elim!: nonneg_intE)
  have keys: "sort (dkeys (dget_or (fd_actions f) b [])) = py_range n"
    using rows unfolding sound_rows_def Let_def n_def by blast
  obtain xs where xs: "int (length xs) = n" "\<forall>s < length xs. action_at rs b s (xs ! s)"
    and rowsx: "map (\<lambda>s. the (dget (dget_or (fd_actions f) b []) s)) (py_range n)
      = map (\<lambda>x. \<lparr>ac_record = normal_of (rs ! x), ac_digest = digest_at H rs x, ac_sequence = x\<rparr>) xs"
    using action_positions [OF inv keys core(2)] .
  have cores: "map (\<lambda>x. JObj (correction_action_core (normal_of (rs ! x)))) xs
      = map (\<lambda>x. JObj (correction_action_core (the_obj (rs ! x)))) xs"
    using xs(2) validated_core_raw unfolding action_at_def by (auto simp: in_set_conv_nth)
  note R = rows [unfolded sound_rows_def Let_def, folded n_def, unfolded rowsx, folded i_def k_def]
  have "batch_at H rs b i xs k"
    unfolding batch_at_def
  proof (intro conjI)
    show "\<forall>x < length rs. \<forall>s. action_rec (rs ! x) b s \<longrightarrow> 0 \<le> s \<and> s < int (length xs)"
      using fold_inv_rows(4) [OF inv] sort_dkeys_range [OF keys] xs(1) unfolding arow_def
      by (metis option.distinct(1))
    show "jget (the_obj (rs ! i)) ''actions_hash'' = JStr (sha256_canonical H
       (JArr (map (\<lambda>x. JObj (correction_action_core (the_obj (rs ! x)))) xs)))"
      using R core(3) cores by (simp add: comp_def)
    show "\<forall>x < length rs. \<forall>y < length rs. same_slot (rs ! x) (rs ! y) b
       \<longrightarrow> digest_at H rs x = digest_at H rs y"
      using untainted_same_slot [OF inv clean] by blast
  qed (use R iB kC core xs in \<open>auto simp: marker_of_def comp_def\<close>)
  moreover have "sound_candidates H f b = batch_candidates H B (dget_or (fd_actions f) b [])"
    using sound B by (simp add: sound_candidates_def mrow_def)
  then have "sound_candidates H f b = map (\<lambda>row. candidate_from_correction H (ac_record row)
      (ac_sequence row)) (map (\<lambda>s. the (dget (dget_or (fd_actions f) b []) s)) (py_range n))"
    by (simp add: batch_candidates_def n_def Let_def)
  then have "sound_candidates H f b = stream_candidates H rs xs"
    unfolding rowsx by (simp add: stream_candidates_def comp_def)
  ultimately show thesis by (rule that)
qed

text \<open>The candidates of one batch after phase 2.\<close>

lemma stream_candidate_batch:
  assumes "batch_at H rs b i xs k" and "c \<in> set (stream_candidates H rs xs)"
  shows "ev_batch c = Some b"
proof -
  obtain s where s: "s < length xs" "c = candidate_from_correction H (normal_of (rs ! (xs ! s))) (xs ! s)"
    using assms(2) by (auto simp: stream_candidates_def in_set_conv_nth)
  have "action_at rs b s (xs ! s)" using assms(1) s(1) by (simp add: batch_at_def)
  then have "jget (normal_of (rs ! (xs ! s))) ''batch'' = JStr b"
    by (auto simp: action_at_def action_rec_def elim!: validate_correction_fields)
  then show ?thesis by (simp add: s(2) candidate_from_correction_def)
qed

definition of_batch :: "string \<Rightarrow> effective_event list \<Rightarrow> effective_event list" where
  "of_batch b cs = filter (\<lambda>c. ev_batch c = Some b) cs"

lemma concat_single:
  "distinct xs \<Longrightarrow> concat (map (\<lambda>x. if x = b then ys else []) xs) = (if b \<in> set xs then ys else [])"
  by (induction xs) (auto simp: concat_eq_Nil_conv)

lemma of_batch_resolved:
  assumes stream: "fold_records H empty_fold rs 0 = Inr (f, n)"
  shows "of_batch b (fd_candidates (resolve_batches H None f)) = sound_candidates H f b"
proof -
  have inv: "fold_inv H rs f" using stream by (rule fold_inv_stream)
  have own: "of_batch b (sound_candidates H f b') = (if b' = b then sound_candidates H f b else [])"
    for b'
  proof (cases "batch_sound H f b'")
    case True
    have "\<forall>c \<in> set (sound_candidates H f b'). ev_batch c = Some b'"
      using batch_sound_at [OF inv True] stream_candidate_batch by metis
    then show ?thesis by (auto simp: of_batch_def filter_id_conv filter_empty_conv)
  qed (auto simp: sound_candidates_def of_batch_def)
  have none: "of_batch b (fd_candidates f) = []"
    using fold_stream_plain [OF stream] by (auto simp: of_batch_def filter_empty_conv)
  let ?ids = "sorted_set (dkeys (fd_markers f) @ dkeys (fd_actions f))"
  have "of_batch b (fd_candidates (resolve_batches H None f))
      = concat (map (\<lambda>b'. of_batch b (sound_candidates H f b')) ?ids)"
    by (simp add: resolve_batches_None resolve_batches_result none [unfolded of_batch_def]
        filter_concat comp_def of_batch_def)
  also have "\<dots> = (if b \<in> set ?ids then sound_candidates H f b else [])"
    unfolding own by (rule concat_single) simp
  also have "\<dots> = sound_candidates H f b"
    using batch_sound_keys [of H f b] by (auto simp: sound_candidates_def)
  finally show ?thesis .
qed

section \<open>The records of one built batch\<close>

definition mentions :: "string \<Rightarrow> json \<Rightarrow> bool" where
  "mentions b j \<longleftrightarrow> (\<exists>p. marker_rec j b p) \<or> (\<exists>s. action_rec j b s)"

definition positions :: "('a \<Rightarrow> bool) \<Rightarrow> 'a list \<Rightarrow> nat list" where
  "positions P xs = filter (\<lambda>i. P (xs ! i)) [0..<length xs]"

lemma positions_nth: "map ((!) xs) (positions P xs) = filter P xs"
proof (induction xs rule: rev_induct)
  case (snoc x xs)
  have pos: "filter (\<lambda>i. P ((xs @ [x]) ! i)) [0..<length xs] = positions P xs"
    unfolding positions_def by (intro filter_cong) (auto simp: nth_append)
  have old: "map ((!) (xs @ [x])) (positions P xs) = map ((!) xs) (positions P xs)"
    by (intro map_cong) (auto simp: positions_def nth_append)
  have "map ((!) (xs @ [x])) (positions P (xs @ [x]))
      = map ((!) (xs @ [x])) (positions P xs) @ (if P x then [x] else [])"
    by (simp add: positions_def [of P "xs @ [x]"] pos)
  also have "\<dots> = filter P (xs @ [x])" unfolding old snoc by simp
  finally show ?case .
qed (simp add: positions_def)

lemma positions_sorted: "sorted_wrt (<) (positions P xs)"
  unfolding positions_def by (intro sorted_wrt_filter) simp

lemma positions_in: "i \<in> set (positions P xs) \<longleftrightarrow> i < length xs \<and> P (xs ! i)"
  by (auto simp: positions_def)

definition built_batch :: "(string \<Rightarrow> string) \<Rightarrow> string \<Rightarrow> string \<Rightarrow> string \<Rightarrow> jobj list \<Rightarrow> jobj list" where
  "built_batch H bid family at cores =
     (let marker = batch_marker bid family at (int (length cores))
            (sha256_canonical H (JArr (map JObj cores)))
      in marker_record marker Begin # map (\<lambda>(seq, core). action_record bid seq core) (enumerate 0 cores)
         @ [marker_record marker Commit])"

lemma built_batch_length [simp]: "length (built_batch H bid family at cores) = length cores + 2"
  by (simp add: built_batch_def Let_def)

lemma built_batch_nth:
  "built_batch H bid family at cores ! 0 = marker_record (batch_marker bid family at
      (int (length cores)) (sha256_canonical H (JArr (map JObj cores)))) Begin"
  "s < length cores \<Longrightarrow> built_batch H bid family at cores ! Suc s = action_record bid s (cores ! s)"
  "built_batch H bid family at cores ! Suc (length cores) = marker_record (batch_marker bid family at
      (int (length cores)) (sha256_canonical H (JArr (map JObj cores)))) Commit"
  by (simp_all add: built_batch_def Let_def nth_append nth_enumerate_eq)

lemma marker_record_rec:
  "marker_rec (JObj (marker_record (batch_marker bid family at n h) ph)) b p
     \<longleftrightarrow> b = bid \<and> p = phase_name ph"
  "\<not> action_rec (JObj (marker_record (batch_marker bid family at n h) ph)) b s"
  by (auto simp: marker_rec_def action_rec_def marker_record_def batch_marker_def writer_stamps_def
      WPG_def WPR_def WPX_def)

lemma action_record_rec:
  assumes "wf_core core"
  shows "action_rec (JObj (action_record bid seq core)) b s \<longleftrightarrow> b = bid \<and> s = int seq"
    and "\<not> marker_rec (JObj (action_record bid seq core)) b p"
  using assms
  by (auto simp: marker_rec_def action_rec_def action_record_def action_core_def writer_stamps_def
      elim!: wf_coreE)

lemma built_batch_slot:
  assumes "list_all wf_core cores" and t: "t < length cores + 2"
  shows "marker_rec (JObj (built_batch H bid family at cores ! t)) b p
      \<longleftrightarrow> b = bid \<and> (t = 0 \<and> p = ''begin'' \<or> t = Suc (length cores) \<and> p = ''commit'')"
    and "action_rec (JObj (built_batch H bid family at cores ! t)) b s
      \<longleftrightarrow> b = bid \<and> (\<exists>q < length cores. t = Suc q \<and> s = int q)"
proof -
  consider "t = 0" | q where "t = Suc q" "q < length cores" | "t = Suc (length cores)"
    using t by (cases t) (auto simp: less_Suc_eq)
  then show "marker_rec (JObj (built_batch H bid family at cores ! t)) b p
      \<longleftrightarrow> b = bid \<and> (t = 0 \<and> p = ''begin'' \<or> t = Suc (length cores) \<and> p = ''commit'')"
    "action_rec (JObj (built_batch H bid family at cores ! t)) b s
      \<longleftrightarrow> b = bid \<and> (\<exists>q < length cores. t = Suc q \<and> s = int q)"
    using assms(1)
    by (cases; auto simp: built_batch_nth marker_record_rec action_record_rec phase_name_def
        list_all_length)+
qed

text \<open>The rows a stream with exactly these records accumulates.\<close>

definition wf_action_rows :: "selector_fold \<Rightarrow> bool" where
  "wf_action_rows f \<longleftrightarrow> (\<forall>b. wf_dict (dget_or (fd_actions f) b []))"

lemma fold_action_actions:
  assumes "fold_action H f r n = Inr g"
  shows "fd_actions g = fd_actions f \<or> (\<exists>b s a. fd_actions g
      = dset b (dset s a (dget_or (fd_actions f) b [])) (fd_actions f))"
proof -
  obtain rec where rec: "validate_correction_record r = Inr rec"
    using assms by (auto simp: fold_action_def rbind_Inr_iff)
  then obtain b s where "jget rec ''batch'' = JStr b" "jget rec ''seq'' = JInt s"
    by (auto elim: validate_correction_fields)
  note f = this
  show ?thesis
  proof (cases "dget (dget_or (fd_actions f) b []) s")
    case None
    then have "fd_actions g = dset b (dset s \<lparr>ac_record = rec,
        ac_digest = sha256_canonical H (JObj r), ac_sequence = n\<rparr>
        (dget_or (fd_actions f) b [])) (fd_actions f)"
      using assms rec f by (auto simp: fold_action_def Let_def)
    then show ?thesis by blast
  next
    case (Some a)
    then have "fd_actions g = fd_actions f"
      using assms rec f by (auto simp: fold_action_def Let_def split: if_splits)
    then show ?thesis by blast
  qed
qed

lemma fold_one_actions:
  assumes "fold_one H f j n = Inr g"
  shows "fd_actions g = fd_actions f \<or> (\<exists>b s a. fd_actions g
      = dset b (dset s a (dget_or (fd_actions f) b [])) (fd_actions f))"
proof -
  have "fd_actions g = fd_actions f \<or> (\<exists>r. fold_action H f r n = Inr g)"
    using assms by (auto simp: fold_one_def fold_marker_def rbind_Inr_iff Let_def
        split: json.splits if_splits option.splits)
  then show ?thesis using fold_action_actions by blast
qed

lemma wf_action_rows_stream:
  assumes "fold_records H empty_fold rs 0 = Inr (f, n)" shows "wf_action_rows f"
  using assms
proof (rule fold_records_induct)
  show "wf_action_rows empty_fold" by (simp add: wf_action_rows_def empty_fold_def dget_or_def)
next
  fix f j n g assume wf: "wf_action_rows f" and step: "fold_one H f j n = Inr g"
  have "fd_actions g = fd_actions f \<or> (\<exists>b s a. fd_actions g
      = dset b (dset s a (dget_or (fd_actions f) b [])) (fd_actions f))"
    using step by (rule fold_one_actions)
  then show "wf_action_rows g"
  proof
    assume "\<exists>b s a. fd_actions g = dset b (dset s a (dget_or (fd_actions f) b [])) (fd_actions f)"
    then obtain b s a where g: "fd_actions g = dset b (dset s a (dget_or (fd_actions f) b [])) (fd_actions f)"
      by blast
    show ?thesis
      using wf unfolding wf_action_rows_def g by (auto simp: dget_or_def dget_dset intro: wf_dict_dset)
  qed (use wf in \<open>simp add: wf_action_rows_def\<close>)
qed

text \<open>
  A stream in which the records of a batch are exactly the built ones, in order, with any other
  records in between.
\<close>

lemma built_rows:
  fixes ps
  assumes stream: "fold_records H empty_fold rs 0 = Inr (f, n)"
    and wf: "list_all wf_core cores"
    and only: "filter (mentions bid) rs = map JObj (built_batch H bid family at cores)"
  defines "ps \<equiv> positions (mentions bid) rs"
  shows "length ps = length cores + 2" "sorted_wrt (<) ps" "bid \<notin> fd_tainted f"
    "\<And>t. t < length ps \<Longrightarrow> ps ! t < length rs \<and> rs ! (ps ! t) = JObj (built_batch H bid family at cores ! t)"
    "mrow f bid p = Some m \<Longrightarrow> p = ''begin'' \<and> mk_sequence m = ps ! 0
       \<or> p = ''commit'' \<and> mk_sequence m = ps ! Suc (length cores)"
    "arow f bid s = Some a \<Longrightarrow> \<exists>q < length cores. s = int q \<and> ac_sequence a = ps ! Suc q"
proof -
  have inv: "fold_inv H rs f" using stream by (rule fold_inv_stream)
  have maps: "map ((!) rs) ps = map JObj (built_batch H bid family at cores)"
    unfolding ps_def positions_nth by (rule only)
  show len: "length ps = length cores + 2"
    using arg_cong [OF maps, of length] by simp
  show ord: "sorted_wrt (<) ps" unfolding ps_def by (rule positions_sorted)
  show at: "ps ! t < length rs \<and> rs ! (ps ! t) = JObj (built_batch H bid family at cores ! t)"
    if t: "t < length ps" for t
  proof
    show "ps ! t < length rs" using nth_mem [OF t] unfolding ps_def by (simp add: positions_in)
    have "map ((!) rs) ps ! t = map JObj (built_batch H bid family at cores) ! t"
      by (simp only: maps)
    then show "rs ! (ps ! t) = JObj (built_batch H bid family at cores ! t)"
      using t len by simp
  qed
  have find: "\<exists>t < length ps. x = ps ! t" if "x < length rs" "mentions bid (rs ! x)" for x
    using that unfolding ps_def by (metis in_set_conv_nth positions_in)
  note slot = built_batch_slot [OF wf, of _ H bid family at]
  show "p = ''begin'' \<and> mk_sequence m = ps ! 0 \<or> p = ''commit'' \<and> mk_sequence m = ps ! Suc (length cores)"
    if m: "mrow f bid p = Some m"
  proof -
    from fold_inv_rows(1) [OF inv m] have *: "mk_sequence m < length rs"
      "marker_rec (rs ! mk_sequence m) bid p" by simp_all
    then obtain t where t: "t < length ps" "mk_sequence m = ps ! t"
      using find unfolding mentions_def by blast
    then show ?thesis using * at [OF t(1)] slot(1) [of t] len by auto
  qed
  show "\<exists>q < length cores. s = int q \<and> ac_sequence a = ps ! Suc q" if a: "arow f bid s = Some a"
  proof -
    from fold_inv_rows(2) [OF inv a] have *: "ac_sequence a < length rs"
      "action_rec (rs ! ac_sequence a) bid s" by simp_all
    then obtain t where t: "t < length ps" "ac_sequence a = ps ! t"
      using find unfolding mentions_def by blast
    then show ?thesis using * at [OF t(1)] slot(2) [of t] len by auto
  qed
  show "bid \<notin> fd_tainted f"
  proof
    assume "bid \<in> fd_tainted f"
    then obtain x y where xy: "x < y" "y < length rs" "same_slot (rs ! x) (rs ! y) bid"
      using inv unfolding fold_inv_def taints_from_stream_def by blast
    then have "mentions bid (rs ! x)" "mentions bid (rs ! y)"
      by (auto simp: same_slot_def mentions_def)
    then obtain t u where tu: "t < length ps" "x = ps ! t" "u < length ps" "y = ps ! u"
      using find xy by (meson less_trans)
    have "t = u"
      using xy(3) at [OF tu(1)] at [OF tu(3)] slot(1,2) [of t] slot(1,2) [of u] len tu
      unfolding same_slot_def by (auto simp: tu(2,4))
    then show False using xy tu by simp
  qed
qed

lemma normal_action_candidate:
  assumes "wf_core c"
  shows "ev_id (candidate_from_correction H (normal_action bid q c) x) = the_str (jget c ''id'')"
    and "ev_rev (candidate_from_correction H (normal_action bid q c) x) = the_int (jget c ''rev'')"
    and "ev_record (candidate_from_correction H (normal_action bid q c) x)
      = (if jget c ''action'' = JStr ''tombstone'' then None else Some (correction_event c))"
  using assms
  by (auto elim!: wf_coreE simp: candidate_from_correction_def normal_action_def action_core_def
      correction_event_def)

lemma dwithout_phase_marker:
  "dwithout [''phase''] (marker_record (batch_marker bid family at n h) ph)
     = batch_marker bid family at n h"
  by (simp add: marker_record_def dwithout_append batch_marker_def writer_stamps_def dwithout_def
      WPG_def WPR_def WPX_def)

lemma built_action_rows:
  assumes stream: "fold_records H empty_fold rs 0 = Inr (f, n)" and bid: "bid \<noteq> []"
    and wf: "list_all wf_core cores"
    and only: "filter (mentions bid) rs = map JObj (built_batch H bid family at cores)"
  defines "ps \<equiv> positions (mentions bid) rs" and "acts \<equiv> dget_or (fd_actions f) bid []"
  shows "sort (dkeys acts) = py_range (int (length cores))"
    and "map (\<lambda>s. the (dget acts s)) (py_range (int (length cores)))
      = map (\<lambda>q. \<lparr>ac_record = normal_action bid q (cores ! q), ac_digest = digest_at H rs (ps ! Suc q),
          ac_sequence = ps ! Suc q\<rparr>) [0..<length cores]"
proof -
  have inv: "fold_inv H rs f" using stream by (rule fold_inv_stream)
  note b = built_rows [OF stream wf only, folded ps_def]
  have row: "dget acts (int q) = Some \<lparr>ac_record = normal_action bid q (cores ! q),
      ac_digest = digest_at H rs (ps ! Suc q), ac_sequence = ps ! Suc q\<rparr>" if q: "q < length cores" for q
  proof -
    have at: "ps ! Suc q < length rs" "rs ! (ps ! Suc q) = JObj (action_record bid q (cores ! q))"
      using b(4) [of "Suc q"] b(1) q by (simp_all add: built_batch_nth)
    have wfq: "wf_core (cores ! q)" using wf q by (simp add: list_all_length)
    have "action_rec (rs ! (ps ! Suc q)) bid (int q)" using at action_record_rec(1) [OF wfq] by simp
    from fold_inv_rows(4) [OF inv at(1) this] obtain a where a: "arow f bid (int q) = Some a" by blast
    then have seq: "ac_sequence a = ps ! Suc q" using b(6) [OF a] by auto
    have "action_of H (rs ! (ps ! Suc q)) (ps ! Suc q) a" using fold_inv_rows(2) [OF inv a] seq by simp
    then show ?thesis
      using a seq at(2) validate_correction_action_record [OF wfq bid]
      by (cases a) (simp add: action_of_def arow_def acts_def digest_at_def)
  qed
  have "set (dkeys acts) = {0..<int (length cores)}"
  proof (rule set_eqI)
    fix s
    have "s \<in> set (dkeys acts) \<longleftrightarrow> (\<exists>a. arow f bid s = Some a)"
      using dget_None_iff [of acts s] by (auto simp: arow_def acts_def)
    also have "\<dots> \<longleftrightarrow> s \<in> {0..<int (length cores)}"
    proof
      assume "s \<in> {0..<int (length cores)}"
      then show "\<exists>a. arow f bid s = Some a"
        using row [of "nat s"] by (auto simp: arow_def acts_def)
    next
      assume "\<exists>a. arow f bid s = Some a"
      then obtain a where "arow f bid s = Some a" ..
      then obtain q where "q < length cores" "s = int q" using b(6) by blast
      then show "s \<in> {0..<int (length cores)}" by simp
    qed
    finally show "s \<in> set (dkeys acts) \<longleftrightarrow> s \<in> {0..<int (length cores)}" .
  qed
  then have same: "set (sort (dkeys acts)) = set (py_range (int (length cores)))"
    by (simp add: py_range_def set_upto atLeastLessThanPlusOne_atLeastAtMost_int [symmetric])
  have dist: "distinct (dkeys acts)"
    using wf_action_rows_stream [OF stream] by (simp add: wf_action_rows_def wf_dict_def dkeys_def acts_def)
  show "sort (dkeys acts) = py_range (int (length cores))"
    by (rule sorted_distinct_set_unique [OF _ _ _ _ same]) (simp_all add: dist py_range_def)
  show "map (\<lambda>s. the (dget acts s)) (py_range (int (length cores)))
      = map (\<lambda>q. \<lparr>ac_record = normal_action bid q (cores ! q), ac_digest = digest_at H rs (ps ! Suc q),
          ac_sequence = ps ! Suc q\<rparr>) [0..<length cores]"
    by (rule nth_equalityI) (use row in \<open>auto simp: py_range_def\<close>)
qed

lemma built_sound:
  assumes stream: "fold_records H empty_fold rs 0 = Inr (f, n)" and H: "hexdigest H"
    and names: "bid \<noteq> []" "family \<noteq> []" "at \<noteq> []" and wf: "list_all wf_core cores"
    and only: "filter (mentions bid) rs = map JObj (built_batch H bid family at cores)"
  defines "ps \<equiv> positions (mentions bid) rs"
  shows "batch_sound H f bid"
    and "sound_candidates H f bid = map (\<lambda>q. candidate_from_correction H
      (normal_action bid q (cores ! q)) (ps ! Suc q)) [0..<length cores]"
proof -
  let ?N = "length cores" and ?h = "sha256_canonical H (JArr (map JObj cores))"
  let ?m = "batch_marker bid family at (int ?N) ?h"
  have inv: "fold_inv H rs f" using stream by (rule fold_inv_stream)
  note b = built_rows [OF stream wf only, folded ps_def]
  note r = built_action_rows [OF stream names(1) wf only, folded ps_def]
  have bgn: "ps ! 0 < length rs" "rs ! (ps ! 0) = JObj (marker_record ?m Begin)"
    and commit: "ps ! Suc ?N < length rs" "rs ! (ps ! Suc ?N) = JObj (marker_record ?m Commit)"
    using b(4) [of 0] b(4) [of "Suc ?N"] b(1) by (simp_all add: built_batch_nth)
  have "marker_rec (rs ! (ps ! 0)) bid ''begin''" "marker_rec (rs ! (ps ! Suc ?N)) bid ''commit''"
    by (simp_all add: bgn commit marker_record_rec phase_name_def)
  then obtain B C where B: "mrow f bid ''begin'' = Some B" and C: "mrow f bid ''commit'' = Some C"
    using fold_inv_rows(3) [OF inv] bgn commit by meson
  have seqs: "mk_sequence B = ps ! 0" "mk_sequence C = ps ! Suc ?N"
    using b(5) [OF B] b(5) [OF C] by simp_all
  have "marker_of H (rs ! (ps ! 0)) (ps ! 0) B" "marker_of H (rs ! (ps ! Suc ?N)) (ps ! Suc ?N) C"
    using fold_inv_rows(1) [OF inv B] fold_inv_rows(1) [OF inv C] seqs by simp_all
  then have core: "mk_core B = normal_marker bid family at (int ?N) ?h"
    and identity: "mk_identity B = mk_identity C"
    using validate_marker_record [OF H names] by (simp_all add: marker_of_def bgn commit dwithout_phase_marker)
  have count: "the_int (jget (mk_core B) ''action_count'') = int ?N"
    and hash: "jget (mk_core B) ''actions_hash'' = JStr ?h"
    by (simp_all add: core normal_marker_def)
  have lt: "ps ! i < ps ! j" if "i < j" "j < ?N + 2" for i j
    using b(1,2) that by (simp add: sorted_wrt_iff_nth_less)
  have "map (\<lambda>q. JObj (correction_action_core (normal_action bid q (cores ! q)))) [0..<?N] = map JObj cores"
    by (rule nth_equalityI) (use wf in \<open>auto simp: list_all_length normal_action_core\<close>)
  moreover have "sorted (map (\<lambda>q. ps ! Suc q) [0..<?N])"
    by (rule sorted_wrt_mono_rel [of _ "(<)"])
      (auto simp: sorted_wrt_iff_nth_less intro: lt)
  ultimately have "sound_rows H B C (dget_or (fd_actions f) bid [])"
    unfolding sound_rows_def Let_def count r
    using r(1) identity seqs hash lt by (simp add: comp_def)
  then show sound: "batch_sound H f bid"
    using b(3) B C by (auto simp: batch_sound_def mrow_def)
  have "sound_candidates H f bid = map (\<lambda>row. candidate_from_correction H (ac_record row) (ac_sequence row))
      (map (\<lambda>s. the (dget (dget_or (fd_actions f) bid []) s)) (py_range (int ?N)))"
    using sound B count by (simp add: sound_candidates_def batch_candidates_def mrow_def Let_def comp_def)
  then show "sound_candidates H f bid = map (\<lambda>q. candidate_from_correction H
      (normal_action bid q (cores ! q)) (ps ! Suc q)) [0..<?N]"
    unfolding r(2) by (simp add: comp_def)
qed

text \<open>Folding a built batch never raises.\<close>

lemma fold_total:
  assumes "\<And>f n j. j \<in> set rs \<Longrightarrow> \<exists>g. fold_one H f j n = Inr g"
  shows "\<exists>g k. fold_records H f rs n = Inr (g, k)"
  using assms
proof (induction rs arbitrary: f n)
  case (Cons j rs)
  obtain g where "fold_one H f j n = Inr g" using Cons.prems by (meson list.set_intros(1))
  then show ?case using Cons by simp
qed simp

lemma fold_one_built:
  assumes "hexdigest H" "bid \<noteq> []" "family \<noteq> []" "at \<noteq> []" "list_all wf_core cores"
    and "r \<in> set (built_batch H bid family at cores)"
  shows "\<exists>g. fold_one H f (JObj r) n = Inr g"
proof -
  have marker: "\<exists>g. fold_one H f (JObj (marker_record (batch_marker bid family at (int (length cores))
      (sha256_canonical H v)) p)) n = Inr g" for v p
    using validate_marker_record [OF assms(1-4), of "length cores" v p]
    by (simp add: fold_one_def fold_marker_def is_protocol_resolution_def marker_record_def
        batch_marker_def Let_def)
  have action: "\<exists>g. fold_one H f (JObj (action_record bid q c)) n = Inr g" if "wf_core c" for q c
    using validate_correction_action_record [OF that assms(2), of q]
    by (simp add: fold_one_def fold_action_def is_protocol_resolution_def action_record_def Let_def)
  show ?thesis
    using assms(5,6) marker action
    by (auto simp: built_batch_def Let_def list_all_iff in_set_enumerate_eq)
qed

section \<open>Properties\<close>

text \<open>The fold resumes: folding a stream in two parts, the second from the state and the sequence
  number the first returned, is folding it in one, and every element consumes exactly one sequence
  number, so an incremental pass numbers its records as a full one would.\<close>

theorem fold_resumes:
  "fold_records H f (xs @ ys) n
     = rbind (fold_records H f xs n) (\<lambda>(g, _). fold_records H g ys (n + length xs))"
proof (cases "fold_records H f xs n")
  case (Inr p)
  then show ?thesis
    using fold_records_length [of H f xs n] by (cases p) (simp add: fold_records_append)
qed (simp add: fold_records_append)

text \<open>C9: A batch that completed has its certificate in the stream: a begin and a commit marker of
  equal identity, between them in ascending order one action for each announced sequence number
  and no other, under the announced hash, every duplicate of one of these records in the stream
  identical to it; and the batch's candidates are exactly those actions at their positions.\<close>

theorem completed_batch_certificate:
  assumes "fold_records H empty_fold rs 0 = Inr (f, n)"
    and "b \<in> fd_completed (resolve_batches H None f)"
  shows "\<exists>i xs k. batch_at H rs b i xs k
    \<and> of_batch b (fd_candidates (resolve_batches H None f)) = stream_candidates H rs xs"
proof -
  have "batch_sound H f b" using assms completed_iff fold_stream_plain by blast
  from batch_sound_at [OF fold_inv_stream [OF assms(1)] this] show ?thesis
    using of_batch_resolved [OF assms(1)] by metis
qed

text \<open>C2: Correction batches are atomic under crashes. For the records \<open>make_correction_batch\<close> returns,
  folded in order with any records of other batches in between: if only a proper prefix reached
  the journal the batch does not complete and none of its actions is a candidate, and once the
  whole list did, it completes and its candidates are exactly its actions, in order.\<close>

theorem batch_atomic_under_crash:
  assumes "hexdigest H" and "make_correction_batch H b family at actions = Inr records"
    and "fold_records H empty_fold rs 0 = Inr (f, n)"
    and "filter (mentions (the_str b)) rs = map JObj (take k records)"
  shows "(k < length records \<longrightarrow> the_str b \<notin> fd_completed (resolve_batches H None f)
      \<and> of_batch (the_str b) (fd_candidates (resolve_batches H None f)) = [])
    \<and> (length records \<le> k \<longrightarrow> the_str b \<in> fd_completed (resolve_batches H None f)
      \<and> (\<exists>cores. rmap validate_action_core actions = Inr cores
         \<and> map ev_id (of_batch (the_str b) (fd_candidates (resolve_batches H None f)))
             = map (\<lambda>c. the_str (jget c ''id'')) cores
         \<and> map ev_rev (of_batch (the_str b) (fd_candidates (resolve_batches H None f)))
             = map (\<lambda>c. the_int (jget c ''rev'')) cores
         \<and> map ev_record (of_batch (the_str b) (fd_candidates (resolve_batches H None f)))
             = map (\<lambda>c. if jget c ''action'' = JStr ''tombstone'' then None
                       else Some (correction_event c)) cores))"
proof -
  from assms(2) obtain bid fam a cores where b: "b = JStr bid" "bid \<noteq> []" "fam \<noteq> []" "a \<noteq> []"
    and cores: "rmap validate_action_core actions = Inr cores" and wf: "list_all wf_core cores"
    and rec: "records = built_batch H bid fam a cores"
    by (rule make_correction_batchE) (simp add: built_batch_def Let_def)
  have inv: "fold_inv H rs f" using assms(3) by (rule fold_inv_stream)
  note plain = fold_stream_plain [OF assms(3)] and ob = of_batch_resolved [OF assms(3), of bid]
  show ?thesis
  proof (intro conjI impI)
    assume k: "k < length records"
    have "mrow f bid ''commit'' = None"
    proof (rule ccontr)
      assume "mrow f bid ''commit'' \<noteq> None"
      then obtain x where x: "x < length rs" "marker_rec (rs ! x) bid ''commit''"
        using fold_inv_rows(1) [OF inv] by blast
      then have "rs ! x \<in> set (filter (mentions bid) rs)" by (auto simp: mentions_def)
      then have "rs ! x \<in> set (map JObj (take k records))" using assms(4) b(1) by (simp only: the_str.simps)
      then obtain t where t: "t < k" "t < length records" "rs ! x = JObj (records ! t)"
        by (auto simp: in_set_conv_nth)
      then show False using x(2) built_batch_slot(1) [OF wf, of t H bid fam a bid "''commit''"] rec k
        by simp
    qed
    then have "\<not> batch_sound H f bid" by (auto simp: batch_sound_def mrow_def)
    then show "the_str b \<notin> fd_completed (resolve_batches H None f)"
      "of_batch (the_str b) (fd_candidates (resolve_batches H None f)) = []"
      using plain ob by (simp_all add: b completed_iff sound_candidates_def)
  next
    assume "length records \<le> k"
    then have only: "filter (mentions bid) rs = map JObj (built_batch H bid fam a cores)"
      using assms(4) b(1) rec by simp
    note s = built_sound [OF assms(3,1) b(2-4) wf only]
    show "the_str b \<in> fd_completed (resolve_batches H None f)"
      using s(1) by (simp add: b completed_iff)
    show "\<exists>cores. rmap validate_action_core actions = Inr cores
         \<and> map ev_id (of_batch (the_str b) (fd_candidates (resolve_batches H None f)))
             = map (\<lambda>c. the_str (jget c ''id'')) cores
         \<and> map ev_rev (of_batch (the_str b) (fd_candidates (resolve_batches H None f)))
             = map (\<lambda>c. the_int (jget c ''rev'')) cores
         \<and> map ev_record (of_batch (the_str b) (fd_candidates (resolve_batches H None f)))
             = map (\<lambda>c. if jget c ''action'' = JStr ''tombstone'' then None
                       else Some (correction_event c)) cores"
      using cores ob s(2) wf
      by (intro exI [of _ cores] conjI)
        (auto simp: b list_all_length normal_action_candidate intro!: nth_equalityI)
  qed
qed

definition sample_actions :: "json list" where
  "sample_actions = [JObj [(''action'', JStr ''tombstone''), (''id'', JStr ''pm:1''), (''rev'', JInt 1),
     (''at'', JStr ''t''), (''payload'', JNull)]]"

lemma sample_batch:
  obtains cores where "rmap validate_action_core sample_actions = Inr cores" "list_all wf_core cores"
    "make_correction_batch sample_digest (JStr ''b1'') (JStr ''fam'') (JStr ''t'') sample_actions
       = Inr (built_batch sample_digest ''b1'' ''fam'' ''t'' cores)"
proof -
  have w: "wf_action ''tombstone'' ''pm:1'' 1 ''t'' JNull" by (simp add: wf_action_def)
  from validate_action_core_again [OF w]
  have c: "rmap validate_action_core sample_actions = Inr [action_core ''tombstone'' ''pm:1'' 1 ''t'' JNull]"
    by (simp add: sample_actions_def)
  have "wf_core (action_core ''tombstone'' ''pm:1'' 1 ''t'' JNull)"
    unfolding wf_core_def using w by blast
  then show thesis
    by (intro that [OF c]) (use c in \<open>simp_all add: make_correction_batch_def built_batch_def Let_def\<close>)
qed

lemma sample_batch_stream:
  obtains f n records where "fold_records sample_digest empty_fold (map JObj records) 0 = Inr (f, n)"
    "make_correction_batch sample_digest (JStr ''b1'') (JStr ''fam'') (JStr ''t'') sample_actions
       = Inr records"
    "filter (mentions ''b1'') (map JObj records) = map JObj (take (length records) records)"
proof -
  obtain cores where c: "rmap validate_action_core sample_actions = Inr cores" "list_all wf_core cores"
    "make_correction_batch sample_digest (JStr ''b1'') (JStr ''fam'') (JStr ''t'') sample_actions
       = Inr (built_batch sample_digest ''b1'' ''fam'' ''t'' cores)" by (rule sample_batch)
  let ?r = "built_batch sample_digest ''b1'' ''fam'' ''t'' cores"
  have "\<exists>g k. fold_records sample_digest empty_fold (map JObj ?r) 0 = Inr (g, k)"
    using fold_one_built [OF hexdigest_sample _ _ _ c(2), of "''b1''" "''fam''" "''t''"]
    by (intro fold_total) auto
  moreover have "mentions ''b1'' (JObj (?r ! t))" if t: "t < length ?r" for t
  proof -
    consider "t = 0" | q where "q < length cores" "t = Suc q" | "t = Suc (length cores)"
      using t by (cases t) (auto simp: less_Suc_eq)
    then show ?thesis
      using built_batch_slot [OF c(2), of t sample_digest "''b1''" "''fam''" "''t''" "''b1''"] t
      by cases (auto simp: mentions_def)
  qed
  then have "filter (mentions ''b1'') (map JObj ?r) = map JObj (take (length ?r) ?r)"
    by (auto simp: filter_id_conv in_set_conv_nth simp del: built_batch_length)
  ultimately show thesis using that c(3) by blast
qed

theorem batch_atomic_under_crash_witness:
  "\<exists>f n records. fold_records sample_digest empty_fold (map JObj records) 0 = Inr (f, n)
    \<and> ''b1'' \<in> fd_completed (resolve_batches sample_digest None f)"
proof (rule sample_batch_stream)
  fix f n records
  assume f: "fold_records sample_digest empty_fold (map JObj records) 0 = Inr (f, n)"
    and r: "make_correction_batch sample_digest (JStr ''b1'') (JStr ''fam'') (JStr ''t'') sample_actions
       = Inr records"
    and k: "filter (mentions ''b1'') (map JObj records) = map JObj (take (length records) records)"
  show ?thesis
    using batch_atomic_under_crash [OF hexdigest_sample r f, of "length records"] k f by auto
qed

lemma sample_completed:
  obtains f n rs where "fold_records sample_digest empty_fold rs 0 = Inr (f, n)"
    "''b1'' \<in> fd_completed (resolve_batches sample_digest None f)"
proof (rule sample_batch_stream)
  fix f n records
  assume f: "fold_records sample_digest empty_fold (map JObj records) 0 = Inr (f, n)"
    and r: "make_correction_batch sample_digest (JStr ''b1'') (JStr ''fam'') (JStr ''t'') sample_actions
       = Inr records"
    and k: "filter (mentions ''b1'') (map JObj records) = map JObj (take (length records) records)"
  from r obtain bid fam a cores where b: "''b1'' = bid" "bid \<noteq> []" "fam \<noteq> []" "a \<noteq> []"
    and wf: "list_all wf_core cores" and rec: "records = built_batch sample_digest bid fam a cores"
    by (rule make_correction_batchE) (simp add: built_batch_def Let_def)
  have "filter (mentions bid) (map JObj records) = map JObj (built_batch sample_digest bid fam a cores)"
    using k b rec by simp
  from built_sound(1) [OF f hexdigest_sample b(2-4) wf this] show thesis
    using that [OF f] b(1) by (simp add: completed_iff)
qed

theorem completed_batch_certificate_witness:
  "\<exists>rs i xs k. batch_at sample_digest rs ''b1'' i xs k"
  by (rule sample_completed) (use completed_batch_certificate in blast)

end
