(* ===== verification/Journal_Selection.thy ===== *)
theory Journal_Selection
  imports Journal_Fold
begin

text \<open>
  \<open>bin/_lib_journal.py\<close>, \<open>resolve_effective_events\<close>: from the accumulated fold, the acknowledged
  violations, the winning revision of every event id, the active records in stream order, and the
  conflicts at winning revisions.
\<close>

section \<open>Operations\<close>

record event_conflict =
  cf_event :: string
  cf_rev :: int
  cf_hashes :: "string list"
  cf_selected :: string

record acknowledged =
  ak_violation :: violation
  ak_audit :: string
  ak_high_water :: "string \<times> int"
  ak_prefix_hash :: string

record selection =
  sl_active :: "jobj list"
  sl_by_id :: "(string, effective_event) dict"
  sl_completed :: "string set"
  sl_conflicts :: "event_conflict list"
  sl_violations :: "violation list"
  sl_acknowledged :: "acknowledged list"

definition acknowledge_ref :: "(string \<Rightarrow> string) \<Rightarrow> selector_fold \<Rightarrow> nat \<Rightarrow> resolution
    \<Rightarrow> (string, acknowledged) dict \<Rightarrow> jobj \<Rightarrow> journal_error + (string, acknowledged) dict" where
  "acknowledge_ref H f sequence res acks ref =
     (let by_fp = map (\<lambda>(_, v). (fingerprint H v, v)) (rev (fd_violations f));
          fp = the_str (jget ref ''fingerprint'') in
      case dget by_fp fp of
        None \<Rightarrow> Inl (JournalProtocolError
          ''journal protocol resolution references an unknown violation'')
      | Some v \<Rightarrow>
          require (JStr (vi_batch v) = jget ref ''batch_id'' \<and> JStr (vi_kind v) = jget ref ''kind'')
            ''journal protocol resolution references an unknown violation''
          (require (dget_or (fd_available f) fp 0 < sequence)
            ''journal protocol resolution precedes the violation it resolves''
          (Inr (case dget acks fp of Some _ \<Rightarrow> acks
             | None \<Rightarrow> dset fp \<lparr>ak_violation = v, ak_audit = rs_audit_id res,
                 ak_high_water = rs_high_water res, ak_prefix_hash = rs_prefix_hash res\<rparr> acks))))"

type_synonym prefix_evidence = "(string \<times> int) \<times> string"

definition acknowledge_resolution :: "(string \<Rightarrow> string) \<Rightarrow> selector_fold
    \<Rightarrow> (string, acknowledged) dict \<Rightarrow> (nat \<times> resolution) \<times> prefix_evidence
    \<Rightarrow> journal_error + (string, acknowledged) dict" where
  "acknowledge_resolution H f acks item = (case item of ((sequence, res), evidence) \<Rightarrow>
     require (fst evidence = rs_high_water res \<and> snd evidence = rs_prefix_hash res)
       ''journal protocol resolution raw-prefix binding does not match''
     (rfold (acknowledge_ref H f sequence res) acks (rs_refs res)))"

definition acknowledge_all :: "(string \<Rightarrow> string) \<Rightarrow> selector_fold \<Rightarrow> prefix_evidence list
    \<Rightarrow> journal_error + (string, acknowledged) dict" where
  "acknowledge_all H f prefix =
     (let ordered = sort_key fst (fd_resolutions f) in
      require (ordered = [] \<or> length prefix = length ordered)
        ''journal protocol resolution requires verified raw-prefix evidence''
      (rfold (acknowledge_resolution H f) [] (zip ordered prefix)))"

type_synonym revision_key = "string \<times> int"

definition rev_key :: "effective_event \<Rightarrow> revision_key" where
  "rev_key c = (ev_id c, ev_rev c)"

definition group_step :: "(revision_key, effective_event) dict \<times> (revision_key, string list) dict
    \<Rightarrow> effective_event
    \<Rightarrow> (revision_key, effective_event) dict \<times> (revision_key, string list) dict" where
  "group_step st c = (case st of (by_revision, divergent) \<Rightarrow> (let key = rev_key c in
     case dget by_revision key of
       None \<Rightarrow> (dset key c by_revision, divergent)
     | Some p \<Rightarrow>
         let kept = (if ev_sequence c < ev_sequence p then dset key c by_revision else by_revision) in
         if ev_hash p \<noteq> ev_hash c \<or> ev_status p \<noteq> ev_status c
         then if is_legacy_arming_state p \<and> is_legacy_arming_state c
              then (dset key c by_revision, divergent)
              else (kept, dset key (dget_or divergent key [] @ [ev_hash p, ev_hash c]) divergent)
         else (kept, divergent)))"

definition winner_step :: "(string, effective_event) dict \<Rightarrow> effective_event
    \<Rightarrow> (string, effective_event) dict" where
  "winner_step winners c = (case dget winners (ev_id c) of
     None \<Rightarrow> dset (ev_id c) c winners
   | Some p \<Rightarrow> if ev_rev p < ev_rev c then dset (ev_id c) c winners else winners)"

definition active_records :: "(string, effective_event) dict \<Rightarrow> jobj list" where
  "active_records winners = concat (map (\<lambda>c. if ev_status c = ActiveEvt
     then (case ev_record c of Some r \<Rightarrow> [r] | None \<Rightarrow> []) else [])
     (sort_key ev_sequence (map snd winners)))"

definition conflict_of :: "(revision_key, effective_event) dict \<Rightarrow> (revision_key, string list) dict
    \<Rightarrow> (string, effective_event) dict \<Rightarrow> revision_key \<Rightarrow> event_conflict list" where
  "conflict_of by_revision divergent winners key = (case dget winners (fst key) of
     None \<Rightarrow> []
   | Some w \<Rightarrow> if ev_rev w \<noteq> snd key then []
       else [\<lparr>cf_event = fst key, cf_rev = snd key,
              cf_hashes = sorted_set (dget_or divergent key []),
              cf_selected = (case dget by_revision key of Some c \<Rightarrow> ev_hash c | None \<Rightarrow> [])\<rparr>])"

definition select_candidates ::
    "effective_event list \<Rightarrow> (string, effective_event) dict \<times> jobj list \<times> event_conflict list" where
  "select_candidates candidates =
     (let (by_revision, divergent) = foldl group_step ([], []) candidates;
          winners = foldl winner_step [] (map snd by_revision)
      in (winners, active_records winners,
          concat (map (conflict_of by_revision divergent winners) (sort (dkeys divergent)))))"

definition violation_key :: "(string \<Rightarrow> string) \<Rightarrow> violation \<Rightarrow> string \<times> string \<times> string" where
  "violation_key H v = (vi_batch v, vi_kind v, fingerprint H v)"

definition resolve_effective_events :: "(string \<Rightarrow> string) \<Rightarrow> json list \<Rightarrow> prefix_evidence list
    \<Rightarrow> journal_error + selection" where
  "resolve_effective_events H records prefix =
     rbind (fold_records H empty_fold records 0) (\<lambda>(g, _).
       let f = resolve_batches H None g in
       rbind (acknowledge_all H f prefix) (\<lambda>acks.
         let (winners, active, conflicts) = select_candidates (fd_candidates f) in
         Inr \<lparr>sl_active = active, sl_by_id = winners, sl_completed = fd_completed f,
              sl_conflicts = conflicts,
              sl_violations = sort_key (violation_key H)
                (filter (\<lambda>v. dget acks (fingerprint H v) = None) (map snd (fd_violations f))),
              sl_acknowledged = sort_key (violation_key H \<circ> ak_violation) (map snd acks)\<rparr>))"

section \<open>Selection as a specification\<close>

text \<open>The candidates of one event id at one revision, and whether they diverge.\<close>

definition key_group :: "effective_event list \<Rightarrow> revision_key \<Rightarrow> effective_event list" where
  "key_group cs key = filter (\<lambda>c. rev_key c = key) cs"

definition differs :: "effective_event \<Rightarrow> effective_event \<Rightarrow> bool" where
  "differs c d \<longleftrightarrow> ev_hash c \<noteq> ev_hash d \<or> ev_status c \<noteq> ev_status d"

definition divergent_group :: "effective_event list \<Rightarrow> bool" where
  "divergent_group g \<longleftrightarrow> (\<exists>c \<in> set g. \<exists>d \<in> set g. differs c d)"

text \<open>The winner of an id: the highest revision, and at it the lowest sequence.\<close>

definition wins :: "effective_event list \<Rightarrow> string \<Rightarrow> effective_event \<Rightarrow> bool" where
  "wins cs e c \<longleftrightarrow> c \<in> set cs \<and> ev_id c = e
     \<and> (\<forall>d \<in> set cs. ev_id d = e \<longrightarrow> ev_rev d \<le> ev_rev c
          \<and> (ev_rev d = ev_rev c \<longrightarrow> ev_sequence c \<le> ev_sequence d))"

definition no_legacy :: "effective_event list \<Rightarrow> bool" where
  "no_legacy cs \<longleftrightarrow> (\<forall>c \<in> set cs. \<not> is_legacy_arming_state c)"

text \<open>What the two dictionaries hold for one key after its group has been seen.\<close>

definition slot_ok :: "effective_event list \<Rightarrow> effective_event option \<Rightarrow> string list option \<Rightarrow> bool"
  where
  "slot_ok g p hs \<longleftrightarrow>
     (case p of None \<Rightarrow> g = [] | Some c \<Rightarrow> c \<in> set g \<and> (\<forall>d \<in> set g. ev_sequence c \<le> ev_sequence d))
   \<and> (case hs of None \<Rightarrow> \<not> divergent_group g
      | Some l \<Rightarrow> divergent_group g \<and> set l = ev_hash ` set g)"

definition grouped :: "effective_event list
    \<Rightarrow> (revision_key, effective_event) dict \<times> (revision_key, string list) dict \<Rightarrow> bool" where
  "grouped cs st \<longleftrightarrow> wf_dict (fst st) \<and> wf_dict (snd st)
     \<and> (\<forall>key. slot_ok (key_group cs key) (dget (fst st) key) (dget (snd st) key))"

lemma key_group_snoc:
  "key_group (cs @ [c]) key = key_group cs key @ (if rev_key c = key then [c] else [])"
  by (simp add: key_group_def)

lemma divergent_via: "p \<in> set g \<Longrightarrow> divergent_group g \<longleftrightarrow> (\<exists>c \<in> set g. differs p c)"
  unfolding divergent_group_def differs_def by metis

lemma divergent_snoc:
  assumes "p \<in> set g" shows "divergent_group (g @ [c]) \<longleftrightarrow> divergent_group g \<or> differs p c"
  using divergent_via [of p "g @ [c]"] divergent_via [OF assms] assms by auto

lemma uniform_hash:
  assumes "\<not> divergent_group g" and p: "p \<in> set g"
  shows "ev_hash ` set g = {ev_hash p}"
proof -
  have same: "ev_hash c = ev_hash p" if "c \<in> set g" for c
    using assms that unfolding divergent_group_def differs_def by blast
  have "ev_hash ` set g = (\<lambda>_. ev_hash p) ` set g" by (intro image_cong refl same)
  then show ?thesis using p by (cases g) (simp_all add: image_constant_conv)
qed

lemma slot_first: "slot_ok [] None hs \<Longrightarrow> slot_ok [c] (Some c) hs"
  by (auto simp: slot_ok_def divergent_group_def differs_def split: option.splits)

lemma slot_next:
  assumes ok: "slot_ok g (Some p) hs"
  shows "slot_ok (g @ [c]) (Some (if ev_sequence c < ev_sequence p then c else p))
     (if differs p c then Some ((case hs of None \<Rightarrow> [] | Some l \<Rightarrow> l) @ [ev_hash p, ev_hash c]) else hs)"
proof -
  have p: "p \<in> set g" "\<forall>d \<in> set g. ev_sequence p \<le> ev_sequence d"
    using ok by (simp_all add: slot_ok_def)
  have hash: "ev_hash c = ev_hash p" if "\<not> differs p c" using that by (simp add: differs_def)
  show ?thesis
  proof (cases hs)
    case None
    then have u: "\<not> divergent_group g" using ok by (simp add: slot_ok_def)
    show ?thesis
      using p u uniform_hash [OF u p(1)] None by (auto simp: slot_ok_def divergent_snoc [OF p(1)])
  next
    case (Some l)
    then show ?thesis
      using p ok hash by (auto simp: slot_ok_def divergent_snoc [OF p(1)] image_iff)
  qed
qed

lemma group_step_slots:
  assumes "\<not> is_legacy_arming_state c"
  shows "dget (fst (group_step st c)) key = (if key \<noteq> rev_key c then dget (fst st) key
      else case dget (fst st) key of None \<Rightarrow> Some c
        | Some p \<Rightarrow> Some (if ev_sequence c < ev_sequence p then c else p))"
    and "dget (snd (group_step st c)) key = (if key \<noteq> rev_key c then dget (snd st) key
      else case dget (fst st) key of None \<Rightarrow> dget (snd st) key
        | Some p \<Rightarrow> if differs p c
            then Some ((case dget (snd st) key of None \<Rightarrow> [] | Some l \<Rightarrow> l) @ [ev_hash p, ev_hash c])
            else dget (snd st) key)"
  using assms
  by (auto simp: group_step_def Let_def dget_dset dget_or_def differs_def split: prod.splits option.splits)

lemma group_step_wf: "wf_dict (fst st) \<Longrightarrow> wf_dict (snd st) \<Longrightarrow>
    wf_dict (fst (group_step st c)) \<and> wf_dict (snd (group_step st c))"
  by (auto simp: group_step_def Let_def intro: wf_dict_dset split: prod.splits option.splits)

lemma grouped_step:
  assumes "grouped cs st" and "\<not> is_legacy_arming_state c"
  shows "grouped (cs @ [c]) (group_step st c)"
  unfolding grouped_def
proof (intro conjI allI)
  show "wf_dict (fst (group_step st c))" "wf_dict (snd (group_step st c))"
    using assms(1) group_step_wf unfolding grouped_def by blast+
  fix key
  have ok: "slot_ok (key_group cs key) (dget (fst st) key) (dget (snd st) key)"
    using assms(1) unfolding grouped_def by blast
  show "slot_ok (key_group (cs @ [c]) key) (dget (fst (group_step st c)) key)
      (dget (snd (group_step st c)) key)"
  proof (cases "key = rev_key c")
    case key: True
    show ?thesis
    proof (cases "dget (fst st) key")
      case None
      then have "key_group cs key = []" using ok by (simp add: slot_ok_def)
      then show ?thesis
        using ok slot_first [of "dget (snd st) key" c] key None
        by (simp add: group_step_slots [OF assms(2)] key_group_snoc)
    next
      case (Some p)
      then have "slot_ok (key_group cs (rev_key c)) (Some p) (dget (snd st) (rev_key c))"
        using ok key by simp
      from slot_next [OF this, of c] show ?thesis
        using Some by (simp add: group_step_slots [OF assms(2)] key_group_snoc key)
    qed
  next
    case False
    then show ?thesis using ok by (simp add: group_step_slots [OF assms(2)] key_group_snoc)
  qed
qed

lemma grouped_all: "no_legacy cs \<Longrightarrow> grouped cs (foldl group_step ([], []) cs)"
proof (induction cs rule: rev_induct)
  case Nil
  show ?case by (simp add: grouped_def slot_ok_def key_group_def divergent_group_def)
next
  case (snoc c cs)
  then show ?case by (simp add: grouped_step no_legacy_def)
qed

text \<open>The winners over the kept candidates.\<close>

definition max_rev :: "effective_event set \<Rightarrow> string \<Rightarrow> effective_event option \<Rightarrow> bool" where
  "max_rev vs e w \<longleftrightarrow> (case w of None \<Rightarrow> \<forall>v \<in> vs. ev_id v \<noteq> e
     | Some c \<Rightarrow> c \<in> vs \<and> ev_id c = e \<and> (\<forall>v \<in> vs. ev_id v = e \<longrightarrow> ev_rev v \<le> ev_rev c))"

lemma winner_step_max:
  assumes "\<And>e. max_rev vs e (dget w e)"
  shows "max_rev (insert c vs) e (dget (winner_step w c) e)"
proof (cases "e = ev_id c")
  case True
  then show ?thesis
    using assms [of e]
    by (cases "dget w (ev_id c)") (fastforce simp: winner_step_def max_rev_def dget_dset)+
next
  case False
  then have "dget (winner_step w c) e = dget w e"
    by (simp add: winner_step_def dget_dset split: option.splits)
  then show ?thesis
    using assms [of e] False by (auto simp: max_rev_def split: option.splits)
qed

lemma winners_max: "max_rev (set vs) e (dget (foldl winner_step [] vs) e)"
proof (induction vs arbitrary: e rule: rev_induct)
  case (snoc c vs)
  then show ?case by (simp add: winner_step_max)
qed (simp add: max_rev_def)

lemma winners_wf: "wf_dict (foldl winner_step [] vs)"
  by (induction vs rule: rev_induct) (auto simp: winner_step_def split: option.splits)

lemma grouped_values:
  assumes "grouped cs (b, d)"
  shows "v \<in> set (map snd b) \<longleftrightarrow> dget b (rev_key v) = Some v"
proof
  assume "v \<in> set (map snd b)"
  then obtain key where "(key, v) \<in> set b" by auto
  then have key: "dget b key = Some v" using assms dget_wf_iff [of b key v] unfolding grouped_def fst_conv by blast
  have "slot_ok (key_group cs key) (dget b key) (dget d key)"
    using assms unfolding grouped_def fst_conv snd_conv by blast
  then have "v \<in> set (key_group cs key)" by (simp add: slot_ok_def key)
  then have "rev_key v = key" by (simp add: key_group_def)
  then show "dget b (rev_key v) = Some v" using key by simp
next
  assume "dget b (rev_key v) = Some v"
  then have "(rev_key v, v) \<in> set b" by (rule map_of_SomeD)
  then show "v \<in> set (map snd b)" by (metis image_eqI list.set_map snd_conv)
qed

text \<open>Which candidate the two passes leave as the winner.\<close>

lemma winners_spec:
  assumes "no_legacy cs" and w: "w = fst (select_candidates cs)"
  shows "dget w e = None \<longleftrightarrow> (\<forall>c \<in> set cs. ev_id c \<noteq> e)"
    and "dget w e = Some c \<Longrightarrow> wins cs e c"
proof -
  obtain b d where bd: "foldl group_step ([], []) cs = (b, d)" by fastforce
  have g: "grouped cs (b, d)" using grouped_all [OF assms(1)] by (simp add: bd)
  have slot: "slot_ok (key_group cs key) (dget b key) (dget d key)" for key
    using g unfolding grouped_def fst_conv snd_conv by blast
  have ww: "w = foldl winner_step [] (map snd b)" by (simp add: w select_candidates_def bd Let_def)
  note m = winners_max [of "map snd b" e, folded ww]
  have kept: "\<exists>v \<in> set (map snd b). rev_key v = rev_key x \<and> ev_sequence v \<le> ev_sequence x"
    if x: "x \<in> set cs" for x
  proof -
    have x': "x \<in> set (key_group cs (rev_key x))" using x by (simp add: key_group_def)
    then obtain v where v: "dget b (rev_key x) = Some v" "v \<in> set (key_group cs (rev_key x))"
      "ev_sequence v \<le> ev_sequence x"
      using slot [of "rev_key x"] by (cases "dget b (rev_key x)") (auto simp: slot_ok_def)
    have "rev_key v = rev_key x" using v(2) by (simp add: key_group_def)
    moreover have "v \<in> set (map snd b)" using grouped_values [OF g] v(1) calculation by simp
    ultimately show ?thesis using v(3) by blast
  qed
  have from_cs: "v \<in> set cs" if "v \<in> set (map snd b)" for v
    using that grouped_values [OF g, of v] slot [of "rev_key v"] by (simp add: slot_ok_def key_group_def)
  show "dget w e = None \<longleftrightarrow> (\<forall>c \<in> set cs. ev_id c \<noteq> e)"
  proof (cases "dget w e")
    case None
    then have "\<forall>v \<in> set (map snd b). ev_id v \<noteq> e" using m by (simp add: max_rev_def)
    then have "\<forall>c \<in> set cs. ev_id c \<noteq> e" using kept by (metis prod.inject rev_key_def)
    then show ?thesis using None by simp
  next
    case (Some c)
    then have "c \<in> set (map snd b)" "ev_id c = e" using m by (simp_all add: max_rev_def)
    then show ?thesis using Some from_cs by auto
  qed
  assume c: "dget w e = Some c"
  then have cb: "c \<in> set (map snd b)" "ev_id c = e"
    and top: "\<forall>v \<in> set (map snd b). ev_id v = e \<longrightarrow> ev_rev v \<le> ev_rev c"
    using m by (simp_all add: max_rev_def)
  show "wins cs e c"
    unfolding wins_def
  proof (intro conjI ballI impI)
    show "c \<in> set cs" "ev_id c = e" using from_cs cb by blast+
    fix x assume x: "x \<in> set cs" "ev_id x = e"
    obtain v where v: "v \<in> set (map snd b)" "rev_key v = rev_key x" "ev_sequence v \<le> ev_sequence x"
      using kept [OF x(1)] by blast
    then show "ev_rev x \<le> ev_rev c" using top x(2) by (auto simp: rev_key_def)
    assume "ev_rev x = ev_rev c"
    then have "rev_key v = rev_key c" using v(2) x(2) cb(2) by (simp add: rev_key_def)
    then have "v = c" using grouped_values [OF g] v(1) cb(1) by simp
    then show "ev_sequence c \<le> ev_sequence x" using v(3) by simp
  qed
qed

lemma conflicts_spec:
  assumes "no_legacy cs" and sel: "select_candidates cs = (w, active, conflicts)"
  shows "cf \<in> set conflicts \<longleftrightarrow> (\<exists>c. dget w (cf_event cf) = Some c
     \<and> cf_rev cf = ev_rev c \<and> divergent_group (key_group cs (rev_key c))
     \<and> cf_hashes cf = sorted_set (map ev_hash (key_group cs (rev_key c)))
     \<and> cf_selected cf = ev_hash c)"
proof -
  obtain b d where bd: "foldl group_step ([], []) cs = (b, d)" by fastforce
  have g: "grouped cs (b, d)" using grouped_all [OF assms(1)] by (simp add: bd)
  have slot: "slot_ok (key_group cs key) (dget b key) (dget d key)" for key
    using g unfolding grouped_def fst_conv snd_conv by blast
  have w: "w = foldl winner_step [] (map snd b)"
    and conflicts: "conflicts = concat (map (conflict_of b d w) (sort (dkeys d)))"
    using sel by (auto simp: select_candidates_def bd Let_def)
  have at_winner: "dget b (rev_key c) = Some c" "ev_id c = e" if "dget w e = Some c" for e c
    using winners_max [of "map snd b" e, folded w] grouped_values [OF g, of c] that
    by (simp_all add: max_rev_def)
  have dkey: "key \<in> set (dkeys d) \<longleftrightarrow> divergent_group (key_group cs key)" for key
    using slot [of key] dget_None_iff [of d key]
    by (cases "dget d key") (auto simp: slot_ok_def)
  have hashes: "sorted_set (dget_or d key []) = sorted_set (map ev_hash (key_group cs key))"
    if "divergent_group (key_group cs key)" for key
    using slot [of key] that
    by (cases "dget d key") (auto simp: slot_ok_def dget_or_def intro!: sorted_set_cong)
  have one: "cf \<in> set (conflict_of b d w key) \<longleftrightarrow> (\<exists>c. dget w (fst key) = Some c \<and> key = rev_key c
      \<and> cf = \<lparr>cf_event = fst key, cf_rev = snd key, cf_hashes = sorted_set (dget_or d key []),
              cf_selected = ev_hash c\<rparr>)" for key
    using at_winner [of "fst key"]
    by (cases key; cases "dget w (fst key)")
      (auto simp: conflict_of_def rev_key_def split: option.splits if_splits)
  have "cf \<in> set conflicts \<longleftrightarrow> (\<exists>key \<in> set (dkeys d). cf \<in> set (conflict_of b d w key))"
    unfolding conflicts by simp
  also have "\<dots> \<longleftrightarrow> (\<exists>key. divergent_group (key_group cs key) \<and> cf \<in> set (conflict_of b d w key))"
    using dkey by blast
  also have "\<dots> \<longleftrightarrow> (\<exists>c. dget w (ev_id c) = Some c \<and> divergent_group (key_group cs (rev_key c))
      \<and> cf = \<lparr>cf_event = ev_id c, cf_rev = ev_rev c,
             cf_hashes = sorted_set (dget_or d (rev_key c) []), cf_selected = ev_hash c\<rparr>)"
    unfolding one by (force simp: rev_key_def)
  also have "\<dots> \<longleftrightarrow> (\<exists>c. dget w (ev_id c) = Some c \<and> divergent_group (key_group cs (rev_key c))
      \<and> cf = \<lparr>cf_event = ev_id c, cf_rev = ev_rev c,
             cf_hashes = sorted_set (map ev_hash (key_group cs (rev_key c))), cf_selected = ev_hash c\<rparr>)"
    by (intro arg_cong [of _ _ Ex] ext conj_cong refl) (simp add: hashes)
  also have "\<dots> \<longleftrightarrow> (\<exists>c. dget w (cf_event cf) = Some c
     \<and> cf_rev cf = ev_rev c \<and> divergent_group (key_group cs (rev_key c))
     \<and> cf_hashes cf = sorted_set (map ev_hash (key_group cs (rev_key c)))
     \<and> cf_selected cf = ev_hash c)"
    using at_winner(2) by (cases cf) auto
  finally show ?thesis .
qed

section \<open>Acknowledgements\<close>

text \<open>
  What justifies an acknowledgement: a violation in hand, named by a later resolution whose prefix binding is the
  evidence that was verified for it, the resolutions taken in stream order.
\<close>

definition ordered_resolutions :: "selector_fold \<Rightarrow> (nat \<times> resolution) list" where
  "ordered_resolutions f = sort_key fst (fd_resolutions f)"

definition ack_ok :: "(string \<Rightarrow> string) \<Rightarrow> selector_fold \<Rightarrow> prefix_evidence list \<Rightarrow> string \<Rightarrow> acknowledged \<Rightarrow> bool" where
  "ack_ok H f prefix fp a \<longleftrightarrow> ak_violation a \<in> set (map snd (fd_violations f))
     \<and> fingerprint H (ak_violation a) = fp
     \<and> (\<exists>((sequence, res), evidence) \<in> set (zip (ordered_resolutions f) prefix). ak_audit a = rs_audit_id res
          \<and> rs_high_water res = fst evidence \<and> rs_prefix_hash res = snd evidence
          \<and> ak_high_water a = fst evidence \<and> ak_prefix_hash a = snd evidence
          \<and> dget_or (fd_available f) fp 0 < sequence
          \<and> (\<exists>ref \<in> set (rs_refs res). the_str (jget ref ''fingerprint'') = fp
               \<and> jget ref ''batch_id'' = JStr (vi_batch (ak_violation a))
               \<and> jget ref ''kind'' = JStr (vi_kind (ak_violation a))))"

definition acks_ok :: "(string \<Rightarrow> string) \<Rightarrow> selector_fold \<Rightarrow> prefix_evidence list \<Rightarrow> (string, acknowledged) dict \<Rightarrow> bool" where
  "acks_ok H f prefix acks \<longleftrightarrow> wf_dict acks \<and> (\<forall>(fp, a) \<in> set acks. ack_ok H f prefix fp a)"

lemma acknowledge_ref_ok:
  assumes "acks_ok H f prefix acks" and "acknowledge_ref H f sequence res acks ref = Inr acks'"
    and "((sequence, res), evidence) \<in> set (zip (ordered_resolutions f) prefix)" and "ref \<in> set (rs_refs res)"
    and "rs_high_water res = fst evidence" and "rs_prefix_hash res = snd evidence"
  shows "acks_ok H f prefix acks'"
proof -
  let ?fp = "the_str (jget ref ''fingerprint'')"
  obtain v where v: "dget (map (\<lambda>(_, v). (fingerprint H v, v)) (rev (fd_violations f))) ?fp = Some v"
    and named: "JStr (vi_batch v) = jget ref ''batch_id''" "JStr (vi_kind v) = jget ref ''kind''"
    and later: "dget_or (fd_available f) ?fp 0 < sequence"
    and acks': "acks' = (case dget acks ?fp of Some _ \<Rightarrow> acks
             | None \<Rightarrow> dset ?fp \<lparr>ak_violation = v, ak_audit = rs_audit_id res,
                 ak_high_water = rs_high_water res, ak_prefix_hash = rs_prefix_hash res\<rparr> acks)"
    using assms(2) by (auto simp: acknowledge_ref_def Let_def split: option.splits)
  have "v \<in> set (map snd (fd_violations f))" "fingerprint H v = ?fp"
    using map_of_SomeD [OF v] by force+
  then have ok: "ack_ok H f prefix ?fp \<lparr>ak_violation = v, ak_audit = rs_audit_id res,
      ak_high_water = rs_high_water res, ak_prefix_hash = rs_prefix_hash res\<rparr>"
    using named later assms(4-6) unfolding ack_ok_def
    by (intro conjI bexI [OF _ assms(3)]) (auto intro!: bexI [of _ ref])
  show ?thesis
  proof (cases "dget acks ?fp")
    case None
    then have "dset ?fp x acks = acks @ [(?fp, x)]" for x
      by (rule dset_append)
    moreover have "?fp \<notin> fst ` set acks" using None by (simp add: map_of_eq_None_iff)
    ultimately show ?thesis using assms(1) None acks' ok by (auto simp: acks_ok_def wf_dict_def)
  next
    case (Some a)
    then show ?thesis using assms(1) acks' by simp
  qed
qed

lemma acknowledge_all_run:
  "acknowledge_all H f prefix = Inr acks \<Longrightarrow>
     rfold (acknowledge_resolution H f) [] (zip (ordered_resolutions f) prefix) = Inr acks
     \<and> (ordered_resolutions f = [] \<or> length prefix = length (ordered_resolutions f))"
  by (simp add: acknowledge_all_def ordered_resolutions_def Let_def)

lemma acknowledge_all_ok:
  assumes "acknowledge_all H f prefix = Inr acks" shows "acks_ok H f prefix acks"
  using acknowledge_all_run [OF assms, THEN conjunct1]
proof (rule rfold_invariant)
  show "acks_ok H f prefix []" by (simp add: acks_ok_def)
  fix acks1 item acks2
  assume ok: "acks_ok H f prefix acks1" and item: "item \<in> set (zip (ordered_resolutions f) prefix)"
    and step: "acknowledge_resolution H f acks1 item = Inr acks2"
  obtain sequence res evidence where i: "item = ((sequence, res), evidence)" by (metis prod.exhaust)
  have bound: "rs_high_water res = fst evidence" "rs_prefix_hash res = snd evidence"
    and refs: "rfold (acknowledge_ref H f sequence res) acks1 (rs_refs res) = Inr acks2"
    using step by (simp_all add: acknowledge_resolution_def i)
  from refs ok show "acks_ok H f prefix acks2"
    by (rule rfold_invariant) (rule acknowledge_ref_ok [OF _ _ item [unfolded i] _ bound])
qed

text \<open>Every resolution is checked against its evidence, and everything it names is acknowledged.\<close>

lemma acknowledge_refs_covers:
  "rfold (acknowledge_ref H f sequence res) acks refs = Inr acks' \<Longrightarrow>
     dom (dget acks) \<union> (\<lambda>ref. the_str (jget ref ''fingerprint'')) ` set refs \<subseteq> dom (dget acks')"
proof (induction refs arbitrary: acks)
  case (Cons ref refs)
  from Cons.prems obtain acks1 where 1: "acknowledge_ref H f sequence res acks ref = Inr acks1"
    "rfold (acknowledge_ref H f sequence res) acks1 refs = Inr acks'" by (auto simp: rbind_Inr_iff)
  from 1(1) have "insert (the_str (jget ref ''fingerprint'')) (dom (dget acks)) \<subseteq> dom (dget acks1)"
    by (auto simp: acknowledge_ref_def Let_def dget_dset split: option.splits if_splits)
  then show ?case using Cons.IH [OF 1(2)] by auto
qed simp

lemma acknowledge_all_covers:
  "rfold (acknowledge_resolution H f) acks items = Inr acks' \<Longrightarrow>
     dom (dget acks) \<subseteq> dom (dget acks') \<and> (\<forall>((sequence, res), evidence) \<in> set items.
       evidence = (rs_high_water res, rs_prefix_hash res)
       \<and> (\<lambda>ref. the_str (jget ref ''fingerprint'')) ` set (rs_refs res) \<subseteq> dom (dget acks'))"
proof (induction items arbitrary: acks)
  case (Cons item items)
  from Cons.prems obtain acks1 where 1: "acknowledge_resolution H f acks item = Inr acks1"
    "rfold (acknowledge_resolution H f) acks1 items = Inr acks'" by (auto simp: rbind_Inr_iff)
  obtain sequence res evidence where i: "item = ((sequence, res), evidence)" by (metis prod.exhaust)
  have "evidence = (rs_high_water res, rs_prefix_hash res)"
    and "rfold (acknowledge_ref H f sequence res) acks (rs_refs res) = Inr acks1"
    using 1(1) by (auto simp: acknowledge_resolution_def i prod_eq_iff)
  moreover from this(2) have refs: "dom (dget acks) \<subseteq> dom (dget acks1)"
      "(\<lambda>ref. the_str (jget ref ''fingerprint'')) ` set (rs_refs res) \<subseteq> dom (dget acks1)"
    using acknowledge_refs_covers [of H f sequence res acks "rs_refs res" acks1] by simp_all
  moreover have rest: "dom (dget acks1) \<subseteq> dom (dget acks')" using Cons.IH [OF 1(2)] by blast
  ultimately show ?case
    using Cons.IH [OF 1(2)] subset_trans [OF refs(1) rest] subset_trans [OF refs(2) rest] by (simp add: i)
qed simp

lemma acknowledge_all_verified:
  assumes "acknowledge_all H f prefix = Inr acks" and "ordered_resolutions f \<noteq> []"
  shows "prefix = map (\<lambda>(_, res). (rs_high_water res, rs_prefix_hash res)) (ordered_resolutions f)"
proof (rule nth_equalityI)
  note run = acknowledge_all_run [OF assms(1)]
  then show len: "length prefix = length (map (\<lambda>(_, res). (rs_high_water res, rs_prefix_hash res)) (ordered_resolutions f))"
    using assms(2) by simp
  fix i assume i: "i < length prefix"
  then have "(ordered_resolutions f ! i, prefix ! i) \<in> set (zip (ordered_resolutions f) prefix)"
    using len by (auto simp: in_set_zip)
  then show "prefix ! i = map (\<lambda>(_, res). (rs_high_water res, rs_prefix_hash res)) (ordered_resolutions f) ! i"
    using acknowledge_all_covers [OF conjunct1 [OF run]] i len by (auto simp: case_prod_beta)
qed

lemma acknowledged_all_named:
  assumes "acknowledge_all H f prefix = Inr acks" and "(sequence, res) \<in> set (fd_resolutions f)" and "ref \<in> set (rs_refs res)"
  shows "the_str (jget ref ''fingerprint'') \<in> fst ` set acks"
proof -
  note run = acknowledge_all_run [OF assms(1)]
  have "(sequence, res) \<in> set (ordered_resolutions f)" using assms(2) by (simp add: ordered_resolutions_def)
  then obtain i where i: "i < length (ordered_resolutions f)" "ordered_resolutions f ! i = (sequence, res)"
    by (auto simp: in_set_conv_nth)
  then have "length prefix = length (ordered_resolutions f)" using run by auto
  then have "((sequence, res), prefix ! i) \<in> set (zip (ordered_resolutions f) prefix)"
    using i by (auto simp: in_set_zip)
  then have "(\<lambda>ref. the_str (jget ref ''fingerprint'')) ` set (rs_refs res) \<subseteq> dom (dget acks)"
    using acknowledge_all_covers [OF conjunct1 [OF run]] by blast
  then have "the_str (jget ref ''fingerprint'') \<in> dom (dget acks)" using assms(3) by blast
  then show ?thesis by (simp add: dom_map_of_conv_image_fst)
qed

section \<open>Properties\<close>

text \<open>C12: For streams without pre-revision quota arming states, which the code deliberately resolves to the last
  one (\<open>no_legacy\<close>), the selection is the highest revision of every event id, and at that revision the record of
  the lowest sequence; an id without a candidate has no winner. A conflict is reported exactly when
  the candidates at the winning revision diverge in content or status, with the sorted distinct
  hashes of that group and the winner's hash; a divergence that a higher revision superseded is
  not reported.\<close>

theorem selection_is_highest_revision:
  assumes "fold_records H empty_fold records 0 = Inr (g, n)"
    and "resolve_effective_events H records prefix = Inr sel"
    and "no_legacy (fd_candidates (resolve_batches H None g))"
  shows "let cs = fd_candidates (resolve_batches H None g) in
     (\<forall>e. case dget (sl_by_id sel) e of None \<Rightarrow> \<forall>c \<in> set cs. ev_id c \<noteq> e | Some c \<Rightarrow> wins cs e c)
   \<and> (\<forall>cf. cf \<in> set (sl_conflicts sel) \<longleftrightarrow> (\<exists>c. dget (sl_by_id sel) (cf_event cf) = Some c
        \<and> cf_rev cf = ev_rev c \<and> divergent_group (key_group cs (rev_key c))
        \<and> cf_hashes cf = sorted_set (map ev_hash (key_group cs (rev_key c)))
        \<and> cf_selected cf = ev_hash c))"
proof -
  let ?cs = "fd_candidates (resolve_batches H None g)"
  obtain w active conflicts where s: "select_candidates ?cs = (w, active, conflicts)"
    by (metis prod.exhaust)
  have sel: "sl_by_id sel = w" "sl_conflicts sel = conflicts"
    using assms(1,2) s by (auto simp: resolve_effective_events_def rbind_Inr_iff Let_def)
  show ?thesis
    unfolding Let_def sel
  proof (intro conjI allI)
    show "case dget w e of None \<Rightarrow> \<forall>c \<in> set ?cs. ev_id c \<noteq> e | Some c \<Rightarrow> wins ?cs e c" for e
      using winners_spec [OF assms(3), of w e] s by (auto split: option.splits)
  qed (rule conflicts_spec [OF assms(3) s])
qed

definition sample_event :: jobj where
  "sample_event = [(''t'', JStr ''evt''), (''id'', JStr ''pm:1''), (''payload'', JObj [])]"

lemma sample_selection:
  obtains g n sel where "fold_records H empty_fold [JObj sample_event] 0 = Inr (g, n)"
    "resolve_effective_events H [JObj sample_event] [] = Inr sel"
    "no_legacy (fd_candidates (resolve_batches H None g))"
    "map ev_id (fd_candidates (resolve_batches H None g)) = [''pm:1'']"
proof -
  let ?c = "\<lparr>ev_id = ''pm:1'', ev_rev = 0, ev_status = ActiveEvt,
    ev_hash = event_content_hash H sample_event, ev_batch = None, ev_record = Some sample_event,
    ev_sequence = 0\<rparr>"
  let ?g = "empty_fold\<lparr>fd_candidates := [?c]\<rparr>"
  have "candidate_from_evt H sample_event 0 = Inr ?c"
    by (simp add: candidate_from_evt_def event_revision_def validate_revision_def jget_or_def
        dget_or_def sample_event_def)
  then have g: "fold_records H empty_fold [JObj sample_event] 0 = Inr (?g, 1)"
    by (simp add: fold_one_def empty_fold_def) (simp add: sample_event_def)
  have r: "resolve_batches H None ?g = ?g"
    by (simp add: resolve_batches_def empty_fold_def sorted_set_def dkeys_def)
  have "acknowledge_all H ?g [] = Inr []"
    by (simp add: acknowledge_all_def empty_fold_def)
  moreover obtain w active conflicts where "select_candidates [?c] = (w, active, conflicts)"
    by (metis prod.exhaust)
  ultimately obtain sel where sel: "resolve_effective_events H [JObj sample_event] [] = Inr sel"
    using g r by (simp add: resolve_effective_events_def Let_def del: fold_records.simps)
  have "no_legacy (fd_candidates ?g)" "map ev_id (fd_candidates ?g) = [''pm:1'']"
    by (simp_all add: no_legacy_def is_legacy_arming_state_def is_legacy_arming_record_def
        sample_event_def)
  then show thesis using that [OF g sel] by (simp only: r)
qed

theorem selection_is_highest_revision_witness:
  "\<exists>sel c. resolve_effective_events sample_digest [JObj sample_event] [] = Inr sel
     \<and> dget (sl_by_id sel) ''pm:1'' = Some c \<and> ev_id c = ''pm:1''"
proof (rule sample_selection)
  fix g n sel
  assume a: "fold_records sample_digest empty_fold [JObj sample_event] 0 = Inr (g, n)"
    "resolve_effective_events sample_digest [JObj sample_event] [] = Inr sel"
    "no_legacy (fd_candidates (resolve_batches sample_digest None g))"
    and ids: "map ev_id (fd_candidates (resolve_batches sample_digest None g)) = [''pm:1'']"
  then show ?thesis
    using selection_is_highest_revision [OF a]
    by (cases "dget (sl_by_id sel) ''pm:1''")
      (force simp: Let_def wins_def dest: spec [of _ "''pm:1''"])+
qed

text \<open>Winners are unique, and the active records depend on the winner map only.\<close>

lemma wins_unique:
  assumes "set cs = set cs'" and inj: "inj_on ev_sequence (set cs)"
    and "wins cs e c" and "wins cs' e d"
  shows "c = d"
proof -
  have "ev_rev c = ev_rev d" using assms(1,3,4) unfolding wins_def by (metis order.antisym)
  then have "ev_sequence c = ev_sequence d"
    using assms(1,3,4) unfolding wins_def by (metis order.antisym)
  moreover have "c \<in> set cs" "d \<in> set cs" using assms(1,3,4) unfolding wins_def by blast+
  ultimately show ?thesis using inj by (blast dest: inj_onD)
qed

lemma active_records_cong:
  assumes "wf_dict w" "wf_dict w'" "\<And>e. dget w e = dget w' e"
    and own: "\<And>e c. dget w e = Some c \<Longrightarrow> c \<in> A \<and> ev_id c = e" and inj: "inj_on ev_sequence A"
  shows "active_records w = active_records w'"
proof -
  have mem: "p \<in> set v \<longleftrightarrow> dget v (fst p) = Some (snd p)" if "wf_dict v"
    for v :: "(string, effective_event) dict" and p
    using dget_wf_iff [OF that, of "fst p" "snd p"] by simp
  have "set w = set w'" 
    by (rule set_eqI) (simp add: mem [OF assms(1)] mem [OF assms(2)] assms(3))
  then have "mset w = mset w'"
    using assms(1,2) by (simp add: wf_dict_def distinct_map set_eq_iff_mset_eq_distinct)
  then have vals: "mset (map snd w) = mset (map snd w')" by (metis mset_map)
  have "inj_on (ev_sequence \<circ> snd) (set w)"
  proof (rule inj_onI)
    fix p q assume pq: "p \<in> set w" "q \<in> set w" "(ev_sequence \<circ> snd) p = (ev_sequence \<circ> snd) q"
    have "snd p \<in> A \<and> ev_id (snd p) = fst p" "snd q \<in> A \<and> ev_id (snd q) = fst q"
      using own pq(1,2) mem [OF assms(1)] by blast+
    moreover from this have "snd p = snd q" using pq(3) inj by (auto dest: inj_onD)
    ultimately show "p = q" by (metis prod.collapse)
  qed
  then have "distinct (map ev_sequence (map snd w))"
    using assms(1) by (simp add: wf_dict_def distinct_map)
  then have "sort_key ev_sequence (map snd w) = sort_key ev_sequence (map snd w')"
    by (rule sort_key_permute [OF vals])
  then show ?thesis by (simp only: active_records_def)
qed

lemma select_candidates_parts:
  assumes "select_candidates cs = (w, active, conflicts)"
  shows "wf_dict w \<and> active = active_records w"
  using assms winners_wf by (auto simp: select_candidates_def Let_def split: prod.splits)

text \<open>The selection does not depend on the order in which the candidates were collected: for two
  orders of the same candidates with distinct sequence numbers the winners are the same, so are
  the active records with their order, and the set of conflicts.\<close>

theorem selection_order_independent:
  assumes "mset cs = mset cs'" and "distinct (map ev_sequence cs)" and "no_legacy cs"
    and "select_candidates cs = (w, active, conflicts)"
    and "select_candidates cs' = (w', active', conflicts')"
  shows "(\<forall>e. dget w e = dget w' e) \<and> active = active' \<and> set conflicts = set conflicts'"
proof -
  have same: "set cs = set cs'" using assms(1) by (rule mset_eq_setD)
  have inj: "inj_on ev_sequence (set cs)" using assms(2) by (simp add: distinct_map)
  have legacy': "no_legacy cs'" using assms(3) same by (simp add: no_legacy_def)
  note sp = winners_spec [OF assms(3), of w, unfolded assms(4) fst_conv, OF refl]
    and sp' = winners_spec [OF legacy', of w', unfolded assms(5) fst_conv, OF refl]
  have w: "dget w e = dget w' e" for e
  proof (cases "dget w e")
    case None
    then show ?thesis using sp(1) [of e] sp'(1) [of e] same by simp
  next
    case (Some c)
    then obtain d where d: "dget w' e = Some d"
      using sp(1) [of e] sp'(1) [of e] same by fastforce
    then show ?thesis using wins_unique [OF same inj sp(2) [OF Some] sp'(2) [OF d]] Some by simp
  qed
  have "active = active'"
    using active_records_cong [of w w' "set cs"] select_candidates_parts [OF assms(4)]
      select_candidates_parts [OF assms(5)] w sp(2) inj unfolding wins_def by blast
  moreover have groups: "set (key_group cs key) = set (key_group cs' key)" for key
    by (simp add: key_group_def same)
  then have "divergent_group (key_group cs key) = divergent_group (key_group cs' key)"
    "sorted_set (map ev_hash (key_group cs key)) = sorted_set (map ev_hash (key_group cs' key))" for key
    by (simp_all add: divergent_group_def sorted_set_cong)
  then have "set conflicts = set conflicts'"
    using conflicts_spec [OF assms(3,4)] conflicts_spec [OF legacy' assms(5)] w by auto
  ultimately show ?thesis using w by blast
qed

definition sample_candidate :: "string \<Rightarrow> nat \<Rightarrow> effective_event" where
  "sample_candidate h n = \<lparr>ev_id = ''pm:1'', ev_rev = 1, ev_status = TombstoneEvt, ev_hash = h,
     ev_batch = None, ev_record = None, ev_sequence = n\<rparr>"

theorem selection_order_independent_witness:
  "\<exists>w a c w' a' c'. select_candidates [sample_candidate ''x'' 4, sample_candidate ''y'' 2] = (w, a, c)
     \<and> select_candidates [sample_candidate ''y'' 2, sample_candidate ''x'' 4] = (w', a', c')
     \<and> set c = set c'"
proof -
  obtain w a c where 1: "select_candidates [sample_candidate ''x'' 4, sample_candidate ''y'' 2] = (w, a, c)"
    by (metis prod.exhaust)
  obtain w' a' c' where 2: "select_candidates [sample_candidate ''y'' 2, sample_candidate ''x'' 4]
      = (w', a', c')" by (metis prod.exhaust)
  have "no_legacy [sample_candidate ''x'' 4, sample_candidate ''y'' 2]"
    by (simp add: no_legacy_def is_legacy_arming_state_def sample_candidate_def)
  from selection_order_independent [OF _ _ this 1 2] show ?thesis
    using 1 2 by (auto simp: sample_candidate_def add_mset_commute)
qed

text \<open>C31: Acknowledgement is sound and complete. When resolution of a stream succeeds with acknowledgement records in
  it, the caller's prefix evidence is exactly their high waters and prefix hashes, record by record in stream
  order. Every acknowledged violation is one the fold raised, referenced by batch, kind and fingerprint from an
  acknowledgement record that lies after the violation's last contributing record, and carries that record's id
  and verified evidence; every violation an acknowledgement record references is acknowledged; and a violation
  stays reported exactly when its fingerprint was not acknowledged, so none is lost.\<close>

theorem acknowledgement_sound:
  assumes "fold_records H empty_fold records 0 = Inr (g, n)"
    and "resolve_effective_events H records prefix = Inr sel"
  shows "let f = resolve_batches H None g; acked = (fingerprint H \<circ> ak_violation) ` set (sl_acknowledged sel) in
     (ordered_resolutions f = [] \<or> prefix = map (\<lambda>(_, res). (rs_high_water res, rs_prefix_hash res)) (ordered_resolutions f))
   \<and> (\<forall>a \<in> set (sl_acknowledged sel). ack_ok H f prefix (fingerprint H (ak_violation a)) a)
   \<and> (\<forall>(_, res) \<in> set (fd_resolutions f). \<forall>ref \<in> set (rs_refs res). the_str (jget ref ''fingerprint'') \<in> acked)
   \<and> (\<forall>v. v \<in> set (sl_violations sel) \<longleftrightarrow> v \<in> set (map snd (fd_violations f)) \<and> fingerprint H v \<notin> acked)"
proof -
  let ?f = "resolve_batches H None g"
  obtain w active conflicts where "select_candidates (fd_candidates ?f) = (w, active, conflicts)"
    by (metis prod.exhaust)
  then obtain acks where acks: "acknowledge_all H ?f prefix = Inr acks"
    and sel: "sl_acknowledged sel = sort_key (violation_key H \<circ> ak_violation) (map snd acks)"
      "sl_violations sel = sort_key (violation_key H)
         (filter (\<lambda>v. dget acks (fingerprint H v) = None) (map snd (fd_violations ?f)))"
    using assms by (auto simp: resolve_effective_events_def rbind_Inr_iff Let_def)
  have ok: "acks_ok H ?f prefix acks" using acks by (rule acknowledge_all_ok)
  have fp: "fingerprint H (ak_violation (snd p)) = fst p" if "p \<in> set acks" for p
    using ok that unfolding acks_ok_def ack_ok_def by fastforce
  have fps: "(fingerprint H \<circ> ak_violation) ` set (sl_acknowledged sel) = fst ` set acks"
    using fp by (simp add: sel(1) image_image cong: image_cong)
  have "ack_ok H ?f prefix (fingerprint H (ak_violation a)) a" if a: "a \<in> set (sl_acknowledged sel)" for a
  proof -
    from a obtain p where p: "p \<in> set acks" "a = snd p" by (auto simp: sel(1))
    then show ?thesis using ok fp [OF p(1)] unfolding acks_ok_def by (auto simp: case_prod_beta)
  qed
  moreover have "\<forall>(_, res) \<in> set (fd_resolutions ?f). \<forall>ref \<in> set (rs_refs res). the_str (jget ref ''fingerprint'') \<in> fst ` set acks"
    using acknowledged_all_named [OF acks] by fast
  ultimately show ?thesis
    using acknowledge_all_verified [OF acks] unfolding Let_def fps by (auto simp: sel(2) map_of_eq_None_iff)
qed

text \<open>A stream with a commit marker without a begin marker, acknowledged by the record after it.\<close>

definition zero_hash :: string where
  "zero_hash = ''sha256:'' @ replicate 64 (CHR ''0'')"

definition orphan_commit :: jobj where
  "orphan_commit = marker_record (batch_marker ''b1'' ''usage'' ''2026-01-01'' 0 zero_hash) Commit"

definition orphan_violation :: violation where
  "orphan_violation = protocol_violation ''b1'' ''commit_without_begin''
     [(''commitSequence'', JInt 0), (''commitRecordHash'', JStr (sha256_canonical sample_digest (JObj orphan_commit)))]"

lemma orphan_folded:
  obtains row where "fold_one sample_digest empty_fold (JObj orphan_commit) 0
      = Inr (empty_fold\<lparr>fd_markers := [(''b1'', [(''commit'', row)])]\<rparr>)"
    and "mk_sequence row = 0" and "mk_digest row = sha256_canonical sample_digest (JObj orphan_commit)"
proof -
  have "is_protocol_resolution (JObj orphan_commit) = Inr False"
    by (simp add: is_protocol_resolution_def orphan_commit_def marker_record_def batch_marker_def)
  moreover have "starts_with zero_hash ''sha256:''" "length zero_hash = 71" "py_int16_ok (drop 7 zero_hash)"
    by code_simp+
  then obtain core where "validate_batch_marker orphan_commit = Inr core" "jget core ''id'' = JStr ''b1''"
    by (simp add: validate_batch_marker_def orphan_commit_def marker_record_def batch_marker_def phase_name_def
        require_in_def in_tuple_def unhashable_def writer_stamps_def WPG_def WPR_def WPX_def)
  moreover have "jget orphan_commit ''t'' = JStr ''correction_batch''" "jget orphan_commit ''phase'' = JStr ''commit''"
    by (simp_all add: orphan_commit_def marker_record_def batch_marker_def phase_name_def writer_stamps_def WPG_def WPR_def WPX_def)
  ultimately show thesis
    by (intro that [of "\<lparr>mk_core = core, mk_digest = sha256_canonical sample_digest (JObj orphan_commit),
        mk_identity = sha256_canonical sample_digest (JObj (dwithout [''phase''] orphan_commit)), mk_sequence = 0\<rparr>"])
      (simp_all add: fold_one_def fold_marker_def empty_fold_def dget_or_def)
qed

theorem acknowledgement_sound_witness:
  "\<exists>r sel a. make_protocol_resolution sample_digest ''2026-01-02'' [orphan_violation] (''observations-2026-01.jsonl'', 90) zero_hash = Inr r
     \<and> resolve_effective_events sample_digest [JObj orphan_commit, JObj r] [((''observations-2026-01.jsonl'', 90), zero_hash)] = Inr sel
     \<and> a \<in> set (sl_acknowledged sel) \<and> ak_violation a = orphan_violation \<and> ak_prefix_hash a = zero_hash \<and> sl_violations sel = []"
proof -
  let ?hw = "(''observations-2026-01.jsonl'', 90 :: int)"
  have "valid_prefix_hash zero_hash" by code_simp
  then obtain r where r: "make_protocol_resolution sample_digest ''2026-01-02'' [orphan_violation] ?hw zero_hash = Inr r"
    by (simp add: make_protocol_resolution_def Let_def)
  obtain res where "validate_protocol_resolution sample_digest r = Inr res" and res: "rs_high_water res = ?hw"
      "rs_prefix_hash res = zero_hash" "rs_refs res = [the_obj (violation_ref sample_digest orphan_violation)]"
    using resolution_roundtrip [OF r] by (simp add: orphan_violation_def protocol_violation_def)
  then have two: "fold_one sample_digest h (JObj r) (Suc 0) = Inr (h\<lparr>fd_resolutions := fd_resolutions h @ [(Suc 0, res)]\<rparr>)" for h
    using resolution_recognised [OF r] by (simp add: fold_one_def)
  obtain row where one: "fold_one sample_digest empty_fold (JObj orphan_commit) 0
      = Inr (empty_fold\<lparr>fd_markers := [(''b1'', [(''commit'', row)])]\<rparr>)"
    and row: "mk_sequence row = 0" "mk_digest row = sha256_canonical sample_digest (JObj orphan_commit)"
    by (rule orphan_folded)
  define g where "g = empty_fold\<lparr>fd_markers := [(''b1'', [(''commit'', row)])], fd_resolutions := [(Suc 0, res)]\<rparr>"
  define f where "f = taint sample_digest orphan_violation 0 g"
  have g: "fold_records sample_digest empty_fold [JObj orphan_commit, JObj r] 0 = Inr (g, Suc (Suc 0))"
    using one two by (simp add: empty_fold_def g_def)
  have f: "resolve_batches sample_digest None g = f"
    by (simp add: resolve_batches_def sorted_set_def dkeys_def empty_fold_def resolve_batch_def dget_or_def row
        seq_json_def orphan_violation_def f_def g_def)
  have seen: "fd_violations f = [((''b1'', ''commit_without_begin'', fingerprint sample_digest orphan_violation), orphan_violation)]"
    "fd_resolutions f = [(Suc 0, res)]" "fd_available f = [(fingerprint sample_digest orphan_violation, 0)]"
    by (simp_all add: f_def g_def taint_def Let_def empty_fold_def dget_or_def orphan_violation_def protocol_violation_def)
  have "acknowledge_all sample_digest f [(?hw, zero_hash)] = Inr [(fingerprint sample_digest orphan_violation,
      \<lparr>ak_violation = orphan_violation, ak_audit = rs_audit_id res, ak_high_water = ?hw, ak_prefix_hash = zero_hash\<rparr>)]"
    by (simp add: acknowledge_all_def acknowledge_resolution_def acknowledge_ref_def seen res dget_or_def violation_ref_def Let_def)
  moreover obtain w active conflicts where "select_candidates (fd_candidates f) = (w, active, conflicts)"
    by (metis prod.exhaust)
  ultimately obtain sel where sel: "resolve_effective_events sample_digest [JObj orphan_commit, JObj r] [(?hw, zero_hash)] = Inr sel"
    using g f by (simp add: resolve_effective_events_def Let_def del: fold_records.simps)
  note sound = acknowledgement_sound [OF g sel, unfolded Let_def f seen]
  have "fingerprint sample_digest orphan_violation \<in> (fingerprint sample_digest \<circ> ak_violation) ` set (sl_acknowledged sel)"
    using sound by (simp add: violation_ref_def res)
  then obtain a where a: "a \<in> set (sl_acknowledged sel)" "fingerprint sample_digest (ak_violation a) = fingerprint sample_digest orphan_violation"
    by auto
  have "ack_ok sample_digest f [(?hw, zero_hash)] (fingerprint sample_digest (ak_violation a)) a" using sound a(1) by blast
  then have "ak_violation a = orphan_violation" "ak_prefix_hash a = zero_hash"
    by (auto simp: ack_ok_def seen ordered_resolutions_def)
  moreover have "v \<notin> set (sl_violations sel)" for v
    using sound \<open>fingerprint sample_digest orphan_violation \<in> _\<close> by auto
  then have "sl_violations sel = []" by (metis list.set_intros(1) neq_Nil_conv)
  ultimately show ?thesis using r sel a(1) by blast
qed

end
