(* ===== verification/Selector_State.thy ===== *)
theory Selector_State
  imports Journal_Selection
begin

text \<open>
  \<open>bin/_lib_selector_state.py\<close>: the durable rows of one selection, the fold they seed, and the merge
  of a delta into them. A column of JSON text is represented by the value it encodes: the code only
  ever writes it with \<open>json.dumps\<close> and reads it back with \<open>json.loads\<close>. An action core that was
  dropped (\<open>None\<close> in the seeded fold) is the empty object, which no validated record is. The
  \<open>lineage\<close> out-dict of \<open>merge_delta\<close> does not change its result and is modelled apart.
\<close>

section \<open>Row shapes\<close>

definition SELECTOR_VERSION :: int where "SELECTOR_VERSION = 1"

datatype batch_state = BeginOnly | Completed | Tainted

record state_row =
  sr_next_sequence :: nat
  sr_version :: int
  sr_covered_segment :: "string option"
  sr_covered_offset :: "int option"
  sr_record_path :: "string option"
  sr_stamped_at :: "string option"
  sr_cutover_seen :: bool
  sr_cutover_account :: "string option"

record batch_row =
  br_batch :: string
  br_status :: batch_state
  br_action_count :: json
  br_action_set_hash :: json
  br_begin_segment :: "string option"
  br_begin_offset :: "int option"
  br_commit_segment :: "string option"
  br_commit_offset :: "int option"

record batch_record_row =
  rr_batch :: string
  rr_kind :: string
  rr_key :: string
  rr_digest :: string
  rr_sequence :: nat
  rr_identity :: "string option"
  rr_core :: "jobj option"

record effective_row =
  ef_event :: string
  ef_rev :: int
  ef_status :: event_status
  ef_hash :: string
  ef_batch :: "string option"
  ef_json :: "jobj option"
  ef_sequence :: "nat option"
  ef_conflicts :: "string list option"

record violation_row =
  vr_fingerprint :: string
  vr_batch :: string
  vr_kind :: string
  vr_json :: jobj
  vr_available :: "nat option"

record selector_rows =
  ss_state :: state_row
  ss_batches :: "batch_row list"
  ss_records :: "batch_record_row list"
  ss_effective :: "effective_row list"
  ss_violations :: "violation_row list"

record taint_transition =
  tt_batch :: string
  tt_causal :: nat

text \<open>One element per physical line; a line that failed to decode is \<open>None\<close> and takes no number.\<close>

definition decoded_entry_count :: "jobj option list \<Rightarrow> nat" where
  "decoded_entry_count results = length (filter (\<lambda>r. r \<noteq> None) results)"

section \<open>From a full selection to rows\<close>

definition batch_status :: "selector_fold \<Rightarrow> string \<Rightarrow> batch_state" where
  "batch_status f batch_id = (if batch_id \<in> fd_tainted f then Tainted
     else if batch_id \<in> fd_completed f then Completed else BeginOnly)"

type_synonym coordinates = "(nat, string \<times> int) dict"

definition coordinate_of :: "coordinates \<Rightarrow> nat option \<Rightarrow> string option \<times> int option" where
  "coordinate_of coordinates sequence = (case sequence of None \<Rightarrow> (None, None)
     | Some n \<Rightarrow> (case dget coordinates n of None \<Rightarrow> (None, None)
       | Some (segment, offset) \<Rightarrow> (Some segment, Some offset)))"

definition batch_row_of :: "selector_fold \<Rightarrow> coordinates \<Rightarrow> string \<Rightarrow> batch_row" where
  "batch_row_of f coordinates batch_id =
     (let rows = dget_or (fd_markers f) batch_id [];
          b = dget rows ''begin''; c = dget rows ''commit'';
          (begin_segment, begin_offset) = coordinate_of coordinates (map_option mk_sequence b);
          (commit_segment, commit_offset) = coordinate_of coordinates (map_option mk_sequence c);
          core = (\<lambda>k. case b of None \<Rightarrow> JNull | Some m \<Rightarrow> jget (mk_core m) k)
      in \<lparr>br_batch = batch_id, br_status = batch_status f batch_id,
          br_action_count = core ''action_count'', br_action_set_hash = core ''actions_hash'',
          br_begin_segment = begin_segment, br_begin_offset = begin_offset,
          br_commit_segment = commit_segment, br_commit_offset = commit_offset\<rparr>)"

definition marker_record_row :: "string \<Rightarrow> string \<Rightarrow> marker_row \<Rightarrow> batch_record_row" where
  "marker_record_row batch_id phase m = \<lparr>rr_batch = batch_id, rr_kind = ''marker'', rr_key = phase,
     rr_digest = mk_digest m, rr_sequence = mk_sequence m, rr_identity = Some (mk_identity m),
     rr_core = None\<rparr>"

definition action_record_row :: "string \<Rightarrow> batch_state \<Rightarrow> int \<Rightarrow> action_row \<Rightarrow> batch_record_row" where
  "action_record_row batch_id status seq a = \<lparr>rr_batch = batch_id, rr_kind = ''action'',
     rr_key = int_str seq, rr_digest = ac_digest a, rr_sequence = ac_sequence a, rr_identity = None,
     rr_core = (if status = Completed \<or> ac_record a = [] then None
       else Some (correction_action_core (ac_record a)))\<rparr>"

definition record_rows_of :: "selector_fold \<Rightarrow> string \<Rightarrow> batch_record_row list" where
  "record_rows_of f batch_id =
     (let markers = dget_or (fd_markers f) batch_id []; actions = dget_or (fd_actions f) batch_id [] in
      map (\<lambda>phase. marker_record_row batch_id phase (the (dget markers phase))) (sort (dkeys markers))
      @ map (\<lambda>seq. action_record_row batch_id (batch_status f batch_id) seq (the (dget actions seq)))
          (sort (dkeys actions)))"

definition record_row_key :: "batch_record_row \<Rightarrow> string \<times> string \<times> string" where
  "record_row_key r = (rr_batch r, rr_kind r, rr_key r)"

definition fold_batch_ids :: "selector_fold \<Rightarrow> string list" where
  "fold_batch_ids f = sorted_set (dkeys (fd_markers f) @ dkeys (fd_actions f))"

definition batch_rows :: "selector_fold \<Rightarrow> coordinates \<Rightarrow> batch_row list \<times> batch_record_row list" where
  "batch_rows f coordinates = (map (batch_row_of f coordinates) (fold_batch_ids f),
     sort_key record_row_key (concat (map (record_rows_of f) (fold_batch_ids f))))"

text \<open>The row of a selected event.\<close>

definition event_row :: "effective_event \<Rightarrow> string list option \<Rightarrow> effective_row" where
  "event_row c conflicts = \<lparr>ef_event = ev_id c, ef_rev = ev_rev c, ef_status = ev_status c,
     ef_hash = ev_hash c, ef_batch = ev_batch c, ef_json = ev_record c,
     ef_sequence = Some (ev_sequence c), ef_conflicts = conflicts\<rparr>"

definition effective_rows :: "selection \<Rightarrow> effective_row list" where
  "effective_rows sel =
     (let conflicts = map (\<lambda>c. (cf_event c, cf_hashes c)) (rev (sl_conflicts sel)) in
      sort_key ef_event (map (\<lambda>(e, c). event_row c (dget conflicts e)\<lparr>ef_event := e\<rparr>) (sl_by_id sel)))"

definition ack_to_dict :: "(string \<Rightarrow> string) \<Rightarrow> acknowledged \<Rightarrow> jobj" where
  "ack_to_dict H a = violation_to_dict H (ak_violation a)
     @ [(''auditId'', JStr (ak_audit a)),
        (''journalHighWater'', JObj [(''segment'', JStr (fst (ak_high_water a))),
           (''offset'', JInt (snd (ak_high_water a)))]),
        (''journalPrefixHash'', JStr (ak_prefix_hash a))]"

definition violation_row_of :: "(string \<Rightarrow> string) \<Rightarrow> selector_fold \<Rightarrow> violation \<Rightarrow> jobj \<Rightarrow> violation_row" where
  "violation_row_of H f v wire = \<lparr>vr_fingerprint = fingerprint H v, vr_batch = vi_batch v,
     vr_kind = vi_kind v, vr_json = wire, vr_available = dget (fd_available f) (fingerprint H v)\<rparr>"

definition violation_row_key :: "violation_row \<Rightarrow> string \<times> string \<times> string" where
  "violation_row_key r = (vr_batch r, vr_kind r, vr_fingerprint r)"

definition violation_rows :: "(string \<Rightarrow> string) \<Rightarrow> selection \<Rightarrow> selector_fold \<Rightarrow> violation_row list" where
  "violation_rows H sel f = sort_key violation_row_key
     (map (\<lambda>v. violation_row_of H f v (violation_to_dict H v)) (sl_violations sel)
      @ map (\<lambda>a. violation_row_of H f (ak_violation a) (ack_to_dict H a)) (sl_acknowledged sel))"

definition rows_from_selection :: "(string \<Rightarrow> string) \<Rightarrow> selection \<Rightarrow> selector_fold \<Rightarrow> nat \<Rightarrow> coordinates
    \<Rightarrow> (string \<times> int) option \<Rightarrow> bool \<Rightarrow> string option \<Rightarrow> selector_rows" where
  "rows_from_selection H sel f next_sequence coordinates covered cutover_seen cutover_account =
     (let (batches, records) = batch_rows f coordinates in
      \<lparr>ss_state = \<lparr>sr_next_sequence = next_sequence, sr_version = SELECTOR_VERSION,
         sr_covered_segment = map_option fst covered, sr_covered_offset = map_option snd covered,
         sr_record_path = None, sr_stamped_at = None, sr_cutover_seen = cutover_seen,
         sr_cutover_account = cutover_account\<rparr>,
       ss_batches = batches, ss_records = records, ss_effective = effective_rows sel,
       ss_violations = violation_rows H sel f\<rparr>)"

definition comparable :: "selector_rows option \<Rightarrow> selector_rows option" where
  "comparable rows = map_option (\<lambda>r. r\<lparr>ss_state :=
     (ss_state r)\<lparr>sr_record_path := None, sr_stamped_at := None\<rparr>\<rparr>) rows"

section \<open>From rows to a seeded fold\<close>

text \<open>\<open>int(text)\<close> of a decimal numeral.\<close>

definition dec_value :: "string \<Rightarrow> int" where
  "dec_value s = foldl (\<lambda>a c. 10 * a + (int (of_char c) - 48)) 0 s"

definition restore_action :: "string \<Rightarrow> int \<Rightarrow> jobj \<Rightarrow> jobj" where
  "restore_action batch_id seq core = [(''v'', JInt LINE_VERSION), (''t'', JStr ''correction'')] @ core
     @ [(''batch'', JStr batch_id), (''seq'', JInt seq)]"

definition seed_record :: "(string, batch_row) dict \<Rightarrow> selector_fold \<Rightarrow> batch_record_row \<Rightarrow> selector_fold" where
  "seed_record by_batch f r =
     (let batch_id = rr_batch r in
      if rr_kind r = ''marker'' then
        let core = (\<lambda>field. case dget by_batch batch_id of None \<Rightarrow> JNull | Some b \<Rightarrow> field b);
            m = \<lparr>mk_core = [(''action_count'', core br_action_count), (''actions_hash'', core br_action_set_hash)],
                 mk_digest = rr_digest r, mk_identity = (case rr_identity r of None \<Rightarrow> [] | Some i \<Rightarrow> i),
                 mk_sequence = rr_sequence r\<rparr>
        in f\<lparr>fd_markers := dset batch_id (dset (rr_key r) m (dget_or (fd_markers f) batch_id [])) (fd_markers f)\<rparr>
      else
        let seq = dec_value (rr_key r);
            a = \<lparr>ac_record = (case rr_core r of None \<Rightarrow> [] | Some core \<Rightarrow> restore_action batch_id seq core),
                 ac_digest = rr_digest r, ac_sequence = rr_sequence r\<rparr>
        in f\<lparr>fd_actions := dset batch_id (dset seq a (dget_or (fd_actions f) batch_id [])) (fd_actions f)\<rparr>)"

definition seed_status :: "selector_fold \<Rightarrow> batch_row \<Rightarrow> selector_fold" where
  "seed_status f b = (case br_status b of
     Tainted \<Rightarrow> f\<lparr>fd_tainted := insert (br_batch b) (fd_tainted f)\<rparr>
   | Completed \<Rightarrow> f\<lparr>fd_completed := insert (br_batch b) (fd_completed f)\<rparr>
   | BeginOnly \<Rightarrow> f)"

definition seed_fold :: "selector_rows \<Rightarrow> selector_fold" where
  "seed_fold rows = foldl seed_status
     (foldl (seed_record (dict_by br_batch (ss_batches rows))) empty_fold (ss_records rows))
     (ss_batches rows)"

section \<open>Merging candidates into durable winners\<close>

text \<open>
  A durable winner as \<open>_event_from_row\<close> reads it, and a candidate, are both held as a row without
  conflicts: a row written by the live path may have no winning sequence.
\<close>

definition event_from_row :: "effective_row \<Rightarrow> effective_row" where
  "event_from_row r = r\<lparr>ef_conflicts := None\<rparr>"

definition legacy_row :: "effective_row \<Rightarrow> bool" where
  "legacy_row r \<longleftrightarrow> ef_status r = ActiveEvt
     \<and> (case ef_json r of None \<Rightarrow> False | Some j \<Rightarrow> is_legacy_arming_record j)"

type_synonym merge_state = "(string, effective_row) dict \<times> (string, string list) dict"

definition seeded :: "(string, effective_row) dict \<Rightarrow> merge_state \<Rightarrow> string
    \<Rightarrow> effective_row option \<times> (string, string list) dict" where
  "seeded prior_rows st e = (case st of (winners, conflicts) \<Rightarrow>
     (case dget winners e of Some w \<Rightarrow> (Some w, conflicts)
      | None \<Rightarrow> (case dget prior_rows e of None \<Rightarrow> (None, conflicts)
        | Some r \<Rightarrow> (Some (event_from_row r),
            (case ef_conflicts r of None \<Rightarrow> conflicts
             | Some hs \<Rightarrow> if dget conflicts e = None then dset e hs conflicts else conflicts)))))"

definition dsetdefault :: "'k \<Rightarrow> 'v \<Rightarrow> ('k, 'v) dict \<Rightarrow> ('k, 'v) dict" where
  "dsetdefault k v d = (if dget d k = None then dset k v d else d)"

definition merge_candidate :: "(string, effective_row) dict \<Rightarrow> merge_state \<Rightarrow> effective_event \<Rightarrow> merge_state" where
  "merge_candidate prior_rows st c = (case st of (winners, _) \<Rightarrow>
     (let e = ev_id c; new = event_row c None; (prior, conflicts) = seeded prior_rows st e in
      case prior of None \<Rightarrow> (dset e new winners, dwithout [e] conflicts)
      | Some p \<Rightarrow>
          if ev_rev c > ef_rev p then (dset e new winners, dwithout [e] conflicts)
          else if ev_rev c < ef_rev p then (dsetdefault e p winners, conflicts)
          else if ef_hash p = ev_hash c \<and> ef_status p = ev_status c
          then (if ef_sequence p = None then (dset e new winners, conflicts)
                else (dsetdefault e p winners, conflicts))
          else if legacy_row p \<and> legacy_row new then (dset e new winners, conflicts)
          else (dsetdefault e p winners,
                dset e (dget_or conflicts e [] @ [ef_hash p, ev_hash c]) conflicts)))"

definition merge_candidates :: "selector_rows \<Rightarrow> effective_event list \<Rightarrow> merge_state" where
  "merge_candidates rows candidates =
     foldl (merge_candidate (dict_by ef_event (ss_effective rows))) ([], []) (sort_key ev_sequence candidates)"

definition merged_effective_rows :: "selector_rows \<Rightarrow> merge_state \<Rightarrow> effective_row list" where
  "merged_effective_rows rows st = (case st of (winners, conflicts) \<Rightarrow> sort_key ef_event
     (filter (\<lambda>r. dget winners (ef_event r) = None) (ss_effective rows)
      @ map (\<lambda>(e, w). w\<lparr>ef_event := e, ef_conflicts :=
          (case dget_or conflicts e [] of [] \<Rightarrow> None | hs \<Rightarrow> Some (sorted_set hs))\<rparr>) winners))"

section \<open>Merging violations\<close>

definition PHASE_ONE_VIOLATION_KINDS :: "string list" where
  "PHASE_ONE_VIOLATION_KINDS = [''marker_conflict'', ''action_sequence_conflict'']"

definition is_acknowledged :: "violation_row \<Rightarrow> bool" where
  "is_acknowledged r = has_key ''auditId'' (vr_json r)"

definition with_earliest_available :: "violation_row \<Rightarrow> violation_row option \<Rightarrow> violation_row" where
  "with_earliest_available stored derived = (case derived of None \<Rightarrow> stored
   | Some d \<Rightarrow> (case (vr_available d, vr_available stored) of
       (None, _) \<Rightarrow> stored
     | (Some n, None) \<Rightarrow> stored\<lparr>vr_available := Some n\<rparr>
     | (Some n, Some m) \<Rightarrow> if n \<ge> m then stored else stored\<lparr>vr_available := Some n\<rparr>))"

definition derived_violations :: "(string \<Rightarrow> string) \<Rightarrow> selector_fold \<Rightarrow> (string, violation_row) dict" where
  "derived_violations H f = dict_by vr_fingerprint
     (map (\<lambda>((batch_id, kind, fp), v). \<lparr>vr_fingerprint = fp, vr_batch = batch_id, vr_kind = kind,
        vr_json = violation_to_dict H v, vr_available = dget (fd_available f) fp\<rparr>) (fd_violations f))"

definition withdrawn :: "string set \<Rightarrow> (string, violation_row) dict \<Rightarrow> violation_row \<Rightarrow> bool" where
  "withdrawn resolved derived r \<longleftrightarrow> vr_batch r \<in> resolved \<and> dget derived (vr_fingerprint r) = None
     \<and> vr_kind r \<notin> set PHASE_ONE_VIOLATION_KINDS \<and> \<not> is_acknowledged r"

definition merged_violation_rows :: "(string \<Rightarrow> string) \<Rightarrow> selector_rows \<Rightarrow> selector_fold \<Rightarrow> string set
    \<Rightarrow> violation_row list" where
  "merged_violation_rows H rows f resolved =
     (let derived = derived_violations H f;
          kept = foldl (\<lambda>d r. if withdrawn resolved derived r then d
             else dset (vr_fingerprint r) (with_earliest_available r (dget derived (vr_fingerprint r))) d)
             [] (ss_violations rows);
          merged = foldl (\<lambda>d (fp, r). dsetdefault fp r d) kept derived
      in sort_key violation_row_key (map snd merged))"

section \<open>Scopes and counters\<close>

definition FOLD_RECORD_TYPES :: "string list" where
  "FOLD_RECORD_TYPES = [''evt'', ''correction'', ''correction_batch'']"

definition batch_named :: "json \<Rightarrow> string list" where
  "batch_named j = (case j of JObj r \<Rightarrow>
       (case (if jget r ''t'' = JStr ''correction_batch'' then jget r ''id''
              else if jget r ''t'' = JStr ''correction'' then jget r ''batch'' else JNull) of
          JStr b \<Rightarrow> [b] | _ \<Rightarrow> [])
     | _ \<Rightarrow> [])"

definition delta_batch_scope :: "json list \<Rightarrow> string set" where
  "delta_batch_scope records = set (concat (map batch_named records))"

definition event_named :: "json \<Rightarrow> string list" where
  "event_named j = (case j of JObj r \<Rightarrow>
       if jget r ''t'' = JStr ''evt'' \<or> jget r ''t'' = JStr ''correction''
       then (case jget r ''id'' of JStr e \<Rightarrow> [e] | _ \<Rightarrow> []) else []
     | _ \<Rightarrow> [])"

definition core_event :: "batch_record_row \<Rightarrow> string list" where
  "core_event r = (if rr_kind r \<noteq> ''action'' then [] else case rr_core r of None \<Rightarrow> []
     | Some core \<Rightarrow> (case jget core ''id'' of JStr e \<Rightarrow> [e] | _ \<Rightarrow> []))"

definition delta_event_scope :: "json list \<Rightarrow> batch_record_row list \<Rightarrow> string set" where
  "delta_event_scope records batch_records =
     set (concat (map event_named records)) \<union> set (concat (map core_event batch_records))"

definition advanced_state :: "state_row \<Rightarrow> nat \<Rightarrow> (string \<times> int) option \<Rightarrow> state_row" where
  "advanced_state s consumed covered = s\<lparr>sr_next_sequence := consumed, sr_version := SELECTOR_VERSION,
     sr_covered_segment := (case covered of None \<Rightarrow> sr_covered_segment s | Some (seg, _) \<Rightarrow> Some seg),
     sr_covered_offset := (case covered of None \<Rightarrow> sr_covered_offset s | Some (_, off) \<Rightarrow> Some off)\<rparr>"

definition advance_counter :: "selector_rows \<Rightarrow> nat \<Rightarrow> (string \<times> int) option \<Rightarrow> selector_rows" where
  "advance_counter rows consumed covered = rows\<lparr>ss_state := advanced_state (ss_state rows) consumed covered\<rparr>"

section \<open>Merging a delta\<close>

definition carry :: "'a option \<Rightarrow> 'a option \<Rightarrow> 'a option" where
  "carry new old = (case new of None \<Rightarrow> old | Some x \<Rightarrow> Some x)"

text \<open>\<open>row.segment or old.segment\<close>: an empty name is falsy too.\<close>

definition carry_str :: "string option \<Rightarrow> string option \<Rightarrow> string option" where
  "carry_str new old = (if new = None \<or> new = Some [] then old else new)"

definition carry_coordinates :: "selector_rows \<Rightarrow> batch_row list \<Rightarrow> batch_row list" where
  "carry_coordinates rows batches =
     (let prior = dict_by br_batch (ss_batches rows) in
      map (\<lambda>r. case dget prior (br_batch r) of None \<Rightarrow> r
        | Some old \<Rightarrow> r\<lparr>br_begin_segment := carry_str (br_begin_segment r) (br_begin_segment old),
            br_begin_offset := carry (br_begin_offset r) (br_begin_offset old),
            br_commit_segment := carry_str (br_commit_segment r) (br_commit_segment old),
            br_commit_offset := carry (br_commit_offset r) (br_commit_offset old)\<rparr>) batches)"

datatype merge_error = Unavailable string | Journal journal_error

definition lift_journal :: "journal_error + 'a \<Rightarrow> merge_error + 'a" where
  "lift_journal r = (case r of Inl e \<Rightarrow> Inl (Journal e) | Inr x \<Rightarrow> Inr x)"

definition completed_ids :: "selector_rows \<Rightarrow> string list" where
  "completed_ids rows = map br_batch (filter (\<lambda>r. br_status r = Completed) (ss_batches rows))"

definition batch_shape :: "selector_fold \<Rightarrow> string \<Rightarrow> string set \<times> int set" where
  "batch_shape f b = (set (dkeys (dget_or (fd_markers f) b [])), set (dkeys (dget_or (fd_actions f) b [])))"

text \<open>The refusal when a durably completed batch gained a slot.\<close>

definition check_shapes :: "selector_fold \<Rightarrow> selector_fold \<Rightarrow> string list \<Rightarrow> merge_error + unit" where
  "check_shapes before after ids = (case filter (\<lambda>b. batch_shape after b \<noteq> batch_shape before b) (sorted_set ids) of
     [] \<Rightarrow> Inr ()
   | b # _ \<Rightarrow> Inl (Unavailable (''batch '' @ b @ '' is durably completed and the delta adds a marker phase ''
       @ ''or action sequence its stored rows do not hold; fall back to full selection'')))"

definition causal_sequences :: "selector_fold \<Rightarrow> string \<Rightarrow> nat list" where
  "causal_sequences f b = concat (map (\<lambda>((b', _, fp), _). if b' = b
     then (case dget (fd_available f) fp of None \<Rightarrow> [] | Some n \<Rightarrow> [n]) else []) (fd_violations f))"

definition transition_of :: "selector_fold \<Rightarrow> string \<Rightarrow> merge_error + taint_transition" where
  "transition_of f b = (case causal_sequences f b of
     [] \<Rightarrow> Inl (Unavailable (''batch '' @ b @ '' moved completed -> tainted with no causal offset; ''
       @ ''fall back to full selection''))
   | n # ns \<Rightarrow> Inr \<lparr>tt_batch = b, tt_causal = foldl min n ns\<rparr>)"

definition transition_key :: "taint_transition \<Rightarrow> nat \<times> string" where
  "transition_key t = (tt_causal t, tt_batch t)"

definition merge_delta :: "(string \<Rightarrow> string) \<Rightarrow> selector_rows \<Rightarrow> json list \<Rightarrow> nat \<Rightarrow> coordinates
    \<Rightarrow> (string \<times> int) option \<Rightarrow> merge_error + selector_rows \<times> taint_transition list" where
  "merge_delta H rows records next_sequence coordinates covered =
     (let seed = seed_fold rows; done_ids = completed_ids rows in
      rbind (lift_journal (fold_records H seed records next_sequence)) (\<lambda>(f, consumed).
        if fd_resolutions f \<noteq> [] then Inl (Unavailable (''a journal_protocol_resolution op requires a ''
          @ ''verified raw-prefix read; fall back to full selection''))
        else rbind (check_shapes seed f done_ids) (\<lambda>_.
          let ids = filter (\<lambda>b. b \<notin> set done_ids) (fold_batch_ids f);
              g = resolve_batches H (Some ids) f;
              g = g\<lparr>fd_completed := fd_completed g \<union> (set done_ids - fd_tainted g)\<rparr> in
          rbind (rmap (transition_of g) (filter (\<lambda>b. b \<in> fd_tainted g) (sorted_set done_ids))) (\<lambda>transitions.
            let (batches, batch_records) = batch_rows g coordinates in
            Inr (\<lparr>ss_state = advanced_state (ss_state rows) consumed covered,
                  ss_batches = carry_coordinates rows batches, ss_records = batch_records,
                  ss_effective = merged_effective_rows rows (merge_candidates rows (fd_candidates g)),
                  ss_violations = merged_violation_rows H rows g (set ids)\<rparr>,
                sort_key transition_key transitions)))))"

end
