(* ===== verification/Selector_Merge.thy ===== *)
theory Selector_Merge
  imports Selector_State
begin

text \<open>
  The candidate side of the durable selector: merging the candidates of a delta into the rows of a
  full selection gives the rows of the full selection over both (\<open>_merge_candidates\<close>,
  \<open>_merged_effective_rows\<close> in \<open>bin/_lib_selector_state.py\<close>).
\<close>

section \<open>Durable rows of a candidate set\<close>

definition group_conflicts :: "effective_event list \<Rightarrow> string list option" where
  "group_conflicts g = (if divergent_group g then Some (sorted_set (map ev_hash g)) else None)"

definition durable_row :: "effective_event list \<Rightarrow> string \<Rightarrow> effective_row option \<Rightarrow> bool" where
  "durable_row cs e ro = (case ro of None \<Rightarrow> \<forall>c \<in> set cs. ev_id c \<noteq> e
     | Some r \<Rightarrow> \<exists>c. wins cs e c \<and> r = event_row c (group_conflicts (key_group cs (rev_key c))))"

text \<open>The abstract content of \<open>journal_effective_events\<close>: one row per event id that has a candidate,
  its winner, and the hashes of the winner's group when the group diverges.\<close>

definition durable :: "effective_event list \<Rightarrow> effective_row list \<Rightarrow> bool" where
  "durable cs rows \<longleftrightarrow> distinct (map ef_event rows) \<and> (\<forall>e. durable_row cs e (row_at ef_event rows e))"

definition hashes_of :: "effective_event list \<Rightarrow> string set" where
  "hashes_of g = (if divergent_group g then ev_hash ` set g else {})"

lemma hashes_of_snoc:
  assumes "c \<in> set g"
  shows "hashes_of (g @ [d]) = hashes_of g \<union> (if differs c d then {ev_hash c, ev_hash d} else {})"
proof -
  note dv = divergent_snoc [OF assms, of d]
  show ?thesis
  proof (cases "divergent_group g")
    case True
    then show ?thesis using dv assms by (auto simp: hashes_of_def differs_def image_iff) metis
  next
    case False
    then show ?thesis using dv uniform_hash [OF False assms] by (auto simp: hashes_of_def)
  qed
qed

lemma legacy_event_row [simp]: "legacy_row (event_row c hs) = is_legacy_arming_state c"
  by (simp add: legacy_row_def event_row_def is_legacy_arming_state_def)

lemma event_row_fields [simp]:
  "ef_event (event_row c hs) = ev_id c" "ef_rev (event_row c hs) = ev_rev c"
  "ef_status (event_row c hs) = ev_status c" "ef_hash (event_row c hs) = ev_hash c"
  "ef_sequence (event_row c hs) = Some (ev_sequence c)" "ef_conflicts (event_row c hs) = hs"
  "event_from_row (event_row c hs) = event_row c None"
  by (simp_all add: event_row_def event_from_row_def)

section \<open>The merge invariant\<close>

definition current :: "effective_event list \<Rightarrow> string \<Rightarrow> effective_row option \<Rightarrow> string list \<Rightarrow> bool" where
  "current cs e po hs = (case po of None \<Rightarrow> \<forall>c \<in> set cs. ev_id c \<noteq> e
     | Some p \<Rightarrow> \<exists>c. wins cs e c \<and> p = event_row c None \<and> set hs = hashes_of (key_group cs (rev_key c)))"

definition named :: "effective_event list \<Rightarrow> string \<Rightarrow> bool" where
  "named ds e \<longleftrightarrow> (\<exists>d \<in> set ds. ev_id d = e)"

definition merge_inv :: "effective_event list \<Rightarrow> effective_event list \<Rightarrow> merge_state \<Rightarrow> bool" where
  "merge_inv cs ds st \<longleftrightarrow> (\<forall>e. if named ds e
     then dget (fst st) e \<noteq> None \<and> current (cs @ ds) e (dget (fst st) e) (dget_or (snd st) e [])
     else dget (fst st) e = None \<and> dget (snd st) e = None)"

lemma wins_append_other: "wins cs e c \<Longrightarrow> \<not> named ds e \<Longrightarrow> wins (cs @ ds) e c"
  by (auto simp: wins_def named_def)

lemma key_group_other: "\<not> named ds (fst key) \<Longrightarrow> key_group (cs @ ds) key = key_group cs key"
  by (force simp: key_group_def named_def rev_key_def filter_empty_conv)

lemma seeded_current:
  assumes inv: "merge_inv cs ds st" and prior: "\<And>e. durable_row cs e (dget prior e)"
    and s: "seeded prior st e = (po, cf)"
  shows "current (cs @ ds) e po (dget_or cf e [])"
    and "e' \<noteq> e \<Longrightarrow> dget cf e' = dget (snd st) e'"
    and "dget (fst st) e \<noteq> None \<Longrightarrow> dget (fst st) e = po"
proof -
  note i = inv [unfolded merge_inv_def, THEN spec, of e]
  show "e' \<noteq> e \<Longrightarrow> dget cf e' = dget (snd st) e'"
    using s by (auto simp: seeded_def dget_dset split: prod.splits option.splits if_splits)
  show "dget (fst st) e \<noteq> None \<Longrightarrow> dget (fst st) e = po"
    using s by (auto simp: seeded_def split: prod.splits)
  show "current (cs @ ds) e po (dget_or cf e [])"
  proof (cases "named ds e")
    case True
    then show ?thesis using i s by (auto simp: seeded_def split: prod.splits option.splits)
  next
    case False
    then have n: "dget (fst st) e = None" "dget (snd st) e = None" using i by simp_all
    show ?thesis
    proof (cases "dget prior e")
      case None
      then have "po = None" using s n by (auto simp: seeded_def split: prod.splits)
      then show ?thesis using prior [of e] None False by (auto simp: current_def durable_row_def named_def)
    next
      case (Some r)
      then obtain c where c: "wins cs e c" "r = event_row c (group_conflicts (key_group cs (rev_key c)))"
        using prior [of e] by (auto simp: durable_row_def)
      have g: "key_group (cs @ ds) (rev_key c) = key_group cs (rev_key c)"
        using False c(1) by (intro key_group_other) (simp add: rev_key_def wins_def)
      have "po = Some (event_row c None)" "set (dget_or cf e []) = hashes_of (key_group cs (rev_key c))"
        using s n Some c(2)
        by (auto simp: seeded_def group_conflicts_def hashes_of_def dget_or_def dget_dset
            split: prod.splits if_splits)
      then show ?thesis using wins_append_other [OF c(1) False] g by (auto simp: current_def)
    qed
  qed
qed

lemma wins_higher:
  assumes "case po of None \<Rightarrow> \<forall>c \<in> set cs. ev_id c \<noteq> ev_id d | Some c \<Rightarrow> wins cs (ev_id d) c \<and> ev_rev c < ev_rev d"
  shows "wins (cs @ [d]) (ev_id d) d" and "key_group (cs @ [d]) (rev_key d) = [d]"
  using assms
  by (fastforce simp: wins_def key_group_def rev_key_def filter_empty_conv split: option.splits)+

lemma wins_kept:
  assumes "wins cs (ev_id d) c" and "ev_rev d \<le> ev_rev c"
    and "ev_rev d = ev_rev c \<Longrightarrow> ev_sequence c \<le> ev_sequence d"
  shows "wins (cs @ [d]) (ev_id d) c"
  using assms by (auto simp: wins_def)

lemma merge_candidate_inv:
  assumes inv: "merge_inv cs ds st" and prior: "\<And>e. durable_row cs e (dget prior e)"
    and legacy: "no_legacy (cs @ ds @ [d])"
    and above: "\<And>c. c \<in> set (cs @ ds) \<Longrightarrow> rev_key c = rev_key d \<Longrightarrow> ev_sequence c \<le> ev_sequence d"
  shows "merge_inv cs (ds @ [d]) (merge_candidate prior st d)"
proof -
  let ?e = "ev_id d"
  obtain winners conflicts where st: "st = (winners, conflicts)" by fastforce
  obtain po cf where s: "seeded prior st ?e = (po, cf)" by fastforce
  note cur = seeded_current(1) [OF inv prior s] and frame = seeded_current(2) [OF inv prior s]
    and same = seeded_current(3) [OF inv prior s]
  obtain w' cf' where m: "merge_candidate prior st d = (w', cf')" by fastforce
  have other: "dget w' e = dget winners e \<and> dget cf' e = dget conflicts e" if "e \<noteq> ?e" for e
    using m frame [OF that] that s st
    by (auto simp: merge_candidate_def Let_def dsetdefault_def dget_dset dget_dwithout
        split: option.splits if_splits)
  have here: "dget w' ?e \<noteq> None \<and> current (cs @ ds @ [d]) ?e (dget w' ?e) (dget_or cf' ?e [])"
  proof (cases po)
    case None
    then have "dget w' ?e = Some (event_row d None)" "dget_or cf' ?e [] = []"
      using m s st by (auto simp: merge_candidate_def Let_def dget_dset dget_dwithout dget_or_def)
    moreover have "\<forall>c \<in> set (cs @ ds). ev_id c \<noteq> ?e" using cur None by (simp add: current_def)
    ultimately show ?thesis
      using wins_higher [where po = None and cs = "cs @ ds" and d = d]
      by (auto simp: current_def hashes_of_def divergent_group_def differs_def)
  next
    case (Some p)
    then obtain c where c: "wins (cs @ ds) ?e c" "p = event_row c None"
      "set (dget_or cf ?e []) = hashes_of (key_group (cs @ ds) (rev_key c))"
      using cur by (auto simp: current_def)
    have cin: "c \<in> set (cs @ ds)" "ev_id c = ?e" using c(1) by (simp_all add: wins_def)
    have keep: "dget (dsetdefault ?e p winners) ?e = Some p"
      using same Some st by (auto simp: dsetdefault_def dget_dset)
    show ?thesis
    proof (cases "ev_rev c" "ev_rev d" rule: linorder_cases)
      case less
      then have "dget w' ?e = Some (event_row d None)" "dget_or cf' ?e [] = []"
        using m s st Some c(2) by (auto simp: merge_candidate_def Let_def dget_dset dget_dwithout dget_or_def)
      then show ?thesis
        using wins_higher [where po = "Some c" and cs = "cs @ ds" and d = d] c(1) less
        by (auto simp: current_def hashes_of_def divergent_group_def differs_def)
    next
      case greater
      then have "w' = dsetdefault ?e p winners" "cf' = cf"
        using m s st Some c(2) by (auto simp: merge_candidate_def Let_def)
      moreover have "key_group ((cs @ ds) @ [d]) (rev_key c) = key_group (cs @ ds) (rev_key c)"
        using greater key_group_snoc [of "cs @ ds" d "rev_key c"] by (auto simp: rev_key_def)
      ultimately show ?thesis
        using keep wins_kept [OF c(1)] greater c(2,3) by (auto simp: current_def)
    next
      case equal
      then have key: "rev_key c = rev_key d" using cin by (simp add: rev_key_def)
      have w: "wins ((cs @ ds) @ [d]) ?e c" using wins_kept [OF c(1)] equal above [OF cin(1) key] by simp
      have cg: "c \<in> set (key_group (cs @ ds) (rev_key c))" using cin(1) by (simp add: key_group_def)
      have h: "hashes_of (key_group ((cs @ ds) @ [d]) (rev_key c))
          = hashes_of (key_group (cs @ ds) (rev_key c)) \<union> (if differs c d then {ev_hash c, ev_hash d} else {})"
        using hashes_of_snoc [OF cg, of d] key key_group_snoc [of "cs @ ds" d "rev_key c"] by simp
      have nl: "\<not> is_legacy_arming_state d" using legacy by (simp add: no_legacy_def)
      have "dget w' ?e = Some p \<and> set (dget_or cf' ?e [])
          = set (dget_or cf ?e []) \<union> (if differs c d then {ev_hash c, ev_hash d} else {})"
        using m s st Some c(2) equal nl keep
        by (auto simp: merge_candidate_def Let_def differs_def dget_dset dget_or_def split: if_splits)
      then show ?thesis using w h c(2,3) by (auto simp: current_def)
    qed
  qed
  show ?thesis
    unfolding merge_inv_def m fst_conv snd_conv
  proof
    fix e
    show "if named (ds @ [d]) e then dget w' e \<noteq> None \<and> current (cs @ ds @ [d]) e (dget w' e) (dget_or cf' e [])
      else dget w' e = None \<and> dget cf' e = None"
    proof (cases "e = ?e")
      case True
      then show ?thesis using here by (simp add: named_def)
    next
      case False
      have n: "named (ds @ [d]) e = named ds e" using False by (auto simp: named_def)
      have "current (cs @ ds @ [d]) e x hs = current (cs @ ds) e x hs" for x hs
        using False wins_append_other [of "cs @ ds" e _ "[d]"] key_group_other [of "[d]" _ "cs @ ds"]
        by (auto simp: current_def named_def wins_def rev_key_def split: option.splits)
      then show ?thesis
        using inv [unfolded merge_inv_def, THEN spec, of e] other [OF False] n st by (auto simp: dget_or_def)
    qed
  qed
qed

lemma merge_fold_inv:
  assumes prior: "\<And>e. durable_row cs e (dget prior e)" and "no_legacy (cs @ ds)"
    and "sorted (map ev_sequence ds)"
    and "\<And>c d. c \<in> set cs \<Longrightarrow> d \<in> set ds \<Longrightarrow> rev_key c = rev_key d \<Longrightarrow> ev_sequence c \<le> ev_sequence d"
  shows "merge_inv cs ds (foldl (merge_candidate prior) ([], []) ds)"
  using assms(2-)
proof (induction ds rule: rev_induct)
  case Nil
  show ?case by (simp add: merge_inv_def named_def)
next
  case (snoc d ds)
  have "merge_inv cs ds (foldl (merge_candidate prior) ([], []) ds)"
    using snoc by (auto simp: no_legacy_def sorted_append)
  moreover have "ev_sequence c \<le> ev_sequence d" if "c \<in> set (cs @ ds)" "rev_key c = rev_key d" for c
    using snoc.prems(2,3) that by (auto simp: sorted_append)
  ultimately show ?case
    using merge_candidate_inv [OF _ prior snoc.prems(1)] by simp
qed

lemma merge_candidate_wf: "wf_dict (fst st) \<Longrightarrow> wf_dict (fst (merge_candidate prior st d))"
  by (auto simp: merge_candidate_def Let_def dsetdefault_def split: prod.splits option.splits)

lemma merge_fold_wf: "wf_dict (fst (foldl (merge_candidate prior) ([], []) ds))"
  by (induction ds rule: rev_induct) (simp_all add: merge_candidate_wf)

lemma durable_row_cong:
  assumes "set cs = set cs'" shows "durable_row cs e ro = durable_row cs' e ro"
proof -
  have g: "set (key_group cs key) = set (key_group cs' key)" for key by (simp add: key_group_def assms)
  then have "divergent_group (key_group cs key) = divergent_group (key_group cs' key)" for key
    by (simp add: divergent_group_def)
  moreover have "sorted_set (map ev_hash (key_group cs key)) = sorted_set (map ev_hash (key_group cs' key))" for key
    by (rule sorted_set_cong) (simp add: g)
  ultimately show ?thesis
    unfolding durable_row_def group_conflicts_def wins_def assms by presburger
qed

lemma durable_cong: "set cs = set cs' \<Longrightarrow> durable cs rows = durable cs' rows"
  unfolding durable_def using durable_row_cong by blast

lemma durable_row_other:
  assumes "durable_row cs e ro" and "\<not> named ds e" shows "durable_row (cs @ ds) e ro"
proof (cases ro)
  case None
  then show ?thesis using assms by (auto simp: durable_row_def named_def)
next
  case (Some r)
  then obtain c where c: "wins cs e c" "r = event_row c (group_conflicts (key_group cs (rev_key c)))"
    using assms(1) by (auto simp: durable_row_def)
  have "fst (rev_key c) = e" using c(1) by (simp add: wins_def rev_key_def)
  then have "key_group (cs @ ds) (rev_key c) = key_group cs (rev_key c)" using assms(2) by (simp add: key_group_other)
  then show ?thesis using Some c wins_append_other [OF c(1) assms(2)] by (auto simp: durable_row_def)
qed

text \<open>The rows written back, when every winner is current.\<close>

definition written_row :: "string \<Rightarrow> effective_row \<Rightarrow> string list \<Rightarrow> effective_row" where
  "written_row e w hs = w\<lparr>ef_event := e, ef_conflicts := (case hs of [] \<Rightarrow> None | h # hs \<Rightarrow> Some (sorted_set (h # hs)))\<rparr>"

lemma written_current:
  assumes "wins cs e c" and "set hs = hashes_of (key_group cs (rev_key c))"
  shows "written_row e (event_row c None) hs = event_row c (group_conflicts (key_group cs (rev_key c)))"
proof -
  let ?g = "key_group cs (rev_key c)"
  have c: "c \<in> set ?g" "ev_id c = e" using assms(1) by (simp_all add: wins_def key_group_def)
  have "(case hs of [] \<Rightarrow> None | h # hs \<Rightarrow> Some (sorted_set (h # hs))) = group_conflicts ?g"
  proof (cases "divergent_group ?g")
    case True
    then have "set hs = set (map ev_hash ?g)" using assms(2) by (simp add: hashes_of_def)
    moreover from this have "hs \<noteq> []" using c(1) by auto
    ultimately show ?thesis
      using True by (auto simp: group_conflicts_def split: list.splits intro: sorted_set_cong)
  next
    case False
    then show ?thesis using assms(2) by (simp add: hashes_of_def group_conflicts_def)
  qed
  then show ?thesis using c(2) by (simp add: written_row_def event_row_def)
qed

lemma merged_rows_eq:
  "merged_effective_rows rows (winners, conflicts) = sort_key ef_event
     (filter (\<lambda>r. dget winners (ef_event r) = None) (ss_effective rows)
      @ map (\<lambda>(e, w). written_row e w (dget_or conflicts e [])) winners)"
  by (simp add: merged_effective_rows_def written_row_def)

lemma merged_row_at:
  assumes "wf_dict winners" and "distinct (map ef_event (ss_effective rows))"
  shows "distinct (map ef_event (merged_effective_rows rows (winners, conflicts)))"
    and "row_at ef_event (merged_effective_rows rows (winners, conflicts)) e
      = (case dget winners e of None \<Rightarrow> row_at ef_event (ss_effective rows) e
         | Some w \<Rightarrow> Some (written_row e w (dget_or conflicts e [])))"
proof -
  let ?kept = "filter (\<lambda>r. dget winners (ef_event r) = None) (ss_effective rows)"
  let ?new = "map (\<lambda>(e, w). written_row e w (dget_or conflicts e [])) winners"
  note rows = merged_rows_eq [of rows winners conflicts]
  have keys: "map ef_event ?new = map fst winners" by (auto simp: written_row_def)
  have dist: "distinct (map ef_event (?kept @ ?new))"
  proof -
    have "distinct (map ef_event ?kept)" using assms(2) by (simp add: distinct_map_filter)
    moreover have "e \<notin> set (map fst winners)" if "e \<in> set (map ef_event ?kept)" for e
      using that by (auto simp: map_of_eq_None_iff)
    ultimately show ?thesis using assms(1) unfolding map_append keys by (auto simp: wf_dict_def)
  qed
  show "distinct (map ef_event (merged_effective_rows rows (winners, conflicts)))"
    unfolding rows by (rule iffD2 [OF distinct_map_sort_key dist])
  have "row_at ef_event (merged_effective_rows rows (winners, conflicts)) e = row_at ef_event (?kept @ ?new) e"
    using row_at_perm [OF dist, of "sort_key ef_event (?kept @ ?new)"] rows by simp
  also have "\<dots> = (case dget winners e of None \<Rightarrow> row_at ef_event (ss_effective rows) e
       | Some w \<Rightarrow> Some (written_row e w (dget_or conflicts e [])))"
  proof (cases "dget winners e")
    case None
    have "e \<notin> set (map ef_event ?new)" using None unfolding keys by (simp add: map_of_eq_None_iff)
    then have new: "ef_event r \<noteq> e" if "r \<in> set ?new" for r
      using imageI [OF that, of ef_event] by (metis list.set_map)
    have "r \<in> set (?kept @ ?new) \<and> ef_event r = e \<longleftrightarrow> r \<in> set (ss_effective rows) \<and> ef_event r = e" for r
      using None new [of r] unfolding set_append Un_iff set_filter mem_Collect_eq by blast
    then have "row_at ef_event (?kept @ ?new) e = Some r \<longleftrightarrow> row_at ef_event (ss_effective rows) e = Some r" for r
      using row_at_Some [OF dist] row_at_Some [OF assms(2)] by simp
    then have "row_at ef_event (?kept @ ?new) e = row_at ef_event (ss_effective rows) e" by (rule option_ext)
    then show ?thesis using None by simp
  next
    case (Some w)
    then have "written_row e w (dget_or conflicts e []) \<in> set (?kept @ ?new)"
      by (auto dest: map_of_SomeD intro: rev_image_eqI)
    then show ?thesis
      using Some row_at_Some [OF dist, of e] by (simp add: written_row_def)
  qed
  finally show "row_at ef_event (merged_effective_rows rows (winners, conflicts)) e
      = (case dget winners e of None \<Rightarrow> row_at ef_event (ss_effective rows) e
         | Some w \<Rightarrow> Some (written_row e w (dget_or conflicts e [])))" .
qed

lemma merged_durable:
  assumes inv: "merge_inv cs ds (winners, conflicts)" and wf: "wf_dict winners"
    and dur: "durable cs (ss_effective rows)"
  shows "durable (cs @ ds) (merged_effective_rows rows (winners, conflicts))"
proof -
  have "distinct (map ef_event (ss_effective rows))" using dur by (simp add: durable_def)
  note merged = merged_row_at [OF wf this, of conflicts]
  have "durable_row (cs @ ds) e (row_at ef_event (merged_effective_rows rows (winners, conflicts)) e)" for e
  proof (cases "named ds e")
    case True
    then obtain w where w: "dget winners e = Some w" "current (cs @ ds) e (Some w) (dget_or conflicts e [])"
      using inv [unfolded merge_inv_def, THEN spec, of e] by (auto simp: True)
    then obtain c where "wins (cs @ ds) e c" "w = event_row c None"
        "set (dget_or conflicts e []) = hashes_of (key_group (cs @ ds) (rev_key c))"
      by (auto simp: current_def)
    then show ?thesis using w(1) written_current merged(2) by (auto simp: durable_row_def)
  next
    case False
    then have n: "dget winners e = None" using inv [unfolded merge_inv_def, THEN spec, of e] by simp
    have "durable_row cs e (row_at ef_event (ss_effective rows) e)" using dur by (simp add: durable_def)
    then show ?thesis using merged(2) n durable_row_other [OF _ False] by simp
  qed
  then show ?thesis using merged(1) by (simp add: durable_def)
qed

lemma merge_candidates_durable:
  assumes dur: "durable cs (ss_effective rows)" and "no_legacy (cs @ ds)"
    and above: "\<And>c d. c \<in> set cs \<Longrightarrow> d \<in> set ds \<Longrightarrow> rev_key c = rev_key d \<Longrightarrow> ev_sequence c \<le> ev_sequence d"
  shows "durable (cs @ ds) (merged_effective_rows rows (merge_candidates rows ds))"
proof -
  let ?ds = "sort_key ev_sequence ds" and ?prior = "dict_by ef_event (ss_effective rows)"
  have prior: "durable_row cs e (dget ?prior e)" for e
    using dur dget_dict_by [of ef_event "ss_effective rows" e] by (simp add: durable_def)
  obtain w cf where st: "merge_candidates rows ds = (w, cf)" by fastforce
  have "merge_inv cs ?ds (w, cf)" "wf_dict w"
    using merge_fold_inv [OF prior, of ?ds] merge_fold_wf [of ?prior ?ds] assms(2) above st
    by (auto simp: merge_candidates_def no_legacy_def)
  from merged_durable [OF this dur] st show ?thesis
    using durable_cong [of "cs @ ds" "cs @ ?ds"] by simp
qed

section \<open>The rows of a full selection\<close>

lemma conflict_lookup:
  assumes "no_legacy cs" and sel: "select_candidates cs = (w, active, conflicts)" and c: "dget w e = Some c"
  shows "dget (map (\<lambda>x. (cf_event x, cf_hashes x)) (rev conflicts)) e = group_conflicts (key_group cs (rev_key c))"
    (is "dget ?cf e = _")
proof (cases "dget ?cf e")
  case None
  have "ev_id c = e" using winners_spec(2) [OF assms(1), of w e c] sel c by (simp add: wins_def)
  have "\<not> divergent_group (key_group cs (rev_key c))"
  proof
    assume d: "divergent_group (key_group cs (rev_key c))"
    let ?x = "\<lparr>cf_event = e, cf_rev = ev_rev c, cf_hashes = sorted_set (map ev_hash (key_group cs (rev_key c))),
      cf_selected = ev_hash c\<rparr>"
    have "?x \<in> set conflicts" using conflicts_spec [OF assms(1) sel, of ?x] c d by simp
    then have "e \<in> fst ` set ?cf" by force
    then show False using None unfolding map_of_eq_None_iff by blast
  qed
  then show ?thesis using None by (simp add: group_conflicts_def)
next
  case (Some hs)
  then have "(e, hs) \<in> set ?cf" by (rule map_of_SomeD)
  then obtain x where "x \<in> set conflicts" "cf_event x = e" "cf_hashes x = hs" by auto
  then show ?thesis using conflicts_spec [OF assms(1) sel, of x] c Some by (auto simp: group_conflicts_def)
qed

lemma selection_row_at:
  assumes leg: "no_legacy cs" and sel: "select_candidates cs = (sl_by_id s, active, sl_conflicts s)"
  shows "distinct (map ef_event (effective_rows s))"
    and "row_at ef_event (effective_rows s) e = map_option (\<lambda>c. event_row c (group_conflicts (key_group cs (rev_key c)))) (dget (sl_by_id s) e)"
proof -
  let ?w = "sl_by_id s"
  let ?cf = "map (\<lambda>c. (cf_event c, cf_hashes c)) (rev (sl_conflicts s))"
  let ?rows = "map (\<lambda>(e, c). event_row c (dget ?cf e)\<lparr>ef_event := e\<rparr>) ?w"
  have wf: "wf_dict ?w" using select_candidates_parts [OF sel] by simp
  note sp = winners_spec [OF leg, of ?w, unfolded sel fst_conv, OF refl]
  have row: "event_row c (dget ?cf e)\<lparr>ef_event := e\<rparr> = event_row c (group_conflicts (key_group cs (rev_key c)))"
    if "dget ?w e = Some c" for e c
    using sp(2) [OF that] conflict_lookup [OF leg sel that] by (simp add: wins_def event_row_def)
  have keys: "map ef_event ?rows = map fst ?w" by auto
  have dist: "distinct (map ef_event ?rows)" using wf unfolding keys by (simp add: wf_dict_def)
  show "distinct (map ef_event (effective_rows s))"
    unfolding effective_rows_def Let_def by (rule iffD2 [OF distinct_map_sort_key dist])
  show "row_at ef_event (effective_rows s) e = map_option (\<lambda>c. event_row c (group_conflicts (key_group cs (rev_key c)))) (dget (sl_by_id s) e)"
  proof -
    have "row_at ef_event (effective_rows s) e = row_at ef_event ?rows e"
      using row_at_perm [OF dist, of "sort_key ef_event ?rows"] by (simp add: effective_rows_def Let_def)
    also have "\<dots> = map_option (\<lambda>c. event_row c (group_conflicts (key_group cs (rev_key c)))) (dget ?w e)"
    proof (cases "dget ?w e")
      case None
      then have "e \<notin> ef_event ` set ?rows" unfolding list.set_map [symmetric] keys by (simp add: map_of_eq_None_iff)
      then show ?thesis using None row_at_None [of ef_event ?rows e] by simp
    next
      case (Some c)
      have "(case (e, c) of (e, c) \<Rightarrow> event_row c (dget ?cf e)\<lparr>ef_event := e\<rparr>) \<in> set ?rows"
        unfolding list.set_map by (rule imageI) (rule map_of_SomeD [OF Some])
      then have "row_at ef_event ?rows e = Some (event_row c (dget ?cf e)\<lparr>ef_event := e\<rparr>)"
        using row_at_Some [OF dist, of e] by simp
      then show ?thesis using Some row [OF Some] by simp
    qed
    finally show ?thesis .
  qed
qed

lemma selection_durable:
  assumes leg: "no_legacy cs" and sel: "select_candidates cs = (sl_by_id s, active, sl_conflicts s)"
  shows "durable cs (effective_rows s)"
proof -
  let ?w = "sl_by_id s"
  note sp = winners_spec [OF leg, of ?w, unfolded sel fst_conv, OF refl]
  have "durable_row cs e (map_option (\<lambda>c. event_row c (group_conflicts (key_group cs (rev_key c)))) (dget ?w e))" for e
    using sp(1) [of e] sp(2) [of e] by (cases "dget ?w e") (auto simp: durable_row_def)
  then show ?thesis using selection_row_at [OF leg sel] by (simp add: durable_def)
qed

text \<open>Two tables with the same abstract content and one order are one table.\<close>

lemma durable_unique:
  assumes "durable cs rows" "durable cs rows'" and inj: "inj_on ev_sequence (set cs)"
    and "sorted (map ef_event rows)" "sorted (map ef_event rows')"
  shows "rows = rows'"
proof -
  have at: "row_at ef_event rows e = row_at ef_event rows' e" for e
  proof -
    have "durable_row cs e (row_at ef_event rows e)" "durable_row cs e (row_at ef_event rows' e)"
      using assms(1,2) by (simp_all add: durable_def)
    then show ?thesis
      using wins_unique [OF refl inj, of e]
      by (auto simp: durable_row_def wins_def split: option.splits)
  qed
  have "set rows = set rows'"
  proof (rule set_eqI)
    fix r
    show "r \<in> set rows \<longleftrightarrow> r \<in> set rows'"
      using row_at_Some [of ef_event rows "ef_event r" r] row_at_Some [of ef_event rows' "ef_event r" r]
        assms(1,2) at by (simp add: durable_def)
  qed
  moreover have "distinct rows" "distinct rows'" using assms(1,2) by (simp_all add: durable_def distinct_map)
  ultimately have "mset rows = mset rows'" by (simp add: set_eq_iff_mset_eq_distinct)
  then have "sort_key ef_event rows = sort_key ef_event rows'"
    using assms(1) by (intro sort_key_permute) (simp_all add: durable_def)
  then show ?thesis using assms(4,5) by (simp add: sort_key_id_if_sorted)
qed

section \<open>Merging agrees with selecting\<close>

lemma merged_sorted: "sorted (map ef_event (merged_effective_rows rows st))"
  by (simp add: merged_effective_rows_def split: prod.splits)

text \<open>The incremental merge of candidates is the full selection. When the durable rows are those
  of a full selection over the candidates \<open>cs\<close>, no candidate is a legacy arming record, stream
  positions are distinct, and no new candidate lies before an old one of the same event and revision,
  then merging the new candidates \<open>ds\<close> into the rows gives exactly the rows, conflicts included, that
  the full selection over \<open>cs\<close> and \<open>ds\<close> writes.\<close>

theorem merge_agrees_with_selection:
  assumes "no_legacy (cs @ ds)" and "inj_on ev_sequence (set (cs @ ds))"
    and "\<And>c d. c \<in> set cs \<Longrightarrow> d \<in> set ds \<Longrightarrow> rev_key c = rev_key d \<Longrightarrow> ev_sequence c \<le> ev_sequence d"
    and "select_candidates cs = (sl_by_id s, active, sl_conflicts s)"
    and "select_candidates (cs @ ds) = (sl_by_id s', active', sl_conflicts s')"
    and "ss_effective rows = effective_rows s"
  shows "merged_effective_rows rows (merge_candidates rows ds) = effective_rows s'"
proof (rule durable_unique)
  have "no_legacy cs" using assms(1) by (simp add: no_legacy_def)
  then have "durable cs (ss_effective rows)" using selection_durable assms(4,6) by simp
  then show "durable (cs @ ds) (merged_effective_rows rows (merge_candidates rows ds))"
    using assms(1,3) by (rule merge_candidates_durable)
  show "durable (cs @ ds) (effective_rows s')" using assms(1,5) by (rule selection_durable)
qed (use assms(2) in \<open>simp_all add: merged_sorted effective_rows_def Let_def\<close>)

definition twin :: "string \<Rightarrow> nat \<Rightarrow> effective_event" where
  "twin h n = \<lparr>ev_id = ''pm:1'', ev_rev = 1, ev_status = ActiveEvt, ev_hash = h,
     ev_batch = Some ''b'', ev_record = None, ev_sequence = n\<rparr>"

definition twin_selection :: "effective_event list \<Rightarrow> selection" where
  "twin_selection cs = (case select_candidates cs of (w, active, conflicts) \<Rightarrow>
     \<lparr>sl_active = active, sl_by_id = w, sl_completed = {}, sl_conflicts = conflicts, sl_violations = [],
      sl_acknowledged = []\<rparr>)"

definition twin_rows :: "effective_event list \<Rightarrow> selector_rows" where
  "twin_rows cs = rows_from_selection (\<lambda>x. x) (twin_selection cs) empty_fold 0 [] None False None"

lemma twin_selection_parts:
  "\<exists>active. select_candidates cs = (sl_by_id (twin_selection cs), active, sl_conflicts (twin_selection cs))"
  by (simp add: twin_selection_def split: prod.split)

lemma twin_rows_effective: "ss_effective (twin_rows cs) = effective_rows (twin_selection cs)"
  by (simp add: twin_rows_def rows_from_selection_def split: prod.split)

lemma twin_no_legacy: "no_legacy [twin h n, twin h' n']"
  by (simp add: no_legacy_def is_legacy_arming_state_def twin_def)

theorem merge_agrees_with_selection_witness:
  "let cs = [twin ''x'' 1]; ds = [twin ''y'' 2]; rows = twin_rows cs
   in merged_effective_rows rows (merge_candidates rows ds) = effective_rows (twin_selection (cs @ ds))"
proof -
  let ?cs = "[twin ''x'' 1]" and ?ds = "[twin ''y'' 2]"
  obtain a a' where "select_candidates ?cs = (sl_by_id (twin_selection ?cs), a, sl_conflicts (twin_selection ?cs))"
    "select_candidates (?cs @ ?ds) = (sl_by_id (twin_selection (?cs @ ?ds)), a', sl_conflicts (twin_selection (?cs @ ?ds)))"
    using twin_selection_parts by blast
  from merge_agrees_with_selection [OF _ _ _ this twin_rows_effective] show ?thesis
    using twin_no_legacy by (simp add: twin_def)
qed

section \<open>Where the merge and the selection disagree\<close>

text \<open>Against a durable winner of the highest revision the merge decides by order of arrival: no later candidate
  replaces it, whatever its position in the stream.\<close>

lemma merge_candidate_keeps:
  assumes "dget prior e = Some (event_row c hs)" and "ev_id c = e" and "\<not> is_legacy_arming_state c"
    and "ev_id d = e \<Longrightarrow> ev_rev d \<le> ev_rev c"
    and "dget (fst st) e = None \<or> dget (fst st) e = Some (event_row c None)"
  shows "dget (fst (merge_candidate prior st d)) e = (if ev_id d = e then Some (event_row c None) else dget (fst st) e)"
proof -
  obtain winners conflicts where st: "st = (winners, conflicts)" by fastforce
  obtain po cf where s: "seeded prior st (ev_id d) = (po, cf)" by fastforce
  show ?thesis
  proof (cases "ev_id d = e")
    case False
    then show ?thesis using s st
      by (auto simp: merge_candidate_def Let_def dsetdefault_def dget_dset split: option.splits)
  next
    case True
    then have "po = Some (event_row c None)" using s st assms(1,5) by (auto simp: seeded_def split: option.splits)
    then show ?thesis using s st assms(3-5) True
      by (auto simp: merge_candidate_def Let_def dsetdefault_def dget_dset split: option.splits)
  qed
qed

lemma merge_fold_keeps:
  assumes "dget prior e = Some (event_row c hs)" and "ev_id c = e" and "\<not> is_legacy_arming_state c"
    and "\<forall>d \<in> set ds. ev_id d = e \<longrightarrow> ev_rev d \<le> ev_rev c"
  shows "dget (fst (foldl (merge_candidate prior) ([], []) ds)) e = (if named ds e then Some (event_row c None) else None)"
  using assms(4)
proof (induction ds rule: rev_induct)
  case Nil
  then show ?case by (simp add: named_def)
next
  case (snoc d ds)
  then have "dget (fst (foldl (merge_candidate prior) ([], []) ds)) e = (if named ds e then Some (event_row c None) else None)" by simp
  then show ?case
    using merge_candidate_keeps [OF assms(1-3), of d "foldl (merge_candidate prior) ([], []) ds"] snoc.prems
    by (auto simp: named_def)
qed

text \<open>C40: Without the hypothesis on positions the merge and the full selection disagree, and on every such input. Let
  \<open>c\<close> be the winner of its event in a selection over \<open>cs\<close>, no new candidate of the event have a higher revision, and
  a new one, \<open>d\<close>, have the same revision and an earlier position, as the action of a batch that commits later may. Then
  the merge keeps the row of \<open>c\<close>, while the full selection over \<open>cs\<close> and \<open>ds\<close> writes the row of a candidate of that
  revision at an earlier position than \<open>c\<close>: the two tables differ.\<close>

theorem merge_misses_earlier_twin:
  assumes "no_legacy (cs @ ds)"
    and "select_candidates cs = (sl_by_id s, active, sl_conflicts s)"
    and "select_candidates (cs @ ds) = (sl_by_id s', active', sl_conflicts s')"
    and "ss_effective rows = effective_rows s"
    and "dget (sl_by_id s) e = Some c"
    and "d \<in> set ds" and "ev_id d = e" and "ev_rev d = ev_rev c" and "ev_sequence d < ev_sequence c"
    and "\<forall>x \<in> set ds. ev_id x = e \<longrightarrow> ev_rev x \<le> ev_rev c"
  shows "\<exists>w hs hs'. row_at ef_event (merged_effective_rows rows (merge_candidates rows ds)) e = Some (event_row c hs)
    \<and> row_at ef_event (effective_rows s') e = Some (event_row w hs')
    \<and> wins (cs @ ds) e w \<and> ev_rev w = ev_rev c \<and> ev_sequence w < ev_sequence c
    \<and> merged_effective_rows rows (merge_candidates rows ds) \<noteq> effective_rows s'"
proof -
  have leg: "no_legacy cs" using assms(1) by (simp add: no_legacy_def)
  have c: "wins cs e c" using winners_spec(2) [OF leg, of "sl_by_id s"] assms(2,5) by simp
  then have cin: "c \<in> set cs" "ev_id c = e" by (simp_all add: wins_def)
  note prior_rows = selection_row_at [OF leg assms(2), folded assms(4)]
  let ?prior = "dict_by ef_event (ss_effective rows)" and ?ds = "sort_key ev_sequence ds"
  obtain hs where prior: "dget ?prior e = Some (event_row c hs)"
    using prior_rows(2) [of e] dget_dict_by [OF prior_rows(1)] assms(5) by simp
  obtain winners conflicts where m: "merge_candidates rows ds = (winners, conflicts)" by fastforce
  have "\<not> is_legacy_arming_state c" using assms(1) cin(1) by (simp add: no_legacy_def)
  then have "dget winners e = Some (event_row c None)"
    using merge_fold_keeps [OF prior cin(2), of ?ds] assms(6,7,10) m by (auto simp: merge_candidates_def named_def)
  moreover have "wf_dict winners" using merge_fold_wf [of ?prior ?ds] m by (simp add: merge_candidates_def)
  ultimately have merged: "row_at ef_event (merged_effective_rows rows (merge_candidates rows ds)) e
      = Some (written_row e (event_row c None) (dget_or conflicts e []))"
    using merged_row_at(2) [OF _ prior_rows(1), of winners conflicts e] m by simp
  have dsel: "dget (sl_by_id s') e \<noteq> None"
    using winners_spec(1) [OF assms(1), of "sl_by_id s'" e] assms(3,6,7) by fastforce
  then obtain w where w: "dget (sl_by_id s') e = Some w" by blast
  then have wins: "wins (cs @ ds) e w" using winners_spec(2) [OF assms(1), of "sl_by_id s'"] assms(3) by simp
  have "ev_rev w = ev_rev c" using wins c assms(6-8,10) unfolding wins_def by (metis Un_iff order.antisym set_append)
  moreover have "ev_sequence w \<le> ev_sequence d" using wins assms(6-8) calculation by (simp add: wins_def)
  moreover obtain hs' where full: "row_at ef_event (effective_rows s') e = Some (event_row w hs')"
    using selection_row_at(2) [OF assms(1,3), of e] w by simp
  moreover obtain hs'' where kept: "written_row e (event_row c None) (dget_or conflicts e []) = event_row c hs''"
    using cin(2) by (simp add: written_row_def event_row_def)
  moreover have "merged_effective_rows rows (merge_candidates rows ds) \<noteq> effective_rows s'"
  proof
    assume "merged_effective_rows rows (merge_candidates rows ds) = effective_rows s'"
    then have "event_row c hs'' = event_row w hs'" using merged full kept by simp
    then have "ef_sequence (event_row c hs'') = ef_sequence (event_row w hs')" by simp
    then show False using calculation(2) assms(9) by simp
  qed
  ultimately show ?thesis using merged wins assms(9) by auto
qed

theorem merge_misses_earlier_twin_witness:
  "let cs = [twin ''y'' 2]; ds = [twin ''x'' 1]; rows = twin_rows cs
   in merged_effective_rows rows (merge_candidates rows ds) \<noteq> effective_rows (twin_selection (cs @ ds))
      \<and> (\<exists>hs. row_at ef_event (merged_effective_rows rows (merge_candidates rows ds)) ''pm:1'' = Some (event_row (twin ''y'' 2) hs))"
proof -
  let ?cs = "[twin ''y'' 2]" and ?ds = "[twin ''x'' 1]"
  obtain a a' where "select_candidates ?cs = (sl_by_id (twin_selection ?cs), a, sl_conflicts (twin_selection ?cs))"
    "select_candidates (?cs @ ?ds) = (sl_by_id (twin_selection (?cs @ ?ds)), a', sl_conflicts (twin_selection (?cs @ ?ds)))"
    using twin_selection_parts by blast
  moreover have "no_legacy (?cs @ ?ds)" using twin_no_legacy by simp
  moreover have "dget (sl_by_id (twin_selection ?cs)) ''pm:1'' = Some (twin ''y'' 2)"
    by (simp add: twin_selection_def select_candidates_def group_step_def winner_step_def rev_key_def Let_def twin_def)
  ultimately have "\<exists>w hs hs'. row_at ef_event (merged_effective_rows (twin_rows ?cs) (merge_candidates (twin_rows ?cs) ?ds)) ''pm:1''
        = Some (event_row (twin ''y'' 2) hs)
      \<and> row_at ef_event (effective_rows (twin_selection (?cs @ ?ds))) ''pm:1'' = Some (event_row w hs')
      \<and> wins (?cs @ ?ds) ''pm:1'' w \<and> ev_rev w = ev_rev (twin ''y'' 2) \<and> ev_sequence w < ev_sequence (twin ''y'' 2)
      \<and> merged_effective_rows (twin_rows ?cs) (merge_candidates (twin_rows ?cs) ?ds) \<noteq> effective_rows (twin_selection (?cs @ ?ds))"
    by (intro merge_misses_earlier_twin [where d = "twin ''x'' 1", OF _ _ _ twin_rows_effective]) (simp_all add: twin_def)
  then show ?thesis unfolding Let_def by blast
qed

end
