(* ===== verification/Selector_Resume.thy ===== *)
theory Selector_Resume
  imports Selector_Merge
begin

text \<open>
  The stream side of the durable selector (\<open>_seed_fold\<close> in \<open>bin/_lib_selector_state.py\<close>): how the
  slots of a fold grow along the stream, when phase 2 taints a batch and that it never takes a taint
  back, and what the fold seeded from durable rows holds.
\<close>

section \<open>Well-formed slots\<close>

abbreviation markers_at :: "selector_fold \<Rightarrow> string \<Rightarrow> (string, marker_row) dict" where
  "markers_at f b \<equiv> dget_or (fd_markers f) b []"

abbreviation actions_at :: "selector_fold \<Rightarrow> string \<Rightarrow> (int, action_row) dict" where
  "actions_at f b \<equiv> dget_or (fd_actions f) b []"

definition slots_wf :: "selector_fold \<Rightarrow> bool" where
  "slots_wf f \<longleftrightarrow> (\<forall>b. wf_dict (markers_at f b) \<and> wf_dict (actions_at f b)
     \<and> (b \<in> set (dkeys (fd_markers f)) \<longleftrightarrow> (\<exists>p. mrow f b p \<noteq> None))
     \<and> (b \<in> set (dkeys (fd_actions f)) \<longleftrightarrow> (\<exists>s. arow f b s \<noteq> None)))"

definition marker_put :: "selector_fold \<Rightarrow> selector_fold \<Rightarrow> bool" where
  "marker_put f g \<longleftrightarrow> fd_markers g = fd_markers f
     \<or> (\<exists>b p m. fd_markers g = dset b (dset p m (markers_at f b)) (fd_markers f))"

definition action_put :: "selector_fold \<Rightarrow> selector_fold \<Rightarrow> bool" where
  "action_put f g \<longleftrightarrow> fd_actions g = fd_actions f
     \<or> (\<exists>b s a. fd_actions g = dset b (dset s a (actions_at f b)) (fd_actions f))"

lemma slots_wf_empty: "slots_wf empty_fold"
  by (simp add: slots_wf_def empty_fold_def dget_or_def mrow_def arow_def dkeys_def)

lemma slots_wf_step:
  assumes "slots_wf f" "marker_put f g" "action_put f g" shows "slots_wf g"
proof -
  have m: "wf_dict (markers_at g b) \<and> (b \<in> set (dkeys (fd_markers g)) \<longleftrightarrow> (\<exists>p. mrow g b p \<noteq> None))" for b
    using assms(1,2) unfolding marker_put_def
  proof (elim disjE exE)
    fix b' p' m' assume g: "fd_markers g = dset b' (dset p' m' (markers_at f b')) (fd_markers f)"
    have w: "wf_dict (markers_at f x)" "x \<in> set (dkeys (fd_markers f)) \<longleftrightarrow> (\<exists>p. mrow f x p \<noteq> None)" for x
      using assms(1) by (simp_all add: slots_wf_def)
    have row: "mrow g b p = (if b = b' \<and> p = p' then Some m' else mrow f b p)" for p
      by (simp add: mrow_def g dget_or_def dget_dset)
    show ?thesis
      using w [of b] w(1) [of b'] row by (auto simp: g dget_or_def dget_dset dkeys_dset)
  qed (simp add: slots_wf_def mrow_def)
  have a: "wf_dict (actions_at g b) \<and> (b \<in> set (dkeys (fd_actions g)) \<longleftrightarrow> (\<exists>s. arow g b s \<noteq> None))" for b
    using assms(1,3) unfolding action_put_def
  proof (elim disjE exE)
    fix b' s' a' assume g: "fd_actions g = dset b' (dset s' a' (actions_at f b')) (fd_actions f)"
    have w: "wf_dict (actions_at f x)" "x \<in> set (dkeys (fd_actions f)) \<longleftrightarrow> (\<exists>s. arow f x s \<noteq> None)" for x
      using assms(1) by (simp_all add: slots_wf_def)
    have row: "arow g b s = (if b = b' \<and> s = s' then Some a' else arow f b s)" for s
      by (simp add: arow_def g dget_or_def dget_dset)
    show ?thesis
      using w [of b] w(1) [of b'] row by (auto simp: g dget_or_def dget_dset dkeys_dset)
  qed (simp add: slots_wf_def arow_def)
  show ?thesis using m a by (simp add: slots_wf_def)
qed

lemma fold_marker_put:
  assumes "fold_marker H f r n = Inr g" shows "marker_put f g"
proof -
  obtain core where core: "validate_batch_marker r = Inr core" using assms by (auto simp: fold_marker_def rbind_Inr_iff)
  let ?b = "the_str (jget core ''id'')" and ?p = "the_str (jget r ''phase'')"
  show ?thesis
  proof (cases "dget (markers_at f ?b) ?p")
    case None
    then have "\<exists>m. fd_markers g = dset ?b (dset ?p m (markers_at f ?b)) (fd_markers f)"
      using assms core by (auto simp: fold_marker_def Let_def)
    then show ?thesis unfolding marker_put_def by blast
  next
    case (Some m)
    then show ?thesis using assms core by (auto simp: fold_marker_def Let_def marker_put_def split: if_splits)
  qed
qed

lemma fold_one_puts:
  assumes "fold_one H f j n = Inr g" shows "marker_put f g \<and> action_put f g"
proof -
  have "fd_markers g = fd_markers f \<or> (\<exists>r. fold_marker H f r n = Inr g)"
    using assms by (auto simp: fold_one_def fold_action_def rbind_Inr_iff Let_def
        split: json.splits if_splits option.splits)
  then have "marker_put f g" using fold_marker_put unfolding marker_put_def by metis
  moreover have "action_put f g" using fold_one_actions [OF assms] by (simp add: action_put_def)
  ultimately show ?thesis ..
qed

lemma fold_records_slots: "slots_wf f \<Longrightarrow> fold_records H f rs n = Inr (g, k) \<Longrightarrow> slots_wf g"
proof (induction rs arbitrary: f n)
  case (Cons r rs)
  then obtain h where h: "fold_one H f r n = Inr h" "fold_records H h rs (Suc n) = Inr (g, k)"
    by (auto simp: rbind_Inr_iff)
  then show ?case using Cons.IH slots_wf_step Cons.prems(1) fold_one_puts [OF h(1)] by blast
qed simp

lemma marker_keys: "set (dkeys (markers_at f b)) = {p. mrow f b p \<noteq> None}"
  using dget_None_iff [of "markers_at f b"] by (auto simp: mrow_def)

lemma action_keys: "set (dkeys (actions_at f b)) = {s. arow f b s \<noteq> None}"
  using dget_None_iff [of "actions_at f b"] by (auto simp: arow_def)

lemma sorted_marker_keys:
  assumes "slots_wf f" "slots_wf g" "\<And>p. mrow f b p = None \<longleftrightarrow> mrow g b p = None"
  shows "sort (dkeys (markers_at f b)) = sort (dkeys (markers_at g b))"
proof (rule sorted_distinct_set_unique)
  show "distinct (sort (dkeys (markers_at f b)))" "distinct (sort (dkeys (markers_at g b)))"
    using assms(1,2) by (simp_all add: slots_wf_def wf_dict_def dkeys_def)
  show "set (sort (dkeys (markers_at f b))) = set (sort (dkeys (markers_at g b)))"
    using assms(3) by (simp add: marker_keys)
qed simp_all

lemma sorted_action_keys:
  assumes "slots_wf f" "slots_wf g" "\<And>s. arow f b s = None \<longleftrightarrow> arow g b s = None"
  shows "sort (dkeys (actions_at f b)) = sort (dkeys (actions_at g b))"
proof (rule sorted_distinct_set_unique)
  show "distinct (sort (dkeys (actions_at f b)))" "distinct (sort (dkeys (actions_at g b)))"
    using assms(1,2) by (simp_all add: slots_wf_def wf_dict_def dkeys_def)
  show "set (sort (dkeys (actions_at f b))) = set (sort (dkeys (actions_at g b)))"
    using assms(3) by (simp add: action_keys)
qed simp_all

lemma batch_ids_iff: "slots_wf f \<Longrightarrow> b \<in> set (fold_batch_ids f) \<longleftrightarrow> (\<exists>p. mrow f b p \<noteq> None) \<or> (\<exists>s. arow f b s \<noteq> None)"
  by (simp add: fold_batch_ids_def slots_wf_def)

section \<open>Growth along the stream\<close>

definition grows :: "nat \<Rightarrow> selector_fold \<Rightarrow> selector_fold \<Rightarrow> bool" where
  "grows n f g \<longleftrightarrow>
     (\<forall>b p m. mrow f b p = Some m \<longrightarrow> mrow g b p = Some m)
   \<and> (\<forall>b s a. arow f b s = Some a \<longrightarrow> arow g b s = Some a)
   \<and> (\<forall>b p m. mrow g b p = Some m \<longrightarrow> mrow f b p = Some m \<or> n \<le> mk_sequence m)
   \<and> (\<forall>b s a. arow g b s = Some a \<longrightarrow> arow f b s = Some a \<or> n \<le> ac_sequence a)
   \<and> fd_tainted f \<subseteq> fd_tainted g"

lemma grows_refl: "grows n f f"
  by (simp add: grows_def)

lemma grows_trans: "grows n f g \<Longrightarrow> grows k g h \<Longrightarrow> n \<le> k \<Longrightarrow> grows n f h"
  unfolding grows_def by (meson order.trans subset_trans)

lemma fold_one_grows:
  assumes "fold_one H f j n = Inr g" shows "grows n f g"
  using assms
proof (cases rule: fold_one_cases)
  case (marker b p m)
  then show ?thesis by (auto simp: grows_def marker_of_def)
next
  case (action b s a)
  then show ?thesis by (auto simp: grows_def action_of_def)
qed (auto simp: grows_def)

lemma fold_records_grows: "fold_records H f rs n = Inr (g, k) \<Longrightarrow> grows n f g"
proof (induction rs arbitrary: f n)
  case (Cons r rs)
  then obtain h where h: "fold_one H f r n = Inr h" "fold_records H h rs (Suc n) = Inr (g, k)"
    by (auto simp: rbind_Inr_iff)
  then show ?case using grows_trans [OF fold_one_grows [OF h(1)] Cons.IH [OF h(2)]] by simp
qed (simp add: grows_refl)

section \<open>What taints a batch in phase 2\<close>

definition phase2_bad :: "(string \<Rightarrow> string) \<Rightarrow> selector_fold \<Rightarrow> string \<Rightarrow> bool" where
  "phase2_bad H f b = (case (mrow f b ''begin'', mrow f b ''commit'') of
     (None, Some _) \<Rightarrow> True
   | (Some x, Some y) \<Rightarrow> \<not> sound_rows H x y (actions_at f b)
   | _ \<Rightarrow> False)"

lemma resolve_batch_tainted:
  "b \<in> fd_tainted (resolve_batch H b f) \<longleftrightarrow> b \<in> fd_tainted f \<or> phase2_bad H f b"
  by (auto simp: resolve_batch_def phase2_bad_def mrow_def Let_def check_tainted split: option.splits)

lemma resolve_fold_tainted:
  "distinct ids \<Longrightarrow> b \<in> fd_tainted (fold (resolve_batch H) ids f)
     \<longleftrightarrow> b \<in> fd_tainted f \<or> b \<in> set ids \<and> phase2_bad H f b"
proof (induction ids arbitrary: f)
  case (Cons x ids)
  have "phase2_bad H (resolve_batch H x f) b = phase2_bad H f b"
    by (simp add: phase2_bad_def mrow_def resolve_batch_frame cong: option.case_cong)
  then show ?case
    using Cons resolve_batch_tainted [of x H f] resolve_batch_frame(3) [of b x H f] by auto
qed simp

lemma resolve_batches_tainted:
  "b \<in> fd_tainted (resolve_batches H (Some ids) f) \<longleftrightarrow> b \<in> fd_tainted f \<or> b \<in> set ids \<and> phase2_bad H f b"
  by (simp add: resolve_batches_def resolve_fold_tainted)

lemma resolve_batches_rows:
  "fd_markers (resolve_batches H ids f) = fd_markers f" "fd_actions (resolve_batches H ids f) = fd_actions f"
proof -
  have "fd_markers (fold (resolve_batch H) xs f) = fd_markers f \<and> fd_actions (fold (resolve_batch H) xs f) = fd_actions f"
    for xs by (induction xs arbitrary: f) (simp_all add: resolve_batch_frame)
  then show "fd_markers (resolve_batches H ids f) = fd_markers f" "fd_actions (resolve_batches H ids f) = fd_actions f"
    by (simp_all add: resolve_batches_def)
qed

lemma batch_sound_iff: "batch_sound H f b \<longleftrightarrow> b \<notin> fd_tainted f
    \<and> (\<exists>x y. mrow f b ''begin'' = Some x \<and> mrow f b ''commit'' = Some y \<and> sound_rows H x y (actions_at f b))"
  by (simp add: batch_sound_def mrow_def)

text \<open>A phase-2 taint is never undone by later records: the rows it was decided on stay, and a
  record that could repair it comes too late for the order check.\<close>

lemma sound_rows_late:
  assumes "grows n f g" and bound: "mk_sequence y < n"
    and sound: "sound_rows H x y (actions_at g b)" and wf: "slots_wf f" "slots_wf g"
  shows "sound_rows H x y (actions_at f b)"
proof -
  let ?n = "the_int (jget (mk_core x) ''action_count'')"
  have keys: "sort (dkeys (actions_at g b)) = py_range ?n" using sound by (simp add: sound_rows_def Let_def)
  have old: "arow f b s = arow g b s" for s
  proof (cases "arow g b s")
    case None
    then show ?thesis using assms(1) unfolding grows_def by (metis not_Some_eq)
  next
    case (Some a)
    then have "s \<in> set (py_range ?n)" using keys action_keys [of g b] by (metis (mono_tags) mem_Collect_eq option.distinct(1) set_sort)
    then have "ac_sequence a < mk_sequence y"
      using sound Some by (auto simp: sound_rows_def Let_def arow_def)
    then show ?thesis using assms(1) Some bound unfolding grows_def by fastforce
  qed
  then have "sort (dkeys (actions_at f b)) = py_range ?n" using sorted_action_keys [OF wf] keys by simp
  moreover have "the (dget (actions_at f b) s) = the (dget (actions_at g b) s)" for s
    using old [of s] by (simp add: arow_def)
  ultimately show ?thesis using sound by (simp add: sound_rows_def Let_def)
qed

lemma phase2_bad_stays:
  assumes bad: "phase2_bad H f b" and grow: "grows n f g" and wf: "slots_wf f" "slots_wf g"
    and bound: "\<And>p m. mrow f b p = Some m \<Longrightarrow> mk_sequence m < n"
  shows "\<not> batch_sound H g b"
proof
  assume "batch_sound H g b"
  then obtain x y where xy: "mrow g b ''begin'' = Some x" "mrow g b ''commit'' = Some y"
      "sound_rows H x y (actions_at g b)" by (auto simp: batch_sound_iff)
  then have order: "mk_sequence x < mk_sequence y" by (simp add: sound_rows_def Let_def)
  obtain y' where y': "mrow f b ''commit'' = Some y'" using bad by (auto simp: phase2_bad_def split: option.splits)
  then have "y' = y" using xy(2) grow unfolding grows_def by (metis option.inject)
  then have y: "mrow f b ''commit'' = Some y" "mk_sequence y < n" using y' bound by blast+
  then have "mrow f b ''begin'' = Some x" using grow xy(1) order unfolding grows_def by fastforce
  moreover have "sound_rows H x y (actions_at f b)" using sound_rows_late [OF grow y(2) xy(3) wf] .
  ultimately show False using bad y(1) by (simp add: phase2_bad_def)
qed

section \<open>The seeded fold\<close>

lemma dec_value_snoc: "dec_value (s @ [c]) = 10 * dec_value s + (int (of_char c) - 48)"
  by (simp add: dec_value_def)

lemma dec_value_nat_str: "dec_value (nat_str n) = int n"
proof (induction n rule: nat_str.induct)
  case (1 n)
  show ?case
  proof (cases "n < 10")
    case True
    then show ?thesis by (subst nat_str.simps) (simp add: dec_value_def)
  next
    case False
    have digit: "of_char (char_of (48 + n mod 10) :: char) = 48 + n mod 10" by simp
    have "nat_str n = nat_str (n div 10) @ [char_of (48 + n mod 10)]"
      using False by (subst nat_str.simps) simp
    then have "dec_value (nat_str n) = 10 * int (n div 10) + int (n mod 10)"
      using 1 [OF False] digit by (simp only: dec_value_snoc)
    also have "\<dots> = int (10 * (n div 10) + n mod 10)" by (simp only: of_nat_add of_nat_mult of_nat_numeral)
    also have "\<dots> = int n" by (simp only: mult_div_mod_eq)
    finally show ?thesis .
  qed
qed

lemma dec_value_int_str: "0 \<le> i \<Longrightarrow> dec_value (int_str i) = i"
  by (simp add: int_str_def dec_value_nat_str)

definition record_marker :: "(string, batch_row) dict \<Rightarrow> batch_record_row \<Rightarrow> marker_row" where
  "record_marker by_batch r = (let core = (\<lambda>field. case dget by_batch (rr_batch r) of None \<Rightarrow> JNull | Some b \<Rightarrow> field b)
     in \<lparr>mk_core = [(''action_count'', core br_action_count), (''actions_hash'', core br_action_set_hash)],
         mk_digest = rr_digest r, mk_identity = (case rr_identity r of None \<Rightarrow> [] | Some i \<Rightarrow> i),
         mk_sequence = rr_sequence r\<rparr>)"

definition record_action :: "batch_record_row \<Rightarrow> action_row" where
  "record_action r = \<lparr>ac_record = (case rr_core r of None \<Rightarrow> []
       | Some core \<Rightarrow> restore_action (rr_batch r) (dec_value (rr_key r)) core),
     ac_digest = rr_digest r, ac_sequence = rr_sequence r\<rparr>"

definition is_marker :: "string \<Rightarrow> string \<Rightarrow> batch_record_row \<Rightarrow> bool" where
  "is_marker b p r \<longleftrightarrow> rr_kind r = ''marker'' \<and> rr_batch r = b \<and> rr_key r = p"

definition is_action :: "string \<Rightarrow> int \<Rightarrow> batch_record_row \<Rightarrow> bool" where
  "is_action b s r \<longleftrightarrow> rr_kind r \<noteq> ''marker'' \<and> rr_batch r = b \<and> dec_value (rr_key r) = s"

lemma seed_record_rows:
  "mrow (seed_record bb f r) b p = (if is_marker b p r then Some (record_marker bb r) else mrow f b p)"
  "arow (seed_record bb f r) b s = (if is_action b s r then Some (record_action r) else arow f b s)"
  by (auto simp: seed_record_def Let_def mrow_def arow_def dget_or_def dget_dset is_marker_def is_action_def
      record_marker_def record_action_def)

lemma seed_record_frame:
  "fd_tainted (seed_record bb f r) = fd_tainted f" "fd_completed (seed_record bb f r) = fd_completed f"
  "fd_candidates (seed_record bb f r) = fd_candidates f" "fd_resolutions (seed_record bb f r) = fd_resolutions f"
  "marker_put f (seed_record bb f r)" "action_put f (seed_record bb f r)"
  by (auto simp: seed_record_def Let_def marker_put_def action_put_def)

lemma seed_records_frame:
  "fd_tainted (foldl (seed_record bb) f xs) = fd_tainted f
   \<and> fd_completed (foldl (seed_record bb) f xs) = fd_completed f
   \<and> fd_candidates (foldl (seed_record bb) f xs) = fd_candidates f
   \<and> fd_resolutions (foldl (seed_record bb) f xs) = fd_resolutions f
   \<and> (slots_wf f \<longrightarrow> slots_wf (foldl (seed_record bb) f xs))"
proof (induction xs arbitrary: f)
  case (Cons x xs)
  then show ?case
    using slots_wf_step [of f "seed_record bb f x"] seed_record_frame [where bb = bb and f = f and r = x] by simp
qed simp

lemma seed_records_mrow:
  assumes "\<And>r. r \<in> set xs \<Longrightarrow> is_marker b p r \<Longrightarrow> record_marker bb r = m"
  shows "mrow (foldl (seed_record bb) f xs) b p = (if \<exists>r \<in> set xs. is_marker b p r then Some m else mrow f b p)"
  using assms by (induction xs arbitrary: f) (auto simp: seed_record_rows)

lemma seed_records_arow:
  assumes "\<And>r. r \<in> set xs \<Longrightarrow> is_action b s r \<Longrightarrow> record_action r = a"
  shows "arow (foldl (seed_record bb) f xs) b s = (if \<exists>r \<in> set xs. is_action b s r then Some a else arow f b s)"
  using assms by (induction xs arbitrary: f) (auto simp: seed_record_rows)

lemma seed_statuses:
  "fd_markers (foldl seed_status f bs) = fd_markers f \<and> fd_actions (foldl seed_status f bs) = fd_actions f
   \<and> fd_candidates (foldl seed_status f bs) = fd_candidates f \<and> fd_resolutions (foldl seed_status f bs) = fd_resolutions f
   \<and> fd_tainted (foldl seed_status f bs) = fd_tainted f \<union> {b. \<exists>r \<in> set bs. br_batch r = b \<and> br_status r = Tainted}
   \<and> fd_completed (foldl seed_status f bs) = fd_completed f \<union> {b. \<exists>r \<in> set bs. br_batch r = b \<and> br_status r = Completed}"
proof (induction bs arbitrary: f)
  case (Cons x bs)
  then show ?case by (auto simp: seed_status_def split: batch_state.splits)
qed simp

text \<open>What a slot of the resolved prefix looks like after a round trip through the rows.\<close>

definition begin_field :: "selector_fold \<Rightarrow> string \<Rightarrow> string \<Rightarrow> json" where
  "begin_field f b k = (case mrow f b ''begin'' of None \<Rightarrow> JNull | Some m \<Rightarrow> jget (mk_core m) k)"

definition seed_marker :: "selector_fold \<Rightarrow> string \<Rightarrow> marker_row \<Rightarrow> marker_row" where
  "seed_marker f b m = m\<lparr>mk_core := [(''action_count'', begin_field f b ''action_count''),
     (''actions_hash'', begin_field f b ''actions_hash'')]\<rparr>"

definition seed_action :: "selector_fold \<Rightarrow> string \<Rightarrow> int \<Rightarrow> action_row \<Rightarrow> action_row" where
  "seed_action f b s a = a\<lparr>ac_record := (if batch_status f b = Completed \<or> ac_record a = [] then []
     else restore_action b s (correction_action_core (ac_record a)))\<rparr>"

lemma record_rows_set:
  "slots_wf f \<Longrightarrow> r \<in> set (snd (batch_rows f c)) \<longleftrightarrow>
     (\<exists>b p m. mrow f b p = Some m \<and> r = marker_record_row b p m)
   \<or> (\<exists>b s a. arow f b s = Some a \<and> r = action_record_row b (batch_status f b) s a)"
proof -
  assume wf: "slots_wf f"
  have "r \<in> set (record_rows_of f b) \<longleftrightarrow> (\<exists>p m. mrow f b p = Some m \<and> r = marker_record_row b p m)
   \<or> (\<exists>s a. arow f b s = Some a \<and> r = action_record_row b (batch_status f b) s a)" for b
  proof -
    have "r \<in> (\<lambda>p. marker_record_row b p (the (mrow f b p))) ` {p. mrow f b p \<noteq> None}
        \<longleftrightarrow> (\<exists>p m. mrow f b p = Some m \<and> r = marker_record_row b p m)" by force
    moreover have "r \<in> (\<lambda>s. action_record_row b (batch_status f b) s (the (arow f b s))) ` {s. arow f b s \<noteq> None}
        \<longleftrightarrow> (\<exists>s a. arow f b s = Some a \<and> r = action_record_row b (batch_status f b) s a)" by force
    ultimately show ?thesis
      by (simp add: record_rows_of_def Let_def marker_keys action_keys flip: mrow_def arow_def)
  qed
  then have "r \<in> set (snd (batch_rows f c)) \<longleftrightarrow> (\<exists>b \<in> set (fold_batch_ids f).
      (\<exists>p m. mrow f b p = Some m \<and> r = marker_record_row b p m)
    \<or> (\<exists>s a. arow f b s = Some a \<and> r = action_record_row b (batch_status f b) s a))"
    by (simp add: batch_rows_def)
  also have "\<dots> \<longleftrightarrow> (\<exists>b p m. mrow f b p = Some m \<and> r = marker_record_row b p m)
   \<or> (\<exists>b s a. arow f b s = Some a \<and> r = action_record_row b (batch_status f b) s a)"
    unfolding Bex_def batch_ids_iff [OF wf] by blast
  finally show ?thesis .
qed

lemma batch_row_fields:
  "br_batch (batch_row_of f c b) = b" "br_status (batch_row_of f c b) = batch_status f b"
  "br_action_count (batch_row_of f c b) = begin_field f b ''action_count''"
  "br_action_set_hash (batch_row_of f c b) = begin_field f b ''actions_hash''"
  by (simp_all add: batch_row_of_def Let_def begin_field_def mrow_def split: prod.splits)

lemma by_batch_lookup:
  "dget (dict_by br_batch (map (batch_row_of f c) (fold_batch_ids f))) b
     = (if b \<in> set (fold_batch_ids f) then Some (batch_row_of f c b) else None)"
proof -
  have ids: "map br_batch (map (batch_row_of f c) (fold_batch_ids f)) = fold_batch_ids f"
    by (simp add: comp_def batch_row_fields)
  have dist: "distinct (map br_batch (map (batch_row_of f c) (fold_batch_ids f)))"
    unfolding ids by (simp add: fold_batch_ids_def)
  show ?thesis
  proof (cases "b \<in> set (fold_batch_ids f)")
    case True
    then show ?thesis
      using row_at_Some [OF dist, of b "batch_row_of f c b"] dget_dict_by [OF dist, of b] by (simp add: batch_row_fields)
  next
    case False
    then have "b \<notin> br_batch ` set (map (batch_row_of f c) (fold_batch_ids f))" unfolding list.set_map [symmetric] ids .
    then show ?thesis
      using False row_at_None [of br_batch "map (batch_row_of f c) (fold_batch_ids f)" b] dget_dict_by [OF dist, of b] by simp
  qed
qed

definition prefix_rows :: "selector_fold \<Rightarrow> coordinates \<Rightarrow> selector_rows \<Rightarrow> bool" where
  "prefix_rows f c rows \<longleftrightarrow> ss_batches rows = fst (batch_rows f c) \<and> ss_records rows = snd (batch_rows f c)"

lemma slot_kinds:
  "is_marker b p (marker_record_row b' p' m) \<longleftrightarrow> b' = b \<and> p' = p"
  "\<not> is_marker b p (action_record_row b' st s' a)" "\<not> is_action b s (marker_record_row b' p' m)"
  "is_action b s (action_record_row b' st s' a) \<longleftrightarrow> b' = b \<and> dec_value (int_str s') = s"
  "marker_record_row b' p' m \<noteq> action_record_row b st s a"
  "action_record_row b st s a \<noteq> marker_record_row b' p' m"
  by (auto simp: is_marker_def is_action_def marker_record_row_def action_record_row_def)

lemma marker_record_row_inj: "marker_record_row b p m = marker_record_row b' p' m' \<Longrightarrow> b' = b \<and> p' = p"
  by (simp add: marker_record_row_def)

lemma seed_fold_slots:
  assumes wf: "slots_wf f" and pos: "\<And>b s a. arow f b s = Some a \<Longrightarrow> 0 \<le> s" and rows: "prefix_rows f c rows"
  shows "mrow (seed_fold rows) b p = map_option (seed_marker f b) (mrow f b p)"
    and "arow (seed_fold rows) b s = map_option (seed_action f b s) (arow f b s)"
proof -
  let ?bb = "dict_by br_batch (ss_batches rows)"
  let ?recs = "ss_records rows"
  have set_recs: "r \<in> set ?recs \<longleftrightarrow> (\<exists>b p m. mrow f b p = Some m \<and> r = marker_record_row b p m)
      \<or> (\<exists>b s a. arow f b s = Some a \<and> r = action_record_row b (batch_status f b) s a)" for r
    using record_rows_set [OF wf, of r c] rows by (simp add: prefix_rows_def)
  have bb: "dget ?bb b = (if b \<in> set (fold_batch_ids f) then Some (batch_row_of f c b) else None)" for b
    using by_batch_lookup [of f c b] rows by (simp add: prefix_rows_def batch_rows_def)
  have keep: "mrow (seed_fold rows) = mrow (foldl (seed_record ?bb) empty_fold ?recs)"
    "arow (seed_fold rows) = arow (foldl (seed_record ?bb) empty_fold ?recs)"
    using seed_statuses [of "foldl (seed_record ?bb) empty_fold ?recs" "ss_batches rows"]
    by (simp_all add: seed_fold_def fun_eq_iff mrow_def arow_def)
  have empty: "mrow empty_fold b p = None" "arow empty_fold b s = None"
    by (simp_all add: mrow_def arow_def empty_fold_def dget_or_def)
  have mm: "is_marker b p r \<longleftrightarrow> (\<exists>m. mrow f b p = Some m \<and> r = marker_record_row b p m)" if "r \<in> set ?recs" for r
    using set_recs [THEN iffD1, OF that]
  proof (elim disjE exE conjE)
    fix b' p' m assume m: "mrow f b' p' = Some m" "r = marker_record_row b' p' m"
    then have "is_marker b p r \<longleftrightarrow> b' = b \<and> p' = p" by (simp add: slot_kinds)
    moreover have "b' = b \<and> p' = p" if "r = marker_record_row b p m'" for m'
      by (rule marker_record_row_inj [of b p m' b' p' m]) (simp only: that [symmetric] m(2) [symmetric])
    ultimately show ?thesis using m by blast
  next
    fix b' s' a assume "r = action_record_row b' (batch_status f b') s' a"
    then have "\<not> is_marker b p r" "\<And>m'. r \<noteq> marker_record_row b p m'" by (simp_all only: slot_kinds not_False_eq_True)
    then show ?thesis by blast
  qed
  have aa: "is_action b s r \<longleftrightarrow> (\<exists>a. arow f b s = Some a \<and> r = action_record_row b (batch_status f b) s a)"
    if "r \<in> set ?recs" for r
    using set_recs [THEN iffD1, OF that]
  proof (elim disjE exE conjE)
    fix b' s' a assume a: "arow f b' s' = Some a" "r = action_record_row b' (batch_status f b') s' a"
    then have "is_action b s r \<longleftrightarrow> b' = b \<and> s' = s" using pos [OF a(1)] by (simp add: slot_kinds dec_value_int_str)
    moreover have "b' = b \<and> int_str s' = int_str s" if "r = action_record_row b (batch_status f b) s a'" for a'
      using that a(2) by (simp add: action_record_row_def)
    then have "b' = b \<and> s' = s" if "r = action_record_row b (batch_status f b) s a'" "arow f b s = Some a'" for a'
      using that pos [OF a(1)] pos [OF that(2)] dec_value_int_str by metis
    ultimately show ?thesis using a by blast
  next
    fix b' p' m assume "r = marker_record_row b' p' m"
    then have "\<not> is_action b s r" "\<And>a'. r \<noteq> action_record_row b (batch_status f b) s a'"
      by (simp_all only: slot_kinds not_False_eq_True)
    then show ?thesis by blast
  qed
  show "mrow (seed_fold rows) b p = map_option (seed_marker f b) (mrow f b p)"
  proof (cases "mrow f b p")
    case None
    then have "\<not> (\<exists>r \<in> set ?recs. is_marker b p r)" using mm by simp
    then show ?thesis
      using None seed_records_mrow [of ?recs b p ?bb undefined empty_fold] empty keep by auto
  next
    case (Some m)
    have "b \<in> set (fold_batch_ids f)" using Some batch_ids_iff [OF wf] by blast
    then have "record_marker ?bb (marker_record_row b p m) = seed_marker f b m"
      by (simp add: record_marker_def marker_record_row_def seed_marker_def bb batch_row_fields Let_def)
    moreover have "marker_record_row b p m \<in> set ?recs" using Some set_recs by blast
    ultimately show ?thesis
      using Some seed_records_mrow [of ?recs b p ?bb "seed_marker f b m" empty_fold] mm keep by auto
  qed
  show "arow (seed_fold rows) b s = map_option (seed_action f b s) (arow f b s)"
  proof (cases "arow f b s")
    case None
    then have "\<not> (\<exists>r \<in> set ?recs. is_action b s r)" using aa by simp
    then show ?thesis
      using None seed_records_arow [of ?recs b s undefined ?bb empty_fold] empty keep by auto
  next
    case (Some a)
    have "record_action (action_record_row b (batch_status f b) s a) = seed_action f b s a"
      using pos [OF Some] by (simp add: record_action_def action_record_row_def seed_action_def dec_value_int_str)
    moreover have "action_record_row b (batch_status f b) s a \<in> set ?recs" using Some set_recs by blast
    ultimately show ?thesis
      using Some seed_records_arow [of ?recs b s "seed_action f b s a" ?bb empty_fold] aa keep by auto
  qed
qed

lemma seed_fold_rest:
  assumes "slots_wf f" and rows: "prefix_rows f c rows"
  shows "slots_wf (seed_fold rows)" "fd_candidates (seed_fold rows) = []" "fd_resolutions (seed_fold rows) = []"
    "fd_tainted (seed_fold rows) = {b \<in> set (fold_batch_ids f). batch_status f b = Tainted}"
    "fd_completed (seed_fold rows) = {b \<in> set (fold_batch_ids f). batch_status f b = Completed}"
    "set (completed_ids rows) = {b \<in> set (fold_batch_ids f). batch_status f b = Completed}"
proof -
  let ?bb = "dict_by br_batch (ss_batches rows)"
  let ?s = "foldl (seed_record ?bb) empty_fold (ss_records rows)"
  have bs: "ss_batches rows = map (batch_row_of f c) (fold_batch_ids f)"
    using rows by (simp add: prefix_rows_def batch_rows_def)
  note s = seed_records_frame [of ?bb empty_fold "ss_records rows"]
  note t = seed_statuses [of ?s "ss_batches rows"]
  have slots: "slots_wf ?s" using s slots_wf_empty by blast
  have "marker_put ?s (seed_fold rows)" "action_put ?s (seed_fold rows)"
    using t by (simp_all add: seed_fold_def marker_put_def action_put_def)
  then show "slots_wf (seed_fold rows)" using slots_wf_step [OF slots] by blast
  show "fd_candidates (seed_fold rows) = []" "fd_resolutions (seed_fold rows) = []"
    "fd_tainted (seed_fold rows) = {b \<in> set (fold_batch_ids f). batch_status f b = Tainted}"
    "fd_completed (seed_fold rows) = {b \<in> set (fold_batch_ids f). batch_status f b = Completed}"
    using s t by (auto simp: seed_fold_def empty_fold_def bs batch_row_fields)
  show "set (completed_ids rows) = {b \<in> set (fold_batch_ids f). batch_status f b = Completed}"
  proof -
    have "filter (\<lambda>r. br_status r = Completed) (map (batch_row_of f c) xs)
        = map (batch_row_of f c) (filter (\<lambda>b. batch_status f b = Completed) xs)" for xs
      by (induction xs) (simp_all add: batch_row_fields)
    then have "completed_ids rows = filter (\<lambda>b. batch_status f b = Completed) (fold_batch_ids f)"
      by (simp add: completed_ids_def bs comp_def batch_row_fields)
    then show ?thesis by simp
  qed
qed

end
