(* ===== verification/Selector_Sim.thy ===== *)
theory Selector_Sim
  imports Selector_Resume
begin

text \<open>
  The fold seeded from the durable rows of a prefix (\<open>_seed_fold\<close> in \<open>bin/_lib_selector_state.py\<close>)
  simulates the fold of the prefix itself, record by record, and batches in related folds get the same verdict.
\<close>

section \<open>The simulation\<close>

definition marker_alike :: "string \<Rightarrow> marker_row \<Rightarrow> marker_row \<Rightarrow> bool" where
  "marker_alike p m m' \<longleftrightarrow> mk_digest m' = mk_digest m \<and> mk_identity m' = mk_identity m
     \<and> mk_sequence m' = mk_sequence m
     \<and> (p = ''begin'' \<longrightarrow> (\<forall>k \<in> {''action_count'', ''actions_hash''}. jget (mk_core m') k = jget (mk_core m) k))"

definition action_alike :: "bool \<Rightarrow> action_row \<Rightarrow> action_row \<Rightarrow> bool" where
  "action_alike kept a a' \<longleftrightarrow> ac_digest a' = ac_digest a \<and> ac_sequence a' = ac_sequence a
     \<and> (kept \<longrightarrow> ac_record a \<noteq> [] \<and> ac_record a' \<noteq> []
        \<and> correction_action_core (ac_record a') = correction_action_core (ac_record a)
        \<and> jget (ac_record a') ''batch'' = jget (ac_record a) ''batch'')"

record resume =
  rm_done :: "string set"
  rm_tainted :: "string set"
  rm_candidates :: "effective_event list"
  rm_resolutions :: "(nat \<times> resolution) list"

definition sim :: "resume \<Rightarrow> selector_fold \<Rightarrow> selector_fold \<Rightarrow> bool" where
  "sim z g s \<longleftrightarrow>
     (\<forall>b p. rel_option (marker_alike p) (mrow g b p) (mrow s b p))
   \<and> (\<forall>b k. rel_option (action_alike (b \<notin> rm_done z)) (arow g b k) (arow s b k))
   \<and> fd_tainted s = fd_tainted g \<union> rm_tainted z
   \<and> fd_candidates g = rm_candidates z @ fd_candidates s
   \<and> fd_resolutions g = rm_resolutions z @ fd_resolutions s"

lemma marker_alike_refl [simp]: "marker_alike p m m" by (simp add: marker_alike_def)

lemma fold_marker_sim:
  assumes sim: "sim z g s" and step: "fold_marker H s r n = Inr s'"
  shows "\<exists>g'. fold_marker H g r n = Inr g' \<and> sim z g' s'"
proof -
  obtain core where core: "validate_batch_marker r = Inr core" using step by (auto simp: fold_marker_def rbind_Inr_iff)
  let ?b = "the_str (jget core ''id'')" and ?p = "the_str (jget r ''phase'')"
  have rel: "rel_option (marker_alike ?p) (mrow g ?b ?p) (mrow s ?b ?p)" using sim by (simp add: sim_def)
  show ?thesis
  proof (cases "mrow g ?b ?p")
    case None
    then have none: "dget (markers_at g ?b) ?p = None" "dget (markers_at s ?b) ?p = None"
      using rel by (simp_all add: mrow_def)
    define m where "m = \<lparr>mk_core = core, mk_digest = sha256_canonical H (JObj r),
      mk_identity = sha256_canonical H (JObj (dwithout [''phase''] r)), mk_sequence = n\<rparr>"
    let ?g = "g\<lparr>fd_markers := dset ?b (dset ?p m (markers_at g ?b)) (fd_markers g)\<rparr>"
    have s': "s' = s\<lparr>fd_markers := dset ?b (dset ?p m (markers_at s ?b)) (fd_markers s)\<rparr>"
      using step core none by (simp add: fold_marker_def Let_def m_def)
    have "fold_marker H g r n = Inr ?g" using core none by (simp add: fold_marker_def Let_def m_def)
    moreover have "arow (f\<lparr>fd_markers := x\<rparr>) = arow f" for f x by (simp add: fun_eq_iff arow_def)
    then have "sim z ?g s'" using sim by (simp add: sim_def s' mrow_update)
    ultimately show ?thesis by blast
  next
    case (Some m)
    then obtain m' where m: "dget (markers_at g ?b) ?p = Some m" "dget (markers_at s ?b) ?p = Some m'"
        "marker_alike ?p m m'"
      using rel by (auto simp: mrow_def option_rel_Some1)
    let ?v = "protocol_violation ?b ''marker_conflict'' [(''phase'', JStr ?p), (''firstRecordHash'', JStr (mk_digest m)),
      (''conflictingRecordHash'', JStr (sha256_canonical H (JObj r)))]"
    let ?t = "\<lambda>f. if mk_digest m = sha256_canonical H (JObj r) then f else taint H ?v (max (mk_sequence m) n) f"
    have same: "mk_digest m' = mk_digest m" "mk_sequence m' = mk_sequence m" using m(3) by (simp_all add: marker_alike_def)
    have "s' = ?t s" using step core m(2) same by (auto simp: fold_marker_def Let_def split: if_splits)
    moreover have "fold_marker H g r n = Inr (?t g)" using core m by (simp add: fold_marker_def Let_def)
    moreover have "sim z (?t g) (?t s)" using sim by (simp add: sim_def mrow_def arow_def)
    ultimately show ?thesis by blast
  qed
qed

lemma validated_nonempty: "validate_correction_record r = Inr rec \<Longrightarrow> rec \<noteq> []"
  by (auto simp: validate_correction_record_def rbind_Inr_iff)

lemma fold_action_sim:
  assumes sim: "sim z g s" and step: "fold_action H s r n = Inr s'"
  shows "\<exists>g'. fold_action H g r n = Inr g' \<and> sim z g' s'"
proof -
  obtain rec where rec: "validate_correction_record r = Inr rec" using step by (auto simp: fold_action_def rbind_Inr_iff)
  let ?b = "the_str (jget rec ''batch'')" and ?k = "the_int (jget rec ''seq'')"
  have rel: "rel_option (action_alike (?b \<notin> rm_done z)) (arow g ?b ?k) (arow s ?b ?k)" using sim by (simp add: sim_def)
  show ?thesis
  proof (cases "arow g ?b ?k")
    case None
    then have none: "dget (actions_at g ?b) ?k = None" "dget (actions_at s ?b) ?k = None"
      using rel by (simp_all add: arow_def)
    define a where "a = \<lparr>ac_record = rec, ac_digest = sha256_canonical H (JObj r), ac_sequence = n\<rparr>"
    let ?g = "g\<lparr>fd_actions := dset ?b (dset ?k a (actions_at g ?b)) (fd_actions g)\<rparr>"
    have s': "s' = s\<lparr>fd_actions := dset ?b (dset ?k a (actions_at s ?b)) (fd_actions s)\<rparr>"
      using step rec none by (simp add: fold_action_def Let_def a_def)
    have "fold_action H g r n = Inr ?g" using rec none by (simp add: fold_action_def Let_def a_def)
    moreover have "mrow (f\<lparr>fd_actions := x\<rparr>) = mrow f" for f x by (simp add: fun_eq_iff mrow_def)
    moreover have "action_alike kept a a" for kept using validated_nonempty [OF rec] by (simp add: action_alike_def a_def)
    ultimately have "fold_action H g r n = Inr ?g \<and> sim z ?g s'" using sim by (simp add: sim_def s' arow_update)
    then show ?thesis by blast
  next
    case (Some a)
    then obtain a' where a: "dget (actions_at g ?b) ?k = Some a" "dget (actions_at s ?b) ?k = Some a'"
        "action_alike (?b \<notin> rm_done z) a a'"
      using rel by (auto simp: arow_def option_rel_Some1)
    let ?v = "protocol_violation ?b ''action_sequence_conflict'' [(''actionSequence'', JInt ?k),
      (''firstRecordHash'', JStr (ac_digest a)), (''conflictingRecordHash'', JStr (sha256_canonical H (JObj r)))]"
    let ?t = "\<lambda>f. if ac_digest a = sha256_canonical H (JObj r) then f else taint H ?v (max (ac_sequence a) n) f"
    have same: "ac_digest a' = ac_digest a" "ac_sequence a' = ac_sequence a" using a(3) by (simp_all add: action_alike_def)
    have "s' = ?t s" using step rec a(2) same by (auto simp: fold_action_def Let_def split: if_splits)
    moreover have "fold_action H g r n = Inr (?t g)" using rec a by (simp add: fold_action_def Let_def)
    moreover have "sim z (?t g) (?t s)" using sim by (simp add: sim_def mrow_def arow_def)
    ultimately show ?thesis by blast
  qed
qed

lemma fold_one_sim:
  assumes sim: "sim z g s" and step: "fold_one H s j n = Inr s'"
  shows "\<exists>g'. fold_one H g j n = Inr g' \<and> sim z g' s'"
proof (cases "\<exists>r. j = JObj r")
  case False
  then have "fold_one H f j n = Inr f" for f by (auto simp: fold_one_def split: json.splits)
  then show ?thesis using sim step by simp
next
  case True
  then obtain r where j: "j = JObj r" by blast
  have app: "sim z (g\<lparr>fd_candidates := fd_candidates g @ cs, fd_resolutions := fd_resolutions g @ rs\<rparr>)
      (s\<lparr>fd_candidates := fd_candidates s @ cs, fd_resolutions := fd_resolutions s @ rs\<rparr>)" for cs rs
    using sim by (simp add: sim_def mrow_def arow_def)
  show ?thesis
  proof (cases "jget r ''t'' = JStr ''evt''")
    case True
    then obtain c where c: "candidate_from_evt H r n = Inr c" "s' = s\<lparr>fd_candidates := fd_candidates s @ [c]\<rparr>"
      using step by (auto simp: fold_one_def j rbind_Inr_iff)
    then show ?thesis using True app [where cs = "[c]" and rs = "[]"] by (simp add: fold_one_def j)
  next
    case evt: False
    then obtain res where res: "is_protocol_resolution j = Inr res"
      using step by (auto simp: fold_one_def j rbind_Inr_iff)
    show ?thesis
    proof (cases res)
      case True
      then obtain x where x: "validate_protocol_resolution H r = Inr x"
          "s' = s\<lparr>fd_resolutions := fd_resolutions s @ [(n, x)]\<rparr>"
        using step evt res by (auto simp: fold_one_def j rbind_Inr_iff)
      then show ?thesis using True evt res app [where cs = "[]" and rs = "[(n, x)]"] by (simp add: fold_one_def j)
    next
      case False
      then have "fold_one H f j n = (if jget r ''t'' = JStr ''correction_batch'' then fold_marker H f r n
          else if jget r ''t'' = JStr ''correction'' then fold_action H f r n else Inr f)" for f
        using evt res by (simp add: fold_one_def j)
      then show ?thesis
        using step sim fold_marker_sim [OF sim] fold_action_sim [OF sim] by (simp split: if_splits)
    qed
  qed
qed

lemma fold_records_sim:
  "sim z g s \<Longrightarrow> fold_records H s rs n = Inr (s', k) \<Longrightarrow> \<exists>g'. fold_records H g rs n = Inr (g', k) \<and> sim z g' s'"
proof (induction rs arbitrary: g s n)
  case (Cons r rs)
  then obtain t where t: "fold_one H s r n = Inr t" "fold_records H t rs (Suc n) = Inr (s', k)"
    by (auto simp: rbind_Inr_iff)
  obtain h where h: "fold_one H g r n = Inr h" "sim z h t" using fold_one_sim [OF Cons.prems(1) t(1)] by blast
  show ?case using Cons.IH [OF h(2) t(2)] h(1) by simp
qed simp

section \<open>The seeded fold simulates the prefix\<close>

lemma candidate_cong:
  "correction_action_core a = correction_action_core a' \<Longrightarrow> jget a ''batch'' = jget a' ''batch''
     \<Longrightarrow> candidate_from_correction H a n = candidate_from_correction H a' n"
  by (simp add: candidate_from_correction_def correction_action_core_def correction_event_def)

lemma restored_action:
  "correction_action_core (restore_action b s (correction_action_core r)) = correction_action_core r"
  "jget (restore_action b s (correction_action_core r)) ''batch'' = JStr b"
  "restore_action b s core \<noteq> []"
  by (simp_all add: restore_action_def correction_action_core_def)

lemma stream_arow:
  assumes "fold_records H empty_fold rs 0 = Inr (g, n)" and "arow g b s = Some a"
  shows "0 \<le> s" "ac_sequence a < n" "ac_record a \<noteq> []" "jget (ac_record a) ''batch'' = JStr b"
    "action_rec (rs ! ac_sequence a) b s"
proof -
  have "ac_sequence a < length rs \<and> action_rec (rs ! ac_sequence a) b s \<and> action_of H (rs ! ac_sequence a) (ac_sequence a) a"
    using fold_inv_stream [OF assms(1)] assms(2) by (simp add: fold_inv_def rows_from_stream_def)
  note r = this
  then have v: "validate_correction_record (the_obj (rs ! ac_sequence a)) = Inr (ac_record a)" by (simp add: action_of_def)
  from v obtain b' s' where "jget (the_obj (rs ! ac_sequence a)) ''batch'' = JStr b'"
      "jget (the_obj (rs ! ac_sequence a)) ''seq'' = JInt s'" "0 \<le> s'" "jget (ac_record a) ''batch'' = JStr b'"
    by (rule validate_correction_fields)
  moreover have "jget (the_obj (rs ! ac_sequence a)) ''batch'' = JStr b" "jget (the_obj (rs ! ac_sequence a)) ''seq'' = JInt s"
    using r by (auto simp: action_rec_def)
  ultimately show "0 \<le> s" "jget (ac_record a) ''batch'' = JStr b" by simp_all
  show "ac_sequence a < n" "action_rec (rs ! ac_sequence a) b s" using r fold_records_length [OF assms(1)] by simp_all
  show "ac_record a \<noteq> []" using validated_nonempty [OF v] .
qed

lemma stream_mrow:
  assumes "fold_records H empty_fold rs 0 = Inr (g, n)" and "mrow g b p = Some m"
  shows "mk_sequence m < n"
  using fold_inv_stream [OF assms(1)] assms(2) fold_records_length [OF assms(1)]
  by (simp add: fold_inv_def rows_from_stream_def)

lemma stream_slots: "fold_records H empty_fold rs 0 = Inr (g, n) \<Longrightarrow> slots_wf g"
  using fold_records_slots slots_wf_empty by blast

lemma stream_tainted:
  assumes g: "fold_records H empty_fold rs 0 = Inr (g, n)" and b: "b \<in> fd_tainted g"
  shows "b \<in> set (fold_batch_ids g)"
proof -
  have inv: "fold_inv H rs g" using fold_inv_stream [OF g] .
  then have "taints_from_stream H rs g" by (simp add: fold_inv_def)
  then obtain i j where ij: "i < j" "j < length rs" "same_slot (rs ! i) (rs ! j) b"
    using b unfolding taints_from_stream_def by blast
  have "stream_in_rows H rs g" using inv by (simp add: fold_inv_def)
  then have "(\<exists>p. mrow g b p \<noteq> None) \<or> (\<exists>s. arow g b s \<noteq> None)"
    using ij unfolding stream_in_rows_def same_slot_def by (metis option.distinct(1))
  then show ?thesis using batch_ids_iff [OF stream_slots [OF g]] by blast
qed

lemma resolved_slots:
  "mrow (resolve_batches H ids g) = mrow g" "arow (resolve_batches H ids g) = arow g"
  "fold_batch_ids (resolve_batches H ids g) = fold_batch_ids g"
  by (simp_all add: fun_eq_iff mrow_def arow_def fold_batch_ids_def resolve_batches_rows)

lemma resolved_status:
  assumes g: "fold_records H empty_fold rs 0 = Inr (g, n)" and f: "f = resolve_batches H None g"
  shows "b \<in> fd_completed f \<longleftrightarrow> batch_sound H g b"
    and "b \<in> fd_tainted f \<longleftrightarrow> b \<in> fd_tainted g \<or> phase2_bad H g b"
    and "b \<in> fd_completed f \<Longrightarrow> b \<notin> fd_tainted f"
    and "b \<in> fd_completed f \<or> b \<in> fd_tainted f \<Longrightarrow> b \<in> set (fold_batch_ids f)"
proof -
  note wf = stream_slots [OF g]
  show c: "b \<in> fd_completed f \<longleftrightarrow> batch_sound H g b"
    using fold_stream_plain [OF g] by (simp add: f completed_iff)
  have bad: "phase2_bad H g b \<Longrightarrow> mrow g b ''commit'' \<noteq> None"
    by (auto simp: phase2_bad_def split: option.splits)
  have ids: "b \<in> set (dkeys (fd_markers g) @ dkeys (fd_actions g)) \<longleftrightarrow> (\<exists>p. mrow g b p \<noteq> None) \<or> (\<exists>s. arow g b s \<noteq> None)"
    using batch_ids_iff [OF wf, of b] by (simp add: fold_batch_ids_def)
  show t: "b \<in> fd_tainted f \<longleftrightarrow> b \<in> fd_tainted g \<or> phase2_bad H g b"
    unfolding f resolve_batches_None resolve_batches_tainted using ids bad by blast
  show "b \<in> fd_completed f \<Longrightarrow> b \<notin> fd_tainted f"
    unfolding c t by (auto simp: batch_sound_iff phase2_bad_def)
  have "mrow g b ''commit'' \<noteq> None" if "batch_sound H g b" using that by (auto simp: batch_sound_iff)
  moreover have ids': "b \<in> set (fold_batch_ids f) \<longleftrightarrow> b \<in> set (fold_batch_ids g)" by (simp add: f resolved_slots)
  ultimately show "b \<in> fd_completed f \<or> b \<in> fd_tainted f \<Longrightarrow> b \<in> set (fold_batch_ids f)"
    unfolding c t ids' batch_ids_iff [OF wf]
    using bad stream_tainted [OF g, of b] batch_ids_iff [OF wf, of b] by blast
qed

definition resume_of :: "selector_fold \<Rightarrow> selector_fold \<Rightarrow> resume" where
  "resume_of g f = \<lparr>rm_done = fd_completed f, rm_tainted = fd_tainted f, rm_candidates = fd_candidates g,
     rm_resolutions = fd_resolutions g\<rparr>"

lemma seed_sim:
  assumes g: "fold_records H empty_fold rs 0 = Inr (g, n)" and f: "f = resolve_batches H None g"
    and rows: "prefix_rows f c rows"
  shows "sim (resume_of g f) g (seed_fold rows)"
proof -
  have wf: "slots_wf f" using stream_slots [OF g] unfolding slots_wf_def f resolved_slots resolve_batches_rows .
  have pos: "0 \<le> s" if "arow f b s = Some a" for b s a
    using stream_arow(1) [OF g] that by (simp add: f resolved_slots)
  have slots: "mrow (seed_fold rows) b p = map_option (seed_marker f b) (mrow f b p)"
    "arow (seed_fold rows) b s = map_option (seed_action f b s) (arow f b s)" for b p s
    using seed_fold_slots [OF wf _ rows] pos by blast+
  note rest = seed_fold_rest [OF wf rows]
  note st = resolved_status [OF g f]
  have status: "batch_status f b = Completed \<longleftrightarrow> b \<in> fd_completed f" for b
    using st(3) [of b] by (auto simp: batch_status_def)
  show ?thesis
    unfolding sim_def
  proof (intro conjI allI)
    show "rel_option (marker_alike p) (mrow g b p) (mrow (seed_fold rows) b p)" for b p
      using slots(1) [where b = b and p = p]
      by (cases "mrow g b p") (auto simp: f resolved_slots seed_marker_def marker_alike_def begin_field_def)
    show "rel_option (action_alike (b \<notin> rm_done (resume_of g f))) (arow g b k) (arow (seed_fold rows) b k)" for b k
    proof (cases "arow g b k")
      case None
      then show ?thesis using slots(2) [where b = b and s = k] by (simp add: f resolved_slots)
    next
      case (Some a)
      then have "arow (seed_fold rows) b k = Some (seed_action f b k a)" using slots(2) [where b = b and s = k] by (simp add: f resolved_slots)
      moreover have "action_alike (b \<notin> fd_completed f) a (seed_action f b k a)"
        using stream_arow(3,4) [OF g Some] status [of b]
        by (simp add: action_alike_def seed_action_def restored_action)
      ultimately show ?thesis using Some by (simp add: resume_of_def)
    qed
    have "fd_tainted (seed_fold rows) = fd_tainted f"
      using rest(4) st(4) by (auto simp: batch_status_def)
    moreover have "fd_tainted g \<subseteq> fd_tainted f" using st(2) by blast
    ultimately show "fd_tainted (seed_fold rows) = fd_tainted g \<union> rm_tainted (resume_of g f)"
      by (auto simp: resume_of_def)
  qed (simp_all add: resume_of_def rest)
qed

section \<open>Verdicts agree\<close>

lemma alike_the:
  "rel_option (action_alike True) x y \<Longrightarrow> ac_sequence (the y) = ac_sequence (the x)
    \<and> correction_action_core (ac_record (the y)) = correction_action_core (ac_record (the x))
    \<and> candidate_from_correction H (ac_record (the y)) k = candidate_from_correction H (ac_record (the x)) k"
  by (cases x; cases y) (auto simp: action_alike_def intro: candidate_cong)

lemma sound_rows_eq:
  "sound_rows H x y acts \<longleftrightarrow> (let n = the_int (jget (mk_core x) ''action_count'') in
     mk_identity x = mk_identity y \<and> mk_sequence x < mk_sequence y \<and> sort (dkeys acts) = py_range n
     \<and> sorted (map (\<lambda>s. ac_sequence (the (dget acts s))) (py_range n))
     \<and> (\<forall>s \<in> set (py_range n). mk_sequence x < ac_sequence (the (dget acts s))
          \<and> ac_sequence (the (dget acts s)) < mk_sequence y)
     \<and> jget (mk_core x) ''actions_hash'' = JStr (sha256_canonical H
          (JArr (map (\<lambda>s. JObj (correction_action_core (ac_record (the (dget acts s))))) (py_range n)))))"
  by (simp add: sound_rows_def Let_def comp_def)

lemma sim_rows:
  assumes sim: "sim z g s" and wf: "slots_wf g" "slots_wf s" and b: "b \<notin> rm_done z"
    and x: "marker_alike ''begin'' x x'" and y: "marker_alike p y y'"
  shows "sound_rows H x' y' (actions_at s b) = sound_rows H x y (actions_at g b)"
    and "batch_candidates H x' (actions_at s b) = batch_candidates H x (actions_at g b)"
proof -
  have rel: "rel_option (action_alike True) (arow g b k) (arow s b k)" for k
  proof -
    have "rel_option (action_alike (b \<notin> rm_done z)) (arow g b k) (arow s b k)" using sim by (simp add: sim_def)
    then show ?thesis using b by simp
  qed
  then have a: "ac_sequence (the (dget (actions_at s b) k)) = ac_sequence (the (dget (actions_at g b) k))"
    "correction_action_core (ac_record (the (dget (actions_at s b) k)))
       = correction_action_core (ac_record (the (dget (actions_at g b) k)))"
    "candidate_from_correction H (ac_record (the (dget (actions_at s b) k))) i
       = candidate_from_correction H (ac_record (the (dget (actions_at g b) k))) i" for k i
    using alike_the [of "arow g b k" "arow s b k" H i] by (simp_all add: arow_def)
  have "arow s b k = None \<longleftrightarrow> arow g b k = None" for k using rel [of k] by (cases "arow g b k"; cases "arow s b k") simp_all
  then have keys: "sort (dkeys (actions_at s b)) = sort (dkeys (actions_at g b))" using sorted_action_keys [OF wf(2,1)] by blast
  have m: "mk_identity x' = mk_identity x" "mk_sequence x' = mk_sequence x" "mk_identity y' = mk_identity y"
    "mk_sequence y' = mk_sequence y" "jget (mk_core x') ''action_count'' = jget (mk_core x) ''action_count''"
    "jget (mk_core x') ''actions_hash'' = jget (mk_core x) ''actions_hash''"
    using x y by (simp_all add: marker_alike_def)
  show "sound_rows H x' y' (actions_at s b) = sound_rows H x y (actions_at g b)"
    unfolding sound_rows_eq m a keys ..
  show "batch_candidates H x' (actions_at s b) = batch_candidates H x (actions_at g b)"
    unfolding batch_candidates_def Let_def m a ..
qed

lemma sim_verdict:
  assumes sim: "sim z g s" and wf: "slots_wf g" "slots_wf s" and b: "b \<notin> rm_done z" "b \<notin> rm_tainted z"
  shows "batch_sound H s b = batch_sound H g b" "phase2_bad H s b = phase2_bad H g b"
    "sound_candidates H s b = sound_candidates H g b"
proof -
  have rel: "rel_option (marker_alike p) (mrow g b p) (mrow s b p)" for p using sim by (simp add: sim_def)
  have t: "b \<in> fd_tainted s \<longleftrightarrow> b \<in> fd_tainted g" using sim b(2) by (simp add: sim_def)
  consider "mrow g b ''begin'' = None" "mrow s b ''begin'' = None"
    | "mrow g b ''commit'' = None" "mrow s b ''commit'' = None"
    | x x' y y' where "mrow g b ''begin'' = Some x" "mrow s b ''begin'' = Some x'" "marker_alike ''begin'' x x'"
        "mrow g b ''commit'' = Some y" "mrow s b ''commit'' = Some y'" "marker_alike ''commit'' y y'"
    using rel [of "''begin''"] rel [of "''commit''"]
    by (cases "mrow g b ''begin''"; cases "mrow s b ''begin''"; cases "mrow g b ''commit''"; cases "mrow s b ''commit''") auto
  then have "batch_sound H s b = batch_sound H g b \<and> phase2_bad H s b = phase2_bad H g b
      \<and> (batch_sound H g b \<longrightarrow> sound_candidates H s b = sound_candidates H g b)"
  proof cases
    case 1
    then show ?thesis using rel [of "''commit''"]
      by (cases "mrow g b ''commit''"; cases "mrow s b ''commit''") (simp_all add: batch_sound_iff phase2_bad_def)
  next
    case 2
    then show ?thesis by (simp add: batch_sound_iff phase2_bad_def split: option.splits)
  next
    case (3 x x' y y')
    note r = sim_rows [OF sim wf b(1) 3(3,6), of H]
    have bs: "batch_sound H s b = batch_sound H g b" using 3 t r(1) by (simp add: batch_sound_iff)
    moreover have "phase2_bad H s b = phase2_bad H g b" using 3 r(1) by (simp add: phase2_bad_def)
    moreover have "sound_candidates H s b = sound_candidates H g b" if "batch_sound H g b"
      using that bs 3 r(2) by (simp add: sound_candidates_def flip: mrow_def)
    ultimately show ?thesis by blast
  qed
  then show "batch_sound H s b = batch_sound H g b" "phase2_bad H s b = phase2_bad H g b"
    "sound_candidates H s b = sound_candidates H g b"
    by (auto simp: sound_candidates_def)
qed

text \<open>A batch that was complete and gained no slot is still what it was.\<close>

lemma shape_rows:
  assumes "batch_shape s b = batch_shape s0 b" and grow: "grows n g g'"
    and rel: "\<And>p. mrow s b p = None \<longleftrightarrow> mrow g' b p = None" "\<And>k. arow s b k = None \<longleftrightarrow> arow g' b k = None"
    and rel0: "\<And>p. mrow s0 b p = None \<longleftrightarrow> mrow g b p = None" "\<And>k. arow s0 b k = None \<longleftrightarrow> arow g b k = None"
  shows "mrow g' b = mrow g b" "arow g' b = arow g b"
proof -
  have "{p. mrow s b p \<noteq> None} = {p. mrow s0 b p \<noteq> None}" "{k. arow s b k \<noteq> None} = {k. arow s0 b k \<noteq> None}"
    using assms(1) by (simp_all only: batch_shape_def marker_keys action_keys prod.inject)
  then have none: "mrow g' b p = None \<longleftrightarrow> mrow g b p = None" "arow g' b k = None \<longleftrightarrow> arow g b k = None" for p k
    using rel(1) [of p] rel(2) [of k] rel0(1) [of p] rel0(2) [of k] by blast+
  have keep: "mrow g b p = Some m \<Longrightarrow> mrow g' b p = Some m" "arow g b k = Some a \<Longrightarrow> arow g' b k = Some a" for p m k a
    using grow by (simp_all add: grows_def)
  show "mrow g' b = mrow g b"
  proof
    fix p show "mrow g' b p = mrow g b p" using none(1) [of p] keep(1) [of p] by (cases "mrow g b p") auto
  qed
  show "arow g' b = arow g b"
  proof
    fix k show "arow g' b k = arow g b k" using none(2) [of k] keep(2) [of k] by (cases "arow g b k") auto
  qed
qed

lemma same_rows_verdict:
  assumes "mrow g' b = mrow g b" "arow g' b = arow g b" and wf: "slots_wf g" "slots_wf g'"
    and t: "b \<in> fd_tainted g' \<longleftrightarrow> b \<in> fd_tainted g"
  shows "batch_sound H g' b = batch_sound H g b" "sound_candidates H g' b = sound_candidates H g b"
    "phase2_bad H g' b = phase2_bad H g b"
proof -
  have keys: "sort (dkeys (actions_at g' b)) = sort (dkeys (actions_at g b))"
    using sorted_action_keys [OF wf(2,1)] assms(2) by simp
  have a: "dget (actions_at g' b) k = dget (actions_at g b) k" for k using fun_cong [OF assms(2), of k] by (simp add: arow_def)
  have sr: "sound_rows H x y (actions_at g' b) = sound_rows H x y (actions_at g b)" for x y
    unfolding sound_rows_eq keys a ..
  show bs: "batch_sound H g' b = batch_sound H g b" by (simp add: batch_sound_iff assms(1) t sr)
  show "phase2_bad H g' b = phase2_bad H g b" by (simp add: phase2_bad_def assms(1) sr cong: option.case_cong)
  have "batch_candidates H x (actions_at g' b) = batch_candidates H x (actions_at g b)" for x
    by (simp add: batch_candidates_def a)
  then show "sound_candidates H g' b = sound_candidates H g b"
    by (simp add: sound_candidates_def bs assms(1) flip: mrow_def)
qed

end
