(* ===== verification/Selector_Refine.thy ===== *)
theory Selector_Refine
  imports Selector_Sim
begin

text \<open>
  \<open>merge_delta\<close> of \<open>bin/_lib_selector_state.py\<close> refines the full selection: the seeded fold, continued
  over a delta, decides every batch as the fold of the whole stream does, and the merged rows are the rows of
  the full selection.
\<close>

section \<open>Candidates have distinct stream positions\<close>

lemma fold_one_candidates:
  assumes "fold_one H f j n = Inr g"
  shows "fd_candidates g = fd_candidates f \<or> (\<exists>r c. j = JObj r \<and> jget r ''t'' = JStr ''evt''
    \<and> candidate_from_evt H r n = Inr c \<and> fd_candidates g = fd_candidates f @ [c])"
  using assms by (auto simp: fold_one_def fold_marker_def fold_action_def rbind_Inr_iff Let_def
      split: json.splits if_splits option.splits)

lemma evt_sequence: "candidate_from_evt H r n = Inr c \<Longrightarrow> ev_sequence c = n \<and> ev_batch c = None"
  by (auto simp: candidate_from_evt_def rbind_Inr_iff)

lemma correction_sequence: "ev_sequence (candidate_from_correction H r n) = n"
  by (simp add: candidate_from_correction_def)

lemma delta_candidates:
  "fold_records H f rs n = Inr (g, k) \<Longrightarrow> \<exists>cs. fd_candidates g = fd_candidates f @ cs
     \<and> (\<forall>c \<in> set cs. n \<le> ev_sequence c \<and> ev_batch c = None)"
proof (induction rs arbitrary: f n)
  case (Cons r rs)
  then obtain h where h: "fold_one H f r n = Inr h" "fold_records H h rs (Suc n) = Inr (g, k)"
    by (auto simp: rbind_Inr_iff)
  obtain cs where cs: "fd_candidates g = fd_candidates h @ cs" "\<forall>c \<in> set cs. Suc n \<le> ev_sequence c \<and> ev_batch c = None"
    using Cons.IH [OF h(2)] by blast
  from fold_one_candidates [OF h(1)] show ?case
  proof
    assume "fd_candidates h = fd_candidates f"
    then show ?thesis using cs by (intro exI [of _ cs]) auto
  next
    assume "\<exists>r' c. r = JObj r' \<and> jget r' ''t'' = JStr ''evt'' \<and> candidate_from_evt H r' n = Inr c
      \<and> fd_candidates h = fd_candidates f @ [c]"
    then obtain c where "ev_sequence c = n \<and> ev_batch c = None" "fd_candidates h = fd_candidates f @ [c]"
      using evt_sequence by blast
    then show ?thesis using cs by (intro exI [of _ "c # cs"]) auto
  qed
qed simp

definition evt_at :: "(string \<Rightarrow> string) \<Rightarrow> json list \<Rightarrow> effective_event \<Rightarrow> bool" where
  "evt_at H rs c \<longleftrightarrow> ev_sequence c < length rs \<and> (\<exists>r. rs ! ev_sequence c = JObj r \<and> jget r ''t'' = JStr ''evt''
     \<and> candidate_from_evt H r (ev_sequence c) = Inr c)"

lemma evt_at_append: "evt_at H rs c \<Longrightarrow> evt_at H (rs @ xs) c"
  by (auto simp: evt_at_def nth_append)

lemma stream_evts:
  assumes "fold_records H empty_fold rs 0 = Inr (g, n)"
  shows "\<forall>c \<in> set (fd_candidates g). evt_at H rs c"
  using assms
proof (rule fold_records_induct)
  fix rs j f g assume old: "\<forall>c \<in> set (fd_candidates f). evt_at H rs c" and step: "fold_one H f j (length rs) = Inr g"
  from fold_one_candidates [OF step] show "\<forall>c \<in> set (fd_candidates g). evt_at H (rs @ [j]) c"
  proof
    assume "fd_candidates g = fd_candidates f"
    then show ?thesis using old evt_at_append by metis
  next
    assume "\<exists>r c. j = JObj r \<and> jget r ''t'' = JStr ''evt'' \<and> candidate_from_evt H r (length rs) = Inr c
      \<and> fd_candidates g = fd_candidates f @ [c]"
    then obtain r c where c: "j = JObj r" "jget r ''t'' = JStr ''evt''" "candidate_from_evt H r (length rs) = Inr c"
      "fd_candidates g = fd_candidates f @ [c]" by blast
    have "evt_at H (rs @ [j]) c" using c evt_sequence [OF c(3)] by (simp add: evt_at_def)
    then show ?thesis using c(4) old evt_at_append by auto
  qed
qed (simp add: empty_fold_def)

lemma sound_candidate_row:
  assumes "c \<in> set (sound_candidates H g b)"
  obtains s a where "arow g b s = Some a" "c = candidate_from_correction H (ac_record a) (ac_sequence a)"
proof -
  have bs: "batch_sound H g b" using assms by (auto simp: sound_candidates_def split: if_splits)
  then obtain x y where xy: "mrow g b ''begin'' = Some x" "sound_rows H x y (actions_at g b)" by (auto simp: batch_sound_iff)
  let ?n = "the_int (jget (mk_core x) ''action_count'')"
  from assms bs xy(1) obtain s where s: "s \<in> set (py_range ?n)"
      "c = candidate_from_correction H (ac_record (the (arow g b s))) (ac_sequence (the (arow g b s)))"
    by (auto simp: sound_candidates_def batch_candidates_def Let_def arow_def simp flip: mrow_def)
  have "sort (dkeys (actions_at g b)) = py_range ?n" using xy(2) by (simp add: sound_rows_def Let_def)
  from arg_cong [OF this, of set] have "set (dkeys (actions_at g b)) = set (py_range ?n)" by simp
  then obtain a where "arow g b s = Some a" using s(1) action_keys [of g b] by auto
  then show thesis using s(2) that by simp
qed

lemma stream_candidates_inj:
  assumes g: "fold_records H empty_fold rs 0 = Inr (g, n)"
  shows "inj_on ev_sequence (set (fd_candidates (resolve_batches H None g)))"
proof (rule inj_onI)
  fix c d assume c: "c \<in> set (fd_candidates (resolve_batches H None g))"
    and d: "d \<in> set (fd_candidates (resolve_batches H None g))" and eq: "ev_sequence c = ev_sequence d"
  have cases: "evt_at H rs e \<or> (\<exists>b s a. arow g b s = Some a \<and> action_rec (rs ! ev_sequence e) b s
      \<and> e = candidate_from_correction H (ac_record a) (ac_sequence a))"
    if e: "e \<in> set (fd_candidates (resolve_batches H None g))" for e
  proof (cases "e \<in> set (fd_candidates g)")
    case True
    then show ?thesis using stream_evts [OF g] by blast
  next
    case False
    then obtain b where "e \<in> set (sound_candidates H g b)" using e unfolding all_candidates by blast
    then obtain s a where a: "arow g b s = Some a" "e = candidate_from_correction H (ac_record a) (ac_sequence a)"
      by (rule sound_candidate_row)
    then have "action_rec (rs ! ev_sequence e) b s" using stream_arow(5) [OF g a(1)] by (simp add: correction_sequence)
    then show ?thesis using a by blast
  qed
  have no: "\<not> (evt_at H rs e \<and> action_rec (rs ! ev_sequence e) b s)" for e b s
    by (auto simp: evt_at_def action_rec_def)
  from cases [OF c] show "c = d"
  proof
    assume ec: "evt_at H rs c"
    then have "evt_at H rs d" using cases [OF d] no [of c] eq by (auto simp: evt_at_def)
    then show "c = d" using ec eq by (auto simp: evt_at_def)
  next
    assume "\<exists>b s a. arow g b s = Some a \<and> action_rec (rs ! ev_sequence c) b s
      \<and> c = candidate_from_correction H (ac_record a) (ac_sequence a)"
    then obtain b s a where a: "arow g b s = Some a" "action_rec (rs ! ev_sequence c) b s"
      "c = candidate_from_correction H (ac_record a) (ac_sequence a)" by blast
    have "\<not> evt_at H rs d" using no [of d b s] a(2) eq by simp
    then obtain b' s' a' where a': "arow g b' s' = Some a'" "action_rec (rs ! ev_sequence d) b' s'"
      "d = candidate_from_correction H (ac_record a') (ac_sequence a')" using cases [OF d] by blast
    have "b = b' \<and> s = s'" using rec_deterministic(2) [OF a(2)] a'(2) eq by simp
    then show "c = d" using a a' by simp
  qed
qed

lemma candidate_bound:
  assumes g: "fold_records H empty_fold rs 0 = Inr (g, n)" and c: "c \<in> set (fd_candidates (resolve_batches H None g))"
  shows "ev_sequence c < n"
proof (cases "c \<in> set (fd_candidates g)")
  case True
  then show ?thesis using stream_evts [OF g] fold_records_length [OF g] by (simp add: evt_at_def)
next
  case False
  then obtain b where "c \<in> set (sound_candidates H g b)" using c unfolding all_candidates by blast
  then obtain s a where "arow g b s = Some a" "c = candidate_from_correction H (ac_record a) (ac_sequence a)"
    by (rule sound_candidate_row)
  then show ?thesis using stream_arow(2) [OF g] by (simp add: correction_sequence)
qed

section \<open>What the resumed fold decides\<close>

lemma check_shapes_ok: "check_shapes s0 s ids = Inr () \<Longrightarrow> b \<in> set ids \<Longrightarrow> batch_shape s b = batch_shape s0 b"
  by (auto simp: check_shapes_def filter_empty_conv split: list.splits)

lemma unsound_committed:
  "\<not> batch_sound H g b \<Longrightarrow> b \<notin> fd_tainted g \<Longrightarrow> mrow g b ''commit'' \<noteq> None \<Longrightarrow> phase2_bad H g b"
  by (auto simp: batch_sound_iff phase2_bad_def split: option.splits)

lemma sim_none: "sim z g s \<Longrightarrow> mrow s b p = None \<longleftrightarrow> mrow g b p = None"
    "sim z g s \<Longrightarrow> arow s b k = None \<longleftrightarrow> arow g b k = None"
proof -
  assume sim: "sim z g s"
  have "rel_option (marker_alike p) (mrow g b p) (mrow s b p)" using sim by (simp add: sim_def)
  then show "mrow s b p = None \<longleftrightarrow> mrow g b p = None" by (cases "mrow g b p"; cases "mrow s b p") simp_all
  have "rel_option (action_alike (b \<notin> rm_done z)) (arow g b k) (arow s b k)" using sim by (simp add: sim_def)
  then show "arow s b k = None \<longleftrightarrow> arow g b k = None" by (cases "arow g b k"; cases "arow s b k") simp_all
qed

definition agrees :: "(string \<Rightarrow> string) \<Rightarrow> selector_fold \<Rightarrow> selector_fold \<Rightarrow> selector_fold \<Rightarrow> selector_fold \<Rightarrow> bool" where
  "agrees H g f g' s \<longleftrightarrow> sim (resume_of g f) g' s \<and> slots_wf g' \<and> slots_wf s
   \<and> (\<forall>b. batch_sound H g' b \<longleftrightarrow> b \<in> fd_completed f \<or> batch_sound H s b)
   \<and> (\<forall>b. sound_candidates H g' b = (if b \<in> fd_completed f then sound_candidates H g b else sound_candidates H s b))
   \<and> (\<forall>b. b \<in> fd_tainted g' \<or> phase2_bad H g' b \<longleftrightarrow> b \<in> fd_tainted s \<or> b \<notin> fd_completed f \<and> phase2_bad H s b)"

lemma resumed_done:
  assumes g: "fold_records H empty_fold rs 0 = Inr (g, n)" and f: "f = resolve_batches H None g"
    and grow: "grows n g g'" and wf: "slots_wf g'" and b: "b \<in> fd_completed f"
    and shape: "batch_shape s b = batch_shape s0 b" and sim: "sim z g' s" and sim0: "sim z g s0"
    and quiet: "b \<notin> fd_tainted g'"
  shows "batch_sound H g' b" "sound_candidates H g' b = sound_candidates H g b" "\<not> phase2_bad H g' b"
proof -
  have rows: "mrow g' b = mrow g b" "arow g' b = arow g b"
    by (rule shape_rows [OF shape grow]; rule sim_none [OF sim] sim_none [OF sim0])+
  have bs: "batch_sound H g b" and t: "b \<notin> fd_tainted g" "\<not> phase2_bad H g b"
    using b resolved_status [OF g f, of b] by blast+
  note v = same_rows_verdict [OF rows stream_slots [OF g] wf, of H]
  show "batch_sound H g' b" "sound_candidates H g' b = sound_candidates H g b" "\<not> phase2_bad H g' b"
    using v bs t quiet by blast+
qed

lemma resumed_tainted:
  assumes g: "fold_records H empty_fold rs 0 = Inr (g, n)" and f: "f = resolve_batches H None g"
    and grow: "grows n g g'" and wf: "slots_wf g'" and b: "b \<in> fd_tainted f"
  shows "\<not> batch_sound H g' b" "b \<in> fd_tainted g' \<or> phase2_bad H g' b"
proof -
  have "b \<in> fd_tainted g \<or> phase2_bad H g b" using b resolved_status(2) [OF g f] by blast
  moreover have "fd_tainted g \<subseteq> fd_tainted g'" using grow by (simp add: grows_def)
  moreover have "\<not> batch_sound H g' b \<and> mrow g' b ''commit'' \<noteq> None" if bad: "phase2_bad H g b"
  proof
    show "\<not> batch_sound H g' b"
      by (rule phase2_bad_stays [OF bad grow stream_slots [OF g] wf]) (rule stream_mrow [OF g])
    obtain y where "mrow g b ''commit'' = Some y" using bad by (auto simp: phase2_bad_def split: option.splits)
    then have "mrow g' b ''commit'' = Some y" using grow by (simp add: grows_def)
    then show "mrow g' b ''commit'' \<noteq> None" by simp
  qed
  moreover have "b \<in> fd_tainted g' \<Longrightarrow> \<not> batch_sound H g' b" by (simp add: batch_sound_iff)
  ultimately show "\<not> batch_sound H g' b" "b \<in> fd_tainted g' \<or> phase2_bad H g' b"
    using unsound_committed [of H g' b] by blast+
qed

lemma resumed:
  assumes g: "fold_records H empty_fold rs 0 = Inr (g, n)" and f: "f = resolve_batches H None g"
    and rows: "prefix_rows f c rows" and s: "fold_records H (seed_fold rows) ds n = Inr (s, k)"
    and shapes: "check_shapes (seed_fold rows) s (completed_ids rows) = Inr ()"
    and quiet: "fd_completed f \<inter> fd_tainted s = {}"
  shows "\<exists>g'. fold_records H g ds n = Inr (g', k) \<and> agrees H g f g' s"
proof -
  let ?z = "resume_of g f"
  note st = resolved_status [OF g f] and sim0 = seed_sim [OF g f rows]
  obtain g' where g': "fold_records H g ds n = Inr (g', k)" and sim: "sim ?z g' s"
    using fold_records_sim [OF sim0 s] by blast
  have grow: "grows n g g'" using fold_records_grows [OF g'] .
  have wfg: "slots_wf g'" using fold_records_slots [OF stream_slots [OF g] g'] .
  have wff: "slots_wf f" using stream_slots [OF g] unfolding slots_wf_def f resolved_slots resolve_batches_rows .
  have wfs: "slots_wf s" using fold_records_slots [OF seed_fold_rest(1) [OF wff rows] s] .
  have done_ids: "set (completed_ids rows) = fd_completed f"
    using seed_fold_rest(6) [OF wff rows] st(3,4) by (auto simp: batch_status_def)
  have t: "fd_tainted s = fd_tainted g' \<union> fd_tainted f" using sim by (simp add: sim_def resume_of_def)
  have D: "batch_sound H g' b \<and> sound_candidates H g' b = sound_candidates H g b \<and> \<not> phase2_bad H g' b
      \<and> b \<notin> fd_tainted g' \<and> b \<notin> fd_tainted s" if b: "b \<in> fd_completed f" for b
  proof -
    have ns: "b \<notin> fd_tainted s" using b quiet by blast
    then have "b \<notin> fd_tainted g'" using t by blast
    moreover have "batch_shape s b = batch_shape (seed_fold rows) b" using check_shapes_ok [OF shapes] b done_ids by blast
    ultimately show ?thesis using resumed_done [OF g f grow wfg b _ sim sim0] ns by blast
  qed
  have T: "\<not> batch_sound H g' b \<and> (b \<in> fd_tainted g' \<or> phase2_bad H g' b) \<and> b \<in> fd_tainted s \<and> \<not> batch_sound H s b
      \<and> sound_candidates H g' b = sound_candidates H s b"
    if b: "b \<in> fd_tainted f" for b
  proof -
    have "b \<in> fd_tainted s" using t b by blast
    then have "\<not> batch_sound H s b" by (simp add: batch_sound_iff)
    then show ?thesis using resumed_tainted [OF g f grow wfg b] \<open>b \<in> fd_tainted s\<close> by (simp add: sound_candidates_def)
  qed
  have N: "batch_sound H s b = batch_sound H g' b \<and> phase2_bad H s b = phase2_bad H g' b
      \<and> sound_candidates H s b = sound_candidates H g' b \<and> (b \<in> fd_tainted s \<longleftrightarrow> b \<in> fd_tainted g')"
    if b: "b \<notin> fd_completed f" "b \<notin> fd_tainted f" for b
    using sim_verdict [OF sim wfg wfs, of b H] b t by (simp add: resume_of_def)
  have "agrees H g f g' s"
    unfolding agrees_def
  proof (intro conjI allI)
    fix b
    show "batch_sound H g' b \<longleftrightarrow> b \<in> fd_completed f \<or> batch_sound H s b"
      using D [of b] T [of b] N [of b] by blast
    show "sound_candidates H g' b = (if b \<in> fd_completed f then sound_candidates H g b else sound_candidates H s b)"
    proof (cases "b \<in> fd_completed f")
      case True
      then show ?thesis using D by simp
    next
      case False
      have "sound_candidates H g' b = sound_candidates H s b"
      proof (cases "b \<in> fd_tainted f")
        case True
        then show ?thesis using T by blast
      next
        case nt: False
        show ?thesis using N [OF False nt] by (elim conjE) (rule sym)
      qed
      then show ?thesis using False by simp
    qed
    show "b \<in> fd_tainted g' \<or> phase2_bad H g' b \<longleftrightarrow> b \<in> fd_tainted s \<or> b \<notin> fd_completed f \<and> phase2_bad H s b"
      using D [of b] T [of b] N [of b] by blast
  qed (rule sim wfg wfs)+
  then show ?thesis using g' by blast
qed

section \<open>The rows of the resumed fold\<close>

lemma fold_keeps_completed: "fold_records H f rs n = Inr (g, k) \<Longrightarrow> fd_completed g = fd_completed f"
proof (induction rs arbitrary: f n)
  case (Cons r rs)
  then obtain h where h: "fold_one H f r n = Inr h" "fold_records H h rs (Suc n) = Inr (g, k)"
    by (auto simp: rbind_Inr_iff)
  show ?case using Cons.IH [OF h(2)] fold_one_plain [OF h(1)] by simp
qed simp

lemma marker_row_alike: "marker_alike p m m' \<Longrightarrow> marker_record_row b p m' = marker_record_row b p m"
  by (simp add: marker_alike_def marker_record_row_def)

lemma action_row_alike:
  "action_alike kept a a' \<Longrightarrow> st = Completed \<or> kept \<Longrightarrow> action_record_row b st s a' = action_record_row b st s a"
  by (auto simp: action_alike_def action_record_row_def)

lemma sim_batch_ids: "sim z g s \<Longrightarrow> slots_wf g \<Longrightarrow> slots_wf s \<Longrightarrow> fold_batch_ids s = fold_batch_ids g"
proof (rule sorted_distinct_set_unique)
  assume sim: "sim z g s" and wf: "slots_wf g" "slots_wf s"
  show "set (fold_batch_ids s) = set (fold_batch_ids g)"
    by (rule set_eqI) (simp only: batch_ids_iff [OF wf(1)] batch_ids_iff [OF wf(2)] sim_none [OF sim])
qed (simp_all add: fold_batch_ids_def)

lemma sim_record_rows:
  assumes sim: "sim z g s" and wf: "slots_wf g" "slots_wf s"
    and f: "fd_markers f = fd_markers g" "fd_actions f = fd_actions g"
    and t: "fd_markers t = fd_markers s" "fd_actions t = fd_actions s"
    and status: "batch_status t b = batch_status f b" "b \<in> rm_done z \<Longrightarrow> batch_status f b = Completed"
  shows "record_rows_of t b = record_rows_of f b"
proof -
  have m: "sort (dkeys (markers_at s b)) = sort (dkeys (markers_at g b))"
    by (rule sorted_marker_keys [OF wf(2,1)]) (rule sim_none [OF sim])
  have a: "sort (dkeys (actions_at s b)) = sort (dkeys (actions_at g b))"
    by (rule sorted_action_keys [OF wf(2,1)]) (rule sim_none [OF sim])
  have mr: "marker_record_row b p (the (dget (markers_at s b) p)) = marker_record_row b p (the (dget (markers_at g b) p))"
    if p: "p \<in> set (dkeys (markers_at g b))" for p
  proof -
    have "rel_option (marker_alike p) (mrow g b p) (mrow s b p)" using sim by (simp add: sim_def)
    moreover obtain x where "mrow g b p = Some x" using p unfolding marker_keys by auto
    ultimately obtain y where "mrow g b p = Some x" "mrow s b p = Some y" "marker_alike p x y"
      by (auto simp: option_rel_Some1)
    then show ?thesis using marker_row_alike by (simp add: mrow_def)
  qed
  have ar: "action_record_row b (batch_status f b) k (the (dget (actions_at s b) k))
      = action_record_row b (batch_status f b) k (the (dget (actions_at g b) k))"
    if k: "k \<in> set (dkeys (actions_at g b))" for k
  proof -
    have "rel_option (action_alike (b \<notin> rm_done z)) (arow g b k) (arow s b k)" using sim by (simp add: sim_def)
    moreover obtain x where "arow g b k = Some x" using k unfolding action_keys by auto
    ultimately obtain y where "arow g b k = Some x" "arow s b k = Some y" "action_alike (b \<notin> rm_done z) x y"
      by (auto simp: option_rel_Some1)
    moreover have "batch_status f b = Completed \<or> b \<notin> rm_done z" using status(2) by blast
    ultimately show ?thesis using action_row_alike [of "b \<notin> rm_done z" x y "batch_status f b" b k] by (simp add: arow_def)
  qed
  show ?thesis
    unfolding record_rows_of_def Let_def f t status(1) m a using mr ar by simp
qed

lemma sim_begin_field:
  assumes sim: "sim z g s" and "k \<in> {''action_count'', ''actions_hash''}"
  shows "begin_field s b k = begin_field g b k"
proof -
  have "rel_option (marker_alike ''begin'') (mrow g b ''begin'') (mrow s b ''begin'')" using sim by (simp add: sim_def)
  then show ?thesis using assms(2)
    by (cases "mrow g b ''begin''"; cases "mrow s b ''begin''") (auto simp: begin_field_def marker_alike_def)
qed

text \<open>The coordinates a batch row shows for one phase.\<close>

definition phase_at :: "selector_fold \<Rightarrow> coordinates \<Rightarrow> string \<Rightarrow> string \<Rightarrow> string option \<times> int option" where
  "phase_at f c b p = coordinate_of c (map_option mk_sequence (mrow f b p))"

lemma batch_row_coordinates:
  "br_begin_segment (batch_row_of f c b) = fst (phase_at f c b ''begin'')"
  "br_begin_offset (batch_row_of f c b) = snd (phase_at f c b ''begin'')"
  "br_commit_segment (batch_row_of f c b) = fst (phase_at f c b ''commit'')"
  "br_commit_offset (batch_row_of f c b) = snd (phase_at f c b ''commit'')"
  by (simp_all add: batch_row_of_def Let_def phase_at_def mrow_def split: prod.splits)

definition coordinates_split :: "nat \<Rightarrow> coordinates \<Rightarrow> coordinates \<Rightarrow> bool" where
  "coordinates_split n c d \<longleftrightarrow> (\<forall>(k, _) \<in> set c. k < n) \<and> (\<forall>(k, segment, _) \<in> set d. n \<le> k \<and> segment \<noteq> [])"

lemma coordinates_split_get:
  assumes "coordinates_split n c d"
  shows "k < n \<Longrightarrow> dget d k = None" "n \<le> k \<Longrightarrow> dget c k = None"
    "dget (c @ d) k = (if k < n then dget c k else dget d k)" "dget d k \<noteq> Some ([], off)"
proof -
  show d: "k < n \<Longrightarrow> dget d k = None" for k
    using assms by (cases "dget d k") (auto simp: coordinates_split_def dest!: map_of_SomeD)
  show c: "n \<le> k \<Longrightarrow> dget c k = None" for k
    using assms by (cases "dget c k") (auto simp: coordinates_split_def dest!: map_of_SomeD)
  show "dget (c @ d) k = (if k < n then dget c k else dget d k)"
    using c [of k] d [of k] by (auto simp: map_add_def split: option.splits)
  show "dget d k \<noteq> Some ([], off)"
    using assms by (auto simp: coordinates_split_def dest!: map_of_SomeD)
qed

lemma phase_carried:
  assumes split: "coordinates_split n c d" and rel: "rel_option (marker_alike p) (mrow g b p) (mrow s b p)"
    and old: "\<And>m. mrow f b p = Some m \<Longrightarrow> mrow g b p = Some m \<and> mk_sequence m < n"
    and new: "\<And>m. mrow g b p = Some m \<Longrightarrow> mrow f b p = Some m \<or> n \<le> mk_sequence m"
  shows "carry_str (fst (phase_at s d b p)) (fst (phase_at f c b p)) = fst (phase_at g (c @ d) b p)"
    and "carry (snd (phase_at s d b p)) (snd (phase_at f c b p)) = snd (phase_at g (c @ d) b p)"
    and "mrow f b p = None \<Longrightarrow> phase_at s d b p = phase_at g (c @ d) b p"
proof -
  note get = coordinates_split_get [OF split]
  have seq: "map_option mk_sequence (mrow s b p) = map_option mk_sequence (mrow g b p)"
    using rel by (cases "mrow g b p"; cases "mrow s b p") (simp_all add: marker_alike_def)
  then have s: "phase_at s d b p = coordinate_of d (map_option mk_sequence (mrow g b p))" by (simp add: phase_at_def)
  have *: "carry_str (fst (phase_at s d b p)) (fst (phase_at f c b p)) = fst (phase_at g (c @ d) b p)
      \<and> carry (snd (phase_at s d b p)) (snd (phase_at f c b p)) = snd (phase_at g (c @ d) b p)
      \<and> (mrow f b p = None \<longrightarrow> phase_at s d b p = phase_at g (c @ d) b p)"
  proof (cases "mrow g b p")
    case None
    then have "mrow f b p = None" using old by (cases "mrow f b p") auto
    then show ?thesis using None s by (simp add: phase_at_def coordinate_of_def carry_def carry_str_def)
  next
    case (Some m)
    show ?thesis
    proof (cases "mrow f b p")
      case None
      then have "n \<le> mk_sequence m" using new [OF Some] by simp
      then show ?thesis using None Some s get(3) [of "mk_sequence m"] get(4) [of "mk_sequence m"]
        by (auto simp: phase_at_def coordinate_of_def carry_def carry_str_def split: option.splits)
    next
      case m0: (Some m0)
      then have "m0 = m" "mk_sequence m < n" using old [OF m0] Some by auto
      then show ?thesis using m0 Some s get(1,3) [of "mk_sequence m"]
        by (auto simp: phase_at_def coordinate_of_def carry_def carry_str_def split: option.splits)
    qed
  qed
  then show "carry_str (fst (phase_at s d b p)) (fst (phase_at f c b p)) = fst (phase_at g (c @ d) b p)"
    "carry (snd (phase_at s d b p)) (snd (phase_at f c b p)) = snd (phase_at g (c @ d) b p)"
    "mrow f b p = None \<Longrightarrow> phase_at s d b p = phase_at g (c @ d) b p" by blast+
qed

section \<open>The merge\<close>

lemma merge_deltaE:
  assumes "merge_delta H rows ds n d covered = Inr (rows', [])"
  obtains s k t where "fold_records H (seed_fold rows) ds n = Inr (s, k)"
    "check_shapes (seed_fold rows) s (completed_ids rows) = Inr ()"
    "t = resolve_batches H (Some (filter (\<lambda>b. b \<notin> set (completed_ids rows)) (fold_batch_ids s))) s"
    "set (completed_ids rows) \<inter> fd_tainted t = {}"
    "ss_state rows' = advanced_state (ss_state rows) k covered"
    "ss_batches rows' = carry_coordinates rows (fst (batch_rows (t\<lparr>fd_completed := fd_completed t \<union> set (completed_ids rows)\<rparr>) d))"
    "ss_records rows' = snd (batch_rows (t\<lparr>fd_completed := fd_completed t \<union> set (completed_ids rows)\<rparr>) d)"
    "ss_effective rows' = merged_effective_rows rows (merge_candidates rows (fd_candidates t))"
proof -
  obtain s k where s: "fold_records H (seed_fold rows) ds n = Inr (s, k)"
    using assms by (auto simp: merge_delta_def Let_def rbind_Inr_iff lift_journal_def split: sum.splits)
  let ?done = "completed_ids rows"
  define t where "t = resolve_batches H (Some (filter (\<lambda>b. b \<notin> set ?done) (fold_batch_ids s))) s"
  let ?u = "t\<lparr>fd_completed := fd_completed t \<union> (set ?done - fd_tainted t)\<rparr>"
  have m: "fd_resolutions s = []" "check_shapes (seed_fold rows) s ?done = Inr ()"
    using assms s by (auto simp: merge_delta_def Let_def lift_journal_def rbind_Inr_iff split: if_splits)
  have r: "rbind (rmap (transition_of ?u) (filter (\<lambda>b. b \<in> fd_tainted ?u) (sorted_set ?done))) (\<lambda>transitions.
            let (batches, batch_records) = batch_rows ?u d in
            Inr (\<lparr>ss_state = advanced_state (ss_state rows) k covered,
                  ss_batches = carry_coordinates rows batches, ss_records = batch_records,
                  ss_effective = merged_effective_rows rows (merge_candidates rows (fd_candidates ?u)),
                  ss_violations = merged_violation_rows H rows ?u (set (filter (\<lambda>b. b \<notin> set ?done) (fold_batch_ids s)))\<rparr>,
                sort_key transition_key transitions)) = Inr (rows', [])"
    using assms by (simp add: merge_delta_def Let_def s lift_journal_def m t_def)
  obtain bs rs where br: "batch_rows ?u d = (bs, rs)" by fastforce
  obtain ts where ts: "rmap (transition_of ?u) (filter (\<lambda>b. b \<in> fd_tainted ?u) (sorted_set ?done)) = Inr ts"
      "sort_key transition_key ts = []"
    and rows': "ss_state rows' = advanced_state (ss_state rows) k covered" "ss_batches rows' = carry_coordinates rows bs"
      "ss_records rows' = rs" "ss_effective rows' = merged_effective_rows rows (merge_candidates rows (fd_candidates t))"
    using r unfolding br Let_def prod.case rbind_Inr_iff by fastforce
  have "length (sort_key transition_key ts) = 0" using ts(2) by simp
  then have "filter (\<lambda>b. b \<in> fd_tainted t) (sorted_set ?done) = []" using rmap_length [OF ts(1)] by simp
  then have quiet: "set ?done \<inter> fd_tainted t = {}" by (auto simp: filter_empty_conv)
  then have u: "?u = t\<lparr>fd_completed := fd_completed t \<union> set ?done\<rparr>" by (metis Diff_triv)
  show thesis
    by (rule that [OF s m(2) t_def quiet]) (simp_all add: rows' br [unfolded u])
qed

section \<open>The merge is the full fold\<close>

lemma all_sound_candidates:
  "set (fd_candidates (resolve_batches H None g)) = set (fd_candidates g) \<union> (\<Union>b. set (sound_candidates H g b))"
  unfolding all_candidates by (auto simp: sound_candidates_def split: if_splits)

lemma delta_resolved:
  assumes ag: "agrees H g f g' s" and t: "t = resolve_batches H (Some (filter (\<lambda>b. b \<notin> done_ids) (fold_batch_ids s))) s"
    and "done_ids = fd_completed f" and seed: "fd_completed s = fd_completed f"
    and g': "fold_records H empty_fold xs 0 = Inr (g', m)" and f': "f' = resolve_batches H None g'"
  shows "fd_completed t = fd_completed f'" "fd_tainted t = fd_tainted f'"
    "set (fd_candidates t) = set (fd_candidates s) \<union> (\<Union>b \<in> - fd_completed f. set (sound_candidates H s b))"
proof -
  have wf: "slots_wf s" using ag by (simp add: agrees_def)
  note st = resolved_status [OF g' f']
  have ids: "b \<in> set (fold_batch_ids s)" if "mrow s b ''commit'' \<noteq> None" for b
    using that batch_ids_iff [OF wf, of b] by blast
  have snd_ids: "b \<in> set (fold_batch_ids s)" if "batch_sound H s b" for b
    using that ids [of b] by (auto simp: batch_sound_iff)
  have bad_ids: "b \<in> set (fold_batch_ids s)" if "phase2_bad H s b" for b
    using that ids [of b] by (auto simp: phase2_bad_def split: option.splits)
  have bs: "batch_sound H g' b \<longleftrightarrow> b \<in> fd_completed f \<or> batch_sound H s b" for b using ag by (simp add: agrees_def)
  have tb: "b \<in> fd_tainted g' \<or> phase2_bad H g' b \<longleftrightarrow> b \<in> fd_tainted s \<or> b \<notin> fd_completed f \<and> phase2_bad H s b" for b
    using ag by (simp add: agrees_def)
  have "b \<in> fd_completed t \<longleftrightarrow> b \<in> fd_completed f'" for b
    using bs [of b] snd_ids [of b] unfolding st(1) t resolve_batches_result by (auto simp: assms(3) seed)
  then show "fd_completed t = fd_completed f'" by blast
  have "b \<in> fd_tainted t \<longleftrightarrow> b \<in> fd_tainted f'" for b
    using tb [of b] bad_ids [of b] unfolding st(2) t resolve_batches_tainted by (auto simp: assms(3))
  then show "fd_tainted t = fd_tainted f'" by blast
  have "(\<Union>b \<in> set (filter (\<lambda>b. b \<notin> done_ids) (fold_batch_ids s)). set (sound_candidates H s b))
      = (\<Union>b \<in> - fd_completed f. set (sound_candidates H s b))"
    using snd_ids by (auto simp: assms(3) sound_candidates_def split: if_splits)
  then show "set (fd_candidates t) = set (fd_candidates s) \<union> (\<Union>b \<in> - fd_completed f. set (sound_candidates H s b))"
    by (simp add: t resolve_batches_result)
qed

lemma UN_set_if: "(\<Union>b. set (if b \<in> D then X b else Y b)) = (\<Union>b \<in> D. set (X b)) \<union> (\<Union>b \<in> - D. set (Y b))"
  by (auto split: if_splits)

lemma resolved_candidates:
  assumes g: "fold_records H empty_fold rs 0 = Inr (g, n)" and f: "f = resolve_batches H None g"
    and ag: "agrees H g f g' s"
    and ds: "set ds = set (fd_candidates s) \<union> (\<Union>b \<in> - fd_completed f. set (sound_candidates H s b))"
  shows "set (fd_candidates (resolve_batches H None g')) = set (fd_candidates f) \<union> set ds"
proof -
  have c: "fd_candidates g' = fd_candidates g @ fd_candidates s" using ag by (simp add: agrees_def sim_def resume_of_def)
  have sc: "sound_candidates H g' b = (if b \<in> fd_completed f then sound_candidates H g b else sound_candidates H s b)" for b
    using ag by (simp add: agrees_def)
  have none: "sound_candidates H g b = []" if "b \<notin> fd_completed f" for b
    using that resolved_status(1) [OF g f, of b] by (simp add: sound_candidates_def)
  have "(\<Union>b. set (sound_candidates H g' b)) = (\<Union>b. set (sound_candidates H g b))
      \<union> (\<Union>b \<in> - fd_completed f. set (sound_candidates H s b))"
  proof -
    have "(\<Union>b. set (sound_candidates H g b)) = (\<Union>b \<in> fd_completed f. set (sound_candidates H g b))"
      using none by fastforce
    then show ?thesis unfolding sc UN_set_if by simp
  qed
  then show ?thesis unfolding f all_sound_candidates ds [unfolded f] c by auto
qed

lemma carried_rows:
  assumes g: "fold_records H empty_fold rs 0 = Inr (g, n)" and f: "f = resolve_batches H None g"
    and rows: "prefix_rows f c rows" and grow: "grows n g g'" and ag: "agrees H g f g' s"
    and split: "coordinates_split n c d"
    and f': "fd_markers f' = fd_markers g'" "fd_actions f' = fd_actions g'"
    and u: "fd_markers u = fd_markers s" "fd_actions u = fd_actions s"
    and status: "\<And>b. batch_status u b = batch_status f' b" "\<And>b. b \<in> fd_completed f \<Longrightarrow> batch_status f' b = Completed"
  shows "carry_coordinates rows (fst (batch_rows u d)) = fst (batch_rows f' (c @ d))"
    and "snd (batch_rows u d) = snd (batch_rows f' (c @ d))"
proof -
  have sim: "sim (resume_of g f) g' s" and wf: "slots_wf g'" "slots_wf s" using ag by (simp_all add: agrees_def)
  have ids: "fold_batch_ids u = fold_batch_ids f'"
    using sim_batch_ids [OF sim wf] by (simp add: fold_batch_ids_def f' u)
  have mr: "mrow f' = mrow g'" "mrow u = mrow s" "arow f' = arow g'" "arow u = arow s"
    by (simp_all add: fun_eq_iff mrow_def arow_def f' u)
  have bf: "begin_field u b k = begin_field f' b k" if "k \<in> {''action_count'', ''actions_hash''}" for b k
    using sim_begin_field [OF sim that, of b] by (simp add: begin_field_def mr)
  have rr: "record_rows_of u b = record_rows_of f' b" for b
    by (rule sim_record_rows [OF sim wf f' u status(1)]) (simp add: resume_of_def status(2))
  show "snd (batch_rows u d) = snd (batch_rows f' (c @ d))" unfolding batch_rows_def ids snd_conv rr ..
  have wff: "slots_wf f" using stream_slots [OF g] unfolding slots_wf_def f resolved_slots resolve_batches_rows .
  have rel: "rel_option (marker_alike p) (mrow f' b p) (mrow u b p)" for b p using sim by (simp add: sim_def mr)
  have old: "mrow f' b p = Some m \<and> mk_sequence m < n" if "mrow f b p = Some m" for b p m
  proof -
    have "mrow g b p = Some m" using that by (simp add: f resolved_slots)
    then show ?thesis using grow stream_mrow [OF g] unfolding mr grows_def by blast
  qed
  have new: "mrow f b p = Some m \<or> n \<le> mk_sequence m" if "mrow f' b p = Some m" for b p m
    using that grow unfolding mr f resolved_slots grows_def by blast
  have ph: "carry_str (fst (phase_at u d b p)) (fst (phase_at f c b p)) = fst (phase_at f' (c @ d) b p)"
    "carry (snd (phase_at u d b p)) (snd (phase_at f c b p)) = snd (phase_at f' (c @ d) b p)" for b p
    by (rule phase_carried [OF split rel old new]; assumption)+
  have ph3: "phase_at u d b p = phase_at f' (c @ d) b p" if "mrow f b p = None" for b p
    by (rule phase_carried(3) [OF split rel old new]) (use that in auto)
  have prior: "dget (dict_by br_batch (ss_batches rows)) b = (if b \<in> set (fold_batch_ids f) then Some (batch_row_of f c b) else None)" for b
    using by_batch_lookup [of f c b] rows by (simp add: prefix_rows_def batch_rows_def)
  have "(case dget (dict_by br_batch (ss_batches rows)) b of None \<Rightarrow> batch_row_of u d b
      | Some x \<Rightarrow> (batch_row_of u d b)\<lparr>br_begin_segment := carry_str (br_begin_segment (batch_row_of u d b)) (br_begin_segment x),
          br_begin_offset := carry (br_begin_offset (batch_row_of u d b)) (br_begin_offset x),
          br_commit_segment := carry_str (br_commit_segment (batch_row_of u d b)) (br_commit_segment x),
          br_commit_offset := carry (br_commit_offset (batch_row_of u d b)) (br_commit_offset x)\<rparr>)
      = batch_row_of f' (c @ d) b" for b
  proof (cases "b \<in> set (fold_batch_ids f)")
    case True
    then show ?thesis
      by (intro batch_row.equality) (simp_all add: prior batch_row_fields batch_row_coordinates ph status(1) bf)
  next
    case False
    then have none: "mrow f b p = None" for p using batch_ids_iff [OF wff, of b] by blast
    have "phase_at u d b p = phase_at f' (c @ d) b p" for p by (rule ph3 [OF none])
    then show ?thesis using False
      by (intro batch_row.equality) (simp_all add: prior batch_row_fields batch_row_coordinates status(1) bf)
  qed
  then show "carry_coordinates rows (fst (batch_rows u d)) = fst (batch_rows f' (c @ d))"
    by (simp add: carry_coordinates_def Let_def batch_rows_def ids batch_row_fields)
qed

text \<open>No action of a batch that was still open lies before a selected record of the same event and
  revision.\<close>

definition no_late_twin :: "selector_fold \<Rightarrow> selector_fold \<Rightarrow> bool" where
  "no_late_twin f f' \<longleftrightarrow> (\<forall>c \<in> set (fd_candidates f). \<forall>d \<in> set (fd_candidates f').
     ev_batch d \<noteq> None \<and> the (ev_batch d) \<notin> fd_completed f \<and> rev_key c = rev_key d
       \<longrightarrow> ev_sequence c \<le> ev_sequence d)"

lemma sound_candidate_batch:
  assumes "fold_records H empty_fold rs 0 = Inr (g, n)" and "c \<in> set (sound_candidates H g b)"
  shows "ev_batch c = Some b"
proof -
  obtain s a where a: "arow g b s = Some a" "c = candidate_from_correction H (ac_record a) (ac_sequence a)"
    using assms(2) by (rule sound_candidate_row)
  then show ?thesis using stream_arow(4) [OF assms(1) a(1)] by (simp add: candidate_from_correction_def)
qed

lemma selection_parts:
  assumes "fold_records H empty_fold rs 0 = Inr (g, n)" and "resolve_effective_events H rs ev = Inr sel"
  shows "\<exists>active. select_candidates (fd_candidates (resolve_batches H None g)) = (sl_by_id sel, active, sl_conflicts sel)"
proof -
  obtain w a cf where w: "select_candidates (fd_candidates (resolve_batches H None g)) = (w, a, cf)" using prod_cases3 .
  then have "sl_by_id sel = w" "sl_conflicts sel = cf"
    using assms by (auto simp: resolve_effective_events_def rbind_Inr_iff Let_def)
  then show ?thesis using w by blast
qed

lemma comparable_parts:
  assumes "comparable (Some rows) = Some rows0"
  shows "ss_batches rows = ss_batches rows0" "ss_records rows = ss_records rows0" "ss_effective rows = ss_effective rows0"
    "ss_state rows0 = (ss_state rows)\<lparr>sr_record_path := None, sr_stamped_at := None\<rparr>"
  using assms by (auto simp: comparable_def)

lemma selection_rows_parts:
  "ss_batches (rows_from_selection H sel f n c cov seen acct) = fst (batch_rows f c)"
  "ss_records (rows_from_selection H sel f n c cov seen acct) = snd (batch_rows f c)"
  "ss_effective (rows_from_selection H sel f n c cov seen acct) = effective_rows sel"
  "ss_state (rows_from_selection H sel f n c cov seen acct) = \<lparr>sr_next_sequence = n, sr_version = SELECTOR_VERSION,
     sr_covered_segment = map_option fst cov, sr_covered_offset = map_option snd cov,
     sr_record_path = None, sr_stamped_at = None, sr_cutover_seen = seen, sr_cutover_account = acct\<rparr>"
  by (simp_all add: rows_from_selection_def split: prod.splits)

lemma merge_refines:
  assumes g: "fold_records H empty_fold P 0 = Inr (g, n)" and f: "f = resolve_batches H None g"
    and sel: "resolve_effective_events H P ev = Inr sel"
    and rows: "comparable (Some rows) = Some (rows_from_selection H sel f n c cov seen acct)"
    and merge: "merge_delta H rows D n d covered = Inr (rows', [])"
    and full: "fold_records H empty_fold (P @ D) 0 = Inr (g', n')" and f': "f' = resolve_batches H None g'"
    and sel': "resolve_effective_events H (P @ D) ev' = Inr sel'"
    and legacy: "no_legacy (fd_candidates f')" and twins: "no_late_twin f f'" and split: "coordinates_split n c d"
  shows "ss_state rows' = advanced_state (ss_state rows) n' covered" "ss_batches rows' = fst (batch_rows f' (c @ d))"
    "ss_records rows' = snd (batch_rows f' (c @ d))" "ss_effective rows' = effective_rows sel'"
proof -
  note rp = comparable_parts [OF rows, unfolded selection_rows_parts]
  have pre: "prefix_rows f c rows" by (simp add: prefix_rows_def rp)
  have wff: "slots_wf f" using stream_slots [OF g] unfolding slots_wf_def f resolved_slots resolve_batches_rows .
  note rest = seed_fold_rest [OF wff pre] and st = resolved_status [OF g f] and st' = resolved_status [OF full f']
  let ?done = "set (completed_ids rows)"
  have done_ids: "?done = fd_completed f" using rest(6) st(3,4) by (auto simp: batch_status_def)
  obtain s k t where s: "fold_records H (seed_fold rows) D n = Inr (s, k)"
    and shapes: "check_shapes (seed_fold rows) s (completed_ids rows) = Inr ()"
    and t: "t = resolve_batches H (Some (filter (\<lambda>b. b \<notin> ?done) (fold_batch_ids s))) s"
    and quiet: "?done \<inter> fd_tainted t = {}"
    and out: "ss_state rows' = advanced_state (ss_state rows) k covered"
      "ss_batches rows' = carry_coordinates rows (fst (batch_rows (t\<lparr>fd_completed := fd_completed t \<union> ?done\<rparr>) d))"
      "ss_records rows' = snd (batch_rows (t\<lparr>fd_completed := fd_completed t \<union> ?done\<rparr>) d)"
      "ss_effective rows' = merged_effective_rows rows (merge_candidates rows (fd_candidates t))"
    using merge by (rule merge_deltaE)
  let ?u = "t\<lparr>fd_completed := fd_completed t \<union> ?done\<rparr>"
  have "fd_tainted s \<subseteq> fd_tainted t" unfolding t using resolve_batches_tainted by blast
  then have "fd_completed f \<inter> fd_tainted s = {}" using quiet done_ids by blast
  from resumed [OF g f pre s shapes this]
  obtain h where h: "fold_records H g D n = Inr (h, k)" "agrees H g f h s" by blast
  have "h = g' \<and> k = n'" using full g h(1) by (simp add: fold_records_append)
  then have ag: "agrees H g f g' s" and gg: "fold_records H g D n = Inr (g', n')" and k: "k = n'" using h by simp_all
  have seed: "fd_completed s = fd_completed f"
    using fold_keeps_completed [OF s] rest(5) st(3,4) by (auto simp: batch_status_def)
  note dr = delta_resolved [OF ag t done_ids seed full f']
  have "fd_completed f \<subseteq> fd_completed f'" using ag st'(1) unfolding agrees_def by blast
  then have status: "batch_status ?u b = batch_status f' b" for b
    using dr(1,2) done_ids by (auto simp: batch_status_def)
  have comp: "batch_status f' b = Completed" if "b \<in> fd_completed f" for b
    using that st'(3) [of b] \<open>fd_completed f \<subseteq> fd_completed f'\<close> by (auto simp: batch_status_def)
  have um: "fd_markers ?u = fd_markers s" "fd_actions ?u = fd_actions s" by (simp_all add: t resolve_batches_rows)
  have fm: "fd_markers f' = fd_markers g'" "fd_actions f' = fd_actions g'" by (simp_all add: f' resolve_batches_rows)
  note cr = carried_rows [OF g f pre fold_records_grows [OF gg] ag split fm um status comp]
  show "ss_state rows' = advanced_state (ss_state rows) n' covered" using out(1) k by simp
  show "ss_batches rows' = fst (batch_rows f' (c @ d))" "ss_records rows' = snd (batch_rows f' (c @ d))"
    using out(2,3) cr by simp_all
  have all: "set (fd_candidates f') = set (fd_candidates f) \<union> set (fd_candidates t)"
    unfolding f' by (rule resolved_candidates [OF g f ag dr(3)])
  have later: "ev_sequence x \<le> ev_sequence y"
    if x: "x \<in> set (fd_candidates f)" and y: "y \<in> set (fd_candidates t)" and key: "rev_key x = rev_key y" for x y
  proof (cases "y \<in> set (fd_candidates s)")
    case True
    then have "n \<le> ev_sequence y" using delta_candidates [OF s] rest(2) by auto
    then show ?thesis using candidate_bound [OF g, of x] x by (simp add: f)
  next
    case False
    then obtain b where b: "b \<notin> fd_completed f" "y \<in> set (sound_candidates H s b)" using y dr(3) by blast
    then have "y \<in> set (sound_candidates H g' b)" using ag by (simp add: agrees_def)
    then have "ev_batch y = Some b" by (rule sound_candidate_batch [OF full])
    moreover have "y \<in> set (fd_candidates f')" using y all by blast
    ultimately show ?thesis using twins x key b(1) by (simp add: no_late_twin_def)
  qed
  obtain a where a: "select_candidates (fd_candidates f) = (sl_by_id sel, a, sl_conflicts sel)"
    using selection_parts [OF g sel] f by blast
  obtain a' where a': "select_candidates (fd_candidates f') = (sl_by_id sel', a', sl_conflicts sel')"
    using selection_parts [OF full sel'] f' by blast
  have leg: "no_legacy (fd_candidates f @ fd_candidates t)" "no_legacy (fd_candidates f)"
    using legacy all by (simp_all add: no_legacy_def)
  have "durable (fd_candidates f) (ss_effective rows)" using selection_durable [OF leg(2) a] rp(3) by simp
  then have "durable (fd_candidates f @ fd_candidates t) (ss_effective rows')"
    unfolding out(4) by (rule merge_candidates_durable [OF _ leg(1) later])
  moreover have "durable (fd_candidates f @ fd_candidates t) (effective_rows sel')"
    using selection_durable [OF legacy a'] durable_cong [of "fd_candidates f'" "fd_candidates f @ fd_candidates t"] all by simp
  ultimately show "ss_effective rows' = effective_rows sel'"
  proof (rule durable_unique)
    show "inj_on ev_sequence (set (fd_candidates f @ fd_candidates t))"
      using stream_candidates_inj [OF full] by (simp add: all [symmetric] f')
  qed (simp_all add: out(4) merged_sorted effective_rows_def Let_def)
qed

text \<open>C1: \<open>merge_delta\<close> refines the full selection, on these streams: the durable rows are those of a full selection over the
  prefix \<open>P\<close>, up to the publication stamp; merging the delta \<open>D\<close> returns rows and no transition;
  no candidate is a legacy arming record; no action of a batch that was open at the end of the prefix
  lies before a selected record of the same event and revision; and the coordinates split at the prefix. Then the
  rows the merge returns are those of the full
  selection over \<open>P @ D\<close>: sequence counter, covered prefix, batches with their status and coordinates, batch
  records with the cores that must be kept, winners and conflicts. Only the violation rows are not compared.\<close>

theorem merge_refines_selection:
  assumes "fold_records H empty_fold P 0 = Inr (g, n)" and "f = resolve_batches H None g"
    and "resolve_effective_events H P ev = Inr sel"
    and "comparable (Some rows) = Some (rows_from_selection H sel f n c cov seen acct)"
    and "merge_delta H rows D n d (Some covered) = Inr (rows', [])"
    and "fold_records H empty_fold (P @ D) 0 = Inr (g', n')" and "f' = resolve_batches H None g'"
    and "resolve_effective_events H (P @ D) ev' = Inr sel'"
    and "no_legacy (fd_candidates f')" and "no_late_twin f f'" and "coordinates_split n c d"
  shows "comparable (Some rows') = Some ((rows_from_selection H sel' f' n' (c @ d) (Some covered) seen acct)
    \<lparr>ss_violations := ss_violations rows'\<rparr>)"
proof -
  note mr = merge_refines [OF assms(1-5,6-11)]
  note st = comparable_parts(4) [OF assms(4), unfolded selection_rows_parts]
  have "(ss_state rows')\<lparr>sr_record_path := None, sr_stamped_at := None\<rparr>
      = ss_state (rows_from_selection H sel' f' n' (c @ d) (Some covered) seen acct)"
    using st unfolding mr(1) selection_rows_parts
    by (cases covered; cases "ss_state rows") (simp add: advanced_state_def)
  then show ?thesis
    by (simp add: comparable_def) (rule selector_rows.equality, simp_all add: mr(2-4) selection_rows_parts)
qed

definition sample_evt :: "nat \<Rightarrow> effective_event" where
  "sample_evt n = \<lparr>ev_id = ''pm:1'', ev_rev = 0, ev_status = ActiveEvt,
     ev_hash = event_content_hash sample_digest sample_event, ev_batch = None, ev_record = Some sample_event,
     ev_sequence = n\<rparr>"

definition sample_fold :: "nat list \<Rightarrow> selector_fold" where
  "sample_fold ns = empty_fold\<lparr>fd_candidates := map sample_evt ns\<rparr>"

lemma sample_fold_step: "fold_one sample_digest (sample_fold ns) (JObj sample_event) n = Inr (sample_fold (ns @ [n]))"
proof -
  have "candidate_from_evt sample_digest sample_event n = Inr (sample_evt n)"
    by (simp add: candidate_from_evt_def event_revision_def validate_revision_def jget_or_def
        dget_or_def sample_event_def sample_evt_def)
  then show ?thesis by (simp add: fold_one_def sample_fold_def empty_fold_def) (simp add: sample_event_def)
qed

lemma sample_fold_resolved:
  "resolve_batches sample_digest ids (sample_fold ns) = (if ids = None \<or> ids = Some [] then sample_fold ns
     else resolve_batches sample_digest ids (sample_fold ns))"
  by (auto simp: resolve_batches_def sample_fold_def empty_fold_def sorted_set_def dkeys_def)

lemma sample_fold_selected:
  assumes "fold_records sample_digest empty_fold rs 0 = Inr (sample_fold ns, k)"
  shows "\<exists>sel. resolve_effective_events sample_digest rs [] = Inr sel"
proof -
  have "acknowledge_all sample_digest (sample_fold ns) [] = Inr []"
    by (simp add: acknowledge_all_def sample_fold_def empty_fold_def)
  moreover have "resolve_batches sample_digest None (sample_fold ns) = sample_fold ns"
    using sample_fold_resolved [of None ns] by simp
  moreover obtain w a c where "select_candidates (fd_candidates (sample_fold ns)) = (w, a, c)" using prod_cases3 .
  ultimately show ?thesis using assms by (simp add: resolve_effective_events_def Let_def)
qed

lemma sample_legacy: "no_legacy (map sample_evt ns)"
  by (simp add: no_legacy_def is_legacy_arming_state_def is_legacy_arming_record_def sample_evt_def sample_event_def)

theorem merge_refines_selection_witness:
  "\<exists>sel rows rows' sel'. resolve_effective_events sample_digest [JObj sample_event] [] = Inr sel
     \<and> rows = rows_from_selection sample_digest sel (sample_fold [0]) 1 [] (Some (''s'', 70)) False None
     \<and> merge_delta sample_digest rows [JObj sample_event] 1 [] (Some (''s'', 140)) = Inr (rows', [])
     \<and> resolve_effective_events sample_digest [JObj sample_event, JObj sample_event] [] = Inr sel'
     \<and> ss_effective rows' = effective_rows sel'"
proof -
  let ?e = "JObj sample_event" and ?f = "sample_fold [0]"
  have e: "sample_fold [] = empty_fold" by (simp add: sample_fold_def empty_fold_def)
  have g: "fold_records sample_digest empty_fold [?e] 0 = Inr (?f, 1)"
    "fold_records sample_digest empty_fold ([?e] @ [?e]) 0 = Inr (sample_fold [0, 1], 2)"
    using sample_fold_step [of "[]" 0] sample_fold_step [of "[0]" 1] by (simp_all add: e numeral_2_eq_2)
  have r: "resolve_batches sample_digest None (sample_fold ns) = sample_fold ns"
    "resolve_batches sample_digest (Some []) (sample_fold ns) = sample_fold ns" for ns
    using sample_fold_resolved [of None ns] sample_fold_resolved [of "Some []" ns] by simp_all
  obtain sel sel' where sel: "resolve_effective_events sample_digest [?e] [] = Inr sel"
    "resolve_effective_events sample_digest ([?e] @ [?e]) [] = Inr sel'"
    using sample_fold_selected [OF g(1)] sample_fold_selected [OF g(2)] by blast
  define rows where "rows = rows_from_selection sample_digest sel ?f 1 [] (Some (''s'', 70)) False None"
  have ids: "fold_batch_ids (sample_fold ns) = []" for ns
    by (simp add: fold_batch_ids_def sample_fold_def empty_fold_def dkeys_def sorted_set_def)
  have none: "ss_batches rows = []" "ss_records rows = []"
    by (simp_all add: rows_def selection_rows_parts batch_rows_def ids)
  then have seed: "seed_fold rows = sample_fold []" "completed_ids rows = []" by (simp_all add: seed_fold_def e completed_ids_def)
  obtain rows' where m: "merge_delta sample_digest rows [?e] 1 [] (Some (''s'', 140)) = Inr (rows', [])"
  proof -
    have "fd_resolutions (sample_fold ns) = []" "check_shapes a b [] = Inr ()" "sorted_set ([] :: string list) = []" for ns a b
      by (simp_all add: sample_fold_def empty_fold_def check_shapes_def sorted_set_def)
    then show ?thesis using that sample_fold_step [of "[]" 1]
      by (simp add: merge_delta_def seed lift_journal_def ids r(2) Let_def batch_rows_def)
  qed
  have "comparable (Some rows') = Some ((rows_from_selection sample_digest sel' (sample_fold [0, 1]) 2 ([] @ []) (Some (''s'', 140)) False None)
    \<lparr>ss_violations := ss_violations rows'\<rparr>)"
  proof (rule merge_refines_selection [OF g(1) r(1) [symmetric] sel(1) _ m g(2) r(1) [symmetric] sel(2),
        where c = "[]" and cov = "Some (''s'', 70)"])
    show "no_legacy (fd_candidates (sample_fold [0, 1]))"
      using sample_legacy [of "[0, 1]"] by (simp add: sample_fold_def)
  qed (simp_all add: rows_def comparable_def no_late_twin_def coordinates_split_def sample_evt_def sample_fold_def
      rows_from_selection_def split: prod.splits)
  from arg_cong [OF this, of "\<lambda>r. ss_effective (the r)"] have "ss_effective rows' = effective_rows sel'"
    by (simp add: comparable_def selection_rows_parts)
  then show ?thesis using sel m rows_def by auto
qed

end
