(* ===== verification/Reclaim_Geometry.thy ===== *)
theory Reclaim_Geometry
  imports Py_Json
begin

text \<open>
  \<open>bin/_lib_reclaim_planner.py\<close>, section "pure geometry": which page of an auto-vacuum SQLite file
  is a pointer-map page, where the file ends after a full incremental vacuum, and which pages the
  next single-page vacuum steps remove. Pages and sizes are Python integers; \<open>//\<close> and \<open>%\<close> are
  \<^const>\<open>divide\<close> and \<^const>\<open>modulo\<close> on \<^typ>\<open>int\<close>. A usable size of at least 5 bytes is what SQLite
  guarantees (its minimum is 480); below it Python would raise \<open>ZeroDivisionError\<close>.
\<close>

section \<open>Refusals\<close>

datatype reclaim_error = Refused string string | StructError | IndexError | KeyError

definition refuse :: "string \<Rightarrow> string \<Rightarrow> reclaim_error + 'a" where
  "refuse reason detail = Inl (Refused reason detail)"

definition REFUSAL_REASONS :: "string list" where
  "REFUSAL_REASONS = [''wal_index_unreadable'', ''wal_checksum_mismatch'', ''wal_endpoint_mismatch'',
     ''read_budget_exhausted'', ''unsupported_geometry'', ''malformed_page'', ''cyclic_freelist'',
     ''identity_changed'', ''sqlite_unaudited'']"

definition AUDITED_SQLITE_MIN :: "int list" where "AUDITED_SQLITE_MIN = [3, 37, 2]"
definition AUDITED_SQLITE_MAX :: "int list" where "AUDITED_SQLITE_MAX = [3, 54, 1]"

definition sqlite_audited :: "int list \<Rightarrow> bool" where
  "sqlite_audited version_info \<longleftrightarrow> AUDITED_SQLITE_MIN \<le> take 3 version_info
     \<and> take 3 version_info \<le> AUDITED_SQLITE_MAX"

section \<open>Geometry\<close>

definition PENDING_BYTE :: int where "PENDING_BYTE = 0x40000000"

definition pending_byte_page :: "int \<Rightarrow> int" where
  "pending_byte_page page_size = PENDING_BYTE div page_size + 1"

definition ptrmap_pageno :: "int \<Rightarrow> int \<Rightarrow> int \<Rightarrow> int" where
  "ptrmap_pageno page usable page_size =
     (if page < 2 then 0
      else let per = usable div 5 + 1; ret = ((page - 2) div per) * per + 2
        in if ret = pending_byte_page page_size then ret + 1 else ret)"

definition is_ptrmap :: "int \<Rightarrow> int \<Rightarrow> int \<Rightarrow> bool" where
  "is_ptrmap page usable page_size \<longleftrightarrow> page \<ge> 2 \<and> ptrmap_pageno page usable page_size = page"

text \<open>The shared loop: step down while on a pointer-map or the pending-byte page.\<close>

function skip_down :: "int \<Rightarrow> int \<Rightarrow> int \<Rightarrow> int" where
  "skip_down usable page_size fin =
     (if is_ptrmap fin usable page_size \<or> fin = pending_byte_page page_size
      then skip_down usable page_size (fin - 1) else fin)"
  by pat_completeness auto
termination
  by (relation "measure (\<lambda>(usable, page_size, fin). 2 * nat fin
      + (if fin = pending_byte_page page_size then 1 else 0))")
    (auto simp: is_ptrmap_def)

declare skip_down.simps [simp del]

definition final_db_size :: "int \<Rightarrow> int \<Rightarrow> int \<Rightarrow> int \<Rightarrow> int" where
  "final_db_size n_orig n_free usable page_size =
     (let entries = usable div 5;
          n_ptrmap = (n_free - n_orig + ptrmap_pageno n_orig usable page_size + entries) div entries;
          fin = n_orig - n_free - n_ptrmap;
          pending = pending_byte_page page_size;
          fin = (if n_orig > pending \<and> fin < pending then fin - 1 else fin)
      in skip_down usable page_size fin)"

record tail_step =
  ts_page :: "int option"
  ts_n_fin :: int
  ts_new_end :: int

fun tail_loop :: "int \<Rightarrow> int \<Rightarrow> nat \<Rightarrow> int \<Rightarrow> int \<Rightarrow> reclaim_error + tail_step list" where
  "tail_loop usable page_size 0 endp free = Inr []"
| "tail_loop usable page_size (Suc k) endp free =
     (if free \<le> 0 \<or> endp \<le> 1 then Inr []
      else if free \<ge> endp then refuse ''unsupported_geometry'' ''freelist count >= page count''
      else let n_fin = final_db_size endp free usable page_size;
               skipped = is_ptrmap endp usable page_size \<or> endp = pending_byte_page page_size in
        if endp \<le> n_fin then Inr []
        else let new_end = skip_down usable page_size (endp - 1) in
          rbind (tail_loop usable page_size k new_end (if skipped then free else free - 1))
            (\<lambda>steps. Inr (\<lparr>ts_page = (if skipped then None else Some endp), ts_n_fin = n_fin,
                 ts_new_end = new_end\<rparr> # steps)))"

definition tail_steps :: "int \<Rightarrow> int \<Rightarrow> int \<Rightarrow> int \<Rightarrow> int \<Rightarrow> reclaim_error + tail_step list" where
  "tail_steps page_count freelist_count max_steps usable page_size =
     tail_loop usable page_size (nat max_steps) page_count freelist_count"

section \<open>Lemmas\<close>

definition vacant :: "int \<Rightarrow> int \<Rightarrow> int \<Rightarrow> bool" where
  "vacant usable page_size p \<longleftrightarrow> is_ptrmap p usable page_size \<or> p = pending_byte_page page_size"

lemma skip_down_result:
  "skip_down usable page_size fin \<le> fin
   \<and> \<not> vacant usable page_size (skip_down usable page_size fin)
   \<and> (\<forall>p. skip_down usable page_size fin < p \<and> p \<le> fin \<longrightarrow> vacant usable page_size p)"
proof (induction usable page_size fin rule: skip_down.induct)
  case (1 usable page_size fin)
  show ?case
  proof (cases "vacant usable page_size fin")
    case True
    then have eq: "skip_down usable page_size fin = skip_down usable page_size (fin - 1)"
      by (subst skip_down.simps) (simp add: vacant_def)
    from 1 True have IH: "skip_down usable page_size (fin - 1) \<le> fin - 1"
      "\<not> vacant usable page_size (skip_down usable page_size (fin - 1))"
      "\<forall>p. skip_down usable page_size (fin - 1) < p \<and> p \<le> fin - 1 \<longrightarrow> vacant usable page_size p"
      by (auto simp: vacant_def)
    have "vacant usable page_size p" if "skip_down usable page_size (fin - 1) < p" "p \<le> fin" for p
      using IH(3) True that by (cases "p = fin") auto
    then show ?thesis using IH by (simp add: eq)
  next
    case False
    then have "skip_down usable page_size fin = fin"
      by (subst skip_down.simps) (simp add: vacant_def)
    then show ?thesis using False by auto
  qed
qed

text \<open>The walk of the steps: each starts where the previous one ended.\<close>

fun walk :: "int \<Rightarrow> int \<Rightarrow> int \<Rightarrow> tail_step list \<Rightarrow> bool" where
  "walk usable page_size endp [] = True"
| "walk usable page_size endp (s # steps) =
     ((case ts_page s of None \<Rightarrow> vacant usable page_size endp
        | Some p \<Rightarrow> p = endp \<and> \<not> vacant usable page_size p)
      \<and> ts_n_fin s < endp \<and> 1 < endp
      \<and> ts_new_end s < endp \<and> \<not> vacant usable page_size (ts_new_end s)
      \<and> (\<forall>p. ts_new_end s < p \<and> p < endp \<longrightarrow> vacant usable page_size p)
      \<and> walk usable page_size (ts_new_end s) steps)"

definition moved :: "tail_step list \<Rightarrow> int list" where
  "moved steps = concat (map (\<lambda>s. case ts_page s of None \<Rightarrow> [] | Some p \<Rightarrow> [p]) steps)"

lemma moved_simps [simp]:
  "moved [] = []"
  "moved (s # steps) = (case ts_page s of None \<Rightarrow> [] | Some p \<Rightarrow> [p]) @ moved steps"
  by (simp_all add: moved_def)

lemma tail_loop_walk:
  "tail_loop usable page_size k endp free = Inr steps \<Longrightarrow>
     walk usable page_size endp steps \<and> length steps \<le> k \<and> int (length (moved steps)) \<le> max 0 free"
proof (induction k arbitrary: endp free steps)
  case (Suc k)
  show ?case
  proof (cases "free \<le> 0 \<or> endp \<le> 1 \<or> endp \<le> final_db_size endp free usable page_size")
    case True
    then have "steps = []" using Suc.prems
      by (auto simp: refuse_def Let_def split: if_splits)
    then show ?thesis by simp
  next
    case False
    define new_end where "new_end = skip_down usable page_size (endp - 1)"
    define free' where "free' = (if vacant usable page_size endp then free else free - 1)"
    obtain rest where rest: "tail_loop usable page_size k new_end free' = Inr rest"
      and steps: "steps = \<lparr>ts_page = (if vacant usable page_size endp then None else Some endp),
         ts_n_fin = final_db_size endp free usable page_size, ts_new_end = new_end\<rparr> # rest"
      using Suc.prems False
      by (auto simp: refuse_def Let_def rbind_Inr_iff vacant_def new_end_def free'_def split: if_splits)
    note IH = Suc.IH [OF rest]
    have "new_end < endp" "\<not> vacant usable page_size new_end"
      "\<forall>p. new_end < p \<and> p < endp \<longrightarrow> vacant usable page_size p"
      using skip_down_result [of usable page_size "endp - 1"] by (auto simp: new_end_def)
    then show ?thesis
      using IH False by (auto simp: steps free'_def split: if_splits)
  qed
qed simp

lemma walk_ends:
  "walk usable page_size endp steps \<Longrightarrow> sorted_wrt (>) (endp # map ts_new_end steps)"
  by (induction steps arbitrary: endp) (auto intro: less_trans)

lemma walk_moved:
  "walk usable page_size endp steps \<Longrightarrow> sorted_wrt (>) (moved steps)
     \<and> (\<forall>p \<in> set (moved steps). p \<le> endp \<and> 1 < p \<and> \<not> vacant usable page_size p)"
  by (induction steps arbitrary: endp) (fastforce split: option.splits)+

text \<open>Between the old and the new end every page is moved or vacant.\<close>

lemma walk_covers:
  "walk usable page_size endp steps \<Longrightarrow> last_end = List.last (endp # map ts_new_end steps) \<Longrightarrow>
     last_end < p \<Longrightarrow> p \<le> endp \<Longrightarrow> p \<in> set (moved steps) \<or> vacant usable page_size p"
proof (induction steps arbitrary: endp)
  case (Cons s steps)
  then show ?case
    by (cases "p = endp"; cases "p \<le> ts_new_end s") (auto split: option.splits)
qed simp

section \<open>The end of a full vacuum\<close>

text \<open>The pages that hold data: neither a pointer map nor the pending-byte page.\<close>

definition data_pages :: "int \<Rightarrow> int \<Rightarrow> int \<Rightarrow> int" where
  "data_pages usable page_size n = int (card {p \<in> {1..n}. \<not> vacant usable page_size p})"

lemma ptrmap_below:
  assumes "0 \<le> usable" "2 \<le> p" "p < pending_byte_page page_size"
  shows "ptrmap_pageno p usable page_size = ((p - 2) div (usable div 5 + 1)) * (usable div 5 + 1) + 2"
    and "is_ptrmap p usable page_size \<longleftrightarrow> (p - 2) mod (usable div 5 + 1) = 0"
proof -
  let ?per = "usable div 5 + 1"
  have "((p - 2) div ?per) * ?per \<le> p - 2"
    using assms(1,2) pos_mod_sign [of ?per "p - 2"] by (simp add: minus_mod_eq_div_mult [symmetric])
  then have *: "((p - 2) div ?per) * ?per + 2 \<noteq> pending_byte_page page_size"
    using assms(3) by linarith
  then show 1: "ptrmap_pageno p usable page_size = ((p - 2) div ?per) * ?per + 2"
    using assms(2) by (simp add: ptrmap_pageno_def Let_def)
  show "is_ptrmap p usable page_size \<longleftrightarrow> (p - 2) mod ?per = 0"
    unfolding is_ptrmap_def 1 using assms(2) div_mult_mod_eq [of "p - 2" ?per] by linarith
qed

lemma div_step:
  fixes a per :: int
  assumes "0 < per"
  shows "(a + 1) div per = a div per + (if (a + 1) mod per = 0 then 1 else 0)"
proof -
  have div: "a = per * (a div per) + a mod per" by simp
  show ?thesis
  proof (cases "a mod per = per - 1")
    case True
    have "a = per * (a div per) + (per - 1)" using div unfolding True .
    then have "a + 1 = per * (a div per) + per" by linarith
    also have "\<dots> = per * (a div per + 1)" by (simp add: distrib_left)
    finally have "a + 1 = per * (a div per + 1)" .
    then have "(a + 1) div per = a div per + 1" "(a + 1) mod per = 0" using assms by simp_all
    then show ?thesis by simp
  next
    case False
    then have "a mod per + 1 < per" using assms pos_mod_bound [of per a] by linarith
    moreover have "a + 1 = per * (a div per) + (a mod per + 1)" using mult_div_mod_eq [of per a] by linarith
    moreover have "0 \<le> a mod per" using assms by simp
    ultimately have "(a + 1) div per = a div per" "(a + 1) mod per = a mod per + 1"
      by (metis add.commute add_increasing2 div_mult_self4 div_pos_pos_trivial add.left_neutral
          assms less_irrefl zero_le_one, metis add_increasing2 mod_mult_self4 mod_pos_pos_trivial zero_le_one)
    then show ?thesis using \<open>0 \<le> a mod per\<close> by simp
  qed
qed

lemma data_pages_closed:
  assumes "0 \<le> usable" "1 \<le> n" "n < pending_byte_page page_size"
  shows "data_pages usable page_size n = n - 1 - (n - 2) div (usable div 5 + 1)"
  using assms(2,3)
proof (induction n rule: int_ge_induct)
  case base
  have "{p \<in> {1..1}. \<not> vacant usable page_size p} = {1 :: int}"
    using base by (auto simp: vacant_def is_ptrmap_def)
  moreover have "(-1 :: int) div (usable div 5 + 1) = -1"
    using assms(1) by (intro div_eq_minus1) simp
  ultimately show ?case by (simp add: data_pages_def)
next
  case (step n)
  let ?per = "usable div 5 + 1"
  define A where "A = {p \<in> {1..n}. \<not> vacant usable page_size p}"
  have "finite A" unfolding A_def by (rule finite_subset [of _ "{1..n}"]) auto
  moreover have "n + 1 \<notin> A" by (simp add: A_def)
  moreover have "{p \<in> {1..n + 1}. \<not> vacant usable page_size p}
      = (if vacant usable page_size (n + 1) then A else insert (n + 1) A)"
    using step.hyps by (auto simp: le_less A_def)
  ultimately have "data_pages usable page_size (n + 1) = data_pages usable page_size n
      + (if vacant usable page_size (n + 1) then 0 else 1)"
    unfolding data_pages_def A_def [symmetric] by simp
  moreover have "vacant usable page_size (n + 1) \<longleftrightarrow> (n - 1) mod ?per = 0"
    using ptrmap_below(2) [OF assms(1), of "n + 1"] step by (auto simp: vacant_def)
  moreover have "(n - 1) div ?per = (n - 2) div ?per + (if (n - 1) mod ?per = 0 then 1 else 0)"
    using div_step [of ?per "n - 2"] assms(1) by simp
  ultimately show ?case using step by simp
qed

text \<open>The arithmetic of \<open>finalDbSize\<close>, with the last group written as quotient and remainder.\<close>

lemma final_arith:
  fixes e f g r :: int
  assumes "0 < e" "0 \<le> r" "r \<le> e" and n: "n = 2 + g * (e + 1) + r"
  defines "fin \<equiv> n - f - (f - r + e) div e"
  shows "fin - 2 = (g - (f - r) div e - 1) * (e + 1) + (e - (f - r) mod e)"
    and "fin - 1 - (fin - 2) div (e + 1) = n - 1 - g - f"
    and "(fin - 2) mod (e + 1) \<noteq> 0"
proof -
  define q t where "q = (f - r) div e" and "t = (f - r) mod e"
  have t: "0 \<le> t" "t < e" and fr: "f - r = e * q + t" using assms(1) by (simp_all add: q_def t_def)
  have "(f - r + e) div e = q + 1"
    unfolding q_def by (rule div_add_self2) (use assms(1) in simp)
  then have "fin = 2 + g * (e + 1) + r - f - q - 1" by (simp add: fin_def n)
  then show *: "fin - 2 = (g - (f - r) div e - 1) * (e + 1) + (e - (f - r) mod e)"
    using fr unfolding q_def [symmetric] t_def [symmetric] by (simp add: algebra_simps)
  have rem: "0 < e - t" "e - t < e + 1" using t by simp_all
  then have div: "(fin - 2) div (e + 1) = g - q - 1" and md: "(fin - 2) mod (e + 1) = e - t"
    unfolding * q_def [symmetric] t_def [symmetric] by (simp_all add: div_pos_pos_trivial)
  show "(fin - 2) mod (e + 1) \<noteq> 0" using md rem by simp
  show "fin - 1 - (fin - 2) div (e + 1) = n - 1 - g - f"
    unfolding div using \<open>fin = 2 + g * (e + 1) + r - f - q - 1\<close> n by simp
qed

lemma below_quotient:
  fixes x e :: int
  assumes "x \<le> -2" "0 < e" shows "x - x div (e + 1) < 0"
proof -
  define k where "k = x div (e + 1)"
  have x: "x = (e + 1) * k + x mod (e + 1)" "x mod (e + 1) \<le> e"
    using assms(2) pos_mod_bound [of "e + 1" x] by (simp_all add: k_def)
  have "k < 0" unfolding k_def using assms by (intro div_neg_pos_less0) simp_all
  then show ?thesis
  proof (cases "k = -1")
    case False
    then have "e * k \<le> e * (-2)" using \<open>k < 0\<close> assms(2) by (intro mult_left_mono) simp_all
    moreover have "x - k = e * k + x mod (e + 1)"
      using x(1) by (simp add: distrib_right)
    ultimately show ?thesis using x(2) assms(2) by (simp add: k_def [symmetric])
  qed (use assms in \<open>simp add: k_def [symmetric]\<close>)
qed

lemma skip_down_id: "\<not> vacant usable page_size fin \<Longrightarrow> skip_down usable page_size fin = fin"
  by (subst skip_down.simps) (simp add: vacant_def)

lemma final_db_size_data:
  assumes usable: "5 \<le> usable" and n: "1 \<le> n" "n < pending_byte_page page_size"
    and f: "0 \<le> f" "f < data_pages usable page_size n"
  shows "let fin = final_db_size n f usable page_size in
     1 \<le> fin \<and> fin \<le> n \<and> \<not> vacant usable page_size fin
     \<and> data_pages usable page_size fin = data_pages usable page_size n - f"
proof -
  define e g r where "e = usable div 5" and "g = (n - 2) div (e + 1)" and "r = (n - 2) mod (e + 1)"
  have e: "0 < e" using usable by (simp add: e_def pos_imp_zdiv_pos_iff)
  have closed: "data_pages usable page_size m = m - 1 - (m - 2) div (e + 1)"
    if "1 \<le> m" "m < pending_byte_page page_size" for m
    using data_pages_closed [of usable m page_size] usable that by (simp add: e_def)
  define fin where "fin = n - f - (f - r + e) div e"
  have split: "n = 2 + g * (e + 1) + r" "0 \<le> r" "r \<le> e"
    using e div_mult_mod_eq [of "n - 2" "e + 1"] pos_mod_bound [of "e + 1" "n - 2"]
    by (simp_all add: g_def r_def)
  note a = final_arith [OF e split(2,3,1), of f, folded fin_def]
  have fd: "f \<le> n - 2 - g" using f(2) closed [OF n] by (simp add: g_def)
  have fin1: "1 \<le> fin"
  proof -
    have "fin - 1 - (fin - 2) div (e + 1) \<ge> 1" using a(2) fd by simp
    then have "0 \<le> (fin - 2) - (fin - 2) div (e + 1)" by simp
    moreover have "(fin - 2) - (fin - 2) div (e + 1) < 0" if "fin < 1"
      using that e by (intro below_quotient) simp_all
    ultimately show ?thesis by linarith
  qed
  have "0 \<le> (f - r + e) div e"
    using e f(1) split(3) by (intro pos_imp_zdiv_nonneg_iff [THEN iffD2]) simp_all
  then have fin_n: "fin \<le> n" using f(1) by (simp add: fin_def)
  have "(f - n + ptrmap_pageno n usable page_size + e) div e = (f - r + e) div e"
  proof (cases "n = 1")
    case True
    then have "f = 0" using fd f(1) e by (simp add: g_def div_eq_minus1)
    moreover have "r = e" using True e by (simp add: r_def zmod_minus1)
    ultimately show ?thesis using True e by (simp add: ptrmap_pageno_def)
  next
    case False
    then have "ptrmap_pageno n usable page_size = g * (e + 1) + 2"
      using ptrmap_below(1) [of usable n page_size] usable n by (simp add: e_def g_def)
    then show ?thesis using split(1) by simp
  qed
  moreover have fresh: "\<not> vacant usable page_size fin"
    using ptrmap_below(2) [of usable fin page_size] usable fin_n n a(3)
    by (auto simp: vacant_def e_def is_ptrmap_def)
  ultimately have final: "final_db_size n f usable page_size = fin"
    using n by (simp add: final_db_size_def e_def [symmetric] fin_def [symmetric] skip_down_id Let_def)
  have "data_pages usable page_size fin = data_pages usable page_size n - f"
    using closed [of fin] closed [OF n] fin1 fin_n n(2) a(2) by (simp add: g_def)
  then show ?thesis using final fin1 fin_n fresh by (simp add: Let_def)
qed

section \<open>Properties\<close>

text \<open>C37: \<open>final_db_size\<close> is exact: for a file that ends below the pending-byte page, with fewer free
  pages than data pages, the predicted end is a data page, lies inside the file, and keeps exactly
  the data pages that are not free, so a full vacuum neither overshoots nor leaves a free page.\<close>

theorem final_db_size_exact:
  assumes "5 \<le> usable" and "1 \<le> n" and "n < pending_byte_page page_size"
    and "0 \<le> f" and "f < data_pages usable page_size n"
  shows "1 \<le> final_db_size n f usable page_size \<and> final_db_size n f usable page_size \<le> n
     \<and> \<not> is_ptrmap (final_db_size n f usable page_size) usable page_size
     \<and> data_pages usable page_size (final_db_size n f usable page_size)
         = data_pages usable page_size n - f"
  using final_db_size_data [OF assms] by (simp add: Let_def vacant_def)

theorem final_db_size_exact_witness:
  "data_pages 512 512 (final_db_size 500 120 512 512) = 375"
proof -
  have "(500 :: int) < pending_byte_page 512" by (simp add: pending_byte_page_def PENDING_BYTE_def)
  then have d: "data_pages 512 512 500 = 495"
    by (subst data_pages_closed) simp_all
  show ?thesis
    using final_db_size_exact [of 512 500 512 120] d
    by (simp add: pending_byte_page_def PENDING_BYTE_def)
qed

text \<open>The vacuum steps walk the file's end down: every step starts at the page the previous one
  ended at, moves it unless it is a pointer-map or the pending-byte page, and ends on the next
  data page below; at most the requested number of steps and at most as many moved pages as there
  are free ones, no page moved twice, and every page between the old and the new end is either
  moved or vacant.\<close>

theorem tail_steps_walk:
  assumes "tail_steps page_count freelist_count max_steps usable page_size = Inr steps"
  shows "walk usable page_size page_count steps
    \<and> length steps \<le> nat max_steps \<and> int (length (moved steps)) \<le> max 0 freelist_count
    \<and> sorted_wrt (>) (moved steps)
    \<and> (\<forall>p. List.last (page_count # map ts_new_end steps) < p \<and> p \<le> page_count
        \<longrightarrow> p \<in> set (moved steps) \<or> vacant usable page_size p)"
proof -
  have w: "walk usable page_size page_count steps \<and> length steps \<le> nat max_steps
      \<and> int (length (moved steps)) \<le> max 0 freelist_count"
    using assms by (intro tail_loop_walk) (simp add: tail_steps_def)
  then show ?thesis using walk_moved walk_covers [OF _ refl] by blast
qed

theorem tail_steps_walk_witness:
  "\<exists>steps. tail_steps 107 3 4 512 512 = Inr steps \<and> moved steps = [107, 106, 104]
     \<and> walk 512 512 107 steps"
proof -
  have *: "tail_steps 107 3 4 512 512 = Inr [\<lparr>ts_page = Some 107, ts_n_fin = 103, ts_new_end = 106\<rparr>,
      \<lparr>ts_page = Some 106, ts_n_fin = 103, ts_new_end = 104\<rparr>,
      \<lparr>ts_page = Some 104, ts_n_fin = 103, ts_new_end = 103\<rparr>]"
    by code_simp
  then show ?thesis using tail_steps_walk [OF *] by simp
qed

end
