(* ===== verification/Reclaim_Plan.thy ===== *)
theory Reclaim_Plan
  imports Reclaim_Geometry "HOL-Library.Word"
begin

text \<open>
  \<open>bin/_lib_reclaim_planner.py\<close>, from \<open>_varint\<close> to \<open>_prefix_plan\<close>: the references of a b-tree
  page, the walk of the freelist, and the plan of one chunk with its reservation. A page image is
  its list of bytes; \<open>read_page\<close> is the reader's operation and a parameter here. \<open>H\<close> is
  \<open>hashlib.sha256(\<dots>).hexdigest()\<close>.
\<close>

type_synonym image = "8 word list"

section \<open>Reading bytes\<close>

text \<open>\<open>image[i]\<close> for a non-negative index.\<close>

definition byte_at :: "image \<Rightarrow> nat \<Rightarrow> reclaim_error + nat" where
  "byte_at img i = (if i < length img then Inr (unat (img ! i)) else Inl IndexError)"

definition be_value :: "image \<Rightarrow> nat" where
  "be_value bs = foldl (\<lambda>a b. 256 * a + unat b) 0 bs"

text \<open>\<open>struct.unpack(">H", image[i:i+2])\<close> and \<open>struct.unpack(">I", image[i:i+4])\<close>: a slice is short
  at the end of the image, and then \<open>unpack\<close> raises.\<close>

definition unpack_be :: "nat \<Rightarrow> image \<Rightarrow> nat \<Rightarrow> reclaim_error + nat" where
  "unpack_be w img i = (let bs = take w (drop i img) in
     if length bs = w then Inr (be_value bs) else Inl StructError)"

text \<open>The same with a computed offset, which Python counts from the end when it is negative.\<close>

definition py_slice :: "image \<Rightarrow> int \<Rightarrow> int \<Rightarrow> image" where
  "py_slice img a b = (let n = int (length img);
     norm = (\<lambda>i. nat (if i < 0 then max 0 (i + n) else min i n))
     in take (norm b - norm a) (drop (norm a) img))"

definition unpack_at :: "image \<Rightarrow> int \<Rightarrow> reclaim_error + nat" where
  "unpack_at img e = (let bs = py_slice img e (e + 4) in
     if length bs = 4 then Inr (be_value bs) else Inl StructError)"

text \<open>\<open>_varint\<close>: at most eight 7-bit bytes, then one of eight bits.\<close>

fun varint_loop :: "image \<Rightarrow> nat \<Rightarrow> nat \<Rightarrow> nat \<Rightarrow> reclaim_error + nat \<times> nat" where
  "varint_loop img offset 0 acc = rbind (byte_at img offset) (\<lambda>b. Inr (256 * acc + b, offset + 1))"
| "varint_loop img offset (Suc k) acc = rbind (byte_at img offset) (\<lambda>b.
     let acc = 128 * acc + b mod 128 in
     if b < 128 then Inr (acc, offset + 1) else varint_loop img (offset + 1) k acc)"

definition varint :: "image \<Rightarrow> nat \<Rightarrow> reclaim_error + nat \<times> nat" where
  "varint img offset = varint_loop img offset 8 0"

section \<open>The references of a b-tree page\<close>

record page_refs =
  pr_kind :: nat
  pr_children :: "int list"
  pr_heads :: "int list"

definition malformed :: "string \<Rightarrow> reclaim_error + 'a" where
  "malformed detail = refuse ''malformed_page'' detail"

text \<open>One cell: its child (interior pages) and its overflow head (payload past the local part).\<close>

definition btree_cell :: "image \<Rightarrow> int \<Rightarrow> nat \<Rightarrow> nat \<Rightarrow> int \<Rightarrow> int \<Rightarrow> nat \<Rightarrow>
    reclaim_error + int list \<times> int list" where
  "btree_cell img usable kind hdr min_local max_local i =
     rbind (unpack_be 2 img 3) (\<lambda>ncell.
     rbind (unpack_be 2 img (hdr + 2 * i)) (\<lambda>p.
       if \<not> (hdr + 2 * ncell \<le> p \<and> int p < usable) then malformed ''cell pointer''
       else rbind (if kind = 2 \<or> kind = 5
                   then rbind (unpack_be 4 img p) (\<lambda>c. Inr ([int c], p + 4)) else Inr ([], p))
         (\<lambda>(children, cursor).
           if kind = 5 then Inr (children, [])
           else rbind (varint img cursor) (\<lambda>(payload, cursor).
                rbind (if kind = 13 then varint img cursor else Inr (0, cursor)) (\<lambda>(_, cursor).
             if int payload > max_local
             then let local = min_local + (int payload - min_local) mod (usable - 4);
                      local = (if local > max_local then min_local else local);
                      e = int cursor + local
                  in if e + 4 > usable then malformed ''cell overflow''
                     else rbind (unpack_at img e) (\<lambda>h. Inr (children, [int h]))
             else if int cursor + int payload > usable then malformed ''cell payload''
             else Inr (children, []))))))"

definition page_kind_ok :: "nat \<Rightarrow> bool" where
  "page_kind_ok kind \<longleftrightarrow> kind = 2 \<or> kind = 5 \<or> kind = 10 \<or> kind = 13"

definition btree_body :: "image \<Rightarrow> int \<Rightarrow> reclaim_error + page_refs" where
  "btree_body img usable = rbind (byte_at img 0) (\<lambda>kind.
     if \<not> page_kind_ok kind then malformed (''page type '' @ nat_str kind)
     else let interior = (kind = 2 \<or> kind = 5); hdr = (if interior then 12 else 8) in
       rbind (unpack_be 2 img 3) (\<lambda>ncell.
         if int (hdr + 2 * ncell) > usable then malformed ''cell count''
         else let min_local = (usable - 12) * 32 div 255 - 23;
                  max_local = (if kind = 13 then usable - 35 else (usable - 12) * 64 div 255 - 23) in
           rbind (rmap (btree_cell img usable kind hdr min_local max_local) [0..<ncell]) (\<lambda>cells.
           rbind (if interior then rbind (unpack_be 4 img 8) (\<lambda>c. Inr [int c]) else Inr [])
             (\<lambda>rightmost. Inr \<lparr>pr_kind = kind, pr_children = concat (map fst cells) @ rightmost,
                pr_heads = concat (map snd cells)\<rparr>))))"

text \<open>The \<open>except (IndexError, struct.error)\<close> clause and the final range check.\<close>

definition first_bad :: "int \<Rightarrow> int list \<Rightarrow> int option" where
  "first_bad page_count refs = List.find (\<lambda>r. \<not> (2 \<le> r \<and> r \<le> page_count)) refs"

definition btree_refs :: "image \<Rightarrow> int \<Rightarrow> int \<Rightarrow> reclaim_error + page_refs" where
  "btree_refs img usable page_count = (case btree_body img usable of
     Inl (Refused r d) \<Rightarrow> Inl (Refused r d)
   | Inl _ \<Rightarrow> malformed ''truncated cell''
   | Inr refs \<Rightarrow> (case first_bad page_count (pr_children refs @ pr_heads refs) of
       Some r \<Rightarrow> malformed (''reference '' @ int_str r)
     | None \<Rightarrow> Inr refs))"

section \<open>The reservation\<close>

definition page_frame_bytes :: "int \<Rightarrow> int" where
  "page_frame_bytes page_size = 2 * page_size + 24"

definition reservation_bytes :: "int \<Rightarrow> int \<Rightarrow> int \<Rightarrow> int \<Rightarrow> int" where
  "reservation_bytes identified unidentified page_size fixed =
     (identified + unidentified + 1) * page_frame_bytes page_size + fixed"

section \<open>The freelist\<close>

type_synonym reader = "int \<Rightarrow> reclaim_error + image"

definition PTRMAP_ROOTPAGE :: nat where "PTRMAP_ROOTPAGE = 1"
definition PTRMAP_FREEPAGE :: nat where "PTRMAP_FREEPAGE = 2"
definition PTRMAP_OVERFLOW1 :: nat where "PTRMAP_OVERFLOW1 = 3"
definition PTRMAP_OVERFLOW2 :: nat where "PTRMAP_OVERFLOW2 = 4"
definition PTRMAP_BTREE :: nat where "PTRMAP_BTREE = 5"

lemmas ptrmap_consts = PTRMAP_ROOTPAGE_def PTRMAP_FREEPAGE_def PTRMAP_OVERFLOW1_def
  PTRMAP_OVERFLOW2_def PTRMAP_BTREE_def

definition ptrmap_entry :: "reader \<Rightarrow> int \<Rightarrow> int \<Rightarrow> int \<Rightarrow> reclaim_error + nat \<times> int" where
  "ptrmap_entry read_page page usable page_size =
     (let map_page = ptrmap_pageno page usable page_size; offset = 5 * (page - map_page - 1) in
      rbind (read_page map_page) (\<lambda>img.
        if offset < 0 \<or> offset + 5 > usable then malformed ''pointer-map offset''
        else rbind (byte_at img (nat offset)) (\<lambda>kind.
          rbind (unpack_be 4 img (nat offset + 1)) (\<lambda>parent. Inr (kind, int parent)))))"

definition cyclic :: "string \<Rightarrow> reclaim_error + 'a" where
  "cyclic detail = refuse ''cyclic_freelist'' detail"

text \<open>The leaves of one trunk: each inside the file, the tail ones recorded.\<close>

fun trunk_leaves :: "image \<Rightarrow> int \<Rightarrow> int set \<Rightarrow> int \<Rightarrow> nat list \<Rightarrow> (int, int) dict
    \<Rightarrow> reclaim_error + (int, int) dict" where
  "trunk_leaves img page_count tail trunk [] leaf_of = Inr leaf_of"
| "trunk_leaves img page_count tail trunk (i # is) leaf_of =
     rbind (unpack_be 4 img (8 + 4 * i)) (\<lambda>leaf.
       if \<not> (2 \<le> int leaf \<and> int leaf \<le> page_count) then cyclic (''leaf '' @ nat_str leaf)
       else trunk_leaves img page_count tail trunk is
              (if int leaf \<in> tail then dset (int leaf) trunk leaf_of else leaf_of))"

record free_scan =
  fs_leaf_of :: "(int, int) dict"
  fs_trunks :: "(int, int \<times> nat) dict"
  fs_counted :: int

text \<open>The loop \<open>while trunk\<close>: it ends because every trunk is a new page of the file.\<close>

function scan_loop :: "reader \<Rightarrow> int \<Rightarrow> int \<Rightarrow> int \<Rightarrow> int set \<Rightarrow> int set \<Rightarrow> int \<Rightarrow> int \<Rightarrow> free_scan
    \<Rightarrow> reclaim_error + free_scan" where
  "scan_loop read_page freelist_count page_count usable tail seen trunk previous st =
     (if trunk = 0 then Inr st
      else if trunk \<in> seen \<or> \<not> (2 \<le> trunk \<and> trunk \<le> page_count)
        then cyclic (''trunk '' @ int_str trunk)
      else case read_page trunk of Inl e \<Rightarrow> Inl e
      | Inr img \<Rightarrow> (case unpack_be 4 (take 8 img) 0 of Inl e \<Rightarrow> Inl e
      | Inr following \<Rightarrow> (case unpack_be 4 (take 8 img) 4 of Inl e \<Rightarrow> Inl e
      | Inr n \<Rightarrow>
        if int n > usable div 4 - 2 then cyclic ''trunk leaf count''
        else if fs_counted st + 1 + int n > freelist_count then cyclic ''count overflow''
        else (case trunk_leaves img page_count tail trunk [0..<n] (fs_leaf_of st) of Inl e \<Rightarrow> Inl e
          | Inr leaf_of \<Rightarrow>
              scan_loop read_page freelist_count page_count usable tail (insert trunk seen)
                (int following) trunk
                \<lparr>fs_leaf_of = leaf_of,
                 fs_trunks = (if trunk \<in> tail then dset trunk (previous, n) (fs_trunks st)
                              else fs_trunks st),
                 fs_counted = fs_counted st + 1 + int n\<rparr>))))"
  by pat_completeness auto
termination
proof (relation "measure (\<lambda>(_, _, page_count, _, _, seen, _). card ({2..page_count} - seen))", goal_cases)
  case 1
  show ?case by simp
next
  case (2 read_page freelist_count page_count usable tail seen trunk previous st img following n leaf_of)
  then have "trunk \<in> {2..page_count} - seen" by auto
  then have "{2..page_count} - insert trunk seen \<subset> {2..page_count} - seen" by blast
  then have "card ({2..page_count} - insert trunk seen) < card ({2..page_count} - seen)"
    by (intro psubset_card_mono finite_Diff finite_atLeastAtMost_int)
  then show ?case by simp
qed

declare scan_loop.simps [simp del]

definition scan_freelist :: "reader \<Rightarrow> int \<Rightarrow> int \<Rightarrow> int \<Rightarrow> int \<Rightarrow> int set
    \<Rightarrow> reclaim_error + (int, int) dict \<times> (int, int \<times> nat) dict" where
  "scan_freelist read_page first_trunk freelist_count page_count usable tail =
     rbind (scan_loop read_page freelist_count page_count usable tail {} first_trunk 1
         \<lparr>fs_leaf_of = [], fs_trunks = [], fs_counted = 0\<rparr>) (\<lambda>st.
       if fs_counted st \<noteq> freelist_count
       then cyclic (int_str (fs_counted st) @ '' pages on the chain, ''
              @ int_str freelist_count @ '' counted'')
       else Inr (fs_leaf_of st, fs_trunks st))"

section \<open>The plan of a prefix\<close>

datatype detail = NoPage | FreeLeaf int "int option" | FreeTrunk int nat bool
  | MovedPage int string nat nat nat bool

type_synonym ref_entry = "string \<times> int list \<times> int list"

record prefix_state =
  px_identified :: "int set"
  px_unidentified :: int
  px_kinds :: "(string, int) dict"
  px_detail :: "detail list"
  px_changed :: bool

definition empty_prefix :: prefix_state where
  "empty_prefix = \<lparr>px_identified = {1}, px_unidentified = 0,
     px_kinds = [(''free'', 0), (''overflow'', 0), (''leaf'', 0), (''interior'', 0)],
     px_detail = [], px_changed = False\<rparr>"

definition bump :: "string \<Rightarrow> (string, int) dict \<Rightarrow> (string, int) dict" where
  "bump k d = dset k (dget_or d k 0 + 1) d"

definition reference :: "int \<Rightarrow> int \<Rightarrow> int \<Rightarrow> prefix_state \<Rightarrow> int \<Rightarrow> prefix_state" where
  "reference new_end usable page_size st page =
     (if page \<le> new_end
      then st\<lparr>px_identified := insert (ptrmap_pageno page usable page_size) (px_identified st)\<rparr>
      else st\<lparr>px_unidentified := px_unidentified st + 1\<rparr>)"

definition prefix_step :: "int \<Rightarrow> (int, nat \<times> int) dict \<Rightarrow> (int, ref_entry) dict \<Rightarrow> (int, int) dict
    \<Rightarrow> (int, int \<times> nat) dict \<Rightarrow> int \<Rightarrow> int \<Rightarrow> prefix_state \<Rightarrow> tail_step \<Rightarrow> prefix_state" where
  "prefix_step new_end entries refs leaf_of trunks usable page_size st step = (case ts_page step of
     None \<Rightarrow> st\<lparr>px_detail := px_detail st @ [NoPage]\<rparr>
   | Some page \<Rightarrow>
       let (kind, parent) = dget_or entries page (0, 0) in
       if kind = PTRMAP_FREEPAGE then
         let st = st\<lparr>px_kinds := bump ''free'' (px_kinds st)\<rparr> in
         (case (if px_changed st then None else dget leaf_of page) of
            Some trunk \<Rightarrow> st\<lparr>px_identified := insert trunk (px_identified st),
              px_detail := px_detail st @ [FreeLeaf page (Some trunk)]\<rparr>
          | None \<Rightarrow>
              let st = st\<lparr>px_unidentified := px_unidentified st + 2\<rparr> in
              (case dget trunks page of
                 Some (previous, n) \<Rightarrow> st\<lparr>px_detail := px_detail st @ [FreeTrunk page n (previous \<noteq> 1)],
                   px_changed := True\<rparr>
               | None \<Rightarrow> st\<lparr>px_detail := px_detail st @ [FreeLeaf page None]\<rparr>))
       else
         let (label, children, heads) = dget_or refs page ([], [], []);
             st = st\<lparr>px_changed := True, px_unidentified := px_unidentified st + 4\<rparr>;
             st = (if parent \<le> new_end then st\<lparr>px_identified := insert parent (px_identified st)\<rparr>
                   else st\<lparr>px_unidentified := px_unidentified st + 1\<rparr>);
             st = st\<lparr>px_kinds := bump label (px_kinds st)\<rparr>;
             st = foldl (reference new_end usable page_size) st (children @ heads);
             regions = card ((\<lambda>p. ptrmap_pageno p usable page_size) ` set (children @ heads))
         in st\<lparr>px_detail := px_detail st @ [MovedPage page label (length children) (length heads)
              regions (parent > new_end)]\<rparr>)"

definition prefix_plan :: "tail_step list \<Rightarrow> int \<Rightarrow> (int, nat \<times> int) dict \<Rightarrow> (int, ref_entry) dict
    \<Rightarrow> (int, int) dict \<Rightarrow> (int, int \<times> nat) dict \<Rightarrow> int \<Rightarrow> int \<Rightarrow> prefix_state" where
  "prefix_plan prefix new_end entries refs leaf_of trunks usable page_size =
     foldl (prefix_step new_end entries refs leaf_of trunks usable page_size) empty_prefix prefix"

section \<open>One chunk\<close>

record reclaim_plan =
  rp_steps :: int
  rp_identified :: "int list"
  rp_unidentified :: int
  rp_new_end :: int
  rp_page_size :: int
  rp_usable_size :: int
  rp_page_count :: int
  rp_freelist_count :: int
  rp_fixed_bytes :: int
  rp_reservation :: int
  rp_kinds :: "(string, int) dict"
  rp_digest :: string
  rp_inspected_bytes :: int
  rp_inspection_ms :: int
  rp_reader_status :: string
  rp_detail :: "json list"

text \<open>The header fields of page 1.\<close>

record page1 =
  p1_usable :: int
  p1_page_count :: int
  p1_first_trunk :: int
  p1_freelist_count :: int

definition SQLITE_MAGIC :: string where
  "SQLITE_MAGIC = ''SQLite format 3'' @ [CHR 0x00]"

definition read_page1 :: "image \<Rightarrow> int \<Rightarrow> reclaim_error + page1" where
  "read_page1 img page_size =
     (if map (\<lambda>b. char_of (unat b)) (take 16 img) \<noteq> SQLITE_MAGIC then malformed ''page 1 header''
      else rbind (unpack_be 2 img 16) (\<lambda>size.
        if int (if size = 1 then 65536 else size) \<noteq> page_size
        then refuse ''unsupported_geometry'' ''page size''
        else rbind (byte_at img 20) (\<lambda>reserved.
          if reserved \<noteq> 0 then refuse ''unsupported_geometry'' ''reserved bytes''
          else rbind (unpack_be 4 img 52) (\<lambda>largest_root.
               rbind (unpack_be 4 img 64) (\<lambda>incremental.
            if largest_root = 0 \<or> incremental \<noteq> 1
            then refuse ''unsupported_geometry'' ''auto_vacuum is not INCREMENTAL''
            else rbind (unpack_be 4 img 28) (\<lambda>page_count.
                 rbind (unpack_be 4 img 32) (\<lambda>first_trunk.
                 rbind (unpack_be 4 img 36) (\<lambda>freelist_count.
                   Inr \<lparr>p1_usable = page_size - int reserved, p1_page_count = int page_count,
                        p1_first_trunk = int first_trunk,
                        p1_freelist_count = int freelist_count\<rparr>))))))))"

text \<open>The pointer-map entries of the tail, from the highest page down.\<close>

definition tail_entry :: "reader \<Rightarrow> int \<Rightarrow> int \<Rightarrow> int \<Rightarrow> int \<Rightarrow> reclaim_error + int \<times> nat \<times> int" where
  "tail_entry read_page page_count usable page_size page =
     rbind (ptrmap_entry read_page page usable page_size) (\<lambda>(kind, parent).
       if kind \<notin> {PTRMAP_ROOTPAGE, PTRMAP_FREEPAGE, PTRMAP_OVERFLOW1, PTRMAP_OVERFLOW2, PTRMAP_BTREE}
       then malformed (''pointer-map type '' @ nat_str kind)
       else if kind \<noteq> PTRMAP_FREEPAGE \<and> kind \<noteq> PTRMAP_ROOTPAGE
            \<and> \<not> (1 \<le> parent \<and> parent \<le> page_count)
       then malformed ''pointer-map parent''
       else Inr (page, kind, parent))"

text \<open>What a tail page refers to; free pages only have to be on the freelist.\<close>

definition tail_refs :: "reader \<Rightarrow> int \<Rightarrow> int \<Rightarrow> (int, int) dict \<Rightarrow> (int, int \<times> nat) dict
    \<Rightarrow> int \<times> nat \<times> int \<Rightarrow> reclaim_error + (int \<times> ref_entry) list" where
  "tail_refs read_page page_count usable leaf_of trunks entry = (case entry of (page, kind, parent) \<Rightarrow>
     if kind = PTRMAP_FREEPAGE then
       (if dget leaf_of page = None \<and> dget trunks page = None
        then malformed (''free page '' @ int_str page @ '' not on the freelist'') else Inr [])
     else if kind = PTRMAP_OVERFLOW1 \<or> kind = PTRMAP_OVERFLOW2 then
       rbind (read_page page) (\<lambda>img. rbind (unpack_be 4 (take 4 img) 0) (\<lambda>following.
         if following \<noteq> 0 \<and> \<not> (2 \<le> int following \<and> int following \<le> page_count)
         then malformed ''overflow link''
         else Inr [(page, ''overflow'', if following \<noteq> 0 then [int following] else [], [])]))
     else if kind = PTRMAP_BTREE then
       rbind (read_page page) (\<lambda>img. rbind (btree_refs img usable page_count) (\<lambda>r.
         Inr [(page, if pr_kind r = 2 \<or> pr_kind r = 5 then ''interior'' else ''leaf'',
               pr_children r, pr_heads r)]))
     else Inr [])"

definition root_in :: "(int, nat \<times> int) dict \<Rightarrow> tail_step list \<Rightarrow> bool" where
  "root_in entries prefix \<longleftrightarrow> list_ex (\<lambda>s. case ts_page s of None \<Rightarrow> False
     | Some p \<Rightarrow> fst (dget_or entries p (0, 0)) = PTRMAP_ROOTPAGE) prefix"

text \<open>
  The loop over the prefixes, from \<open>k\<close> steps up: it keeps the longest prefix whose reservation
  fits; the first prefix is kept whatever it costs.
\<close>

definition prefix_end :: "tail_step list \<Rightarrow> nat \<Rightarrow> int" where
  "prefix_end steps k = ts_new_end (steps ! (k - 1))"

fun best_prefix :: "(nat \<Rightarrow> prefix_state) \<Rightarrow> (int, nat \<times> int) dict \<Rightarrow> tail_step list \<Rightarrow> int \<Rightarrow> int \<Rightarrow> int
    \<Rightarrow> nat list \<Rightarrow> (nat \<times> prefix_state \<times> int) option
    \<Rightarrow> reclaim_error + (nat \<times> prefix_state \<times> int) option" where
  "best_prefix plan entries steps page_size budget fixed [] best = Inr best"
| "best_prefix plan entries steps page_size budget fixed (k # ks) best =
     (let prefix = take k steps; new_end = prefix_end steps k; roots = root_in entries prefix;
          below = list_all (\<lambda>s. ts_n_fin s \<le> new_end) prefix in
      if roots \<or> \<not> below then
        (if k = 1 then refuse ''unsupported_geometry''
           (if roots then ''root page in the tail'' else ''the full-vacuum end reaches the tail'')
         else Inr best)
      else let px = plan k;
               reservation = reservation_bytes (int (card (px_identified px))) (px_unidentified px)
                 page_size fixed
           in if k > 1 \<and> reservation > budget then Inr best
              else best_prefix plan entries steps page_size budget fixed ks (Some (k, px, reservation)))"

definition detail_json :: "detail \<Rightarrow> json" where
  "detail_json d = (case d of
     NoPage \<Rightarrow> JObj [(''page'', JNull)]
   | FreeLeaf p t \<Rightarrow> JObj [(''page'', JInt p), (''kind'', JStr ''free_leaf''),
       (''trunk'', case t of None \<Rightarrow> JNull | Some x \<Rightarrow> JInt x)]
   | FreeTrunk p n pre \<Rightarrow> JObj [(''page'', JInt p), (''kind'', JStr ''free_trunk''),
       (''leaves'', JInt (int n)), (''predecessor'', JBool pre)]
   | MovedPage p label c h r t \<Rightarrow> JObj [(''page'', JInt p), (''kind'', JStr label),
       (''children'', JInt (int c)), (''heads'', JInt (int h)), (''regions'', JInt (int r)),
       (''parentInTail'', JBool t)])"

text \<open>
  The text under the plan's digest: \<open>json.dumps(\<dots>, separators=(",", ":"))\<close> of a dictionary of
  integers, in its own key order.
\<close>

definition int_list_text :: "int list \<Rightarrow> string" where
  "int_list_text xs = ''['' @ join '','' (map int_str xs) @ '']''"

definition digest_text :: "int \<Rightarrow> int \<Rightarrow> int \<Rightarrow> (int, nat \<times> int) dict \<Rightarrow> tail_step list \<Rightarrow> int list
    \<Rightarrow> int \<Rightarrow> string" where
  "digest_text page_count freelist new_end entries prefix identified unidentified =
     ''{'' @ join '','' [quote_str ''v'' @ '':1'',
       quote_str ''pageCount'' @ '':'' @ int_str page_count,
       quote_str ''freelist'' @ '':'' @ int_str freelist,
       quote_str ''newEnd'' @ '':'' @ int_str new_end,
       quote_str ''steps'' @ '':['' @ join '','' (map (\<lambda>s. case ts_page s of
           None \<Rightarrow> ''[null,0,0]''
         | Some p \<Rightarrow> (let (kind, parent) = dget_or entries p (0, 0)
             in int_list_text [p, int kind, parent])) prefix) @ '']'',
       quote_str ''id'' @ '':'' @ int_list_text identified,
       quote_str ''unid'' @ '':'' @ int_str unidentified] @ ''}''"

definition plan_chunk :: "(string \<Rightarrow> string) \<Rightarrow> reader \<Rightarrow> int \<Rightarrow> int \<Rightarrow> int \<Rightarrow> int
    \<Rightarrow> reclaim_error + reclaim_plan" where
  "plan_chunk H read_page page_size max_steps budget fixed =
     rbind (read_page 1) (\<lambda>img.
     rbind (read_page1 img page_size) (\<lambda>p1.
     rbind (tail_steps (p1_page_count p1) (p1_freelist_count p1) max_steps (p1_usable p1) page_size)
       (\<lambda>steps.
     if steps = [] then refuse ''unsupported_geometry'' ''no free page below the file's end''
     else let pages = rev (sorted_set (moved steps)) in
     rbind (rmap (tail_entry read_page (p1_page_count p1) (p1_usable p1) page_size) pages)
       (\<lambda>entries.
     rbind (scan_freelist read_page (p1_first_trunk p1) (p1_freelist_count p1) (p1_page_count p1)
         (p1_usable p1) (set (moved steps))) (\<lambda>(leaf_of, trunks).
     rbind (rmap (tail_refs read_page (p1_page_count p1) (p1_usable p1) leaf_of trunks) entries)
       (\<lambda>refs.
     let plan = (\<lambda>k. prefix_plan (take k steps) (prefix_end steps k) entries (concat refs) leaf_of
           trunks (p1_usable p1) page_size) in
     rbind (best_prefix plan entries steps page_size budget fixed [1..<Suc (length steps)] None)
       (\<lambda>best. case best of
          None \<Rightarrow> Inl IndexError
        | Some (k, px, reservation) \<Rightarrow>
            let identified = sorted_list_of_set (px_identified px); new_end = prefix_end steps k in
            Inr \<lparr>rp_steps = int k, rp_identified = identified, rp_unidentified = px_unidentified px,
              rp_new_end = new_end, rp_page_size = page_size, rp_usable_size = p1_usable p1,
              rp_page_count = p1_page_count p1, rp_freelist_count = p1_freelist_count p1,
              rp_fixed_bytes = fixed, rp_reservation = reservation, rp_kinds = px_kinds px,
              rp_digest = take 16 (H (digest_text (p1_page_count p1) (p1_freelist_count p1) new_end
                entries (take k steps) identified (px_unidentified px))),
              rp_inspected_bytes = 0, rp_inspection_ms = 0, rp_reader_status = ''ok'',
              rp_detail = map detail_json (px_detail px)\<rparr>)))))))"

section \<open>The wire form\<close>

definition plan_as_wire :: "reclaim_plan \<Rightarrow> jobj" where
  "plan_as_wire p = [(''steps'', JInt (rp_steps p)),
     (''identified'', JArr (map JInt (rp_identified p))),
     (''unidentified'', JInt (rp_unidentified p)), (''new_end'', JInt (rp_new_end p)),
     (''page_size'', JInt (rp_page_size p)), (''usable_size'', JInt (rp_usable_size p)),
     (''page_count'', JInt (rp_page_count p)), (''freelist_count'', JInt (rp_freelist_count p)),
     (''fixed_bytes'', JInt (rp_fixed_bytes p)), (''reservation_bytes'', JInt (rp_reservation p)),
     (''kinds'', JObj (map (\<lambda>(k, v). (k, JInt v)) (rp_kinds p))), (''digest'', JStr (rp_digest p)),
     (''inspected_bytes'', JInt (rp_inspected_bytes p)),
     (''inspection_ms'', JInt (rp_inspection_ms p)),
     (''reader_status'', JStr (rp_reader_status p)), (''detail'', JArr (rp_detail p))]"

definition PLAN_INTS :: "string list" where
  "PLAN_INTS = [''steps'', ''unidentified'', ''new_end'', ''page_size'', ''usable_size'',
     ''page_count'', ''freelist_count'', ''fixed_bytes'', ''reservation_bytes'',
     ''inspected_bytes'', ''inspection_ms'']"

text \<open>\<open>isinstance(v, int) and v >= 0\<close>: here a boolean counts as an integer.\<close>

fun loose_nonneg :: "json \<Rightarrow> int option" where
  "loose_nonneg (JInt i) = (if 0 \<le> i then Some i else None)"
| "loose_nonneg (JBool b) = Some (if b then 1 else 0)"
| "loose_nonneg _ = None"

definition positive_int :: "json \<Rightarrow> bool" where
  "positive_int v = (case v of JInt i \<Rightarrow> 1 \<le> i | _ \<Rightarrow> False)"

text \<open>\<open>tuple(v)\<close> of a decoded value; a number is not iterable.\<close>

definition tuple_of :: "json \<Rightarrow> json list option" where
  "tuple_of v = (case v of JArr xs \<Rightarrow> Some xs | JStr s \<Rightarrow> Some (map (\<lambda>c. JStr [c]) s)
     | JObj d \<Rightarrow> Some (map (\<lambda>p. JStr (fst p)) d) | _ \<Rightarrow> None)"

text \<open>
  \<open>from_wire\<close>; an error carries the field it names. \<open>py_str\<close> is Python's \<open>str\<close> on a decoded value,
  which is only reached for a reader status that is not a string.
\<close>

definition plan_from_wire :: "(json \<Rightarrow> string) \<Rightarrow> json \<Rightarrow> string + reclaim_plan" where
  "plan_from_wire py_str wire = (case wire of
     JObj w \<Rightarrow>
       (case List.find (\<lambda>k. \<not> nonneg_int (jget w k)) PLAN_INTS of
          Some k \<Rightarrow> Inl k
        | None \<Rightarrow>
          (case jget w ''identified'' of
             JArr ids \<Rightarrow>
               if \<not> list_all positive_int ids then Inl ''identified''
               else (case jget w ''kinds'' of
                 JObj kinds \<Rightarrow>
                   if \<not> has_exact_keys [''free'', ''overflow'', ''leaf'', ''interior''] kinds
                      \<or> \<not> list_all (\<lambda>(_, v). loose_nonneg v \<noteq> None) kinds then Inl ''kinds''
                   else if \<not> is_str (jget w ''digest'') then Inl ''digest''
                   else if truthy (jget w ''detail'') \<and> tuple_of (jget w ''detail'') = None
                   then Inl ''TypeError''
                   else let status = jget w ''reader_status''; detail = jget w ''detail''; plan = \<lparr>rp_steps = the_int (jget w ''steps''),
                          rp_identified = map the_int ids,
                          rp_unidentified = the_int (jget w ''unidentified''),
                          rp_new_end = the_int (jget w ''new_end''),
                          rp_page_size = the_int (jget w ''page_size''),
                          rp_usable_size = the_int (jget w ''usable_size''),
                          rp_page_count = the_int (jget w ''page_count''),
                          rp_freelist_count = the_int (jget w ''freelist_count''),
                          rp_fixed_bytes = the_int (jget w ''fixed_bytes''),
                          rp_reservation = the_int (jget w ''reservation_bytes''),
                          rp_kinds = map (\<lambda>(k, v). (k, the (loose_nonneg v))) kinds,
                          rp_digest = take 64 (the_str (jget w ''digest'')),
                          rp_inspected_bytes = the_int (jget w ''inspected_bytes''),
                          rp_inspection_ms = the_int (jget w ''inspection_ms''),
                          rp_reader_status = take 40 (if truthy status
                            then (case status of JStr t \<Rightarrow> t | _ \<Rightarrow> py_str status) else ''ok''),
                          rp_detail = (if truthy detail then the (tuple_of detail) else [])\<rparr> in
                     if rp_reservation plan \<noteq> reservation_bytes (int (length ids))
                          (rp_unidentified plan) (rp_page_size plan) (rp_fixed_bytes plan)
                        \<or> rp_steps plan < 1
                     then Inl ''reservation'' else Inr plan
               | _ \<Rightarrow> Inl ''kinds'')
           | _ \<Rightarrow> Inl ''identified''))
   | _ \<Rightarrow> Inl ''plan'')"

section \<open>Lemmas\<close>

text \<open>Which refusals a byte-level routine can raise.\<close>

definition page_error :: "reclaim_error \<Rightarrow> bool" where
  "page_error e \<longleftrightarrow> (case e of Refused r d \<Rightarrow> r = ''malformed_page'' | _ \<Rightarrow> True)"

definition page_safe :: "(reclaim_error + 'a) \<Rightarrow> bool" where
  "page_safe r \<longleftrightarrow> (case r of Inl e \<Rightarrow> page_error e | Inr _ \<Rightarrow> True)"

lemma page_safe_rbind: "page_safe r \<Longrightarrow> (\<And>x. r = Inr x \<Longrightarrow> page_safe (f x)) \<Longrightarrow> page_safe (rbind r f)"
  by (cases r) (auto simp: page_safe_def)

lemma page_safe_basic [simp]:
  "page_safe (Inr x)" "page_safe (malformed d)" "page_safe (byte_at img i)"
  "page_safe (unpack_be w img i)" "page_safe (unpack_at img k)"
  by (simp_all add: page_safe_def malformed_def refuse_def page_error_def byte_at_def unpack_be_def
      unpack_at_def Let_def)

lemma page_safe_varint [simp]: "page_safe (varint img offset)"
proof -
  have "page_safe (varint_loop img offset k acc)" for k acc
    by (induction k arbitrary: offset acc) (auto intro!: page_safe_rbind simp: Let_def)
  then show ?thesis by (simp add: varint_def)
qed

lemma page_safe_rmap: "(\<And>x. page_safe (f x)) \<Longrightarrow> page_safe (rmap f xs)"
  by (induction xs) (auto intro!: page_safe_rbind)

lemma page_safe_btree_body: "page_safe (btree_body img usable)"
proof -
  have cell: "page_safe (btree_cell img usable kind hdr lo hi i)" for kind hdr lo hi i
    unfolding btree_cell_def Let_def
    by (auto intro!: page_safe_rbind split: prod.splits)
  show ?thesis
    unfolding btree_body_def Let_def
    by (auto intro!: page_safe_rbind page_safe_rmap cell)
qed

lemma btree_body_kind: "btree_body img usable = Inr r \<Longrightarrow> page_kind_ok (pr_kind r)"
  by (auto simp: btree_body_def rbind_Inr_iff Let_def malformed_def refuse_def split: if_splits)

lemma first_bad_None: "first_bad n xs = None \<longleftrightarrow> (\<forall>x \<in> set xs. 2 \<le> x \<and> x \<le> n)"
  by (auto simp: first_bad_def find_None_iff)

lemma btree_refs_cases:
  "case btree_refs img usable page_count of
     Inl e \<Rightarrow> \<exists>d. e = Refused ''malformed_page'' d
   | Inr r \<Rightarrow> page_kind_ok (pr_kind r)
       \<and> (\<forall>x \<in> set (pr_children r @ pr_heads r). 2 \<le> x \<and> x \<le> page_count)"
proof (cases "btree_body img usable")
  case (Inl e)
  then have "page_error e" using page_safe_btree_body [of img usable] by (simp add: page_safe_def)
  then show ?thesis
    using Inl by (cases e) (auto simp: btree_refs_def page_error_def malformed_def refuse_def)
next
  case (Inr r)
  then show ?thesis
    using btree_body_kind [OF Inr] first_bad_None [of page_count "pr_children r @ pr_heads r"]
    by (auto simp: btree_refs_def malformed_def refuse_def split: option.splits)
qed

text \<open>The varint decoder reads at most nine bytes inside the image.\<close>

lemma unat_less_helper_8: "unat (b :: 8 word) < 256"
  using unsigned_less [of b, where ?'a = nat] by simp

lemma byte_at_less: "byte_at img i = Inr b \<Longrightarrow> i < length img \<and> b < 256"
  using unat_less_helper_8 [of "img ! i"] by (auto simp: byte_at_def split: if_splits)

lemma varint_loop_bounds:
  "varint_loop img offset k acc = Inr (v, c) \<Longrightarrow>
     offset < c \<and> c \<le> offset + k + 1 \<and> c \<le> length img \<and> v < (acc + 1) * 2 ^ (7 * k + 8)"
proof (induction k arbitrary: offset acc)
  case 0
  then show ?case by (auto simp: rbind_Inr_iff dest: byte_at_less)
next
  case (Suc k)
  then obtain b where b: "byte_at img offset = Inr b"
    and r: "(if b < 128 then Inr (128 * acc + b mod 128, offset + 1)
        else varint_loop img (offset + 1) k (128 * acc + b mod 128)) = Inr (v, c)"
    by (auto simp: rbind_Inr_iff Let_def)
  have step: "128 * acc + b mod 128 + 1 \<le> (acc + 1) * 128"
    by (simp add: Suc_leI mod_less_divisor)
  show ?case
  proof (cases "b < 128")
    case True
    have "v < (acc + 1) * 128" using r True step by simp
    also have "\<dots> \<le> (acc + 1) * 2 ^ (7 * Suc k + 8)"
      by (intro mult_left_mono) (simp_all add: power_add)
    finally show ?thesis using r True byte_at_less [OF b] by simp
  next
    case False
    then have IH: "offset + 1 < c \<and> c \<le> offset + 1 + k + 1 \<and> c \<le> length img
        \<and> v < (128 * acc + b mod 128 + 1) * 2 ^ (7 * k + 8)"
      by (intro Suc.IH) (use r False in simp)
    have "(128 * acc + b mod 128 + 1) * 2 ^ (7 * k + 8) \<le> ((acc + 1) * 128) * 2 ^ (7 * k + 8)"
      by (intro mult_right_mono step) simp
    also have "\<dots> = (acc + 1) * 2 ^ (7 * Suc k + 8)"
      by (simp add: power_add algebra_simps)
    finally show ?thesis using IH by linarith
  qed
qed

text \<open>The freelist as the file stores it: trunks linked by their first word.\<close>

fun chain :: "reader \<Rightarrow> int \<Rightarrow> (int \<times> nat) list \<Rightarrow> bool" where
  "chain read_page trunk [] = (trunk = 0)"
| "chain read_page trunk ((t, n) # rest) =
     (t = trunk \<and> trunk \<noteq> 0 \<and> (\<exists>img following. read_page trunk = Inr img
        \<and> unpack_be 4 (take 8 img) 0 = Inr following \<and> unpack_be 4 (take 8 img) 4 = Inr n
        \<and> chain read_page (int following) rest))"

definition chain_pages :: "(int \<times> nat) list \<Rightarrow> int" where
  "chain_pages ts = sum_list (map (\<lambda>(_, n). 1 + int n) ts)"

text \<open>The leaves the trunks list, each with its trunk, and the trunks, each with its predecessor and its leaf count.\<close>

definition leaf_at :: "reader \<Rightarrow> int \<Rightarrow> nat \<Rightarrow> int" where
  "leaf_at read_page t i = (case read_page t of Inl _ \<Rightarrow> 0
     | Inr img \<Rightarrow> (case unpack_be 4 img (8 + 4 * i) of Inl _ \<Rightarrow> 0 | Inr leaf \<Rightarrow> int leaf))"

definition leaf_rows :: "reader \<Rightarrow> (int \<times> nat) list \<Rightarrow> (int \<times> int) list" where
  "leaf_rows read_page ts = concat (map (\<lambda>(t, n). map (\<lambda>i. (leaf_at read_page t i, t)) [0..<n]) ts)"

fun trunk_rows :: "int \<Rightarrow> (int \<times> nat) list \<Rightarrow> (int \<times> (int \<times> nat)) list" where
  "trunk_rows previous [] = []"
| "trunk_rows previous ((t, n) # rest) = (t, (previous, n)) # trunk_rows t rest"

lemma leaf_rows_Cons: "leaf_rows read_page ((t, n) # ts) = map (\<lambda>i. (leaf_at read_page t i, t)) [0..<n] @ leaf_rows read_page ts"
  by (simp add: leaf_rows_def)

lemma trunk_rows_keys: "map fst (trunk_rows previous ts) = map fst ts"
  by (induction previous ts rule: trunk_rows.induct) auto

lemma restrict_add: "(f ++ g) |` A = (f |` A) ++ (g |` A)"
  by (rule ext) (simp add: restrict_map_def map_add_def)

lemma trunk_leaves_rows:
  assumes "trunk_leaves img page_count tail trunk is leaf_of = Inr leaf_of'" and "read_page trunk = Inr img"
  shows "(\<forall>i \<in> set is. 2 \<le> leaf_at read_page trunk i \<and> leaf_at read_page trunk i \<le> page_count)
    \<and> dget leaf_of' = dget leaf_of ++ (map_of (rev (map (\<lambda>i. (leaf_at read_page trunk i, trunk)) is)) |` tail)"
  using assms(1)
proof (induction "is" arbitrary: leaf_of)
  case Nil
  then show ?case by simp
next
  case (Cons i "is")
  then obtain leaf where leaf: "unpack_be 4 img (8 + 4 * i) = Inr leaf" "2 \<le> int leaf" "int leaf \<le> page_count"
    and r: "trunk_leaves img page_count tail trunk is
      (if int leaf \<in> tail then dset (int leaf) trunk leaf_of else leaf_of) = Inr leaf_of'"
    by (auto simp: rbind_Inr_iff cyclic_def refuse_def split: if_splits)
  have at: "leaf_at read_page trunk i = int leaf" using assms(2) leaf(1) by (simp add: leaf_at_def)
  have "dget (if int leaf \<in> tail then dset (int leaf) trunk leaf_of else leaf_of) = dget leaf_of ++ ([int leaf \<mapsto> trunk] |` tail)"
    by (rule ext) (simp add: dget_dset map_add_def restrict_map_def)
  then show ?case using Cons.IH [OF r] leaf(2,3) by (simp add: at restrict_add map_add_assoc)
qed

lemma scan_loop_sound:
  "scan_loop read_page fc page_count usable tail seen trunk previous st = Inr st' \<Longrightarrow>
     \<exists>ts. chain read_page trunk ts \<and> distinct (map fst ts)
       \<and> (\<forall>t \<in> fst ` set ts. t \<notin> seen \<and> 2 \<le> t \<and> t \<le> page_count)
       \<and> fs_counted st' = fs_counted st + chain_pages ts
       \<and> (\<forall>e \<in> set (leaf_rows read_page ts). 2 \<le> fst e \<and> fst e \<le> page_count)
       \<and> dget (fs_leaf_of st') = dget (fs_leaf_of st) ++ (map_of (rev (leaf_rows read_page ts)) |` tail)
       \<and> dget (fs_trunks st') = dget (fs_trunks st) ++ (map_of (trunk_rows previous ts) |` tail)"
proof (induction read_page fc page_count usable tail seen trunk previous st rule: scan_loop.induct)
  case (1 read_page fc page_count usable tail seen trunk previous st)
  show ?case
  proof (cases "trunk = 0")
    case True
    then have "st' = st" using 1(2) by (subst (asm) scan_loop.simps) simp
    then show ?thesis using True by (intro exI [of _ "[]"]) (simp add: chain_pages_def leaf_rows_def)
  next
    case False
    then have in_file: "trunk \<notin> seen" "2 \<le> trunk" "trunk \<le> page_count"
      using 1(2) by (auto simp: scan_loop.simps [of read_page _ _ _ _ _ trunk] cyclic_def refuse_def
          split: if_splits)
    then obtain img following n leaf_of where
      img: "read_page trunk = Inr img" and fo: "unpack_be 4 (take 8 img) 0 = Inr following"
      and n: "unpack_be 4 (take 8 img) 4 = Inr n" "\<not> int n > usable div 4 - 2"
        "\<not> fs_counted st + 1 + int n > fc"
      and lv: "trunk_leaves img page_count tail trunk [0..<n] (fs_leaf_of st) = Inr leaf_of"
      and rest: "scan_loop read_page fc page_count usable tail (insert trunk seen) (int following) trunk
        \<lparr>fs_leaf_of = leaf_of,
         fs_trunks = (if trunk \<in> tail then dset trunk (previous, n) (fs_trunks st) else fs_trunks st),
         fs_counted = fs_counted st + 1 + int n\<rparr> = Inr st'"
      using 1(2) False
      by (auto simp: scan_loop.simps [of read_page _ _ _ _ _ trunk] cyclic_def refuse_def
          split: sum.splits if_splits)
    obtain ts where ts: "chain read_page (int following) ts" "distinct (map fst ts)"
      "\<forall>t \<in> fst ` set ts. t \<notin> insert trunk seen \<and> 2 \<le> t \<and> t \<le> page_count"
      "fs_counted st' = fs_counted st + 1 + int n + chain_pages ts"
      "\<forall>e \<in> set (leaf_rows read_page ts). 2 \<le> fst e \<and> fst e \<le> page_count"
      "dget (fs_leaf_of st') = dget leaf_of ++ (map_of (rev (leaf_rows read_page ts)) |` tail)"
      "dget (fs_trunks st') =
          dget (if trunk \<in> tail then dset trunk (previous, n) (fs_trunks st) else fs_trunks st)
            ++ (map_of (trunk_rows trunk ts) |` tail)"
      using 1(1) [OF False _ img fo n lv rest] in_file by (auto simp: not_less)
    note leaves = trunk_leaves_rows [where read_page = read_page, OF lv img]
    have "trunk \<notin> dom (map_of (trunk_rows trunk ts))"
      using ts(3) trunk_rows_keys [of trunk ts] by (auto simp: dom_map_of_conv_image_fst simp flip: set_map)
    then have first: "dget (fs_trunks st') p = (dget (fs_trunks st) ++ (map_of (trunk_rows previous ((trunk, n) # ts)) |` tail)) p" for p
      by (cases "p = trunk") (auto simp: ts(7) dget_dset map_add_def restrict_map_def split: option.splits)
    show ?thesis
    proof (intro exI [of _ "(trunk, n) # ts"] conjI)
      show "chain read_page trunk ((trunk, n) # ts)" using False img fo n(1) ts(1) by simp
      show "distinct (map fst ((trunk, n) # ts))" using ts(2,3) by auto
      show "fs_counted st' = fs_counted st + chain_pages ((trunk, n) # ts)"
        using ts(4) by (simp add: chain_pages_def)
      show "\<forall>e \<in> set (leaf_rows read_page ((trunk, n) # ts)). 2 \<le> fst e \<and> fst e \<le> page_count"
        using leaves ts(5) by (auto simp: leaf_rows_Cons)
      show "dget (fs_leaf_of st') = dget (fs_leaf_of st) ++ (map_of (rev (leaf_rows read_page ((trunk, n) # ts))) |` tail)"
        using leaves by (simp add: ts(6) leaf_rows_Cons restrict_add map_add_assoc)
      show "dget (fs_trunks st') = dget (fs_trunks st) ++ (map_of (trunk_rows previous ((trunk, n) # ts)) |` tail)"
        by (rule ext) (rule first)
    qed (use ts(3) in_file in auto)
  qed
qed

text \<open>The longest prefix that fits.\<close>

lemma best_prefix_fits:
  assumes "best_prefix plan entries steps page_size budget fixed ks best = Inr (Some (k, px, res))"
    and "\<And>k px res. best = Some (k, px, res) \<Longrightarrow> P k px res"
    and "\<And>k px. k \<in> set ks \<Longrightarrow> px = plan k \<Longrightarrow> \<not> root_in entries (take k steps)
      \<Longrightarrow> \<not> (k > 1 \<and> reservation_bytes (int (card (px_identified px))) (px_unidentified px) page_size fixed > budget)
      \<Longrightarrow> P k px (reservation_bytes (int (card (px_identified px))) (px_unidentified px) page_size fixed)"
  shows "P k px res"
  using assms
proof (induction ks arbitrary: best)
  case (Cons j ks)
  let ?res = "reservation_bytes (int (card (px_identified (plan j)))) (px_unidentified (plan j)) page_size fixed"
  show ?case
  proof (cases "best_prefix plan entries steps page_size budget fixed (j # ks) best = Inr best")
    case True
    then show ?thesis using Cons.prems by simp
  next
    case False
    then have *: "\<not> root_in entries (take j steps)" "\<not> (j > 1 \<and> ?res > budget)"
      "best_prefix plan entries steps page_size budget fixed ks (Some (j, plan j, ?res)) = Inr (Some (k, px, res))"
      using Cons.prems(1) by (auto simp: Let_def refuse_def split: if_splits)
    show ?thesis
      by (rule Cons.IH [OF *(3)]) (use Cons.prems(3) * in auto)
  qed
qed simp

lemma plan_chunkE:
  assumes "plan_chunk H read_page page_size max_steps budget fixed = Inr p"
  obtains img p1 steps entries leaf_of trunks refs k px where
    "read_page 1 = Inr img" "read_page1 img page_size = Inr p1"
    "tail_steps (p1_page_count p1) (p1_freelist_count p1) max_steps (p1_usable p1) page_size = Inr steps"
    "rmap (tail_entry read_page (p1_page_count p1) (p1_usable p1) page_size)
       (rev (sorted_set (moved steps))) = Inr entries"
    "scan_freelist read_page (p1_first_trunk p1) (p1_freelist_count p1) (p1_page_count p1)
       (p1_usable p1) (set (moved steps)) = Inr (leaf_of, trunks)"
    "rmap (tail_refs read_page (p1_page_count p1) (p1_usable p1) leaf_of trunks) entries = Inr refs"
    "px = prefix_plan (take k steps) (prefix_end steps k) entries (concat refs) leaf_of trunks
       (p1_usable p1) page_size"
    "1 \<le> k" "k \<le> length steps" "\<not> root_in entries (take k steps)"
    "k > 1 \<longrightarrow> rp_reservation p \<le> budget"
    "rp_reservation p = reservation_bytes (int (card (px_identified px))) (px_unidentified px)
       page_size fixed"
    "rp_steps p = int k" "rp_identified p = sorted_list_of_set (px_identified px)"
    "rp_unidentified p = px_unidentified px" "rp_page_size p = page_size" "rp_fixed_bytes p = fixed"
    "rp_new_end p = prefix_end steps k" "rp_usable_size p = p1_usable p1"
    "rp_page_count p = p1_page_count p1" "rp_freelist_count p = p1_freelist_count p1"
    "rp_kinds p = px_kinds px" "length (rp_digest p) \<le> 16" "rp_inspected_bytes p = 0"
    "rp_inspection_ms p = 0" "rp_reader_status p = ''ok''"
proof -
  obtain img p1 steps entries leaf_of trunks refs best where
    r: "read_page 1 = Inr img" "read_page1 img page_size = Inr p1"
    "tail_steps (p1_page_count p1) (p1_freelist_count p1) max_steps (p1_usable p1) page_size = Inr steps"
    "rmap (tail_entry read_page (p1_page_count p1) (p1_usable p1) page_size)
       (rev (sorted_set (moved steps))) = Inr entries"
    "scan_freelist read_page (p1_first_trunk p1) (p1_freelist_count p1) (p1_page_count p1)
       (p1_usable p1) (set (moved steps)) = Inr (leaf_of, trunks)"
    "rmap (tail_refs read_page (p1_page_count p1) (p1_usable p1) leaf_of trunks) entries = Inr refs"
    and b: "best_prefix (\<lambda>k. prefix_plan (take k steps) (prefix_end steps k) entries (concat refs) leaf_of
           trunks (p1_usable p1) page_size) entries steps page_size budget fixed [1..<Suc (length steps)] None
        = Inr best"
    and p: "(case best of
          None \<Rightarrow> Inl IndexError
        | Some (k, px, reservation) \<Rightarrow>
            let identified = sorted_list_of_set (px_identified px); new_end = prefix_end steps k in
            Inr \<lparr>rp_steps = int k, rp_identified = identified, rp_unidentified = px_unidentified px,
              rp_new_end = new_end, rp_page_size = page_size, rp_usable_size = p1_usable p1,
              rp_page_count = p1_page_count p1, rp_freelist_count = p1_freelist_count p1,
              rp_fixed_bytes = fixed, rp_reservation = reservation, rp_kinds = px_kinds px,
              rp_digest = take 16 (H (digest_text (p1_page_count p1) (p1_freelist_count p1) new_end
                entries (take k steps) identified (px_unidentified px))),
              rp_inspected_bytes = 0, rp_inspection_ms = 0, rp_reader_status = ''ok'',
              rp_detail = map detail_json (px_detail px)\<rparr>) = Inr p"
    using assms unfolding plan_chunk_def Let_def
    by (auto simp: rbind_Inr_iff refuse_def split: if_splits prod.splits)
  obtain k px res where best: "best = Some (k, px, res)"
    using p by (cases best) auto
  have "1 \<le> k \<and> k \<le> length steps \<and> \<not> root_in entries (take k steps) \<and> (k > 1 \<longrightarrow> res \<le> budget)
    \<and> res = reservation_bytes (int (card (px_identified px))) (px_unidentified px) page_size fixed
    \<and> px = prefix_plan (take k steps) (prefix_end steps k) entries (concat refs) leaf_of trunks
       (p1_usable p1) page_size"
    by (rule best_prefix_fits [OF b [unfolded best]]) auto
  then show thesis
    using that [OF r, of px k] p by (auto simp: best Let_def)
qed

lemma scan_sound:
  assumes "scan_freelist read_page first fc page_count usable tail = Inr (leaf_of, trunks)"
  shows "\<exists>ts. chain read_page first ts \<and> distinct (map fst ts) \<and> chain_pages ts = fc
     \<and> (\<forall>t \<in> fst ` set ts. 2 \<le> t \<and> t \<le> page_count)
     \<and> (\<forall>e \<in> set (leaf_rows read_page ts). 2 \<le> fst e \<and> fst e \<le> page_count)
     \<and> (\<forall>p. dget leaf_of p = (if p \<in> tail then map_of (rev (leaf_rows read_page ts)) p else None))
     \<and> (\<forall>p. dget trunks p = (if p \<in> tail then map_of (trunk_rows 1 ts) p else None))"
proof -
  obtain st where st: "scan_loop read_page fc page_count usable tail {} first 1
      \<lparr>fs_leaf_of = [], fs_trunks = [], fs_counted = 0\<rparr> = Inr st"
    and r: "fs_counted st = fc" "leaf_of = fs_leaf_of st" "trunks = fs_trunks st"
    using assms by (auto simp: scan_freelist_def rbind_Inr_iff cyclic_def refuse_def split: if_splits)
  from scan_loop_sound [OF st] show ?thesis by (auto simp: r restrict_map_def map_add_def split: option.splits)
qed

lemma scan_loop_leaf:
  assumes "scan_freelist read_page first fc page_count usable tail = Inr (leaf_of, trunks)" and "dget leaf_of p = Some t"
  shows "2 \<le> t"
proof -
  from scan_sound [OF assms(1)] obtain ts where ts: "\<forall>t \<in> fst ` set ts. 2 \<le> t \<and> t \<le> page_count"
    and leaf: "\<forall>p. dget leaf_of p = (if p \<in> tail then map_of (rev (leaf_rows read_page ts)) p else None)" by blast
  from leaf assms(2) have "map_of (rev (leaf_rows read_page ts)) p = Some t" by (simp split: if_splits)
  then have "(p, t) \<in> set (leaf_rows read_page ts)" by (metis map_of_SomeD set_rev)
  then have "t \<in> fst ` set ts" by (force simp: leaf_rows_def)
  then show ?thesis using ts by blast
qed

section \<open>Properties\<close>

text \<open>Reading a b-tree page is safe on any bytes: the only failure that leaves \<open>btree_refs\<close> is the
  typed refusal \<open>malformed_page\<close>, never an index or unpacking error, and on success the page has one
  of the four b-tree types and every child and overflow reference lies inside the file.\<close>

theorem btree_refs_safe:
  "case btree_refs img usable page_count of
     Inl e \<Rightarrow> \<exists>d. e = Refused ''malformed_page'' d
   | Inr r \<Rightarrow> page_kind_ok (pr_kind r)
       \<and> (\<forall>x \<in> set (pr_children r @ pr_heads r). 2 \<le> x \<and> x \<le> page_count)"
  by (rule btree_refs_cases)

theorem btree_refs_safe_witness:
  "\<exists>r. btree_refs [5, 0, 0, 0, 1, 0, 0, 0, 0, 0, 0, 3, 0, 14, 0, 0, 0, 2] 512 9 = Inr r
     \<and> (\<forall>x \<in> set (pr_children r @ pr_heads r). 2 \<le> x \<and> x \<le> 9)"
proof -
  have *: "btree_refs [5, 0, 0, 0, 1, 0, 0, 0, 0, 0, 0, 3, 0, 14, 0, 0, 0, 2] 512 9
      = Inr \<lparr>pr_kind = 5, pr_children = [2, 3], pr_heads = []\<rparr>"
    by code_simp
  show ?thesis using btree_refs_safe [where img = "[5, 0, 0, 0, 1, 0, 0, 0, 0, 0, 0, 3, 0, 14, 0, 0, 0, 2]" and usable = 512 and page_count = 9] * by simp
qed

text \<open>The varint decoder stays in bounds: a decoded integer is below 2^64, it consumed between one
  and nine bytes, and all of them lie inside the page image.\<close>

theorem varint_bounds:
  assumes "varint img offset = Inr (v, c)"
  shows "offset < c \<and> c \<le> offset + 9 \<and> c \<le> length img \<and> v < 2 ^ 64"
  using varint_loop_bounds [of img offset 8 0 v c] assms by (simp add: varint_def)

theorem varint_bounds_witness:
  "varint [0x81, 0x00, 0x7F] 0 = Inr (128, 2) \<and> (128 :: nat) < 2 ^ 64"
proof -
  have *: "varint [0x81, 0x00, 0x7F] 0 = Inr (128, 2)" by code_simp
  then show ?thesis using varint_bounds [OF *] by simp
qed

text \<open>C15: The freelist scan accepts only a real freelist: when it succeeds the trunk chain ends, no
  trunk repeats, every trunk and every leaf that a trunk lists lies inside the file, and trunks and leaves
  together number exactly the free pages page 1 declares. What it returns is exactly the tail's part of that
  freelist: \<open>leaf_of\<close> has every listed leaf of the tail and nothing else, with the trunk that lists it (the
  last one when several do), and \<open>trunks\<close> has every trunk of the tail and nothing else, with its predecessor
  on the chain (page 1 for the first) and its leaf count.\<close>

theorem scan_freelist_sound:
  assumes "scan_freelist read_page first fc page_count usable tail = Inr (leaf_of, trunks)"
  shows "\<exists>ts. chain read_page first ts \<and> distinct (map fst ts) \<and> chain_pages ts = fc
     \<and> (\<forall>t \<in> fst ` set ts. 2 \<le> t \<and> t \<le> page_count)
     \<and> (\<forall>e \<in> set (leaf_rows read_page ts). 2 \<le> fst e \<and> fst e \<le> page_count)
     \<and> (\<forall>p. dget leaf_of p = (if p \<in> tail then map_of (rev (leaf_rows read_page ts)) p else None))
     \<and> (\<forall>p. dget trunks p = (if p \<in> tail then map_of (trunk_rows 1 ts) p else None))"
  by (rule scan_sound [OF assms])

text \<open>Two trunks, 7 with the leaves 9 and 5, then 8 with the leaf 6; the tail is 8 and 9.\<close>

definition two_trunks :: reader where
  "two_trunks p = Inr (if p = 7 then [0,0,0,8, 0,0,0,2, 0,0,0,9, 0,0,0,5] else [0,0,0,0, 0,0,0,1, 0,0,0,6])"

theorem scan_freelist_sound_witness:
  "\<exists>ts. chain two_trunks 7 ts \<and> chain_pages ts = 5 \<and> map_of (rev (leaf_rows two_trunks ts)) 9 = Some 7
     \<and> map_of (trunk_rows 1 ts) 8 = Some (7, 1) \<and> (\<forall>e \<in> set (leaf_rows two_trunks ts). 2 \<le> fst e \<and> fst e \<le> 9)"
proof -
  have *: "scan_freelist two_trunks 7 5 9 512 {8, 9} = Inr ([(9, 7)], [(8, (7, 1))])" by code_simp
  from scan_freelist_sound [OF *] obtain ts where ts: "chain two_trunks 7 ts" "chain_pages ts = 5"
    "\<forall>e \<in> set (leaf_rows two_trunks ts). 2 \<le> fst e \<and> fst e \<le> 9"
    and l: "\<forall>p. dget [(9, 7)] p = (if p \<in> {8, 9} then map_of (rev (leaf_rows two_trunks ts)) p else None)"
    and t: "\<forall>p. dget [(8, (7, 1))] p = (if p \<in> {8, 9} then map_of (trunk_rows 1 ts) p else None)" by blast
  have "map_of (rev (leaf_rows two_trunks ts)) 9 = Some 7" using l [rule_format, of 9] by simp
  moreover have "map_of (trunk_rows 1 ts) 8 = Some (7, 1)" using t [rule_format, of 8] by simp
  ultimately show ?thesis using ts by blast
qed

text \<open>C30: A planned chunk stays in its reservation: between one and the requested number of steps, the
  reservation is the formula over the distinct identified pages and the unidentified count, and it
  exceeds the budget only when the chunk is a single step.\<close>

theorem plan_chunk_within_budget:
  assumes "plan_chunk H read_page page_size max_steps budget fixed = Inr p"
  shows "1 \<le> rp_steps p \<and> rp_steps p \<le> max 0 max_steps
     \<and> (rp_steps p > 1 \<longrightarrow> rp_reservation p \<le> budget)
     \<and> rp_reservation p = (int (length (rp_identified p)) + rp_unidentified p + 1)
         * (2 * page_size + 24) + fixed
     \<and> distinct (rp_identified p)"
  using assms
proof (rule plan_chunkE)
  fix img p1 steps entries leaf_of trunks refs k px
  assume a: "tail_steps (p1_page_count p1) (p1_freelist_count p1) max_steps (p1_usable p1) page_size
      = Inr steps" "1 \<le> k" "k \<le> length steps" "k > 1 \<longrightarrow> rp_reservation p \<le> budget"
    "rp_reservation p = reservation_bytes (int (card (px_identified px))) (px_unidentified px)
       page_size fixed" "rp_steps p = int k" "rp_identified p = sorted_list_of_set (px_identified px)"
    "rp_unidentified p = px_unidentified px"
  have "length steps \<le> nat max_steps"
    using a(1) tail_loop_walk by (auto simp: tail_steps_def)
  then show ?thesis
    using a by (auto simp: reservation_bytes_def page_frame_bytes_def)
qed

text \<open>A file of four pages of 512 bytes: the last one is a free trunk without leaves.\<close>

definition sample_page1 :: image where
  "sample_page1 = map (\<lambda>c. word_of_nat (of_char c)) ''SQLite format 3'' @ [0, 2, 0]
     @ replicate 10 0 @ [0, 0, 0, 4, 0, 0, 0, 4, 0, 0, 0, 1]
     @ replicate 12 0 @ [0, 0, 0, 3] @ replicate 8 0 @ [0, 0, 0, 1]"

definition sample_file :: reader where
  "sample_file page = Inr (if page = 1 then sample_page1
     else if page = 2 then [1, 0, 0, 0, 0, 2, 0, 0, 0, 0] else replicate 8 0)"

theorem plan_chunk_within_budget_witness:
  "\<exists>p. plan_chunk (\<lambda>s. s) sample_file 512 4 0 32 = Inr p \<and> rp_steps p = 1
     \<and> rp_reservation p = 4 * 1048 + 32"
proof -
  obtain p where p: "plan_chunk (\<lambda>s. s) sample_file 512 4 0 32 = Inr p"
      "rp_steps p = 1" "rp_identified p = [1]" "rp_unidentified p = 2"
  proof -
    have "case plan_chunk (\<lambda>s. s) sample_file 512 4 0 32 of Inl _ \<Rightarrow> False
       | Inr p \<Rightarrow> rp_steps p = 1 \<and> rp_identified p = [1] \<and> rp_unidentified p = 2"
      by code_simp
    then show thesis using that by (auto split: sum.splits)
  qed
  then show ?thesis using plan_chunk_within_budget [OF p(1)] by simp
qed

section \<open>The wire round trip\<close>

definition wf_plan :: "reclaim_plan \<Rightarrow> bool" where
  "wf_plan p \<longleftrightarrow> 1 \<le> rp_steps p \<and> 0 \<le> rp_unidentified p \<and> 0 \<le> rp_new_end p
     \<and> 0 \<le> rp_page_size p \<and> 0 \<le> rp_usable_size p \<and> 0 \<le> rp_page_count p
     \<and> 0 \<le> rp_freelist_count p \<and> 0 \<le> rp_fixed_bytes p \<and> 0 \<le> rp_inspected_bytes p
     \<and> 0 \<le> rp_inspection_ms p \<and> (\<forall>i \<in> set (rp_identified p). 1 \<le> i)
     \<and> set (dkeys (rp_kinds p)) = {''free'', ''overflow'', ''leaf'', ''interior''}
     \<and> (\<forall>(k, v) \<in> set (rp_kinds p). 0 \<le> v)
     \<and> length (rp_digest p) \<le> 64 \<and> rp_reader_status p \<noteq> [] \<and> length (rp_reader_status p) \<le> 40
     \<and> rp_reservation p = reservation_bytes (int (length (rp_identified p))) (rp_unidentified p)
          (rp_page_size p) (rp_fixed_bytes p)"

lemma wire_ints:
  assumes "wf_plan p" shows "List.find (\<lambda>k. \<not> nonneg_int (jget (plan_as_wire p) k)) PLAN_INTS = None"
proof -
  have "0 \<le> rp_reservation p"
    using assms by (auto simp: wf_plan_def reservation_bytes_def page_frame_bytes_def)
  then show ?thesis
    using assms by (auto simp: find_None_iff PLAN_INTS_def plan_as_wire_def wf_plan_def)
qed

lemma wire_kinds:
  assumes "wf_plan p"
  shows "has_exact_keys [''free'', ''overflow'', ''leaf'', ''interior''] (map (\<lambda>(k, v). (k, JInt v)) (rp_kinds p))
    \<and> list_all (\<lambda>(_, v). loose_nonneg v \<noteq> None) (map (\<lambda>(k, v). (k, JInt v)) (rp_kinds p))
    \<and> map (\<lambda>(k, v). (k, the (loose_nonneg v))) (map (\<lambda>(k, v). (k, JInt v)) (rp_kinds p)) = rp_kinds p"
  using assms by (force simp: wf_plan_def has_exact_keys_def dkeys_def list_all_iff comp_def
      case_prod_unfold intro!: map_idI)

lemma wire_roundtrip: "wf_plan p \<Longrightarrow> plan_from_wire py_str (JObj (plan_as_wire p)) = Inr p"
proof -
  assume wf: "wf_plan p"
  note w = wire_ints [OF wf] wire_kinds [OF wf]
  have ids: "list_all positive_int (map JInt (rp_identified p))"
    using wf by (simp add: wf_plan_def list_all_iff positive_int_def)
  have f: "jget (plan_as_wire p) ''identified'' = JArr (map JInt (rp_identified p))"
    "jget (plan_as_wire p) ''kinds'' = JObj (map (\<lambda>(k, v). (k, JInt v)) (rp_kinds p))"
    "jget (plan_as_wire p) ''digest'' = JStr (rp_digest p)"
    "jget (plan_as_wire p) ''detail'' = JArr (rp_detail p)"
    "jget (plan_as_wire p) ''reader_status'' = JStr (rp_reader_status p)"
    "the_int (jget (plan_as_wire p) ''steps'') = rp_steps p"
    "the_int (jget (plan_as_wire p) ''unidentified'') = rp_unidentified p"
    "the_int (jget (plan_as_wire p) ''new_end'') = rp_new_end p"
    "the_int (jget (plan_as_wire p) ''page_size'') = rp_page_size p"
    "the_int (jget (plan_as_wire p) ''usable_size'') = rp_usable_size p"
    "the_int (jget (plan_as_wire p) ''page_count'') = rp_page_count p"
    "the_int (jget (plan_as_wire p) ''freelist_count'') = rp_freelist_count p"
    "the_int (jget (plan_as_wire p) ''fixed_bytes'') = rp_fixed_bytes p"
    "the_int (jget (plan_as_wire p) ''reservation_bytes'') = rp_reservation p"
    "the_int (jget (plan_as_wire p) ''inspected_bytes'') = rp_inspected_bytes p"
    "the_int (jget (plan_as_wire p) ''inspection_ms'') = rp_inspection_ms p"
    by (simp_all add: plan_as_wire_def)
  have res: "rp_reservation p = reservation_bytes (int (length (rp_identified p))) (rp_unidentified p)
      (rp_page_size p) (rp_fixed_bytes p)" "1 \<le> rp_steps p" "length (rp_digest p) \<le> 64"
    "rp_reader_status p \<noteq> []" "length (rp_reader_status p) \<le> 40"
    using wf by (simp_all add: wf_plan_def)
  have same: "map the_int (map JInt (rp_identified p)) = rp_identified p" by (simp add: comp_def)
  have rec: "\<lparr>rp_steps = rp_steps p, rp_identified = rp_identified p,
      rp_unidentified = rp_unidentified p, rp_new_end = rp_new_end p, rp_page_size = rp_page_size p,
      rp_usable_size = rp_usable_size p, rp_page_count = rp_page_count p,
      rp_freelist_count = rp_freelist_count p, rp_fixed_bytes = rp_fixed_bytes p,
      rp_reservation = rp_reservation p, rp_kinds = rp_kinds p, rp_digest = rp_digest p,
      rp_inspected_bytes = rp_inspected_bytes p, rp_inspection_ms = rp_inspection_ms p,
      rp_reader_status = rp_reader_status p, rp_detail = rp_detail p\<rparr> = p"
    by (cases p) simp
  show ?thesis
    using w ids res(2-)
    by (simp add: plan_from_wire_def f truthy_def tuple_of_def Let_def same rec res(1) [symmetric]
        del: map_map)
qed

text \<open>What the plan's ingredients guarantee.\<close>

lemma skip_down_ge1:
  assumes "1 \<le> fin" "2 \<le> pending_byte_page page_size" shows "1 \<le> skip_down usable page_size fin"
proof (rule ccontr)
  assume "\<not> 1 \<le> skip_down usable page_size fin"
  then have "vacant usable page_size 1"
    using skip_down_result [of usable page_size fin] assms(1) by auto
  then show False using assms(2) by (auto simp: vacant_def is_ptrmap_def)
qed

lemma tail_loop_ends:
  "tail_loop usable page_size k endp free = Inr steps \<Longrightarrow> 2 \<le> pending_byte_page page_size \<Longrightarrow>
     s \<in> set steps \<Longrightarrow> 1 \<le> ts_new_end s"
proof (induction k arbitrary: endp free steps)
  case (Suc k)
  show ?case
  proof (cases "free \<le> 0 \<or> endp \<le> 1 \<or> endp \<le> final_db_size endp free usable page_size")
    case True
    then have "steps = []" using Suc.prems(1) by (auto simp: refuse_def Let_def split: if_splits)
    then show ?thesis using Suc.prems(3) by simp
  next
    case False
    then obtain free' rest x where rest: "tail_loop usable page_size k
        (skip_down usable page_size (endp - 1)) free' = Inr rest"
      and steps: "steps = x # rest" "ts_new_end x = skip_down usable page_size (endp - 1)"
      using Suc.prems(1) by (auto simp: refuse_def Let_def rbind_Inr_iff split: if_splits)
    show ?thesis
      using Suc.prems(2,3) Suc.IH [OF rest Suc.prems(2)] skip_down_ge1 [of "endp - 1"] False steps by auto
  qed
qed simp

lemma ptrmap_pageno_ge: "2 \<le> page \<Longrightarrow> 0 \<le> usable \<Longrightarrow> 2 \<le> ptrmap_pageno page usable page_size"
proof -
  assume "2 \<le> page" "0 \<le> usable"
  then have "0 \<le> ((page - 2) div (usable div 5 + 1)) * (usable div 5 + 1)"
    by (intro mult_nonneg_nonneg) (simp_all add: pos_imp_zdiv_nonneg_iff add_pos_nonneg)
  then show ?thesis using \<open>2 \<le> page\<close> by (simp add: ptrmap_pageno_def Let_def)
qed

definition kinds_ok :: "(string, int) dict \<Rightarrow> bool" where
  "kinds_ok d \<longleftrightarrow> set (dkeys d) = {''free'', ''overflow'', ''leaf'', ''interior''}
     \<and> (\<forall>(k, v) \<in> set d. 0 \<le> v)"

definition px_ok :: "prefix_state \<Rightarrow> bool" where
  "px_ok px \<longleftrightarrow> finite (px_identified px) \<and> (\<forall>i \<in> px_identified px. 1 \<le> i) \<and> 0 \<le> px_unidentified px
     \<and> kinds_ok (px_kinds px)"

lemma kinds_ok_bump: "kinds_ok d \<Longrightarrow> k \<in> {''free'', ''overflow'', ''leaf'', ''interior''} \<Longrightarrow> kinds_ok (bump k d)"
proof -
  assume ok: "kinds_ok d" and k: "k \<in> {''free'', ''overflow'', ''leaf'', ''interior''}"
  have set_update: "set (dset k v d) \<subseteq> insert (k, v) (set d)" for v
    by (induction d) auto
  have "0 \<le> dget_or d k 0"
    using ok by (auto simp: dget_or_def kinds_ok_def split: option.splits dest!: map_of_SomeD)
  then show ?thesis
    using ok k set_update [of "dget_or d k 0 + 1"] dkeys_dset [of k "dget_or d k 0 + 1" d]
    unfolding kinds_ok_def bump_def by fastforce
qed

lemma px_ok_reference:
  "px_ok st \<Longrightarrow> 2 \<le> page \<Longrightarrow> 0 \<le> usable \<Longrightarrow> px_ok (reference new_end usable page_size st page)"
  using ptrmap_pageno_ge [of page usable page_size] by (auto simp: px_ok_def reference_def)

lemma px_ok_references:
  "px_ok st \<Longrightarrow> \<forall>p \<in> set ps. 2 \<le> p \<Longrightarrow> 0 \<le> usable \<Longrightarrow>
    px_ok (foldl (reference new_end usable page_size) st ps)"
  by (induction ps arbitrary: st) (auto intro: px_ok_reference)

definition step_ok :: "(int, nat \<times> int) dict \<Rightarrow> (int, ref_entry) dict \<Rightarrow> (int, int) dict \<Rightarrow> tail_step \<Rightarrow> bool"
  where
  "step_ok entries refs leaf_of step \<longleftrightarrow> (\<forall>p t. dget leaf_of p = Some t \<longrightarrow> 1 \<le> t)
     \<and> (case ts_page step of None \<Rightarrow> True | Some p \<Rightarrow>
         (case dget_or entries p (0, 0) of (kind, parent) \<Rightarrow> kind = PTRMAP_FREEPAGE \<or>
           (1 \<le> parent \<and> (case dget_or refs p ([], [], []) of (label, children, heads) \<Rightarrow>
              label \<in> {''overflow'', ''leaf'', ''interior''} \<and> (\<forall>x \<in> set (children @ heads). 2 \<le> x)))))"

lemma px_ok_step:
  assumes "px_ok st" "step_ok entries refs leaf_of step" "0 \<le> usable"
  shows "px_ok (prefix_step new_end entries refs leaf_of trunks usable page_size st step)"
proof (cases "ts_page step")
  case None
  then show ?thesis using assms(1) by (simp add: prefix_step_def px_ok_def)
next
  case (Some page)
  obtain kind parent where e: "dget_or entries page (0, 0) = (kind, parent)" by fastforce
  obtain label children heads where r: "dget_or refs page ([], [], []) = (label, children, heads)"
    by (metis prod.exhaust)
  show ?thesis
  proof (cases "kind = PTRMAP_FREEPAGE")
    case True
    have "kinds_ok (bump ''free'' (px_kinds st))"
      using assms(1) by (intro kinds_ok_bump) (simp_all add: px_ok_def)
    then show ?thesis
      using assms(1,2) Some e True
      by (auto simp: prefix_step_def px_ok_def step_ok_def Let_def split: option.splits)
  next
    case False
    then have ok: "1 \<le> parent" "label \<in> {''overflow'', ''leaf'', ''interior''}"
      "\<forall>x \<in> set (children @ heads). 2 \<le> x"
      using assms(2) Some e r by (simp_all add: step_ok_def)
    have "kinds_ok (bump label (px_kinds st))"
      using assms(1) ok(2) by (intro kinds_ok_bump) (auto simp: px_ok_def)
    then have base: "px_ok (st\<lparr>px_changed := True, px_unidentified := u, px_identified := I,
        px_kinds := bump label (px_kinds st)\<rparr>)" if "0 \<le> u" "finite I" "\<forall>i \<in> I. 1 \<le> i" for u I
      using that by (simp add: px_ok_def)
    have detail: "px_ok (st'\<lparr>px_detail := d\<rparr>) = px_ok st'" for st' d by (simp add: px_ok_def)
    have split: "prefix_step new_end entries refs leaf_of trunks usable page_size st step
      = (let st' = foldl (reference new_end usable page_size)
           (st\<lparr>px_changed := True,
              px_unidentified := (if parent \<le> new_end then px_unidentified st + 4 else 5 + px_unidentified st),
              px_identified := (if parent \<le> new_end then insert parent (px_identified st) else px_identified st),
              px_kinds := bump label (px_kinds st)\<rparr>) (children @ heads)
         in st'\<lparr>px_detail := px_detail st' @ [MovedPage page label (length children) (length heads)
              (card ((\<lambda>p. ptrmap_pageno p usable page_size) ` set (children @ heads))) (parent > new_end)]\<rparr>)"
      using False Some e r by (simp add: prefix_step_def Let_def)
    show ?thesis
      unfolding split Let_def detail
      using assms(1) ok(1,3) by (intro px_ok_references assms(3) base) (auto simp: px_ok_def)
  qed
qed

lemma px_ok_plan:
  assumes "\<forall>s \<in> set prefix. step_ok entries refs leaf_of s" "0 \<le> usable"
  shows "px_ok (prefix_plan prefix new_end entries refs leaf_of trunks usable page_size)"
proof -
  have "px_ok (foldl (prefix_step new_end entries refs leaf_of trunks usable page_size) st prefix)"
    if "px_ok st" for st
    using that assms(1) by (induction prefix arbitrary: st) (auto intro: px_ok_step assms(2))
  moreover have "px_ok empty_prefix"
    by (auto simp: px_ok_def kinds_ok_def empty_prefix_def dkeys_def)
  ultimately show ?thesis by (simp add: prefix_plan_def)
qed

text \<open>Every step of the chosen prefix has what the prefix plan reads.\<close>

lemma read_page1_usable: "read_page1 img page_size = Inr p1 \<Longrightarrow>
    p1_usable p1 = page_size \<and> 0 \<le> p1_page_count p1 \<and> 0 \<le> p1_freelist_count p1
    \<and> 0 \<le> page_size \<and> page_size \<le> 65536"
proof -
  assume r: "read_page1 img page_size = Inr p1"
  have be2: "be_value bs < 65536" if "length bs = 2" for bs
  proof -
    obtain a b where "bs = [a, b]" using \<open>length bs = 2\<close>
      by (metis (no_types) One_nat_def Suc_1 Suc_length_conv length_0_conv)
    then show ?thesis
      using unat_less_helper_8 [of a] unat_less_helper_8 [of b] by (simp add: be_value_def)
  qed
  have "size < 65536" if "unpack_be 2 img 16 = Inr size" for size
    using that be2 by (auto simp: unpack_be_def Let_def split: if_splits)
  then show ?thesis
    using r by (auto simp: read_page1_def rbind_Inr_iff malformed_def refuse_def less_imp_le
        split: if_splits)
qed

lemma tail_entry_fields:
  "tail_entry read_page page_count usable page_size page = Inr (q, kind, parent) \<Longrightarrow>
     q = page \<and> (kind \<noteq> PTRMAP_FREEPAGE \<longrightarrow> kind \<noteq> PTRMAP_ROOTPAGE \<longrightarrow>
       1 \<le> parent \<and> kind \<in> {PTRMAP_OVERFLOW1, PTRMAP_OVERFLOW2, PTRMAP_BTREE})"
  by (auto simp: tail_entry_def rbind_Inr_iff malformed_def refuse_def split: if_splits prod.splits)

lemma tail_refs_fields:
  assumes "tail_refs read_page page_count usable leaf_of trunks (page, kind, parent) = Inr r"
  shows "\<forall>(q, label, children, heads) \<in> set r. q = page \<and> label \<in> {''overflow'', ''leaf'', ''interior''}
      \<and> (\<forall>x \<in> set (children @ heads). 2 \<le> x)"
    and "kind \<in> {PTRMAP_OVERFLOW1, PTRMAP_OVERFLOW2, PTRMAP_BTREE} \<Longrightarrow> r \<noteq> []"
proof -
  have b: "\<forall>x \<in> set (pr_children p @ pr_heads p). 2 \<le> x" if "btree_refs img usable page_count = Inr p"
    for img p
    using btree_refs_cases [where img = img and usable = usable and page_count = page_count] that by simp
  show "\<forall>(q, label, children, heads) \<in> set r. q = page \<and> label \<in> {''overflow'', ''leaf'', ''interior''}
      \<and> (\<forall>x \<in> set (children @ heads). 2 \<le> x)"
    using assms b by (fastforce simp: tail_refs_def rbind_Inr_iff malformed_def refuse_def split: if_splits)
  show "r \<noteq> []" if "kind \<in> {PTRMAP_OVERFLOW1, PTRMAP_OVERFLOW2, PTRMAP_BTREE}"
    using assms that by (auto simp: tail_refs_def rbind_Inr_iff malformed_def refuse_def ptrmap_consts
        split: if_splits)
qed

lemma rmap_all_in: "rmap f xs = Inr ys \<Longrightarrow> x \<in> set xs \<Longrightarrow> \<exists>y \<in> set ys. f x = Inr y"
  by (induction xs arbitrary: ys) (auto simp: rbind_Inr_iff)

lemma dget_of_member: "(k, v) \<in> set d \<Longrightarrow> \<exists>w. dget d k = Some w \<and> (k, w) \<in> set d"
  by (cases "dget d k") (auto simp: map_of_eq_None_iff image_iff dest: map_of_SomeD)

lemma tail_entry_get:
  assumes entries: "rmap (tail_entry read_page page_count usable page_size) ps = Inr entries"
    and p: "p \<in> set ps"
  obtains kind parent where "dget entries p = Some (kind, parent)" "(p, kind, parent) \<in> set entries"
    "tail_entry read_page page_count usable page_size p = Inr (p, kind, parent)"
proof -
  obtain e where e: "e \<in> set entries" "tail_entry read_page page_count usable page_size p = Inr e"
    using rmap_all_in [OF entries p] by blast
  then have "fst e = p" using tail_entry_fields by (metis prod.collapse)
  then obtain w where w: "dget entries p = Some w" "(p, w) \<in> set entries"
    using e(1) dget_of_member by (metis prod.collapse)
  then obtain x where x: "tail_entry read_page page_count usable page_size x = Inr (p, w)"
    using rmap_set [OF entries] by blast
  then have "x = p" using tail_entry_fields by (metis prod.collapse)
  then show thesis using w x that [of "fst w" "snd w"] by simp
qed

lemma ball_concatI: "(\<And>r. r \<in> set rs \<Longrightarrow> \<forall>e \<in> set r. P e) \<Longrightarrow> \<forall>e \<in> set (concat rs). P e"
  by auto

lemma tail_refs_get:
  assumes refs: "rmap (tail_refs read_page page_count usable leaf_of trunks) entries = Inr refs"
    and p: "(p, kind, parent) \<in> set entries"
    and kind: "kind \<in> {PTRMAP_OVERFLOW1, PTRMAP_OVERFLOW2, PTRMAP_BTREE}"
  shows "case dget_or (concat refs) p ([], [], []) of (label, children, heads) \<Rightarrow>
        label \<in> {''overflow'', ''leaf'', ''interior''} \<and> (\<forall>x \<in> set (children @ heads). 2 \<le> x)"
proof -
  have good: "\<forall>(q, label, children, heads) \<in> set (concat refs).
      label \<in> {''overflow'', ''leaf'', ''interior''} \<and> (\<forall>x \<in> set (children @ heads). 2 \<le> x)"
  proof -
    have "\<forall>(q, label, children, heads) \<in> set r.
        label \<in> {''overflow'', ''leaf'', ''interior''} \<and> (\<forall>x \<in> set (children @ heads). 2 \<le> x)"
      if mem: "r \<in> set refs" for r
    proof -
      obtain x where x: "tail_refs read_page page_count usable leaf_of trunks x = Inr r"
        using rmap_set [OF refs] mem by blast
      obtain q0 k0 p0 where q: "x = (q0, k0, p0)" by (metis prod.exhaust)
      show ?thesis
      proof
        fix e assume e: "e \<in> set r"
        have "case e of (q, label, children, heads) \<Rightarrow> q = q0 \<and>
            label \<in> {''overflow'', ''leaf'', ''interior''} \<and> (\<forall>x \<in> set (children @ heads). 2 \<le> x)"
          using bspec [OF tail_refs_fields(1) [OF x [unfolded q]] e] .
        then show "case e of (q, label, children, heads) \<Rightarrow>
            label \<in> {''overflow'', ''leaf'', ''interior''} \<and> (\<forall>x \<in> set (children @ heads). 2 \<le> x)"
          by (elim case_prodE) blast
      qed
    qed
    then show ?thesis by (rule ball_concatI)
  qed
  obtain r where r: "r \<in> set refs" "tail_refs read_page page_count usable leaf_of trunks (p, kind, parent) = Inr r"
    using rmap_all_in [OF refs p] by blast
  then obtain e where e: "e \<in> set r" using tail_refs_fields(2) kind by (meson list.set_sel(1))
  moreover have "fst e = p" using tail_refs_fields(1) [OF r(2)] e by fastforce
  ultimately have "(p, snd e) \<in> set (concat refs)" using r(1) by (metis UN_I prod.collapse set_concat)
  then obtain w where w: "dget (concat refs) p = Some w" "(p, w) \<in> set (concat refs)"
    using dget_of_member by metis
  then show ?thesis using good by (fastforce simp: dget_or_def)
qed

lemma steps_ok:
  assumes entries: "rmap (tail_entry read_page page_count usable page_size)
       (rev (sorted_set (moved steps))) = Inr entries"
    and scan: "scan_freelist read_page first fc page_count usable (set (moved steps)) = Inr (leaf_of, trunks)"
    and refs: "rmap (tail_refs read_page page_count usable leaf_of trunks) entries = Inr refs"
    and root: "\<not> root_in entries prefix" and sub: "set prefix \<subseteq> set steps" and s: "s \<in> set prefix"
  shows "step_ok entries (concat refs) leaf_of s"
proof -
  have leaf: "1 \<le> t" if "dget leaf_of p = Some t" for p t
    using scan_loop_leaf [OF scan] that by force
  show ?thesis
  proof (cases "ts_page s")
    case None
    then show ?thesis using leaf by (auto simp: step_ok_def)
  next
    case (Some p)
    then have "p \<in> set (rev (sorted_set (moved steps)))" using s sub by (force simp: moved_def)
    then obtain kind parent where e: "dget entries p = Some (kind, parent)" "(p, kind, parent) \<in> set entries"
      "tail_entry read_page page_count usable page_size p = Inr (p, kind, parent)"
      using tail_entry_get [OF entries] by metis
    have "kind \<noteq> PTRMAP_ROOTPAGE"
      using root s Some e(1) by (force simp: root_in_def list_ex_iff dget_or_def)
    then have "kind = PTRMAP_FREEPAGE \<or> 1 \<le> parent \<and> kind \<in> {PTRMAP_OVERFLOW1, PTRMAP_OVERFLOW2, PTRMAP_BTREE}"
      using tail_entry_fields [OF e(3)] by blast
    then show ?thesis
      using tail_refs_get [OF refs e(2)] Some e(1) leaf by (auto simp: step_ok_def dget_or_def)
  qed
qed

lemma pending_page_ge2: "0 < page_size \<Longrightarrow> page_size \<le> 65536 \<Longrightarrow> 2 \<le> pending_byte_page page_size"
proof -
  assume a: "0 < page_size" "page_size \<le> 65536"
  have "PENDING_BYTE div 65536 \<le> PENDING_BYTE div page_size"
    using a by (intro zdiv_mono2) (simp_all add: PENDING_BYTE_def)
  then show ?thesis by (simp add: pending_byte_page_def PENDING_BYTE_def)
qed

lemma plan_chunk_wf:
  assumes "plan_chunk H read_page page_size max_steps budget fixed = Inr p"
    and "0 < page_size" and "0 \<le> fixed"
  shows "wf_plan p"
  using assms(1)
proof (rule plan_chunkE)
  fix img p1 steps entries leaf_of trunks refs k px
  assume p1: "read_page1 img page_size = Inr p1"
    and steps: "tail_steps (p1_page_count p1) (p1_freelist_count p1) max_steps (p1_usable p1) page_size
      = Inr steps"
    and en: "rmap (tail_entry read_page (p1_page_count p1) (p1_usable p1) page_size)
       (rev (sorted_set (moved steps))) = Inr entries"
    and sc: "scan_freelist read_page (p1_first_trunk p1) (p1_freelist_count p1) (p1_page_count p1)
       (p1_usable p1) (set (moved steps)) = Inr (leaf_of, trunks)"
    and re: "rmap (tail_refs read_page (p1_page_count p1) (p1_usable p1) leaf_of trunks) entries = Inr refs"
    and px: "px = prefix_plan (take k steps) (prefix_end steps k) entries (concat refs) leaf_of trunks
       (p1_usable p1) page_size"
    and k: "1 \<le> k" "k \<le> length steps" "\<not> root_in entries (take k steps)"
    and f: "rp_reservation p = reservation_bytes (int (card (px_identified px))) (px_unidentified px)
       page_size fixed"
    "rp_steps p = int k" "rp_identified p = sorted_list_of_set (px_identified px)"
    "rp_unidentified p = px_unidentified px" "rp_page_size p = page_size" "rp_fixed_bytes p = fixed"
    "rp_new_end p = prefix_end steps k" "rp_usable_size p = p1_usable p1"
    "rp_page_count p = p1_page_count p1" "rp_freelist_count p = p1_freelist_count p1"
    "rp_kinds p = px_kinds px" "length (rp_digest p) \<le> 16" "rp_inspected_bytes p = 0"
    "rp_inspection_ms p = 0" "rp_reader_status p = ''ok''"
  note u = read_page1_usable [OF p1]
  have "px_ok px"
    unfolding px using u by (intro px_ok_plan ballI steps_ok [OF en sc re k(3) set_take_subset]) simp_all
  moreover have "1 \<le> prefix_end steps k"
    unfolding prefix_end_def
    by (rule tail_loop_ends [OF steps [unfolded tail_steps_def]])
      (use k u assms(2) pending_page_ge2 in auto)
  ultimately show ?thesis
    using u k(1) assms(2,3) f unfolding wf_plan_def px_ok_def kinds_ok_def by simp
qed

text \<open>The plan survives the helper's wire: what the planner produces, encoded by \<open>as_wire\<close> and read
  back by \<open>from_wire\<close> in the dashboard process, is the same plan; in particular every field check,
  and the recomputation of the reservation, passes.\<close>

theorem plan_survives_wire:
  assumes "plan_chunk H read_page page_size max_steps budget fixed = Inr p"
    and "0 < page_size" and "0 \<le> fixed"
  shows "plan_from_wire py_str (JObj (plan_as_wire p)) = Inr p"
  by (rule wire_roundtrip) (rule plan_chunk_wf [OF assms])

lemma sample_plan: "\<exists>p. plan_chunk (\<lambda>s. s) sample_file 512 4 0 32 = Inr p"
proof -
  have "case plan_chunk (\<lambda>s. s) sample_file 512 4 0 32 of Inl _ \<Rightarrow> False | Inr p \<Rightarrow> True"
    by code_simp
  then show ?thesis by (auto split: sum.splits)
qed

theorem plan_survives_wire_witness:
  "\<exists>p. plan_chunk (\<lambda>s. s) sample_file 512 4 0 32 = Inr p
    \<and> plan_from_wire (\<lambda>_. []) (JObj (plan_as_wire p)) = Inr p"
  using sample_plan plan_survives_wire [of "\<lambda>s. s" sample_file 512 4 0 32] by fastforce

end
