(* ===== verification/Wal_Reader.thy ===== *)
theory Wal_Reader
  imports Reclaim_Plan
begin

text \<open>
  \<open>bin/_lib_reclaim_planner.py\<close>, section "the snapshot reader": the wal-index header, the WAL's
  checksum chain, and \<open>WalSnapshotReader\<close> with its read budget. The files are a \<open>world\<close>: what each
  path names and the bytes of every inode; an open descriptor is the inode it was opened on, so a
  path that is replaced later is visible to \<open>recheck\<close>. The clock is a function from the number of
  readings taken so far; time is in whole milliseconds. Page size, budget and deadline are the
  request's. The file hooks of the tests are not modelled.
\<close>

section \<open>Checksums\<close>

definition word_of_bytes :: "bool \<Rightarrow> image \<Rightarrow> 32 word" where
  "word_of_bytes big bs = word_of_nat (be_value (if big then bs else rev bs))"

text \<open>\<open>struct.unpack("%dI" % (len(data) // 4), data)\<close>, in either byte order.\<close>

fun words_of :: "bool \<Rightarrow> image \<Rightarrow> reclaim_error + 32 word list" where
  "words_of big [] = Inr []"
| "words_of big (a # b # c # d # bs) = rbind (words_of big bs)
     (\<lambda>ws. Inr (word_of_bytes big [a, b, c, d] # ws))"
| "words_of big _ = Inl StructError"

fun checksum_words :: "32 word list \<Rightarrow> 32 word \<times> 32 word \<Rightarrow> reclaim_error + (32 word \<times> 32 word)" where
  "checksum_words [] s = Inr s"
| "checksum_words [_] s = Inl IndexError"
| "checksum_words (x # y # ws) (s0, s1) =
     (let s0 = s0 + x + s1; s1 = s1 + y + s0 in checksum_words ws (s0, s1))"

definition checksum :: "image \<Rightarrow> 32 word \<times> 32 word \<Rightarrow> bool \<Rightarrow> reclaim_error + (32 word \<times> 32 word)" where
  "checksum bytes s big = rbind (words_of big bytes) (\<lambda>ws. checksum_words ws s)"

lemma words_of_append:
  "words_of big xs = Inr us \<Longrightarrow> words_of big (xs @ ys) = rbind (words_of big ys) (\<lambda>vs. Inr (us @ vs))"
proof (induction big xs arbitrary: us rule: words_of.induct)
  case (1 big)
  then show ?case by (cases "words_of big ys") simp_all
next
  case (2 big a b c d bs)
  then obtain ws where ws: "words_of big bs = Inr ws" "us = word_of_bytes big [a, b, c, d] # ws"
    by (auto simp: rbind_Inr_iff)
  then show ?case using 2(1) [OF ws(1)] by (cases "words_of big ys") simp_all
qed simp_all

lemma checksum_words_append:
  "checksum_words us s = Inr t \<Longrightarrow> checksum_words (us @ vs) s = checksum_words vs t"
  by (induction us s arbitrary: t rule: checksum_words.induct) (auto simp: Let_def)

text \<open>The chain over parts is the checksum of the whole.\<close>

lemma checksum_append:
  assumes "checksum xs s big = Inr t" and "checksum ys t big = Inr u"
  shows "checksum (xs @ ys) s big = Inr u"
proof -
  obtain us vs where "words_of big xs = Inr us" "words_of big ys = Inr vs"
    "checksum_words us s = Inr t" "checksum_words vs t = Inr u"
    using assms by (auto simp: checksum_def rbind_Inr_iff)
  then show ?thesis by (simp add: checksum_def words_of_append checksum_words_append)
qed

section \<open>The wal-index header\<close>

definition WAL_INDEX_VERSION :: nat where "WAL_INDEX_VERSION = 3007000"
definition WAL_FORMAT_VERSION :: nat where "WAL_FORMAT_VERSION = 3007000"
definition WAL_MAGIC_LE :: nat where "WAL_MAGIC_LE = 0x377F0682"
definition WAL_MAGIC_BE :: nat where "WAL_MAGIC_BE = 0x377F0683"
definition WAL_HEADER_BYTES :: nat where "WAL_HEADER_BYTES = 32"
definition FRAME_HEADER_BYTES :: nat where "FRAME_HEADER_BYTES = 24"
definition WAL_INDEX_HEADER_BYTES :: nat where "WAL_INDEX_HEADER_BYTES = 48"

lemmas wal_consts = WAL_INDEX_VERSION_def WAL_FORMAT_VERSION_def WAL_MAGIC_LE_def WAL_MAGIC_BE_def
  WAL_HEADER_BYTES_def FRAME_HEADER_BYTES_def WAL_INDEX_HEADER_BYTES_def

record wal_index_header =
  wi_change :: nat
  wi_page_size :: nat
  wi_max_frame :: nat
  wi_page_count :: nat
  wi_frame_checksum :: "32 word \<times> 32 word"
  wi_salt :: image
  wi_big_endian :: bool
  wi_raw :: image

definition unreadable :: "string \<Rightarrow> reclaim_error + 'a" where
  "unreadable detail = refuse ''wal_index_unreadable'' detail"

text \<open>An integer of \<open>w\<close> bytes at \<open>i\<close> of a header that is known to be long enough.\<close>

definition field :: "bool \<Rightarrow> nat \<Rightarrow> image \<Rightarrow> nat \<Rightarrow> nat" where
  "field big w img i = (let bs = take w (drop i img) in be_value (if big then bs else rev bs))"

definition checksum_field :: "bool \<Rightarrow> image \<Rightarrow> nat \<Rightarrow> 32 word \<times> 32 word" where
  "checksum_field big img i = (word_of_nat (field big 4 img i), word_of_nat (field big 4 img (i + 4)))"

definition parse_wal_index_header :: "image \<Rightarrow> bool \<Rightarrow> reclaim_error + wal_index_header" where
  "parse_wal_index_header raw big =
     (if length raw < 2 * WAL_INDEX_HEADER_BYTES then unreadable ''short -shm''
      else let first = take 48 raw; second = take 48 (drop 48 raw) in
        if first \<noteq> second then unreadable ''header copies differ''
        else let size = field big 2 first 14; stored = checksum_field big first 40 in
          if first ! 12 = 0 \<or> field big 4 first 0 \<noteq> WAL_INDEX_VERSION
          then unreadable ''uninitialized or version''
          else rbind (checksum (take 40 first) (0, 0) big) (\<lambda>ck.
            if ck \<noteq> stored then unreadable ''header checksum''
            else Inr \<lparr>wi_change = field big 4 first 8,
              wi_page_size = (size div 256) * 256 + (size mod 2) * 65536,
              wi_max_frame = field big 4 first 16, wi_page_count = field big 4 first 20,
              wi_frame_checksum = checksum_field big first 24, wi_salt = take 8 (drop 32 first),
              wi_big_endian = (first ! 13 \<noteq> 0), wi_raw = first\<rparr>))"

section \<open>The reader's state\<close>

datatype which = Db | Wal | Shm

definition which_name :: "which \<Rightarrow> string" where
  "which_name f = (case f of Db \<Rightarrow> ''db'' | Wal \<Rightarrow> ''wal'' | Shm \<Rightarrow> ''shm'')"

type_synonym identity = "int \<times> int"

record inode =
  in_data :: image
  in_regular :: bool

record world =
  wd_path :: "which \<Rightarrow> identity option"
  wd_inode :: "identity \<Rightarrow> inode"

record config =
  cf_page_size :: nat
  cf_budget :: int
  cf_deadline :: int
  cf_clock :: "nat \<Rightarrow> int"
  cf_big_endian :: bool

record reader_state =
  rs_read_bytes :: int
  rs_ticks :: nat
  rs_frames :: "(int, nat) dict"
  rs_fds :: "(which, identity) dict"
  rs_header :: "wal_index_header option"
  rs_pages :: "(int, image) dict"

definition new_reader :: "nat \<Rightarrow> reader_state" where
  "new_reader ticks = \<lparr>rs_read_bytes = 0, rs_ticks = ticks, rs_frames = [], rs_fds = [],
     rs_header = None, rs_pages = []\<rparr>"

text \<open>\<open>_charge\<close> and \<open>_pread\<close>: the budget is charged before the read, and a short read is refused.\<close>

definition charge :: "config \<Rightarrow> nat \<Rightarrow> reader_state \<Rightarrow> reclaim_error + reader_state" where
  "charge cf n st =
     (let total = rs_read_bytes st + int n in
      if total > cf_budget cf then refuse ''read_budget_exhausted'' (int_str total @ '' bytes'')
      else if cf_clock cf (rs_ticks st) \<ge> cf_deadline cf then refuse ''read_budget_exhausted'' ''deadline''
      else Inr (st\<lparr>rs_read_bytes := total, rs_ticks := rs_ticks st + 1\<rparr>))"

definition pread :: "config \<Rightarrow> world \<Rightarrow> which \<Rightarrow> nat \<Rightarrow> nat \<Rightarrow> reader_state \<Rightarrow> reclaim_error + image \<times> reader_state" where
  "pread cf w f n offset st = rbind (charge cf n st) (\<lambda>st.
     case dget (rs_fds st) f of None \<Rightarrow> Inl KeyError
     | Some ident \<Rightarrow>
       let bytes = take n (drop offset (in_data (wd_inode w ident))) in
       if length bytes \<noteq> n then refuse (if f = Wal then ''wal_endpoint_mismatch'' else ''malformed_page'')
         (''short read of '' @ which_name f @ '' at '' @ nat_str offset)
       else Inr (bytes, st))"

definition open_file :: "world \<Rightarrow> which \<Rightarrow> reader_state \<Rightarrow> reclaim_error + reader_state" where
  "open_file w f st = (case wd_path w f of
     None \<Rightarrow> unreadable (''cannot open '' @ which_name f)
   | Some ident \<Rightarrow> if \<not> in_regular (wd_inode w ident) then refuse ''identity_changed'' (which_name f @ '' type'')
       else Inr (st\<lparr>rs_fds := dset f ident (rs_fds st)\<rparr>))"

section \<open>Scanning the WAL\<close>

definition wal_mismatch :: "string \<Rightarrow> reclaim_error + 'a" where
  "wal_mismatch detail = refuse ''wal_checksum_mismatch'' detail"

definition frame_size :: "config \<Rightarrow> nat" where
  "frame_size cf = FRAME_HEADER_BYTES + cf_page_size cf"

definition frame_offset :: "config \<Rightarrow> nat \<Rightarrow> nat" where
  "frame_offset cf index = WAL_HEADER_BYTES + (index - 1) * frame_size cf"

record scan_state =
  sc_frames :: "(int, nat) dict"
  sc_commit :: "nat option"
  sc_checksum :: "32 word \<times> 32 word"
  sc_reader :: reader_state

text \<open>One turn of the loop over the frames.\<close>

definition scan_frame :: "config \<Rightarrow> world \<Rightarrow> bool \<Rightarrow> image \<Rightarrow> scan_state \<Rightarrow> nat \<Rightarrow> reclaim_error + scan_state" where
  "scan_frame cf w big salt sc index =
     rbind (pread cf w Wal (frame_size cf) (frame_offset cf index) (sc_reader sc)) (\<lambda>(frame, st).
       if take 8 (drop 8 frame) \<noteq> salt then wal_mismatch (''frame '' @ nat_str index @ '' salt'')
       else rbind (checksum (take 8 frame) (sc_checksum sc) big) (\<lambda>ck.
         rbind (checksum (drop 24 frame) ck big) (\<lambda>ck.
           if ck \<noteq> checksum_field True frame 16
           then wal_mismatch (''frame '' @ nat_str index @ '' checksum'')
           else Inr \<lparr>sc_frames = dset (int (field True 4 frame 0)) (frame_offset cf index) (sc_frames sc),
             sc_commit = Some (field True 4 frame 4), sc_checksum = ck, sc_reader = st\<rparr>)))"

definition scan :: "config \<Rightarrow> world \<Rightarrow> wal_index_header \<Rightarrow> reader_state \<Rightarrow> reclaim_error + reader_state" where
  "scan cf w ix st =
     rbind (pread cf w Wal WAL_HEADER_BYTES 0 st) (\<lambda>(header, st).
       let magic = field True 4 header 0; version = field True 4 header 4;
           size = field True 4 header 8; big = (magic = WAL_MAGIC_BE);
           salt = take 8 (drop 16 header) in
       if (magic \<noteq> WAL_MAGIC_LE \<and> magic \<noteq> WAL_MAGIC_BE) \<or> version \<noteq> WAL_FORMAT_VERSION
       then wal_mismatch ''WAL header''
       else if size \<noteq> cf_page_size cf then wal_mismatch ''WAL page size''
       else rbind (checksum (take 24 header) (0, 0) big) (\<lambda>ck.
         if ck \<noteq> checksum_field True header 24 then wal_mismatch ''WAL header checksum''
         else if salt \<noteq> wi_salt ix then wal_mismatch ''WAL salt differs from the wal-index''
         else case dget (rs_fds st) Wal of None \<Rightarrow> Inl KeyError
         | Some ident \<Rightarrow>
           if WAL_HEADER_BYTES + wi_max_frame ix * frame_size cf > length (in_data (wd_inode w ident))
           then refuse ''wal_endpoint_mismatch'' ''WAL too short''
           else rbind (rfold (scan_frame cf w big salt)
               \<lparr>sc_frames = [], sc_commit = None, sc_checksum = ck, sc_reader = st\<rparr>
               [1..<wi_max_frame ix + 1]) (\<lambda>sc.
             if sc_commit sc = None \<or> sc_commit sc = Some 0
               \<or> sc_commit sc \<noteq> Some (wi_page_count ix) \<or> sc_checksum sc \<noteq> wi_frame_checksum ix
             then refuse ''wal_endpoint_mismatch''
               (''the frame at mxFrame is not the index'' @ [CHR 0x27] @ ''s commit'')
             else Inr ((sc_reader sc)\<lparr>rs_frames := sc_frames sc\<rparr>))))"

section \<open>Opening, reading pages, rechecking\<close>

definition open_reader :: "config \<Rightarrow> world \<Rightarrow> reader_state \<Rightarrow> reclaim_error + reader_state" where
  "open_reader cf w st =
     rbind (open_file w Db st) (\<lambda>st. rbind (open_file w Shm st) (\<lambda>st.
       rbind (pread cf w Shm (2 * WAL_INDEX_HEADER_BYTES) 0 st) (\<lambda>(raw, st).
         rbind (parse_wal_index_header raw (cf_big_endian cf)) (\<lambda>ix.
           let st = st\<lparr>rs_header := Some ix\<rparr> in
           if wi_max_frame ix \<noteq> 0 \<and> wi_page_size ix \<noteq> cf_page_size cf then unreadable ''page size''
           else if wi_max_frame ix \<noteq> 0 then rbind (open_file w Wal st) (scan cf w ix)
           else Inr st))))"

definition page :: "config \<Rightarrow> world \<Rightarrow> reader_state \<Rightarrow> int \<Rightarrow> reclaim_error + image \<times> reader_state" where
  "page cf w st pgno =
     (case dget (rs_pages st) pgno of Some img \<Rightarrow> Inr (img, st)
      | None \<Rightarrow>
        if pgno < 1 then refuse ''malformed_page'' (''page '' @ int_str pgno)
        else rbind (case dget (rs_frames st) pgno of
            Some offset \<Rightarrow> pread cf w Wal (cf_page_size cf) (offset + FRAME_HEADER_BYTES) st
          | None \<Rightarrow> pread cf w Db (cf_page_size cf) ((nat pgno - 1) * cf_page_size cf) st)
          (\<lambda>(img, st). Inr (img, st\<lparr>rs_pages := dset pgno img (rs_pages st)\<rparr>)))"

text \<open>\<open>recheck\<close>, in the world as it is then: the published header still parses and names the same
  generation, and every path still names the file that was opened.\<close>

definition as_identity_changed :: "reclaim_error + 'a \<Rightarrow> reclaim_error + 'a" where
  "as_identity_changed r = (case r of Inl (Refused reason detail) \<Rightarrow> refuse ''identity_changed'' detail | _ \<Rightarrow> r)"

definition generation :: "wal_index_header \<Rightarrow> nat \<times> nat \<times> nat \<times> image" where
  "generation ix = (wi_change ix, wi_max_frame ix, wi_page_count ix, wi_salt ix)"

definition recheck_file :: "world \<Rightarrow> unit \<Rightarrow> which \<times> identity \<Rightarrow> reclaim_error + unit" where
  "recheck_file w u = (\<lambda>(f, ident). if wd_path w f = Some ident then Inr ()
     else refuse ''identity_changed'' (which_name f))"

definition recheck :: "config \<Rightarrow> world \<Rightarrow> reader_state \<Rightarrow> reclaim_error + reader_state" where
  "recheck cf w st =
     rbind (pread cf w Shm (2 * WAL_INDEX_HEADER_BYTES) 0 st) (\<lambda>(raw, st).
       rbind (as_identity_changed (parse_wal_index_header raw (cf_big_endian cf))) (\<lambda>again.
         if map_option generation (rs_header st) \<noteq> Some (generation again)
         then refuse ''identity_changed'' ''wal-index generation''
         else rbind (rfold (recheck_file w) () (rs_fds st)) (\<lambda>_. Inr st)))"

section \<open>What the reads are\<close>

lemma chargeE:
  assumes "charge cf n st = Inr st'"
  shows "st' = st\<lparr>rs_read_bytes := rs_read_bytes st + int n, rs_ticks := rs_ticks st + 1\<rparr>
    \<and> rs_read_bytes st' \<le> cf_budget cf"
  using assms by (auto simp: charge_def Let_def refuse_def split: if_splits)

definition file_bytes :: "world \<Rightarrow> reader_state \<Rightarrow> which \<Rightarrow> image" where
  "file_bytes w st f = (case dget (rs_fds st) f of None \<Rightarrow> [] | Some ident \<Rightarrow> in_data (wd_inode w ident))"

definition path_bytes :: "world \<Rightarrow> which \<Rightarrow> image" where
  "path_bytes w f = (case wd_path w f of None \<Rightarrow> [] | Some ident \<Rightarrow> in_data (wd_inode w ident))"

text \<open>Reading changes nothing but the accounting.\<close>

definition same_files :: "config \<Rightarrow> reader_state \<Rightarrow> reader_state \<Rightarrow> bool" where
  "same_files cf st st' \<longleftrightarrow> rs_frames st' = rs_frames st \<and> rs_fds st' = rs_fds st
     \<and> rs_header st' = rs_header st \<and> rs_pages st' = rs_pages st \<and> rs_read_bytes st' \<le> cf_budget cf"

lemma preadE:
  assumes "pread cf w f n offset st = Inr (bytes, st')"
  shows "bytes = take n (drop offset (file_bytes w st f)) \<and> length bytes = n
    \<and> dget (rs_fds st) f \<noteq> None \<and> same_files cf st st'"
proof -
  obtain s where s: "charge cf n st = Inr s"
      "(case dget (rs_fds s) f of None \<Rightarrow> Inl KeyError | Some ident \<Rightarrow>
       let bytes = take n (drop offset (in_data (wd_inode w ident))) in
       if length bytes \<noteq> n then refuse (if f = Wal then ''wal_endpoint_mismatch'' else ''malformed_page'')
         (''short read of '' @ which_name f @ '' at '' @ nat_str offset)
       else Inr (bytes, s)) = Inr (bytes, st')"
    using assms by (auto simp only: pread_def rbind_Inr_iff)
  have fds: "rs_fds s = rs_fds st" using chargeE [OF s(1)] by simp
  obtain ident where i: "dget (rs_fds st) f = Some ident" "take n (drop offset (in_data (wd_inode w ident))) = bytes"
      "length bytes = n" "s = st'"
    using s(2) unfolding fds by (auto simp: Let_def refuse_def split: option.splits if_splits)
  then show ?thesis using chargeE [OF s(1)] by (auto simp: file_bytes_def same_files_def)
qed

definition wal_frame :: "config \<Rightarrow> image \<Rightarrow> nat \<Rightarrow> image" where
  "wal_frame cf wal i = take (frame_size cf) (drop (frame_offset cf i) wal)"

definition chained :: "image \<Rightarrow> image" where
  "chained frame = take 8 frame @ drop 24 frame"

text \<open>The last of the frames 1 to \<open>n\<close> that holds a page.\<close>

fun last_frame :: "config \<Rightarrow> image \<Rightarrow> nat \<Rightarrow> int \<Rightarrow> nat option" where
  "last_frame cf wal 0 p = None"
| "last_frame cf wal (Suc n) p =
     (if int (field True 4 (wal_frame cf wal (Suc n)) 0) = p then Some (Suc n) else last_frame cf wal n p)"

text \<open>The page image of the snapshot that ends with frame \<open>n\<close>: the last committed copy in the WAL,
  the main file's page when there is none.\<close>

definition snapshot_page :: "config \<Rightarrow> image \<Rightarrow> image \<Rightarrow> nat \<Rightarrow> int \<Rightarrow> image" where
  "snapshot_page cf db wal n p = (case last_frame cf wal n p of
     Some i \<Rightarrow> take (cf_page_size cf) (drop (frame_offset cf i + FRAME_HEADER_BYTES) wal)
   | None \<Rightarrow> take (cf_page_size cf) (drop ((nat p - 1) * cf_page_size cf) db))"

record chain =
  ch_wal :: image
  ch_big :: bool
  ch_salt :: image
  ch_start :: image

definition chain_ok :: "config \<Rightarrow> chain \<Rightarrow> nat \<Rightarrow> scan_state \<Rightarrow> bool" where
  "chain_ok cf c n sc \<longleftrightarrow>
     (\<forall>p. dget (sc_frames sc) p = map_option (frame_offset cf) (last_frame cf (ch_wal c) n p))
     \<and> sc_commit sc = (if n = 0 then None else Some (field True 4 (wal_frame cf (ch_wal c) n) 4))
     \<and> checksum (ch_start c @ concat (map (\<lambda>i. chained (wal_frame cf (ch_wal c) i)) [1..<n + 1])) (0, 0) (ch_big c)
       = Inr (sc_checksum sc)
     \<and> (\<forall>i \<in> {1..n}. take 8 (drop 8 (wal_frame cf (ch_wal c) i)) = ch_salt c)"

lemma scan_frame_step:
  assumes step: "scan_frame cf w (ch_big c) (ch_salt c) sc (Suc n) = Inr sc'"
    and ok: "chain_ok cf c n sc" and wal: "file_bytes w (sc_reader sc) Wal = ch_wal c"
  shows "chain_ok cf c (Suc n) sc' \<and> same_files cf (sc_reader sc) (sc_reader sc')"
proof -
  obtain frame st ck0 ck where f: "pread cf w Wal (frame_size cf) (frame_offset cf (Suc n)) (sc_reader sc) = Inr (frame, st)"
      "take 8 (drop 8 frame) = ch_salt c"
      "checksum (take 8 frame) (sc_checksum sc) (ch_big c) = Inr ck0" "checksum (drop 24 frame) ck0 (ch_big c) = Inr ck"
      "sc' = \<lparr>sc_frames = dset (int (field True 4 frame 0)) (frame_offset cf (Suc n)) (sc_frames sc),
             sc_commit = Some (field True 4 frame 4), sc_checksum = ck, sc_reader = st\<rparr>"
    using step by (auto simp: scan_frame_def rbind_Inr_iff wal_mismatch_def refuse_def split: if_splits)
  note r = preadE [OF f(1)]
  have frame: "wal_frame cf (ch_wal c) (Suc n) = frame" using r wal by (simp add: wal_frame_def)
  let ?ch = "\<lambda>n. concat (map (\<lambda>i. chained (wal_frame cf (ch_wal c) i)) [1..<n + 1])"
  have "checksum ((ch_start c @ ?ch n) @ chained frame) (0, 0) (ch_big c) = Inr ck"
    using ok by (intro checksum_append [OF _ checksum_append [OF f(3,4), folded chained_def]])
      (simp add: chain_ok_def)
  moreover have "?ch (Suc n) = ?ch n @ chained frame" using frame by simp
  ultimately have "checksum (ch_start c @ ?ch (Suc n)) (0, 0) (ch_big c) = Inr ck" by simp
  then show ?thesis using ok frame f(2,5) r
    by (auto simp: chain_ok_def dget_dset atLeastAtMostSuc_conv)
qed

lemma same_files_trans [trans]: "same_files cf a b \<Longrightarrow> same_files cf b c \<Longrightarrow> same_files cf a c"
  by (simp add: same_files_def)

lemma scan_frames_ok:
  assumes "rfold (scan_frame cf w (ch_big c) (ch_salt c)) sc0 [1..<n + 1] = Inr sc"
    and "chain_ok cf c 0 sc0" and "file_bytes w (sc_reader sc0) Wal = ch_wal c"
    and "rs_read_bytes (sc_reader sc0) \<le> cf_budget cf"
  shows "chain_ok cf c n sc \<and> same_files cf (sc_reader sc0) (sc_reader sc)"
  using assms(1)
proof (induction n arbitrary: sc)
  case 0
  then show ?case using assms(2,4) by (simp add: same_files_def)
next
  case (Suc n)
  have "[1..<Suc n + 1] = [1..<n + 1] @ [Suc n]" by simp
  then obtain sc1 where 1: "rfold (scan_frame cf w (ch_big c) (ch_salt c)) sc0 [1..<n + 1] = Inr sc1"
      "scan_frame cf w (ch_big c) (ch_salt c) sc1 (Suc n) = Inr sc"
    using Suc.prems by (auto simp: rfold_append rbind_Inr_iff)
  have "file_bytes w (sc_reader sc1) Wal = ch_wal c"
    using Suc.IH [OF 1(1)] assms(3) by (simp add: file_bytes_def same_files_def)
  then show ?case
    using scan_frame_step [OF 1(2)] Suc.IH [OF 1(1)] same_files_trans by blast
qed

section \<open>The opened snapshot\<close>

text \<open>What a scan establishes of the WAL: the chain of all frames ends in the checksum the wal-index
  publishes, every frame carries its salt, and the last one commits its page count.\<close>

definition wal_chain :: "image \<Rightarrow> wal_index_header \<Rightarrow> chain" where
  "wal_chain wal ix = \<lparr>ch_wal = wal, ch_big = (field True 4 (take 32 wal) 0 = WAL_MAGIC_BE),
     ch_salt = wi_salt ix, ch_start = take 24 wal\<rparr>"

definition wal_committed :: "config \<Rightarrow> image \<Rightarrow> wal_index_header \<Rightarrow> bool" where
  "wal_committed cf wal ix \<longleftrightarrow> (let n = wi_max_frame ix; c = wal_chain wal ix in
     checksum (ch_start c @ concat (map (\<lambda>i. chained (wal_frame cf wal i)) [1..<n + 1])) (0, 0) (ch_big c)
       = Inr (wi_frame_checksum ix)
     \<and> (\<forall>i \<in> {1..n}. take 8 (drop 8 (wal_frame cf wal i)) = wi_salt ix)
     \<and> field True 4 (wal_frame cf wal n) 4 = wi_page_count ix \<and> wi_page_count ix \<noteq> 0
     \<and> WAL_HEADER_BYTES + n * frame_size cf \<le> length wal)"

lemma scanE:
  assumes "scan cf w ix st = Inr st'" and n: "wi_max_frame ix \<noteq> 0"
  defines "wal \<equiv> file_bytes w st Wal"
  shows "wal_committed cf wal ix
    \<and> (\<forall>p. dget (rs_frames st') p = map_option (frame_offset cf) (last_frame cf wal (wi_max_frame ix) p))
    \<and> same_files cf st (st'\<lparr>rs_frames := rs_frames st\<rparr>)"
proof -
  obtain header st1 where h: "pread cf w Wal WAL_HEADER_BYTES 0 st = Inr (header, st1)"
    using assms(1) by (auto simp: scan_def rbind_Inr_iff)
  note r = preadE [OF h]
  have header: "header = take 32 wal" using r by (simp add: wal_def wal_consts)
  let ?c = "wal_chain wal ix"
  obtain ck ident sc where s: "checksum (take 24 header) (0, 0) (ch_big ?c) = Inr ck"
      "take 8 (drop 16 header) = wi_salt ix" "dget (rs_fds st1) Wal = Some ident"
      "WAL_HEADER_BYTES + wi_max_frame ix * frame_size cf \<le> length (in_data (wd_inode w ident))"
      "rfold (scan_frame cf w (ch_big ?c) (ch_salt ?c))
         \<lparr>sc_frames = [], sc_commit = None, sc_checksum = ck, sc_reader = st1\<rparr> [1..<wi_max_frame ix + 1] = Inr sc"
      "sc_commit sc \<noteq> Some 0" "sc_commit sc = Some (wi_page_count ix)" "sc_checksum sc = wi_frame_checksum ix"
      "st' = (sc_reader sc)\<lparr>rs_frames := sc_frames sc\<rparr>"
  proof -
    have "rbind (checksum (take 24 header) (0, 0) (ch_big ?c)) (\<lambda>ck.
         if ck \<noteq> checksum_field True header 24 then wal_mismatch ''WAL header checksum''
         else if take 8 (drop 16 header) \<noteq> wi_salt ix then wal_mismatch ''WAL salt differs from the wal-index''
         else case dget (rs_fds st1) Wal of None \<Rightarrow> Inl KeyError
         | Some ident \<Rightarrow>
           if WAL_HEADER_BYTES + wi_max_frame ix * frame_size cf > length (in_data (wd_inode w ident))
           then refuse ''wal_endpoint_mismatch'' ''WAL too short''
           else rbind (rfold (scan_frame cf w (ch_big ?c) (take 8 (drop 16 header)))
               \<lparr>sc_frames = [], sc_commit = None, sc_checksum = ck, sc_reader = st1\<rparr>
               [1..<wi_max_frame ix + 1]) (\<lambda>sc.
             if sc_commit sc = None \<or> sc_commit sc = Some 0
               \<or> sc_commit sc \<noteq> Some (wi_page_count ix) \<or> sc_checksum sc \<noteq> wi_frame_checksum ix
             then refuse ''wal_endpoint_mismatch''
               (''the frame at mxFrame is not the index'' @ [CHR 0x27] @ ''s commit'')
             else Inr ((sc_reader sc)\<lparr>rs_frames := sc_frames sc\<rparr>))) = Inr st'" (is "rbind ?ck ?rest = _")
      using assms(1) unfolding scan_def h rbind_simps prod.case Let_def
      by (simp only: wal_mismatch_def refuse_def wal_chain_def chain.simps header [symmetric]
          split: if_splits) simp_all
    then obtain ck where ck: "?ck = Inr ck" "?rest ck = Inr st'" by (auto simp only: rbind_Inr_iff)
    obtain ident where ident: "dget (rs_fds st1) Wal = Some ident"
      using ck(2) by (auto simp: wal_mismatch_def refuse_def split: if_splits option.splits)
    from ck(2) ident show thesis
      using that [OF ck(1) _ ident]
      by (simp only: option.case wal_mismatch_def refuse_def wal_chain_def chain.simps split: if_splits)
        (auto simp only: rbind_Inr_iff not_less simp_thms option.inject sum.inject split: if_splits, blast)
  qed
  have wal1: "file_bytes w st1 Wal = ch_wal ?c" "in_data (wd_inode w ident) = wal"
    using r s(3) by (simp_all add: same_files_def file_bytes_def wal_def wal_chain_def)
  have "chain_ok cf ?c 0 \<lparr>sc_frames = [], sc_commit = None, sc_checksum = ck, sc_reader = st1\<rparr>"
    using s(1) by (simp add: chain_ok_def wal_chain_def header min_def)
  then have ok: "chain_ok cf ?c (wi_max_frame ix) sc \<and> same_files cf st1 (sc_reader sc)"
    using scan_frames_ok [OF s(5)] wal1(1) r by (simp add: same_files_def)
  then have "wal_committed cf wal ix"
    using n s(4,6-8) wal1(2) by (auto simp: chain_ok_def wal_committed_def wal_chain_def Let_def)
  moreover have "same_files cf st (sc_reader sc)" using ok r same_files_trans by blast
  ultimately show ?thesis
    using ok s(9) by (simp add: chain_ok_def wal_chain_def same_files_def)
qed

definition opened :: "config \<Rightarrow> world \<Rightarrow> reader_state \<Rightarrow> wal_index_header \<Rightarrow> bool" where
  "opened cf w st ix \<longleftrightarrow> rs_header st = Some ix \<and> rs_pages st = []
     \<and> rs_read_bytes st \<le> cf_budget cf
     \<and> parse_wal_index_header (take 96 (path_bytes w Shm)) (cf_big_endian cf) = Inr ix
     \<and> wd_path w Db \<noteq> None \<and> wd_path w Shm \<noteq> None \<and> (wi_max_frame ix \<noteq> 0 \<longrightarrow> wd_path w Wal \<noteq> None)
     \<and> dget (rs_fds st) Db = wd_path w Db \<and> dget (rs_fds st) Shm = wd_path w Shm
     \<and> dget (rs_fds st) Wal = (if wi_max_frame ix = 0 then None else wd_path w Wal)
     \<and> (\<forall>p. dget (rs_frames st) p
         = map_option (frame_offset cf) (last_frame cf (path_bytes w Wal) (wi_max_frame ix) p))
     \<and> (wi_max_frame ix \<noteq> 0 \<longrightarrow> wal_committed cf (path_bytes w Wal) ix)"

lemma open_fileE:
  assumes "open_file w f st = Inr st'"
  obtains ident where "wd_path w f = Some ident" "st' = st\<lparr>rs_fds := dset f ident (rs_fds st)\<rparr>"
  using assms by (auto simp: open_file_def unreadable_def refuse_def split: option.splits if_splits)

lemma open_reader_opened:
  assumes "open_reader cf w (new_reader k) = Inr st"
  shows "\<exists>ix. opened cf w st ix"
proof -
  obtain s1 s2 raw s3 ix where o: "open_file w Db (new_reader k) = Inr s1" "open_file w Shm s1 = Inr s2"
      "pread cf w Shm 96 0 s2 = Inr (raw, s3)" "parse_wal_index_header raw (cf_big_endian cf) = Inr ix"
      "(if wi_max_frame ix \<noteq> 0 \<and> wi_page_size ix \<noteq> cf_page_size cf then unreadable ''page size''
       else if wi_max_frame ix \<noteq> 0 then rbind (open_file w Wal (s3\<lparr>rs_header := Some ix\<rparr>)) (scan cf w ix)
       else Inr (s3\<lparr>rs_header := Some ix\<rparr>)) = Inr st"
    using assms by (auto simp: open_reader_def rbind_Inr_iff Let_def wal_consts)
  obtain db where db: "wd_path w Db = Some db" "s1 = (new_reader k)\<lparr>rs_fds := [(Db, db)]\<rparr>"
    using open_fileE [OF o(1)] by (auto simp: new_reader_def)
  obtain shm where shm: "wd_path w Shm = Some shm" "s2 = s1\<lparr>rs_fds := [(Db, db), (Shm, shm)]\<rparr>"
    using open_fileE [OF o(2)] db by auto
  note r = preadE [OF o(3)]
  have raw: "raw = take 96 (path_bytes w Shm)"
    using r shm by (simp add: file_bytes_def path_bytes_def)
  have fds: "rs_fds s3 = [(Db, db), (Shm, shm)]" "rs_pages s3 = []" "rs_frames s3 = []"
      "rs_read_bytes s3 \<le> cf_budget cf"
    using r shm db by (simp_all add: same_files_def new_reader_def)
  show ?thesis
  proof (cases "wi_max_frame ix = 0")
    case True
    then have "st = s3\<lparr>rs_header := Some ix\<rparr>" using o(5) by simp
    then show ?thesis using True o(4) raw fds db shm by (auto simp: opened_def)
  next
    case False
    then obtain s4 where s4: "open_file w Wal (s3\<lparr>rs_header := Some ix\<rparr>) = Inr s4" "scan cf w ix s4 = Inr st"
      using o(5) by (auto simp: rbind_Inr_iff unreadable_def refuse_def split: if_splits)
    obtain wal where wal: "wd_path w Wal = Some wal"
        "s4 = s3\<lparr>rs_header := Some ix, rs_fds := [(Db, db), (Shm, shm), (Wal, wal)]\<rparr>"
      using open_fileE [OF s4(1)] fds(1) by auto
    have "file_bytes w s4 Wal = path_bytes w Wal" using wal by (simp add: file_bytes_def path_bytes_def)
    note sc = scanE [OF s4(2) False, unfolded this]
    then have "rs_fds st = rs_fds s4" "rs_header st = Some ix" "rs_pages st = []" "rs_read_bytes st \<le> cf_budget cf"
      using wal(2) fds by (simp_all add: same_files_def)
    then show ?thesis using sc False o(4) raw wal db shm by (auto simp: opened_def)
  qed
qed

section \<open>Page sources\<close>

text \<open>
  What the planner relies on of the operation it is given for reading pages: although the source
  keeps state (a cache, a budget), a read returns the image of a view that no read changes.
\<close>

locale page_source =
  fixes read :: "'s \<Rightarrow> int \<Rightarrow> 'e + 'i \<times> 's"
    and view :: "'s \<Rightarrow> int \<Rightarrow> 'i"
  assumes read_view: "read s p = Inr (i, t) \<Longrightarrow> i = view s p"
    and view_kept: "read s p = Inr (i, t) \<Longrightarrow> view t = view s"

fun read_all :: "('s \<Rightarrow> int \<Rightarrow> 'e + 'i \<times> 's) \<Rightarrow> 's \<Rightarrow> int list \<Rightarrow> 'e + 'i list \<times> 's" where
  "read_all rd s [] = Inr ([], s)"
| "read_all rd s (p # ps) = rbind (rd s p) (\<lambda>(i, s). rbind (read_all rd s ps) (\<lambda>(is, s). Inr (i # is, s)))"

context page_source
begin

lemma reads_are_the_view: "read_all read s ps = Inr (is, t) \<Longrightarrow> is = map (view s) ps \<and> view t = view s"
proof (induction ps arbitrary: s "is")
  case (Cons p ps)
  then obtain i u js where r: "read s p = Inr (i, u)" "read_all read u ps = Inr (js, t)" "is = i # js"
    by (auto simp: rbind_Inr_iff)
  then show ?case using Cons.IH [OF r(2)] read_view [OF r(1)] view_kept [OF r(1)] by simp
qed simp

end

definition page_view :: "config \<Rightarrow> world \<Rightarrow> reader_state \<Rightarrow> int \<Rightarrow> image" where
  "page_view cf w st p = (case dget (rs_pages st) p of Some img \<Rightarrow> img
   | None \<Rightarrow> (case dget (rs_frames st) p of
       Some offset \<Rightarrow> take (cf_page_size cf) (drop (offset + FRAME_HEADER_BYTES) (file_bytes w st Wal))
     | None \<Rightarrow> take (cf_page_size cf) (drop ((nat p - 1) * cf_page_size cf) (file_bytes w st Db))))"

lemma pageE:
  assumes "page cf w st p = Inr (img, st')"
  shows "img = page_view cf w st p \<and> (st' = st \<or> rs_pages st' = dset p img (rs_pages st)
    \<and> same_files cf st (st'\<lparr>rs_pages := rs_pages st\<rparr>)) \<and> dget (rs_pages st') p = Some img"
proof (cases "dget (rs_pages st) p")
  case (Some i)
  then show ?thesis using assms by (simp add: page_def page_view_def)
next
  case None
  then obtain u where u: "(case dget (rs_frames st) p of
            Some offset \<Rightarrow> pread cf w Wal (cf_page_size cf) (offset + FRAME_HEADER_BYTES) st
          | None \<Rightarrow> pread cf w Db (cf_page_size cf) ((nat p - 1) * cf_page_size cf) st) = Inr (img, u)"
      "st' = u\<lparr>rs_pages := dset p img (rs_pages u)\<rparr>"
    using assms by (auto simp: page_def rbind_Inr_iff refuse_def split: if_splits)
  then show ?thesis using None preadE [where st = st]
    by (cases "dget (rs_frames st) p") (auto simp: page_view_def same_files_def dget_dset)
qed

lemma page_view_kept:
  assumes "page cf w s p = Inr (i, t)"
  shows "page_view cf w t = page_view cf w s"
proof
  fix q
  from pageE [OF assms] have t: "t = s \<or> rs_pages t = dset p (page_view cf w s p) (rs_pages s)
      \<and> rs_frames t = rs_frames s \<and> rs_fds t = rs_fds s"
    by (auto simp: same_files_def)
  then show "page_view cf w t q = page_view cf w s q"
    by (cases "q = p") (auto simp: dget_dset page_view_def [where st = t] page_view_def [where st = s]
        file_bytes_def cong: option.case_cong)
qed

interpretation wal_pages: page_source "page cf w" "page_view cf w" for cf w
  by unfold_locales (use pageE page_view_kept in blast)+

section \<open>Rechecking\<close>

lemma recheck_files_all: "rfold (recheck_file w) () fs = Inr u \<Longrightarrow> \<forall>(f, ident) \<in> set fs. wd_path w f = Some ident"
  by (induction fs) (auto simp: rbind_Inr_iff recheck_file_def refuse_def split: if_splits)

lemma recheckE:
  assumes "recheck cf w st = Inr st'"
  shows "\<exists>ix again. rs_header st = Some ix
    \<and> parse_wal_index_header (take 96 (file_bytes w st Shm)) (cf_big_endian cf) = Inr again
    \<and> generation again = generation ix \<and> (\<forall>(f, ident) \<in> set (rs_fds st). wd_path w f = Some ident)
    \<and> same_files cf st st'"
proof -
  obtain raw s1 again where r: "pread cf w Shm 96 0 st = Inr (raw, s1)"
      "as_identity_changed (parse_wal_index_header raw (cf_big_endian cf)) = Inr again"
      "map_option generation (rs_header s1) = Some (generation again)"
      "rfold (recheck_file w) () (rs_fds s1) = Inr ()" "s1 = st'"
    using assms by (auto simp: recheck_def rbind_Inr_iff wal_consts refuse_def split: if_splits)
  note p = preadE [OF r(1)]
  have "parse_wal_index_header raw (cf_big_endian cf) = Inr again"
    using r(2) by (auto simp: as_identity_changed_def refuse_def split: sum.splits reclaim_error.splits)
  then show ?thesis
    using p r(3,5) recheck_files_all [OF r(4)] by (auto simp: same_files_def)
qed

lemma read_all_keeps:
  "read_all (page cf w) st ps = Inr (imgs, st') \<Longrightarrow> rs_fds st' = rs_fds st \<and> rs_header st' = rs_header st
     \<and> (rs_read_bytes st \<le> cf_budget cf \<longrightarrow> rs_read_bytes st' \<le> cf_budget cf)"
proof (induction ps arbitrary: st imgs)
  case (Cons p ps)
  then obtain i u js where r: "page cf w st p = Inr (i, u)" "read_all (page cf w) u ps = Inr (js, st')"
    by (auto simp: rbind_Inr_iff)
  then show ?case using Cons.IH [OF r(2)] pageE [OF r(1)] by (auto simp: same_files_def)
qed simp

lemma opened_page_view:
  assumes "opened cf w st ix"
  shows "page_view cf w st = snapshot_page cf (path_bytes w Db) (path_bytes w Wal) (wi_max_frame ix)"
proof
  fix p
  have db: "file_bytes w st Db = path_bytes w Db"
    using assms by (simp add: opened_def file_bytes_def path_bytes_def)
  have wal: "file_bytes w st Wal = path_bytes w Wal" if "wi_max_frame ix \<noteq> 0"
    using assms that by (simp add: opened_def file_bytes_def path_bytes_def)
  show "page_view cf w st p = snapshot_page cf (path_bytes w Db) (path_bytes w Wal) (wi_max_frame ix) p"
  proof (cases "wi_max_frame ix = 0")
    case True
    then show ?thesis using assms db by (simp add: opened_def page_view_def snapshot_page_def)
  next
    case False
    then show ?thesis using assms db wal
      by (cases "last_frame cf (path_bytes w Wal) (wi_max_frame ix) p")
        (simp_all add: opened_def page_view_def snapshot_page_def)
  qed
qed

section \<open>Properties\<close>

text \<open>C10: The reader serves one committed snapshot. When it opens, the wal-index it validated publishes
  a number of frames, and every sequence of page reads returns for each page the last of those WAL
  frames that holds it and otherwise the main file's page; when there is a WAL, its checksum chain
  over exactly those frames ends in the published checksum, every frame has the published salt, and
  the last one is the published commit.\<close>

theorem reader_serves_snapshot:
  assumes "open_reader cf w (new_reader k) = Inr st"
    and "read_all (page cf w) st ps = Inr (imgs, st')"
  shows "\<exists>ix. rs_header st = Some ix
    \<and> imgs = map (snapshot_page cf (path_bytes w Db) (path_bytes w Wal) (wi_max_frame ix)) ps
    \<and> (wi_max_frame ix \<noteq> 0 \<longrightarrow> wal_committed cf (path_bytes w Wal) ix)"
proof -
  obtain ix where ix: "opened cf w st ix" using open_reader_opened [OF assms(1)] by blast
  then show ?thesis
    using wal_pages.reads_are_the_view [OF assms(2)] opened_page_view [OF ix] by (auto simp: opened_def)
qed

text \<open>A session that ends with a successful recheck saw one generation: whatever happened to the
  files in between, the wal-index then names the same change counter, frame count, page count and
  salt as when the reader opened, the paths still name the files it opened, and the bytes it read
  stayed within the budget.\<close>

theorem recheck_same_generation:
  assumes "open_reader cf w (new_reader k) = Inr st"
    and "read_all (page cf w) st ps = Inr (imgs, st1)"
    and "recheck cf w' st1 = Inr st2"
  shows "rs_read_bytes st2 \<le> cf_budget cf
    \<and> wd_path w' Db = wd_path w Db \<and> wd_path w' Shm = wd_path w Shm
    \<and> (\<exists>ix again. rs_header st = Some ix \<and> generation again = generation ix
      \<and> parse_wal_index_header (take 96 (path_bytes w' Shm)) (cf_big_endian cf) = Inr again
      \<and> (wi_max_frame ix \<noteq> 0 \<longrightarrow> wd_path w' Wal = wd_path w Wal))"
proof -
  obtain ix where ix: "opened cf w st ix" using open_reader_opened [OF assms(1)] by blast
  note kept = read_all_keeps [OF assms(2)]
  obtain ix' again where r: "rs_header st1 = Some ix'" "generation again = generation ix'"
      "parse_wal_index_header (take 96 (file_bytes w' st1 Shm)) (cf_big_endian cf) = Inr again"
      "\<forall>(f, ident) \<in> set (rs_fds st1). wd_path w' f = Some ident" "rs_read_bytes st2 \<le> cf_budget cf"
    using recheckE [OF assms(3)] by (auto simp: same_files_def)
  have path: "wd_path w' f = wd_path w f" if "dget (rs_fds st) f = wd_path w f" "wd_path w f \<noteq> None" for f
    using r(4) kept that map_of_SomeD [of "rs_fds st" f] by auto
  have shm: "file_bytes w' st1 Shm = path_bytes w' Shm"
    using path [of Shm] ix kept by (auto simp: opened_def file_bytes_def path_bytes_def)
  have ix': "rs_header st = Some ix'" "ix' = ix" using r(1) kept ix by (auto simp: opened_def)
  show ?thesis
  proof (intro conjI exI)
    show "rs_read_bytes st2 \<le> cf_budget cf" by (rule r(5))
    show "wd_path w' Db = wd_path w Db" "wd_path w' Shm = wd_path w Shm"
      using path ix by (simp_all add: opened_def)
    show "rs_header st = Some ix'" by (rule ix'(1))
    show "generation again = generation ix'" by (rule r(2))
    show "parse_wal_index_header (take 96 (path_bytes w' Shm)) (cf_big_endian cf) = Inr again"
      using r(3) shm by simp
    show "wi_max_frame ix' \<noteq> 0 \<longrightarrow> wd_path w' Wal = wd_path w Wal"
      using path ix ix'(2) by (simp add: opened_def)
  qed
qed

section \<open>A sample store\<close>

text \<open>Two pages of 256 bytes; the WAL holds one committed frame, of page 2.\<close>

definition sample_index :: image where
  "sample_index = [24, 226, 45, 0, 0, 0, 0, 0, 5, 0, 0, 0, 1, 1, 0, 1, 1, 0, 0, 0, 2, 0, 0, 0, 188, 64, 46,
     98, 201, 207, 128, 12, 1, 2, 3, 4, 5, 6, 7, 8, 198, 98, 248, 226, 124, 10, 114, 98]"

definition sample_wal :: image where
  "sample_wal = [55, 127, 6, 131, 0, 45, 226, 24, 0, 0, 1, 0, 0, 0, 0, 0, 1, 2, 3, 4, 5, 6, 7, 8, 23, 6,
     203, 219, 194, 229, 171, 156]
     @ [0, 0, 0, 2, 0, 0, 0, 2, 1, 2, 3, 4, 5, 6, 7, 8, 98, 46, 64, 188, 12, 128, 207, 201]
     @ replicate 8 7 @ replicate 248 0"

definition sample_world :: world where
  "sample_world = \<lparr>wd_path = (\<lambda>f. Some (0, case f of Db \<Rightarrow> 1 | Wal \<Rightarrow> 2 | Shm \<Rightarrow> 3)),
     wd_inode = (\<lambda>(dev, ino). \<lparr>in_data = (if ino = 1 then replicate 512 9 else if ino = 2 then sample_wal
       else sample_index @ sample_index), in_regular = True\<rparr>)\<rparr>"

definition sample_config :: config where
  "sample_config = \<lparr>cf_page_size = 256, cf_budget = 4096, cf_deadline = 100, cf_clock = int,
     cf_big_endian = False\<rparr>"

definition sample_header :: wal_index_header where
  "sample_header = \<lparr>wi_change = 5, wi_page_size = 256, wi_max_frame = 1, wi_page_count = 2,
     wi_frame_checksum = (1647198396, 209768393), wi_salt = [1, 2, 3, 4, 5, 6, 7, 8],
     wi_big_endian = True, wi_raw = sample_index\<rparr>"

definition sample_state :: "int \<Rightarrow> nat \<Rightarrow> (int \<times> nat) list \<Rightarrow> (int \<times> image) list \<Rightarrow> reader_state" where
  "sample_state bytes ticks frames pages = \<lparr>rs_read_bytes = bytes, rs_ticks = ticks, rs_frames = frames,
     rs_fds = [(Db, 0, 1), (Shm, 0, 3), (Wal, 0, 2)], rs_header = Some sample_header, rs_pages = pages\<rparr>"

definition sample_page2 :: image where "sample_page2 = replicate 8 7 @ replicate 248 0"

lemma replicate_numeral: "replicate (numeral k) x = x # replicate (pred_numeral k) x"
  by (simp add: numeral_eq_Suc)

lemmas reader_evals = checksum_def be_value_def word_of_bytes_def Let_def wal_consts checksum_field_def
  field_def unreadable_def refuse_def wal_mismatch_def pread_def charge_def frame_size_def frame_offset_def
  open_reader_def open_file_def parse_wal_index_header_def scan_def scan_frame_def
  sample_world_def sample_config_def sample_index_def sample_wal_def new_reader_def sample_header_def
  sample_state_def replicate_numeral

lemma sample_open:
  "open_reader sample_config sample_world (new_reader 0) = Inr (sample_state 408 3 [(2, 32)] [])"
  by (simp add: reader_evals)

lemma sample_reads:
  "read_all (page sample_config sample_world) (sample_state 408 3 [(2, 32)] []) [2, 1, 2]
   = Inr ([sample_page2, replicate 256 9, sample_page2],
       sample_state 920 5 [(2, 32)] [(2, sample_page2), (1, replicate 256 9)])"
  by (simp add: page_def pread_def charge_def Let_def sample_state_def sample_world_def sample_config_def
      wal_consts sample_wal_def sample_page2_def)

lemma sample_recheck:
  "recheck sample_config sample_world (sample_state 920 5 frames pages) = Inr (sample_state 1016 6 frames pages)"
  by (simp add: reader_evals recheck_def recheck_file_def as_identity_changed_def generation_def)

theorem reader_serves_snapshot_witness:
  "[sample_page2, replicate 256 9, sample_page2]
     = map (snapshot_page sample_config (path_bytes sample_world Db) (path_bytes sample_world Wal) 1) [2, 1, 2]
   \<and> wal_committed sample_config (path_bytes sample_world Wal) sample_header"
  using reader_serves_snapshot [OF sample_open sample_reads] by (auto simp: sample_state_def sample_header_def)

theorem recheck_same_generation_witness:
  "rs_read_bytes (sample_state 1016 6 [(2, 32)] [(2, sample_page2), (1, replicate 256 9)]) \<le> cf_budget sample_config"
  using recheck_same_generation [OF sample_open sample_reads sample_recheck] by blast

end
