(* ===== verification/Source_Retry.thy ===== *)
theory Source_Retry
  imports Prelude
begin

text \<open>
  \<open>bin/_lib_source_retry.py\<close>: how often a degraded source generation pays for a rebuild. The state maps
  a provider to the key it is armed with and the instant that key was first seen. An instant is its number of
  microseconds; \<open>None\<close> stands for an argument that is not an aware \<open>datetime\<close>. The theory models every
  operation, the runs of the machine, and shows that no cause is retained for longer than the interval.
\<close>

section \<open>Causes\<close>

definition PARTIAL_RETRY_INTERVAL :: int where "PARTIAL_RETRY_INTERVAL = 120 * 10 ^ 6"
definition NO_STATED_CAUSE :: string where "NO_STATED_CAUSE = ''none''"
definition TRANSIENT_PARTIAL_CAUSES :: "string list" where
  "TRANSIENT_PARTIAL_CAUSES = [''ingest_failed'', ''ingest_contended'', ''transient_read_failure'']"
definition RETAINABLE_PARTIAL_CAUSES :: "string list" where
  "RETAINABLE_PARTIAL_CAUSES = [''metadata_incomplete'']"

definition CAUSE_BY_WARNING_CODE :: "(string, string) dict" where
  "CAUSE_BY_WARNING_CODE =
     [(''source_ingest_failed'', ''ingest_failed''),
      (''source_ingest_contended'', ''ingest_contended''),
      (''codex_metadata_incomplete'', ''metadata_incomplete''),
      (''codex_metadata_health_unknown'', ''transient_read_failure''),
      (''codex_projection_incoherent'', ''projection_incoherent''),
      (''codex_account_scope_unresolved'', ''account_scope_unresolved''),
      (''codex_cycle_unavailable'', ''cycle_unavailable''),
      (''source_build_failed'', ''build_failed'')]"

definition OTHER_PREFIX :: string where "OTHER_PREFIX = ''other:''"
definition PROVIDERS :: "string list" where "PROVIDERS = [''claude'', ''codex'']"

text \<open>The only exception these functions raise.\<close>

datatype retry_error = BadValue string

text \<open>A stated cause: a bare code, or an object whose \<open>code\<close> attribute is a string or is not.\<close>

datatype stated = Code string | Coded "string option"

datatype cause_arg = NoCause | One stated | Several "stated list"

definition warning_code :: "stated \<Rightarrow> retry_error + string" where
  "warning_code item = (case item of
     Code c \<Rightarrow> Inr c
   | Coded None \<Rightarrow> Inl (BadValue ''a partial cause must be a code string or carry .code'')
   | Coded (Some c) \<Rightarrow> if c \<noteq> [] then Inr c
       else Inl (BadValue ''a partial cause must be a code string or carry .code''))"

definition cause_of_code :: "string \<Rightarrow> string" where
  "cause_of_code code = dget_or CAUSE_BY_WARNING_CODE code (OTHER_PREFIX @ code)"

definition stated_items :: "cause_arg \<Rightarrow> stated list" where
  "stated_items cause = (case cause of NoCause \<Rightarrow> [] | One x \<Rightarrow> [x] | Several xs \<Rightarrow> xs)"

definition normalize_partial_cause :: "cause_arg \<Rightarrow> retry_error + string" where
  "normalize_partial_cause cause = (if stated_items cause = [] then Inr NO_STATED_CAUSE
     else rbind (rmap warning_code (stated_items cause)) (\<lambda>codes.
       Inr (join ''+'' (sorted_set (map cause_of_code codes)))))"

definition is_transient_partial_cause :: "string \<Rightarrow> bool" where
  "is_transient_partial_cause cause \<longleftrightarrow> list_ex (\<lambda>p. p \<in> set TRANSIENT_PARTIAL_CAUSES) (split_on (CHR ''+'') cause)"

definition is_retainable_partial_cause :: "string \<Rightarrow> bool" where
  "is_retainable_partial_cause cause \<longleftrightarrow> cause \<noteq> []
     \<and> list_all (\<lambda>p. p \<in> set RETAINABLE_PARTIAL_CAUSES) (split_on (CHR ''+'') cause)"

section \<open>State and decisions\<close>

record retry_entry =
  re_cause :: string
  re_version :: string
  re_first :: int

definition entry_key :: "retry_entry \<Rightarrow> string \<times> string" where
  "entry_key e = (re_cause e, re_version e)"

definition entry_deadline :: "retry_entry \<Rightarrow> int \<Rightarrow> int" where
  "entry_deadline e interval = re_first e + interval"

type_synonym retry_state = "(string, retry_entry) dict"

datatype retry_action = Rebuild | Retain

record retry_decision =
  rd_action :: retry_action
  rd_cause :: string
  rd_version :: string
  rd_first :: "int option"
  rd_deadline :: "int option"
  rd_throttled :: bool

definition validated_state :: "retry_state option \<Rightarrow> string \<Rightarrow> retry_error + retry_state" where
  "validated_state st provider = (if provider \<notin> set PROVIDERS
     then Inl (BadValue ''provider must be one of ['claude', 'codex']'')
     else Inr (case st of None \<Rightarrow> [] | Some s \<Rightarrow> s))"

definition validated_now :: "int option \<Rightarrow> retry_error + int" where
  "validated_now now = (case now of None \<Rightarrow> Inl (BadValue ''now must be a timezone-aware datetime'') | Some t \<Rightarrow> Inr t)"

definition clear_partial_retry :: "retry_state option \<Rightarrow> string \<Rightarrow> retry_error + retry_state" where
  "clear_partial_retry st provider =
     rbind (validated_state st provider) (\<lambda>current. Inr (dwithout [provider] current))"

definition rebuild_decision :: "string \<Rightarrow> string \<Rightarrow> int option \<Rightarrow> int \<Rightarrow> retry_decision" where
  "rebuild_decision cause version first interval = \<lparr>rd_action = Rebuild, rd_cause = cause, rd_version = version,
     rd_first = first, rd_deadline = map_option (\<lambda>t. t + interval) first, rd_throttled = False\<rparr>"

definition plan_partial_retry :: "retry_state option \<Rightarrow> string \<Rightarrow> cause_arg \<Rightarrow> string option \<Rightarrow> int option \<Rightarrow> int
    \<Rightarrow> retry_error + retry_decision \<times> retry_state" where
  "plan_partial_retry st provider cause data_version now interval =
     rbind (validated_state st provider) (\<lambda>current.
     rbind (validated_now now) (\<lambda>now.
     case data_version of None \<Rightarrow> Inl (BadValue ''data_version must be a string'')
     | Some version \<Rightarrow>
       rbind (normalize_partial_cause cause) (\<lambda>normalized.
       if \<not> is_retainable_partial_cause normalized
       then Inr (rebuild_decision normalized version None interval, dwithout [provider] current)
       else
         let armed = \<lparr>re_cause = normalized, re_version = version, re_first = now\<rparr>;
             rearm = Inr (rebuild_decision normalized version (Some now) interval, dset provider armed current) in
         case dget current provider of None \<Rightarrow> rearm
         | Some prior \<Rightarrow>
             if entry_key prior = (normalized, version) \<and> now < entry_deadline prior interval
             then Inr (\<lparr>rd_action = Retain, rd_cause = normalized, rd_version = version,
                    rd_first = Some (re_first prior), rd_deadline = Some (entry_deadline prior interval),
                    rd_throttled = True\<rparr>, current)
             else rearm)))"

section \<open>When a generation may be retained\<close>

lemma known_causes:
  "dget CAUSE_BY_WARNING_CODE c = Some x \<Longrightarrow> split_on (CHR ''+'') x = [x] \<and> (x = ''metadata_incomplete'' \<longleftrightarrow> c = ''codex_metadata_incomplete'')"
  by (auto simp: CAUSE_BY_WARNING_CODE_def split: if_splits)

lemma other_not_retainable: "\<not> list_all (\<lambda>p. p \<in> set RETAINABLE_PARTIAL_CAUSES) (split_on (CHR ''+'') (OTHER_PREFIX @ code))"
  by (cases "split_on (CHR ''+'') code") (simp_all add: OTHER_PREFIX_def RETAINABLE_PARTIAL_CAUSES_def)

lemma cause_retainable:
  "list_all (\<lambda>p. p \<in> set RETAINABLE_PARTIAL_CAUSES) (split_on (CHR ''+'') (cause_of_code c))
     \<longleftrightarrow> c = ''codex_metadata_incomplete''"
proof (cases "dget CAUSE_BY_WARNING_CODE c")
  case None
  then have "c \<noteq> ''codex_metadata_incomplete''" by (auto simp: CAUSE_BY_WARNING_CODE_def)
  then show ?thesis using None other_not_retainable [of c] by (simp add: cause_of_code_def dget_or_def)
next
  case (Some x)
  then show ?thesis using known_causes [OF Some] by (simp add: cause_of_code_def dget_or_def RETAINABLE_PARTIAL_CAUSES_def)
qed

text \<open>The codes a list of stated causes carries, when all are well formed.\<close>

definition stated_codes :: "cause_arg \<Rightarrow> string list option" where
  "stated_codes cause = (case rmap warning_code (stated_items cause) of Inl _ \<Rightarrow> None | Inr codes \<Rightarrow> Some codes)"

lemma normalized_retainable:
  assumes "normalize_partial_cause cause = Inr normalized"
  shows "is_retainable_partial_cause normalized
     \<longleftrightarrow> (\<exists>codes. stated_codes cause = Some codes \<and> codes \<noteq> [] \<and> set codes \<subseteq> {''codex_metadata_incomplete''})"
proof (cases "stated_items cause = []")
  case True
  then have "normalized = ''none''" "stated_codes cause = Some []"
    using assms by (simp_all add: normalize_partial_cause_def NO_STATED_CAUSE_def stated_codes_def)
  then show ?thesis by (simp add: is_retainable_partial_cause_def RETAINABLE_PARTIAL_CAUSES_def)
next
  case False
  then obtain codes where codes: "rmap warning_code (stated_items cause) = Inr codes"
    and n: "normalized = join ''+'' (sorted_set (map cause_of_code codes))"
    using assms by (auto simp: normalize_partial_cause_def rbind_Inr_iff)
  have ne: "codes \<noteq> []" using rmap_length [OF codes] False by auto
  then have ne': "sorted_set (map cause_of_code codes) \<noteq> []" using set_sorted_set [of "map cause_of_code codes"] by force
  have "list_all P (split_on (CHR ''+'') normalized) \<longleftrightarrow> (\<forall>c \<in> set codes. list_all P (split_on (CHR ''+'') (cause_of_code c)))" for P
    by (simp add: n split_join [OF ne'] list_all_iff)
  moreover have "list_all (\<lambda>p. p \<in> set RETAINABLE_PARTIAL_CAUSES) (split_on (CHR ''+'') []) = False"
    by (simp add: RETAINABLE_PARTIAL_CAUSES_def)
  ultimately have "is_retainable_partial_cause normalized \<longleftrightarrow> (\<forall>c \<in> set codes. c = ''codex_metadata_incomplete'')"
    unfolding is_retainable_partial_cause_def by (metis (no_types, lifting) cause_retainable)
  then show ?thesis using codes ne by (auto simp: stated_codes_def)
qed

section \<open>Runs\<close>

text \<open>
  What a process does with the kernel: a healthy publish clears a provider's key, a tick that meets a partial
  generation asks for a decision and keeps the returned state. The log is the sequence of events so far; the
  clock may jump in either direction.
\<close>

datatype retry_event = Published string | Decided string int retry_decision

inductive retry_run :: "int \<Rightarrow> retry_event list \<Rightarrow> retry_state \<Rightarrow> bool" for interval :: int where
  start: "retry_run interval [] []"
| publish: "retry_run interval log s \<Longrightarrow> clear_partial_retry (Some s) p = Inr t
    \<Longrightarrow> retry_run interval (log @ [Published p]) t"
| tick: "retry_run interval log s \<Longrightarrow> plan_partial_retry (Some s) p cause version (Some now) interval = Inr (d, t)
    \<Longrightarrow> retry_run interval (log @ [Decided p now d]) t"

inductive_cases retry_run_snocE: "retry_run interval (log @ [e]) t"

inductive_simps retry_run_Nil [simp]: "retry_run interval [] t"

lemma retry_run_prefix: "retry_run interval (log @ log') t \<Longrightarrow> \<exists>s. retry_run interval log s"
proof (induction log' arbitrary: t rule: rev_induct)
  case (snoc e log')
  from snoc.prems have "retry_run interval ((log @ log') @ [e]) t" by simp
  then show ?case by (rule retry_run_snocE) (use snoc.IH in blast)+
qed auto

text \<open>The four ways a decision is made.\<close>

lemma plan_cases:
  assumes "plan_partial_retry (Some s) p cause version (Some now) interval = Inr (d, t)"
  obtains (disarm) v where "version = Some v" "d = rebuild_decision (rd_cause d) v None interval" "t = dwithout [p] s"
      "normalize_partial_cause cause = Inr (rd_cause d)" "\<not> is_retainable_partial_cause (rd_cause d)"
  | (arm) v where "version = Some v" "d = rebuild_decision (rd_cause d) v (Some now) interval"
      "t = dset p \<lparr>re_cause = rd_cause d, re_version = v, re_first = now\<rparr> s"
      "normalize_partial_cause cause = Inr (rd_cause d)" "is_retainable_partial_cause (rd_cause d)"
      "\<And>e. dget s p = Some e \<Longrightarrow> \<not> (entry_key e = (rd_cause d, v) \<and> now < entry_deadline e interval)"
  | (retain) v e where "version = Some v" "rd_action d = Retain" "rd_first d = Some (re_first e)"
      "rd_version d = v" "t = s" "dget s p = Some e" "entry_key e = (rd_cause d, v)" "now < entry_deadline e interval"
      "normalize_partial_cause cause = Inr (rd_cause d)" "is_retainable_partial_cause (rd_cause d)"
proof -
  obtain v n where v: "version = Some v" and n: "normalize_partial_cause cause = Inr n"
    using assms by (auto simp: plan_partial_retry_def rbind_Inr_iff split: option.splits)
  note p = assms [unfolded plan_partial_retry_def validated_now_def v n rbind_Inr_iff]
  show thesis
  proof (cases "is_retainable_partial_cause n")
    case False
    then show thesis using p n by (intro disarm [OF v]) (auto simp: validated_state_def rebuild_decision_def split: if_splits)
  next
    case True
    show thesis
    proof (cases "\<exists>e. dget s p = Some e \<and> entry_key e = (n, v) \<and> now < entry_deadline e interval")
      case found: True
      then obtain e where "dget s p = Some e" "entry_key e = (n, v)" "now < entry_deadline e interval" by blast
      then show thesis using p n True
        by (intro retain [OF v]) (auto simp: validated_state_def Let_def split: if_splits)
    next
      case False
      then show thesis using p n True
        by (intro arm [OF v]) (auto simp: validated_state_def rebuild_decision_def Let_def split: if_splits option.splits)
    qed
  qed
qed

text \<open>The events of the log that concern one provider are ticks that retained.\<close>

definition only_retained :: "string \<Rightarrow> retry_event list \<Rightarrow> bool" where
  "only_retained p log \<longleftrightarrow> list_all (\<lambda>e. case e of Published q \<Rightarrow> q \<noteq> p
     | Decided q _ d \<Rightarrow> q = p \<longrightarrow> rd_action d = Retain) log"

text \<open>An armed entry stems from a rebuild at its instant, and since then the provider only retained.\<close>

definition armed_by :: "retry_event list \<Rightarrow> string \<Rightarrow> retry_entry \<Rightarrow> bool" where
  "armed_by log p e \<longleftrightarrow> (\<exists>us d vs. log = us @ Decided p (re_first e) d # vs \<and> rd_action d = Rebuild
     \<and> rd_cause d = re_cause e \<and> rd_version d = re_version e \<and> only_retained p vs)"

lemma armed_by_snoc: "armed_by log p e \<Longrightarrow> only_retained p [x] \<Longrightarrow> armed_by (log @ [x]) p e"
  by (fastforce simp: armed_by_def only_retained_def)

lemma retry_run_armed:
  "retry_run interval log s \<Longrightarrow> dget s p = Some e \<Longrightarrow> armed_by log p e"
proof (induction arbitrary: e rule: retry_run.induct)
  case (publish log s q t)
  have t: "t = dwithout [q] s" using publish.hyps(2)
    by (auto simp: clear_partial_retry_def validated_state_def split: if_splits)
  then have "q \<noteq> p" "dget s p = Some e" using publish.prems by (auto simp: dget_dwithout split: if_splits)
  then show ?case using publish.IH armed_by_snoc by (simp add: only_retained_def)
next
  case (tick log s q cause version now d t)
  from tick.hyps(2) show ?case
  proof (cases rule: plan_cases)
    case (disarm v)
    then have "q \<noteq> p" "dget s p = Some e" using tick.prems by (auto simp: dget_dwithout split: if_splits)
    then show ?thesis using tick.IH armed_by_snoc by (simp add: only_retained_def)
  next
    case (arm v)
    show ?thesis
    proof (cases "q = p")
      case True
      then have "e = \<lparr>re_cause = rd_cause d, re_version = v, re_first = now\<rparr>" using arm tick.prems by (simp add: dget_dset)
      moreover have "rd_action d = Rebuild" "rd_version d = v"
        by (subst arm(2), simp add: rebuild_decision_def)+
      ultimately show ?thesis using True unfolding armed_by_def only_retained_def by fastforce
    next
      case False
      then have "dget s p = Some e" using arm tick.prems by (simp add: dget_dset)
      then show ?thesis using tick.IH armed_by_snoc False by (simp add: only_retained_def)
    qed
  next
    case (retain v e')
    then show ?thesis using tick.IH tick.prems armed_by_snoc by (simp add: only_retained_def)
  qed
qed simp

text \<open>C32: nothing is retained for longer than the interval. In every run of the retry machine, whatever the
  clock does, a tick that retains a generation is preceded by a rebuild of the same provider for the same cause
  and data version, less than one interval before, with no other rebuild or healthy publish of that provider in
  between: so a cause that persists pays for a rebuild at the first tick at or after its deadline.\<close>

theorem retained_less_than_interval:
  assumes "retry_run interval log s" and "log = xs @ Decided p now d # ys" and "rd_action d = Retain"
  shows "\<exists>us now0 d0 vs. xs = us @ Decided p now0 d0 # vs \<and> rd_action d0 = Rebuild
    \<and> rd_cause d0 = rd_cause d \<and> rd_version d0 = rd_version d \<and> now < now0 + interval \<and> only_retained p vs"
proof -
  obtain t where "retry_run interval (xs @ [Decided p now d]) t"
    using retry_run_prefix [of interval "xs @ [Decided p now d]" ys s] assms(1,2) by auto
  then obtain s cause version t' where run: "retry_run interval xs s"
    and plan: "plan_partial_retry (Some s) p cause version (Some now) interval = Inr (d, t')"
    by (rule retry_run_snocE) auto
  from plan show ?thesis
  proof (cases rule: plan_cases)
    case (retain v e)
    have "armed_by xs p e" by (rule retry_run_armed [OF run retain(6)])
    then show ?thesis using retain(4,7,8) by (fastforce simp: armed_by_def entry_key_def entry_deadline_def)
  next
    case (disarm v)
    have "rd_action d = Rebuild" by (subst disarm(2)) (simp add: rebuild_decision_def)
    then show ?thesis using assms(3) by simp
  next
    case (arm v)
    have "rd_action d = Rebuild" by (subst arm(2)) (simp add: rebuild_decision_def)
    then show ?thesis using assms(3) by simp
  qed
qed

lemmas retry_eval = plan_partial_retry_def validated_state_def validated_now_def normalize_partial_cause_def
  stated_items_def warning_code_def cause_of_code_def CAUSE_BY_WARNING_CODE_def sorted_set_def
  is_retainable_partial_cause_def RETAINABLE_PARTIAL_CAUSES_def PROVIDERS_def rebuild_decision_def
  entry_key_def entry_deadline_def dget_or_def

definition sample_armed :: retry_decision where
  "sample_armed = rebuild_decision ''metadata_incomplete'' ''v1'' (Some 0) 120"

definition sample_entry :: retry_entry where
  "sample_entry = \<lparr>re_cause = ''metadata_incomplete'', re_version = ''v1'', re_first = 0\<rparr>"

definition sample_retained :: retry_decision where
  "sample_retained = \<lparr>rd_action = Retain, rd_cause = ''metadata_incomplete'', rd_version = ''v1'',
     rd_first = Some 0, rd_deadline = Some 120, rd_throttled = True\<rparr>"

lemma sample_plans:
  "plan_partial_retry (Some []) ''codex'' (One (Code ''codex_metadata_incomplete'')) (Some ''v1'') (Some 0) 120
     = Inr (sample_armed, [(''codex'', sample_entry)])"
  "plan_partial_retry (Some [(''codex'', sample_entry)]) ''codex'' (One (Code ''codex_metadata_incomplete'')) (Some ''v1'')
     (Some 100) 120 = Inr (sample_retained, [(''codex'', sample_entry)])"
  by (simp_all add: retry_eval sample_armed_def sample_retained_def sample_entry_def)

theorem retained_less_than_interval_witness:
  "retry_run 120 [Decided ''codex'' 0 sample_armed, Decided ''codex'' 100 sample_retained] [(''codex'', sample_entry)]
   \<and> (\<exists>us now0 d0 vs. [Decided ''codex'' 0 sample_armed] = us @ Decided ''codex'' now0 d0 # vs
       \<and> rd_action d0 = Rebuild \<and> 100 < now0 + 120)"
proof -
  have run: "retry_run 120 [Decided ''codex'' 0 sample_armed, Decided ''codex'' 100 sample_retained] [(''codex'', sample_entry)]"
    using retry_run.tick [OF retry_run.tick [OF retry_run.start sample_plans(1)] sample_plans(2)] by simp
  have "rd_action sample_retained = Retain" by (simp add: sample_retained_def)
  from retained_less_than_interval [OF run _ this, of "[Decided ''codex'' 0 sample_armed]"] run show ?thesis by simp blast
qed

text \<open>A decision changes the key of its own provider only, and it retains exactly when the generation states
  at least one cause, every stated cause is the incomplete Codex metadata, and the provider is armed with this
  cause and data version and its deadline lies ahead. Everything else, a failed read, an unknown code or a
  generation that states nothing, is rebuilt on every tick.\<close>

theorem retains_only_incomplete_metadata:
  assumes "plan_partial_retry (Some s) p cause version (Some now) interval = Inr (d, t)"
  shows "(rd_action d = Retain \<longleftrightarrow> (\<exists>codes e. stated_codes cause = Some codes \<and> codes \<noteq> []
       \<and> set codes \<subseteq> {''codex_metadata_incomplete''} \<and> dget s p = Some e
       \<and> re_cause e = rd_cause d \<and> Some (re_version e) = version \<and> now < re_first e + interval))
    \<and> (\<forall>q. q \<noteq> p \<longrightarrow> dget t q = dget s q)"
  using assms
proof (cases rule: plan_cases)
  case (disarm v)
  have "rd_action d = Rebuild" by (subst disarm(2)) (simp add: rebuild_decision_def)
  then show ?thesis using disarm normalized_retainable [OF disarm(4)] by (auto simp: dget_dwithout)
next
  case (arm v)
  have "rd_action d = Rebuild" by (subst arm(2)) (simp add: rebuild_decision_def)
  then show ?thesis using arm by (auto simp: dget_dset entry_key_def entry_deadline_def)
next
  case (retain v e)
  then show ?thesis using normalized_retainable [OF retain(9)] by (auto simp: entry_key_def entry_deadline_def)
qed

theorem retains_only_incomplete_metadata_witness:
  "rd_action sample_retained = Retain \<and> (\<exists>codes e. stated_codes (One (Code ''codex_metadata_incomplete'')) = Some codes
     \<and> dget [(''codex'', sample_entry)] ''codex'' = Some e \<and> 100 < re_first e + 120)"
  using retains_only_incomplete_metadata [OF sample_plans(2)] by (auto simp: sample_retained_def)

end
