(* ===== verification/Publication_Barrier.thy ===== *)
theory Publication_Barrier
  imports Py_Json
begin

text \<open>
  \<open>bin/_lib_codex_publication_barrier.py\<close>: when a conversation's certificate may be sealed, what it says, and
  when a candidate may be published. Metadata and certificates, which the code writes with \<open>json.dumps\<close> and
  reads back with \<open>json.loads\<close>, are held as the values they encode; the values of a thread row are scalars.
\<close>

section \<open>Readiness\<close>

datatype barrier_error = UnknownHold string

datatype readiness = Ready | Required | Suspended

definition CERTIFICATE_VERSION :: int where "CERTIFICATE_VERSION = 1"
definition PENDING_HOLD :: string where "PENDING_HOLD = ''verification-pending''"
definition SUSPENSION_HOLDS :: "string list" where
  "SUSPENSION_HOLDS = [''decoder-unavailable'', ''decode-error'', ''verification-unverified'', ''container-absent'']"
definition THREAD_FIELDS :: "string list" where
  "THREAD_FIELDS = [''conversation_key'', ''source_root_key'', ''native_thread_id'', ''root_thread_id'',
     ''parent_thread_id'', ''source_path'', ''cwd'', ''git_json'', ''source_kind'', ''thread_source_json'',
     ''model_provider'', ''context_window'']"
definition RETAINED_GENERATION :: string where "RETAINED_GENERATION = ''retained''"

record target =
  tg_identity :: string
  tg_path :: string
  tg_generation :: string
  tg_line_end :: "int option"
  tg_hold :: "string option"
  tg_watermark_generation :: "string option"
  tg_watermark_offset :: "int option"

type_synonym verdict = "readiness \<times> string option"

definition classify_target :: "target \<Rightarrow> barrier_error + verdict" where
  "classify_target t = (case tg_hold t of
     Some h \<Rightarrow> if h \<in> set SUSPENSION_HOLDS then Inr (Suspended, Some h)
       else if h = PENDING_HOLD then Inr (Required, Some PENDING_HOLD)
       else Inl (UnknownHold h)
   | None \<Rightarrow>
       (case tg_watermark_offset t of
          None \<Rightarrow> Inr (Required, Some ''membership-unproven'')
        | Some offset \<Rightarrow>
            if tg_watermark_generation t \<noteq> Some (tg_generation t) then Inr (Required, Some ''membership-unproven'')
            else (case tg_line_end t of
                None \<Rightarrow> Inr (Required, Some ''accounting-incomplete'')
              | Some line_end \<Rightarrow> if offset < line_end then Inr (Required, Some ''membership-unproven'')
                  else Inr (Ready, None))))"

section \<open>Thread metadata\<close>

record member_fact =
  mf_identity :: string
  mf_generation :: string
  mf_path :: string
  mf_metadata :: "jobj option"
  mf_offset :: "int option"

definition thread_of :: "(string \<Rightarrow> json) \<Rightarrow> jobj" where
  "thread_of field = map (\<lambda>name. (name, field name)) THREAD_FIELDS"

definition metadata_from_thread :: "(string \<Rightarrow> json) \<Rightarrow> jobj" where
  "metadata_from_thread thread = thread_of thread"

definition metadata_from_row :: "jobj \<Rightarrow> jobj" where
  "metadata_from_row row = thread_of (jget row)"

definition supplied :: "member_fact list \<Rightarrow> (jobj \<times> string \<times> int) list" where
  "supplied candidates = concat (map (\<lambda>f. case (mf_metadata f, mf_offset f) of
     (Some meta, Some offset) \<Rightarrow> [(meta, mf_path f, offset)] | _ \<Rightarrow> []) candidates)"

text \<open>The loop that keeps the first fact of maximal rank.\<close>

definition best_fact :: "(jobj \<times> string \<times> int) list \<Rightarrow> (jobj \<times> string \<times> int) option" where
  "best_fact facts = foldl (\<lambda>best f. case best of None \<Rightarrow> Some f
     | Some b \<Rightarrow> if snd b < snd f then Some f else best) None facts"

definition select_thread :: "member_fact list \<Rightarrow> jobj option \<Rightarrow> jobj option" where
  "select_thread candidates retained =
     (let facts = supplied candidates in
      case (case retained of None \<Rightarrow> None
            | Some row \<Rightarrow> List.find (\<lambda>f. thread_of (jget (fst f)) = thread_of (jget row)) facts) of
        Some f \<Rightarrow> Some (fst f)
      | None \<Rightarrow> map_option fst (best_fact facts))"

section \<open>Sealing\<close>

record contributor =
  co_identity :: string
  co_path :: string
  co_generation :: string
  co_line_end :: int

record exclusion =
  ex_identity :: string
  ex_path :: string
  ex_reason :: "string option"
  ex_accepted :: "string option"

record certificate =
  ct_version :: int
  ct_key :: string
  ct_revision :: int
  ct_contributors :: "contributor list"
  ct_exclusions :: "exclusion list"
  ct_thread :: "jobj option"

record seal_decision =
  sd_sealable :: bool
  sd_blocking :: "(string \<times> string option) list"
  sd_certificate :: "certificate option"

definition effective_generation :: "target \<Rightarrow> verdict \<Rightarrow> string" where
  "effective_generation t v = (if fst v = Ready then tg_generation t
     else case tg_watermark_generation t of Some g \<Rightarrow> g | None \<Rightarrow> RETAINED_GENERATION)"

definition contributor_of :: "target \<Rightarrow> contributor" where
  "contributor_of t = \<lparr>co_identity = tg_identity t, co_path = tg_path t, co_generation = tg_generation t,
     co_line_end = the (tg_line_end t)\<rparr>"

definition exclusion_of :: "target \<Rightarrow> verdict \<Rightarrow> exclusion" where
  "exclusion_of t v = \<lparr>ex_identity = tg_identity t, ex_path = tg_path t, ex_reason = snd v,
     ex_accepted = tg_watermark_generation t\<rparr>"

text \<open>\<open>by_identity\<close>: one target per identity, the last one given, with its verdict.\<close>

definition classified :: "target list \<Rightarrow> barrier_error + (target \<times> verdict) list" where
  "classified targets = rmap (\<lambda>t. rbind (classify_target t) (\<lambda>v. Inr (t, v))) (map snd (dict_by tg_identity targets))"

definition sealed_thread :: "(target \<times> verdict) list \<Rightarrow> member_fact list \<Rightarrow> jobj option \<Rightarrow> jobj option" where
  "sealed_thread ordered facts retained =
     (let candidates = concat (map (\<lambda>(t, v). filter (\<lambda>f. mf_identity f = tg_identity t
            \<and> mf_generation f = effective_generation t v) facts) ordered)
      in case (select_thread candidates retained, retained) of
           (None, Some row) \<Rightarrow> if list_ex (\<lambda>(_, v). fst v \<noteq> Ready) ordered then Some (thread_of (jget row)) else None
         | (thread, _) \<Rightarrow> thread)"

definition stamped_thread :: "(json \<times> json) option \<Rightarrow> jobj \<Rightarrow> jobj" where
  "stamped_thread timestamps thread = (case timestamps of None \<Rightarrow> thread
     | Some (first_seen, last_seen) \<Rightarrow> dset ''lastSeenUtc'' last_seen (dset ''firstSeenUtc'' first_seen thread))"

definition decide_seal :: "string \<Rightarrow> int \<Rightarrow> target list \<Rightarrow> member_fact list \<Rightarrow> (json \<times> json) option \<Rightarrow> jobj option
    \<Rightarrow> barrier_error + seal_decision" where
  "decide_seal conversation_key revision targets members timestamps retained =
     rbind (classified targets) (\<lambda>verdicts.
       let blocking = sort_key fst (map (\<lambda>(t, v). (tg_identity t, snd v)) (filter (\<lambda>(_, v). fst v = Required) verdicts))
       in if blocking \<noteq> [] then Inr \<lparr>sd_sealable = False, sd_blocking = blocking, sd_certificate = None\<rparr>
       else let ordered = sort_key (tg_identity \<circ> fst) verdicts in
         Inr \<lparr>sd_sealable = True, sd_blocking = [], sd_certificate = Some
           \<lparr>ct_version = CERTIFICATE_VERSION, ct_key = conversation_key, ct_revision = revision,
            ct_contributors = map (contributor_of \<circ> fst) (filter (\<lambda>(_, v). fst v = Ready) ordered),
            ct_exclusions = map (\<lambda>(t, v). exclusion_of t v) (filter (\<lambda>(_, v). fst v \<noteq> Ready) ordered),
            ct_thread = map_option (stamped_thread timestamps) (sealed_thread ordered members retained)\<rparr>\<rparr>)"

section \<open>Reading certificates and publishing\<close>

definition certificate_covers :: "certificate \<Rightarrow> string \<Rightarrow> string \<Rightarrow> int option" where
  "certificate_covers cert source_path generation =
     map_option co_line_end (List.find (\<lambda>c. co_path c = source_path \<and> co_generation c = generation) (ct_contributors cert))"

definition certificate_excludes :: "certificate \<Rightarrow> string \<Rightarrow> bool" where
  "certificate_excludes cert source_path \<longleftrightarrow> list_ex (\<lambda>e. ex_path e = source_path) (ct_exclusions cert)"

definition publication_advances :: "int option \<Rightarrow> int \<Rightarrow> bool" where
  "publication_advances published candidate \<longleftrightarrow> candidate > (case published of None \<Rightarrow> 0 | Some n \<Rightarrow> n)"

section \<open>What a seal says\<close>

lemma classified_ok:
  assumes "classified targets = Inr vs" and "distinct (map tg_identity targets)"
  shows "set vs = {(t, v). t \<in> set targets \<and> classify_target t = Inr v}" "distinct (map (tg_identity \<circ> fst) vs)"
proof -
  let ?d = "dict_by tg_identity targets"
  have key: "fst p = tg_identity (snd p)" if "p \<in> set ?d" for p
    using that dict_by_keys by fastforce
  have tg: "set (map snd ?d) = set targets"
    using dget_dict_by [OF assms(2)] row_at_Some [OF assms(2)] dict_by_wf [of tg_identity targets]
    by (auto simp: image_iff) (metis dget_wf_iff key snd_conv fst_conv)+
  have two: "list_all2 (\<lambda>t p. fst p = t \<and> classify_target t = Inr (snd p)) (map snd ?d) vs"
    using rmap_list_all2 [OF assms(1) [unfolded classified_def]] by (rule list_all2_mono) (auto simp: rbind_Inr_iff)
  then have fst_vs: "map fst vs = map snd ?d"
    by (auto simp: list_all2_conv_all_nth intro!: nth_equalityI)
  have cl: "classify_target (fst p) = Inr (snd p)" if "p \<in> set vs" for p
    using two that by (auto simp: list_all2_conv_all_nth in_set_conv_nth)
  show "set vs = {(t, v). t \<in> set targets \<and> classify_target t = Inr v}"
  proof (rule set_eqI)
    fix p :: "target \<times> verdict"
    obtain t v where p: "p = (t, v)" by (cases p)
    have img: "t \<in> fst ` set vs \<longleftrightarrow> t \<in> set targets" unfolding set_map [symmetric] fst_vs tg ..
    show "p \<in> set vs \<longleftrightarrow> p \<in> {(t, v). t \<in> set targets \<and> classify_target t = Inr v}"
    proof
      assume "p \<in> set vs"
      then show "p \<in> {(t, v). t \<in> set targets \<and> classify_target t = Inr v}"
        using cl [of p] img by (force simp: p)
    next
      assume "p \<in> {(t, v). t \<in> set targets \<and> classify_target t = Inr v}"
      then have t: "t \<in> set targets" "classify_target t = Inr v" by (simp_all add: p)
      then obtain v' where "(t, v') \<in> set vs" using img by fastforce
      then show "p \<in> set vs" using cl [of "(t, v')"] t(2) by (simp add: p)
    qed
  qed
  have "map (tg_identity \<circ> fst) vs = map tg_identity (map fst vs)" by simp
  also have "\<dots> = map fst ?d" unfolding fst_vs using key by (simp add: comp_def)
  finally show "distinct (map (tg_identity \<circ> fst) vs)" using dict_by_wf [of tg_identity targets] by (simp add: wf_dict_def)
qed

lemma classify_ready:
  "classify_target t = Inr (Ready, r) \<longleftrightarrow> r = None \<and> tg_hold t = None
     \<and> tg_watermark_generation t = Some (tg_generation t)
     \<and> (\<exists>offset line_end. tg_watermark_offset t = Some offset \<and> tg_line_end t = Some line_end \<and> line_end \<le> offset)"
  by (auto simp: classify_target_def split: option.splits if_splits)

lemma classify_suspended:
  "classify_target t = Inr (Suspended, r) \<longleftrightarrow> (\<exists>h. tg_hold t = Some h \<and> h \<in> set SUSPENSION_HOLDS \<and> r = Some h)"
  by (auto simp: classify_target_def split: option.splits if_splits)

lemma decide_sealE:
  assumes "decide_seal key revision targets members ts retained = Inr d"
  obtains (blocked) vs where "classified targets = Inr vs" "\<not> sd_sealable d" "sd_certificate d = None"
      "sd_blocking d = sort_key fst (map (\<lambda>(t, v). (tg_identity t, snd v)) (filter (\<lambda>(_, v). fst v = Required) vs))"
      "\<exists>(t, v) \<in> set vs. fst v = Required"
  | (sealed) vs ordered where "classified targets = Inr vs" "sd_sealable d" "sd_blocking d = []"
      "\<forall>(t, v) \<in> set vs. fst v \<noteq> Required" "ordered = sort_key (tg_identity \<circ> fst) vs"
      "sd_certificate d = Some \<lparr>ct_version = CERTIFICATE_VERSION, ct_key = key, ct_revision = revision,
        ct_contributors = map (contributor_of \<circ> fst) (filter (\<lambda>(_, v). fst v = Ready) ordered),
        ct_exclusions = map (\<lambda>(t, v). exclusion_of t v) (filter (\<lambda>(_, v). fst v \<noteq> Ready) ordered),
        ct_thread = map_option (stamped_thread ts) (sealed_thread ordered members retained)\<rparr>"
proof -
  obtain vs where vs: "classified targets = Inr vs" using assms by (auto simp: decide_seal_def rbind_Inr_iff)
  show thesis
  proof (cases "\<exists>(t, v) \<in> set vs. fst v = Required")
    case True
    then have "filter (\<lambda>(_, v). fst v = Required) vs \<noteq> []" by (auto simp: filter_empty_conv)
    then have "map (\<lambda>(t, v). (tg_identity t, snd v)) (filter (\<lambda>(_, v). fst v = Required) vs) \<noteq> []" by simp
    then have "sort_key fst (map (\<lambda>(t, v). (tg_identity t, snd v)) (filter (\<lambda>(_, v). fst v = Required) vs)) \<noteq> []"
      by (metis set_empty set_sort)
    then show thesis using assms vs True by (intro blocked [OF vs]) (auto simp: decide_seal_def Let_def)
  next
    case False
    then have "filter (\<lambda>(_, v). fst v = Required) vs = []" by (auto simp: filter_empty_conv)
    then show thesis using assms vs False by (intro sealed [OF vs]) (auto simp: decide_seal_def Let_def)
  qed
qed

text \<open>C27: a seal vouches only for what was proven. Of targets with distinct identities, a conversation is sealable
  exactly when no contributor is required, and otherwise the decision names every required contributor with its
  reason. A certificate lists exactly the contributors whose membership was recorded in their current generation
  up to the accounted line end it states, excludes exactly the suspended ones, and when it excludes anyone it
  never retracts a thread that was already retained.\<close>

theorem seal_sound:
  assumes "distinct (map tg_identity targets)"
    and "decide_seal key revision targets members ts retained = Inr d"
  shows "(sd_sealable d \<longleftrightarrow> (\<forall>t \<in> set targets. \<forall>r. classify_target t \<noteq> Inr (Required, r)))
    \<and> (\<forall>i r. (i, r) \<in> set (sd_blocking d) \<longleftrightarrow> (\<exists>t \<in> set targets. tg_identity t = i \<and> classify_target t = Inr (Required, r)))
    \<and> (\<forall>c. sd_certificate d = Some c \<longrightarrow>
        (\<forall>x. x \<in> set (ct_contributors c) \<longleftrightarrow> (\<exists>t \<in> set targets. x = contributor_of t \<and> tg_hold t = None
           \<and> tg_watermark_generation t = Some (co_generation x) \<and> (\<exists>offset. tg_watermark_offset t = Some offset
             \<and> tg_line_end t = Some (co_line_end x) \<and> co_line_end x \<le> offset)))
      \<and> (\<forall>x. x \<in> set (ct_exclusions c) \<longleftrightarrow> (\<exists>t \<in> set targets. \<exists>h \<in> set SUSPENSION_HOLDS. tg_hold t = Some h
           \<and> x = exclusion_of t (Suspended, Some h)))
      \<and> (ct_exclusions c \<noteq> [] \<and> retained \<noteq> None \<longrightarrow> ct_thread c \<noteq> None))"
  using assms(2)
proof (cases rule: decide_sealE)
  case (blocked vs)
  note vs = classified_ok(1) [OF blocked(1) assms(1)]
  have "(i, r) \<in> set (sd_blocking d) \<longleftrightarrow> (\<exists>t \<in> set targets. tg_identity t = i \<and> classify_target t = Inr (Required, r))" for i r
    unfolding blocked(4) by (auto simp: vs image_iff)
  moreover have "\<exists>t \<in> set targets. \<exists>r. classify_target t = Inr (Required, r)"
    using blocked(5) by (auto simp: vs)
  ultimately show ?thesis using blocked(2,3) by auto
next
  case (sealed vs ordered)
  note vs = classified_ok(1) [OF sealed(1) assms(1)]
  have none: "\<And>t r. t \<in> set targets \<Longrightarrow> classify_target t \<noteq> Inr (Required, r)" using sealed(4) by (auto simp: vs)
  have ord: "(t, v) \<in> set ordered \<longleftrightarrow> t \<in> set targets \<and> classify_target t = Inr v" for t v by (simp add: sealed(5) vs)
  obtain c where c: "sd_certificate d = Some c" using sealed(6) by simp
  have cc: "ct_contributors c = map (contributor_of \<circ> fst) (filter (\<lambda>(_, v). fst v = Ready) ordered)"
    "ct_exclusions c = map (\<lambda>(t, v). exclusion_of t v) (filter (\<lambda>(_, v). fst v \<noteq> Ready) ordered)"
    "ct_thread c = map_option (stamped_thread ts) (sealed_thread ordered members retained)"
    using sealed(6) c by simp_all
  have "x \<in> set (ct_contributors c) \<longleftrightarrow> (\<exists>t \<in> set targets. \<exists>r. classify_target t = Inr (Ready, r) \<and> x = contributor_of t)" for x
    by (force simp: cc(1) ord image_iff)
  note ready = this
  have "(\<exists>r. classify_target t = Inr (Ready, r) \<and> x = contributor_of t) \<longleftrightarrow> x = contributor_of t \<and> tg_hold t = None
      \<and> tg_watermark_generation t = Some (co_generation x) \<and> (\<exists>offset. tg_watermark_offset t = Some offset
        \<and> tg_line_end t = Some (co_line_end x) \<and> co_line_end x \<le> offset)" for x t
    unfolding classify_ready by (auto simp: contributor_of_def)
  then have con: "x \<in> set (ct_contributors c) \<longleftrightarrow> (\<exists>t \<in> set targets. x = contributor_of t \<and> tg_hold t = None
      \<and> tg_watermark_generation t = Some (co_generation x) \<and> (\<exists>offset. tg_watermark_offset t = Some offset
        \<and> tg_line_end t = Some (co_line_end x) \<and> co_line_end x \<le> offset))" for x
    unfolding ready by (rule bex_cong [OF refl])
  have sus: "fst v = Suspended" if "(t, v) \<in> set ordered" "fst v \<noteq> Ready" for t v
    using that none [of t "snd v"] by (cases v; cases "fst v") (auto simp: ord)
  then have "x \<in> set (ct_exclusions c) \<longleftrightarrow> (\<exists>t \<in> set targets. \<exists>r. classify_target t = Inr (Suspended, r) \<and> x = exclusion_of t (Suspended, r))" for x
    by (force simp: cc(2) ord image_iff)
  then have exc: "x \<in> set (ct_exclusions c) \<longleftrightarrow> (\<exists>t \<in> set targets. \<exists>h \<in> set SUSPENSION_HOLDS. tg_hold t = Some h
      \<and> x = exclusion_of t (Suspended, Some h))" for x
    unfolding classify_suspended by blast
  have "ct_thread c \<noteq> None" if "ct_exclusions c \<noteq> []" "retained \<noteq> None"
  proof -
    have "list_ex (\<lambda>(_, v). fst v \<noteq> Ready) ordered" using that(1) by (auto simp: cc(2) filter_empty_conv list_ex_iff)
    then show ?thesis using that(2) by (auto simp: cc(3) sealed_thread_def Let_def split: option.splits)
  qed
  then show ?thesis using con exc c sealed(2,3) none by simp
qed

text \<open>Metadata as the decoder writes it: exactly the thread fields.\<close>

definition wf_metadata :: "member_fact list \<Rightarrow> bool" where
  "wf_metadata facts \<longleftrightarrow> (\<forall>f \<in> set facts. \<forall>m. mf_metadata f = Some m \<longrightarrow> m = thread_of (jget m))"

text \<open>No two facts at one place of one file disagree.\<close>

definition consistent :: "member_fact list \<Rightarrow> bool" where
  "consistent facts \<longleftrightarrow> (\<forall>f \<in> set facts. \<forall>g \<in> set facts. mf_path f = mf_path g \<and> mf_offset f = mf_offset g
     \<and> mf_metadata f \<noteq> None \<and> mf_metadata g \<noteq> None \<longrightarrow> mf_metadata f = mf_metadata g)"

lemma best_fact_snoc: "best_fact (xs @ [x]) = (case best_fact xs of None \<Rightarrow> Some x
    | Some b \<Rightarrow> if snd b < snd x then Some x else Some b)"
  by (simp add: best_fact_def split: option.split)

lemma best_fact_None: "best_fact xs = None \<longleftrightarrow> xs = []"
proof (cases xs rule: rev_cases)
  case (snoc ys y)
  have "\<exists>z. best_fact (ys @ [y]) = Some z" by (cases "best_fact ys") (simp_all add: best_fact_snoc del: split_paired_Ex)
  then show ?thesis by (auto simp: snoc)
qed (simp add: best_fact_def)

lemma best_fact_max: "best_fact xs = Some b \<Longrightarrow> b \<in> set xs \<and> (\<forall>x \<in> set xs. snd x \<le> snd b)"
proof (induction xs arbitrary: b rule: rev_induct)
  case (snoc x xs)
  show ?case
  proof (cases "best_fact xs")
    case None
    then show ?thesis using snoc.prems best_fact_None [of xs] best_fact_snoc [of "[]" x] by simp
  next
    case (Some a)
    note a = snoc.IH [OF Some]
    show ?thesis
    proof (cases "snd a < snd x")
      case True
      then have "b = x" using snoc.prems Some by (simp add: best_fact_snoc)
      moreover have "snd y \<le> snd x" if "y \<in> set xs" for y
      proof -
        have "snd y \<le> snd a" using a that by blast
        then show ?thesis using True by (rule order.trans [OF _ less_imp_le])
      qed
      ultimately show ?thesis by simp
    next
      case False
      then have "b = a" using snoc.prems Some by (simp add: best_fact_snoc)
      then show ?thesis using a False by (simp add: not_less)
    qed
  qed
qed (simp add: best_fact_def)

lemma supplied_set: "(m, p, k) \<in> set (supplied fs) \<longleftrightarrow> (\<exists>f \<in> set fs. mf_metadata f = Some m \<and> mf_path f = p \<and> mf_offset f = Some k)"
  by (force simp: supplied_def split: option.splits)

lemma find_first: "List.find P xs = Some x \<Longrightarrow> x \<in> set xs \<and> P x"
  by (induction xs) (auto split: if_splits)

lemma select_thread_cong:
  assumes same: "set fs = set gs" and wf: "wf_metadata fs" and con: "consistent fs"
  shows "select_thread fs retained = select_thread gs retained"
proof -
  have sup: "set (supplied fs) = set (supplied gs)"
    using same supplied_set [of _ _ _ fs] supplied_set [of _ _ _ gs] by (auto simp: set_eq_iff)
  have func: "x = y" if xy: "x \<in> set (supplied fs)" "y \<in> set (supplied fs)" "snd x = snd y" for x y
  proof -
    obtain m p k m' where x: "x = (m, p, k)" "y = (m', p, k)" using xy(3) by (cases x; cases y) auto
    obtain f g where "f \<in> set fs" "mf_metadata f = Some m" "mf_path f = p" "mf_offset f = Some k"
      "g \<in> set fs" "mf_metadata g = Some m'" "mf_path g = p" "mf_offset g = Some k"
      using xy(1,2) unfolding x supplied_set by blast
    then have "Some m = Some m'" using con unfolding consistent_def by (metis option.distinct(1))
    then show ?thesis by (simp add: x)
  qed
  have "fst x = thread_of (jget (fst x))" if "x \<in> set (supplied fs)" for x
    by (cases x) (use that wf supplied_set in \<open>force simp: wf_metadata_def\<close>)
  note meta = this
  have best: "best_fact (supplied fs) = best_fact (supplied gs)"
  proof (cases "best_fact (supplied fs)")
    case None
    then have "supplied gs = []" using sup by (simp add: best_fact_None)
    then show ?thesis using None by (simp add: best_fact_None)
  next
    case (Some b)
    then have "supplied gs \<noteq> []" using sup best_fact_None [of "supplied fs"] by auto
    then obtain c where c: "best_fact (supplied gs) = Some c" using best_fact_None [of "supplied gs"] by auto
    have "b \<in> set (supplied fs)" "c \<in> set (supplied fs)" "snd b \<le> snd c" "snd c \<le> snd b"
      using best_fact_max [OF Some] best_fact_max [OF c] sup by blast+
    then show ?thesis using func [of b c] Some c by simp
  qed
  have find: "map_option fst (List.find (\<lambda>f. thread_of (jget (fst f)) = t) (supplied fs))
      = map_option fst (List.find (\<lambda>f. thread_of (jget (fst f)) = t) (supplied gs))" for t
  proof -
    let ?P = "\<lambda>f. thread_of (jget (fst f)) = t"
    have eq: "map_option fst (List.find ?P xs) = (if \<exists>x \<in> set xs. ?P x then Some t else None)"
      if xs: "set xs = set (supplied fs)" for xs
    proof (cases "List.find ?P xs")
      case None
      then have "\<not> (\<exists>x \<in> set xs. ?P x)" unfolding find_None_iff by blast
      then show ?thesis using None by simp
    next
      case (Some x)
      from find_first [OF Some] have x: "x \<in> set xs" "?P x" by blast+
      then have "fst x = t" using meta [of x] xs by simp
      then show ?thesis using Some x by auto
    qed
    show ?thesis using eq [OF refl] eq [OF sup [symmetric]] unfolding sup by simp
  qed
  show ?thesis
  proof (cases retained)
    case None
    then show ?thesis using best by (simp add: select_thread_def Let_def)
  next
    case (Some row)
    let ?f = "List.find (\<lambda>f. thread_of (jget (fst f)) = thread_of (jget row)) (supplied fs)"
    let ?g = "List.find (\<lambda>f. thread_of (jget (fst f)) = thread_of (jget row)) (supplied gs)"
    show ?thesis using find [of "thread_of (jget row)"] best Some
      by (cases ?f; cases ?g) (simp_all add: select_thread_def Let_def)
  qed
qed

definition the_verdict :: "target \<Rightarrow> verdict" where
  "the_verdict t = projr (classify_target t)"

lemma two_fst:
  assumes "classified ts = Inr vs" and "distinct (map tg_identity ts)" and "t \<in> set ts"
  shows "\<exists>v. classify_target t = Inr v"
proof -
  have "t \<in> set (map snd (dict_by tg_identity ts))"
    using dget_dict_by [OF assms(2), of "tg_identity t"] row_at_Some [OF assms(2), of "tg_identity t" t] assms(3)
      dget_Some_in [of "dict_by tg_identity ts" "tg_identity t" t] by force
  from rmap_mem [OF assms(1) [unfolded classified_def] this] show ?thesis by (auto simp: rbind_Inr_iff)
qed

lemma classified_permute:
  assumes "classified ts = Inr vs" and "mset ts = mset ts'" and dist: "distinct (map tg_identity ts)"
  obtains vs' where "classified ts' = Inr vs'" "mset vs' = mset vs"
    "sort_key (tg_identity \<circ> fst) vs' = sort_key (tg_identity \<circ> fst) vs"
proof -
  have dist': "distinct (map tg_identity ts')" using assms(2) dist by (metis mset_eq_imp_distinct_iff mset_map)
  have sets: "set ts' = set ts" using assms(2) by (metis set_mset_mset)
  note vs = classified_ok [OF assms(1) dist]
  have tg: "set (map snd (dict_by tg_identity ts')) \<subseteq> set ts'"
  proof
    fix t assume "t \<in> set (map snd (dict_by tg_identity ts'))"
    then obtain p where p: "p \<in> set (dict_by tg_identity ts')" "t = snd p" by auto
    then have "dget (dict_by tg_identity ts') (fst p) = Some t"
      using dget_wf_iff [OF dict_by_wf, of tg_identity ts' "fst p" t] by simp
    then show "t \<in> set ts'" using dget_dict_by [OF dist'] row_at_Some [OF dist'] by simp
  qed
  have ok: "\<exists>v. classify_target t = Inr v" if "t \<in> set ts'" for t
    using that sets two_fst [OF assms(1) dist] by blast
  have "\<exists>vs'. classified ts' = Inr vs'"
    unfolding classified_def
    by (rule exI, rule rmap_Inr [where g = "\<lambda>t. (t, the_verdict t)"]) (use ok tg in \<open>force simp: the_verdict_def\<close>)
  then obtain vs' where vs': "classified ts' = Inr vs'" by blast
  note w = classified_ok [OF vs' dist']
  have same: "set vs' = set vs" by (simp add: vs(1) w(1) sets)
  have "distinct vs" "distinct vs'" using vs(2) w(2) by (simp_all add: distinct_map)
  then have ms: "mset vs' = mset vs" using same by (simp add: set_eq_iff_mset_eq_distinct)
  then have "sort_key (tg_identity \<circ> fst) vs' = sort_key (tg_identity \<circ> fst) vs"
    using w(2) by (rule sort_key_permute)
  then show thesis using that vs' ms by blast
qed

lemma sealed_thread_cong:
  assumes same: "set ms = set ms'" and wf: "wf_metadata ms" and con: "consistent ms"
  shows "sealed_thread ordered ms retained = sealed_thread ordered ms' retained"
proof -
  let ?c = "\<lambda>ms. concat (map (\<lambda>(t, v). filter (\<lambda>f. mf_identity f = tg_identity t
    \<and> mf_generation f = effective_generation t v) ms) ordered)"
  have "set (?c ms) = set (?c ms')" using same by simp
  moreover have "set (?c ms) \<subseteq> set ms" by auto
  then have "wf_metadata (?c ms)" "consistent (?c ms)"
    using wf con unfolding wf_metadata_def consistent_def by (meson subsetD)+
  ultimately have "select_thread (?c ms) retained = select_thread (?c ms') retained" by (rule select_thread_cong)
  then show ?thesis by (simp only: sealed_thread_def Let_def)
qed

text \<open>The decision does not depend on the order in which healing collected its inputs. Listing the targets
  (of distinct identities) in another order and the membership rows in another order or more than once gives the
  same decision and the same certificate, provided the rows carry metadata as the decoder writes it and no two
  rows for one place of one file disagree.\<close>

theorem seal_order_independent:
  assumes "distinct (map tg_identity targets)" and "mset targets = mset targets'" and "set members = set members'"
    and "wf_metadata members" and "consistent members"
    and "decide_seal key revision targets members ts retained = Inr d"
  shows "decide_seal key revision targets' members' ts retained = Inr d"
proof -
  obtain vs where vs: "classified targets = Inr vs" using assms(6) by (auto simp: decide_seal_def rbind_Inr_iff)
  obtain vs' where vs': "classified targets' = Inr vs'" "mset vs' = mset vs"
    "sort_key (tg_identity \<circ> fst) vs' = sort_key (tg_identity \<circ> fst) vs"
    using classified_permute [OF vs assms(2,1)] by blast
  let ?b = "\<lambda>vs. map (\<lambda>(t, v). (tg_identity t, snd v)) (filter (\<lambda>(_, v). fst v = Required) vs)"
  have eq: "map fst (?b vs') = map (tg_identity \<circ> fst) (filter (\<lambda>(_, v). fst v = Required) vs')" by auto
  have "distinct (map (tg_identity \<circ> fst) vs')"
  proof -
    have "distinct (map (tg_identity \<circ> fst) vs)" by (rule classified_ok(2) [OF vs assms(1)])
    then show ?thesis using vs'(2) by (metis mset_eq_imp_distinct_iff mset_map)
  qed
  then have "distinct (map fst (?b vs'))" unfolding eq by (rule distinct_map_filter)
  moreover have "mset (?b vs') = mset (?b vs)" using vs'(2) by simp
  ultimately have "sort_key fst (?b vs') = sort_key fst (?b vs)" by (intro sort_key_permute)
  then have "decide_seal key revision targets' members' ts retained = decide_seal key revision targets members ts retained"
    using sealed_thread_cong [OF assms(3-5), of "sort_key (tg_identity \<circ> fst) vs" retained]
    by (simp add: decide_seal_def vs vs' Let_def)
  then show ?thesis using assms(6) by simp
qed

section \<open>Publishing\<close>

text \<open>A conversation's published revision over time: a seal publishes only when it advances.\<close>

inductive publishes :: "int option \<Rightarrow> int list \<Rightarrow> int option \<Rightarrow> bool" where
  nothing: "publishes p [] p"
| advance: "publication_advances p n \<Longrightarrow> publishes (Some n) ns q \<Longrightarrow> publishes p (n # ns) q"

inductive_cases publishesE: "publishes p (n # ns) q"

lemma publishes_monotone:
  "publishes p ns q \<Longrightarrow> sorted_wrt (<) ((case p of None \<Rightarrow> 0 | Some n \<Rightarrow> n) # ns)"
proof (induction rule: publishes.induct)
  case (advance p n ns q)
  then show ?case by (cases p) (auto simp: publication_advances_def)
qed simp

section \<open>Samples\<close>

definition sample_ready :: target where
  "sample_ready = \<lparr>tg_identity = ''a'', tg_path = ''r/a'', tg_generation = ''g1'', tg_line_end = Some 90, tg_hold = None,
     tg_watermark_generation = Some ''g1'', tg_watermark_offset = Some 90\<rparr>"

definition sample_held :: target where
  "sample_held = \<lparr>tg_identity = ''b'', tg_path = ''r/b'', tg_generation = ''g2'', tg_line_end = None,
     tg_hold = Some ''decode-error'', tg_watermark_generation = None, tg_watermark_offset = None\<rparr>"

definition sample_fact :: "string \<Rightarrow> int \<Rightarrow> member_fact" where
  "sample_fact p k = \<lparr>mf_identity = ''a'', mf_generation = ''g1'', mf_path = p, mf_metadata = Some (thread_of (\<lambda>_. JStr p)),
     mf_offset = Some k\<rparr>"

lemma sample_seal:
  "\<exists>d. decide_seal ''c'' 3 [sample_ready, sample_held] [sample_fact ''r/a'' 5, sample_fact ''r/z'' 7] None None = Inr d
     \<and> sd_sealable d"
  by (simp add: decide_seal_def classified_def dict_by_def classify_target_def sample_ready_def sample_held_def
      SUSPENSION_HOLDS_def)

theorem seal_sound_witness:
  "\<exists>d. decide_seal ''c'' 3 [sample_ready, sample_held] [sample_fact ''r/a'' 5, sample_fact ''r/z'' 7] None None = Inr d
     \<and> (\<forall>t \<in> {sample_ready, sample_held}. \<forall>r. classify_target t \<noteq> Inr (Required, r))"
proof -
  obtain d where d: "decide_seal ''c'' 3 [sample_ready, sample_held] [sample_fact ''r/a'' 5, sample_fact ''r/z'' 7] None None = Inr d"
    "sd_sealable d" using sample_seal by blast
  have "distinct (map tg_identity [sample_ready, sample_held])" by (simp add: sample_ready_def sample_held_def)
  from seal_sound [OF this d(1)] d show ?thesis by auto
qed

lemma thread_of_again: "thread_of (jget (thread_of f)) = thread_of f"
  by (simp add: thread_of_def THREAD_FIELDS_def)

theorem seal_order_independent_witness:
  "\<exists>d. decide_seal ''c'' 3 [sample_ready, sample_held] [sample_fact ''r/a'' 5, sample_fact ''r/z'' 7] None None = Inr d
     \<and> decide_seal ''c'' 3 [sample_held, sample_ready] [sample_fact ''r/z'' 7, sample_fact ''r/a'' 5] None None = Inr d"
proof -
  obtain d where d: "decide_seal ''c'' 3 [sample_ready, sample_held] [sample_fact ''r/a'' 5, sample_fact ''r/z'' 7] None None = Inr d"
    using sample_seal by blast
  have "decide_seal ''c'' 3 [sample_held, sample_ready] [sample_fact ''r/z'' 7, sample_fact ''r/a'' 5] None None = Inr d"
    by (rule seal_order_independent [OF _ _ _ _ _ d])
      (auto simp: sample_ready_def sample_held_def wf_metadata_def consistent_def sample_fact_def thread_of_again)
  then show ?thesis using d by blast
qed

end
