(* ===== verification/Quota_Lineage.thy ===== *)
theory Quota_Lineage
  imports Py_Json
begin

text \<open>
  \<open>bin/_lib_quota_lineage.py\<close>: the footprint of a correction batch, the lineage records of a fit and of a
  transition with their digests, and the assessment of a lineage against the correction facts. An instant, which
  the code parses from text, is represented by the number it denotes, \<open>None\<close> when it is missing or unreadable;
  \<open>key\<close> is the caller's order on journal coordinates. The memo of prepared facts is not modelled: it returns
  what recomputing returns.
\<close>

section \<open>Footprints\<close>

type_synonym owner = "string \<times> string"

definition UNKNOWN_OWNER :: owner where "UNKNOWN_OWNER = (''*'', ''*'')"

datatype action_kind = Replace | Tombstone | NewEvent

record lineage_action =
  la_event :: string
  la_rev :: int
  la_kind :: action_kind
  la_owner :: "owner option"

datatype revision_status = Active | Removed

record revision =
  rv_status :: revision_status
  rv_owner :: "owner option"

definition or_unknown :: "owner option \<Rightarrow> owner" where
  "or_unknown own = (case own of None \<Rightarrow> UNKNOWN_OWNER | Some x \<Rightarrow> x)"

definition active_owner :: "revision \<Rightarrow> owner option" where
  "active_owner r = (if rv_status r \<noteq> Active then None else Some (or_unknown (rv_owner r)))"

type_synonym predecessor = "string \<Rightarrow> int \<Rightarrow> revision option"

definition predecessor_in :: "predecessor \<Rightarrow> (string, revision) dict \<Rightarrow> lineage_action \<Rightarrow> revision option" where
  "predecessor_in predecessor_of produced a = (case dget produced (la_event a) of
     Some r \<Rightarrow> Some r
   | None \<Rightarrow> if la_kind a = NewEvent then None else predecessor_of (la_event a) (la_rev a))"

definition replaced_owner :: "revision option \<Rightarrow> owner set" where
  "replaced_owner p = (case p of None \<Rightarrow> {} | Some r \<Rightarrow> set_option (active_owner r))"

definition footprint_step :: "predecessor \<Rightarrow> owner set \<times> (string, revision) dict \<Rightarrow> lineage_action
    \<Rightarrow> owner set \<times> (string, revision) dict" where
  "footprint_step predecessor_of st a = (case st of (touched, produced) \<Rightarrow>
     (let replaced = replaced_owner (predecessor_in predecessor_of produced a) in
      if la_kind a = Tombstone
      then (touched \<union> replaced, dset (la_event a) \<lparr>rv_status = Removed, rv_owner = None\<rparr> produced)
      else (insert (or_unknown (la_owner a)) (touched \<union> replaced),
            dset (la_event a) \<lparr>rv_status = Active, rv_owner = la_owner a\<rparr> produced)))"

definition batch_footprint :: "lineage_action list \<Rightarrow> predecessor \<Rightarrow> owner set" where
  "batch_footprint actions predecessor_of = fst (foldl (footprint_step predecessor_of) ({}, []) actions)"

section \<open>Correction facts\<close>

record 'c correction_row =
  cr_op :: string
  cr_observation :: string
  cr_account :: "string option"
  cr_captured :: "int option"
  cr_coord :: 'c

record 'c batch_fact =
  bf_batch :: string
  bf_coord :: 'c
  bf_footprint :: "owner set"

record 'c correction_facts =
  cf_corrections :: "'c correction_row list"
  cf_batches :: "'c batch_fact list"

record window =
  wn_from :: "int option"
  wn_until :: "int option"
  wn_inclusive :: bool

record lineage =
  ln_basis :: "string list"
  ln_scope :: "string option"
  ln_windows :: "window list"

datatype assessment = Clean | Tainted "(string \<times> nat) list" | Unavailable

definition touches :: "owner set \<Rightarrow> string \<Rightarrow> bool" where
  "touches footprint account \<longleftrightarrow> (''claude'', account) \<in> footprint \<or> (''claude'', ''*'') \<in> footprint
     \<or> (''*'', ''*'') \<in> footprint"

definition touches_claude :: "owner set \<Rightarrow> bool" where
  "touches_claude footprint \<longleftrightarrow> (\<exists>p \<in> footprint. fst p = ''claude'' \<or> fst p = ''*'')"

definition in_window :: "int \<Rightarrow> window \<Rightarrow> bool" where
  "in_window instant w \<longleftrightarrow> \<not> (case wn_from w of None \<Rightarrow> False | Some s \<Rightarrow> instant < s)
     \<and> \<not> (case wn_until w of None \<Rightarrow> False | Some u \<Rightarrow> instant > u \<or> (instant = u \<and> \<not> wn_inclusive w))"

definition in_windows :: "int \<Rightarrow> window list \<Rightarrow> bool" where
  "in_windows instant windows \<longleftrightarrow> list_ex (in_window instant) windows"

text \<open>\<open>bisect.bisect_right\<close>: the insertion point after every element not above \<open>x\<close>.\<close>

function bisect_loop :: "'a::linorder list \<Rightarrow> 'a \<Rightarrow> nat \<Rightarrow> nat \<Rightarrow> nat" where
  "bisect_loop xs x lo hi = (if lo < hi
     then let mid = (lo + hi) div 2 in
       if x < xs ! mid then bisect_loop xs x lo mid else bisect_loop xs x (mid + 1) hi
     else lo)"
  by pat_completeness auto
termination
  by (relation "measure (\<lambda>(_, _, lo, hi). hi - lo)") auto

declare bisect_loop.simps [simp del]

definition bisect_right :: "'a::linorder list \<Rightarrow> 'a \<Rightarrow> nat" where
  "bisect_right xs x = bisect_loop xs x 0 (length xs)"

text \<open>\<open>suffix[i]\<close>: the union of the footprints from the \<open>i\<close>-th outside batch on.\<close>

fun suffix_unions :: "owner set list \<Rightarrow> owner set list" where
  "suffix_unions [] = [{}]"
| "suffix_unions (f # fs) = (let rest = suffix_unions fs in (hd rest \<union> f) # rest)"

definition scope_of :: "lineage \<Rightarrow> string" where
  "scope_of l = (case ln_scope l of None \<Rightarrow> ''*'' | Some s \<Rightarrow> if s = [] then ''*'' else s)"

definition outside_batches :: "('c \<Rightarrow> 'k::linorder) \<Rightarrow> lineage \<Rightarrow> 'c batch_fact list \<Rightarrow> ('k \<times> owner set) list" where
  "outside_batches key l batches = map (\<lambda>b. (key (bf_coord b), bf_footprint b))
     (filter (\<lambda>b. bf_batch b \<notin> set (ln_basis l)) (sort_key (key \<circ> bf_coord) batches))"

type_synonym assess_state = "(string, string set) dict \<times> bool"

definition assess_row :: "('c \<Rightarrow> 'k::linorder) \<Rightarrow> lineage \<Rightarrow> 'k list \<Rightarrow> owner set list \<Rightarrow> assess_state
    \<Rightarrow> 'c correction_row \<Rightarrow> assess_state" where
  "assess_row key l commits suffix st row = (case st of (tainted, unresolved) \<Rightarrow>
     (let index = bisect_right commits (key (cr_coord row)) in
      if index = length commits then st
      else let later = suffix ! index in
        case (cr_account row, cr_captured row) of
          (Some account, Some captured) \<Rightarrow>
            if scope_of l \<noteq> ''*'' \<and> account \<noteq> scope_of l then st
            else if \<not> in_windows captured (ln_windows l) then st
            else if touches later account
            then (dset (cr_op row) (insert (cr_observation row) (dget_or tainted (cr_op row) {})) tainted, unresolved)
            else st
        | _ \<Rightarrow> if touches_claude later then (tainted, True) else st))"

definition assess :: "('c \<Rightarrow> 'k::linorder) \<Rightarrow> lineage option \<Rightarrow> 'c correction_facts option \<Rightarrow> assessment" where
  "assess key lineage facts = (case (lineage, facts) of
     (Some l, Some f) \<Rightarrow>
       (let outside = outside_batches key l (cf_batches f) in
        if outside = [] then Clean
        else let commits = map fst outside; suffix = suffix_unions (map snd outside);
                 (tainted, unresolved) = foldl (assess_row key l commits suffix) ([], False) (cf_corrections f)
          in if tainted \<noteq> [] then Tainted (map (\<lambda>(op, observations). (op, card observations)) tainted)
             else if unresolved then Unavailable else Clean)
   | _ \<Rightarrow> Unavailable)"

section \<open>What a set of lineages needs\<close>

record 'k row_demand =
  rd_op_before :: "'k option"
  rd_start :: "int option"
  rd_until :: "int option"
  rd_empty :: bool
  rd_account :: "string option"

definition demanding_commits :: "('c \<Rightarrow> 'k::linorder) \<Rightarrow> 'c batch_fact list \<Rightarrow> lineage \<Rightarrow> 'k list" where
  "demanding_commits key batches l = map (key \<circ> bf_coord)
     (filter (\<lambda>b. bf_batch b \<notin> set (ln_basis l) \<and> touches_claude (bf_footprint b)) batches)"

definition opened :: "('a::linorder list \<Rightarrow> 'a) \<Rightarrow> 'a option list \<Rightarrow> 'a option" where
  "opened pick bounds = (if None \<in> set bounds \<or> bounds = [] then None else Some (pick (map the bounds)))"

definition row_demand_of :: "('c \<Rightarrow> 'k::linorder) \<Rightarrow> lineage option list \<Rightarrow> 'c batch_fact list \<Rightarrow> 'k row_demand option" where
  "row_demand_of key lineages batches =
     (let needing = filter (\<lambda>l. demanding_commits key batches l \<noteq> []) (map the (filter (\<lambda>l. l \<noteq> None) lineages));
          windows = concat (map ln_windows needing);
          scopes = sorted_set (map scope_of needing)
      in if needing = [] then None
         else Some \<lparr>rd_op_before = Some (Max (set (concat (map (demanding_commits key batches) needing)))),
           rd_start = opened (\<lambda>xs. Min (set xs)) (map wn_from windows),
           rd_until = opened (\<lambda>xs. Max (set xs)) (map wn_until windows),
           rd_empty = (windows = []),
           rd_account = (case scopes of [s] \<Rightarrow> if s = ''*'' then None else Some s | _ \<Rightarrow> None)\<rparr>)"

section \<open>The search and the unions\<close>

lemma bisect_loop_spec:
  assumes "sorted xs" and "lo \<le> hi" "hi \<le> length xs"
    and "\<forall>i < lo. xs ! i \<le> x" and "\<forall>i. hi \<le> i \<and> i < length xs \<longrightarrow> x < xs ! i"
  shows "let r = bisect_loop xs x lo hi in r \<le> length xs \<and> (\<forall>i < r. xs ! i \<le> x)
    \<and> (\<forall>i. r \<le> i \<and> i < length xs \<longrightarrow> x < xs ! i)"
  using assms
proof (induction xs x lo hi rule: bisect_loop.induct)
  case (1 xs x lo hi)
  show ?case
  proof (cases "lo < hi")
    case False
    then have "lo = hi" using "1.prems" by simp
    then show ?thesis using "1.prems" by (subst bisect_loop.simps) simp
  next
    case True
    define mid where "mid = (lo + hi) div 2"
    have mid: "lo \<le> mid" "mid < hi" using True by (auto simp: mid_def)
    have up: "xs ! i \<le> xs ! j" if "i \<le> j" "j < length xs" for i j
      using "1.prems"(1) that by (rule sorted_nth_mono)
    show ?thesis
    proof (cases "x < xs ! mid")
      case left: True
      have "\<forall>i. mid \<le> i \<and> i < length xs \<longrightarrow> x < xs ! i" using left up by (meson order.strict_trans2)
      then show ?thesis using "1.IH"(1) [OF True mid_def left] "1.prems" mid left True
        by (subst bisect_loop.simps) (simp add: mid_def [symmetric] Let_def)
    next
      case False
      have "\<forall>i < mid + 1. xs ! i \<le> x"
      proof (intro allI impI)
        fix i assume "i < mid + 1"
        then have "xs ! i \<le> xs ! mid" using up [of i mid] mid "1.prems"(3) by simp
        then show "xs ! i \<le> x" using False by simp
      qed
      then show ?thesis using "1.IH"(2) [OF True mid_def False] "1.prems" mid False True
        by (subst bisect_loop.simps) (simp add: mid_def [symmetric] Let_def)
    qed
  qed
qed

lemma bisect_right_spec:
  assumes "sorted xs"
  shows "bisect_right xs x \<le> length xs" "i < bisect_right xs x \<Longrightarrow> xs ! i \<le> x"
    "bisect_right xs x \<le> i \<Longrightarrow> i < length xs \<Longrightarrow> x < xs ! i"
proof -
  have "\<forall>i. length xs \<le> i \<and> i < length xs \<longrightarrow> x < xs ! i" by auto
  from bisect_loop_spec [OF assms _ order.refl _ this, of 0]
  have r: "bisect_right xs x \<le> length xs \<and> (\<forall>i < bisect_right xs x. xs ! i \<le> x)
      \<and> (\<forall>i. bisect_right xs x \<le> i \<and> i < length xs \<longrightarrow> x < xs ! i)"
    by (simp add: bisect_right_def Let_def)
  then show "bisect_right xs x \<le> length xs" "i < bisect_right xs x \<Longrightarrow> xs ! i \<le> x"
    "bisect_right xs x \<le> i \<Longrightarrow> i < length xs \<Longrightarrow> x < xs ! i" by blast+
qed

lemma suffix_unions_hd: "hd (suffix_unions fs) = \<Union> (set fs)"
  by (induction fs) (auto simp: Let_def)

lemma suffix_unions_nth: "i \<le> length fs \<Longrightarrow> suffix_unions fs ! i = \<Union> (set (drop i fs))"
proof (induction fs arbitrary: i)
  case (Cons f fs)
  then show ?case using suffix_unions_hd [of fs] by (cases i) (auto simp: Let_def)
qed simp

lemma later_union:
  assumes "sorted (map fst ps)" and "bisect_right (map fst ps) x < length ps"
  shows "suffix_unions (map snd ps) ! bisect_right (map fst ps) x = \<Union> (snd ` {p \<in> set ps. x < fst p})"
proof -
  let ?r = "bisect_right (map fst ps) x"
  note sp = bisect_right_spec [OF assms(1), where x = x]
  have "set (drop ?r ps) = {p \<in> set ps. x < fst p}"
  proof (rule set_eqI)
    fix p
    show "p \<in> set (drop ?r ps) \<longleftrightarrow> p \<in> {p \<in> set ps. x < fst p}"
    proof
      assume "p \<in> set (drop ?r ps)"
      then obtain i where "i < length ps - ?r" "p = ps ! (?r + i)" by (auto simp: in_set_conv_nth)
      then show "p \<in> {p \<in> set ps. x < fst p}" using sp(3) [where i = "?r + i"] by simp
    next
      assume "p \<in> {p \<in> set ps. x < fst p}"
      then obtain i where i: "i < length ps" "p = ps ! i" "x < fst p" by (auto simp: in_set_conv_nth)
      then have "?r \<le> i" using sp(2) [where i = i] by (auto simp: not_le [symmetric])
      then show "p \<in> set (drop ?r ps)" using i by (auto simp: in_set_conv_nth intro!: exI [of _ "i - ?r"])
    qed
  qed
  then show ?thesis using assms(2) by (simp add: suffix_unions_nth drop_map)
qed

lemma no_later:
  assumes "sorted (map fst ps)"
  shows "bisect_right (map fst ps) x = length ps \<longleftrightarrow> \<not> (\<exists>p \<in> set ps. x < fst p)"
proof -
  note sp = bisect_right_spec [OF assms, where x = x]
  show ?thesis
  proof
    assume "bisect_right (map fst ps) x = length ps"
    then have le: "fst (ps ! i) \<le> x" if "i < length ps" for i using sp(2) [where i = i] that by simp
    show "\<not> (\<exists>p \<in> set ps. x < fst p)"
    proof
      assume "\<exists>p \<in> set ps. x < fst p"
      then obtain p where p: "p \<in> set ps" "x < fst p" by blast
      then obtain i where "i < length ps" "p = ps ! i" unfolding in_set_conv_nth by blast
      then show False using le [of i] p(2) by simp
    qed
  next
    assume none: "\<not> (\<exists>p \<in> set ps. x < fst p)"
    show "bisect_right (map fst ps) x = length ps"
    proof (rule ccontr)
      assume "bisect_right (map fst ps) x \<noteq> length ps"
      then have "bisect_right (map fst ps) x < length ps" using sp(1) by simp
      then show False using sp(3) [where i = "bisect_right (map fst ps) x"] none by auto
    qed
  qed
qed

section \<open>The predicate\<close>

text \<open>The specification: which later batches outside the basis a correction meets, and what it means.\<close>

definition later_batch :: "('c \<Rightarrow> 'k::linorder) \<Rightarrow> lineage \<Rightarrow> 'c batch_fact list \<Rightarrow> 'c correction_row \<Rightarrow> owner set \<Rightarrow> bool" where
  "later_batch key l batches row fp \<longleftrightarrow> (\<exists>b \<in> set batches. bf_batch b \<notin> set (ln_basis l)
     \<and> key (cr_coord row) < key (bf_coord b) \<and> bf_footprint b = fp)"

definition taints :: "('c \<Rightarrow> 'k::linorder) \<Rightarrow> lineage \<Rightarrow> 'c batch_fact list \<Rightarrow> 'c correction_row \<Rightarrow> bool" where
  "taints key l batches row \<longleftrightarrow> (\<exists>account captured. cr_account row = Some account \<and> cr_captured row = Some captured
     \<and> (scope_of l = ''*'' \<or> account = scope_of l) \<and> in_windows captured (ln_windows l)
     \<and> (\<exists>fp. later_batch key l batches row fp \<and> touches fp account))"

definition blinds :: "('c \<Rightarrow> 'k::linorder) \<Rightarrow> lineage \<Rightarrow> 'c batch_fact list \<Rightarrow> 'c correction_row \<Rightarrow> bool" where
  "blinds key l batches row \<longleftrightarrow> (cr_account row = None \<or> cr_captured row = None)
     \<and> (\<exists>fp. later_batch key l batches row fp \<and> touches_claude fp)"

lemma outside_set: "p \<in> set (outside_batches key l batches) \<longleftrightarrow>
    (\<exists>b \<in> set batches. bf_batch b \<notin> set (ln_basis l) \<and> p = (key (bf_coord b), bf_footprint b))"
  by (auto simp: outside_batches_def)

lemma outside_sorted: "sorted (map fst (outside_batches key l batches))"
proof -
  have "sorted (map (key \<circ> bf_coord) (sort_key (key \<circ> bf_coord) batches))" by simp
  then have "sorted (map (key \<circ> bf_coord) (filter (\<lambda>b. bf_batch b \<notin> set (ln_basis l)) (sort_key (key \<circ> bf_coord) batches)))"
    by (rule sorted_filter)
  then show ?thesis by (simp add: outside_batches_def comp_def)
qed

lemma touches_Union: "touches (\<Union> A) account \<longleftrightarrow> (\<exists>fp \<in> A. touches fp account)"
  by (auto simp: touches_def)

lemma touches_claude_Union: "touches_claude (\<Union> A) \<longleftrightarrow> (\<exists>fp \<in> A. touches_claude fp)"
  by (auto simp: touches_claude_def)

lemma assess_row_spec:
  assumes o: "ps = outside_batches key l batches"
  shows "assess_row key l (map fst ps) (suffix_unions (map snd ps)) (tainted, unresolved) row
    = (if taints key l batches row
       then (dset (cr_op row) (insert (cr_observation row) (dget_or tainted (cr_op row) {})) tainted, unresolved)
       else (tainted, unresolved \<or> blinds key l batches row))"
proof -
  let ?x = "key (cr_coord row)"
  have sorted: "sorted (map fst ps)" by (simp add: o outside_sorted)
  have later: "later_batch key l batches row fp \<longleftrightarrow> fp \<in> snd ` {p \<in> set ps. ?x < fst p}" for fp
    unfolding later_batch_def o by (force simp: outside_set)
  show ?thesis
  proof (cases "bisect_right (map fst ps) ?x = length ps")
    case True
    then have "\<not> later_batch key l batches row fp" for fp using no_later [OF sorted, of ?x] later by auto
    then show ?thesis using True by (simp add: assess_row_def taints_def blinds_def Let_def)
  next
    case False
    then have "bisect_right (map fst ps) ?x < length ps" using bisect_right_spec(1) [OF sorted, where x = ?x] by simp
    note u = later_union [OF sorted this]
    have t: "touches (suffix_unions (map snd ps) ! bisect_right (map fst ps) ?x) a
        \<longleftrightarrow> (\<exists>fp. later_batch key l batches row fp \<and> touches fp a)" for a
      unfolding u touches_Union later by blast
    have c: "touches_claude (suffix_unions (map snd ps) ! bisect_right (map fst ps) ?x)
        \<longleftrightarrow> (\<exists>fp. later_batch key l batches row fp \<and> touches_claude fp)"
      unfolding u touches_claude_Union later by blast
    show ?thesis using False
      by (cases "cr_account row"; cases "cr_captured row")
        (auto simp: assess_row_def taints_def blinds_def Let_def t c)
  qed
qed


definition omittable :: "('c \<Rightarrow> 'k::linorder) \<Rightarrow> 'k row_demand option \<Rightarrow> 'c correction_row \<Rightarrow> bool" where
  "omittable key d row = (case d of None \<Rightarrow> True
   | Some w \<Rightarrow> (case rd_op_before w of None \<Rightarrow> False | Some k \<Rightarrow> k \<le> key (cr_coord row))
     \<or> (case (cr_account row, cr_captured row) of
          (Some account, Some captured) \<Rightarrow> rd_empty w
            \<or> (case rd_start w of None \<Rightarrow> False | Some a \<Rightarrow> captured < a)
            \<or> (case rd_until w of None \<Rightarrow> False | Some b \<Rightarrow> b < captured)
            \<or> (case rd_account w of None \<Rightarrow> False | Some s \<Rightarrow> account \<noteq> s)
        | _ \<Rightarrow> False))"

section \<open>The fold over the corrections\<close>

definition taints_obs :: "('c \<Rightarrow> 'k::linorder) \<Rightarrow> lineage \<Rightarrow> 'c batch_fact list \<Rightarrow> 'c correction_row list \<Rightarrow> string \<Rightarrow> string set" where
  "taints_obs key l batches rows op = {cr_observation row |row. row \<in> set rows \<and> taints key l batches row \<and> cr_op row = op}"

definition first_occurrences :: "'a list \<Rightarrow> 'a list" where
  "first_occurrences xs = rev (remdups (rev xs))"

lemma first_occurrences_snoc:
  "first_occurrences (xs @ [x]) = (if x \<in> set xs then first_occurrences xs else first_occurrences xs @ [x])"
  by (simp add: first_occurrences_def)

lemma set_first_occurrences [simp]: "set (first_occurrences xs) = set xs"
  by (simp add: first_occurrences_def)

lemma assess_fold_spec:
  assumes "ps = outside_batches key l batches"
  shows "\<exists>tainted. foldl (assess_row key l (map fst ps) (suffix_unions (map snd ps))) ([], False) rows
      = (tainted, \<exists>row \<in> set rows. blinds key l batches row)
    \<and> dkeys tainted = first_occurrences (map cr_op (filter (taints key l batches) rows))
    \<and> (\<forall>op. dget_or tainted op {} = taints_obs key l batches rows op)"
proof (induction rows rule: rev_induct)
  case Nil
  then show ?case by (simp add: first_occurrences_def taints_obs_def dget_or_def dkeys_def)
next
  case (snoc row rows)
  then obtain tainted where IH: "foldl (assess_row key l (map fst ps) (suffix_unions (map snd ps))) ([], False) rows
      = (tainted, \<exists>row \<in> set rows. blinds key l batches row)"
    "dkeys tainted = first_occurrences (map cr_op (filter (taints key l batches) rows))"
    "dget_or tainted op {} = taints_obs key l batches rows op" for op by blast
  note step = assess_row_spec [OF assms, of tainted "\<exists>row \<in> set rows. blinds key l batches row" row]
  have obs: "taints_obs key l batches (rows @ [row]) op = (if taints key l batches row \<and> cr_op row = op
      then insert (cr_observation row) (taints_obs key l batches rows op) else taints_obs key l batches rows op)" for op
    by (auto simp: taints_obs_def)
  show ?case
  proof (cases "taints key l batches row")
    case True
    then have nb: "\<not> blinds key l batches row" by (auto simp: taints_def blinds_def)
    have "dkeys (dset (cr_op row) v tainted) = first_occurrences (map cr_op (filter (taints key l batches) (rows @ [row])))" for v
    proof -
      have "dkeys (dset (cr_op row) v tainted) = (if cr_op row \<in> set (dkeys tainted) then dkeys tainted else dkeys tainted @ [cr_op row])"
        by (simp add: dkeys_def update_keys)
      then show ?thesis using True by (simp add: IH(2) first_occurrences_snoc)
    qed
    moreover have "dget_or (dset (cr_op row) (insert (cr_observation row) (dget_or tainted (cr_op row) {})) tainted) op {}
        = taints_obs key l batches (rows @ [row]) op" for op
      unfolding obs IH(3) [symmetric] using True by (simp add: dget_or_def dget_dset)
    ultimately show ?thesis using True nb by (simp add: IH(1) step)
  next
    case False
    then show ?thesis using IH(2,3) by (auto simp: IH(1) step obs)
  qed
qed

lemma no_later_batch: "outside_batches key l batches = [] \<Longrightarrow> \<not> later_batch key l batches row fp"
  using outside_set [of _ key l batches] by (auto simp: later_batch_def)

lemma assess_spec:
  "assess key (Some l) (Some f) = (let ts = filter (taints key l (cf_batches f)) (cf_corrections f) in
     if ts \<noteq> []
     then Tainted (map (\<lambda>op. (op, card (taints_obs key l (cf_batches f) (cf_corrections f) op))) (first_occurrences (map cr_op ts)))
     else if \<exists>row \<in> set (cf_corrections f). blinds key l (cf_batches f) row then Unavailable else Clean)"
proof (cases "outside_batches key l (cf_batches f) = []")
  case True
  then show ?thesis by (simp add: assess_def Let_def taints_def blinds_def no_later_batch)
next
  case False
  let ?ps = "outside_batches key l (cf_batches f)" and ?rows = "cf_corrections f"
  obtain tainted where T: "foldl (assess_row key l (map fst ?ps) (suffix_unions (map snd ?ps))) ([], False) ?rows
      = (tainted, \<exists>row \<in> set ?rows. blinds key l (cf_batches f) row)"
    "dkeys tainted = first_occurrences (map cr_op (filter (taints key l (cf_batches f)) ?rows))"
    "\<forall>op. dget_or tainted op {} = taints_obs key l (cf_batches f) ?rows op"
    using assess_fold_spec [OF refl, of key l "cf_batches f" ?rows] by blast
  have wf: "wf_dict tainted" using T(2) by (simp add: wf_dict_def dkeys_def first_occurrences_def)
  have e: "tainted = [] \<longleftrightarrow> filter (taints key l (cf_batches f)) ?rows = []"
  proof -
    have "tainted = [] \<longleftrightarrow> set (dkeys tainted) = {}" by (simp add: dkeys_def)
    then show ?thesis unfolding T(2) set_first_occurrences by (auto simp: filter_empty_conv)
  qed
  have "map (\<lambda>(op, obs). (op, card obs)) tainted = map (\<lambda>op. (op, card (taints_obs key l (cf_batches f) ?rows op))) (dkeys tainted)"
    unfolding dkeys_def map_map
  proof (rule map_cong [OF refl])
    fix p assume "p \<in> set tainted"
    then have "dget tainted (fst p) = Some (snd p)" using wf by (simp add: wf_dict_def)
    then show "(case p of (op, obs) \<Rightarrow> (op, card obs)) = ((\<lambda>op. (op, card (taints_obs key l (cf_batches f) ?rows op))) \<circ> fst) p"
      using T(3) by (auto simp: dget_or_def split: prod.splits dest!: spec [of _ "fst p"])
  qed
  then show ?thesis using False e by (simp add: assess_def Let_def T(1) T(2) [symmetric])
qed


text \<open>The coordinate at which an op first taints, and the order of first appearance for rows in journal order.\<close>

definition first_coord :: "('c \<Rightarrow> 'k::linorder) \<Rightarrow> 'c correction_row list \<Rightarrow> string \<Rightarrow> 'k" where
  "first_coord key rows op = Min ((key \<circ> cr_coord) ` {row \<in> set rows. cr_op row = op})"

lemma sorted_first_occurrences:
  fixes g :: "'a \<Rightarrow> 'k::linorder"
  assumes "sorted (map g xs)"
  shows "sorted (map (\<lambda>a. Min (g ` {x \<in> set xs. h x = a})) (first_occurrences (map h xs)))"
  using assms
proof (induction xs rule: rev_induct)
  case Nil
  then show ?case by (simp add: first_occurrences_def)
next
  case (snoc x xs)
  let ?m = "\<lambda>xs a. Min (g ` {x \<in> set xs. h x = a})"
  have last: "\<forall>y \<in> set xs. g y \<le> g x" and "sorted (map g xs)" using snoc.prems by (auto simp: sorted_append)
  with snoc.IH have IH: "sorted (map (?m xs) (first_occurrences (map h xs)))" by blast
  have keep: "?m (xs @ [x]) a = ?m xs a" if a: "a \<in> h ` set xs" for a
  proof (cases "h x = a")
    case True
    from a obtain y where y: "y \<in> set xs" "h y = a" by blast
    let ?G = "g ` {x \<in> set xs. h x = a}"
    have "{y \<in> set (xs @ [x]). h y = a} = insert x {x \<in> set xs. h x = a}" using True by auto
    moreover have "Min ?G \<le> g x" using y last by (intro Min.coboundedI [THEN order_trans, of _ "g y"]) auto
    moreover have "?G \<noteq> {}" using y by blast
    ultimately show ?thesis by (simp add: Min_insert min_absorb2)
  next
    case False
    then have "{y \<in> set (xs @ [x]). h y = a} = {x \<in> set xs. h x = a}" by auto
    then show ?thesis by simp
  qed
  show ?case
  proof (cases "h x \<in> h ` set xs")
    case True
    then have "first_occurrences (map h (xs @ [x])) = first_occurrences (map h xs)" by (simp add: first_occurrences_snoc)
    moreover have "map (?m (xs @ [x])) (first_occurrences (map h xs)) = map (?m xs) (first_occurrences (map h xs))"
      using keep by (intro map_cong) auto
    ultimately show ?thesis using IH by (simp only:)
  next
    case False
    then have "h y \<noteq> h x" if "y \<in> set xs" for y using that by (metis imageI)
    then have "{y \<in> set (xs @ [x]). h y = h x} = {x}" by auto
    then have new: "?m (xs @ [x]) (h x) = g x" by simp
    have "?m xs a \<le> g x" if a: "a \<in> h ` set xs" for a
    proof -
      from a obtain y where y: "y \<in> set xs" "h y = a" by blast
      then have "?m xs a \<le> g y" by (intro Min_le) auto
      then show ?thesis using y(1) last by force
    qed
    moreover have "map (?m (xs @ [x])) (first_occurrences (map h xs)) = map (?m xs) (first_occurrences (map h xs))"
      using keep by (intro map_cong) auto
    moreover have "first_occurrences (map h (xs @ [x])) = first_occurrences (map h xs) @ [h x]"
      using False by (simp add: first_occurrences_snoc)
    ultimately have "map (?m (xs @ [x])) (first_occurrences (map h (xs @ [x]))) = map (?m xs) (first_occurrences (map h xs)) @ [g x]"
      and "\<forall>m \<in> set (map (?m xs) (first_occurrences (map h xs))). m \<le> g x" using new by (simp_all only: list.map map_append) auto
    then show ?thesis using IH by (simp only: sorted_append) simp
  qed
qed

text \<open>C33: The assessment of a lineage is what its documentation says, although it bisects the commits and tests
  unions of footprints: it is tainted exactly when some resolved correction of the scope and of a dependency window
  is followed by a batch outside the basis that touches its account, and then lists every such op once, in the order
  of the rows, with the number of distinct observations it taints; when the rows come in journal order, as the
  caller sorts them, the listed ops are in journal order of their first tainting coordinates. Otherwise it is
  unavailable exactly when an unresolved correction is followed by such a batch that touches Claude, and clean
  otherwise.\<close>

theorem assess_matches_spec:
  "let ts = filter (taints key l (cf_batches f)) (cf_corrections f); ops = first_occurrences (map cr_op ts) in
     assess key (Some l) (Some f) = (if ts \<noteq> []
     then Tainted (map (\<lambda>op. (op, card {cr_observation row |row. row \<in> set (cf_corrections f)
         \<and> taints key l (cf_batches f) row \<and> cr_op row = op})) ops)
     else if \<exists>row. row \<in> set (cf_corrections f) \<and> blinds key l (cf_batches f) row then Unavailable else Clean)
   \<and> distinct ops \<and> (sorted (map (key \<circ> cr_coord) (cf_corrections f)) \<longrightarrow> sorted (map (first_coord key ts) ops))"
proof -
  let ?ts = "filter (taints key l (cf_batches f)) (cf_corrections f)"
  have "sorted (map (first_coord key ?ts) (first_occurrences (map cr_op ?ts)))"
    if sorted: "sorted (map (key \<circ> cr_coord) (cf_corrections f))"
    unfolding first_coord_def by (rule sorted_first_occurrences) (rule sorted_filter [OF sorted])
  moreover have "distinct (first_occurrences (map cr_op ?ts))" by (simp add: first_occurrences_def)
  ultimately show ?thesis using assess_spec [of key l f] by (simp add: taints_obs_def Let_def Bex_def)
qed

section \<open>Dropping rows a reader was not asked for\<close>

lemma Max_demand:
  "k \<in> set (demanding_commits key batches l) \<Longrightarrow> l \<in> set needing
    \<Longrightarrow> k \<le> Max (set (concat (map (demanding_commits key batches) needing)))"
  by (rule Max_ge) auto

lemma opened_Min: "opened (\<lambda>xs. Min (set xs)) bounds = Some a \<Longrightarrow> x \<in> set bounds \<Longrightarrow> \<exists>b. x = Some b \<and> a \<le> b"
  by (cases x) (auto simp: opened_def split: if_splits intro!: Min_le image_eqI)

lemma opened_Max: "opened (\<lambda>xs. Max (set xs)) bounds = Some a \<Longrightarrow> x \<in> set bounds \<Longrightarrow> \<exists>b. x = Some b \<and> b \<le> a"
  by (cases x) (auto simp: opened_def split: if_splits intro!: Max_ge image_eqI)

lemma touches_imp_claude: "touches fp account \<Longrightarrow> touches_claude fp"
  by (force simp: touches_def touches_claude_def)

lemma omittable_resolved:
  assumes "omittable key (Some \<lparr>rd_op_before = Some k, rd_start = a, rd_until = b, rd_empty = e,
      rd_account = (case scopes of [s] \<Rightarrow> if s = ''*'' then None else Some s | _ \<Rightarrow> None)\<rparr>) row"
    and "\<not> k \<le> key (cr_coord row)" "cr_account row = Some account" "cr_captured row = Some captured"
  shows "e \<or> (\<exists>x. a = Some x \<and> captured < x) \<or> (\<exists>x. b = Some x \<and> x < captured)
    \<or> (\<exists>s. scopes = [s] \<and> s \<noteq> ''*'' \<and> account \<noteq> s)"
  using assms by (auto simp: omittable_def split: option.splits list.splits if_splits)

lemma omittable_harmless:
  assumes l: "Some l \<in> set lineages" and o: "omittable key (row_demand_of key lineages batches) row"
  shows "\<not> taints key l batches row \<and> \<not> blinds key l batches row"
proof (rule ccontr)
  assume "\<not> (\<not> taints key l batches row \<and> \<not> blinds key l batches row)"
  then have hit: "taints key l batches row \<or> blinds key l batches row" by blast
  let ?needing = "filter (\<lambda>l. demanding_commits key batches l \<noteq> []) (map the (filter (\<lambda>l. l \<noteq> None) lineages))"
  let ?windows = "concat (map ln_windows ?needing)" and ?scopes = "sorted_set (map scope_of ?needing)"
  from hit obtain fp where fp: "later_batch key l batches row fp" "touches_claude fp"
    unfolding taints_def blinds_def using touches_imp_claude by blast
  then obtain k where b: "k \<in> set (demanding_commits key batches l)" "key (cr_coord row) < k"
  proof -
    from fp(1) obtain b where "b \<in> set batches" "bf_batch b \<notin> set (ln_basis l)" "bf_footprint b = fp"
      and lt: "key (cr_coord row) < key (bf_coord b)" unfolding later_batch_def by blast
    then have dem: "key (bf_coord b) \<in> set (demanding_commits key batches l)"
      using fp(2) by (simp add: demanding_commits_def)
    show ?thesis using that [OF dem lt] .
  qed
  have n: "l \<in> set ?needing" using l b(1) by force
  then have ne: "?needing \<noteq> []" by (metis empty_iff empty_set)
  have late: "\<not> Max (set (concat (map (demanding_commits key batches) ?needing))) \<le> key (cr_coord row)"
    using Max_demand [OF b(1) n] b(2) by auto
  obtain account captured where ac: "cr_account row = Some account" "cr_captured row = Some captured"
    using o late ne by (auto simp: omittable_def row_demand_of_def Let_def split: option.splits)
  then have t: "taints key l batches row" using hit by (simp add: blinds_def)
  then have scope: "scope_of l = ''*'' \<or> account = scope_of l" and "in_windows captured (ln_windows l)"
    using ac by (auto simp: taints_def)
  then obtain w where w: "w \<in> set (ln_windows l)" "in_window captured w" by (auto simp: in_windows_def list_ex_iff)
  then have ww: "w \<in> set ?windows" using n by auto
  then have w1: "wn_from w \<in> set (map wn_from ?windows)" and w2: "wn_until w \<in> set (map wn_until ?windows)" by auto
  have "\<not> captured < a" if "opened (\<lambda>xs. Min (set xs)) (map wn_from ?windows) = Some a" for a
    using opened_Min [OF that w1] w(2) by (auto simp: in_window_def)
  moreover have "\<not> a < captured" if "opened (\<lambda>xs. Max (set xs)) (map wn_until ?windows) = Some a" for a
    using opened_Max [OF that w2] w(2) by (auto simp: in_window_def)
  moreover have "?windows \<noteq> []" using ww by (metis empty_iff empty_set)
  moreover have "account = s" if "?scopes = [s]" "s \<noteq> ''*''" for s
  proof -
    have "scope_of l \<in> set ?scopes" unfolding set_sorted_set set_map by (rule imageI [OF n])
    then have "scope_of l = s" unfolding that(1) by simp
    then show ?thesis using scope that(2) by simp
  qed
  moreover have "?windows = [] \<or> (\<exists>a. opened (\<lambda>xs. Min (set xs)) (map wn_from ?windows) = Some a \<and> captured < a)
      \<or> (\<exists>a. opened (\<lambda>xs. Max (set xs)) (map wn_until ?windows) = Some a \<and> a < captured)
      \<or> (\<exists>s. ?scopes = [s] \<and> s \<noteq> ''*'' \<and> account \<noteq> s)"
    using o ne unfolding row_demand_of_def Let_def by (intro omittable_resolved [where key = key and row = row, OF _ late ac]) (simp only: if_False)
  ultimately show False by blast
qed


lemma foldl_filter_neutral:
  "(\<And>st x. x \<in> set xs \<Longrightarrow> \<not> P x \<Longrightarrow> g st x = st) \<Longrightarrow> foldl g st (filter P xs) = foldl g st xs"
  by (induction xs arbitrary: st) simp_all

text \<open>C29: A reader may leave out every row the demand of a set of lineages does not ask for: each lineage of the
  set is assessed exactly as with all the rows.\<close>

theorem row_demand_sound:
  assumes "Some l \<in> set lineages"
    and "\<forall>row \<in> set (cf_corrections f). keep row \<or> omittable key (row_demand_of key lineages (cf_batches f)) row"
  shows "assess key (Some l) (Some (f\<lparr>cf_corrections := filter keep (cf_corrections f)\<rparr>)) = assess key (Some l) (Some f)"
proof -
  let ?ps = "outside_batches key l (cf_batches f)"
  have "assess_row key l (map fst ?ps) (suffix_unions (map snd ?ps)) st row = st"
    if "row \<in> set (cf_corrections f)" "\<not> keep row" for st row
  proof -
    have "\<not> taints key l (cf_batches f) row \<and> \<not> blinds key l (cf_batches f) row"
      using omittable_harmless [OF assms(1)] assms(2) that by blast
    then show ?thesis using assess_row_spec [OF refl, of key l "cf_batches f" "fst st" "snd st" row] by simp
  qed
  then have "foldl (assess_row key l (map fst ?ps) (suffix_unions (map snd ?ps))) st (filter keep (cf_corrections f))
      = foldl (assess_row key l (map fst ?ps) (suffix_unions (map snd ?ps))) st (cf_corrections f)" for st
    by (rule foldl_filter_neutral)
  then show ?thesis by (simp add: assess_def Let_def)
qed

section \<open>Footprints, action by action\<close>

text \<open>The revision in effect just before the \<open>i\<close>-th action: what the last earlier action on its event produced,
  else what the caller reports.\<close>

definition produced_by :: "lineage_action \<Rightarrow> revision" where
  "produced_by a = (if la_kind a = Tombstone then \<lparr>rv_status = Removed, rv_owner = None\<rparr>
     else \<lparr>rv_status = Active, rv_owner = la_owner a\<rparr>)"

definition in_effect_before :: "predecessor \<Rightarrow> lineage_action list \<Rightarrow> lineage_action \<Rightarrow> revision option" where
  "in_effect_before predecessor_of earlier a = (case filter (\<lambda>b. la_event b = la_event a) (rev earlier) of
     b # _ \<Rightarrow> Some (produced_by b)
   | [] \<Rightarrow> if la_kind a = NewEvent then None else predecessor_of (la_event a) (la_rev a))"

definition touched_by :: "predecessor \<Rightarrow> lineage_action list \<Rightarrow> lineage_action \<Rightarrow> owner set" where
  "touched_by predecessor_of earlier a =
     (case in_effect_before predecessor_of earlier a of
        Some r \<Rightarrow> if rv_status r = Active then {or_unknown (rv_owner r)} else {} | None \<Rightarrow> {})
     \<union> (if la_kind a = Tombstone then {} else {or_unknown (la_owner a)})"

lemma footprint_step_produces:
  "snd (footprint_step predecessor_of (touched, produced) a) = dset (la_event a) (produced_by a) produced"
  by (simp add: footprint_step_def produced_by_def Let_def)

lemma produced_fold:
  "dget (snd (foldl (footprint_step predecessor_of) ({}, []) actions)) e
     = map_option produced_by (case filter (\<lambda>b. la_event b = e) (rev actions) of [] \<Rightarrow> None | b # _ \<Rightarrow> Some b)"
proof (induction actions rule: rev_induct)
  case (snoc a actions)
  obtain touched produced where f: "foldl (footprint_step predecessor_of) ({}, []) actions = (touched, produced)" by fastforce
  then show ?case using snoc by (simp add: footprint_step_produces dget_dset)
qed simp

lemma footprint_step_touches:
  assumes "foldl (footprint_step predecessor_of) ({}, []) actions = (touched, produced)"
  shows "fst (footprint_step predecessor_of (touched, produced) a) = touched \<union> touched_by predecessor_of actions a"
proof -
  have "predecessor_in predecessor_of produced a = in_effect_before predecessor_of actions a"
    using produced_fold [of predecessor_of actions "la_event a"] assms
    by (auto simp: predecessor_in_def in_effect_before_def split: list.splits option.splits)
  then show ?thesis
    by (auto simp: footprint_step_def touched_by_def replaced_owner_def active_owner_def Let_def split: option.splits)
qed

text \<open>The footprint of a batch is the union, over its actions in order, of the owner of the revision in effect just
  before the action (the one an earlier action of the batch produced for the event, else the caller's; none for a
  tombstone, for a new event or for no revision) and of the payload's owner unless the action is a tombstone, an
  unresolvable owner counting as the unknown one.\<close>

theorem footprint_exact:
  "batch_footprint actions predecessor_of
     = (\<Union>i<length actions. touched_by predecessor_of (take i actions) (actions ! i))"
proof (induction actions rule: rev_induct)
  case Nil
  then show ?case by (simp add: batch_footprint_def)
next
  case (snoc a actions)
  obtain touched produced where f: "foldl (footprint_step predecessor_of) ({}, []) actions = (touched, produced)" by fastforce
  have "touched_by predecessor_of (take i (actions @ [a])) ((actions @ [a]) ! i)
      = touched_by predecessor_of (take i actions) (actions ! i)" if "i < length actions" for i
    using that by (simp add: nth_append)
  then have "(\<Union>i<length (actions @ [a]). touched_by predecessor_of (take i (actions @ [a])) ((actions @ [a]) ! i))
      = touched_by predecessor_of actions a \<union> (\<Union>i<length actions. touched_by predecessor_of (take i actions) (actions ! i))"
    by (simp add: lessThan_Suc)
  then show ?case using snoc f footprint_step_touches [OF f, of a] by (auto simp: batch_footprint_def)
qed


section \<open>Lineage records\<close>

definition LINEAGE_VERSION :: int where "LINEAGE_VERSION = 1"

definition DIGEST_EXCLUDED_KEYS :: "string list" where
  "DIGEST_EXCLUDED_KEYS = [''effectiveUntil'', ''status'', ''supersededByCorrection'', ''recalibrationAttempt'',
     ''transitionLineage'', ''wpg'', ''wpgDigest'', ''wpr'', ''wprDigest'', ''wpx'', ''wpxDigest'']"

definition FIT_LINEAGE_KEY :: string where "FIT_LINEAGE_KEY = ''fitLineage''"

text \<open>Windows as stored. \<open>iso_text\<close> writes an instant as canonical text and \<open>instant\<close> reads one from a JSON value.\<close>

definition iso :: "(int \<Rightarrow> string) \<Rightarrow> int option \<Rightarrow> json" where
  "iso iso_text t = (case t of None \<Rightarrow> JNull | Some i \<Rightarrow> JStr (iso_text i))"

definition stored_window :: "(int \<Rightarrow> string) \<Rightarrow> int option \<Rightarrow> int option \<Rightarrow> bool \<Rightarrow> jobj" where
  "stored_window iso_text start until until_inclusive =
     [(''from'', iso iso_text start), (''until'', iso iso_text until), (''untilInclusive'', JBool until_inclusive)]"

datatype window_error = UnknownWindowKind string

definition dependency_windows :: "(int \<Rightarrow> string) \<Rightarrow> string \<Rightarrow> int option \<Rightarrow> int option \<Rightarrow> int option \<Rightarrow> window_error + jobj list" where
  "dependency_windows iso_text kind a s t =
     (if kind = ''nosplit'' then Inr [stored_window iso_text a t True]
      else if kind = ''successor'' then Inr [stored_window iso_text s t True, stored_window iso_text a s False]
      else if kind = ''baseline'' then Inr [stored_window iso_text a s False]
      else Inl (UnknownWindowKind kind))"

definition parse_window :: "(json \<Rightarrow> int option) \<Rightarrow> jobj \<Rightarrow> window" where
  "parse_window instant w = \<lparr>wn_from = instant (jget w ''from''), wn_until = instant (jget w ''until''),
     wn_inclusive = truthy (jget w ''untilInclusive'')\<rparr>"

fun elements :: "json \<Rightarrow> json list" where
  "elements (JArr xs) = xs"
| "elements _ = []"

definition parsed_windows :: "(json \<Rightarrow> int option) \<Rightarrow> json list \<Rightarrow> window list" where
  "parsed_windows instant ws = map (parse_window instant \<circ> the_obj) (filter is_obj ws)"

text \<open>The fields of a lineage object that an assessment reads. The basis is a list of batch ids and the scope a string
  or null, as every writer leaves them.\<close>

fun read_lineage :: "(json \<Rightarrow> int option) \<Rightarrow> json \<Rightarrow> lineage option" where
  "read_lineage instant (JObj l) = Some \<lparr>ln_basis = map the_str (elements (jget l ''basis'')),
     ln_scope = (case jget l ''accountScope'' of JStr s \<Rightarrow> Some s | _ \<Rightarrow> None),
     ln_windows = parsed_windows instant (elements (jget l ''dependencyWindows''))\<rparr>"
| "read_lineage instant _ = None"

definition regime_core :: "jobj \<Rightarrow> jobj" where
  "regime_core regime = dwithout (FIT_LINEAGE_KEY # DIGEST_EXCLUDED_KEYS) regime"

definition lineage_digest :: "(string \<Rightarrow> string) \<Rightarrow> jobj \<Rightarrow> string" where
  "lineage_digest H regime = sha256_canonical H (JObj
     [(''regime'', JObj (regime_core regime)),
      (''lineage'', case jget regime FIT_LINEAGE_KEY of JObj l \<Rightarrow> JObj (dwithout [''digest''] l) | _ \<Rightarrow> JNull)])"

definition fit_lineage :: "(string \<Rightarrow> string) \<Rightarrow> string \<Rightarrow> string list \<Rightarrow> jobj list \<Rightarrow> jobj option \<Rightarrow> jobj \<Rightarrow> jobj" where
  "fit_lineage H scope basis windows estimator regime =
     (let rest = [(''accountScope'', JStr scope), (''basis'', JArr (map JStr (sort basis))),
            (''estimator'', case estimator of None \<Rightarrow> JNull | Some e \<Rightarrow> JObj e),
            (''dependencyWindows'', JArr (map JObj windows)), (''legacy'', JBool False)];
          body = (''version'', JInt LINEAGE_VERSION) # rest;
          fit_id = ''fit:'' @ H (canonical_json (JObj [(''regime'', JObj (regime_core regime)), (''lineage'', JObj body)]));
          lineage = (''version'', JInt LINEAGE_VERSION) # (''fitId'', JStr fit_id) # rest
      in dset ''digest'' (JStr (lineage_digest H (dset FIT_LINEAGE_KEY (JObj lineage) regime))) lineage)"

text \<open>Python's \<open>==\<close> takes \<open>True\<close> and \<open>1.0\<close> for \<open>1\<close>.\<close>

fun is_version :: "json \<Rightarrow> bool" where
  "is_version (JInt i) = (i = LINEAGE_VERSION)"
| "is_version (JBool b) = b"
| "is_version (JFloat t) = (t = ''1.0'')"
| "is_version _ = False"

definition fit_lineage_verifies :: "(string \<Rightarrow> string) \<Rightarrow> jobj \<Rightarrow> bool" where
  "fit_lineage_verifies H regime = (case jget regime FIT_LINEAGE_KEY of
     JObj l \<Rightarrow> is_version (jget l ''version'') \<and> jget l ''legacy'' = JBool False \<and> is_str (jget l ''fitId'')
       \<and> jget l ''digest'' = JStr (lineage_digest H regime)
   | _ \<Rightarrow> False)"

text \<open>Two dictionaries are equal when they hold the same items, whatever the order of the keys.\<close>

definition dict_eq :: "jobj \<Rightarrow> jobj \<Rightarrow> bool" where
  "dict_eq a b \<longleftrightarrow> sort_key fst a = sort_key fst b"

definition unique_windows :: "jobj list \<Rightarrow> jobj list" where
  "unique_windows windows = foldl (\<lambda>unique w. if list_ex (dict_eq w) unique then unique else unique @ [w]) [] windows"

definition transition_lineage :: "(string \<Rightarrow> string) \<Rightarrow> jobj list \<Rightarrow> string \<Rightarrow> string list \<Rightarrow> jobj \<Rightarrow> jobj" where
  "transition_lineage H windows scope basis descriptor =
     (let body = [(''version'', JInt LINEAGE_VERSION), (''accountScope'', JStr scope),
            (''basis'', JArr (map JStr (sort basis))),
            (''dependencyWindows'', JArr (map JObj (unique_windows windows))), (''descriptor'', JObj descriptor)]
      in dset ''digest'' (JStr (sha256_canonical H (JObj body))) body)"

definition transition_lineage_verifies :: "(string \<Rightarrow> string) \<Rightarrow> json \<Rightarrow> bool" where
  "transition_lineage_verifies H lineage = (case lineage of
     JObj l \<Rightarrow> is_version (jget l ''version'') \<and> is_obj (jget l ''descriptor'')
       \<and> jget l ''digest'' = JStr (sha256_canonical H (JObj (dwithout [''digest''] l)))
   | _ \<Rightarrow> False)"

definition legacy_lineage :: "(json \<Rightarrow> int option) \<Rightarrow> (int \<Rightarrow> string) \<Rightarrow> (string \<Rightarrow> string) \<Rightarrow> jobj \<Rightarrow> int option \<Rightarrow> string \<Rightarrow> jobj" where
  "legacy_lineage instant iso_text H regime era_start scope =
     [(''version'', JInt LINEAGE_VERSION), (''fitId'', JStr (''fit:'' @ H (canonical_json (JObj regime)))),
      (''accountScope'', JStr scope), (''basis'', JArr []), (''estimator'', JNull),
      (''dependencyWindows'', JArr [JObj (stored_window iso_text era_start (instant (jget regime ''asOf'')) True)]),
      (''legacy'', JBool True)]"

definition regime_lineage :: "(json \<Rightarrow> int option) \<Rightarrow> (int \<Rightarrow> string) \<Rightarrow> (string \<Rightarrow> string) \<Rightarrow> jobj \<Rightarrow> int option \<Rightarrow> string \<Rightarrow> jobj" where
  "regime_lineage instant iso_text H regime era_start scope =
     (if fit_lineage_verifies H regime then the_obj (jget regime FIT_LINEAGE_KEY)
      else legacy_lineage instant iso_text H regime era_start scope)"

definition legacy_transition_lineage :: "(int \<Rightarrow> string) \<Rightarrow> string option \<Rightarrow> int option \<Rightarrow> string \<Rightarrow> jobj" where
  "legacy_transition_lineage iso_text account_key detected_at unattributed =
     [(''version'', JInt LINEAGE_VERSION),
      (''accountScope'', JStr (case account_key of None \<Rightarrow> ''*'' | Some a \<Rightarrow> if a = unattributed then ''*'' else a)),
      (''basis'', JArr []), (''dependencyWindows'', JArr [JObj (stored_window iso_text None detected_at True)]),
      (''legacy'', JBool True)]"

text \<open>A key a transition may change is invisible to the digest.\<close>

lemma dwithout_dset: "k \<in> set ks \<Longrightarrow> dwithout ks (dset k v d) = dwithout ks d"
  by (induction d) (auto simp: dwithout_def)

lemma verifies_dset_excluded:
  assumes "k \<in> set DIGEST_EXCLUDED_KEYS"
  shows "fit_lineage_verifies H (dset k v regime) = fit_lineage_verifies H regime"
proof -
  have k: "k \<noteq> FIT_LINEAGE_KEY" using assms by (auto simp: DIGEST_EXCLUDED_KEYS_def FIT_LINEAGE_KEY_def)
  then have g: "jget (dset k v regime) FIT_LINEAGE_KEY = jget regime FIT_LINEAGE_KEY" by (simp add: jget_dset)
  have "regime_core (dset k v regime) = regime_core regime"
    using assms by (simp add: regime_core_def dwithout_dset)
  then show ?thesis by (simp add: fit_lineage_verifies_def lineage_digest_def g split: json.splits)
qed

text \<open>A fit's lineage verifies in the regime it is written into, and keeps verifying under any later change of the
  keys a transition may change (closing, stale marking, stamps, transition lineage); a transition's lineage verifies
  as built.\<close>

theorem lineage_records_verify:
  assumes "fst ` set changes \<subseteq> set DIGEST_EXCLUDED_KEYS"
  shows "fit_lineage_verifies H (foldl (\<lambda>d (k, v). dset k v d)
      (dset FIT_LINEAGE_KEY (JObj (fit_lineage H scope basis windows estimator regime)) regime) changes)
    \<and> transition_lineage_verifies H (JObj (transition_lineage H windows scope basis descriptor))"
proof
  let ?l = "fit_lineage H scope basis windows estimator regime"
  have same: "lineage_digest H (dset FIT_LINEAGE_KEY (JObj (dset ''digest'' v l)) regime) = lineage_digest H (dset FIT_LINEAGE_KEY (JObj l) regime)"
    for v l
    by (simp add: lineage_digest_def regime_core_def dwithout_dset jget_dset)
  have base: "fit_lineage_verifies H (dset FIT_LINEAGE_KEY (JObj ?l) regime)"
    unfolding fit_lineage_verifies_def fit_lineage_def Let_def
    by (simp only: jget_dset if_True json.case same) (simp add: LINEAGE_VERSION_def)
  show "fit_lineage_verifies H (foldl (\<lambda>d (k, v). dset k v d) (dset FIT_LINEAGE_KEY (JObj ?l) regime) changes)"
    using assms base
  proof (induction changes rule: rev_induct)
    case (snoc kv changes)
    then show ?case by (cases kv) (simp add: verifies_dset_excluded)
  qed simp
  show "transition_lineage_verifies H (JObj (transition_lineage H windows scope basis descriptor))"
    by (simp add: transition_lineage_verifies_def transition_lineage_def LINEAGE_VERSION_def dwithout_def jget_def)
qed


theorem lineage_records_verify_witness:
  "fit_lineage_verifies (\<lambda>s. s) (foldl (\<lambda>d (k, v). dset k v d)
      (dset FIT_LINEAGE_KEY (JObj (fit_lineage (\<lambda>s. s) ''*'' [''b1''] [] None [(''asOf'', JStr ''2026'')])) [(''asOf'', JStr ''2026'')])
      [(''status'', JStr ''closed''), (''wpr'', JInt 3)])
    \<and> transition_lineage_verifies (\<lambda>s. s) (JObj (transition_lineage (\<lambda>s. s) [] ''*'' [''b1''] []))"
  by (rule lineage_records_verify [where changes = "[(''status'', JStr ''closed''), (''wpr'', JInt 3)]"])
    (simp add: DIGEST_EXCLUDED_KEYS_def)

section \<open>Conservative lineages\<close>

lemma wider_lineage_taints:
  assumes "set (ln_basis wide) \<subseteq> set (ln_basis l)" "scope_of wide = ''*'' \<or> scope_of wide = scope_of l"
    "\<And>t. in_windows t (ln_windows l) \<Longrightarrow> in_windows t (ln_windows wide)"
    and "assess key (Some l) (Some f) = Tainted ops"
  shows "\<exists>ops'. assess key (Some wide) (Some f) = Tainted ops'"
proof -
  have "taints key wide (cf_batches f) row" if "taints key l (cf_batches f) row" for row
    using that assms(1-3) unfolding taints_def later_batch_def by (elim exE conjE) (metis subsetD)
  moreover have "filter (taints key l (cf_batches f)) (cf_corrections f) \<noteq> []"
    using assms(4) by (auto simp: assess_spec Let_def split: if_splits)
  ultimately have "filter (taints key wide (cf_batches f)) (cf_corrections f) \<noteq> []"
    by (auto simp: filter_empty_conv)
  then show ?thesis by (simp add: assess_spec Let_def)
qed

text \<open>What is stored is read back: an instant's text denotes the instant.\<close>

lemma parse_stored_window:
  assumes "\<And>i. instant (JStr (iso_text i)) = Some i" "instant JNull = None"
  shows "parse_window instant (stored_window iso_text a b c) = \<lparr>wn_from = a, wn_until = b, wn_inclusive = c\<rparr>"
  using assms by (auto simp: parse_window_def stored_window_def iso_def truthy_def split: option.splits)

lemma read_legacy_lineage:
  assumes "\<And>i. instant (JStr (iso_text i)) = Some i" "instant JNull = None"
  shows "read_lineage instant (JObj (legacy_lineage instant iso_text H regime era_start scope)) =
    Some \<lparr>ln_basis = [], ln_scope = Some scope,
      ln_windows = [\<lparr>wn_from = era_start, wn_until = instant (jget regime ''asOf''), wn_inclusive = True\<rparr>]\<rparr>"
  using parse_stored_window [where iso_text = iso_text, OF assms]
  by (simp add: legacy_lineage_def parsed_windows_def del: json.inject)

text \<open>The lineage assumed for a regime without a verifying one is tainted whenever any lineage of its scope and
  span would be; the two windows of a successor split the no-split window at \<open>S\<close>, which belongs to the
  successor.\<close>

lemma legacy_taints:
  assumes law: "\<And>i. instant (JStr (iso_text i)) = Some i" "instant JNull = None"
    and "assess key (Some l) (Some f) = Tainted ops" and "scope = ''*'' \<or> (scope = scope_of l \<and> scope \<noteq> [])"
    and "\<And>t. in_windows t (ln_windows l) \<Longrightarrow> (\<forall>a. era_start = Some a \<longrightarrow> a \<le> t)
      \<and> (\<forall>b. instant (jget regime ''asOf'') = Some b \<longrightarrow> t \<le> b)"
  shows "\<exists>ops'. assess key (read_lineage instant (JObj (legacy_lineage instant iso_text H regime era_start scope))) (Some f)
    = Tainted ops'"
  unfolding read_legacy_lineage [where iso_text = iso_text, OF law]
proof (rule wider_lineage_taints [OF _ _ _ assms(3)])
  fix t assume "in_windows t (ln_windows l)"
  then show "in_windows t (ln_windows \<lparr>ln_basis = [], ln_scope = Some scope,
      ln_windows = [\<lparr>wn_from = era_start, wn_until = instant (jget regime ''asOf''), wn_inclusive = True\<rparr>]\<rparr>)"
    using assms(5) [of t] by (auto simp: in_windows_def in_window_def split: option.splits)
qed (use assms(4) in \<open>auto simp: scope_of_def\<close>)

lemma successor_windows_partition:
  assumes law: "\<And>i. instant (JStr (iso_text i)) = Some i" "instant JNull = None"
    and "a \<le> s" "s \<le> t"
    and "dependency_windows iso_text ''successor'' (Some a) (Some s) (Some t) = Inr ws"
      "dependency_windows iso_text ''nosplit'' (Some a) (Some s) (Some t) = Inr whole"
  shows "in_windows i (parsed_windows instant (map JObj ws)) = in_windows i (parsed_windows instant (map JObj whole))"
    "in_window s (parse_window instant (hd ws))" "\<not> in_window s (parse_window instant (ws ! 1))"
  using assms(3-) parse_stored_window [where iso_text = iso_text, OF law]
  by (auto simp: dependency_windows_def parsed_windows_def in_windows_def in_window_def)

section \<open>A concrete demand\<close>

text \<open>Two batches committed at 10 and 30, a lineage whose basis holds the first, and corrections at 5, 20 and 40, of
  which the last two may be left out.\<close>

definition sample_lineage :: lineage where
  "sample_lineage = \<lparr>ln_basis = [''b1''], ln_scope = Some ''A'',
     ln_windows = [\<lparr>wn_from = Some 100, wn_until = Some 200, wn_inclusive = True\<rparr>]\<rparr>"

definition sample_row :: "string \<Rightarrow> string \<Rightarrow> int \<Rightarrow> int \<Rightarrow> int correction_row" where
  "sample_row op account captured at = \<lparr>cr_op = op, cr_observation = ''o'', cr_account = Some account,
     cr_captured = Some captured, cr_coord = at\<rparr>"

definition sample_facts :: "int correction_facts" where
  "sample_facts = \<lparr>cf_corrections = [sample_row ''p'' ''A'' 150 5, sample_row ''q'' ''B'' 150 20, sample_row ''r'' ''A'' 150 40],
     cf_batches = [\<lparr>bf_batch = ''b1'', bf_coord = 10, bf_footprint = {(''claude'', ''A'')}\<rparr>,
       \<lparr>bf_batch = ''b2'', bf_coord = 30, bf_footprint = {(''claude'', ''A'')}\<rparr>]\<rparr>"

lemma sample_omittable:
  "\<forall>row \<in> set (cf_corrections sample_facts). cr_op row = ''p''
     \<or> omittable (\<lambda>x. x) (row_demand_of (\<lambda>x. x) [None, Some sample_lineage] (cf_batches sample_facts)) row"
  by (simp add: sample_facts_def sample_lineage_def sample_row_def omittable_def row_demand_of_def demanding_commits_def
      touches_claude_def opened_def sorted_set_def scope_of_def)

theorem row_demand_sound_witness:
  "assess (\<lambda>x. x) (Some sample_lineage)
      (Some (sample_facts\<lparr>cf_corrections := filter (\<lambda>row. cr_op row = ''p'') (cf_corrections sample_facts)\<rparr>))
     = assess (\<lambda>x. x) (Some sample_lineage) (Some sample_facts)"
  by (rule row_demand_sound [where lineages = "[None, Some sample_lineage]", OF _ sample_omittable]) simp

lemma sample_assessed: "assess (\<lambda>x. x) (Some sample_lineage) (Some sample_facts) = Tainted [(''p'', 1)]"
  by (simp add: assess_def outside_batches_def sample_facts_def sample_lineage_def sample_row_def Let_def assess_row_def
        bisect_right_def bisect_loop.simps scope_of_def in_windows_def in_window_def touches_def dget_or_def)

text \<open>Three corrections in journal order, of two ops, before the batch of the other lineage.\<close>

definition two_op_facts :: "int correction_facts" where
  "two_op_facts = sample_facts\<lparr>cf_corrections := [sample_row ''q'' ''A'' 150 5, sample_row ''p'' ''A'' 150 20, sample_row ''q'' ''A'' 150 25]\<rparr>"

theorem assess_matches_spec_witness:
  "let ts = filter (taints (\<lambda>x. x) sample_lineage (cf_batches two_op_facts)) (cf_corrections two_op_facts) in
     assess (\<lambda>x. x) (Some sample_lineage) (Some two_op_facts) = Tainted [(''q'', 1), (''p'', 1)]
     \<and> first_occurrences (map cr_op ts) = [''q'', ''p''] \<and> first_coord (\<lambda>x. x) ts ''q'' \<le> first_coord (\<lambda>x. x) ts ''p''"
proof -
  have a: "assess (\<lambda>x. x) (Some sample_lineage) (Some two_op_facts) = Tainted [(''q'', 1), (''p'', 1)]"
    by (simp add: assess_def outside_batches_def two_op_facts_def sample_facts_def sample_lineage_def sample_row_def Let_def
        assess_row_def bisect_right_def bisect_loop.simps scope_of_def in_windows_def in_window_def touches_def dget_or_def)
  have "sorted (map ((\<lambda>x. x) \<circ> cr_coord) (cf_corrections two_op_facts))" by (simp add: two_op_facts_def sample_row_def)
  then show ?thesis
    using assess_matches_spec [of "\<lambda>x. x" sample_lineage two_op_facts] a
    by (auto simp: Let_def split: if_splits)
qed

end
