(* ===== verification/Batch_Lineage.thy ===== *)
theory Batch_Lineage
  imports Selector_State Quota_Lineage
begin

text \<open>
  \<open>bin/_lib_selector_state.py\<close>, the lineage of completed batches: \<open>completed_batch_footprints\<close> and the part of
  \<open>merge_delta\<close> that fills the \<open>lineage\<close> out-argument. The walk over the batches in commit order offers to the
  winners every base event folded before the commit and the actions of every earlier batch. \<open>owner_of\<close> is the
  caller's owner of a payload; \<open>seed\<close> the durable winner of an event, \<open>\<lambda>_. None\<close> on a full pass. The code reads a
  seed the first time an event is looked up and keeps it among the winners, which \<open>look\<close> does by reading it again.
  The theorems: what revision each footprint was computed against, and that a delta seeded from durable winners
  records the footprints a full pass records.
\<close>

section \<open>The walk\<close>

type_synonym winners = "(string, effective_row) dict"
type_synonym seed = "string \<Rightarrow> effective_row option"

definition revision_of :: "(json \<Rightarrow> owner option) \<Rightarrow> effective_row \<Rightarrow> revision" where
  "revision_of owner_of w = (case ef_json w of
     Some r \<Rightarrow> if ef_status w = ActiveEvt then \<lparr>rv_status = Active, rv_owner = owner_of (jget r ''payload'')\<rparr>
       else \<lparr>rv_status = Removed, rv_owner = None\<rparr>
   | None \<Rightarrow> \<lparr>rv_status = Removed, rv_owner = None\<rparr>)"

definition takes_winner :: "effective_row option \<Rightarrow> effective_event \<Rightarrow> bool" where
  "takes_winner prior c = (case prior of None \<Rightarrow> True
   | Some p \<Rightarrow> if ev_rev c > ef_rev p then True else if ev_rev c < ef_rev p then False
       else (case ef_sequence p of None \<Rightarrow> False | Some n \<Rightarrow> ev_sequence c < n))"

definition look :: "seed \<Rightarrow> winners \<Rightarrow> string \<Rightarrow> effective_row option" where
  "look seed winners e = (case dget winners e of Some w \<Rightarrow> Some w | None \<Rightarrow> seed e)"

definition offer :: "seed \<Rightarrow> winners \<Rightarrow> effective_event \<Rightarrow> winners" where
  "offer seed winners c = (if takes_winner (look seed winners (ev_id c)) c
     then dset (ev_id c) (event_row c None) winners else winners)"

text \<open>A batch is walked when it is completed, its commit marker is held and none of its cores was dropped.\<close>

definition target_of :: "selector_fold \<Rightarrow> string \<Rightarrow> (nat \<times> string) list" where
  "target_of f b = (case dget (dget_or (fd_markers f) b []) ''commit'' of
     Some m \<Rightarrow> if b \<in> fd_completed f \<and> (\<forall>a \<in> set (map snd (dget_or (fd_actions f) b [])). ac_record a \<noteq> [])
       then [(mk_sequence m, b)] else []
   | None \<Rightarrow> [])"

definition ordered_actions :: "selector_fold \<Rightarrow> string \<Rightarrow> action_row list" where
  "ordered_actions f b = map snd (sort_key fst (dget_or (fd_actions f) b []))"

definition lineage_action_of :: "(json \<Rightarrow> owner option) \<Rightarrow> jobj \<Rightarrow> lineage_action" where
  "lineage_action_of owner_of r = (let tombstone = (jget r ''action'' = JStr ''tombstone'') in
     \<lparr>la_event = the_str (jget r ''id''), la_rev = the_int (jget r ''rev''),
      la_kind = if tombstone then Tombstone else Replace,
      la_owner = if tombstone then None else owner_of (jget r ''payload'')\<rparr>)"

definition action_candidates :: "(string \<Rightarrow> string) \<Rightarrow> selector_fold \<Rightarrow> string \<Rightarrow> effective_event list" where
  "action_candidates H f b = map (\<lambda>a. candidate_from_correction H (ac_record a) (ac_sequence a)) (ordered_actions f b)"

definition footprint_over :: "(json \<Rightarrow> owner option) \<Rightarrow> selector_fold \<Rightarrow> string \<Rightarrow> seed \<Rightarrow> owner set" where
  "footprint_over owner_of f b current = batch_footprint (map (lineage_action_of owner_of \<circ> ac_record) (ordered_actions f b))
     (\<lambda>e _. map_option (revision_of owner_of) (current e))"

type_synonym walk = "winners \<times> effective_event list \<times> (string, owner set) dict"

definition footprint_target :: "(string \<Rightarrow> string) \<Rightarrow> (json \<Rightarrow> owner option) \<Rightarrow> seed \<Rightarrow> selector_fold \<Rightarrow> walk
    \<Rightarrow> nat \<times> string \<Rightarrow> walk" where
  "footprint_target H owner_of seed f st target = (case (st, target) of ((winners, base, footprints), (commit, b)) \<Rightarrow>
     (let winners = foldl (offer seed) winners (takeWhile (\<lambda>c. ev_sequence c < commit) base)
      in (foldl (offer seed) winners (action_candidates H f b),
          dropWhile (\<lambda>c. ev_sequence c < commit) base,
          dset b (footprint_over owner_of f b (look seed winners)) footprints)))"

definition base_candidates :: "selector_fold \<Rightarrow> effective_event list" where
  "base_candidates f = sort_key ev_sequence (filter (\<lambda>c. ev_batch c = None) (fd_candidates f))"

definition completed_batch_footprints :: "(string \<Rightarrow> string) \<Rightarrow> (json \<Rightarrow> owner option) \<Rightarrow> selector_fold \<Rightarrow> string list
    \<Rightarrow> seed \<Rightarrow> (string, owner set) dict" where
  "completed_batch_footprints H owner_of f batch_ids seed = snd (snd (foldl (footprint_target H owner_of seed f)
     ([], base_candidates f, []) (sort (concat (map (target_of f) batch_ids)))))"

text \<open>What \<open>merge_delta\<close> leaves under \<open>"footprints"\<close>: those of the batches the delta completed, seeded from the
  durable rows.\<close>

definition delta_footprints :: "(string \<Rightarrow> string) \<Rightarrow> (json \<Rightarrow> owner option) \<Rightarrow> selector_rows \<Rightarrow> json list \<Rightarrow> nat
    \<Rightarrow> merge_error + (string, owner set) dict" where
  "delta_footprints H owner_of rows records next_sequence =
     (let seed = seed_fold rows; done_ids = completed_ids rows in
      rbind (lift_journal (fold_records H seed records next_sequence)) (\<lambda>(f, _).
        let g = resolve_batches H (Some (filter (\<lambda>b. b \<notin> set done_ids) (fold_batch_ids f))) f
        in Inr (completed_batch_footprints H owner_of g
             (filter (\<lambda>b. b \<in> fd_completed g \<and> b \<notin> set done_ids) (fold_batch_ids g))
             (\<lambda>e. map_option event_from_row (dget (dict_by ef_event (ss_effective rows)) e)))))"

section \<open>The winner rule\<close>

definition beats :: "effective_event \<Rightarrow> effective_event \<Rightarrow> bool" where
  "beats c d \<longleftrightarrow> ev_rev d < ev_rev c \<or> (ev_rev d = ev_rev c \<and> ev_sequence c < ev_sequence d)"

definition is_winner :: "effective_event set \<Rightarrow> string \<Rightarrow> effective_row option \<Rightarrow> bool" where
  "is_winner cs e w = (case w of
     None \<Rightarrow> (\<forall>c \<in> cs. ev_id c \<noteq> e)
   | Some row \<Rightarrow> (\<exists>c \<in> cs. ev_id c = e \<and> row = event_row c None \<and> (\<forall>d \<in> cs. ev_id d = e \<longrightarrow> \<not> beats d c)))"

lemma is_winner_empty [simp]: "is_winner {} e w \<longleftrightarrow> w = None"
  by (cases w) (auto simp: is_winner_def)

lemma look_offer: "look seed (offer seed w c) e = (if e = ev_id c \<and> takes_winner (look seed w e) c
    then Some (event_row c None) else look seed w e)"
  by (auto simp: look_def offer_def dget_dset)

lemma offer_winner:
  assumes "\<And>e. is_winner cs e (look seed w e)"
  shows "is_winner (insert c cs) e (look seed (offer seed w c) e)"
proof (cases "e = ev_id c")
  case False
  then show ?thesis using assms [of e] by (auto simp: look_offer is_winner_def split: option.splits)
next
  case True
  show ?thesis
  proof (cases "look seed w e")
    case None
    then show ?thesis using assms [of e] True
      by (auto simp: look_offer takes_winner_def is_winner_def beats_def)
  next
    case (Some p)
    then obtain d where d: "d \<in> cs" "ev_id d = e" "p = event_row d None" "\<And>x. x \<in> cs \<Longrightarrow> ev_id x = e \<Longrightarrow> \<not> beats x d"
      using assms [of e] by (auto simp: is_winner_def)
    have t: "takes_winner (Some p) c \<longleftrightarrow> beats c d"
      by (auto simp: takes_winner_def beats_def d(3) event_row_def)
    show ?thesis
    proof (cases "beats c d")
      case True': True
      then have "\<not> beats x c" if "x \<in> insert c cs" "ev_id x = e" for x
        using d(4) [of x] that by (auto simp: beats_def)
      then show ?thesis using True True' Some by (auto simp: look_offer t is_winner_def)
    next
      case False
      then have "look seed (offer seed w c) e = Some p" using Some t by (simp add: look_offer)
      then show ?thesis using d False by (auto simp: is_winner_def)
    qed
  qed
qed

lemma offers_winner:
  "(\<And>e. is_winner cs e (look seed w e)) \<Longrightarrow> is_winner (set xs \<union> cs) e (look seed (foldl (offer seed) w xs) e)"
proof (induction xs arbitrary: w cs e)
  case (Cons x xs)
  have "is_winner (set xs \<union> insert x cs) e (look seed (foldl (offer seed) (offer seed w x) xs) e)"
    by (rule Cons.IH) (rule offer_winner [OF Cons.prems])
  then show ?case by simp
qed simp

lemma is_winner_unique:
  assumes "is_winner cs e v" "is_winner cs e w" "inj_on ev_sequence cs"
  shows "v = w"
proof (cases v; cases w)
  fix p q assume vw: "v = Some p" "w = Some q"
  then obtain c d where "c \<in> cs" "d \<in> cs" "ev_id c = e" "ev_id d = e" "p = event_row c None" "q = event_row d None"
    "\<not> beats c d" "\<not> beats d c"
    using assms(1,2) by (auto simp: is_winner_def)
  moreover from this have "ev_sequence c = ev_sequence d" by (auto simp: beats_def not_less)
  ultimately show "v = w" using assms(3) vw by (auto dest: inj_onD)
qed (use assms(1,2) in \<open>auto simp: is_winner_def\<close>)


section \<open>What each footprint was computed against\<close>

text \<open>The candidates in effect just before the commit of a target: the base events before it and the actions of the
  earlier targets.\<close>

definition in_effect :: "(string \<Rightarrow> string) \<Rightarrow> selector_fold \<Rightarrow> effective_event list \<Rightarrow> (nat \<times> string) set
    \<Rightarrow> nat \<times> string \<Rightarrow> effective_event set" where
  "in_effect H f base ts t = {c \<in> set base. ev_sequence c < fst t}
     \<union> (\<Union>t' \<in> {t' \<in> ts. t' < t}. set (action_candidates H f (snd t')))"

lemma footprint_target_simp:
  "footprint_target H owner_of seed f (winners, base, footprints) (n, b) =
    (foldl (offer seed) (foldl (offer seed) winners (takeWhile (\<lambda>c. ev_sequence c < n) base)) (action_candidates H f b),
     dropWhile (\<lambda>c. ev_sequence c < n) base,
     dset b (footprint_over owner_of f b (look seed (foldl (offer seed) winners (takeWhile (\<lambda>c. ev_sequence c < n) base)))) footprints)"
  by (simp add: footprint_target_def Let_def)

lemma takeWhile_below:
  assumes "sorted (map ev_sequence base)"
  shows "set (takeWhile (\<lambda>c. ev_sequence c < n) base) = {c \<in> set base. ev_sequence c < n}"
    "set (dropWhile (\<lambda>c. ev_sequence c < n) base) = {c \<in> set base. n \<le> ev_sequence c}"
  using assms by (induction base) (auto simp: not_less)

lemma walk_keeps:
  "b \<notin> snd ` set ts \<Longrightarrow> dget (snd (snd (foldl (footprint_target H owner_of seed f) st ts))) b = dget (snd (snd st)) b"
proof (induction ts arbitrary: st)
  case (Cons t ts)
  then show ?case by (cases st; cases t) (auto simp: footprint_target_simp dget_dset)
qed simp

lemma walk_spec:
  assumes "\<And>e. is_winner seen e (look seed winners e)" "sorted (map ev_sequence base)" "sorted ts" "distinct (map snd ts)"
    and "(n, b) \<in> set ts"
  shows "\<exists>current. (\<forall>e. is_winner (seen \<union> in_effect H f base (set ts) (n, b)) e (current e))
    \<and> dget (snd (snd (foldl (footprint_target H owner_of seed f) (winners, base, footprints) ts))) b
        = Some (footprint_over owner_of f b current)"
  using assms
proof (induction ts arbitrary: winners base footprints seen)
  case (Cons t ts)
  obtain m a where t: "t = (m, a)" by (cases t)
  let ?now = "takeWhile (\<lambda>c. ev_sequence c < m) base" and ?rest = "dropWhile (\<lambda>c. ev_sequence c < m) base"
  let ?w = "foldl (offer seed) winners ?now"
  have now: "is_winner (set ?now \<union> seen) e (look seed ?w e)" for e
    by (rule offers_winner) (rule Cons.prems(1))
  show ?case
  proof (cases "(n, b) = t")
    case True
    have none: "{t' \<in> set (t # ts). t' < t} = {}" using Cons.prems(3) by (auto simp: not_less)
    have "seen \<union> in_effect H f base (set (t # ts)) (n, b) = set ?now \<union> seen"
      unfolding in_effect_def True none takeWhile_below(1) [OF Cons.prems(2)] by (auto simp: t)
    moreover have "b \<notin> snd ` set ts" using Cons.prems(4) unfolding True [symmetric] by simp
    ultimately show ?thesis using now True t
      by (intro exI [of _ "look seed ?w"]) (simp add: footprint_target_simp walk_keeps dget_dset)
  next
    case False
    then have mem: "(n, b) \<in> set ts" using Cons.prems(5) by simp
    then have lt: "t < (n, b)" using Cons.prems(3) False by (metis le_neq_trans list.set_intros(1) sorted_simps(2))
    let ?w' = "foldl (offer seed) ?w (action_candidates H f a)"
    let ?seen = "set (action_candidates H f a) \<union> (set ?now \<union> seen)"
    have w': "is_winner ?seen e (look seed ?w' e)" for e
      by (rule offers_winner) (rule now)
    have "sorted (map ev_sequence ?rest)"
      using Cons.prems(2) by (metis map_append sorted_append takeWhile_dropWhile_id)
    moreover have "sorted ts" "distinct (map snd ts)" using Cons.prems(3,4) by simp_all
    ultimately obtain current where cur:
      "\<forall>e. is_winner (?seen \<union> in_effect H f ?rest (set ts) (n, b)) e (current e)"
      "dget (snd (snd (foldl (footprint_target H owner_of seed f)
          (?w', ?rest, dset a (footprint_over owner_of f a (look seed ?w)) footprints) ts))) b
        = Some (footprint_over owner_of f b current)"
      using Cons.IH [OF w', of ?rest] mem by blast
    have "m \<le> n" using lt t by (auto simp: less_eq_prod_def)
    then have "?seen \<union> in_effect H f ?rest (set ts) (n, b) = seen \<union> in_effect H f base (set (t # ts)) (n, b)"
      using lt t takeWhile_below [OF Cons.prems(2), of m] by (auto simp: in_effect_def)
    then show ?thesis using cur by (intro exI [of _ current]) (simp add: t footprint_target_simp)
  qed
qed simp


definition targets :: "selector_fold \<Rightarrow> string list \<Rightarrow> (nat \<times> string) list" where
  "targets f ids = concat (map (target_of f) ids)"

lemma target_of_cases: "target_of f b = [] \<or> (\<exists>n. target_of f b = [(n, b)])"
  by (auto simp: target_of_def split: option.splits)

lemma targets_ids: "t \<in> set (targets f ids) \<longleftrightarrow> snd t \<in> set ids \<and> t \<in> set (target_of f (snd t))"
proof -
  have "snd t = b" if "t \<in> set (target_of f b)" for b using target_of_cases [of f b] that by auto
  then show ?thesis by (auto simp: targets_def)
qed

lemma targets_distinct: "distinct ids \<Longrightarrow> distinct (map snd (targets f ids))"
proof (induction ids)
  case (Cons b ids)
  have "b \<notin> snd ` set (targets f ids)" using Cons.prems by (auto simp: targets_ids)
  moreover have "targets f (b # ids) = target_of f b @ targets f ids" by (simp add: targets_def)
  ultimately show ?case using Cons target_of_cases [of f b] by (elim disjE exE) simp_all
qed (simp add: targets_def)

lemma base_candidates_sorted: "sorted (map ev_sequence (base_candidates f))"
  by (simp add: base_candidates_def)

lemma distinct_map_sort: "distinct (map h xs) \<Longrightarrow> distinct (map h (sort xs))"
  by (simp add: distinct_map)

lemma footprints_spec:
  assumes "distinct ids" "(n, b) \<in> set (targets f ids)" "\<And>e. is_winner seen e (seed e)"
  shows "\<exists>current. (\<forall>e. is_winner (seen \<union> in_effect H f (base_candidates f) (set (targets f ids)) (n, b)) e (current e))
    \<and> dget (completed_batch_footprints H owner_of f ids seed) b = Some (footprint_over owner_of f b current)"
proof -
  have "\<And>e. is_winner seen e (look seed [] e)" using assms(3) by (simp add: look_def)
  from walk_spec [OF this base_candidates_sorted sorted_sort distinct_map_sort [OF targets_distinct [OF assms(1)]], where n = n and b = b]
  show ?thesis using assms(2) by (simp add: completed_batch_footprints_def targets_def)
qed

text \<open>The footprint of a completed batch is computed against the revisions in effect immediately before its commit:
  for every event the winner, of highest revision and then lowest sequence, over the candidates the seed stands for,
  the base events folded before the commit and the actions of the batches committed earlier.\<close>

theorem footprint_predecessors:
  assumes "distinct ids" "(n, b) \<in> set (targets f ids)" "\<forall>e. is_winner seen e (seed e)"
  shows "\<exists>current. (\<forall>e. is_winner (seen \<union> {c \<in> set (base_candidates f). ev_sequence c < n}
        \<union> (\<Union>t \<in> {t \<in> set (targets f ids). t < (n, b)}. set (action_candidates H f (snd t)))) e (current e))
    \<and> dget (completed_batch_footprints H owner_of f ids seed) b
        = Some (batch_footprint (map (lineage_action_of owner_of \<circ> ac_record) (ordered_actions f b))
            (\<lambda>e _. map_option (revision_of owner_of) (current e)))"
  using footprints_spec [OF assms(1,2), of seen seed H owner_of] assms(3)
  unfolding in_effect_def footprint_over_def by (simp add: Un_assoc)

lemma no_footprint:
  assumes "b \<notin> snd ` set (targets f ids)"
  shows "dget (completed_batch_footprints H owner_of f ids seed) b = None"
  using walk_keeps [of b "sort (targets f ids)" H owner_of seed f "([], base_candidates f, [])"] assms
  by (simp add: completed_batch_footprints_def targets_def)

text \<open>C28: The paths cannot disagree: a delta whose seed is the durable winner of each event over the prefix records, for
  every batch it completes, the footprint a full pass over prefix and delta records.\<close>

theorem incremental_footprints:
  assumes "distinct (old @ new)"
    and same: "\<forall>b \<in> set new. target_of f b = target_of g b \<and> ordered_actions f b = ordered_actions g b"
    and base: "set (base_candidates f) = prefix \<union> set (base_candidates g)" "\<forall>c \<in> prefix. ev_sequence c < N"
    and commits: "\<forall>t \<in> set (targets f old). fst t < N" "\<forall>t \<in> set (targets g new). N \<le> fst t"
    and seed: "\<forall>e. is_winner (prefix \<union> (\<Union>t \<in> set (targets f old). set (action_candidates H f (snd t)))) e (seed e)"
    and inj: "inj_on ev_sequence (set (base_candidates f) \<union> (\<Union>t \<in> set (targets f (old @ new)). set (action_candidates H f (snd t))))"
    and b: "b \<in> set new"
  shows "dget (completed_batch_footprints H owner_of f (old @ new) (\<lambda>_. None)) b
    = dget (completed_batch_footprints H owner_of g new seed) b"
proof (cases "target_of g b")
  case Nil
  then have "target_of f b = []" using same b by simp
  then have "b \<notin> snd ` set (targets f (old @ new))" "b \<notin> snd ` set (targets g new)"
    using Nil by (auto simp: targets_ids)
  then show ?thesis by (simp add: no_footprint)
next
  case (Cons t ts)
  then obtain n where n: "target_of g b = [(n, b)]" using target_of_cases [of g b] by auto
  let ?old = "\<Union>t \<in> set (targets f old). set (action_candidates H f (snd t))"
  let ?full = "{} \<union> in_effect H f (base_candidates f) (set (targets f (old @ new))) (n, b)"
  let ?delta = "(prefix \<union> ?old) \<union> in_effect H g (base_candidates g) (set (targets g new)) (n, b)"
  have d: "distinct new" using assms(1) by simp
  have news: "t \<in> set (targets f new) \<longleftrightarrow> t \<in> set (targets g new)" for t using same by (auto simp: targets_ids)
  have split: "set (targets f (old @ new)) = set (targets f old) \<union> set (targets g new)"
    using news by (auto simp: targets_def)
  have nb: "(n, b) \<in> set (targets g new)" "(n, b) \<in> set (targets f (old @ new))"
    using n b same by (auto simp: targets_ids)
  have acts: "action_candidates H g (snd t) = action_candidates H f (snd t)" if "t \<in> set (targets g new)" for t
    using that same by (auto simp: targets_ids action_candidates_def)
  have N: "N \<le> n" using commits(2) nb(1) by auto
  have olds: "t < (n, b)" if "t \<in> set (targets f old)" for t
  proof -
    have "fst t < n" using that commits(1) N by fastforce
    then show ?thesis by (simp add: less_prod_def)
  qed
  have eq: "?full = ?delta" unfolding in_effect_def split base(1) using olds acts base(2) N by fastforce
  have "?full \<subseteq> set (base_candidates f) \<union> (\<Union>t \<in> set (targets f (old @ new)). set (action_candidates H f (snd t)))"
    unfolding in_effect_def by blast
  then have injf: "inj_on ev_sequence ?full" by (rule inj_on_subset [OF inj])
  have seed': "\<And>e. is_winner (prefix \<union> ?old) e (seed e)" using seed by blast
  obtain v where v: "\<forall>e. is_winner ?full e (v e)"
    "dget (completed_batch_footprints H owner_of f (old @ new) (\<lambda>_. None)) b = Some (footprint_over owner_of f b v)"
    using footprints_spec [OF assms(1) nb(2), of "{}" "\<lambda>_. None" H owner_of] by auto
  obtain w where w: "\<forall>e. is_winner ?delta e (w e)"
    "dget (completed_batch_footprints H owner_of g new seed) b = Some (footprint_over owner_of g b w)"
    using footprints_spec [OF d nb(1) seed', of H owner_of] by auto
  have "v e = w e" for e
    using v(1) w(1) unfolding eq [symmetric] by (blast intro: is_winner_unique [OF _ _ injf])
  then have "v = w" by blast
  moreover have "footprint_over owner_of f b x = footprint_over owner_of g b x" for x
    using same b by (simp add: footprint_over_def)
  ultimately show ?thesis using v(2) w(2) by simp
qed


section \<open>A concrete history\<close>

text \<open>An event of account A at line 0, moved to B by a batch committed at line 3 and to C by one committed at line 6.\<close>

definition sample_owner :: "json \<Rightarrow> owner option" where
  "sample_owner j = (case j of JStr a \<Rightarrow> Some (''claude'', a) | _ \<Rightarrow> None)"

definition sample_base :: effective_event where
  "sample_base = \<lparr>ev_id = ''e'', ev_rev = 0, ev_status = ActiveEvt, ev_hash = [], ev_batch = None,
     ev_record = Some [(''payload'', JStr ''A'')], ev_sequence = 0\<rparr>"

definition sample_action :: "string \<Rightarrow> int \<Rightarrow> string \<Rightarrow> nat \<Rightarrow> action_row" where
  "sample_action b r account n = \<lparr>ac_record = [(''id'', JStr ''e''), (''rev'', JInt r), (''action'', JStr ''replace''),
     (''payload'', JStr account), (''batch'', JStr b)], ac_digest = [], ac_sequence = n\<rparr>"

definition sample_marker :: "nat \<Rightarrow> marker_row" where
  "sample_marker n = \<lparr>mk_core = [], mk_digest = [], mk_identity = [], mk_sequence = n\<rparr>"

definition sample_full :: selector_fold where
  "sample_full = empty_fold\<lparr>fd_candidates := [sample_base],
     fd_markers := [(''b1'', [(''commit'', sample_marker 3)]), (''b2'', [(''commit'', sample_marker 6)])],
     fd_actions := [(''b1'', [(0, sample_action ''b1'' 1 ''B'' 2)]), (''b2'', [(0, sample_action ''b2'' 2 ''C'' 5)])],
     fd_completed := {''b1'', ''b2''}\<rparr>"

definition sample_delta :: selector_fold where
  "sample_delta = sample_full\<lparr>fd_candidates := []\<rparr>"

definition sample_winner :: effective_event where
  "sample_winner = candidate_from_correction (\<lambda>s. s) (ac_record (sample_action ''b1'' 1 ''B'' 2)) 2"

lemmas sample_defs = sample_full_def sample_delta_def sample_marker_def empty_fold_def

lemma sample_targets:
  "targets sample_full [''b1''] = [(3, ''b1'')]" "targets sample_full [''b2''] = [(6, ''b2'')]"
  "targets sample_delta [''b2''] = [(6, ''b2'')]" "targets sample_full [''b1'', ''b2''] = [(3, ''b1''), (6, ''b2'')]"
  by (simp_all add: targets_def target_of_def sample_defs dget_or_def sample_action_def)

lemma sample_bases: "base_candidates sample_full = [sample_base]" "base_candidates sample_delta = []"
  by (simp_all add: base_candidates_def sample_defs sample_base_def)

lemma sample_acts:
  "action_candidates H sample_full ''b1'' = [candidate_from_correction H (ac_record (sample_action ''b1'' 1 ''B'' 2)) 2]"
  "action_candidates H sample_full ''b2'' = [candidate_from_correction H (ac_record (sample_action ''b2'' 2 ''C'' 5)) 5]"
  by (simp_all add: action_candidates_def ordered_actions_def sample_defs dget_or_def sample_action_def)

lemma sample_candidate: "ev_id (candidate_from_correction H (ac_record (sample_action b r a n)) m) = ''e''"
  "ev_sequence (candidate_from_correction H (ac_record (sample_action b r a n)) m) = m"
  "ev_rev (candidate_from_correction H (ac_record (sample_action b r a n)) m) = r"
  by (simp_all add: candidate_from_correction_def sample_action_def)

theorem footprint_predecessors_witness:
  "\<exists>current. (\<forall>e. is_winner ({} \<union> {c \<in> set (base_candidates sample_full). ev_sequence c < 3}
        \<union> (\<Union>t \<in> {t \<in> set (targets sample_full [''b1'']). t < (3, ''b1'')}.
            set (action_candidates (\<lambda>s. s) sample_full (snd t)))) e (current e))
    \<and> dget (completed_batch_footprints (\<lambda>s. s) sample_owner sample_full [''b1''] (\<lambda>_. None)) ''b1''
        = Some (batch_footprint (map (lineage_action_of sample_owner \<circ> ac_record) (ordered_actions sample_full ''b1''))
            (\<lambda>e _. map_option (revision_of sample_owner) (current e)))"
  by (rule footprint_predecessors) (simp_all add: sample_targets)

theorem incremental_footprints_witness:
  "dget (completed_batch_footprints (\<lambda>s. s) sample_owner sample_full ([''b1''] @ [''b2'']) (\<lambda>_. None)) ''b2''
    = dget (completed_batch_footprints (\<lambda>s. s) sample_owner sample_delta [''b2'']
        (\<lambda>e. if e = ''e'' then Some (event_row sample_winner None) else None)) ''b2''"
proof (rule incremental_footprints [where prefix = "{sample_base}" and N = 4])
  show "\<forall>e. is_winner ({sample_base} \<union> (\<Union>t \<in> set (targets sample_full [''b1'']). set (action_candidates (\<lambda>s. s) sample_full (snd t)))) e
      (if e = ''e'' then Some (event_row sample_winner None) else None)"
    by (simp add: sample_targets sample_acts is_winner_def beats_def sample_winner_def sample_candidate) (simp add: sample_base_def)
  show "inj_on ev_sequence (set (base_candidates sample_full) \<union> (\<Union>t \<in> set (targets sample_full ([''b1''] @ [''b2''])).
      set (action_candidates (\<lambda>s. s) sample_full (snd t))))"
    by (auto simp: sample_bases sample_targets sample_acts inj_on_def sample_candidate) (simp_all add: sample_base_def)
  show "\<forall>b \<in> set [''b2'']. target_of sample_full b = target_of sample_delta b \<and> ordered_actions sample_full b = ordered_actions sample_delta b"
    using sample_targets(2,3) by (simp add: targets_def ordered_actions_def) (simp add: sample_delta_def)
qed (simp_all add: sample_targets sample_bases, simp add: sample_base_def)

lemma sample_footprint:
  "completed_batch_footprints (\<lambda>_. []) sample_owner sample_full [''b2'', ''b1''] (\<lambda>_. None)
    = [(''b1'', {(''claude'', ''A''), (''claude'', ''B'')}), (''b2'', {(''claude'', ''B''), (''claude'', ''C'')})]"
  by code_simp

end
