(* ===== verification/Prefix_Evidence.thy ===== *)
theory Prefix_Evidence
  imports Prelude
begin

text \<open>
  \<open>bin/_lib_journal_router.py\<close>, \<open>PrefixHashAccumulator\<close>: the digest of a journal prefix computed from the bytes a
  streaming pass reads anyway, against \<open>journal_prefix_hash\<close> of \<open>bin/_cctally_journal.py\<close>, which reads the
  prefix again. A byte is a \<^typ>\<open>char\<close>; a \<open>hashlib.sha256()\<close> object is the bytes it has absorbed and \<open>H\<close> maps them
  to the hex digest. Two raw digests are equal when their hex digests are. The segment opener returns a handle, here
  the function from a position to what the file holds from there on at the time of that read, \<open>None\<close> when the open
  or the read fails with \<open>OSError\<close>; it is an argument of each operation since the file may change between them.
\<close>

section \<open>Framing\<close>

datatype evidence_error =
    BeyondConsumed | NoOpener | ShortReread | SegmentChanged | NotStreamed | Poisoned evidence_error
  | OsError | OverflowError | NoSegment

text \<open>\<open>PrefixEvidenceUnavailable\<close> and \<open>OSError\<close>, which a short segment turns into a poisoned accumulator.\<close>

definition is_caught :: "evidence_error \<Rightarrow> bool" where
  "is_caught e \<longleftrightarrow> e \<noteq> OverflowError \<and> e \<noteq> NoSegment"

text \<open>\<open>n.to_bytes(k, "big")\<close>, which raises for a number that does not fit.\<close>

definition be_bytes :: "nat \<Rightarrow> nat \<Rightarrow> string" where
  "be_bytes k n = map (\<lambda>i. char_of (n div 256 ^ i)) (rev [0..<k])"

definition to_bytes :: "nat \<Rightarrow> nat \<Rightarrow> evidence_error + string" where
  "to_bytes k n = (if n < 256 ^ k then Inr (be_bytes k n) else Inl OverflowError)"

definition seg_header :: "string \<Rightarrow> nat \<Rightarrow> evidence_error + string" where
  "seg_header name n = rbind (to_bytes 4 (length name)) (\<lambda>a. rbind (to_bytes 8 n) (\<lambda>b. Inr (a @ name @ b)))"

type_synonym segments = "(string \<times> string) list"

text \<open>\<open>journal_prefix_hash\<close> over the segments of the journal with their contents.\<close>

fun prefix_walk :: "segments \<Rightarrow> string \<times> nat \<Rightarrow> string \<Rightarrow> evidence_error + string" where
  "prefix_walk [] hw digest = Inl OsError"
| "prefix_walk ((name, content) # segs) hw digest =
     (let size = (if name = fst hw then snd hw else length content); data = take size content in
      if length data \<noteq> size then Inl OsError
      else rbind (seg_header name (length data)) (\<lambda>h.
        if name = fst hw then Inr (digest @ h @ data) else prefix_walk segs hw (digest @ h @ data)))"

definition journal_prefix_hash :: "(string \<Rightarrow> string) \<Rightarrow> segments \<Rightarrow> (string \<times> nat) option
    \<Rightarrow> evidence_error + string option" where
  "journal_prefix_hash H segs hw = (case hw of None \<Rightarrow> Inr None
   | Some hw \<Rightarrow> rbind (prefix_walk segs hw []) (\<lambda>d. Inr (Some (''sha256:'' @ H d))))"

section \<open>The accumulator\<close>

type_synonym handle = "nat \<Rightarrow> string option"
type_synonym opener = "(string \<Rightarrow> handle) option"

record accumulator =
  ac_running :: string
  ac_name :: "string option"
  ac_segment :: string
  ac_declared :: nat
  ac_fed :: nat
  ac_witness :: string
  ac_poisoned :: "evidence_error option"
  ac_boundaries :: "(string \<times> nat, string \<times> string option \<times> nat \<times> string) dict"
  ac_order :: "(string \<times> nat) list"
  ac_hashed :: nat
  ac_computed :: nat

definition new_accumulator :: accumulator where
  "new_accumulator = \<lparr>ac_running = [], ac_name = None, ac_segment = [], ac_declared = 0, ac_fed = 0,
     ac_witness = [], ac_poisoned = None, ac_boundaries = [], ac_order = [], ac_hashed = 0, ac_computed = 0\<rparr>"

definition MAX_BOUNDARIES :: nat where "MAX_BOUNDARIES = 16"
definition REREAD_CHUNK :: nat where "REREAD_CHUNK = 1048576"

definition streamed_end :: "accumulator \<Rightarrow> nat \<Rightarrow> bool" where
  "streamed_end a offset \<longleftrightarrow> offset = ac_fed a \<and> ac_fed a = ac_declared a"

text \<open>One evidence re-read, chunk by chunk through \<open>consumed\<close>; the digest frames the bytes below \<open>offset\<close>.\<close>

function rehash_loop :: "handle \<Rightarrow> nat \<Rightarrow> nat \<Rightarrow> nat \<Rightarrow> string \<Rightarrow> string \<Rightarrow> evidence_error + string \<times> string" where
  "rehash_loop h offset consumed pos digest raw =
     (if pos < consumed then
        (case h pos of None \<Rightarrow> Inl OsError
         | Some bytes \<Rightarrow> let chunk = take (min REREAD_CHUNK (consumed - pos)) bytes in
             if chunk = [] then Inl ShortReread
             else rehash_loop h offset consumed (pos + length chunk)
               (if pos < offset then digest @ take (offset - pos) chunk else digest) (raw @ chunk))
      else Inr (digest, raw))"
  by pat_completeness auto
termination
  by (relation "measure (\<lambda>(h, offset, consumed, pos, digest, raw). consumed - pos)")
    (auto simp: REREAD_CHUNK_def min_def length_greater_0_conv [symmetric] simp del: length_greater_0_conv)

declare rehash_loop.simps [simp del]

definition verified_rehash :: "(string \<Rightarrow> string) \<Rightarrow> opener \<Rightarrow> string \<Rightarrow> string \<Rightarrow> nat \<Rightarrow> nat \<Rightarrow> string
    \<Rightarrow> evidence_error + string" where
  "verified_rehash H opener before name offset consumed witness =
     (if offset > consumed then Inl BeyondConsumed
      else rbind (seg_header name offset) (\<lambda>header.
        let digest = before @ header in
        if consumed \<le> 0 then Inr digest
        else case opener of None \<Rightarrow> Inl NoOpener
        | Some open_segment \<Rightarrow>
            rbind (rehash_loop (open_segment name) offset consumed 0 digest []) (\<lambda>(digest, raw).
              if H raw \<noteq> witness then Inl SegmentChanged else Inr digest)))"

text \<open>The running hash with the current segment absorbed, and the reason why it no longer describes the journal.\<close>

definition completed_segment :: "(string \<Rightarrow> string) \<Rightarrow> opener \<Rightarrow> string \<Rightarrow> accumulator
    \<Rightarrow> evidence_error + string \<times> evidence_error option" where
  "completed_segment H opener name a =
     (if ac_fed a = ac_declared a \<or> ac_poisoned a \<noteq> None then Inr (ac_segment a, ac_poisoned a)
      else case verified_rehash H opener (ac_running a) name (ac_fed a) (ac_fed a) (H (ac_witness a)) of
        Inr digest \<Rightarrow> Inr (digest, None)
      | Inl e \<Rightarrow> if is_caught e then Inr (ac_segment a, Some e) else Inl e)"

function drop_oldest :: "(string \<times> nat, 'v) dict \<Rightarrow> (string \<times> nat) list \<Rightarrow> (string \<times> nat, 'v) dict \<times> (string \<times> nat) list" where
  "drop_oldest boundaries order = (if MAX_BOUNDARIES < length order
     then drop_oldest (dwithout [hd order] boundaries) (tl order) else (boundaries, order))"
  by pat_completeness auto
termination
  by (relation "measure (length \<circ> snd)") auto

declare drop_oldest.simps [simp del]

definition register_boundary :: "(string \<Rightarrow> string) \<Rightarrow> string \<times> nat \<Rightarrow> accumulator \<Rightarrow> accumulator" where
  "register_boundary H key a =
     (if ac_name a \<noteq> Some (fst key) \<or> dget (ac_boundaries a) key \<noteq> None then a
      else let final = (if streamed_end a (snd key) then Some (ac_segment a) else None);
               (boundaries, order) = drop_oldest
                 (dset key (ac_running a, final, ac_fed a, H (ac_witness a)) (ac_boundaries a)) (ac_order a @ [key])
           in a\<lparr>ac_boundaries := boundaries, ac_order := order\<rparr>)"

definition begin_segment :: "(string \<Rightarrow> string) \<Rightarrow> opener \<Rightarrow> string \<Rightarrow> (string \<times> nat) option \<Rightarrow> nat \<Rightarrow> accumulator
    \<Rightarrow> evidence_error + accumulator" where
  "begin_segment H opener name boundary declared a =
     (let a = (case boundary of None \<Rightarrow> a | Some key \<Rightarrow> register_boundary H key a) in
      rbind (case ac_name a of None \<Rightarrow> Inr (ac_running a, ac_poisoned a)
             | Some current \<Rightarrow> completed_segment H opener current a) (\<lambda>(running, poisoned).
      rbind (seg_header name declared) (\<lambda>header.
        Inr (a\<lparr>ac_running := running, ac_poisoned := poisoned, ac_name := Some name, ac_declared := declared,
               ac_fed := 0, ac_witness := [], ac_segment := running @ header\<rparr>))))"

definition extend :: "string \<Rightarrow> accumulator \<Rightarrow> evidence_error + accumulator" where
  "extend data a = (if ac_name a = None then Inl NoSegment
     else Inr (a\<lparr>ac_segment := ac_segment a @ data, ac_witness := ac_witness a @ data,
                 ac_fed := ac_fed a + length data\<rparr>))"

definition digest_of :: "(string \<Rightarrow> string) \<Rightarrow> opener \<Rightarrow> string \<times> nat \<Rightarrow> accumulator \<Rightarrow> evidence_error + string" where
  "digest_of H opener hw a = (case hw of (segment, offset) \<Rightarrow>
     if ac_name a = Some segment then
       (if streamed_end a offset then Inr (ac_segment a)
        else verified_rehash H opener (ac_running a) segment offset (ac_fed a) (H (ac_witness a)))
     else case dget (ac_boundaries a) (segment, offset) of None \<Rightarrow> Inl NotStreamed
       | Some (before, final, consumed, witness) \<Rightarrow> (case final of Some d \<Rightarrow> Inr d
           | None \<Rightarrow> verified_rehash H opener before segment offset consumed witness))"

definition digest_at :: "(string \<Rightarrow> string) \<Rightarrow> opener \<Rightarrow> (string \<times> nat) option \<Rightarrow> accumulator
    \<Rightarrow> evidence_error + string option \<times> accumulator" where
  "digest_at H opener hw a = (case hw of None \<Rightarrow> Inr (None, a)
   | Some (segment, offset) \<Rightarrow> (case ac_poisoned a of Some e \<Rightarrow> Inl (Poisoned e)
     | None \<Rightarrow> rbind (digest_of H opener (segment, offset) a) (\<lambda>digest.
         Inr (Some (''sha256:'' @ H digest),
              a\<lparr>ac_hashed := ac_hashed a + offset, ac_computed := ac_computed a + 1\<rparr>))))"

section \<open>Framed prefixes\<close>

definition header_of :: "string \<Rightarrow> nat \<Rightarrow> string" where
  "header_of name n = be_bytes 4 (length name) @ name @ be_bytes 8 n"

definition fits :: "string \<Rightarrow> nat \<Rightarrow> bool" where
  "fits name n \<longleftrightarrow> length name < 256 ^ 4 \<and> n < 256 ^ 8"

lemma seg_header_Inr: "seg_header name n = Inr h \<longleftrightarrow> fits name n \<and> h = header_of name n"
  by (auto simp: seg_header_def to_bytes_def fits_def header_of_def rbind_Inr_iff simp del: power_numeral)

definition frames :: "segments \<Rightarrow> string" where
  "frames segs = concat (map (\<lambda>(name, data). header_of name (length data) @ data) segs)"

definition frameable :: "segments \<Rightarrow> bool" where
  "frameable segs \<longleftrightarrow> (\<forall>(name, data) \<in> set segs. fits name (length data))"

lemma frames_append [simp]: "frames (xs @ ys) = frames xs @ frames ys"
  by (simp add: frames_def)

lemma frames_single [simp]: "frames [(name, data)] = header_of name (length data) @ data"
  by (simp add: frames_def)

lemma frameable_simps [simp]: "frameable []" "frameable (xs @ ys) \<longleftrightarrow> frameable xs \<and> frameable ys"
  "frameable [(name, data)] \<longleftrightarrow> fits name (length data)"
  by (auto simp: frameable_def)

lemma prefix_walk_frames:
  assumes "frameable segs" "s \<notin> fst ` set segs" "fits s n" "n \<le> length data"
  shows "prefix_walk (segs @ (s, data) # rest) (s, n) digest
    = Inr (digest @ frames segs @ header_of s n @ take n data)"
  using assms
proof (induction segs arbitrary: digest)
  case Nil
  have "seg_header s n = Inr (header_of s n)" using Nil.prems(3) by (simp add: seg_header_Inr)
  then show ?case using Nil.prems(4) by (simp add: Let_def frames_def min_def)
next
  case (Cons seg segs)
  obtain name content where seg: "seg = (name, content)" by (cases seg)
  have "seg_header name (length content) = Inr (header_of name (length content))"
    using Cons.prems(1) seg by (simp add: seg_header_Inr frameable_def)
  moreover have "frameable segs" using Cons.prems(1) by (simp add: frameable_def)
  moreover have "name \<noteq> s" "s \<notin> fst ` set segs" using Cons.prems(2) seg by auto
  ultimately show ?case using Cons.IH Cons.prems seg by (simp add: Let_def frames_def)
qed


section \<open>A certified re-read\<close>

text \<open>Bytes that are not the fed ones but have their length and digest: what the witness cannot tell apart.\<close>

definition same_digest :: "(string \<Rightarrow> string) \<Rightarrow> string \<Rightarrow> string \<Rightarrow> bool" where
  "same_digest H r d \<longleftrightarrow> length r = length d \<and> H r = H d"

lemma same_digest_refl [simp]: "same_digest H d d"
  by (simp add: same_digest_def)

definition certified :: "(string \<Rightarrow> string) \<Rightarrow> segments \<Rightarrow> segments \<Rightarrow> bool" where
  "certified H segs fed = list_all2 (\<lambda>(n, r) (m, d). n = m \<and> same_digest H r d) segs fed"

lemma certified_Nil [simp]: "certified H [] []"
  by (simp add: certified_def)

lemma certified_append: "certified H xs ys \<Longrightarrow> certified H xs' ys' \<Longrightarrow> certified H (xs @ xs') (ys @ ys')"
  by (simp add: certified_def list_all2_appendI)

lemma certified_single: "same_digest H r d \<Longrightarrow> certified H [(n, r)] [(n, d)]"
  by (simp add: certified_def)

lemma certified_names: "certified H xs ys \<Longrightarrow> map fst xs = map fst ys"
  unfolding certified_def by (induction rule: list_all2_induct) auto

lemma certified_refl: "certified H xs xs"
  by (simp add: certified_def list_all2_refl split: prod.splits)

lemma rehash_loop_step:
  assumes "pos < consumed" "h pos = Some bytes" "take (min REREAD_CHUNK (consumed - pos)) bytes = chunk" "chunk \<noteq> []"
  shows "rehash_loop h offset consumed pos digest raw = rehash_loop h offset consumed (pos + length chunk)
    (if pos < offset then digest @ take (offset - pos) chunk else digest) (raw @ chunk)"
  unfolding rehash_loop.simps [of h offset consumed pos] assms(2,3) option.case Let_def
  using assms(1,4) by (simp only: if_True if_False)

lemma rehash_loop_spec:
  assumes "rehash_loop h offset consumed pos digest raw = Inr (digest', raw')" "length raw = pos" "pos \<le> consumed"
  shows "length raw' = consumed \<and> take pos raw' = raw
    \<and> digest' = digest @ take (offset - pos) (drop pos raw')"
  using assms
proof (induction h offset consumed pos digest raw rule: rehash_loop.induct)
  case (1 h offset consumed pos digest raw)
  show ?case
  proof (cases "pos < consumed")
    case False
    then show ?thesis using "1.prems" by (subst (asm) rehash_loop.simps) simp
  next
    case True
    obtain bytes where b: "h pos = Some bytes"
      using "1.prems"(1) True by (subst (asm) rehash_loop.simps) (auto split: option.splits)
    let ?chunk = "take (min REREAD_CHUNK (consumed - pos)) bytes"
    have ne: "?chunk \<noteq> []" using "1.prems"(1) True b by (subst (asm) rehash_loop.simps) (auto simp: Let_def split: if_splits)
    have step: "rehash_loop h offset consumed (pos + length ?chunk)
        (if pos < offset then digest @ take (offset - pos) ?chunk else digest) (raw @ ?chunk) = Inr (digest', raw')"
      using "1.prems"(1) unfolding rehash_loop_step [where h = h and pos = pos, OF True b refl ne] .
    have "length (raw @ ?chunk) = pos + length ?chunk" "pos + length ?chunk \<le> consumed"
      using "1.prems"(2) True by auto
    from "1.IH" [OF True b refl ne step this]
    have r: "length raw' = consumed" "take (pos + length ?chunk) raw' = raw @ ?chunk"
      "digest' = (if pos < offset then digest @ take (offset - pos) ?chunk else digest)
        @ take (offset - (pos + length ?chunk)) (drop (pos + length ?chunk) raw')" by blast+
    have split: "drop pos raw' = ?chunk @ drop (pos + length ?chunk) raw'"
    proof -
      have "raw' = (raw @ ?chunk) @ drop (pos + length ?chunk) raw'" using r(2) by (metis append_take_drop_id)
      then show ?thesis using "1.prems"(2) by (metis append.assoc append_eq_conv_conj)
    qed
    have "take pos raw' = raw" using r(2) "1.prems"(2)
      by (metis append_eq_conv_conj le_add1 min.absorb_iff1 take_take)
    moreover have "digest' = digest @ take (offset - pos) (drop pos raw')"
      unfolding split r(3) by (auto simp: diff_diff_left)
    ultimately show ?thesis using r(1) by blast
  qed
qed

lemma verified_rehash_spec:
  assumes "verified_rehash H opener before name offset (length fed) (H fed) = Inr digest"
  shows "\<exists>r. same_digest H r fed \<and> offset \<le> length r \<and> fits name offset
    \<and> digest = before @ header_of name offset @ take offset r"
proof -
  obtain header where h: "seg_header name offset = Inr header" "offset \<le> length fed"
    using assms by (auto simp: verified_rehash_def rbind_Inr_iff split: if_splits)
  then have f: "fits name offset" "header = header_of name offset" by (auto simp: seg_header_Inr)
  show ?thesis
  proof (cases "fed = []")
    case True
    then show ?thesis using assms h f by (intro exI [of _ "[]"]) (simp add: verified_rehash_def Let_def)
  next
    case False
    then obtain open_segment raw where o: "opener = Some open_segment"
      "rehash_loop (open_segment name) offset (length fed) 0 (before @ header) [] = Inr (digest, raw)" "H raw = H fed"
      using assms h by (auto simp: verified_rehash_def Let_def rbind_Inr_iff split: option.splits if_splits)
    from rehash_loop_spec [OF o(2)] show ?thesis using o(3) h f
      by (intro exI [of _ raw]) (simp add: same_digest_def)
  qed
qed


section \<open>The pass\<close>

text \<open>What the streaming loop does with an accumulator; each step sees the opener of its own time.\<close>

datatype pass_op = Begin opener string "(string \<times> nat) option" nat | Feed string | Ask opener "(string \<times> nat) option"

fun pass_step :: "(string \<Rightarrow> string) \<Rightarrow> accumulator \<Rightarrow> pass_op \<Rightarrow> evidence_error + accumulator" where
  "pass_step H a (Begin opener name boundary declared) = begin_segment H opener name boundary declared a"
| "pass_step H a (Feed data) = extend data a"
| "pass_step H a (Ask opener hw) = rbind (digest_at H opener hw a) (\<lambda>(_, a'). Inr a')"

text \<open>What has been fed: the closed segments and the open one.\<close>

fun feed :: "segments \<times> (string \<times> string) option \<Rightarrow> pass_op \<Rightarrow> segments \<times> (string \<times> string) option" where
  "feed (closed, current) (Begin opener name boundary declared)
     = (closed @ (case current of None \<Rightarrow> [] | Some c \<Rightarrow> [c]), Some (name, []))"
| "feed (closed, current) (Feed data) = (closed, map_option (\<lambda>(name, d). (name, d @ data)) current)"
| "feed (closed, current) (Ask opener hw) = (closed, current)"

definition fed_segments :: "pass_op list \<Rightarrow> segments" where
  "fed_segments ops = (case foldl feed ([], None) ops of (closed, current) \<Rightarrow>
     closed @ (case current of None \<Rightarrow> [] | Some c \<Rightarrow> [c]))"

text \<open>A running hash describes certified bytes of the closed segments; so does the state a boundary keeps.\<close>

definition describes :: "(string \<Rightarrow> string) \<Rightarrow> segments \<Rightarrow> string \<Rightarrow> bool" where
  "describes H closed running \<longleftrightarrow> (\<exists>segs. certified H segs closed \<and> frameable segs \<and> running = frames segs)"

definition boundary_ok :: "(string \<Rightarrow> string) \<Rightarrow> segments \<Rightarrow> string \<times> nat
    \<Rightarrow> string \<times> string option \<times> nat \<times> string \<Rightarrow> bool" where
  "boundary_ok H closed key entry = (case (key, entry) of ((name, offset), (before, final, consumed, witness)) \<Rightarrow>
     \<exists>earlier data later. closed = earlier @ (name, data) # later \<and> describes H earlier before
       \<and> consumed = length data \<and> witness = H data
       \<and> (\<forall>d. final = Some d \<longrightarrow> offset = length data \<and> fits name offset \<and> d = before @ header_of name offset @ data))"

definition pass_inv :: "(string \<Rightarrow> string) \<Rightarrow> segments \<times> (string \<times> string) option \<Rightarrow> accumulator \<Rightarrow> bool" where
  "pass_inv H st a = (case st of (closed, current) \<Rightarrow> ac_poisoned a = None \<longrightarrow>
     describes H closed (ac_running a)
     \<and> (case current of None \<Rightarrow> ac_name a = None \<and> closed = []
        | Some (name, data) \<Rightarrow> ac_name a = Some name \<and> ac_witness a = data \<and> ac_fed a = length data
            \<and> fits name (ac_declared a)
            \<and> ac_segment a = ac_running a @ header_of name (ac_declared a) @ data)
     \<and> (\<forall>key entry. dget (ac_boundaries a) key = Some entry \<longrightarrow> boundary_ok H closed key entry))"

lemma describes_snoc:
  "describes H closed running \<Longrightarrow> same_digest H r data \<Longrightarrow> fits name (length r)
    \<Longrightarrow> describes H (closed @ [(name, data)]) (running @ header_of name (length r) @ r)"
  unfolding describes_def
proof (elim exE conjE)
  fix segs assume "same_digest H r data" "fits name (length r)" "certified H segs closed" "frameable segs" "running = frames segs"
  then show "\<exists>segs. certified H segs (closed @ [(name, data)]) \<and> frameable segs
      \<and> running @ header_of name (length r) @ r = frames segs"
    by (intro exI [of _ "segs @ [(name, r)]"]) (simp add: certified_append certified_single)
qed

lemma boundary_ok_append: "boundary_ok H closed key entry \<Longrightarrow> boundary_ok H (closed @ rest) key entry"
proof -
  assume ok: "boundary_ok H closed key entry"
  obtain name offset before final consumed witness where ke: "key = (name, offset)" "entry = (before, final, consumed, witness)"
    by (metis prod_cases4 surj_pair)
  then obtain earlier data later where "closed = earlier @ (name, data) # later" and
    rest: "describes H earlier before \<and> consumed = length data \<and> witness = H data
      \<and> (\<forall>d. final = Some d \<longrightarrow> offset = length data \<and> fits name offset \<and> d = before @ header_of name offset @ data)"
    using ok unfolding boundary_ok_def by auto
  then have "closed @ rest = earlier @ (name, data) # (later @ rest)" by simp
  then show ?thesis unfolding boundary_ok_def ke prod.case using rest by blast
qed

lemma drop_oldest_dget: "dget (fst (drop_oldest b order)) key = Some entry \<Longrightarrow> dget b key = Some entry"
proof (induction b order rule: drop_oldest.induct)
  case (1 b order)
  then show ?case
    by (subst (asm) (2) drop_oldest.simps) (auto simp: dget_dwithout split: if_splits)
qed

lemma register_boundary_frame:
  "register_boundary H key a = a\<lparr>ac_boundaries := ac_boundaries (register_boundary H key a),
     ac_order := ac_order (register_boundary H key a)\<rparr>"
  by (simp add: register_boundary_def Let_def split: prod.splits)

lemma register_boundary_dget:
  assumes "dget (ac_boundaries (register_boundary H key a)) k = Some entry"
  shows "dget (ac_boundaries a) k = Some entry
    \<or> (ac_name a = Some (fst key) \<and> k = key \<and> entry = (ac_running a,
        if streamed_end a (snd key) then Some (ac_segment a) else None, ac_fed a, H (ac_witness a)))"
proof -
  let ?entry = "(ac_running a, if streamed_end a (snd key) then Some (ac_segment a) else None, ac_fed a, H (ac_witness a))"
  let ?b = "dset key ?entry (ac_boundaries a)"
  show ?thesis
  proof (cases "ac_name a \<noteq> Some (fst key) \<or> dget (ac_boundaries a) key \<noteq> None")
    case False
    then have "ac_boundaries (register_boundary H key a) = fst (drop_oldest ?b (ac_order a @ [key]))"
      by (simp add: register_boundary_def Let_def split: prod.splits)
    then have "dget ?b k = Some entry" using assms drop_oldest_dget by metis
    then show ?thesis using False by (auto simp: dget_dset split: if_splits)
  qed (use assms in \<open>simp add: register_boundary_def\<close>)
qed


lemma pass_inv_boundary:
  "pass_inv H (closed, current) a \<Longrightarrow> ac_poisoned a = None \<Longrightarrow> dget (ac_boundaries a) key = Some entry
    \<Longrightarrow> boundary_ok H closed key entry"
  unfolding pass_inv_def prod.case by blast

lemma completed_segment_describes:
  assumes "completed_segment H opener name a = Inr (running, None)"
    and "describes H closed (ac_running a)" "ac_fed a = length data" "ac_witness a = data"
    "fits name (ac_declared a)" "ac_segment a = ac_running a @ header_of name (ac_declared a) @ data"
  shows "describes H (closed @ [(name, data)]) running"
proof (cases "ac_fed a = ac_declared a \<or> ac_poisoned a \<noteq> None")
  case True
  then have "ac_fed a = ac_declared a" "running = ac_segment a"
    using assms(1) by (auto simp: completed_segment_def)
  then show ?thesis using describes_snoc [OF assms(2) same_digest_refl, of name data] assms(3,5,6) by simp
next
  case False
  then have "verified_rehash H opener (ac_running a) name (length data) (length data) (H data) = Inr running"
    using assms(1,3,4) by (auto simp: completed_segment_def split: sum.splits if_splits)
  then obtain r where "same_digest H r data" "length data \<le> length r" "fits name (length data)"
    "running = ac_running a @ header_of name (length data) @ take (length data) r"
    using verified_rehash_spec by blast
  then show ?thesis using describes_snoc [OF assms(2), of r data name] by (simp add: same_digest_def)
qed

lemma begin_segment_inv:
  assumes inv: "pass_inv H (closed, current) a"
    and step: "begin_segment H opener name boundary declared a = Inr a'"
  shows "pass_inv H (feed (closed, current) (Begin opener name boundary declared)) a'"
proof -
  define b where "b = (case boundary of None \<Rightarrow> a | Some key \<Rightarrow> register_boundary H key a)"
  have frame: "ac_running b = ac_running a" "ac_name b = ac_name a" "ac_segment b = ac_segment a"
    "ac_declared b = ac_declared a" "ac_fed b = ac_fed a" "ac_witness b = ac_witness a" "ac_poisoned b = ac_poisoned a"
    unfolding b_def by (cases boundary; simp; subst register_boundary_frame; simp)+
  obtain running poisoned header where r:
    "(case ac_name b of None \<Rightarrow> Inr (ac_running b, ac_poisoned b) | Some c \<Rightarrow> completed_segment H opener c b) = Inr (running, poisoned)"
    "seg_header name declared = Inr header"
    "a' = b\<lparr>ac_running := running, ac_poisoned := poisoned, ac_name := Some name, ac_declared := declared,
       ac_fed := 0, ac_witness := [], ac_segment := running @ header\<rparr>"
    using step unfolding begin_segment_def Let_def b_def [symmetric] by (auto simp: rbind_Inr_iff)
  let ?closed = "closed @ (case current of None \<Rightarrow> [] | Some c \<Rightarrow> [c])"
  show ?thesis
  proof (cases "poisoned = None")
    case False
    then have "ac_poisoned a' \<noteq> None" using r(3) by simp
    then show ?thesis by (simp add: pass_inv_def del: not_None_eq)
  next
    case True
    have clean: "ac_poisoned a = None"
      using r(1) True frame by (auto simp: completed_segment_def split: option.splits sum.splits if_splits)
    have run: "describes H ?closed running"
    proof (cases current)
      case None
      then show ?thesis using inv clean r(1) frame by (auto simp: pass_inv_def)
    next
      case (Some c)
      obtain n d where c: "c = (n, d)" by (cases c)
      have i: "describes H closed (ac_running b)" "ac_fed b = length d" "ac_witness b = d"
        "fits n (ac_declared b)" "ac_segment b = ac_running b @ header_of n (ac_declared b) @ d" "ac_name b = Some n"
        using inv clean frame Some c by (simp_all add: pass_inv_def)
      have "completed_segment H opener n b = Inr (running, None)" using r(1) i(6) True by simp
      from completed_segment_describes [OF this i(1-5)] show ?thesis using Some c by simp
    qed
    moreover have "boundary_ok H ?closed key entry" if e: "dget (ac_boundaries a') key = Some entry" for key entry
    proof (cases "dget (ac_boundaries a) key = Some entry")
      case True
      show ?thesis by (rule boundary_ok_append [OF pass_inv_boundary [OF inv clean True]])
    next
      case False
      have "ac_boundaries a' = ac_boundaries b" using r(3) by simp
      then have new: "ac_name a = Some (fst key)" "entry = (ac_running a,
          if streamed_end a (snd key) then Some (ac_segment a) else None, ac_fed a, H (ac_witness a))"
      proof -
        obtain k where k: "boundary = Some k" using e False \<open>ac_boundaries a' = ac_boundaries b\<close>
          unfolding b_def by (cases boundary) auto
        then have "dget (ac_boundaries (register_boundary H k a)) key = Some entry"
          using e \<open>ac_boundaries a' = ac_boundaries b\<close> by (simp add: b_def)
        from register_boundary_dget [OF this] False show "ac_name a = Some (fst key)" "entry = (ac_running a,
          if streamed_end a (snd key) then Some (ac_segment a) else None, ac_fed a, H (ac_witness a))" by auto
      qed
      then obtain d where c: "current = Some (fst key, d)" using inv clean by (auto simp: pass_inv_def split: option.splits)
      then have "closed @ [(fst key, d)] = closed @ (fst key, d) # []" "describes H closed (ac_running a)"
        "ac_fed a = length d" "ac_witness a = d" "fits (fst key) (ac_declared a)"
        "ac_segment a = ac_running a @ header_of (fst key) (ac_declared a) @ d"
        using inv clean by (simp_all add: pass_inv_def)
      then show ?thesis unfolding boundary_ok_def new(2) c
        by (cases key) (fastforce simp: streamed_end_def)
    qed
    ultimately show ?thesis using r(2,3) by (simp add: pass_inv_def seg_header_Inr)
  qed
qed

lemma digest_at_frame:
  assumes "digest_at H opener hw a = Inr (d, a')"
  shows "\<exists>x y. a' = a\<lparr>ac_hashed := x, ac_computed := y\<rparr>"
proof (cases hw)
  case None
  then have "a' = a\<lparr>ac_hashed := ac_hashed a, ac_computed := ac_computed a\<rparr>" using assms by (simp add: digest_at_def)
  then show ?thesis by blast
qed (use assms in \<open>auto simp: digest_at_def rbind_Inr_iff split: option.splits prod.splits\<close>)

lemma pass_inv_counters [simp]: "pass_inv H st (a\<lparr>ac_hashed := x, ac_computed := y\<rparr>) = pass_inv H st a"
  by (cases st; cases "snd st") (auto simp: pass_inv_def)

lemma pass_step_inv:
  assumes "pass_inv H st a" "pass_step H a op = Inr a'"
  shows "pass_inv H (feed st op) a'"
proof (cases op)
  case (Begin opener name boundary declared)
  then show ?thesis using assms begin_segment_inv [of H "fst st" "snd st" a] by simp
next
  case (Feed data)
  then show ?thesis using assms
    by (cases st) (auto simp: pass_inv_def extend_def split: option.splits if_splits)
next
  case (Ask opener hw)
  then obtain d where "digest_at H opener hw a = Inr (d, a')" using assms(2) by (auto simp: rbind_Inr_iff)
  from digest_at_frame [OF this] show ?thesis using assms(1) Ask by (cases st) auto
qed

lemma pass_inv_run:
  assumes "rfold (pass_step H) new_accumulator ops = Inr a"
  shows "pass_inv H (foldl feed ([], None) ops) a"
proof -
  have "pass_inv H (foldl feed st ops) a" if "pass_inv H st b" "rfold (pass_step H) b ops = Inr a" for st b
    using that
  proof (induction ops arbitrary: st b)
    case (Cons op ops)
    obtain c where c: "pass_step H b op = Inr c" "rfold (pass_step H) c ops = Inr a"
      using Cons.prems(2) by (auto simp: rbind_Inr_iff)
    show ?case using Cons.IH [OF pass_step_inv [OF Cons.prems(1) c(1)] c(2)] by simp
  qed simp
  moreover have "pass_inv H ([], None) new_accumulator"
    by (simp add: pass_inv_def new_accumulator_def describes_def)
      (rule exI [of _ "[]"], simp add: frames_def)
  ultimately show ?thesis using assms by blast
qed


lemma digest_of_describes:
  assumes inv: "pass_inv H (closed, current) a" and clean: "ac_poisoned a = None"
    and ask: "digest_of H opener (segment, offset) a = Inr digest"
  shows "\<exists>earlier data later segs r. closed @ (case current of None \<Rightarrow> [] | Some c \<Rightarrow> [c]) = earlier @ (segment, data) # later
    \<and> certified H segs earlier \<and> frameable segs \<and> same_digest H r data \<and> offset \<le> length r \<and> fits segment offset
    \<and> digest = frames segs @ header_of segment offset @ take offset r"
proof (cases "ac_name a = Some segment")
  case True
  then obtain data where c: "current = Some (segment, data)" using inv clean by (auto simp: pass_inv_def split: option.splits)
  then have i: "describes H closed (ac_running a)" "ac_witness a = data" "ac_fed a = length data" "fits segment (ac_declared a)"
    "ac_segment a = ac_running a @ header_of segment (ac_declared a) @ data"
    using inv clean by (simp_all add: pass_inv_def)
  then obtain segs where segs: "certified H segs closed" "frameable segs" "ac_running a = frames segs"
    by (auto simp: describes_def)
  obtain r where "same_digest H r data \<and> offset \<le> length r \<and> fits segment offset
      \<and> digest = ac_running a @ header_of segment offset @ take offset r"
  proof (cases "streamed_end a offset")
    case True': True
    then show ?thesis using ask True i by (intro that [of data]) (auto simp: digest_of_def streamed_end_def)
  next
    case False
    then have "verified_rehash H opener (ac_running a) segment offset (length data) (H data) = Inr digest"
      using ask True i by (simp add: digest_of_def)
    from verified_rehash_spec [OF this] show ?thesis using that by blast
  qed
  then show ?thesis using segs c by (intro exI [of _ closed] exI [of _ data] exI [of _ "[]"] exI [of _ segs] exI [of _ r]) simp
next
  case False
  then obtain before final consumed witness where e: "dget (ac_boundaries a) (segment, offset) = Some (before, final, consumed, witness)"
    "(case final of Some d \<Rightarrow> Inr d | None \<Rightarrow> verified_rehash H opener before segment offset consumed witness) = Inr digest"
    using ask by (auto simp: digest_of_def split: option.splits)
  obtain earlier data later where b: "closed = earlier @ (segment, data) # later" "describes H earlier before"
    "consumed = length data" "witness = H data"
    "\<forall>d. final = Some d \<longrightarrow> offset = length data \<and> fits segment offset \<and> d = before @ header_of segment offset @ data"
    using pass_inv_boundary [OF inv clean e(1)] unfolding boundary_ok_def by auto
  obtain segs where segs: "certified H segs earlier" "frameable segs" "before = frames segs"
    using b(2) by (auto simp: describes_def)
  obtain r where "same_digest H r data \<and> offset \<le> length r \<and> fits segment offset
      \<and> digest = before @ header_of segment offset @ take offset r"
  proof (cases final)
    case None
    then have "verified_rehash H opener before segment offset (length data) (H data) = Inr digest"
      using e(2) b(3,4) by simp
    from verified_rehash_spec [OF this] show ?thesis using that by blast
  next
    case (Some d)
    then show ?thesis using e(2) b(5) by (intro that [of data]) auto
  qed
  then show ?thesis using segs b(1)
    by (intro exI [of _ earlier] exI [of _ data] exI [of _ "later @ (case current of None \<Rightarrow> [] | Some c \<Rightarrow> [c])"] exI [of _ segs]
        exI [of _ r]) simp
qed

text \<open>C11: The accumulator refines re-reading the prefix: in every pass over segments of distinct names, with re-reads that
  may see changed files, a digest it returns is \<open>journal_prefix_hash\<close> at that offset over segments whose bytes have
  the length and the digest of what the pass fed. Where no digest is met by two contents, those are the fed bytes.\<close>

theorem prefix_evidence_sound:
  assumes "rfold (pass_step H) new_accumulator ops = Inr a" "digest_at H opener (Some hw) a = Inr (d, a')"
    and "distinct (map fst (fed_segments ops))"
  shows "\<exists>segs. certified H segs (fed_segments ops) \<and> journal_prefix_hash H segs (Some hw) = Inr d"
proof -
  obtain segment offset where hw: "hw = (segment, offset)" by (cases hw)
  obtain closed current where st: "foldl feed ([], None) ops = (closed, current)" by fastforce
  have inv: "pass_inv H (closed, current) a" using pass_inv_run [OF assms(1)] st by simp
  have clean: "ac_poisoned a = None" using assms(2) hw by (auto simp: digest_at_def split: option.splits)
  obtain digest where "digest_of H opener (segment, offset) a = Inr digest" and d: "d = Some (''sha256:'' @ H digest)"
    using assms(2) hw clean by (auto simp: digest_at_def rbind_Inr_iff)
  from digest_of_describes [OF inv clean this(1)]
  obtain earlier data later segs r where f: "fed_segments ops = earlier @ (segment, data) # later"
    and c: "certified H segs earlier" "frameable segs" "same_digest H r data" "offset \<le> length r" "fits segment offset"
    and g: "digest = frames segs @ header_of segment offset @ take offset r"
    unfolding fed_segments_def st prod.case by blast
  have "segment \<notin> fst ` set segs"
    using assms(3) certified_names [OF c(1)] unfolding f by (metis distinct_append list.set_intros(1) list.set_map
        disjoint_iff map_append list.simps(9) fst_conv)
  then have "prefix_walk (segs @ (segment, r) # later) (segment, offset) [] = Inr digest"
    using c g by (simp add: prefix_walk_frames)
  then have "journal_prefix_hash H (segs @ (segment, r) # later) (Some hw) = Inr d"
    by (simp add: journal_prefix_hash_def hw d)
  moreover have "certified H (segs @ (segment, r) # later) (fed_segments ops)"
    unfolding f using certified_append [OF c(1) certified_append [OF certified_single [OF c(3), of segment] certified_refl [of H later]]]
    by simp
  ultimately show ?thesis by blast
qed


section \<open>A concrete pass\<close>

text \<open>Two segments; the boundary of the first is asked after the second has begun, then the middle of the second,
  which is read again.\<close>

definition sample_pass :: "pass_op list" where
  "sample_pass = [Begin None ''a'' None 2, Feed ''x'', Feed ''y'', Begin None ''b'' (Some (''a'', 2)) 3, Feed ''zw'',
     Ask None (Some (''a'', 2))]"

definition sample_opener :: opener where
  "sample_opener = Some (\<lambda>name pos. if name = ''b'' then Some (drop pos ''zwq'') else None)"

definition sample_end :: accumulator where
  "sample_end = \<lparr>ac_running = frames [(''a'', ''xy'')], ac_name = Some ''b'',
     ac_segment = frames [(''a'', ''xy'')] @ header_of ''b'' 3 @ ''zw'', ac_declared = 3, ac_fed = 2, ac_witness = ''zw'',
     ac_poisoned = None, ac_boundaries = [((''a'', 2), ([], Some (frames [(''a'', ''xy'')]), 2, ''xy''))],
     ac_order = [(''a'', 2)], ac_hashed = 2, ac_computed = 1\<rparr>"

lemma sample_header: "n < 100 \<Longrightarrow> seg_header [c] n = Inr (header_of [c] n)"
  by (simp add: seg_header_Inr fits_def)

lemma sample_run: "rfold (pass_step (\<lambda>s. s)) new_accumulator sample_pass = Inr sample_end"
  by (simp add: sample_pass_def sample_end_def new_accumulator_def begin_segment_def extend_def register_boundary_def
      sample_header completed_segment_def streamed_end_def drop_oldest.simps MAX_BOUNDARIES_def digest_at_def digest_of_def
      frames_def Let_def numeral_2_eq_2 [symmetric] del: One_nat_def)

definition sample_digest_text :: string where
  "sample_digest_text = ''sha256:'' @ frames [(''a'', ''xy''), (''b'', ''z'')]"

lemma sample_ask:
  "digest_at (\<lambda>s. s) sample_opener (Some (''b'', 1)) sample_end
    = Inr (Some sample_digest_text, sample_end\<lparr>ac_hashed := 3, ac_computed := 2\<rparr>)"
  by (simp add: sample_end_def digest_at_def digest_of_def streamed_end_def verified_rehash_def sample_opener_def
      sample_header rehash_loop.simps REREAD_CHUNK_def sample_digest_text_def frames_def Let_def)

theorem prefix_evidence_sound_witness:
  "\<exists>segs. certified (\<lambda>s. s) segs (fed_segments sample_pass)
    \<and> journal_prefix_hash (\<lambda>s. s) segs (Some (''b'', 1)) = Inr (Some sample_digest_text)"
  by (rule prefix_evidence_sound [OF sample_run sample_ask]) (simp add: fed_segments_def sample_pass_def)

text \<open>A file that changed since the pass read it is refused.\<close>

lemma sample_refused:
  "digest_at (\<lambda>s. s) (Some (\<lambda>name pos. Some (drop pos ''qwq''))) (Some (''b'', 1)) sample_end = Inl SegmentChanged"
  by (simp add: sample_end_def digest_at_def digest_of_def streamed_end_def verified_rehash_def
      sample_header rehash_loop.simps REREAD_CHUNK_def Let_def)

end
