(* ===== verification/Journal_Router.thy ===== *)
theory Journal_Router
  imports Py_Json
begin

text \<open>
  \<open>bin/_lib_journal_router.py\<close>: the slot a journal record takes in the selector's input and
  \<open>LastSeenAccumulator\<close>, which folds the stamps of the records and merges the partial folds of segments. The time
  \<open>at\<close> of a record is a string, as every writer leaves it, and times compare as strings. The interface of an
  accumulator whose partial states merge is the locale \<open>mergeable\<close>.
\<close>

section \<open>Accumulators that merge\<close>

text \<open>A state absorbs contributions one by one; \<open>view\<close> is what its client reads of it and \<open>ok\<close> its invariant.\<close>

locale mergeable =
  fixes absorb :: "'s \<Rightarrow> 'c \<Rightarrow> 's" and merge :: "'s \<Rightarrow> 's \<Rightarrow> 's" and init :: 's and view :: "'s \<Rightarrow> 'v"
    and ok :: "'s \<Rightarrow> bool"
  assumes view_absorb: "view s = view t \<Longrightarrow> view (absorb s c) = view (absorb t c)"
    and merge_init: "view (merge s init) = view s"
    and ok_init: "ok init" and ok_absorb: "ok s \<Longrightarrow> ok (absorb s c)"
    and merge_absorb: "ok t \<Longrightarrow> view (merge s (absorb t c)) = view (absorb (merge s t) c)"
begin

lemma view_foldl: "view s = view t \<Longrightarrow> view (foldl absorb s cs) = view (foldl absorb t cs)"
proof (induction cs arbitrary: s t)
  case (Cons c cs)
  have "view (foldl absorb (absorb s c) cs) = view (foldl absorb (absorb t c) cs)"
    by (rule Cons.IH) (rule view_absorb [OF Cons.prems])
  then show ?case by simp
qed simp

lemma ok_foldl: "ok s \<Longrightarrow> ok (foldl absorb s cs)"
  by (induction cs arbitrary: s) (simp_all add: ok_absorb)

lemma merge_foldl: "view (merge s (foldl absorb init cs)) = view (foldl absorb s cs)"
proof (induction cs rule: rev_induct)
  case (snoc c cs)
  have "view (merge s (absorb (foldl absorb init cs) c)) = view (absorb (merge s (foldl absorb init cs)) c)"
    by (rule merge_absorb) (rule ok_foldl [OF ok_init])
  also have "\<dots> = view (absorb (foldl absorb s cs) c)" by (rule view_absorb [OF snoc])
  finally show ?case by simp
qed (simp add: merge_init)

end

locale commutative_mergeable = mergeable +
  assumes absorb_commute: "view (absorb (absorb s c) d) = view (absorb (absorb s d) c)"
begin

lemma absorb_foldl: "view (foldl absorb (absorb s c) cs) = view (absorb (foldl absorb s cs) c)"
proof (induction cs arbitrary: s)
  case (Cons d cs)
  have "view (foldl absorb (absorb (absorb s c) d) cs) = view (foldl absorb (absorb (absorb s d) c) cs)"
    by (rule view_foldl) (rule absorb_commute)
  also have "\<dots> = view (absorb (foldl absorb (absorb s d) cs) c)" by (rule Cons.IH)
  finally show ?case by simp
qed simp

lemma foldl_mset: "mset cs = mset ds \<Longrightarrow> view (foldl absorb s cs) = view (foldl absorb s ds)"
proof (induction cs arbitrary: ds s)
  case (Cons c cs)
  then have "c \<in> set ds" by (metis list.set_intros(1) mset_eq_setD)
  then obtain xs ys where ds: "ds = xs @ c # ys" by (meson split_list)
  then have "mset cs = mset (xs @ ys)" using Cons.prems by simp
  from Cons.IH [OF this, of "absorb s c"]
  have "view (foldl absorb (absorb s c) cs) = view (foldl absorb (foldl absorb (absorb s c) xs) ys)" by simp
  also have "\<dots> = view (foldl absorb (absorb (foldl absorb s xs) c) ys)"
    by (rule view_foldl) (rule absorb_foldl)
  finally show ?case using ds by simp
qed simp

lemma merge_mset: "mset (xs @ ys) = mset cs
    \<Longrightarrow> view (merge (foldl absorb init xs) (foldl absorb init ys)) = view (foldl absorb init cs)"
  unfolding merge_foldl using foldl_mset [of "xs @ ys" cs init] by simp

end

section \<open>The selector's slot\<close>

definition RETAINED_RECORD_TYPES :: "string list" where
  "RETAINED_RECORD_TYPES = [''evt'', ''correction'', ''correction_batch'', ''op'']"

datatype router_error = TypeError | AttributeError

fun hashable :: "json \<Rightarrow> bool" where
  "hashable (JArr xs) = False"
| "hashable (JObj d) = False"
| "hashable _ = True"

definition selector_slot :: "jobj \<Rightarrow> router_error + jobj option" where
  "selector_slot record = (let t = jget record ''t'' in
     if \<not> hashable t then Inl TypeError
     else Inr (if t \<in> JStr ` set RETAINED_RECORD_TYPES then Some record else None))"

section \<open>Last seen\<close>

record last_seen =
  ls_stamped :: "(string, string) dict"
  ls_claude :: "string option"
  ls_codex :: "string option"

definition new_last_seen :: last_seen where
  "new_last_seen = \<lparr>ls_stamped = [], ls_claude = None, ls_codex = None\<rparr>"

definition is_later :: "string option \<Rightarrow> string \<Rightarrow> bool" where
  "is_later previous at = (case previous of None \<Rightarrow> True | Some p \<Rightarrow> p < at)"

definition bump :: "string \<Rightarrow> string \<Rightarrow> last_seen \<Rightarrow> last_seen" where
  "bump key at s = (if is_later (dget (ls_stamped s) key) at
     then s\<lparr>ls_stamped := dset key at (ls_stamped s)\<rparr> else s)"

definition bump_claude :: "string \<Rightarrow> last_seen \<Rightarrow> last_seen" where
  "bump_claude at s = (if is_later (ls_claude s) at then s\<lparr>ls_claude := Some at\<rparr> else s)"

definition bump_codex :: "string \<Rightarrow> last_seen \<Rightarrow> last_seen" where
  "bump_codex at s = (if is_later (ls_codex s) at then s\<lparr>ls_codex := Some at\<rparr> else s)"

fun time_of :: "json \<Rightarrow> string option" where
  "time_of (JStr at) = (if at = [] then None else Some at)"
| "time_of _ = None"

definition payload_of :: "jobj \<Rightarrow> router_error + jobj" where
  "payload_of record = (case jget record ''payload'' of JObj d \<Rightarrow> Inr d
     | v \<Rightarrow> if truthy v then Inl AttributeError else Inr [])"

definition observe :: "(jobj \<Rightarrow> string) \<Rightarrow> last_seen \<Rightarrow> jobj \<Rightarrow> router_error + last_seen" where
  "observe provider_of_legacy s record = (case time_of (jget record ''at'') of None \<Rightarrow> Inr s
   | Some at \<Rightarrow>
       if nonempty_str (jget record ''account'') then Inr (bump (the_str (jget record ''account'')) at s)
       else if jget record ''t'' = JStr ''op'' then
         rbind (payload_of record) (\<lambda>payload.
           let key = jget payload ''account_key'' in
           Inr (if jget payload ''kind'' = JStr ''account_observe'' \<and> nonempty_str key then bump (the_str key) at s else s))
       else if jget record ''t'' \<noteq> JStr ''obs'' then Inr s
       else let provider = provider_of_legacy record in
         Inr (if provider = ''claude'' then bump_claude at s
              else if provider = ''codex'' then bump_codex at s else s))"

text \<open>\<open>merge(stamped, legacy_claude_at, legacy_codex_at)\<close> with the three parts of another accumulator.\<close>

definition merge_last_seen :: "last_seen \<Rightarrow> last_seen \<Rightarrow> last_seen" where
  "merge_last_seen s t =
     (let s = foldl (\<lambda>s (key, at). if key \<noteq> [] \<and> at \<noteq> [] then bump key at s else s) s (ls_stamped t);
          s = (case ls_claude t of None \<Rightarrow> s | Some at \<Rightarrow> bump_claude at s)
      in case ls_codex t of None \<Rightarrow> s | Some at \<Rightarrow> bump_codex at s)"

definition raise_to :: "string \<Rightarrow> string option \<Rightarrow> (string, string) dict \<Rightarrow> (string, string) dict" where
  "raise_to key at out = (case at of None \<Rightarrow> out
     | Some t \<Rightarrow> if is_later (dget out key) t then dset key t out else out)"

definition resolve :: "string \<Rightarrow> string \<Rightarrow> last_seen \<Rightarrow> (string, string) dict" where
  "resolve cutover_claude unattributed s =
     raise_to unattributed (ls_codex s) (raise_to cutover_claude (ls_claude s) (ls_stamped s))"


section \<open>Contributions\<close>

datatype bucket = Stamped string | LegacyClaude | LegacyCodex

type_synonym contribution = "bucket \<times> string"

text \<open>What one record contributes.\<close>

definition contribution_of :: "(jobj \<Rightarrow> string) \<Rightarrow> jobj \<Rightarrow> router_error + contribution option" where
  "contribution_of provider_of_legacy record = (case time_of (jget record ''at'') of None \<Rightarrow> Inr None
   | Some at \<Rightarrow>
       if nonempty_str (jget record ''account'') then Inr (Some (Stamped (the_str (jget record ''account'')), at))
       else if jget record ''t'' = JStr ''op'' then
         rbind (payload_of record) (\<lambda>payload.
           let key = jget payload ''account_key'' in
           Inr (if jget payload ''kind'' = JStr ''account_observe'' \<and> nonempty_str key then Some (Stamped (the_str key), at) else None))
       else if jget record ''t'' \<noteq> JStr ''obs'' then Inr None
       else Inr (let provider = provider_of_legacy record in
         if provider = ''claude'' then Some (LegacyClaude, at) else if provider = ''codex'' then Some (LegacyCodex, at) else None))"

fun absorb :: "last_seen \<Rightarrow> contribution \<Rightarrow> last_seen" where
  "absorb s (Stamped key, at) = (if key \<noteq> [] \<and> at \<noteq> [] then bump key at s else s)"
| "absorb s (LegacyClaude, at) = (if at \<noteq> [] then bump_claude at s else s)"
| "absorb s (LegacyCodex, at) = (if at \<noteq> [] then bump_codex at s else s)"

lemma time_of_Some: "time_of j = Some at \<Longrightarrow> at \<noteq> []"
  by (cases j) (auto split: if_splits)

lemma nonempty_the_str: "nonempty_str j \<Longrightarrow> the_str j \<noteq> []"
  by (cases j) auto

lemma observe_absorb: "observe provider_of_legacy s record = rbind (contribution_of provider_of_legacy record)
    (\<lambda>c. Inr (case c of None \<Rightarrow> s | Some c \<Rightarrow> absorb s c))"
  by (cases "time_of (jget record ''at'')"; cases "payload_of record")
    (auto simp: observe_def contribution_of_def Let_def dest: time_of_Some nonempty_the_str)

definition contributions :: "(jobj \<Rightarrow> string) \<Rightarrow> jobj list \<Rightarrow> contribution list" where
  "contributions provider_of_legacy records = concat (map (\<lambda>r. case contribution_of provider_of_legacy r of
     Inr (Some c) \<Rightarrow> [c] | _ \<Rightarrow> []) records)"

lemma observe_fold:
  "rfold (observe provider_of_legacy) s records = Inr t \<Longrightarrow> t = foldl absorb s (contributions provider_of_legacy records)"
proof (induction records arbitrary: s)
  case (Cons r records)
  then obtain c where "contribution_of provider_of_legacy r = Inr c"
    "rfold (observe provider_of_legacy) (case c of None \<Rightarrow> s | Some c \<Rightarrow> absorb s c) records = Inr t"
    using observe_absorb [of provider_of_legacy s r] by (auto simp: rbind_Inr_iff)
  then show ?case using Cons.IH by (cases c) (auto simp: contributions_def)
qed (simp add: contributions_def)

section \<open>The accumulator merges\<close>

text \<open>The state as its client sees it: the latest time of each bucket.\<close>

fun seen :: "last_seen \<Rightarrow> bucket \<Rightarrow> string option" where
  "seen s (Stamped key) = dget (ls_stamped s) key"
| "seen s LegacyClaude = ls_claude s"
| "seen s LegacyCodex = ls_codex s"

definition latest :: "string option \<Rightarrow> string option \<Rightarrow> string option" where
  "latest a b = (case b of None \<Rightarrow> a | Some at \<Rightarrow> if is_later a at then Some at else a)"

lemma latest_simps [simp]: "latest a None = a" "latest None b = b"
  by (simp_all add: latest_def is_later_def split: option.split)

lemma latest_assoc: "latest a (latest b c) = latest (latest a b) c"
  by (cases a; cases b; cases c) (auto simp: latest_def is_later_def)

lemma latest_commute: "latest a b = latest b a"
  by (cases a; cases b) (auto simp: latest_def is_later_def)

fun nonempty :: "contribution \<Rightarrow> bool" where
  "nonempty (Stamped key, at) \<longleftrightarrow> key \<noteq> [] \<and> at \<noteq> []"
| "nonempty (_, at) \<longleftrightarrow> at \<noteq> []"

definition gain :: "contribution \<Rightarrow> bucket \<Rightarrow> string option" where
  "gain c b = (if nonempty c \<and> fst c = b then Some (snd c) else None)"

lemma seen_absorb: "seen (absorb s c) b = latest (seen s b) (gain c b)"
proof (cases c)
  case (Pair b' at)
  then show ?thesis
    by (cases b; cases b') (auto simp: bump_def bump_claude_def bump_codex_def dget_dset gain_def latest_def)
qed

lemma absorb_seen: "seen s = seen t \<Longrightarrow> seen (absorb s c) = seen (absorb t c)"
  by (rule ext) (simp add: seen_absorb)

lemma absorb_swap: "seen (absorb (absorb s c) d) = seen (absorb (absorb s d) c)"
  by (rule ext) (metis latest_assoc latest_commute seen_absorb)

definition well_stamped :: "last_seen \<Rightarrow> bool" where
  "well_stamped s \<longleftrightarrow> wf_dict (ls_stamped s) \<and> (\<forall>(key, at) \<in> set (ls_stamped s). key \<noteq> [] \<and> at \<noteq> [])"

lemma well_stamped_absorb: "well_stamped s \<Longrightarrow> well_stamped (absorb s c)"
proof (cases c)
  case (Pair b at)
  assume w: "well_stamped s"
  have "\<forall>(k, t) \<in> set (dset key at (ls_stamped s)). k \<noteq> [] \<and> t \<noteq> []" if "key \<noteq> []" "at \<noteq> []" for key
  proof (rule ballI)
    fix p assume "p \<in> set (dset key at (ls_stamped s))"
    then have "p = (key, at) \<or> p \<in> set (ls_stamped s)"
      by (rule dset_mem)
    then show "case p of (k, t) \<Rightarrow> k \<noteq> [] \<and> t \<noteq> []" using w that by (auto simp: well_stamped_def)
  qed
  then show ?thesis using w Pair
    by (cases b) (auto simp: well_stamped_def bump_def bump_claude_def bump_codex_def)
qed

lemma merge_stamped:
  assumes "wf_dict d" "\<forall>(key, at) \<in> set d. key \<noteq> [] \<and> at \<noteq> []"
  shows "seen (foldl (\<lambda>s (key, at). if key \<noteq> [] \<and> at \<noteq> [] then bump key at s else s) s d) b
    = latest (seen s b) (case b of Stamped key \<Rightarrow> dget d key | _ \<Rightarrow> None)"
  using assms
proof (induction d arbitrary: s)
  case Nil
  then show ?case by (simp split: bucket.split)
next
  case (Cons p d)
  obtain key at where p: "p = (key, at)" by (cases p)
  have "wf_dict d" "key \<notin> set (dkeys d)" using Cons.prems(1) p by (auto simp: wf_dict_def dkeys_def)
  moreover have "bump key at s = absorb s (Stamped key, at)" using Cons.prems(2) p by simp
  ultimately show ?case using Cons p
    by (cases b) (auto simp: seen_absorb gain_def dget_None_iff [symmetric] simp del: absorb.simps seen.simps)
qed

lemma seen_merge:
  assumes "well_stamped t" "ls_claude t \<noteq> Some []" "ls_codex t \<noteq> Some []"
  shows "seen (merge_last_seen s t) b = latest (seen s b) (seen t b)"
proof -
  define u where "u = foldl (\<lambda>s (key, at). if key \<noteq> [] \<and> at \<noteq> [] then bump key at s else s) s (ls_stamped t)"
  have u: "seen u b = latest (seen s b) (case b of Stamped key \<Rightarrow> dget (ls_stamped t) key | _ \<Rightarrow> None)" for b
    unfolding u_def using assms(1) by (intro merge_stamped) (auto simp: well_stamped_def)
  show ?thesis
    unfolding merge_last_seen_def u_def [symmetric] Let_def
    using u [of b] by (cases b; cases "ls_claude t"; cases "ls_codex t")
      (auto simp: bump_claude_def bump_codex_def latest_def)
qed

interpretation seen_merge: commutative_mergeable absorb merge_last_seen new_last_seen seen
    "\<lambda>s. well_stamped s \<and> ls_claude s \<noteq> Some [] \<and> ls_codex s \<noteq> Some []"
proof unfold_locales
  fix s t :: last_seen and c d :: contribution
  show "seen s = seen t \<Longrightarrow> seen (absorb s c) = seen (absorb t c)" by (rule absorb_seen)
  show "seen (absorb (absorb s c) d) = seen (absorb (absorb s d) c)" by (rule absorb_swap)
  show "seen (merge_last_seen s new_last_seen) = seen s"
  proof (rule ext)
    fix b
    have "seen new_last_seen b = None" by (cases b) (simp_all add: new_last_seen_def)
    then show "seen (merge_last_seen s new_last_seen) b = seen s b"
      by (subst seen_merge) (simp_all add: new_last_seen_def well_stamped_def)
  qed
  show "well_stamped new_last_seen \<and> ls_claude new_last_seen \<noteq> Some [] \<and> ls_codex new_last_seen \<noteq> Some []"
    by (simp add: new_last_seen_def well_stamped_def)
  assume ok: "well_stamped t \<and> ls_claude t \<noteq> Some [] \<and> ls_codex t \<noteq> Some []"
  show ok': "well_stamped (absorb t c) \<and> ls_claude (absorb t c) \<noteq> Some [] \<and> ls_codex (absorb t c) \<noteq> Some []"
    using ok well_stamped_absorb [of t c]
    by (cases c; cases "fst c") (auto simp: bump_def bump_claude_def bump_codex_def)
  show "seen (merge_last_seen s (absorb t c)) = seen (absorb (merge_last_seen s t) c)"
    using ok ok' by (intro ext) (simp add: seen_merge seen_absorb latest_assoc del: absorb.simps)
qed


section \<open>The latest time of each account\<close>

text \<open>The account a bucket is resolved to.\<close>

fun account_of :: "string \<Rightarrow> string \<Rightarrow> bucket \<Rightarrow> string" where
  "account_of cutover_claude unattributed (Stamped key) = key"
| "account_of cutover_claude unattributed LegacyClaude = cutover_claude"
| "account_of cutover_claude unattributed LegacyCodex = unattributed"

definition is_latest :: "string set \<Rightarrow> string option \<Rightarrow> bool" where
  "is_latest ats t = (case t of None \<Rightarrow> ats = {} | Some at \<Rightarrow> at \<in> ats \<and> (\<forall>u \<in> ats. u \<le> at))"

lemma is_latest_insert: "is_latest ats t \<Longrightarrow> is_latest (insert at ats) (latest t (Some at))"
  by (cases t) (auto simp: is_latest_def latest_def is_later_def not_less)

lemma is_latest_union: "is_latest xs s \<Longrightarrow> is_latest ys t \<Longrightarrow> is_latest (xs \<union> ys) (latest s t)"
  by (cases s; cases t) (auto simp: is_latest_def latest_def is_later_def not_less dest: order.trans [OF _ order.strict_implies_order])

definition ats_of :: "contribution list \<Rightarrow> bucket \<Rightarrow> string set" where
  "ats_of cs b = {at. (b, at) \<in> set cs}"

lemma seen_latest:
  "\<forall>c \<in> set cs. nonempty c \<Longrightarrow> is_latest (ats_of cs b) (seen (foldl absorb new_last_seen cs) b)"
proof (induction cs rule: rev_induct)
  case Nil
  then show ?case by (cases b) (simp_all add: ats_of_def is_latest_def new_last_seen_def)
next
  case (snoc c cs)
  then have IH: "is_latest (ats_of cs b) (seen (foldl absorb new_last_seen cs) b)" by simp
  show ?case
  proof (cases "fst c = b")
    case True
    then have "ats_of (cs @ [c]) b = insert (snd c) (ats_of cs b)" by (cases c) (auto simp: ats_of_def)
    then show ?thesis using is_latest_insert [OF IH] snoc.prems True by (simp add: seen_absorb gain_def)
  next
    case False
    then have "ats_of (cs @ [c]) b = ats_of cs b" by (cases c) (auto simp: ats_of_def)
    then show ?thesis using IH False by (simp add: seen_absorb gain_def)
  qed
qed

lemma contribution_nonempty:
  assumes "contribution_of p r = Inr (Some c)"
  shows "nonempty c"
proof (cases "time_of (jget r ''at'')")
  case (Some at)
  then show ?thesis using assms
    by (cases "payload_of r") (auto simp: contribution_of_def Let_def dest: time_of_Some nonempty_the_str split: if_splits)
qed (use assms in \<open>simp add: contribution_of_def\<close>)

lemma contributions_nonempty: "c \<in> set (contributions provider_of_legacy records) \<Longrightarrow> nonempty c"
  using contribution_nonempty by (auto simp: contributions_def split: option.splits sum.splits)

lemma dget_raise_to: "dget (raise_to key at out) k = (if k = key then latest (dget out k) at else dget out k)"
  by (cases at) (simp_all add: raise_to_def latest_def dget_dset)

lemma dget_resolve: "dget (resolve cl un s) k = latest (latest (seen s (Stamped k)) (if k = cl then seen s LegacyClaude else None))
    (if k = un then seen s LegacyCodex else None)"
  by (simp add: resolve_def dget_raise_to)

definition observed_times :: "(jobj \<Rightarrow> string) \<Rightarrow> jobj list \<Rightarrow> string \<Rightarrow> string \<Rightarrow> string \<Rightarrow> string set" where
  "observed_times provider_of_legacy records cl un k = {at. \<exists>r \<in> set records. \<exists>b.
     contribution_of provider_of_legacy r = Inr (Some (b, at)) \<and> account_of cl un b = k}"

lemma observed_times_buckets:
  "observed_times p records cl un k = ats_of (contributions p records) (Stamped k)
     \<union> (if k = cl then ats_of (contributions p records) LegacyClaude else {})
     \<union> (if k = un then ats_of (contributions p records) LegacyCodex else {})"
proof -
  have "(b, at) \<in> set (contributions p records) \<longleftrightarrow> (\<exists>r \<in> set records. contribution_of p r = Inr (Some (b, at)))" for b at
    by (force simp: contributions_def split: option.splits sum.splits)
  moreover have "account_of cl un b = k \<longleftrightarrow> b = Stamped k \<or> (b = LegacyClaude \<and> k = cl) \<or> (b = LegacyCodex \<and> k = un)" for b
    by (cases b) auto
  ultimately show ?thesis unfolding observed_times_def ats_of_def by auto
qed

text \<open>Segments may be folded apart and merged: if two parts of the records, in any order, fold to two states, the merged
  state resolves every account to the latest time any record contributes to it (its stamp, the account an op
  observes, the cutover account for a legacy Claude observation, the unattributed one for Codex), exactly as folding
  all the records does.\<close>

theorem last_seen_merges:
  assumes "rfold (observe p) new_last_seen xs = Inr a" "rfold (observe p) new_last_seen ys = Inr b"
    and "rfold (observe p) new_last_seen records = Inr s" "mset (xs @ ys) = mset records"
  shows "dget (resolve cl un (merge_last_seen a b)) k = dget (resolve cl un s) k
    \<and> is_latest (observed_times p records cl un k) (dget (resolve cl un s) k)"
proof
  let ?c = "contributions p"
  have c: "mset (?c xs @ ?c ys) = mset (?c records)"
  proof -
    let ?g = "\<lambda>r. mset (case contribution_of p r of Inr (Some c) \<Rightarrow> [c] | _ \<Rightarrow> [])"
    have "mset (?c rs) = \<Sum>\<^sub># (image_mset ?g (mset rs))" for rs by (induction rs) (simp_all add: contributions_def)
    then show ?thesis using arg_cong [OF assms(4), of "\<lambda>m. \<Sum>\<^sub># (image_mset ?g m)"] by simp
  qed
  have s: "a = foldl absorb new_last_seen (?c xs)" "b = foldl absorb new_last_seen (?c ys)" "s = foldl absorb new_last_seen (?c records)"
    using observe_fold assms(1-3) by blast+
  have "seen (merge_last_seen a b) = seen s" unfolding s by (rule seen_merge.merge_mset [OF c])
  then show "dget (resolve cl un (merge_last_seen a b)) k = dget (resolve cl un s) k" by (simp only: dget_resolve)
  have l: "is_latest (ats_of (?c records) b) (seen s b)" for b
    unfolding s(3) by (rule seen_latest) (simp add: contributions_nonempty)
  have none: "is_latest {} (None :: string option)" by (simp add: is_latest_def)
  show "is_latest (observed_times p records cl un k) (dget (resolve cl un s) k)"
    unfolding observed_times_buckets dget_resolve using none l [of LegacyClaude] l [of LegacyCodex]
    by (intro is_latest_union l) simp_all
qed

theorem last_seen_merges_witness:
  "let r1 = [(''at'', JStr ''2026-01-02''), (''t'', JStr ''evt''), (''account'', JStr ''A'')];
       r2 = [(''at'', JStr ''2026-01-03''), (''t'', JStr ''obs'')];
       p = (\<lambda>_. ''claude'');
       a = \<lparr>ls_stamped = [], ls_claude = Some ''2026-01-03'', ls_codex = None\<rparr>;
       b = \<lparr>ls_stamped = [(''A'', ''2026-01-02'')], ls_claude = None, ls_codex = None\<rparr>;
       s = \<lparr>ls_stamped = [(''A'', ''2026-01-02'')], ls_claude = Some ''2026-01-03'', ls_codex = None\<rparr>
   in dget (resolve ''A'' ''U'' (merge_last_seen a b)) ''A'' = dget (resolve ''A'' ''U'' s) ''A''
    \<and> is_latest (observed_times p [r1, r2] ''A'' ''U'' ''A'') (dget (resolve ''A'' ''U'' s) ''A'')"
  unfolding Let_def
  by (rule last_seen_merges [where xs = "[[(''at'', JStr ''2026-01-03''), (''t'', JStr ''obs'')]]"
        and ys = "[[(''at'', JStr ''2026-01-02''), (''t'', JStr ''evt''), (''account'', JStr ''A'')]]"])
    (simp_all add: observe_def new_last_seen_def bump_claude_def bump_def is_later_def)

end
