(* ===== verification/Codex_Segments.thy ===== *)
theory Codex_Segments
  imports Complex_Main Prelude "HOL-Library.Sublist"
begin

text \<open>
  \<open>bin/_lib_codex_segments.py\<close>: the greedy division of a turn's fold groups into segments. A loop over the indexes
  \<open>start\<close>, \<open>end\<close> of the group list is a recursion on the groups from \<open>start\<close> on, its result counted from there.
  \<open>lookback_fraction\<close> is a rational number: the code's default 0.25, like every fraction a float represents, is one,
  and the product with a budget of fewer than 53 bits of precision is then exact.
\<close>

section \<open>Groups and segments\<close>

record 'r fold_group =
  fg_rows :: "'r list"
  fg_blocks :: int
  fg_bytes :: int
  fg_title :: bool
  fg_tool :: bool
  fg_first :: "int option"
  fg_last :: "int option"

record 'r segment =
  sg_ordinal :: nat
  sg_groups :: "'r fold_group list"
  sg_blocks :: int
  sg_bytes :: int
  sg_anchor :: "'r option"

definition SEGMENT_BLOCK_BUDGET :: int where "SEGMENT_BLOCK_BUDGET = 40"
definition LOOKBACK_FRACTION :: rat where "LOOKBACK_FRACTION = 1 / 4"

definition boundary_rank :: "'r fold_group \<Rightarrow> nat" where
  "boundary_rank g = (if fg_title g then 0 else if fg_tool g then 1 else 2)"

definition blocks_of :: "'r fold_group list \<Rightarrow> int" where
  "blocks_of gs = sum_list (map fg_blocks gs)"

text \<open>How many groups the budget alone takes.\<close>

fun fill :: "int \<Rightarrow> int \<Rightarrow> nat \<Rightarrow> 'r fold_group list \<Rightarrow> nat" where
  "fill budget blocks n [] = n"
| "fill budget blocks n (g # gs) = (let candidate = blocks + fg_blocks g in
     if n > 0 \<and> candidate > budget then n else fill budget candidate (Suc n) gs)"

text \<open>The best boundary among the groups taken, \<open>n\<close> the position of the next one.\<close>

fun best_cut :: "int \<Rightarrow> nat option \<Rightarrow> nat \<Rightarrow> int \<Rightarrow> nat \<Rightarrow> 'r fold_group list \<Rightarrow> nat option" where
  "best_cut floor_blocks best rank kept n [] = best"
| "best_cut floor_blocks best rank kept n (g # gs) =
     (if n > 0 \<and> kept \<ge> floor_blocks \<and> boundary_rank g < rank then
        (if boundary_rank g = 0 then Some n
         else best_cut floor_blocks (Some n) (boundary_rank g) (kept + fg_blocks g) (Suc n) gs)
      else best_cut floor_blocks best rank (kept + fg_blocks g) (Suc n) gs)"

text \<open>How many further groups begin at or before the last position covered so far.\<close>

fun contiguous :: "int \<Rightarrow> nat \<Rightarrow> 'r fold_group list \<Rightarrow> nat" where
  "contiguous max_last n [] = n"
| "contiguous max_last n (g # gs) = (case fg_first g of None \<Rightarrow> n
     | Some nxt \<Rightarrow> if nxt > max_last then n
         else contiguous (case fg_last g of None \<Rightarrow> max_last | Some l \<Rightarrow> max max_last l) (Suc n) gs)"

definition ends_of :: "'r fold_group list \<Rightarrow> int list" where
  "ends_of gs = concat (map (\<lambda>g. case fg_last g of None \<Rightarrow> [] | Some l \<Rightarrow> [l]) gs)"

definition extend_to_contiguous :: "nat \<Rightarrow> 'r fold_group list \<Rightarrow> nat" where
  "extend_to_contiguous n gs = (case ends_of (take n gs) of [] \<Rightarrow> n
     | l # ls \<Rightarrow> contiguous (foldl max l ls) n (drop n gs))"

definition segment_length :: "int \<Rightarrow> int \<Rightarrow> 'r fold_group list \<Rightarrow> nat" where
  "segment_length budget floor_blocks gs = (let n = fill budget 0 0 gs in
     extend_to_contiguous (case best_cut floor_blocks None 2 0 0 (take n gs) of None \<Rightarrow> n | Some point \<Rightarrow> point) gs)"

definition segment_of :: "nat \<Rightarrow> 'r fold_group list \<Rightarrow> 'r segment" where
  "segment_of ordinal chosen = \<lparr>sg_ordinal = ordinal, sg_groups = chosen, sg_blocks = blocks_of chosen,
     sg_bytes = sum_list (map fg_bytes chosen),
     sg_anchor = (case chosen of [] \<Rightarrow> None | g # _ \<Rightarrow> (case fg_rows g of [] \<Rightarrow> None | r # _ \<Rightarrow> Some r))\<rparr>"

section \<open>The loops make progress\<close>

lemma fill_le: "n \<le> fill budget blocks n gs \<and> fill budget blocks n gs \<le> n + length gs"
proof (induction gs arbitrary: blocks n)
  case (Cons g gs)
  have "Suc n \<le> fill budget b (Suc n) gs \<and> fill budget b (Suc n) gs \<le> Suc n + length gs" for b by (rule Cons.IH)
  then show ?case by (auto simp: Let_def Suc_le_eq less_imp_le)
qed simp

lemma fill_pos: "gs \<noteq> [] \<Longrightarrow> 0 < fill budget blocks 0 gs"
  using fill_le [of "Suc 0"] by (cases gs) (auto simp: Let_def Suc_le_eq)

lemma best_cut_range:
  assumes "best_cut floor_blocks best rank kept n gs = Some point" "\<And>c. best = Some c \<Longrightarrow> 0 < c \<and> c \<le> n"
  shows "0 < point \<and> point \<le> n + length gs"
  using assms
proof (induction gs arbitrary: best rank kept n)
  case (Cons g gs)
  show ?case
  proof (cases "n > 0 \<and> kept \<ge> floor_blocks \<and> boundary_rank g < rank")
    case True
    show ?thesis
    proof (cases "boundary_rank g = 0")
      case False
      then have "best_cut floor_blocks (Some n) (boundary_rank g) (kept + fg_blocks g) (Suc n) gs = Some point"
        using True Cons.prems(1) by simp
      from Cons.IH [OF this] True show ?thesis by simp
    qed (use True Cons.prems in auto)
  next
    case False
    then have "best_cut floor_blocks best rank (kept + fg_blocks g) (Suc n) gs = Some point"
      using Cons.prems(1) by (simp only: best_cut.simps if_False)
    from Cons.IH [OF this] Cons.prems(2) show ?thesis by fastforce
  qed
qed auto

lemma contiguous_le: "n \<le> contiguous m n gs \<and> contiguous m n gs \<le> n + length gs"
proof (induction gs arbitrary: m n)
  case (Cons g gs)
  have "Suc n \<le> contiguous m' (Suc n) gs \<and> contiguous m' (Suc n) gs \<le> Suc n + length gs" for m' by (rule Cons.IH)
  then show ?case by (auto simp: Suc_le_eq less_imp_le split: option.splits)
qed simp

lemma extend_to_contiguous_le:
  "n \<le> length gs \<Longrightarrow> n \<le> extend_to_contiguous n gs \<and> extend_to_contiguous n gs \<le> length gs"
  using contiguous_le [of n _ "drop n gs"] by (auto simp: extend_to_contiguous_def split: list.splits)

lemma segment_length_range:
  assumes "gs \<noteq> []"
  shows "0 < segment_length budget floor_blocks gs \<and> segment_length budget floor_blocks gs \<le> length gs"
proof -
  let ?n = "fill budget 0 0 gs"
  let ?m = "case best_cut floor_blocks None 2 0 0 (take ?n gs) of None \<Rightarrow> ?n | Some point \<Rightarrow> point"
  have n: "0 < ?n" "?n \<le> length gs" using fill_pos [OF assms] fill_le [of 0 budget 0 gs] by auto
  then have "0 < ?m \<and> ?m \<le> length gs"
    using best_cut_range [of floor_blocks None 2 0 0 "take ?n gs"] by (auto split: option.splits)
  then show ?thesis using extend_to_contiguous_le [of ?m gs] by (auto simp: segment_length_def Let_def)
qed

section \<open>The plan\<close>

function plan_loop :: "int \<Rightarrow> int \<Rightarrow> nat \<Rightarrow> 'r fold_group list \<Rightarrow> 'r segment list" where
  "plan_loop budget floor_blocks ordinal gs = (if gs = [] then []
     else let n = segment_length budget floor_blocks gs in
       segment_of ordinal (take n gs) # plan_loop budget floor_blocks (Suc ordinal) (drop n gs))"
  by pat_completeness auto
termination
  by (relation "measure (\<lambda>(budget, floor_blocks, ordinal, gs). length gs)")
    (auto simp: segment_length_range intro!: diff_less)

declare plan_loop.simps [simp del]

datatype plan_error = BudgetNotPositive | FractionOutOfRange

definition floor_of :: "int \<Rightarrow> rat \<Rightarrow> int" where
  "floor_of budget fraction = budget - \<lfloor>of_int budget * fraction\<rfloor>"

definition plan_segments :: "'r fold_group list \<Rightarrow> int option \<Rightarrow> rat option \<Rightarrow> plan_error + 'r segment list" where
  "plan_segments gs block_budget lookback_fraction =
     (let budget = (case block_budget of None \<Rightarrow> SEGMENT_BLOCK_BUDGET | Some b \<Rightarrow> b);
          fraction = (case lookback_fraction of None \<Rightarrow> LOOKBACK_FRACTION | Some f \<Rightarrow> f) in
      if budget \<le> 0 then Inl BudgetNotPositive
      else if \<not> (0 \<le> fraction \<and> fraction < 1) then Inl FractionOutOfRange
      else Inr (plan_loop budget (floor_of budget fraction) 0 gs))"


lemma plan_loop_Nil [simp]: "plan_loop budget floor_blocks ordinal [] = []"
  by (simp add: plan_loop.simps)

lemma plan_loop_Cons: "gs \<noteq> [] \<Longrightarrow> plan_loop budget floor_blocks ordinal gs
    = segment_of ordinal (take (segment_length budget floor_blocks gs) gs)
      # plan_loop budget floor_blocks (Suc ordinal) (drop (segment_length budget floor_blocks gs) gs)"
  by (subst plan_loop.simps) (simp add: Let_def)

lemma segment_of_groups [simp]: "sg_groups (segment_of k gs) = gs" "sg_ordinal (segment_of k gs) = k"
  by (simp_all add: segment_of_def)

lemma plan_loop_partition:
  "concat (map sg_groups (plan_loop budget floor_blocks k gs)) = gs
    \<and> map sg_ordinal (plan_loop budget floor_blocks k gs) = [k..<k + length (plan_loop budget floor_blocks k gs)]
    \<and> (\<forall>s \<in> set (plan_loop budget floor_blocks k gs). sg_groups s \<noteq> [] \<and> s = segment_of (sg_ordinal s) (sg_groups s))"
proof (induction budget floor_blocks k gs rule: plan_loop.induct)
  case (1 budget floor_blocks k gs)
  show ?case
  proof (cases "gs = []")
    case False
    note IH = "1" [OF False refl]
    have "take (segment_length budget floor_blocks gs) gs \<noteq> []" using segment_length_range [OF False] False by simp
    then show ?thesis using IH by (simp add: plan_loop_Cons [OF False] upt_conv_Cons del: upt_Suc)
  qed simp
qed

text \<open>Whatever the groups, the planning loop ends: with a positive budget and a fraction in range it returns segments,
  none empty, numbered from zero, whose groups concatenate to the input and whose counts are those of their groups;
  otherwise it raises.\<close>

theorem plan_segments_total:
  "plan_segments gs block_budget fraction = Inl BudgetNotPositive
    \<or> plan_segments gs block_budget fraction = Inl FractionOutOfRange
    \<or> (\<exists>segs. plan_segments gs block_budget fraction = Inr segs \<and> concat (map sg_groups segs) = gs
        \<and> map sg_ordinal segs = [0..<length segs]
        \<and> list_all (\<lambda>s. sg_groups s \<noteq> [] \<and> sg_blocks s = blocks_of (sg_groups s)
             \<and> sg_bytes s = sum_list (map fg_bytes (sg_groups s))) segs)"
proof -
  have seg: "sg_blocks s = blocks_of (sg_groups s) \<and> sg_bytes s = sum_list (map fg_bytes (sg_groups s))"
    if "s = segment_of (sg_ordinal s) (sg_groups s)" for s :: "'a segment"
    by (subst that, subst (2) that) (simp add: segment_of_def)
  have "list_all (\<lambda>s. sg_groups s \<noteq> [] \<and> sg_blocks s = blocks_of (sg_groups s)
      \<and> sg_bytes s = sum_list (map fg_bytes (sg_groups s))) (plan_loop b f 0 gs)" for b f
    using plan_loop_partition [of b f 0 gs] seg unfolding list_all_iff by blast
  then show ?thesis using plan_loop_partition [of _ _ 0 gs]
    by (auto simp: plan_segments_def Let_def)
qed

section \<open>How large a segment is\<close>

lemma blocks_of_simps [simp]: "blocks_of [] = 0" "blocks_of (g # gs) = fg_blocks g + blocks_of gs"
  "blocks_of (xs @ ys) = blocks_of xs + blocks_of ys"
  by (simp_all add: blocks_of_def)

lemma fill_blocks:
  "n < fill budget blocks n gs \<Longrightarrow> (n = 0 \<and> fill budget blocks n gs = 1)
    \<or> blocks + blocks_of (take (fill budget blocks n gs - n) gs) \<le> budget"
proof (induction gs arbitrary: blocks n)
  case (Cons g gs)
  let ?b = "blocks + fg_blocks g"
  show ?case
  proof (cases "n > 0 \<and> budget < ?b")
    case False
    then have f: "fill budget blocks n (g # gs) = fill budget ?b (Suc n) gs" by (auto simp: Let_def)
    show ?thesis
    proof (cases "Suc n < fill budget ?b (Suc n) gs")
      case True
      then have "fill budget ?b (Suc n) gs - n = Suc (fill budget ?b (Suc n) gs - Suc n)" by simp
      then show ?thesis using Cons.IH [OF True] f by (simp add: add.assoc)
    next
      case stop: False
      then have "fill budget ?b (Suc n) gs = Suc n" using fill_le [of "Suc n" budget ?b gs] by simp
      then show ?thesis using f False by auto
    qed
  qed (use Cons.prems in \<open>auto simp: Let_def\<close>)
qed simp

lemma fill_stopped:
  "fill budget blocks n gs < n + length gs
    \<Longrightarrow> budget < blocks + blocks_of (take (Suc (fill budget blocks n gs - n)) gs)"
proof (induction gs arbitrary: blocks n)
  case (Cons g gs)
  let ?b = "blocks + fg_blocks g"
  show ?case
  proof (cases "n > 0 \<and> budget < ?b")
    case False
    then have f: "fill budget blocks n (g # gs) = fill budget ?b (Suc n) gs" by (auto simp: Let_def)
    have "fill budget ?b (Suc n) gs - n = Suc (fill budget ?b (Suc n) gs - Suc n)"
      using fill_le [of "Suc n" budget ?b gs] by (simp add: Suc_diff_Suc Suc_le_eq)
    then show ?thesis using Cons.IH [of ?b "Suc n"] Cons.prems f by (simp add: add.assoc)
  qed (simp add: Let_def)
qed simp

lemma best_cut_kept:
  assumes "best_cut floor_blocks best rank kept n gs = Some point"
    "\<And>c. best = Some c \<Longrightarrow> c \<le> n \<and> floor_blocks \<le> taken c"
    "\<And>i. i \<le> length gs \<Longrightarrow> taken (n + i) = kept + blocks_of (take i gs)"
  shows "floor_blocks \<le> taken point"
  using assms
proof (induction gs arbitrary: best rank kept n)
  case (Cons g gs)
  have t: "taken (Suc n + i) = (kept + fg_blocks g) + blocks_of (take i gs)" if "i \<le> length gs" for i
    using Cons.prems(3) [of "Suc i"] that by simp
  have now: "taken n = kept" using Cons.prems(3) [of 0] by simp
  show ?case
  proof (cases "n > 0 \<and> kept \<ge> floor_blocks \<and> boundary_rank g < rank")
    case True
    show ?thesis
    proof (cases "boundary_rank g = 0")
      case False
      then have "best_cut floor_blocks (Some n) (boundary_rank g) (kept + fg_blocks g) (Suc n) gs = Some point"
        using True Cons.prems(1) by simp
      from Cons.IH [OF this _ t] show ?thesis using True now by simp
    qed (use True Cons.prems(1) now in auto)
  next
    case False
    then have "best_cut floor_blocks best rank (kept + fg_blocks g) (Suc n) gs = Some point"
      using Cons.prems(1) by (simp only: best_cut.simps if_False)
    from Cons.IH [OF this _ t] Cons.prems(2) show ?thesis by (meson le_SucI)
  qed
qed auto


lemma plan_drop:
  "i \<le> length (plan_loop b f k gs)
    \<Longrightarrow> drop i (plan_loop b f k gs) = plan_loop b f (k + i) (concat (map sg_groups (drop i (plan_loop b f k gs))))"
proof (induction i arbitrary: k gs)
  case 0
  then show ?case using plan_loop_partition [of b f k gs] by simp
next
  case (Suc i)
  then have ne: "gs \<noteq> []" by auto
  then have "i \<le> length (plan_loop b f (Suc k) (drop (segment_length b f gs) gs))"
    using Suc.prems by (simp add: plan_loop_Cons)
  from Suc.IH [OF this] show ?case using ne by (simp add: plan_loop_Cons)
qed

text \<open>The groups of a segment are the longest piece the loop takes from what is left, and the rest is what follows.\<close>

lemma plan_nth:
  assumes "i < length (plan_loop b f k gs)"
  defines "rest \<equiv> concat (map sg_groups (drop i (plan_loop b f k gs)))"
  shows "rest \<noteq> []" "plan_loop b f k gs ! i = segment_of (k + i) (take (segment_length b f rest) rest)"
    "concat (map sg_groups (drop (Suc i) (plan_loop b f k gs))) = drop (segment_length b f rest) rest"
proof -
  have d: "drop i (plan_loop b f k gs) = plan_loop b f (k + i) rest"
    using plan_drop [of i b f k gs] assms(1) by (simp add: rest_def)
  have s: "drop i (plan_loop b f k gs) = plan_loop b f k gs ! i # drop (Suc i) (plan_loop b f k gs)"
    using assms(1) by (simp add: Cons_nth_drop_Suc)
  show ne: "rest \<noteq> []" using d s by (metis list.distinct(1) plan_loop_Nil)
  have c: "plan_loop b f k gs ! i # drop (Suc i) (plan_loop b f k gs) = segment_of (k + i) (take (segment_length b f rest) rest)
      # plan_loop b f (Suc (k + i)) (drop (segment_length b f rest) rest)"
    using s d plan_loop_Cons [OF ne, of b f "k + i"] by simp
  then show "plan_loop b f k gs ! i = segment_of (k + i) (take (segment_length b f rest) rest)" by simp
  have "drop (Suc i) (plan_loop b f k gs) = plan_loop b f (Suc (k + i)) (drop (segment_length b f rest) rest)" using c by simp
  then show "concat (map sg_groups (drop (Suc i) (plan_loop b f k gs))) = drop (segment_length b f rest) rest"
    using plan_loop_partition [of b f "Suc (k + i)" "drop (segment_length b f rest) rest"] by simp
qed

definition core_length :: "int \<Rightarrow> int \<Rightarrow> 'r fold_group list \<Rightarrow> nat" where
  "core_length budget floor_blocks gs = (case best_cut floor_blocks None 2 0 0 (take (fill budget 0 0 gs) gs) of
     None \<Rightarrow> fill budget 0 0 gs | Some point \<Rightarrow> point)"

lemma segment_length_core: "segment_length b f gs = extend_to_contiguous (core_length b f gs) gs"
  by (simp add: segment_length_def core_length_def Let_def)

lemma core_length_range:
  assumes "gs \<noteq> []"
  shows "0 < core_length b f gs" "core_length b f gs \<le> fill b 0 0 gs" "core_length b f gs \<le> segment_length b f gs"
proof -
  have n: "0 < fill b 0 0 gs" "fill b 0 0 gs \<le> length gs" using fill_pos [OF assms] fill_le [of 0 b 0 gs] by auto
  then show c: "0 < core_length b f gs" "core_length b f gs \<le> fill b 0 0 gs"
    using best_cut_range [of f None 2 0 0 "take (fill b 0 0 gs) gs"] by (auto simp: core_length_def split: option.splits)
  show "core_length b f gs \<le> segment_length b f gs"
    using extend_to_contiguous_le [of "core_length b f gs" gs] c n by (simp add: segment_length_core)
qed

lemma blocks_take_mono:
  assumes "\<forall>g \<in> set gs. 0 \<le> fg_blocks g" "m \<le> n"
  shows "blocks_of (take m gs) \<le> blocks_of (take n gs)"
proof -
  have "take n gs = take m gs @ take (n - m) (drop m gs)" using assms(2) by (metis le_add_diff_inverse take_add)
  moreover have "0 \<le> blocks_of (take (n - m) (drop m gs))"
    unfolding blocks_of_def by (rule sum_list_nonneg) (use assms(1) in \<open>auto dest!: in_set_takeD in_set_dropD\<close>)
  ultimately show ?thesis by simp
qed

lemma core_ceiling:
  assumes "\<forall>g \<in> set gs. 0 \<le> fg_blocks g" "gs \<noteq> []"
  shows "core_length b f gs = 1 \<or> blocks_of (take (core_length b f gs) gs) \<le> b"
proof (cases "fill b 0 0 gs = 1")
  case True
  then show ?thesis using core_length_range [OF assms(2), of b f] by simp
next
  case False
  then have "blocks_of (take (fill b 0 0 gs) gs) \<le> b"
    using fill_blocks [of 0 b 0 gs] fill_pos [OF assms(2), of b 0] by auto
  then show ?thesis using blocks_take_mono [OF assms(1) core_length_range(2) [OF assms(2)], of b f] by linarith
qed

lemma core_floor:
  assumes nn: "\<forall>g \<in> set gs. 0 \<le> fg_blocks g" and ne: "gs \<noteq> []" and more: "segment_length b f gs < length gs"
  shows "f \<le> blocks_of (take (segment_length b f gs) gs) \<or> b < blocks_of (take (Suc (segment_length b f gs)) gs)"
proof (cases "best_cut f None 2 0 0 (take (fill b 0 0 gs) gs)")
  case (Some point)
  have "f \<le> blocks_of (take point gs)"
  proof -
    have p: "point \<le> fill b 0 0 gs" using core_length_range(2) [OF ne, of b f] Some by (simp add: core_length_def)
    have "f \<le> blocks_of (take point (take (fill b 0 0 gs) gs))"
      by (rule best_cut_kept [OF Some]) simp_all
    then show ?thesis using p by (simp add: min_absorb1)
  qed
  moreover have "point \<le> segment_length b f gs" using core_length_range(3) [OF ne, of b f] Some by (simp add: core_length_def)
  ultimately show ?thesis using blocks_take_mono [OF nn] by (meson order_trans)
next
  case None
  then have n: "fill b 0 0 gs \<le> segment_length b f gs" using core_length_range(3) [OF ne, of b f] by (simp add: core_length_def)
  then have "b < blocks_of (take (Suc (fill b 0 0 gs)) gs)" using fill_stopped [of b 0 0 gs] more by simp
  then show ?thesis using blocks_take_mono [OF nn, of "Suc (fill b 0 0 gs)" "Suc (segment_length b f gs)"] n by linarith
qed

lemma contiguous_absorbs:
  assumes "n + j < contiguous m n gs"
  shows "\<exists>p l. fg_first (gs ! j) = Some p \<and> p \<le> l \<and> (l = m \<or> l \<in> set (ends_of (take j gs)))"
  using assms
proof (induction gs arbitrary: m n j)
  case (Cons g gs)
  from Cons.prems obtain p where p: "fg_first g = Some p" "p \<le> m" by (auto split: option.splits if_splits)
  let ?m = "case fg_last g of None \<Rightarrow> m | Some l \<Rightarrow> max m l"
  show ?case
  proof (cases j)
    case 0
    then show ?thesis using p by auto
  next
    case (Suc i)
    have "Suc n + i < contiguous ?m (Suc n) gs" using Cons.prems p Suc by simp
    from Cons.IH [OF this] obtain q l where q: "fg_first (gs ! i) = Some q" "q \<le> l" "l = ?m \<or> l \<in> set (ends_of (take i gs))"
      by blast
    have "l = m \<or> l \<in> set (ends_of (take (Suc i) (g # gs)))"
      using q(3) by (auto simp: ends_of_def max_def split: option.splits if_splits)
    then show ?thesis using q(1,2) Suc by auto
  qed
qed simp

lemma foldl_max_mem: "foldl max l ls \<in> set (l # ls)"
proof (induction ls arbitrary: l)
  case (Cons a ls)
  then show ?case using Cons [of "max l a"] by (auto simp: max_def split: if_splits)
qed simp

lemma ends_of_append: "ends_of (xs @ ys) = ends_of xs @ ends_of ys"
  by (simp add: ends_of_def)

lemma extend_absorbs:
  assumes "n \<le> j" "j < extend_to_contiguous n gs" "n \<le> length gs"
  shows "\<exists>p l. fg_first (gs ! j) = Some p \<and> p \<le> l \<and> l \<in> set (ends_of (take j gs))"
proof (cases "ends_of (take n gs)")
  case (Cons l ls)
  then have "n + (j - n) < contiguous (foldl max l ls) n (drop n gs)" using assms by (simp add: extend_to_contiguous_def)
  from contiguous_absorbs [OF this] obtain p q where q: "fg_first (drop n gs ! (j - n)) = Some p" "p \<le> q"
    "q = foldl max l ls \<or> q \<in> set (ends_of (take (j - n) (drop n gs)))" by blast
  have t: "take j gs = take n gs @ take (j - n) (drop n gs)" using assms(1) by (metis le_add_diff_inverse take_add)
  have "q \<in> set (ends_of (take j gs))"
    using q(3) foldl_max_mem [of l ls] Cons unfolding t ends_of_append by auto
  then show ?thesis using q(1,2) assms by (auto simp: nth_drop)
qed (use assms in \<open>simp add: extend_to_contiguous_def\<close>)


text \<open>A segment is a core within the budget, or a single group, followed only by groups that begin inside the span
  covered so far; and a segment that is not the last holds at least the floor of blocks, unless the next group would
  have exceeded the budget.\<close>

theorem segment_bounds:
  assumes "plan_segments gs (Some b) (Some fraction) = Inr segs" "i < length segs" "\<forall>g \<in> set gs. 0 \<le> fg_blocks g"
  shows "\<exists>n. 0 < n \<and> n \<le> length (sg_groups (segs ! i))
      \<and> (n = 1 \<or> blocks_of (take n (sg_groups (segs ! i))) \<le> b)
      \<and> (\<forall>j. n \<le> j \<and> j < length (sg_groups (segs ! i)) \<longrightarrow> (\<exists>p l. fg_first (sg_groups (segs ! i) ! j) = Some p \<and> p \<le> l
            \<and> l \<in> set (ends_of (take j (sg_groups (segs ! i))))))
      \<and> (Suc i < length segs \<longrightarrow> floor_of b fraction \<le> sg_blocks (segs ! i)
            \<or> b < sg_blocks (segs ! i) + fg_blocks (hd (sg_groups (segs ! Suc i))))"
proof -
  let ?f = "floor_of b fraction"
  have segs: "segs = plan_loop b ?f 0 gs" using assms(1) by (auto simp: plan_segments_def Let_def split: if_splits)
  define rest where "rest = concat (map sg_groups (drop i segs))"
  note nth = plan_nth [of i b ?f 0 gs, folded segs rest_def, OF assms(2)]
  let ?k = "segment_length b ?f rest" and ?n = "core_length b ?f rest"
  have g: "sg_groups (segs ! i) = take ?k rest" and bl: "sg_blocks (segs ! i) = blocks_of (take ?k rest)"
    using nth(2) by (simp_all add: segment_of_def)
  have k: "?k \<le> length rest" "0 < ?k" using segment_length_range [OF nth(1)] by auto
  note c = core_length_range [OF nth(1), of b ?f]
  have "set rest \<subseteq> set gs"
    using plan_loop_partition [of b ?f 0 gs] set_drop_subset [of i segs] unfolding segs [symmetric] rest_def by fastforce
  then have nn: "\<forall>g \<in> set rest. 0 \<le> fg_blocks g" using assms(3) by blast
  show ?thesis
  proof (intro exI [of _ ?n] conjI allI impI)
    show "0 < ?n" "?n \<le> length (sg_groups (segs ! i))" using c k g by auto
    show "?n = 1 \<or> blocks_of (take ?n (sg_groups (segs ! i))) \<le> b"
      using core_ceiling [OF nn nth(1), of b ?f] c(3) g by (simp add: min_absorb1)
  next
    fix j assume j: "?n \<le> j \<and> j < length (sg_groups (segs ! i))"
    then have "j < extend_to_contiguous ?n rest" "?n \<le> length rest" using g k by (auto simp: segment_length_core)
    from extend_absorbs [OF _ this] obtain p l where "fg_first (rest ! j) = Some p" "p \<le> l" "l \<in> set (ends_of (take j rest))"
      using j by blast
    then show "\<exists>p l. fg_first (sg_groups (segs ! i) ! j) = Some p \<and> p \<le> l \<and> l \<in> set (ends_of (take j (sg_groups (segs ! i))))"
      using j g k by (intro exI [of _ p] exI [of _ l]) (simp add: min_absorb1)
  next
    assume more: "Suc i < length segs"
    define next_rest where "next_rest = concat (map sg_groups (drop (Suc i) segs))"
    have nr: "next_rest = drop ?k rest" using nth(3) by (simp add: next_rest_def)
    note nth' = plan_nth [of "Suc i" b ?f 0 gs, folded segs next_rest_def, OF more]
    have "0 < segment_length b ?f next_rest" using segment_length_range [OF nth'(1)] by simp
    then have "hd (sg_groups (segs ! Suc i)) = hd next_rest" using nth'(2) by (simp add: hd_take)
    moreover have "?k < length rest" using nth'(1) nr by simp
    moreover from this have "take (Suc ?k) rest = take ?k rest @ [hd next_rest]"
      using nr by (simp add: take_Suc_conv_app_nth hd_drop_conv_nth)
    ultimately show "?f \<le> sg_blocks (segs ! i) \<or> b < sg_blocks (segs ! i) + fg_blocks (hd (sg_groups (segs ! Suc i)))"
      using core_floor [OF nn nth(1), of b ?f] bl by simp
  qed
qed

section \<open>Segments do not overlap\<close>

lemma contiguous_stops:
  assumes "contiguous m n gs < n + length gs" "fg_first (gs ! (contiguous m n gs - n)) = Some p"
  shows "m < p \<and> (\<forall>l \<in> set (ends_of (take (contiguous m n gs - n) gs)). l < p)"
  using assms
proof (induction gs arbitrary: m n)
  case (Cons g gs)
  show ?case
  proof (cases "contiguous m n (g # gs) = n")
    case True
    then have "fg_first g = Some p" using Cons.prems(2) by simp
    moreover have "m < p"
    proof (rule ccontr)
      assume "\<not> m < p"
      then have "Suc n \<le> contiguous m n (g # gs)"
        using \<open>fg_first g = Some p\<close> contiguous_le [of "Suc n" _ gs] by simp
      then show False using True by simp
    qed
    ultimately show ?thesis using True by (simp add: ends_of_def)
  next
    case False
    let ?m = "case fg_last g of None \<Rightarrow> m | Some l \<Rightarrow> max m l"
    have eq: "contiguous m n (g # gs) = contiguous ?m (Suc n) gs"
      using False by (auto split: option.splits if_splits)
    let ?k = "contiguous ?m (Suc n) gs"
    have k: "?k - n = Suc (?k - Suc n)" using contiguous_le [of "Suc n" ?m gs] by (simp add: Suc_diff_Suc Suc_le_eq)
    have "?m < p \<and> (\<forall>l \<in> set (ends_of (take (?k - Suc n) gs)). l < p)"
      using Cons.IH [of ?m "Suc n"] Cons.prems k unfolding eq by simp
    then show ?thesis unfolding eq k by (auto simp: ends_of_def split: option.splits)
  qed
qed simp

lemma foldl_max_start: "(l :: int) \<le> foldl max l ls"
proof (induction ls arbitrary: l)
  case (Cons a ls)
  have "max l a \<le> foldl max (max l a) ls" by (rule Cons.IH)
  then show ?case by simp
qed simp

lemma foldl_max_ge: "x \<in> set (l # ls) \<Longrightarrow> x \<le> foldl max (l :: int) ls"
proof (induction ls arbitrary: l)
  case (Cons a ls)
  have m: "max l a \<le> foldl max (max l a) ls" by (rule foldl_max_start)
  show ?case
  proof (cases "x \<in> set ls")
    case True
    then have "x \<le> foldl max (max l a) ls" by (intro Cons.IH) simp
    then show ?thesis by simp
  next
    case False
    then have "x = l \<or> x = a" using Cons.prems by auto
    then show ?thesis using m by auto
  qed
qed simp

lemma extend_stops:
  assumes "n \<le> length gs" "extend_to_contiguous n gs < length gs" "fg_first (gs ! extend_to_contiguous n gs) = Some p"
    and "ends_of (take n gs) \<noteq> []" "l \<in> set (ends_of (take (extend_to_contiguous n gs) gs))"
  shows "l < p"
proof -
  obtain x xs where x: "ends_of (take n gs) = x # xs" using assms(4) by (cases "ends_of (take n gs)") auto
  let ?m = "foldl max x xs" and ?k = "extend_to_contiguous n gs"
  have k: "?k = contiguous ?m n (drop n gs)" by (simp add: extend_to_contiguous_def x)
  have nk: "n \<le> ?k" using extend_to_contiguous_le [OF assms(1)] by simp
  then have "contiguous ?m n (drop n gs) < n + length (drop n gs)" "fg_first (drop n gs ! (contiguous ?m n (drop n gs) - n)) = Some p"
    using assms(1-3) k by (simp_all add: nth_drop)
  from contiguous_stops [OF this] have s: "?m < p" "\<forall>l \<in> set (ends_of (take (?k - n) (drop n gs))). l < p"
    unfolding k by auto
  have "take ?k gs = take n gs @ take (?k - n) (drop n gs)" using nk by (metis le_add_diff_inverse take_add)
  then have "l \<in> set (x # xs) \<or> l \<in> set (ends_of (take (?k - n) (drop n gs)))"
    using assms(5) x by (auto simp: ends_of_append)
  then show ?thesis using s foldl_max_ge [of l x xs] by auto
qed


lemma ends_of_nonempty: "gs \<noteq> [] \<Longrightarrow> \<forall>g \<in> set gs. fg_last g \<noteq> None \<Longrightarrow> ends_of gs \<noteq> []"
  by (cases gs) (auto simp: ends_of_def)

lemma ends_of_mem: "g \<in> set gs \<Longrightarrow> fg_last g = Some l \<Longrightarrow> l \<in> set (ends_of gs)"
  by (force simp: ends_of_def)

lemma segment_separates:
  assumes "\<forall>g \<in> set gs. fg_first g \<noteq> None \<and> fg_last g \<noteq> None" "sorted_wrt (<) (map (the \<circ> fg_first) gs)" "gs \<noteq> []"
    and "g \<in> set (take (segment_length b f gs) gs)" "h \<in> set (drop (segment_length b f gs) gs)"
  shows "the (fg_last g) < the (fg_first h)"
proof -
  let ?k = "segment_length b f gs" and ?n = "core_length b f gs"
  have k: "?k < length gs" using assms(5) by (metis drop_all empty_iff empty_set not_less)
  have n: "?n \<le> length gs" "0 < ?n" using core_length_range [OF assms(3), of b f] k by auto
  obtain p where p: "fg_first (gs ! ?k) = Some p" using assms(1) k by (meson nth_mem option.exhaust)
  obtain l where l: "fg_last g = Some l" using assms(1,4) by (meson in_set_takeD option.exhaust)
  have "take ?n gs \<noteq> []" using n assms(3) by simp
  then have "ends_of (take ?n gs) \<noteq> []" using assms(1) by (intro ends_of_nonempty) (auto dest!: in_set_takeD)
  then have "l < p" using extend_stops [of ?n gs p l] n k p ends_of_mem [OF assms(4) l] by (simp add: segment_length_core)
  moreover have "p \<le> the (fg_first h)"
  proof -
    obtain j where j: "j < length gs - ?k" "h = gs ! (?k + j)" using assms(5) by (auto simp: in_set_conv_nth)
    have "the (fg_first (gs ! ?k)) < the (fg_first (gs ! (?k + j)))" if "0 < j"
      using sorted_wrt_nth_less [OF assms(2), of ?k "?k + j"] that j k by simp
    then show ?thesis using p j by (cases j) auto
  qed
  ultimately show ?thesis using l by simp
qed

text \<open>When every group carries its positions and the groups are in the order of their first rows, segments do not overlap:
  every row span of a segment ends before any span of a later segment begins.\<close>

theorem segments_contiguous:
  assumes "plan_segments gs block_budget fraction = Inr segs"
    and "\<forall>g \<in> set gs. fg_first g \<noteq> None \<and> fg_last g \<noteq> None" "sorted_wrt (<) (map (the \<circ> fg_first) gs)"
    and "i < j" "j < length segs" "g \<in> set (sg_groups (segs ! i))" "h \<in> set (sg_groups (segs ! j))"
  shows "the (fg_last g) < the (fg_first h)"
proof -
  obtain b f where segs: "segs = plan_loop b f 0 gs" using assms(1) by (auto simp: plan_segments_def Let_def split: if_splits)
  define rest where "rest = concat (map sg_groups (drop i segs))"
  have i: "i < length segs" using assms(4,5) by simp
  note nth = plan_nth [of i b f 0 gs, folded segs rest_def, OF i]
  have gs: "gs = concat (map sg_groups (take i segs)) @ rest"
    using plan_loop_partition [of b f 0 gs] unfolding segs [symmetric] rest_def by (metis append_take_drop_id concat_append map_append)
  have "segs ! j \<in> set (drop (Suc i) segs)"
  proof -
    have "drop (Suc i) segs ! (j - Suc i) = segs ! j" using assms(4,5) by simp
    then show ?thesis using assms(4,5) by (metis Suc_leI diff_less_mono length_drop nth_mem)
  qed
  then have "h \<in> set (concat (map sg_groups (drop (Suc i) segs)))" using assms(7) by auto
  then have "h \<in> set (drop (segment_length b f rest) rest)" using nth(3) by simp
  moreover have "g \<in> set (take (segment_length b f rest) rest)" using assms(6) nth(2) by simp
  moreover have "sorted_wrt (<) (map (the \<circ> fg_first) rest)" using assms(3) unfolding gs by (simp add: sorted_wrt_append)
  ultimately show ?thesis using segment_separates [OF _ _ nth(1)] assms(2) unfolding gs by (metis Un_iff set_append)
qed

section \<open>Appending to a growing turn\<close>

lemma fill_append: "fill b bl n gs < n + length gs \<Longrightarrow> fill b bl n (gs @ new) = fill b bl n gs"
  by (induction gs arbitrary: bl n) (auto simp: Let_def split: if_splits)

lemma contiguous_append: "contiguous m n gs < n + length gs \<Longrightarrow> contiguous m n (gs @ new) = contiguous m n gs"
  by (induction gs arbitrary: m n) (auto split: option.splits if_splits)

lemma segment_length_append:
  assumes "fill b 0 0 gs < length gs" "segment_length b f gs < length gs" "gs \<noteq> []"
  shows "segment_length b f (gs @ new) = segment_length b f gs"
proof -
  let ?c = "core_length b f gs"
  have "core_length b f (gs @ new) = ?c" 
  proof -
    have eq: "fill b 0 0 (gs @ new) = fill b 0 0 gs" using assms(1) by (intro fill_append) simp
    show ?thesis using assms(1) unfolding core_length_def eq by simp
  qed
  moreover have c: "?c \<le> length gs" using core_length_range [OF assms(3), of b f] assms(2) by simp
  moreover have "extend_to_contiguous ?c (gs @ new) = extend_to_contiguous ?c gs"
  proof (cases "ends_of (take ?c gs)")
    case (Cons l ls)
    then have "contiguous (foldl max l ls) ?c (drop ?c gs) < ?c + length (drop ?c gs)"
      using assms(2) c by (simp add: segment_length_core extend_to_contiguous_def)
    from contiguous_append [OF this, of new] show ?thesis using Cons c by (simp add: extend_to_contiguous_def)
  qed (use c in \<open>simp add: extend_to_contiguous_def\<close>)
  ultimately show ?thesis by (simp add: segment_length_core)
qed

lemma fill_within:
  assumes "\<forall>g \<in> set gs. 0 \<le> fg_blocks g" "b < blocks_of gs" "1 < length gs"
  shows "fill b 0 0 gs < length gs"
proof (rule ccontr)
  assume "\<not> ?thesis"
  then have "fill b 0 0 gs = length gs" using fill_le [of 0 b 0 gs] by simp
  then have "blocks_of gs \<le> b" using fill_blocks [of 0 b 0 gs] assms(3) by (cases gs) auto
  then show False using assms(2) by simp
qed

text \<open>C34: Appending groups to a turn leaves alone every segment after which more blocks remain than the budget: the first
  \<open>k\<close> segments of the plan are those of the extended plan when the groups after them hold more than the budget.\<close>

theorem append_keeps_settled_segments:
  assumes "plan_segments gs (Some b) fraction = Inr segs" "plan_segments (gs @ new) (Some b) fraction = Inr segs'"
    and "\<forall>g \<in> set gs. 0 \<le> fg_blocks g" "b < blocks_of (concat (map sg_groups (drop k segs)))"
  shows "take k segs' = take k segs"
proof -
  obtain f where segs: "segs = plan_loop b f 0 gs" "segs' = plan_loop b f 0 (gs @ new)" and b: "0 < b"
    using assms(1,2) by (auto simp: plan_segments_def Let_def split: if_splits)
  have "take k (plan_loop b f m (gs @ new)) = take k (plan_loop b f m gs)"
    if "\<forall>g \<in> set gs. 0 \<le> fg_blocks g" "b < blocks_of (concat (map sg_groups (drop k (plan_loop b f m gs))))" for m gs
    using that
  proof (induction k arbitrary: m gs)
    case (Suc k)
    let ?n = "segment_length b f gs"
    have ne: "gs \<noteq> []" using Suc.prems(2) b by auto
    have nb: "b < blocks_of (concat (map sg_groups (drop k (plan_loop b f (Suc m) (drop ?n gs)))))"
      using Suc.prems(2) ne by (simp add: plan_loop_Cons)
    have "drop ?n gs \<noteq> []" using nb b by (metis concat.simps(1) drop_Nil list.simps(8) blocks_of_simps(1) not_less_iff_gr_or_eq plan_loop_Nil)
    then have n: "?n < length gs" "0 < ?n" using segment_length_range [OF ne, of b f] by auto
    have part: "concat (map sg_groups (plan_loop b f (Suc m) (drop ?n gs))) = drop ?n gs" using plan_loop_partition by blast
    have sub: "\<forall>g \<in> set (drop ?n gs). 0 \<le> fg_blocks g" using Suc.prems(1) by (meson in_set_dropD)
    have rest_le: "blocks_of (concat (map sg_groups (drop k (plan_loop b f (Suc m) (drop ?n gs))))) \<le> blocks_of gs"
    proof -
      let ?p = "plan_loop b f (Suc m) (drop ?n gs)"
      have e: "gs = take ?n gs @ concat (map sg_groups (take k ?p)) @ concat (map sg_groups (drop k ?p))"
        using part by (metis append_take_drop_id concat_append map_append)
      have "0 \<le> blocks_of xs" if "set xs \<subseteq> set gs" for xs
        unfolding blocks_of_def by (rule sum_list_nonneg) (use Suc.prems(1) that in auto)
      moreover have "set (take ?n gs) \<subseteq> set gs" "set (concat (map sg_groups (take k ?p))) \<subseteq> set gs"
        using e by (metis set_take_subset, metis Un_iff set_append subsetI)
      ultimately have "0 \<le> blocks_of (take ?n gs)" "0 \<le> blocks_of (concat (map sg_groups (take k ?p)))" by blast+
      then show ?thesis by (subst (2) e) (simp only: blocks_of_simps(3))
    qed
    have "b < blocks_of gs" "1 < length gs" using nb rest_le n by linarith+
    then have fw: "fill b 0 0 gs < length gs" by (rule fill_within [OF Suc.prems(1)])
    have "segment_length b f (gs @ new) = ?n" by (rule segment_length_append [OF fw n(1) ne])
    then show ?case using Suc.IH [OF sub nb] ne n by (simp add: plan_loop_Cons)
  qed simp
  from this [OF assms(3), of 0] assms(4) show ?thesis unfolding segs by simp
qed


section \<open>Concrete turns\<close>

definition sample_group :: "int \<Rightarrow> bool \<Rightarrow> bool \<Rightarrow> int \<Rightarrow> nat fold_group" where
  "sample_group blocks title tool pos = \<lparr>fg_rows = [nat pos], fg_blocks = blocks, fg_bytes = 1, fg_title = title, fg_tool = tool,
     fg_first = Some pos, fg_last = Some pos\<rparr>"

definition sample_turn :: "nat fold_group list" where
  "sample_turn = [sample_group 30 False False 0, sample_group 6 False True 1, sample_group 2 False False 2]"

text \<open>Appending does move an earlier boundary while the turn's tail still fits the budget: with a budget of 40 this turn
  of 38 blocks is cut before its tool transition, and once a reasoning title of one block is appended the first
  segment ends before the title instead, so the anchor of the second segment changes.\<close>

theorem append_moves_boundary:
  "map_sum id (map sg_anchor) (plan_segments sample_turn None None) = Inr [Some 0, Some 1]
    \<and> map_sum id (map sg_anchor) (plan_segments (sample_turn @ [sample_group 1 True False 3]) None None) = Inr [Some 0, Some 3]"
  by code_simp

definition sample_long :: "nat fold_group list" where
  "sample_long = [sample_group 30 False False 0, sample_group 8 False True 1, sample_group 30 False False 2, sample_group 30 False False 3]"

definition sample_plan :: "nat fold_group list \<Rightarrow> nat segment list" where
  "sample_plan gs = projr (plan_segments gs (Some 40) (Some (1 / 4)))"

lemma sample_segments: "plan_segments gs (Some 40) (Some (1 / 4)) = Inr (sample_plan gs)"
  by (simp add: sample_plan_def plan_segments_def)

lemma sample_lengths: "map (length \<circ> sg_groups) (sample_plan sample_long) = [1, 2, 1]"
  by code_simp


lemma sample_groups: "map sg_groups (sample_plan sample_long)
    = [[sample_group 30 False False 0], [sample_group 8 False True 1, sample_group 30 False False 2], [sample_group 30 False False 3]]"
  by code_simp

lemma sample_count: "length (sample_plan sample_long) = 3"
  using arg_cong [OF sample_groups, of length] by simp

theorem segment_bounds_witness:
  "\<exists>n. 0 < n \<and> n \<le> length (sg_groups (sample_plan sample_long ! 1))
      \<and> (n = 1 \<or> blocks_of (take n (sg_groups (sample_plan sample_long ! 1))) \<le> 40)
      \<and> (\<forall>j. n \<le> j \<and> j < length (sg_groups (sample_plan sample_long ! 1)) \<longrightarrow> (\<exists>p l.
            fg_first (sg_groups (sample_plan sample_long ! 1) ! j) = Some p \<and> p \<le> l
            \<and> l \<in> set (ends_of (take j (sg_groups (sample_plan sample_long ! 1))))))
      \<and> (Suc 1 < length (sample_plan sample_long) \<longrightarrow> floor_of 40 (1 / 4) \<le> sg_blocks (sample_plan sample_long ! 1)
            \<or> 40 < sg_blocks (sample_plan sample_long ! 1) + fg_blocks (hd (sg_groups (sample_plan sample_long ! Suc 1))))"
  by (rule segment_bounds [OF sample_segments], simp add: sample_count) (simp add: sample_long_def sample_group_def)

theorem segments_contiguous_witness:
  "the (fg_last (sample_group 30 False False 0)) < the (fg_first (sample_group 30 False False 3))"
proof (rule segments_contiguous [OF sample_segments, where i = 0 and j = 2])
  show "\<forall>g \<in> set sample_long. fg_first g \<noteq> None \<and> fg_last g \<noteq> None"
    "sorted_wrt (<) (map (the \<circ> fg_first) sample_long)"
    by (simp_all add: sample_long_def sample_group_def)
  show "sample_group 30 False False 0 \<in> set (sg_groups (sample_plan sample_long ! 0))"
    "sample_group 30 False False 3 \<in> set (sg_groups (sample_plan sample_long ! 2))"
    using arg_cong [OF sample_groups, of "\<lambda>x. x ! 0"] arg_cong [OF sample_groups, of "\<lambda>x. x ! 2"]
    by (simp_all add: sample_count)
qed (simp_all add: sample_count)

theorem append_keeps_settled_segments_witness:
  "take 1 (sample_plan (sample_long @ [sample_group 1 True False 4])) = take 1 (sample_plan sample_long)"
proof (rule append_keeps_settled_segments [OF sample_segments sample_segments])
  show "\<forall>g \<in> set sample_long. 0 \<le> fg_blocks g" by (simp add: sample_long_def sample_group_def)
  show "40 < blocks_of (concat (map sg_groups (drop 1 (sample_plan sample_long))))"
    unfolding drop_map [symmetric] sample_groups by (simp add: sample_group_def)
qed

end
