(* ===== verification/Anchor_Forest.thy ===== *)
theory Anchor_Forest
  imports Prelude
begin

text \<open>
  The parent dictionary of \<open>ResetAnchorComponents\<close> (\<open>bin/_lib_quota.py\<close>) and its lookup \<open>_find\<close>. The lookup
  recurses along parents with no bound in the code and may raise on a missing key, so it is a
  \<open>partial_function\<close> into \<^typ>\<open>'a option\<close> of results: \<open>None\<close> is a lookup that does not return. The
  relation \<open>climbs P v n r\<close> says that from \<open>v\<close> the root \<open>r\<close> is reached in \<open>n\<close> steps. It describes when the
  lookup returns, what it returns, and that compressing the path changes no root.

  An instant is a \<open>datetime\<close> with a time zone: the number of microseconds since the epoch. The seconds the
  code computes from it in floating point are compared with whole numbers of seconds only; microseconds are
  far apart enough that rounding never moves one across such a number.
\<close>

type_synonym instant = int

datatype anchor_error = KeyError instant | ValueError string

section \<open>Computations that may raise or not return\<close>

type_synonym 'a run = "(anchor_error + 'a) option"

definition ret :: "'a \<Rightarrow> 'a run" where "ret x = Some (Inr x)"
definition raise_error :: "anchor_error \<Rightarrow> 'a run" where "raise_error e = Some (Inl e)"

definition run_bind :: "'a run \<Rightarrow> ('a \<Rightarrow> 'b run) \<Rightarrow> 'b run" where
  "run_bind m f = Option.bind m (\<lambda>r. case r of Inl e \<Rightarrow> Some (Inl e) | Inr x \<Rightarrow> f x)"

lemma run_bind_simps [simp]:
  "run_bind (ret x) f = f x"
  "run_bind (raise_error e) f = raise_error e"
  by (simp_all add: run_bind_def ret_def raise_error_def)

lemma run_bind_ret_iff: "run_bind m f = ret y \<longleftrightarrow> (\<exists>x. m = ret x \<and> f x = ret y)"
  by (cases m) (auto simp: run_bind_def ret_def split: sum.splits)

lemma ret_inject [simp]: "ret x = ret y \<longleftrightarrow> x = y"
  by (simp add: ret_def)

text \<open>A loop over a list.\<close>

fun run_fold :: "('s \<Rightarrow> 'a \<Rightarrow> 's run) \<Rightarrow> 's \<Rightarrow> 'a list \<Rightarrow> 's run" where
  "run_fold f s [] = ret s"
| "run_fold f s (x # xs) = run_bind (f s x) (\<lambda>t. run_fold f t xs)"

text \<open>\<open>d[k]\<close> and \<open>del d[k]\<close>.\<close>

definition item :: "(instant, 'v) dict \<Rightarrow> instant \<Rightarrow> 'v run" where
  "item d k = (case dget d k of None \<Rightarrow> raise_error (KeyError k) | Some v \<Rightarrow> ret v)"

definition del_item :: "(instant, 'v) dict \<Rightarrow> instant \<Rightarrow> (instant, 'v) dict run" where
  "del_item d k = (case dget d k of None \<Rightarrow> raise_error (KeyError k) | Some _ \<Rightarrow> ret (dwithout [k] d))"

lemma item_Some [simp]: "dget d k = Some v \<Longrightarrow> item d k = ret v"
  by (simp add: item_def)

lemma del_item_Some [simp]: "dget d k = Some v \<Longrightarrow> del_item d k = ret (dwithout [k] d)"
  by (simp add: del_item_def)

section \<open>The lookup\<close>

partial_function (option) find_root :: "(instant, instant) dict \<Rightarrow> instant \<Rightarrow> (instant \<times> (instant, instant) dict) run" where
  "find_root parent v = (case dget parent v of
     None \<Rightarrow> raise_error (KeyError v)
   | Some p \<Rightarrow>
       if p = v then ret (v, parent)
       else Option.bind (find_root parent p) (\<lambda>r. case r of
           Inl e \<Rightarrow> raise_error e
         | Inr (root, parent') \<Rightarrow> ret (root, dset v root parent')))"

declare find_root.simps [code]

section \<open>Roots\<close>

inductive climbs :: "(instant \<rightharpoonup> instant) \<Rightarrow> instant \<Rightarrow> nat \<Rightarrow> instant \<Rightarrow> bool" for P where
  climbs_root: "P r = Some r \<Longrightarrow> climbs P r 0 r"
| climbs_step: "P v = Some p \<Longrightarrow> p \<noteq> v \<Longrightarrow> climbs P p n r \<Longrightarrow> climbs P v (Suc n) r"

inductive_cases climbs_stepE: "climbs P v n r"

definition rep_of :: "(instant \<rightharpoonup> instant) \<Rightarrow> instant \<Rightarrow> instant \<Rightarrow> bool" where
  "rep_of P v r \<longleftrightarrow> (\<exists>n. climbs P v n r)"

text \<open>Every member reaches a root.\<close>

definition forest :: "(instant \<rightharpoonup> instant) \<Rightarrow> bool" where
  "forest P \<longleftrightarrow> (\<forall>v \<in> dom P. \<exists>r. rep_of P v r)"

lemma climbs_is_root: "climbs P v n r \<Longrightarrow> P r = Some r"
  by (induction rule: climbs.induct)

lemma climbs_dom: "climbs P v n r \<Longrightarrow> P v \<noteq> None"
  by (induction rule: climbs.induct) auto

lemma climbs_unique: "climbs P v n r \<Longrightarrow> climbs P v m s \<Longrightarrow> m = n \<and> s = r"
proof (induction arbitrary: m s rule: climbs.induct)
  case (climbs_root r)
  then show ?case by (auto elim: climbs_stepE)
next
  case (climbs_step v p n r)
  from climbs_step.prems climbs_step.hyps(1,2) obtain k where "m = Suc k" "climbs P p k s"
    by (auto elim: climbs_stepE)
  then show ?case using climbs_step.IH by auto
qed

lemma rep_of_unique: "rep_of P v r \<Longrightarrow> rep_of P v s \<Longrightarrow> s = r"
  unfolding rep_of_def using climbs_unique by blast

lemma rep_of_root_iff: "P r = Some r \<Longrightarrow> rep_of P r s \<longleftrightarrow> s = r"
  by (metis climbs_root rep_of_def rep_of_unique)

lemma rep_of_is_root: "rep_of P v r \<Longrightarrow> P r = Some r"
  by (auto simp: rep_of_def climbs_is_root)

lemma rep_of_dom: "rep_of P v r \<Longrightarrow> v \<in> dom P"
  by (auto simp: rep_of_def dest: climbs_dom)

lemma rep_of_stepI: "P v = Some p \<Longrightarrow> p \<noteq> v \<Longrightarrow> rep_of P p r \<Longrightarrow> rep_of P v r"
  using climbs_step [of P v p] unfolding rep_of_def by blast

lemma rep_of_rootI: "P r = Some r \<Longrightarrow> rep_of P r r"
  by (simp add: rep_of_root_iff)

lemma rep_of_step: "P v = Some p \<Longrightarrow> p \<noteq> v \<Longrightarrow> rep_of P v r \<longleftrightarrow> rep_of P p r"
proof
  assume p: "P v = Some p" "p \<noteq> v" and "rep_of P v r"
  then obtain n where "climbs P v n r" by (auto simp: rep_of_def)
  then show "rep_of P p r"
  proof cases
    case (climbs_step q m)
    then show ?thesis using p unfolding rep_of_def by auto
  qed (use p in auto)
qed (rule rep_of_stepI)

lemma rep_of_self: "rep_of P r r \<longleftrightarrow> P r = Some r"
  using rep_of_rootI rep_of_is_root by blast

lemma forest_rep: "forest P \<Longrightarrow> v \<in> dom P \<Longrightarrow> \<exists>r. rep_of P v r"
  by (simp add: forest_def)

lemma forest_parent: "forest P \<Longrightarrow> P v = Some p \<Longrightarrow> p \<in> dom P"
  by (metis domI forest_def rep_of_dom rep_of_step)

text \<open>Rule induction along the climb, for the roots alone.\<close>

lemma rep_of_induct [consumes 1, case_names root step]:
  assumes "rep_of P v r"
    and "P r = Some r \<Longrightarrow> Q r"
    and "\<And>v p. P v = Some p \<Longrightarrow> p \<noteq> v \<Longrightarrow> rep_of P p r \<Longrightarrow> Q p \<Longrightarrow> Q v"
  shows "Q v"
proof -
  from assms(1) obtain n where "climbs P v n r" by (auto simp: rep_of_def)
  then show ?thesis using assms(2,3)
  proof (induction rule: climbs.induct)
    case (climbs_root r)
    then show ?case by simp
  next
    case (climbs_step v p n r)
    have "rep_of P p r" using climbs_step.hyps(3) by (auto simp: rep_of_def)
    then show ?case using climbs_step by blast
  qed
qed

subsection \<open>Pointing a member at its root\<close>

lemma compress_rep:
  assumes r: "rep_of P v r" and x: "rep_of P x s"
  shows "rep_of (P(v \<mapsto> r)) x s"
  using x
proof (induction rule: rep_of_induct)
  case root
  show ?case
  proof (cases "s = v")
    case True
    then have "r = s" using r root rep_of_root_iff by blast
    then show ?thesis using True by (intro rep_of_rootI) simp
  next
    case False
    then show ?thesis using root by (intro rep_of_rootI) simp
  qed
next
  case (step x p)
  show ?case
  proof (cases "x = v")
    case True
    have rx: "rep_of P x s" using step rep_of_step by blast
    then have s: "s = r" using r True rep_of_unique by blast
    have "r \<noteq> v" using True step(1,2) rep_of_is_root [OF r] by auto
    moreover have "(P(v \<mapsto> r)) r = Some r" using rep_of_is_root [OF r] \<open>r \<noteq> v\<close> by simp
    moreover have "rep_of (P(v \<mapsto> r)) v r"
      by (rule rep_of_stepI [where p = r]) (use \<open>r \<noteq> v\<close> calculation in \<open>auto intro: rep_of_rootI\<close>)
    ultimately show ?thesis unfolding True s by blast
  next
    case False
    show ?thesis by (rule rep_of_stepI [where p = p]) (use False step in simp_all)
  qed
qed

lemma compress_forest:
  assumes "forest P" and "rep_of P v r"
  shows "forest (P(v \<mapsto> r))"
proof -
  have "dom (P(v \<mapsto> r)) = dom P" using rep_of_dom [OF assms(2)] by auto
  then show ?thesis
    using assms compress_rep [OF assms(2)] by (metis forest_def)
qed

text \<open>Two forests with the same members and, for each, the same root.\<close>

definition same_roots :: "(instant \<rightharpoonup> instant) \<Rightarrow> (instant \<rightharpoonup> instant) \<Rightarrow> bool" where
  "same_roots P Q \<longleftrightarrow> dom P = dom Q \<and> (\<forall>x s. rep_of P x s \<longleftrightarrow> rep_of Q x s)"

lemma same_rootsI:
  assumes f: "forest P" and d: "dom P = dom Q" and imp: "\<And>x s. rep_of P x s \<Longrightarrow> rep_of Q x s"
  shows "same_roots P Q"
proof -
  have "rep_of P x s" if q: "rep_of Q x s" for x s
  proof -
    have "x \<in> dom P" using rep_of_dom [OF q] d by simp
    then obtain t where t: "rep_of P x t" using f forest_def by blast
    then have "t = s" using rep_of_unique [OF q imp [OF t]] by simp
    then show ?thesis using t by simp
  qed
  then show ?thesis using d imp unfolding same_roots_def by blast
qed

lemma same_roots_refl [simp]: "same_roots P P"
  by (simp add: same_roots_def)

lemma same_roots_trans: "same_roots P Q \<Longrightarrow> same_roots Q R \<Longrightarrow> same_roots P R"
  unfolding same_roots_def by metis

lemma same_roots_forest: "same_roots P Q \<Longrightarrow> forest P \<Longrightarrow> forest Q"
  unfolding same_roots_def forest_def by metis

lemma same_roots_is_root: "same_roots P Q \<Longrightarrow> P r = Some r \<longleftrightarrow> Q r = Some r"
  using rep_of_self [of P r] rep_of_self [of Q r] unfolding same_roots_def by blast

lemma same_roots_rep: "same_roots P Q \<Longrightarrow> rep_of Q x s \<longleftrightarrow> rep_of P x s"
  unfolding same_roots_def by blast

lemma same_roots_dom: "same_roots P Q \<Longrightarrow> dom Q = dom P"
  unfolding same_roots_def by blast

subsection \<open>What the lookup returns\<close>

text \<open>A lookup of a member whose climb ends returns the root; the new dictionary has the same roots.\<close>

lemma find_root_returns:
  assumes "climbs (dget parent) v n r" and "forest (dget parent)"
  shows "\<exists>parent'. find_root parent v = ret (r, parent') \<and> same_roots (dget parent) (dget parent')
           \<and> dkeys parent' = dkeys parent
           \<and> (\<forall>x. dget parent' x = dget parent x \<or> (rep_of (dget parent) x r \<and> dget parent' x = Some r))"
  using assms(1)
proof (induction rule: climbs.induct)
  case (climbs_root r)
  then show ?case by (subst find_root.simps) simp
next
  case (climbs_step v p n r)
  then obtain parent' where f: "find_root parent p = ret (r, parent')"
    and sr: "same_roots (dget parent) (dget parent')" and k: "dkeys parent' = dkeys parent"
    and un: "\<And>x. dget parent' x = dget parent x \<or> (rep_of (dget parent) x r \<and> dget parent' x = Some r)" by blast
  have rv: "rep_of (dget parent) v r" using climbs_step.hyps rep_of_step by (auto simp: rep_of_def intro: climbs.climbs_step)
  have rv': "rep_of (dget parent') v r" using sr rv by (simp add: same_roots_def)
  have eq: "dget (dset v r parent') = (dget parent')(v \<mapsto> r)" by (rule update_conv')
  have v_in: "v \<in> set (dkeys parent')" using rep_of_dom [OF rv'] by (metis dget_None_iff domIff)
  have dk: "dkeys (dset v r parent') = dkeys parent'"
    using v_in by (simp add: dkeys_def update_keys)
  have sr': "same_roots (dget parent') (dget (dset v r parent'))"
    unfolding eq
  proof (rule same_rootsI)
    show "forest (dget parent')" by (rule same_roots_forest [OF sr assms(2)])
    show "dom (dget parent') = dom ((dget parent')(v \<mapsto> r))" using rep_of_dom [OF rv'] by auto
    show "\<And>x s. rep_of (dget parent') x s \<Longrightarrow> rep_of ((dget parent')(v \<mapsto> r)) x s" by (rule compress_rep [OF rv'])
  qed
  have "find_root parent v = ret (r, dset v r parent')"
    using climbs_step.hyps(1,2) f by (subst find_root.simps) (simp add: ret_def)
  moreover have "dget (dset v r parent') x = dget parent x \<or> (rep_of (dget parent) x r \<and> dget (dset v r parent') x = Some r)" for x
    using un [of x] rv by (simp add: dget_dset)
  ultimately show ?case
    using same_roots_trans [OF sr sr'] k dk by metis
qed

subsection \<open>Joining two roots, adding a member\<close>

lemma link_rep:
  assumes l: "P l = Some l" and r: "P r = Some r" and ne: "l \<noteq> r" and x: "rep_of P x s"
  shows "rep_of (P(r \<mapsto> l)) x (if s = r then l else s)"
  using x
proof (induction rule: rep_of_induct)
  case root
  have ll: "rep_of (P(r \<mapsto> l)) l l" using l ne by (intro rep_of_rootI) simp
  have rl: "rep_of (P(r \<mapsto> l)) r l" by (rule rep_of_stepI [where p = l]) (use ll ne in simp_all)
  show ?case
  proof (cases "s = r")
    case True
    then show ?thesis using rl by (simp del: fun_upd_apply)
  next
    case False
    then have "(P(r \<mapsto> l)) s = Some s" using root by simp
    then show ?thesis unfolding if_not_P [OF False] by (rule rep_of_rootI)
  qed
next
  case (step x p)
  then have "x \<noteq> r" using r by auto
  then have "(P(r \<mapsto> l)) x = Some p" using step by simp
  then show ?case using step rep_of_stepI by blast
qed

lemma link_rep_iff:
  assumes f: "forest P" and l: "P l = Some l" and r: "P r = Some r" and ne: "l \<noteq> r"
  shows "rep_of (P(r \<mapsto> l)) x s \<longleftrightarrow> (\<exists>t. rep_of P x t \<and> s = (if t = r then l else t))"
proof
  assume a: "rep_of (P(r \<mapsto> l)) x s"
  have "x \<in> dom P" using rep_of_dom [OF a] r by (auto split: if_splits)
  then obtain t where t: "rep_of P x t" using f forest_def by blast
  then show "\<exists>t. rep_of P x t \<and> s = (if t = r then l else t)"
    using rep_of_unique [OF a] link_rep [OF l r ne t] by blast
next
  assume "\<exists>t. rep_of P x t \<and> s = (if t = r then l else t)"
  then show "rep_of (P(r \<mapsto> l)) x s" using link_rep [OF l r ne] by blast
qed

lemma link_forest:
  assumes "forest P" and "P l = Some l" and "P r = Some r" and "l \<noteq> r"
  shows "forest (P(r \<mapsto> l))"
proof -
  have "dom (P(r \<mapsto> l)) = dom P" using assms(3) by auto
  then show ?thesis using assms link_rep_iff [OF assms] by (metis forest_def)
qed

lemma fresh_rep_iff:
  assumes f: "forest P" and x: "P x = None"
  shows "rep_of (P(x \<mapsto> x)) y s \<longleftrightarrow> rep_of P y s \<or> (y = x \<and> s = x)"
proof -
  have old: "rep_of (P(x \<mapsto> x)) y s" if "rep_of P y s" for y s
    using that
  proof (induction rule: rep_of_induct)
    case root
    then have "s \<noteq> x" using x by auto
    then show ?case using root by (intro rep_of_rootI) simp
  next
    case (step v p)
    then have "v \<noteq> x" using x by auto
    then have "(P(x \<mapsto> x)) v = Some p" using step by simp
    then show ?case using step rep_of_stepI by blast
  qed
  have new: "rep_of (P(x \<mapsto> x)) x x" by (rule rep_of_rootI) simp
  show ?thesis
  proof
    assume a: "rep_of (P(x \<mapsto> x)) y s"
    show "rep_of P y s \<or> (y = x \<and> s = x)"
    proof (cases "y = x")
      case True
      then show ?thesis using a new rep_of_unique by blast
    next
      case False
      then have "y \<in> dom P" using rep_of_dom [OF a] by (auto split: if_splits)
      then obtain t where "rep_of P y t" using f forest_def by blast
      then show ?thesis using old rep_of_unique [OF a] by blast
    qed
  qed (use old new in auto)
qed

lemma fresh_forest: "forest P \<Longrightarrow> P x = None \<Longrightarrow> forest (P(x \<mapsto> x))"
  using fresh_rep_iff [of P x] unfolding forest_def by (metis domIff fun_upd_other)

lemma forest_empty [simp]: "forest Map.empty"
  by (simp add: forest_def)

end
