(* ===== verification/Reset_Anchors.thy ===== *)
theory Reset_Anchors
  imports Anchor_Forest
begin

text \<open>
  Reset anchors of \<open>bin/_lib_quota.py\<close>: the linear rule \<open>_resolve_reset_anchor_linear\<close> with its bucketed index
  \<open>ResetAnchorIndex\<close>, and \<open>ResetAnchorComponents\<close>, the union-find over raw resets that unions what lies within
  the tolerance and keeps the member of the smallest order key as the component's anchor. The state is the
  record \<open>anchor_components\<close>, one field per slot.
\<close>

section \<open>The linear rule and its index\<close>

definition CODEX_RESET_ANCHOR_TOLERANCE_SECONDS :: int where
  "CODEX_RESET_ANCHOR_TOLERANCE_SECONDS = 600"

definition MICROS :: int where "MICROS = 1000000"

text \<open>The body shared by both loops: the nearest anchor within the tolerance, the earlier on a tie.\<close>

definition nearest_step :: "int \<Rightarrow> instant \<Rightarrow> (instant \<times> int) option \<Rightarrow> instant \<Rightarrow> (instant \<times> int) option" where
  "nearest_step tolerance_seconds raw_reset best anchor =
     (let delta = \<bar>raw_reset - anchor\<bar> in
      if delta > tolerance_seconds * MICROS then best
      else case best of
          None \<Rightarrow> Some (anchor, delta)
        | Some (b, best_delta) \<Rightarrow>
            if delta < best_delta \<or> (delta = best_delta \<and> anchor < b) then Some (anchor, delta) else best)"

definition resolve_reset_anchor_linear :: "instant list \<Rightarrow> instant \<Rightarrow> int \<Rightarrow> instant" where
  "resolve_reset_anchor_linear anchors raw_reset tolerance_seconds =
     (case foldl (nearest_step tolerance_seconds raw_reset) None anchors of
        None \<Rightarrow> raw_reset | Some (best, _) \<Rightarrow> best)"

record anchor_index =
  ix_tolerance :: int
  ix_buckets :: "(int, instant list) dict"
  ix_order :: "instant list"

definition bucket_of :: "int \<Rightarrow> instant \<Rightarrow> int" where
  "bucket_of tolerance v = v div (tolerance * MICROS)"

definition index_add :: "instant \<Rightarrow> anchor_index \<Rightarrow> bool \<times> anchor_index" where
  "index_add anchor ix =
     (let b = bucket_of (ix_tolerance ix) anchor; bucket = dget_or (ix_buckets ix) b [] in
      if anchor \<in> set bucket then (False, ix\<lparr>ix_buckets := dset b bucket (ix_buckets ix)\<rparr>)
      else (True, ix\<lparr>ix_buckets := dset b (bucket @ [anchor]) (ix_buckets ix),
                     ix_order := ix_order ix @ [anchor]\<rparr>))"

definition new_index :: "instant list \<Rightarrow> int \<Rightarrow> anchor_error + anchor_index" where
  "new_index anchors tolerance_seconds =
     (if tolerance_seconds \<le> 0 then Inl (ValueError ''tolerance_seconds must be positive'')
      else Inr (foldl (\<lambda>ix a. snd (index_add a ix))
             \<lparr>ix_tolerance = tolerance_seconds, ix_buckets = [], ix_order = []\<rparr> anchors))"

text \<open>The three buckets around the probe, in the order of the loop.\<close>

definition probe_buckets :: "(int, instant list) dict \<Rightarrow> int \<Rightarrow> instant list" where
  "probe_buckets buckets probe = concat (map (\<lambda>b. dget_or buckets b []) [probe - 1, probe, probe + 1])"

definition index_resolve :: "anchor_index \<Rightarrow> instant \<Rightarrow> instant" where
  "index_resolve ix raw_reset =
     (case foldl (nearest_step (ix_tolerance ix) raw_reset) None
             (probe_buckets (ix_buckets ix) (bucket_of (ix_tolerance ix) raw_reset)) of
        None \<Rightarrow> raw_reset | Some (best, _) \<Rightarrow> best)"

definition index_contains :: "anchor_index \<Rightarrow> instant \<Rightarrow> bool" where
  "index_contains ix anchor \<longleftrightarrow> anchor \<in> set (dget_or (ix_buckets ix) (bucket_of (ix_tolerance ix) anchor) [])"

datatype anchor_population = Sequence "instant list" | Indexed anchor_index

definition resolve_reset_anchor :: "anchor_population \<Rightarrow> instant \<Rightarrow> int \<Rightarrow> instant" where
  "resolve_reset_anchor anchors raw_reset tolerance_seconds = (case anchors of
     Indexed ix \<Rightarrow> if ix_tolerance ix = tolerance_seconds then index_resolve ix raw_reset
       else resolve_reset_anchor_linear (ix_order ix) raw_reset tolerance_seconds
   | Sequence xs \<Rightarrow> resolve_reset_anchor_linear xs raw_reset tolerance_seconds)"

section \<open>The components\<close>

type_synonym order_key = "string \<times> int \<times> int"

record anchor_components =
  ac_tolerance :: int
  ac_buckets :: "(int, instant list) dict"
  ac_parent :: "(instant, instant) dict"
  ac_rank :: "(instant, nat) dict"
  ac_anchor :: "(instant, instant) dict"
  ac_first_order :: "(instant, order_key) dict"
  ac_member_order :: "(instant, order_key) dict"
  ac_next_order :: int

definition find_in :: "anchor_components \<Rightarrow> instant \<Rightarrow> (instant \<times> anchor_components) run" where
  "find_in c v = run_bind (find_root (ac_parent c) v) (\<lambda>(r, parent). ret (r, c\<lparr>ac_parent := parent\<rparr>))"

text \<open>The end of \<open>_union\<close>: \<open>right\<close> is hung below \<open>left\<close>.\<close>

definition link_roots :: "anchor_components \<Rightarrow> instant \<Rightarrow> instant \<Rightarrow> bool \<Rightarrow> (instant \<times> anchor_components) run" where
  "link_roots c left right equal =
     run_bind (item (ac_rank c) left) (\<lambda>rank.
     run_bind (item (ac_first_order c) right) (\<lambda>first_right.
     run_bind (item (ac_first_order c) left) (\<lambda>first_left.
     run_bind (item (ac_anchor c) right) (\<lambda>anchor_right.
     (let anchors = (if first_right < first_left then dset left anchor_right (ac_anchor c) else ac_anchor c);
          firsts = (if first_right < first_left then dset left first_right (ac_first_order c) else ac_first_order c) in
      run_bind (del_item anchors right) (\<lambda>anchors'.
      run_bind (del_item firsts right) (\<lambda>firsts'.
        ret (left, c\<lparr>ac_parent := dset right left (ac_parent c),
                     ac_rank := (if equal then dset left (rank + 1) (ac_rank c) else ac_rank c),
                     ac_anchor := anchors', ac_first_order := firsts'\<rparr>))))))))"

definition union_in :: "anchor_components \<Rightarrow> instant \<Rightarrow> instant \<Rightarrow> (instant \<times> anchor_components) run" where
  "union_in c0 left right =
     run_bind (find_in c0 left) (\<lambda>(left_root, c1).
     run_bind (find_in c1 right) (\<lambda>(right_root, c).
       if left_root = right_root then ret (left_root, c)
       else run_bind (item (ac_rank c) left_root) (\<lambda>rank_left.
            run_bind (item (ac_rank c) right_root) (\<lambda>rank_right.
              if rank_left < rank_right then link_roots c right_root left_root (rank_left = rank_right)
              else link_roots c left_root right_root (rank_left = rank_right)))))"

text \<open>The state after a known member received a smaller order key.\<close>

definition rekeyed :: "anchor_components \<Rightarrow> instant \<Rightarrow> order_key \<Rightarrow> instant \<Rightarrow> order_key \<Rightarrow> anchor_components" where
  "rekeyed c x key root first_key =
     (let c1 = c\<lparr>ac_member_order := dset x key (ac_member_order c)\<rparr> in
      if key < first_key
      then c1\<lparr>ac_first_order := dset root key (ac_first_order c1), ac_anchor := dset root x (ac_anchor c1)\<rparr>
      else c1)"

text \<open>\<open>add\<close> of a raw reset that is a member already.\<close>

definition add_known :: "anchor_components \<Rightarrow> instant \<Rightarrow> order_key \<Rightarrow> ((instant \<times> instant list) \<times> anchor_components) run" where
  "add_known c0 raw_reset order_key =
     run_bind (find_in c0 raw_reset) (\<lambda>(root, c).
     run_bind (item (ac_anchor c) root) (\<lambda>previous.
     run_bind (item (ac_member_order c) raw_reset) (\<lambda>own.
     run_bind (item (ac_first_order c) root) (\<lambda>first_key.
     (let c' = (if order_key < own then rekeyed c raw_reset order_key root first_key else c) in
      run_bind (item (ac_anchor c') root) (\<lambda>winner.
        ret ((winner, if previous \<noteq> winner then [previous] else []), c')))))))"

text \<open>\<open>add\<close> of a new raw reset: it joins every component with a member within the tolerance.\<close>

definition neighbours_of :: "anchor_components \<Rightarrow> instant \<Rightarrow> instant list" where
  "neighbours_of c raw_reset =
     filter (\<lambda>candidate. \<bar>raw_reset - candidate\<bar> \<le> ac_tolerance c * MICROS)
       (probe_buckets (ac_buckets c) (bucket_of (ac_tolerance c) raw_reset))"

definition insert_member :: "anchor_components \<Rightarrow> instant \<Rightarrow> order_key \<Rightarrow> anchor_components" where
  "insert_member c raw_reset order_key =
     (let probe = bucket_of (ac_tolerance c) raw_reset in
      c\<lparr>ac_parent := dset raw_reset raw_reset (ac_parent c),
        ac_rank := dset raw_reset 0 (ac_rank c),
        ac_anchor := dset raw_reset raw_reset (ac_anchor c),
        ac_first_order := dset raw_reset order_key (ac_first_order c),
        ac_member_order := dset raw_reset order_key (ac_member_order c),
        ac_buckets := dset probe (dget_or (ac_buckets c) probe [] @ [raw_reset]) (ac_buckets c)\<rparr>)"

definition prior_step :: "instant list \<times> anchor_components \<Rightarrow> instant \<Rightarrow> (instant list \<times> anchor_components) run" where
  "prior_step s candidate = (case s of (prior, c0) \<Rightarrow>
     run_bind (find_in c0 candidate) (\<lambda>(r, c).
     run_bind (item (ac_anchor c) r) (\<lambda>a. ret (prior @ [a], c))))"

definition union_step :: "instant \<times> anchor_components \<Rightarrow> instant \<Rightarrow> (instant \<times> anchor_components) run" where
  "union_step s candidate = (case s of (root, c) \<Rightarrow> union_in c root candidate)"

definition add_new :: "anchor_components \<Rightarrow> instant \<Rightarrow> order_key \<Rightarrow> ((instant \<times> instant list) \<times> anchor_components) run" where
  "add_new c raw_reset order_key =
     (let neighbours = neighbours_of c raw_reset in
      run_bind (run_fold prior_step ([raw_reset], insert_member c raw_reset order_key) neighbours) (\<lambda>(prior, c1).
      run_bind (run_fold union_step (raw_reset, c1) neighbours) (\<lambda>(root, c2).
      run_bind (find_in c2 root) (\<lambda>(r, c3).
      run_bind (item (ac_anchor c3) r) (\<lambda>winner.
        ret ((winner, sorted_set (filter (\<lambda>a. a \<noteq> winner) prior)), c3))))))"

definition add_raw :: "anchor_components \<Rightarrow> instant \<Rightarrow> order_key option \<Rightarrow> ((instant \<times> instant list) \<times> anchor_components) run" where
  "add_raw c0 raw_reset order_key =
     (let key = (case order_key of None \<Rightarrow> ('''', ac_next_order c0, 0) | Some k \<Rightarrow> k);
          c = c0\<lparr>ac_next_order := ac_next_order c0 + 1\<rparr> in
      if raw_reset \<in> set (dkeys (ac_parent c)) then add_known c raw_reset key else add_new c raw_reset key)"

definition add_step :: "anchor_components \<Rightarrow> instant \<times> order_key option \<Rightarrow> anchor_components run" where
  "add_step c e = run_bind (add_raw c (fst e) (snd e)) (\<lambda>(_, c'). ret c')"

definition empty_components :: "int \<Rightarrow> anchor_components" where
  "empty_components tolerance_seconds =
     \<lparr>ac_tolerance = tolerance_seconds, ac_buckets = [], ac_parent = [], ac_rank = [], ac_anchor = [],
      ac_first_order = [], ac_member_order = [], ac_next_order = 0\<rparr>"

definition new_components :: "instant list \<Rightarrow> int \<Rightarrow> anchor_components run" where
  "new_components raws tolerance_seconds =
     (if tolerance_seconds \<le> 0 then raise_error (ValueError ''tolerance_seconds must be positive'')
      else run_fold add_step (empty_components tolerance_seconds) (map (\<lambda>r. (r, None)) raws))"

definition from_evidence :: "(instant \<times> order_key \<times> int) list \<Rightarrow> int \<Rightarrow> anchor_components run" where
  "from_evidence entries tolerance_seconds =
     (if list_ex (\<lambda>(_, _, row_count). row_count < 1) entries
      then raise_error (ValueError ''row_count must be a positive int'')
      else let total = sum_list (map (\<lambda>(_, _, row_count). row_count) entries) in
        run_bind (new_components [] tolerance_seconds) (\<lambda>c0.
        run_bind (run_fold add_step c0
                    (map (\<lambda>(i, k, _). (i, Some k)) (sort_key (\<lambda>(_, k, _). k) entries))) (\<lambda>c.
          ret (c\<lparr>ac_next_order := total\<rparr>))))"

definition canonical_in :: "anchor_components \<Rightarrow> instant \<Rightarrow> (instant \<times> anchor_components) run" where
  "canonical_in c0 raw_reset =
     run_bind (find_in c0 raw_reset) (\<lambda>(r, c). run_bind (item (ac_anchor c) r) (\<lambda>a. ret (a, c)))"

definition components_contains :: "anchor_components \<Rightarrow> instant \<Rightarrow> bool" where
  "components_contains c anchor \<longleftrightarrow> anchor \<in> set (dget_or (ac_buckets c) (bucket_of (ac_tolerance c) anchor) [])"

text \<open>\<open>__iter__\<close> and \<open>__len__\<close>.\<close>

definition members_of :: "anchor_components \<Rightarrow> instant list" where
  "members_of c = dkeys (ac_parent c)"


section \<open>Three buckets are enough\<close>

text \<open>
  The interface both indices rely on: a dictionary of slots in which every member lies in the slot of its
  quotient by the width. Whoever keeps it may look for the members near a probe in three slots.
\<close>

locale bucketed =
  fixes slots :: "'s \<Rightarrow> (int, instant list) dict"
    and members :: "'s \<Rightarrow> instant set"
    and width :: "'s \<Rightarrow> int"
    and ok :: "'s \<Rightarrow> bool"
  assumes width_pos: "ok s \<Longrightarrow> 0 < width s"
    and slot_iff: "ok s \<Longrightarrow> x \<in> set (dget_or (slots s) b []) \<longleftrightarrow> x \<in> members s \<and> x div width s = b"
begin

lemma near_quotient:
  fixes p x w :: int
  assumes "\<bar>p - x\<bar> \<le> w" and "0 < w"
  shows "x div w \<in> {p div w - 1, p div w, p div w + 1}"
proof -
  have "x div w \<le> (p + 1 * w) div w" using assms by (intro zdiv_mono1) auto
  moreover have "(p + (-1) * w) div w \<le> x div w" using assms by (intro zdiv_mono1) auto
  moreover have "(p + 1 * w) div w = 1 + p div w" using assms(2) by (intro div_mult_self1) simp
  moreover have "(p + (-1) * w) div w = -1 + p div w" using assms(2) by (intro div_mult_self1) simp
  ultimately show ?thesis by auto
qed

lemma near_members:
  assumes "ok s"
  shows "x \<in> set (probe_buckets (slots s) (p div width s)) \<and> \<bar>p - x\<bar> \<le> width s
           \<longleftrightarrow> x \<in> members s \<and> \<bar>p - x\<bar> \<le> width s"
  using near_quotient [of p x "width s"] width_pos [OF assms]
  by (auto simp: probe_buckets_def slot_iff [OF assms])

lemma probe_members: "ok s \<Longrightarrow> x \<in> set (probe_buckets (slots s) b) \<Longrightarrow> x \<in> members s"
  by (auto simp: probe_buckets_def slot_iff)

lemma member_slot: "ok s \<Longrightarrow> x \<in> set (dget_or (slots s) (x div width s) []) \<longleftrightarrow> x \<in> members s"
  by (simp add: slot_iff)

end

subsection \<open>The index\<close>

definition index_ok :: "anchor_index \<Rightarrow> bool" where
  "index_ok ix \<longleftrightarrow> 0 < ix_tolerance ix \<and> distinct (ix_order ix)
     \<and> (\<forall>b x. x \<in> set (dget_or (ix_buckets ix) b []) \<longleftrightarrow> x \<in> set (ix_order ix) \<and> bucket_of (ix_tolerance ix) x = b)"

interpretation index: bucketed ix_buckets "\<lambda>ix. set (ix_order ix)" "\<lambda>ix. ix_tolerance ix * MICROS" index_ok
  by unfold_locales (auto simp: index_ok_def bucket_of_def MICROS_def)

lemma index_add_ok:
  assumes "index_ok ix"
  shows "index_ok (snd (index_add a ix))"
    and "set (ix_order (snd (index_add a ix))) = insert a (set (ix_order ix))"
    and "ix_tolerance (snd (index_add a ix)) = ix_tolerance ix"
    and "fst (index_add a ix) \<longleftrightarrow> a \<notin> set (ix_order ix)"
proof -
  have mem: "a \<in> set (dget_or (ix_buckets ix) (bucket_of (ix_tolerance ix) a) []) \<longleftrightarrow> a \<in> set (ix_order ix)"
    using assms by (auto simp: index_ok_def)
  show "index_ok (snd (index_add a ix))"
    using assms mem by (auto simp: index_ok_def index_add_def Let_def dget_or_def dget_dset)
  show "set (ix_order (snd (index_add a ix))) = insert a (set (ix_order ix))"
    and "ix_tolerance (snd (index_add a ix)) = ix_tolerance ix"
    and "fst (index_add a ix) \<longleftrightarrow> a \<notin> set (ix_order ix)"
    using mem by (auto simp: index_add_def Let_def)
qed

lemma index_adds_ok:
  "index_ok ix \<Longrightarrow> index_ok (foldl (\<lambda>ix a. snd (index_add a ix)) ix xs)
     \<and> set (ix_order (foldl (\<lambda>ix a. snd (index_add a ix)) ix xs)) = set xs \<union> set (ix_order ix)
     \<and> ix_tolerance (foldl (\<lambda>ix a. snd (index_add a ix)) ix xs) = ix_tolerance ix"
  by (induction xs arbitrary: ix) (simp_all add: index_add_ok)

lemma new_index_ok:
  assumes "new_index anchors tol = Inr ix"
  shows "index_ok ix" and "set (ix_order ix) = set anchors" and "ix_tolerance ix = tol"
proof -
  have t: "0 < tol" and e: "ix = foldl (\<lambda>ix a. snd (index_add a ix)) \<lparr>ix_tolerance = tol, ix_buckets = [], ix_order = []\<rparr> anchors"
    using assms by (auto simp: new_index_def split: if_splits)
  have "index_ok \<lparr>ix_tolerance = tol, ix_buckets = [], ix_order = []\<rparr>"
    using t by (simp add: index_ok_def dget_or_def)
  from index_adds_ok [OF this, of anchors] show "index_ok ix" and "set (ix_order ix) = set anchors" and "ix_tolerance ix = tol"
    by (simp_all add: e)
qed

text \<open>The fold yields the near anchor of least distance, the earlier on a tie, whatever the order.\<close>

definition near_anchors :: "int \<Rightarrow> instant \<Rightarrow> instant set \<Rightarrow> instant set" where
  "near_anchors tol raw A = {a \<in> A. \<bar>raw - a\<bar> \<le> tol * MICROS}"

definition distance_key :: "instant \<Rightarrow> instant \<Rightarrow> int \<times> instant" where
  "distance_key raw a = (\<bar>raw - a\<bar>, a)"

definition nearest_of :: "instant \<Rightarrow> instant set \<Rightarrow> (instant \<times> int) option \<Rightarrow> bool" where
  "nearest_of raw A best = (case best of None \<Rightarrow> A = {}
     | Some (b, d) \<Rightarrow> b \<in> A \<and> (d, b) = distance_key raw b \<and> (\<forall>a \<in> A. (d, b) \<le> distance_key raw a))"

lemma nearest_of_unique: "nearest_of raw A x \<Longrightarrow> nearest_of raw A y \<Longrightarrow> x = y"
proof (cases x; cases y)
  fix p q assume xy: "x = Some p" "y = Some q" and n: "nearest_of raw A x" "nearest_of raw A y"
  obtain b d c e where pq: "p = (b, d)" "q = (c, e)" by (metis surj_pair)
  have "(d, b) \<le> distance_key raw c" "(e, c) \<le> distance_key raw b" "(d, b) = distance_key raw b" "(e, c) = distance_key raw c"
    using n unfolding xy pq nearest_of_def by auto
  then have "(d, b) = (e, c)" by (metis order_antisym)
  then show ?thesis unfolding xy pq by simp
qed (auto simp: nearest_of_def)

lemma nearest_step_key:
  "nearest_step tol raw best a = (if \<bar>raw - a\<bar> > tol * MICROS then best
     else case best of None \<Rightarrow> Some (a, \<bar>raw - a\<bar>)
       | Some (b, d) \<Rightarrow> if distance_key raw a < (d, b) then Some (a, \<bar>raw - a\<bar>) else best)"
  unfolding nearest_step_def Let_def distance_key_def less_prod_def
  by (auto split: option.splits prod.splits)

lemma nearest_step_of:
  assumes n: "nearest_of raw (near_anchors tol raw A) best"
  shows "nearest_of raw (near_anchors tol raw (insert a A)) (nearest_step tol raw best a)"
proof (cases "\<bar>raw - a\<bar> > tol * MICROS")
  case True
  then have "near_anchors tol raw (insert a A) = near_anchors tol raw A" by (auto simp: near_anchors_def)
  then show ?thesis using n True by (simp add: nearest_step_key)
next
  case False
  then have ins: "near_anchors tol raw (insert a A) = insert a (near_anchors tol raw A)" by (auto simp: near_anchors_def)
  show ?thesis
  proof (cases best)
    case None
    then show ?thesis using n False unfolding ins by (simp add: nearest_step_key nearest_of_def distance_key_def)
  next
    case (Some p)
    obtain b d where p: "p = (b, d)" by (metis surj_pair)
    have nb: "b \<in> near_anchors tol raw A" "(d, b) = distance_key raw b"
      "\<forall>a \<in> near_anchors tol raw A. (d, b) \<le> distance_key raw a"
      using n unfolding Some p nearest_of_def by auto
    show ?thesis
    proof (cases "distance_key raw a < (d, b)")
      case True
      have "\<forall>x \<in> near_anchors tol raw A. distance_key raw a \<le> distance_key raw x"
        using nb(3) True by (meson less_imp_le order_trans)
      moreover have "nearest_step tol raw best a = Some (a, \<bar>raw - a\<bar>)"
        using True False unfolding Some p by (simp add: nearest_step_key)
      ultimately show ?thesis unfolding ins nearest_of_def by (simp add: distance_key_def)
    next
      case far: False
      have "nearest_step tol raw best a = Some (b, d)"
        using far False unfolding Some p by (simp add: nearest_step_key)
      then show ?thesis using nb far unfolding ins nearest_of_def by (simp add: not_less)
    qed
  qed
qed

lemma nearest_fold_of: "nearest_of raw (near_anchors tol raw (set xs)) (foldl (nearest_step tol raw) None xs)"
proof -
  have "nearest_of raw (near_anchors tol raw (A \<union> set xs)) (foldl (nearest_step tol raw) best xs)"
    if "nearest_of raw (near_anchors tol raw A) best" for A best
    using that
  proof (induction xs arbitrary: A best)
    case (Cons x xs)
    from Cons.IH [OF nearest_step_of [OF Cons.prems, of x]] show ?case by simp
  qed simp
  from this [of "{}" None] show ?thesis by (simp add: nearest_of_def near_anchors_def)
qed

lemma nearest_fold_cong:
  assumes "near_anchors tol raw (set xs) = near_anchors tol raw (set ys)"
  shows "foldl (nearest_step tol raw) None xs = foldl (nearest_step tol raw) None ys"
  using nearest_fold_of [of raw tol xs] nearest_fold_of [of raw tol ys] nearest_of_unique assms by metis

lemma index_resolve_linear:
  assumes "index_ok ix"
  shows "index_resolve ix raw = resolve_reset_anchor_linear (ix_order ix) raw (ix_tolerance ix)"
proof -
  have "near_anchors (ix_tolerance ix) raw (set (probe_buckets (ix_buckets ix) (bucket_of (ix_tolerance ix) raw)))
      = near_anchors (ix_tolerance ix) raw (set (ix_order ix))"
    using index.near_members [OF assms] unfolding near_anchors_def bucket_of_def by auto
  from nearest_fold_cong [OF this] show ?thesis
    by (simp add: index_resolve_def resolve_reset_anchor_linear_def)
qed

lemma linear_set: "set xs = set ys \<Longrightarrow> resolve_reset_anchor_linear xs raw tol = resolve_reset_anchor_linear ys raw tol"
  using nearest_fold_cong [of tol raw xs ys] by (simp add: resolve_reset_anchor_linear_def)

text \<open>The bucketed index answers like the linear scan over the anchors it was built from, in whatever order
  they came, for every probe; it holds exactly those anchors, and the answer is an anchor within the
  tolerance, nearest and on a tie earliest, or the probe itself when none is within the tolerance.\<close>

theorem index_is_linear:
  assumes "new_index anchors tol = Inr ix"
  shows "resolve_reset_anchor (Indexed ix) raw tol = resolve_reset_anchor (Sequence anchors) raw tol
    \<and> (index_contains ix a \<longleftrightarrow> a \<in> set anchors)
    \<and> (let r = resolve_reset_anchor (Indexed ix) raw tol; near = {a \<in> set anchors. \<bar>raw - a\<bar> \<le> tol * MICROS} in
           if near = {} then r = raw
           else r \<in> near \<and> (\<forall>a \<in> near. \<bar>raw - r\<bar> < \<bar>raw - a\<bar> \<or> (\<bar>raw - r\<bar> = \<bar>raw - a\<bar> \<and> r \<le> a)))"
proof (intro conjI)
  note ix = new_index_ok [OF assms]
  show lin: "resolve_reset_anchor (Indexed ix) raw tol = resolve_reset_anchor (Sequence anchors) raw tol"
    using index_resolve_linear [OF ix(1)] linear_set [OF ix(2)] ix(3) by (simp add: resolve_reset_anchor_def)
  show "index_contains ix a \<longleftrightarrow> a \<in> set anchors"
    using index.member_slot [OF ix(1), of a] ix(2) by (simp add: index_contains_def bucket_of_def)
  have "nearest_of raw (near_anchors tol raw (set anchors)) (foldl (nearest_step tol raw) None anchors)"
    by (rule nearest_fold_of)
  then show "let r = resolve_reset_anchor (Indexed ix) raw tol; near = {a \<in> set anchors. \<bar>raw - a\<bar> \<le> tol * MICROS} in
           if near = {} then r = raw
           else r \<in> near \<and> (\<forall>a \<in> near. \<bar>raw - r\<bar> < \<bar>raw - a\<bar> \<or> (\<bar>raw - r\<bar> = \<bar>raw - a\<bar> \<and> r \<le> a))"
    unfolding lin Let_def
    by (auto simp: resolve_reset_anchor_def resolve_reset_anchor_linear_def nearest_of_def near_anchors_def
          distance_key_def less_eq_prod_def
          split: option.splits)
qed

lemma index_is_linear_witness:
  "\<exists>ix. new_index [0, 900000000, 500000000] 600 = Inr ix
     \<and> resolve_reset_anchor (Indexed ix) 700000000 600 = resolve_reset_anchor (Sequence [0, 900000000, 500000000]) 700000000 600
     \<and> index_contains ix 900000000"
proof -
  obtain ix where ix: "new_index [0, 900000000, 500000000] 600 = Inr ix" by (simp add: new_index_def)
  from index_is_linear [OF ix, of 700000000 900000000] ix show ?thesis by auto
qed

section \<open>The state of the components\<close>

abbreviation parent_of :: "anchor_components \<Rightarrow> instant \<rightharpoonup> instant" where
  "parent_of c \<equiv> dget (ac_parent c)"

abbreviation root_in :: "anchor_components \<Rightarrow> instant \<Rightarrow> instant \<Rightarrow> bool" where
  "root_in c v r \<equiv> rep_of (parent_of c) v r"

text \<open>The dictionaries agree on their keys: members, and roots for anchors and first orders.\<close>

definition shaped :: "anchor_components \<Rightarrow> bool" where
  "shaped c \<longleftrightarrow> forest (parent_of c)
     \<and> dom (dget (ac_rank c)) = dom (parent_of c) \<and> dom (dget (ac_member_order c)) = dom (parent_of c)
     \<and> dom (dget (ac_anchor c)) = {r. parent_of c r = Some r}
     \<and> dom (dget (ac_first_order c)) = {r. parent_of c r = Some r}"

text \<open>Two members have one root exactly when the given joins connect them.\<close>

definition partitioned :: "(instant \<times> instant) set \<Rightarrow> anchor_components \<Rightarrow> bool" where
  "partitioned E c \<longleftrightarrow> (\<forall>x y r s. root_in c x r \<longrightarrow> root_in c y s \<longrightarrow> (r = s \<longleftrightarrow> (x, y) \<in> E\<^sup>*))"

text \<open>The anchor of a root is the member below it with the least order key.\<close>

definition anchored_at :: "anchor_components \<Rightarrow> instant \<Rightarrow> bool" where
  "anchored_at c r \<longleftrightarrow> (\<exists>a k. dget (ac_anchor c) r = Some a \<and> dget (ac_first_order c) r = Some k
     \<and> root_in c a r \<and> dget (ac_member_order c) a = Some k
     \<and> (\<forall>v m. root_in c v r \<longrightarrow> dget (ac_member_order c) v = Some m \<longrightarrow> k \<le> m))"

lemma anchored_atI:
  assumes "dget (ac_anchor c) r = Some a" and "dget (ac_first_order c) r = Some k" and "root_in c a r"
    and "dget (ac_member_order c) a = Some k"
    and "\<forall>v m. root_in c v r \<longrightarrow> dget (ac_member_order c) v = Some m \<longrightarrow> k \<le> m"
  shows "anchored_at c r"
  unfolding anchored_at_def using assms by blast

lemma anchored_atD:
  assumes "anchored_at c r" and "dget (ac_anchor c) r = Some a" and "dget (ac_first_order c) r = Some k"
  shows "root_in c a r" and "dget (ac_member_order c) a = Some k"
    and "\<forall>v m. root_in c v r \<longrightarrow> dget (ac_member_order c) v = Some m \<longrightarrow> k \<le> m"
proof -
  obtain a' k' where at: "dget (ac_anchor c) r = Some a'" "dget (ac_first_order c) r = Some k'" "root_in c a' r"
    "dget (ac_member_order c) a' = Some k'"
    "\<forall>v m. root_in c v r \<longrightarrow> dget (ac_member_order c) v = Some m \<longrightarrow> k' \<le> m"
    using assms(1) unfolding anchored_at_def by blast
  have "a' = a" "k' = k" using at(1,2) assms(2,3) by (simp_all only: option.inject)
  then show "root_in c a r" and "dget (ac_member_order c) a = Some k"
    and "\<forall>v m. root_in c v r \<longrightarrow> dget (ac_member_order c) v = Some m \<longrightarrow> k \<le> m"
    using at by blast+
qed

definition anchored :: "anchor_components \<Rightarrow> bool" where
  "anchored c \<longleftrightarrow> (\<forall>r. parent_of c r = Some r \<longrightarrow> anchored_at c r)"

lemma anchoredD: "anchored c \<Longrightarrow> parent_of c r = Some r \<Longrightarrow> anchored_at c r"
  unfolding anchored_def by blast

text \<open>Ranks grow towards the root, and a root of rank \<open>k\<close> has at least \<open>2 ^ k\<close> members below it.\<close>

definition ranked :: "anchor_components \<Rightarrow> bool" where
  "ranked c \<longleftrightarrow> (\<forall>v p i j. parent_of c v = Some p \<longrightarrow> p \<noteq> v \<longrightarrow> dget (ac_rank c) v = Some i
       \<longrightarrow> dget (ac_rank c) p = Some j \<longrightarrow> i < j)
     \<and> (\<forall>r k. parent_of c r = Some r \<longrightarrow> dget (ac_rank c) r = Some k \<longrightarrow> 2 ^ k \<le> card {v. root_in c v r})"

definition slotted :: "anchor_components \<Rightarrow> bool" where
  "slotted c \<longleftrightarrow> 0 < ac_tolerance c
     \<and> (\<forall>b x. x \<in> set (dget_or (ac_buckets c) b []) \<longleftrightarrow> x \<in> set (dkeys (ac_parent c)) \<and> bucket_of (ac_tolerance c) x = b)"

interpretation comps: bucketed ac_buckets "\<lambda>c. set (dkeys (ac_parent c))" "\<lambda>c. ac_tolerance c * MICROS" slotted
  by unfold_locales (auto simp: slotted_def bucket_of_def MICROS_def)

lemma dom_dset: "dom (dget (dset k v d)) = insert k (dom (dget d))"
  by (auto simp: dget_dset split: if_splits)

lemma dom_dwithout: "dom (dget (dwithout [k] d)) = dom (dget d) - {k}"
  by (auto simp: dget_dwithout split: if_splits)

lemma finite_below: "finite {v. root_in c v r}"
proof (rule finite_subset)
  show "{v. root_in c v r} \<subseteq> dom (parent_of c)" using rep_of_dom by blast
qed (rule finite_dom_map_of)

lemma shaped_forest: "shaped c \<Longrightarrow> forest (parent_of c)"
  by (simp add: shaped_def)

lemma shaped_rank: "shaped c \<Longrightarrow> v \<in> dom (parent_of c) \<Longrightarrow> \<exists>k. dget (ac_rank c) v = Some k"
  unfolding shaped_def by blast

lemma shaped_member: "shaped c \<Longrightarrow> v \<in> dom (parent_of c) \<Longrightarrow> \<exists>k. dget (ac_member_order c) v = Some k"
  unfolding shaped_def by blast

lemma member_dom: "v \<in> set (dkeys (ac_parent c)) \<longleftrightarrow> v \<in> dom (parent_of c)"
  using dget_None_iff [of "ac_parent c" v] by (auto simp: domIff)

lemma root_dom: "parent_of c r = Some r \<Longrightarrow> r \<in> dom (parent_of c)"
  by blast

section \<open>Lookups change no component\<close>

text \<open>\<open>compressed c c'\<close>: \<open>c'\<close> is \<open>c\<close> after lookups; only parents changed, and every new parent is the root.\<close>

definition compressed :: "anchor_components \<Rightarrow> anchor_components \<Rightarrow> bool" where
  "compressed c c' \<longleftrightarrow> c' = c\<lparr>ac_parent := ac_parent c'\<rparr> \<and> dkeys (ac_parent c') = dkeys (ac_parent c)
     \<and> same_roots (parent_of c) (parent_of c')
     \<and> (\<forall>x. parent_of c' x = parent_of c x \<or> (\<exists>r. root_in c x r \<and> parent_of c' x = Some r))"

lemma compressed_refl: "compressed c c"
  by (simp add: compressed_def)

lemma compressed_fields:
  assumes "compressed c c'"
  shows "ac_tolerance c' = ac_tolerance c" "ac_buckets c' = ac_buckets c" "ac_rank c' = ac_rank c"
    "ac_anchor c' = ac_anchor c" "ac_first_order c' = ac_first_order c" "ac_member_order c' = ac_member_order c"
    "ac_next_order c' = ac_next_order c" "dkeys (ac_parent c') = dkeys (ac_parent c)"
proof -
  from assms obtain p where "c' = c\<lparr>ac_parent := p\<rparr>" unfolding compressed_def by blast
  then show "ac_tolerance c' = ac_tolerance c" "ac_buckets c' = ac_buckets c" "ac_rank c' = ac_rank c"
    "ac_anchor c' = ac_anchor c" "ac_first_order c' = ac_first_order c" "ac_member_order c' = ac_member_order c"
    "ac_next_order c' = ac_next_order c" by simp_all
  show "dkeys (ac_parent c') = dkeys (ac_parent c)" using assms by (simp add: compressed_def)
qed

lemma compressed_roots: "compressed c c' \<Longrightarrow> same_roots (parent_of c) (parent_of c')"
  unfolding compressed_def by blast

lemma compressed_root_in: "compressed c c' \<Longrightarrow> root_in c' x r \<longleftrightarrow> root_in c x r"
  by (rule same_roots_rep [OF compressed_roots])

lemma compressed_is_root: "compressed c c' \<Longrightarrow> parent_of c' r = Some r \<longleftrightarrow> parent_of c r = Some r"
  using same_roots_is_root [OF compressed_roots] by blast

lemma compressed_dom: "compressed c c' \<Longrightarrow> dom (parent_of c') = dom (parent_of c)"
  by (rule same_roots_dom [OF compressed_roots])

lemma compressed_trans:
  assumes a: "compressed c c'" and b: "compressed c' c''"
  shows "compressed c c''"
proof -
  have "c'' = c\<lparr>ac_parent := ac_parent c''\<rparr>"
    using compressed_fields [OF a] compressed_fields [OF b] by simp
  moreover have "parent_of c'' x = parent_of c x \<or> (\<exists>r. root_in c x r \<and> parent_of c'' x = Some r)" for x
  proof -
    from b have "parent_of c'' x = parent_of c' x \<or> (\<exists>r. root_in c' x r \<and> parent_of c'' x = Some r)"
      unfolding compressed_def by blast
    moreover from a have "parent_of c' x = parent_of c x \<or> (\<exists>r. root_in c x r \<and> parent_of c' x = Some r)"
      unfolding compressed_def by blast
    ultimately show ?thesis using compressed_root_in [OF a] by metis
  qed
  moreover have "dkeys (ac_parent c'') = dkeys (ac_parent c)"
    using compressed_fields(8) [OF a] compressed_fields(8) [OF b] by simp
  ultimately show ?thesis
    using same_roots_trans [OF compressed_roots [OF a] compressed_roots [OF b]] unfolding compressed_def by blast
qed

lemma compressed_shaped: "compressed c c' \<Longrightarrow> shaped c \<Longrightarrow> shaped c'"
  using compressed_fields [of c c'] compressed_dom [of c c'] compressed_is_root [of c c']
    same_roots_forest [OF compressed_roots]
  unfolding shaped_def by simp

lemma compressed_partitioned: "compressed c c' \<Longrightarrow> partitioned E c \<Longrightarrow> partitioned E c'"
  unfolding partitioned_def using compressed_root_in by metis

lemma compressed_anchored:
  assumes "compressed c c'" and "anchored c"
  shows "anchored c'"
  using assms(2) compressed_root_in [OF assms(1)] compressed_is_root [OF assms(1)] compressed_fields [OF assms(1)]
  unfolding anchored_def anchored_at_def by simp

lemma compressed_slotted:
  assumes "compressed c c'" and "slotted c"
  shows "slotted c'"
  using assms(2) compressed_fields [OF assms(1)] unfolding slotted_def by simp

lemma ranked_root_less:
  assumes "shaped c" and "ranked c" and "root_in c v r" and "v \<noteq> r"
    and "dget (ac_rank c) v = Some i" and "dget (ac_rank c) r = Some j"
  shows "i < j"
  using assms(3-6)
proof (induction arbitrary: i rule: rep_of_induct)
  case (step v p)
  have "p \<in> dom (parent_of c)" using rep_of_dom [OF step(3)] .
  then obtain k where k: "dget (ac_rank c) p = Some k" using shaped_rank [OF assms(1)] by blast
  have "i < k" using assms(2) step(1,2,6) k unfolding ranked_def by blast
  moreover have "k \<le> j" using step(4) [OF _ k step(7)] k step(7) by (cases "p = r") auto
  ultimately show ?case by simp
qed simp

lemma compressed_ranked:
  assumes c: "compressed c c'" and s: "shaped c" and r: "ranked c"
  shows "ranked c'"
proof -
  have "i < j" if "parent_of c' v = Some p" "p \<noteq> v" "dget (ac_rank c) v = Some i" "dget (ac_rank c) p = Some j" for v p i j
  proof -
    from c have "parent_of c' v = parent_of c v \<or> (\<exists>r. root_in c v r \<and> parent_of c' v = Some r)"
      unfolding compressed_def by blast
    then show ?thesis
    proof
      assume "parent_of c' v = parent_of c v"
      then show ?thesis using r that unfolding ranked_def by metis
    next
      assume "\<exists>r. root_in c v r \<and> parent_of c' v = Some r"
      then have "root_in c v p" using that(1) by auto
      then show ?thesis using ranked_root_less [OF s r] that(2-4) by blast
    qed
  qed
  moreover have "\<forall>r k. parent_of c' r = Some r \<longrightarrow> dget (ac_rank c') r = Some k \<longrightarrow> 2 ^ k \<le> card {v. root_in c' v r}"
    using r compressed_root_in [OF c] compressed_is_root [OF c] compressed_fields [OF c] unfolding ranked_def by simp
  ultimately show ?thesis unfolding ranked_def compressed_fields [OF c] by blast
qed

lemma find_in_returns:
  assumes "shaped c" and "v \<in> dom (parent_of c)"
  obtains r c' where "find_in c v = ret (r, c')" "root_in c v r" "compressed c c'"
proof -
  from forest_rep [OF shaped_forest [OF assms(1)] assms(2)] obtain r n where cl: "climbs (parent_of c) v n r"
    unfolding rep_of_def by blast
  from find_root_returns [OF cl shaped_forest [OF assms(1)]] obtain p where
    f: "find_root (ac_parent c) v = ret (r, p)" and sr: "same_roots (parent_of c) (dget p)" and k: "dkeys p = dkeys (ac_parent c)"
    and un: "\<forall>x. dget p x = parent_of c x \<or> (root_in c x r \<and> dget p x = Some r)" by blast
  have "find_in c v = ret (r, c\<lparr>ac_parent := p\<rparr>)" by (simp add: find_in_def f)
  moreover have "root_in c v r" using cl unfolding rep_of_def by blast
  moreover have "compressed c (c\<lparr>ac_parent := p\<rparr>)"
    using sr k un unfolding compressed_def by auto
  ultimately show ?thesis by (rule that)
qed


section \<open>Joining two components\<close>

lemma rtrancl_join:
  assumes "sym E"
  shows "(x, y) \<in> (E \<union> {(a, b), (b, a)})\<^sup>* \<longleftrightarrow>
    (x, y) \<in> E\<^sup>* \<or> ((x, a) \<in> E\<^sup>* \<and> (b, y) \<in> E\<^sup>*) \<or> ((x, b) \<in> E\<^sup>* \<and> (a, y) \<in> E\<^sup>*)"
    (is "_ \<longleftrightarrow> ?R y")
proof
  let ?F = "E \<union> {(a, b), (b, a)}"
  have sub: "E\<^sup>* \<subseteq> ?F\<^sup>*" by (intro rtrancl_mono) auto
  assume "?R y"
  moreover have "(a, b) \<in> ?F\<^sup>*" "(b, a) \<in> ?F\<^sup>*" by auto
  ultimately show "(x, y) \<in> ?F\<^sup>*" using sub by (meson rtrancl_trans subsetD)
next
  assume "(x, y) \<in> (E \<union> {(a, b), (b, a)})\<^sup>*"
  then show "?R y"
  proof (induction rule: rtrancl_induct)
    case (step y z)
    from step(2) consider "(y, z) \<in> E" | "y = a" "z = b" | "y = b" "z = a" by auto
    then show ?case
    proof cases
      case 1
      then show ?thesis using step(3) by (meson rtrancl.rtrancl_into_rtrancl)
    next
      case 2
      then show ?thesis using step(3) by (meson rtrancl.rtrancl_refl)
    next
      case 3
      then show ?thesis using step(3) by (meson rtrancl.rtrancl_refl)
    qed
  qed simp
qed

lemma sym_rtranclD: "sym E \<Longrightarrow> (x, y) \<in> E\<^sup>* \<longleftrightarrow> (y, x) \<in> E\<^sup>*"
  using sym_rtrancl [of E] by (auto dest: symD)

definition good :: "(instant \<times> instant) set \<Rightarrow> anchor_components \<Rightarrow> bool" where
  "good E c \<longleftrightarrow> shaped c \<and> partitioned E c \<and> anchored c \<and> ranked c"

text \<open>What neither a lookup nor a join changes.\<close>

definition framed :: "anchor_components \<Rightarrow> anchor_components \<Rightarrow> bool" where
  "framed c c' \<longleftrightarrow> ac_tolerance c' = ac_tolerance c \<and> ac_buckets c' = ac_buckets c
     \<and> ac_member_order c' = ac_member_order c \<and> ac_next_order c' = ac_next_order c
     \<and> dkeys (ac_parent c') = dkeys (ac_parent c)"

lemma framed_refl: "framed c c"
  by (simp add: framed_def)

lemma framed_trans: "framed c c' \<Longrightarrow> framed c' c'' \<Longrightarrow> framed c c''"
  by (simp add: framed_def)

lemma framed_dom: "framed c c' \<Longrightarrow> dom (parent_of c') = dom (parent_of c)"
proof -
  assume f: "framed c c'"
  have "x \<in> dom (parent_of c') \<longleftrightarrow> x \<in> dom (parent_of c)" for x
    unfolding member_dom [symmetric] using f by (simp add: framed_def)
  then show ?thesis by blast
qed

lemma framed_slotted: "framed c c' \<Longrightarrow> slotted c \<Longrightarrow> slotted c'"
  by (simp add: framed_def slotted_def)

lemma compressed_framed: "compressed c c' \<Longrightarrow> framed c c'"
  using compressed_fields [of c c'] by (simp add: framed_def)

lemma compressed_good: "compressed c c' \<Longrightarrow> good E c \<Longrightarrow> good E c'"
  unfolding good_def using compressed_shaped compressed_partitioned compressed_anchored compressed_ranked by blast

text \<open>The state \<^const>\<open>link_roots\<close> returns, and what it does to roots and anchors.\<close>

definition joined_state :: "anchor_components \<Rightarrow> instant \<Rightarrow> instant \<Rightarrow> bool \<Rightarrow> nat \<Rightarrow> bool \<Rightarrow> instant
    \<Rightarrow> order_key \<Rightarrow> anchor_components" where
  "joined_state c left right equal rank moved anchor key =
     c\<lparr>ac_parent := dset right left (ac_parent c),
       ac_rank := (if equal then dset left (rank + 1) (ac_rank c) else ac_rank c),
       ac_anchor := dwithout [right] (if moved then dset left anchor (ac_anchor c) else ac_anchor c),
       ac_first_order := dwithout [right] (if moved then dset left key (ac_first_order c) else ac_first_order c)\<rparr>"

lemma link_roots_eq:
  assumes "dget (ac_rank c) left = Some rl"
    and "dget (ac_first_order c) left = Some kl" and "dget (ac_first_order c) right = Some kr"
    and "dget (ac_anchor c) left = Some al" and "dget (ac_anchor c) right = Some ar" and "left \<noteq> right"
  shows "link_roots c left right equal = ret (left, joined_state c left right equal rl (kr < kl) ar kr)"
proof -
  have "del_item (if kr < kl then dset left ar (ac_anchor c) else ac_anchor c) right
      = ret (dwithout [right] (if kr < kl then dset left ar (ac_anchor c) else ac_anchor c))"
    by (rule del_item_Some [where v = ar]) (simp add: dget_dset assms(5) assms(6) [symmetric])
  moreover have "del_item (if kr < kl then dset left kr (ac_first_order c) else ac_first_order c) right
      = ret (dwithout [right] (if kr < kl then dset left kr (ac_first_order c) else ac_first_order c))"
    by (rule del_item_Some [where v = kr]) (simp add: dget_dset assms(3) assms(6) [symmetric])
  ultimately show ?thesis
    unfolding link_roots_def item_Some [OF assms(1)] item_Some [OF assms(2)] item_Some [OF assms(3)]
      item_Some [OF assms(5)] run_bind_simps Let_def joined_state_def by simp
qed

definition linking :: "anchor_components \<Rightarrow> anchor_components \<Rightarrow> instant \<Rightarrow> instant \<Rightarrow> order_key \<Rightarrow> order_key
    \<Rightarrow> instant \<Rightarrow> instant \<Rightarrow> nat \<Rightarrow> nat \<Rightarrow> bool" where
  "linking c c' left right kl kr al ar rl rr \<longleftrightarrow> shaped c
     \<and> parent_of c left = Some left \<and> parent_of c right = Some right \<and> left \<noteq> right
     \<and> dget (ac_rank c) left = Some rl \<and> dget (ac_rank c) right = Some rr \<and> rr \<le> rl
     \<and> dget (ac_anchor c) left = Some al \<and> dget (ac_anchor c) right = Some ar
     \<and> dget (ac_first_order c) left = Some kl \<and> dget (ac_first_order c) right = Some kr
     \<and> link_roots c left right (rl = rr) = ret (left, c')"

lemma linkingD:
  assumes "linking c c' left right kl kr al ar rl rr"
  shows "shaped c" and "parent_of c left = Some left" and "parent_of c right = Some right" and "left \<noteq> right"
    and "dget (ac_rank c) left = Some rl" and "dget (ac_rank c) right = Some rr" and "rr \<le> rl"
    and "dget (ac_anchor c) left = Some al" and "dget (ac_anchor c) right = Some ar"
    and "dget (ac_first_order c) left = Some kl" and "dget (ac_first_order c) right = Some kr"
    and "link_roots c left right (rl = rr) = ret (left, c')"
  using assms by (simp_all add: linking_def)

lemmas linking_shaped = linkingD(1) and linking_left = linkingD(2) and linking_right = linkingD(3)
  and linking_differ = linkingD(4) and linking_le = linkingD(7) and linking_returns = linkingD(12)
lemmas linking_ranks = linkingD(5,6) and linking_anchors = linkingD(8,9) and linking_firsts = linkingD(10,11)

lemma linking_state:
  assumes L: "linking c c' left right kl kr al ar rl rr"
  shows "ac_parent c' = dset right left (ac_parent c)"
  and "ac_rank c' = (if rl = rr then dset left (rl + 1) (ac_rank c) else ac_rank c)"
  and "ac_anchor c' = dwithout [right] (if kr < kl then dset left ar (ac_anchor c) else ac_anchor c)"
  and "ac_first_order c' = dwithout [right] (if kr < kl then dset left kr (ac_first_order c) else ac_first_order c)"
  and "ac_tolerance c' = ac_tolerance c" and "ac_buckets c' = ac_buckets c"
  and "ac_member_order c' = ac_member_order c" and "ac_next_order c' = ac_next_order c"
proof -
  have "link_roots c left right (rl = rr) = ret (left, joined_state c left right (rl = rr) rl (kr < kl) ar kr)"
    by (rule link_roots_eq [OF linking_ranks(1) [OF L] linking_firsts [OF L] linking_anchors [OF L] linking_differ [OF L]])
  then have c': "c' = joined_state c left right (rl = rr) rl (kr < kl) ar kr"
    using linking_returns [OF L] by simp
  show "ac_parent c' = dset right left (ac_parent c)"
    and "ac_rank c' = (if rl = rr then dset left (rl + 1) (ac_rank c) else ac_rank c)"
    and "ac_anchor c' = dwithout [right] (if kr < kl then dset left ar (ac_anchor c) else ac_anchor c)"
    and "ac_first_order c' = dwithout [right] (if kr < kl then dset left kr (ac_first_order c) else ac_first_order c)"
    and "ac_tolerance c' = ac_tolerance c" and "ac_buckets c' = ac_buckets c"
    and "ac_member_order c' = ac_member_order c" and "ac_next_order c' = ac_next_order c"
    unfolding c' joined_state_def by simp_all
qed

lemma linking_map:
  assumes L: "linking c c' left right kl kr al ar rl rr"
  shows "parent_of c' = (parent_of c)(right \<mapsto> left)"
  unfolding linking_state(1) [OF L] by (rule update_conv')

lemma linking_framed:
  assumes L: "linking c c' left right kl kr al ar rl rr"
  shows "framed c c'"
proof -
  have "right \<in> set (dkeys (ac_parent c))" using linking_right [OF L] member_dom by blast
  then show ?thesis by (simp add: framed_def linking_state(5-8) [OF L] linking_state(1) [OF L] dkeys_def update_keys)
qed

lemma linking_root_in:
  assumes L: "linking c c' left right kl kr al ar rl rr"
  shows "root_in c' x s \<longleftrightarrow> (\<exists>t. root_in c x t \<and> s = (if t = right then left else t))"
  unfolding linking_map [OF L] by (rule link_rep_iff [OF shaped_forest [OF linking_shaped [OF L]] linking_left [OF L] linking_right [OF L] linking_differ [OF L]])

lemma linking_is_root:
  assumes L: "linking c c' left right kl kr al ar rl rr"
  shows "parent_of c' r = Some r \<longleftrightarrow> parent_of c r = Some r \<and> r \<noteq> right"
  unfolding linking_map [OF L] using linking_differ [OF L] by simp

lemma linking_shapes:
  assumes L: "linking c c' left right kl kr al ar rl rr"
  shows "shaped c'"
proof -
  have "forest (parent_of c')" unfolding linking_map [OF L] by (rule link_forest [OF shaped_forest [OF linking_shaped [OF L]] linking_left [OF L] linking_right [OF L] linking_differ [OF L]])
  moreover have "dom (parent_of c') = dom (parent_of c)" by (rule framed_dom [OF linking_framed [OF L]])
  moreover have "dom (dget (ac_rank c')) = dom (dget (ac_rank c))"
    using linking_ranks [OF L] unfolding linking_state(2) [OF L] by (simp add: dom_dset insert_absorb domI)
  moreover have "dom (dget (ac_anchor c')) = dom (dget (ac_anchor c)) - {right}"
    using linking_anchors [OF L] unfolding linking_state(3) [OF L] by (simp add: dom_dset dom_dwithout insert_absorb domI)
  moreover have "dom (dget (ac_first_order c')) = dom (dget (ac_first_order c)) - {right}"
    using linking_firsts [OF L] unfolding linking_state(4) [OF L] by (simp add: dom_dset dom_dwithout insert_absorb domI)
  moreover have "{r. parent_of c' r = Some r} = {r. parent_of c r = Some r} - {right}"
    using linking_is_root [OF L] by blast
  ultimately show ?thesis using linking_shaped [OF L] unfolding shaped_def linking_state(5-8) [OF L] by simp
qed

lemma linking_partitioned:
  assumes L: "linking c c' left right kl kr al ar rl rr"
    and p: "partitioned E c" and "sym E" and a: "root_in c a left" and b: "root_in c b right"
  shows "partitioned (E \<union> {(a, b), (b, a)}) c'"
  unfolding partitioned_def
proof (intro allI impI)
  fix x y r s assume "root_in c' x r" "root_in c' y s"
  then obtain t u where t: "root_in c x t" "r = (if t = right then left else t)"
    and u: "root_in c y u" "s = (if u = right then left else u)" unfolding linking_root_in [OF L] by blast
  have "(x, y) \<in> E\<^sup>* \<longleftrightarrow> t = u" using p t(1) u(1) unfolding partitioned_def by blast
  moreover have "(x, a) \<in> E\<^sup>* \<longleftrightarrow> t = left" using p t(1) a unfolding partitioned_def by blast
  moreover have "(x, b) \<in> E\<^sup>* \<longleftrightarrow> t = right" using p t(1) b unfolding partitioned_def by blast
  moreover have "(a, y) \<in> E\<^sup>* \<longleftrightarrow> left = u" using p u(1) a unfolding partitioned_def by blast
  moreover have "(b, y) \<in> E\<^sup>* \<longleftrightarrow> right = u" using p u(1) b unfolding partitioned_def by blast
  ultimately show "r = s \<longleftrightarrow> (x, y) \<in> (E \<union> {(a, b), (b, a)})\<^sup>*"
    unfolding rtrancl_join [OF \<open>sym E\<close>] using linking_differ [OF L] t(2) u(2) by auto
qed

lemma linking_anchored:
  assumes L: "linking c c' left right kl kr al ar rl rr"
    and old: "anchored c"
  shows "anchored c'"
  unfolding anchored_def
proof (intro allI impI)
  fix r assume r: "parent_of c' r = Some r"
  have olds: "anchored_at c r" "r \<noteq> right" using assms r unfolding anchored_def linking_is_root [OF L] by auto
  show "anchored_at c' r"
  proof (cases "r = left")
    case False
    have "root_in c' v r \<longleftrightarrow> root_in c v r" for v unfolding linking_root_in [OF L] using False olds(2) by auto
    then show ?thesis using olds(1) False olds(2)
      by (simp add: anchored_at_def linking_state(3) [OF L] linking_state(4) [OF L] linking_state(5-8) [OF L] dget_dwithout dget_dset)
  next
    case True
    have both: "root_in c' v left \<longleftrightarrow> root_in c v left \<or> root_in c v right" for v unfolding linking_root_in [OF L] by auto
    have LL: "root_in c al left" "dget (ac_member_order c) al = Some kl"
      "\<forall>v m. root_in c v left \<longrightarrow> dget (ac_member_order c) v = Some m \<longrightarrow> kl \<le> m"
      by (rule anchored_atD [OF anchoredD [OF old linking_left [OF L]] linking_anchors(1) [OF L] linking_firsts(1) [OF L]])+
    have RR: "root_in c ar right" "dget (ac_member_order c) ar = Some kr"
      "\<forall>v m. root_in c v right \<longrightarrow> dget (ac_member_order c) v = Some m \<longrightarrow> kr \<le> m"
      by (rule anchored_atD [OF anchoredD [OF old linking_right [OF L]] linking_anchors(2) [OF L] linking_firsts(2) [OF L]])+
    show ?thesis unfolding True
    proof (cases "kr < kl")
      case less: True
      have least: "\<forall>v m. root_in c' v left \<longrightarrow> dget (ac_member_order c') v = Some m \<longrightarrow> kr \<le> m"
        using LL(3) RR(3) less unfolding both linking_state(7) [OF L] by (meson less_imp_le order_trans)
      show "anchored_at c' left"
        by (rule anchored_atI [where a = ar and k = kr])
          (use least RR(1,2) both less linking_differ [OF L] in
            \<open>simp_all only: linking_state [OF L] dget_dwithout dget_dset if_True list.set simp_thms insert_iff empty_iff if_False\<close>)
    next
      case ge: False
      have least: "\<forall>v m. root_in c' v left \<longrightarrow> dget (ac_member_order c') v = Some m \<longrightarrow> kl \<le> m"
        using LL(3) RR(3) ge unfolding both linking_state(7) [OF L] by (meson not_less order_trans)
      show "anchored_at c' left"
        by (rule anchored_atI [where a = al and k = kl])
          (use least LL(1,2) both ge linking_differ [OF L] linking_anchors [OF L] linking_firsts [OF L] in
            \<open>simp_all only: linking_state [OF L] dget_dwithout dget_dset if_True list.set simp_thms insert_iff empty_iff if_False\<close>)
    qed
  qed
qed

lemma linking_ranked:
  assumes L: "linking c c' left right kl kr al ar rl rr"
    and old: "ranked c"
  shows "ranked c'"
  unfolding ranked_def
proof (intro conjI allI impI)
  fix v p i j assume v: "parent_of c' v = Some p" "p \<noteq> v" "dget (ac_rank c') v = Some i" "dget (ac_rank c') p = Some j"
  have vl: "v \<noteq> left" using v(1,2) linking_left [OF L] linking_differ [OF L] unfolding linking_map [OF L] by auto
  have i: "dget (ac_rank c) v = Some i" using v(3) vl unfolding linking_state(2) [OF L] by (simp add: dget_dset split: if_splits)
  show "i < j"
  proof (cases "v = right")
    case True
    then have "p = left" using v(1) unfolding linking_map [OF L] by simp
    then show ?thesis using v(4) i True linking_ranks [OF L] linking_le [OF L] unfolding linking_state(2) [OF L] by (auto simp: dget_dset split: if_splits)
  next
    case False
    then have pv: "parent_of c v = Some p" using v(1) unfolding linking_map [OF L] by simp
    have "\<exists>j0. dget (ac_rank c) p = Some j0 \<and> j0 \<le> j"
      using v(4) linking_ranks [OF L] unfolding linking_state(2) [OF L] by (auto simp: dget_dset split: if_splits)
    then show ?thesis using assms pv v(2) i unfolding ranked_def by (meson less_le_trans)
  qed
next
  fix r k assume r: "parent_of c' r = Some r" "dget (ac_rank c') r = Some k"
  have olds: "parent_of c r = Some r" "r \<noteq> right" using r(1) unfolding linking_is_root [OF L] by auto
  show "2 ^ k \<le> card {v. root_in c' v r}"
  proof (cases "r = left")
    case False
    then have "{v. root_in c' v r} = {v. root_in c v r}" unfolding linking_root_in [OF L] using olds(2) by auto
    moreover have "dget (ac_rank c) r = Some k" using r(2) False unfolding linking_state(2) [OF L] by (simp add: dget_dset split: if_splits)
    ultimately show ?thesis using assms olds(1) unfolding ranked_def by simp
  next
    case True
    have eq: "{v. root_in c' v left} = {v. root_in c v left} \<union> {v. root_in c v right}" unfolding linking_root_in [OF L] by auto
    have disj: "{v. root_in c v left} \<inter> {v. root_in c v right} = {}" using rep_of_unique linking_differ [OF L] by blast
    have card: "card {v. root_in c' v left} = card {v. root_in c v left} + card {v. root_in c v right}"
      unfolding eq by (rule card_Un_disjoint [OF finite_below finite_below disj])
    have "2 ^ rl \<le> card {v. root_in c v left}" "2 ^ rr \<le> card {v. root_in c v right}"
      using assms linking_left [OF L] linking_right [OF L] linking_ranks [OF L] unfolding ranked_def by blast+
    moreover have "k = (if rl = rr then rl + 1 else rl)" using r(2) linking_ranks [OF L] unfolding True linking_state(2) [OF L] by (simp add: dget_dset split: if_splits)
    ultimately show ?thesis unfolding True card by (auto split: if_splits)
  qed
qed


lemma link_returns:
  assumes "shaped c" and "parent_of c left = Some left" and "parent_of c right = Some right" and "left \<noteq> right"
    and "dget (ac_rank c) left = Some rl" and "dget (ac_rank c) right = Some rr" and "rr \<le> rl"
  obtains c' al ar kl kr where "linking c c' left right kl kr al ar rl rr"
proof -
  have "left \<in> dom (dget (ac_anchor c))" "right \<in> dom (dget (ac_anchor c))"
    "left \<in> dom (dget (ac_first_order c))" "right \<in> dom (dget (ac_first_order c))"
    using assms(1-3) unfolding shaped_def by auto
  then obtain al ar kl kr where a: "dget (ac_anchor c) left = Some al" "dget (ac_anchor c) right = Some ar"
    "dget (ac_first_order c) left = Some kl" "dget (ac_first_order c) right = Some kr" by blast
  obtain c' where "link_roots c left right (rl = rr) = ret (left, c')"
    using link_roots_eq [OF assms(5) a(3,4,1,2) assms(4)] by blast
  then have "linking c c' left right kl kr al ar rl rr" using assms a unfolding linking_def by blast
  then show ?thesis by (rule that)
qed


text \<open>The anchor of a member's component.\<close>

definition anchor_of :: "anchor_components \<Rightarrow> instant \<Rightarrow> instant \<Rightarrow> bool" where
  "anchor_of c v a \<longleftrightarrow> (\<exists>r. root_in c v r \<and> dget (ac_anchor c) r = Some a)"

lemma anchor_of_unique: "anchor_of c v a \<Longrightarrow> anchor_of c v b \<Longrightarrow> a = b"
proof -
  assume "anchor_of c v a" "anchor_of c v b"
  then obtain r s where "root_in c v r" "dget (ac_anchor c) r = Some a" "root_in c v s" "dget (ac_anchor c) s = Some b"
    unfolding anchor_of_def by blast
  moreover from this have "s = r" using rep_of_unique by blast
  ultimately show ?thesis by simp
qed

lemma compressed_anchor_of: "compressed c c' \<Longrightarrow> anchor_of c' v a \<longleftrightarrow> anchor_of c v a"
  unfolding anchor_of_def using compressed_root_in [of c c'] compressed_fields(4) [of c c'] by simp

lemma linking_anchor_of:
  assumes L: "linking c c' left right kl kr al ar rl rr" and a: "anchor_of c x a" and far: "\<not> root_in c' x left"
  shows "anchor_of c' x a"
proof -
  obtain r where r: "root_in c x r" "dget (ac_anchor c) r = Some a" using a unfolding anchor_of_def by blast
  have ne: "r \<noteq> left" "r \<noteq> right" using far r(1) unfolding linking_root_in [OF L] by auto
  have "root_in c' x r" using r(1) ne unfolding linking_root_in [OF L] by auto
  moreover have "dget (ac_anchor c') r = Some a"
    using r(2) ne unfolding linking_state(3) [OF L] by (simp add: dget_dwithout dget_dset)
  ultimately show ?thesis unfolding anchor_of_def by blast
qed

lemma partitioned_closure: "partitioned E c \<Longrightarrow> E\<^sup>* = F\<^sup>* \<Longrightarrow> partitioned F c"
  by (simp add: partitioned_def)

lemma good_closure: "good E c \<Longrightarrow> E\<^sup>* = F\<^sup>* \<Longrightarrow> good F c"
  unfolding good_def by (intro conjI partitioned_closure [of E c F]) simp_all

lemma rtrancl_join_known:
  assumes "sym E" and "(a, b) \<in> E\<^sup>*"
  shows "(E \<union> {(a, b), (b, a)})\<^sup>* = E\<^sup>*"
proof -
  have "(b, a) \<in> E\<^sup>*" using assms(2) unfolding sym_rtranclD [OF assms(1), of b a] .
  then have "(x, y) \<in> (E \<union> {(a, b), (b, a)})\<^sup>* \<longleftrightarrow> (x, y) \<in> E\<^sup>*" for x y
    unfolding rtrancl_join [OF assms(1)] using assms(2) by (meson rtrancl_trans)
  then show ?thesis by auto
qed

text \<open>What one join promises: the two components become one and no other changes.\<close>

definition joined :: "(instant \<times> instant) set \<Rightarrow> anchor_components \<Rightarrow> instant \<Rightarrow> instant \<Rightarrow> instant \<Rightarrow> anchor_components \<Rightarrow> bool" where
  "joined E c a b root c' \<longleftrightarrow> good (E \<union> {(a, b), (b, a)}) c' \<and> framed c c' \<and> root_in c' a root \<and> root_in c' b root
     \<and> (\<forall>x v. anchor_of c x v \<longrightarrow> \<not> root_in c' x root \<longrightarrow> anchor_of c' x v)"

lemma linking_joined:
  assumes L: "linking c c' left right kl kr al ar rl rr" and g: "good E c" and sym: "sym E"
    and a: "root_in c a left" and b: "root_in c b right"
  shows "joined E c a b left c'"
  unfolding joined_def good_def
proof (intro conjI allI impI)
  show "shaped c'" by (rule linking_shapes [OF L])
  show "partitioned (E \<union> {(a, b), (b, a)}) c'"
    by (rule linking_partitioned [OF L _ sym a b]) (use g in \<open>simp add: good_def\<close>)
  show "anchored c'" by (rule linking_anchored [OF L]) (use g in \<open>simp add: good_def\<close>)
  show "ranked c'" by (rule linking_ranked [OF L]) (use g in \<open>simp add: good_def\<close>)
  show "framed c c'" by (rule linking_framed [OF L])
  show "root_in c' a left" "root_in c' b left" using a b linking_differ [OF L] unfolding linking_root_in [OF L] by auto
  show "\<And>x v. anchor_of c x v \<Longrightarrow> \<not> root_in c' x left \<Longrightarrow> anchor_of c' x v" by (rule linking_anchor_of [OF L])
qed

lemma joined_commute: "joined E c a b root c' \<longleftrightarrow> joined E c b a root c'"
  by (simp add: joined_def insert_commute conj_commute conj_left_commute)

lemma joined_compressed:
  assumes "compressed c0 c" and "joined E c a b root c'"
  shows "joined E c0 a b root c'"
  using assms(2) framed_trans [OF compressed_framed [OF assms(1)]] compressed_anchor_of [OF assms(1)]
  unfolding joined_def by blast

lemma union_in_returns:
  assumes g: "good E c0" and sym: "sym E" and a: "a \<in> dom (parent_of c0)" and b: "b \<in> dom (parent_of c0)"
  obtains root c' where "union_in c0 a b = ret (root, c')" "joined E c0 a b root c'"
proof -
  have sh0: "shaped c0" using g by (simp add: good_def)
  obtain la c1 where f1: "find_in c0 a = ret (la, c1)" "root_in c0 a la" "compressed c0 c1"
    using find_in_returns [OF sh0 a] by blast
  have "shaped c1" "b \<in> dom (parent_of c1)"
    using compressed_shaped [OF f1(3) sh0] compressed_dom [OF f1(3)] b by auto
  then obtain rb c where f2: "find_in c1 b = ret (rb, c)" "root_in c1 b rb" "compressed c1 c"
    using find_in_returns by blast
  have cc: "compressed c0 c" by (rule compressed_trans [OF f1(3) f2(3)])
  have g': "good E c" by (rule compressed_good [OF cc g])
  then have sh: "shaped c" and pt: "partitioned E c" by (simp_all add: good_def)
  have ra: "root_in c a la" using f1(2) compressed_root_in [OF cc] by blast
  have rb: "root_in c b rb" using f2(2) compressed_root_in [OF f2(3)] by blast
  note u0 = union_in_def [of c0 a b, unfolded f1(1) run_bind_simps prod.case f2(1)]
  show ?thesis
  proof (cases "la = rb")
    case True
    then have ab: "(a, b) \<in> E\<^sup>*" using pt ra rb unfolding partitioned_def by blast
    have "joined E c a b la c"
      using g' ra rb True good_closure [OF g' rtrancl_join_known [OF sym ab, symmetric]] framed_refl
      unfolding joined_def by blast
    then show ?thesis using that u0 True joined_compressed [OF cc] by auto
  next
    case False
    have roots: "parent_of c la = Some la" "parent_of c rb = Some rb" using ra rb rep_of_is_root by blast+
    obtain i j where ij: "dget (ac_rank c) la = Some i" "dget (ac_rank c) rb = Some j"
      using shaped_rank [OF sh root_dom [OF roots(1)]] shaped_rank [OF sh root_dom [OF roots(2)]] by blast
    note u1 = u0 [unfolded if_not_P [OF False] item_Some [OF ij(1)] item_Some [OF ij(2)] run_bind_simps]
    show ?thesis
    proof (cases "i < j")
      case True
      obtain c' al ar kl kr where L: "linking c c' rb la kl kr al ar j i"
        using link_returns [OF sh roots(2,1) False [symmetric] ij(2,1)] True by (metis less_imp_le)
      have "union_in c0 a b = ret (rb, c')"
        unfolding u1 if_P [OF True] using linking_returns [OF L] by (simp add: eq_commute)
      moreover have "joined E c0 a b rb c'"
        using linking_joined [OF L g' sym rb ra] joined_commute joined_compressed [OF cc] by blast
      ultimately show ?thesis by (rule that)
    next
      case ge: False
      obtain c' al ar kl kr where L: "linking c c' la rb kl kr al ar i j"
        using link_returns [OF sh roots False ij] ge by (metis not_less)
      have "union_in c0 a b = ret (la, c')"
        unfolding u1 if_not_P [OF ge] by (rule linking_returns [OF L])
      then show ?thesis using that linking_joined [OF L g' sym ra rb] joined_compressed [OF cc] by blast
    qed
  qed
qed

section \<open>Adding a raw reset\<close>

definition near_edges :: "int \<Rightarrow> instant set \<Rightarrow> (instant \<times> instant) set" where
  "near_edges w V = {(x, y). x \<in> V \<and> y \<in> V \<and> \<bar>x - y\<bar> \<le> w}"

definition spokes :: "instant \<Rightarrow> instant set \<Rightarrow> (instant \<times> instant) set" where
  "spokes x N = {x} \<times> N \<union> N \<times> {x}"

lemma sym_near_edges: "sym (near_edges w V)"
  by (auto simp: near_edges_def sym_def)

lemma sym_spokes: "sym E \<Longrightarrow> sym (E \<union> spokes x N)"
  by (auto simp: spokes_def sym_def)

lemma near_edges_insert:
  assumes "0 \<le> w"
  shows "(near_edges w (insert x V))\<^sup>* = (near_edges w V \<union> spokes x {n \<in> V. \<bar>x - n\<bar> \<le> w})\<^sup>*"
proof -
  have "near_edges w (insert x V) = (near_edges w V \<union> spokes x {n \<in> V. \<bar>x - n\<bar> \<le> w}) \<union> {(x, x)}"
    using assms by (auto simp: near_edges_def spokes_def abs_minus_commute)
  moreover have "(F \<union> {(x, x)})\<^sup>* = F\<^sup>*" for F :: "(instant \<times> instant) set"
    by (rule rtrancl_subset) auto
  ultimately show ?thesis by simp
qed

subsection \<open>The two loops over the neighbours\<close>

lemma prior_loop:
  assumes "good E c" and "set ns \<subseteq> dom (parent_of c)"
  shows "\<exists>prior' c'. run_fold prior_step (prior, c) ns = ret (prior', c') \<and> compressed c c'
     \<and> set prior' = set prior \<union> {a. \<exists>n \<in> set ns. anchor_of c n a}"
  using assms
proof (induction ns arbitrary: prior c)
  case (Cons n ns)
  have sh: "shaped c" and an: "anchored c" using Cons.prems(1) by (simp_all add: good_def)
  obtain r c1 where f: "find_in c n = ret (r, c1)" "root_in c n r" "compressed c c1"
    using find_in_returns [OF sh] Cons.prems(2) by (metis list.set_intros(1) subsetD)
  have "anchored_at c r" using an rep_of_is_root [OF f(2)] anchoredD by blast
  then obtain a where a: "dget (ac_anchor c) r = Some a" unfolding anchored_at_def by blast
  have a1: "dget (ac_anchor c1) r = Some a" using a compressed_fields(4) [OF f(3)] by simp
  have step: "prior_step (prior, c) n = ret (prior @ [a], c1)"
    unfolding prior_step_def by (simp add: f(1) a1)
  have na: "anchor_of c n b \<longleftrightarrow> b = a" for b
    using a f(2) anchor_of_unique [of c n] unfolding anchor_of_def by blast
  have "set ns \<subseteq> dom (parent_of c1)" using Cons.prems(2) compressed_dom [OF f(3)] by auto
  from Cons.IH [OF compressed_good [OF f(3) Cons.prems(1)] this] obtain prior' c' where
    r: "run_fold prior_step (prior @ [a], c1) ns = ret (prior', c')" "compressed c1 c'"
      "set prior' = set (prior @ [a]) \<union> {x. \<exists>m \<in> set ns. anchor_of c1 m x}" by blast
  have "set prior' = set prior \<union> {x. \<exists>m \<in> set (n # ns). anchor_of c m x}"
    unfolding r(3) using compressed_anchor_of [OF f(3)] na by auto
  then show ?case using step r(1) compressed_trans [OF f(3) r(2)] by auto
qed (simp add: compressed_refl)

lemma union_loop:
  assumes "good E c" and "sym E" and "set ns \<subseteq> dom (parent_of c)" and "root_in c x root \<or> x = root \<and> x \<in> dom (parent_of c)"
  shows "\<exists>root' c'. run_fold union_step (root, c) ns = ret (root', c') \<and> good (E \<union> spokes x (set ns)) c' \<and> framed c c'
     \<and> root' \<in> dom (parent_of c') \<and> (\<exists>r. root_in c' x r \<and> root_in c' root' r)
     \<and> (\<forall>v a. anchor_of c v a \<longrightarrow> (v, x) \<notin> (E \<union> spokes x (set ns))\<^sup>* \<longrightarrow> anchor_of c' v a)"
  using assms
proof (induction ns arbitrary: E c root)
  case Nil
  have sh: "forest (parent_of c)" using Nil.prems(1) by (simp add: good_def shaped_def)
  from Nil.prems(4) have rd: "root \<in> dom (parent_of c)" using rep_of_is_root by blast
  have "\<exists>r. root_in c x r \<and> root_in c root r"
  proof (cases "root_in c x root")
    case True
    then show ?thesis using rep_of_is_root rep_of_rootI by blast
  next
    case False
    then show ?thesis using Nil.prems(4) forest_rep [OF sh rd] by blast
  qed
  then show ?case using Nil rd by (simp add: spokes_def framed_refl)
next
  case (Cons n ns)
  have sh: "forest (parent_of c)" and pt: "partitioned E c" using Cons.prems(1) by (simp_all add: good_def shaped_def)
  have rd: "root \<in> dom (parent_of c)" using Cons.prems(4) rep_of_is_root by blast
  have nd: "n \<in> dom (parent_of c)" using Cons.prems(3) by auto
  obtain r1 c1 where u: "union_in c root n = ret (r1, c1)" "joined E c root n r1 c1"
    using union_in_returns [OF Cons.prems(1,2) rd nd] by blast
  note j = u(2) [unfolded joined_def]
  have xr: "(x, root) \<in> E\<^sup>*"
  proof (cases "root_in c x root")
    case True
    then show ?thesis using pt rep_of_rootI [where P = "parent_of c", OF rep_of_is_root [OF True]] unfolding partitioned_def by blast
  qed (use Cons.prems(4) in simp)
  have cl: "(E \<union> {(root, n), (n, root)})\<^sup>* = (E \<union> {(x, n), (n, x)})\<^sup>*"
  proof -
    have "(root, x) \<in> E\<^sup>*" using xr unfolding sym_rtranclD [OF Cons.prems(2), of root x] .
    then have "(y, z) \<in> (E \<union> {(root, n), (n, root)})\<^sup>* \<longleftrightarrow> (y, z) \<in> (E \<union> {(x, n), (n, x)})\<^sup>*" for y z
      unfolding rtrancl_join [OF Cons.prems(2)] using xr by (meson rtrancl_trans)
    then show ?thesis by auto
  qed
  let ?E = "E \<union> {(x, n), (n, x)}"
  have g1: "good ?E c1" by (rule good_closure [OF _ cl]) (use j in blast)
  have s1: "sym ?E" using Cons.prems(2) by (auto simp: sym_def)
  have d1: "dom (parent_of c1) = dom (parent_of c)" by (rule framed_dom) (use j in blast)
  have sp: "?E \<union> spokes x (set ns) = E \<union> spokes x (set (n # ns))" by (auto simp: spokes_def)
  have xin: "x \<in> dom (parent_of c1)" using Cons.prems(4) rep_of_dom d1 by blast
  have x1: "root_in c1 x r1"
  proof -
    have "forest (parent_of c1)" using g1 by (simp add: good_def shaped_def)
    then obtain q where q: "root_in c1 x q" using xin forest_rep by blast
    have "(x, root) \<in> ?E\<^sup>*" using xr rtrancl_mono [of E ?E] by auto
    then have "q = r1" using g1 q j unfolding good_def partitioned_def by blast
    then show ?thesis using q by simp
  qed
  have "set ns \<subseteq> dom (parent_of c1)" using Cons.prems(3) d1 by auto
  from Cons.IH [OF g1 s1 this] x1 obtain root' c' where
    r: "run_fold union_step (r1, c1) ns = ret (root', c')" "good (E \<union> spokes x (set (n # ns))) c'" "framed c1 c'"
      "root' \<in> dom (parent_of c')" "\<exists>r. root_in c' x r \<and> root_in c' root' r"
      "\<forall>v a. anchor_of c1 v a \<longrightarrow> (v, x) \<notin> (E \<union> spokes x (set (n # ns)))\<^sup>* \<longrightarrow> anchor_of c' v a"
    unfolding sp by blast
  have keep: "anchor_of c' v a" if "anchor_of c v a" "(v, x) \<notin> (E \<union> spokes x (set (n # ns)))\<^sup>*" for v a
  proof -
    have "\<not> root_in c1 v r1"
    proof
      assume "root_in c1 v r1"
      then have "(v, x) \<in> ?E\<^sup>*" using g1 x1 unfolding good_def partitioned_def by blast
      then have "(v, x) \<in> (E \<union> spokes x (set (n # ns)))\<^sup>*" unfolding sp [symmetric] using rtrancl_mono [of ?E "?E \<union> spokes x (set ns)"] by blast
      then show False using that(2) by blast
    qed
    then have "anchor_of c1 v a" using j that(1) by blast
    then show ?thesis using r(6) that(2) by blast
  qed
  have "run_fold union_step (root, c) (n # ns) = ret (root', c')" using u(1) r(1) by (simp add: union_step_def)
  moreover have "framed c c'" using j r(3) framed_trans by blast
  ultimately show ?case using r(2,4,5) keep by blast
qed


subsection \<open>A new member\<close>

lemma insert_member_map: "parent_of (insert_member c x key) = (parent_of c)(x \<mapsto> x)"
  unfolding insert_member_def Let_def by (simp add: update_conv' del: fun_upd_apply)

lemma insert_member_fields:
  "ac_tolerance (insert_member c x key) = ac_tolerance c" "ac_next_order (insert_member c x key) = ac_next_order c"
  "ac_rank (insert_member c x key) = dset x 0 (ac_rank c)"
  "ac_anchor (insert_member c x key) = dset x x (ac_anchor c)"
  "ac_first_order (insert_member c x key) = dset x key (ac_first_order c)"
  "ac_member_order (insert_member c x key) = dset x key (ac_member_order c)"
  by (simp_all add: insert_member_def Let_def)

lemma insert_member_parent: "ac_parent (insert_member c x key) = dset x x (ac_parent c)"
  by (simp add: insert_member_def Let_def)

lemma dkeys_fresh: "x \<notin> set (dkeys d) \<Longrightarrow> dkeys (dset x v d) = dkeys d @ [x]"
  by (simp add: dkeys_def update_keys)

lemma insert_member_root_in:
  assumes "shaped c" and "x \<notin> dom (parent_of c)"
  shows "root_in (insert_member c x key) v s \<longleftrightarrow> root_in c v s \<or> (v = x \<and> s = x)"
  unfolding insert_member_map by (rule fresh_rep_iff [OF shaped_forest [OF assms(1)]]) (use assms(2) in blast)

lemma insert_member_is_root:
  assumes "x \<notin> dom (parent_of c)"
  shows "parent_of (insert_member c x key) r = Some r \<longleftrightarrow> parent_of c r = Some r \<or> r = x"
  unfolding insert_member_map using assms by auto

lemma insert_member_shaped:
  assumes "shaped c" and "x \<notin> dom (parent_of c)"
  shows "shaped (insert_member c x key)"
proof -
  have "forest (parent_of (insert_member c x key))"
    unfolding insert_member_map by (rule fresh_forest [OF shaped_forest [OF assms(1)]]) (use assms(2) in blast)
  moreover have "{r. parent_of (insert_member c x key) r = Some r} = insert x {r. parent_of c r = Some r}"
    using insert_member_is_root [OF assms(2)] by blast
  moreover have "dom (parent_of (insert_member c x key)) = insert x (dom (parent_of c))"
    unfolding insert_member_parent by (rule dom_dset)
  ultimately show ?thesis using assms(1) unfolding shaped_def insert_member_fields(3-6) dom_dset by simp
qed

lemma insert_member_good:
  assumes g: "good E c" and x: "x \<notin> dom (parent_of c)" and E: "E \<subseteq> dom (parent_of c) \<times> dom (parent_of c)"
  shows "good E (insert_member c x key)"
  unfolding good_def
proof (intro conjI)
  let ?c = "insert_member c x key"
  have sh: "shaped c" and pt: "partitioned E c" and an: "anchored c" and rk: "ranked c" using g by (simp_all add: good_def)
  note ri = insert_member_root_in [OF sh x]
  note ir = insert_member_is_root [OF x]
  show "shaped ?c" by (rule insert_member_shaped [OF sh x])
  have lone: "(x, y) \<in> E\<^sup>* \<longleftrightarrow> y = x" "(y, x) \<in> E\<^sup>* \<longleftrightarrow> y = x" for y
  proof -
    show "(x, y) \<in> E\<^sup>* \<longleftrightarrow> y = x"
    proof
      assume "(x, y) \<in> E\<^sup>*"
      then show "y = x" using E x by (cases rule: converse_rtranclE) auto
    qed simp
    show "(y, x) \<in> E\<^sup>* \<longleftrightarrow> y = x"
    proof
      assume "(y, x) \<in> E\<^sup>*"
      then show "y = x" using E x by (cases rule: rtranclE) auto
    qed simp
  qed
  have notx: "\<not> root_in c x r" "\<not> root_in c v x" for v r
    using x rep_of_dom [of "parent_of c" x r] rep_of_is_root [of "parent_of c" v x] by auto
  show "partitioned E ?c"
    unfolding partitioned_def ri
  proof (intro allI impI)
    fix v y r s assume v: "root_in c v r \<or> (v = x \<and> r = x)" and y: "root_in c y s \<or> (y = x \<and> s = x)"
    then show "(r = s) = ((v, y) \<in> E\<^sup>*)"
      using pt notx lone unfolding partitioned_def by metis
  qed
  show "anchored ?c"
    unfolding anchored_def ir
  proof (intro allI impI)
    fix r assume r: "parent_of c r = Some r \<or> r = x"
    show "anchored_at ?c r"
    proof (cases "r = x")
      case True
      have "\<forall>v m. root_in ?c v x \<longrightarrow> dget (ac_member_order ?c) v = Some m \<longrightarrow> key \<le> m"
        unfolding ri insert_member_fields using notx by (simp add: dget_dset del: split_paired_All)
      then show ?thesis unfolding True
        by (intro anchored_atI [where a = x and k = key]) (simp_all add: insert_member_fields dget_dset ri)
    next
      case False
      have "anchored_at c r" using an r False anchoredD by blast
      then obtain a k where ak: "dget (ac_anchor c) r = Some a" "dget (ac_first_order c) r = Some k"
        unfolding anchored_at_def by blast
      note at = anchored_atD [OF \<open>anchored_at c r\<close> ak]
      have ax: "a \<noteq> x" using at(1) notx by blast
      have "\<forall>v m. root_in ?c v r \<longrightarrow> dget (ac_member_order ?c) v = Some m \<longrightarrow> k \<le> m"
        using at(3) notx False unfolding ri insert_member_fields dget_dset by metis
      then show ?thesis using ak at(1,2) False ax
        by (intro anchored_atI [where a = a and k = k]) (simp_all add: insert_member_fields dget_dset ri)
    qed
  qed
  show "ranked ?c"
    unfolding ranked_def ir
  proof (intro conjI allI impI)
    fix v p i j assume v: "parent_of ?c v = Some p" "p \<noteq> v" "dget (ac_rank ?c) v = Some i" "dget (ac_rank ?c) p = Some j"
    have "v \<noteq> x" using v(1,2) unfolding insert_member_map by auto
    then have p: "parent_of c v = Some p" using v(1) unfolding insert_member_map by simp
    then have "p \<noteq> x" using forest_parent [OF shaped_forest [OF sh]] x by blast
    then show "i < j" using rk p v(2-4) \<open>v \<noteq> x\<close> unfolding ranked_def insert_member_fields dget_dset by simp
  next
    fix r k assume r: "parent_of c r = Some r \<or> r = x" and k: "dget (ac_rank ?c) r = Some k"
    show "2 ^ k \<le> card {v. root_in ?c v r}"
    proof (cases "r = x")
      case True
      have "{v. root_in ?c v x} = {x}" unfolding ri using notx by auto
      then show ?thesis using k True by (simp add: insert_member_fields dget_dset)
    next
      case False
      have "{v. root_in ?c v r} = {v. root_in c v r}" unfolding ri using False by auto
      then show ?thesis using rk r k False unfolding ranked_def insert_member_fields dget_dset by simp
    qed
  qed
qed

lemma insert_member_slotted:
  assumes "slotted c" and "x \<notin> set (dkeys (ac_parent c))"
  shows "slotted (insert_member c x key)"
proof -
  let ?b = "bucket_of (ac_tolerance c) x"
  have pos: "0 < ac_tolerance c"
    and old: "\<And>b y. y \<in> set (dget_or (ac_buckets c) b []) \<longleftrightarrow> y \<in> set (dkeys (ac_parent c)) \<and> bucket_of (ac_tolerance c) y = b"
    using assms(1) unfolding slotted_def by blast+
  have buckets: "ac_buckets (insert_member c x key) = dset ?b (dget_or (ac_buckets c) ?b [] @ [x]) (ac_buckets c)"
    by (simp add: insert_member_def Let_def)
  have "y \<in> set (dget_or (ac_buckets (insert_member c x key)) b [])
      \<longleftrightarrow> y \<in> set (dkeys (ac_parent (insert_member c x key))) \<and> bucket_of (ac_tolerance c) y = b" for b y
  proof (cases "b = ?b")
    case True
    have "dget_or (ac_buckets (insert_member c x key)) b [] = dget_or (ac_buckets c) b [] @ [x]"
      unfolding buckets True by (simp add: dget_or_def dget_dset)
    then show ?thesis using old [of y b] True by (auto simp: insert_member_parent dkeys_dset)
  next
    case False
    have "dget_or (ac_buckets (insert_member c x key)) b [] = dget_or (ac_buckets c) b []"
      using False unfolding buckets by (simp add: dget_or_def dget_dset)
    then show ?thesis using old [of y b] False by (auto simp: insert_member_parent dkeys_dset)
  qed
  then show ?thesis using pos unfolding slotted_def insert_member_fields(1) by blast
qed

lemma insert_member_anchor_of:
  assumes sh: "shaped c" and x: "x \<notin> dom (parent_of c)"
  shows "anchor_of (insert_member c x key) v a \<longleftrightarrow> anchor_of c v a \<or> (v = x \<and> a = x)"
proof -
  have notx: "\<not> root_in c v x" for v using x rep_of_is_root [of "parent_of c" v x] by auto
  show ?thesis unfolding anchor_of_def insert_member_root_in [OF sh x] insert_member_fields dget_dset
    using notx by (metis option.inject)
qed

text \<open>The invariant of the object: the components are those of the members at the tolerance.\<close>

definition components_ok :: "anchor_components \<Rightarrow> bool" where
  "components_ok c \<longleftrightarrow> slotted c \<and> good (near_edges (ac_tolerance c * MICROS) (dom (parent_of c))) c"

lemma connected_in: "(v, x) \<in> (near_edges w V)\<^sup>* \<Longrightarrow> x \<in> V \<Longrightarrow> v \<in> V"
  by (induction rule: converse_rtrancl_induct) (auto simp: near_edges_def)

lemma components_ok_shaped: "components_ok c \<Longrightarrow> shaped c"
  by (simp add: components_ok_def good_def)

lemma components_ok_anchor:
  assumes "components_ok c" and "v \<in> dom (parent_of c)"
  obtains a where "anchor_of c v a" "a \<in> dom (parent_of c)" "(v, a) \<in> (near_edges (ac_tolerance c * MICROS) (dom (parent_of c)))\<^sup>*"
    "\<forall>u m n. (v, u) \<in> (near_edges (ac_tolerance c * MICROS) (dom (parent_of c)))\<^sup>* \<longrightarrow> dget (ac_member_order c) a = Some m
       \<longrightarrow> dget (ac_member_order c) u = Some n \<longrightarrow> m \<le> n"
proof -
  let ?E = "near_edges (ac_tolerance c * MICROS) (dom (parent_of c))"
  have sh: "shaped c" and pt: "partitioned ?E c" and an: "anchored c"
    using assms(1) by (simp_all add: components_ok_def good_def)
  obtain r where r: "root_in c v r" using forest_rep [OF shaped_forest [OF sh] assms(2)] by blast
  have "anchored_at c r" using an rep_of_is_root [OF r] anchoredD by blast
  then obtain a k where ak: "dget (ac_anchor c) r = Some a" "dget (ac_first_order c) r = Some k"
    unfolding anchored_at_def by blast
  note at = anchored_atD [OF \<open>anchored_at c r\<close> ak]
  have "k \<le> n" if "(v, u) \<in> ?E\<^sup>*" "dget (ac_member_order c) u = Some n" for u n
  proof -
    have "u \<in> dom (dget (ac_member_order c))" using that(2) by blast
    then have "u \<in> dom (parent_of c)" using sh by (simp add: shaped_def)
    then obtain s where s: "root_in c u s" using forest_rep [OF shaped_forest [OF sh]] by blast
    then have "s = r" using pt r that(1) unfolding partitioned_def by blast
    then show ?thesis using at(3) s that(2) by blast
  qed
  moreover have "(v, a) \<in> ?E\<^sup>*" using pt r at(1) unfolding partitioned_def by blast
  ultimately show ?thesis
    using that [of a] ak(1) at(1,2) r rep_of_dom [OF at(1)] unfolding anchor_of_def by (metis option.inject)
qed

lemma same_component_anchor:
  assumes "components_ok c" and "v \<in> dom (parent_of c)" and "u \<in> dom (parent_of c)" and "anchor_of c v a" and "anchor_of c u b"
  shows "a = b \<longleftrightarrow> (v, u) \<in> (near_edges (ac_tolerance c * MICROS) (dom (parent_of c)))\<^sup>*"
proof -
  have pt: "partitioned (near_edges (ac_tolerance c * MICROS) (dom (parent_of c))) c" and an: "anchored c"
    using assms(1) by (simp_all add: components_ok_def good_def)
  obtain r s where r: "root_in c v r" "dget (ac_anchor c) r = Some a" and s: "root_in c u s" "dget (ac_anchor c) s = Some b"
    using assms(4,5) unfolding anchor_of_def by blast
  have "root_in c a r" "root_in c b s"
    using anchored_atD(1) r s anchoredD [OF an rep_of_is_root [OF r(1)]] anchoredD [OF an rep_of_is_root [OF s(1)]]
    unfolding anchored_at_def by blast+
  then have "a = b \<longleftrightarrow> r = s" using r(2) s(2) rep_of_unique by (metis option.inject)
  then show ?thesis using pt r(1) s(1) unfolding partitioned_def by blast
qed


subsection \<open>What an addition promises\<close>

text \<open>
  The invariant is kept; the returned anchor is that of the added raw; a member whose anchor is listed as retired
  has the returned one now, every other keeps its own.
\<close>

definition adds :: "anchor_components \<Rightarrow> instant \<Rightarrow> instant \<Rightarrow> instant list \<Rightarrow> anchor_components \<Rightarrow> bool" where
  "adds c x winner retired c' \<longleftrightarrow> components_ok c' \<and> ac_tolerance c' = ac_tolerance c \<and> anchor_of c' x winner
     \<and> sorted retired \<and> distinct retired \<and> winner \<notin> set retired
     \<and> (\<forall>a \<in> set retired. a = x \<or> (\<exists>v. anchor_of c v a))
     \<and> (\<forall>v a. anchor_of c v a \<longrightarrow> anchor_of c' v (if a \<in> set retired then winner else a))"

lemma set_neighbours:
  assumes "slotted c"
  shows "set (neighbours_of c x) = {n \<in> dom (parent_of c). \<bar>x - n\<bar> \<le> ac_tolerance c * MICROS}"
  using comps.near_members [OF assms, of _ x] member_dom
  unfolding neighbours_of_def bucket_of_def set_filter by blast

lemma reach_spokes:
  assumes "(v, x) \<in> (E \<union> spokes x N)\<^sup>*" and "v \<noteq> x" and "E \<subseteq> V \<times> V" and "x \<notin> V"
  shows "\<exists>n \<in> N. (v, n) \<in> E\<^sup>*"
  using assms(1,2)
proof (induction rule: converse_rtrancl_induct)
  case (step v u)
  from step(1) consider "(v, u) \<in> E" | "u = x" "v \<in> N" using step(4) by (auto simp: spokes_def)
  then show ?case
  proof cases
    case 1
    then have "u \<noteq> x" using assms(3,4) by auto
    then show ?thesis using step(3) 1 by (meson converse_rtrancl_into_rtrancl)
  qed auto
qed simp

lemma near_edges_sub: "near_edges w V \<subseteq> V \<times> V"
  by (auto simp: near_edges_def)

lemma anchor_of_dom: "anchor_of c v a \<Longrightarrow> v \<in> dom (parent_of c)"
  unfolding anchor_of_def using rep_of_dom by blast

lemma add_new_adds:
  assumes ok: "components_ok c" and x: "x \<notin> dom (parent_of c)"
  shows "\<exists>winner retired c'. add_new c x key = ret ((winner, retired), c') \<and> adds c x winner retired c'
     \<and> ac_next_order c' = ac_next_order c \<and> dkeys (ac_parent c') = dkeys (ac_parent c) @ [x]
     \<and> ac_member_order c' = dset x key (ac_member_order c)"
proof -
  let ?V = "dom (parent_of c)" and ?w = "ac_tolerance c * MICROS"
  let ?E = "near_edges ?w ?V" and ?ns = "neighbours_of c x"
  let ?c1 = "insert_member c x key" and ?E' = "?E \<union> spokes x (set ?ns)"
  have sl: "slotted c" and g: "good ?E c" and sh: "shaped c" using ok by (simp_all add: components_ok_def good_def)
  have w: "0 \<le> ?w" using sl by (simp add: slotted_def MICROS_def)
  have ns: "set ?ns = {n \<in> ?V. \<bar>x - n\<bar> \<le> ?w}" by (rule set_neighbours [OF sl])
  have g1: "good ?E ?c1" by (rule insert_member_good [OF g x near_edges_sub])
  have d1: "dom (parent_of ?c1) = insert x ?V" unfolding insert_member_parent by (rule dom_dset)
  have xk: "x \<notin> set (dkeys (ac_parent c))" using x member_dom by blast
  have n1: "set ?ns \<subseteq> dom (parent_of ?c1)" using ns d1 by auto
  obtain prior c2 where p: "run_fold prior_step ([x], ?c1) ?ns = ret (prior, c2)" "compressed ?c1 c2"
    "set prior = set [x] \<union> {a. \<exists>n \<in> set ?ns. anchor_of ?c1 n a}"
    using prior_loop [OF g1 n1] by blast
  have g2: "good ?E c2" by (rule compressed_good [OF p(2) g1])
  have n2: "set ?ns \<subseteq> dom (parent_of c2)" and x2: "x \<in> dom (parent_of c2)"
    using n1 d1 compressed_dom [OF p(2)] by auto
  obtain root c3 where u: "run_fold union_step (x, c2) ?ns = ret (root, c3)" "good ?E' c3" "framed c2 c3"
    "root \<in> dom (parent_of c3)" "\<exists>r. root_in c3 x r \<and> root_in c3 root r"
    "\<forall>v a. anchor_of c2 v a \<longrightarrow> (v, x) \<notin> ?E'\<^sup>* \<longrightarrow> anchor_of c3 v a"
    using union_loop [OF g2 sym_near_edges n2] x2 by blast
  obtain r c4 where f: "find_in c3 root = ret (r, c4)" "root_in c3 root r" "compressed c3 c4"
    using find_in_returns [OF _ u(4)] u(2) by (auto simp: good_def)
  have g4: "good ?E' c4" by (rule compressed_good [OF f(3) u(2)])
  have x4: "root_in c4 x r" using u(5) f(2) rep_of_unique compressed_root_in [OF f(3)] by blast
  have "anchored_at c4 r" using g4 rep_of_is_root [OF x4] anchoredD by (auto simp: good_def)
  then obtain winner where wi: "dget (ac_anchor c4) r = Some winner" unfolding anchored_at_def by blast
  have xw: "anchor_of c4 x winner" using x4 wi unfolding anchor_of_def by blast
  let ?ret = "sorted_set (filter (\<lambda>a. a \<noteq> winner) prior)"
  have res: "add_new c x key = ret ((winner, ?ret), c4)"
    unfolding add_new_def Let_def p(1) run_bind_simps prod.case u(1) f(1) item_Some [OF wi] ..
  have fr: "framed ?c1 c4" using compressed_framed [OF p(2)] u(3) compressed_framed [OF f(3)] framed_trans by blast
  note fields = fr [unfolded framed_def insert_member_fields insert_member_parent dkeys_fresh [OF xk]]
  have d4: "dom (parent_of c4) = insert x ?V" using framed_dom [OF fr] d1 by simp
  have clo: "?E'\<^sup>* = (near_edges ?w (insert x ?V))\<^sup>*" unfolding near_edges_insert [OF w] ns ..
  have ok4: "components_ok c4"
    unfolding components_ok_def d4
    using framed_slotted [OF fr insert_member_slotted [OF sl xk]] good_closure [OF g4 clo] fields by simp
  have olda: "anchor_of ?c1 v a \<longleftrightarrow> anchor_of c v a" if "v \<in> ?V" for v a
    unfolding insert_member_anchor_of [OF sh x] using that x by auto
  have pr: "a \<in> set prior \<longleftrightarrow> a = x \<or> (\<exists>n \<in> set ?ns. anchor_of c n a)" for a
  proof -
    have "n \<in> set ?ns \<Longrightarrow> anchor_of ?c1 n a \<longleftrightarrow> anchor_of c n a" for n by (rule olda) (use ns in blast)
    then show ?thesis unfolding p(3) by (simp add: Bex_def cong: conj_cong)
  qed
  have move: "anchor_of c4 v (if a \<in> set ?ret then winner else a)" if va: "anchor_of c v a" for v a
  proof -
    have v: "v \<in> ?V" by (rule anchor_of_dom [OF va])
    obtain a' where a': "anchor_of c v a'" "a' \<in> ?V" "(v, a') \<in> ?E\<^sup>*"
      by (rule components_ok_anchor [OF ok v])
    have e: "a' = a" by (rule anchor_of_unique [OF a'(1) va])
    have aV: "a \<in> ?V" "(v, a) \<in> ?E\<^sup>*" using a'(2,3) unfolding e by blast+
    show ?thesis
    proof (cases "(v, x) \<in> ?E'\<^sup>*")
      case True
      have "v \<noteq> x" using v x by blast
      then obtain n where n: "n \<in> set ?ns" "(v, n) \<in> ?E\<^sup>*" using reach_spokes [OF True _ near_edges_sub x] by blast
      have nV: "n \<in> ?V" using n(1) ns by auto
      obtain b where b: "anchor_of c n b" by (rule components_ok_anchor [OF ok nV])
      have "a = b" using same_component_anchor [OF ok v nV va b] n(2) by blast
      then have "a \<in> set prior" using pr n(1) b by blast
      moreover have "anchor_of c4 v winner"
      proof -
        have "v \<in> dom (parent_of c4)" using d4 v by blast
        then obtain s where s: "root_in c4 v s" using forest_rep [OF shaped_forest [OF components_ok_shaped [OF ok4]]] by blast
        then have "s = r" using g4 x4 True unfolding good_def partitioned_def by blast
        then show ?thesis using s wi unfolding anchor_of_def by blast
      qed
      ultimately show ?thesis by auto
    next
      case False
      have "anchor_of c2 v a" unfolding compressed_anchor_of [OF p(2)] olda [OF v] by (rule va)
      then have keep: "anchor_of c4 v a" unfolding compressed_anchor_of [OF f(3)] using u(6) False by blast
      have "a \<notin> set prior"
      proof
        assume "a \<in> set prior"
        then obtain n where n: "n \<in> set ?ns" "anchor_of c n a" using pr [of a] aV(1) x by auto
        have nV: "n \<in> ?V" using n(1) ns by auto
        have "(v, n) \<in> ?E\<^sup>*" using same_component_anchor [OF ok v nV va n(2)] by blast
        then have "(v, n) \<in> ?E'\<^sup>*" using rtrancl_mono [of ?E ?E'] by blast
        moreover have "(n, x) \<in> ?E'" using n(1) by (simp add: spokes_def)
        ultimately show False using False by (meson rtrancl.rtrancl_into_rtrancl)
      qed
      then show ?thesis using keep by simp
    qed
  qed
  have "adds c x winner ?ret c4"
    unfolding adds_def
  proof (intro conjI ballI)
    show "\<forall>v a. anchor_of c v a \<longrightarrow> anchor_of c4 v (if a \<in> set ?ret then winner else a)" using move by blast
    show "a = x \<or> (\<exists>v. anchor_of c v a)" if "a \<in> set ?ret" for a using that pr [of a] by (simp only: set_sorted_set set_filter mem_Collect_eq) blast
  qed (simp_all add: ok4 fields xw)
  then show ?thesis using res fields by blast
qed


subsection \<open>A known member\<close>

lemma rekeyed_fields:
  "ac_parent (rekeyed c x key r fk) = ac_parent c" "ac_rank (rekeyed c x key r fk) = ac_rank c"
  "ac_tolerance (rekeyed c x key r fk) = ac_tolerance c" "ac_buckets (rekeyed c x key r fk) = ac_buckets c"
  "ac_next_order (rekeyed c x key r fk) = ac_next_order c"
  "ac_member_order (rekeyed c x key r fk) = dset x key (ac_member_order c)"
  "ac_anchor (rekeyed c x key r fk) = (if key < fk then dset r x (ac_anchor c) else ac_anchor c)"
  "ac_first_order (rekeyed c x key r fk) = (if key < fk then dset r key (ac_first_order c) else ac_first_order c)"
  by (simp_all add: rekeyed_def Let_def)

lemma rekeyed_ok:
  assumes ok: "components_ok c" and xr: "root_in c x r" and pa: "dget (ac_anchor c) r = Some pa"
    and own: "dget (ac_member_order c) x = Some own" and fk: "dget (ac_first_order c) r = Some fk" and less: "key < own"
  shows "components_ok (rekeyed c x key r fk)"
proof -
  let ?c = "rekeyed c x key r fk" and ?E = "near_edges (ac_tolerance c * MICROS) (dom (parent_of c))"
  have sl: "slotted c" and sh: "shaped c" and pt: "partitioned ?E c" and an: "anchored c" and rk: "ranked c"
    using ok by (simp_all add: components_ok_def good_def)
  have "slotted ?c" using sl unfolding slotted_def rekeyed_fields .
  moreover have "shaped ?c" using sh rep_of_dom [OF xr] rep_of_is_root [OF xr] unfolding shaped_def rekeyed_fields
    by (simp add: dom_dset insert_absorb domI)
  moreover have "partitioned ?E ?c" using pt unfolding partitioned_def rekeyed_fields .
  moreover have "ranked ?c" using rk unfolding ranked_def rekeyed_fields .
  moreover have "anchored ?c"
    unfolding anchored_def rekeyed_fields(1)
  proof (intro allI impI)
    fix s assume s: "parent_of c s = Some s"
    have at: "anchored_at c s" by (rule anchoredD [OF an s])
    show "anchored_at ?c s"
    proof (cases "s = r")
      case False
      obtain a k where ak: "dget (ac_anchor c) s = Some a" "dget (ac_first_order c) s = Some k"
        using at unfolding anchored_at_def by blast
      note d = anchored_atD [OF at ak]
      have notx: "\<not> root_in c x s" using xr False rep_of_unique by blast
      then have "a \<noteq> x" using d(1) by blast
      have "\<forall>v m. root_in c v s \<longrightarrow> dget (ac_member_order ?c) v = Some m \<longrightarrow> k \<le> m"
        using d(3) notx unfolding rekeyed_fields dget_dset by metis
      then show ?thesis using ak d(1,2) False \<open>a \<noteq> x\<close>
        by (intro anchored_atI [where a = a and k = k]) (simp_all add: rekeyed_fields dget_dset)
    next
      case True
      note d = anchored_atD [OF at [unfolded True] pa fk]
      show ?thesis unfolding True
      proof (cases "key < fk")
        case lt: True
        have "\<forall>v m. root_in c v r \<longrightarrow> dget (ac_member_order ?c) v = Some m \<longrightarrow> key \<le> m"
          using d(3) lt unfolding rekeyed_fields dget_dset by (metis less_imp_le option.inject order_refl order_trans)
        then show "anchored_at ?c r" using xr lt
          by (intro anchored_atI [where a = x and k = key]) (simp_all add: rekeyed_fields dget_dset)
      next
        case ge: False
        have "pa \<noteq> x" using d(2) own less ge by auto
        moreover have "\<forall>v m. root_in c v r \<longrightarrow> dget (ac_member_order ?c) v = Some m \<longrightarrow> fk \<le> m"
          using d(3) ge unfolding rekeyed_fields dget_dset by (metis not_less option.inject)
        ultimately show "anchored_at ?c r" using d(1,2) ge pa fk
          by (intro anchored_atI [where a = pa and k = fk]) (simp_all add: rekeyed_fields dget_dset)
      qed
    qed
  qed
  ultimately show ?thesis unfolding components_ok_def good_def rekeyed_fields(1,3) by blast
qed

lemma add_known_adds:
  assumes ok: "components_ok c0" and x: "x \<in> dom (parent_of c0)"
  shows "\<exists>winner retired c' own. add_known c0 x key = ret ((winner, retired), c') \<and> adds c0 x winner retired c'
     \<and> ac_next_order c' = ac_next_order c0 \<and> dkeys (ac_parent c') = dkeys (ac_parent c0)
     \<and> dget (ac_member_order c0) x = Some own
     \<and> ac_member_order c' = (if key < own then dset x key (ac_member_order c0) else ac_member_order c0)"
proof -
  obtain r c where f: "find_in c0 x = ret (r, c)" "root_in c0 x r" "compressed c0 c"
    by (rule find_in_returns [OF components_ok_shaped [OF ok] x])
  note fs = compressed_fields [OF f(3)]
  have okc: "components_ok c"
    using ok compressed_good [OF f(3)] compressed_slotted [OF f(3)] compressed_dom [OF f(3)] fs
    unfolding components_ok_def by simp
  have xr: "root_in c x r" using f(2) compressed_root_in [OF f(3)] by blast
  have sh: "shaped c" by (rule components_ok_shaped [OF okc])
  have "anchored_at c r" using okc rep_of_is_root [OF xr] anchoredD by (auto simp: components_ok_def good_def)
  then obtain pa fk where pa: "dget (ac_anchor c) r = Some pa" and fk: "dget (ac_first_order c) r = Some fk"
    unfolding anchored_at_def by blast
  obtain own where own: "dget (ac_member_order c) x = Some own" using shaped_member [OF sh rep_of_dom [OF xr]] by blast
  let ?c = "if key < own then rekeyed c x key r fk else c"
  let ?w = "if key < own \<and> key < fk then x else pa"
  have wi: "dget (ac_anchor ?c) r = Some ?w" using pa by (simp add: rekeyed_fields dget_dset)
  have res: "add_known c0 x key = ret ((?w, if pa \<noteq> ?w then [pa] else []), ?c)"
    unfolding add_known_def f(1) run_bind_simps prod.case item_Some [OF pa] item_Some [OF own] item_Some [OF fk]
      Let_def item_Some [OF wi] ..
  have okc': "components_ok ?c" using okc rekeyed_ok [OF okc xr pa own fk] by simp
  have ri: "root_in ?c v s \<longleftrightarrow> root_in c0 v s" for v s
    using compressed_root_in [OF f(3)] by (simp add: rekeyed_fields)
  have xw: "anchor_of ?c x ?w" unfolding anchor_of_def ri using f(2) wi by blast
  have pao: "anchor_of c0 x pa" unfolding anchor_of_def using f(2) pa fs(4) by auto
  have move: "anchor_of ?c v (if a \<in> set (if pa \<noteq> ?w then [pa] else []) then ?w else a)" if va: "anchor_of c0 v a" for v a
  proof -
    obtain s where s: "root_in c0 v s" "dget (ac_anchor c) s = Some a" using va fs(4) unfolding anchor_of_def by auto
    show ?thesis
    proof (cases "s = r")
      case True
      then have "a = pa" using s(2) pa by simp
      then have e: "(if a \<in> set (if pa \<noteq> ?w then [pa] else []) then ?w else a) = ?w" by (cases "pa = ?w") simp_all
      show ?thesis unfolding e anchor_of_def ri using s(1) [unfolded True] wi by blast
    next
      case False
      have "root_in c pa r" by (rule anchored_atD(1) [OF \<open>anchored_at c r\<close> pa fk])
      moreover have "root_in c a s"
      proof -
        have rs: "root_in c v s" using s(1) compressed_root_in [OF f(3)] by blast
        have "anchored_at c s" using okc rep_of_is_root [OF rs] anchoredD by (auto simp: components_ok_def good_def)
        then show ?thesis using s(2) anchored_atD(1) unfolding anchored_at_def by blast
      qed
      ultimately have "a \<noteq> pa" using False rep_of_unique by blast
      have e: "(if a \<in> set (if pa \<noteq> ?w then [pa] else []) then ?w else a) = a"
        using \<open>a \<noteq> pa\<close> by (cases "pa = ?w") simp_all
      have as: "dget (ac_anchor ?c) s = Some a" using s(2) False by (simp add: rekeyed_fields dget_dset)
      show ?thesis unfolding e anchor_of_def ri using s(1) as by blast
    qed
  qed
  have "adds c0 x ?w (if pa \<noteq> ?w then [pa] else []) ?c"
    unfolding adds_def
  proof (intro conjI)
    show "\<forall>a\<in>set (if pa \<noteq> ?w then [pa] else []). a = x \<or> (\<exists>v. anchor_of c0 v a)"
      using pao by (cases "pa = ?w") (simp_all only: list.set if_False if_True simp_thms ball_simps insert_iff empty_iff, blast+)
    show "\<forall>v a. anchor_of c0 v a \<longrightarrow> anchor_of ?c v (if a \<in> set (if pa \<noteq> ?w then [pa] else []) then ?w else a)"
      using move by blast
    show "components_ok ?c" by (rule okc')
    show "anchor_of ?c x ?w" by (rule xw)
    show "ac_tolerance ?c = ac_tolerance c0" using fs(1) by (simp add: rekeyed_fields)
    show "sorted (if pa \<noteq> ?w then [pa] else [])" "distinct (if pa \<noteq> ?w then [pa] else [])" by (cases "pa = ?w"; simp)+
    show "?w \<notin> set (if pa \<noteq> ?w then [pa] else [])" by (cases "pa = ?w") auto
  qed
  moreover have "ac_next_order ?c = ac_next_order c0" "dkeys (ac_parent ?c) = dkeys (ac_parent c0)"
    "ac_member_order ?c = (if key < own then dset x key (ac_member_order c0) else ac_member_order c0)"
    using fs by (simp_all add: rekeyed_fields)
  ultimately show ?thesis using res own unfolding fs(6) by blast
qed

section \<open>Histories\<close>

definition ordered_key :: "anchor_components \<Rightarrow> order_key option \<Rightarrow> order_key" where
  "ordered_key c k = (case k of None \<Rightarrow> ('''', ac_next_order c, 0) | Some k \<Rightarrow> k)"

lemma components_ok_next: "components_ok (c\<lparr>ac_next_order := n\<rparr>) \<longleftrightarrow> components_ok c"
  by (simp add: components_ok_def slotted_def good_def shaped_def partitioned_def anchored_def anchored_at_def ranked_def)

lemma add_raw_adds:
  assumes ok: "components_ok c"
  shows "\<exists>winner retired c'. add_raw c x k = ret ((winner, retired), c') \<and> adds c x winner retired c'
     \<and> ac_next_order c' = ac_next_order c + 1
     \<and> dkeys (ac_parent c') = (if x \<in> set (dkeys (ac_parent c)) then dkeys (ac_parent c) else dkeys (ac_parent c) @ [x])
     \<and> (\<forall>v. dget (ac_member_order c') v = (if v = x then Some (case dget (ac_member_order c) x of
            None \<Rightarrow> ordered_key c k | Some own \<Rightarrow> min own (ordered_key c k)) else dget (ac_member_order c) v))"
proof -
  let ?c = "c\<lparr>ac_next_order := ac_next_order c + 1\<rparr>" and ?k = "ordered_key c k"
  have okc: "components_ok ?c" using ok by (simp add: components_ok_next)
  have eq: "adds ?c x w t c' \<longleftrightarrow> adds c x w t c'" for w t c' by (simp add: adds_def anchor_of_def)
  have md: "dom (dget (ac_member_order c)) = dom (parent_of c)" using components_ok_shaped [OF ok] by (simp add: shaped_def)
  show ?thesis
  proof (cases "x \<in> set (dkeys (ac_parent c))")
    case True
    then have "x \<in> dom (parent_of ?c)" using member_dom [of x c] by simp
    from add_known_adds [OF okc this, of ?k] obtain w t c' own where
      r: "add_known ?c x ?k = ret ((w, t), c')" "adds c x w t c'" "ac_next_order c' = ac_next_order c + 1"
        "dkeys (ac_parent c') = dkeys (ac_parent c)" "dget (ac_member_order c) x = Some own"
        "ac_member_order c' = (if ?k < own then dset x ?k (ac_member_order c) else ac_member_order c)"
      unfolding eq by auto
    have "add_raw c x k = ret ((w, t), c')" using True r(1) by (simp add: add_raw_def Let_def ordered_key_def)
    moreover have "dget (ac_member_order c') v = (if v = x then Some (min own ?k) else dget (ac_member_order c) v)" for v
    proof -
      have "min own ?k = (if ?k < own then ?k else own)" by (metis min_def not_le)
      then show ?thesis unfolding r(6) using r(5) by (simp add: dget_dset)
    qed
    ultimately show ?thesis using r(2-5) True by (simp del: split_paired_All)
  next
    case False
    then have "x \<notin> dom (parent_of ?c)" using member_dom [of x c] by simp
    from add_new_adds [OF okc this, of ?k] obtain w t c' where
      r: "add_new ?c x ?k = ret ((w, t), c')" "adds c x w t c'" "ac_next_order c' = ac_next_order c + 1"
        "dkeys (ac_parent c') = dkeys (ac_parent c) @ [x]" "ac_member_order c' = dset x ?k (ac_member_order c)"
      unfolding eq by auto
    have "add_raw c x k = ret ((w, t), c')" using False r(1) by (simp add: add_raw_def Let_def ordered_key_def)
    moreover have "dget (ac_member_order c) x = None" using md False member_dom [of x c] by blast
    ultimately show ?thesis using r(2-5) False by (simp add: dget_dset)
  qed
qed


text \<open>The keys a history assigns: an addition without key draws the number of additions before it.\<close>

definition drawn_key :: "int \<Rightarrow> order_key option \<Rightarrow> order_key" where
  "drawn_key n k = (case k of None \<Rightarrow> ('''', n, 0) | Some k \<Rightarrow> k)"

fun keyed :: "int \<Rightarrow> (instant \<times> order_key option) list \<Rightarrow> (instant \<times> order_key) list" where
  "keyed n [] = []"
| "keyed n (e # es) = (fst e, drawn_key n (snd e)) # keyed (n + 1) es"

definition least_in :: "(instant \<times> order_key) list \<Rightarrow> instant \<Rightarrow> order_key \<Rightarrow> bool" where
  "least_in h v m \<longleftrightarrow> (v, m) \<in> set h \<and> (\<forall>k. (v, k) \<in> set h \<longrightarrow> m \<le> k)"

definition first_seen :: "'a list \<Rightarrow> 'a list" where
  "first_seen xs = rev (remdups (rev xs))"

lemma first_seen_snoc: "first_seen (xs @ [x]) = (if x \<in> set xs then first_seen xs else first_seen xs @ [x])"
  by (simp add: first_seen_def)

lemma set_first_seen [simp]: "set (first_seen xs) = set xs"
  by (simp add: first_seen_def)

text \<open>\<open>tracks h c\<close>: \<open>c\<close> is the state after the keyed history \<open>h\<close>.\<close>

definition tracks :: "(instant \<times> order_key) list \<Rightarrow> anchor_components \<Rightarrow> bool" where
  "tracks h c \<longleftrightarrow> components_ok c \<and> dkeys (ac_parent c) = first_seen (map fst h) \<and> ac_next_order c = int (length h)
     \<and> (\<forall>v m. dget (ac_member_order c) v = Some m \<longleftrightarrow> least_in h v m)"

lemma tracks_components: "tracks h c \<Longrightarrow> components_ok c"
  by (simp add: tracks_def)

lemma tracks_dom:
  assumes "tracks h c" shows "dom (parent_of c) = fst ` set h"
proof -
  have "x \<in> dom (parent_of c) \<longleftrightarrow> x \<in> fst ` set h" for x
    using assms member_dom [of x c] unfolding tracks_def by simp
  then show ?thesis by blast
qed

lemma least_in_exists: "v \<in> fst ` set h \<Longrightarrow> \<exists>m. least_in h v m"
proof -
  assume "v \<in> fst ` set h"
  let ?K = "snd ` {e \<in> set h. fst e = v}"
  have K: "finite ?K" "?K \<noteq> {}" using \<open>v \<in> fst ` set h\<close> by (simp, blast)
  have "(v, k) \<in> set h \<longleftrightarrow> k \<in> ?K" for k by force
  then show ?thesis unfolding least_in_def using Min_in [OF K] Min_le [OF K(1)] by blast
qed

lemma least_in_unique: "least_in h v m \<Longrightarrow> least_in h v n \<Longrightarrow> m = n"
  unfolding least_in_def by (meson order_antisym)

lemma least_in_snoc:
  "least_in (h @ [(x, k)]) v m \<longleftrightarrow>
     (if v = x then (if x \<in> fst ` set h then \<exists>own. least_in h x own \<and> m = min own k else m = k) else least_in h v m)"
proof (cases "v = x")
  case vx: True
  show ?thesis
  proof (cases "x \<in> fst ` set h")
    case True
    then obtain own where own: "least_in h x own" using least_in_exists by blast
    have "least_in (h @ [(x, k)]) x (min own k)"
      using own unfolding least_in_def
      by (auto simp del: split_paired_All less_eq_prod_simp less_prod_simp simp: min_le_iff_disj min_def)
    then have "least_in (h @ [(x, k)]) x m \<longleftrightarrow> m = min own k" using least_in_unique by blast
    moreover have "(\<exists>own. least_in h x own \<and> m = min own k) \<longleftrightarrow> m = min own k" using own least_in_unique by blast
    ultimately show ?thesis using vx True by simp
  next
    case False
    then have "(x, l) \<notin> set h" for l by force
    then show ?thesis using vx False unfolding least_in_def by auto
  qed
next
  case False
  then show ?thesis unfolding least_in_def by simp
qed

lemma add_step_tracks:
  assumes t: "tracks h c"
  shows "\<exists>c' winner retired. add_step c (x, k) = ret c' \<and> tracks (h @ [(x, drawn_key (int (length h)) k)]) c'
     \<and> ac_tolerance c' = ac_tolerance c \<and> add_raw c x k = ret ((winner, retired), c') \<and> adds c x winner retired c'"
proof -
  let ?k = "drawn_key (int (length h)) k"
  have ok: "components_ok c" by (rule tracks_components [OF t])
  have key: "ordered_key c k = ?k" using t unfolding tracks_def ordered_key_def drawn_key_def by presburger
  obtain w r c' where a: "add_raw c x k = ret ((w, r), c')" "adds c x w r c'" "ac_next_order c' = ac_next_order c + 1"
    "dkeys (ac_parent c') = (if x \<in> set (dkeys (ac_parent c)) then dkeys (ac_parent c) else dkeys (ac_parent c) @ [x])"
    "\<forall>v. dget (ac_member_order c') v = (if v = x then Some (case dget (ac_member_order c) x of
            None \<Rightarrow> ?k | Some own \<Rightarrow> min own ?k) else dget (ac_member_order c) v)"
    using add_raw_adds [OF ok, of x k] unfolding key by blast
  have mem: "dget (ac_member_order c) v = Some m \<longleftrightarrow> least_in h v m" for v m using t unfolding tracks_def by blast
  have "dget (ac_member_order c') v = Some m \<longleftrightarrow> least_in (h @ [(x, ?k)]) v m" for v m
  proof (cases "v = x")
    case True
    show ?thesis
    proof (cases "x \<in> fst ` set h")
      case xin: True
      then obtain own where own: "least_in h x own" using least_in_exists by blast
      have "dget (ac_member_order c) x = Some own" using mem own by blast
      then have "dget (ac_member_order c') v = Some (min own ?k)" using a(5) True by simp
      moreover have "least_in (h @ [(x, ?k)]) v m \<longleftrightarrow> m = min own ?k"
        unfolding least_in_snoc using True xin own least_in_unique by metis
      ultimately show ?thesis by auto
    next
      case False
      then have "\<not> least_in h x m" for m unfolding least_in_def by force
      then have "dget (ac_member_order c) x = None" using mem by (metis not_Some_eq)
      then have "dget (ac_member_order c') v = Some ?k" using a(5) True by simp
      then show ?thesis unfolding least_in_snoc using True False by auto
    qed
  next
    case False
    then show ?thesis using a(5) mem unfolding least_in_snoc by simp
  qed
  moreover have "dkeys (ac_parent c') = first_seen (map fst (h @ [(x, ?k)]))"
    using t a(4) by (simp add: tracks_def first_seen_snoc)
  moreover have "components_ok c'" "ac_tolerance c' = ac_tolerance c" using a(2) by (simp_all add: adds_def)
  moreover have "ac_next_order c' = int (length (h @ [(x, ?k)]))" using t a(3) by (simp add: tracks_def)
  ultimately show ?thesis using a(1,2) unfolding tracks_def add_step_def by auto
qed

lemma history_tracks:
  assumes "tracks h c"
  shows "\<exists>c'. run_fold add_step c es = ret c' \<and> tracks (h @ keyed (int (length h)) es) c' \<and> ac_tolerance c' = ac_tolerance c"
  using assms
proof (induction es arbitrary: h c)
  case (Cons e es)
  obtain x k where e: "e = (x, k)" by (metis surj_pair)
  let ?h = "h @ [(x, drawn_key (int (length h)) k)]"
  obtain c1 where c1: "add_step c (x, k) = ret c1" "tracks ?h c1" "ac_tolerance c1 = ac_tolerance c"
    using add_step_tracks [OF Cons.prems, of x k] by blast
  from Cons.IH [OF c1(2)] obtain c' where
    "run_fold add_step c1 es = ret c'" "tracks (?h @ keyed (int (length ?h)) es) c'" "ac_tolerance c' = ac_tolerance c1" by blast
  then show ?case using c1 e by (simp add: add.commute)
qed simp

lemma empty_tracks:
  assumes "0 < tol" shows "tracks [] (empty_components tol)"
proof -
  have none: "\<not> rep_of (\<lambda>_. None) v r" for v r :: instant using rep_of_dom [of "\<lambda>_. None" v r] by auto
  have "components_ok (empty_components tol)"
    using assms none forest_empty
    by (simp add: components_ok_def slotted_def good_def shaped_def partitioned_def anchored_def ranked_def
          empty_components_def dget_or_def dkeys_def)
  then show ?thesis by (simp add: tracks_def empty_components_def first_seen_def dkeys_def least_in_def)
qed

text \<open>Every history from the empty object returns, and its state is the one the history describes.\<close>

lemma history:
  assumes "0 < tol"
  obtains c where "run_fold add_step (empty_components tol) es = ret c" "tracks (keyed 0 es) c" "ac_tolerance c = tol"
  using history_tracks [OF empty_tracks [OF assms], of es] that by (auto simp: empty_components_def)

lemma canonical_returns:
  assumes "components_ok c" and "anchor_of c v a"
  shows "\<exists>c'. canonical_in c v = ret (a, c') \<and> compressed c c'"
proof -
  obtain r c' where f: "find_in c v = ret (r, c')" "root_in c v r" "compressed c c'"
    by (rule find_in_returns [OF components_ok_shaped [OF assms(1)] anchor_of_dom [OF assms(2)]])
  obtain s where s: "root_in c v s" "dget (ac_anchor c) s = Some a" using assms(2) unfolding anchor_of_def by blast
  have "s = r" using s(1) f(2) rep_of_unique by blast
  then have "dget (ac_anchor c') r = Some a" using s(2) compressed_fields(4) [OF f(3)] by simp
  then show ?thesis unfolding canonical_in_def f(1) run_bind_simps prod.case using f(3) by simp
qed

definition canonical_is :: "anchor_components \<Rightarrow> instant \<Rightarrow> instant \<Rightarrow> bool" where
  "canonical_is c v a \<longleftrightarrow> (\<exists>c'. canonical_in c v = ret (a, c'))"

lemma canonical_is_iff:
  assumes "components_ok c" and "v \<in> dom (parent_of c)"
  shows "canonical_is c v a \<longleftrightarrow> anchor_of c v a"
proof -
  obtain b where b: "anchor_of c v b" by (rule components_ok_anchor [OF assms])
  from canonical_returns [OF assms(1) b] obtain c' where cb: "canonical_in c v = ret (b, c')" by blast
  then have "canonical_is c v a \<longleftrightarrow> a = b" unfolding canonical_is_def by auto
  then show ?thesis using b anchor_of_unique by blast
qed

lemma keyed_fst: "fst ` set (keyed n es) = fst ` set es"
  by (induction es arbitrary: n) auto


section \<open>What the anchors are\<close>

text \<open>C3: after any sequence of additions to an empty object every addition has returned, exactly the added raws
  are members, every member has a canonical anchor, and two members share it exactly when a chain of members
  with steps within the tolerance connects them.\<close>

theorem components_are_tolerance_connected:
  assumes "0 < tol"
  shows "\<exists>c. run_fold add_step (empty_components tol) es = ret c
    \<and> (\<forall>v. components_contains c v \<longleftrightarrow> v \<in> fst ` set es)
    \<and> (\<forall>u \<in> fst ` set es. \<forall>v \<in> fst ` set es. \<exists>a b. canonical_is c u a \<and> canonical_is c v b
         \<and> (a = b \<longleftrightarrow> (u, v) \<in> (near_edges (tol * MICROS) (fst ` set es))\<^sup>*))"
proof -
  obtain c where c: "run_fold add_step (empty_components tol) es = ret c" "tracks (keyed 0 es) c" "ac_tolerance c = tol"
    by (rule history [OF assms])
  note ok = tracks_components [OF c(2)]
  have dom: "dom (parent_of c) = fst ` set es" using tracks_dom [OF c(2)] by (simp add: keyed_fst)
  have "components_contains c v \<longleftrightarrow> v \<in> fst ` set es" for v
    using ok comps.member_slot [of c v] member_dom [of v c] dom
    unfolding components_contains_def bucket_of_def components_ok_def by blast
  moreover have "\<exists>a b. canonical_is c u a \<and> canonical_is c v b
      \<and> (a = b \<longleftrightarrow> (u, v) \<in> (near_edges (tol * MICROS) (fst ` set es))\<^sup>*)"
    if "u \<in> fst ` set es" "v \<in> fst ` set es" for u v
  proof -
    have uv: "u \<in> dom (parent_of c)" "v \<in> dom (parent_of c)" using that dom by simp_all
    obtain a where a: "anchor_of c u a" by (rule components_ok_anchor [OF ok uv(1)])
    obtain b where b: "anchor_of c v b" by (rule components_ok_anchor [OF ok uv(2)])
    have "canonical_is c u a" "canonical_is c v b"
      using a b canonical_is_iff [OF ok uv(1)] canonical_is_iff [OF ok uv(2)] by simp_all
    then show ?thesis using same_component_anchor [OF ok uv a b] unfolding dom c(3) by blast
  qed
  ultimately show ?thesis using c(1) by blast
qed

lemma tracked_anchor:
  assumes t: "tracks h c" and tol: "ac_tolerance c = tol" and v: "v \<in> fst ` set h" and a: "canonical_is c v a"
  shows "a \<in> fst ` set h" and "(v, a) \<in> (near_edges (tol * MICROS) (fst ` set h))\<^sup>*"
    and "(v, u) \<in> (near_edges (tol * MICROS) (fst ` set h))\<^sup>* \<Longrightarrow> least_in h u k \<Longrightarrow> \<exists>m. least_in h a m \<and> m \<le> k"
proof -
  note ok = tracks_components [OF t] and dom = tracks_dom [OF t]
  have vd: "v \<in> dom (parent_of c)" using v dom by simp
  obtain a' where a': "anchor_of c v a'" "a' \<in> dom (parent_of c)"
    "(v, a') \<in> (near_edges (ac_tolerance c * MICROS) (dom (parent_of c)))\<^sup>*"
    "\<forall>u m n. (v, u) \<in> (near_edges (ac_tolerance c * MICROS) (dom (parent_of c)))\<^sup>* \<longrightarrow> dget (ac_member_order c) a' = Some m
       \<longrightarrow> dget (ac_member_order c) u = Some n \<longrightarrow> m \<le> n"
    by (rule components_ok_anchor [OF ok vd])
  have e: "a' = a" using a a'(1) canonical_is_iff [OF ok vd] anchor_of_unique by blast
  note a' = a' [unfolded e dom tol]
  show ah: "a \<in> fst ` set h" and "(v, a) \<in> (near_edges (tol * MICROS) (fst ` set h))\<^sup>*" using a'(2,3) by blast+
  have mem: "dget (ac_member_order c) x = Some m \<longleftrightarrow> least_in h x m" for x m using t unfolding tracks_def by blast
  obtain m where m: "least_in h a m" using least_in_exists [OF ah] by blast
  assume "(v, u) \<in> (near_edges (tol * MICROS) (fst ` set h))\<^sup>*" "least_in h u k"
  then show "\<exists>m. least_in h a m \<and> m \<le> k" using a'(4) m mem by metis
qed

text \<open>The canonical anchor of a member is a member of its component whose least order key is least among the
  components' members; an addition without a key counts as the number of additions before it.\<close>

theorem anchor_has_least_key:
  assumes "0 < tol" and "run_fold add_step (empty_components tol) es = ret c" and "v \<in> fst ` set es"
    and "canonical_is c v a" and "(v, u) \<in> (near_edges (tol * MICROS) (fst ` set es))\<^sup>*" and "(u, k) \<in> set (keyed 0 es)"
  shows "(v, a) \<in> (near_edges (tol * MICROS) (fst ` set es))\<^sup>* \<and> (\<exists>m. (a, m) \<in> set (keyed 0 es) \<and> m \<le> k)"
proof -
  obtain c' where "run_fold add_step (empty_components tol) es = ret c'" "tracks (keyed 0 es) c'" "ac_tolerance c' = tol"
    by (rule history [OF assms(1)])
  then have t: "tracks (keyed 0 es) c" and tol: "ac_tolerance c = tol" using assms(2) by simp_all
  have v: "v \<in> fst ` set (keyed 0 es)" using assms(3) by (simp add: keyed_fst)
  note at = tracked_anchor [OF t tol v assms(4), unfolded keyed_fst]
  have "u \<in> fst ` set (keyed 0 es)" using assms(6) by force
  then obtain l where l: "least_in (keyed 0 es) u l" using least_in_exists by blast
  then have lk: "l \<le> k" using assms(6) unfolding least_in_def by blast
  obtain m where m: "least_in (keyed 0 es) a m" "m \<le> l" using at(3) [OF assms(5) l] by blast
  have "(a, m) \<in> set (keyed 0 es)" using m(1) unfolding least_in_def by blast
  moreover have "m \<le> k" using m(2) lk by (rule order_trans)
  ultimately show ?thesis using at(2) by blast
qed

text \<open>The canonical anchors are determined by the set of the keyed history.\<close>

lemma tracked_anchor_unique:
  assumes t: "tracks h c" "tracks g d" and tol: "ac_tolerance c = tol" "ac_tolerance d = tol"
    and set: "fst ` set h = fst ` set g" "\<And>v k. least_in h v k \<longleftrightarrow> least_in g v k"
    and inj: "\<And>u v k. least_in h u k \<Longrightarrow> least_in h v k \<Longrightarrow> u = v"
    and v: "v \<in> fst ` set h" and a: "canonical_is c v a" and b: "canonical_is d v b"
  shows "a = b"
proof -
  note A = tracked_anchor [OF t(1) tol(1) v a]
  note B = tracked_anchor [OF t(2) tol(2) v [unfolded set(1)] b, folded set(1)]
  obtain m where m: "least_in h a m" using least_in_exists [OF A(1)] by blast
  obtain n where n: "least_in h b n" using least_in_exists [OF B(1)] by blast
  obtain m' where m': "least_in h a m'" "m' \<le> n" using A(3) [OF B(2) n] by blast
  obtain n' where n': "least_in g b n'" "n' \<le> m" using B(3) [OF A(2)] m set(2) by blast
  have "m' = m" "n' = n" using m m'(1) n n'(1) set(2) least_in_unique by blast+
  then have "m = n" using m'(2) n'(2) by (meson order_antisym)
  then show ?thesis using inj [of a m b] m n by simp
qed

lemma canonical_exists:
  assumes "tracks h c" and "v \<in> fst ` set h"
  shows "\<exists>a. canonical_is c v a"
proof -
  have vd: "v \<in> dom (parent_of c)" using assms tracks_dom by blast
  obtain a where "anchor_of c v a" by (rule components_ok_anchor [OF tracks_components [OF assms(1)] vd])
  then show ?thesis using canonical_is_iff [OF tracks_components [OF assms(1)] vd] by blast
qed

lemma keyed_explicit: "keyed n (map (\<lambda>(v, k). (v, Some k)) es) = es"
  by (induction es arbitrary: n) (auto simp: drawn_key_def)

text \<open>C26: the canonical anchors do not depend on the order or repetition in which the keyed observations arrive,
  as long as distinct raws never share an order key.\<close>

theorem anchors_order_independent:
  assumes "0 < tol" and "set es = set fs" and "\<And>u v k. (u, k) \<in> set es \<Longrightarrow> (v, k) \<in> set es \<Longrightarrow> u = v"
    and "run_fold add_step (empty_components tol) (map (\<lambda>(v, k). (v, Some k)) es) = ret c"
    and "run_fold add_step (empty_components tol) (map (\<lambda>(v, k). (v, Some k)) fs) = ret d"
    and "v \<in> fst ` set es"
  shows "\<exists>a. canonical_is c v a \<and> canonical_is d v a"
proof -
  obtain c' where "run_fold add_step (empty_components tol) (map (\<lambda>(v, k). (v, Some k)) es) = ret c'"
    "tracks es c'" "ac_tolerance c' = tol"
    using history [OF assms(1), of "map (\<lambda>(v, k). (v, Some k)) es"] unfolding keyed_explicit by blast
  then have c: "tracks es c" "ac_tolerance c = tol" using assms(4) by simp_all
  obtain d' where "run_fold add_step (empty_components tol) (map (\<lambda>(v, k). (v, Some k)) fs) = ret d'"
    "tracks fs d'" "ac_tolerance d' = tol"
    using history [OF assms(1), of "map (\<lambda>(v, k). (v, Some k)) fs"] unfolding keyed_explicit by blast
  then have d: "tracks fs d" "ac_tolerance d = tol" using assms(5) by simp_all
  obtain a where a: "canonical_is c v a" using canonical_exists [OF c(1) assms(6)] by blast
  obtain b where b: "canonical_is d v b" using canonical_exists [OF d(1)] assms(2,6) by auto
  have "a = b"
  proof (rule tracked_anchor_unique [OF c(1) d(1) c(2) d(2) _ _ _ assms(6) a b])
    show "fst ` set es = fst ` set fs" using assms(2) by simp
    show "least_in es v k \<longleftrightarrow> least_in fs v k" for v k unfolding least_in_def assms(2) ..
    show "\<And>u v k. least_in es u k \<Longrightarrow> least_in es v k \<Longrightarrow> u = v" using assms(3) unfolding least_in_def by blast
  qed
  then show ?thesis using a b by blast
qed

text \<open>An addition after any history returns the anchor of the added raw and the sorted, distinct anchors it
  retires: every earlier member whose anchor is among them has the returned anchor from then on, and every
  other member keeps its own.\<close>

theorem retired_anchors_converge:
  assumes "0 < tol" and "run_fold add_step (empty_components tol) es = ret c"
  shows "\<exists>winner retired c'. add_raw c x k = ret ((winner, retired), c') \<and> canonical_is c' x winner
    \<and> sorted retired \<and> distinct retired \<and> winner \<notin> set retired
    \<and> (\<forall>v \<in> fst ` set es. \<forall>a. canonical_is c v a \<longrightarrow> canonical_is c' v (if a \<in> set retired then winner else a))"
proof -
  obtain c1 where "run_fold add_step (empty_components tol) es = ret c1" "tracks (keyed 0 es) c1"
    by (rule history [OF assms(1)])
  then have t: "tracks (keyed 0 es) c" using assms(2) by simp
  note ok = tracks_components [OF t] and dom = tracks_dom [OF t, unfolded keyed_fst]
  obtain winner retired c' where r: "add_raw c x k = ret ((winner, retired), c')" and ad: "adds c x winner retired c'"
    using add_step_tracks [OF t, of x k] by blast
  have ok': "components_ok c'" and xw: "anchor_of c' x winner" and shp: "sorted retired" "distinct retired" "winner \<notin> set retired"
    and mv: "\<And>v a. anchor_of c v a \<Longrightarrow> anchor_of c' v (if a \<in> set retired then winner else a)"
    using ad unfolding adds_def by blast+
  have "canonical_is c' x winner" using canonical_is_iff [OF ok' anchor_of_dom [OF xw]] xw by blast
  moreover have "canonical_is c' v (if a \<in> set retired then winner else a)"
    if "v \<in> fst ` set es" "canonical_is c v a" for v a
  proof -
    have "v \<in> dom (parent_of c)" using that(1) dom by simp
    from mv canonical_is_iff [OF ok this] that(2) have an: "anchor_of c' v (if a \<in> set retired then winner else a)" by blast
    show ?thesis using canonical_is_iff [OF ok' anchor_of_dom [OF an]] an by blast
  qed
  ultimately show ?thesis using r shp by blast
qed

text \<open>C35: the recursion of a lookup is shallow: after any history a lookup of a member returns after a number of
  steps whose power of two is at most the number of members.\<close>

theorem find_depth:
  assumes "0 < tol" and "run_fold add_step (empty_components tol) es = ret c" and "v \<in> fst ` set es"
  shows "\<exists>r n c'. climbs (dget (ac_parent c)) v n r \<and> 2 ^ n \<le> length (members_of c) \<and> find_in c v = ret (r, c')"
proof -
  obtain c1 where "run_fold add_step (empty_components tol) es = ret c1" "tracks (keyed 0 es) c1"
    by (rule history [OF assms(1)])
  then have t: "tracks (keyed 0 es) c" using assms(2) by simp
  note ok = tracks_components [OF t]
  have sh: "shaped c" and rk: "ranked c" using ok by (simp_all add: components_ok_def good_def)
  have "v \<in> dom (parent_of c)" using tracks_dom [OF t] assms(3) by (simp add: keyed_fst)
  then obtain r c' where f: "find_in c v = ret (r, c')" "root_in c v r" by (rule find_in_returns [OF sh])
  then obtain n where n: "climbs (parent_of c) v n r" unfolding rep_of_def by blast
  have climb: "n + i \<le> j" if "climbs (parent_of c) v n r" "dget (ac_rank c) v = Some i" "dget (ac_rank c) r = Some j" for v n r i j
    using that
  proof (induction arbitrary: i rule: climbs.induct)
    case (climbs_step v p n r)
    have "p \<in> dom (parent_of c)" using climbs_dom [OF climbs_step.hyps(3)] by blast
    then obtain l where l: "dget (ac_rank c) p = Some l" using shaped_rank [OF sh] by blast
    have "i < l" using rk climbs_step.hyps(1,2) climbs_step.prems(1) l unfolding ranked_def by blast
    then show ?case using climbs_step.IH [OF l climbs_step.prems(2)] by simp
  qed simp
  obtain i j where ij: "dget (ac_rank c) v = Some i" "dget (ac_rank c) r = Some j"
    using shaped_rank [OF sh rep_of_dom [OF f(2)]] shaped_rank [OF sh root_dom [OF rep_of_is_root [OF f(2)]]] by blast
  have "n \<le> j" using climb [OF n ij] by simp
  then have "(2::nat) ^ n \<le> 2 ^ j" by (intro power_increasing) auto
  also have "\<dots> \<le> card {u. root_in c u r}" using rk rep_of_is_root [OF f(2)] ij(2) unfolding ranked_def by blast
  also have "\<dots> \<le> card (set (members_of c))"
    by (rule card_mono) (use rep_of_dom member_dom members_of_def in auto)
  also have "\<dots> \<le> length (members_of c)" by (rule card_length)
  finally show ?thesis using n f(1) by blast
qed


section \<open>Rebuilding from evidence\<close>

definition key_of :: "(instant \<times> order_key) list \<Rightarrow> instant \<Rightarrow> order_key" where
  "key_of h v = Min (snd ` {e \<in> set h. fst e = v})"

lemma key_of_least:
  assumes "v \<in> fst ` set h"
  shows "least_in h v k \<longleftrightarrow> k = key_of h v"
proof -
  let ?K = "snd ` {e \<in> set h. fst e = v}"
  have K: "finite ?K" "?K \<noteq> {}" using assms by (simp, blast)
  have mem: "(v, k) \<in> set h \<longleftrightarrow> k \<in> ?K" for k by force
  have "least_in h v (key_of h v)"
    unfolding least_in_def key_of_def using mem Min_in [OF K] Min_le [OF K(1)] by blast
  then show ?thesis using least_in_unique by blast
qed

lemma first_seen_keys_sorted:
  assumes "sorted (map snd (p @ q))"
  shows "sorted (map (key_of (p @ q)) (first_seen (map fst p)))"
  using assms
proof (induction p arbitrary: q rule: rev_induct)
  case (snoc e p)
  obtain x k where e: "e = (x, k)" by (metis surj_pair)
  let ?h = "p @ e # q"
  have sorted: "sorted (map snd ?h)" using snoc.prems by simp
  have IH: "sorted (map (key_of ?h) (first_seen (map fst p)))" using snoc.IH [of "e # q"] sorted by simp
  have before: "l \<le> k" if "(v, l) \<in> set p" for v l using sorted that e by (force simp: sorted_append)
  have after: "k \<le> l" if "(v, l) \<in> set q" for v l using sorted that e by (force simp: sorted_append)
  show ?case
  proof (cases "x \<in> set (map fst p)")
    case True
    then show ?thesis using IH e by (simp add: first_seen_snoc)
  next
    case False
    have "least_in ?h x k"
      unfolding least_in_def
    proof (intro conjI allI impI)
      show "(x, k) \<in> set ?h" using e by simp
      fix l assume "(x, l) \<in> set ?h"
      then have "(x, l) \<in> set p \<or> l = k \<or> (x, l) \<in> set q" using e by auto
      moreover have "(x, l) \<notin> set p" using False by force
      ultimately show "k \<le> l" using after by blast
    qed
    then have kx: "key_of ?h x = k" using key_of_least [of x ?h k] e by simp
    have "key_of ?h v \<le> k" if v: "v \<in> set (map fst p)" for v
    proof -
      obtain l where l: "(v, l) \<in> set p" using v by auto
      have "v \<in> fst ` set ?h" using v by auto
      then have "least_in ?h v (key_of ?h v)" using key_of_least by blast
      moreover have "(v, l) \<in> set ?h" using l by simp
      ultimately have "key_of ?h v \<le> l" unfolding least_in_def by blast
      then show ?thesis using before [OF l] by (rule order_trans)
    qed
    then have "sorted (map (key_of ?h) (first_seen (map fst p) @ [x]))"
      using IH kx by (simp add: sorted_append)
    then show ?thesis using False e by (simp add: first_seen_snoc)
  qed
qed (simp add: first_seen_def)

lemma sorted_by_unique:
  assumes "sorted (map f xs)" and "sorted (map f ys)" and "distinct xs" and "distinct ys" and "set xs = set ys" and "inj_on f (set xs)"
  shows "xs = ys"
proof -
  have "map f xs = map f ys"
    by (rule sorted_distinct_set_unique) (use assms in \<open>simp_all add: distinct_map\<close>)
  then show ?thesis using assms(5,6) by (metis map_inj_on sup.idem)
qed

lemma sum_counts: "distinct ys \<Longrightarrow> set ys = set xs \<Longrightarrow> sum_list (map (\<lambda>i. int (count_list xs i)) ys) = int (length xs)"
proof -
  assume "distinct ys" "set ys = set xs"
  then have "sum_list (map (\<lambda>i. int (count_list xs i)) ys) = int (sum (count_list xs) (set xs))"
    by (simp add: sum_list_distinct_conv_sum_set)
  then show ?thesis using sum_count_set [of xs "set xs"] by simp
qed

text \<open>The entries of a group: one per distinct raw, with the least key and the number of its rows.\<close>

definition evidence_of :: "(instant \<times> order_key) list \<Rightarrow> (instant \<times> order_key \<times> int) list \<Rightarrow> bool" where
  "evidence_of rows entries \<longleftrightarrow> distinct (map fst entries) \<and> fst ` set entries = fst ` set rows
     \<and> list_all (\<lambda>(i, k, n). k = key_of rows i \<and> n = int (count_list (map fst rows) i)) entries"

text \<open>The entries as \<open>from_evidence\<close> adds them.\<close>

definition evidence_order :: "(instant \<times> order_key \<times> int) list \<Rightarrow> (instant \<times> order_key) list" where
  "evidence_order entries = map (\<lambda>(i, k, _). (i, k)) (sort_key (\<lambda>(_, k, _). k) entries)"

lemma evidence_ofD:
  assumes "evidence_of rows entries"
  shows "distinct (map fst entries)" and "fst ` set entries = fst ` set rows"
    and "(i, k, n) \<in> set entries \<Longrightarrow> k = key_of rows i \<and> n = int (count_list (map fst rows) i)"
  using assms unfolding evidence_of_def list_all_iff by auto

lemma evidence_order_fst: "map fst (evidence_order entries) = map fst (sort_key (\<lambda>(_, k, _). k) entries)"
  by (simp add: evidence_order_def case_prod_beta' comp_def)

lemma evidence_order_distinct: "evidence_of rows entries \<Longrightarrow> distinct (map fst (evidence_order entries))"
proof -
  assume "evidence_of rows entries"
  moreover have "mset (map fst (sort_key (\<lambda>(_, k, _). k) entries)) = mset (map fst entries)" by simp
  ultimately show ?thesis unfolding evidence_order_fst using evidence_ofD(1) by (metis mset_eq_imp_distinct_iff)
qed

lemma evidence_order_keys:
  assumes "evidence_of rows entries"
  shows "(v, k) \<in> set (evidence_order entries) \<longleftrightarrow> v \<in> fst ` set rows \<and> k = key_of rows v"
proof
  assume "(v, k) \<in> set (evidence_order entries)"
  then obtain n where "(v, k, n) \<in> set entries" unfolding evidence_order_def by auto
  then show "v \<in> fst ` set rows \<and> k = key_of rows v" using evidence_ofD(2,3) [OF assms] by (metis fst_conv image_eqI)
next
  assume a: "v \<in> fst ` set rows \<and> k = key_of rows v"
  then obtain e where "e \<in> set entries" "fst e = v" using evidence_ofD(2) [OF assms] by (metis imageE)
  then obtain l n where e: "(v, l, n) \<in> set entries" by (metis prod.collapse)
  then have "l = k" using evidence_ofD(3) [OF assms e] a by blast
  then have "(v, k, n) \<in> set (sort_key (\<lambda>(_, k, _). k) entries)" using e by simp
  then show "(v, k) \<in> set (evidence_order entries)" unfolding evidence_order_def set_map by (rule rev_image_eqI) simp
qed

lemma evidence_order_members: "evidence_of rows entries \<Longrightarrow> fst ` set (evidence_order entries) = fst ` set rows"
  using evidence_ofD(2) evidence_order_fst [of entries] by (metis list.set_map set_sort)

lemma evidence_least:
  assumes "evidence_of rows entries"
  shows "least_in (evidence_order entries) v k \<longleftrightarrow> least_in rows v k"
proof -
  have "least_in rows v k \<longleftrightarrow> v \<in> fst ` set rows \<and> k = key_of rows v"
    using key_of_least [of v rows k] unfolding least_in_def by force
  then show ?thesis using evidence_order_keys [OF assms] unfolding least_in_def [of "evidence_order entries"] by auto
qed

lemma least_distinct:
  assumes "distinct (map snd rows)" and "least_in rows u k" and "least_in rows v k"
  shows "u = v"
proof -
  have "(u, k) \<in> set rows" "(v, k) \<in> set rows" using assms(2,3) unfolding least_in_def by blast+
  then have "(u, k) = (v, k)" using assms(1) unfolding distinct_map by (intro inj_onD [of snd "set rows"]) simp_all
  then show ?thesis by simp
qed

lemma evidence_first_seen:
  assumes "sorted (map snd rows)" and "distinct (map snd rows)" and "evidence_of rows entries"
  shows "first_seen (map fst rows) = map fst (evidence_order entries)"
proof (rule sorted_by_unique [where f = "key_of rows"])
  show "sorted (map (key_of rows) (first_seen (map fst rows)))" using first_seen_keys_sorted [of rows "[]"] assms(1) by simp
  have "map (key_of rows) (map fst (evidence_order entries)) = map (\<lambda>(_, k, _). k) (sort_key (\<lambda>(_, k, _). k) entries)"
    unfolding evidence_order_fst using evidence_ofD(3) [OF assms(3)] by (auto simp: case_prod_beta')
  then show "sorted (map (key_of rows) (map fst (evidence_order entries)))" by (simp only: sorted_sort_key)
  show "distinct (first_seen (map fst rows))" by (simp add: first_seen_def)
  show "distinct (map fst (evidence_order entries))" by (rule evidence_order_distinct [OF assms(3)])
  show "set (first_seen (map fst rows)) = set (map fst (evidence_order entries))"
    using evidence_order_members [OF assms(3)] by simp
  show "inj_on (key_of rows) (set (first_seen (map fst rows)))"
  proof (rule inj_onI)
    fix u v assume "u \<in> set (first_seen (map fst rows))" "v \<in> set (first_seen (map fst rows))" "key_of rows u = key_of rows v"
    then show "u = v" using least_distinct [OF assms(2)] key_of_least by (metis list.set_map set_first_seen)
  qed
qed

lemma evidence_totals:
  assumes "evidence_of rows entries"
  shows "sum_list (map (\<lambda>(_, _, n). n) entries) = int (length rows)" and "\<not> list_ex (\<lambda>(_, _, n). n < 1) entries"
proof -
  have "map (\<lambda>(_, _, n). n) entries = map (\<lambda>i. int (count_list (map fst rows) i)) (map fst entries)"
    using evidence_ofD(3) [OF assms] by auto
  moreover have "set (map fst entries) = set (map fst rows)" using evidence_ofD(2) [OF assms] by simp
  ultimately show "sum_list (map (\<lambda>(_, _, n). n) entries) = int (length rows)"
    using sum_counts [OF evidence_ofD(1) [OF assms], of "map fst rows"] by (simp only: length_map)
  show "\<not> list_ex (\<lambda>(_, _, n). n < 1) entries"
  proof
    assume "list_ex (\<lambda>(_, _, n). n < 1) entries"
    then obtain i k n where e: "(i, k, n) \<in> set entries" "n < 1" by (auto simp: list_ex_iff)
    then have "count_list (map fst rows) i = 0" using evidence_ofD(3) [OF assms] by fastforce
    moreover have "i \<in> set (map fst rows)" using e(1) evidence_ofD(2) [OF assms] by (metis fst_conv image_eqI list.set_map)
    ultimately show False by (simp add: count_list_0_iff)
  qed
qed

lemma canonical_is_next:
  assumes "tracks h c" and "v \<in> fst ` set h"
  shows "canonical_is (c\<lparr>ac_next_order := n\<rparr>) v a \<longleftrightarrow> canonical_is c v a"
proof -
  have v: "v \<in> dom (parent_of c)" using tracks_dom [OF assms(1)] assms(2) by simp
  have ok: "components_ok c" by (rule tracks_components [OF assms(1)])
  then have "components_ok (c\<lparr>ac_next_order := n\<rparr>)" by (simp add: components_ok_next)
  from canonical_is_iff [OF this] canonical_is_iff [OF ok v] v show ?thesis by (simp add: anchor_of_def)
qed

text \<open>Rebuilding the components from the per-raw evidence of a group, listed in any order, equals seeding them
  with one addition per row in ascending key order: the same members in the same order, member keys, next order
  and canonical anchors.\<close>

theorem evidence_reproduces_rows:
  assumes "0 < tol" and "sorted (map snd rows)" and "distinct (map snd rows)" and "evidence_of rows entries"
  shows "\<exists>c d. from_evidence entries tol = ret c
    \<and> run_fold add_step (empty_components tol) (map (\<lambda>(v, k). (v, Some k)) rows) = ret d
    \<and> members_of c = members_of d \<and> ac_next_order c = ac_next_order d
    \<and> dget (ac_member_order c) = dget (ac_member_order d)
    \<and> (\<forall>v \<in> fst ` set rows. \<exists>a. canonical_is c v a \<and> canonical_is d v a)"
proof -
  let ?es = "evidence_order entries" and ?keyed = "map (\<lambda>(v, k). (v, Some k)) :: (instant \<times> order_key) list \<Rightarrow> _"
  obtain d where d: "run_fold add_step (empty_components tol) (?keyed rows) = ret d" "tracks rows d" "ac_tolerance d = tol"
    using history [OF assms(1), of "?keyed rows"] unfolding keyed_explicit by blast
  obtain c where c: "run_fold add_step (empty_components tol) (?keyed ?es) = ret c" "tracks ?es c" "ac_tolerance c = tol"
    using history [OF assms(1), of "?keyed ?es"] unfolding keyed_explicit by blast
  let ?c = "c\<lparr>ac_next_order := sum_list (map (\<lambda>(_, _, n). n) entries)\<rparr>"
  have "from_evidence entries tol = ret ?c"
    using c(1) evidence_totals(2) [OF assms(4)] assms(1)
    by (simp add: from_evidence_def evidence_order_def Let_def new_components_def comp_def case_prod_beta')
  moreover have "first_seen (map fst ?es) = map fst ?es"
    using evidence_order_distinct [OF assms(4)] by (simp add: first_seen_def distinct_remdups_id)
  then have "members_of ?c = members_of d"
    using c(2) d(2) evidence_first_seen [OF assms(2-4)] by (simp add: members_of_def tracks_def)
  moreover have "ac_next_order ?c = ac_next_order d"
    using d(2) evidence_totals(1) [OF assms(4)] by (simp add: tracks_def)
  moreover have "dget (ac_member_order ?c) = dget (ac_member_order d)"
  proof
    fix v
    have "dget (ac_member_order c) v = Some m \<longleftrightarrow> dget (ac_member_order d) v = Some m" for m
      using c(2) d(2) evidence_least [OF assms(4), of v m] unfolding tracks_def by blast
    then show "dget (ac_member_order ?c) v = dget (ac_member_order d) v"
      by (simp del: split_paired_All) (rule option_ext)
  qed
  moreover have "\<exists>a. canonical_is ?c v a \<and> canonical_is d v a" if v: "v \<in> fst ` set rows" for v
  proof -
    have ve: "v \<in> fst ` set ?es" using v evidence_order_members [OF assms(4)] by simp
    obtain a b where ab: "canonical_is c v a" "canonical_is d v b"
      using canonical_exists [OF c(2) ve] canonical_exists [OF d(2) v] by blast
    have "a = b"
    proof (rule tracked_anchor_unique [OF c(2) d(2) c(3) d(3) _ _ _ ve ab])
      show "fst ` set ?es = fst ` set rows" by (rule evidence_order_members [OF assms(4)])
      show "least_in ?es v k \<longleftrightarrow> least_in rows v k" for v k by (rule evidence_least [OF assms(4)])
      show "\<And>u v k. least_in ?es u k \<Longrightarrow> least_in ?es v k \<Longrightarrow> u = v"
        using evidence_least [OF assms(4)] least_distinct [OF assms(3)] by blast
    qed
    then show ?thesis using ab canonical_is_next [OF c(2) ve] by blast
  qed
  ultimately show ?thesis using d(1) by blast
qed


section \<open>Concrete histories\<close>

text \<open>Raw resets at 0 s, 1000 s and 500 s: the last bridges the first two.\<close>

definition bridge :: "(instant \<times> order_key option) list" where
  "bridge = [(0, None), (1000000000, None), (500000000, None)]"

lemma bridge_members: "fst ` set bridge = {0, 1000000000, 500000000}"
  by (simp add: bridge_def)

lemma bridge_connected:
  "u \<in> fst ` set bridge \<Longrightarrow> v \<in> fst ` set bridge \<Longrightarrow> (u, v) \<in> (near_edges (600 * MICROS) (fst ` set bridge))\<^sup>*"
proof -
  let ?E = "near_edges (600 * MICROS) (fst ` set bridge)"
  have e: "(500000000, x) \<in> ?E \<and> (x, 500000000) \<in> ?E" if "x \<in> fst ` set bridge" for x
    using that by (auto simp: near_edges_def bridge_members MICROS_def)
  assume "u \<in> fst ` set bridge" "v \<in> fst ` set bridge"
  then show ?thesis using e [of u] e [of v] by (meson r_into_rtrancl rtrancl_trans)
qed

lemma components_are_tolerance_connected_witness:
  "\<exists>c a. run_fold add_step (empty_components 600) bridge = ret c \<and> canonical_is c 0 a \<and> canonical_is c 1000000000 a"
  using components_are_tolerance_connected [of 600 bridge] bridge_connected [of 0 1000000000]
  by (fastforce simp: bridge_members)

lemma bridge_state:
  obtains c a where "run_fold add_step (empty_components 600) bridge = ret c" "canonical_is c 1000000000 a"
proof -
  obtain c where c: "run_fold add_step (empty_components 600) bridge = ret c" "tracks (keyed 0 bridge) c"
    by (rule history [of 600 bridge]) simp_all
  have "1000000000 \<in> fst ` set (keyed 0 bridge)" by (simp add: keyed_fst bridge_members)
  then show ?thesis using canonical_exists [OF c(2)] c(1) that by blast
qed

lemma anchor_has_least_key_witness:
  "\<exists>c a m. run_fold add_step (empty_components 600) bridge = ret c \<and> canonical_is c 1000000000 a
     \<and> (a, m) \<in> set (keyed 0 bridge) \<and> m \<le> ('''', 0, 0)"
proof -
  obtain c a where c: "run_fold add_step (empty_components 600) bridge = ret c" "canonical_is c 1000000000 a"
    by (rule bridge_state)
  have "(0, '''', 0, 0) \<in> set (keyed 0 bridge)" by (simp add: bridge_def drawn_key_def)
  from anchor_has_least_key [OF _ c(1) _ c(2) bridge_connected this] c show ?thesis
    by (auto simp: bridge_members simp del: less_eq_prod_simp)
qed

lemma anchors_order_independent_witness:
  "\<exists>c d a. run_fold add_step (empty_components 600) [(0, Some (''/a'', 1, 1)), (500000000, Some (''/a'', 2, 2))] = ret c
     \<and> run_fold add_step (empty_components 600)
         [(500000000, Some (''/a'', 2, 2)), (0, Some (''/a'', 1, 1)), (500000000, Some (''/a'', 2, 2))] = ret d
     \<and> canonical_is c 500000000 a \<and> canonical_is d 500000000 a"
proof -
  let ?es = "[(0, ''/a'', 1, 1), (500000000, ''/a'', 2, 2)] :: (instant \<times> order_key) list"
  let ?fs = "[(500000000, ''/a'', 2, 2), (0, ''/a'', 1, 1), (500000000, ''/a'', 2, 2)] :: (instant \<times> order_key) list"
  obtain c where c: "run_fold add_step (empty_components 600) (map (\<lambda>(v, k). (v, Some k)) ?es) = ret c"
    by (rule history [of 600 "map (\<lambda>(v, k). (v, Some k)) ?es"]) simp_all
  obtain d where d: "run_fold add_step (empty_components 600) (map (\<lambda>(v, k). (v, Some k)) ?fs) = ret d"
    by (rule history [of 600 "map (\<lambda>(v, k). (v, Some k)) ?fs"]) simp_all
  have "\<exists>a. canonical_is c 500000000 a \<and> canonical_is d 500000000 a"
    by (rule anchors_order_independent [OF _ _ _ c d]) auto
  then show ?thesis using c d by auto
qed

lemma retired_anchors_converge_witness:
  "\<exists>c winner retired c'. run_fold add_step (empty_components 600) bridge = ret c
     \<and> add_raw c 1500000000 None = ret ((winner, retired), c') \<and> canonical_is c' 1500000000 winner \<and> winner \<notin> set retired"
proof -
  obtain c a where c: "run_fold add_step (empty_components 600) bridge = ret c" "canonical_is c 1000000000 a"
    by (rule bridge_state)
  from retired_anchors_converge [OF _ c(1), of 1500000000 None] c(1) show ?thesis by auto
qed

lemma find_depth_witness:
  "\<exists>c n r. run_fold add_step (empty_components 600) bridge = ret c \<and> climbs (dget (ac_parent c)) 0 n r
     \<and> 2 ^ n \<le> length (members_of c)"
proof -
  obtain c a where c: "run_fold add_step (empty_components 600) bridge = ret c" "canonical_is c 1000000000 a"
    by (rule bridge_state)
  from find_depth [OF _ c(1), of 0] c(1) show ?thesis by (auto simp: bridge_members)
qed

lemma evidence_reproduces_rows_witness:
  "\<exists>c d. from_evidence [(0, (''/a'', 3, 3), 1), (500000000, (''/a'', 1, 1), 2)] 600 = ret c
     \<and> run_fold add_step (empty_components 600)
         [(500000000, Some (''/a'', 1, 1)), (500000000, Some (''/a'', 2, 2)), (0, Some (''/a'', 3, 3))] = ret d
     \<and> members_of c = members_of d \<and> ac_next_order c = ac_next_order d"
proof -
  let ?rows = "[(500000000, ''/a'', 1, 1), (500000000, ''/a'', 2, 2), (0, ''/a'', 3, 3)] :: (instant \<times> order_key) list"
  have "key_of ?rows 500000000 = (''/a'', 1, 1)" "key_of ?rows 0 = (''/a'', 3, 3)"
    using key_of_least [of 500000000 ?rows "(''/a'', 1, 1)"] key_of_least [of 0 ?rows "(''/a'', 3, 3)"]
    by (simp_all add: least_in_def)
  then have "evidence_of ?rows [(0, (''/a'', 3, 3), 1), (500000000, (''/a'', 1, 1), 2)]"
    by (auto simp: evidence_of_def)
  from evidence_reproduces_rows [OF _ _ _ this, of 600] show ?thesis by auto
qed

end
