(* ===== verification/Window_Attribution.thy ===== *)
theory Window_Attribution
  imports Prelude
begin

text \<open>
  Who a Codex quota window belongs to: operator assertions resolved against complete group evidence and stamped on
  observations (\<open>bin/_lib_codex_window_attribution.py\<close>), the continuity fold that runs after it
  (\<open>adopt_unidentified_observations\<close> of \<open>bin/_lib_quota.py\<close>) and the same inference on spend
  (\<open>bin/_lib_codex_account_adoption.py\<close>). A Python set of accounts that is only built and tested is a list
  without duplicates; a frozen set in a result is a \<^typ>\<open>string set\<close>. An instant is its number of microseconds.
\<close>

section \<open>Operator assertions\<close>

definition ACCOUNT_WEEKLY_WINDOW_MINUTES :: int where "ACCOUNT_WEEKLY_WINDOW_MINUTES = 10080"
definition UNATTRIBUTED :: string where "UNATTRIBUTED = ''unattributed''"

datatype attribution_error = ValueError string

datatype outcome = Resolved | Dormant | Split | SuppressedNative | SuppressedConflict | SuppressedModelScoped

type_synonym axes = "string \<times> string \<times> string \<times> int"

record window_assertion =
  wa_op_id :: string
  wa_account_key :: string
  wa_source_root_key :: string
  wa_logical_limit_key :: string
  wa_observed_slot :: string
  wa_window_minutes :: int
  wa_raw_resets :: "string list"

text \<open>\<open>__post_init__\<close>.\<close>

definition check_assertion :: "window_assertion \<Rightarrow> attribution_error + window_assertion" where
  "check_assertion a = (if wa_raw_resets a = [] then Inl (ValueError ''an assertion must carry at least one witness'')
     else Inr (a\<lparr>wa_raw_resets := remdups (wa_raw_resets a)\<rparr>))"

definition assertion_axes :: "window_assertion \<Rightarrow> axes" where
  "assertion_axes a = (wa_source_root_key a, wa_logical_limit_key a, wa_observed_slot a, wa_window_minutes a)"

record 'k window_group =
  wg_group_key :: 'k
  wg_source_root_key :: string
  wg_logical_limit_key :: string
  wg_observed_slot :: string
  wg_window_minutes :: int
  wg_raw_resets :: "string list"
  wg_identified_accounts :: "string list"
  wg_model_scoped :: bool

definition group_axes :: "'k window_group \<Rightarrow> axes" where
  "group_axes g = (wg_source_root_key g, wg_logical_limit_key g, wg_observed_slot g, wg_window_minutes g)"

definition group_in_scope :: "'k window_group \<Rightarrow> bool" where
  "group_in_scope g \<longleftrightarrow> wg_window_minutes g = ACCOUNT_WEEKLY_WINDOW_MINUTES \<and> \<not> wg_model_scoped g"

record 'k assertion_resolution =
  ar_op_id :: string
  ar_account_key :: string
  ar_outcome :: outcome
  ar_group_key :: "'k option"
  ar_matched_group_count :: nat
  ar_conflicting :: "string set"

definition resolution_applies :: "'k assertion_resolution \<Rightarrow> bool" where
  "resolution_applies r \<longleftrightarrow> ar_outcome r = Resolved"

definition resolution_of :: "window_assertion \<Rightarrow> outcome \<Rightarrow> 'k option \<Rightarrow> nat \<Rightarrow> string set \<Rightarrow> 'k assertion_resolution" where
  "resolution_of a outcome key matched conflicting = \<lparr>ar_op_id = wa_op_id a, ar_account_key = wa_account_key a,
     ar_outcome = outcome, ar_group_key = key, ar_matched_group_count = matched, ar_conflicting = conflicting\<rparr>"

definition matches_group :: "window_assertion \<Rightarrow> 'k window_group \<Rightarrow> bool" where
  "matches_group a g \<longleftrightarrow> group_axes g = assertion_axes a \<and> list_ex (\<lambda>r. r \<in> set (wa_raw_resets a)) (wg_raw_resets g)"

text \<open>The body of the first loop: the resolutions so far and \<open>claims\<close>.\<close>

type_synonym 'k match_state = "'k assertion_resolution list \<times> ('k, string list) dict"

definition match_assertion :: "'k window_group list \<Rightarrow> 'k match_state \<Rightarrow> window_assertion \<Rightarrow> 'k match_state" where
  "match_assertion group_list s a = (case s of (resolutions, claims) \<Rightarrow>
     (case filter (matches_group a) group_list of
        [] \<Rightarrow> (resolutions @ [resolution_of a Dormant None 0 {}], claims)
      | [g] \<Rightarrow>
          if \<not> group_in_scope g
          then (resolutions @ [resolution_of a SuppressedModelScoped (Some (wg_group_key g)) 1 {}], claims)
          else if wg_identified_accounts g \<noteq> []
          then (resolutions @ [resolution_of a SuppressedNative (Some (wg_group_key g)) 1 (set (wg_identified_accounts g))], claims)
          else (resolutions @ [resolution_of a Resolved (Some (wg_group_key g)) 1 {}],
                dset (wg_group_key g) (List.insert (wa_account_key a) (dget_or claims (wg_group_key g) [])) claims)
      | candidates \<Rightarrow> (resolutions @ [resolution_of a Split None (length candidates) {}], claims)))"

text \<open>The body of the second loop.\<close>

definition settle_resolution :: "('k, string list) dict \<Rightarrow> 'k assertion_resolution list \<times> ('k, string) dict
    \<Rightarrow> 'k assertion_resolution \<Rightarrow> 'k assertion_resolution list \<times> ('k, string) dict" where
  "settle_resolution claims s r = (case s of (final, ownership) \<Rightarrow>
     if \<not> resolution_applies r then (final @ [r], ownership)
     else case ar_group_key r of
         None \<Rightarrow> (final @ [r], ownership)
       | Some key \<Rightarrow>
           (let claimants = dget_or claims key [] in
            if length claimants > 1
            then (final @ [r\<lparr>ar_outcome := SuppressedConflict, ar_conflicting := set claimants\<rparr>], ownership)
            else (final @ [r], dset key (ar_account_key r) ownership)))"

definition resolve_window_attributions :: "window_assertion list \<Rightarrow> 'k window_group list
    \<Rightarrow> 'k assertion_resolution list \<times> ('k, string) dict" where
  "resolve_window_attributions assertions groups =
     (case foldl (match_assertion groups) ([], []) assertions of
        (resolutions, claims) \<Rightarrow> foldl (settle_resolution claims) ([], []) resolutions)"

definition apply_resolution :: "('k, string) dict \<Rightarrow> 'o list \<Rightarrow> ('o \<Rightarrow> 'k) \<Rightarrow> ('o \<Rightarrow> string option)
    \<Rightarrow> ('o \<Rightarrow> string \<Rightarrow> 'o) \<Rightarrow> 'o list" where
  "apply_resolution ownership observations group_key_of account_key_of with_account =
     map (\<lambda>obs. case account_key_of obs of
            Some account \<Rightarrow>
              if account \<noteq> '''' \<and> account \<noteq> UNATTRIBUTED then obs
              else (case dget ownership (group_key_of obs) of
                  Some owner \<Rightarrow> if owner \<noteq> '''' then with_account obs owner else obs | None \<Rightarrow> obs)
          | None \<Rightarrow> (case dget ownership (group_key_of obs) of
                Some owner \<Rightarrow> if owner \<noteq> '''' then with_account obs owner else obs | None \<Rightarrow> obs)) observations"

section \<open>Observations and the continuity fold\<close>

record window_identity =
  wi_source :: string
  wi_source_root_key :: string
  wi_logical_limit_key :: string
  wi_observed_slot :: string
  wi_window_minutes :: int
  wi_account_key :: string
  wi_limit_id :: "string option"
  wi_limit_name :: "string option"

definition check_identity :: "window_identity \<Rightarrow> attribution_error + window_identity" where
  "check_identity i =
     (if wi_source i = '''' then Inl (ValueError ''source must be a non-empty string'')
      else if wi_source_root_key i = '''' then Inl (ValueError ''source_root_key must be a non-empty string'')
      else if wi_logical_limit_key i = '''' then Inl (ValueError ''logical_limit_key must be a non-empty string'')
      else if wi_observed_slot i = '''' then Inl (ValueError ''observed_slot must be a non-empty string'')
      else if wi_account_key i = '''' then Inl (ValueError ''account_key must be a non-empty string'')
      else if wi_window_minutes i \<le> 0 then Inl (ValueError ''window_minutes must be a positive integer'')
      else Inr i)"

record quota_observation =
  qo_identity :: window_identity
  qo_captured_at :: int
  qo_used_percent :: string
  qo_resets_at :: int
  qo_source_path :: string
  qo_line_offset :: int
  qo_plan_type :: "string option"
  qo_individual_limit_json :: "string option"
  qo_reached_type :: "string option"
  qo_canonical_resets_at :: int

type_synonym window_key = "string \<times> string \<times> string \<times> string \<times> int \<times> int"

definition physical_window_key :: "quota_observation \<Rightarrow> window_key" where
  "physical_window_key obs = (let i = qo_identity obs in
     (wi_source i, wi_source_root_key i, wi_logical_limit_key i, wi_observed_slot i, wi_window_minutes i,
      qo_canonical_resets_at obs))"

definition observed_account :: "quota_observation \<Rightarrow> string" where
  "observed_account obs = wi_account_key (qo_identity obs)"

definition with_account :: "quota_observation \<Rightarrow> string \<Rightarrow> quota_observation" where
  "with_account obs account = obs\<lparr>qo_identity := (qo_identity obs)\<lparr>wi_account_key := account\<rparr>\<rparr>"

definition note_identified :: "(window_key, string list) dict \<Rightarrow> quota_observation \<Rightarrow> (window_key, string list) dict" where
  "note_identified d obs = (if observed_account obs \<noteq> UNATTRIBUTED
     then dset (physical_window_key obs) (List.insert (observed_account obs) (dget_or d (physical_window_key obs) [])) d
     else d)"

definition adopt_unidentified_observations :: "quota_observation list \<Rightarrow> quota_observation list" where
  "adopt_unidentified_observations observations =
     (let identified_by_window = foldl note_identified [] observations in
      map (\<lambda>obs. if observed_account obs \<noteq> UNATTRIBUTED then obs
             else case dget identified_by_window (physical_window_key obs) of
                 Some [adopted] \<Rightarrow> with_account obs adopted
               | _ \<Rightarrow> obs) observations)"

text \<open>\<open>_apply_codex_window_attribution_overlay\<close>: the overlay's use of the kernel on loaded observations.\<close>

definition attribution_overlay :: "(window_key, string) dict \<Rightarrow> quota_observation list \<Rightarrow> quota_observation list" where
  "attribution_overlay ownership observations =
     (if observations = [] then observations else if ownership = [] then observations
      else apply_resolution ownership observations physical_window_key (\<lambda>obs. Some (observed_account obs)) with_account)"

section \<open>Spend\<close>

definition entry_is_unattributed :: "string option \<Rightarrow> bool" where
  "entry_is_unattributed account_key \<longleftrightarrow> account_key = None \<or> account_key = Some '''' \<or> account_key = Some UNATTRIBUTED"

record adoption_window =
  aw_source_root_key :: string
  aw_window_minutes :: int
  aw_canonical_resets_at :: int
  aw_identified_accounts :: "string list"
  aw_model_scoped :: bool

definition check_adoption_window :: "adoption_window \<Rightarrow> attribution_error + adoption_window" where
  "check_adoption_window w =
     (if aw_source_root_key w = '''' then Inl (ValueError ''source_root_key must be a non-empty string'')
      else if aw_window_minutes w \<le> 0 then Inl (ValueError ''window_minutes must be a positive integer'')
      else Inr (w\<lparr>aw_identified_accounts := remdups (aw_identified_accounts w)\<rparr>))"

definition nominal_start_at :: "adoption_window \<Rightarrow> int" where
  "nominal_start_at w = aw_canonical_resets_at w - aw_window_minutes w * 60000000"

definition window_in_scope :: "adoption_window \<Rightarrow> bool" where
  "window_in_scope w \<longleftrightarrow> aw_window_minutes w = ACCOUNT_WEEKLY_WINDOW_MINUTES \<and> \<not> aw_model_scoped w"

definition covers :: "adoption_window \<Rightarrow> int \<Rightarrow> bool" where
  "covers w timestamp \<longleftrightarrow> nominal_start_at w \<le> timestamp \<and> timestamp < aw_canonical_resets_at w"

record adoption_candidate =
  ca_entry_id :: int
  ca_source_root_key :: string
  ca_timestamp :: int
  ca_account_key :: "string option"

type_synonym adoption_stamp = "int \<times> string"

definition group_windows :: "adoption_window list \<Rightarrow> (string, adoption_window list) dict" where
  "group_windows windows = foldl (\<lambda>d w. if window_in_scope w
     then dset (aw_source_root_key w) (dget_or d (aw_source_root_key w) [] @ [w]) d else d) [] windows"

text \<open>The inner loop: the union of identified accounts, left early once it holds two.\<close>

fun union_accounts :: "int \<Rightarrow> string list \<Rightarrow> adoption_window list \<Rightarrow> string list" where
  "union_accounts timestamp identified [] = identified"
| "union_accounts timestamp identified (w # ws) =
     (if covers w timestamp
      then (let identified' = fold List.insert (aw_identified_accounts w) identified in
            if length identified' > 1 then identified' else union_accounts timestamp identified' ws)
      else union_accounts timestamp identified ws)"

definition stamp_step :: "(string, adoption_window list) dict \<Rightarrow> adoption_stamp list \<Rightarrow> adoption_candidate \<Rightarrow> adoption_stamp list" where
  "stamp_step by_root stamps c =
     (if \<not> entry_is_unattributed (ca_account_key c) then stamps
      else case union_accounts (ca_timestamp c) [] (dget_or by_root (ca_source_root_key c) []) of
          [account] \<Rightarrow> stamps @ [(ca_entry_id c, account)]
        | _ \<Rightarrow> stamps)"

definition build_spend_adoption_plan :: "adoption_window list \<Rightarrow> adoption_candidate list \<Rightarrow> adoption_stamp list" where
  "build_spend_adoption_plan windows candidates = sort (foldl (stamp_step (group_windows windows)) [] candidates)"


section \<open>The verdicts\<close>

text \<open>The group an assertion claims: its only match, in scope and without native evidence.\<close>

definition claimed :: "'k window_group list \<Rightarrow> window_assertion \<Rightarrow> 'k option" where
  "claimed groups a = (case filter (matches_group a) groups of
     [g] \<Rightarrow> if group_in_scope g \<and> wg_identified_accounts g = [] then Some (wg_group_key g) else None | _ \<Rightarrow> None)"

definition claimants_of :: "'k window_group list \<Rightarrow> window_assertion set \<Rightarrow> 'k \<Rightarrow> string set" where
  "claimants_of groups A k = wa_account_key ` {b \<in> A. claimed groups b = Some k}"

lemma claimedD:
  assumes "claimed groups a = Some k"
  shows "\<exists>g. filter (matches_group a) groups = [g] \<and> group_in_scope g \<and> wg_identified_accounts g = [] \<and> wg_group_key g = k"
  using assms by (auto simp: claimed_def split: list.splits if_splits)

lemma claimants_mem: "x \<in> claimants_of groups A k \<longleftrightarrow> (\<exists>b \<in> A. claimed groups b = Some k \<and> wa_account_key b = x)"
  by (auto simp: claimants_of_def)

text \<open>The verdict of an assertion among a set of assertions, by the five rules of the specification in order.\<close>

definition verdict_of :: "'k window_group list \<Rightarrow> window_assertion set \<Rightarrow> window_assertion \<Rightarrow> 'k assertion_resolution" where
  "verdict_of groups A a = (case filter (matches_group a) groups of
     [] \<Rightarrow> resolution_of a Dormant None 0 {}
   | [g] \<Rightarrow> (let k = wg_group_key g in
       if \<not> group_in_scope g then resolution_of a SuppressedModelScoped (Some k) 1 {}
       else if wg_identified_accounts g \<noteq> []
       then resolution_of a SuppressedNative (Some k) 1 (set (wg_identified_accounts g))
       else if \<exists>x \<in> claimants_of groups A k. x \<noteq> wa_account_key a
       then resolution_of a SuppressedConflict (Some k) 1 (claimants_of groups A k)
       else resolution_of a Resolved (Some k) 1 {})
   | gs \<Rightarrow> resolution_of a Split None (length gs) {})"

text \<open>Who owns a group: the account every claim on it names.\<close>

definition owner_of :: "'k window_group list \<Rightarrow> window_assertion set \<Rightarrow> 'k \<Rightarrow> string option" where
  "owner_of groups A k = (if \<exists>x. claimants_of groups A k = {x} then Some (the_elem (claimants_of groups A k)) else None)"

definition first_verdict :: "'k window_group list \<Rightarrow> window_assertion \<Rightarrow> 'k assertion_resolution" where
  "first_verdict groups a = (case filter (matches_group a) groups of
     [] \<Rightarrow> resolution_of a Dormant None 0 {}
   | [g] \<Rightarrow> (let k = wg_group_key g in
       if \<not> group_in_scope g then resolution_of a SuppressedModelScoped (Some k) 1 {}
       else if wg_identified_accounts g \<noteq> [] then resolution_of a SuppressedNative (Some k) 1 (set (wg_identified_accounts g))
       else resolution_of a Resolved (Some k) 1 {})
   | gs \<Rightarrow> resolution_of a Split None (length gs) {})"

definition claim_step :: "'k window_group list \<Rightarrow> ('k, string list) dict \<Rightarrow> window_assertion \<Rightarrow> ('k, string list) dict" where
  "claim_step groups claims a = (case claimed groups a of None \<Rightarrow> claims
     | Some k \<Rightarrow> dset k (List.insert (wa_account_key a) (dget_or claims k [])) claims)"

lemma match_assertion_eq:
  "match_assertion groups (rs, claims) a = (rs @ [first_verdict groups a], claim_step groups claims a)"
  by (auto simp: match_assertion_def first_verdict_def claim_step_def claimed_def Let_def split: list.split)

lemma match_fold:
  "foldl (match_assertion groups) (rs, claims) as = (rs @ map (first_verdict groups) as, foldl (claim_step groups) claims as)"
  by (induction as arbitrary: rs claims) (simp_all add: match_assertion_eq)

text \<open>A dictionary of duplicate-free lists holds the given sets.\<close>

definition holds_sets :: "('k, 'a list) dict \<Rightarrow> ('k \<Rightarrow> 'a set) \<Rightarrow> bool" where
  "holds_sets d S \<longleftrightarrow> (\<forall>k. distinct (dget_or d k []) \<and> set (dget_or d k []) = S k \<and> (k \<in> set (dkeys d) \<longleftrightarrow> S k \<noteq> {}))"

lemma holds_setsD: "holds_sets d S \<Longrightarrow> distinct (dget_or d k []) \<and> set (dget_or d k []) = S k \<and> (k \<in> set (dkeys d) \<longleftrightarrow> S k \<noteq> {})"
  by (simp add: holds_sets_def)

lemma holds_sets_insert:
  assumes "holds_sets d S"
  shows "holds_sets (dset k (List.insert x (dget_or d k [])) d) (S(k := insert x (S k)))"
  unfolding holds_sets_def
proof
  fix j
  have old: "distinct (dget_or d i []) \<and> set (dget_or d i []) = S i \<and> (i \<in> set (dkeys d) \<longleftrightarrow> S i \<noteq> {})" for i
    by (rule holds_setsD [OF assms])
  let ?d = "dset k (List.insert x (dget_or d k [])) d"
  show "distinct (dget_or ?d j []) \<and> set (dget_or ?d j []) = (S(k := insert x (S k))) j
      \<and> (j \<in> set (dkeys ?d) \<longleftrightarrow> (S(k := insert x (S k))) j \<noteq> {})"
  proof (cases "j = k")
    case True
    have "dget_or ?d j [] = List.insert x (dget_or d k [])" unfolding True by (simp add: dget_or_def dget_dset)
    then show ?thesis using old [of k] True by (simp add: dkeys_dset)
  next
    case False
    have "dget_or ?d j [] = dget_or d j []" using False by (simp add: dget_or_def dget_dset)
    then show ?thesis using old [of j] False by (simp add: dkeys_dset)
  qed
qed

lemma claim_fold: "holds_sets (foldl (claim_step groups) [] as) (claimants_of groups (set as))"
proof (induction as rule: rev_induct)
  case Nil
  show ?case by (simp add: holds_sets_def claimants_of_def dget_or_def dkeys_def)
next
  case (snoc a as)
  show ?case
  proof (cases "claimed groups a")
    case None
    then have "claimants_of groups (set (as @ [a])) = claimants_of groups (set as)"
      by (auto simp: claimants_of_def intro!: ext)
    then show ?thesis using snoc None by (simp add: claim_step_def)
  next
    case (Some k)
    have e: "claimants_of groups (set (as @ [a])) = (claimants_of groups (set as))(k := insert (wa_account_key a) (claimants_of groups (set as) k))"
      using Some by (intro ext set_eqI) (auto simp: claimants_mem)
    have c: "claim_step groups claims a = dset k (List.insert (wa_account_key a) (dget_or claims k [])) claims" for claims
      using Some by (simp add: claim_step_def)
    show ?thesis unfolding e foldl_append foldl_Cons foldl_Nil c by (rule holds_sets_insert [OF snoc])
  qed
qed

lemma long_distinct: "distinct xs \<Longrightarrow> x \<in> set xs \<Longrightarrow> length xs > 1 \<longleftrightarrow> (\<exists>y \<in> set xs. y \<noteq> x)"
proof -
  assume d: "distinct xs" "x \<in> set xs"
  show ?thesis
  proof (cases "\<exists>y \<in> set xs. y \<noteq> x")
    case True
    then obtain y where "y \<in> set xs" "y \<noteq> x" by blast
    then have "card {x, y} \<le> card (set xs)" using d(2) by (intro card_mono) auto
    then show ?thesis using True \<open>y \<noteq> x\<close> distinct_card [OF d(1)] by simp
  next
    case False
    then have "set xs = {x}" using d(2) by blast
    then show ?thesis using False distinct_card [OF d(1)] by simp
  qed
qed

lemma claimed_first:
  "claimed groups a = Some k \<longleftrightarrow> resolution_applies (first_verdict groups a) \<and> ar_group_key (first_verdict groups a) = Some k"
  by (auto simp: claimed_def first_verdict_def resolution_applies_def resolution_of_def Let_def split: list.split)

lemma first_account [simp]: "ar_account_key (first_verdict groups a) = wa_account_key a"
  by (auto simp: first_verdict_def resolution_of_def Let_def split: list.split)

lemma claimed_own: "a \<in> A \<Longrightarrow> claimed groups a = Some k \<Longrightarrow> wa_account_key a \<in> claimants_of groups A k"
  by (auto simp: claimants_of_def)

lemma first_applies: "resolution_applies (first_verdict groups a) \<Longrightarrow> \<exists>k. claimed groups a = Some k"
  by (auto simp: claimed_def first_verdict_def resolution_applies_def resolution_of_def Let_def split: list.splits if_splits)

text \<open>The second loop turns the first verdict into the final one and records the uncontested owner.\<close>

lemma settle_eq:
  assumes "holds_sets claims (claimants_of groups A)" and "a \<in> A"
  shows "settle_resolution claims (rs, own) (first_verdict groups a) = (rs @ [verdict_of groups A a],
    case claimed groups a of None \<Rightarrow> own
    | Some k \<Rightarrow> if \<exists>x \<in> claimants_of groups A k. x \<noteq> wa_account_key a then own else dset k (wa_account_key a) own)"
proof (cases "claimed groups a")
  case None
  then have "\<not> resolution_applies (first_verdict groups a)" using first_applies by (metis option.distinct(1))
  moreover have "verdict_of groups A a = first_verdict groups a"
    using None by (auto simp: claimed_def verdict_of_def first_verdict_def Let_def split: list.splits if_splits)
  ultimately show ?thesis using None by (simp add: settle_resolution_def)
next
  case (Some k)
  obtain g where g: "filter (matches_group a) groups = [g]" "group_in_scope g" "wg_identified_accounts g = []" "wg_group_key g = k"
    using claimedD [OF Some] by blast
  let ?C = "claimants_of groups A k"
  have "set (dget_or claims k []) = ?C" "distinct (dget_or claims k [])" using holds_setsD [OF assms(1), of k] by blast+
  then have long: "length (dget_or claims k []) > 1 \<longleftrightarrow> (\<exists>x \<in> ?C. x \<noteq> wa_account_key a)" "set (dget_or claims k []) = ?C"
    using long_distinct claimed_own [OF assms(2) Some] by metis+
  have fv: "first_verdict groups a = resolution_of a Resolved (Some k) 1 {}"
    using g by (simp add: first_verdict_def)
  show ?thesis
  proof (cases "\<exists>x \<in> ?C. x \<noteq> wa_account_key a")
    case True
    have "verdict_of groups A a = resolution_of a SuppressedConflict (Some k) 1 ?C" using g True by (simp add: verdict_of_def)
    then show ?thesis using True long Some unfolding fv
      by (simp add: settle_resolution_def resolution_applies_def resolution_of_def Let_def)
  next
    case False
    have "verdict_of groups A a = resolution_of a Resolved (Some k) 1 {}" using g False by (simp add: verdict_of_def)
    then show ?thesis using False long Some unfolding fv
      by (simp add: settle_resolution_def resolution_applies_def resolution_of_def Let_def)
  qed
qed

lemma settle_fold:
  assumes "holds_sets claims (claimants_of groups A)" and "set as \<subseteq> A"
  shows "fst (foldl (settle_resolution claims) (rs, own) (map (first_verdict groups) as)) = rs @ map (verdict_of groups A) as
    \<and> dget (snd (foldl (settle_resolution claims) (rs, own) (map (first_verdict groups) as))) k
      = (if \<exists>a \<in> set as. claimed groups a = Some k \<and> claimants_of groups A k = {wa_account_key a}
         then owner_of groups A k else dget own k)"
  using assms(2)
proof (induction as arbitrary: rs own)
  case (Cons a as)
  have a: "a \<in> A" using Cons.prems by simp
  let ?own = "case claimed groups a of None \<Rightarrow> own
    | Some k \<Rightarrow> if \<exists>x \<in> claimants_of groups A k. x \<noteq> wa_account_key a then own else dset k (wa_account_key a) own"
  have sing: "claimed groups a = Some j \<Longrightarrow> (\<exists>x \<in> claimants_of groups A j. x \<noteq> wa_account_key a) \<longleftrightarrow> claimants_of groups A j \<noteq> {wa_account_key a}" for j
    using claimed_own [OF a, of groups j] by blast
  have own: "dget ?own k = (if claimed groups a = Some k \<and> claimants_of groups A k = {wa_account_key a} then owner_of groups A k else dget own k)"
  proof (cases "claimed groups a")
    case (Some j)
    have o: "claimants_of groups A j = {x} \<Longrightarrow> owner_of groups A j = Some x" for x by (simp add: owner_of_def)
    show ?thesis using Some sing [OF Some] o by (auto simp: dget_dset)
  qed simp
  show ?case
    unfolding list.map foldl_Cons settle_eq [OF assms(1) a]
    using Cons.IH [of "rs @ [verdict_of groups A a]" ?own] Cons.prems own by auto
qed simp

lemma resolve_closed:
  "fst (resolve_window_attributions as groups) = map (verdict_of groups (set as)) as
    \<and> dget (snd (resolve_window_attributions as groups)) = owner_of groups (set as)"
proof -
  let ?claims = "foldl (claim_step groups) [] as"
  have e: "resolve_window_attributions as groups = foldl (settle_resolution ?claims) ([], []) (map (first_verdict groups) as)"
    by (simp add: resolve_window_attributions_def match_fold)
  have "dget (snd (resolve_window_attributions as groups)) k = owner_of groups (set as) k" for k
  proof -
    have "\<not> (\<exists>a \<in> set as. claimed groups a = Some k \<and> claimants_of groups (set as) k = {wa_account_key a}) \<Longrightarrow> owner_of groups (set as) k = None"
    proof -
      assume none: "\<not> (\<exists>a \<in> set as. claimed groups a = Some k \<and> claimants_of groups (set as) k = {wa_account_key a})"
      have "claimants_of groups (set as) k \<noteq> {x}" for x
      proof
        assume c: "claimants_of groups (set as) k = {x}"
        then have "x \<in> claimants_of groups (set as) k" by blast
        then show False using none c unfolding claimants_mem by blast
      qed
      then show ?thesis by (simp add: owner_of_def)
    qed
    then show ?thesis unfolding e using settle_fold [OF claim_fold order_refl, of groups as "[]" "[]" k] by auto
  qed
  moreover have "fst (resolve_window_attributions as groups) = map (verdict_of groups (set as)) as"
    unfolding e using settle_fold [OF claim_fold order_refl, of groups as "[]" "[]"] by simp
  ultimately show ?thesis by blast
qed

lemma owner_of_iff: "owner_of groups A k = Some x \<longleftrightarrow> claimants_of groups A k = {x}"
proof (cases "\<exists>y. claimants_of groups A k = {y}")
  case True
  then obtain y where y: "claimants_of groups A k = {y}" by blast
  then have "owner_of groups A k = Some y" by (simp add: owner_of_def)
  then show ?thesis unfolding y by simp
next
  case False
  then have "claimants_of groups A k \<noteq> {x}" by blast
  then show ?thesis using False by (simp add: owner_of_def)
qed

text \<open>every assertion gets the verdict of the five rules in their order, judged against all assertions at once,
  and the ownership names for each group exactly the account all claims on it agree on.\<close>

theorem attribution_verdicts:
  "fst (resolve_window_attributions as groups) = map (verdict_of groups (set as)) as
    \<and> (\<forall>k x. dget (snd (resolve_window_attributions as groups)) k = Some x
         \<longleftrightarrow> (\<exists>a \<in> set as. claimed groups a = Some k) \<and> (\<forall>a \<in> set as. claimed groups a = Some k \<longrightarrow> wa_account_key a = x))"
proof -
  have "owner_of groups (set as) k = Some x
      \<longleftrightarrow> (\<exists>a \<in> set as. claimed groups a = Some k) \<and> (\<forall>a \<in> set as. claimed groups a = Some k \<longrightarrow> wa_account_key a = x)" for k x
  proof -
    have "owner_of groups (set as) k = Some x \<longleftrightarrow> claimants_of groups (set as) k = {x}" by (rule owner_of_iff)
    also have "\<dots> \<longleftrightarrow> (\<exists>a \<in> set as. claimed groups a = Some k) \<and> (\<forall>a \<in> set as. claimed groups a = Some k \<longrightarrow> wa_account_key a = x)"
    proof
      assume c: "claimants_of groups (set as) k = {x}"
      then have "x \<in> claimants_of groups (set as) k" by blast
      then have "\<exists>a \<in> set as. claimed groups a = Some k" unfolding claimants_mem by blast
      moreover have "wa_account_key a = x" if "a \<in> set as" "claimed groups a = Some k" for a
        using claimed_own [OF that] c by blast
      ultimately show "(\<exists>a \<in> set as. claimed groups a = Some k) \<and> (\<forall>a \<in> set as. claimed groups a = Some k \<longrightarrow> wa_account_key a = x)" by blast
    next
      assume "(\<exists>a \<in> set as. claimed groups a = Some k) \<and> (\<forall>a \<in> set as. claimed groups a = Some k \<longrightarrow> wa_account_key a = x)"
      then have ex: "\<exists>a \<in> set as. claimed groups a = Some k"
        and all: "\<And>a. a \<in> set as \<Longrightarrow> claimed groups a = Some k \<Longrightarrow> wa_account_key a = x" by simp_all
      show "claimants_of groups (set as) k = {x}"
      proof (intro equalityI subsetI)
        fix y assume "y \<in> claimants_of groups (set as) k"
        then obtain b where "b \<in> set as" "claimed groups b = Some k" "wa_account_key b = y" unfolding claimants_mem by blast
        then show "y \<in> {x}" using all by simp
      next
        fix y assume "y \<in> {x}"
        moreover obtain a where "a \<in> set as" "claimed groups a = Some k" using ex by blast
        ultimately show "y \<in> claimants_of groups (set as) k" using all unfolding claimants_mem by auto
      qed
    qed
    finally show ?thesis .
  qed
  then show ?thesis using resolve_closed [of as groups] by simp
qed

lemma filter_single_perm: "mset gs = mset hs \<Longrightarrow> filter P gs = [g] \<Longrightarrow> filter P hs = [g]"
  by (metis mset_filter mset_single_iff)

lemma verdict_perm:
  assumes "mset gs = mset hs"
  shows "claimed gs a = claimed hs a" and "A = B \<Longrightarrow> verdict_of gs A a = verdict_of hs B a"
proof -
  have m: "mset (filter (matches_group a) gs) = mset (filter (matches_group a) hs)" for a using assms by simp
  have c: "claimed gs a = claimed hs a" for a
  proof (cases "\<exists>g. filter (matches_group a) gs = [g]")
    case True
    then show ?thesis using filter_single_perm [OF assms] by (auto simp: claimed_def)
  next
    case False
    then have "\<not> (\<exists>g. filter (matches_group a) hs = [g])" using filter_single_perm [OF assms [symmetric]] by blast
    then show ?thesis using False by (auto simp: claimed_def split: list.split)
  qed
  show "claimed gs a = claimed hs a" by (rule c)
  have cl: "claimants_of gs B = claimants_of hs B" by (intro ext set_eqI) (simp only: claimants_mem c)
  assume "A = B"
  show "verdict_of gs A a = verdict_of hs B a"
  proof (cases "\<exists>g. filter (matches_group a) gs = [g]")
    case True
    then obtain g where g: "filter (matches_group a) gs = [g]" by blast
    show ?thesis unfolding verdict_of_def g filter_single_perm [OF assms g] \<open>A = B\<close> cl ..
  next
    case False
    then have "\<not> (\<exists>g. filter (matches_group a) hs = [g])" using filter_single_perm [OF assms [symmetric]] by blast
    moreover have "length (filter (matches_group a) gs) = length (filter (matches_group a) hs)" using m by (metis size_mset)
    ultimately show ?thesis using False by (auto simp: verdict_of_def split: list.split)
  qed
qed

text \<open>The order of the assertions and of the groups does not matter: each assertion keeps its verdict and each
  group its owner.\<close>

theorem attribution_order_independent:
  assumes "set as = set bs" and "mset gs = mset hs"
  shows "\<exists>verdict. fst (resolve_window_attributions as gs) = map verdict as \<and> fst (resolve_window_attributions bs hs) = map verdict bs
    \<and> dget (snd (resolve_window_attributions as gs)) = dget (snd (resolve_window_attributions bs hs))"
proof -
  have "owner_of gs (set as) = owner_of hs (set bs)"
  proof
    fix k
    have "claimants_of gs (set as) k = claimants_of hs (set bs) k"
      by (intro set_eqI) (simp only: claimants_mem verdict_perm(1) [OF assms(2)] assms(1))
    then show "owner_of gs (set as) k = owner_of hs (set bs) k" by (simp add: owner_of_def)
  qed
  then show ?thesis using resolve_closed [of as gs] resolve_closed [of bs hs] verdict_perm(2) [OF assms(2,1)]
    by (intro exI [of _ "verdict_of gs (set as)"]) (metis (no_types, lifting) map_eq_conv)
qed


section \<open>Attribution, then continuity\<close>

text \<open>
  The interface \<open>apply_resolution\<close> is parameterised on: how a client reads and re-stamps an observation. A stamp is
  read back, and keeps the group.
\<close>

locale observation_view =
  fixes group_key_of :: "'o \<Rightarrow> 'k" and account_key_of :: "'o \<Rightarrow> string option" and stamp :: "'o \<Rightarrow> string \<Rightarrow> 'o"
  assumes account_stamp: "account_key_of (stamp obs a) = Some a"
    and group_stamp: "group_key_of (stamp obs a) = group_key_of obs"
    and stamp_stamp: "stamp (stamp obs a) b = stamp obs b"
begin

definition unattributed :: "'o \<Rightarrow> bool" where
  "unattributed obs \<longleftrightarrow> account_key_of obs \<in> {None, Some '''', Some UNATTRIBUTED}"

definition resolved_one :: "('k, string) dict \<Rightarrow> 'o \<Rightarrow> 'o" where
  "resolved_one ownership obs = (if unattributed obs then
     (case dget ownership (group_key_of obs) of Some owner \<Rightarrow> if owner \<noteq> '''' then stamp obs owner else obs | None \<Rightarrow> obs)
     else obs)"

lemma apply_map:
  "apply_resolution ownership observations group_key_of account_key_of stamp = map (resolved_one ownership) observations"
  by (auto simp: apply_resolution_def resolved_one_def unattributed_def split: option.split)

lemma resolved_idempotent: "resolved_one ownership (resolved_one ownership obs) = resolved_one ownership obs"
  by (auto simp: resolved_one_def unattributed_def account_stamp group_stamp stamp_stamp split: option.splits)

lemma resolved_group: "group_key_of (resolved_one ownership obs) = group_key_of obs"
  by (auto simp: resolved_one_def group_stamp split: option.split)

lemma apply_idempotent:
  "apply_resolution ownership (apply_resolution ownership obs group_key_of account_key_of stamp) group_key_of account_key_of stamp
     = apply_resolution ownership obs group_key_of account_key_of stamp"
  by (simp add: apply_map resolved_idempotent)

end

interpretation quota: observation_view physical_window_key "\<lambda>obs. Some (observed_account obs)" with_account
  by unfold_locales (simp_all add: observed_account_def with_account_def physical_window_key_def Let_def)

text \<open>The identified accounts of a window among the observations.\<close>

definition native_accounts :: "quota_observation list \<Rightarrow> window_key \<Rightarrow> string set" where
  "native_accounts observations k =
     observed_account ` {obs \<in> set observations. physical_window_key obs = k \<and> observed_account obs \<noteq> UNATTRIBUTED}"

lemma note_fold: "holds_sets (foldl note_identified [] observations) (native_accounts observations)"
proof (induction observations rule: rev_induct)
  case Nil
  show ?case by (simp add: holds_sets_def native_accounts_def dget_or_def dkeys_def)
next
  case (snoc obs observations)
  let ?k = "physical_window_key obs"
  have mem: "x \<in> native_accounts os k \<longleftrightarrow>
      (\<exists>o' \<in> set os. physical_window_key o' = k \<and> observed_account o' \<noteq> UNATTRIBUTED \<and> observed_account o' = x)" for x os k
    by (auto simp: native_accounts_def)
  show ?case
  proof (cases "observed_account obs = UNATTRIBUTED")
    case True
    then have "native_accounts (observations @ [obs]) = native_accounts observations"
      by (intro ext set_eqI) (auto simp: mem)
    then show ?thesis using snoc True by (simp add: note_identified_def)
  next
    case False
    have e: "native_accounts (observations @ [obs])
        = (native_accounts observations)(?k := insert (observed_account obs) (native_accounts observations ?k))"
      using False by (intro ext set_eqI) (auto simp: mem)
    have c: "note_identified d obs = dset ?k (List.insert (observed_account obs) (dget_or d ?k [])) d" for d
      using False by (simp add: note_identified_def)
    show ?thesis unfolding e foldl_append foldl_Cons foldl_Nil c by (rule holds_sets_insert [OF snoc])
  qed
qed

definition adopted_one :: "(window_key \<Rightarrow> string set) \<Rightarrow> quota_observation \<Rightarrow> quota_observation" where
  "adopted_one accounts obs = (if observed_account obs \<noteq> UNATTRIBUTED then obs
     else if \<exists>a. accounts (physical_window_key obs) = {a}
     then with_account obs (the_elem (accounts (physical_window_key obs))) else obs)"

lemma single_list: "distinct xs \<Longrightarrow> set xs = {a} \<longleftrightarrow> xs = [a]"
  by (cases xs) (auto simp: subset_singleton_iff)

lemma adopt_map: "adopt_unidentified_observations observations = map (adopted_one (native_accounts observations)) observations"
proof -
  let ?d = "foldl note_identified [] observations"
  have "(case dget ?d k of Some [a] \<Rightarrow> with_account obs a | _ \<Rightarrow> obs)
      = (if \<exists>a. native_accounts observations k = {a} then with_account obs (the_elem (native_accounts observations k)) else obs)" for obs k
  proof -
    have h: "distinct (dget_or ?d k [])" "set (dget_or ?d k []) = native_accounts observations k"
      using holds_setsD [OF note_fold, of observations k] by blast+
    have iff: "native_accounts observations k = {a} \<longleftrightarrow> dget ?d k = Some [a]" for a
      using single_list [OF h(1), of a] unfolding h(2) by (auto simp: dget_or_def split: option.splits)
    show ?thesis
    proof (cases "\<exists>a. native_accounts observations k = {a}")
      case True
      then obtain a where a: "native_accounts observations k = {a}" by blast
      then show ?thesis using iff [of a] by simp
    next
      case False
      then have "dget ?d k \<noteq> Some [a]" for a using iff by blast
      then show ?thesis using False by (auto split: option.split list.split)
    qed
  qed
  then show ?thesis unfolding adopt_unidentified_observations_def Let_def adopted_one_def by (intro map_cong refl) simp
qed

lemma overlay_map: "attribution_overlay ownership observations = map (quota.resolved_one ownership) observations"
proof (cases "ownership = []")
  case True
  then have "quota.resolved_one ownership = (\<lambda>obs. obs)" by (intro ext) (simp add: quota.resolved_one_def)
  then show ?thesis using True by (simp add: attribution_overlay_def)
qed (simp add: attribution_overlay_def quota.apply_map)

text \<open>What the two folds leave an observation with.\<close>

definition final_account :: "(window_key \<Rightarrow> string option) \<Rightarrow> (window_key \<Rightarrow> string set) \<Rightarrow> quota_observation \<Rightarrow> string" where
  "final_account owner native obs = (let k = physical_window_key obs in
     if observed_account obs \<noteq> UNATTRIBUTED then observed_account obs
     else case owner k of Some a \<Rightarrow> a
        | None \<Rightarrow> if \<exists>a. native k = {a} then the_elem (native k) else UNATTRIBUTED)"

lemma with_own_account: "with_account obs (observed_account obs) = obs"
  by (simp add: with_account_def observed_account_def)

lemma observed_with [simp]: "observed_account (with_account obs a) = a"
  by (simp add: with_account_def observed_account_def)

lemma key_with [simp]: "physical_window_key (with_account obs a) = physical_window_key obs"
  by (simp add: with_account_def physical_window_key_def Let_def)

lemma with_with [simp]: "with_account (with_account obs a) b = with_account obs b"
  by (simp add: with_account_def)

lemma resolved_quota:
  assumes "observed_account obs \<noteq> ''''"
  shows "quota.resolved_one ownership obs = (if observed_account obs = UNATTRIBUTED then
     (case dget ownership (physical_window_key obs) of Some owner \<Rightarrow> if owner \<noteq> '''' then with_account obs owner else obs | None \<Rightarrow> obs)
     else obs)"
  using assms by (simp add: quota.resolved_one_def quota.unattributed_def)

lemma owned_claim:
  assumes "dget (snd (resolve_window_attributions assertions groups)) k = Some x"
  shows "\<exists>a \<in> set assertions. claimed groups a = Some k \<and> wa_account_key a = x"
proof -
  have "claimants_of groups (set assertions) k = {x}"
    using assms resolve_closed [of assertions groups] owner_of_iff by metis
  then have "x \<in> claimants_of groups (set assertions) k" by blast
  then show ?thesis unfolding claimants_mem by blast
qed

lemma owned_without_evidence:
  assumes "dget (snd (resolve_window_attributions assertions groups)) k = Some x"
    and "\<And>g. g \<in> set groups \<Longrightarrow> set (wg_identified_accounts g) = native (wg_group_key g)"
  shows "native k = {}"
proof -
  obtain a g where a: "filter (matches_group a) groups = [g]" "wg_identified_accounts g = []" "wg_group_key g = k"
    using owned_claim [OF assms(1)] claimedD by metis
  have "g \<in> set groups" using a(1) by (metis filter_is_subset list.set_intros(1) subsetD)
  from assms(2) [OF this] show ?thesis using a(2,3) by simp
qed

text \<open>The overlay leaves a window without owner as it is.\<close>

lemma native_unowned:
  assumes "dget own k = None"
  shows "native_accounts (map (quota.resolved_one own) observations) k = native_accounts observations k"
proof -
  have fixed: "quota.resolved_one own obs = obs" if "physical_window_key obs = k" for obs
    using assms that by (simp add: quota.resolved_one_def)
  have "{obs \<in> set (map (quota.resolved_one own) observations). physical_window_key obs = k}
      = {obs \<in> set observations. physical_window_key obs = k}"
    by (auto simp: quota.resolved_group fixed) (metis fixed image_eqI)
  then have "{obs \<in> set (map (quota.resolved_one own) observations). physical_window_key obs = k \<and> observed_account obs \<noteq> UNATTRIBUTED}
      = {obs \<in> set observations. physical_window_key obs = k \<and> observed_account obs \<noteq> UNATTRIBUTED}" by blast
  then show ?thesis unfolding native_accounts_def by (rule arg_cong)
qed

lemma resolved_then_adopted:
  assumes "observed_account obs \<noteq> ''''" and "\<And>k x. dget own k = Some x \<Longrightarrow> x \<noteq> '''' \<and> x \<noteq> UNATTRIBUTED"
    and "\<And>k. dget own k = None \<Longrightarrow> native' k = native k"
  shows "adopted_one native' (quota.resolved_one own obs) = with_account obs (final_account (dget own) native obs)"
proof (cases "observed_account obs = UNATTRIBUTED")
  case False
  then show ?thesis using resolved_quota [OF assms(1), of own] with_own_account
    by (simp add: adopted_one_def final_account_def Let_def)
next
  case True
  show ?thesis
  proof (cases "dget own (physical_window_key obs)")
    case None
    then show ?thesis using True resolved_quota [OF assms(1), of own] assms(3) [OF None] with_own_account [of obs]
      by (auto simp: adopted_one_def final_account_def Let_def)
  next
    case (Some x)
    then show ?thesis using True resolved_quota [OF assms(1), of own] assms(2) [OF Some]
      by (simp add: adopted_one_def final_account_def Let_def)
  qed
qed

text \<open>C14: attributing and then adopting gives every observation its final account: an identified observation is never
  re-stamped; an unattributed one gets its window's asserted owner, and where there is none the single account
  natively observed in the window. Here the groups carry the complete native evidence of the observations, and
  assertions name real accounts. A group with native evidence is never overridden, and adoption finds nothing
  left in an attributed group.\<close>

theorem attribution_then_adoption:
  assumes evidence: "\<And>g. g \<in> set groups \<Longrightarrow> set (wg_identified_accounts g) = native_accounts observations (wg_group_key g)"
    and named: "\<And>a. a \<in> set assertions \<Longrightarrow> wa_account_key a \<noteq> '''' \<and> wa_account_key a \<noteq> UNATTRIBUTED"
    and valid: "\<And>obs. obs \<in> set observations \<Longrightarrow> observed_account obs \<noteq> ''''"
  shows "let ownership = snd (resolve_window_attributions assertions groups) in
    adopt_unidentified_observations (attribution_overlay ownership observations)
      = map (\<lambda>obs. with_account obs (final_account (dget ownership) (native_accounts observations) obs)) observations
    \<and> (\<forall>k. dget ownership k \<noteq> None \<longrightarrow> native_accounts observations k = {})"
proof -
  let ?own = "snd (resolve_window_attributions assertions groups)" and ?native = "native_accounts observations"
  have real: "x \<noteq> '''' \<and> x \<noteq> UNATTRIBUTED" if "dget ?own k = Some x" for k x
    using owned_claim [OF that] named by blast
  have "adopt_unidentified_observations (attribution_overlay ?own observations)
      = map (\<lambda>obs. with_account obs (final_account (dget ?own) ?native obs)) observations"
    unfolding overlay_map adopt_map map_map comp_def
    by (intro map_cong refl resolved_then_adopted [OF valid real native_unowned])
  moreover have "?native k = {}" if "dget ?own k \<noteq> None" for k
    using that owned_without_evidence [OF _ evidence] by blast
  ultimately show ?thesis unfolding Let_def by blast
qed


section \<open>The spend plan\<close>

text \<open>The accounts identified by the windows that claim a candidate.\<close>

definition claiming_accounts :: "adoption_window list \<Rightarrow> adoption_candidate \<Rightarrow> string set" where
  "claiming_accounts windows c = \<Union> ((\<lambda>w. set (aw_identified_accounts w)) ` {w \<in> set windows. window_in_scope w
     \<and> aw_source_root_key w = ca_source_root_key c \<and> covers w (ca_timestamp c)})"

lemma group_windows_get:
  "dget_or (group_windows windows) root [] = filter (\<lambda>w. window_in_scope w \<and> aw_source_root_key w = root) windows"
proof (induction windows rule: rev_induct)
  case (snoc w ws)
  let ?d = "group_windows ws"
  have step: "group_windows (ws @ [w]) = (if window_in_scope w
      then dset (aw_source_root_key w) (dget_or ?d (aw_source_root_key w) [] @ [w]) ?d else ?d)"
    by (simp add: group_windows_def)
  have look: "dget_or (dset k v ?d) root [] = (if root = k then v else dget_or ?d root [])" for k v
    by (simp add: dget_or_def dget_dset)
  show ?case unfolding step using snoc by (simp add: look)
qed (simp add: group_windows_def dget_or_def)

lemma union_accounts_single:
  assumes "distinct acc"
  shows "union_accounts ts acc ws = [a]
    \<longleftrightarrow> set acc \<union> \<Union> ((\<lambda>w. set (aw_identified_accounts w)) ` {w \<in> set ws. covers w ts}) = {a}"
  using assms
proof (induction ws arbitrary: acc)
  case Nil
  then show ?case using single_list [OF Nil, of a] by simp
next
  case (Cons w ws)
  let ?U = "\<lambda>ws. \<Union> ((\<lambda>w. set (aw_identified_accounts w)) ` {w \<in> set ws. covers w ts})"
  show ?case
  proof (cases "covers w ts")
    case False
    then have "?U (w # ws) = ?U ws" by auto
    then show ?thesis using Cons False by simp
  next
    case True
    let ?acc = "fold List.insert (aw_identified_accounts w) acc"
    have U: "set acc \<union> ?U (w # ws) = set ?acc \<union> ?U ws"
      using True fold_insert [OF Cons.prems, of "aw_identified_accounts w"] by auto
    have d: "distinct ?acc" using fold_insert [OF Cons.prems] by blast
    show ?thesis
    proof (cases "length ?acc > 1")
      case long: True
      then obtain x where x: "x \<in> set ?acc" by (cases ?acc) auto
      then obtain y where y: "y \<in> set ?acc" "y \<noteq> x" using long_distinct [OF d x] long by blast
      have "set ?acc \<union> ?U ws \<noteq> {a}"
      proof
        assume e: "set ?acc \<union> ?U ws = {a}"
        have "x \<in> {a}" "y \<in> {a}" unfolding e [symmetric] using x y(1) by simp_all
        then show False using y(2) by simp
      qed
      moreover have "?acc \<noteq> [a]" using long by auto
      ultimately show ?thesis unfolding U using True long by simp
    next
      case False
      then show ?thesis unfolding U using Cons.IH [OF d] True by simp
    qed
  qed
qed

lemma stamp_step_eq:
  "stamp_step (group_windows windows) stamps c = stamps @
     (if entry_is_unattributed (ca_account_key c) \<and> (\<exists>a. claiming_accounts windows c = {a})
      then [(ca_entry_id c, the_elem (claiming_accounts windows c))] else [])"
proof -
  let ?u = "union_accounts (ca_timestamp c) [] (dget_or (group_windows windows) (ca_source_root_key c) [])"
  let ?ws = "filter (\<lambda>w. window_in_scope w \<and> aw_source_root_key w = ca_source_root_key c) windows"
  have ws: "{w \<in> set ?ws. covers w (ca_timestamp c)} = {w \<in> set windows. window_in_scope w
      \<and> aw_source_root_key w = ca_source_root_key c \<and> covers w (ca_timestamp c)}" by auto
  have iff: "?u = [a] \<longleftrightarrow> claiming_accounts windows c = {a}" for a
    using union_accounts_single [OF distinct.simps(1) [THEN iffD2, OF TrueI], of "ca_timestamp c" ?ws a]
    unfolding group_windows_get claiming_accounts_def ws list.set Un_empty_left .
  show ?thesis
  proof (cases "\<exists>a. claiming_accounts windows c = {a}")
    case True
    then obtain a where a: "claiming_accounts windows c = {a}" by blast
    then have "?u = [a]" using iff by blast
    then show ?thesis using a by (simp add: stamp_step_def)
  next
    case False
    then have "?u \<noteq> [a]" for a using iff by blast
    then show ?thesis using False by (auto simp: stamp_step_def split: list.split)
  qed
qed

definition stamps_for :: "adoption_window list \<Rightarrow> adoption_candidate list \<Rightarrow> adoption_stamp list" where
  "stamps_for windows candidates = map (\<lambda>c. (ca_entry_id c, the_elem (claiming_accounts windows c)))
     (filter (\<lambda>c. entry_is_unattributed (ca_account_key c) \<and> (\<exists>a. claiming_accounts windows c = {a})) candidates)"

lemma stamp_fold: "foldl (stamp_step (group_windows windows)) stamps cs = stamps @ stamps_for windows cs"
  by (induction cs arbitrary: stamps) (simp_all add: stamp_step_eq stamps_for_def)

lemma plan_sort: "build_spend_adoption_plan windows candidates = sort (stamps_for windows candidates)"
  by (simp add: build_spend_adoption_plan_def stamp_fold)

text \<open>The glue's write: a stamped entry gets its account.\<close>

definition write_stamps :: "adoption_stamp list \<Rightarrow> adoption_candidate \<Rightarrow> adoption_candidate" where
  "write_stamps plan c = (case map_of plan (ca_entry_id c) of Some a \<Rightarrow> c\<lparr>ca_account_key := Some a\<rparr> | None \<Rightarrow> c)"

lemma plan_mem:
  "(i, a) \<in> set (build_spend_adoption_plan windows candidates) \<longleftrightarrow>
    (\<exists>c \<in> set candidates. ca_entry_id c = i \<and> entry_is_unattributed (ca_account_key c) \<and> claiming_accounts windows c = {a})"
  unfolding plan_sort set_sort stamps_for_def by auto

lemma plan_sorted: "sorted (map fst (build_spend_adoption_plan windows candidates))"
  unfolding plan_sort sorted_map by (rule sorted_wrt_mono_rel [OF _ sorted_sort]) (auto simp: less_eq_prod_def)

lemma plan_distinct:
  assumes "distinct (map ca_entry_id candidates)"
  shows "distinct (map fst (build_spend_adoption_plan windows candidates))"
proof -
  have "mset (build_spend_adoption_plan windows candidates) = mset (stamps_for windows candidates)" by (simp add: plan_sort)
  moreover have "distinct (map fst (stamps_for windows candidates))"
    using assms unfolding stamps_for_def by (simp add: comp_def distinct_map_filter)
  ultimately show ?thesis by (metis mset_eq_imp_distinct_iff mset_map)
qed

lemma claiming_written: "claiming_accounts windows (write_stamps plan c) = claiming_accounts windows c"
  by (simp add: write_stamps_def claiming_accounts_def split: option.split)

text \<open>Once the plan is written, a candidate is attributed or still not claimed by one account.\<close>

lemma plan_settles:
  assumes "distinct (map ca_entry_id candidates)" and "c \<in> set candidates"
    and "\<And>w a. w \<in> set windows \<Longrightarrow> a \<in> set (aw_identified_accounts w) \<Longrightarrow> a \<noteq> '''' \<and> a \<noteq> UNATTRIBUTED"
    and "claiming_accounts windows c = {a}"
  shows "\<not> entry_is_unattributed (ca_account_key (write_stamps (build_spend_adoption_plan windows candidates) c))"
proof (cases "entry_is_unattributed (ca_account_key c)")
  case True
  let ?plan = "build_spend_adoption_plan windows candidates"
  have "(ca_entry_id c, a) \<in> set ?plan" unfolding plan_mem using assms(2,4) True by blast
  then have "map_of ?plan (ca_entry_id c) = Some a" using plan_distinct [OF assms(1)] by simp
  moreover have "a \<in> claiming_accounts windows c" using assms(4) by blast
  then have "a \<noteq> '''' \<and> a \<noteq> UNATTRIBUTED" using assms(3) unfolding claiming_accounts_def by blast
  ultimately show ?thesis by (simp add: write_stamps_def entry_is_unattributed_def)
next
  case False
  let ?plan = "build_spend_adoption_plan windows candidates"
  have "map_of ?plan (ca_entry_id c) = None"
  proof (rule ccontr)
    assume "map_of ?plan (ca_entry_id c) \<noteq> None"
    then obtain b where "(ca_entry_id c, b) \<in> set ?plan" using map_of_SomeD by fastforce
    then obtain d where d: "d \<in> set candidates" "ca_entry_id d = ca_entry_id c" "entry_is_unattributed (ca_account_key d)"
      unfolding plan_mem by blast
    have "d = c" using assms(1) d(1,2) assms(2) unfolding distinct_map by (auto dest: inj_onD)
    then show False using False d(3) by blast
  qed
  then show ?thesis using False by (simp add: write_stamps_def)
qed

text \<open>the spend plan is ordered by entry and stamps exactly the unattributed entries for which the windows
  claiming them identify one account between them, with that account; with distinct entry ids and real accounts,
  planning again over the written result plans nothing.\<close>

theorem spend_plan_exact:
  assumes "distinct (map ca_entry_id candidates)"
    and "\<And>w a. w \<in> set windows \<Longrightarrow> a \<in> set (aw_identified_accounts w) \<Longrightarrow> a \<noteq> '''' \<and> a \<noteq> UNATTRIBUTED"
  shows "let plan = build_spend_adoption_plan windows candidates in
    sorted (map fst plan) \<and> distinct (map fst plan)
    \<and> (\<forall>i a. (i, a) \<in> set plan \<longleftrightarrow> (\<exists>c \<in> set candidates. ca_entry_id c = i \<and> entry_is_unattributed (ca_account_key c)
          \<and> claiming_accounts windows c = {a}))
    \<and> build_spend_adoption_plan windows (map (write_stamps plan) candidates) = []"
proof -
  let ?plan = "build_spend_adoption_plan windows candidates"
  have "stamps_for windows (map (write_stamps ?plan) candidates) = []"
    using plan_settles [OF assms(1) _ assms(2)] by (auto simp: stamps_for_def filter_empty_conv claiming_written)
  then have "build_spend_adoption_plan windows (map (write_stamps ?plan) candidates) = []"
    unfolding plan_sort [of windows "map (write_stamps ?plan) candidates"] by simp
  then show ?thesis using plan_sorted [of windows candidates] plan_distinct [OF assms(1)] plan_mem [of _ _ windows candidates]
    unfolding Let_def by blast
qed


section \<open>Concrete windows\<close>

definition sample_assertion :: "string \<Rightarrow> string \<Rightarrow> window_assertion" where
  "sample_assertion op account = \<lparr>wa_op_id = op, wa_account_key = account, wa_source_root_key = ''r'',
     wa_logical_limit_key = ''l'', wa_observed_slot = ''s'', wa_window_minutes = 10080, wa_raw_resets = [''t'']\<rparr>"

definition sample_window :: "window_key" where
  "sample_window = (''codex'', ''r'', ''l'', ''s'', 10080, 7)"

definition sample_group :: "string list \<Rightarrow> window_key window_group" where
  "sample_group accounts = \<lparr>wg_group_key = sample_window, wg_source_root_key = ''r'', wg_logical_limit_key = ''l'',
     wg_observed_slot = ''s'', wg_window_minutes = 10080, wg_raw_resets = [''t'', ''u''], wg_identified_accounts = accounts,
     wg_model_scoped = False\<rparr>"

lemmas sample_defs = sample_assertion_def sample_group_def matches_group_def group_axes_def assertion_axes_def
  claimed_def group_in_scope_def ACCOUNT_WEEKLY_WINDOW_MINUTES_def

lemma attribution_verdicts_witness:
  "map ar_outcome (fst (resolve_window_attributions [sample_assertion ''1'' ''a'', sample_assertion ''2'' ''b''] [sample_group []]))
     = [SuppressedConflict, SuppressedConflict]
   \<and> dget (snd (resolve_window_attributions [sample_assertion ''1'' ''a''] [sample_group []])) sample_window = Some ''a''"
proof -
  have c: "claimed [sample_group []] (sample_assertion op x) = Some sample_window" for op x
    by (simp add: sample_defs)
  have f: "filter (matches_group (sample_assertion op x)) [sample_group []] = [sample_group []]" for op x
    by (simp add: sample_defs)
  let ?as = "[sample_assertion ''1'' ''a'', sample_assertion ''2'' ''b'']" and ?gs = "[sample_group []]"
  have a: "wa_account_key (sample_assertion op x) = x" for op x by (simp add: sample_assertion_def)
  have g: "group_in_scope (sample_group [])" "wg_identified_accounts (sample_group []) = []" "wg_group_key (sample_group []) = sample_window"
    by (simp_all add: sample_group_def group_in_scope_def ACCOUNT_WEEKLY_WINDOW_MINUTES_def)
  have cl: "claimants_of ?gs (set ?as) sample_window = {''a'', ''b''}"
    by (intro set_eqI) (auto simp: claimants_mem c a)
  have v: "ar_outcome (verdict_of ?gs (set ?as) (sample_assertion op x)) = SuppressedConflict" if "x \<in> {''a'', ''b''}" for op x
    unfolding verdict_of_def f list.case Let_def cl a using that g by (auto simp: resolution_of_def cl [simplified])
  have "map ar_outcome (fst (resolve_window_attributions ?as ?gs)) = [SuppressedConflict, SuppressedConflict]"
    unfolding conjunct1 [OF attribution_verdicts [of ?as ?gs]] using v by simp
  moreover have "dget (snd (resolve_window_attributions [sample_assertion ''1'' ''a''] ?gs)) sample_window = Some ''a''"
    using conjunct2 [OF attribution_verdicts [of "[sample_assertion ''1'' ''a'']" ?gs], THEN spec [of _ sample_window], THEN spec [of _ "''a''"]] c
    by (simp add: a)
  ultimately show ?thesis by blast
qed

lemma attribution_order_independent_witness:
  "dget (snd (resolve_window_attributions [sample_assertion ''1'' ''a'', sample_assertion ''2'' ''b''] [sample_group []]))
     = dget (snd (resolve_window_attributions [sample_assertion ''2'' ''b'', sample_assertion ''1'' ''a''] [sample_group []]))"
  using attribution_order_independent [of "[sample_assertion ''1'' ''a'', sample_assertion ''2'' ''b'']"
      "[sample_assertion ''2'' ''b'', sample_assertion ''1'' ''a'']" "[sample_group []]" "[sample_group []]"] by auto

definition sample_observation :: "string \<Rightarrow> quota_observation" where
  "sample_observation account = \<lparr>qo_identity = \<lparr>wi_source = ''codex'', wi_source_root_key = ''r'', wi_logical_limit_key = ''l'',
     wi_observed_slot = ''s'', wi_window_minutes = 10080, wi_account_key = account, wi_limit_id = None, wi_limit_name = None\<rparr>,
     qo_captured_at = 1, qo_used_percent = ''1.0'', qo_resets_at = 7, qo_source_path = ''/p'', qo_line_offset = 0,
     qo_plan_type = None, qo_individual_limit_json = None, qo_reached_type = None, qo_canonical_resets_at = 7\<rparr>"

lemma attribution_then_adoption_witness:
  "map observed_account (adopt_unidentified_observations (attribution_overlay
      (snd (resolve_window_attributions [sample_assertion ''1'' ''a''] [sample_group []])) [sample_observation UNATTRIBUTED]))
     = [''a'']
   \<and> map observed_account (adopt_unidentified_observations (attribution_overlay
      (snd (resolve_window_attributions [sample_assertion ''1'' ''a''] [sample_group [''n'']]))
      [sample_observation UNATTRIBUTED, sample_observation ''n''])) = [''n'', ''n'']"
proof -
  have key: "physical_window_key (sample_observation x) = sample_window" for x
    by (simp add: sample_observation_def physical_window_key_def sample_window_def)
  have acc: "observed_account (sample_observation x) = x" for x
    by (simp add: sample_observation_def observed_account_def)
  have n1: "native_accounts [sample_observation UNATTRIBUTED] k = {}" for k by (simp add: native_accounts_def acc)
  have n2: "native_accounts [sample_observation UNATTRIBUTED, sample_observation ''n''] k = (if k = sample_window then {''n''} else {})" for k
  proof -
    have "{obs \<in> set [sample_observation UNATTRIBUTED, sample_observation ''n'']. physical_window_key obs = k
        \<and> observed_account obs \<noteq> UNATTRIBUTED} = (if k = sample_window then {sample_observation ''n''} else {})"
      by (auto simp: acc key UNATTRIBUTED_def)
    then show ?thesis unfolding native_accounts_def by (simp add: acc)
  qed
  have own1: "dget (snd (resolve_window_attributions [sample_assertion ''1'' ''a''] [sample_group []])) sample_window = Some ''a''"
    using attribution_verdicts_witness by blast
  have a: "wa_account_key (sample_assertion op x) = x" for op x by (simp add: sample_assertion_def)
  have g: "set (wg_identified_accounts (sample_group xs)) = set xs" "wg_group_key (sample_group xs) = sample_window" for xs
    by (simp_all add: sample_group_def)
  have un: "''n'' \<noteq> UNATTRIBUTED" by (simp add: UNATTRIBUTED_def)
  have e1: "set (wg_identified_accounts h) = native_accounts [sample_observation UNATTRIBUTED] (wg_group_key h)"
    if "h \<in> set [sample_group []]" for h using that by (simp add: g n1 del: set_empty)
  have e2: "set (wg_identified_accounts h) = native_accounts [sample_observation UNATTRIBUTED, sample_observation ''n''] (wg_group_key h)"
    if "h \<in> set [sample_group [''n'']]" for h using that by (simp add: g n2)
  have nm: "wa_account_key x \<noteq> '''' \<and> wa_account_key x \<noteq> UNATTRIBUTED" if "x \<in> set [sample_assertion ''1'' ''a'']" for x
    using that by (simp add: a UNATTRIBUTED_def)
  have v1: "observed_account x \<noteq> ''''" if "x \<in> set [sample_observation UNATTRIBUTED]" for x
    using that by (simp add: acc UNATTRIBUTED_def)
  have v2: "observed_account x \<noteq> ''''" if "x \<in> set [sample_observation UNATTRIBUTED, sample_observation ''n'']" for x
    using that by (auto simp: acc UNATTRIBUTED_def)
  have T1: "let ownership = snd (resolve_window_attributions [sample_assertion ''1'' ''a''] [sample_group []]) in
      adopt_unidentified_observations (attribution_overlay ownership [sample_observation UNATTRIBUTED])
        = map (\<lambda>obs. with_account obs (final_account (dget ownership) (native_accounts [sample_observation UNATTRIBUTED]) obs)) [sample_observation UNATTRIBUTED]
      \<and> (\<forall>k. dget ownership k \<noteq> None \<longrightarrow> native_accounts [sample_observation UNATTRIBUTED] k = {})"
    by (rule attribution_then_adoption) (erule e1 nm v1)+
  have T2: "let ownership = snd (resolve_window_attributions [sample_assertion ''1'' ''a''] [sample_group [''n'']]) in
      adopt_unidentified_observations (attribution_overlay ownership [sample_observation UNATTRIBUTED, sample_observation ''n''])
        = map (\<lambda>obs. with_account obs (final_account (dget ownership) (native_accounts [sample_observation UNATTRIBUTED, sample_observation ''n'']) obs)) [sample_observation UNATTRIBUTED, sample_observation ''n'']
      \<and> (\<forall>k. dget ownership k \<noteq> None \<longrightarrow> native_accounts [sample_observation UNATTRIBUTED, sample_observation ''n''] k = {})"
    by (rule attribution_then_adoption) (erule e2 nm v2)+
  have "map observed_account (adopt_unidentified_observations (attribution_overlay
      (snd (resolve_window_attributions [sample_assertion ''1'' ''a''] [sample_group []])) [sample_observation UNATTRIBUTED]))
     = [''a'']"
    unfolding conjunct1 [OF T1 [unfolded Let_def]] by (simp add: final_account_def key acc own1)
  moreover have "map observed_account (adopt_unidentified_observations (attribution_overlay
      (snd (resolve_window_attributions [sample_assertion ''1'' ''a''] [sample_group [''n'']]))
      [sample_observation UNATTRIBUTED, sample_observation ''n''])) = [''n'', ''n'']"
  proof -
    have "dget (snd (resolve_window_attributions [sample_assertion ''1'' ''a''] [sample_group [''n'']])) sample_window = None"
      using conjunct2 [OF T2 [unfolded Let_def], THEN spec [of _ sample_window]] by (auto simp: n2)
    then show ?thesis unfolding conjunct1 [OF T2 [unfolded Let_def]]
      using un by (simp add: final_account_def key acc n2)
  qed
  ultimately show ?thesis by blast
qed

lemma spend_plan_exact_witness:
  "build_spend_adoption_plan [\<lparr>aw_source_root_key = ''r'', aw_window_minutes = 10080, aw_canonical_resets_at = 700000000000,
      aw_identified_accounts = [''a''], aw_model_scoped = False\<rparr>]
    (map (write_stamps (build_spend_adoption_plan [\<lparr>aw_source_root_key = ''r'', aw_window_minutes = 10080,
        aw_canonical_resets_at = 700000000000, aw_identified_accounts = [''a''], aw_model_scoped = False\<rparr>]
        [\<lparr>ca_entry_id = 3, ca_source_root_key = ''r'', ca_timestamp = 600000000000, ca_account_key = None\<rparr>]))
      [\<lparr>ca_entry_id = 3, ca_source_root_key = ''r'', ca_timestamp = 600000000000, ca_account_key = None\<rparr>]) = []"
  using spend_plan_exact [of "[\<lparr>ca_entry_id = 3, ca_source_root_key = ''r'', ca_timestamp = 600000000000, ca_account_key = None\<rparr>]"
      "[\<lparr>aw_source_root_key = ''r'', aw_window_minutes = 10080, aw_canonical_resets_at = 700000000000,
      aw_identified_accounts = [''a''], aw_model_scoped = False\<rparr>]"]
  by (simp add: UNATTRIBUTED_def Let_def)

end
