(* ===== verification/Drain_Admission.thy ===== *)
theory Drain_Admission
  imports Py_Json
begin

text \<open>
  \<open>bin/_lib_codex_drain_admission.py\<close>: waiting requests, the Claude waiter and the drain-admission gate. The world
  is a record of what the processes share: the two clocks, the request directory, the waiter file and its lock,
  the gate and the store locks. One process's run of \<open>admit\<close> and \<open>finish\<close> is a machine of stages, one system
  call per step: a check lists the directory, reads each clock, judges and removes files one by one, probes the
  waiter's lock, reads its record and the clock again, and the steps of several processes, of publishing hooks,
  of the waiter and of the clocks interleave between any two of these. The monotonic clock counts nanoseconds,
  the wall clock microseconds. A request file holds what \<open>json.loads\<close> makes of it, or nothing when it cannot be
  read; it never changes under its name, so reading it and its time stamp is one step. The listing is one step too:
  a file put in place while the directory is being read, and missed, counts as put in place after it. System calls on
  existing files succeed. \<open>fresh_requests\<close> is a check nothing interferes with, which \<open>check_runs\<close> proves of the
  steps.
\<close>

section \<open>Requests\<close>

definition REQUEST_TTL_NS :: int where "REQUEST_TTL_NS = 60000000000"
definition WALL_GUARD :: int where "WALL_GUARD = 120000000"
definition RECORD_VERSION :: int where "RECORD_VERSION = 1"
definition CLAUDE_WAITER_SENTINEL :: string where "CLAUDE_WAITER_SENTINEL = ''claude-waiter''"
definition WAITER_MAGIC :: string where "WAITER_MAGIC = ''cctally-claude-waiter''"
definition WAITER_VERSION :: string where "WAITER_VERSION = ''v1''"
definition WAITER_RECORD_MAX :: nat where "WAITER_RECORD_MAX = 128"
definition HOOK_DRAIN_WAIT_NS :: int where "HOOK_DRAIN_WAIT_NS = 5000000000"
definition HOLD_ALLOWANCE_NS :: int where "HOLD_ALLOWANCE_NS = 15000000000"
definition POLL_NS :: int where "POLL_NS = 5000000000"
definition SHORT_POLL_NS :: int where "SHORT_POLL_NS = 50000000"
definition CLAUDE_WAITER_RECENT_NS :: int where "CLAUDE_WAITER_RECENT_NS = 1000000000"

datatype drain_error = OverflowError

text \<open>\<open>int(x)\<close> of a decoded value; a float is its text, and \<open>number\<close> says what number the text denotes.\<close>

datatype float_value = Finite int bool | NotFinite bool

text \<open>\<open>Finite n exact\<close>: the float truncates to \<open>n\<close>, \<open>exact\<close> when it equals it; \<open>NotFinite nan\<close> is NaN or an infinity.\<close>

record number_reader =
  float_of :: "string \<Rightarrow> float_value"
  int_text :: "string \<Rightarrow> int option"

datatype converted = Converted int | Refused | Overflows

definition to_int :: "number_reader \<Rightarrow> json \<Rightarrow> converted" where
  "to_int nr v = (case v of
     JInt n \<Rightarrow> Converted n
   | JBool b \<Rightarrow> Converted (if b then 1 else 0)
   | JFloat t \<Rightarrow> (case float_of nr t of Finite n _ \<Rightarrow> Converted n | NotFinite nan \<Rightarrow> if nan then Refused else Overflows)
   | JStr t \<Rightarrow> (case int_text nr t of Some n \<Rightarrow> Converted n | None \<Rightarrow> Refused)
   | _ \<Rightarrow> Refused)"

definition equals_int :: "number_reader \<Rightarrow> json \<Rightarrow> int \<Rightarrow> bool" where
  "equals_int nr v n = (case v of
     JInt m \<Rightarrow> m = n
   | JBool b \<Rightarrow> (if b then 1 else 0) = n
   | JFloat t \<Rightarrow> float_of nr t = Finite n True
   | _ \<Rightarrow> False)"

record request_file =
  rf_content :: "json option"
  rf_mtime :: int

definition is_fresh :: "number_reader \<Rightarrow> request_file \<Rightarrow> int \<Rightarrow> int \<Rightarrow> drain_error + bool" where
  "is_fresh nr rf now_mono now_wall = (case rf_content rf of
     Some (JObj obj) \<Rightarrow>
       (case dget obj ''mono_ns'' of
          None \<Rightarrow> Inr False
        | Some v \<Rightarrow> (case to_int nr v of
              Refused \<Rightarrow> Inr False
            | Overflows \<Rightarrow> Inl OverflowError
            | Converted stamp \<Rightarrow>
                if \<not> equals_int nr (jget obj ''v'') RECORD_VERSION then Inr False
                else (let wall_age = now_wall - rf_mtime rf; age = now_mono - stamp in
                      Inr (0 \<le> age \<and> age < REQUEST_TTL_NS \<and> wall_age < WALL_GUARD))))
   | _ \<Rightarrow> Inr False)"

section \<open>The world\<close>

record drain_world =
  dw_mono :: int
  dw_wall :: int
  dw_requests :: "(string, request_file) dict option"
  dw_waiter :: "string option"
  dw_waiter_lock :: "nat option"
  dw_gate :: "nat option"
  dw_store :: "nat option"
  dw_hint :: "(nat, int) dict"

definition starts_with :: "string \<Rightarrow> string \<Rightarrow> bool" where
  "starts_with p s \<longleftrightarrow> take (length p) s = p"

definition ends_with :: "string \<Rightarrow> string \<Rightarrow> bool" where
  "ends_with p s \<longleftrightarrow> length p \<le> length s \<and> drop (length s - length p) s = p"

definition request_name :: "string \<Rightarrow> string" where
  "request_name request_id = ''req-'' @ request_id @ ''.json''"

definition request_id_of :: "string \<Rightarrow> string" where
  "request_id_of name = take (length name - 9) (drop 4 name)"

text \<open>The record \<open>publish_waiting_request\<close> writes.\<close>

definition request_record :: "string \<Rightarrow> string list \<Rightarrow> int \<Rightarrow> json" where
  "request_record request_id root_keys stamp = JObj [(''v'', JInt RECORD_VERSION), (''id'', JStr request_id),
     (''roots'', JArr (map JStr (sort root_keys))), (''mono_ns'', JInt stamp)]"

definition request_id_for :: "int \<Rightarrow> nat \<Rightarrow> string \<Rightarrow> string" where
  "request_id_for stamp pid uuid = int_str stamp @ ''-'' @ nat_str pid @ ''-'' @ uuid"

definition tmp_name :: "string \<Rightarrow> string" where
  "tmp_name request_id = ''.tmp-'' @ request_id"

text \<open>A publication writes a temporary file, with a reading of the clock taken before, and then renames it.\<close>

definition begin_request :: "nat \<Rightarrow> string \<Rightarrow> string list \<Rightarrow> int \<Rightarrow> drain_world \<Rightarrow> string \<times> drain_world" where
  "begin_request pid uuid root_keys stamp w =
     (let request_id = request_id_for stamp pid uuid;
          entries = (case dw_requests w of None \<Rightarrow> [] | Some d \<Rightarrow> d) in
      (request_id, w\<lparr>dw_requests := Some (dset (tmp_name request_id)
          \<lparr>rf_content = Some (request_record request_id root_keys stamp), rf_mtime = dw_wall w\<rparr> entries)\<rparr>))"

definition rename_request :: "string \<Rightarrow> drain_world \<Rightarrow> drain_world option" where
  "rename_request request_id w = (case dw_requests w of None \<Rightarrow> None
     | Some entries \<Rightarrow> (case dget entries (tmp_name request_id) of None \<Rightarrow> None
         | Some rf \<Rightarrow> Some (w\<lparr>dw_requests := Some (dset (request_name request_id) rf (dwithout [tmp_name request_id] entries))\<rparr>)))"

definition publish_waiting_request :: "nat \<Rightarrow> string \<Rightarrow> string list \<Rightarrow> drain_world \<Rightarrow> string option \<times> drain_world" where
  "publish_waiting_request pid uuid root_keys w =
     (case begin_request pid uuid root_keys (dw_mono w) w of (request_id, w1) \<Rightarrow>
      (case rename_request request_id w1 of None \<Rightarrow> (None, w1) | Some w2 \<Rightarrow> (Some request_id, w2)))"

text \<open>The loop of \<open>_fresh_codex_requests\<close> over the sorted directory.\<close>

type_synonym scan_state = "string list \<times> (string, request_file) dict"

definition scan_request :: "number_reader \<Rightarrow> int \<Rightarrow> int \<Rightarrow> scan_state \<Rightarrow> string \<times> request_file \<Rightarrow> drain_error + scan_state" where
  "scan_request nr now_mono now_wall s e = (case (s, e) of ((fresh, entries), (name, rf)) \<Rightarrow>
     if starts_with ''.tmp-'' name
     then Inr (fresh, if now_wall - rf_mtime rf \<ge> WALL_GUARD then dwithout [name] entries else entries)
     else if \<not> (starts_with ''req-'' name \<and> ends_with ''.json'' name) then Inr (fresh, entries)
     else rbind (is_fresh nr rf now_mono now_wall) (\<lambda>is.
       if is then Inr (fresh @ [request_id_of name], entries) else Inr (fresh, dwithout [name] entries)))"

definition fresh_codex_requests :: "number_reader \<Rightarrow> drain_world \<Rightarrow> drain_error + (string list \<times> drain_world)" where
  "fresh_codex_requests nr w = (case dw_requests w of
     None \<Rightarrow> Inr ([], w)
   | Some entries \<Rightarrow>
       rbind (rfold (scan_request nr (dw_mono w) (dw_wall w)) ([], entries) (sort_key fst entries)) (\<lambda>(fresh, entries').
         Inr (fresh, w\<lparr>dw_requests := Some entries'\<rparr>)))"

section \<open>The Claude waiter\<close>

definition waiter_bound_ns :: int where
  "waiter_bound_ns = max HOOK_DRAIN_WAIT_NS HOLD_ALLOWANCE_NS"

definition is_digit :: "char \<Rightarrow> bool" where
  "is_digit c \<longleftrightarrow> (let n = (of_char c :: nat) in 48 \<le> n \<and> n \<le> 57)"

text \<open>\<open>text.isdigit()\<close> and \<open>int(text)\<close> of ASCII digits.\<close>

definition all_digits :: "string \<Rightarrow> bool" where
  "all_digits s \<longleftrightarrow> s \<noteq> [] \<and> list_all is_digit s"

definition dec_value :: "string \<Rightarrow> nat" where
  "dec_value s = foldl (\<lambda>a c. 10 * a + (of_char c - 48)) 0 s"

definition parse_waiter_expiry :: "string \<Rightarrow> int option" where
  "parse_waiter_expiry data =
     (if \<not> list_all (\<lambda>c. (of_char c :: nat) < 128) data then None
      else if \<not> ends_with [CHR 0x0A] data then None
      else let parts = split_on CHR '' '' (butlast data) in
        if length parts \<noteq> 4 \<or> parts ! 0 \<noteq> WAITER_MAGIC \<or> parts ! 1 \<noteq> WAITER_VERSION
           \<or> \<not> all_digits (parts ! 2) \<or> \<not> all_digits (parts ! 3) then None
        else Some (int (dec_value (parts ! 3))))"

definition waiter_record :: "nat \<Rightarrow> int \<Rightarrow> string" where
  "waiter_record pid expiry_ns =
     join '' '' [WAITER_MAGIC, WAITER_VERSION, nat_str pid, int_str expiry_ns] @ [CHR 0x0A]"

text \<open>\<open>register\<close> is one non-blocking attempt; \<open>mark_holding\<close> and \<open>release\<close> act for the holder only.\<close>

definition waiter_register :: "nat \<Rightarrow> int \<Rightarrow> drain_world \<Rightarrow> bool \<times> drain_world" where
  "waiter_register pid deadline_ns w =
     (let w' = (case dw_waiter w of None \<Rightarrow> w\<lparr>dw_waiter := Some []\<rparr> | Some _ \<Rightarrow> w) in
      if dw_waiter_lock w' \<noteq> None then (False, w')
      else (True, w'\<lparr>dw_waiter_lock := Some pid, dw_waiter := Some (waiter_record pid deadline_ns)\<rparr>))"

definition waiter_mark_holding :: "nat \<Rightarrow> drain_world \<Rightarrow> drain_world" where
  "waiter_mark_holding pid w = (if dw_waiter_lock w \<noteq> Some pid then w
     else w\<lparr>dw_waiter := Some (waiter_record pid (dw_mono w + HOLD_ALLOWANCE_NS))\<rparr>)"

definition waiter_release :: "nat \<Rightarrow> drain_world \<Rightarrow> drain_world" where
  "waiter_release pid w = (if dw_waiter_lock w \<noteq> Some pid then w
     else w\<lparr>dw_waiter := Some [], dw_waiter_lock := None\<rparr>)"

definition waiter_fresh_now :: "drain_world \<Rightarrow> bool" where
  "waiter_fresh_now w = (case dw_waiter w of
     None \<Rightarrow> False
   | Some content \<Rightarrow>
       if dw_waiter_lock w = None then False
       else (case parse_waiter_expiry (take WAITER_RECORD_MAX content) of
           None \<Rightarrow> False
         | Some expiry \<Rightarrow> dw_mono w < expiry \<and> expiry - dw_mono w \<le> waiter_bound_ns))"

definition claude_waiter_fresh :: "nat \<Rightarrow> drain_world \<Rightarrow> bool \<times> drain_world" where
  "claude_waiter_fresh pid w = (if waiter_fresh_now w then (True, w\<lparr>dw_hint := dset pid (dw_mono w) (dw_hint w)\<rparr>) else (False, w))"

definition claude_waiter_recently_observed :: "nat \<Rightarrow> drain_world \<Rightarrow> bool" where
  "claude_waiter_recently_observed pid w = (case dget (dw_hint w) pid of
     None \<Rightarrow> False | Some stamp \<Rightarrow> 0 \<le> dw_mono w - stamp \<and> dw_mono w - stamp < CLAUDE_WAITER_RECENT_NS)"

definition fresh_requests :: "number_reader \<Rightarrow> nat \<Rightarrow> drain_world \<Rightarrow> drain_error + (string list \<times> drain_world)" where
  "fresh_requests nr pid w = rbind (fresh_codex_requests nr w) (\<lambda>(fresh, w1).
     case claude_waiter_fresh pid w1 of (is, w2) \<Rightarrow>
       Inr (if is then fresh @ [CLAUDE_WAITER_SENTINEL] else fresh, w2))"

section \<open>One check, step by step\<close>

text \<open>
  Where a check stands: about to list the directory; about to read the clocks, with the listed names; with the
  readings, at the names still to judge and the ids found fresh; about to unlink a file it judged; at the probe
  of the waiter's lock, its record, and the clock for its expiry; done.
\<close>

datatype check =
    Listing
  | MonoClock "string list"
  | WallClock "string list" int
  | Scanning int int "string list" "string list"
  | Removing int int string "string list" "string list"
  | Probing "string list"
  | Reading "string list"
  | Judging "string list" int
  | Checked "string list"

definition judge_file :: "number_reader \<Rightarrow> int \<Rightarrow> int \<Rightarrow> string \<Rightarrow> string list \<Rightarrow> string list \<Rightarrow> request_file option \<Rightarrow> drain_error + check" where
  "judge_file nr now_mono now_wall name names fresh file =
     (if starts_with ''.tmp-'' name
      then Inr (case file of None \<Rightarrow> Scanning now_mono now_wall names fresh
        | Some rf \<Rightarrow> if now_wall - rf_mtime rf \<ge> WALL_GUARD then Removing now_mono now_wall name names fresh
            else Scanning now_mono now_wall names fresh)
      else if \<not> (starts_with ''req-'' name \<and> ends_with ''.json'' name) then Inr (Scanning now_mono now_wall names fresh)
      else (case file of None \<Rightarrow> Inr (Removing now_mono now_wall name names fresh)
        | Some rf \<Rightarrow> rbind (is_fresh nr rf now_mono now_wall) (\<lambda>is.
            if is then Inr (Scanning now_mono now_wall names (fresh @ [request_id_of name]))
            else Inr (Removing now_mono now_wall name names fresh))))"

text \<open>\<open>claude_waiter_fresh\<close>: the probe of the lock, the record, the clock.\<close>

definition probe_step :: "nat \<Rightarrow> check \<Rightarrow> drain_world \<Rightarrow> check \<times> drain_world" where
  "probe_step pid c w = (case c of
     Probing fresh \<Rightarrow> (if dw_waiter w = None \<or> dw_waiter_lock w = None then Checked fresh else Reading fresh, w)
   | Reading fresh \<Rightarrow> (case dw_waiter w of None \<Rightarrow> Checked fresh
       | Some content \<Rightarrow> (case parse_waiter_expiry (take WAITER_RECORD_MAX content) of None \<Rightarrow> Checked fresh
           | Some expiry \<Rightarrow> Judging fresh expiry), w)
   | Judging fresh expiry \<Rightarrow> if dw_mono w < expiry \<and> expiry - dw_mono w \<le> waiter_bound_ns
       then (Checked (fresh @ [CLAUDE_WAITER_SENTINEL]), w\<lparr>dw_hint := dset pid (dw_mono w) (dw_hint w)\<rparr>) else (Checked fresh, w)
   | _ \<Rightarrow> (c, w))"

definition check_step :: "number_reader \<Rightarrow> nat \<Rightarrow> check \<Rightarrow> drain_world \<Rightarrow> drain_error + (check \<times> drain_world)" where
  "check_step nr pid c w = (case c of
     Listing \<Rightarrow> Inr (case dw_requests w of None \<Rightarrow> Probing [] | Some entries \<Rightarrow> MonoClock (sort (map fst entries)), w)
   | MonoClock names \<Rightarrow> Inr (WallClock names (dw_mono w), w)
   | WallClock names now_mono \<Rightarrow> Inr (Scanning now_mono (dw_wall w) names [], w)
   | Scanning now_mono now_wall names fresh \<Rightarrow> (case names of
       [] \<Rightarrow> Inr (Probing fresh, w)
     | name # rest \<Rightarrow> rbind (judge_file nr now_mono now_wall name rest fresh
         (case dw_requests w of None \<Rightarrow> None | Some entries \<Rightarrow> dget entries name)) (\<lambda>c'. Inr (c', w)))
   | Removing now_mono now_wall name names fresh \<Rightarrow>
       Inr (Scanning now_mono now_wall names fresh, w\<lparr>dw_requests := map_option (dwithout [name]) (dw_requests w)\<rparr>)
   | Checked fresh \<Rightarrow> Inr (Checked fresh, w)
   | _ \<Rightarrow> Inr (probe_step pid c w))"

section \<open>The gate and admission\<close>

definition gate_try_acquire :: "nat \<Rightarrow> drain_world \<Rightarrow> bool \<times> drain_world" where
  "gate_try_acquire pid w = (if dw_gate w = Some pid then (True, w)
     else if dw_gate w \<noteq> None then (False, w) else (True, w\<lparr>dw_gate := Some pid\<rparr>))"

definition gate_release :: "nat \<Rightarrow> drain_world \<Rightarrow> drain_world" where
  "gate_release pid w = (if dw_gate w = Some pid then w\<lparr>dw_gate := None\<rparr> else w)"

text \<open>The callbacks \<open>try_store_locks\<close> and \<open>release_store_locks\<close>: the store's lock domain as one non-blocking lock.\<close>

definition try_store_locks :: "nat \<Rightarrow> drain_world \<Rightarrow> bool \<times> drain_world" where
  "try_store_locks pid w = (if dw_store w = None then (True, w\<lparr>dw_store := Some pid\<rparr>) else (False, w))"

definition release_store_locks :: "nat \<Rightarrow> drain_world \<Rightarrow> drain_world" where
  "release_store_locks pid w = (if dw_store w = Some pid then w\<lparr>dw_store := None\<rparr> else w)"

text \<open>Where a process stands in \<open>admit\<close> and \<open>finish\<close>: in one of the three checks, before taking the gate or the
  store locks, admitted, or about to release the gate.\<close>

datatype check_point = Before_Gate | After_Gate | After_Store

datatype stage = Idle | Checking check_point check | BeforeGate | BeforeStore | Admitted | Finishing

text \<open>What \<open>admit\<close> does with the outcome of a check.\<close>

definition conclude :: "nat \<Rightarrow> check_point \<Rightarrow> string list \<Rightarrow> drain_world \<Rightarrow> stage \<times> drain_world" where
  "conclude pid pt fresh w = (case pt of
     Before_Gate \<Rightarrow> (if fresh \<noteq> [] then Idle else BeforeGate, w)
   | After_Gate \<Rightarrow> if fresh \<noteq> [] then (Idle, gate_release pid w) else (BeforeStore, w)
   | After_Store \<Rightarrow> if fresh \<noteq> [] then (Finishing, release_store_locks pid w) else (Admitted, w))"

text \<open>The next step of a process: the stage it reaches and the world it leaves; a check that raises leaves the process
  where it stands, with the locks it holds, until it exits.\<close>

definition admit_step :: "number_reader \<Rightarrow> nat \<Rightarrow> stage \<Rightarrow> drain_world \<Rightarrow> drain_error + (stage \<times> drain_world)" where
  "admit_step nr pid st w = (case st of
     Idle \<Rightarrow> Inr (Checking Before_Gate Listing, w)
   | Checking pt c \<Rightarrow> (case c of Checked fresh \<Rightarrow> Inr (conclude pid pt fresh w)
       | _ \<Rightarrow> rbind (check_step nr pid c w) (\<lambda>(c', w'). Inr (Checking pt c', w')))
   | BeforeGate \<Rightarrow> (case gate_try_acquire pid w of (got, w') \<Rightarrow>
       Inr (if \<not> got then Idle else Checking After_Gate Listing, w'))
   | BeforeStore \<Rightarrow> (case try_store_locks pid w of (got, w') \<Rightarrow>
       if \<not> got then Inr (Idle, gate_release pid w') else Inr (Checking After_Store Listing, w'))
   | Admitted \<Rightarrow> Inr (Finishing, release_store_locks pid w)
   | Finishing \<Rightarrow> Inr (Idle, gate_release pid w))"

text \<open>
  A system: every process's stage and the world. A step is a step of one process, the exit of a process with its
  locks, a hook that writes a temporary file under an id of its own or renames it, a transition of the waiter (a
  registration is also refused by a probe that holds the file), another user taking or leaving the store locks, or
  the passing of time; the wall clock may jump.
\<close>

record drain_system =
  ds_stage :: "nat \<Rightarrow> stage"
  ds_world :: drain_world

definition exit_locks :: "nat \<Rightarrow> drain_world \<Rightarrow> drain_world" where
  "exit_locks pid w = (let w1 = gate_release pid (release_store_locks pid w) in
     if dw_waiter_lock w1 = Some pid then w1\<lparr>dw_waiter_lock := None\<rparr> else w1)"

inductive drain_step :: "number_reader \<Rightarrow> drain_system \<Rightarrow> drain_system \<Rightarrow> bool" for nr where
  process: "admit_step nr pid (ds_stage s pid) (ds_world s) = Inr (st, w) \<Longrightarrow>
     drain_step nr s \<lparr>ds_stage = (ds_stage s)(pid := st), ds_world = w\<rparr>"
| exits: "drain_step nr s \<lparr>ds_stage = (ds_stage s)(pid := Idle), ds_world = exit_locks pid (ds_world s)\<rparr>"
| begins: "begin_request pid uuid roots stamp (ds_world s) = (request_id, w) \<Longrightarrow> stamp \<le> dw_mono (ds_world s) \<Longrightarrow>
     (case dw_requests (ds_world s) of None \<Rightarrow> True
      | Some d \<Rightarrow> dget d (tmp_name request_id) = None \<and> dget d (request_name request_id) = None) \<Longrightarrow>
     drain_step nr s (s\<lparr>ds_world := w\<rparr>)"
| renames: "rename_request request_id (ds_world s) = Some w \<Longrightarrow> drain_step nr s (s\<lparr>ds_world := w\<rparr>)"
| refused: "drain_step nr s (s\<lparr>ds_world := (case dw_waiter (ds_world s) of None \<Rightarrow> (ds_world s)\<lparr>dw_waiter := Some []\<rparr> | Some _ \<Rightarrow> ds_world s)\<rparr>)"
| register: "drain_step nr s (s\<lparr>ds_world := snd (waiter_register pid deadline (ds_world s))\<rparr>)"
| mark: "drain_step nr s (s\<lparr>ds_world := waiter_mark_holding pid (ds_world s)\<rparr>)"
| release: "drain_step nr s (s\<lparr>ds_world := waiter_release pid (ds_world s)\<rparr>)"
| store_taken: "ds_stage s pid = Idle \<Longrightarrow> drain_step nr s (s\<lparr>ds_world := snd (try_store_locks pid (ds_world s))\<rparr>)"
| store_left: "ds_stage s pid = Idle \<Longrightarrow> drain_step nr s (s\<lparr>ds_world := release_store_locks pid (ds_world s)\<rparr>)"
| passes: "dw_mono (ds_world s) \<le> stamp \<Longrightarrow>
     drain_step nr s (s\<lparr>ds_world := (ds_world s)\<lparr>dw_mono := stamp, dw_wall := wall\<rparr>\<rparr>)"

section \<open>Locks\<close>

definition holds_gate :: "stage \<Rightarrow> bool" where
  "holds_gate st \<longleftrightarrow> (case st of Checking pt _ \<Rightarrow> pt \<noteq> Before_Gate | _ \<Rightarrow> st \<in> {BeforeStore, Admitted, Finishing})"

definition holds_store :: "stage \<Rightarrow> bool" where
  "holds_store st \<longleftrightarrow> (case st of Checking pt _ \<Rightarrow> pt = After_Store | _ \<Rightarrow> st = Admitted)"

definition locks_ok :: "drain_system \<Rightarrow> bool" where
  "locks_ok s \<longleftrightarrow> (\<forall>p. holds_gate (ds_stage s p) \<longleftrightarrow> dw_gate (ds_world s) = Some p)
     \<and> (\<forall>p. holds_store (ds_stage s p) \<longrightarrow> dw_store (ds_world s) = Some p)"

lemmas stage_locks = holds_gate_def holds_store_def

lemma fresh_requests_frame:
  assumes "fresh_requests nr pid w = Inr (fresh, w')"
  shows "dw_gate w' = dw_gate w" and "dw_store w' = dw_store w" and "dw_mono w' = dw_mono w" and "dw_wall w' = dw_wall w"
    and "dw_waiter w' = dw_waiter w" and "dw_waiter_lock w' = dw_waiter_lock w"
  using assms
  by (auto simp: fresh_requests_def fresh_codex_requests_def claude_waiter_fresh_def rbind_Inr_iff split: option.splits if_splits)

lemma check_step_frame:
  assumes "check_step nr pid c w = Inr (c', w')"
  shows "dw_gate w' = dw_gate w" and "dw_store w' = dw_store w" and "dw_mono w' = dw_mono w" and "dw_wall w' = dw_wall w"
    and "dw_waiter w' = dw_waiter w" and "dw_waiter_lock w' = dw_waiter_lock w"
  using assms by (auto simp: check_step_def probe_step_def rbind_Inr_iff split: check.splits list.splits if_splits)

text \<open>A step inside a check keeps the process in it.\<close>

lemma checking_step:
  assumes "admit_step nr pid (Checking pt c) w = Inr (st, w1)"
  shows "(\<exists>c'. check_step nr pid c w = Inr (c', w1) \<and> st = Checking pt c') \<or> (\<exists>fresh. c = Checked fresh \<and> (st, w1) = conclude pid pt fresh w)"
  using assms by (cases c) (auto simp: admit_step_def rbind_Inr_iff)

text \<open>What a step of a process does to the two locks, by the stages it leaves and reaches.\<close>

definition freed :: "nat \<Rightarrow> nat option \<Rightarrow> nat option" where
  "freed pid l = (if l = Some pid then None else l)"

definition lock_effect :: "nat \<Rightarrow> stage \<Rightarrow> stage \<Rightarrow> nat option \<times> nat option \<Rightarrow> nat option \<times> nat option \<Rightarrow> bool" where
  "lock_effect pid st0 st l l' \<longleftrightarrow>
     (if holds_gate st0 = holds_gate st then fst l' = fst l
      else if holds_gate st then fst l \<in> {None, Some pid} \<and> fst l' = Some pid else fst l' = freed pid (fst l))
   \<and> (if holds_store st0 = holds_store st then snd l' = snd l
      else if holds_store st then snd l = None \<and> snd l' = Some pid else snd l' = freed pid (snd l))"

definition locks_of :: "drain_world \<Rightarrow> nat option \<times> nat option" where
  "locks_of w = (dw_gate w, dw_store w)"

lemma locks_of_release:
  "locks_of (gate_release pid w) = (freed pid (dw_gate w), dw_store w)"
  "locks_of (release_store_locks pid w) = (dw_gate w, freed pid (dw_store w))"
  "fst (locks_of w) = dw_gate w" "snd (locks_of w) = dw_store w"
  "dw_gate (gate_release pid w) = freed pid (dw_gate w)" "dw_store (gate_release pid w) = dw_store w"
  "dw_gate (release_store_locks pid w) = dw_gate w" "dw_store (release_store_locks pid w) = freed pid (dw_store w)"
  by (simp_all add: locks_of_def gate_release_def release_store_locks_def freed_def)

lemma admit_step_effect:
  assumes "admit_step nr pid st0 w = Inr (st, w1)" and "st0 = BeforeGate \<longrightarrow> dw_gate w \<noteq> Some pid"
  shows "lock_effect pid st0 st (locks_of w) (locks_of w1)"
proof (cases st0)
  case (Checking pt c)
  consider c' where "check_step nr pid c w = Inr (c', w1)" "st = Checking pt c'" | fresh where "(st, w1) = conclude pid pt fresh w"
    using checking_step [of nr pid pt c w st w1] assms(1) Checking by blast
  then show ?thesis
  proof cases
    case 1
    then show ?thesis using check_step_frame(1,2) [OF 1(1)] Checking by (simp add: lock_effect_def stage_locks locks_of_def)
  next
    case 2
    then show ?thesis using Checking
      by (cases pt) (auto simp: conclude_def lock_effect_def stage_locks locks_of_release split: if_splits)
  qed
next
  case BeforeGate
  then show ?thesis using assms
    by (auto simp: admit_step_def gate_try_acquire_def lock_effect_def stage_locks locks_of_def split: if_splits)
next
  case BeforeStore
  then show ?thesis using assms
    by (auto simp: admit_step_def try_store_locks_def lock_effect_def stage_locks locks_of_release split: if_splits)
qed (use assms in \<open>auto simp: admit_step_def lock_effect_def stage_locks locks_of_release\<close>)

lemma lock_effect_ok:
  assumes e: "lock_effect pid st0 st l l'"
    and own: "holds_gate st0 \<longleftrightarrow> fst l = Some pid" "holds_store st0 \<longrightarrow> snd l = Some pid"
  shows "(holds_gate st \<longleftrightarrow> fst l' = Some pid) \<and> (holds_store st \<longrightarrow> snd l' = Some pid)"
    and "p \<noteq> pid \<Longrightarrow> (fst l' = Some p \<longleftrightarrow> fst l = Some p) \<and> (snd l = Some p \<longrightarrow> snd l' = Some p)"
  using assms unfolding lock_effect_def by (auto simp: freed_def split: if_splits)

lemma admit_step_locks:
  assumes st: "admit_step nr pid (ds_stage s pid) (ds_world s) = Inr (st, w)" and ok: "locks_ok s"
  shows "locks_ok \<lparr>ds_stage = (ds_stage s)(pid := st), ds_world = w\<rparr>"
proof -
  have own: "holds_gate (ds_stage s p) \<longleftrightarrow> fst (locks_of (ds_world s)) = Some p"
    "holds_store (ds_stage s p) \<longrightarrow> snd (locks_of (ds_world s)) = Some p" for p
    using ok by (simp_all add: locks_ok_def locks_of_def)
  have "ds_stage s pid = BeforeGate \<longrightarrow> dw_gate (ds_world s) \<noteq> Some pid" using own(1) [of pid] by (auto simp: stage_locks locks_of_def)
  note e = admit_step_effect [OF st this]
  show ?thesis
    unfolding locks_ok_def drain_system.simps
    using lock_effect_ok [OF e own(1) own(2)] own by (auto simp: locks_of_def)
qed

lemma drain_step_locks: "drain_step nr s t \<Longrightarrow> locks_ok s \<Longrightarrow> locks_ok t"
proof (induction rule: drain_step.induct)
  case (process pid s st w)
  then show ?case by (rule admit_step_locks)
next
  case (exits s pid)
  then show ?case
    by (auto simp: locks_ok_def exit_locks_def Let_def gate_release_def release_store_locks_def stage_locks split: if_splits)
next
  case (begins pid uuid roots stamp s request_id w)
  then show ?case by (auto simp: locks_ok_def begin_request_def Let_def)
next
  case (renames request_id s w)
  then show ?case by (auto simp: locks_ok_def rename_request_def split: option.splits)
next
  case (refused s)
  then show ?case by (auto simp: locks_ok_def split: option.splits)
next
  case (register s pid deadline)
  then show ?case by (auto simp: locks_ok_def waiter_register_def Let_def split: option.splits)
next
  case (mark s pid)
  then show ?case by (auto simp: locks_ok_def waiter_mark_holding_def)
next
  case (release s pid)
  then show ?case by (auto simp: locks_ok_def waiter_release_def)
next
  case (store_taken s pid)
  then show ?case by (auto simp: locks_ok_def try_store_locks_def)
next
  case (store_left s pid)
  then show ?case by (auto simp: locks_ok_def release_store_locks_def stage_locks)
next
  case (passes s stamp wall)
  then show ?case by (simp add: locks_ok_def)
qed

definition start_of :: "drain_world \<Rightarrow> drain_system" where
  "start_of w = \<lparr>ds_stage = (\<lambda>_. Idle), ds_world = w\<rparr>"

definition drain_run :: "number_reader \<Rightarrow> drain_system \<Rightarrow> drain_system \<Rightarrow> bool" where
  "drain_run nr = (drain_step nr)\<^sup>*\<^sup>*"

lemma drain_run_locks: "drain_run nr s t \<Longrightarrow> locks_ok s \<Longrightarrow> locks_ok t"
  unfolding drain_run_def by (induction rule: rtranclp_induct) (auto intro: drain_step_locks)

text \<open>C25: from a world whose gate is free, whatever processes, hooks, exits and clocks do in between, at most one
  process holds the gate, an admitted process holds the gate and the store locks, and a process back at the
  start holds no gate: every refusal and every exit releases it.\<close>

theorem admission_is_exclusive:
  assumes "dw_gate w = None" and "drain_run nr (start_of w) s"
  shows "(holds_gate (ds_stage s p) \<longrightarrow> holds_gate (ds_stage s q) \<longrightarrow> p = q)
    \<and> (ds_stage s p = Admitted \<longrightarrow> dw_gate (ds_world s) = Some p \<and> dw_store (ds_world s) = Some p)
    \<and> (ds_stage s p = Idle \<longrightarrow> dw_gate (ds_world s) \<noteq> Some p)"
proof -
  have "locks_ok (start_of w)" using assms(1) by (simp add: locks_ok_def start_of_def stage_locks)
  then have "locks_ok s" by (rule drain_run_locks [OF assms(2)])
  then have g: "holds_gate (ds_stage s p) \<longleftrightarrow> dw_gate (ds_world s) = Some p"
    and t: "holds_store (ds_stage s p) \<Longrightarrow> dw_store (ds_world s) = Some p" for p
    unfolding locks_ok_def by simp_all
  have "\<not> holds_gate Idle" "holds_gate Admitted" "holds_store Admitted" by (simp_all add: stage_locks)
  then show ?thesis using g [of p] g [of q] t [of p] by auto
qed

section \<open>A check in isolation\<close>

text \<open>Without interference the steps of a check do what \<open>fresh_requests\<close> does, exceptions included.\<close>

definition checks_to :: "number_reader \<Rightarrow> nat \<Rightarrow> check \<times> drain_world \<Rightarrow> check \<times> drain_world \<Rightarrow> bool" where
  "checks_to nr pid = (\<lambda>(c, w) (c', w'). check_step nr pid c w = Inr (c', w'))\<^sup>*\<^sup>*"

lemma checks_to_step:
  "check_step nr pid c w = Inr (c1, w1) \<Longrightarrow> checks_to nr pid (c1, w1) x \<Longrightarrow> checks_to nr pid (c, w) x"
  unfolding checks_to_def by (rule converse_rtranclp_into_rtranclp) simp_all

lemma checks_to_refl: "checks_to nr pid x x"
  by (simp add: checks_to_def)

lemma sort_keys: "map fst (sort_key fst xs) = sort (map fst xs)"
proof -
  have "sorted (map fst (sort_key fst xs))" by simp
  moreover have "mset (map fst (sort_key fst xs)) = mset (map fst xs)" by (metis mset_map mset_sort)
  ultimately show ?thesis by (metis properties_for_sort)
qed

text \<open>One file of the scan.\<close>

lemma scan_file_step:
  fixes w :: drain_world
  assumes there: "dget entries (fst x) = Some (snd x)"
  shows "case scan_request nr m v (fresh, entries) x of
      Inl e \<Rightarrow> check_step nr pid (Scanning m v (map fst (x # xs)) fresh) (w\<lparr>dw_requests := Some entries\<rparr>) = Inl e
    | Inr (f1, e1) \<Rightarrow> checks_to nr pid (Scanning m v (map fst (x # xs)) fresh, w\<lparr>dw_requests := Some entries\<rparr>)
          (Scanning m v (map fst xs) f1, w\<lparr>dw_requests := Some e1\<rparr>)
        \<and> (e1 = entries \<or> e1 = dwithout [fst x] entries)"
proof -
  obtain name rf where x: "x = (name, rf)" by (metis surj_pair)
  let ?w = "\<lambda>e. w\<lparr>dw_requests := Some e\<rparr>"
  let ?c = "Scanning m v (map fst (x # xs)) fresh"
  have judge: "check_step nr pid ?c (?w entries) = rbind (judge_file nr m v name (map fst xs) fresh (Some rf)) (\<lambda>c'. Inr (c', ?w entries))"
    by (use there in \<open>simp add: check_step_def probe_step_def x\<close>)
  let ?j = "judge_file nr m v name (map fst xs) fresh (Some rf)" and ?s = "scan_request nr m v (fresh, entries) x"
  have "(\<exists>e. ?j = Inl e \<and> ?s = Inl e) \<or> (\<exists>f1. ?j = Inr (Scanning m v (map fst xs) f1) \<and> ?s = Inr (f1, entries))
      \<or> (?j = Inr (Removing m v name (map fst xs) fresh) \<and> ?s = Inr (fresh, dwithout [name] entries))"
    by (cases "is_fresh nr rf m v") (auto simp: judge_file_def scan_request_def x)
  then consider (fails) e where "?j = Inl e" "?s = Inl e" | (keep) f1 where "?j = Inr (Scanning m v (map fst xs) f1)" "?s = Inr (f1, entries)"
    | (remove) "?j = Inr (Removing m v name (map fst xs) fresh)" "?s = Inr (fresh, dwithout [name] entries)" by blast
  then show ?thesis
  proof cases
    case fails
    then show ?thesis using judge by simp
  next
    case keep
    have "check_step nr pid ?c (?w entries) = Inr (Scanning m v (map fst xs) f1, ?w entries)" using judge keep(1) by simp
    from checks_to_step [OF this checks_to_refl] show ?thesis using keep(2) by simp
  next
    case remove
    have 1: "check_step nr pid ?c (?w entries) = Inr (Removing m v name (map fst xs) fresh, ?w entries)" using judge remove(1) by simp
    have 2: "check_step nr pid (Removing m v name (map fst xs) fresh) (?w entries) = Inr (Scanning m v (map fst xs) fresh, ?w (dwithout [name] entries))"
      by (simp add: check_step_def probe_step_def)
    from checks_to_step [OF 1 checks_to_step [OF 2 checks_to_refl]] show ?thesis using remove(2) x by simp
  qed
qed

lemma others_kept:
  assumes "wf_dict entries" and "distinct (map fst (x # xs))" and "\<forall>y \<in> set (x # xs). dget entries (fst y) = Some (snd y)"
    and "e1 = entries \<or> e1 = dwithout [fst x] entries"
  shows "wf_dict e1" and "\<forall>y \<in> set xs. dget e1 (fst y) = Some (snd y)"
proof -
  show "wf_dict e1" using assms(1,4) by auto
  have "fst y \<noteq> fst x" if "y \<in> set xs" for y using assms(2) that by (metis distinct.simps(2) imageI list.set_map list.simps(9))
  then show "\<forall>y \<in> set xs. dget e1 (fst y) = Some (snd y)" using assms(3,4) by (auto simp: dget_dwithout)
qed

lemma scan_runs:
  fixes w :: drain_world
  assumes "wf_dict entries" and "distinct (map fst xs)" and "\<forall>x \<in> set xs. dget entries (fst x) = Some (snd x)"
  shows "rfold (scan_request nr m v) (fresh, entries) xs = Inr (fresh', entries') \<Longrightarrow>
      checks_to nr pid (Scanning m v (map fst xs) fresh, w\<lparr>dw_requests := Some entries\<rparr>) (Scanning m v [] fresh', w\<lparr>dw_requests := Some entries'\<rparr>)"
    and "rfold (scan_request nr m v) (fresh, entries) xs = Inl e \<Longrightarrow>
      \<exists>c w'. checks_to nr pid (Scanning m v (map fst xs) fresh, w\<lparr>dw_requests := Some entries\<rparr>) (c, w') \<and> check_step nr pid c w' = Inl e"
  using assms
proof (induction xs arbitrary: fresh entries)
  case Nil
  { case 1 then show ?case by (simp add: checks_to_refl) }
  { case 2 then show ?case by simp }
next
  case (Cons x xs)
  { case 1
    obtain f1 e1 where s1: "scan_request nr m v (fresh, entries) x = Inr (f1, e1)"
      "rfold (scan_request nr m v) (f1, e1) xs = Inr (fresh', entries')" using 1(1) by (auto simp: rbind_Inr_iff)
    have e1: "e1 = entries \<or> e1 = dwithout [fst x] entries"
      and go: "checks_to nr pid (Scanning m v (map fst (x # xs)) fresh, w\<lparr>dw_requests := Some entries\<rparr>) (Scanning m v (map fst xs) f1, w\<lparr>dw_requests := Some e1\<rparr>)"
      using scan_file_step [where w = w and pid = pid and xs = xs and nr = nr and m = m and v = v and fresh = fresh and entries = entries and x = x] 1(4) s1(1) by auto
    note kept = others_kept [OF 1(2-4) e1]
    have "distinct (map fst xs)" using 1(3) by simp
    then have "checks_to nr pid (Scanning m v (map fst xs) f1, w\<lparr>dw_requests := Some e1\<rparr>) (Scanning m v [] fresh', w\<lparr>dw_requests := Some entries'\<rparr>)"
      using Cons.IH(1) [OF s1(2) kept(1) _ kept(2)] by simp
    then show ?case using go unfolding checks_to_def by (rule rtranclp_trans [rotated]) }
  { case 2
    show ?case
    proof (cases "scan_request nr m v (fresh, entries) x")
      case (Inl e')
      then have "check_step nr pid (Scanning m v (map fst (x # xs)) fresh) (w\<lparr>dw_requests := Some entries\<rparr>) = Inl e"
        using scan_file_step [where w = w and pid = pid and xs = xs and nr = nr and m = m and v = v and fresh = fresh and entries = entries and x = x] 2(4) 2(1) by simp
      then show ?thesis using checks_to_refl by blast
    next
      case (Inr st)
      then obtain f1 e1 where s1: "scan_request nr m v (fresh, entries) x = Inr (f1, e1)" by (metis surj_pair)
      then have fold: "rfold (scan_request nr m v) (f1, e1) xs = Inl e" using 2(1) by simp
      have e1: "e1 = entries \<or> e1 = dwithout [fst x] entries"
        and go: "checks_to nr pid (Scanning m v (map fst (x # xs)) fresh, w\<lparr>dw_requests := Some entries\<rparr>) (Scanning m v (map fst xs) f1, w\<lparr>dw_requests := Some e1\<rparr>)"
        using scan_file_step [where w = w and pid = pid and xs = xs and nr = nr and m = m and v = v and fresh = fresh and entries = entries and x = x] 2(4) s1 by auto
      note kept = others_kept [OF 2(2-4) e1]
      have "distinct (map fst xs)" using 2(3) by simp
      then obtain c w' where "checks_to nr pid (Scanning m v (map fst xs) f1, w\<lparr>dw_requests := Some e1\<rparr>) (c, w')" "check_step nr pid c w' = Inl e"
        using Cons.IH(2) [OF fold kept(1) _ kept(2)] by auto
      then show ?thesis using go unfolding checks_to_def by (meson rtranclp_trans)
    qed }
qed

text \<open>The probe, from the end of the scan.\<close>

lemma probe_runs:
  assumes "claude_waiter_fresh pid w = (is, w')"
  shows "checks_to nr pid (Probing fresh, w) (Checked (if is then fresh @ [CLAUDE_WAITER_SENTINEL] else fresh), w')"
proof (cases "dw_waiter w = None \<or> dw_waiter_lock w = None")
  case True
  then have "check_step nr pid (Probing fresh) w = Inr (Checked fresh, w)" by (simp add: check_step_def probe_step_def)
  then show ?thesis using True assms
    by (auto simp: claude_waiter_fresh_def waiter_fresh_now_def intro!: checks_to_step [OF _ checks_to_refl] split: option.splits)
next
  case False
  then obtain content pid' where c: "dw_waiter w = Some content" "dw_waiter_lock w = Some pid'" by auto
  have 1: "check_step nr pid (Probing fresh) w = Inr (Reading fresh, w)" using c by (simp add: check_step_def probe_step_def)
  show ?thesis
  proof (cases "parse_waiter_expiry (take WAITER_RECORD_MAX content)")
    case None
    then have "check_step nr pid (Reading fresh) w = Inr (Checked fresh, w)" using c by (simp add: check_step_def probe_step_def)
    from checks_to_step [OF 1 checks_to_step [OF this checks_to_refl]] show ?thesis
      using None c assms by (auto simp: claude_waiter_fresh_def waiter_fresh_now_def)
  next
    case (Some expiry)
    then have 2: "check_step nr pid (Reading fresh) w = Inr (Judging fresh expiry, w)" using c by (simp add: check_step_def probe_step_def)
    have "check_step nr pid (Judging fresh expiry) w = Inr (Checked (if is then fresh @ [CLAUDE_WAITER_SENTINEL] else fresh), w')"
      using assms Some c by (auto simp: check_step_def probe_step_def claude_waiter_fresh_def waiter_fresh_now_def split: if_splits)
    then show ?thesis by (intro checks_to_step [OF 1] checks_to_step [OF 2] checks_to_step [OF _ checks_to_refl])
  qed
qed

lemma listing_runs:
  assumes "dw_requests w = Some entries"
  shows "checks_to nr pid (Listing, w) (Scanning (dw_mono w) (dw_wall w) (map fst (sort_key fst entries)) [], w)"
proof -
  let ?names = "map fst (sort_key fst entries)"
  have 1: "check_step nr pid Listing w = Inr (MonoClock ?names, w)" using assms by (simp add: check_step_def probe_step_def sort_keys)
  have 2: "check_step nr pid (MonoClock ?names) w = Inr (WallClock ?names (dw_mono w), w)" by (simp add: check_step_def probe_step_def)
  have 3: "check_step nr pid (WallClock ?names (dw_mono w)) w = Inr (Scanning (dw_mono w) (dw_wall w) ?names [], w)" by (simp add: check_step_def probe_step_def)
  show ?thesis by (rule checks_to_step [OF 1 checks_to_step [OF 2 checks_to_step [OF 3 checks_to_refl]]])
qed

theorem check_runs:
  assumes "\<And>entries. dw_requests w = Some entries \<Longrightarrow> wf_dict entries"
  shows "fresh_requests nr pid w = Inr (fresh, w') \<Longrightarrow> checks_to nr pid (Listing, w) (Checked fresh, w')"
    and "fresh_requests nr pid w = Inl e \<Longrightarrow> \<exists>c w'. checks_to nr pid (Listing, w) (c, w') \<and> check_step nr pid c w' = Inl e"
proof -
  show "checks_to nr pid (Listing, w) (Checked fresh, w')" if run: "fresh_requests nr pid w = Inr (fresh, w')"
  proof (cases "dw_requests w")
    case None
    have "check_step nr pid Listing w = Inr (Probing [], w)" using None by (simp add: check_step_def probe_step_def)
    moreover obtain fresh_now w2 where probe: "claude_waiter_fresh pid w = (fresh_now, w2)" by (metis surj_pair)
    have "fresh = (if fresh_now then [] @ [CLAUDE_WAITER_SENTINEL] else [])" "w' = w2"
      using run None probe by (auto simp: fresh_requests_def fresh_codex_requests_def)
    ultimately show ?thesis using checks_to_step probe_runs [OF probe, of nr "[]"] by simp
  next
    case (Some entries)
    let ?xs = "sort_key fst entries"
    obtain codex entries' where fold: "rfold (scan_request nr (dw_mono w) (dw_wall w)) ([], entries) ?xs = Inr (codex, entries')"
      and rest: "(case claude_waiter_fresh pid (w\<lparr>dw_requests := Some entries'\<rparr>) of (is, w2) \<Rightarrow>
        Inr (if is then codex @ [CLAUDE_WAITER_SENTINEL] else codex, w2)) = (Inr (fresh, w') :: drain_error + _)"
      using run Some by (auto simp: fresh_requests_def fresh_codex_requests_def rbind_Inr_iff)
    obtain fresh_now w2 where probe: "claude_waiter_fresh pid (w\<lparr>dw_requests := Some entries'\<rparr>) = (fresh_now, w2)" by (metis surj_pair)
    have fresh: "fresh = (if fresh_now then codex @ [CLAUDE_WAITER_SENTINEL] else codex)" "w' = w2" using rest probe by simp_all
    have wf: "wf_dict entries" by (rule assms [OF Some])
    have "distinct (map fst ?xs)" unfolding sort_keys using wf by (simp add: wf_dict_def)
    moreover have "\<forall>x \<in> set ?xs. dget entries (fst x) = Some (snd x)" using dget_wf_iff [OF wf] by simp
    ultimately have scan: "checks_to nr pid (Scanning (dw_mono w) (dw_wall w) (map fst ?xs) [], w\<lparr>dw_requests := Some entries\<rparr>)
        (Scanning (dw_mono w) (dw_wall w) [] codex, w\<lparr>dw_requests := Some entries'\<rparr>)" using scan_runs(1) [OF wf _ _ fold] by blast
    have same: "w\<lparr>dw_requests := Some entries\<rparr> = w" using Some by simp
    have "checks_to nr pid (Listing, w) (Scanning (dw_mono w) (dw_wall w) (map fst ?xs) [], w)"
      by (rule listing_runs [OF Some])
    moreover have "checks_to nr pid (Scanning (dw_mono w) (dw_wall w) [] codex, w\<lparr>dw_requests := Some entries'\<rparr>) (Checked fresh, w')"
    proof -
      have "check_step nr pid (Scanning (dw_mono w) (dw_wall w) [] codex) (w\<lparr>dw_requests := Some entries'\<rparr>)
          = Inr (Probing codex, w\<lparr>dw_requests := Some entries'\<rparr>)" by (simp add: check_step_def probe_step_def)
      from checks_to_step [OF this probe_runs [OF probe]] show ?thesis using fresh by simp
    qed
    ultimately show ?thesis using scan unfolding same checks_to_def by (meson rtranclp_trans)
  qed
  show "\<exists>c w'. checks_to nr pid (Listing, w) (c, w') \<and> check_step nr pid c w' = Inl e" if run: "fresh_requests nr pid w = Inl e"
  proof -
    obtain entries where Some: "dw_requests w = Some entries"
      and fold: "rfold (scan_request nr (dw_mono w) (dw_wall w)) ([], entries) (sort_key fst entries) = Inl e"
      using run by (auto simp: fresh_requests_def fresh_codex_requests_def rbind_Inl_iff split: option.splits prod.splits)
    let ?xs = "sort_key fst entries"
    have wf: "wf_dict entries" by (rule assms [OF Some])
    have "distinct (map fst ?xs)" unfolding sort_keys using wf by (simp add: wf_dict_def)
    moreover have "\<forall>x \<in> set ?xs. dget entries (fst x) = Some (snd x)" using dget_wf_iff [OF wf] by simp
    moreover have same: "w\<lparr>dw_requests := Some entries\<rparr> = w" using Some by simp
    ultimately obtain c w' where scan: "checks_to nr pid (Scanning (dw_mono w) (dw_wall w) (map fst ?xs) [], w) (c, w')" "check_step nr pid c w' = Inl e"
      using scan_runs(2) [OF wf _ _ fold, of pid w] by metis
    have "checks_to nr pid (Listing, w) (Scanning (dw_mono w) (dw_wall w) (map fst ?xs) [], w)"
      by (rule listing_runs [OF Some])
    then show ?thesis using scan unfolding checks_to_def by (meson rtranclp_trans)
  qed
qed

section \<open>A request holds off admission\<close>

definition is_request :: "string \<Rightarrow> bool" where
  "is_request name \<longleftrightarrow> \<not> starts_with ''.tmp-'' name \<and> starts_with ''req-'' name \<and> ends_with ''.json'' name"

lemma starts_with_append [simp]: "starts_with p (p @ s)"
  by (simp add: starts_with_def)

lemma ends_with_append [simp]: "ends_with p (s @ p)"
  by (simp add: ends_with_def)

lemma is_request_name: "is_request (request_name i)"
proof -
  have "starts_with ''req-'' (request_name i)" by (simp add: request_name_def starts_with_def)
  moreover have "ends_with ''.json'' (request_name i)" using ends_with_append [of "''.json''" "''req-'' @ i"] by (simp add: request_name_def)
  moreover have "\<not> starts_with ''.tmp-'' (request_name i)" by (simp add: request_name_def starts_with_def)
  ultimately show ?thesis by (simp add: is_request_def)
qed

lemma request_id_name: "request_id_of (request_name i) = i"
  by (simp add: request_id_of_def request_name_def)

lemma names_apart [simp]: "request_name i \<noteq> tmp_name j" "tmp_name j \<noteq> request_name i"
    "request_name i = request_name j \<longleftrightarrow> i = j" "tmp_name i = tmp_name j \<longleftrightarrow> i = j"
  by (auto simp: request_name_def tmp_name_def)

lemma published_fresh:
  "is_fresh nr \<lparr>rf_content = Some (request_record i roots m), rf_mtime = v\<rparr> now_mono now_wall
     = Inr (m \<le> now_mono \<and> now_mono < m + REQUEST_TTL_NS \<and> now_wall < v + WALL_GUARD)"
  by (auto simp: is_fresh_def request_record_def to_int_def equals_int_def)

lemma wf_dict_single: "wf_dict [e]"
  by (simp add: wf_dict_def)

lemma lock_frames:
  "dw_requests (gate_release pid w) = dw_requests w" "dw_mono (gate_release pid w) = dw_mono w" "dw_wall (gate_release pid w) = dw_wall w"
  "dw_requests (release_store_locks pid w) = dw_requests w" "dw_mono (release_store_locks pid w) = dw_mono w"
  "dw_wall (release_store_locks pid w) = dw_wall w"
  "dw_requests (exit_locks pid w) = dw_requests w" "dw_mono (exit_locks pid w) = dw_mono w" "dw_wall (exit_locks pid w) = dw_wall w"
  by (simp_all add: gate_release_def release_store_locks_def exit_locks_def Let_def)

text \<open>The names a check still has to look at, and the ids it found; a check that listed the directory without the
  name and found nothing will not see the request.\<close>

definition pending :: "check \<Rightarrow> string list" where
  "pending c = (case c of MonoClock names \<Rightarrow> names | WallClock names _ \<Rightarrow> names | Scanning _ _ names _ \<Rightarrow> names
     | Removing _ _ name names _ \<Rightarrow> name # names | _ \<Rightarrow> [])"

definition found :: "check \<Rightarrow> string list" where
  "found c = (case c of Scanning _ _ _ fresh \<Rightarrow> fresh | Removing _ _ _ _ fresh \<Rightarrow> fresh | Probing fresh \<Rightarrow> fresh
     | Reading fresh \<Rightarrow> fresh | Judging fresh _ \<Rightarrow> fresh | Checked fresh \<Rightarrow> fresh | _ \<Rightarrow> [])"

definition stage_pending :: "stage \<Rightarrow> string list" where
  "stage_pending st = (case st of Checking _ c \<Rightarrow> pending c | _ \<Rightarrow> [])"

definition overlooks :: "string \<Rightarrow> check \<Rightarrow> bool" where
  "overlooks name c \<longleftrightarrow> c \<noteq> Listing \<and> name \<notin> set (pending c) \<and> found c = []"

definition blind :: "string \<Rightarrow> stage \<Rightarrow> bool" where
  "blind name st \<longleftrightarrow> (case st of Checking After_Store c \<Rightarrow> overlooks name c | _ \<Rightarrow> False)"

text \<open>The request file is in the directory and its id is not being published again.\<close>

definition shown :: "string \<Rightarrow> string list \<Rightarrow> int \<Rightarrow> int \<Rightarrow> drain_world \<Rightarrow> bool" where
  "shown i roots stamp written w \<longleftrightarrow> (\<exists>entries. dw_requests w = Some entries \<and> wf_dict entries \<and> dget entries (tmp_name i) = None
     \<and> dget entries (request_name i) = Some \<lparr>rf_content = Some (request_record i roots stamp), rf_mtime = written\<rparr>)"

text \<open>A check with the name before it has read the clocks within the request's lifetime, and is not about to unlink it.\<close>

definition timely :: "string \<Rightarrow> int \<Rightarrow> int \<Rightarrow> check \<Rightarrow> bool" where
  "timely name stamp written c \<longleftrightarrow> (case c of
     WallClock names m \<Rightarrow> name \<in> set names \<longrightarrow> stamp \<le> m \<and> m < stamp + REQUEST_TTL_NS
   | Scanning m v names _ \<Rightarrow> name \<in> set names \<longrightarrow> stamp \<le> m \<and> m < stamp + REQUEST_TTL_NS \<and> v < written + WALL_GUARD
   | Removing m v x names _ \<Rightarrow> x \<noteq> name
       \<and> (name \<in> set names \<longrightarrow> stamp \<le> m \<and> m < stamp + REQUEST_TTL_NS \<and> v < written + WALL_GUARD)
   | _ \<Rightarrow> True)"

definition young :: "int \<Rightarrow> int \<Rightarrow> drain_world \<Rightarrow> bool" where
  "young stamp written w \<longleftrightarrow> dw_mono w < stamp + REQUEST_TTL_NS \<and> dw_wall w < written + WALL_GUARD"

lemma check_step_holds:
  assumes "shown i roots stamp written w" and "timely (request_name i) stamp written c" and "stamp \<le> dw_mono w" and "young stamp written w"
    and "check_step nr pid c w = Inr (c', w')"
  shows "shown i roots stamp written w' \<and> timely (request_name i) stamp written c'
    \<and> (overlooks (request_name i) c' \<longrightarrow> overlooks (request_name i) c)"
proof -
  let ?rf = "\<lparr>rf_content = Some (request_record i roots stamp), rf_mtime = written\<rparr>"
  obtain entries where E: "dw_requests w = Some entries" "wf_dict entries" "dget entries (tmp_name i) = None"
    "dget entries (request_name i) = Some ?rf" using assms(1) unfolding shown_def by blast
  have listed: "request_name i \<in> fst ` set entries" using dget_Some_in [OF E(4)] by force
  have req: "\<not> starts_with ''.tmp-'' (request_name i)" "starts_with ''req-'' (request_name i)" "ends_with ''.json'' (request_name i)"
    using is_request_name [of i] by (simp_all add: is_request_def)
  show ?thesis
  proof (cases c)
    case Listing
    then have "c' = MonoClock (sort (map fst entries))" "w' = w" using assms(5) E(1) by (simp_all add: check_step_def probe_step_def)
    then show ?thesis using assms(1) listed by (simp add: timely_def overlooks_def pending_def)
  next
    case (MonoClock names)
    then show ?thesis using assms by (auto simp: check_step_def probe_step_def timely_def overlooks_def pending_def found_def young_def)
  next
    case (WallClock names m)
    then show ?thesis using assms by (auto simp: check_step_def probe_step_def timely_def overlooks_def pending_def found_def young_def)
  next
    case (Scanning m v names fresh)
    show ?thesis
    proof (cases names)
      case Nil
      then show ?thesis using Scanning assms(1,5) by (auto simp: check_step_def probe_step_def timely_def overlooks_def pending_def found_def)
    next
      case (Cons x rest)
      have judged: "judge_file nr m v x rest fresh (dget entries x) = Inr c'" "w' = w"
        using assms(5) Scanning Cons E(1) by (auto simp: check_step_def probe_step_def rbind_Inr_iff)
      show ?thesis
      proof (cases "x = request_name i")
        case True
        have "is_fresh nr ?rf m v = Inr True" using assms(2) Scanning Cons True by (auto simp: timely_def published_fresh)
        then have "c' = Scanning m v rest (fresh @ [request_id_of x])" using judged(1) req E(4) True by (simp add: judge_file_def)
        then show ?thesis using assms(1,2) Scanning Cons judged(2) by (auto simp: timely_def overlooks_def found_def)
      next
        case False
        have "c' = Removing m v x rest fresh \<or> (\<exists>more. c' = Scanning m v rest (fresh @ more))"
          using judged(1) by (auto simp: judge_file_def rbind_Inr_iff split: if_splits option.splits)
        then show ?thesis using assms(1,2) Scanning Cons judged(2) False
          by (auto simp: timely_def overlooks_def pending_def found_def)
      qed
    qed
  next
    case (Removing m v x names fresh)
    have "dw_requests w' = Some (dwithout [x] entries)" "c' = Scanning m v names fresh"
      using assms(5) Removing E(1) by (auto simp: check_step_def probe_step_def)
    moreover have "x \<noteq> request_name i" using assms(2) Removing by (simp add: timely_def)
    ultimately show ?thesis using E assms(2) Removing
      by (auto simp: shown_def timely_def overlooks_def pending_def found_def dget_dwithout)
  next
    case (Probing fresh)
    then show ?thesis using assms(1,5) by (auto simp: check_step_def probe_step_def timely_def overlooks_def pending_def found_def split: if_splits)
  next
    case (Reading fresh)
    then show ?thesis using assms(1,5)
      by (auto simp: check_step_def probe_step_def timely_def overlooks_def pending_def found_def split: option.splits)
  next
    case (Judging fresh expiry)
    then show ?thesis using assms(1,5)
      by (auto simp: check_step_def probe_step_def shown_def timely_def overlooks_def pending_def found_def split: if_splits)
  next
    case (Checked fresh)
    then show ?thesis using assms(1,2,5) by (simp add: check_step_def probe_step_def)
  qed
qed

lemma shown_cong: "dw_requests w' = dw_requests w \<Longrightarrow> shown i roots stamp written w' = shown i roots stamp written w"
  by (simp add: shown_def)

definition timely_stage :: "string \<Rightarrow> int \<Rightarrow> int \<Rightarrow> stage \<Rightarrow> bool" where
  "timely_stage name stamp written st \<longleftrightarrow> (case st of Checking _ c \<Rightarrow> timely name stamp written c | _ \<Rightarrow> True)"

lemma admit_step_holds:
  assumes "shown i roots stamp written w" and "timely_stage (request_name i) stamp written st0" and "stamp \<le> dw_mono w"
    and "young stamp written w" and "admit_step nr pid st0 w = Inr (st, w1)"
  shows "shown i roots stamp written w1 \<and> timely_stage (request_name i) stamp written st
    \<and> (blind (request_name i) st \<longrightarrow> blind (request_name i) st0) \<and> (st = Admitted \<longrightarrow> st0 = Admitted \<or> blind (request_name i) st0)"
proof (cases st0)
  case (Checking pt c)
  consider c' where "check_step nr pid c w = Inr (c', w1)" "st = Checking pt c'" | fresh where "c = Checked fresh" "(st, w1) = conclude pid pt fresh w"
    using checking_step [of nr pid pt c w st w1] assms(5) Checking by blast
  then show ?thesis
  proof cases
    case 1
    have "timely (request_name i) stamp written c" using assms(2) Checking by (simp add: timely_stage_def)
    from check_step_holds [OF assms(1) this assms(3,4) 1(1)] show ?thesis
      using 1(2) Checking by (cases pt) (auto simp: timely_stage_def blind_def)
  next
    case 2
    have "dw_requests w1 = dw_requests w" using 2(2) by (cases pt) (auto simp: conclude_def lock_frames split: if_splits)
    then show ?thesis using 2 Checking assms(1) shown_cong [of w1 w]
      by (cases pt) (auto simp: conclude_def timely_stage_def blind_def overlooks_def pending_def found_def split: if_splits)
  qed
next
  case Idle
  then show ?thesis using assms(1,5) by (auto simp: admit_step_def timely_stage_def timely_def blind_def)
next
  case BeforeGate
  then show ?thesis using assms(1,5)
    by (auto simp: admit_step_def gate_try_acquire_def timely_stage_def timely_def blind_def overlooks_def shown_def split: if_splits)
next
  case BeforeStore
  then show ?thesis using assms(1,5)
    by (auto simp: admit_step_def try_store_locks_def timely_stage_def timely_def blind_def overlooks_def shown_def lock_frames
        split: if_splits)
next
  case Admitted
  then show ?thesis using assms(1,5) by (auto simp: admit_step_def timely_stage_def blind_def shown_def lock_frames)
next
  case Finishing
  then show ?thesis using assms(1,5) by (auto simp: admit_step_def timely_stage_def blind_def shown_def lock_frames)
qed

lemma admit_step_clocks:
  assumes "admit_step nr pid st0 w = Inr (st, w1)"
  shows "dw_mono w1 = dw_mono w" and "dw_wall w1 = dw_wall w"
proof -
  have "dw_mono w1 = dw_mono w \<and> dw_wall w1 = dw_wall w"
  proof (cases st0)
    case (Checking pt c)
    consider c' where "check_step nr pid c w = Inr (c', w1)" | fresh where "(st, w1) = conclude pid pt fresh w"
      using checking_step [of nr pid pt c w st w1] assms Checking by blast
    then show ?thesis
    proof cases
      case 1
      then show ?thesis using check_step_frame(3,4) by blast
    next
      case 2
      then show ?thesis by (cases pt) (auto simp: conclude_def lock_frames split: if_splits)
    qed
  qed (use assms in \<open>auto simp: admit_step_def gate_try_acquire_def try_store_locks_def lock_frames split: if_splits\<close>)
  then show "dw_mono w1 = dw_mono w" "dw_wall w1 = dw_wall w" by simp_all
qed

text \<open>The whole system while the request is young.\<close>

definition held_off :: "string \<Rightarrow> string list \<Rightarrow> int \<Rightarrow> int \<Rightarrow> drain_system \<Rightarrow> bool" where
  "held_off i roots stamp written s \<longleftrightarrow> shown i roots stamp written (ds_world s) \<and> stamp \<le> dw_mono (ds_world s)
     \<and> young stamp written (ds_world s) \<and> (\<forall>p. timely_stage (request_name i) stamp written (ds_stage s p))"

lemma drain_step_holds:
  assumes "drain_step nr s t" and "held_off i roots stamp written s" and "young stamp written (ds_world t)"
  shows "held_off i roots stamp written t \<and> (ds_stage t p = Admitted \<longrightarrow> ds_stage s p = Admitted \<or> blind (request_name i) (ds_stage s p))
    \<and> (blind (request_name i) (ds_stage t p) \<longrightarrow> blind (request_name i) (ds_stage s p))"
proof -
  have calm: ?thesis if "ds_stage t = ds_stage s" "dw_mono (ds_world t) \<ge> dw_mono (ds_world s)"
      "shown i roots stamp written (ds_world s) \<Longrightarrow> shown i roots stamp written (ds_world t)"
    using assms(2,3) that unfolding held_off_def by auto
  show ?thesis
    using assms(1) calm
  proof (cases rule: drain_step.cases)
    case (process pid st w)
    have H: "shown i roots stamp written (ds_world s)" "stamp \<le> dw_mono (ds_world s)" "young stamp written (ds_world s)"
      "timely_stage (request_name i) stamp written (ds_stage s q)" for q using assms(2) by (simp_all add: held_off_def)
    note A = admit_step_holds [OF H(1,4,2,3) process(2)] admit_step_clocks [OF process(2)]
    show ?thesis using A H assms(3) process(1) by (auto simp: held_off_def)
  next
    case (exits pid)
    then show ?thesis using assms(2,3) by (auto simp: held_off_def lock_frames shown_def timely_stage_def blind_def)
  next
    case (begins pid uuid roots' stamp' request_id w)
    have "shown i roots stamp written (ds_world t)" if sh: "shown i roots stamp written (ds_world s)"
    proof -
      obtain entries where E: "dw_requests (ds_world s) = Some entries" "wf_dict entries" "dget entries (tmp_name i) = None"
        "dget entries (request_name i) = Some \<lparr>rf_content = Some (request_record i roots stamp), rf_mtime = written\<rparr>"
        using sh unfolding shown_def by blast
      then have "request_id \<noteq> i" using begins(4) by auto
      then show ?thesis using begins(1,2) E by (auto simp: begin_request_def Let_def shown_def dget_dset)
    qed
    then show ?thesis using calm begins(1,2) by (auto simp: begin_request_def Let_def)
  next
    case (renames request_id w)
    have "shown i roots stamp written (ds_world t)" if sh: "shown i roots stamp written (ds_world s)"
    proof -
      obtain entries where E: "dw_requests (ds_world s) = Some entries" "wf_dict entries" "dget entries (tmp_name i) = None"
        "dget entries (request_name i) = Some \<lparr>rf_content = Some (request_record i roots stamp), rf_mtime = written\<rparr>"
        using sh unfolding shown_def by blast
      obtain rf where rf: "dget entries (tmp_name request_id) = Some rf"
        "w = (ds_world s)\<lparr>dw_requests := Some (dset (request_name request_id) rf (dwithout [tmp_name request_id] entries))\<rparr>"
        using renames(2) E(1) by (auto simp: rename_request_def split: option.splits)
      then have "request_id \<noteq> i" using E(3) by auto
      then show ?thesis using renames(1) rf E by (auto simp: shown_def dget_dset dget_dwithout)
    qed
    then show ?thesis using calm renames by (auto simp: rename_request_def split: option.splits)
  next
    case refused
    then show ?thesis using calm by (auto simp: shown_def split: option.splits)
  next
    case (register pid deadline)
    then show ?thesis using calm by (auto simp: shown_def waiter_register_def Let_def split: option.splits)
  next
    case (mark pid)
    then show ?thesis using calm by (auto simp: shown_def waiter_mark_holding_def)
  next
    case (release pid)
    then show ?thesis using calm by (auto simp: shown_def waiter_release_def)
  next
    case (store_taken pid)
    then show ?thesis using calm by (auto simp: shown_def try_store_locks_def)
  next
    case (store_left pid)
    then show ?thesis using calm by (auto simp: shown_def release_store_locks_def)
  next
    case (passes stamp' wall)
    then show ?thesis using calm by (auto simp: shown_def)
  qed
qed

definition young_run :: "number_reader \<Rightarrow> int \<Rightarrow> int \<Rightarrow> drain_system \<Rightarrow> drain_system \<Rightarrow> bool" where
  "young_run nr stamp written = (\<lambda>a b. drain_step nr a b \<and> young stamp written (ds_world b))\<^sup>*\<^sup>*"

lemma young_run_holds:
  assumes "young_run nr stamp written s t" and "held_off i roots stamp written s"
  shows "held_off i roots stamp written t \<and> (ds_stage t p = Admitted \<longrightarrow> ds_stage s p = Admitted \<or> blind (request_name i) (ds_stage s p))
    \<and> (blind (request_name i) (ds_stage t p) \<longrightarrow> blind (request_name i) (ds_stage s p))"
  using assms(1) unfolding young_run_def
proof (induction rule: rtranclp_induct)
  case base
  then show ?case using assms(2) by blast
next
  case (step t u)
  then show ?case using drain_step_holds by blast
qed

text \<open>C8: A published request holds off admission. Let a hook rename the file of a request with a clock reading
  \<open>stamp\<close> and a time stamp \<open>written\<close> into place, under a name no check in progress has listed before, and let all
  processes, hooks, waiters, exits and clocks interleave in steps of single system calls while the request is
  younger than its lifetime and the wall clock has not passed the guard. Then the file stays, and from any point
  \<open>u\<close> of such a run on a process only becomes admitted if at \<open>u\<close> it was in its last check, with the store locks
  held, had listed the directory without the request and had found nothing fresh (\<open>blind\<close>); and such a process
  had already listed the directory before the request was in place. No check that lists the directory
  after the publication admits.\<close>

theorem request_holds_off_admission:
  assumes "dw_requests (ds_world r) = Some entries" and "wf_dict entries"
    and "dget entries (tmp_name i) = Some \<lparr>rf_content = Some (request_record i roots stamp), rf_mtime = written\<rparr>"
    and "stamp \<le> dw_mono (ds_world r)" and "young stamp written (ds_world r)"
    and "\<forall>p. request_name i \<notin> set (stage_pending (ds_stage r p))"
    and "rename_request i (ds_world r) = Some w"
    and "young_run nr stamp written (r\<lparr>ds_world := w\<rparr>) u" and "young_run nr stamp written u t"
  shows "(\<exists>files. dw_requests (ds_world t) = Some files \<and> dget files (request_name i) \<noteq> None)
    \<and> (\<forall>p. ds_stage t p = Admitted \<longrightarrow> ds_stage u p = Admitted \<or> blind (request_name i) (ds_stage u p))
    \<and> (\<forall>p. blind (request_name i) (ds_stage u p) \<longrightarrow> blind (request_name i) (ds_stage r p))"
proof -
  have w: "w = (ds_world r)\<lparr>dw_requests := Some (dset (request_name i) \<lparr>rf_content = Some (request_record i roots stamp), rf_mtime = written\<rparr>
      (dwithout [tmp_name i] entries))\<rparr>" using assms(1,3,7) by (simp add: rename_request_def)
  have "timely_stage (request_name i) stamp written (ds_stage r p)" for p
    using assms(6) [rule_format, of p]
    by (cases "ds_stage r p") (auto simp: timely_stage_def stage_pending_def timely_def pending_def split: check.splits)
  then have "held_off i roots stamp written (r\<lparr>ds_world := w\<rparr>)"
    using assms(2,4,5) by (auto simp: held_off_def w shown_def dget_dset dget_dwithout young_def)
  then have u: "held_off i roots stamp written u" "blind (request_name i) (ds_stage u p) \<longrightarrow> blind (request_name i) (ds_stage r p)" for p
    using young_run_holds [OF assms(8)] by simp_all
  note t = young_run_holds [OF assms(9) u(1)]
  have "shown i roots stamp written (ds_world t)" using t unfolding held_off_def by blast
  then show ?thesis using t u(2) unfolding shown_def by fastforce
qed

section \<open>The waiter's record\<close>

lemma digit_char: "(n::nat) < 10 \<Longrightarrow> is_digit (char_of (48 + n)) \<and> of_char (char_of (48 + n) :: char) - 48 = n"
  by (simp add: is_digit_def Let_def)

lemma nat_str_digits: "all_digits (nat_str n) \<and> dec_value (nat_str n) = n"
proof (induction n rule: nat_str.induct)
  case (1 n)
  show ?case
  proof (cases "n < 10")
    case True
    then show ?thesis using digit_char [of n] by (subst (1 2) nat_str.simps) (simp add: all_digits_def dec_value_def)
  next
    case False
    have "n mod 10 < 10" by simp
    note d = digit_char [OF this]
    have e: "nat_str n = nat_str (n div 10) @ [char_of (48 + n mod 10)]" using False by (subst nat_str.simps) simp
    show ?thesis using 1 [OF False] d unfolding e by (simp add: all_digits_def dec_value_def)
  qed
qed

lemma digit_props: "is_digit c \<Longrightarrow> c \<noteq> CHR '' '' \<and> c \<noteq> CHR 0x0A \<and> (of_char c :: nat) < 128"
  by (auto simp: is_digit_def Let_def)

text \<open>What the waiter writes is what the drain reads: the record of a process parses to its expiry.\<close>

lemma waiter_record_roundtrip:
  assumes "0 \<le> expiry"
  shows "parse_waiter_expiry (waiter_record pid expiry) = Some expiry"
proof -
  let ?p = "nat_str pid" and ?e = "nat_str (nat expiry)"
  have ie: "int_str expiry = ?e" using assms by (simp add: int_str_def)
  have dig: "list_all is_digit ?p" "list_all is_digit ?e" using nat_str_digits [of pid] nat_str_digits [of "nat expiry"]
    by (simp_all add: all_digits_def)
  have nosep: "CHR '' '' \<notin> set ?p" "CHR '' '' \<notin> set ?e" using dig digit_props by (auto simp: list_all_iff)
  have ascii: "list_all (\<lambda>c. (of_char c :: nat) < 128) ?p" "list_all (\<lambda>c. (of_char c :: nat) < 128) ?e"
    using dig digit_props by (auto simp: list_all_iff)
  let ?parts = "[WAITER_MAGIC, WAITER_VERSION, ?p, ?e]"
  have body: "butlast (waiter_record pid expiry) = join '' '' ?parts" unfolding waiter_record_def ie by (rule butlast_snoc)
  have "list_all (\<lambda>c. (of_char c :: nat) < 128) (waiter_record pid expiry)"
    using ascii by (simp add: waiter_record_def ie WAITER_MAGIC_def WAITER_VERSION_def)
  moreover have "ends_with [CHR 0x0A] (waiter_record pid expiry)" unfolding waiter_record_def by (rule ends_with_append)
  moreover have "split_on CHR '' '' (join '' '' ?parts) = ?parts"
    using nosep split_join [of ?parts "CHR '' ''"] by (simp add: split_no_sep WAITER_MAGIC_def WAITER_VERSION_def)
  ultimately show ?thesis
    using nat_str_digits [of pid] nat_str_digits [of "nat expiry"] assms
    unfolding parse_waiter_expiry_def body by (simp add: numeral_2_eq_2 numeral_3_eq_3)
qed


lemma nat_str_length: "n < 10 ^ k \<Longrightarrow> 0 < k \<Longrightarrow> length (nat_str n) \<le> k"
proof (induction n arbitrary: k rule: nat_str.induct)
  case (1 n)
  show ?case
  proof (cases "n < 10")
    case True
    then show ?thesis using 1(3) by (subst nat_str.simps) simp
  next
    case False
    then obtain j where k: "k = Suc j" "0 < j" using 1(2,3) by (cases k; cases "k - 1") auto
    have "n div 10 < 10 ^ j" using 1(2) k by (simp add: less_mult_imp_div_less mult.commute)
    then have "length (nat_str (n div 10)) \<le> j" using 1(1) [OF False] k(2) by blast
    then show ?thesis using False k by (subst nat_str.simps) simp
  qed
qed

lemma waiter_record_fits:
  assumes "pid < 10 ^ 20" and "0 \<le> expiry" and "expiry < 10 ^ 40"
  shows "take WAITER_RECORD_MAX (waiter_record pid expiry) = waiter_record pid expiry"
proof -
  have "nat expiry < 10 ^ 40" using assms(2,3) by (simp add: nat_less_iff)
  then have "length (nat_str (nat expiry)) \<le> 40" by (rule nat_str_length) simp
  moreover have "length (nat_str pid) \<le> 20" by (rule nat_str_length [OF assms(1)]) simp
  ultimately show ?thesis
    using assms(2) by (simp add: waiter_record_def WAITER_RECORD_MAX_def int_str_def WAITER_MAGIC_def WAITER_VERSION_def)
qed

lemma written_fresh:
  assumes "pid < 10 ^ 20" and "0 \<le> expiry" and "expiry < 10 ^ 40"
    and "dw_waiter w = Some (waiter_record pid expiry)"
  shows "waiter_fresh_now w \<longleftrightarrow> dw_waiter_lock w \<noteq> None \<and> dw_mono w < expiry \<and> expiry - dw_mono w \<le> HOLD_ALLOWANCE_NS"
  using waiter_record_fits [OF assms(1-3)] waiter_record_roundtrip [OF assms(2), of pid] assms(4)
  by (simp add: waiter_fresh_now_def waiter_bound_ns_def HOOK_DRAIN_WAIT_NS_def HOLD_ALLOWANCE_NS_def)

text \<open>The life of a waiter as the drains see it. A refused registration leaves the record alone. A registered
  waiter is fresh exactly while its lock is held, from the allowance before its deadline up to it; marking it
  makes it fresh for exactly the allowance from then on; released or with its process gone it is not fresh.
  Nothing a drain does prolongs it: the drain's probe leaves record and lock as they are.\<close>

theorem waiter_lifecycle:
  assumes "pid < 10 ^ 20" and "0 \<le> deadline" and "deadline < 10 ^ 40"
    and "waiter_register pid deadline w = (got, w1)" and "0 \<le> dw_mono w" and "dw_mono w < 10 ^ 39"
  shows "(got \<longleftrightarrow> dw_waiter_lock w = None)
    \<and> (got \<longrightarrow> (\<forall>now. waiter_fresh_now (w1\<lparr>dw_mono := now\<rparr>) \<longleftrightarrow> now < deadline \<and> deadline \<le> now + HOLD_ALLOWANCE_NS))
    \<and> (got \<longrightarrow> (\<forall>now. waiter_fresh_now ((waiter_mark_holding pid w1)\<lparr>dw_mono := now\<rparr>)
          \<longleftrightarrow> dw_mono w \<le> now \<and> now < dw_mono w + HOLD_ALLOWANCE_NS))
    \<and> (got \<longrightarrow> \<not> waiter_fresh_now (waiter_release pid w1) \<and> \<not> waiter_fresh_now (exit_locks pid w1))
    \<and> (\<not> got \<longrightarrow> dw_waiter_lock w1 = dw_waiter_lock w \<and> (dw_waiter w \<noteq> None \<longrightarrow> w1 = w))
    \<and> dw_waiter (snd (claude_waiter_fresh q w1)) = dw_waiter w1
    \<and> dw_waiter_lock (snd (claude_waiter_fresh q w1)) = dw_waiter_lock w1"
proof -
  have got: "got \<longleftrightarrow> dw_waiter_lock w = None"
    using assms(4) by (auto simp: waiter_register_def Let_def split: option.splits if_splits)
  have w1: "dw_waiter w1 = Some (waiter_record pid deadline)" "dw_waiter_lock w1 = Some pid" "dw_mono w1 = dw_mono w" if got
    using assms(4) that by (auto simp: waiter_register_def Let_def split: option.splits if_splits)
  have no: "dw_waiter_lock w1 = dw_waiter_lock w \<and> (dw_waiter w \<noteq> None \<longrightarrow> w1 = w)" if "\<not> got"
    using assms(4) that by (auto simp: waiter_register_def Let_def split: option.splits if_splits)
  have reg: "waiter_fresh_now (w1\<lparr>dw_mono := now\<rparr>) \<longleftrightarrow> now < deadline \<and> deadline \<le> now + HOLD_ALLOWANCE_NS" if got for now
    using written_fresh [OF assms(1-3), of "w1\<lparr>dw_mono := now\<rparr>"] w1 [OF that] by auto
  have mark: "waiter_fresh_now ((waiter_mark_holding pid w1)\<lparr>dw_mono := now\<rparr>)
      \<longleftrightarrow> dw_mono w \<le> now \<and> now < dw_mono w + HOLD_ALLOWANCE_NS" if got for now
  proof -
    let ?e = "dw_mono w + HOLD_ALLOWANCE_NS"
    have "0 \<le> ?e" "?e < 10 ^ 40" using assms(5,6) by (simp_all add: HOLD_ALLOWANCE_NS_def)
    from written_fresh [OF assms(1) this, of "(waiter_mark_holding pid w1)\<lparr>dw_mono := now\<rparr>"] show ?thesis
      using w1 [OF that] by (auto simp: waiter_mark_holding_def)
  qed
  have gone: "\<not> waiter_fresh_now (waiter_release pid w1) \<and> \<not> waiter_fresh_now (exit_locks pid w1)" if got
    using w1 [OF that]
    by (auto simp: waiter_release_def waiter_fresh_now_def exit_locks_def Let_def gate_release_def release_store_locks_def
        split: option.split)
  have "dw_waiter (snd (claude_waiter_fresh q w1)) = dw_waiter w1" "dw_waiter_lock (snd (claude_waiter_fresh q w1)) = dw_waiter_lock w1"
    by (simp_all add: claude_waiter_fresh_def)
  then show ?thesis using got reg mark gone no by blast
qed

section \<open>Waiting until nothing is fresh\<close>

text \<open>
  The loop of \<open>wait_until_no_fresh_requests\<close>: \<open>env n step\<close> is what happens to the world during the \<open>n\<close>-th sleep
  of \<open>step\<close> nanoseconds, \<open>go\<close> the answers of \<open>should_continue\<close>. \<open>None\<close> is a loop that does not end.
\<close>

partial_function (option) wait_until_no_fresh_requests ::
    "number_reader \<Rightarrow> nat \<Rightarrow> (nat \<Rightarrow> int \<Rightarrow> drain_world \<Rightarrow> drain_world) \<Rightarrow> (nat \<Rightarrow> bool) option \<Rightarrow> nat \<Rightarrow> drain_world
     \<Rightarrow> (drain_error + (bool \<times> drain_world)) option" where
  "wait_until_no_fresh_requests nr pid env go n w = (case fresh_requests nr pid w of
     Inl e \<Rightarrow> Some (Inl e)
   | Inr (fresh, w') \<Rightarrow>
       if fresh = [] then Some (Inr (True, w'))
       else if (case go of None \<Rightarrow> False | Some f \<Rightarrow> \<not> f n) then Some (Inr (False, w'))
       else if fresh = [CLAUDE_WAITER_SENTINEL]
       then wait_until_no_fresh_requests nr pid env go (Suc n) (env n SHORT_POLL_NS w')
       else wait_until_no_fresh_requests nr pid env go (Suc n) (env n POLL_NS w'))"

text \<open>An instant by which every request in the directory and the waiter's record have expired.\<close>

definition expired_by :: "number_reader \<Rightarrow> drain_world \<Rightarrow> int \<Rightarrow> bool" where
  "expired_by nr w b \<longleftrightarrow>
     (\<forall>entries e m v. dw_requests w = Some entries \<longrightarrow> e \<in> set entries \<longrightarrow> b \<le> m \<longrightarrow> is_fresh nr (snd e) m v \<noteq> Inr True)
     \<and> (\<forall>content expiry. dw_waiter w = Some content \<longrightarrow> parse_waiter_expiry (take WAITER_RECORD_MAX content) = Some expiry \<longrightarrow> expiry \<le> b)"

lemma file_expires: "\<exists>b. \<forall>m v. b \<le> m \<longrightarrow> is_fresh nr rf m v \<noteq> Inr True"
proof (cases "\<exists>obj v0 stamp. rf_content rf = Some (JObj obj) \<and> dget obj ''mono_ns'' = Some v0 \<and> to_int nr v0 = Converted stamp")
  case True
  then obtain obj v0 stamp where "rf_content rf = Some (JObj obj)" "dget obj ''mono_ns'' = Some v0" "to_int nr v0 = Converted stamp" by blast
  then have "is_fresh nr rf m v \<noteq> Inr True" if "stamp + REQUEST_TTL_NS \<le> m" for m v using that by (auto simp: is_fresh_def)
  then show ?thesis by blast
next
  case False
  then have "is_fresh nr rf m v \<noteq> Inr True" for m v
    by (auto simp: is_fresh_def split: option.splits json.splits converted.splits)
  then show ?thesis by blast
qed

lemma files_expire: "\<exists>b. \<forall>e \<in> set entries. \<forall>m v. b \<le> m \<longrightarrow> is_fresh nr (snd e) m v \<noteq> Inr True"
proof (induction entries)
  case (Cons e es)
  then obtain b where b: "\<forall>e \<in> set es. \<forall>m v. b \<le> m \<longrightarrow> is_fresh nr (snd e) m v \<noteq> Inr True" by blast
  obtain d where d: "\<forall>m v. d \<le> m \<longrightarrow> is_fresh nr (snd e) m v \<noteq> Inr True" using file_expires by blast
  show ?case by (rule exI [of _ "max b d"]) (use b d in auto)
qed simp

lemma expiry_exists: "\<exists>b. expired_by nr w b"
proof -
  have "\<exists>b. \<forall>entries e m v. dw_requests w = Some entries \<longrightarrow> e \<in> set entries \<longrightarrow> b \<le> m \<longrightarrow> is_fresh nr (snd e) m v \<noteq> Inr True"
  proof (cases "dw_requests w")
    case (Some entries)
    obtain b where "\<forall>e \<in> set entries. \<forall>m v. b \<le> m \<longrightarrow> is_fresh nr (snd e) m v \<noteq> Inr True" using files_expire by blast
    then show ?thesis unfolding Some option.inject by blast
  qed simp
  then obtain b where b: "\<And>entries e m v. dw_requests w = Some entries \<Longrightarrow> e \<in> set entries \<Longrightarrow> b \<le> m \<Longrightarrow> is_fresh nr (snd e) m v \<noteq> Inr True"
    by blast
  have "\<exists>d. \<forall>content expiry. dw_waiter w = Some content \<longrightarrow> parse_waiter_expiry (take WAITER_RECORD_MAX content) = Some expiry \<longrightarrow> expiry \<le> d"
  proof (cases "dw_waiter w")
    case (Some content)
    show ?thesis
      by (cases "parse_waiter_expiry (take WAITER_RECORD_MAX content)") (auto simp: Some)
  qed simp
  then obtain d where d: "\<And>content expiry. dw_waiter w = Some content \<Longrightarrow>
      parse_waiter_expiry (take WAITER_RECORD_MAX content) = Some expiry \<Longrightarrow> expiry \<le> d" by blast
  have "expired_by nr w (max b d)"
    unfolding expired_by_def
  proof (intro conjI allI impI)
    fix entries e m v assume "dw_requests w = Some entries" "e \<in> set entries" "max b d \<le> m"
    then show "is_fresh nr (snd e) m v \<noteq> Inr True" using b by simp
  next
    fix content expiry assume "dw_waiter w = Some content" "parse_waiter_expiry (take WAITER_RECORD_MAX content) = Some expiry"
    then show "expiry \<le> max b d" using d by fastforce
  qed
  then show ?thesis by blast
qed

text \<open>A check of an expired world reports nothing; a check of any world keeps its expiry.\<close>

lemma scan_subset:
  assumes "rfold (scan_request nr m v) (fresh, entries) xs = Inr (fresh', entries')"
  shows "set entries' \<subseteq> set entries \<and> (fresh' = fresh \<or> (\<exists>e \<in> set xs. is_fresh nr (snd e) m v = Inr True))"
  using assms
proof (induction xs arbitrary: fresh entries)
  case (Cons x xs)
  obtain f1 e1 where s1: "scan_request nr m v (fresh, entries) x = Inr (f1, e1)"
    "rfold (scan_request nr m v) (f1, e1) xs = Inr (fresh', entries')"
    using Cons.prems by (auto simp: rbind_Inr_iff)
  have "set e1 \<subseteq> set entries \<and> (f1 = fresh \<or> is_fresh nr (snd x) m v = Inr True)"
    using s1(1) by (cases x) (auto simp: scan_request_def rbind_Inr_iff dwithout_def split: if_splits)
  then show ?case using Cons.IH [OF s1(2)] by auto
qed simp

lemma check_expired:
  assumes e: "expired_by nr w b" and f: "fresh_requests nr pid w = Inr (fresh, w')"
  shows "expired_by nr w' b \<and> (b \<le> dw_mono w \<longrightarrow> fresh = [])"
proof -
  obtain codex w1 where c: "fresh_codex_requests nr w = Inr (codex, w1)"
    and fr: "fresh = (if waiter_fresh_now w1 then codex @ [CLAUDE_WAITER_SENTINEL] else codex)"
    and w1: "dw_requests w' = dw_requests w1"
    using f by (auto simp: fresh_requests_def claude_waiter_fresh_def rbind_Inr_iff split: if_splits)
  have same: "dw_waiter w1 = dw_waiter w" "dw_mono w1 = dw_mono w"
    using c by (auto simp: fresh_codex_requests_def rbind_Inr_iff split: option.splits)
  have files: "(dw_requests w = None \<and> dw_requests w1 = None \<and> codex = []) \<or>
      (\<exists>entries entries'. dw_requests w = Some entries \<and> dw_requests w1 = Some entries' \<and> set entries' \<subseteq> set entries
        \<and> (codex = [] \<or> (\<exists>e \<in> set entries. is_fresh nr (snd e) (dw_mono w) (dw_wall w) = Inr True)))"
  proof (cases "dw_requests w")
    case None
    then show ?thesis using c by (simp add: fresh_codex_requests_def)
  next
    case (Some entries)
    obtain entries' where "rfold (scan_request nr (dw_mono w) (dw_wall w)) ([], entries) (sort_key fst entries) = Inr (codex, entries')"
      "dw_requests w1 = Some entries'"
      using c Some by (auto simp: fresh_codex_requests_def rbind_Inr_iff)
    then show ?thesis using scan_subset Some by fastforce
  qed
  have exp: "is_fresh nr (snd e) m v \<noteq> Inr True" if "dw_requests w = Some entries" "e \<in> set entries" "b \<le> m" for entries e m v
    using assms(1) that unfolding expired_by_def by blast
  have wexp: "expiry \<le> b" if "dw_waiter w = Some content" "parse_waiter_expiry (take WAITER_RECORD_MAX content) = Some expiry" for content expiry
    using assms(1) that unfolding expired_by_def by blast
  have "expired_by nr w' b"
    unfolding expired_by_def
  proof (intro conjI allI impI)
    fix entries e m v assume a: "dw_requests w' = Some entries" "e \<in> set entries" "b \<le> m"
    then obtain old where "dw_requests w = Some old" "e \<in> set old" using files w1 by auto
    then show "is_fresh nr (snd e) m v \<noteq> Inr True" using exp a(3) by blast
  next
    fix content expiry assume "dw_waiter w' = Some content" "parse_waiter_expiry (take WAITER_RECORD_MAX content) = Some expiry"
    then show "expiry \<le> b" using wexp fresh_requests_frame(5) [OF f] by simp
  qed
  moreover have "fresh = []" if b: "b \<le> dw_mono w"
  proof -
    have "codex = []"
    proof (rule ccontr)
      assume "codex \<noteq> []"
      then obtain entries e where e: "dw_requests w = Some entries" "e \<in> set entries"
        "is_fresh nr (snd e) (dw_mono w) (dw_wall w) = Inr True" using files by auto
      then show False using exp [OF e(1,2) b] by simp
    qed
    moreover have "\<not> waiter_fresh_now w1"
    proof
      assume "waiter_fresh_now w1"
      then obtain content expiry where c: "dw_waiter w1 = Some content"
        "parse_waiter_expiry (take WAITER_RECORD_MAX content) = Some expiry" "dw_mono w1 < expiry"
        by (auto simp: waiter_fresh_now_def split: option.splits if_splits)
      then show False using wexp [of content expiry] b same by simp
    qed
    ultimately show ?thesis using fr by simp
  qed
  ultimately show ?thesis by blast
qed

text \<open>C36: the wait ends. If time passes during every sleep at least as long as the sleep, and nobody publishes a request
  or writes the waiter's record meanwhile, the loop returns for every list of answers of \<open>should_continue\<close>,
  whatever the directory and the record hold and however the clocks and locks change otherwise.\<close>

theorem wait_returns:
  assumes "\<And>n step w. dw_mono w + step \<le> dw_mono (env n step w) \<and> dw_requests (env n step w) = dw_requests w
             \<and> dw_waiter (env n step w) = dw_waiter w"
  shows "\<exists>r. wait_until_no_fresh_requests nr pid env go n w = Some r"
proof -
  obtain b where b: "expired_by nr w b" using expiry_exists by blast
  then show ?thesis
  proof (induction "nat (b - dw_mono w)" arbitrary: n w rule: less_induct)
    case less
    show ?case
    proof (cases "fresh_requests nr pid w")
      case (Inl e)
      then show ?thesis by (subst wait_until_no_fresh_requests.simps) simp
    next
      case (Inr fw)
      obtain fresh w' where fw: "fw = (fresh, w')" by (metis surj_pair)
      note chk = check_expired [OF less.prems Inr [unfolded fw]]
      have m: "dw_mono w' = dw_mono w" by (rule fresh_requests_frame(3) [OF Inr [unfolded fw]])
      show ?thesis
      proof (cases "fresh = []")
        case True
        then show ?thesis using Inr fw by (subst wait_until_no_fresh_requests.simps) simp
      next
        case False
        then have lt: "dw_mono w < b" using chk by force
        have onward: "\<exists>r. wait_until_no_fresh_requests nr pid env go (Suc n) (env n step w') = Some r"
          if "0 < step" for step
        proof (rule less.hyps)
          show "nat (b - dw_mono (env n step w')) < nat (b - dw_mono w)"
            using assms [of w' step n] that m lt by linarith
          show "expired_by nr (env n step w') b" using chk assms [of w' step n] unfolding expired_by_def by simp
        qed
        have "0 < SHORT_POLL_NS" "0 < POLL_NS" by (simp_all add: SHORT_POLL_NS_def POLL_NS_def)
        note ends = onward [OF this(1)] onward [OF this(2)]
        show ?thesis
          by (subst wait_until_no_fresh_requests.simps) (use Inr fw False ends in \<open>simp split: option.split\<close>)
      qed
    qed
  qed
qed

lemma scan_raises:
  assumes "(name, rf) \<in> set xs" and "is_request name" and "is_fresh nr rf m v = Inl OverflowError"
  shows "rfold (scan_request nr m v) s xs = Inl OverflowError"
  using assms(1)
proof (induction xs arbitrary: s)
  case (Cons x xs)
  show ?case
  proof (cases "x = (name, rf)")
    case True
    then show ?thesis using assms(2,3) by (cases s) (simp add: scan_request_def is_request_def)
  next
    case False
    then have "\<And>s. rfold (scan_request nr m v) s xs = Inl OverflowError" using Cons by simp
    then show ?thesis by (cases "scan_request nr m v s x") (simp_all, metis (full_types) drain_error.exhaust)
  qed
qed simp

text \<open>C39: A request file whose record has a \<open>mono_ns\<close> that is a JSON number too large for a float (\<open>1e999\<close>, \<open>Infinity\<close>),
  whatever else the record holds, is not treated as malformed: a check of a directory with it raises
  \<open>OverflowError\<close> whatever the other files are, in isolation and at the step that judges the file, where
  a process that holds the gate keeps it; and \<open>wait_until_no_fresh_requests\<close> raises too.\<close>

theorem overflowing_request_raises:
  assumes "is_request name" and "rf_content rf = Some (JObj obj)" and "dget obj ''mono_ns'' = Some (JFloat t)"
    and "float_of nr t = NotFinite False"
    and "dw_requests w = Some entries" and "dget entries name = Some rf"
  shows "fresh_requests nr pid w = Inl OverflowError
    \<and> admit_step nr pid (Checking pt (Scanning m v (name # names) fresh)) w = Inl OverflowError
    \<and> wait_until_no_fresh_requests nr pid env go n w = Some (Inl OverflowError)"
proof -
  have raises: "is_fresh nr rf m v = Inl OverflowError" for m v using assms(2-4) by (simp add: is_fresh_def to_int_def)
  have "(name, rf) \<in> set (sort_key fst entries)" using dget_Some_in [OF assms(6)] by simp
  then have "rfold (scan_request nr (dw_mono w) (dw_wall w)) ([], entries) (sort_key fst entries) = Inl OverflowError"
    using scan_raises [OF _ assms(1) raises] by blast
  then have check: "fresh_requests nr pid w = Inl OverflowError"
    using assms(5) by (simp add: fresh_requests_def fresh_codex_requests_def)
  have "judge_file nr m v name names fresh (Some rf) = Inl OverflowError"
    using assms(1) raises by (simp add: judge_file_def is_request_def)
  then have "admit_step nr pid (Checking pt (Scanning m v (name # names) fresh)) w = Inl OverflowError"
    using assms(5,6) by (simp add: admit_step_def check_step_def probe_step_def)
  moreover have "wait_until_no_fresh_requests nr pid env go n w = Some (Inl OverflowError)"
    using check by (subst wait_until_no_fresh_requests.simps) simp
  ultimately show ?thesis using check by blast
qed

section \<open>Concrete worlds\<close>

definition plain_reader :: number_reader where
  "plain_reader = \<lparr>float_of = (\<lambda>t. if t = ''inf'' then NotFinite False else Finite 0 False), int_text = (\<lambda>_. None)\<rparr>"

definition quiet_world :: drain_world where
  "quiet_world = \<lparr>dw_mono = 7, dw_wall = 9, dw_requests = None, dw_waiter = None, dw_waiter_lock = None, dw_gate = None,
     dw_store = None, dw_hint = []\<rparr>"

lemma quiet_check: "dw_requests w = None \<Longrightarrow> dw_waiter w = None \<Longrightarrow> fresh_requests nr pid w = Inr ([], w)"
  by (simp add: fresh_requests_def fresh_codex_requests_def claude_waiter_fresh_def waiter_fresh_now_def)

text \<open>Several steps of one process, with nothing in between.\<close>

fun process_run :: "number_reader \<Rightarrow> nat \<Rightarrow> nat \<Rightarrow> stage \<Rightarrow> drain_world \<Rightarrow> drain_error + (stage \<times> drain_world)" where
  "process_run nr pid 0 st w = Inr (st, w)"
| "process_run nr pid (Suc n) st w = rbind (admit_step nr pid st w) (\<lambda>(st', w'). process_run nr pid n st' w')"

lemma process_run_young:
  assumes "young stamp written (ds_world s)" and "process_run nr pid n (ds_stage s pid) (ds_world s) = Inr (st, w)"
  shows "young_run nr stamp written s \<lparr>ds_stage = (ds_stage s)(pid := st), ds_world = w\<rparr>"
  using assms
proof (induction n arbitrary: s)
  case 0
  then have "\<lparr>ds_stage = (ds_stage s)(pid := st), ds_world = w\<rparr> = s" by auto
  then show ?case unfolding young_run_def by (simp only: rtranclp.rtrancl_refl)
next
  case (Suc n)
  obtain st1 w1 where 1: "admit_step nr pid (ds_stage s pid) (ds_world s) = Inr (st1, w1)" "process_run nr pid n st1 w1 = Inr (st, w)"
    using Suc.prems(2) by (auto simp: rbind_Inr_iff)
  let ?s = "\<lparr>ds_stage = (ds_stage s)(pid := st1), ds_world = w1\<rparr>"
  have y: "young stamp written (ds_world ?s)" using Suc.prems(1) admit_step_clocks [OF 1(1)] by (simp add: young_def)
  have "young_run nr stamp written ?s \<lparr>ds_stage = (ds_stage ?s)(pid := st), ds_world = w\<rparr>" by (rule Suc.IH) (use y 1(2) in simp_all)
  moreover have "drain_step nr s ?s" by (rule drain_step.process [OF 1(1)])
  ultimately have "young_run nr stamp written s \<lparr>ds_stage = (ds_stage ?s)(pid := st), ds_world = w\<rparr>"
    unfolding young_run_def using y by (intro converse_rtranclp_into_rtranclp [of _ s ?s]) simp_all
  moreover have "(ds_stage ?s)(pid := st) = (ds_stage s)(pid := st)" by (rule ext) simp
  ultimately show ?case by (simp only:)
qed

lemma young_run_run: "young_run nr stamp written s t \<Longrightarrow> drain_run nr s t"
  unfolding young_run_def drain_run_def by (erule rtranclp_mono [THEN predicate2D, rotated]) blast

lemma admission_is_exclusive_witness:
  "\<exists>s. drain_run plain_reader (start_of quiet_world) s \<and> ds_stage s 1 = Admitted \<and> dw_gate (ds_world s) = Some 1
     \<and> dw_store (ds_world s) = Some 1"
proof -
  let ?gs = "quiet_world\<lparr>dw_gate := Some 1, dw_store := Some 1\<rparr>"
  let ?s = "\<lparr>ds_stage = (ds_stage (start_of quiet_world))(1 := Admitted), ds_world = ?gs\<rparr>"
  have "process_run plain_reader 1 12 Idle quiet_world = Inr (Admitted, ?gs)" by code_simp
  then have "process_run plain_reader 1 12 (ds_stage (start_of quiet_world) 1) (ds_world (start_of quiet_world)) = Inr (Admitted, ?gs)"
    by (simp add: start_of_def)
  from young_run_run [OF process_run_young [OF _ this, of 0 0]] have run: "drain_run plain_reader (start_of quiet_world) ?s"
    by (simp add: young_def start_of_def quiet_world_def REQUEST_TTL_NS_def WALL_GUARD_def)
  have "dw_gate quiet_world = None" by (simp add: quiet_world_def)
  from admission_is_exclusive [OF this run, of 1 1] run show ?thesis by auto
qed

text \<open>A process at its last check while a hook is about to publish a request.\<close>

definition hook_file :: request_file where
  "hook_file = \<lparr>rf_content = Some (request_record ''a'' [''r''] 7), rf_mtime = 9\<rparr>"

definition contended_world :: drain_world where
  "contended_world = quiet_world\<lparr>dw_gate := Some 1, dw_store := Some 1, dw_requests := Some [(tmp_name ''a'', hook_file)]\<rparr>"

definition contended :: "check \<Rightarrow> drain_system" where
  "contended c = \<lparr>ds_stage = (\<lambda>_. Idle)(1 := Checking After_Store c), ds_world = contended_world\<rparr>"

lemma request_holds_off_admission_witness:
  "\<exists>u t. rename_request ''a'' contended_world = Some (ds_world u)
     \<and> young_run plain_reader 7 9 u t \<and> ds_stage u 1 = Checking After_Store Listing \<and> ds_stage t 1 = Finishing
     \<and> dw_store (ds_world t) = None \<and> (\<forall>p. ds_stage t p = Admitted \<longrightarrow> ds_stage u p = Admitted \<or> blind (request_name ''a'') (ds_stage u p))"
proof -
  let ?r = "contended Listing"
  let ?w = "contended_world\<lparr>dw_requests := Some [(request_name ''a'', hook_file)]\<rparr>"
  let ?u = "?r\<lparr>ds_world := ?w\<rparr>"
  let ?t = "\<lparr>ds_stage = (ds_stage ?u)(1 := Finishing), ds_world = ?w\<lparr>dw_store := None\<rparr>\<rparr>"
  have pub: "rename_request ''a'' contended_world = Some ?w" by code_simp
  have young: "young 7 9 (ds_world ?u)" by (simp add: young_def contended_world_def quiet_world_def REQUEST_TTL_NS_def WALL_GUARD_def)
  have "process_run plain_reader 1 7 (Checking After_Store Listing) ?w = Inr (Finishing, ?w\<lparr>dw_store := None\<rparr>)" by code_simp
  then have run: "young_run plain_reader 7 9 ?u ?t" using process_run_young [OF young, of plain_reader 1 7] by (simp add: contended_def)
  have new: "\<forall>p. request_name ''a'' \<notin> set (stage_pending (ds_stage ?r p))" by (simp add: contended_def stage_pending_def pending_def)
  have "young_run plain_reader 7 9 ?u ?u" by (simp add: young_run_def)
  from request_holds_off_admission [of ?r "[(tmp_name ''a'', hook_file)]" "''a''" "[''r'']" 7 9 ?w plain_reader ?u ?t, OF _ _ _ _ _ new _ this run]
  have "\<forall>p. ds_stage ?t p = Admitted \<longrightarrow> ds_stage ?u p = Admitted \<or> blind (request_name ''a'') (ds_stage ?u p)"
    using pub young by (simp add: contended_def contended_world_def hook_file_def wf_dict_single quiet_world_def)
  then show ?thesis using pub run by (intro exI [of _ ?u] exI [of _ ?t]) (simp add: contended_def)
qed

text \<open>The other side of it: a process whose last check had already listed the directory is admitted after the publication.\<close>

lemma blind_process_is_admitted:
  "\<exists>t. young_run plain_reader 7 9 (contended (MonoClock []) \<lparr>ds_world := contended_world\<lparr>dw_requests := Some [(request_name ''a'', hook_file)]\<rparr>\<rparr>) t
     \<and> ds_stage t 1 = Admitted"
proof -
  let ?w = "contended_world\<lparr>dw_requests := Some [(request_name ''a'', hook_file)]\<rparr>"
  let ?u = "contended (MonoClock []) \<lparr>ds_world := ?w\<rparr>"
  have young: "young 7 9 (ds_world ?u)" by (simp add: young_def contended_world_def quiet_world_def REQUEST_TTL_NS_def WALL_GUARD_def)
  have "process_run plain_reader 1 5 (Checking After_Store (MonoClock [])) ?w = Inr (Admitted, ?w)" by code_simp
  from process_run_young [OF young, of plain_reader 1 5 Admitted ?w] this show ?thesis
    by (intro exI) (auto simp: contended_def)
qed

lemma waiter_lifecycle_witness:
  "\<exists>got w1. waiter_register 4 100 quiet_world = (got, w1) \<and> got
     \<and> (\<forall>now. waiter_fresh_now (w1\<lparr>dw_mono := now\<rparr>) \<longleftrightarrow> now < 100 \<and> 100 \<le> now + HOLD_ALLOWANCE_NS)"
proof -
  obtain got w1 where r: "waiter_register 4 100 quiet_world = (got, w1)" by (metis surj_pair)
  have "(4::nat) < 10 ^ 20" "(0::int) \<le> 100" "(100::int) < 10 ^ 40" "0 \<le> dw_mono quiet_world" "dw_mono quiet_world < 10 ^ 39"
    by (simp_all add: quiet_world_def)
  from waiter_lifecycle [OF this(1-3) r this(4,5)] r show ?thesis by (auto simp: quiet_world_def)
qed

lemma wait_returns_witness:
  "\<exists>r. wait_until_no_fresh_requests plain_reader 1 (\<lambda>n step w. w\<lparr>dw_mono := dw_mono w + step\<rparr>) None 0
     (snd (publish_waiting_request 3 ''u'' [''r''] quiet_world)) = Some r"
  by (rule wait_returns) simp

lemma overflowing_request_raises_witness:
  "let w = quiet_world\<lparr>dw_requests := Some [(request_name ''x'', \<lparr>rf_content = Some (JObj [(''v'', JInt 1), (''mono_ns'', JFloat ''inf'')]), rf_mtime = 9\<rparr>)]\<rparr> in
   fresh_requests plain_reader 1 w = Inl OverflowError
   \<and> admit_step plain_reader 1 (Checking After_Gate (Scanning 7 9 [request_name ''x''] [])) w = Inl OverflowError
   \<and> wait_until_no_fresh_requests plain_reader 1 (\<lambda>_ _ w. w) None 0 w = Some (Inl OverflowError)"
  unfolding Let_def
  by (rule overflowing_request_raises [where rf = "\<lparr>rf_content = Some (JObj [(''v'', JInt 1), (''mono_ns'', JFloat ''inf'')]), rf_mtime = 9\<rparr>"
      and obj = "[(''v'', JInt 1), (''mono_ns'', JFloat ''inf'')]" and t = "''inf''"
      and entries = "[(request_name ''x'', \<lparr>rf_content = Some (JObj [(''v'', JInt 1), (''mono_ns'', JFloat ''inf'')]), rf_mtime = 9\<rparr>)]",
      OF is_request_name]) (simp_all add: plain_reader_def)

end
