(* ===== verification/Retention_Graph.thy ===== *)
theory Retention_Graph
  imports Prelude Complex_Main
begin

text \<open>
  The reference graph of the retained artifacts, \<open>bin/_lib_artifact_retention.py\<close>: members, what a member
  reaches without passing a root, which members are roots, and the graph \<open>build_graph\<close> returns. A set of ids is
  a list without duplicates where the code computes with it. Epochs are rationals. The order in which a set is
  walked does not matter here, because every walk ends in a set or in a sort.
\<close>

section \<open>Members\<close>

record retention_member =
  rm_id :: string
  rm_kind :: string
  rm_family :: string
  rm_created :: rat
  rm_disk :: int
  rm_logical :: int
  rm_references :: "string list"
  rm_symlink :: bool
  rm_in_root :: bool
  rm_exists :: bool
  rm_valid :: bool
  rm_classification :: "string option"
  rm_shape :: "string option"
  rm_finalized :: bool
  rm_active :: bool

type_synonym members = "(string, retention_member) dict"

text \<open>The keys of \<open>_KIND_REQUIRES_CLASSIFICATION\<close>, each mapped to true.\<close>

definition RETENTION_KINDS :: "string list" where
  "RETENTION_KINDS = [''incident'', ''bundle'', ''wal_evidence'', ''rebuild_record'', ''backup'', ''backup_member'']"

definition ROOT_WHATEVER_REFERENCES_IT :: "string list" where
  "ROOT_WHATEVER_REFERENCES_IT = [''incident'', ''backup'']"

definition is_classified :: "string option \<Rightarrow> bool" where
  "is_classified confidence \<longleftrightarrow> (case confidence of None \<Rightarrow> False | Some c \<Rightarrow> c \<notin> {''unknown'', ''''})"

definition member_protection_reasons :: "retention_member \<Rightarrow> string list \<Rightarrow> string list" where
  "member_protection_reasons m known_ids =
     (if rm_kind m \<notin> set RETENTION_KINDS then [''unrecognized-kind''] else [])
   @ (if \<not> rm_exists m then [''missing''] else [])
   @ (if \<not> rm_valid m then [''invalid''] else [])
   @ (if \<not> rm_finalized m then [''unfinished''] else [])
   @ (if rm_active m then [''active''] else [])
   @ (if rm_symlink m then [''symlink''] else [])
   @ (if \<not> rm_in_root m then [''outside-root''] else [])
   @ (if list_ex (\<lambda>r. r \<notin> set known_ids) (rm_references m) then [''dangling-reference''] else [])"

text \<open>The references of a member that name members.\<close>

definition refs_in :: "members \<Rightarrow> string \<Rightarrow> string list" where
  "refs_in by_id m = (case dget by_id m of None \<Rightarrow> []
     | Some r \<Rightarrow> filter (\<lambda>x. x \<in> set (dkeys by_id)) (rm_references r))"

section \<open>Reachability\<close>

text \<open>The loop of \<open>_reachable_from\<close>; the head of the list is the end the code pops from.\<close>

function reach_loop :: "members \<Rightarrow> string list \<Rightarrow> string list \<Rightarrow> string list \<Rightarrow> string list" where
  "reach_loop by_id root_ids reachable [] = reachable"
| "reach_loop by_id root_ids reachable (current # queue) =
     (if current \<in> set reachable \<or> current \<in> set root_ids then reach_loop by_id root_ids reachable queue
      else reach_loop by_id root_ids (reachable @ [current]) (rev (refs_in by_id current) @ queue))"
  by pat_completeness auto
termination
proof (relation "measures [\<lambda>(by_id, root_ids, reachable, queue). card (set (dkeys by_id) - set reachable),
    \<lambda>(by_id, root_ids, reachable, queue). length queue]", simp, simp)
  fix by_id :: members and root_ids reachable :: "string list" and current queue
  assume new: "\<not> (current \<in> set reachable \<or> current \<in> set root_ids)"
  show "((by_id, root_ids, reachable @ [current], rev (refs_in by_id current) @ queue), by_id, root_ids, reachable, current # queue)
    \<in> measures [\<lambda>(by_id, root_ids, reachable, queue). card (set (dkeys by_id) - set reachable),
        \<lambda>(by_id, root_ids, reachable, queue). length queue]"
  proof (cases "current \<in> set (dkeys by_id)")
    case True
    then have "card (set (dkeys by_id) - insert current (set reachable)) < card (set (dkeys by_id) - set reachable)"
      using new by (intro psubset_card_mono) auto
    then show ?thesis by simp
  next
    case False
    then have "set (dkeys by_id) - insert current (set reachable) = set (dkeys by_id) - set reachable" by auto
    moreover have "refs_in by_id current = []" using False by (simp add: refs_in_def dget_None_iff [symmetric])
    ultimately show ?thesis by simp
  qed
qed

definition reachable_from :: "members \<Rightarrow> string list \<Rightarrow> string \<Rightarrow> string list" where
  "reachable_from by_id root_ids m = reach_loop by_id root_ids [m] (rev (refs_in by_id m))"

text \<open>A step along a reference that does not enter a root.\<close>

definition ref_steps :: "members \<Rightarrow> string list \<Rightarrow> (string \<times> string) set" where
  "ref_steps by_id root_ids = {(a, b). b \<in> set (refs_in by_id a) \<and> b \<notin> set root_ids}"

lemma reach_loop_sound:
  assumes "set reachable \<subseteq> (ref_steps by_id root_ids)\<^sup>* `` {m}"
    and "\<And>x. x \<in> set queue \<Longrightarrow> x \<notin> set root_ids \<Longrightarrow> x \<in> (ref_steps by_id root_ids)\<^sup>* `` {m}"
  shows "set (reach_loop by_id root_ids reachable queue) \<subseteq> (ref_steps by_id root_ids)\<^sup>* `` {m}"
  using assms
proof (induction by_id root_ids reachable queue rule: reach_loop.induct)
  case (2 by_id root_ids reachable current queue)
  show ?case
  proof (cases "current \<in> set reachable \<or> current \<in> set root_ids")
    case True
    have "set (reach_loop by_id root_ids reachable queue) \<subseteq> (ref_steps by_id root_ids)\<^sup>* `` {m}"
      by (rule "2.IH"(1) [OF True "2.prems"(1)]) (use "2.prems"(2) in auto)
    then show ?thesis using True by simp
  next
    case False
    then have c: "(m, current) \<in> (ref_steps by_id root_ids)\<^sup>*" using "2.prems"(2) [of current] by simp
    have "x \<in> (ref_steps by_id root_ids)\<^sup>* `` {m}" if "x \<in> set (rev (refs_in by_id current) @ queue)" "x \<notin> set root_ids" for x
    proof (cases "x \<in> set queue")
      case True
      then show ?thesis using "2.prems"(2) that(2) by simp
    next
      case False
      then have "(current, x) \<in> ref_steps by_id root_ids" using that by (simp add: ref_steps_def)
      then show ?thesis using c by (auto intro: rtrancl_into_rtrancl)
    qed
    moreover have "set (reachable @ [current]) \<subseteq> (ref_steps by_id root_ids)\<^sup>* `` {m}" using "2.prems"(1) c by simp
    ultimately have "set (reach_loop by_id root_ids (reachable @ [current]) (rev (refs_in by_id current) @ queue))
        \<subseteq> (ref_steps by_id root_ids)\<^sup>* `` {m}"
      using "2.IH"(2) [OF False] by blast
    then show ?thesis using False by simp
  qed
qed simp

lemma reach_loop_closed:
  assumes "\<And>a b. a \<in> set reachable \<Longrightarrow> (a, b) \<in> ref_steps by_id root_ids \<Longrightarrow> b \<in> set reachable \<union> set queue"
  shows "set reachable \<subseteq> set (reach_loop by_id root_ids reachable queue)
    \<and> (\<forall>a b. a \<in> set (reach_loop by_id root_ids reachable queue) \<longrightarrow> (a, b) \<in> ref_steps by_id root_ids
         \<longrightarrow> b \<in> set (reach_loop by_id root_ids reachable queue))"
  using assms
proof (induction by_id root_ids reachable queue rule: reach_loop.induct)
  case (1 by_id root_ids reachable)
  then show ?case by auto
next
  case (2 by_id root_ids reachable current queue)
  show ?case
  proof (cases "current \<in> set reachable \<or> current \<in> set root_ids")
    case True
    have "b \<in> set reachable \<union> set queue" if "a \<in> set reachable" "(a, b) \<in> ref_steps by_id root_ids" for a b
    proof -
      have "b \<in> set reachable \<union> set (current # queue)" by (rule "2.prems" [OF that])
      moreover have "b \<notin> set root_ids" using that(2) by (simp add: ref_steps_def)
      ultimately show ?thesis using True by auto
    qed
    from "2.IH"(1) [OF True this] show ?thesis using True by simp
  next
    case False
    have "b \<in> set (reachable @ [current]) \<union> set (rev (refs_in by_id current) @ queue)"
      if "a \<in> set (reachable @ [current])" "(a, b) \<in> ref_steps by_id root_ids" for a b
    proof (cases "a = current")
      case True
      then show ?thesis using that(2) by (simp add: ref_steps_def)
    next
      case False
      then show ?thesis using "2.prems" [of a b] that by auto
    qed
    from "2.IH"(2) [OF False this] show ?thesis using False by auto
  qed
qed

lemma reachable_from_iff: "v \<in> set (reachable_from by_id root_ids m) \<longleftrightarrow> (m, v) \<in> (ref_steps by_id root_ids)\<^sup>*"
proof
  assume "v \<in> set (reachable_from by_id root_ids m)"
  moreover have "set (reachable_from by_id root_ids m) \<subseteq> (ref_steps by_id root_ids)\<^sup>* `` {m}"
    unfolding reachable_from_def by (rule reach_loop_sound) (auto simp: ref_steps_def)
  ultimately show "(m, v) \<in> (ref_steps by_id root_ids)\<^sup>*" by auto
next
  have c: "m \<in> set (reachable_from by_id root_ids m)"
    "\<And>a b. a \<in> set (reachable_from by_id root_ids m) \<Longrightarrow> (a, b) \<in> ref_steps by_id root_ids
       \<Longrightarrow> b \<in> set (reachable_from by_id root_ids m)"
    using reach_loop_closed [of "[m]" by_id root_ids "rev (refs_in by_id m)"]
    unfolding reachable_from_def by (auto simp: ref_steps_def)
  assume "(m, v) \<in> (ref_steps by_id root_ids)\<^sup>*"
  then show "v \<in> set (reachable_from by_id root_ids m)" by induction (use c in blast)+
qed

lemma reachable_from_self: "m \<in> set (reachable_from by_id root_ids m)"
  by (simp add: reachable_from_iff)

lemma reachable_from_root:
  assumes "v \<in> set (reachable_from by_id root_ids m)" and "v \<in> set root_ids"
  shows "v = m"
proof -
  have "(m, v) \<in> (ref_steps by_id root_ids)\<^sup>*" using assms(1) by (simp add: reachable_from_iff)
  then show ?thesis by (cases rule: rtranclE) (use assms(2) in \<open>auto simp: ref_steps_def\<close>)
qed

lemma reachable_from_known:
  assumes "v \<in> set (reachable_from by_id root_ids m)" and "m \<in> set (dkeys by_id)"
  shows "v \<in> set (dkeys by_id)"
proof -
  have "(m, v) \<in> (ref_steps by_id root_ids)\<^sup>*" using assms(1) by (simp add: reachable_from_iff)
  then show ?thesis by induction (use assms(2) in \<open>auto simp: ref_steps_def refs_in_def split: option.splits\<close>)
qed

section \<open>Roots\<close>

text \<open>The base rule and the completion loop of \<open>_resolve_root_ids\<close>.\<close>

definition base_roots :: "members \<Rightarrow> string list" where
  "base_roots by_id = (let referenced = concat (map (refs_in by_id) (dkeys by_id)) in
     filter (\<lambda>m. (case dget by_id m of None \<Rightarrow> False
        | Some r \<Rightarrow> rm_kind r \<in> set ROOT_WHATEVER_REFERENCES_IT \<or> rm_kind r \<notin> set RETENTION_KINDS \<or> m \<notin> set referenced))
       (dkeys by_id))"

lemma base_roots_iff: "m \<in> set (base_roots by_id) \<longleftrightarrow> m \<in> set (dkeys by_id) \<and> (\<exists>r. dget by_id m = Some r
    \<and> (rm_kind r \<in> set ROOT_WHATEVER_REFERENCES_IT \<or> rm_kind r \<notin> set RETENTION_KINDS
       \<or> (\<forall>k \<in> set (dkeys by_id). m \<notin> set (refs_in by_id k))))"
  unfolding base_roots_def Let_def by (simp split: option.split)

definition stranded_by :: "members \<Rightarrow> string list \<Rightarrow> string list" where
  "stranded_by by_id root_ids = (let covered = concat (map (reachable_from by_id root_ids) root_ids) in
     filter (\<lambda>m. m \<notin> set covered) (dkeys by_id))"

definition promoted :: "members \<Rightarrow> string list \<Rightarrow> string list" where
  "promoted by_id stranded = (let inner = filter (\<lambda>r. r \<in> set stranded) (concat (map (refs_in by_id) stranded)) in
     case sorted_set (filter (\<lambda>m. m \<notin> set inner) stranded) of [] \<Rightarrow> [Min (set stranded)] | ps \<Rightarrow> ps)"

lemma promoted_stranded:
  assumes "stranded \<noteq> []"
  shows "set (promoted by_id stranded) \<subseteq> set stranded \<and> promoted by_id stranded \<noteq> []"
proof -
  let ?outer = "filter (\<lambda>m. m \<notin> set (filter (\<lambda>r. r \<in> set stranded) (concat (map (refs_in by_id) stranded)))) stranded"
  have "set (sorted_set ?outer) \<subseteq> set stranded" unfolding set_sorted_set by auto
  moreover have "Min (set stranded) \<in> set stranded" using assms by simp
  moreover have "promoted by_id stranded = (case sorted_set ?outer of [] \<Rightarrow> [Min (set stranded)] | ps \<Rightarrow> ps)"
    by (simp only: promoted_def Let_def)
  ultimately show ?thesis by (cases "sorted_set ?outer") (simp_all only: list.simps set_simps, auto)
qed

lemma stranded_by_iff: "m \<in> set (stranded_by by_id root_ids)
    \<longleftrightarrow> m \<in> set (dkeys by_id) \<and> (\<forall>r \<in> set root_ids. m \<notin> set (reachable_from by_id root_ids r))"
  by (auto simp: stranded_by_def)

lemma stranded_not_root: "m \<in> set (stranded_by by_id root_ids) \<Longrightarrow> m \<notin> set root_ids"
  using reachable_from_self [of m by_id root_ids] unfolding stranded_by_iff by blast

function complete_roots :: "members \<Rightarrow> string list \<Rightarrow> string list" where
  "complete_roots by_id root_ids = (let stranded = stranded_by by_id root_ids in
     if stranded = [] then root_ids else complete_roots by_id (root_ids @ promoted by_id stranded))"
  by pat_completeness auto
termination
proof (relation "measure (\<lambda>(by_id, root_ids). card (set (dkeys by_id) - set root_ids))", simp)
  fix by_id :: members and root_ids stranded
  assume s: "stranded = stranded_by by_id root_ids" "stranded \<noteq> []"
  have new: "set (promoted by_id stranded) \<subseteq> set stranded" "promoted by_id stranded \<noteq> []"
    using promoted_stranded [OF s(2), of by_id] by blast+
  then obtain m where m: "m \<in> set (promoted by_id stranded)" by (cases "promoted by_id stranded") auto
  then have "m \<in> set (stranded_by by_id root_ids)" using new(1) s(1) by blast
  then have "m \<in> set (dkeys by_id)" "m \<notin> set root_ids" using stranded_not_root stranded_by_iff by blast+
  then have "card (set (dkeys by_id) - set (root_ids @ promoted by_id stranded)) < card (set (dkeys by_id) - set root_ids)"
    using m by (intro psubset_card_mono) auto
  then show "((by_id, root_ids @ promoted by_id stranded), by_id, root_ids)
      \<in> measure (\<lambda>(by_id, root_ids). card (set (dkeys by_id) - set root_ids))" by simp
qed

declare complete_roots.simps [simp del]

definition resolve_root_ids :: "members \<Rightarrow> string list" where
  "resolve_root_ids by_id = complete_roots by_id (base_roots by_id)"

lemma complete_roots_props:
  assumes "set root_ids \<subseteq> set (dkeys by_id)"
  shows "set root_ids \<subseteq> set (complete_roots by_id root_ids) \<and> set (complete_roots by_id root_ids) \<subseteq> set (dkeys by_id)
    \<and> stranded_by by_id (complete_roots by_id root_ids) = []"
  using assms
proof (induction by_id root_ids rule: complete_roots.induct)
  case (1 by_id root_ids)
  let ?s = "stranded_by by_id root_ids"
  show ?case
  proof (cases "?s = []")
    case True
    then show ?thesis using 1 by (simp add: complete_roots.simps [of by_id root_ids])
  next
    case False
    have "set (promoted by_id ?s) \<subseteq> set (dkeys by_id)"
      using promoted_stranded [OF False, of by_id] by (auto simp: stranded_by_def)
    then have "set (root_ids @ promoted by_id ?s) \<subseteq> set (dkeys by_id)" using "1.prems" by simp
    from "1.IH" [OF refl False this] show ?thesis
      using False by (simp add: complete_roots.simps [of by_id root_ids])
  qed
qed

lemma resolve_root_ids_props:
  shows "set (base_roots by_id) \<subseteq> set (resolve_root_ids by_id)"
    and "set (resolve_root_ids by_id) \<subseteq> set (dkeys by_id)"
    and "stranded_by by_id (resolve_root_ids by_id) = []"
  using complete_roots_props [of "base_roots by_id" by_id] unfolding resolve_root_ids_def
  by (auto simp: base_roots_def Let_def)

section \<open>The graph\<close>

record retention_root =
  rr_id :: string
  rr_kind :: string
  rr_family :: string
  rr_created :: rat
  rr_reachable :: "string list"
  rr_own_members :: "string list"
  rr_requires_classification :: bool
  rr_classification :: "string option"
  rr_shape :: "string option"
  rr_protected :: "string list"

record retention_graph =
  rg_roots :: "retention_root list"
  rg_members :: members
  rg_inbound :: "(string, string list) dict"
  rg_roots_by_id :: "(string, retention_root) dict"

datatype graph_error = DuplicateId string

definition index_member :: "members \<Rightarrow> retention_member \<Rightarrow> graph_error + members" where
  "index_member by_id m = (if rm_id m \<in> set (dkeys by_id) then Inl (DuplicateId (rm_id m))
     else Inr (dset (rm_id m) m by_id))"

definition own_reasons :: "members \<Rightarrow> string list \<Rightarrow> string \<Rightarrow> string list" where
  "own_reasons by_id root_ids m = (case dget by_id m of None \<Rightarrow> []
     | Some r \<Rightarrow> member_protection_reasons r (dkeys by_id)
         @ (if m \<in> set root_ids \<and> rm_kind r = ''wal_evidence'' then [''unreferenced-evidence''] else []))"

definition note_inbound :: "members \<Rightarrow> string list \<Rightarrow> (string, string list) dict \<Rightarrow> string \<Rightarrow> (string, string list) dict" where
  "note_inbound by_id root_ids inbound r =
     foldl (\<lambda>d reached. dset reached (List.insert r (dget_or d reached [])) d) inbound (reachable_from by_id root_ids r)"

definition root_of :: "members \<Rightarrow> string list \<Rightarrow> string \<Rightarrow> retention_member \<Rightarrow> retention_root" where
  "root_of by_id root_ids i m =
     (let reachable = reachable_from by_id root_ids i;
          requires = True;
          reasons = concat (map (own_reasons by_id root_ids) reachable)
            @ (if requires \<and> \<not> is_classified (rm_classification m) then [''unclassified''] else [])
      in \<lparr>rr_id = i, rr_kind = rm_kind m, rr_family = rm_family m, rr_created = rm_created m,
          rr_reachable = reachable, rr_own_members = filter (\<lambda>x. x \<notin> set root_ids) reachable,
          rr_requires_classification = requires, rr_classification = rm_classification m,
          rr_shape = rm_shape m, rr_protected = sorted_set reasons\<rparr>)"

text \<open>Every kind of \<open>_KIND_REQUIRES_CLASSIFICATION\<close> maps to true, and so does the default for others.\<close>

definition build_graph :: "retention_member list \<Rightarrow> graph_error + retention_graph" where
  "build_graph members = rbind (rfold index_member [] members) (\<lambda>by_id.
     (let root_ids = sorted_set (resolve_root_ids by_id);
          roots = sort_key (\<lambda>r. (rr_created r, rr_id r))
            (map (\<lambda>i. root_of by_id root_ids i (the (dget by_id i))) root_ids)
      in Inr \<lparr>rg_roots = roots, rg_members = by_id,
           rg_inbound = foldl (note_inbound by_id root_ids) (map (\<lambda>m. (m, [])) (dkeys by_id)) root_ids,
           rg_roots_by_id = map (\<lambda>r. (rr_id r, r)) roots\<rparr>))"

section \<open>What the graph guarantees\<close>

lemma index_members:
  "rfold index_member d ms = Inr by_id \<longleftrightarrow>
     by_id = d @ map (\<lambda>m. (rm_id m, m)) ms \<and> distinct (map rm_id ms) \<and> set (map rm_id ms) \<inter> set (dkeys d) = {}"
proof (induction ms arbitrary: d)
  case (Cons m ms)
  show ?case
  proof (cases "rm_id m \<in> set (dkeys d)")
    case True
    then show ?thesis by (simp add: index_member_def)
  next
    case False
    then have "index_member d m = Inr (d @ [(rm_id m, m)])" by (simp add: index_member_def dset_append dget_None_iff)
    then show ?thesis using False Cons.IH [of "d @ [(rm_id m, m)]"] by (auto simp: dkeys_def)
  qed
qed auto

text \<open>A dictionary of sets of roots after the loop over \<open>done\<close>.\<close>

definition inbound_of :: "members \<Rightarrow> string list \<Rightarrow> string list \<Rightarrow> (string, string list) dict \<Rightarrow> bool" where
  "inbound_of by_id root_ids done d \<longleftrightarrow> dkeys d = dkeys by_id
     \<and> (\<forall>m \<in> set (dkeys by_id). distinct (dget_or d m [])
          \<and> set (dget_or d m []) = {r \<in> set done. m \<in> set (reachable_from by_id root_ids r)})"

lemma note_reached:
  assumes "set reached \<subseteq> set (dkeys d)" and "\<And>m. distinct (dget_or d m [])"
  shows "let d' = foldl (\<lambda>d x. dset x (List.insert r (dget_or d x [])) d) d reached in dkeys d' = dkeys d
    \<and> (\<forall>m. distinct (dget_or d' m []) \<and> set (dget_or d' m []) = set (dget_or d m []) \<union> (if m \<in> set reached then {r} else {}))"
  using assms
proof (induction reached arbitrary: d)
  case (Cons x xs)
  let ?d = "dset x (List.insert r (dget_or d x [])) d"
  have k: "dkeys ?d = dkeys d" using Cons.prems(1) by (simp add: dkeys_update)
  have "set xs \<subseteq> set (dkeys ?d)" using Cons.prems(1) unfolding k by simp
  moreover have "distinct (dget_or ?d m [])" for m using Cons.prems(2) by (simp add: dget_or_dset)
  ultimately show ?case using Cons.IH [of ?d] k by (auto simp: Let_def dget_or_dset)
qed (simp add: Let_def)

lemma inbound_step:
  assumes "inbound_of by_id root_ids done d" and "r \<in> set (dkeys by_id)" and "wf_dict by_id"
  shows "inbound_of by_id root_ids (done @ [r]) (note_inbound by_id root_ids d r)"
proof -
  have k: "dkeys d = dkeys by_id" using assms(1) by (simp add: inbound_of_def)
  have "distinct (dget_or d m [])" for m
  proof (cases "m \<in> set (dkeys by_id)")
    case False
    then have "dget d m = None" using k by (simp add: dget_None_iff)
    then show ?thesis by (simp add: dget_or_def)
  qed (use assms(1) in \<open>simp add: inbound_of_def\<close>)
  moreover have "set (reachable_from by_id root_ids r) \<subseteq> set (dkeys d)"
    using reachable_from_known [OF _ assms(2)] k by auto
  ultimately show ?thesis
    using note_reached [of "reachable_from by_id root_ids r" d r] assms(1) k
    by (auto simp: inbound_of_def note_inbound_def Let_def)
qed

lemma inbound_fold:
  assumes "inbound_of by_id root_ids done d" and "set rs \<subseteq> set (dkeys by_id)" and "wf_dict by_id"
  shows "inbound_of by_id root_ids (done @ rs) (foldl (note_inbound by_id root_ids) d rs)"
  using assms
proof (induction rs arbitrary: "done" d)
  case (Cons r rs)
  from Cons.IH [OF inbound_step [OF Cons.prems(1)]] Cons.prems show ?case by simp
qed simp

text \<open>
  What the planner knows of a graph: its members under their ids, its roots one per id, in the order of their
  age, each with what it reaches without passing another root, and the inverse index.
\<close>

definition root_ids_of :: "retention_graph \<Rightarrow> string list" where
  "root_ids_of g = map rr_id (rg_roots g)"

definition graph_ok :: "retention_graph \<Rightarrow> bool" where
  "graph_ok g \<longleftrightarrow> wf_dict (rg_members g) \<and> (\<forall>(k, m) \<in> set (rg_members g). rm_id m = k)
     \<and> distinct (root_ids_of g) \<and> set (root_ids_of g) \<subseteq> set (dkeys (rg_members g))
     \<and> sorted (map (\<lambda>r. (rr_created r, rr_id r)) (rg_roots g))
     \<and> rg_roots_by_id g = map (\<lambda>r. (rr_id r, r)) (rg_roots g)
     \<and> (\<forall>r \<in> set (rg_roots g). distinct (rr_reachable r) \<and> dget (rg_members g) (rr_id r) \<noteq> None
          \<and> r = root_of (rg_members g) (root_ids_of g) (rr_id r) (the (dget (rg_members g) (rr_id r))))
     \<and> stranded_by (rg_members g) (root_ids_of g) = []
     \<and> inbound_of (rg_members g) (root_ids_of g) (root_ids_of g) (rg_inbound g)"

lemma reach_loop_cong: "set A = set B \<Longrightarrow> reach_loop by_id A reachable queue = reach_loop by_id B reachable queue"
  by (induction by_id A reachable queue rule: reach_loop.induct) simp_all

lemma reachable_from_cong: "set A = set B \<Longrightarrow> reachable_from by_id A = reachable_from by_id B"
  by (intro ext) (unfold reachable_from_def, rule reach_loop_cong)

lemma root_of_cong: "set A = set B \<Longrightarrow> root_of by_id A i m = root_of by_id B i m"
proof -
  assume s: "set A = set B"
  then have "own_reasons by_id A = own_reasons by_id B" by (intro ext) (simp add: own_reasons_def split: option.split)
  then show ?thesis unfolding root_of_def reachable_from_cong [OF s] s by simp
qed

lemma reach_loop_distinct: "distinct reachable \<Longrightarrow> distinct (reach_loop by_id root_ids reachable queue)"
  by (induction by_id root_ids reachable queue rule: reach_loop.induct) simp_all

lemma reachable_from_distinct: "distinct (reachable_from by_id root_ids m)"
  by (simp add: reachable_from_def reach_loop_distinct)

lemma stranded_by_cong: "set A = set B \<Longrightarrow> stranded_by by_id A = stranded_by by_id B"
  unfolding stranded_by_def Let_def set_concat set_map by (simp only: reachable_from_cong [of A B])

lemma inbound_of_cong:
  "set A = set B \<Longrightarrow> set C = set D \<Longrightarrow> inbound_of by_id A C d \<longleftrightarrow> inbound_of by_id B D d"
  unfolding inbound_of_def by (simp only: reachable_from_cong [of A B])

lemma root_of_id [simp]: "rr_id (root_of by_id root_ids i m) = i"
  by (simp add: root_of_def Let_def)

lemma root_of_reachable: "rr_reachable (root_of by_id root_ids i m) = reachable_from by_id root_ids i"
  by (simp add: root_of_def Let_def)

lemma build_graphE:
  assumes "build_graph ms = Inr g"
  shows "rg_members g = map (\<lambda>m. (rm_id m, m)) ms" and "distinct (map rm_id ms)"
    and "set (root_ids_of g) = set (resolve_root_ids (rg_members g))" and "graph_ok g"
proof -
  let ?d = "map (\<lambda>m. (rm_id m, m)) ms"
  let ?R = "sorted_set (resolve_root_ids ?d)"
  let ?roots = "sort_key (\<lambda>r. (rr_created r, rr_id r)) (map (\<lambda>i. root_of ?d ?R i (the (dget ?d i))) ?R)"
  have idx: "rfold index_member [] ms = Inr ?d" and dist: "distinct (map rm_id ms)"
    using assms by (auto simp: build_graph_def rbind_Inr_iff index_members)
  then have g: "g = \<lparr>rg_roots = ?roots, rg_members = ?d,
      rg_inbound = foldl (note_inbound ?d ?R) (map (\<lambda>m. (m, [])) (dkeys ?d)) ?R,
      rg_roots_by_id = map (\<lambda>r. (rr_id r, r)) ?roots\<rparr>"
    using assms by (simp add: build_graph_def Let_def)
  show "rg_members g = ?d" "distinct (map rm_id ms)" by (simp_all add: g dist)
  have ids: "mset (root_ids_of g) = mset ?R"
  proof -
    have "mset (map rr_id ?roots) = image_mset rr_id (mset (map (\<lambda>i. root_of ?d ?R i (the (dget ?d i))) ?R))"
      unfolding mset_map mset_sort ..
    also have "\<dots> = mset (map rr_id (map (\<lambda>i. root_of ?d ?R i (the (dget ?d i))) ?R))" by (simp only: mset_map)
    also have "map rr_id (map (\<lambda>i. root_of ?d ?R i (the (dget ?d i))) ?R) = ?R" by (simp add: comp_def)
    finally show ?thesis by (simp add: root_ids_of_def g)
  qed
  then have sids: "set (root_ids_of g) = set ?R" by (rule mset_eq_setD)
  then show "set (root_ids_of g) = set (resolve_root_ids (rg_members g))" by (simp add: g)
  have wf: "wf_dict ?d" using dist by (simp add: wf_dict_def comp_def)
  have sub: "set ?R \<subseteq> set (dkeys ?d)" using resolve_root_ids_props(2) by simp
  have "inbound_of ?d ?R [] (map (\<lambda>m. (m, [])) (dkeys ?d))"
    by (auto simp: inbound_of_def dkeys_def comp_def dget_or_def split: option.split dest!: map_of_SomeD)
  from inbound_fold [OF this sub wf] have inb: "inbound_of ?d ?R ?R (rg_inbound g)" by (simp add: g)
  have "stranded_by ?d ?R = []" using resolve_root_ids_props(3) [of ?d] stranded_by_cong [of ?R "resolve_root_ids ?d"] by simp
  moreover have req: "root_of ?d ?R = root_of ?d (root_ids_of g)" by (intro ext root_of_cong) (simp only: sids)
  moreover have "distinct (root_ids_of g)" using ids by (metis mset_eq_imp_distinct_iff distinct_sorted_set)
  moreover have "distinct (rr_reachable r) \<and> dget ?d (rr_id r) \<noteq> None
      \<and> r = root_of ?d (root_ids_of g) (rr_id r) (the (dget ?d (rr_id r)))" if r: "r \<in> set (rg_roots g)" for r
  proof -
    obtain i where i: "i \<in> set ?R" "r = root_of ?d ?R i (the (dget ?d i))" using r by (auto simp: g)
    have "i \<in> set (dkeys ?d)" using i(1) sub by blast
    then have "dget ?d i \<noteq> None" using dget_None_iff [of ?d i] by blast
    then show ?thesis unfolding i(2) root_of_id req root_of_reachable using reachable_from_distinct by blast
  qed
  moreover have "sorted (map (\<lambda>r. (rr_created r, rr_id r)) (rg_roots g))" by (simp add: g)
  moreover have "rg_members g = ?d" "rg_roots_by_id g = map (\<lambda>r. (rr_id r, r)) (rg_roots g)" by (simp_all add: g)
  ultimately show "graph_ok g"
    using wf sub sids inb inbound_of_cong [OF sids sids] stranded_by_cong [OF sids] unfolding graph_ok_def by auto
qed

text \<open>Root \<open>r\<close> reaches member \<open>m\<close>.\<close>

definition reaches :: "retention_graph \<Rightarrow> string \<Rightarrow> string \<Rightarrow> bool" where
  "reaches g r m \<longleftrightarrow> r \<in> set (root_ids_of g) \<and> m \<in> set (reachable_from (rg_members g) (root_ids_of g) r)"

lemma reaches_member: "graph_ok g \<Longrightarrow> reaches g r m \<Longrightarrow> m \<in> set (dkeys (rg_members g))"
  unfolding graph_ok_def reaches_def using reachable_from_known by blast

lemma reaches_root: "reaches g r m \<Longrightarrow> m \<in> set (root_ids_of g) \<Longrightarrow> m = r"
  unfolding reaches_def using reachable_from_root by blast

lemma reaches_self: "reaches g r r \<longleftrightarrow> r \<in> set (root_ids_of g)"
  unfolding reaches_def using reachable_from_self by blast

lemma reaches_step:
  assumes "reaches g r a" and "b \<in> set (refs_in (rg_members g) a)" and "b \<notin> set (root_ids_of g)"
  shows "reaches g r b"
  using assms unfolding reaches_def reachable_from_iff
  by (metis (mono_tags, lifting) case_prodI mem_Collect_eq ref_steps_def rtrancl.rtrancl_into_rtrancl)

lemma reached: "graph_ok g \<Longrightarrow> m \<in> set (dkeys (rg_members g)) \<Longrightarrow> \<exists>r. reaches g r m"
proof -
  assume g: "graph_ok g" "m \<in> set (dkeys (rg_members g))"
  have "m \<notin> set (stranded_by (rg_members g) (root_ids_of g))" using g(1) by (simp add: graph_ok_def)
  then show ?thesis using g(2) unfolding stranded_by_iff reaches_def by blast
qed

lemma inbound_reaches:
  assumes "graph_ok g"
  shows "dkeys (rg_inbound g) = dkeys (rg_members g)" and "distinct (dget_or (rg_inbound g) m [])"
    and "set (dget_or (rg_inbound g) m []) = {r. reaches g r m}"
proof -
  have i: "inbound_of (rg_members g) (root_ids_of g) (root_ids_of g) (rg_inbound g)" using assms by (simp add: graph_ok_def)
  then show k: "dkeys (rg_inbound g) = dkeys (rg_members g)" by (simp add: inbound_of_def)
  have "distinct (dget_or (rg_inbound g) m []) \<and> set (dget_or (rg_inbound g) m []) = {r. reaches g r m}"
  proof (cases "m \<in> set (dkeys (rg_members g))")
    case True
    then show ?thesis using i by (simp add: inbound_of_def reaches_def)
  next
    case False
    then have "dget (rg_inbound g) m = None" using k dget_None_iff [of "rg_inbound g" m] by simp
    moreover have "\<not> reaches g r m" for r using False reaches_member [OF assms] by blast
    ultimately show ?thesis by (simp add: dget_or_def)
  qed
  then show "distinct (dget_or (rg_inbound g) m [])" "set (dget_or (rg_inbound g) m []) = {r. reaches g r m}" by blast+
qed

lemma root_lookup:
  assumes "graph_ok g"
  shows "dget (rg_roots_by_id g) i = Some r \<longleftrightarrow> r \<in> set (rg_roots g) \<and> rr_id r = i"
proof -
  have "wf_dict (rg_roots_by_id g)" "rg_roots_by_id g = map (\<lambda>r. (rr_id r, r)) (rg_roots g)"
    using assms by (simp_all add: graph_ok_def root_ids_of_def wf_dict_def comp_def)
  then show ?thesis using dget_wf_iff [of "rg_roots_by_id g" i r] by auto
qed

lemma root_lookup_None: "graph_ok g \<Longrightarrow> dget (rg_roots_by_id g) i = None \<longleftrightarrow> i \<notin> set (root_ids_of g)"
  by (auto simp: graph_ok_def root_ids_of_def dget_None_iff dkeys_def)

lemma root_reaches:
  assumes "graph_ok g" and "r \<in> set (rg_roots g)"
  shows "m \<in> set (rr_reachable r) \<longleftrightarrow> reaches g (rr_id r) m" and "distinct (rr_reachable r)"
proof -
  have r: "r = root_of (rg_members g) (root_ids_of g) (rr_id r) (the (dget (rg_members g) (rr_id r)))" "distinct (rr_reachable r)"
    using assms unfolding graph_ok_def by blast+
  have "rr_reachable r = reachable_from (rg_members g) (root_ids_of g) (rr_id r)"
    using arg_cong [OF r(1), of rr_reachable] unfolding root_of_reachable .
  moreover have "rr_id r \<in> set (root_ids_of g)" using assms(2) by (simp add: root_ids_of_def)
  ultimately show "m \<in> set (rr_reachable r) \<longleftrightarrow> reaches g (rr_id r) m" by (simp add: reaches_def)
  show "distinct (rr_reachable r)" by (rule r(2))
qed

text \<open>The root's own fields are its member's, and its reasons are those of everything it reaches.\<close>

lemma root_fields:
  assumes "graph_ok g" and "r \<in> set (rg_roots g)"
  obtains m where "dget (rg_members g) (rr_id r) = Some m" "rr_kind r = rm_kind m" "rr_family r = rm_family m"
    "rr_created r = rm_created m" "rr_shape r = rm_shape m" "rr_classification r = rm_classification m"
    "rr_protected r = [] \<longleftrightarrow> is_classified (rm_classification m)
       \<and> (\<forall>x. reaches g (rr_id r) x \<longrightarrow> own_reasons (rg_members g) (root_ids_of g) x = [])"
proof -
  obtain m where m: "dget (rg_members g) (rr_id r) = Some m"
    "r = root_of (rg_members g) (root_ids_of g) (rr_id r) m"
    using assms unfolding graph_ok_def by force
  have empty: "sorted_set xs = [] \<longleftrightarrow> xs = []" for xs :: "string list"
    using set_sorted_set [of xs] by (metis set_empty)
  have "rr_protected (root_of by_id root_ids i m) = [] \<longleftrightarrow> is_classified (rm_classification m)
       \<and> (\<forall>x \<in> set (rr_reachable (root_of by_id root_ids i m)). own_reasons by_id root_ids x = [])" for by_id root_ids i
    by (simp add: root_of_def Let_def empty)
  then have "rr_protected r = [] \<longleftrightarrow> is_classified (rm_classification m)
       \<and> (\<forall>x \<in> set (rr_reachable r). own_reasons (rg_members g) (root_ids_of g) x = [])"
    using m(2) by metis
  then have prot: "rr_protected r = [] \<longleftrightarrow> is_classified (rm_classification m)
       \<and> (\<forall>x. reaches g (rr_id r) x \<longrightarrow> own_reasons (rg_members g) (root_ids_of g) x = [])"
    using root_reaches(1) [OF assms] by blast
  have "rr_kind (root_of by_id root_ids i m) = rm_kind m" "rr_family (root_of by_id root_ids i m) = rm_family m"
    "rr_created (root_of by_id root_ids i m) = rm_created m" "rr_shape (root_of by_id root_ids i m) = rm_shape m"
    "rr_classification (root_of by_id root_ids i m) = rm_classification m" for by_id root_ids i
    by (simp_all add: root_of_def Let_def)
  then show ?thesis using that [OF m(1) _ _ _ _ _ prot] m(2) by metis
qed

text \<open>C20: building the graph fails exactly on a duplicate id. Otherwise every member is reached by a root, no root
  is reached by another, the inverse index lists exactly the roots that reach a member, and every incident,
  backup, member of an unrecognized kind and member nothing references is a root.\<close>

theorem graph_invariants:
  "(case build_graph ms of Inl e \<Rightarrow> \<not> distinct (map rm_id ms)
    | Inr g \<Rightarrow> distinct (map rm_id ms) \<and> dkeys (rg_members g) = map rm_id ms
        \<and> set (map rr_id (rg_roots g)) \<subseteq> rm_id ` set ms
        \<and> (\<forall>m \<in> set ms. \<exists>r \<in> set (rg_roots g). rm_id m \<in> set (rr_reachable r))
        \<and> (\<forall>r \<in> set (rg_roots g). \<forall>q \<in> set (rg_roots g). rr_id q \<in> set (rr_reachable r) \<longrightarrow> q = r)
        \<and> (\<forall>m \<in> set ms. set (dget_or (rg_inbound g) (rm_id m) []) = rr_id ` {r \<in> set (rg_roots g). rm_id m \<in> set (rr_reachable r)})
        \<and> (\<forall>m \<in> set ms. rm_kind m \<in> {''incident'', ''backup''} \<or> rm_kind m \<notin> set RETENTION_KINDS
             \<or> (\<forall>n \<in> set ms. rm_id m \<notin> set (rm_references n)) \<longrightarrow> rm_id m \<in> rr_id ` set (rg_roots g)))"
proof (cases "build_graph ms")
  case (Inl e)
  then have "rfold index_member [] ms \<noteq> Inr (map (\<lambda>m. (rm_id m, m)) ms)" by (auto simp: build_graph_def Let_def)
  then show ?thesis using Inl by (simp add: index_members dkeys_def)
next
  case (Inr g)
  note b = build_graphE [OF Inr]
  have keys: "dkeys (rg_members g) = map rm_id ms" by (simp add: b(1) dkeys_def comp_def)
  have ids: "rr_id ` set (rg_roots g) = set (root_ids_of g)" by (simp add: root_ids_of_def)
  have look: "dget (rg_members g) (rm_id m) = Some m" if "m \<in> set ms" for m
    using that b(2) by (simp add: b(1) map_of_eq_Some_iff comp_def image_iff)
  have sub: "set (root_ids_of g) \<subseteq> rm_id ` set ms" using b(4) keys by (simp add: graph_ok_def)
  have some: "\<exists>r \<in> set (rg_roots g). rr_id r = i \<and> (m \<in> set (rr_reachable r) \<longleftrightarrow> reaches g i m)" if "reaches g i m" for i m
    using that root_reaches(1) [OF b(4)] unfolding reaches_def ids [symmetric] by blast
  have cover: "\<exists>r \<in> set (rg_roots g). rm_id m \<in> set (rr_reachable r)" if "m \<in> set ms" for m
    using reached [OF b(4), of "rm_id m"] that some keys by fastforce
  have anti: "q = r" if "r \<in> set (rg_roots g)" "q \<in> set (rg_roots g)" "rr_id q \<in> set (rr_reachable r)" for q r
  proof -
    have "rr_id q = rr_id r" using reaches_root [of g "rr_id r" "rr_id q"] root_reaches(1) [OF b(4) that(1)] that(2,3) ids by blast
    then show ?thesis using root_lookup [OF b(4)] that(1,2) by (metis option.inject)
  qed
  have inb: "set (dget_or (rg_inbound g) m []) = rr_id ` {r \<in> set (rg_roots g). m \<in> set (rr_reachable r)}" for m
    unfolding inbound_reaches(3) [OF b(4)] using some root_reaches(1) [OF b(4)] by blast
  have base: "rm_id m \<in> set (root_ids_of g)"
    if m: "m \<in> set ms" "rm_kind m \<in> {''incident'', ''backup''} \<or> rm_kind m \<notin> set RETENTION_KINDS
             \<or> (\<forall>n \<in> set ms. rm_id m \<notin> set (rm_references n))" for m
  proof -
    have "rm_id m \<notin> set (refs_in (rg_members g) k)" if "\<forall>n \<in> set ms. rm_id m \<notin> set (rm_references n)" for k
    proof (cases "dget (rg_members g) k")
      case (Some n)
      then have "n \<in> set ms" unfolding b(1) by (auto dest: map_of_SomeD)
      then show ?thesis using that Some by (simp add: refs_in_def)
    qed (simp add: refs_in_def)
    then have "rm_kind m \<in> set ROOT_WHATEVER_REFERENCES_IT \<or> rm_kind m \<notin> set RETENTION_KINDS
        \<or> (\<forall>k \<in> set (dkeys (rg_members g)). rm_id m \<notin> set (refs_in (rg_members g) k))"
      using m(2) unfolding ROOT_WHATEVER_REFERENCES_IT_def by auto
    then have "rm_id m \<in> set (base_roots (rg_members g))"
      using look [OF m(1)] keys m(1) unfolding base_roots_iff by simp
    then show ?thesis using resolve_root_ids_props(1) b(3) by blast
  qed
  have sub': "set (map rr_id (rg_roots g)) \<subseteq> rm_id ` set ms" using sub ids by simp
  show ?thesis unfolding Inr sum.case
    by (intro conjI ballI impI b(2) keys sub' cover inb) (simp_all only: anti base ids)
qed

section \<open>A concrete corpus\<close>

text \<open>Two classified incidents that share a bundle, one of them through a second bundle, and one unclassified incident.\<close>

definition demo_member :: "string \<Rightarrow> string \<Rightarrow> rat \<Rightarrow> int \<Rightarrow> string list \<Rightarrow> string option \<Rightarrow> string option \<Rightarrow> retention_member" where
  "demo_member i kind created disk refs confidence shape = \<lparr>rm_id = i, rm_kind = kind, rm_family = ''stats'', rm_created = created,
     rm_disk = disk, rm_logical = disk, rm_references = refs, rm_symlink = False, rm_in_root = True, rm_exists = True,
     rm_valid = True, rm_classification = confidence, rm_shape = shape, rm_finalized = True, rm_active = False\<rparr>"

definition demo_members :: "retention_member list" where
  "demo_members = [demo_member ''i1'' ''incident'' 1 10 [''b''] (Some ''exact'') (Some ''x''),
     demo_member ''i2'' ''incident'' 2 20 [''b'', ''c''] (Some ''exact'') (Some ''x''),
     demo_member ''i3'' ''incident'' 3 7 [] None None,
     demo_member ''b'' ''bundle'' 2 5 [] None None, demo_member ''c'' ''bundle'' 2 1 [''b''] None None]"

definition demo_by :: members where
  "demo_by = map (\<lambda>m. (rm_id m, m)) demo_members"

definition demo_root :: "string \<Rightarrow> rat \<Rightarrow> string list \<Rightarrow> string option \<Rightarrow> string option \<Rightarrow> string list \<Rightarrow> retention_root" where
  "demo_root i created own confidence shape protected = \<lparr>rr_id = i, rr_kind = ''incident'', rr_family = ''stats'', rr_created = created,
     rr_reachable = i # own, rr_own_members = own, rr_requires_classification = True, rr_classification = confidence,
     rr_shape = shape, rr_protected = protected\<rparr>"

definition demo_roots :: "retention_root list" where
  "demo_roots = [demo_root ''i1'' 1 [''b''] (Some ''exact'') (Some ''x'') [], demo_root ''i2'' 2 [''c'', ''b''] (Some ''exact'') (Some ''x'') [],
     demo_root ''i3'' 3 [] None None [''unclassified'']]"

definition demo_graph :: retention_graph where
  "demo_graph = \<lparr>rg_roots = demo_roots, rg_members = demo_by,
     rg_inbound = [(''i1'', [''i1'']), (''i2'', [''i2'']), (''i3'', [''i3'']), (''b'', [''i2'', ''i1'']), (''c'', [''i2''])],
     rg_roots_by_id = map (\<lambda>r. (rr_id r, r)) demo_roots\<rparr>"

lemma demo_built: "build_graph demo_members = Inr demo_graph"
proof -
  have 1: "rfold index_member [] demo_members = Inr demo_by" by code_simp
  have 2: "sorted_set (resolve_root_ids demo_by) = [''i1'', ''i2'', ''i3'']" by code_simp
  have 3: "sort_key (\<lambda>r. (rr_created r, rr_id r)) (map (\<lambda>i. root_of demo_by [''i1'', ''i2'', ''i3''] i (the (dget demo_by i)))
    [''i1'', ''i2'', ''i3'']) = demo_roots" by code_simp
  have 4: "foldl (note_inbound demo_by [''i1'', ''i2'', ''i3'']) (map (\<lambda>m. (m, [])) (dkeys demo_by)) [''i1'', ''i2'', ''i3'']
    = rg_inbound demo_graph" by code_simp
  show ?thesis unfolding build_graph_def 1 rbind_simps Let_def 2 3 4 by (simp add: demo_graph_def)
qed

theorem graph_invariants_witness:
  "\<not> isl (build_graph demo_members) \<and> (\<exists>r \<in> set (rg_roots demo_graph). ''c'' \<in> set (rr_reachable r))
    \<and> set (dget_or (rg_inbound demo_graph) ''b'' []) = rr_id ` {r \<in> set (rg_roots demo_graph). ''b'' \<in> set (rr_reachable r)}"
proof -
  have m: "demo_member ''b'' ''bundle'' 2 5 [] None None \<in> set demo_members" "demo_member ''c'' ''bundle'' 2 1 [''b''] None None \<in> set demo_members"
    by (simp_all add: demo_members_def)
  note I = graph_invariants [of demo_members, unfolded demo_built sum.case]
  have "\<forall>m \<in> set demo_members. \<exists>r \<in> set (rg_roots demo_graph). rm_id m \<in> set (rr_reachable r)"
    "\<forall>m \<in> set demo_members. set (dget_or (rg_inbound demo_graph) (rm_id m) []) = rr_id ` {r \<in> set (rg_roots demo_graph). rm_id m \<in> set (rr_reachable r)}"
    using I by blast+
  from bspec [OF this(1) m(2)] bspec [OF this(2) m(1)] show ?thesis by (simp add: demo_built demo_member_def)
qed

end
