(* ===== verification/Retention_Selection.thy ===== *)
theory Retention_Selection
  imports Retention_Graph
begin

text \<open>
  Selecting roots for deletion, \<open>bin/_lib_artifact_retention.py\<close>: the deletion closure of a set of roots
  (\<open>deletion_closure\<close>), the order in which a closure is removed (\<open>_closure_order\<close>), and the class \<open>_Selection\<close>,
  which maintains the closure, its bytes and the surviving roots per family as roots are added.
\<close>

section \<open>The deletion closure\<close>

definition deletion_closure :: "retention_graph \<Rightarrow> string list \<Rightarrow> string list" where
  "deletion_closure g selected = (if selected = [] then [] else
     filter (\<lambda>m. set (dget_or (rg_inbound g) m []) \<subseteq> set selected)
       (remdups (concat (map (\<lambda>r. case dget (rg_roots_by_id g) r of None \<Rightarrow> [] | Some rt \<Rightarrow> rr_reachable rt) selected))))"

section \<open>The deletion order\<close>

definition references_of :: "retention_graph \<Rightarrow> string \<Rightarrow> string list" where
  "references_of g m = (case dget (rg_members g) m of None \<Rightarrow> [] | Some r \<Rightarrow> rm_references r)"

text \<open>The pre-order walk; the head of the list is the end of the stack the code pops from.\<close>

function closure_walk :: "retention_graph \<Rightarrow> string list \<Rightarrow> string list \<Rightarrow> string list \<Rightarrow> string list" where
  "closure_walk g closure seen [] = seen"
| "closure_walk g closure seen (current # stack) =
     (if current \<in> set seen \<or> current \<notin> set closure then closure_walk g closure seen stack
      else closure_walk g closure (seen @ [current]) (refs_in (rg_members g) current @ stack))"
  by pat_completeness auto
termination
proof (relation "measures [\<lambda>(g, closure, seen, stack). card (set closure - set seen), \<lambda>(g, closure, seen, stack). length stack]",
    simp, simp)
  fix g :: retention_graph and closure seen :: "string list" and current stack
  assume "\<not> (current \<in> set seen \<or> current \<notin> set closure)"
  then have "card (set closure - insert current (set seen)) < card (set closure - set seen)"
    by (intro psubset_card_mono) auto
  then show "((g, closure, seen @ [current], refs_in (rg_members g) current @ stack), g, closure, seen, current # stack)
    \<in> measures [\<lambda>(g, closure, seen, stack). card (set closure - set seen), \<lambda>(g, closure, seen, stack). length stack]"
    by simp
qed

definition referrers_in :: "retention_graph \<Rightarrow> string list \<Rightarrow> string \<Rightarrow> string list" where
  "referrers_in g candidates m = filter (\<lambda>c. c \<noteq> m \<and> m \<in> set (references_of g c)) candidates"

text \<open>The emission loop: the first pending candidate all of whose referrers are out, or else the first pending one.\<close>

definition choose_next :: "('a \<Rightarrow> 'a list) \<Rightarrow> 'a list \<Rightarrow> 'a list \<Rightarrow> 'a" where
  "choose_next referrers ordered pending = (case find (\<lambda>m. set (referrers m) \<subseteq> set ordered) pending of
     None \<Rightarrow> hd pending | Some m \<Rightarrow> m)"

lemma choose_next_mem: "pending \<noteq> [] \<Longrightarrow> choose_next referrers ordered pending \<in> set pending"
  by (auto simp: choose_next_def find_Some_iff split: option.split)

function emit_order :: "('a \<Rightarrow> 'a list) \<Rightarrow> 'a list \<Rightarrow> 'a list \<Rightarrow> 'a list" where
  "emit_order referrers ordered pending = (if pending = [] then ordered
     else let chosen = choose_next referrers ordered pending in
       emit_order referrers (ordered @ [chosen]) (remove1 chosen pending))"
  by pat_completeness auto
termination
  by (relation "measure (\<lambda>(referrers, ordered, pending). length pending)")
    (auto simp: length_remove1 choose_next_mem intro!: diff_less)

declare emit_order.simps [simp del]

definition closure_order :: "retention_graph \<Rightarrow> string \<Rightarrow> string list \<Rightarrow> string list" where
  "closure_order g root_id closure = (let candidates = closure_walk g closure [] [root_id] in
     emit_order (referrers_in g candidates) [] candidates)"

section \<open>The selection\<close>

record selection =
  sl_root_ids :: "string list"
  sl_order :: "string list"
  sl_groups :: "(string \<times> string list) list"
  sl_reasons :: "(string, string) dict"
  sl_pending :: "(string, int) dict"
  sl_reached_by :: "(string, string list) dict"
  sl_closed :: "string list"
  sl_bytes :: int
  sl_counts :: "(string, int) dict"

definition reached_by_of :: "(string, string list) dict \<Rightarrow> (string, string list) dict" where
  "reached_by_of inbound = foldl (\<lambda>d (m, roots). foldl (\<lambda>d r. dset r (dget_or d r [] @ [m]) d) d roots) [] inbound"

definition family_counts :: "retention_root list \<Rightarrow> (string, int) dict" where
  "family_counts roots = foldl (\<lambda>d r. dset (rr_family r) (dget_or d (rr_family r) 0 + 1) d) [] roots"

definition new_selection :: "retention_graph \<Rightarrow> selection" where
  "new_selection g = \<lparr>sl_root_ids = [], sl_order = [], sl_groups = [], sl_reasons = [],
     sl_pending = map (\<lambda>(m, roots). (m, int (length roots))) (filter (\<lambda>(m, roots). roots \<noteq> []) (rg_inbound g)),
     sl_reached_by = reached_by_of (rg_inbound g), sl_closed = [], sl_bytes = 0,
     sl_counts = family_counts (rg_roots g)\<rparr>"

definition disk_of :: "retention_graph \<Rightarrow> string \<Rightarrow> int" where
  "disk_of g m = (case dget (rg_members g) m of None \<Rightarrow> 0 | Some r \<Rightarrow> rm_disk r)"

definition drop_root :: "retention_graph \<Rightarrow> (string, int) dict \<Rightarrow> string \<Rightarrow> (string, int) dict" where
  "drop_root g counts m = (case dget (rg_roots_by_id g) m of None \<Rightarrow> counts
     | Some rt \<Rightarrow> (let n = dget_or counts (rr_family rt) 0 in
         if n \<noteq> 0 then dset (rr_family rt) (n - 1) counts else counts))"

text \<open>One member of the countdown in \<open>add\<close>, with the members closed by this addition.\<close>

definition count_down :: "retention_graph \<Rightarrow> selection \<times> string list \<Rightarrow> string \<Rightarrow> selection \<times> string list" where
  "count_down g st m = (case st of (s, newly) \<Rightarrow>
     (let remaining = dget_or (sl_pending s) m 0 - 1; s' = s\<lparr>sl_pending := dset m remaining (sl_pending s)\<rparr> in
      if remaining \<noteq> 0 then (s', newly)
      else (s'\<lparr>sl_closed := List.insert m (sl_closed s), sl_bytes := sl_bytes s + disk_of g m,
              sl_counts := drop_root g (sl_counts s) m\<rparr>, List.insert m newly)))"

definition set_default :: "'v \<Rightarrow> ('k, 'v) dict \<Rightarrow> 'k \<Rightarrow> ('k, 'v) dict" where
  "set_default v d k = (if dget d k = None then dset k v d else d)"

definition select_root :: "retention_graph \<Rightarrow> selection \<Rightarrow> string \<Rightarrow> string \<Rightarrow> selection" where
  "select_root g s root_id reason =
     (let s0 = s\<lparr>sl_root_ids := sl_root_ids s @ [root_id], sl_reasons := dset root_id reason (sl_reasons s)\<rparr>;
          (s1, newly) = foldl (count_down g) (s0, []) (dget_or (sl_reached_by s0) root_id []);
          added = filter (\<lambda>m. m \<in> set newly) (closure_order g root_id (sl_closed s1))
      in s1\<lparr>sl_order := sl_order s1 @ added,
            sl_reasons := foldl (set_default ''closure'') (sl_reasons s1) added,
            sl_groups := (if added \<noteq> [] then sl_groups s1 @ [(root_id, added)] else sl_groups s1)\<rparr>)"

definition surviving_root_counts :: "selection \<Rightarrow> (string, int) dict" where
  "surviving_root_counts s = filter (\<lambda>(family, n). n \<noteq> 0) (sl_counts s)"

section \<open>What the closure is\<close>

definition closed_by :: "retention_graph \<Rightarrow> string set \<Rightarrow> string set" where
  "closed_by g S = {m. (\<exists>r. reaches g r m) \<and> (\<forall>r. reaches g r m \<longrightarrow> r \<in> S)}"

lemma set_deletion_closure:
  assumes "graph_ok g"
  shows "set (deletion_closure g selected) = closed_by g (set selected)"
proof (cases "selected = []")
  case False
  have "m \<in> set (concat (map (\<lambda>r. case dget (rg_roots_by_id g) r of None \<Rightarrow> [] | Some rt \<Rightarrow> rr_reachable rt) selected))
      \<longleftrightarrow> (\<exists>r \<in> set selected. reaches g r m)" for m
  proof -
    have "m \<in> set (case dget (rg_roots_by_id g) r of None \<Rightarrow> [] | Some rt \<Rightarrow> rr_reachable rt) \<longleftrightarrow> reaches g r m" for r
    proof (cases "dget (rg_roots_by_id g) r")
      case None
      then have "r \<notin> set (root_ids_of g)" using root_lookup_None [OF assms] by blast
      then show ?thesis using None by (simp add: reaches_def)
    next
      case (Some rt)
      then have "rt \<in> set (rg_roots g)" "rr_id rt = r" using root_lookup [OF assms] by blast+
      then show ?thesis using Some root_reaches(1) [OF assms] by auto
    qed
    then show ?thesis by simp
  qed
  then show ?thesis using False inbound_reaches(3) [OF assms] unfolding deletion_closure_def closed_by_def by auto
qed (auto simp: deletion_closure_def closed_by_def)

lemma closed_by_mono: "S \<subseteq> T \<Longrightarrow> closed_by g S \<subseteq> closed_by g T"
  by (auto simp: closed_by_def)

lemma closed_by_root: "r \<in> set (root_ids_of g) \<Longrightarrow> r \<in> closed_by g S \<longleftrightarrow> r \<in> S"
  using reaches_root reaches_self unfolding closed_by_def by blast

lemma closed_by_members: "graph_ok g \<Longrightarrow> closed_by g S \<subseteq> set (dkeys (rg_members g))"
  using reaches_member by (auto simp: closed_by_def)

text \<open>A referrer of a closed member is closed with it, unless the member is a root.\<close>

lemma closed_by_referrer:
  assumes "graph_ok g" and "b \<in> closed_by g S" and "b \<in> set (refs_in (rg_members g) a)" and "b \<notin> set (root_ids_of g)"
    and "a \<in> set (dkeys (rg_members g))"
  shows "a \<in> closed_by g S"
proof -
  have "r \<in> S" if "reaches g r a" for r using reaches_step [OF that assms(3,4)] assms(2) unfolding closed_by_def by blast
  then show ?thesis using reached [OF assms(1,5)] unfolding closed_by_def by blast
qed

section \<open>The countdown\<close>

lemma inner_reached:
  "dget_or (foldl (\<lambda>d r. dset r (dget_or d r [] @ [m]) d) d roots) r []
     = dget_or d r [] @ replicate (length (filter ((=) r) roots)) m"
proof (induction roots arbitrary: d)
  case (Cons q qs)
  then show ?case by (simp add: dget_or_dset)
qed simp

lemma reached_by_get:
  "(\<And>m roots. (m, roots) \<in> set inbound \<Longrightarrow> distinct roots)
   \<Longrightarrow> dget_or (foldl (\<lambda>d (m, roots). foldl (\<lambda>d r. dset r (dget_or d r [] @ [m]) d) d roots) d inbound) r []
     = dget_or d r [] @ map fst (filter (\<lambda>(m, roots). r \<in> set roots) inbound)"
proof (induction inbound arbitrary: d)
  case (Cons e inbound)
  obtain m roots where e: "e = (m, roots)" by (metis surj_pair)
  have "distinct roots" using Cons.prems [of m roots] e by simp
  then have "length (filter ((=) r) roots) = (if r \<in> set roots then 1 else 0)"
    by (induction roots) auto
  moreover have "distinct roots'" if "(m', roots') \<in> set inbound" for m' roots'
    using Cons.prems [of m' roots'] that by simp
  ultimately show ?case using Cons.IH e by (simp add: inner_reached)
qed simp

lemma reached_by_graph:
  assumes "graph_ok g"
  shows "distinct (dget_or (reached_by_of (rg_inbound g)) r [])"
    and "set (dget_or (reached_by_of (rg_inbound g)) r []) = {m. reaches g r m}"
proof -
  have keys: "dkeys (rg_inbound g) = dkeys (rg_members g)" by (rule inbound_reaches(1) [OF assms])
  have wf: "wf_dict (rg_inbound g)" using assms keys by (simp add: graph_ok_def wf_dict_def dkeys_def)
  have at: "roots = dget_or (rg_inbound g) m []" if "(m, roots) \<in> set (rg_inbound g)" for m roots
    using dget_wf_iff [OF wf, of m roots] that by (simp add: dget_or_def)
  have "distinct roots" if "(m, roots) \<in> set (rg_inbound g)" for m roots
    unfolding at [OF that] by (rule inbound_reaches(2) [OF assms])
  from reached_by_get [OF this, where d = "[]" and r = r]
  have e: "dget_or (reached_by_of (rg_inbound g)) r [] = map fst (filter (\<lambda>(m, roots). r \<in> set roots) (rg_inbound g))"
    by (simp add: reached_by_of_def dget_or_def)
  show "distinct (dget_or (reached_by_of (rg_inbound g)) r [])"
    unfolding e using wf by (simp add: wf_dict_def distinct_map_filter)
  have "m \<in> set (dget_or (reached_by_of (rg_inbound g)) r []) \<longleftrightarrow> reaches g r m" for m
  proof
    assume "m \<in> set (dget_or (reached_by_of (rg_inbound g)) r [])"
    then obtain roots where "(m, roots) \<in> set (rg_inbound g)" "r \<in> set roots" unfolding e by auto
    then show "reaches g r m" using at inbound_reaches(3) [OF assms] by blast
  next
    assume rm: "reaches g r m"
    then have "m \<in> set (dkeys (rg_inbound g))" using reaches_member [OF assms] keys by simp
    then obtain roots where m: "(m, roots) \<in> set (rg_inbound g)" unfolding dkeys_def by auto
    moreover have "r \<in> set roots" using rm unfolding at [OF m] inbound_reaches(3) [OF assms] by simp
    ultimately show "m \<in> set (dget_or (reached_by_of (rg_inbound g)) r [])" unfolding e by force
  qed
  then show "set (dget_or (reached_by_of (rg_inbound g)) r []) = {m. reaches g r m}" by blast
qed

text \<open>The loop in closed form: the members whose countdown stood at one are closed.\<close>

lemma count_down_fold:
  assumes "distinct ms"
    and "set (sl_closed s) \<inter> set (filter (\<lambda>m. dget_or (sl_pending s) m 0 = 1) ms) = {}"
    and "set newly \<inter> set ms = {}"
  shows "foldl (count_down g) (s, newly) ms =
    (let zs = filter (\<lambda>m. dget_or (sl_pending s) m 0 = 1) ms in
      (s\<lparr>sl_pending := foldl (\<lambda>d m. dset m (dget_or d m 0 - 1) d) (sl_pending s) ms,
         sl_closed := fold List.insert zs (sl_closed s), sl_bytes := sl_bytes s + sum_list (map (disk_of g) zs),
         sl_counts := foldl (drop_root g) (sl_counts s) zs\<rparr>, fold List.insert zs newly))"
  using assms
proof (induction ms arbitrary: s newly)
  case (Cons m ms)
  let ?s = "s\<lparr>sl_pending := dset m (dget_or (sl_pending s) m 0 - 1) (sl_pending s)\<rparr>"
  have m: "m \<notin> set ms" using Cons.prems(1) by simp
  then have same: "filter (\<lambda>x. dget_or (dset m v (sl_pending s)) x 0 = 1) ms = filter (\<lambda>x. dget_or (sl_pending s) x 0 = 1) ms" for v
    by (intro filter_cong refl) (auto simp: dget_or_dset)
  show ?case
  proof (cases "dget_or (sl_pending s) m 0 = 1")
    case False
    then have "count_down g (s, newly) m = (?s, newly)" by (simp add: count_down_def Let_def)
    then show ?thesis using Cons.IH [of ?s newly] Cons.prems False by (simp add: same Let_def)
  next
    case True
    let ?t = "?s\<lparr>sl_closed := List.insert m (sl_closed s), sl_bytes := sl_bytes s + disk_of g m,
              sl_counts := drop_root g (sl_counts s) m\<rparr>"
    have "count_down g (s, newly) m = (?t, List.insert m newly)" using True by (simp add: count_down_def Let_def)
    moreover have "foldl (count_down g) (?t, List.insert m newly) ms =
      (let zs = filter (\<lambda>m. dget_or (sl_pending ?t) m 0 = 1) ms in
        (?t\<lparr>sl_pending := foldl (\<lambda>d m. dset m (dget_or d m 0 - 1) d) (sl_pending ?t) ms,
           sl_closed := fold List.insert zs (sl_closed ?t), sl_bytes := sl_bytes ?t + sum_list (map (disk_of g) zs),
           sl_counts := foldl (drop_root g) (sl_counts ?t) zs\<rparr>, fold List.insert zs (List.insert m newly)))"
      by (rule Cons.IH) (use Cons.prems True m in \<open>auto simp: same\<close>)
    ultimately show ?thesis using True by (simp add: same Let_def)
  qed
qed (simp add: Let_def)

lemma pending_fold:
  "distinct ms \<Longrightarrow> dget_or (foldl (\<lambda>d m. dset m (dget_or d m 0 - 1) d) d ms) x 0
     = dget_or d x 0 - (if x \<in> set ms then 1 else (0::int))"
  by (induction ms arbitrary: d) (auto simp: dget_or_dset)

section \<open>The surviving roots\<close>

definition survivors_in :: "retention_root list \<Rightarrow> string set \<Rightarrow> string \<Rightarrow> nat" where
  "survivors_in roots C family = length (filter (\<lambda>r. rr_family r = family \<and> rr_id r \<notin> C) roots)"

lemma family_counts_get: "dget_or (family_counts roots) f 0 = int (survivors_in roots {} f)"
proof -
  have "dget_or (foldl (\<lambda>d r. dset (rr_family r) (dget_or d (rr_family r) 0 + 1) d) d roots) f 0
      = dget_or d f 0 + int (survivors_in roots {} f)" for d
    by (induction roots arbitrary: d) (auto simp: dget_or_dset survivors_in_def)
  then show ?thesis by (simp add: family_counts_def dget_or_def)
qed

lemma family_counts_wf: "wf_dict (family_counts roots)"
proof -
  have "wf_dict (foldl (\<lambda>d r. dset (rr_family r) (dget_or d (rr_family r) 0 + 1) d) d roots)" if "wf_dict d" for d :: "(string, int) dict"
    using that by (induction roots arbitrary: d) auto
  then show ?thesis by (simp add: family_counts_def)
qed

lemma drop_roots_wf: "wf_dict counts \<Longrightarrow> wf_dict (foldl (drop_root g) counts zs)"
  by (induction zs arbitrary: counts) (auto simp: drop_root_def Let_def split: option.split)

lemma survivors_insert:
  assumes "distinct (map rr_id roots)" and "z \<notin> C"
  shows "survivors_in roots C f = survivors_in roots (insert z C) f + (if \<exists>r \<in> set roots. rr_id r = z \<and> rr_family r = f then 1 else 0)"
  using assms(1)
proof (induction roots)
  case (Cons r roots)
  then have IH: "survivors_in roots C f = survivors_in roots (insert z C) f
      + (if \<exists>r \<in> set roots. rr_id r = z \<and> rr_family r = f then 1 else 0)" by simp
  show ?case
  proof (cases "rr_id r = z")
    case True
    then have "\<not> (\<exists>q \<in> set roots. rr_id q = z)" using Cons.prems by (auto intro: rev_image_eqI)
    then show ?thesis using IH True assms(2) by (auto simp: survivors_in_def)
  qed (use IH in \<open>simp add: survivors_in_def\<close>)
qed (simp add: survivors_in_def)

lemma drop_root_counts:
  assumes "graph_ok g" and "z \<notin> C" and "\<And>f. dget_or counts f 0 = int (survivors_in (rg_roots g) C f)"
  shows "dget_or (drop_root g counts z) f 0 = int (survivors_in (rg_roots g) (insert z C) f)"
proof -
  have d: "distinct (map rr_id (rg_roots g))" using assms(1) by (simp add: graph_ok_def root_ids_of_def)
  show ?thesis
  proof (cases "dget (rg_roots_by_id g) z")
    case None
    then have "\<not> (\<exists>r \<in> set (rg_roots g). rr_id r = z)" using root_lookup_None [OF assms(1)] by (auto simp: root_ids_of_def)
    then show ?thesis using None assms(3) survivors_insert [OF d assms(2), of f] by (simp add: drop_root_def)
  next
    case (Some rt)
    have rt: "rt \<in> set (rg_roots g)" "rr_id rt = z" using Some root_lookup [OF assms(1)] by blast+
    have only: "(\<exists>r \<in> set (rg_roots g). rr_id r = z \<and> rr_family r = f) \<longleftrightarrow> rr_family rt = f" for f
      using rt root_lookup [OF assms(1)] Some by (metis option.inject)
    have one: "survivors_in (rg_roots g) C f = survivors_in (rg_roots g) (insert z C) f + (if rr_family rt = f then 1 else 0)" for f
      using survivors_insert [OF d assms(2), of f] unfolding only .
    from one [of "rr_family rt"] have "dget_or counts (rr_family rt) 0 \<noteq> 0" using assms(3) by simp
    then have "drop_root g counts z = dset (rr_family rt) (dget_or counts (rr_family rt) 0 - 1) counts"
      using Some by (simp add: drop_root_def Let_def)
    then show ?thesis using assms(3) one [of f] by (cases "f = rr_family rt") (simp_all add: dget_or_dset)
  qed
qed

lemma drop_roots_counts:
  assumes "graph_ok g" and "distinct zs" and "set zs \<inter> C = {}" and "\<And>f. dget_or counts f 0 = int (survivors_in (rg_roots g) C f)"
  shows "dget_or (foldl (drop_root g) counts zs) f 0 = int (survivors_in (rg_roots g) (C \<union> set zs) f)"
  using assms(2-4)
proof (induction zs arbitrary: counts C)
  case (Cons z zs)
  have "z \<notin> C" using Cons.prems(2) by simp
  from drop_root_counts [OF assms(1) this Cons.prems(3)]
  have "\<And>f. dget_or (drop_root g counts z) f 0 = int (survivors_in (rg_roots g) (insert z C) f)" .
  from Cons.IH [OF _ _ this] Cons.prems(1,2) show ?case by auto
qed simp

section \<open>The order\<close>

lemma closure_walk_prefix: "\<exists>zs. closure_walk g C seen stack = seen @ zs"
proof (induction g C seen stack rule: closure_walk.induct)
  case (2 g C seen current stack)
  show ?case
  proof (cases "current \<in> set seen \<or> current \<notin> set C")
    case False
    from "2.IH"(2) [OF False] obtain zs where "closure_walk g C (seen @ [current]) (refs_in (rg_members g) current @ stack)
        = (seen @ [current]) @ zs" by blast
    then show ?thesis using False by auto
  qed (use "2.IH"(1) in simp)
qed simp

lemma closure_walk_distinct:
  "distinct seen \<Longrightarrow> set seen \<subseteq> set C \<Longrightarrow> distinct (closure_walk g C seen stack) \<and> set (closure_walk g C seen stack) \<subseteq> set C"
  by (induction g C seen stack rule: closure_walk.induct) auto

lemma closure_walk_closed:
  assumes "\<And>a b. a \<in> set seen \<Longrightarrow> b \<in> set (refs_in (rg_members g) a) \<Longrightarrow> b \<in> set C \<Longrightarrow> b \<in> set seen \<union> set stack"
    and "a \<in> set (closure_walk g C seen stack)" and "b \<in> set (refs_in (rg_members g) a)" and "b \<in> set C"
  shows "b \<in> set (closure_walk g C seen stack)"
  using assms
proof (induction g C seen stack rule: closure_walk.induct)
  case (2 g C seen current stack)
  show ?case
  proof (cases "current \<in> set seen \<or> current \<notin> set C")
    case True
    have "\<And>a b. a \<in> set seen \<Longrightarrow> b \<in> set (refs_in (rg_members g) a) \<Longrightarrow> b \<in> set C \<Longrightarrow> b \<in> set seen \<union> set stack"
      using "2.prems"(1) True by fastforce
    from "2.IH"(1) [OF True this] "2.prems"(2-4) True show ?thesis by simp
  next
    case False
    have "\<And>a b. a \<in> set (seen @ [current]) \<Longrightarrow> b \<in> set (refs_in (rg_members g) a) \<Longrightarrow> b \<in> set C
        \<Longrightarrow> b \<in> set (seen @ [current]) \<union> set (refs_in (rg_members g) current @ stack)"
      using "2.prems"(1) by fastforce
    from "2.IH"(2) [OF False this] "2.prems"(2-4) False show ?thesis by simp
  qed
qed auto

text \<open>Every candidate but the starting one has another candidate that refers to it.\<close>

lemma closure_walk_referred:
  assumes "\<And>x. x \<in> set seen \<union> set stack \<Longrightarrow> x = r \<or> (\<exists>c \<in> set seen. x \<in> set (refs_in (rg_members g) c) \<and> (x \<in> set seen \<longrightarrow> c \<noteq> x))"
    and "x \<in> set (closure_walk g C seen stack)"
  shows "x = r \<or> (\<exists>c \<in> set (closure_walk g C seen stack). c \<noteq> x \<and> x \<in> set (refs_in (rg_members g) c))"
  using assms
proof (induction g C seen stack rule: closure_walk.induct)
  case (2 g C seen current stack)
  show ?case
  proof (cases "current \<in> set seen \<or> current \<notin> set C")
    case True
    have "\<And>x. x \<in> set seen \<union> set stack \<Longrightarrow> x = r \<or> (\<exists>c \<in> set seen. x \<in> set (refs_in (rg_members g) c) \<and> (x \<in> set seen \<longrightarrow> c \<noteq> x))"
      using "2.prems"(1) by simp
    from "2.IH"(1) [OF True this] "2.prems"(2) True show ?thesis by simp
  next
    case False
    have "y = r \<or> (\<exists>c \<in> set (seen @ [current]). y \<in> set (refs_in (rg_members g) c) \<and> (y \<in> set (seen @ [current]) \<longrightarrow> c \<noteq> y))"
      if y: "y \<in> set (seen @ [current]) \<union> set (refs_in (rg_members g) current @ stack)" for y
    proof (cases "y \<in> set seen \<union> set (current # stack)")
      case True
      then show ?thesis using "2.prems"(1) [of y] False by auto
    next
      case out: False
      then have "y \<in> set (refs_in (rg_members g) current)" using y by auto
      then show ?thesis using out by auto
    qed
    from "2.IH"(2) [OF False this] "2.prems"(2) False show ?thesis by simp
  qed
qed fastforce

lemma emit_order_Cons:
  "pending \<noteq> [] \<Longrightarrow> emit_order referrers ordered pending
     = emit_order referrers (ordered @ [choose_next referrers ordered pending]) (remove1 (choose_next referrers ordered pending) pending)"
  by (simp add: emit_order.simps [of referrers ordered pending] Let_def)

lemma emit_order_Nil [simp]: "emit_order referrers ordered [] = ordered"
  by (simp add: emit_order.simps)

lemma mset_emit_order: "mset (emit_order referrers ordered pending) = mset ordered + mset pending"
proof (induction referrers ordered pending rule: emit_order.induct)
  case (1 referrers ordered pending)
  show ?case
  proof (cases "pending = []")
    case False
    then show ?thesis using 1 [OF False refl] choose_next_mem [OF False, of referrers ordered]
      by (simp add: emit_order_Cons)
  qed simp
qed

lemma emit_order_prefix: "\<exists>zs. emit_order referrers ordered pending = ordered @ zs"
proof (induction referrers ordered pending rule: emit_order.induct)
  case (1 referrers ordered pending)
  show ?case
  proof (cases "pending = []")
    case False
    then show ?thesis using 1 [OF False refl] by (auto simp: emit_order_Cons)
  qed simp
qed

lemma acyclic_minimal:
  assumes "finite A" and "A \<noteq> {}" and "acyclic R"
  shows "\<exists>x \<in> A. \<forall>y \<in> A. (y, x) \<notin> R"
proof -
  have "acyclic (R \<inter> A \<times> A)" by (rule acyclic_subset [OF assms(3)]) blast
  moreover have "finite (R \<inter> A \<times> A)" using assms(1) by simp
  ultimately have "wf (R \<inter> A \<times> A)" by (simp add: finite_acyclic_wf)
  from wfE_min [OF this] assms(2) obtain x where "x \<in> A" "\<And>y. (y, x) \<in> R \<inter> A \<times> A \<Longrightarrow> y \<notin> A" by (metis ex_in_conv)
  then show ?thesis by blast
qed

text \<open>Without a cycle some pending candidate is always ready, so every referrer is out before its referent.\<close>

lemma emit_order_sorted:
  assumes "distinct pending" and "\<And>m. m \<in> set pending \<Longrightarrow> set (referrers m) \<subseteq> set ordered \<union> set pending"
    and "acyclic {(c, m). m \<in> set pending \<and> c \<in> set (referrers m)}"
    and "emit_order referrers ordered pending = xs @ m # ys" and "length ordered \<le> length xs"
  shows "set (referrers m) \<subseteq> set xs"
  using assms
proof (induction referrers ordered pending arbitrary: xs m ys rule: emit_order.induct)
  case (1 referrers ordered pending)
  show ?case
  proof (cases "pending = []")
    case True
    then show ?thesis using "1.prems"(4,5) by simp
  next
    case False
    let ?c = "choose_next referrers ordered pending"
    obtain x where x: "x \<in> set pending" "\<forall>y \<in> set pending. y \<notin> set (referrers x)"
      using acyclic_minimal [OF finite_set _ "1.prems"(3), of pending] False by auto
    then have "find (\<lambda>m. set (referrers m) \<subseteq> set ordered) pending \<noteq> None"
      using "1.prems"(2) unfolding find_None_iff by blast
    then obtain c where find: "find (\<lambda>m. set (referrers m) \<subseteq> set ordered) pending = Some c" by blast
    then have "set (referrers c) \<subseteq> set ordered" by (auto simp: find_Some_iff)
    then have ready: "set (referrers ?c) \<subseteq> set ordered" by (simp add: choose_next_def find)
    have c: "?c \<in> set pending" by (rule choose_next_mem [OF False])
    have e: "emit_order referrers (ordered @ [?c]) (remove1 ?c pending) = xs @ m # ys"
      using "1.prems"(4) by (simp add: emit_order_Cons [OF False])
    show ?thesis
    proof (cases "length (ordered @ [?c]) \<le> length xs")
      case True
      have sub: "set (remove1 ?c pending) \<subseteq> set pending" by (rule set_remove1_subset)
      have "set (referrers k) \<subseteq> set (ordered @ [?c]) \<union> set (remove1 ?c pending)" if "k \<in> set (remove1 ?c pending)" for k
        using "1.prems"(1,2) that sub by (auto simp: set_remove1_eq)
      moreover have "acyclic {(c, m). m \<in> set (remove1 ?c pending) \<and> c \<in> set (referrers m)}"
        by (rule acyclic_subset [OF "1.prems"(3)]) (use sub in auto)
      ultimately show ?thesis
        by (rule "1.IH" [OF False refl distinct_remove1 [OF "1.prems"(1)] _ _ e True])
    next
      case False
      then have len: "length xs = length ordered" using "1.prems"(5) by simp
      obtain zs where "emit_order referrers (ordered @ [?c]) (remove1 ?c pending) = (ordered @ [?c]) @ zs"
        using emit_order_prefix by blast
      then have "xs = ordered" "m = ?c" using e len by (auto simp: append_eq_append_conv)
      then show ?thesis using ready by simp
    qed
  qed
qed

lemma references_known: "m \<in> set (dkeys (rg_members g)) \<Longrightarrow> m \<in> set (refs_in (rg_members g) c) \<longleftrightarrow> m \<in> set (references_of g c)"
  by (simp add: refs_in_def references_of_def split: option.split)

lemma closure_order_set:
  "set (closure_order g r C) = set (closure_walk g C [] [r])" "distinct (closure_order g r C)" "set (closure_order g r C) \<subseteq> set C"
proof -
  have e: "mset (closure_order g r C) = mset (closure_walk g C [] [r])"
    by (simp add: closure_order_def Let_def mset_emit_order)
  show s: "set (closure_order g r C) = set (closure_walk g C [] [r])" by (rule mset_eq_setD [OF e])
  have w: "distinct (closure_walk g C [] [r]) \<and> set (closure_walk g C [] [r]) \<subseteq> set C" by (rule closure_walk_distinct) simp_all
  then show "distinct (closure_order g r C)" using e by (metis mset_eq_imp_distinct_iff)
  show "set (closure_order g r C) \<subseteq> set C" using w s by simp
qed

lemma closure_order_root_first:
  assumes "r \<in> set C" and "set C \<subseteq> set (dkeys (rg_members g))"
  shows "\<exists>zs. closure_order g r C = r # zs"
proof -
  let ?cands = "closure_walk g C [] [r]"
  have c: "?cands = closure_walk g C [r] (refs_in (rg_members g) r)" using assms(1) by simp
  then obtain zs where zs: "?cands = r # zs" using closure_walk_prefix [of g C "[r]"] by auto
  have "\<not> set (referrers_in g ?cands m) \<subseteq> set []" if m: "m \<in> set ?cands" "m \<noteq> r" for m
  proof -
    obtain k where "k \<in> set ?cands" "k \<noteq> m" "m \<in> set (refs_in (rg_members g) k)"
      using closure_walk_referred [of "[]" "[r]" r g m C] m by auto
    moreover have "m \<in> set (dkeys (rg_members g))"
      using closure_walk_distinct [of "[]" C g "[r]"] m(1) assms(2) by auto
    ultimately have "k \<in> set (referrers_in g ?cands m)" using references_known [of m g k] by (simp add: referrers_in_def)
    then show ?thesis by auto
  qed
  then have only: "m = r" if "find (\<lambda>m. set (referrers_in g ?cands m) \<subseteq> set []) ?cands = Some m" for m
    using that unfolding find_Some_iff by (metis nth_mem)
  have "choose_next (referrers_in g ?cands) [] ?cands = r"
  proof (cases "find (\<lambda>m. set (referrers_in g ?cands m) \<subseteq> set []) ?cands")
    case None
    then show ?thesis unfolding choose_next_def by (simp only: option.case zs list.sel)
  next
    case (Some m)
    then show ?thesis unfolding choose_next_def using only [OF Some] by (simp only: option.case)
  qed
  moreover have "?cands \<noteq> []" using zs by simp
  ultimately have "closure_order g r C = emit_order (referrers_in g ?cands) [r] (remove1 r ?cands)"
    by (simp add: closure_order_def Let_def emit_order_Cons)
  then show ?thesis using emit_order_prefix [of "referrers_in g ?cands" "[r]" "remove1 r ?cands"] by auto
qed

section \<open>The selection keeps the closure\<close>

definition selection_ok :: "retention_graph \<Rightarrow> selection \<Rightarrow> bool" where
  "selection_ok g s \<longleftrightarrow> (let C = closed_by g (set (sl_root_ids s)) in
     distinct (sl_root_ids s) \<and> set (sl_root_ids s) \<subseteq> set (root_ids_of g)
     \<and> sl_reached_by s = reached_by_of (rg_inbound g)
     \<and> (\<forall>m. (\<exists>r. reaches g r m) \<longrightarrow> dget_or (sl_pending s) m 0 = int (card {r. reaches g r m \<and> r \<notin> set (sl_root_ids s)}))
     \<and> distinct (sl_closed s) \<and> set (sl_closed s) = C
     \<and> sl_bytes s = sum (disk_of g) C
     \<and> wf_dict (sl_counts s) \<and> (\<forall>f. dget_or (sl_counts s) f 0 = int (survivors_in (rg_roots g) C f))
     \<and> distinct (sl_order s) \<and> set (sl_order s) = C
     \<and> concat (map snd (sl_groups s)) = sl_order s)"

lemma finite_reaching: "finite {r. reaches g r m}"
  by (rule finite_subset [of _ "set (root_ids_of g)"]) (auto simp: reaches_def)

lemma new_selection_ok:
  assumes "graph_ok g"
  shows "selection_ok g (new_selection g)"
proof -
  have empty: "closed_by g {} = {}" by (auto simp: closed_by_def)
  have pending: "dget_or (sl_pending (new_selection g)) m 0 = int (card {r. reaches g r m})" if "\<exists>r. reaches g r m" for m
  proof -
    let ?inb = "dget_or (rg_inbound g) m []"
    have inb: "distinct ?inb" "set ?inb = {r. reaches g r m}" using inbound_reaches(2,3) [OF assms] by blast+
    then have ne: "?inb \<noteq> []" using that by auto
    then obtain l where l: "dget (rg_inbound g) m = Some l" "?inb = l" by (cases "dget (rg_inbound g) m") (auto simp: dget_or_def)
    have wf: "wf_dict (rg_inbound g)"
      using assms inbound_reaches(1) [OF assms] by (simp add: graph_ok_def wf_dict_def dkeys_def)
    let ?d = "map (\<lambda>(m, roots). (m, int (length roots))) (filter (\<lambda>(m, roots). roots \<noteq> []) (rg_inbound g))"
    have "wf_dict ?d" using wf by (simp add: wf_dict_def comp_def case_prod_beta' distinct_map_filter)
    moreover have "(m, int (length l)) \<in> set ?d" using map_of_SomeD [OF l(1)] ne l(2) by force
    ultimately have "dget ?d m = Some (int (length l))" by (simp add: wf_dict_def)
    moreover have "length l = card {r. reaches g r m}" using inb l(2) distinct_card by metis
    ultimately show ?thesis by (simp add: new_selection_def dget_or_def)
  qed
  show ?thesis
    unfolding selection_ok_def Let_def using pending
    by (simp only: new_selection_def selection.simps list.set Diff_empty empty family_counts_get)
      (simp add: empty family_counts_wf)
qed

lemma card_one_iff:
  assumes "r \<in> A"
  shows "card A = 1 \<longleftrightarrow> A = {r}"
proof
  assume "card A = 1"
  then obtain x where "A = {x}" by (rule card_1_singletonE)
  then show "A = {r}" using assms by simp
qed simp

text \<open>The members an addition closes.\<close>

lemma newly_closed:
  assumes "graph_ok g" and "selection_ok g s" and "r \<in> set (root_ids_of g)" and "r \<notin> set (sl_root_ids s)" and "reaches g r m"
  shows "dget_or (sl_pending s) m 0 = 1 \<longleftrightarrow> m \<in> closed_by g (insert r (set (sl_root_ids s)))"
proof -
  let ?open = "{q. reaches g q m \<and> q \<notin> set (sl_root_ids s)}"
  have "dget_or (sl_pending s) m 0 = int (card ?open)" using assms(2,5) unfolding selection_ok_def Let_def by blast
  moreover have r: "r \<in> ?open" using assms(4,5) by simp
  moreover have "card ?open = 1 \<longleftrightarrow> ?open = {r}" by (rule card_one_iff [OF r])
  moreover have "?open = {r} \<longleftrightarrow> (\<forall>q. reaches g q m \<longrightarrow> q \<in> insert r (set (sl_root_ids s)))" using r by auto
  moreover have "m \<in> closed_by g (insert r (set (sl_root_ids s))) \<longleftrightarrow> (\<forall>q. reaches g q m \<longrightarrow> q \<in> insert r (set (sl_root_ids s)))"
    unfolding closed_by_def using assms(5) by auto
  ultimately show ?thesis by simp
qed

lemma refs_in_known: "b \<in> set (refs_in by_id a) \<Longrightarrow> a \<in> set (dkeys by_id)"
  by (rule ccontr) (simp add: refs_in_def dget_None_iff [symmetric])

text \<open>The walk from the added root finds every member of the closure the root reaches.\<close>

lemma walk_finds:
  assumes "graph_ok g" and "set C = closed_by g S" and "r \<in> S" and "reaches g r m" and "m \<in> set C"
  shows "m \<in> set (closure_walk g C [] [r])"
proof -
  have r: "r \<in> set (root_ids_of g)" using assms(4) by (simp add: reaches_def)
  then have rC: "r \<in> set C" using assms(2,3) closed_by_root by blast
  have start: "r \<in> set (closure_walk g C [] [r])"
    using closure_walk_prefix [of g C "[r]" "refs_in (rg_members g) r"] rC by auto
  have clo: "\<And>a b. a \<in> set (closure_walk g C [] [r]) \<Longrightarrow> b \<in> set (refs_in (rg_members g) a) \<Longrightarrow> b \<in> set C
      \<Longrightarrow> b \<in> set (closure_walk g C [] [r])"
    by (rule closure_walk_closed) auto
  have "(r, m) \<in> (ref_steps (rg_members g) (root_ids_of g))\<^sup>*" using assms(4) by (simp add: reaches_def reachable_from_iff)
  then show ?thesis using assms(5)
  proof induction
    case (step a b)
    have ab: "b \<in> set (refs_in (rg_members g) a)" "b \<notin> set (root_ids_of g)" using step(2) by (auto simp: ref_steps_def)
    have "a \<in> set (dkeys (rg_members g))" by (rule refs_in_known [OF ab(1)])
    then have "a \<in> set C" using closed_by_referrer [OF assms(1) _ ab] step.prems assms(2) by blast
    then show ?case using clo [OF step.IH ab(1) step.prems] by blast
  qed (rule start)
qed

text \<open>Adding a root.\<close>

lemma select_root_ok:
  assumes g: "graph_ok g" and s: "selection_ok g s" and r: "r \<in> set (root_ids_of g)" "r \<notin> set (sl_root_ids s)"
  shows "selection_ok g (select_root g s r reason)" and "sl_root_ids (select_root g s r reason) = sl_root_ids s @ [r]"
    and "\<exists>added. sl_groups (select_root g s r reason) = sl_groups s @ [(r, added)]
      \<and> (\<exists>zs. added = r # zs) \<and> added = filter (\<lambda>m. m \<notin> set (sl_order s)) (closure_order g r (sl_closed (select_root g s r reason)))"
proof -
  let ?S = "set (sl_root_ids s)" and ?T = "insert r (set (sl_root_ids s))"
  let ?s0 = "s\<lparr>sl_root_ids := sl_root_ids s @ [r], sl_reasons := dset r reason (sl_reasons s)\<rparr>"
  let ?ms = "dget_or (sl_reached_by ?s0) r []"
  let ?zs = "filter (\<lambda>m. dget_or (sl_pending s) m 0 = 1) ?ms"
  note sok = s [unfolded selection_ok_def Let_def]
  have ms: "distinct ?ms" "set ?ms = {m. reaches g r m}" using sok reached_by_graph [OF g, of r] by simp_all
  have new: "dget_or (sl_pending s) m 0 = 1 \<longleftrightarrow> m \<in> closed_by g ?T" if "reaches g r m" for m
    by (rule newly_closed [OF g s r that])
  have old: "closed_by g ?T = closed_by g ?S \<union> set ?zs" "set ?zs \<inter> closed_by g ?S = {}"
  proof -
    have zs: "set ?zs = {m. reaches g r m \<and> m \<in> closed_by g ?T}" using ms(2) new by auto
    have "m \<in> closed_by g ?S" if "m \<in> closed_by g ?T" "\<not> reaches g r m" for m using that unfolding closed_by_def by blast
    moreover have "\<not> reaches g r m" if "m \<in> closed_by g ?S" for m using that r(2) unfolding closed_by_def by blast
    ultimately show "closed_by g ?T = closed_by g ?S \<union> set ?zs" "set ?zs \<inter> closed_by g ?S = {}"
      using closed_by_mono [of ?S ?T g] unfolding zs by blast+
  qed
  have dz: "distinct ?zs" using ms(1) by simp
  let ?s1 = "?s0\<lparr>sl_pending := foldl (\<lambda>d m. dset m (dget_or d m 0 - 1) d) (sl_pending s) ?ms,
         sl_closed := fold List.insert ?zs (sl_closed s), sl_bytes := sl_bytes s + sum_list (map (disk_of g) ?zs),
         sl_counts := foldl (drop_root g) (sl_counts s) ?zs\<rparr>"
  have loop: "foldl (count_down g) (?s0, []) ?ms = (?s1, fold List.insert ?zs [])"
    using count_down_fold [OF ms(1), of ?s0 "[]" g] old(2) sok by (simp add: Let_def Int_commute)
  define added where "added = filter (\<lambda>m. m \<in> set ?zs) (closure_order g r (sl_closed ?s1))"
  have closed: "distinct (sl_closed ?s1)" "set (sl_closed ?s1) = closed_by g ?T"
    using fold_insert [of "sl_closed s" ?zs] sok old(1) by auto
  have sel: "select_root g s r reason = ?s1\<lparr>sl_order := sl_order s @ added,
            sl_reasons := foldl (set_default ''closure'') (sl_reasons ?s1) added,
            sl_groups := (if added \<noteq> [] then sl_groups s @ [(r, added)] else sl_groups s)\<rparr>"
    using fold_insert [of "[]" ?zs] loop unfolding select_root_def Let_def added_def by simp
  have "r \<in> closed_by g ?T" using r(1) closed_by_root by blast
  moreover have rr: "reaches g r r" using r(1) by (simp add: reaches_self)
  ultimately have rz: "r \<in> set ?zs" using new ms(2) by simp
  obtain ws where ws: "closure_order g r (sl_closed ?s1) = r # ws"
    using closure_order_root_first [of r "sl_closed ?s1" g] closed(2) closed_by_members [OF g] \<open>r \<in> closed_by g ?T\<close> by blast
  then have first: "\<exists>zs. added = r # zs" using rz by (simp add: added_def)
  have "m \<in> set (closure_order g r (sl_closed ?s1))" if "m \<in> set ?zs" for m
    unfolding closure_order_set(1) using that ms(2) closed(2) old(1) by (intro walk_finds [OF g, of _ ?T]) auto
  then have added: "set added = set ?zs" "distinct added" using closure_order_set(2) by (auto simp: added_def)
  have filter_added: "added = filter (\<lambda>m. m \<notin> set (sl_order s)) (closure_order g r (sl_closed ?s1))"
    unfolding added_def
  proof (rule filter_cong [OF refl])
    fix m assume "m \<in> set (closure_order g r (sl_closed ?s1))"
    then have "m \<in> closed_by g ?T" using closure_order_set(3) closed(2) by blast
    then show "m \<in> set ?zs \<longleftrightarrow> m \<notin> set (sl_order s)" using old sok by blast
  qed
  show "sl_root_ids (select_root g s r reason) = sl_root_ids s @ [r]" by (simp add: sel)
  show "\<exists>added. sl_groups (select_root g s r reason) = sl_groups s @ [(r, added)]
      \<and> (\<exists>zs. added = r # zs) \<and> added = filter (\<lambda>m. m \<notin> set (sl_order s)) (closure_order g r (sl_closed (select_root g s r reason)))"
    using first filter_added by (intro exI [of _ added]) (auto simp: sel)
  have pend: "dget_or (sl_pending ?s1) m 0 = int (card {q. reaches g q m \<and> q \<notin> ?T})" if ex: "\<exists>q. reaches g q m" for m
  proof -
    have "dget_or (sl_pending s) m 0 = int (card {q. reaches g q m \<and> q \<notin> ?S})" using sok ex by blast
    moreover have "card {q. reaches g q m \<and> q \<notin> ?S} = card {q. reaches g q m \<and> q \<notin> ?T} + (if reaches g r m then 1 else 0)"
    proof (cases "reaches g r m")
      case True
      have "{q. reaches g q m \<and> q \<notin> ?S} = insert r {q. reaches g q m \<and> q \<notin> ?T}" using True r(2) by auto
      moreover have "finite {q. reaches g q m \<and> q \<notin> ?T}" by (rule finite_subset [OF _ finite_reaching [of g m]]) auto
      ultimately show ?thesis using True by simp
    next
      case False
      then have "{q. reaches g q m \<and> q \<notin> ?S} = {q. reaches g q m \<and> q \<notin> ?T}" by auto
      then show ?thesis using False by simp
    qed
    ultimately show ?thesis using pending_fold [OF ms(1), of "sl_pending s" m] ms(2) by simp
  qed
  have fin: "finite (closed_by g ?S)" using sok by (metis List.finite_set)
  have bytes: "sl_bytes s + sum_list (map (disk_of g) ?zs) = sum (disk_of g) (closed_by g ?T)"
    unfolding old(1) using sok old(2) dz fin
    by (subst sum.union_disjoint) (auto simp: sum_list_distinct_conv_sum_set)
  have counts: "dget_or (foldl (drop_root g) (sl_counts s) ?zs) f 0 = int (survivors_in (rg_roots g) (closed_by g ?T) f)" for f
    unfolding old(1) by (rule drop_roots_counts [OF g dz old(2)]) (use sok in blast)
  show "selection_ok g (select_root g s r reason)"
    unfolding selection_ok_def Let_def sel
    using pend closed bytes counts added old sok r first drop_roots_wf by (auto simp: Int_commute)
qed

lemma selections_ok:
  assumes "graph_ok g" and "selection_ok g s" and "set (map fst rs) \<subseteq> set (root_ids_of g)" and "distinct (sl_root_ids s @ map fst rs)"
  shows "selection_ok g (foldl (\<lambda>s (r, reason). select_root g s r reason) s rs)"
    and "sl_root_ids (foldl (\<lambda>s (r, reason). select_root g s r reason) s rs) = sl_root_ids s @ map fst rs"
proof -
  have "selection_ok g (foldl (\<lambda>s (r, reason). select_root g s r reason) s rs)
    \<and> sl_root_ids (foldl (\<lambda>s (r, reason). select_root g s r reason) s rs) = sl_root_ids s @ map fst rs"
    using assms(2-4)
  proof (induction rs arbitrary: s)
    case (Cons e rs)
    obtain r reason where e: "e = (r, reason)" by (metis surj_pair)
    have r: "r \<in> set (root_ids_of g)" "r \<notin> set (sl_root_ids s)" using Cons.prems e by auto
    note step = select_root_ok [OF assms(1) Cons.prems(1) r, of reason]
    have "distinct (sl_root_ids (select_root g s r reason) @ map fst rs)" using Cons.prems(3) e step(2) by simp
    then show ?case using Cons.IH [OF step(1)] Cons.prems(2) e step(2) by simp
  qed simp
  then show "selection_ok g (foldl (\<lambda>s (r, reason). select_root g s r reason) s rs)"
    "sl_root_ids (foldl (\<lambda>s (r, reason). select_root g s r reason) s rs) = sl_root_ids s @ map fst rs" by blast+
qed

lemma surviving_get:
  assumes "selection_ok g s"
  shows "dget_or (surviving_root_counts s) f 0 = int (survivors_in (rg_roots g) (closed_by g (set (sl_root_ids s))) f)"
    and "(f, n) \<in> set (surviving_root_counts s) \<longleftrightarrow> n \<noteq> 0 \<and> n = int (survivors_in (rg_roots g) (closed_by g (set (sl_root_ids s))) f)"
proof -
  have c: "wf_dict (sl_counts s)" "\<And>f. dget_or (sl_counts s) f 0 = int (survivors_in (rg_roots g) (closed_by g (set (sl_root_ids s))) f)"
    using assms by (simp_all add: selection_ok_def Let_def)
  have mem: "(f, n) \<in> set (surviving_root_counts s) \<longleftrightarrow> n \<noteq> 0 \<and> dget (sl_counts s) f = Some n" for f n
    using dget_wf_iff [OF c(1), of f n] by (auto simp: surviving_root_counts_def)
  then show "(f, n) \<in> set (surviving_root_counts s) \<longleftrightarrow> n \<noteq> 0 \<and> n = int (survivors_in (rg_roots g) (closed_by g (set (sl_root_ids s))) f)"
    using c(2) [of f] by (cases "dget (sl_counts s) f") (auto simp: dget_or_def)
  have "wf_dict (surviving_root_counts s)" using c(1) by (simp add: surviving_root_counts_def wf_dict_def distinct_map_filter)
  note D = dget_wf_iff [OF this, of f, unfolded mem]
  have "dget_or (surviving_root_counts s) f 0 = dget_or (sl_counts s) f 0"
  proof (cases "dget (surviving_root_counts s) f")
    case None
    then have "dget (sl_counts s) f = Some n \<Longrightarrow> n = 0" for n using D [of n] by (metis option.distinct(1))
    then show ?thesis using None by (cases "dget (sl_counts s) f") (simp_all add: dget_or_def)
  next
    case (Some n)
    then have "dget (sl_counts s) f = Some n" using D [of n] by metis
    then show ?thesis using Some by (simp add: dget_or_def)
  qed
  then show "dget_or (surviving_root_counts s) f 0 = int (survivors_in (rg_roots g) (closed_by g (set (sl_root_ids s))) f)"
    using c(2) by simp
qed

text \<open>C17: the incremental selection is the authoritative closure: after adding any distinct roots of a built graph in any
  order, the members closed are those of \<open>deletion_closure\<close>, the bytes are theirs, and the surviving roots per
  family are those outside the closure; the deletion order lists exactly the closure, once, group by group.\<close>

theorem selection_is_closure:
  assumes "build_graph ms = Inr g" and "set (map fst rs) \<subseteq> set (map rr_id (rg_roots g))" and "distinct (map fst rs)"
  shows "let s = foldl (\<lambda>s (r, reason). select_root g s r reason) (new_selection g) rs; C = deletion_closure g (map fst rs) in
    set (sl_closed s) = set C \<and> sl_bytes s = sum_list (map (disk_of g) C)
    \<and> (\<forall>f n. (f, n) \<in> set (surviving_root_counts s)
         \<longleftrightarrow> n \<noteq> 0 \<and> n = int (length (filter (\<lambda>r. rr_family r = f \<and> rr_id r \<notin> set C) (rg_roots g))))
    \<and> distinct (sl_order s) \<and> set (sl_order s) = set C \<and> concat (map snd (sl_groups s)) = sl_order s"
proof -
  let ?s = "foldl (\<lambda>s (r, reason). select_root g s r reason) (new_selection g) rs" and ?C = "deletion_closure g (map fst rs)"
  have g: "graph_ok g" by (rule build_graphE(4) [OF assms(1)])
  have r0: "sl_root_ids (new_selection g) = []" by (simp add: new_selection_def)
  have s: "selection_ok g ?s" "sl_root_ids ?s = map fst rs"
    using selections_ok [OF g new_selection_ok [OF g], of rs] assms(2,3) unfolding r0 root_ids_of_def by simp_all
  have C: "set ?C = closed_by g (set (map fst rs))" by (rule set_deletion_closure [OF g])
  have "distinct ?C" by (simp add: deletion_closure_def)
  then have "sum_list (map (disk_of g) ?C) = sum (disk_of g) (set ?C)" by (rule sum_list_distinct_conv_sum_set)
  then show ?thesis
    using s(1) surviving_get(2) [OF s(1)] unfolding selection_ok_def Let_def s(2) C [symmetric] survivors_in_def by simp
qed

lemma filter_positions:
  assumes "i < j" and "j < length (filter P xs)"
  shows "\<exists>ys zs. xs = ys @ (filter P xs ! i) # zs \<and> filter P xs ! j \<in> set zs"
  using assms
proof (induction xs arbitrary: i j)
  case (Cons x xs)
  show ?case
  proof (cases "P x \<and> i = 0")
    case True
    then obtain k where k: "j = Suc k" using Cons.prems(1) by (cases j) auto
    then have "filter P xs ! k \<in> set (filter P xs)" using Cons.prems(2) True by (intro nth_mem) simp
    then show ?thesis using True k by (intro exI [of _ "[]"] exI [of _ xs]) auto
  next
    case False
    have "\<exists>k l. k < l \<and> l < length (filter P xs) \<and> filter P (x # xs) ! i = filter P xs ! k \<and> filter P (x # xs) ! j = filter P xs ! l"
    proof (cases "P x")
      case True
      then have "i - 1 < j - 1 \<and> j - 1 < length (filter P xs) \<and> filter P (x # xs) ! i = filter P xs ! (i - 1)
          \<and> filter P (x # xs) ! j = filter P xs ! (j - 1)" using False Cons.prems by (auto simp: nth_Cons')
      then show ?thesis by blast
    next
      case False
      then show ?thesis using Cons.prems by (intro exI [of _ i] exI [of _ j]) simp
    qed
    then obtain k l where kl: "k < l" "l < length (filter P xs)" "filter P (x # xs) ! i = filter P xs ! k"
      "filter P (x # xs) ! j = filter P xs ! l" by blast
    from Cons.IH [OF kl(1,2)] obtain ys zs where "xs = ys @ (filter P xs ! k) # zs \<and> filter P xs ! l \<in> set zs" by blast
    then show ?thesis unfolding kl(3,4) by (intro exI [of _ "x # ys"] exI [of _ zs]) simp
  qed
qed simp

definition group_ok :: "retention_graph \<Rightarrow> string set \<Rightarrow> string \<Rightarrow> string list \<Rightarrow> bool" where
  "group_ok g D r added \<longleftrightarrow> (\<exists>zs. added = r # zs) \<and> (\<exists>C P. set C \<subseteq> D \<and> added = filter P (closure_order g r C))"

definition groups_ok :: "retention_graph \<Rightarrow> selection \<Rightarrow> bool" where
  "groups_ok g s \<longleftrightarrow> (\<forall>(r, added) \<in> set (sl_groups s). group_ok g (closed_by g (set (sl_root_ids s))) r added)"

lemma group_ok_mono: "group_ok g D r added \<Longrightarrow> D \<subseteq> E \<Longrightarrow> group_ok g E r added"
  by (auto simp: group_ok_def)

lemma selections_groups:
  assumes "graph_ok g" and "set (map fst rs) \<subseteq> set (root_ids_of g)" and "distinct (map fst rs)"
  shows "groups_ok g (foldl (\<lambda>s (r, reason). select_root g s r reason) (new_selection g) rs)"
  using assms(2,3)
proof (induction rs rule: rev_induct)
  case Nil
  show ?case by (simp add: groups_ok_def new_selection_def)
next
  case (snoc e rs)
  obtain r reason where e: "e = (r, reason)" by (metis surj_pair)
  let ?s = "foldl (\<lambda>s (r, reason). select_root g s r reason) (new_selection g) rs" and ?t = "select_root g (foldl (\<lambda>s (r, reason). select_root g s r reason) (new_selection g) rs) r reason"
  have r0: "sl_root_ids (new_selection g) = []" by (simp add: new_selection_def)
  have s: "selection_ok g ?s" "sl_root_ids ?s = map fst rs"
    using selections_ok [OF assms(1) new_selection_ok [OF assms(1)], of rs] snoc.prems unfolding r0 by simp_all
  have r: "r \<in> set (root_ids_of g)" "r \<notin> set (sl_root_ids ?s)" using snoc.prems e s(2) by auto
  note step = select_root_ok [OF assms(1) s(1) r, of reason]
  have mono: "closed_by g (set (sl_root_ids ?s)) \<subseteq> closed_by g (set (sl_root_ids ?t))"
    by (rule closed_by_mono) (auto simp: step(2))
  have closed: "set (sl_closed ?t) = closed_by g (set (sl_root_ids ?t))" using step(1) by (simp add: selection_ok_def Let_def)
  obtain added where added: "sl_groups ?t = sl_groups ?s @ [(r, added)]" "\<exists>zs. added = r # zs"
    "added = filter (\<lambda>m. m \<notin> set (sl_order ?s)) (closure_order g r (sl_closed ?t))" using step(3) by blast
  have IH: "groups_ok g ?s" using snoc.IH snoc.prems by simp
  have "groups_ok g ?t"
    unfolding groups_ok_def added(1)
  proof (rule ballI, clarify)
    fix q xs assume "(q, xs) \<in> set (sl_groups ?s @ [(r, added)])"
    then consider "(q, xs) \<in> set (sl_groups ?s)" | "q = r" "xs = added" by auto
    then show "group_ok g (closed_by g (set (sl_root_ids ?t))) q xs"
    proof cases
      case 1
      from bspec [OF IH [unfolded groups_ok_def] this] mono show ?thesis by (auto intro: group_ok_mono)
    next
      case 2
      then show ?thesis unfolding group_ok_def using added(2,3) closed by (metis order_refl)
    qed
  qed
  then show ?case using e by simp
qed

lemma group_sorted:
  assumes "set C \<subseteq> set (dkeys (rg_members g))"
    and "acyclic {(c, m). c \<noteq> m \<and> m \<in> set (references_of g c) \<and> {c, m} \<subseteq> set C}"
    and "i < j" and "j < length (filter P (closure_order g r C))"
  shows "filter P (closure_order g r C) ! i \<notin> set (references_of g (filter P (closure_order g r C) ! j))"
proof
  let ?cands = "closure_walk g C [] [r]" and ?L = "closure_order g r C"
  assume ref: "filter P ?L ! i \<in> set (references_of g (filter P ?L ! j))"
  obtain ys zs where L: "?L = ys @ (filter P ?L ! i) # zs" "filter P ?L ! j \<in> set zs"
    using filter_positions [OF assms(3,4)] by blast
  have w: "distinct ?cands \<and> set ?cands \<subseteq> set C" by (rule closure_walk_distinct) simp_all
  have "acyclic {(c, m). m \<in> set ?cands \<and> c \<in> set (referrers_in g ?cands m)}"
    by (rule acyclic_subset [OF assms(2)]) (use w in \<open>auto simp: referrers_in_def\<close>)
  then have before: "set (referrers_in g ?cands (filter P ?L ! i)) \<subseteq> set ys"
    using emit_order_sorted [of ?cands "referrers_in g ?cands" "[]" ys "filter P ?L ! i" zs] L(1) w
    by (auto simp: closure_order_def Let_def referrers_in_def)
  have d: "distinct ?L" by (rule closure_order_set(2))
  have "filter P ?L ! j \<noteq> filter P ?L ! i" using d assms(3,4) by (simp add: nth_eq_iff_index_eq)
  moreover have "filter P ?L ! j \<in> set ?cands" using L closure_order_set(1) [of g r C] by (metis in_set_conv_decomp Un_iff list.set_intros(2) set_append)
  ultimately have "filter P ?L ! j \<in> set (referrers_in g ?cands (filter P ?L ! i))" using ref by (simp add: referrers_in_def)
  then have "filter P ?L ! j \<in> set ys" using before by blast
  moreover have "distinct (ys @ (filter P ?L ! i) # zs)" using d L(1) by simp
  ultimately show False using L(2) by auto
qed

text \<open>C19: every group of the order leads with its root, and where references among the closed members form no cycle, every
  member of a group comes after all members of the group that refer to it.\<close>

theorem groups_lead_with_referrers:
  assumes "build_graph ms = Inr g" and "set (map fst rs) \<subseteq> set (map rr_id (rg_roots g))" and "distinct (map fst rs)"
    and "(r, added) \<in> set (sl_groups (foldl (\<lambda>s (r, reason). select_root g s r reason) (new_selection g) rs))"
    and "acyclic {(c, m). c \<noteq> m \<and> m \<in> set (references_of g c)
       \<and> {c, m} \<subseteq> set (sl_order (foldl (\<lambda>s (r, reason). select_root g s r reason) (new_selection g) rs))}"
  shows "hd added = r \<and> added \<noteq> [] \<and> (\<forall>i j. i < j \<and> j < length added \<longrightarrow> added ! i \<notin> set (references_of g (added ! j)))"
proof -
  let ?s = "foldl (\<lambda>s (r, reason). select_root g s r reason) (new_selection g) rs"
  have g: "graph_ok g" by (rule build_graphE(4) [OF assms(1)])
  have r0: "sl_root_ids (new_selection g) = []" by (simp add: new_selection_def)
  have s: "selection_ok g ?s"
    using selections_ok(1) [OF g new_selection_ok [OF g], of rs] assms(2,3) unfolding r0 root_ids_of_def by simp
  have "groups_ok g ?s" by (rule selections_groups [OF g _ assms(3)]) (use assms(2) in \<open>simp add: root_ids_of_def\<close>)
  note G = bspec [OF this [unfolded groups_ok_def] assms(4), unfolded prod.case group_ok_def]
  from conjunct2 [OF G] obtain C P where C: "set C \<subseteq> closed_by g (set (sl_root_ids ?s))" "added = filter P (closure_order g r C)"
    by (elim exE conjE)
  obtain zs where zs: "added = r # zs" using conjunct1 [OF G] by (elim exE)
  have order: "set (sl_order ?s) = closed_by g (set (sl_root_ids ?s))" using s by (simp add: selection_ok_def Let_def)
  have "acyclic {(c, m). c \<noteq> m \<and> m \<in> set (references_of g c) \<and> {c, m} \<subseteq> set C}"
    by (rule acyclic_subset [OF assms(5)]) (use C(1) order in blast)
  moreover have "set C \<subseteq> set (dkeys (rg_members g))" using C(1) closed_by_members [OF g] by blast
  ultimately have "i < j \<Longrightarrow> j < length added \<Longrightarrow> added ! i \<notin> set (references_of g (added ! j))" for i j
    unfolding C(2) using group_sorted [of C g i j P r] by simp
  then show ?thesis using zs by simp
qed

section \<open>On the concrete corpus\<close>

definition demo_picks :: "(string \<times> string) list" where
  "demo_picks = [(''i1'', ''max_age_seconds''), (''i2'', ''max_total_bytes'')]"

definition demo_selection :: selection where
  "demo_selection = foldl (\<lambda>s (r, reason). select_root demo_graph s r reason) (new_selection demo_graph) demo_picks"

lemma demo_picks_ok: "set (map fst demo_picks) \<subseteq> set (map rr_id (rg_roots demo_graph))" "distinct (map fst demo_picks)"
  by (simp_all add: demo_picks_def demo_graph_def demo_roots_def demo_root_def)

theorem selection_is_closure_witness:
  "sl_bytes demo_selection = sum_list (map (disk_of demo_graph) (deletion_closure demo_graph [''i1'', ''i2'']))
    \<and> distinct (sl_order demo_selection) \<and> concat (map snd (sl_groups demo_selection)) = sl_order demo_selection"
  using selection_is_closure [OF demo_built demo_picks_ok, folded demo_selection_def]
  by (simp add: Let_def demo_picks_def)

lemma demo_groups: "sl_groups demo_selection = [(''i1'', [''i1'']), (''i2'', [''i2'', ''c'', ''b''])]"
  "sl_order demo_selection = [''i1'', ''i2'', ''c'', ''b'']"
  by code_simp+

lemma demo_references: "references_of demo_graph ''i1'' = [''b'']" "references_of demo_graph ''i2'' = [''b'', ''c'']"
  "references_of demo_graph ''b'' = []" "references_of demo_graph ''c'' = [''b'']"
  by (simp_all add: references_of_def demo_graph_def demo_by_def demo_members_def demo_member_def)

lemma demo_acyclic: "acyclic {(c, m). c \<noteq> m \<and> m \<in> set (references_of demo_graph c) \<and> {c, m} \<subseteq> set (sl_order demo_selection)}"
proof (rule acyclic_subset [OF wf_acyclic [OF wf_measure [of "\<lambda>x. if x = ''b'' then 2 else if x = ''c'' then 1 else (0 :: nat)"]]], clarify)
  fix c m assume "c \<noteq> m" "m \<in> set (references_of demo_graph c)" "{c, m} \<subseteq> set (sl_order demo_selection)"
  then have "(c, m) = (''i1'', ''b'') \<or> (c, m) = (''i2'', ''b'') \<or> (c, m) = (''i2'', ''c'') \<or> (c, m) = (''c'', ''b'')"
    unfolding demo_groups set_simps insert_iff empty_iff insert_subset
    by (elim conjE disjE; simp add: demo_references)
  then show "(c, m) \<in> measure (\<lambda>x. if x = ''b'' then 2 else if x = ''c'' then 1 else 0)" by auto
qed

theorem groups_lead_with_referrers_witness:
  "hd [''i2'', ''c'', ''b''] = ''i2'' \<and> [''i2'', ''c'', ''b''] ! 1 \<notin> set (references_of demo_graph ([''i2'', ''c'', ''b''] ! 2))"
proof -
  have "(''i2'', [''i2'', ''c'', ''b'']) \<in> set (sl_groups demo_selection)" by (simp add: demo_groups)
  from groups_lead_with_referrers [OF demo_built demo_picks_ok, folded demo_selection_def, OF this demo_acyclic]
  have "\<forall>i j. i < j \<and> j < length [''i2'', ''c'', ''b''] \<longrightarrow> [''i2'', ''c'', ''b''] ! i \<notin> set (references_of demo_graph ([''i2'', ''c'', ''b''] ! j))"
    by blast
  from this [rule_format, of 1 2] show ?thesis by simp
qed

end
