(* ===== verification/Retention_Plan.thy ===== *)
theory Retention_Plan
  imports Retention_Selection
begin

text \<open>
  The retention planner of \<open>bin/_lib_artifact_retention.py\<close>: the shape floor, the four bounds applied in turn
  over the roots oldest first (\<open>_run_selection\<close>), the bounds left unmet (\<open>_unsatisfied_rules\<close>) and the plan. A
  bound that is \<open>None\<close> is off.
\<close>

section \<open>Policy, state and plan\<close>

record retention_policy =
  rp_max_age_seconds :: "int option"
  rp_max_count_per_family :: "int option"
  rp_max_total_bytes :: "int option"
  rp_min_free_bytes :: "int option"
  rp_max_shape_examples :: int

record retention_state =
  rs_graph :: retention_graph
  rs_now :: rat
  rs_free_disk_bytes :: "int option"

record retention_plan =
  rpl_delete_ids :: "string list"
  rpl_delete_groups :: "(string \<times> string list) list"
  rpl_keep_ids :: "string list"
  rpl_protected_ids :: "string list"
  rpl_reasons :: "(string, string) dict"
  rpl_before_bytes :: int
  rpl_projected_bytes :: int
  rpl_reclaimable_bytes :: int
  rpl_reference_pinned_bytes :: int
  rpl_unsatisfied_rules :: "string list"
  rpl_floor_retained_ids :: "string list"
  rpl_floor_retained_bytes :: int

definition NON_SHAPE_TOKEN :: string where
  "NON_SHAPE_TOKEN = ''none''"

definition BOUND_ORDER :: "string list" where
  "BOUND_ORDER = [''max_age_seconds'', ''max_count_per_family'', ''max_total_bytes'', ''min_free_bytes'']"

section \<open>The shape floor\<close>

definition has_shape :: "retention_root \<Rightarrow> string \<Rightarrow> bool" where
  "has_shape rt token \<longleftrightarrow> rr_shape rt = Some token \<and> token \<noteq> '''' \<and> token \<noteq> NON_SHAPE_TOKEN"

definition root_age_key :: "retention_root \<Rightarrow> rat \<times> string" where
  "root_age_key rt = (rr_created rt, rr_id rt)"

definition newest_example ::
  "string list \<Rightarrow> (string, retention_root) dict \<Rightarrow> retention_root \<Rightarrow> (string, retention_root) dict" where
  "newest_example eligible newest rt = (case rr_shape rt of None \<Rightarrow> newest
     | Some token \<Rightarrow>
         if \<not> has_shape rt token then newest
         else if rr_id rt \<notin> set eligible then newest
         else (case dget newest token of
             None \<Rightarrow> dset token rt newest
           | Some current \<Rightarrow> if root_age_key rt > root_age_key current then dset token rt newest else newest))"

definition shape_floor_ids :: "retention_graph \<Rightarrow> string list \<Rightarrow> int \<Rightarrow> string list" where
  "shape_floor_ids g eligible max_shape_examples =
     (if max_shape_examples \<le> 0 then []
      else let newest = foldl (newest_example eligible) [] (rg_roots g);
               ranked = sort_key (\<lambda>rt. (- rr_created rt, rr_id rt)) (map snd newest)
           in map rr_id (take (nat max_shape_examples) ranked))"

section \<open>The bounds in turn\<close>

text \<open>One candidate of the age and count phases: taken when the bound asks for it, otherwise kept for the next phase.\<close>

definition take_or_keep :: "retention_graph \<Rightarrow> (selection \<Rightarrow> retention_root \<Rightarrow> bool) \<Rightarrow> string
    \<Rightarrow> selection \<times> retention_root list \<Rightarrow> retention_root \<Rightarrow> selection \<times> retention_root list" where
  "take_or_keep g wanted reason st rt = (case st of (s, kept) \<Rightarrow>
     if wanted s rt then (select_root g s (rr_id rt) reason, kept) else (s, kept @ [rt]))"

text \<open>The byte and free-disk phases: the candidates at the cursor, while the bound is unmet.\<close>

fun take_while_unmet :: "retention_graph \<Rightarrow> (selection \<Rightarrow> bool) \<Rightarrow> string \<Rightarrow> selection \<Rightarrow> retention_root list
    \<Rightarrow> selection \<times> retention_root list" where
  "take_while_unmet g unmet reason s [] = (s, [])"
| "take_while_unmet g unmet reason s (rt # remaining) =
     (if unmet s then take_while_unmet g unmet reason (select_root g s (rr_id rt) reason) remaining
      else (s, rt # remaining))"

definition too_old :: "retention_state \<Rightarrow> int \<Rightarrow> retention_root \<Rightarrow> bool" where
  "too_old st max_age rt \<longleftrightarrow> rs_now st - rr_created rt > of_int max_age"

definition family_over :: "int \<Rightarrow> selection \<Rightarrow> retention_root \<Rightarrow> bool" where
  "family_over max_count s rt \<longleftrightarrow> dget_or (surviving_root_counts s) (rr_family rt) 0 > max_count"

definition age_phase :: "retention_state \<Rightarrow> retention_policy \<Rightarrow> selection \<times> retention_root list \<Rightarrow> selection \<times> retention_root list" where
  "age_phase st policy sr = (case rp_max_age_seconds policy of None \<Rightarrow> sr
     | Some max_age \<Rightarrow> foldl (take_or_keep (rs_graph st) (\<lambda>_. too_old st max_age) ''max_age_seconds'') (fst sr, []) (snd sr))"

definition count_phase :: "retention_state \<Rightarrow> retention_policy \<Rightarrow> selection \<times> retention_root list \<Rightarrow> selection \<times> retention_root list" where
  "count_phase st policy sr = (case rp_max_count_per_family policy of None \<Rightarrow> sr
     | Some max_count \<Rightarrow> foldl (take_or_keep (rs_graph st) (family_over max_count) ''max_count_per_family'') (fst sr, []) (snd sr))"

definition total_unmet :: "retention_policy \<Rightarrow> int \<Rightarrow> selection \<Rightarrow> bool" where
  "total_unmet policy before_bytes s \<longleftrightarrow> (case rp_max_total_bytes policy of None \<Rightarrow> False
     | Some limit \<Rightarrow> before_bytes - sl_bytes s > limit)"

definition free_unmet :: "retention_state \<Rightarrow> retention_policy \<Rightarrow> selection \<Rightarrow> bool" where
  "free_unmet st policy s \<longleftrightarrow> (case (rs_free_disk_bytes st, rp_min_free_bytes policy) of
     (Some free, Some least) \<Rightarrow> free + sl_bytes s < least | _ \<Rightarrow> False)"

definition run_selection :: "retention_state \<Rightarrow> retention_policy \<Rightarrow> string list \<Rightarrow> selection \<times> int" where
  "run_selection st policy floored =
     (let g = rs_graph st;
          remaining = filter (\<lambda>rt. rr_protected rt = [] \<and> rr_id rt \<notin> set floored) (rg_roots g);
          (s1, kept1) = age_phase st policy (new_selection g, remaining);
          (s2, kept2) = count_phase st policy (s1, kept1);
          before_bytes = sum_list (map (\<lambda>(_, m). rm_disk m) (rg_members g));
          (s3, kept3) = take_while_unmet g (total_unmet policy before_bytes) ''max_total_bytes'' s2 kept2;
          (s4, kept4) = take_while_unmet g (free_unmet st policy) ''min_free_bytes'' s3 kept3
      in (s4, before_bytes))"

definition unsatisfied_rules :: "retention_state \<Rightarrow> retention_policy \<Rightarrow> selection \<Rightarrow> int \<Rightarrow> string list" where
  "unsatisfied_rules st policy s before_bytes =
     (case rp_max_age_seconds policy of None \<Rightarrow> []
      | Some max_age \<Rightarrow> if list_ex (too_old st max_age) (filter (\<lambda>rt. rr_id rt \<notin> set (sl_closed s)) (rg_roots (rs_graph st)))
          then [''max_age_seconds''] else [])
   @ (case rp_max_count_per_family policy of None \<Rightarrow> []
      | Some max_count \<Rightarrow> if list_ex (\<lambda>(_, n). n > max_count) (surviving_root_counts s)
          then [''max_count_per_family''] else [])
   @ (if total_unmet policy before_bytes s then [''max_total_bytes''] else [])
   @ (if free_unmet st policy s then [''min_free_bytes''] else [])"

section \<open>The plan\<close>

definition keep_reason :: "string list \<Rightarrow> string list \<Rightarrow> string list \<Rightarrow> string list \<times> (string, string) dict
    \<Rightarrow> retention_root \<Rightarrow> string list \<times> (string, string) dict" where
  "keep_reason deleted selected floored kr rt = (case kr of (keep_ids, reasons) \<Rightarrow>
     if rr_id rt \<in> set deleted \<or> rr_protected rt \<noteq> [] then (keep_ids, reasons)
     else (keep_ids @ [rr_id rt],
       if rr_id rt \<in> set selected then dset (rr_id rt) ''reference-pinned'' reasons
       else set_default (if rr_id rt \<in> set floored then ''shape-floor'' else ''retained'') reasons (rr_id rt)))"

definition pinned_bytes :: "retention_graph \<Rightarrow> string list \<Rightarrow> string list \<Rightarrow> int" where
  "pinned_bytes g deleted selected = sum_list (map (\<lambda>(m, inbound). disk_of g m)
     (filter (\<lambda>(m, inbound). \<not> (m \<in> set deleted \<or> inbound = []) \<and> list_ex (\<lambda>r. r \<in> set selected) inbound) (rg_inbound g)))"

text \<open>The roots the floor keeps: \<open>floored\<close> in the planner.\<close>

definition plan_floor :: "retention_state \<Rightarrow> retention_policy \<Rightarrow> string list" where
  "plan_floor st policy = (let eligible_ids = map rr_id (filter (\<lambda>rt. rr_protected rt = []) (rg_roots (rs_graph st)))
     in shape_floor_ids (rs_graph st) eligible_ids (rp_max_shape_examples policy))"

definition plan_artifact_retention :: "retention_state \<Rightarrow> retention_policy \<Rightarrow> retention_plan" where
  "plan_artifact_retention st policy =
     (let g = rs_graph st;
          protected = filter (\<lambda>rt. rr_protected rt \<noteq> []) (rg_roots g);
          floored = plan_floor st policy;
          (s, before_bytes) = run_selection st policy floored;
          reclaimable = sl_bytes s;
          (unsatisfied, floor_retained, floor_bytes) =
            (if floored \<noteq> []
             then let floor_free = fst (run_selection st policy []);
                      retained = map rr_id (filter (\<lambda>rt. rr_id rt \<in> set floored \<and> rr_id rt \<in> set (sl_closed floor_free)) (rg_roots g))
                  in (unsatisfied_rules st policy floor_free before_bytes, retained,
                      sum_list (map (disk_of g) (filter (\<lambda>m. m \<notin> set (sl_closed s))
                        (deletion_closure g (sl_root_ids s @ retained)))))
             else (unsatisfied_rules st policy s before_bytes, [], 0));
          reasons = foldl (\<lambda>d rt. dset (rr_id rt) (join '','' (rr_protected rt)) d) (sl_reasons s) protected;
          (keep_ids, reasons') = foldl (keep_reason (sl_closed s) (sl_root_ids s) floored) ([], reasons) (rg_roots g)
      in \<lparr>rpl_delete_ids = sl_order s, rpl_delete_groups = sl_groups s, rpl_keep_ids = keep_ids,
          rpl_protected_ids = map rr_id protected, rpl_reasons = reasons', rpl_before_bytes = before_bytes,
          rpl_projected_bytes = before_bytes - reclaimable, rpl_reclaimable_bytes = reclaimable,
          rpl_reference_pinned_bytes = pinned_bytes g (sl_closed s) (sl_root_ids s),
          rpl_unsatisfied_rules = filter (\<lambda>rule. rule \<in> set unsatisfied) BOUND_ORDER,
          rpl_floor_retained_ids = floor_retained, rpl_floor_retained_bytes = floor_bytes\<rparr>)"

section \<open>What a phase does to the candidates\<close>

text \<open>A candidate of the same family that comes first in age order.\<close>

definition older_kin :: "retention_root \<Rightarrow> retention_root \<Rightarrow> bool" where
  "older_kin a b \<longleftrightarrow> rr_family a = rr_family b \<and> root_age_key a < root_age_key b"

text \<open>A selection and the candidates left, and what any sequence of steps does to them: it selects some candidates, keeps
  the others in order, and keeps every younger relative of a kept one.\<close>

definition candidates_ok :: "retention_graph \<Rightarrow> selection \<Rightarrow> retention_root list \<Rightarrow> bool" where
  "candidates_ok g s rem \<longleftrightarrow> selection_ok g s \<and> distinct (sl_root_ids s @ map rr_id rem)
     \<and> set rem \<subseteq> set (rg_roots g) \<and> sorted (map root_age_key rem)"

definition moves :: "retention_graph \<Rightarrow> selection \<Rightarrow> retention_root list \<Rightarrow> selection \<Rightarrow> retention_root list \<Rightarrow> bool" where
  "moves g s rem s' rem' \<longleftrightarrow> (\<exists>sel. s' = foldl (\<lambda>s (r, reason). select_root g s r reason) s sel
       \<and> mset (map fst sel) + mset (map rr_id rem') = mset (map rr_id rem))
     \<and> (\<exists>P. rem' = filter P rem) \<and> (\<forall>a \<in> set rem'. \<forall>b \<in> set rem. older_kin a b \<longrightarrow> b \<in> set rem')"

lemma moves_refl: "moves g s rem s rem"
  unfolding moves_def by (intro conjI exI [of _ "[]"] exI [of _ "\<lambda>_. True"]) simp_all

lemma moves_trans:
  assumes "moves g s rem s1 rem1" and "moves g s1 rem1 s2 rem2"
  shows "moves g s rem s2 rem2"
proof -
  obtain sel P where 1: "s1 = foldl (\<lambda>s (r, reason). select_root g s r reason) s sel"
    "mset (map fst sel) + mset (map rr_id rem1) = mset (map rr_id rem)" "rem1 = filter P rem"
    using assms(1) unfolding moves_def by blast
  obtain sel' Q where 2: "s2 = foldl (\<lambda>s (r, reason). select_root g s r reason) s1 sel'"
    "mset (map fst sel') + mset (map rr_id rem2) = mset (map rr_id rem1)" "rem2 = filter Q rem1"
    using assms(2) unfolding moves_def by blast
  have "s2 = foldl (\<lambda>s (r, reason). select_root g s r reason) s (sel @ sel')" by (simp add: 1 2)
  moreover have "mset (map fst (sel @ sel')) + mset (map rr_id rem2) = mset (map rr_id rem)"
    using 1(2) 2(2) by (simp add: add.assoc)
  moreover have "rem2 = filter (\<lambda>x. P x \<and> Q x) rem" by (simp add: 1 2)
  moreover have "set rem2 \<subseteq> set rem1" using 2(3) by auto
  moreover have "\<forall>a \<in> set rem1. \<forall>b \<in> set rem. older_kin a b \<longrightarrow> b \<in> set rem1"
    "\<forall>a \<in> set rem2. \<forall>b \<in> set rem1. older_kin a b \<longrightarrow> b \<in> set rem2" using assms unfolding moves_def by blast+
  ultimately show ?thesis unfolding moves_def by blast
qed

lemma moves_ids:
  assumes "graph_ok g" and "candidates_ok g s rem" and "moves g s rem s' rem'"
  shows "candidates_ok g s' rem'" and "set (sl_root_ids s) \<subseteq> set (sl_root_ids s')"
    and "set (sl_root_ids s') \<union> rr_id ` set rem' = set (sl_root_ids s) \<union> rr_id ` set rem" and "set rem' \<subseteq> set rem"
proof -
  obtain sel P where 1: "s' = foldl (\<lambda>s (r, reason). select_root g s r reason) s sel"
    "mset (map fst sel) + mset (map rr_id rem') = mset (map rr_id rem)" "rem' = filter P rem"
    using assms(3) unfolding moves_def by blast
  have m: "mset (map fst sel @ map rr_id rem') = mset (map rr_id rem)" using 1(2) by simp
  have sets: "set (map fst sel) \<union> rr_id ` set rem' = rr_id ` set rem" using mset_eq_setD [OF m] by simp
  have ok: "selection_ok g s" "distinct (sl_root_ids s @ map rr_id rem)" "set rem \<subseteq> set (rg_roots g)" "sorted (map root_age_key rem)"
    using assms(2) by (simp_all add: candidates_ok_def)
  have d: "distinct (map fst sel @ map rr_id rem')" using ok(2) mset_eq_imp_distinct_iff [OF m] by simp
  have dd: "distinct (sl_root_ids s @ map fst sel @ map rr_id rem')"
    using d ok(2) sets by auto
  have sub: "set (map fst sel) \<subseteq> set (root_ids_of g)" using sets ok(3) by (auto simp: root_ids_of_def)
  have "distinct (sl_root_ids s @ map fst sel)" using dd by (auto simp only: distinct_append set_append)
  note so = selections_ok [OF assms(1) ok(1) sub this]
  have ids: "sl_root_ids s' = sl_root_ids s @ map fst sel" and s': "selection_ok g s'" unfolding 1(1) by (rule so)+
  show "candidates_ok g s' rem'" unfolding candidates_ok_def ids
    using s' dd ok(3,4) 1(3) by (auto intro: sorted_filter)
  show "set (sl_root_ids s) \<subseteq> set (sl_root_ids s')" by (simp add: ids)
  show "set (sl_root_ids s') \<union> rr_id ` set rem' = set (sl_root_ids s) \<union> rr_id ` set rem" using ids sets by auto
  show "set rem' \<subseteq> set rem" using 1(3) by auto
qed

lemma moves_take:
  assumes "candidates_ok g s (kept @ r # rem)" and "\<And>a. a \<in> set kept \<Longrightarrow> \<not> older_kin a r"
  shows "moves g s (kept @ r # rem) (select_root g s (rr_id r) reason) (kept @ rem)"
proof -
  have "r \<notin> set (kept @ rem)" using assms(1) by (auto simp: candidates_ok_def)
  then have "filter (\<lambda>x. x \<noteq> r) kept = kept" "filter (\<lambda>x. x \<noteq> r) rem = rem" by (auto intro!: filter_True)
  then have "filter (\<lambda>x. x \<noteq> r) (kept @ r # rem) = kept @ rem" by simp
  moreover have "\<not> older_kin a r" if "a \<in> set rem" for a
    using assms(1) that by (auto simp: candidates_ok_def older_kin_def sorted_append)
  ultimately show ?thesis unfolding moves_def using assms(2)
    by (intro conjI exI [of _ "[(rr_id r, reason)]"] exI [of _ "\<lambda>x. x \<noteq> r"] ballI impI) auto
qed

lemma moves_counts:
  assumes "graph_ok g" and "candidates_ok g s rem" and "moves g s rem s' rem'"
  shows "dget_or (surviving_root_counts s') f 0 \<le> dget_or (surviving_root_counts s) f 0"
proof -
  have ok: "selection_ok g s" "selection_ok g s'"
    using assms(2) moves_ids(1) [OF assms] by (simp_all add: candidates_ok_def)
  have "closed_by g (set (sl_root_ids s)) \<subseteq> closed_by g (set (sl_root_ids s'))" by (rule closed_by_mono [OF moves_ids(2) [OF assms]])
  then have "filter (\<lambda>r. rr_family r = f \<and> rr_id r \<notin> closed_by g (set (sl_root_ids s'))) (rg_roots g)
      = filter (\<lambda>r. rr_id r \<notin> closed_by g (set (sl_root_ids s')))
          (filter (\<lambda>r. rr_family r = f \<and> rr_id r \<notin> closed_by g (set (sl_root_ids s))) (rg_roots g))"
    unfolding filter_filter by (intro filter_cong) auto
  then show ?thesis unfolding surviving_get(1) [OF ok(1)] surviving_get(1) [OF ok(2)] survivors_in_def
    by (simp only: of_nat_le_iff length_filter_le)
qed

definition disk_nonneg :: "retention_graph \<Rightarrow> bool" where
  "disk_nonneg g \<longleftrightarrow> (\<forall>(_, m) \<in> set (rg_members g). 0 \<le> rm_disk m)"

lemma disk_of_nonneg: "disk_nonneg g \<Longrightarrow> 0 \<le> disk_of g m"
  by (auto simp: disk_nonneg_def disk_of_def split: option.split dest: dget_Some_in)

lemma bytes_mono:
  assumes "selection_ok g s" and "selection_ok g s'" and "disk_nonneg g" and "set (sl_root_ids s) \<subseteq> set (sl_root_ids s')"
  shows "sl_bytes s \<le> sl_bytes s'"
proof -
  have "finite (closed_by g (set (sl_root_ids s')))" using assms(2) by (metis (no_types) List.finite_set selection_ok_def)
  then have "sum (disk_of g) (closed_by g (set (sl_root_ids s))) \<le> sum (disk_of g) (closed_by g (set (sl_root_ids s')))"
    by (rule sum_mono2) (use closed_by_mono [OF assms(4)] disk_of_nonneg [OF assms(3)] in auto)
  then show ?thesis using assms(1,2) by (simp add: selection_ok_def Let_def)
qed

lemma moves_bytes:
  assumes "graph_ok g" and "candidates_ok g s rem" and "moves g s rem s' rem'" and "disk_nonneg g"
  shows "sl_bytes s \<le> sl_bytes s'"
  using bytes_mono [OF _ _ assms(4) moves_ids(2) [OF assms(1-3)]] assms(2) moves_ids(1) [OF assms(1-3)]
  by (simp add: candidates_ok_def)

section \<open>What the phases leave\<close>

lemma take_or_keep_fold:
  assumes g: "graph_ok g"
    and anti: "\<And>s rem s' rem' r. candidates_ok g s rem \<Longrightarrow> moves g s rem s' rem' \<Longrightarrow> wanted s' r \<Longrightarrow> wanted s r"
    and older: "\<And>s a b. older_kin a b \<Longrightarrow> wanted s b \<Longrightarrow> wanted s a"
    and "candidates_ok g s (kept @ todo)" and "\<And>a. a \<in> set kept \<Longrightarrow> \<not> wanted s a"
    and "foldl (take_or_keep g wanted reason) (s, kept) todo = (s', kept')"
  shows "moves g s (kept @ todo) s' kept' \<and> (\<forall>a \<in> set kept'. \<not> wanted s' a)"
  using assms(4-6)
proof (induction todo arbitrary: s kept)
  case Nil
  then show ?case by (simp add: moves_refl)
next
  case (Cons r todo)
  show ?case
  proof (cases "wanted s r")
    case True
    let ?s = "select_root g s (rr_id r) reason"
    have step: "moves g s (kept @ r # todo) ?s (kept @ todo)"
      by (rule moves_take [OF Cons.prems(1)]) (use True older Cons.prems(2) in blast)
    have "moves g ?s (kept @ todo) s' kept' \<and> (\<forall>a \<in> set kept'. \<not> wanted s' a)"
    proof (rule Cons.IH)
      show "candidates_ok g ?s (kept @ todo)" by (rule moves_ids(1) [OF g Cons.prems(1) step])
      show "\<not> wanted ?s a" if "a \<in> set kept" for a using anti [OF Cons.prems(1) step] Cons.prems(2) [OF that] by blast
      show "foldl (take_or_keep g wanted reason) (?s, kept) todo = (s', kept')"
        using Cons.prems(3) True unfolding foldl_Cons by (simp only: take_or_keep_def [of g wanted reason "(s, kept)" r] prod.case if_True)
    qed
    then show ?thesis using moves_trans [OF step] by blast
  next
    case False
    have "moves g s ((kept @ [r]) @ todo) s' kept' \<and> (\<forall>a \<in> set kept'. \<not> wanted s' a)"
    proof (rule Cons.IH)
      show "foldl (take_or_keep g wanted reason) (s, kept @ [r]) todo = (s', kept')"
        using Cons.prems(3) False unfolding foldl_Cons by (simp only: take_or_keep_def [of g wanted reason "(s, kept)" r] prod.case if_False)
    qed (use Cons.prems(1,2) False in auto)
    then show ?thesis by simp
  qed
qed

lemma take_while_unmet_moves:
  assumes "graph_ok g" and "candidates_ok g s rem" and "take_while_unmet g unmet reason s rem = (s', rem')"
  shows "moves g s rem s' rem' \<and> (rem' = [] \<or> \<not> unmet s')"
  using assms
proof (induction g unmet reason s rem rule: take_while_unmet.induct)
  case (2 g unmet reason s r rem)
  note g = 2(2) and c = 2(3) and run = 2(4)
  show ?case
  proof (cases "unmet s")
    case True
    have step: "moves g s (r # rem) (select_root g s (rr_id r) reason) rem"
      using moves_take [of g s "[]" r rem] c by simp
    have "moves g (select_root g s (rr_id r) reason) rem s' rem' \<and> (rem' = [] \<or> \<not> unmet s')"
      by (rule 2(1) [OF True g moves_ids(1) [OF g c step]]) (use run True in simp)
    then show ?thesis using moves_trans [OF step] by blast
  next
    case False
    then show ?thesis using run by (auto simp: moves_refl)
  qed
qed (simp add: moves_refl)

lemma age_phase_moves:
  assumes "graph_ok (rs_graph st)" and "candidates_ok (rs_graph st) s rem" and "age_phase st policy (s, rem) = (s', rem')"
  shows "moves (rs_graph st) s rem s' rem'"
    and "rp_max_age_seconds policy = Some a \<Longrightarrow> r \<in> set rem' \<Longrightarrow> \<not> too_old st a r"
proof -
  have "moves (rs_graph st) s rem s' rem' \<and> (\<forall>a r. rp_max_age_seconds policy = Some a \<longrightarrow> r \<in> set rem' \<longrightarrow> \<not> too_old st a r)"
  proof (cases "rp_max_age_seconds policy")
    case None
    then show ?thesis using assms(3) by (simp add: age_phase_def moves_refl)
  next
    case (Some a)
    have "moves (rs_graph st) s ([] @ rem) s' rem' \<and> (\<forall>r \<in> set rem'. \<not> too_old st a r)"
    proof (rule take_or_keep_fold [OF assms(1), where wanted = "\<lambda>_. too_old st a"])
      show "older_kin x y \<Longrightarrow> too_old st a y \<Longrightarrow> too_old st a x" for x y
        by (auto simp: older_kin_def root_age_key_def too_old_def)
      show "foldl (take_or_keep (rs_graph st) (\<lambda>_. too_old st a) ''max_age_seconds'') (s, []) rem = (s', rem')"
        using assms(3) Some by (simp add: age_phase_def)
    qed (use assms(2) in simp_all)
    then show ?thesis using Some by simp
  qed
  then show "moves (rs_graph st) s rem s' rem'"
    and "rp_max_age_seconds policy = Some a \<Longrightarrow> r \<in> set rem' \<Longrightarrow> \<not> too_old st a r" by blast+
qed

lemma count_phase_moves:
  assumes "graph_ok (rs_graph st)" and "candidates_ok (rs_graph st) s rem" and "count_phase st policy (s, rem) = (s', rem')"
  shows "moves (rs_graph st) s rem s' rem'"
    and "rp_max_count_per_family policy = Some n \<Longrightarrow> r \<in> set rem' \<Longrightarrow> \<not> family_over n s' r"
proof -
  have "moves (rs_graph st) s rem s' rem' \<and> (\<forall>n r. rp_max_count_per_family policy = Some n \<longrightarrow> r \<in> set rem' \<longrightarrow> \<not> family_over n s' r)"
  proof (cases "rp_max_count_per_family policy")
    case None
    then show ?thesis using assms(3) by (simp add: count_phase_def moves_refl)
  next
    case (Some n)
    have "moves (rs_graph st) s ([] @ rem) s' rem' \<and> (\<forall>r \<in> set rem'. \<not> family_over n s' r)"
    proof (rule take_or_keep_fold [OF assms(1), where wanted = "family_over n"])
      show "family_over n s r" if "candidates_ok (rs_graph st) s rem" "moves (rs_graph st) s rem s' rem'" "family_over n s' r" for s rem s' rem' r
        using moves_counts [OF assms(1) that(1,2), of "rr_family r"] that(3) by (simp add: family_over_def)
      show "older_kin x y \<Longrightarrow> family_over n s y \<Longrightarrow> family_over n s x" for s x y
        by (auto simp: older_kin_def family_over_def)
      show "foldl (take_or_keep (rs_graph st) (family_over n) ''max_count_per_family'') (s, []) rem = (s', rem')"
        using assms(3) Some by (simp add: count_phase_def)
    qed (use assms(2) in simp_all)
    then show ?thesis using Some by simp
  qed
  then show "moves (rs_graph st) s rem s' rem'"
    and "rp_max_count_per_family policy = Some n \<Longrightarrow> r \<in> set rem' \<Longrightarrow> \<not> family_over n s' r" by blast+
qed

section \<open>A complete run\<close>

definition eligible_roots :: "retention_graph \<Rightarrow> string list \<Rightarrow> retention_root list" where
  "eligible_roots g floored = filter (\<lambda>r. rr_protected r = [] \<and> rr_id r \<notin> set floored) (rg_roots g)"

definition disk_total :: "retention_graph \<Rightarrow> int" where
  "disk_total g = sum_list (map (\<lambda>(_, m). rm_disk m) (rg_members g))"

lemma unmet_antitone:
  assumes "sl_bytes s \<le> sl_bytes s'"
  shows "total_unmet policy b s' \<Longrightarrow> total_unmet policy b s" and "free_unmet st policy s' \<Longrightarrow> free_unmet st policy s"
  using assms by (auto simp: total_unmet_def free_unmet_def split: option.splits)

lemma candidates_start: "graph_ok g \<Longrightarrow> candidates_ok g (new_selection g) (eligible_roots g floored)"
proof -
  assume g: "graph_ok g"
  have "distinct (map rr_id (rg_roots g))" "sorted (map root_age_key (rg_roots g))"
    using g by (simp_all add: graph_ok_def root_ids_of_def root_age_key_def [abs_def])
  then show ?thesis using new_selection_ok [OF g]
    by (auto simp: candidates_ok_def eligible_roots_def new_selection_def distinct_map_filter intro: sorted_filter)
qed

lemma run_selection_phases:
  assumes g: "graph_ok (rs_graph st)" and run: "run_selection st policy floored = (s, before)"
  obtains rem where "moves (rs_graph st) (new_selection (rs_graph st)) (eligible_roots (rs_graph st) floored) s rem"
    and "before = disk_total (rs_graph st)"
    and "\<And>a r. rp_max_age_seconds policy = Some a \<Longrightarrow> r \<in> set rem \<Longrightarrow> \<not> too_old st a r"
    and "\<And>n r. rp_max_count_per_family policy = Some n \<Longrightarrow> r \<in> set rem \<Longrightarrow> \<not> family_over n s r"
    and "disk_nonneg (rs_graph st) \<Longrightarrow> rem \<noteq> [] \<Longrightarrow> \<not> total_unmet policy before s"
    and "rem \<noteq> [] \<Longrightarrow> \<not> free_unmet st policy s"
proof -
  let ?g = "rs_graph st" and ?W = "eligible_roots (rs_graph st) floored"
  obtain s1 k1 where 1: "age_phase st policy (new_selection ?g, ?W) = (s1, k1)" by (metis surj_pair)
  obtain s2 k2 where 2: "count_phase st policy (s1, k1) = (s2, k2)" by (metis surj_pair)
  obtain s3 k3 where 3: "take_while_unmet ?g (total_unmet policy (disk_total ?g)) ''max_total_bytes'' s2 k2 = (s3, k3)" by (metis surj_pair)
  obtain s4 k4 where 4: "take_while_unmet ?g (free_unmet st policy) ''min_free_bytes'' s3 k3 = (s4, k4)" by (metis surj_pair)
  have s: "s = s4" and before: "before = disk_total ?g"
    using run 1 2 3 4 by (simp_all add: run_selection_def Let_def eligible_roots_def disk_total_def)
  note c0 = candidates_start [OF g, of floored]
  note m1 = age_phase_moves [OF g c0 1]
  note c1 = moves_ids(1) [OF g c0 m1(1)]
  note m2 = count_phase_moves [OF g c1 2]
  note c2 = moves_ids(1) [OF g c1 m2(1)]
  note m3 = take_while_unmet_moves [OF g c2 3]
  note c3 = moves_ids(1) [OF g c2 conjunct1 [OF m3]]
  note m4 = take_while_unmet_moves [OF g c3 4]
  note m24 = moves_trans [OF conjunct1 [OF m3] conjunct1 [OF m4]]
  have sub: "set k4 \<subseteq> set k3" "set k4 \<subseteq> set k2" "set k4 \<subseteq> set k1"
    using moves_ids(4) [OF g c3 conjunct1 [OF m4]] moves_ids(4) [OF g c2 m24] moves_ids(4) [OF g c1 m2(1)] by auto
  show ?thesis
  proof (rule that [of k4])
    show "moves ?g (new_selection ?g) ?W s k4" using moves_trans [OF m1(1) moves_trans [OF m2(1) m24]] s by simp
    show "before = disk_total ?g" by (rule before)
    show "\<not> too_old st a r" if "rp_max_age_seconds policy = Some a" "r \<in> set k4" for a r
      using m1(2) [OF that(1)] that(2) sub(3) by blast
    show "\<not> family_over n s r" if "rp_max_count_per_family policy = Some n" "r \<in> set k4" for n r
      using m2(2) [OF that(1), of r] that(2) sub(2) moves_counts [OF g c2 m24, of "rr_family r"] s by (auto simp: family_over_def)
    show "\<not> total_unmet policy before s" if "disk_nonneg ?g" "k4 \<noteq> []"
    proof -
      have "k3 \<noteq> []" using that(2) sub(1) by auto
      then have "\<not> total_unmet policy (disk_total ?g) s3" using m3 by blast
      then show ?thesis using unmet_antitone(1) [OF moves_bytes [OF g c3 conjunct1 [OF m4] that(1)]] before s by blast
    qed
    show "k4 \<noteq> [] \<Longrightarrow> \<not> free_unmet st policy s" using m4 s by blast
  qed
qed

text \<open>The run seen from its end: what it selected, in terms of the eligible roots.\<close>

lemma run_selection_result:
  assumes g: "graph_ok (rs_graph st)" and run: "run_selection st policy floored = (s, before)"
  obtains rem where "selection_ok (rs_graph st) s"
    and "set (sl_root_ids s) = rr_id ` (set (eligible_roots (rs_graph st) floored) - set rem)"
    and "set rem \<subseteq> set (eligible_roots (rs_graph st) floored)" and "rr_id ` set rem \<inter> set (sl_root_ids s) = {}"
    and "\<And>a b. a \<in> set rem \<Longrightarrow> b \<in> set (eligible_roots (rs_graph st) floored) \<Longrightarrow> older_kin a b \<Longrightarrow> b \<in> set rem"
    and "before = disk_total (rs_graph st)"
    and "\<And>a r. rp_max_age_seconds policy = Some a \<Longrightarrow> r \<in> set rem \<Longrightarrow> \<not> too_old st a r"
    and "\<And>n r. rp_max_count_per_family policy = Some n \<Longrightarrow> r \<in> set rem \<Longrightarrow> \<not> family_over n s r"
    and "disk_nonneg (rs_graph st) \<Longrightarrow> rem \<noteq> [] \<Longrightarrow> \<not> total_unmet policy before s"
    and "rem \<noteq> [] \<Longrightarrow> \<not> free_unmet st policy s"
proof -
  let ?g = "rs_graph st" and ?W = "eligible_roots (rs_graph st) floored"
  show ?thesis
  proof (rule run_selection_phases [OF g run])
    fix rem
    assume m: "moves ?g (new_selection ?g) ?W s rem" and rest: "before = disk_total ?g"
      "\<And>a r. rp_max_age_seconds policy = Some a \<Longrightarrow> r \<in> set rem \<Longrightarrow> \<not> too_old st a r"
      "\<And>n r. rp_max_count_per_family policy = Some n \<Longrightarrow> r \<in> set rem \<Longrightarrow> \<not> family_over n s r"
      "disk_nonneg ?g \<Longrightarrow> rem \<noteq> [] \<Longrightarrow> \<not> total_unmet policy before s"
      "rem \<noteq> [] \<Longrightarrow> \<not> free_unmet st policy s"
    note ids = moves_ids [OF g candidates_start [OF g, of floored] m]
    have u: "set (sl_root_ids s) \<union> rr_id ` set rem = rr_id ` set ?W" using ids(3) by (simp add: new_selection_def)
    have ok: "selection_ok ?g s" and disj: "rr_id ` set rem \<inter> set (sl_root_ids s) = {}"
      using ids(1) by (auto simp: candidates_ok_def)
    have "inj_on rr_id (set ?W)"
      using candidates_start [OF g, of floored] by (simp add: candidates_ok_def new_selection_def distinct_map)
    then have "rr_id ` (set ?W - set rem) = rr_id ` set ?W - rr_id ` set rem"
      using ids(4) by (simp add: inj_on_image_set_diff)
    then have sel: "set (sl_root_ids s) = rr_id ` (set ?W - set rem)" using u disj by blast
    have kin: "\<And>a b. a \<in> set rem \<Longrightarrow> b \<in> set ?W \<Longrightarrow> older_kin a b \<Longrightarrow> b \<in> set rem" using m by (simp add: moves_def)
    show ?thesis by (rule that [OF ok sel ids(4) disj kin rest])
  qed
qed

section \<open>The plan, field by field\<close>

lemma keep_reason_ids:
  "fst (foldl (keep_reason deleted selected floored) (ks, rs) roots)
     = ks @ map rr_id (filter (\<lambda>r. rr_id r \<notin> set deleted \<and> rr_protected r = []) roots)"
  by (induction roots arbitrary: ks rs) (auto simp: keep_reason_def)

lemma plan_fields:
  assumes "run_selection st policy (plan_floor st policy) = (s, before)"
  shows "rpl_delete_ids (plan_artifact_retention st policy) = sl_order s"
    and "rpl_delete_groups (plan_artifact_retention st policy) = sl_groups s"
    and "rpl_keep_ids (plan_artifact_retention st policy)
      = map rr_id (filter (\<lambda>r. rr_id r \<notin> set (sl_closed s) \<and> rr_protected r = []) (rg_roots (rs_graph st)))"
    and "rpl_protected_ids (plan_artifact_retention st policy) = map rr_id (filter (\<lambda>r. rr_protected r \<noteq> []) (rg_roots (rs_graph st)))"
    and "rpl_before_bytes (plan_artifact_retention st policy) = before"
    and "rpl_projected_bytes (plan_artifact_retention st policy) = before - sl_bytes s"
    and "rpl_reclaimable_bytes (plan_artifact_retention st policy) = sl_bytes s"
  unfolding plan_artifact_retention_def Let_def assms prod.case by (simp_all add: case_prod_unfold keep_reason_ids)

lemma plan_unsatisfied:
  assumes "run_selection st policy [] = (s, before)"
  shows "set (rpl_unsatisfied_rules (plan_artifact_retention st policy)) = set (unsatisfied_rules st policy s before)"
proof -
  obtain s' b' where r: "run_selection st policy (plan_floor st policy) = (s', b')" by (metis surj_pair)
  have b: "b' = before" using r assms by (auto simp: run_selection_def Let_def split: prod.splits)
  have "rpl_unsatisfied_rules (plan_artifact_retention st policy)
      = filter (\<lambda>rule. rule \<in> set (unsatisfied_rules st policy s before)) BOUND_ORDER"
  proof (cases "plan_floor st policy = []")
    case True
    then have "s' = s" using r assms by simp
    then show ?thesis unfolding plan_artifact_retention_def Let_def r prod.case b using True by (simp split: prod.split)
  next
    case False
    then show ?thesis unfolding plan_artifact_retention_def Let_def r prod.case b by (simp add: assms split: prod.split)
  qed
  moreover have "set (unsatisfied_rules st policy s before) \<subseteq> set BOUND_ORDER"
    by (auto simp: unsatisfied_rules_def BOUND_ORDER_def split: option.splits)
  ultimately show ?thesis by auto
qed

lemma selection_ok_parts:
  assumes "selection_ok g s"
  shows "set (sl_closed s) = closed_by g (set (sl_root_ids s))" and "set (sl_order s) = closed_by g (set (sl_root_ids s))"
    and "distinct (sl_order s)" and "concat (map snd (sl_groups s)) = sl_order s"
    and "sl_bytes s = sum (disk_of g) (closed_by g (set (sl_root_ids s)))" and "set (sl_root_ids s) \<subseteq> set (root_ids_of g)"
  using assms by (simp_all add: selection_ok_def Let_def)

lemma selected_is_closed:
  assumes "selection_ok g s" and "r \<in> set (rg_roots g)"
  shows "rr_id r \<in> closed_by g (set (sl_root_ids s)) \<longleftrightarrow> rr_id r \<in> set (sl_root_ids s)"
  using closed_by_root [of "rr_id r" g] assms(2) by (auto simp: root_ids_of_def)

lemma disk_total_members:
  assumes "build_graph ms = Inr g"
  shows "disk_total g = sum_list (map rm_disk ms)" and "m \<in> set ms \<Longrightarrow> dget (rg_members g) (rm_id m) = Some m"
    and "disk_nonneg g \<longleftrightarrow> (\<forall>m \<in> set ms. 0 \<le> rm_disk m)"
  using build_graphE(1,2) [OF assms] by (auto simp: disk_total_def disk_nonneg_def comp_def map_of_eq_Some_iff image_iff)

text \<open>A run deletes a root only if it was a candidate: unprotected and not held by the floor.\<close>

lemma run_deletes_eligible:
  assumes g: "graph_ok (rs_graph st)" and run: "run_selection st policy floored = (s, before)"
    and r: "r \<in> set (rg_roots (rs_graph st))" and "rr_id r \<in> closed_by (rs_graph st) (set (sl_root_ids s))"
  shows "rr_protected r = []" and "rr_id r \<notin> set floored"
proof -
  obtain rem where ok: "selection_ok (rs_graph st) s"
    and sel: "set (sl_root_ids s) = rr_id ` (set (eligible_roots (rs_graph st) floored) - set rem)"
    by (rule run_selection_result [OF g run])
  have "rr_id r \<in> set (sl_root_ids s)" using assms(4) selected_is_closed [OF ok r] by simp
  then obtain q where q: "q \<in> set (eligible_roots (rs_graph st) floored)" "rr_id q = rr_id r" using sel by auto
  then have "q = r" using r g by (auto simp: eligible_roots_def graph_ok_def root_ids_of_def distinct_map inj_on_def)
  then show "rr_protected r = []" "rr_id r \<notin> set floored" using q(1) by (simp_all add: eligible_roots_def)
qed

section \<open>What the plan guarantees\<close>

text \<open>The plan accounts for everything: the ids to delete are distinct and are the groups in order, every root is in
  exactly one of the three lists, and the byte totals are the members' own.\<close>

theorem plan_accounts:
  assumes "build_graph ms = Inr (rs_graph st)"
  shows "let p = plan_artifact_retention st policy; roots = map rr_id (rg_roots (rs_graph st)) in
    distinct (rpl_delete_ids p) \<and> concat (map snd (rpl_delete_groups p)) = rpl_delete_ids p
    \<and> mset (filter (\<lambda>i. i \<in> set roots) (rpl_delete_ids p)) + mset (rpl_keep_ids p) + mset (rpl_protected_ids p) = mset roots
    \<and> rpl_before_bytes p = sum_list (map rm_disk ms)
    \<and> rpl_reclaimable_bytes p = sum_list (map rm_disk (filter (\<lambda>m. rm_id m \<in> set (rpl_delete_ids p)) ms))
    \<and> rpl_projected_bytes p = sum_list (map rm_disk (filter (\<lambda>m. rm_id m \<notin> set (rpl_delete_ids p)) ms))"
proof -
  let ?g = "rs_graph st" and ?p = "plan_artifact_retention st policy"
  note b = build_graphE [OF assms]
  obtain s before where run: "run_selection st policy (plan_floor st policy) = (s, before)" by (metis surj_pair)
  note F = plan_fields [OF run]
  have ok: "selection_ok ?g s" and before: "before = disk_total ?g" by (rule run_selection_result [OF b(4) run], assumption)+
  note S = selection_ok_parts [OF ok]
  have dr: "distinct (map rr_id (rg_roots ?g))" using b(4) by (simp add: graph_ok_def root_ids_of_def)
  have unprot: "rr_protected r = []" if "r \<in> set (rg_roots ?g)" "rr_id r \<in> set (sl_order s)" for r
    using run_deletes_eligible [OF b(4) run that(1)] that(2) S(2) by simp
  have part: "mset (filter (\<lambda>i. i \<in> set (map rr_id (rg_roots ?g))) (sl_order s))
      = mset (map rr_id (filter (\<lambda>r. rr_id r \<in> set (sl_order s)) (rg_roots ?g)))"
    using dr S(3) by (intro set_eq_iff_mset_eq_distinct [THEN iffD1]) (auto simp: distinct_map_filter)
  have split: "mset (map rr_id (filter P roots)) + mset (map rr_id (filter (\<lambda>r. \<not> P r \<and> rr_protected r = []) roots))
      + mset (map rr_id (filter (\<lambda>r. rr_protected r \<noteq> []) roots)) = mset (map rr_id roots)"
    if "\<And>r. r \<in> set roots \<Longrightarrow> P r \<Longrightarrow> rr_protected r = []" for P and roots :: "retention_root list"
    using that by (induction roots) auto
  have look: "disk_of ?g (rm_id m) = rm_disk m" if "m \<in> set ms" for m
    using disk_total_members(2) [OF assms that] by (simp add: disk_of_def)
  have sub: "set (sl_order s) \<subseteq> rm_id ` set ms"
    using closed_by_members [OF b(4)] S(2) by (auto simp: b(1) dkeys_def)
  have inj: "inj_on rm_id (set ms)" "distinct ms" using b(2) by (simp_all add: distinct_map)
  have "set (sl_order s) = rm_id ` {m \<in> set ms. rm_id m \<in> set (sl_order s)}" using sub by auto
  then have "sl_bytes s = sum (disk_of ?g) (rm_id ` {m \<in> set ms. rm_id m \<in> set (sl_order s)})" using S(2,5) by simp
  also have "\<dots> = sum rm_disk {m \<in> set ms. rm_id m \<in> set (sl_order s)}"
    by (subst sum.reindex) (auto intro: inj_on_subset [OF inj(1)] sum.cong simp: look)
  also have "\<dots> = sum_list (map rm_disk (filter (\<lambda>m. rm_id m \<in> set (sl_order s)) ms))"
    using inj(2) by (simp add: sum_list_distinct_conv_sum_set)
  finally have bytes: "sl_bytes s = sum_list (map rm_disk (filter (\<lambda>m. rm_id m \<in> set (sl_order s)) ms))" .
  have "sum_list (map rm_disk ms) = sum_list (map rm_disk (filter P ms)) + sum_list (map rm_disk (filter (\<lambda>m. \<not> P m) ms))" for P
    by (induction ms) auto
  from this [of "\<lambda>m. rm_id m \<in> set (sl_order s)"] show ?thesis
    unfolding Let_def F part before disk_total_members(1) [OF assms]
    using S(1-4) bytes split [of "rg_roots ?g" "\<lambda>r. rr_id r \<in> set (sl_order s)"] unprot by simp
qed

text \<open>C16: nothing protected is deleted. A member the plan deletes exists, is valid, finished, inactive, no symlink, inside
  the root, of a known kind and refers to nothing unknown; every root that reaches it is classified, unprotected and deleted
  with it; and whatever refers to it is deleted too, unless it is itself a root.\<close>

theorem plan_safety:
  assumes "build_graph ms = Inr (rs_graph st)" and "m \<in> set ms"
    and "rm_id m \<in> set (rpl_delete_ids (plan_artifact_retention st policy))"
  shows "let deleted = set (rpl_delete_ids (plan_artifact_retention st policy)); roots = rg_roots (rs_graph st) in
    member_protection_reasons m (map rm_id ms) = []
    \<and> (\<exists>r \<in> set roots. rm_id m \<in> set (rr_reachable r))
    \<and> (\<forall>r \<in> set roots. rm_id m \<in> set (rr_reachable r) \<longrightarrow>
         rr_protected r = [] \<and> is_classified (rr_classification r) \<and> rr_id r \<in> deleted \<and> rr_id r \<notin> set (plan_floor st policy))
    \<and> (\<forall>n \<in> set ms. rm_id m \<in> set (rm_references n) \<longrightarrow> rm_id n \<in> deleted \<or> rm_id m \<in> set (map rr_id roots))"
proof -
  let ?g = "rs_graph st"
  note b = build_graphE [OF assms(1)]
  obtain s before where run: "run_selection st policy (plan_floor st policy) = (s, before)" by (metis surj_pair)
  note F = plan_fields [OF run]
  have ok: "selection_ok ?g s" by (rule run_selection_result [OF b(4) run])
  note S = selection_ok_parts [OF ok]
  have keys: "dkeys (rg_members ?g) = map rm_id ms" by (simp add: b(1) dkeys_def comp_def)
  have m: "rm_id m \<in> closed_by ?g (set (sl_root_ids s))" using assms(3) F(1) S(2) by simp
  have root: "rr_protected r = [] \<and> is_classified (rr_classification r) \<and> rr_id r \<in> set (sl_order s) \<and> rr_id r \<notin> set (plan_floor st policy)"
    if r: "r \<in> set (rg_roots ?g)" "rm_id m \<in> set (rr_reachable r)" for r
  proof -
    have "reaches ?g (rr_id r) (rm_id m)" using root_reaches(1) [OF b(4) r(1)] r(2) by simp
    then have c: "rr_id r \<in> closed_by ?g (set (sl_root_ids s))"
      using m selected_is_closed [OF ok r(1)] unfolding closed_by_def by blast
    have "rr_protected r = []" by (rule run_deletes_eligible(1) [OF b(4) run r(1) c])
    then show ?thesis using root_fields [OF b(4) r(1)] c S(2) run_deletes_eligible(2) [OF b(4) run r(1) c] by metis
  qed
  obtain r where r: "r \<in> set (rg_roots ?g)" "rm_id m \<in> set (rr_reachable r)"
    using reached [OF b(4), of "rm_id m"] keys assms(2) root_reaches(1) [OF b(4)] by (auto simp: reaches_def root_ids_of_def)
  have "reaches ?g (rr_id r) (rm_id m)" using root_reaches(1) [OF b(4) r(1)] r(2) by simp
  then have "own_reasons (rg_members ?g) (root_ids_of ?g) (rm_id m) = []"
    using root [OF r] root_fields [OF b(4) r(1)] by metis
  then have clean: "member_protection_reasons m (map rm_id ms) = []"
    using disk_total_members(2) [OF assms(1,2)] by (simp add: own_reasons_def keys)
  have referrer: "rm_id n \<in> set (sl_order s) \<or> rm_id m \<in> set (map rr_id (rg_roots ?g))"
    if n: "n \<in> set ms" "rm_id m \<in> set (rm_references n)" for n
  proof -
    have "rm_id m \<in> set (refs_in (rg_members ?g) (rm_id n))" "rm_id n \<in> set (dkeys (rg_members ?g))"
      using disk_total_members(2) [OF assms(1) n(1)] n assms(2) by (simp_all add: refs_in_def keys)
    then show ?thesis using closed_by_referrer [OF b(4) m] S(2) by (auto simp: root_ids_of_def)
  qed
  show ?thesis unfolding Let_def F(1) using clean r root referrer by blast
qed

text \<open>The roots a floor-free run leaves, by family and overall.\<close>

lemma floor_free_survivors:
  assumes g: "graph_ok g" and ok: "selection_ok g s" and sel: "set (sl_root_ids s) = rr_id ` (set (eligible_roots g []) - set rem)"
    and sub: "set rem \<subseteq> set (eligible_roots g [])" and r: "r \<in> set (rg_roots g)"
  shows "rr_id r \<notin> closed_by g (set (sl_root_ids s)) \<longleftrightarrow> rr_protected r \<noteq> [] \<or> r \<in> set rem"
proof -
  have "inj_on rr_id (set (rg_roots g))" using g by (simp add: graph_ok_def root_ids_of_def distinct_map)
  then have "rr_id r \<in> set (sl_root_ids s) \<longleftrightarrow> r \<in> set (eligible_roots g []) - set rem"
    using r unfolding sel by (auto simp: eligible_roots_def dest: inj_onD)
  then show ?thesis using r selected_is_closed [OF ok r] by (auto simp: eligible_roots_def)
qed

lemma bytes_of_all:
  assumes g: "graph_ok g" and ok: "selection_ok g s" and disk: "disk_nonneg g"
    and sel: "set (sl_root_ids s) = rr_id ` (set roots - set rem)"
  shows "sl_bytes s \<le> sum_list (map (disk_of g) (deletion_closure g (map rr_id roots)))"
    and "rem = [] \<Longrightarrow> sl_bytes s = sum_list (map (disk_of g) (deletion_closure g (map rr_id roots)))"
proof -
  have d: "distinct (deletion_closure g (map rr_id roots))" by (simp add: deletion_closure_def)
  have all: "sum_list (map (disk_of g) (deletion_closure g (map rr_id roots))) = sum (disk_of g) (closed_by g (rr_id ` set roots))"
    unfolding sum_list_distinct_conv_sum_set [OF d] set_deletion_closure [OF g] by simp
  have "finite (closed_by g (rr_id ` set roots))"
    using set_deletion_closure [OF g, of "map rr_id roots"] by (metis List.finite_set list.set_map)
  then have "sum (disk_of g) (closed_by g (set (sl_root_ids s))) \<le> sum (disk_of g) (closed_by g (rr_id ` set roots))"
    by (rule sum_mono2) (use closed_by_mono [of "set (sl_root_ids s)" "rr_id ` set roots" g] sel disk_of_nonneg [OF disk] in auto)
  then show "sl_bytes s \<le> sum_list (map (disk_of g) (deletion_closure g (map rr_id roots)))"
    using selection_ok_parts(5) [OF ok] all by simp
  show "rem = [] \<Longrightarrow> sl_bytes s = sum_list (map (disk_of g) (deletion_closure g (map rr_id roots)))"
    using selection_ok_parts(5) [OF ok] all sel by simp
qed

text \<open>The count rule: a family is over its bound exactly when its protected roots alone are.\<close>

lemma count_unmet_iff:
  assumes g: "graph_ok g" and ok: "selection_ok g s"
    and surv: "\<forall>r \<in> set (rg_roots g). rr_id r \<notin> closed_by g (set (sl_root_ids s)) \<longleftrightarrow> rr_protected r \<noteq> [] \<or> r \<in> set rem"
    and rem: "\<forall>r \<in> set rem. \<not> family_over n s r" and sub: "set rem \<subseteq> set (rg_roots g)"
  shows "(\<exists>f k. (f, k) \<in> set (surviving_root_counts s) \<and> k > n) \<longleftrightarrow> (\<exists>r \<in> set (rg_roots g). rr_protected r \<noteq> []
      \<and> int (length (filter (\<lambda>q. rr_family q = rr_family r \<and> rr_protected q \<noteq> []) (rg_roots g))) > n)"
    (is "?L \<longleftrightarrow> ?R")
proof
  assume ?L
  then obtain f k where k: "(f, k) \<in> set (surviving_root_counts s)" "k > n" by blast
  then have count: "k \<noteq> 0" "k = int (survivors_in (rg_roots g) (closed_by g (set (sl_root_ids s))) f)" using surviving_get(2) [OF ok] by blast+
  have none: "rr_family r \<noteq> f" if "r \<in> set rem" for r
    using bspec [OF rem that] k(2) count(2) surviving_get(1) [OF ok, of f] by (auto simp: family_over_def)
  have "filter (\<lambda>r. rr_family r = f \<and> rr_id r \<notin> closed_by g (set (sl_root_ids s))) (rg_roots g)
      = filter (\<lambda>q. rr_family q = f \<and> rr_protected q \<noteq> []) (rg_roots g)"
    using surv none by (intro filter_cong) auto
  then have eq: "k = int (length (filter (\<lambda>q. rr_family q = f \<and> rr_protected q \<noteq> []) (rg_roots g)))"
    using count(2) by (simp add: survivors_in_def)
  then have "filter (\<lambda>q. rr_family q = f \<and> rr_protected q \<noteq> []) (rg_roots g) \<noteq> []" using count(1) by auto
  then obtain r where "r \<in> set (rg_roots g)" "rr_family r = f" "rr_protected r \<noteq> []" by (auto simp: filter_empty_conv)
  then show ?R using eq k(2) by blast
next
  assume ?R
  then obtain r where r: "r \<in> set (rg_roots g)" "rr_protected r \<noteq> []"
    "int (length (filter (\<lambda>q. rr_family q = rr_family r \<and> rr_protected q \<noteq> []) (rg_roots g))) > n" by blast
  let ?surv = "filter (\<lambda>q. rr_family q = rr_family r \<and> rr_id q \<notin> closed_by g (set (sl_root_ids s))) (rg_roots g)"
  have "filter (\<lambda>q. rr_family q = rr_family r \<and> rr_protected q \<noteq> []) (rg_roots g) = filter (\<lambda>q. rr_protected q \<noteq> []) ?surv"
    unfolding filter_filter using surv by (intro filter_cong) auto
  then have le: "length (filter (\<lambda>q. rr_family q = rr_family r \<and> rr_protected q \<noteq> []) (rg_roots g)) \<le> length ?surv"
    by (simp only: length_filter_le)
  have "r \<in> set ?surv" using r surv by simp
  then have "?surv \<noteq> []" by (metis empty_iff empty_set)
  then have "(rr_family r, int (length ?surv)) \<in> set (surviving_root_counts s)"
    unfolding surviving_get(2) [OF ok] survivors_in_def by simp
  then show ?L using le r(3) by force
qed

lemma age_unmet_iff:
  assumes "selection_ok (rs_graph st) s"
    and surv: "\<forall>r \<in> set (rg_roots (rs_graph st)).
      rr_id r \<notin> closed_by (rs_graph st) (set (sl_root_ids s)) \<longleftrightarrow> rr_protected r \<noteq> [] \<or> r \<in> set rem"
    and age: "\<forall>a. \<forall>r \<in> set rem. rp_max_age_seconds policy = Some a \<longrightarrow> \<not> too_old st a r"
  shows "''max_age_seconds'' \<in> set (unsatisfied_rules st policy s before) \<longleftrightarrow> (\<exists>a. rp_max_age_seconds policy = Some a
    \<and> (\<exists>r \<in> set (filter (\<lambda>r. rr_protected r \<noteq> []) (rg_roots (rs_graph st))). rs_now st - rr_created r > of_int a))"
proof (cases "rp_max_age_seconds policy")
  case (Some a)
  have "''max_age_seconds'' \<in> set (unsatisfied_rules st policy s before)
      \<longleftrightarrow> (\<exists>r \<in> set (rg_roots (rs_graph st)). rr_id r \<notin> closed_by (rs_graph st) (set (sl_root_ids s)) \<and> too_old st a r)"
    using selection_ok_parts(1) [OF assms(1)] Some
    by (auto simp: unsatisfied_rules_def list_ex_iff split: option.splits if_splits)
  also have "\<dots> \<longleftrightarrow> (\<exists>r \<in> set (rg_roots (rs_graph st)). rr_protected r \<noteq> [] \<and> too_old st a r)"
    using surv age Some by blast
  finally show ?thesis using Some by (simp add: too_old_def Bex_def conj_assoc)
qed (auto simp: unsatisfied_rules_def split: option.splits if_splits)

lemma bytes_unmet_iff:
  assumes "sl_bytes s \<le> freed" and "rem = [] \<longrightarrow> sl_bytes s = freed"
  shows "rem \<noteq> [] \<longrightarrow> \<not> total_unmet policy before s
      \<Longrightarrow> ''max_total_bytes'' \<in> set (unsatisfied_rules st policy s before)
        \<longleftrightarrow> (\<exists>b. rp_max_total_bytes policy = Some b \<and> before - freed > b)"
    and "rem \<noteq> [] \<longrightarrow> \<not> free_unmet st policy s
      \<Longrightarrow> ''min_free_bytes'' \<in> set (unsatisfied_rules st policy s before)
        \<longleftrightarrow> (\<exists>free b. rs_free_disk_bytes st = Some free \<and> rp_min_free_bytes policy = Some b \<and> free + freed < b)"
proof -
  have U: "''max_total_bytes'' \<in> set (unsatisfied_rules st policy s before) \<longleftrightarrow> total_unmet policy before s"
    "''min_free_bytes'' \<in> set (unsatisfied_rules st policy s before) \<longleftrightarrow> free_unmet st policy s"
    by (auto simp: unsatisfied_rules_def split: option.splits)
  show "rem \<noteq> [] \<longrightarrow> \<not> total_unmet policy before s
      \<Longrightarrow> ''max_total_bytes'' \<in> set (unsatisfied_rules st policy s before)
        \<longleftrightarrow> (\<exists>b. rp_max_total_bytes policy = Some b \<and> before - freed > b)"
    unfolding U using assms by (cases "rem = []") (auto simp: total_unmet_def split: option.splits)
  show "rem \<noteq> [] \<longrightarrow> \<not> free_unmet st policy s
      \<Longrightarrow> ''min_free_bytes'' \<in> set (unsatisfied_rules st policy s before)
        \<longleftrightarrow> (\<exists>free b. rs_free_disk_bytes st = Some free \<and> rp_min_free_bytes policy = Some b \<and> free + freed < b)"
    unfolding U using assms by (cases "rem = []") (auto simp: free_unmet_def split: option.splits)
qed

text \<open>C18: a bound is reported unmet exactly when protection alone keeps it so: some protected root is too old, some family
  has more protected roots than it may keep, or the bytes of what would remain after deleting everything unprotected
  still break the bound. What the shape floor keeps never causes a report.\<close>

theorem reported_exactly_when_protected:
  assumes "build_graph ms = Inr (rs_graph st)" and "\<And>m. m \<in> set ms \<Longrightarrow> 0 \<le> rm_disk m"
  shows "let unmet = set (rpl_unsatisfied_rules (plan_artifact_retention st policy)); roots = rg_roots (rs_graph st);
      protected = filter (\<lambda>r. rr_protected r \<noteq> []) roots;
      freed = sum_list (map (disk_of (rs_graph st)) (deletion_closure (rs_graph st) (map rr_id (filter (\<lambda>r. rr_protected r = []) roots)))) in
    (''max_age_seconds'' \<in> unmet \<longleftrightarrow> (\<exists>a. rp_max_age_seconds policy = Some a \<and> (\<exists>r \<in> set protected. rs_now st - rr_created r > of_int a)))
    \<and> (''max_count_per_family'' \<in> unmet \<longleftrightarrow> (\<exists>n. rp_max_count_per_family policy = Some n
         \<and> (\<exists>r \<in> set protected. int (length (filter (\<lambda>q. rr_family q = rr_family r) protected)) > n)))
    \<and> (''max_total_bytes'' \<in> unmet \<longleftrightarrow> (\<exists>b. rp_max_total_bytes policy = Some b \<and> sum_list (map rm_disk ms) - freed > b))
    \<and> (''min_free_bytes'' \<in> unmet \<longleftrightarrow> (\<exists>free b. rs_free_disk_bytes st = Some free \<and> rp_min_free_bytes policy = Some b \<and> free + freed < b))"
proof -
  let ?g = "rs_graph st" and ?U = "set (rpl_unsatisfied_rules (plan_artifact_retention st policy))"
  note g = build_graphE(4) [OF assms(1)]
  have disk: "disk_nonneg ?g" using assms(2) disk_total_members(3) [OF assms(1)] by blast
  have E: "eligible_roots ?g [] = filter (\<lambda>r. rr_protected r = []) (rg_roots ?g)" by (simp add: eligible_roots_def)
  obtain s before where run: "run_selection st policy [] = (s, before)" by (metis surj_pair)
  show ?thesis
  proof (rule run_selection_result [OF g run])
    fix rem
    assume ok: "selection_ok ?g s" and sel: "set (sl_root_ids s) = rr_id ` (set (eligible_roots ?g []) - set rem)"
      and sub: "set rem \<subseteq> set (eligible_roots ?g [])" and before: "before = disk_total ?g"
      and age: "\<And>a r. rp_max_age_seconds policy = Some a \<Longrightarrow> r \<in> set rem \<Longrightarrow> \<not> too_old st a r"
      and count: "\<And>n r. rp_max_count_per_family policy = Some n \<Longrightarrow> r \<in> set rem \<Longrightarrow> \<not> family_over n s r"
      and total: "disk_nonneg ?g \<Longrightarrow> rem \<noteq> [] \<Longrightarrow> \<not> total_unmet policy before s"
      and free: "rem \<noteq> [] \<Longrightarrow> \<not> free_unmet st policy s"
    have surv: "\<forall>r \<in> set (rg_roots ?g). rr_id r \<notin> closed_by ?g (set (sl_root_ids s)) \<longleftrightarrow> rr_protected r \<noteq> [] \<or> r \<in> set rem"
      using floor_free_survivors [OF g ok sel sub] by blast
    have all: "rem = [] \<longrightarrow> sl_bytes s = sum_list (map (disk_of ?g) (deletion_closure ?g (map rr_id (eligible_roots ?g []))))"
      using bytes_of_all(2) [OF g ok disk sel] by blast
    have open_ends: "rem \<noteq> [] \<longrightarrow> \<not> total_unmet policy before s" "rem \<noteq> [] \<longrightarrow> \<not> free_unmet st policy s"
      using total [OF disk] free by blast+
    have U: "?U = set (unsatisfied_rules st policy s before)" by (rule plan_unsatisfied [OF run])
    have rsub: "set rem \<subseteq> set (rg_roots ?g)" using sub unfolding E by auto
    have ages: "\<forall>a. \<forall>r \<in> set rem. rp_max_age_seconds policy = Some a \<longrightarrow> \<not> too_old st a r" using age by blast
    note 1 = age_unmet_iff [OF ok surv ages]
    have 2: "''max_count_per_family'' \<in> set (unsatisfied_rules st policy s before) \<longleftrightarrow> (\<exists>n. rp_max_count_per_family policy = Some n
         \<and> (\<exists>r \<in> set (filter (\<lambda>r. rr_protected r \<noteq> []) (rg_roots ?g)).
              int (length (filter (\<lambda>q. rr_family q = rr_family r) (filter (\<lambda>r. rr_protected r \<noteq> []) (rg_roots ?g)))) > n))"
    proof (cases "rp_max_count_per_family policy")
      case (Some n)
      have "''max_count_per_family'' \<in> set (unsatisfied_rules st policy s before) \<longleftrightarrow> (\<exists>f k. (f, k) \<in> set (surviving_root_counts s) \<and> k > n)"
        using Some by (auto simp: unsatisfied_rules_def list_ex_iff split: option.splits if_splits)
      then show ?thesis using count_unmet_iff [OF g ok surv ballI [OF count [OF Some]] rsub] Some by (auto simp: conj_commute)
    qed (auto simp: unsatisfied_rules_def split: option.splits if_splits)
    note 3 = bytes_unmet_iff(1) [OF bytes_of_all(1) [OF g ok disk sel] all open_ends(1), unfolded E]
    note 4 = bytes_unmet_iff(2) [OF bytes_of_all(1) [OF g ok disk sel] all open_ends(2), unfolded E]
    have ms: "sum_list (map rm_disk ms) = before" by (simp only: before disk_total_members(1) [OF assms(1)])
    show ?thesis unfolding Let_def U ms by (intro conjI) (rule 1 2 3 4)+
  qed
qed

section \<open>On the concrete corpus\<close>

text \<open>Three incidents of one family where two may stay, and a byte bound nothing can meet: \<open>i3\<close> is protected, and the shape
  floor holds \<open>i2\<close>.\<close>

definition demo_policy :: retention_policy where
  "demo_policy = \<lparr>rp_max_age_seconds = Some 100, rp_max_count_per_family = Some 2, rp_max_total_bytes = Some 5,
     rp_min_free_bytes = None, rp_max_shape_examples = 1\<rparr>"

definition demo_state :: retention_state where
  "demo_state = \<lparr>rs_graph = demo_graph, rs_now = 4, rs_free_disk_bytes = None\<rparr>"

lemma demo_state_built: "build_graph demo_members = Inr (rs_graph demo_state)"
  by (simp add: demo_built demo_state_def)

lemma demo_deletes: "rpl_delete_ids (plan_artifact_retention demo_state demo_policy) = [''i1'']"
  by code_simp

theorem plan_accounts_witness:
  "rpl_before_bytes (plan_artifact_retention demo_state demo_policy) = 43
    \<and> rpl_reclaimable_bytes (plan_artifact_retention demo_state demo_policy) = 10
    \<and> rpl_projected_bytes (plan_artifact_retention demo_state demo_policy) = 33"
  using plan_accounts [OF demo_state_built, of demo_policy] unfolding demo_deletes Let_def
  by (simp add: demo_members_def demo_member_def)

theorem plan_safety_witness:
  "member_protection_reasons (demo_member ''i1'' ''incident'' 1 10 [''b''] (Some ''exact'') (Some ''x'')) (map rm_id demo_members) = []"
  by (rule conjunct1 [OF plan_safety [OF demo_state_built, of _ demo_policy, unfolded Let_def]])
    (simp_all add: demo_deletes demo_members_def demo_member_def)

theorem reported_exactly_when_protected_witness:
  "''max_total_bytes'' \<in> set (rpl_unsatisfied_rules (plan_artifact_retention demo_state demo_policy))
    \<and> ''max_age_seconds'' \<notin> set (rpl_unsatisfied_rules (plan_artifact_retention demo_state demo_policy))"
proof -
  have freed: "sum_list (map (disk_of demo_graph) (deletion_closure demo_graph (map rr_id (filter (\<lambda>r. rr_protected r = []) (rg_roots demo_graph))))) = 36"
    by code_simp
  have "m \<in> set demo_members \<Longrightarrow> 0 \<le> rm_disk m" for m by (auto simp: demo_members_def demo_member_def)
  from reported_exactly_when_protected [OF demo_state_built this, of demo_policy] show ?thesis
    unfolding Let_def by (simp add: freed demo_state_def demo_policy_def) (simp add: demo_graph_def demo_roots_def demo_root_def demo_members_def demo_member_def)
qed

end
