(* ===== verification/Retention_Bounds.thy ===== *)
theory Retention_Bounds
  imports Retention_Plan
begin

text \<open>
  What the retention plan of \<open>bin/_lib_artifact_retention.py\<close> promises about the bounds: how far each is met, which
  candidates it takes first, when it takes none, and that the shape floor keeps the newest example of every shape.
\<close>

section \<open>Bounds\<close>

lemma plan_of_run:
  assumes "build_graph ms = Inr (rs_graph st)"
  obtains s before rem where "run_selection st policy (plan_floor st policy) = (s, before)"
    and "selection_ok (rs_graph st) s" and "before = disk_total (rs_graph st)"
    and "set (sl_root_ids s) = rr_id ` (set (eligible_roots (rs_graph st) (plan_floor st policy)) - set rem)"
    and "\<forall>a \<in> set rem. \<forall>b \<in> set (eligible_roots (rs_graph st) (plan_floor st policy)). older_kin a b \<longrightarrow> b \<in> set rem"
    and "\<forall>a. \<forall>r \<in> set rem. rp_max_age_seconds policy = Some a \<longrightarrow> \<not> too_old st a r"
    and "\<forall>n. \<forall>r \<in> set rem. rp_max_count_per_family policy = Some n \<longrightarrow> \<not> family_over n s r"
    and "disk_nonneg (rs_graph st) \<longrightarrow> rem = [] \<or> \<not> total_unmet policy before s"
    and "rem = [] \<or> \<not> free_unmet st policy s"
    and "\<forall>r \<in> set (eligible_roots (rs_graph st) (plan_floor st policy)).
      rr_id r \<in> set (rpl_delete_ids (plan_artifact_retention st policy)) \<longleftrightarrow> r \<notin> set rem"
proof -
  let ?g = "rs_graph st" and ?W = "eligible_roots (rs_graph st) (plan_floor st policy)"
  note g = build_graphE(4) [OF assms]
  obtain s before where run: "run_selection st policy (plan_floor st policy) = (s, before)" by (metis surj_pair)
  show ?thesis
  proof (rule run_selection_result [OF g run])
    fix rem
    assume R: "selection_ok ?g s" "set (sl_root_ids s) = rr_id ` (set ?W - set rem)" "set rem \<subseteq> set ?W" "before = disk_total ?g"
      and kin: "\<And>a b. a \<in> set rem \<Longrightarrow> b \<in> set ?W \<Longrightarrow> older_kin a b \<Longrightarrow> b \<in> set rem"
      and B: "\<And>a r. rp_max_age_seconds policy = Some a \<Longrightarrow> r \<in> set rem \<Longrightarrow> \<not> too_old st a r"
        "\<And>n r. rp_max_count_per_family policy = Some n \<Longrightarrow> r \<in> set rem \<Longrightarrow> \<not> family_over n s r"
        "disk_nonneg ?g \<Longrightarrow> rem \<noteq> [] \<Longrightarrow> \<not> total_unmet policy before s" "rem \<noteq> [] \<Longrightarrow> \<not> free_unmet st policy s"
    have inj: "inj_on rr_id (set (rg_roots ?g))" using g by (simp add: graph_ok_def root_ids_of_def distinct_map)
    have W: "set ?W \<subseteq> set (rg_roots ?g)" by (auto simp: eligible_roots_def)
    have "rr_id r \<in> set (rpl_delete_ids (plan_artifact_retention st policy)) \<longleftrightarrow> r \<notin> set rem" if r: "r \<in> set ?W" for r
    proof -
      have "rr_id r \<in> set (sl_order s) \<longleftrightarrow> rr_id r \<in> set (sl_root_ids s)"
        using selected_is_closed [OF R(1)] W r selection_ok_parts(2) [OF R(1)] by blast
      also have "\<dots> \<longleftrightarrow> r \<in> set ?W - set rem" unfolding R(2) using inj W r by (auto dest: inj_onD)
      finally show ?thesis using r plan_fields(1) [OF run] by simp
    qed
    then show ?thesis using that [OF run R(1,4,2)] kin B by blast
  qed
qed

text \<open>C22: within a family the plan takes the oldest first: when it deletes a root, it deletes every older candidate of the
  same family, unprotected and not held by the shape floor, as well.\<close>

theorem deletions_oldest_first:
  assumes "build_graph ms = Inr (rs_graph st)" and "a \<in> set (rg_roots (rs_graph st))" and "b \<in> set (rg_roots (rs_graph st))"
    and "rr_family a = rr_family b" and "(rr_created a, rr_id a) < (rr_created b, rr_id b)"
    and "rr_protected a = []" and "rr_id a \<notin> set (plan_floor st policy)"
    and "rr_id b \<in> set (rpl_delete_ids (plan_artifact_retention st policy))"
  shows "rr_id a \<in> set (rpl_delete_ids (plan_artifact_retention st policy))"
proof -
  let ?W = "eligible_roots (rs_graph st) (plan_floor st policy)"
  show ?thesis
  proof (rule plan_of_run [OF assms(1), of policy])
    fix s before rem
    assume run: "run_selection st policy (plan_floor st policy) = (s, before)" and ok: "selection_ok (rs_graph st) s"
      and kin: "\<forall>a \<in> set rem. \<forall>b \<in> set ?W. older_kin a b \<longrightarrow> b \<in> set rem"
      and del: "\<forall>r \<in> set ?W. rr_id r \<in> set (rpl_delete_ids (plan_artifact_retention st policy)) \<longleftrightarrow> r \<notin> set rem"
    have "rr_id b \<in> closed_by (rs_graph st) (set (sl_root_ids s))"
      using assms(8) plan_fields(1) [OF run] selection_ok_parts(2) [OF ok] by simp
    then have "b \<in> set ?W" using run_deletes_eligible [OF build_graphE(4) [OF assms(1)] run assms(3)] assms(3) by (simp add: eligible_roots_def)
    moreover have "a \<in> set ?W" using assms(2,6,7) by (simp add: eligible_roots_def)
    moreover have "older_kin a b" using assms(4,5) by (simp add: older_kin_def root_age_key_def)
    ultimately show ?thesis using kin del assms(8) by blast
  qed
qed

text \<open>C21: the plan goes as far as it may: no candidate the age bound condemns is kept, a family keeps a candidate only within
  its count, and while any candidate is kept the projected bytes and the free disk meet their bounds.\<close>

theorem bounds_met_or_exhausted:
  assumes "build_graph ms = Inr (rs_graph st)" and "\<forall>m \<in> set ms. 0 \<le> rm_disk m"
    and "r \<in> set (rg_roots (rs_graph st))" and "rr_id r \<in> set (rpl_keep_ids (plan_artifact_retention st policy))"
    and "rr_id r \<notin> set (plan_floor st policy)"
  shows "let p = plan_artifact_retention st policy in
    (\<forall>a. rp_max_age_seconds policy = Some a \<longrightarrow> rs_now st - rr_created r \<le> of_int a)
    \<and> (\<forall>n. rp_max_count_per_family policy = Some n \<longrightarrow> int (length (filter
         (\<lambda>q. rr_family q = rr_family r \<and> rr_id q \<notin> set (rpl_delete_ids p)) (rg_roots (rs_graph st)))) \<le> n)
    \<and> (\<forall>b. rp_max_total_bytes policy = Some b \<longrightarrow> rpl_projected_bytes p \<le> b)
    \<and> (\<forall>free b. rs_free_disk_bytes st = Some free \<and> rp_min_free_bytes policy = Some b \<longrightarrow> b \<le> free + rpl_reclaimable_bytes p)"
proof -
  let ?g = "rs_graph st" and ?W = "eligible_roots (rs_graph st) (plan_floor st policy)" and ?p = "plan_artifact_retention st policy"
  show ?thesis
  proof (rule plan_of_run [OF assms(1), of policy])
    fix s before rem
    assume run: "run_selection st policy (plan_floor st policy) = (s, before)" and ok: "selection_ok ?g s"
      and age: "\<forall>a. \<forall>r \<in> set rem. rp_max_age_seconds policy = Some a \<longrightarrow> \<not> too_old st a r"
      and count: "\<forall>n. \<forall>r \<in> set rem. rp_max_count_per_family policy = Some n \<longrightarrow> \<not> family_over n s r"
      and total: "disk_nonneg ?g \<longrightarrow> rem = [] \<or> \<not> total_unmet policy before s"
      and free: "rem = [] \<or> \<not> free_unmet st policy s"
      and del: "\<forall>r \<in> set ?W. rr_id r \<in> set (rpl_delete_ids ?p) \<longleftrightarrow> r \<notin> set rem"
    note F = plan_fields [OF run]
    have inj: "inj_on rr_id (set (rg_roots ?g))"
      using build_graphE(4) [OF assms(1)] by (simp add: graph_ok_def root_ids_of_def distinct_map)
    obtain q where q: "q \<in> set (rg_roots ?g)" "rr_id q = rr_id r" "rr_id q \<notin> set (sl_closed s)" "rr_protected q = []"
      using assms(4) unfolding F(3) by auto
    then have "q = r" using inj assms(3) by (auto dest: inj_onD)
    then have "r \<in> set ?W" "rr_id r \<notin> set (rpl_delete_ids ?p)"
      using q assms(3,5) F(1) selection_ok_parts(1,2) [OF ok] by (auto simp: eligible_roots_def)
    then have r: "r \<in> set rem" using del by blast
    have 1: "rp_max_age_seconds policy = Some a \<Longrightarrow> rs_now st - rr_created r \<le> of_int a" for a
      using age r by (auto simp: too_old_def not_less)
    have 2: "rp_max_count_per_family policy = Some n \<Longrightarrow> int (length (filter
         (\<lambda>q. rr_family q = rr_family r \<and> rr_id q \<notin> set (rpl_delete_ids ?p)) (rg_roots ?g))) \<le> n" for n
      using count r unfolding F(1) family_over_def surviving_get(1) [OF ok] survivors_in_def selection_ok_parts(2) [OF ok] not_less by blast
    have 3: "rp_max_total_bytes policy = Some b \<Longrightarrow> rpl_projected_bytes ?p \<le> b" for b
      using total r disk_total_members(3) [OF assms(1)] assms(2) unfolding F(6) by (auto simp: total_unmet_def)
    have 4: "rs_free_disk_bytes st = Some fr \<Longrightarrow> rp_min_free_bytes policy = Some b \<Longrightarrow> b \<le> fr + rpl_reclaimable_bytes ?p" for fr b
      using free r unfolding F(7) by (auto simp: free_unmet_def)
    show ?thesis unfolding Let_def using 1 2 3 4 by blast
  qed
qed

section \<open>A corpus within its bounds\<close>

lemma take_or_keep_none:
  "(\<And>r. r \<in> set todo \<Longrightarrow> \<not> wanted s r) \<Longrightarrow> foldl (take_or_keep g wanted reason) (s, kept) todo = (s, kept @ todo)"
  by (induction todo arbitrary: kept) (simp_all add: take_or_keep_def [of g wanted reason "(s, k)" for k])

lemma take_while_unmet_none: "\<not> unmet s \<Longrightarrow> take_while_unmet g unmet reason s rem = (s, rem)"
  by (cases rem) simp_all

lemma new_selection_fields [simp]:
  "sl_bytes (new_selection g) = 0" "sl_order (new_selection g) = []" "sl_root_ids (new_selection g) = []"
  by (simp_all add: new_selection_def)

text \<open>A corpus that breaks no bound loses nothing.\<close>

theorem satisfied_deletes_nothing:
  assumes "build_graph ms = Inr (rs_graph st)"
    and "\<And>a r. rp_max_age_seconds policy = Some a \<Longrightarrow> r \<in> set (rg_roots (rs_graph st)) \<Longrightarrow> rr_protected r = []
      \<Longrightarrow> rs_now st - rr_created r \<le> of_int a"
    and "\<And>n f. rp_max_count_per_family policy = Some n \<Longrightarrow> int (length (filter (\<lambda>r. rr_family r = f) (rg_roots (rs_graph st)))) \<le> n"
    and "\<And>b. rp_max_total_bytes policy = Some b \<Longrightarrow> sum_list (map rm_disk ms) \<le> b"
    and "\<And>free b. rs_free_disk_bytes st = Some free \<Longrightarrow> rp_min_free_bytes policy = Some b \<Longrightarrow> b \<le> free"
  shows "rpl_delete_ids (plan_artifact_retention st policy) = [] \<and> rpl_reclaimable_bytes (plan_artifact_retention st policy) = 0
    \<and> set (rpl_keep_ids (plan_artifact_retention st policy)) = rr_id ` {r \<in> set (rg_roots (rs_graph st)). rr_protected r = []}"
proof -
  let ?g = "rs_graph st" and ?s = "new_selection (rs_graph st)" and ?W = "eligible_roots (rs_graph st) (plan_floor st policy)"
  note g = build_graphE(4) [OF assms(1)]
  note ok = new_selection_ok [OF g]
  have W: "r \<in> set ?W \<Longrightarrow> r \<in> set (rg_roots ?g) \<and> rr_protected r = []" for r by (simp add: eligible_roots_def)
  have old: "\<not> too_old st a r" if "rp_max_age_seconds policy = Some a" "r \<in> set ?W" for a r
    using assms(2) [OF that(1)] W [OF that(2)] by (simp add: too_old_def not_less)
  have over: "\<not> family_over n ?s r" if "rp_max_count_per_family policy = Some n" for n r
  proof -
    have "survivors_in roots C f \<le> length (filter (\<lambda>q. rr_family q = f) roots)" for C f roots
      by (induction roots) (simp_all add: survivors_in_def)
    then show ?thesis using assms(3) [OF that, of "rr_family r"] unfolding family_over_def surviving_get(1) [OF ok] not_less
      by (meson of_nat_le_iff order_trans)
  qed
  have total: "\<not> total_unmet policy (disk_total ?g) ?s"
    using assms(4) disk_total_members(1) [OF assms(1)] by (auto simp: total_unmet_def not_less split: option.split)
  have free: "\<not> free_unmet st policy ?s" using assms(5) by (auto simp: free_unmet_def not_less split: option.split)
  have 1: "age_phase st policy (?s, ?W) = (?s, ?W)"
    unfolding age_phase_def fst_conv snd_conv
    by (cases "rp_max_age_seconds policy") (use old take_or_keep_none [of ?W "\<lambda>_. too_old st a" ?s for a] in simp_all)
  have 2: "count_phase st policy (?s, ?W) = (?s, ?W)"
    unfolding count_phase_def fst_conv snd_conv
    by (cases "rp_max_count_per_family policy") (use over take_or_keep_none [of ?W "family_over n" ?s for n] in simp_all)
  have run: "run_selection st policy (plan_floor st policy) = (?s, disk_total ?g)"
    unfolding run_selection_def Let_def eligible_roots_def [symmetric] disk_total_def [symmetric] 1 2 prod.case
      take_while_unmet_none [of "total_unmet policy (disk_total ?g)", OF total] take_while_unmet_none [of "free_unmet st policy", OF free] ..
  have "set (sl_closed ?s) = {}" using selection_ok_parts(1,2) [OF ok] by simp
  then show ?thesis unfolding plan_fields [OF run] by auto
qed

section \<open>The shape floor\<close>

definition example_of :: "string list \<Rightarrow> retention_root list \<Rightarrow> string \<Rightarrow> retention_root \<Rightarrow> bool" where
  "example_of eligible roots token r \<longleftrightarrow> r \<in> set roots \<and> has_shape r token \<and> rr_id r \<in> set eligible"

lemma newest_examples:
  "let d = foldl (newest_example eligible) [] roots in wf_dict d
    \<and> (\<forall>token. (dget d token = None \<longrightarrow> (\<forall>r. \<not> example_of eligible roots token r))
        \<and> (\<forall>x. dget d token = Some x \<longrightarrow> example_of eligible roots token x
             \<and> (\<forall>r. example_of eligible roots token r \<longrightarrow> root_age_key r \<le> root_age_key x)))"
proof (induction roots rule: rev_induct)
  case Nil
  then show ?case by (simp add: example_of_def wf_dict_def)
next
  case (snoc r roots)
  let ?d = "foldl (newest_example eligible) [] roots"
  have ex: "example_of eligible (roots @ [r]) token x \<longleftrightarrow> example_of eligible roots token x \<or> x = r \<and> has_shape r token \<and> rr_id r \<in> set eligible" for token x
    by (auto simp: example_of_def)
  show ?case
  proof (cases "\<exists>token. has_shape r token \<and> rr_id r \<in> set eligible")
    case False
    then have "newest_example eligible ?d r = ?d" by (auto simp: newest_example_def split: option.split)
    moreover have "example_of eligible (roots @ [r]) token x \<longleftrightarrow> example_of eligible roots token x" for token x using False ex by blast
    ultimately show ?thesis using snoc by (simp add: Let_def)
  next
    case True
    then obtain token where t: "has_shape r token" "rr_id r \<in> set eligible" by blast
    have only: "has_shape r token' \<longleftrightarrow> token' = token" for token' using t(1) by (auto simp: has_shape_def)
    have shape: "rr_shape r = Some token" using t(1) by (simp add: has_shape_def)
    show ?thesis
    proof (cases "dget ?d token")
      case None
      then have d: "newest_example eligible ?d r = dset token r ?d" using t shape by (simp add: newest_example_def)
      have "\<not> example_of eligible roots token x" for x using None snoc by (simp add: Let_def)
      then show ?thesis using snoc t by (auto simp: Let_def d ex only dget_dset)
    next
      case (Some y)
      then have d: "newest_example eligible ?d r = (if root_age_key r > root_age_key y then dset token r ?d else ?d)"
        using t shape by (simp add: newest_example_def)
      have y: "example_of eligible roots token x \<Longrightarrow> root_age_key x \<le> root_age_key y" "example_of eligible roots token y" for x
        using Some snoc by (simp_all add: Let_def)
      show ?thesis using snoc t y Some by (fastforce simp: Let_def d ex only dget_dset)
    qed
  qed
qed

lemma length_keys: "wf_dict d \<Longrightarrow> length d = card (set (dkeys d))"
  using distinct_card [of "map fst d"] by (simp add: wf_dict_def dkeys_def)

lemma floor_holds_newest:
  assumes "r \<in> set (rg_roots g)" and "has_shape r token" and "rr_id r \<in> set eligible"
    and newest: "\<And>q. example_of eligible (rg_roots g) token q \<Longrightarrow> root_age_key q \<le> root_age_key r"
    and few: "int (card {token. \<exists>q. example_of eligible (rg_roots g) token q}) \<le> n"
  shows "rr_id r \<in> set (shape_floor_ids g eligible n)"
proof -
  let ?d = "foldl (newest_example eligible) [] (rg_roots g)"
  have wf: "wf_dict ?d" and None: "dget ?d t = None \<Longrightarrow> \<not> example_of eligible (rg_roots g) t q"
    and Some: "dget ?d t = Some x \<Longrightarrow> example_of eligible (rg_roots g) t x
      \<and> (\<forall>q. example_of eligible (rg_roots g) t q \<longrightarrow> root_age_key q \<le> root_age_key x)" for t x q
    using newest_examples [of eligible "rg_roots g"] unfolding Let_def by blast+
  have r: "example_of eligible (rg_roots g) token r" using assms(1-3) by (simp add: example_of_def)
  then obtain x where x: "dget ?d token = Some x" using None by (cases "dget ?d token") auto
  then have "root_age_key x = root_age_key r" using Some [OF x] newest r by (intro antisym) blast+
  then have id: "rr_id x = rr_id r" by (simp add: root_age_key_def)
  have "t \<in> set (dkeys ?d) \<longleftrightarrow> (\<exists>q. example_of eligible (rg_roots g) t q)" for t
    using None [of t] Some [of t] dget_None_iff [of ?d t] by (cases "dget ?d t") auto
  then have "set (dkeys ?d) = {token. \<exists>q. example_of eligible (rg_roots g) token q}" by blast
  then have len: "int (length ?d) \<le> n" using few length_keys [OF wf] by simp
  have mem: "x \<in> set (map snd ?d)" using dget_Some_in [OF x] by force
  then have "length ?d > 0" by (cases ?d) auto
  then have "\<not> n \<le> 0" using len by linarith
  moreover have "take (nat n) (sort_key (\<lambda>root. (- rr_created root, rr_id root)) (map snd ?d)) = sort_key (\<lambda>root. (- rr_created root, rr_id root)) (map snd ?d)"
    using len by (intro take_all) simp
  ultimately have "set (shape_floor_ids g eligible n) = rr_id ` set (map snd ?d)"
    by (simp add: shape_floor_ids_def)
  then show ?thesis using mem id by (metis imageI)
qed

text \<open>C23: the shape floor keeps the newest example of every damage shape among the unprotected roots, as long as there are
  no more shapes than the policy's number of examples.\<close>

theorem floor_keeps_newest_example:
  assumes "build_graph ms = Inr (rs_graph st)" and "r \<in> set (rg_roots (rs_graph st))" and "rr_protected r = []"
    and "rr_shape r = Some token" and "token \<noteq> ''''" and "token \<noteq> NON_SHAPE_TOKEN"
    and "\<And>q. q \<in> set (rg_roots (rs_graph st)) \<Longrightarrow> rr_protected q = [] \<Longrightarrow> rr_shape q = Some token
      \<Longrightarrow> (rr_created q, rr_id q) \<le> (rr_created r, rr_id r)"
    and "int (card {t. t \<noteq> '''' \<and> t \<noteq> NON_SHAPE_TOKEN \<and> (\<exists>q \<in> set (rg_roots (rs_graph st)). rr_protected q = [] \<and> rr_shape q = Some t)})
      \<le> rp_max_shape_examples policy"
  shows "rr_id r \<in> set (rpl_keep_ids (plan_artifact_retention st policy))
    \<and> rr_id r \<notin> set (rpl_delete_ids (plan_artifact_retention st policy))"
proof -
  let ?g = "rs_graph st" and ?E = "map rr_id (filter (\<lambda>r. rr_protected r = []) (rg_roots (rs_graph st)))"
  note g = build_graphE(4) [OF assms(1)]
  have inj: "inj_on rr_id (set (rg_roots ?g))" using g by (simp add: graph_ok_def root_ids_of_def distinct_map)
  have E: "rr_id q \<in> set ?E \<longleftrightarrow> rr_protected q = []" if "q \<in> set (rg_roots ?g)" for q
    using that inj by (auto dest: inj_onD)
  have ex: "example_of ?E (rg_roots ?g) t q \<longleftrightarrow> q \<in> set (rg_roots ?g) \<and> has_shape q t \<and> rr_protected q = []" for t q
    unfolding example_of_def using E by blast
  have shapes: "{t. \<exists>q. example_of ?E (rg_roots ?g) t q}
      = {t. t \<noteq> '''' \<and> t \<noteq> NON_SHAPE_TOKEN \<and> (\<exists>q \<in> set (rg_roots ?g). rr_protected q = [] \<and> rr_shape q = Some t)}"
    unfolding ex has_shape_def by blast
  have floor: "rr_id r \<in> set (plan_floor st policy)" unfolding plan_floor_def Let_def
  proof (rule floor_holds_newest [OF assms(2)])
    show "has_shape r token" "rr_id r \<in> set ?E" using assms(2-6) E by (simp_all add: has_shape_def)
    show "root_age_key q \<le> root_age_key r" if "example_of ?E (rg_roots ?g) token q" for q
      using that assms(7) [of q] unfolding ex root_age_key_def has_shape_def by blast
    show "int (card {token. \<exists>q. example_of ?E (rg_roots ?g) token q}) \<le> rp_max_shape_examples policy"
      unfolding shapes by (rule assms(8))
  qed
  obtain s before where run: "run_selection st policy (plan_floor st policy) = (s, before)" by (metis surj_pair)
  have ok: "selection_ok ?g s" by (rule run_selection_result [OF g run])
  have "rr_id r \<notin> closed_by ?g (set (sl_root_ids s))" using run_deletes_eligible(2) [OF g run assms(2)] floor by blast
  then show ?thesis using assms(2,3) selection_ok_parts(1,2) [OF ok] unfolding plan_fields [OF run] by auto
qed

section \<open>On the concrete corpus\<close>

definition demo_counts :: "int \<Rightarrow> retention_policy" where
  "demo_counts n = \<lparr>rp_max_age_seconds = Some 100, rp_max_count_per_family = Some n, rp_max_total_bytes = Some 50,
     rp_min_free_bytes = None, rp_max_shape_examples = 0\<rparr>"

lemma demo_counts_plan: "rpl_delete_ids (plan_artifact_retention demo_state (demo_counts 1)) = [''i1'', ''i2'', ''c'', ''b'']"
  "rpl_keep_ids (plan_artifact_retention demo_state (demo_counts 2)) = [''i2'']"
  "plan_floor demo_state (demo_counts n) = []"
proof -
  show "rpl_delete_ids (plan_artifact_retention demo_state (demo_counts 1)) = [''i1'', ''i2'', ''c'', ''b'']" by code_simp
  show "rpl_keep_ids (plan_artifact_retention demo_state (demo_counts 2)) = [''i2'']" by code_simp
  show "plan_floor demo_state (demo_counts n) = []" by (simp add: plan_floor_def shape_floor_ids_def demo_counts_def)
qed

abbreviation (input) "demo_i1 \<equiv> demo_root ''i1'' 1 [''b''] (Some ''exact'') (Some ''x'') []"
abbreviation (input) "demo_i2 \<equiv> demo_root ''i2'' 2 [''c'', ''b''] (Some ''exact'') (Some ''x'') []"

lemma demo_roots_mem: "demo_i1 \<in> set (rg_roots (rs_graph demo_state))" "demo_i2 \<in> set (rg_roots (rs_graph demo_state))"
  by (simp_all add: demo_state_def demo_graph_def demo_roots_def)

theorem deletions_oldest_first_witness:
  "rr_id demo_i1 \<in> set (rpl_delete_ids (plan_artifact_retention demo_state (demo_counts 1)))"
  by (rule deletions_oldest_first [OF demo_state_built demo_roots_mem])
    (simp_all add: demo_counts_plan demo_root_def less_prod_def)

theorem bounds_met_or_exhausted_witness:
  "rpl_projected_bytes (plan_artifact_retention demo_state (demo_counts 2)) \<le> 50"
proof -
  have "\<forall>m \<in> set demo_members. 0 \<le> rm_disk m" by (simp add: demo_members_def demo_member_def)
  moreover have "rr_id demo_i2 \<in> set (rpl_keep_ids (plan_artifact_retention demo_state (demo_counts 2)))" by (simp add: demo_counts_plan demo_root_def)
  moreover have "rr_id demo_i2 \<notin> set (plan_floor demo_state (demo_counts 2))" by (simp add: demo_counts_plan)
  moreover have "rp_max_total_bytes (demo_counts 2) = Some 50" by (simp add: demo_counts_def)
  ultimately show ?thesis using bounds_met_or_exhausted [OF demo_state_built _ demo_roots_mem(2), of "demo_counts 2", unfolded Let_def] by blast
qed

theorem satisfied_deletes_nothing_witness:
  "rpl_delete_ids (plan_artifact_retention demo_state (demo_counts 3)) = []"
proof (rule conjunct1 [OF satisfied_deletes_nothing [OF demo_state_built]])
  show "int (length (filter (\<lambda>r. rr_family r = f) (rg_roots (rs_graph demo_state)))) \<le> n"
    if "rp_max_count_per_family (demo_counts 3) = Some n" for n f
  proof -
    have "length (filter (\<lambda>r. rr_family r = f) (rg_roots (rs_graph demo_state))) \<le> length (rg_roots (rs_graph demo_state))" by (rule length_filter_le)
    then show ?thesis using that by (simp add: demo_counts_def demo_state_def demo_graph_def demo_roots_def)
  qed
qed (auto simp: demo_counts_def demo_state_def demo_graph_def demo_roots_def demo_root_def demo_members_def demo_member_def)

theorem floor_keeps_newest_example_witness:
  "rr_id demo_i2 \<in> set (rpl_keep_ids (plan_artifact_retention demo_state demo_policy))"
proof (rule conjunct1 [OF floor_keeps_newest_example [OF demo_state_built demo_roots_mem(2), of "''x''" demo_policy]])
  have "{t. t \<noteq> '''' \<and> t \<noteq> NON_SHAPE_TOKEN \<and> (\<exists>q \<in> set (rg_roots (rs_graph demo_state)). rr_protected q = [] \<and> rr_shape q = Some t)} \<subseteq> {''x''}"
    by (auto simp: demo_state_def demo_graph_def demo_roots_def demo_root_def)
  from card_mono [OF _ this]
  show "int (card {t. t \<noteq> '''' \<and> t \<noteq> NON_SHAPE_TOKEN \<and> (\<exists>q \<in> set (rg_roots (rs_graph demo_state)). rr_protected q = [] \<and> rr_shape q = Some t)})
      \<le> rp_max_shape_examples demo_policy" by (simp add: demo_policy_def)
qed (auto simp: demo_root_def demo_state_def demo_graph_def demo_roots_def NON_SHAPE_TOKEN_def less_eq_prod_def)

end
