(* ===== verification/Retention_Policy.thy ===== *)
theory Retention_Policy
  imports Retention_Plan Py_Json
begin

text \<open>
  The strict resolver of \<open>bin/_lib_artifact_retention.py\<close> for the persisted \<open>storage.artifact_retention\<close> block
  (\<open>resolve_retention_policy\<close>), and the way back (\<open>policy_to_block\<close>). A reason is a constructor per message.
\<close>

section \<open>Policies and blocks\<close>

definition SECONDS_PER_DAY :: int where
  "SECONDS_PER_DAY = 86400"

definition BYTES_PER_MIB :: int where
  "BYTES_PER_MIB = 1024 * 1024"

definition DEFAULT_POLICY :: retention_policy where
  "DEFAULT_POLICY = \<lparr>rp_max_age_seconds = Some (30 * SECONDS_PER_DAY), rp_max_count_per_family = Some 20,
     rp_max_total_bytes = Some (4096 * BYTES_PER_MIB), rp_min_free_bytes = Some (10240 * BYTES_PER_MIB), rp_max_shape_examples = 8\<rparr>"

datatype policy_error =
    NotAnObject
  | UnknownFields "string list"
  | NullField string
  | NotAnInteger string
  | BelowFloor string int
  | NoSizeRule

record policy_resolution =
  res_status :: string
  res_policy :: "retention_policy option"
  res_reason :: "policy_error option"

text \<open>Field name, floor, nullable, unit multiplier, policy attribute.\<close>

type_synonym policy_field = "string \<times> int \<times> bool \<times> int \<times> string"

definition POLICY_FIELDS :: "policy_field list" where
  "POLICY_FIELDS = [(''max_age_days'', 1, True, SECONDS_PER_DAY, ''max_age_seconds''),
     (''max_count_per_family'', 1, True, 1, ''max_count_per_family''),
     (''max_total_mib'', 1, True, BYTES_PER_MIB, ''max_total_bytes''),
     (''min_free_mib'', 0, True, BYTES_PER_MIB, ''min_free_bytes''),
     (''max_shape_examples'', 1, False, 1, ''max_shape_examples'')]"

definition SIZE_RULE_FIELDS :: "string list" where
  "SIZE_RULE_FIELDS = [''max_age_days'', ''max_count_per_family'', ''max_total_mib'']"

text \<open>\<open>getattr(policy, attribute)\<close>.\<close>

definition policy_attribute :: "retention_policy \<Rightarrow> string \<Rightarrow> int option" where
  "policy_attribute p a =
     (if a = ''max_age_seconds'' then rp_max_age_seconds p
      else if a = ''max_count_per_family'' then rp_max_count_per_family p
      else if a = ''max_total_bytes'' then rp_max_total_bytes p
      else if a = ''min_free_bytes'' then rp_min_free_bytes p
      else Some (rp_max_shape_examples p))"

definition opt_json :: "int option \<Rightarrow> json" where
  "opt_json v = (case v of None \<Rightarrow> JNull | Some n \<Rightarrow> JInt n)"

definition policy_to_block :: "retention_policy \<Rightarrow> jobj" where
  "policy_to_block p = [(''max_age_days'', opt_json (map_option (\<lambda>n. n div SECONDS_PER_DAY) (rp_max_age_seconds p))),
     (''max_count_per_family'', opt_json (rp_max_count_per_family p)),
     (''max_total_mib'', opt_json (map_option (\<lambda>n. n div BYTES_PER_MIB) (rp_max_total_bytes p))),
     (''min_free_mib'', opt_json (map_option (\<lambda>n. n div BYTES_PER_MIB) (rp_min_free_bytes p))),
     (''max_shape_examples'', JInt (rp_max_shape_examples p))]"

section \<open>The resolver\<close>

definition resolve_field :: "jobj \<Rightarrow> (string, int option) dict \<Rightarrow> policy_field \<Rightarrow> policy_error + (string, int option) dict" where
  "resolve_field raw resolved pf = (case pf of (field, least, nullable, factor, attribute) \<Rightarrow>
     (case dget raw field of
        None \<Rightarrow> Inr (dset attribute (policy_attribute DEFAULT_POLICY attribute) resolved)
      | Some JNull \<Rightarrow> if \<not> nullable then Inl (NullField field) else Inr (dset attribute None resolved)
      | Some (JInt n) \<Rightarrow> if n < least then Inl (BelowFloor field least) else Inr (dset attribute (Some (n * factor)) resolved)
      | Some _ \<Rightarrow> Inl (NotAnInteger field)))"

text \<open>\<open>RetentionPolicy(**resolved)\<close>; the last field is never null.\<close>

definition policy_of :: "(string, int option) dict \<Rightarrow> retention_policy" where
  "policy_of resolved = \<lparr>rp_max_age_seconds = dget_or resolved ''max_age_seconds'' None,
     rp_max_count_per_family = dget_or resolved ''max_count_per_family'' None,
     rp_max_total_bytes = dget_or resolved ''max_total_bytes'' None,
     rp_min_free_bytes = dget_or resolved ''min_free_bytes'' None,
     rp_max_shape_examples = the (dget_or resolved ''max_shape_examples'' None)\<rparr>"

definition attribute_of :: "string \<Rightarrow> string" where
  "attribute_of field = (case dget POLICY_FIELDS field of None \<Rightarrow> '''' | Some (least, nullable, factor, attribute) \<Rightarrow> attribute)"

definition malformed :: "policy_error \<Rightarrow> policy_resolution" where
  "malformed e = \<lparr>res_status = ''malformed'', res_policy = None, res_reason = Some e\<rparr>"

definition resolve_retention_policy :: "json \<Rightarrow> policy_resolution" where
  "resolve_retention_policy raw = (case raw of
     JNull \<Rightarrow> \<lparr>res_status = ''missing'', res_policy = Some DEFAULT_POLICY, res_reason = None\<rparr>
   | JObj d \<Rightarrow>
       if d = [] then \<lparr>res_status = ''missing'', res_policy = Some DEFAULT_POLICY, res_reason = None\<rparr>
       else let unknown = sorted_set (filter (\<lambda>k. k \<notin> set (dkeys POLICY_FIELDS)) (dkeys d)) in
         if unknown \<noteq> [] then malformed (UnknownFields unknown)
         else (case rfold (resolve_field d) [] POLICY_FIELDS of
             Inl e \<Rightarrow> malformed e
           | Inr resolved \<Rightarrow>
               if list_all (\<lambda>field. dget_or resolved (attribute_of field) None = None) SIZE_RULE_FIELDS then malformed NoSizeRule
               else \<lparr>res_status = ''valid'', res_policy = Some (policy_of resolved), res_reason = None\<rparr>)
   | _ \<Rightarrow> malformed NotAnObject)"

section \<open>What the resolver accepts\<close>

definition field_ok :: "jobj \<Rightarrow> policy_field \<Rightarrow> bool" where
  "field_ok raw pf \<longleftrightarrow> (case pf of (field, least, nullable, factor, attribute) \<Rightarrow>
     (case dget raw field of None \<Rightarrow> True | Some JNull \<Rightarrow> nullable | Some (JInt n) \<Rightarrow> least \<le> n | Some _ \<Rightarrow> False))"

definition field_value :: "jobj \<Rightarrow> policy_field \<Rightarrow> int option" where
  "field_value raw pf = (case pf of (field, least, nullable, factor, attribute) \<Rightarrow>
     (case dget raw field of None \<Rightarrow> policy_attribute DEFAULT_POLICY attribute | Some (JInt n) \<Rightarrow> Some (n * factor) | _ \<Rightarrow> None))"

definition field_attribute :: "policy_field \<Rightarrow> string" where
  "field_attribute pf = (case pf of (field, least, nullable, factor, attribute) \<Rightarrow> attribute)"

lemma resolve_field_cases:
  "field_ok raw pf \<Longrightarrow> resolve_field raw r pf = Inr (dset (field_attribute pf) (field_value raw pf) r)"
  "\<not> field_ok raw pf \<Longrightarrow> \<exists>e. resolve_field raw r pf = Inl e"
  by (auto simp: field_ok_def resolve_field_def field_value_def field_attribute_def split: prod.splits option.splits json.splits)

lemma resolve_fields:
  "(\<forall>pf \<in> set pfs. field_ok raw pf)
    \<Longrightarrow> rfold (resolve_field raw) r pfs = Inr (foldl (\<lambda>r pf. dset (field_attribute pf) (field_value raw pf) r) r pfs)"
  "\<not> (\<forall>pf \<in> set pfs. field_ok raw pf) \<Longrightarrow> \<exists>e. rfold (resolve_field raw) r pfs = Inl e"
proof (induction pfs arbitrary: r)
  case (Cons pf pfs)
  {
    case 1
    then show ?case using Cons.IH(1) resolve_field_cases(1) by simp
  next
    case 2
    then show ?case
    proof (cases "field_ok raw pf")
      case True
      then show ?thesis using 2 Cons.IH(2) resolve_field_cases(1) by simp
    next
      case False
      then obtain e where "resolve_field raw r pf = Inl e" using resolve_field_cases(2) by blast
      then show ?thesis by simp
    qed
  }
qed simp_all

definition block_ok :: "jobj \<Rightarrow> bool" where
  "block_ok d \<longleftrightarrow> d \<noteq> [] \<and> set (dkeys d) \<subseteq> set (dkeys POLICY_FIELDS) \<and> (\<forall>pf \<in> set POLICY_FIELDS. field_ok d pf)
     \<and> (\<exists>field \<in> set SIZE_RULE_FIELDS. dget d field \<noteq> Some JNull)"

definition block_policy :: "jobj \<Rightarrow> retention_policy" where
  "block_policy d = policy_of (foldl (\<lambda>r pf. dset (field_attribute pf) (field_value d pf) r) [] POLICY_FIELDS)"

lemmas policy_table = POLICY_FIELDS_def SIZE_RULE_FIELDS_def attribute_of_def field_attribute_def

lemma attribute_of_sizes: "attribute_of ''max_age_days'' = ''max_age_seconds''"
  "attribute_of ''max_count_per_family'' = ''max_count_per_family''" "attribute_of ''max_total_mib'' = ''max_total_bytes''"
  by (simp_all add: attribute_of_def POLICY_FIELDS_def)

lemma resolved_get:
  "dget_or (foldl (\<lambda>r pf. dset (field_attribute pf) (field_value d pf) r) [] POLICY_FIELDS) a None =
    (if a = ''max_age_seconds'' then field_value d (''max_age_days'', 1, True, SECONDS_PER_DAY, ''max_age_seconds'')
     else if a = ''max_count_per_family'' then field_value d (''max_count_per_family'', 1, True, 1, ''max_count_per_family'')
     else if a = ''max_total_bytes'' then field_value d (''max_total_mib'', 1, True, BYTES_PER_MIB, ''max_total_bytes'')
     else if a = ''min_free_bytes'' then field_value d (''min_free_mib'', 0, True, BYTES_PER_MIB, ''min_free_bytes'')
     else if a = ''max_shape_examples'' then field_value d (''max_shape_examples'', 1, False, 1, ''max_shape_examples'') else None)"
  unfolding POLICY_FIELDS_def foldl_Cons foldl_Nil dget_or_dset field_attribute_def prod.case by (simp add: dget_or_def)

lemma field_value_None: "field_ok d (f, l, True, u, a) \<Longrightarrow> policy_attribute DEFAULT_POLICY a \<noteq> None
    \<Longrightarrow> field_value d (f, l, True, u, a) = None \<longleftrightarrow> dget d f = Some JNull"
  by (auto simp: field_ok_def field_value_def split: option.splits json.splits)

lemma no_size_rule:
  assumes "\<forall>pf \<in> set POLICY_FIELDS. field_ok d pf"
  shows "list_all (\<lambda>field. dget_or (foldl (\<lambda>r pf. dset (field_attribute pf) (field_value d pf) r) [] POLICY_FIELDS) (attribute_of field) None = None)
      SIZE_RULE_FIELDS \<longleftrightarrow> (\<forall>field \<in> set SIZE_RULE_FIELDS. dget d field = Some JNull)"
proof -
  have "field_value d (''max_age_days'', 1, True, SECONDS_PER_DAY, ''max_age_seconds'') = None \<longleftrightarrow> dget d ''max_age_days'' = Some JNull"
    "field_value d (''max_count_per_family'', 1, True, 1, ''max_count_per_family'') = None \<longleftrightarrow> dget d ''max_count_per_family'' = Some JNull"
    "field_value d (''max_total_mib'', 1, True, BYTES_PER_MIB, ''max_total_bytes'') = None \<longleftrightarrow> dget d ''max_total_mib'' = Some JNull"
    using assms by (auto intro!: field_value_None simp: POLICY_FIELDS_def policy_attribute_def DEFAULT_POLICY_def)
  then show ?thesis by (simp add: SIZE_RULE_FIELDS_def attribute_of_sizes resolved_get)
qed

lemma resolve_object:
  assumes "d \<noteq> []"
  shows "block_ok d \<Longrightarrow> resolve_retention_policy (JObj d) = \<lparr>res_status = ''valid'', res_policy = Some (block_policy d), res_reason = None\<rparr>"
    and "\<not> block_ok d \<Longrightarrow> \<exists>e. resolve_retention_policy (JObj d) = malformed e"
proof -
  let ?unknown = "sorted_set (filter (\<lambda>k. k \<notin> set (dkeys POLICY_FIELDS)) (dkeys d))"
  have un: "?unknown = [] \<longleftrightarrow> set (dkeys d) \<subseteq> set (dkeys POLICY_FIELDS)"
    using set_sorted_set [of "filter (\<lambda>k. k \<notin> set (dkeys POLICY_FIELDS)) (dkeys d)"]
    by (metis (no_types, lifting) filter_empty_conv set_empty subset_code(1))
  show "resolve_retention_policy (JObj d) = \<lparr>res_status = ''valid'', res_policy = Some (block_policy d), res_reason = None\<rparr>" if b: "block_ok d"
  proof -
    have f: "\<forall>pf \<in> set POLICY_FIELDS. field_ok d pf" and u: "?unknown = []" using b un by (simp_all add: block_ok_def)
    have "\<not> (\<forall>field \<in> set SIZE_RULE_FIELDS. dget d field = Some JNull)" using b by (auto simp: block_ok_def)
    note ns = this [unfolded no_size_rule [OF f, symmetric]]
    show ?thesis unfolding resolve_retention_policy_def json.case Let_def u resolve_fields(1) [OF f, of "[]"] sum.case block_policy_def
      using assms ns by simp
  qed
  show "\<exists>e. resolve_retention_policy (JObj d) = malformed e" if b: "\<not> block_ok d"
  proof (cases "?unknown = []")
    case False
    then show ?thesis using assms by (auto simp: resolve_retention_policy_def Let_def)
  next
    case u: True
    show ?thesis
    proof (cases "\<forall>pf \<in> set POLICY_FIELDS. field_ok d pf")
      case f: True
      have "\<forall>field \<in> set SIZE_RULE_FIELDS. dget d field = Some JNull"
        using b f u un assms unfolding block_ok_def by blast
      then have "resolve_retention_policy (JObj d) = malformed NoSizeRule"
        using no_size_rule [OF f] resolve_fields(1) [OF f, of "[]"] assms u by (simp add: resolve_retention_policy_def)
      then show ?thesis by blast
    next
      case False
      then obtain e where "rfold (resolve_field d) [] POLICY_FIELDS = Inl e" using resolve_fields(2) by blast
      then have "resolve_retention_policy (JObj d) = malformed e" using assms u by (simp add: resolve_retention_policy_def)
      then show ?thesis by blast
    qed
  qed
qed

section \<open>Valid policies\<close>

definition policy_ok :: "retention_policy \<Rightarrow> bool" where
  "policy_ok p \<longleftrightarrow> (\<forall>n. rp_max_age_seconds p = Some n \<longrightarrow> SECONDS_PER_DAY \<le> n \<and> SECONDS_PER_DAY dvd n)
     \<and> (\<forall>n. rp_max_count_per_family p = Some n \<longrightarrow> 1 \<le> n)
     \<and> (\<forall>n. rp_max_total_bytes p = Some n \<longrightarrow> BYTES_PER_MIB \<le> n \<and> BYTES_PER_MIB dvd n)
     \<and> (\<forall>n. rp_min_free_bytes p = Some n \<longrightarrow> 0 \<le> n \<and> BYTES_PER_MIB dvd n)
     \<and> 1 \<le> rp_max_shape_examples p
     \<and> (rp_max_age_seconds p \<noteq> None \<or> rp_max_count_per_family p \<noteq> None \<or> rp_max_total_bytes p \<noteq> None)"

lemma block_policy_fields:
  "rp_max_age_seconds (block_policy d) = field_value d (''max_age_days'', 1, True, SECONDS_PER_DAY, ''max_age_seconds'')"
  "rp_max_count_per_family (block_policy d) = field_value d (''max_count_per_family'', 1, True, 1, ''max_count_per_family'')"
  "rp_max_total_bytes (block_policy d) = field_value d (''max_total_mib'', 1, True, BYTES_PER_MIB, ''max_total_bytes'')"
  "rp_min_free_bytes (block_policy d) = field_value d (''min_free_mib'', 0, True, BYTES_PER_MIB, ''min_free_bytes'')"
  "rp_max_shape_examples (block_policy d) = the (field_value d (''max_shape_examples'', 1, False, 1, ''max_shape_examples''))"
  by (simp_all add: block_policy_def policy_of_def resolved_get)

lemma field_value_bounds:
  assumes "field_ok d (f, l, nu, u, a)" and "0 < u" and "field_value d (f, l, nu, u, a) = Some n"
    and "\<And>m. policy_attribute DEFAULT_POLICY a = Some m \<Longrightarrow> l * u \<le> m \<and> u dvd m"
  shows "l * u \<le> n \<and> u dvd n"
  using assms by (auto simp: field_ok_def field_value_def intro: mult_right_mono split: option.splits json.splits)

lemma block_policy_ok:
  assumes "block_ok d"
  shows "policy_ok (block_policy d)"
proof -
  have f: "\<forall>pf \<in> set POLICY_FIELDS. field_ok d pf" using assms by (simp add: block_ok_def)
  note ok = f [unfolded POLICY_FIELDS_def, simplified]
  note units = SECONDS_PER_DAY_def BYTES_PER_MIB_def policy_attribute_def DEFAULT_POLICY_def
  have "rp_max_age_seconds (block_policy d) = Some n \<Longrightarrow> SECONDS_PER_DAY \<le> n \<and> SECONDS_PER_DAY dvd n" for n
    unfolding block_policy_fields using field_value_bounds [OF conjunct1 [OF ok]] by (simp add: units)
  moreover have "rp_max_count_per_family (block_policy d) = Some n \<Longrightarrow> 1 \<le> n" for n
    unfolding block_policy_fields
    using field_value_bounds [of d "''max_count_per_family''" 1 True 1 "''max_count_per_family''" n] ok by (simp add: units)
  moreover have "rp_max_total_bytes (block_policy d) = Some n \<Longrightarrow> BYTES_PER_MIB \<le> n \<and> BYTES_PER_MIB dvd n" for n
    unfolding block_policy_fields
    using field_value_bounds [of d "''max_total_mib''" 1 True BYTES_PER_MIB "''max_total_bytes''" n] ok by (simp add: units)
  moreover have "rp_min_free_bytes (block_policy d) = Some n \<Longrightarrow> 0 \<le> n \<and> BYTES_PER_MIB dvd n" for n
    unfolding block_policy_fields
    using field_value_bounds [of d "''min_free_mib''" 0 True BYTES_PER_MIB "''min_free_bytes''" n] ok by (simp add: units)
  moreover have "1 \<le> rp_max_shape_examples (block_policy d)"
    using ok unfolding block_policy_fields
    by (auto simp: field_ok_def field_value_def units split: option.splits json.splits)
  moreover have "rp_max_age_seconds (block_policy d) \<noteq> None \<or> rp_max_count_per_family (block_policy d) \<noteq> None
      \<or> rp_max_total_bytes (block_policy d) \<noteq> None"
  proof -
    have "\<not> (\<forall>field \<in> set SIZE_RULE_FIELDS. dget d field = Some JNull)" using assms by (auto simp: block_ok_def)
    from this [unfolded no_size_rule [OF f, symmetric]] show ?thesis
      unfolding block_policy_fields SIZE_RULE_FIELDS_def by (auto simp: attribute_of_sizes resolved_get)
  qed
  ultimately show ?thesis unfolding policy_ok_def by blast
qed

lemma default_policy_ok: "policy_ok DEFAULT_POLICY"
  by (simp add: policy_ok_def DEFAULT_POLICY_def SECONDS_PER_DAY_def BYTES_PER_MIB_def)

lemma resolver_verdict_policy:
  "case res_policy (resolve_retention_policy raw) of
        None \<Rightarrow> res_status (resolve_retention_policy raw) = ''malformed'' \<and> res_reason (resolve_retention_policy raw) \<noteq> None
      | Some p \<Rightarrow> policy_ok p \<and> res_reason (resolve_retention_policy raw) = None"
proof (cases raw)
  case (JObj d)
  show ?thesis
  proof (cases "d = []")
    case True
    then show ?thesis using JObj default_policy_ok by (simp add: resolve_retention_policy_def block_ok_def)
  next
    case d: False
    show ?thesis
    proof (cases "block_ok d")
      case True
      then show ?thesis using resolve_object(1) [OF d True] JObj d block_policy_ok [OF True] by simp
    next
      case False
      then obtain e where "resolve_retention_policy (JObj d) = malformed e" using resolve_object(2) [OF d] by blast
      then show ?thesis using JObj d False by (simp add: malformed_def)
    qed
  qed
qed (use default_policy_ok in \<open>simp_all add: resolve_retention_policy_def malformed_def\<close>)


section \<open>The round trip\<close>

text \<open>What a caller may act on: the policy of a missing or valid block.\<close>

definition effective_policy :: "json \<Rightarrow> policy_error + retention_policy" where
  "effective_policy raw = (case res_policy (resolve_retention_policy raw) of
     Some p \<Rightarrow> Inr p | None \<Rightarrow> Inl (the (res_reason (resolve_retention_policy raw))))"

lemma field_round_trip:
  assumes "dget d f = Some (opt_json (map_option (\<lambda>n. n div u) v))" and "0 < u"
    and "\<And>n. v = Some n \<Longrightarrow> l * u \<le> n \<and> u dvd n"
  shows "field_ok d (f, l, True, u, a)" and "field_value d (f, l, True, u, a) = v"
proof -
  have "l \<le> n div u" if "v = Some n" for n using assms(3) [OF that] assms(2) by (metis dvd_div_mult_self mult_le_cancel_right_pos)
  then show "field_ok d (f, l, True, u, a)" using assms(1) by (simp add: field_ok_def opt_json_def split: option.split)
  show "field_value d (f, l, True, u, a) = v" using assms(1,3) by (simp add: field_value_def opt_json_def split: option.split)
qed

lemma block_round_trip:
  assumes "policy_ok p"
  shows "block_ok (policy_to_block p)" and "block_policy (policy_to_block p) = p"
proof -
  let ?d = "policy_to_block p"
  have u: "0 < SECONDS_PER_DAY" "0 < BYTES_PER_MIB" by (simp_all add: SECONDS_PER_DAY_def BYTES_PER_MIB_def)
  have age: "field_ok ?d (''max_age_days'', 1, True, SECONDS_PER_DAY, a)" "field_value ?d (''max_age_days'', 1, True, SECONDS_PER_DAY, a) = rp_max_age_seconds p" for a
    by (rule field_round_trip [where v = "rp_max_age_seconds p", OF _ u(1)]; use assms in \<open>auto simp: policy_to_block_def policy_ok_def\<close>)+
  have count: "field_ok ?d (''max_count_per_family'', 1, True, 1, a)" "field_value ?d (''max_count_per_family'', 1, True, 1, a) = rp_max_count_per_family p" for a
    by (rule field_round_trip [where u = 1 and v = "rp_max_count_per_family p"];
      use assms in \<open>auto simp: policy_to_block_def policy_ok_def option.map_ident\<close>)+
  have total: "field_ok ?d (''max_total_mib'', 1, True, BYTES_PER_MIB, a)" "field_value ?d (''max_total_mib'', 1, True, BYTES_PER_MIB, a) = rp_max_total_bytes p" for a
    by (rule field_round_trip [where v = "rp_max_total_bytes p", OF _ u(2)]; use assms in \<open>auto simp: policy_to_block_def policy_ok_def\<close>)+
  have free: "field_ok ?d (''min_free_mib'', 0, True, BYTES_PER_MIB, a)" "field_value ?d (''min_free_mib'', 0, True, BYTES_PER_MIB, a) = rp_min_free_bytes p" for a
    by (rule field_round_trip [where v = "rp_min_free_bytes p", OF _ u(2)]; use assms in \<open>auto simp: policy_to_block_def policy_ok_def\<close>)+
  have shapes: "field_ok ?d (''max_shape_examples'', 1, False, 1, a)" "field_value ?d (''max_shape_examples'', 1, False, 1, a) = Some (rp_max_shape_examples p)" for a
    using assms by (simp_all add: field_ok_def field_value_def policy_to_block_def policy_ok_def)
  have "\<exists>field \<in> set SIZE_RULE_FIELDS. dget ?d field \<noteq> Some JNull"
    using assms by (auto simp: SIZE_RULE_FIELDS_def policy_to_block_def policy_ok_def opt_json_def split: option.splits)
  then show "block_ok ?d" unfolding block_ok_def
    using age(1) count(1) total(1) free(1) shapes(1) by (auto simp: POLICY_FIELDS_def policy_to_block_def dkeys_def)
  show "block_policy ?d = p"
    by (rule retention_policy.equality) (simp_all add: block_policy_fields age(2) count(2) total(2) free(2) shapes(2))
qed

interpretation policy_codec: codec "\<lambda>p. JObj (policy_to_block p)" effective_policy policy_ok
proof
  show "effective_policy (JObj (policy_to_block p)) = Inr p" if "policy_ok p" for p
    using resolve_object(1) [OF _ block_round_trip(1) [OF that]] block_round_trip(2) [OF that]
    by (simp add: effective_policy_def policy_to_block_def)
  show "policy_ok p" if "effective_policy j = Inr p" for j p
    using resolver_verdict_policy [of j] that by (simp add: effective_policy_def split: option.splits)
qed

text \<open>A well formed policy survives being written back in the config file's own units, and so does the default block;
  two policies with the same block are equal.\<close>

theorem policy_block_round_trip:
  assumes "policy_ok p"
  shows "resolve_retention_policy (JObj (policy_to_block p)) = \<lparr>res_status = ''valid'', res_policy = Some p, res_reason = None\<rparr>
    \<and> (\<forall>q. policy_ok q \<and> policy_to_block q = policy_to_block p \<longrightarrow> q = p)"
proof -
  have "policy_to_block p \<noteq> []" by (simp add: policy_to_block_def)
  from resolve_object(1) [OF this block_round_trip(1) [OF assms]] show ?thesis
    using policy_codec.enc_inj [OF _ assms] block_round_trip(2) [OF assms] by auto
qed

theorem policy_block_round_trip_witness:
  "resolve_retention_policy (JObj (policy_to_block DEFAULT_POLICY)) = \<lparr>res_status = ''valid'', res_policy = Some DEFAULT_POLICY, res_reason = None\<rparr>"
  using policy_block_round_trip [OF default_policy_ok] by blast

end
