(* ===== verification/Reclaim_Engine.thy ===== *)
theory Reclaim_Engine
  imports Retention_Plan
begin

text \<open>
  The reclaim engine of \<open>bin/_cctally_retention.py\<close> with the phase table of \<open>bin/_lib_artifact_retention.py\<close>: members are
  renamed to tombstones beside them (\<open>mark_reclaim_plan\<close>), a durable record says which ones, a resuming worker
  brings every record to \<open>marked\<close> (\<open>_resume_marking_pass\<close>), and marked tombstones are unlinked
  (\<open>_apply_reclaim_record\<close>). A disk is the inodes at the paths of members and tombstones, relative to the data
  directory and in normal form, with the pending records by plan. No member is the data directory itself (\<open>.\<close>). What lies inside a directory is part of its inode.
  Failing renames and unlinks are the argument \<open>env\<close>; writing a record does not fail.
\<close>

section \<open>Disk, records, targets\<close>

datatype file_kind = RegularFile | DirectoryFile | SymlinkFile

record stat_info =
  st_kind :: file_kind
  st_dev :: int
  st_ino :: int
  st_size :: int
  st_mtime_ns :: int

type_synonym files = "(string, stat_info) dict"

datatype reclaim_reason =
    GroupAbandoned string
  | MissingSource
  | SymlinkMember
  | IdentityMismatch
  | TombstoneExists
  | RenameFailed
  | FailClosedState
  | TombstoneChangedKind
  | DeleteFailed

datatype reclaim_error = NotRelative string | EscapesRoot string | NoTombstone string | NotBesideSource string | NotTombstoneName string

record reclaim_target =
  rt_id :: string
  rt_is_dir :: bool
  rt_device :: int
  rt_inode :: int
  rt_size :: int
  rt_mtime_ns :: int
  rt_root_id :: string

record reclaim_entry =
  en_id :: string
  en_root_id :: string
  en_tombstone :: "string option"
  en_phase :: string
  en_is_dir :: bool
  en_device :: int
  en_inode :: int
  en_size :: int
  en_mtime_ns :: int
  en_error :: "reclaim_reason option"
  en_first_failed :: "string option"
  en_failure_count :: int

record reclaim_disk =
  dk_files :: files
  dk_records :: "(string, reclaim_entry list) dict"

text \<open>Which renames fail, by source, and which unlinks fail, by tombstone and inode, with what they leave of it.\<close>

record reclaim_env =
  ev_rename_fails :: "string \<Rightarrow> bool"
  ev_unlink_fails :: "string \<Rightarrow> stat_info \<Rightarrow> stat_info option"

definition PHASE_MARKING :: string where
  "PHASE_MARKING = ''marking''"

definition PHASE_MARKED :: string where
  "PHASE_MARKED = ''marked''"

definition TOMBSTONE_PREFIX :: string where
  "TOMBSTONE_PREFIX = ''.reclaiming-''"

section \<open>Paths\<close>

definition path_parts :: "string \<Rightarrow> string list" where
  "path_parts p = split_on CHR ''/'' p"

text \<open>\<open>os.path.normpath\<close> of a relative path.\<close>

definition norm_step :: "string list \<Rightarrow> string \<Rightarrow> string list" where
  "norm_step comps c = (if c = '''' \<or> c = ''.'' then comps
     else if c \<noteq> ''..'' \<or> comps = [] \<or> last comps = ''..'' then comps @ [c] else butlast comps)"

definition normpath :: "string \<Rightarrow> string" where
  "normpath p = (let comps = foldl norm_step [] (path_parts p) in if comps = [] then ''.'' else join ''/'' comps)"

definition member_path :: "string \<Rightarrow> reclaim_error + string" where
  "member_path i = (if i = '''' \<or> hd i = CHR ''/'' then Inl (NotRelative i)
     else let normalized = normpath i in
       if normalized = ''..'' \<or> take 3 normalized = ''../'' then Inl (EscapesRoot i) else Inr normalized)"

definition tombstone_path :: "string \<Rightarrow> string \<Rightarrow> string" where
  "tombstone_path p plan_id = join ''/'' (butlast (path_parts p) @ [TOMBSTONE_PREFIX @ plan_id @ ''-'' @ last (path_parts p)])"

definition entry_tombstone_path :: "reclaim_entry \<Rightarrow> reclaim_error + string" where
  "entry_tombstone_path e = (case en_tombstone e of None \<Rightarrow> Inl (NoTombstone (en_id e))
     | Some recorded \<Rightarrow> rbind (member_path recorded) (\<lambda>tombstone. rbind (member_path (en_id e)) (\<lambda>source.
         if butlast (path_parts tombstone) \<noteq> butlast (path_parts source) then Inl (NotBesideSource recorded)
         else if take (length TOMBSTONE_PREFIX) (last (path_parts tombstone)) \<noteq> TOMBSTONE_PREFIX then Inl (NotTombstoneName recorded)
         else Inr tombstone)))"

definition rename_file :: "files \<Rightarrow> string \<Rightarrow> string \<Rightarrow> stat_info \<Rightarrow> files" where
  "rename_file fs src dst info = dset dst info (dwithout [src] fs)"

section \<open>Targets and entries\<close>

definition stat_reclaim_target :: "files \<Rightarrow> string \<Rightarrow> string \<Rightarrow> reclaim_error + reclaim_target option" where
  "stat_reclaim_target fs member_id root_id = rbind (member_path member_id) (\<lambda>path. Inr (case dget fs path of None \<Rightarrow> None
     | Some info \<Rightarrow> Some \<lparr>rt_id = member_id, rt_is_dir = (st_kind info = DirectoryFile), rt_device = st_dev info,
         rt_inode = st_ino info, rt_size = st_size info, rt_mtime_ns = st_mtime_ns info, rt_root_id = root_id\<rparr>))"

definition targets_for_plan :: "files \<Rightarrow> retention_plan \<Rightarrow> reclaim_error + reclaim_target list" where
  "targets_for_plan fs plan = rbind (rmap (\<lambda>(root_id, m). stat_reclaim_target fs m root_id)
     (concat (map (\<lambda>(root_id, members). map (\<lambda>m. (root_id, m)) members) (rpl_delete_groups plan))))
     (\<lambda>found. Inr (List.map_filter id found))"

definition group_id :: "reclaim_target \<Rightarrow> string" where
  "group_id t = (if rt_root_id t \<noteq> '''' then rt_root_id t else rt_id t)"

definition entry_for :: "string \<Rightarrow> reclaim_target \<Rightarrow> reclaim_error + reclaim_entry" where
  "entry_for plan_id t = rbind (member_path (rt_id t)) (\<lambda>path. Inr
     \<lparr>en_id = rt_id t, en_root_id = group_id t, en_tombstone = Some (tombstone_path path plan_id), en_phase = PHASE_MARKING,
      en_is_dir = rt_is_dir t, en_device = rt_device t, en_inode = rt_inode t, en_size = rt_size t,
      en_mtime_ns = rt_mtime_ns t, en_error = None, en_first_failed = None, en_failure_count = 0\<rparr>)"

definition identity_matches :: "reclaim_entry \<Rightarrow> stat_info \<Rightarrow> bool \<Rightarrow> bool" where
  "identity_matches e info allow_size_drift \<longleftrightarrow>
     (if st_dev info \<noteq> en_device e then False
      else if st_ino info \<noteq> en_inode e then False
      else if allow_size_drift then True
      else st_size info = en_size e \<and> st_mtime_ns info = en_mtime_ns e)"

section \<open>Marking\<close>

record mark_state =
  mk_files :: files
  mk_done :: "nat list"
  mk_abandoned :: "(string, string) dict"
  mk_marked :: "string list"
  mk_failed :: "string list"
  mk_skipped :: "string list"
  mk_reasons :: "(string, reclaim_reason) dict"

definition mark_stop :: "mark_state \<Rightarrow> reclaim_entry \<Rightarrow> reclaim_reason \<Rightarrow> bool \<Rightarrow> mark_state" where
  "mark_stop s e reason fails = s\<lparr>mk_reasons := dset (en_id e) reason (mk_reasons s),
     mk_failed := (if fails then mk_failed s @ [en_root_id e] else mk_failed s),
     mk_skipped := (if fails then mk_skipped s else mk_skipped s @ [en_id e]),
     mk_abandoned := dset (en_root_id e) (en_id e) (mk_abandoned s)\<rparr>"

text \<open>One entry of one group; \<open>abandoned\<close> of the code, reset for every group, is the group's own entry of \<open>mk_abandoned\<close>.\<close>

definition mark_entry :: "reclaim_env \<Rightarrow> mark_state \<Rightarrow> nat \<times> reclaim_entry \<Rightarrow> reclaim_error + mark_state" where
  "mark_entry env s ie = (case ie of (i, e) \<Rightarrow>
     (case dget (mk_abandoned s) (en_root_id e) of
        Some stopped \<Rightarrow> Inr (s\<lparr>mk_reasons := dset (en_id e) (GroupAbandoned stopped) (mk_reasons s), mk_skipped := mk_skipped s @ [en_id e]\<rparr>)
      | None \<Rightarrow> rbind (member_path (en_id e)) (\<lambda>source. rbind (entry_tombstone_path e) (\<lambda>tombstone.
          Inr (case dget (mk_files s) source of
              None \<Rightarrow> mark_stop s e MissingSource False
            | Some info \<Rightarrow>
                if st_kind info = SymlinkFile then mark_stop s e SymlinkMember False
                else if \<not> identity_matches e info False then mark_stop s e IdentityMismatch False
                else if dget (mk_files s) tombstone \<noteq> None then mark_stop s e TombstoneExists True
                else if ev_rename_fails env source then mark_stop s e RenameFailed True
                else s\<lparr>mk_files := rename_file (mk_files s) source tombstone info, mk_done := mk_done s @ [i],
                       mk_marked := mk_marked s @ [en_id e]\<rparr>)))))"

definition group_entries :: "(nat \<times> reclaim_entry) list \<Rightarrow> (string, (nat \<times> reclaim_entry) list) dict" where
  "group_entries ies = foldl (\<lambda>d ie. dset (en_root_id (snd ie)) (dget_or d (en_root_id (snd ie)) [] @ [ie]) d) [] ies"

definition mark_start :: "files \<Rightarrow> mark_state" where
  "mark_start fs = \<lparr>mk_files = fs, mk_done = [], mk_abandoned = [], mk_marked = [], mk_failed = [], mk_skipped = [], mk_reasons = []\<rparr>"

text \<open>The entries in the order they are worked on, and the entries the record keeps.\<close>

definition mark_order :: "reclaim_entry list \<Rightarrow> (nat \<times> reclaim_entry) list" where
  "mark_order entries = concat (map snd (group_entries (enumerate 0 entries)))"

definition marked_entries :: "mark_state \<Rightarrow> reclaim_entry list \<Rightarrow> reclaim_entry list" where
  "marked_entries s entries = map (\<lambda>(i, e). e\<lparr>en_phase := PHASE_MARKED\<rparr>) (filter (\<lambda>(i, e). i \<in> set (mk_done s)) (enumerate 0 entries))"

record mark_result =
  mr_record :: bool
  mr_marked :: "string list"
  mr_failed :: "string list"
  mr_skipped :: "string list"
  mr_reasons :: "(string, reclaim_reason) dict"

definition mark_reclaim_plan :: "reclaim_env \<Rightarrow> string \<Rightarrow> reclaim_target list \<Rightarrow> reclaim_disk \<Rightarrow> reclaim_error + mark_result \<times> reclaim_disk" where
  "mark_reclaim_plan env plan_id targets d =
     (if targets = [] then Inr (\<lparr>mr_record = False, mr_marked = [], mr_failed = [], mr_skipped = [], mr_reasons = []\<rparr>, d)
      else rbind (rmap (entry_for plan_id) targets) (\<lambda>entries.
        let written = dset plan_id entries (dk_records d) in
        rbind (rfold (mark_entry env) (mark_start (dk_files d)) (mark_order entries)) (\<lambda>s.
        let kept = marked_entries s entries
        in Inr (\<lparr>mr_record = (kept \<noteq> []), mr_marked = mk_marked s, mr_failed = remdups (mk_failed s), mr_skipped = mk_skipped s,
                 mr_reasons = mk_reasons s\<rparr>,
             \<lparr>dk_files = mk_files s, dk_records = (if kept \<noteq> [] then dset plan_id kept written else dwithout [plan_id] written)\<rparr>))))"

section \<open>Resuming\<close>

datatype resume_choice = FailClosed | ResumeRename | AdvanceToMarked | ContinueDeletion | EntryComplete

definition resume_action :: "string \<Rightarrow> bool \<Rightarrow> bool \<Rightarrow> resume_choice" where
  "resume_action phase source_present tombstone_present =
     (if source_present \<and> tombstone_present then FailClosed
      else if phase = PHASE_MARKING then
        (if source_present then ResumeRename else if tombstone_present then AdvanceToMarked else FailClosed)
      else if tombstone_present then ContinueDeletion else EntryComplete)"

definition note_entry_failure :: "string \<Rightarrow> reclaim_entry \<Rightarrow> reclaim_reason \<Rightarrow> reclaim_entry" where
  "note_entry_failure now e reason = e\<lparr>en_error := Some reason,
     en_first_failed := (case en_first_failed e of None \<Rightarrow> Some now | Some t \<Rightarrow> Some t),
     en_failure_count := en_failure_count e + 1\<rparr>"

record pass_state =
  ps_files :: files
  ps_kept :: "reclaim_entry list"
  ps_abandoned :: "(string, string) dict"
  ps_errors :: "(string, reclaim_reason) dict"

definition pass_fail :: "string \<Rightarrow> pass_state \<Rightarrow> reclaim_entry \<Rightarrow> reclaim_reason \<Rightarrow> bool \<Rightarrow> pass_state" where
  "pass_fail now s e reason stops = s\<lparr>ps_errors := dset (en_id e) reason (ps_errors s),
     ps_kept := ps_kept s @ [note_entry_failure now e reason],
     ps_abandoned := (if stops then dset (if en_root_id e \<noteq> '''' then en_root_id e else en_id e) (en_id e) (ps_abandoned s) else ps_abandoned s)\<rparr>"

definition pass_marked :: "pass_state \<Rightarrow> reclaim_entry \<Rightarrow> pass_state" where
  "pass_marked s e = s\<lparr>ps_kept := ps_kept s @ [e\<lparr>en_phase := PHASE_MARKED, en_error := None, en_first_failed := None, en_failure_count := 0\<rparr>]\<rparr>"

definition resume_entry :: "reclaim_env \<Rightarrow> string \<Rightarrow> pass_state \<Rightarrow> reclaim_entry \<Rightarrow> reclaim_error + pass_state" where
  "resume_entry env now s e = rbind (member_path (en_id e)) (\<lambda>source. rbind (entry_tombstone_path e) (\<lambda>tombstone. Inr
     (let group = (if en_root_id e \<noteq> '''' then en_root_id e else en_id e);
          source_info = dget (ps_files s) source;
          action = resume_action (en_phase e) (source_info \<noteq> None) (dget (ps_files s) tombstone \<noteq> None)
      in if action = EntryComplete then s
         else if group \<in> set (dkeys (ps_abandoned s)) \<and> action \<noteq> ContinueDeletion
           then pass_fail now s e (GroupAbandoned (the (dget (ps_abandoned s) group))) False
         else if action = FailClosed then pass_fail now s e FailClosedState True
         else if action = ContinueDeletion then s\<lparr>ps_kept := ps_kept s @ [e\<lparr>en_phase := PHASE_MARKED, en_error := None\<rparr>]\<rparr>
         else if action = ResumeRename then
           (case source_info of None \<Rightarrow> s | Some info \<Rightarrow>
              if st_kind info = SymlinkFile then pass_fail now s e SymlinkMember True
              else if \<not> identity_matches e info False then pass_fail now s e IdentityMismatch True
              else if ev_rename_fails env source then pass_fail now s e RenameFailed True
              else pass_marked (s\<lparr>ps_files := rename_file (ps_files s) source tombstone info\<rparr>) e)
         else pass_marked s e)))"

definition pass_start :: "files \<Rightarrow> (string, reclaim_reason) dict \<Rightarrow> pass_state" where
  "pass_start fs errors = \<lparr>ps_files = fs, ps_kept = [], ps_abandoned = [], ps_errors = errors\<rparr>"

text \<open>One record of the pass, with the plans kept so far and the errors of the whole pass.\<close>

definition resume_record :: "reclaim_env \<Rightarrow> string \<Rightarrow> reclaim_disk \<times> string list \<times> (string, reclaim_reason) dict \<Rightarrow> string
    \<Rightarrow> reclaim_error + reclaim_disk \<times> string list \<times> (string, reclaim_reason) dict" where
  "resume_record env now st plan_id = (case st of (d, plans, errors) \<Rightarrow>
     (case dget (dk_records d) plan_id of None \<Rightarrow> Inr (d, plans, errors)
      | Some entries \<Rightarrow> rbind (rfold (resume_entry env now) (pass_start (dk_files d) errors) entries) (\<lambda>s.
          if ps_kept s \<noteq> []
          then Inr (\<lparr>dk_files = ps_files s, dk_records = dset plan_id (ps_kept s) (dk_records d)\<rparr>, plans @ [plan_id], ps_errors s)
          else Inr (\<lparr>dk_files = ps_files s, dk_records = dwithout [plan_id] (dk_records d)\<rparr>, plans, ps_errors s))))"

definition resume_marking_pass :: "reclaim_env \<Rightarrow> string \<Rightarrow> reclaim_disk
    \<Rightarrow> reclaim_error + reclaim_disk \<times> string list \<times> (string, reclaim_reason) dict" where
  "resume_marking_pass env now d = rfold (resume_record env now) (d, [], []) (sort_key (\<lambda>p. p @ ''.json'') (dkeys (dk_records d)))"

section \<open>Deleting\<close>

record apply_state =
  ap_disk :: reclaim_disk
  ap_remaining :: "reclaim_entry list"
  ap_deleted :: "string list"
  ap_errors :: "(string, reclaim_reason) dict"

definition retire :: "string \<Rightarrow> apply_state \<Rightarrow> reclaim_entry list \<Rightarrow> apply_state" where
  "retire plan_id s untouched = (let tail = ap_remaining s @ untouched in
     if tail \<noteq> [] then s\<lparr>ap_disk := (ap_disk s)\<lparr>dk_records := dset plan_id tail (dk_records (ap_disk s))\<rparr>\<rparr> else s)"

definition apply_fail :: "string \<Rightarrow> apply_state \<Rightarrow> reclaim_entry \<Rightarrow> reclaim_reason \<Rightarrow> apply_state" where
  "apply_fail now s e reason = s\<lparr>ap_errors := dset (en_id e) reason (ap_errors s),
     ap_remaining := ap_remaining s @ [note_entry_failure now e reason]\<rparr>"

text \<open>The unlink of one tombstone, and the rest of its iteration.\<close>

definition unlink_tombstone :: "reclaim_env \<Rightarrow> string \<Rightarrow> stat_info \<Rightarrow> reclaim_disk \<Rightarrow> bool \<times> reclaim_disk" where
  "unlink_tombstone env tombstone info d = (case ev_unlink_fails env tombstone info of
     Some left \<Rightarrow> (False, d\<lparr>dk_files := dset tombstone left (dk_files d)\<rparr>)
   | None \<Rightarrow> (True, d\<lparr>dk_files := dwithout [tombstone] (dk_files d)\<rparr>))"

definition apply_entry :: "reclaim_env \<Rightarrow> string \<Rightarrow> string \<Rightarrow> apply_state \<Rightarrow> reclaim_entry \<Rightarrow> reclaim_entry list \<Rightarrow> reclaim_error + apply_state" where
  "apply_entry env now plan_id s e untouched =
     (if en_phase e \<noteq> PHASE_MARKED \<or> en_error e \<noteq> None then Inr (s\<lparr>ap_remaining := ap_remaining s @ [e]\<rparr>)
      else rbind (entry_tombstone_path e) (\<lambda>tombstone. Inr
        (case dget (dk_files (ap_disk s)) tombstone of
           None \<Rightarrow> retire plan_id s untouched
         | Some info \<Rightarrow>
             if en_is_dir e \<noteq> (st_kind info = DirectoryFile) then apply_fail now s e TombstoneChangedKind
             else if \<not> identity_matches e info (en_is_dir e) then apply_fail now s e IdentityMismatch
             else (case unlink_tombstone env tombstone info (ap_disk s) of (gone, d) \<Rightarrow>
               if \<not> gone then apply_fail now (s\<lparr>ap_disk := d\<rparr>) e DeleteFailed
               else retire plan_id (s\<lparr>ap_disk := d, ap_deleted := ap_deleted s @ [en_id e]\<rparr>) untouched))))"

fun apply_entries :: "reclaim_env \<Rightarrow> string \<Rightarrow> string \<Rightarrow> apply_state \<Rightarrow> reclaim_entry list \<Rightarrow> reclaim_error + apply_state" where
  "apply_entries env now plan_id s [] = Inr s"
| "apply_entries env now plan_id s (e # untouched) =
     rbind (apply_entry env now plan_id s e untouched) (\<lambda>s'. apply_entries env now plan_id s' untouched)"

definition apply_reclaim_record :: "reclaim_env \<Rightarrow> string \<Rightarrow> reclaim_disk \<Rightarrow> string
    \<Rightarrow> reclaim_error + reclaim_disk \<times> string list \<times> (string, reclaim_reason) dict" where
  "apply_reclaim_record env now d plan_id = (case dget (dk_records d) plan_id of None \<Rightarrow> Inr (d, [], [])
     | Some entries \<Rightarrow> rbind (apply_entries env now plan_id \<lparr>ap_disk = d, ap_remaining = [], ap_deleted = [], ap_errors = []\<rparr> entries) (\<lambda>s.
         let r = dk_records (ap_disk s) in
         Inr ((ap_disk s)\<lparr>dk_records := (if ap_remaining s \<noteq> [] then dset plan_id (ap_remaining s) r else dwithout [plan_id] r)\<rparr>,
              ap_deleted s, ap_errors s)))"

section \<open>One reclamation\<close>

record reclaim_outcome =
  oc_held :: bool
  oc_plan_ids :: "string list"
  oc_marked :: "string list"
  oc_failed :: "string list"
  oc_skipped :: "string list"
  oc_deleted :: "string list"
  oc_errors :: "(string, reclaim_reason) dict"

definition dupdate :: "('k, 'v) dict \<Rightarrow> ('k, 'v) dict \<Rightarrow> ('k, 'v) dict" where
  "dupdate d new = foldl (\<lambda>d (k, v). dset k v d) d new"

definition apply_next :: "reclaim_env \<Rightarrow> string \<Rightarrow> reclaim_disk \<times> string list \<times> (string, reclaim_reason) dict \<Rightarrow> string
    \<Rightarrow> reclaim_error + reclaim_disk \<times> string list \<times> (string, reclaim_reason) dict" where
  "apply_next env now st plan_id = (case st of (d, deleted, errors) \<Rightarrow>
     rbind (apply_reclaim_record env now d plan_id) (\<lambda>(d', applied, new). Inr (d', deleted @ applied, dupdate errors new)))"

text \<open>\<open>held\<close> says whether the exclusive lock was taken.\<close>

definition reclaim_artifacts :: "bool \<Rightarrow> bool \<Rightarrow> reclaim_env \<Rightarrow> string \<Rightarrow> string \<Rightarrow> reclaim_target list \<Rightarrow> reclaim_disk
    \<Rightarrow> reclaim_error + reclaim_outcome \<times> reclaim_disk" where
  "reclaim_artifacts held resume env now plan_id targets d =
     (if \<not> held then Inr (\<lparr>oc_held = False, oc_plan_ids = [], oc_marked = [], oc_failed = [], oc_skipped = [], oc_deleted = [], oc_errors = []\<rparr>, d)
      else rbind (if resume then resume_marking_pass env now d else Inr (d, [], [])) (\<lambda>(d1, records1, errors1).
        rbind (if targets = [] then Inr (\<lparr>mr_record = False, mr_marked = [], mr_failed = [], mr_skipped = [], mr_reasons = []\<rparr>, d1)
               else mark_reclaim_plan env plan_id targets d1) (\<lambda>(m, d2).
        rbind (rfold (apply_next env now) (d2, [], dupdate errors1 (mr_reasons m)) (records1 @ (if mr_record m then [plan_id] else []))) (\<lambda>(d3, deleted, errors).
        Inr (\<lparr>oc_held = True, oc_plan_ids = (if targets = [] then [] else [plan_id]), oc_marked = mr_marked m, oc_failed = mr_failed m,
              oc_skipped = mr_skipped m, oc_deleted = deleted, oc_errors = errors\<rparr>, d3)))))"

end
