(* ===== verification/Reclaim_Crash.thy ===== *)
theory Reclaim_Crash
  imports Reclaim_Engine
begin

text \<open>
  Crash consistency of the reclaim engine: whatever point of marking, resuming or deleting a worker dies at, the disk and
  the durable record together still say which members go, and a later undisturbed worker removes exactly those.
\<close>

section \<open>A fresh plan\<close>

text \<open>An entry as it was planned, without what the passes write into it.\<close>

definition planned :: "reclaim_entry \<Rightarrow> reclaim_entry" where
  "planned e = e\<lparr>en_phase := PHASE_MARKING, en_error := None, en_first_failed := None, en_failure_count := 0\<rparr>"

definition tombstone_of :: "reclaim_entry \<Rightarrow> string" where
  "tombstone_of e = the (en_tombstone e)"

lemma planned_simps [simp]:
  "en_id (planned e) = en_id e" "en_root_id (planned e) = en_root_id e" "en_tombstone (planned e) = en_tombstone e"
  "en_is_dir (planned e) = en_is_dir e" "tombstone_of (planned e) = tombstone_of e" "en_phase (planned e) = PHASE_MARKING"
  "planned (planned e) = planned e" "entry_tombstone_path (planned e) = entry_tombstone_path e"
  "identity_matches (planned e) info drift = identity_matches e info drift"
  "planned (e\<lparr>en_phase := ph\<rparr>) = planned e" "planned (e\<lparr>en_error := er\<rparr>) = planned e"
  "planned (e\<lparr>en_first_failed := ff\<rparr>) = planned e" "planned (e\<lparr>en_failure_count := n\<rparr>) = planned e"
  "planned (note_entry_failure now e why) = planned e"
  by (simp_all add: planned_def tombstone_of_def entry_tombstone_path_def identity_matches_def note_entry_failure_def split: option.split)

text \<open>The member is where it was planned, no symlink, and the same inode.\<close>

definition movable :: "files \<Rightarrow> reclaim_entry \<Rightarrow> bool" where
  "movable fs e \<longleftrightarrow> (case dget fs (en_id e) of None \<Rightarrow> False
     | Some info \<Rightarrow> st_kind info \<noteq> SymlinkFile \<and> identity_matches e info False)"

text \<open>An entry that goes: movable, like all entries of its group before it.\<close>

definition doomed :: "files \<Rightarrow> reclaim_entry list \<Rightarrow> reclaim_entry set" where
  "doomed fs es = {e. \<exists>before after. filter (\<lambda>x. en_root_id x = en_root_id e) es = before @ e # after
     \<and> movable fs e \<and> (\<forall>x \<in> set before. movable fs x)}"

definition plan_fresh :: "files \<Rightarrow> reclaim_entry list \<Rightarrow> bool" where
  "plan_fresh fs es \<longleftrightarrow> distinct (map en_id es) \<and> distinct (map tombstone_of es) \<and> set (map tombstone_of es) \<inter> set (map en_id es) = {}
     \<and> (\<forall>e \<in> set es. planned e = e \<and> member_path (en_id e) = Inr (en_id e) \<and> entry_tombstone_path e = Inr (tombstone_of e)
          \<and> en_root_id e \<noteq> '''' \<and> dget fs (tombstone_of e) = None
          \<and> (\<forall>info. dget fs (en_id e) = Some info \<and> identity_matches e info False \<longrightarrow> en_is_dir e = (st_kind info = DirectoryFile)))"

lemma movable_planned [simp]: "movable fs (planned e) = movable fs e"
  by (simp add: movable_def split: option.split)

lemma doomed_sub: "doomed fs es \<subseteq> set es"
proof
  fix e assume "e \<in> doomed fs es"
  then obtain before after where "filter (\<lambda>x. en_root_id x = en_root_id e) es = before @ e # after" by (auto simp: doomed_def)
  then have "e \<in> set (filter (\<lambda>x. en_root_id x = en_root_id e) es)" by (metis in_set_conv_decomp)
  then show "e \<in> set es" by simp
qed

lemma doomed_at:
  assumes "distinct (xs @ e # ys)"
  shows "e \<in> doomed fs (xs @ e # ys) \<longleftrightarrow> movable fs e \<and> (\<forall>x \<in> set xs. en_root_id x = en_root_id e \<longrightarrow> movable fs x)"
proof -
  let ?f = "filter (\<lambda>x. en_root_id x = en_root_id e)"
  have split: "?f (xs @ e # ys) = ?f xs @ e # ?f ys" by simp
  have "before = ?f xs" if "?f (xs @ e # ys) = before @ e # after" for before after
  proof -
    have "distinct (before @ e # after)" using assms distinct_filter [of "xs @ e # ys"] unfolding that [symmetric] by blast
    then have "e \<notin> set before" "e \<notin> set after" by simp_all
    moreover have "e \<notin> set (?f xs)" "e \<notin> set (?f ys)" using assms by auto
    ultimately show ?thesis using that split append_Cons_eq_iff [of e "?f xs" "?f ys" before after] by auto
  qed
  then show ?thesis unfolding doomed_def using split by fastforce
qed

text \<open>Grouping keeps the order inside a group.\<close>

lemma group_entries_get:
  "dget_or (foldl (\<lambda>d ie. dset (en_root_id (snd ie)) (dget_or d (en_root_id (snd ie)) [] @ [ie]) d) d ies) g []
     = dget_or d g [] @ filter (\<lambda>ie. en_root_id (snd ie) = g) ies"
  by (induction ies arbitrary: d) (simp_all add: dget_or_dset)

lemma group_entries_wf: "wf_dict d \<Longrightarrow> wf_dict (foldl (\<lambda>d ie. dset (en_root_id (snd ie)) (dget_or d (en_root_id (snd ie)) [] @ [ie]) d) d ies)"
  by (induction ies arbitrary: d) auto

lemma grouped_filter:
  assumes "wf_dict d" and "\<And>g xs x. (g, xs) \<in> set d \<Longrightarrow> x \<in> set xs \<Longrightarrow> key x = g"
  shows "filter (\<lambda>x. key x = g) (concat (map snd d)) = dget_or d g []"
  using assms
proof (induction d)
  case Nil
  then show ?case by (simp add: dget_or_def)
next
  case (Cons p d)
  obtain k xs where p: "p = (k, xs)" by (metis surj_pair)
  have wf: "wf_dict d" "k \<notin> fst ` set d" using Cons.prems(1) p by (simp_all add: wf_dict_def)
  have IH: "filter (\<lambda>x. key x = g) (concat (map snd d)) = dget_or d g []"
    by (rule Cons.IH [OF wf(1)]) (use Cons.prems(2) in auto)
  have xs: "filter (\<lambda>x. key x = g) xs = (if k = g then xs else [])" using Cons.prems(2) [of k xs] p by (auto simp: filter_id_conv filter_empty_conv)
  have "k = g \<Longrightarrow> dget_or d g [] = []" using wf(2) by (simp add: dget_or_def map_of_eq_None_iff [symmetric])
  then show ?case using IH xs p by (auto simp: dget_or_def)
qed

lemma mark_order_group: "filter (\<lambda>ie. en_root_id (snd ie) = g) (mark_order es) = filter (\<lambda>ie. en_root_id (snd ie) = g) (enumerate 0 es)"
proof -
  let ?d = "group_entries (enumerate 0 es)"
  have wf: "wf_dict ?d" unfolding group_entries_def by (rule group_entries_wf) simp
  have get: "dget_or ?d k [] = filter (\<lambda>ie. en_root_id (snd ie) = k) (enumerate 0 es)" for k
    unfolding group_entries_def group_entries_get by (simp add: dget_or_def)
  have "en_root_id (snd x) = k" if "(k, xs) \<in> set ?d" "x \<in> set xs" for k xs x
  proof -
    have "dget ?d k = Some xs" using dget_wf_iff [OF wf] that(1) by blast
    then have "xs = dget_or ?d k []" by (simp add: dget_or_def)
    then show ?thesis using that(2) get by simp
  qed
  then have "filter (\<lambda>ie. en_root_id (snd ie) = g) (concat (map snd ?d)) = dget_or ?d g []"
    by (rule grouped_filter [OF wf, where key = "\<lambda>ie. en_root_id (snd ie)"])
  then show ?thesis by (simp only: mark_order_def get)
qed

lemma mark_order_set: "set (mark_order es) = set (enumerate 0 es)"
proof -
  have "x \<in> set (mark_order es) \<longleftrightarrow> x \<in> set (filter (\<lambda>ie. en_root_id (snd ie) = en_root_id (snd x)) (mark_order es))" for x by simp
  also have "\<dots> x \<longleftrightarrow> x \<in> set (enumerate 0 es)" for x unfolding mark_order_group by simp
  finally show ?thesis by blast
qed

lemma mark_order_groups:
  "filter (\<lambda>x. en_root_id x = g) (map snd (mark_order es)) = filter (\<lambda>x. en_root_id x = g) es"
proof -
  have "filter (\<lambda>x. en_root_id x = g) (map snd xs) = map snd (filter (\<lambda>ie. en_root_id (snd ie) = g) xs)" for xs :: "(nat \<times> reclaim_entry) list"
    by (induction xs) auto
  from this [of "mark_order es"] this [of "enumerate 0 es"] show ?thesis by (simp add: mark_order_group)
qed

lemma mark_order_distinct:
  assumes "distinct es"
  shows "distinct (map snd (mark_order es))"
proof -
  have "count (mset (map snd (mark_order es))) x = count (mset es) x" for x
  proof -
    have c: "count (mset ys) x = count (mset (filter (\<lambda>y. en_root_id y = en_root_id x) ys)) x" for ys
      by (simp add: mset_filter)
    show ?thesis by (rule trans [OF c trans [OF _ c [symmetric]]]) (simp only: mark_order_groups)
  qed
  then have "mset (map snd (mark_order es)) = mset es" by (intro multiset_eqI)
  then show ?thesis using assms mset_eq_imp_distinct_iff by blast
qed

lemma doomed_mark_order: "doomed fs (map snd (mark_order es)) = doomed fs es"
  by (simp only: doomed_def mark_order_groups)

section \<open>Where a member can be\<close>

definition same_inode :: "stat_info \<Rightarrow> stat_info \<Rightarrow> bool" where
  "same_inode a b \<longleftrightarrow> st_kind a = st_kind b \<and> st_dev a = st_dev b \<and> st_ino a = st_ino b
     \<and> (st_kind a \<noteq> DirectoryFile \<longrightarrow> st_size a = st_size b \<and> st_mtime_ns a = st_mtime_ns b)"

lemma same_inode_refl [simp]: "same_inode a a"
  by (simp add: same_inode_def)

lemma same_inode_trans: "same_inode a b \<Longrightarrow> same_inode b c \<Longrightarrow> same_inode a c"
  by (auto simp: same_inode_def)

text \<open>The members of \<open>R\<close> are at their tombstones, those of \<open>U\<close> are gone, and nothing else has changed.\<close>

definition files_at :: "files \<Rightarrow> reclaim_entry set \<Rightarrow> reclaim_entry set \<Rightarrow> files \<Rightarrow> bool" where
  "files_at f0 R U f \<longleftrightarrow> (\<forall>e \<in> R \<union> U. dget f (en_id e) = None)
     \<and> (\<forall>e \<in> R. \<exists>info0 info. dget f0 (en_id e) = Some info0 \<and> dget f (tombstone_of e) = Some info \<and> same_inode info0 info)
     \<and> (\<forall>p. p \<notin> en_id ` (R \<union> U) \<longrightarrow> p \<notin> tombstone_of ` R \<longrightarrow> dget f p = dget f0 p)"

lemma fresh_inj:
  assumes "plan_fresh f0 es" and "x \<in> set es" and "y \<in> set es"
  shows "en_id x = en_id y \<longleftrightarrow> x = y" and "tombstone_of x = tombstone_of y \<longleftrightarrow> x = y" and "tombstone_of x \<noteq> en_id y"
  using assms by (auto simp: plan_fresh_def distinct_map dest: inj_onD)

lemma fresh_entry:
  assumes "plan_fresh f0 es" and "e \<in> set es"
  shows "planned e = e" and "member_path (en_id e) = Inr (en_id e)" and "entry_tombstone_path e = Inr (tombstone_of e)"
    and "en_root_id e \<noteq> ''''" and "dget f0 (tombstone_of e) = None"
    and "dget f0 (en_id e) = Some info \<Longrightarrow> identity_matches e info False \<Longrightarrow> en_is_dir e = (st_kind info = DirectoryFile)"
    and "distinct es"
  using assms by (simp_all add: plan_fresh_def distinct_map)

lemma files_at_waiting:
  assumes "plan_fresh f0 es" and "files_at f0 R U f" and "R \<union> U \<subseteq> set es" and "e \<in> set es" and "e \<notin> R" and "e \<notin> U"
  shows "dget f (en_id e) = dget f0 (en_id e)" and "dget f (tombstone_of e) = None"
proof -
  note inj = fresh_inj [OF assms(1)]
  have frame: "p \<notin> en_id ` (R \<union> U) \<Longrightarrow> p \<notin> tombstone_of ` R \<Longrightarrow> dget f p = dget f0 p" for p
    using assms(2) unfolding files_at_def by blast
  have "en_id e \<notin> en_id ` (R \<union> U)" using inj(1) assms(3-6) by (auto 4 4)
  moreover have "en_id e \<noteq> tombstone_of x" if "x \<in> R" for x using inj(3) [of x e] that assms(3,4) by (metis UnCI subsetD)
  ultimately have "en_id e \<notin> en_id ` (R \<union> U)" "en_id e \<notin> tombstone_of ` R" by blast+
  then show "dget f (en_id e) = dget f0 (en_id e)" by (rule frame)
  have "tombstone_of e \<notin> en_id ` (R \<union> U)" "tombstone_of e \<notin> tombstone_of ` R" using inj(2,3) assms(3-6) by (auto 4 4)
  then show "dget f (tombstone_of e) = None" using frame fresh_entry(5) [OF assms(1,4)] by simp
qed

lemma files_at_renamed:
  assumes "files_at f0 R U f" and "e \<in> R"
  shows "dget f (en_id e) = None"
    and "\<exists>info0 info. dget f0 (en_id e) = Some info0 \<and> dget f (tombstone_of e) = Some info \<and> same_inode info0 info"
  using assms unfolding files_at_def by blast+

lemma files_at_gone:
  assumes "plan_fresh f0 es" and "files_at f0 R U f" and "R \<union> U \<subseteq> set es" and "e \<in> U" and "R \<inter> U = {}"
  shows "dget f (en_id e) = None" and "dget f (tombstone_of e) = None"
proof -
  show "dget f (en_id e) = None" using assms(2,4) unfolding files_at_def by blast
  have e: "e \<in> set es" "e \<notin> R" using assms(3-5) by auto
  have "tombstone_of e \<notin> en_id ` (R \<union> U)" "tombstone_of e \<notin> tombstone_of ` R"
    using fresh_inj(2,3) [OF assms(1)] assms(3) e by (auto 4 4)
  then show "dget f (tombstone_of e) = None"
    using assms(2) fresh_entry(5) [OF assms(1) e(1)] unfolding files_at_def by metis
qed

lemma files_at_rename:
  assumes "plan_fresh f0 es" and "files_at f0 R U f" and "R \<union> U \<subseteq> set es" and "e \<in> set es" and "e \<notin> R" and "e \<notin> U"
    and "dget f (en_id e) = Some info"
  shows "files_at f0 (insert e R) U (rename_file f (en_id e) (tombstone_of e) info)"
proof -
  note inj = fresh_inj [OF assms(1)]
  have look: "dget (rename_file f (en_id e) (tombstone_of e) info) p
      = (if p = tombstone_of e then Some info else if p = en_id e then None else dget f p)" for p
    by (simp add: rename_file_def dget_dset dget_dwithout)
  have ne: "en_id x \<noteq> tombstone_of e" "tombstone_of x \<noteq> en_id e" if "x \<in> set es" for x using inj(3) that assms(4) by metis+
  have old: "dget f0 (en_id e) = Some info" using files_at_waiting(1) [OF assms(1-6)] assms(7) by simp
  have 1: "dget (rename_file f (en_id e) (tombstone_of e) info) (en_id x) = None" if "x \<in> insert e R \<union> U" for x
  proof (cases "x = e")
    case False
    then have x: "x \<in> R \<union> U" using that by blast
    then have "x \<in> set es" using assms(3) by blast
    with x show ?thesis using assms(2) ne(1) unfolding look files_at_def by simp
  qed (use ne(1) assms(4) in \<open>simp add: look\<close>)
  have 2: "\<exists>info0 info'. dget f0 (en_id x) = Some info0 \<and> dget (rename_file f (en_id e) (tombstone_of e) info) (tombstone_of x) = Some info'
      \<and> same_inode info0 info'" if "x \<in> insert e R" for x
  proof (cases "x = e")
    case False
    then have x: "x \<in> R" "x \<in> set es" using that assms(3) by auto
    then have "tombstone_of x \<noteq> tombstone_of e" "tombstone_of x \<noteq> en_id e" using inj(2) ne(2) assms(4) False by blast+
    then show ?thesis using files_at_renamed(2) [OF assms(2) x(1)] by (simp add: look)
  qed (simp add: look old)
  have 3: "dget (rename_file f (en_id e) (tombstone_of e) info) p = dget f0 p"
    if p: "p \<notin> en_id ` (insert e R \<union> U)" "p \<notin> tombstone_of ` insert e R" for p
  proof -
    have "p \<notin> en_id ` (R \<union> U)" "p \<notin> tombstone_of ` R" "p \<noteq> tombstone_of e" "p \<noteq> en_id e" using p by auto
    then show ?thesis using assms(2) unfolding look files_at_def by simp
  qed
  show ?thesis unfolding files_at_def by (intro conjI ballI allI impI) (rule 1 2 3; assumption)+
qed

lemma files_at_unlink:
  assumes "plan_fresh f0 es" and "files_at f0 R U f" and "R \<union> U \<subseteq> set es" and "e \<in> R"
  shows "files_at f0 (R - {e}) (insert e U) (dwithout [tombstone_of e] f)"
proof -
  have e: "e \<in> set es" using assms(3,4) by blast
  have look: "dget (dwithout [tombstone_of e] f) p = (if p = tombstone_of e then None else dget f p)" for p
    by (simp add: dget_dwithout)
  have "R - {e} \<union> insert e U = R \<union> U" using assms(4) by blast
  moreover have "dget (dwithout [tombstone_of e] f) (en_id x) = None" if "x \<in> R \<union> U" for x
    using assms(2) that unfolding look files_at_def by simp
  moreover have "\<exists>info0 info. dget f0 (en_id x) = Some info0 \<and> dget (dwithout [tombstone_of e] f) (tombstone_of x) = Some info \<and> same_inode info0 info"
    if x: "x \<in> R - {e}" for x
  proof -
    have "tombstone_of x \<noteq> tombstone_of e" using fresh_inj(2) [OF assms(1) _ e] x assms(3) by blast
    then show ?thesis using files_at_renamed(2) [OF assms(2)] x by (simp add: look)
  qed
  moreover have "dget (dwithout [tombstone_of e] f) p = dget f0 p" if p: "p \<notin> en_id ` (R \<union> U)" "p \<notin> tombstone_of ` (R - {e})" for p
  proof (cases "p = tombstone_of e")
    case True
    then show ?thesis using fresh_entry(5) [OF assms(1) e] by (simp add: look)
  next
    case False
    then have "p \<notin> tombstone_of ` R" using p(2) by auto
    then show ?thesis using assms(2) p(1) False unfolding look files_at_def by simp
  qed
  ultimately show ?thesis unfolding files_at_def by simp
qed

lemma files_at_left:
  assumes "plan_fresh f0 es" and "files_at f0 R U f" and "R \<union> U \<subseteq> set es" and "e \<in> R"
    and "dget f (tombstone_of e) = Some info" and "same_inode info left"
  shows "files_at f0 R U (dset (tombstone_of e) left f)"
proof -
  have e: "e \<in> set es" using assms(3,4) by blast
  have "dget (dset (tombstone_of e) left f) (en_id x) = None" if "x \<in> R \<union> U" for x
    using assms(2,3) that fresh_inj(3) [OF assms(1) e, of x] unfolding files_at_def by (auto simp: dget_dset)
  moreover have "\<exists>info0 info. dget f0 (en_id x) = Some info0 \<and> dget (dset (tombstone_of e) left f) (tombstone_of x) = Some info \<and> same_inode info0 info"
    if x: "x \<in> R" for x
  proof (cases "tombstone_of x = tombstone_of e")
    case True
    then have "x = e" using fresh_inj(2) [OF assms(1) _ e] x assms(3) by blast
    then show ?thesis using files_at_renamed(2) [OF assms(2,4)] assms(5,6) same_inode_trans by (auto simp: dget_dset)
  next
    case False
    then show ?thesis using files_at_renamed(2) [OF assms(2) x] by (simp add: dget_dset)
  qed
  moreover have "dget (dset (tombstone_of e) left f) p = dget f0 p" if "p \<notin> en_id ` (R \<union> U)" "p \<notin> tombstone_of ` R" for p
    using that assms(2,4) unfolding files_at_def by (auto simp: dget_dset)
  ultimately show ?thesis unfolding files_at_def by blast
qed

section \<open>Marking\<close>

text \<open>After a part of the entries was worked on: the renamed ones are doomed, a group with an entry that cannot be moved is
  abandoned, and without failing renames nothing else is.\<close>

definition mark_inv :: "files \<Rightarrow> reclaim_entry list \<Rightarrow> bool \<Rightarrow> (nat \<times> reclaim_entry) list \<Rightarrow> mark_state \<Rightarrow> reclaim_entry set \<Rightarrow> bool" where
  "mark_inv f0 es smooth pre s R \<longleftrightarrow> R \<subseteq> doomed f0 es \<and> R \<subseteq> snd ` set pre \<and> files_at f0 R {} (mk_files s)
     \<and> (\<forall>x \<in> snd ` set pre. \<not> movable f0 x \<longrightarrow> en_root_id x \<in> set (dkeys (mk_abandoned s)))
     \<and> mk_done s = map fst (filter (\<lambda>ie. snd ie \<in> R) pre)
     \<and> (smooth \<longrightarrow> R = doomed f0 es \<inter> snd ` set pre
          \<and> (\<forall>g \<in> set (dkeys (mk_abandoned s)). \<exists>x \<in> snd ` set pre. en_root_id x = g \<and> \<not> movable f0 x))"

lemma mark_inv_stop:
  assumes "mark_inv f0 es smooth pre s R" and "ie = (i, e)" and "e \<notin> snd ` set pre"
    and "smooth \<Longrightarrow> \<not> movable f0 e" and "e \<in> doomed f0 es \<Longrightarrow> movable f0 e"
  shows "mark_inv f0 es smooth (pre @ [ie]) (mark_stop s e why fails) R"
proof -
  have "e \<notin> R" using assms(1,3) unfolding mark_inv_def by blast
  moreover have "smooth \<Longrightarrow> doomed f0 es \<inter> snd ` set (pre @ [ie]) = doomed f0 es \<inter> snd ` set pre" using assms(2,4,5) by auto
  ultimately show ?thesis
    using assms(1,4) unfolding mark_inv_def assms(2) by (auto simp: mark_stop_def dkeys_dset)
qed

lemma mark_order_mem: "mark_order es = pre @ (i, e) # post \<Longrightarrow> e \<in> set es"
proof -
  assume "mark_order es = pre @ (i, e) # post"
  then have "(i, e) \<in> set (enumerate 0 es)" unfolding mark_order_set [of es, symmetric] by simp
  then show ?thesis by (auto simp: in_set_enumerate_eq)
qed

lemma mark_entry_inv:
  assumes fresh: "plan_fresh f0 es" and inv: "mark_inv f0 es smooth pre s R" and L: "mark_order es = pre @ (i, e) # post"
    and smooth: "smooth \<Longrightarrow> \<not> ev_rename_fails env (en_id e)"
  shows "\<exists>s' R'. mark_entry env s (i, e) = Inr s' \<and> mark_inv f0 es smooth (pre @ [(i, e)]) s' R'"
proof -
  have e: "e \<in> set es" by (rule mark_order_mem [OF L])
  note F = fresh_entry [OF fresh e]
  have d: "distinct (map snd pre @ e # map snd post)" using mark_order_distinct [OF F(7)] L by simp
  then have new: "e \<notin> snd ` set pre" by auto
  have doom: "e \<in> doomed f0 es \<longleftrightarrow> movable f0 e \<and> (\<forall>x \<in> snd ` set pre. en_root_id x = en_root_id e \<longrightarrow> movable f0 x)"
    using doomed_at [OF d, of f0] doomed_mark_order [of f0 es] L by simp
  have R: "R \<subseteq> doomed f0 es" "R \<subseteq> snd ` set pre" "files_at f0 R {} (mk_files s)"
    "\<forall>x \<in> snd ` set pre. \<not> movable f0 x \<longrightarrow> en_root_id x \<in> set (dkeys (mk_abandoned s))" using inv by (simp_all add: mark_inv_def)
  have sub: "R \<union> {} \<subseteq> set es" using R(1) doomed_sub by blast
  have out: "e \<notin> R" using R(2) new by blast
  have src: "dget (mk_files s) (en_id e) = dget f0 (en_id e)" and tomb: "dget (mk_files s) (tombstone_of e) = None"
    using files_at_waiting [OF fresh R(3) sub e out] by simp_all
  note stop = mark_inv_stop [OF inv refl new]
  show ?thesis
  proof (cases "dget (mk_abandoned s) (en_root_id e)")
    case (Some stopped)
    let ?s = "s\<lparr>mk_reasons := dset (en_id e) (GroupAbandoned stopped) (mk_reasons s), mk_skipped := mk_skipped s @ [en_id e]\<rparr>"
    have key: "en_root_id e \<in> set (dkeys (mk_abandoned s))" using Some dget_None_iff [of "mk_abandoned s"] by force
    then have "smooth \<Longrightarrow> e \<notin> doomed f0 es" using inv doom unfolding mark_inv_def by metis
    then have "mark_inv f0 es smooth (pre @ [(i, e)]) ?s R" using inv key out unfolding mark_inv_def by auto
    then show ?thesis using Some by (auto simp: mark_entry_def)
  next
    case None
    then have open_group: "en_root_id e \<notin> set (dkeys (mk_abandoned s))" by (simp add: dget_None_iff)
    show ?thesis
    proof (cases "dget f0 (en_id e)")
      case gone: None
      then have nm: "\<not> movable f0 e" by (simp add: movable_def)
      then show ?thesis using stop [of i MissingSource False] doom None gone src F(2,3) by (auto simp: mark_entry_def)
    next
      case (Some info)
      show ?thesis
      proof (cases "st_kind info = SymlinkFile \<or> \<not> identity_matches e info False")
        case True
        then have nm: "\<not> movable f0 e" using Some by (auto simp: movable_def)
        show ?thesis
          using stop [of i SymlinkMember False, OF nm] stop [of i IdentityMismatch False, OF nm] doom nm None Some src F(2,3) True
          by (auto simp: mark_entry_def)
      next
        case False
        then have m: "movable f0 e" using Some by (simp add: movable_def)
        show ?thesis
        proof (cases "ev_rename_fails env (en_id e)")
          case True
          then show ?thesis using stop [of i RenameFailed True] smooth m None Some src tomb F(2,3) False by (auto simp: mark_entry_def)
        next
          case ok: False
          let ?s = "s\<lparr>mk_files := rename_file (mk_files s) (en_id e) (tombstone_of e) info, mk_done := mk_done s @ [i], mk_marked := mk_marked s @ [en_id e]\<rparr>"
          have D: "e \<in> doomed f0 es" using doom m R(4) open_group by metis
          have "files_at f0 (insert e R) {} (mk_files ?s)"
            using files_at_rename [OF fresh R(3) sub e out _, of info] src Some by simp
          moreover have "filter (\<lambda>ie. snd ie \<in> insert e R) pre = filter (\<lambda>ie. snd ie \<in> R) pre" using new by (intro filter_cong) auto
          ultimately have "mark_inv f0 es smooth (pre @ [(i, e)]) ?s (insert e R)"
            using inv D m unfolding mark_inv_def by auto
          then show ?thesis using None Some src tomb F(2,3) False ok by (auto simp: mark_entry_def)
        qed
      qed
    qed
  qed
qed

lemma mark_entries_inv:
  assumes fresh: "plan_fresh f0 es" and smooth: "\<And>e. smooth \<Longrightarrow> e \<in> set es \<Longrightarrow> \<not> ev_rename_fails env (en_id e)"
  shows "mark_order es = pre @ post \<Longrightarrow> \<exists>s R. rfold (mark_entry env) (mark_start f0) pre = Inr s \<and> mark_inv f0 es smooth pre s R"
proof (induction pre arbitrary: post rule: rev_induct)
  case Nil
  have "mark_inv f0 es smooth [] (mark_start f0) {}" by (simp add: mark_inv_def mark_start_def files_at_def dkeys_def)
  then show ?case by auto
next
  case (snoc ie pre)
  obtain i e where ie: "ie = (i, e)" by (metis surj_pair)
  have L: "mark_order es = pre @ (i, e) # post" using snoc.prems ie by simp
  obtain s R where s: "rfold (mark_entry env) (mark_start f0) pre = Inr s" "mark_inv f0 es smooth pre s R" using snoc.IH [OF L] by blast
  from mark_entry_inv [OF fresh s(2) L smooth [OF _ mark_order_mem [OF L]]] s(1) show ?case unfolding ie by (auto simp: rfold_append)
qed

section \<open>What a record must say\<close>

text \<open>The durable entries are planned ones in order; no doomed member that is still there is forgotten; the members that stay
  are listed all or not at all; an entry that is not at its tombstone is at \<open>marking\<close>, and one that is gone is not.\<close>

definition listed :: "files \<Rightarrow> reclaim_entry list \<Rightarrow> reclaim_entry set \<Rightarrow> reclaim_entry set \<Rightarrow> reclaim_entry list \<Rightarrow> bool" where
  "listed f0 es R U ents \<longleftrightarrow> (\<exists>P. map planned ents = filter P es)
     \<and> doomed f0 es \<subseteq> U \<union> planned ` set ents
     \<and> (set es - doomed f0 es \<subseteq> planned ` set ents \<or> planned ` set ents \<subseteq> doomed f0 es)
     \<and> (\<forall>e \<in> set ents. (planned e \<notin> R \<union> U \<longrightarrow> en_phase e = PHASE_MARKING) \<and> (planned e \<in> U \<longrightarrow> en_phase e \<noteq> PHASE_MARKING))"

definition recoverable :: "files \<Rightarrow> reclaim_entry list \<Rightarrow> files \<Rightarrow> reclaim_entry list \<Rightarrow> bool" where
  "recoverable f0 es f ents \<longleftrightarrow> (\<exists>R U. R \<inter> U = {} \<and> R \<union> U \<subseteq> doomed f0 es \<and> files_at f0 R U f \<and> listed f0 es R U ents)"

lemma listed_distinct: "distinct es \<Longrightarrow> listed f0 es R U ents \<Longrightarrow> distinct (map planned ents)"
  unfolding listed_def by (metis distinct_filter)

lemma listed_sub: "listed f0 es R U ents \<Longrightarrow> planned ` set ents \<subseteq> set es"
  unfolding listed_def by (metis filter_is_subset list.set_map)

lemma filter_split:
  "filter P es = as @ e # bs \<Longrightarrow> \<exists>xs ys. es = xs @ e # ys \<and> filter P xs = as \<and> P e"
proof (induction es arbitrary: as)
  case (Cons x es)
  show ?case
  proof (cases "P x \<and> as = []")
    case True
    then show ?thesis using Cons.prems by (intro exI [of _ "[]"] exI [of _ es]) simp
  next
    case False
    then have "filter P es = (if P x then tl as else as) @ e # bs" "P x \<Longrightarrow> as = x # tl as" using Cons.prems by (cases as; auto)+
    then obtain xs ys where "es = xs @ e # ys" "filter P xs = (if P x then tl as else as)" "P e" using Cons.IH by blast
    then show ?thesis using \<open>P x \<Longrightarrow> as = x # tl as\<close> by (intro exI [of _ "x # xs"] exI [of _ ys]) auto
  qed
qed simp

text \<open>An entry of the record that can be moved and stays has an entry before it that cannot.\<close>

lemma listed_before:
  assumes "distinct es" and "listed f0 es R U (pre @ e # post)"
  shows "planned e \<in> doomed f0 es \<Longrightarrow> movable f0 e \<and> (\<forall>x \<in> set pre. en_root_id x = en_root_id e \<longrightarrow> movable f0 x)"
    and "movable f0 e \<Longrightarrow> (\<forall>x \<in> set pre. en_root_id x = en_root_id e \<longrightarrow> movable f0 x) \<Longrightarrow> planned e \<in> doomed f0 es"
proof -
  obtain P where P: "map planned (pre @ e # post) = filter P es" using assms(2) unfolding listed_def by blast
  then have "filter P es = map planned pre @ planned e # map planned post" by simp
  then obtain xs ys where es: "es = xs @ planned e # ys" and pre: "map planned pre = filter P xs" using filter_split by metis
  have d: "distinct (xs @ planned e # ys)" using assms(1) es by simp
  have doom: "planned e \<in> doomed f0 es \<longleftrightarrow> movable f0 e \<and> (\<forall>x \<in> set xs. en_root_id x = en_root_id e \<longrightarrow> movable f0 x)"
    using doomed_at [OF d, of f0] es by simp
  have mem: "planned x \<in> set xs" if "x \<in> set pre" for x using that pre by (metis filter_is_subset image_eqI list.set_map subsetD)
  show "movable f0 e \<and> (\<forall>x \<in> set pre. en_root_id x = en_root_id e \<longrightarrow> movable f0 x)" if "planned e \<in> doomed f0 es"
    using that doom mem by (metis movable_planned planned_simps(2))
  show "planned e \<in> doomed f0 es" if m: "movable f0 e" and before: "\<forall>x \<in> set pre. en_root_id x = en_root_id e \<longrightarrow> movable f0 x"
  proof (rule ccontr)
    assume no: "planned e \<notin> doomed f0 es"
    then obtain x where x: "x \<in> set xs" "en_root_id x = en_root_id e" "\<not> movable f0 x" using doom m by blast
    have "x \<notin> doomed f0 es" using x(3) by (auto simp: doomed_def)
    moreover have "planned e \<in> planned ` set (pre @ e # post)" by simp
    ultimately have "x \<in> planned ` set (pre @ e # post)" using assms(2) no x(1) es unfolding listed_def by auto
    then have "x \<in> set (filter P es)" using P by (metis list.set_map)
    then have "x \<in> set (filter P xs)" using x(1) by simp
    then have "x \<in> planned ` set pre" using pre by (metis list.set_map)
    then show False using before x(2,3) by auto
  qed
qed

section \<open>Resuming\<close>

definition pass_inv :: "files \<Rightarrow> reclaim_entry list \<Rightarrow> bool \<Rightarrow> reclaim_entry set \<Rightarrow> reclaim_entry set \<Rightarrow> reclaim_entry list \<Rightarrow> pass_state
    \<Rightarrow> reclaim_entry set \<Rightarrow> bool" where
  "pass_inv f0 es smooth R U pre s R' \<longleftrightarrow> R \<subseteq> R' \<and> R' \<inter> U = {} \<and> R' \<union> U \<subseteq> doomed f0 es \<and> R' \<subseteq> R \<union> planned ` set pre
     \<and> files_at f0 R' U (ps_files s) \<and> map planned (ps_kept s) = filter (\<lambda>e. e \<notin> U) (map planned pre)
     \<and> (\<forall>e \<in> set (ps_kept s). planned e \<notin> R' \<longrightarrow> en_phase e = PHASE_MARKING)
     \<and> (\<forall>x \<in> set pre. \<not> movable f0 x \<longrightarrow> en_root_id x \<in> set (dkeys (ps_abandoned s)))
     \<and> (smooth \<longrightarrow> doomed f0 es \<inter> planned ` set pre \<subseteq> R' \<union> U
          \<and> (\<forall>e \<in> set (ps_kept s). planned e \<in> doomed f0 es \<longrightarrow> en_phase e = PHASE_MARKED \<and> en_error e = None)
          \<and> (\<forall>g \<in> set (dkeys (ps_abandoned s)). \<exists>x \<in> set pre. en_root_id x = g \<and> \<not> movable f0 x))"

text \<open>Keeping an entry with a failure, and keeping it marked.\<close>

lemma pass_inv_fail:
  assumes "pass_inv f0 es smooth R U pre s R'" and "en_root_id e \<noteq> ''''" and "planned e \<notin> U" and "planned e \<notin> R' \<Longrightarrow> en_phase e = PHASE_MARKING"
    and "smooth \<Longrightarrow> planned e \<notin> doomed f0 es"
    and "\<not> movable f0 e \<Longrightarrow> stops \<or> en_root_id e \<in> set (dkeys (ps_abandoned s))" and "smooth \<Longrightarrow> stops \<Longrightarrow> \<not> movable f0 e"
  shows "pass_inv f0 es smooth R U (pre @ [e]) (pass_fail now s e why stops) R'"
proof -
  have "en_phase (note_entry_failure now e why) = en_phase e" by (simp add: note_entry_failure_def)
  then show ?thesis using assms unfolding pass_inv_def by (auto simp: pass_fail_def dkeys_dset)
qed

lemma pass_inv_keep:
  assumes "pass_inv f0 es smooth R U pre s R'" and "planned e \<in> doomed f0 es" and "planned e \<notin> U" and "movable f0 e"
    and "files_at f0 (insert (planned e) R') U f" and "planned e' = planned e" and "en_phase e' = PHASE_MARKED" and "en_error e' = None"
  shows "pass_inv f0 es smooth R U (pre @ [e]) (s\<lparr>ps_files := f, ps_kept := ps_kept s @ [e']\<rparr>) (insert (planned e) R')"
  using assms unfolding pass_inv_def by auto

lemma resume_entry_inv:
  assumes fresh: "plan_fresh f0 es" and base: "R \<inter> U = {}" "R \<union> U \<subseteq> doomed f0 es" "listed f0 es R U (pre @ e # post)"
    and inv: "pass_inv f0 es smooth R U pre s R'" and smooth: "smooth \<Longrightarrow> \<not> ev_rename_fails env (en_id e)"
  shows "\<exists>s' R''. resume_entry env now s e = Inr s' \<and> pass_inv f0 es smooth R U (pre @ [e]) s' R''"
proof -
  let ?e = "planned e"
  have mem: "?e \<in> set es" using listed_sub [OF base(3)] by auto
  note F = fresh_entry [OF fresh mem]
  note before = listed_before [OF F(7) base(3)]
  have paths: "member_path (en_id e) = Inr (en_id e)" "entry_tombstone_path e = Inr (tombstone_of e)" "en_root_id e \<noteq> ''''" using F(2-4) by simp_all
  have new: "?e \<notin> planned ` set pre" using listed_distinct [OF F(7) base(3)] by auto
  have phase: "?e \<notin> R \<union> U \<Longrightarrow> en_phase e = PHASE_MARKING" "?e \<in> U \<Longrightarrow> en_phase e \<noteq> PHASE_MARKING" using base(3) unfolding listed_def by auto
  have I: "R \<subseteq> R'" "R' \<inter> U = {}" "R' \<union> U \<subseteq> doomed f0 es" "R' \<subseteq> R \<union> planned ` set pre" "files_at f0 R' U (ps_files s)"
    "\<forall>x \<in> set pre. \<not> movable f0 x \<longrightarrow> en_root_id x \<in> set (dkeys (ps_abandoned s))" using inv by (simp_all add: pass_inv_def)
  have sub: "R' \<union> U \<subseteq> set es" using I(3) doomed_sub by blast
  have R'R: "?e \<in> R' \<longleftrightarrow> ?e \<in> R" using I(1,4) new by blast
  have spared: "?e \<notin> doomed f0 es" if "smooth" "en_root_id e \<in> set (dkeys (ps_abandoned s))"
    using inv that before(1) unfolding pass_inv_def by metis
  note fail = pass_inv_fail [OF inv paths(3)]
  consider (gone) "?e \<in> U" | (there) "?e \<in> R'" "?e \<notin> U" | (waiting) "?e \<notin> R'" "?e \<notin> U" by blast
  then show ?thesis
  proof cases
    case gone
    have "dget (ps_files s) (en_id e) = None" "dget (ps_files s) (tombstone_of e) = None"
      using files_at_gone [OF fresh I(5) sub gone I(2)] by simp_all
    then have "resume_entry env now s e = Inr s" using phase(2) [OF gone] paths by (simp add: resume_entry_def resume_action_def)
    moreover have "pass_inv f0 es smooth R U (pre @ [e]) s R'"
    proof -
      have "movable f0 e" using before(1) gone I(3) by blast
      then show ?thesis using inv gone unfolding pass_inv_def by auto
    qed
    ultimately show ?thesis by blast
  next
    case there
    have D: "?e \<in> doomed f0 es" and m: "movable f0 e" using before(1) there I(3) by blast+
    obtain info where tomb: "dget (ps_files s) (en_id e) = None" "dget (ps_files s) (tombstone_of e) = Some info"
      using files_at_renamed [OF I(5) there(1)] by auto
    have same: "insert ?e R' = R'" using there(1) by blast
    note keep = pass_inv_keep [OF inv D there(2) m, of "ps_files s", unfolded same, OF I(5)]
    show ?thesis
    proof (cases "en_phase e = PHASE_MARKING")
      case True
      show ?thesis
      proof (cases "en_root_id e \<in> set (dkeys (ps_abandoned s))")
        case ab: True
        have "pass_inv f0 es smooth R U (pre @ [e]) (pass_fail now s e (GroupAbandoned (the (dget (ps_abandoned s) (en_root_id e)))) False) R'"
          by (rule fail) (use there True ab spared m in auto)
        then show ?thesis using True ab tomb paths by (auto simp: resume_entry_def resume_action_def Let_def)
      next
        case False
        then have "resume_entry env now s e = Inr (pass_marked s e)" using True tomb paths by (simp add: resume_entry_def resume_action_def Let_def)
        moreover have "pass_inv f0 es smooth R U (pre @ [e]) (pass_marked s e) R'"
          using keep [of "e\<lparr>en_phase := PHASE_MARKED, en_error := None, en_first_failed := None, en_failure_count := 0\<rparr>"] by (simp add: pass_marked_def)
        ultimately show ?thesis by blast
      qed
    next
      case False
      then have "resume_entry env now s e = Inr (s\<lparr>ps_kept := ps_kept s @ [e\<lparr>en_phase := PHASE_MARKED, en_error := None\<rparr>]\<rparr>)"
        using tomb paths by (simp add: resume_entry_def resume_action_def Let_def)
      then show ?thesis using keep [of "e\<lparr>en_phase := PHASE_MARKED, en_error := None\<rparr>"] by auto
    qed
  next
    case waiting
    have ph: "en_phase e = PHASE_MARKING" using phase(1) waiting R'R by blast
    have look: "dget (ps_files s) (en_id e) = dget f0 (en_id e)" "dget (ps_files s) (tombstone_of e) = None"
      using files_at_waiting [OF fresh I(5) sub mem waiting] by simp_all
    show ?thesis
    proof (cases "en_root_id e \<in> set (dkeys (ps_abandoned s))")
      case ab: True
      have inv': "pass_inv f0 es smooth R U (pre @ [e]) (pass_fail now s e (GroupAbandoned (the (dget (ps_abandoned s) (en_root_id e)))) False) R'"
        by (rule fail) (use waiting ab spared ph in auto)
      have "resume_action (en_phase e) (dget (ps_files s) (en_id e) \<noteq> None) (dget (ps_files s) (tombstone_of e) \<noteq> None) \<in> {FailClosed, ResumeRename}"
        using ph look by (simp add: resume_action_def)
      then have "resume_entry env now s e = Inr (pass_fail now s e (GroupAbandoned (the (dget (ps_abandoned s) (en_root_id e)))) False)"
        using ab paths by (auto simp: resume_entry_def Let_def)
      then show ?thesis using inv' by blast
    next
      case open_group: False
      show ?thesis
      proof (cases "dget f0 (en_id e)")
        case None
        then have nm: "\<not> movable f0 e" by (simp add: movable_def)
        have "pass_inv f0 es smooth R U (pre @ [e]) (pass_fail now s e FailClosedState True) R'"
          by (rule fail) (use waiting ph nm before(1) in auto)
        then show ?thesis using None look ph open_group paths by (auto simp: resume_entry_def resume_action_def Let_def)
      next
        case (Some info)
        show ?thesis
        proof (cases "movable f0 e")
          case False
          then have bad: "st_kind info = SymlinkFile \<or> \<not> identity_matches e info False" using Some by (simp add: movable_def)
          have "pass_inv f0 es smooth R U (pre @ [e]) (pass_fail now s e why True) R'" for why
            by (rule fail) (use waiting ph False before(1) in auto)
          then show ?thesis using bad Some look ph open_group paths by (auto simp: resume_entry_def resume_action_def Let_def)
        next
          case m: True
          then have good: "st_kind info \<noteq> SymlinkFile" "identity_matches e info False" using Some by (auto simp: movable_def)
          show ?thesis
          proof (cases "ev_rename_fails env (en_id e)")
            case True
            have "pass_inv f0 es smooth R U (pre @ [e]) (pass_fail now s e RenameFailed True) R'"
              by (rule fail) (use waiting ph smooth True m in auto)
            then show ?thesis using good Some look ph open_group paths True by (auto simp: resume_entry_def resume_action_def Let_def)
          next
            case False
            have D: "?e \<in> doomed f0 es" using before(2) m I(6) open_group by metis
            let ?f = "rename_file (ps_files s) (en_id e) (tombstone_of e) info"
            have "files_at f0 (insert ?e R') U ?f" using files_at_rename [OF fresh I(5) sub mem waiting] look(1) Some by simp
            from pass_inv_keep [OF inv D waiting(2) m this, of "e\<lparr>en_phase := PHASE_MARKED, en_error := None, en_first_failed := None, en_failure_count := 0\<rparr>"]
            have "pass_inv f0 es smooth R U (pre @ [e]) (pass_marked (s\<lparr>ps_files := ?f\<rparr>) e) (insert ?e R')" by (simp add: pass_marked_def)
            then show ?thesis using good Some look ph open_group paths False by (auto simp: resume_entry_def resume_action_def Let_def)
          qed
        qed
      qed
    qed
  qed
qed

lemma resume_entries_inv:
  assumes fresh: "plan_fresh f0 es" and base: "R \<inter> U = {}" "R \<union> U \<subseteq> doomed f0 es" "files_at f0 R U f"
    and smooth: "\<And>i. smooth \<Longrightarrow> \<not> ev_rename_fails env i"
  shows "listed f0 es R U (pre @ post) \<Longrightarrow> \<exists>s R'. rfold (resume_entry env now) (pass_start f errs) pre = Inr s \<and> pass_inv f0 es smooth R U pre s R'"
proof (induction pre arbitrary: post rule: rev_induct)
  case Nil
  have "pass_inv f0 es smooth R U [] (pass_start f errs) R" using base by (simp add: pass_inv_def pass_start_def dkeys_def)
  then show ?case by auto
next
  case (snoc e pre)
  have L: "listed f0 es R U (pre @ e # post)" using snoc.prems by simp
  obtain s R' where s: "rfold (resume_entry env now) (pass_start f errs) pre = Inr s" "pass_inv f0 es smooth R U pre s R'" using snoc.IH [OF L] by blast
  obtain s' R'' where "resume_entry env now s e = Inr s'" "pass_inv f0 es smooth R U (pre @ [e]) s' R''"
    using resume_entry_inv [OF fresh base(1,2) L s(2) smooth, of now] by blast
  then show ?case using s(1) by (auto simp: rfold_append)
qed

text \<open>Dying in the middle of the pass, and completing it.\<close>

lemma pass_crash:
  assumes "listed f0 es R U ents" and "pass_inv f0 es smooth R U pre s R'"
  shows "recoverable f0 es (ps_files s) ents"
proof -
  have I: "R \<subseteq> R'" "R' \<inter> U = {}" "R' \<union> U \<subseteq> doomed f0 es" "files_at f0 R' U (ps_files s)" using assms(2) by (simp_all add: pass_inv_def)
  have "listed f0 es R' U ents" using assms(1) I(1) unfolding listed_def by (auto simp: subset_iff)
  then show ?thesis using I(2-4) unfolding recoverable_def by blast
qed

lemma pass_complete:
  assumes "distinct es" and "R \<inter> U = {}" and "listed f0 es R U ents" and "pass_inv f0 es smooth R U ents s R'"
  shows "listed f0 es R' U (ps_kept s)"
proof -
  have kept: "map planned (ps_kept s) = filter (\<lambda>e. e \<notin> U) (map planned ents)" using assms(4) by (simp add: pass_inv_def)
  from arg_cong [OF kept, of set] have set: "planned ` set (ps_kept s) = planned ` set ents - U" by auto
  obtain P where P: "map planned ents = filter P es" using assms(3) unfolding listed_def by blast
  have U: "U \<subseteq> doomed f0 es" using assms(4) by (simp add: pass_inv_def)
  have "map planned (ps_kept s) = filter (\<lambda>e. P e \<and> e \<notin> U) es" using kept P by (simp add: conj_commute)
  then have 1: "\<exists>P. map planned (ps_kept s) = filter P es" by blast
  have 2: "doomed f0 es \<subseteq> U \<union> planned ` set (ps_kept s)" using assms(3) set unfolding listed_def by blast
  have 3: "set es - doomed f0 es \<subseteq> planned ` set (ps_kept s) \<or> planned ` set (ps_kept s) \<subseteq> doomed f0 es"
  proof -
    have "set es - doomed f0 es \<subseteq> planned ` set ents \<or> planned ` set ents \<subseteq> doomed f0 es" using assms(3) by (simp add: listed_def)
    then show ?thesis unfolding set using U by (elim disjE) blast+
  qed
  have 4: "en_phase e = PHASE_MARKING" if "e \<in> set (ps_kept s)" "planned e \<notin> R' \<union> U" for e
    using assms(4) that unfolding pass_inv_def by blast
  have 5: "planned e \<notin> U" if "e \<in> set (ps_kept s)" for e using set that by blast
  show ?thesis unfolding listed_def using 1 2 3 4 5 by blast
qed

section \<open>Deleting\<close>

lemma listed_drop:
  assumes "distinct es" and "listed f0 es R U (xs @ e # ys)" and "planned e \<in> U" and "U \<subseteq> doomed f0 es"
  shows "listed f0 es R U (xs @ ys)"
proof -
  obtain P where P: "map planned (xs @ e # ys) = filter P es" using assms(2) unfolding listed_def by blast
  have d: "distinct (map planned (xs @ e # ys))" by (rule listed_distinct [OF assms(1,2)])
  have "map planned (xs @ ys) = filter (\<lambda>x. x \<noteq> planned e) (map planned (xs @ e # ys))"
  proof -
    have "filter (\<lambda>x. x \<noteq> planned e) (map planned zs) = map planned zs" if "planned e \<notin> planned ` set zs" for zs
    proof (intro filter_True ballI)
      fix y assume "y \<in> set (map planned zs)"
      then show "y \<noteq> planned e" using that by (metis list.set_map)
    qed
    then show ?thesis using d by (simp del: filter_map)
  qed
  then have 1: "map planned (xs @ ys) = filter (\<lambda>x. P x \<and> x \<noteq> planned e) es" unfolding P by (simp add: conj_commute)
  have set: "planned ` set (xs @ e # ys) = insert (planned e) (planned ` set (xs @ ys))" by auto
  have 2: "doomed f0 es \<subseteq> U \<union> planned ` set (xs @ ys)" using assms(2,3) unfolding listed_def set by blast
  have "set es - doomed f0 es \<subseteq> insert (planned e) (planned ` set (xs @ ys)) \<or> insert (planned e) (planned ` set (xs @ ys)) \<subseteq> doomed f0 es"
    using assms(2) unfolding listed_def set by blast
  then have 3: "set es - doomed f0 es \<subseteq> planned ` set (xs @ ys) \<or> planned ` set (xs @ ys) \<subseteq> doomed f0 es"
    using assms(3,4) by (elim disjE) blast+
  show ?thesis unfolding listed_def using 1 2 3 assms(2) [unfolded listed_def] by auto
qed

lemma listed_move:
  assumes "distinct es" and "listed f0 es R U (xs @ e # ys)" and "planned e \<in> R" and "en_phase e \<noteq> PHASE_MARKING"
  shows "listed f0 es (R - {planned e}) (insert (planned e) U) (xs @ e # ys)"
proof -
  have d: "distinct (map planned (xs @ e # ys))" by (rule listed_distinct [OF assms(1,2)])
  have "R - {planned e} \<union> insert (planned e) U = R \<union> U" using assms(3) by blast
  moreover have "en_phase x \<noteq> PHASE_MARKING" if "x \<in> set (xs @ e # ys)" "planned x \<in> insert (planned e) U" for x
  proof (cases "planned x = planned e")
    case True
    then have "x = e" using d that(1) by auto (metis image_eqI)+
    then show ?thesis using assms(4) by simp
  next
    case False
    then show ?thesis using that assms(2) unfolding listed_def by blast
  qed
  ultimately show ?thesis using assms(2) unfolding listed_def by auto
qed

lemma listed_replace:
  assumes "listed f0 es R U (xs @ e # ys)" and "planned e' = planned e" and "en_phase e' = en_phase e"
  shows "listed f0 es R U (xs @ e' # ys)"
proof -
  have "map planned (xs @ e' # ys) = map planned (xs @ e # ys)" using assms(2) by simp
  moreover have "planned ` set (xs @ e' # ys) = planned ` set (xs @ e # ys)" using assms(2) by simp
  ultimately show ?thesis using assms unfolding listed_def by auto
qed

definition apply_inv :: "files \<Rightarrow> reclaim_entry list \<Rightarrow> string \<Rightarrow> bool \<Rightarrow> reclaim_entry list \<Rightarrow> apply_state
    \<Rightarrow> reclaim_entry set \<Rightarrow> reclaim_entry set \<Rightarrow> bool" where
  "apply_inv f0 es p smooth post s R U \<longleftrightarrow> R \<inter> U = {} \<and> R \<union> U \<subseteq> doomed f0 es \<and> files_at f0 R U (dk_files (ap_disk s))
     \<and> listed f0 es R U (ap_remaining s @ post)
     \<and> (\<exists>dpre. dk_records (ap_disk s) = [(p, (dpre @ post))] \<and> listed f0 es R U (dpre @ post))
     \<and> (smooth \<longrightarrow> planned ` set (ap_remaining s) \<inter> doomed f0 es = {})"

definition env_ok :: "reclaim_env \<Rightarrow> bool" where
  "env_ok env \<longleftrightarrow> (\<forall>t info left. ev_unlink_fails env t info = Some left \<longrightarrow> same_inode info left)"

lemma retire_inv:
  assumes "listed f0 es R U (ap_remaining s @ post)" and "R \<inter> U = {}" and "R \<union> U \<subseteq> doomed f0 es" and "files_at f0 R U (dk_files (ap_disk s))"
    and "dk_records (ap_disk s) = [(p, (dpre @ post))]" and "listed f0 es R U (dpre @ post)"
    and "smooth \<Longrightarrow> planned ` set (ap_remaining s) \<inter> doomed f0 es = {}"
  shows "apply_inv f0 es p smooth post (retire p s post) R U"
proof (cases "ap_remaining s @ post = []")
  case True
  then have "retire p s post = s" unfolding retire_def Let_def by (simp only: simp_thms if_False)
  then show ?thesis using assms unfolding apply_inv_def by auto
next
  case False
  then have r: "retire p s post = s\<lparr>ap_disk := (ap_disk s)\<lparr>dk_records := dset p (ap_remaining s @ post) (dk_records (ap_disk s))\<rparr>\<rparr>"
    unfolding retire_def Let_def by (simp only: simp_thms if_True)
  show ?thesis unfolding apply_inv_def r using assms by (auto intro!: exI [of _ "ap_remaining s"])
qed

lemma apply_fail_inv:
  assumes "apply_inv f0 es p smooth (e # post) s R U" and "\<not> smooth \<or> planned e \<notin> doomed f0 es"
  shows "apply_inv f0 es p smooth post (apply_fail now s e why) R U"
    and "apply_inv f0 es p smooth post (s\<lparr>ap_remaining := ap_remaining s @ [e]\<rparr>) R U"
proof -
  obtain dpre where d: "dk_records (ap_disk s) = [(p, ((dpre @ [e]) @ post))]" "listed f0 es R U ((dpre @ [e]) @ post)"
    using assms(1) unfolding apply_inv_def by auto
  have "listed f0 es R U (ap_remaining s @ e # post)" using assms(1) by (simp add: apply_inv_def)
  then have "listed f0 es R U (ap_remaining s @ note_entry_failure now e why # post)"
    by (rule listed_replace) (simp_all add: note_entry_failure_def planned_def)
  then show "apply_inv f0 es p smooth post (apply_fail now s e why) R U"
    using assms d unfolding apply_inv_def apply_fail_def by (auto intro!: exI [of _ "dpre @ [e]"])
  show "apply_inv f0 es p smooth post (s\<lparr>ap_remaining := ap_remaining s @ [e]\<rparr>) R U"
    using assms d unfolding apply_inv_def by (auto intro!: exI [of _ "dpre @ [e]"])
qed

lemma phases_differ [simp]: "PHASE_MARKED \<noteq> PHASE_MARKING" "PHASE_MARKING \<noteq> PHASE_MARKED"
  by (simp_all add: PHASE_MARKED_def PHASE_MARKING_def)

text \<open>A tombstone passes the checks that precede its unlink.\<close>

lemma tombstone_checks:
  assumes "plan_fresh f0 es" and "planned e \<in> set es" and "movable f0 e"
    and "dget f0 (en_id e) = Some info0" and "same_inode info0 info"
  shows "en_is_dir e = (st_kind info = DirectoryFile)" and "identity_matches e info (en_is_dir e)"
proof -
  have 1: "identity_matches e info0 False" using assms(3,4) by (simp add: movable_def)
  have "en_is_dir e = (st_kind info0 = DirectoryFile)" using fresh_entry(6) [OF assms(1,2)] assms(4) 1 by simp
  then show dir: "en_is_dir e = (st_kind info = DirectoryFile)" using assms(5) by (simp add: same_inode_def)
  show "identity_matches e info (en_is_dir e)"
    using 1 assms(5) unfolding dir by (auto simp: identity_matches_def same_inode_def split: if_splits)
qed

lemma apply_gone_inv:
  assumes "distinct es" and "apply_inv f0 es p smooth (e # post) s R U" and "planned e \<in> U"
  shows "apply_inv f0 es p smooth post (retire p s post) R U"
proof -
  obtain dpre where d: "dk_records (ap_disk s) = [(p, ((dpre @ [e]) @ post))]" "listed f0 es R U ((dpre @ [e]) @ post)"
    using assms(2) unfolding apply_inv_def by auto
  have I: "R \<inter> U = {}" "R \<union> U \<subseteq> doomed f0 es" "files_at f0 R U (dk_files (ap_disk s))" "listed f0 es R U (ap_remaining s @ e # post)"
    "smooth \<Longrightarrow> planned ` set (ap_remaining s) \<inter> doomed f0 es = {}" using assms(2) by (simp_all add: apply_inv_def)
  have "listed f0 es R U (ap_remaining s @ post)" by (rule listed_drop [OF assms(1) I(4) assms(3)]) (use I(2) in blast)
  then show ?thesis by (rule retire_inv [OF _ I(1,2,3) d]) (use I(5) assms(3) in auto)
qed

lemma apply_unlinked_inv:
  assumes "plan_fresh f0 es" and "apply_inv f0 es p smooth (e # post) s R U" and "planned e \<in> R" and "en_phase e \<noteq> PHASE_MARKING"
    and "dk_files d = dwithout [tombstone_of e] (dk_files (ap_disk s))" and "dk_records d = dk_records (ap_disk s)"
  shows "apply_inv f0 es p smooth (e # post) (s\<lparr>ap_disk := d, ap_deleted := deleted\<rparr>) (R - {planned e}) (insert (planned e) U)"
proof -
  have I: "R \<inter> U = {}" "R \<union> U \<subseteq> doomed f0 es" "files_at f0 R U (dk_files (ap_disk s))" "listed f0 es R U (ap_remaining s @ e # post)"
    "smooth \<Longrightarrow> planned ` set (ap_remaining s) \<inter> doomed f0 es = {}" using assms(2) by (simp_all add: apply_inv_def)
  have mem: "planned e \<in> set es" using I(2) assms(3) doomed_sub by blast
  obtain dpre where d: "dk_records (ap_disk s) = [(p, (dpre @ e # post))]" "listed f0 es R U (dpre @ e # post)"
    using assms(2) unfolding apply_inv_def by auto
  have sub: "R \<union> U \<subseteq> set es" using I(2) doomed_sub by blast
  note move = listed_move [OF fresh_entry(7) [OF assms(1) mem] _ assms(3,4)]
  have "files_at f0 (R - {planned e}) (insert (planned e) U) (dk_files d)"
    using files_at_unlink [OF assms(1) I(3) sub assms(3)] assms(5) by simp
  moreover have "(R - {planned e}) \<inter> insert (planned e) U = {}" "R - {planned e} \<union> insert (planned e) U \<subseteq> doomed f0 es"
    using I(1,2) assms(3) by blast+
  ultimately show ?thesis unfolding apply_inv_def using move [OF I(4)] move [OF d(2)] d(1) I(5) assms(6) by auto
qed

lemma apply_entry_inv:
  assumes fresh: "plan_fresh f0 es" and inv: "apply_inv f0 es p smooth (e # post) s R U" and env: "env_ok env"
    and smooth: "smooth \<Longrightarrow> ev_unlink_fails env (tombstone_of e) = (\<lambda>_. None)"
      "smooth \<Longrightarrow> planned e \<in> doomed f0 es \<Longrightarrow> en_phase e = PHASE_MARKED \<and> en_error e = None"
  shows "\<exists>s' R' U'. apply_entry env now p s e post = Inr s' \<and> apply_inv f0 es p smooth post s' R' U'"
proof (cases "en_phase e \<noteq> PHASE_MARKED \<or> en_error e \<noteq> None")
  case True
  then have "\<not> smooth \<or> planned e \<notin> doomed f0 es"
    by (cases "smooth \<and> planned e \<in> doomed f0 es") (use smooth(2) in auto)
  from apply_fail_inv(2) [OF inv this] show ?thesis using True unfolding apply_entry_def by auto
next
  case False
  then have marked: "en_phase e = PHASE_MARKED" "en_error e = None" by simp_all
  have L: "listed f0 es R U (ap_remaining s @ e # post)" and F: "files_at f0 R U (dk_files (ap_disk s))"
    and RU: "R \<inter> U = {}" "R \<union> U \<subseteq> doomed f0 es" using inv by (simp_all add: apply_inv_def)
  have mem: "planned e \<in> set es" using listed_sub [OF L] by auto
  have dist: "distinct es" and path: "entry_tombstone_path e = Inr (tombstone_of e)"
    using fresh_entry(3,7) [OF fresh mem] by simp_all
  have sub: "R \<union> U \<subseteq> set es" using RU(2) doomed_sub by blast
  have "planned e \<in> R \<union> U" using L marked(1) unfolding listed_def by auto
  then consider (gone) "planned e \<in> U" | (there) "planned e \<in> R" by blast
  then show ?thesis
  proof cases
    case gone
    have "dget (dk_files (ap_disk s)) (tombstone_of e) = None" using files_at_gone(2) [OF fresh F sub gone RU(1)] by simp
    then show ?thesis using apply_gone_inv [OF dist inv gone] marked path by (auto simp: apply_entry_def)
  next
    case there
    obtain info0 info where info: "dget f0 (en_id e) = Some info0" "dget (dk_files (ap_disk s)) (tombstone_of e) = Some info" "same_inode info0 info"
      using files_at_renamed(2) [OF F there] by auto
    have m: "movable f0 e" using listed_before(1) [OF dist L] there RU(2) by blast
    note checks = tombstone_checks [OF fresh mem m info(1,3)]
    show ?thesis
    proof (cases "ev_unlink_fails env (tombstone_of e) info")
      case (Some left)
      let ?d = "(ap_disk s)\<lparr>dk_files := dset (tombstone_of e) left (dk_files (ap_disk s))\<rparr>"
      have "same_inode info left" using env Some by (simp add: env_ok_def)
      then have "files_at f0 R U (dk_files ?d)" using files_at_left [OF fresh F sub there] info(2) by simp
      then have "apply_inv f0 es p smooth (e # post) (s\<lparr>ap_disk := ?d\<rparr>) R U" using inv unfolding apply_inv_def by simp
      moreover have "\<not> smooth" using smooth(1) Some by auto
      ultimately have "apply_inv f0 es p smooth post (apply_fail now (s\<lparr>ap_disk := ?d\<rparr>) e DeleteFailed) R U"
        using apply_fail_inv(1) by blast
      then show ?thesis using marked path info(2) checks Some by (auto simp: apply_entry_def unlink_tombstone_def)
    next
      case None
      let ?d = "(ap_disk s)\<lparr>dk_files := dwithout [tombstone_of e] (dk_files (ap_disk s))\<rparr>"
      have "apply_inv f0 es p smooth (e # post) (s\<lparr>ap_disk := ?d, ap_deleted := ap_deleted s @ [en_id e]\<rparr>) (R - {planned e}) (insert (planned e) U)"
        by (rule apply_unlinked_inv [OF fresh inv there]) (simp_all add: marked(1))
      from apply_gone_inv [OF dist this] have "apply_inv f0 es p smooth post
          (retire p (s\<lparr>ap_disk := ?d, ap_deleted := ap_deleted s @ [en_id e]\<rparr>) post) (R - {planned e}) (insert (planned e) U)" by simp
      then show ?thesis using marked path info(2) checks None by (auto simp: apply_entry_def unlink_tombstone_def)
    qed
  qed
qed

end
