(* ===== verification/Reclaim_Paths.thy ===== *)
theory Reclaim_Paths
  imports Reclaim_Crash
begin

text \<open>
  From the planner's targets to a fresh plan: the tombstone of a member sits beside it under a name of its own, every guard
  of the engine accepts it, and the entries of targets that were read from the disk satisfy \<open>plan_fresh\<close>.
\<close>

section \<open>Components of a path\<close>

lemma split_on_no_sep: "y \<in> set (split_on c xs) \<Longrightarrow> c \<notin> set y"
  by (induction xs arbitrary: y) (auto split: if_splits list.splits)

lemma join_split: "join [c] (split_on c xs) = xs"
proof (induction xs)
  case (Cons x xs)
  then show ?case by (cases "split_on c xs" rule: remdups_adj.cases) (auto split: list.splits)
qed simp

lemma split_of_join:
  assumes "xs \<noteq> []" and "\<And>x. x \<in> set xs \<Longrightarrow> c \<notin> set x"
  shows "split_on c (join [c] xs) = xs"
proof -
  have "concat (map (split_on c) ys) = ys" if "\<And>x. x \<in> set ys \<Longrightarrow> c \<notin> set x" for ys
    using that by (induction ys) (simp_all add: split_no_sep)
  then show ?thesis using assms by (simp add: split_join)
qed

definition plain :: "string \<Rightarrow> bool" where
  "plain c \<longleftrightarrow> c \<noteq> '''' \<and> c \<noteq> ''.'' \<and> c \<noteq> ''..'' \<and> CHR ''/'' \<notin> set c"

lemma norm_plain: "\<forall>c \<in> set ps. plain c \<Longrightarrow> foldl norm_step acc ps = acc @ ps"
  by (induction ps arbitrary: acc) (simp_all add: norm_step_def plain_def)

text \<open>Normalising leaves leading \<open>..\<close> components and then ordinary ones.\<close>

lemma norm_shape:
  assumes "\<And>c. c \<in> set ps \<Longrightarrow> CHR ''/'' \<notin> set c"
  shows "(\<exists>n qs. acc = replicate n ''..'' @ qs \<and> (\<forall>c \<in> set qs. plain c)) \<Longrightarrow>
    \<exists>n qs. foldl norm_step acc ps = replicate n ''..'' @ qs \<and> (\<forall>c \<in> set qs. plain c)"
  using assms
proof (induction ps arbitrary: acc)
  case (Cons c ps)
  obtain n qs where acc: "acc = replicate n ''..'' @ qs" "\<forall>c \<in> set qs. plain c" using Cons.prems(1) by blast
  have sep: "CHR ''/'' \<notin> set c" using Cons.prems(2) by simp
  have "\<exists>n qs. norm_step acc c = replicate n ''..'' @ qs \<and> (\<forall>c \<in> set qs. plain c)"
  proof (cases "c = '''' \<or> c = ''.''")
    case True
    then show ?thesis using acc by (auto simp: norm_step_def)
  next
    case False
    show ?thesis
    proof (cases "c = ''..''")
      case up: True
      show ?thesis
      proof (cases qs rule: rev_cases)
        case Nil
        have "norm_step acc c = replicate (Suc n) ''..'' @ []"
          using up acc(1) Nil by (cases n) (simp_all add: norm_step_def replicate_append_same)
        then show ?thesis by (metis empty_iff list.set(1))
      next
        case (snoc rs r)
        then have "norm_step acc c = replicate n ''..'' @ rs" using up acc by (simp add: norm_step_def plain_def butlast_append)
        then show ?thesis using acc(2) snoc by auto
      qed
    next
      case down: False
      then have "norm_step acc c = replicate n ''..'' @ (qs @ [c])" using False acc(1) by (simp add: norm_step_def)
      moreover have "\<forall>x \<in> set (qs @ [c]). plain x" using acc(2) False down sep by (simp add: plain_def)
      ultimately show ?thesis by blast
    qed
  qed
  then have "\<exists>n qs. foldl norm_step (norm_step acc c) ps = replicate n ''..'' @ qs \<and> (\<forall>c \<in> set qs. plain c)"
    by (rule Cons.IH) (use Cons.prems(2) in simp)
  then show ?case by simp
qed simp

text \<open>A member id in normal form that stays inside the directory has ordinary components, and the other way round.\<close>

lemma parts_plain:
  assumes "member_path i = Inr i" and "i \<noteq> ''.''"
  shows "\<forall>c \<in> set (path_parts i). plain c"
proof -
  let ?comps = "foldl norm_step [] (path_parts i)"
  have sep: "CHR ''/'' \<notin> set c" if "c \<in> set (path_parts i)" for c using that split_on_no_sep by (simp add: path_parts_def)
  have "\<exists>n qs. ([] :: string list) = replicate n ''..'' @ qs \<and> (\<forall>c \<in> set qs. plain c)" by (intro exI [of _ 0] exI [of _ "[]"]) simp
  then obtain n qs where c: "?comps = replicate n ''..'' @ qs" "\<forall>c \<in> set qs. plain c" using norm_shape [OF sep] by blast
  have norm: "normpath i = i" "\<not> (i = ''..'' \<or> take 3 i = ''../'')" using assms(1) by (auto simp: member_path_def Let_def split: if_splits)
  then have ne: "?comps \<noteq> []" and i: "i = join ''/'' ?comps" using assms(2) by (auto simp: normpath_def Let_def split: if_splits)
  have "CHR ''/'' \<notin> set x" if "x \<in> set ?comps" for x
  proof -
    have "x = ''..'' \<or> plain x" using that c(2) unfolding c(1) by (auto split: if_split_asm)
    then show ?thesis by (elim disjE) (simp_all add: plain_def)
  qed
  then have "split_on CHR ''/'' (join ''/'' ?comps) = ?comps" by (rule split_of_join [OF ne])
  then have parts: "path_parts i = ?comps" unfolding i [symmetric] by (simp only: path_parts_def)
  have "n = 0"
  proof (cases n)
    case (Suc m)
    then obtain rest where "?comps = ''..'' # rest" using c(1) by simp
    then have "i = ''..'' \<or> take 3 i = ''../''" using i by (cases rest) auto
    then show ?thesis using norm(2) by blast
  qed
  then show ?thesis using c parts by simp
qed

lemma split_dots: "split_on CHR ''/'' ''..'' = [''..'']"
  by simp

lemma plain_member_path:
  assumes "ps \<noteq> []" and "\<forall>c \<in> set ps. plain c"
  shows "member_path (join ''/'' ps) = Inr (join ''/'' ps)" and "path_parts (join ''/'' ps) = ps"
proof -
  show parts: "path_parts (join ''/'' ps) = ps"
    unfolding path_parts_def by (rule split_of_join [OF assms(1)]) (use assms(2) in \<open>auto simp: plain_def\<close>)
  have norm: "normpath (join ''/'' ps) = join ''/'' ps" using assms norm_plain [OF assms(2), of "[]"] by (simp add: normpath_def parts)
  obtain c rest where ps: "ps = c # rest" using assms(1) by (cases ps) auto
  have c: "plain c" using assms(2) ps by simp
  then obtain x xs where x: "c = x # xs" "x \<noteq> CHR ''/''" by (cases c) (auto simp: plain_def)
  have first: "hd (path_parts (join ''/'' ps)) \<noteq> ''..''" using c ps parts by (simp add: plain_def)
  have "join ''/'' ps \<noteq> ''..''" using first by (auto simp: path_parts_def)
  moreover have "take 3 (join ''/'' ps) \<noteq> ''../''"
  proof
    assume "take 3 (join ''/'' ps) = ''../''"
    then have "join ''/'' ps = ''..'' @ CHR ''/'' # drop 3 (join ''/'' ps)" using append_take_drop_id [of 3 "join ''/'' ps"] by simp
    then have "path_parts (join ''/'' ps) = [''..''] @ path_parts (drop 3 (join ''/'' ps))"
      unfolding path_parts_def by (metis split_on_append split_dots)
    then show False using first by simp
  qed
  moreover have "join ''/'' ps \<noteq> ''''" "hd (join ''/'' ps) \<noteq> CHR ''/''" using ps x by (cases rest; simp)+
  ultimately show "member_path (join ''/'' ps) = Inr (join ''/'' ps)" using norm by (simp add: member_path_def)
qed

section \<open>Tombstones\<close>

lemma path_parts_nonempty [simp]: "path_parts p \<noteq> []"
  by (simp add: path_parts_def)

lemma tombstone_parts:
  assumes "member_path i = Inr i" and "i \<noteq> ''.''" and "CHR ''/'' \<notin> set plan"
  shows "path_parts (tombstone_path i plan) = butlast (path_parts i) @ [TOMBSTONE_PREFIX @ plan @ ''-'' @ last (path_parts i)]"
    and "member_path (tombstone_path i plan) = Inr (tombstone_path i plan)"
proof -
  let ?name = "TOMBSTONE_PREFIX @ plan @ ''-'' @ last (path_parts i)"
  have parts: "\<forall>c \<in> set (path_parts i). plain c" by (rule parts_plain [OF assms(1,2)])
  then have "plain (last (path_parts i))" by simp
  then have "CHR ''/'' \<notin> set (last (path_parts i))" by (simp add: plain_def)
  then have "plain ?name" using assms(3) by (simp add: plain_def TOMBSTONE_PREFIX_def)
  then have "\<forall>c \<in> set (butlast (path_parts i) @ [?name]). plain c" using parts by (metis Un_iff in_set_butlastD set_append set_ConsD list.set(1) empty_iff)
  then show "path_parts (tombstone_path i plan) = butlast (path_parts i) @ [?name]"
    and "member_path (tombstone_path i plan) = Inr (tombstone_path i plan)"
    unfolding tombstone_path_def using plain_member_path [of "butlast (path_parts i) @ [?name]"] by simp_all
qed

lemma tombstone_inj:
  assumes "member_path i = Inr i" "i \<noteq> ''.''" "member_path j = Inr j" "j \<noteq> ''.''" "CHR ''/'' \<notin> set plan"
    and "tombstone_path i plan = tombstone_path j plan"
  shows "i = j"
proof -
  have "butlast (path_parts i) @ [TOMBSTONE_PREFIX @ plan @ ''-'' @ last (path_parts i)]
      = butlast (path_parts j) @ [TOMBSTONE_PREFIX @ plan @ ''-'' @ last (path_parts j)]"
    using tombstone_parts(1) [OF assms(1,2,5)] tombstone_parts(1) [OF assms(3,4,5)] assms(6) by simp
  then have "butlast (path_parts i) @ [last (path_parts i)] = butlast (path_parts j) @ [last (path_parts j)]" by simp
  then have "path_parts i = path_parts j" by (simp only: append_butlast_last_id [OF path_parts_nonempty])
  then show "i = j" unfolding path_parts_def by (metis join_split)
qed

definition prefixed :: "string \<Rightarrow> bool" where
  "prefixed i \<longleftrightarrow> take (length TOMBSTONE_PREFIX) (last (path_parts i)) = TOMBSTONE_PREFIX"

lemma entry_of_target:
  assumes "entry_for plan t = Inr e" and "member_path (rt_id t) = Inr (rt_id t)" and "rt_id t \<noteq> ''.''" and "CHR ''/'' \<notin> set plan"
  shows "en_id e = rt_id t" and "tombstone_of e = tombstone_path (rt_id t) plan" and "entry_tombstone_path e = Inr (tombstone_of e)"
    and "prefixed (tombstone_of e)" and "planned e = e" and "en_root_id e = group_id t" and "en_root_id e \<noteq> ''''"
    and "identity_matches e info False \<longleftrightarrow> st_dev info = rt_device t \<and> st_ino info = rt_inode t \<and> st_size info = rt_size t \<and> st_mtime_ns info = rt_mtime_ns t"
    and "en_is_dir e = rt_is_dir t"
proof -
  have e: "e = \<lparr>en_id = rt_id t, en_root_id = group_id t, en_tombstone = Some (tombstone_path (rt_id t) plan), en_phase = PHASE_MARKING,
      en_is_dir = rt_is_dir t, en_device = rt_device t, en_inode = rt_inode t, en_size = rt_size t,
      en_mtime_ns = rt_mtime_ns t, en_error = None, en_first_failed = None, en_failure_count = 0\<rparr>"
    using assms(1,2) by (simp add: entry_for_def)
  show "en_id e = rt_id t" "tombstone_of e = tombstone_path (rt_id t) plan" "planned e = e" "en_root_id e = group_id t" "en_is_dir e = rt_is_dir t"
    by (simp_all add: e tombstone_of_def planned_def)
  have "rt_id t \<noteq> ''''" using assms(2) by (auto simp: member_path_def)
  then show "en_root_id e \<noteq> ''''" by (simp add: e group_id_def)
  note tomb = tombstone_parts [OF assms(2-4)]
  show pre: "prefixed (tombstone_of e)" by (simp add: prefixed_def e tombstone_of_def tomb(1))
  show "entry_tombstone_path e = Inr (tombstone_of e)"
    using pre tomb assms(2) by (simp add: entry_tombstone_path_def e tombstone_of_def prefixed_def)
  show "identity_matches e info False \<longleftrightarrow> st_dev info = rt_device t \<and> st_ino info = rt_inode t \<and> st_size info = rt_size t \<and> st_mtime_ns info = rt_mtime_ns t"
    by (auto simp: identity_matches_def e)
qed

lemma rmap_all2: "rmap f xs = Inr ys \<Longrightarrow> list_all2 (\<lambda>x y. f x = Inr y) xs ys"
  by (induction xs arbitrary: ys) (auto simp: rbind_def split: sum.splits)

text \<open>A target that fits the disk it is marked on: its id is in normal form and names no tombstone, its tombstone is free, and
  if the inode it was read from is still there, it is still a directory or not.\<close>

definition fits :: "string \<Rightarrow> files \<Rightarrow> reclaim_target \<Rightarrow> bool" where
  "fits plan fs t \<longleftrightarrow> member_path (rt_id t) = Inr (rt_id t) \<and> rt_id t \<noteq> ''.'' \<and> \<not> prefixed (rt_id t)
     \<and> dget fs (tombstone_path (rt_id t) plan) = None
     \<and> (case dget fs (rt_id t) of None \<Rightarrow> True
        | Some info \<Rightarrow> st_dev info = rt_device t \<and> st_ino info = rt_inode t \<and> st_size info = rt_size t \<and> st_mtime_ns info = rt_mtime_ns t
            \<longrightarrow> rt_is_dir t = (st_kind info = DirectoryFile))"

text \<open>A target that was just read fits.\<close>

lemma observed_fits:
  assumes "stat_reclaim_target fs i g = Inr (Some t)" and "member_path i = Inr i" and "i \<noteq> ''.''" and "\<not> prefixed i"
    and "dget fs (tombstone_path i plan) = None"
  shows "fits plan fs t"
proof -
  obtain info where info: "dget fs i = Some info" using assms(1,2) by (cases "dget fs i") (simp_all add: stat_reclaim_target_def)
  then have "t = \<lparr>rt_id = i, rt_is_dir = (st_kind info = DirectoryFile), rt_device = st_dev info, rt_inode = st_ino info,
      rt_size = st_size info, rt_mtime_ns = st_mtime_ns info, rt_root_id = g\<rparr>" using assms(1,2) by (simp add: stat_reclaim_target_def)
  then show ?thesis unfolding fits_def using assms(2-5) info by simp
qed

lemma targets_fresh:
  assumes "rmap (entry_for plan) targets = Inr es" and "CHR ''/'' \<notin> set plan" and "distinct (map rt_id targets)"
    and targets: "\<And>t. t \<in> set targets \<Longrightarrow> fits plan fs t"
  shows "plan_fresh fs es"
proof -
  have good: "member_path (rt_id t) = Inr (rt_id t)" "rt_id t \<noteq> ''.''" "\<not> prefixed (rt_id t)"
    "dget fs (tombstone_path (rt_id t) plan) = None"
    "dget fs (rt_id t) = Some info \<Longrightarrow> st_dev info = rt_device t \<Longrightarrow> st_ino info = rt_inode t \<Longrightarrow> st_size info = rt_size t
      \<Longrightarrow> st_mtime_ns info = rt_mtime_ns t \<Longrightarrow> rt_is_dir t = (st_kind info = DirectoryFile)"
    if "t \<in> set targets" for t info using targets [OF that] by (simp_all add: fits_def)
  have rel: "list_all2 (\<lambda>t e. entry_for plan t = Inr e) targets es" by (rule rmap_all2 [OF assms(1)])
  have each: "\<exists>t \<in> set targets. entry_for plan t = Inr e" if "e \<in> set es" for e
  proof -
    obtain i where i: "i < length es" "es ! i = e" using \<open>e \<in> set es\<close> by (auto simp: in_set_conv_nth)
    have "i < length targets" "entry_for plan (targets ! i) = Inr e"
      using list_all2_nthD2 [OF rel i(1)] list_all2_lengthD [OF rel] i by simp_all
    then show ?thesis by (meson nth_mem)
  qed
  have "list_all2 (\<lambda>t e. en_id e = rt_id t \<and> tombstone_of e = tombstone_path (rt_id t) plan) targets es"
  proof (rule list.rel_mono_strong [OF rel])
    fix t e assume t: "t \<in> set targets" "entry_for plan t = Inr e"
    show "en_id e = rt_id t \<and> tombstone_of e = tombstone_path (rt_id t) plan"
      using entry_of_target(1,2) [OF t(2) good(1,2) [OF t(1)] assms(2)] by simp
  qed
  then have ids: "map en_id es = map rt_id targets" and tombs: "map tombstone_of es = map (\<lambda>i. tombstone_path i plan) (map rt_id targets)"
    by (induction rule: list_all2_induct) simp_all
  have "inj_on (\<lambda>i. tombstone_path i plan) (set (map rt_id targets))"
  proof (rule inj_onI)
    fix i j assume "i \<in> set (map rt_id targets)" "j \<in> set (map rt_id targets)" and eq: "tombstone_path i plan = tombstone_path j plan"
    then obtain t u where "t \<in> set targets" "i = rt_id t" "u \<in> set targets" "j = rt_id u" by auto
    then show "i = j" using tombstone_inj [OF good(1,2) [of t] good(1,2) [of u] assms(2)] eq by simp
  qed
  then have dt: "distinct (map tombstone_of es)" unfolding tombs using assms(3) by (simp only: distinct_map)
  have di: "distinct (map en_id es)" unfolding ids by (rule assms(3))
  have "tombstone_of x \<noteq> en_id y" if x: "x \<in> set es" and y: "y \<in> set es" for x y
  proof -
    obtain t u where t: "t \<in> set targets" "entry_for plan t = Inr x" and u: "u \<in> set targets" "entry_for plan u = Inr y"
      using each [OF x] each [OF y] by blast
    have "prefixed (tombstone_of x)" using entry_of_target(4) [OF t(2) good(1,2) [OF t(1)] assms(2)] by simp
    moreover have "\<not> prefixed (en_id y)" using entry_of_target(1) [OF u(2) good(1,2) [OF u(1)] assms(2)] good(3) [OF u(1)] by simp
    ultimately show ?thesis by metis
  qed
  then have sep: "set (map tombstone_of es) \<inter> set (map en_id es) = {}" by auto
  have "planned e = e \<and> member_path (en_id e) = Inr (en_id e) \<and> entry_tombstone_path e = Inr (tombstone_of e) \<and> en_root_id e \<noteq> ''''
      \<and> dget fs (tombstone_of e) = None
      \<and> (\<forall>info. dget fs (en_id e) = Some info \<and> identity_matches e info False \<longrightarrow> en_is_dir e = (st_kind info = DirectoryFile))"
    if e: "e \<in> set es" for e
  proof -
    obtain t where t: "t \<in> set targets" "entry_for plan t = Inr e" using each [OF e] by blast
    note T = good [OF t(1)]
    note E = entry_of_target [OF t(2) T(1,2) assms(2)]
    have "en_is_dir e = (st_kind info = DirectoryFile)" if "dget fs (en_id e) = Some info" "identity_matches e info False" for info
      using T(5) [of info] that unfolding E(1,8,9) by simp
    then show ?thesis using T(1,4) E(1,2,3,5,7) by simp
  qed
  then show ?thesis using di dt sep unfolding plan_fresh_def by blast
qed

end
