(* ===== verification/Reclaim_Recovery.thy ===== *)
theory Reclaim_Recovery
  imports Reclaim_Paths
begin

text \<open>
  Interrupted workers. Every disk a worker of one plan can leave when it dies is listed by \<open>interrupted\<close>: while it marks, between
  two entries or two records of a resuming pass, between the entries of a deletion, and between the unlink of a tombstone and the
  shorter record. From each of them a worker that is not disturbed removes exactly the doomed members.
\<close>

section \<open>Deleting to the end\<close>

text \<open>The first iterations of \<open>apply_entries\<close>.\<close>

fun apply_upto :: "reclaim_env \<Rightarrow> string \<Rightarrow> string \<Rightarrow> nat \<Rightarrow> apply_state \<Rightarrow> reclaim_entry list \<Rightarrow> reclaim_error + apply_state" where
  "apply_upto env now p (Suc n) s (e # post) = rbind (apply_entry env now p s e post) (\<lambda>s'. apply_upto env now p n s' post)"
| "apply_upto env now p n s ents = Inr s"

definition apply_start :: "reclaim_disk \<Rightarrow> apply_state" where
  "apply_start d = \<lparr>ap_disk = d, ap_remaining = [], ap_deleted = [], ap_errors = []\<rparr>"

lemma apply_upto_all: "apply_upto env now p (length ents) s ents = apply_entries env now p s ents"
  by (induction ents arbitrary: s) simp_all

lemma apply_upto_inv:
  assumes fresh: "plan_fresh f0 es" and env: "env_ok env" and nofail: "\<And>t. smooth \<Longrightarrow> ev_unlink_fails env t = (\<lambda>_. None)"
  shows "apply_inv f0 es p smooth ents s R U
    \<Longrightarrow> \<forall>e \<in> set ents. smooth \<longrightarrow> planned e \<in> doomed f0 es \<longrightarrow> en_phase e = PHASE_MARKED \<and> en_error e = None
    \<Longrightarrow> \<exists>s' R' U'. apply_upto env now p n s ents = Inr s' \<and> apply_inv f0 es p smooth (drop n ents) s' R' U'"
proof (induction ents arbitrary: n s R U)
  case (Cons e post)
  show ?case
  proof (cases n)
    case (Suc m)
    obtain s' R' U' where s': "apply_entry env now p s e post = Inr s'" "apply_inv f0 es p smooth post s' R' U'"
      using apply_entry_inv [OF fresh Cons.prems(1) env nofail, of now] Cons.prems(2) by auto
    have "\<forall>e \<in> set post. smooth \<longrightarrow> planned e \<in> doomed f0 es \<longrightarrow> en_phase e = PHASE_MARKED \<and> en_error e = None"
      using Cons.prems(2) by simp
    from Cons.IH [OF s'(2) this, of m] show ?thesis using s'(1) Suc by simp
  qed (use Cons.prems(1) in auto)
qed auto

lemma apply_start_inv:
  assumes "R \<inter> U = {}" and "R \<union> U \<subseteq> doomed f0 es" and "files_at f0 R U (dk_files d)" and "listed f0 es R U ents" and "dk_records d = [(p, ents)]"
  shows "apply_inv f0 es p smooth ents (apply_start d) R U"
  using assms unfolding apply_inv_def apply_start_def by simp

section \<open>Interrupted workers\<close>

definition only_record :: "string \<Rightarrow> files \<Rightarrow> reclaim_entry list \<Rightarrow> reclaim_disk" where
  "only_record p f ents = \<lparr>dk_files = f, dk_records = (if ents = [] then [] else [(p, ents)])\<rparr>"

text \<open>The disks a worker of plan \<open>p\<close>, fresh on the files \<open>f0\<close>, can leave. The index is what the plan still is: all entries while
  marking is not done, the renamed ones after it.\<close>

inductive interrupted :: "files \<Rightarrow> string \<Rightarrow> reclaim_entry list \<Rightarrow> reclaim_disk \<Rightarrow> bool" for f0 p where
  marking: "rfold (mark_entry env) (mark_start f0) (take n (mark_order es)) = Inr s
    \<Longrightarrow> interrupted f0 p es (only_record p (mk_files s) es)"
| marked: "plan_fresh f0 es \<Longrightarrow> rfold (mark_entry env) (mark_start f0) (mark_order es) = Inr s
    \<Longrightarrow> interrupted f0 p (map planned (marked_entries s es)) (only_record p (mk_files s) (marked_entries s es))"
| resuming: "interrupted f0 p es d \<Longrightarrow> dget (dk_records d) p = Some ents
    \<Longrightarrow> rfold (resume_entry env now) (pass_start (dk_files d) errors) (take n ents) = Inr s
    \<Longrightarrow> interrupted f0 p es (d\<lparr>dk_files := ps_files s\<rparr>)"
| resumed: "interrupted f0 p es d \<Longrightarrow> resume_record env now (d, plans, errors) p = Inr (d', plans', errors')
    \<Longrightarrow> interrupted f0 p es d'"
| deleting: "interrupted f0 p es d \<Longrightarrow> dget (dk_records d) p = Some ents \<Longrightarrow> env_ok env
    \<Longrightarrow> apply_upto env now p n (apply_start d) ents = Inr s
    \<Longrightarrow> interrupted f0 p es (ap_disk s)"
| unlinked: "interrupted f0 p es d \<Longrightarrow> dget (dk_records d) p = Some ents \<Longrightarrow> env_ok env
    \<Longrightarrow> apply_upto env now p n (apply_start d) ents = Inr s \<Longrightarrow> n < length ents
    \<Longrightarrow> en_phase (ents ! n) = PHASE_MARKED \<Longrightarrow> dget (dk_files (ap_disk s)) (tombstone_of (ents ! n)) = Some info
    \<Longrightarrow> unlink_tombstone env (tombstone_of (ents ! n)) info (ap_disk s) = (gone, d')
    \<Longrightarrow> interrupted f0 p es d'"
| deleted: "interrupted f0 p es d \<Longrightarrow> env_ok env \<Longrightarrow> apply_reclaim_record env now d p = Inr (d', removed, errors')
    \<Longrightarrow> interrupted f0 p es d'"

text \<open>What all of them have in common.\<close>

definition sound :: "files \<Rightarrow> string \<Rightarrow> reclaim_entry list \<Rightarrow> reclaim_disk \<Rightarrow> bool" where
  "sound f0 p es d \<longleftrightarrow> (\<exists>ents. (dk_records d = [(p, ents)] \<or> ents = [] \<and> dk_records d = []) \<and> recoverable f0 es (dk_files d) ents)"

lemma soundI:
  assumes "dk_records d = [(p, ents)] \<or> ents = [] \<and> dk_records d = []" and "R \<inter> U = {}" and "R \<union> U \<subseteq> doomed f0 es"
    and "files_at f0 R U (dk_files d)" and "listed f0 es R U ents"
  shows "sound f0 p es d"
  using assms unfolding sound_def recoverable_def by blast

lemma soundE:
  assumes "sound f0 p es d" and "dget (dk_records d) p = Some ents"
  obtains R U where "dk_records d = [(p, ents)]" "R \<inter> U = {}" "R \<union> U \<subseteq> doomed f0 es" "files_at f0 R U (dk_files d)" "listed f0 es R U ents"
  using assms unfolding sound_def recoverable_def by auto

lemma listed_all: "plan_fresh f0 es \<Longrightarrow> listed f0 es R {} es"
proof -
  assume fresh: "plan_fresh f0 es"
  have e: "planned e = e" "en_phase e = PHASE_MARKING" if "e \<in> set es" for e
    using fresh_entry(1) [OF fresh that] planned_simps(6) [of e] by metis+
  have "map planned es = filter (\<lambda>_. True) es" using e(1) by (simp add: map_idI)
  moreover have "planned ` set es = set es" using e(1) by force
  ultimately show "listed f0 es R {} es" unfolding listed_def using e(2) doomed_sub by blast
qed

lemma marked_entries_planned:
  assumes "mark_inv f0 es smooth (mark_order es) s R"
  shows "map planned (marked_entries s es) = map planned (filter (\<lambda>e. e \<in> R) es)"
proof -
  have dn: "set (mk_done s) = fst ` {ie \<in> set (enumerate 0 es). snd ie \<in> R}"
    using assms by (simp add: mark_inv_def mark_order_set)
  have "filter (\<lambda>(i, e). i \<in> set (mk_done s)) (enumerate 0 es) = filter (\<lambda>ie. snd ie \<in> R) (enumerate 0 es)"
  proof (rule filter_cong [OF refl])
    fix ie assume ie: "ie \<in> set (enumerate 0 es)"
    have "fst ie \<in> set (mk_done s) \<longleftrightarrow> snd ie \<in> R"
    proof
      assume "fst ie \<in> set (mk_done s)"
      then obtain x where "x \<in> set (enumerate 0 es)" "snd x \<in> R" "fst x = fst ie" unfolding dn by auto
      then show "snd ie \<in> R" using ie by (auto simp: in_set_enumerate_eq)
    qed (use ie dn in auto)
    then show "(case ie of (i, e) \<Rightarrow> i \<in> set (mk_done s)) \<longleftrightarrow> snd ie \<in> R" by (cases ie) simp
  qed
  moreover have "map (\<lambda>(i, e). planned e) (filter (\<lambda>ie. snd ie \<in> R) ies) = map planned (filter (\<lambda>e. e \<in> R) (map snd ies))"
    for ies :: "(nat \<times> reclaim_entry) list" by (induction ies) auto
  moreover have "map planned (marked_entries s es)
      = map (\<lambda>(i, e). planned e) (filter (\<lambda>(i, e). i \<in> set (mk_done s)) (enumerate 0 es))"
    unfolding marked_entries_def by auto
  ultimately show ?thesis by simp
qed

lemma fresh_filter:
  assumes "plan_fresh f0 es"
  shows "plan_fresh f0 (filter P es)"
  using assms unfolding plan_fresh_def by (auto simp: distinct_map_filter)

lemma doomed_of_doomed:
  assumes "R \<subseteq> doomed f0 es"
  shows "doomed f0 (filter (\<lambda>e. e \<in> R) es) = set (filter (\<lambda>e. e \<in> R) es)"
proof
  have m: "movable f0 x" if "x \<in> R" for x using assms that by (auto simp: doomed_def)
  show "set (filter (\<lambda>e. e \<in> R) es) \<subseteq> doomed f0 (filter (\<lambda>e. e \<in> R) es)"
  proof
    let ?es = "filter (\<lambda>e. e \<in> R) es"
    fix e assume e: "e \<in> set ?es"
    then have "e \<in> set (filter (\<lambda>x. en_root_id x = en_root_id e) ?es)" by simp
    then obtain before after where split: "filter (\<lambda>x. en_root_id x = en_root_id e) ?es = before @ e # after" by (metis split_list)
    then have "set before \<subseteq> set (filter (\<lambda>x. en_root_id x = en_root_id e) ?es)" by (simp only: set_append) blast
    then have "\<forall>x \<in> set before. movable f0 x" using m by auto
    then show "e \<in> doomed f0 ?es" using split m e unfolding doomed_def by auto
  qed
qed (rule doomed_sub)

lemma sound_marking:
  assumes "plan_fresh f0 es" and "rfold (mark_entry env) (mark_start f0) (take n (mark_order es)) = Inr s"
  shows "sound f0 p es (only_record p (mk_files s) es)"
proof -
  obtain R where "mark_inv f0 es False (take n (mark_order es)) s R"
    using mark_entries_inv [OF assms(1), of False env "take n (mark_order es)" "drop n (mark_order es)"] assms(2) by auto
  then have R: "R \<subseteq> doomed f0 es" "files_at f0 R {} (mk_files s)" by (simp_all add: mark_inv_def)
  show ?thesis by (rule soundI [of _ _ es R "{}"]) (use R listed_all [OF assms(1)] in \<open>auto simp: only_record_def\<close>)
qed

lemma sound_marked:
  assumes fresh: "plan_fresh f0 es" and run: "rfold (mark_entry env) (mark_start f0) (mark_order es) = Inr s"
  shows "plan_fresh f0 (map planned (marked_entries s es))"
    and "sound f0 p (map planned (marked_entries s es)) (only_record p (mk_files s) (marked_entries s es))"
proof -
  obtain R where inv: "mark_inv f0 es False (mark_order es) s R"
    using mark_entries_inv [OF fresh, of False env "mark_order es" "[]"] run by auto
  then have R: "R \<subseteq> doomed f0 es" "files_at f0 R {} (mk_files s)" by (simp_all add: mark_inv_def)
  let ?es = "filter (\<lambda>e. e \<in> R) es" and ?k = "marked_entries s es"
  have id: "map planned ?es = ?es" by (rule map_idI) (use fresh_entry(1) [OF fresh] in auto)
  have k: "map planned ?k = ?es" using marked_entries_planned [OF inv] id by simp
  have set: "set ?es = R" using R(1) doomed_sub [of f0 es] by auto
  show "plan_fresh f0 (map planned ?k)" unfolding k by (rule fresh_filter [OF fresh])
  have D: "doomed f0 (map planned ?k) = R" unfolding k doomed_of_doomed [OF R(1)] by (rule set)
  have image: "planned ` set ?k = R" using arg_cong [OF k, of set] set by simp
  have "listed f0 (map planned ?k) R {} ?k"
    unfolding listed_def D using image by (auto intro!: exI [of _ "\<lambda>_. True"])
  then show "sound f0 p (map planned ?k) (only_record p (mk_files s) ?k)"
    by (intro soundI [of _ _ ?k R "{}"]) (use R D in \<open>auto simp: only_record_def\<close>)
qed

lemma sound_resuming:
  assumes "plan_fresh f0 es" and "sound f0 p es d" and "dget (dk_records d) p = Some ents"
    and "rfold (resume_entry env now) (pass_start (dk_files d) errors) (take n ents) = Inr s"
  shows "sound f0 p es (d\<lparr>dk_files := ps_files s\<rparr>)"
proof -
  obtain R U where I: "dk_records d = [(p, ents)]" "R \<inter> U = {}" "R \<union> U \<subseteq> doomed f0 es" "files_at f0 R U (dk_files d)" "listed f0 es R U ents"
    by (rule soundE [OF assms(2,3)])
  obtain R' where "pass_inv f0 es False R U (take n ents) s R'"
    using resume_entries_inv [OF assms(1) I(2-4), of False env "take n ents" "drop n ents" now errors] I(5) assms(4) by auto
  from pass_crash [OF I(5) this] show ?thesis using I(1) unfolding sound_def by auto
qed

lemma sound_resumed:
  assumes "plan_fresh f0 es" and "sound f0 p es d" and "resume_record env now (d, plans, errors) p = Inr (d', plans', errors')"
  shows "sound f0 p es d'"
proof (cases "dget (dk_records d) p")
  case None
  then show ?thesis using assms(2,3) by (auto simp: resume_record_def)
next
  case (Some ents)
  obtain R U where I: "dk_records d = [(p, ents)]" "R \<inter> U = {}" "R \<union> U \<subseteq> doomed f0 es" "files_at f0 R U (dk_files d)" "listed f0 es R U ents"
    by (rule soundE [OF assms(2) Some])
  obtain s R' where s: "rfold (resume_entry env now) (pass_start (dk_files d) errors) ents = Inr s" "pass_inv f0 es False R U ents s R'"
    using resume_entries_inv [OF assms(1) I(2-4), of False env ents "[]" now errors] I(5) by auto
  have dist: "distinct es" using assms(1) by (simp add: plan_fresh_def distinct_map)
  have L: "listed f0 es R' U (ps_kept s)" by (rule pass_complete [OF dist I(2,5) s(2)])
  have P: "R' \<inter> U = {}" "R' \<union> U \<subseteq> doomed f0 es" "files_at f0 R' U (ps_files s)" using s(2) by (simp_all add: pass_inv_def)
  have "d' = \<lparr>dk_files = ps_files s, dk_records = (if ps_kept s = [] then [] else [(p, ps_kept s)])\<rparr>"
    using assms(3) Some s(1) I(1) by (auto simp: resume_record_def dwithout_def split: if_splits)
  then show ?thesis by (intro soundI [OF _ P(1,2) _ L]) (use P(3) in auto)
qed

lemma apply_inv_sound:
  assumes "apply_inv f0 es p smooth post s R U"
  shows "sound f0 p es (ap_disk s)"
  using assms unfolding apply_inv_def by (auto intro: soundI)

lemma sound_deleting:
  assumes "plan_fresh f0 es" and "sound f0 p es d" and "dget (dk_records d) p = Some ents" and "env_ok env"
    and "apply_upto env now p n (apply_start d) ents = Inr s"
  obtains R U where "apply_inv f0 es p False (drop n ents) s R U"
proof -
  obtain R U where I: "dk_records d = [(p, ents)]" "R \<inter> U = {}" "R \<union> U \<subseteq> doomed f0 es" "files_at f0 R U (dk_files d)" "listed f0 es R U ents"
    by (rule soundE [OF assms(2,3)])
  have "apply_inv f0 es p False ents (apply_start d) R U" by (rule apply_start_inv [OF I(2-5,1)])
  from apply_upto_inv [OF assms(1,4) _ this, of now n] assms(5) that show ?thesis by auto
qed

lemma sound_unlinked:
  assumes fresh: "plan_fresh f0 es" and inv: "apply_inv f0 es p False (e # post) s R U" and env: "env_ok env"
    and e: "en_phase e = PHASE_MARKED" "dget (dk_files (ap_disk s)) (tombstone_of e) = Some info"
    and cut: "unlink_tombstone env (tombstone_of e) info (ap_disk s) = (gone, d')"
  shows "sound f0 p es d'"
proof -
  have L: "listed f0 es R U (ap_remaining s @ e # post)" and F: "files_at f0 R U (dk_files (ap_disk s))"
    and RU: "R \<inter> U = {}" "R \<union> U \<subseteq> doomed f0 es" using inv by (simp_all add: apply_inv_def)
  have sub: "R \<union> U \<subseteq> set es" using RU(2) doomed_sub by blast
  have "planned e \<notin> U" using files_at_gone(2) [OF fresh F sub _ RU(1), of "planned e"] e(2) by auto
  moreover have "planned e \<in> R \<union> U" using L e(1) unfolding listed_def by auto
  ultimately have R: "planned e \<in> R" by blast
  show ?thesis
  proof (cases "ev_unlink_fails env (tombstone_of e) info")
    case (Some left)
    have "same_inode info left" using env Some by (simp add: env_ok_def)
    then have "files_at f0 R U (dset (tombstone_of e) left (dk_files (ap_disk s)))" using files_at_left [OF fresh F sub R] e(2) by simp
    moreover have d': "d' = (ap_disk s)\<lparr>dk_files := dset (tombstone_of e) left (dk_files (ap_disk s))\<rparr>" using cut Some by (simp add: unlink_tombstone_def)
    ultimately have "apply_inv f0 es p False (e # post) (s\<lparr>ap_disk := d'\<rparr>) R U" using inv unfolding apply_inv_def by simp
    from apply_inv_sound [OF this] show ?thesis by simp
  next
    case None
    have d': "d' = (ap_disk s)\<lparr>dk_files := dwithout [tombstone_of e] (dk_files (ap_disk s))\<rparr>" using cut None by (simp add: unlink_tombstone_def)
    have "apply_inv f0 es p False (e # post) (s\<lparr>ap_disk := d', ap_deleted := []\<rparr>) (R - {planned e}) (insert (planned e) U)"
      by (rule apply_unlinked_inv [OF fresh inv R]) (simp_all add: e(1) d')
    from apply_inv_sound [OF this] show ?thesis by simp
  qed
qed

lemma sound_deleted:
  assumes "plan_fresh f0 es" and "sound f0 p es d" and "env_ok env" and "apply_reclaim_record env now d p = Inr (d', removed, errors')"
  shows "sound f0 p es d'"
proof (cases "dget (dk_records d) p")
  case None
  then show ?thesis using assms(2,4) by (auto simp: apply_reclaim_record_def)
next
  case (Some ents)
  obtain s where s: "apply_upto env now p (length ents) (apply_start d) ents = Inr s"
    using assms(4) Some by (auto simp: apply_reclaim_record_def apply_upto_all apply_start_def rbind_def split: sum.splits)
  obtain R U where inv: "apply_inv f0 es p False [] s R U" using sound_deleting [OF assms(1,2) Some assms(3) s] by auto
  then obtain x where "dk_records (ap_disk s) = [(p, x)]" unfolding apply_inv_def by auto
  then have d': "d' = (ap_disk s)\<lparr>dk_records := (if ap_remaining s = [] then [] else [(p, ap_remaining s)])\<rparr>"
    using assms(4) Some s by (auto simp: apply_reclaim_record_def apply_upto_all apply_start_def dwithout_def Let_def)
  show ?thesis using inv unfolding apply_inv_def d' by (intro soundI [of _ _ "ap_remaining s" R U]) auto
qed

text \<open>Every disk a worker leaves is sound for a fresh plan.\<close>

lemma interrupted_sound:
  assumes "interrupted f0 p es d"
  shows "plan_fresh f0 es \<Longrightarrow> sound f0 p es d"
  using assms
proof (induction rule: interrupted.induct)
  case (deleting es d ents env now n s)
  then show ?case by (metis sound_deleting apply_inv_sound)
next
  case (unlinked es d ents env now n s info gone d')
  obtain R U where inv: "apply_inv f0 es p False (drop n ents) s R U"
    using sound_deleting [OF unlinked.prems unlinked.IH [OF unlinked.prems] unlinked.hyps(2,3,4)] by blast
  have "drop n ents = ents ! n # drop (Suc n) ents" using unlinked.hyps(5) by (simp add: Cons_nth_drop_Suc)
  then show ?case using sound_unlinked [OF unlinked.prems _ unlinked.hyps(3,6,7,8)] inv by simp
qed (blast intro: sound_marking sound_marked sound_resuming sound_resumed sound_deleted)+

section \<open>Recovery\<close>

lemma files_done:
  assumes "files_at f0 R U f" and "R \<inter> U = {}" and "R \<union> U \<subseteq> doomed f0 es" and "doomed f0 es \<subseteq> U"
  shows "dget f x = (if x \<in> en_id ` doomed f0 es then None else dget f0 x)"
proof -
  have "U = doomed f0 es" "R = {}" using assms(2-4) by blast+
  then show ?thesis using assms(1) unfolding files_at_def by auto
qed

definition undisturbed :: "reclaim_env \<Rightarrow> bool" where
  "undisturbed env \<longleftrightarrow> (\<forall>i. \<not> ev_rename_fails env i) \<and> (\<forall>t info. ev_unlink_fails env t info = None)"

lemma undisturbed_ok:
  assumes "undisturbed env"
  shows "env_ok env" and "\<not> ev_rename_fails env i" and "ev_unlink_fails env t = (\<lambda>_. None)"
  using assms by (auto simp: undisturbed_def env_ok_def)

text \<open>The doomed members are gone, all else is as it was, and a record is left only for members that stay.\<close>

definition removed_exactly :: "files \<Rightarrow> string \<Rightarrow> reclaim_entry list \<Rightarrow> reclaim_disk \<Rightarrow> bool" where
  "removed_exactly f0 p es d \<longleftrightarrow> (\<forall>x. dget (dk_files d) x = (if x \<in> en_id ` doomed f0 es then None else dget f0 x))
     \<and> (\<exists>rest. dk_records d = (if rest = [] then [] else [(p, rest)]) \<and> planned ` set rest \<subseteq> set es - doomed f0 es)"

lemma removed_none:
  assumes "files_at f0 R U (dk_files d)" and "R \<inter> U = {}" and "R \<union> U \<subseteq> doomed f0 es" and "listed f0 es R U []" and "dk_records d = []"
  shows "removed_exactly f0 p es d"
proof -
  have "doomed f0 es \<subseteq> U" using assms(4) by (simp add: listed_def)
  from files_done [OF assms(1-3) this] show ?thesis using assms(5) unfolding removed_exactly_def by (metis empty_subsetI image_empty list.set(1))
qed

text \<open>The deletion of one record, with every doomed entry marked.\<close>

lemma apply_finishes:
  assumes fresh: "plan_fresh f0 es" and env: "undisturbed env" and rec: "dk_records d = [(p, ents)]"
    and RU: "R \<inter> U = {}" "R \<union> U \<subseteq> doomed f0 es" "files_at f0 R U (dk_files d)" "listed f0 es R U ents"
    and ready: "\<forall>e \<in> set ents. planned e \<in> doomed f0 es \<longrightarrow> en_phase e = PHASE_MARKED \<and> en_error e = None"
  shows "\<exists>d' removed errors. apply_reclaim_record env now d p = Inr (d', removed, errors) \<and> removed_exactly f0 p es d'"
proof -
  have "apply_inv f0 es p True ents (apply_start d) R U" by (rule apply_start_inv [OF RU rec])
  then obtain s R' U' where s: "apply_upto env now p (length ents) (apply_start d) ents = Inr s" "apply_inv f0 es p True [] s R' U'"
    using apply_upto_inv [OF fresh undisturbed_ok(1) [OF env] undisturbed_ok(3) [OF env], of p True ents "apply_start d" R U now "length ents"] ready by auto
  have I: "R' \<inter> U' = {}" "R' \<union> U' \<subseteq> doomed f0 es" "files_at f0 R' U' (dk_files (ap_disk s))" "listed f0 es R' U' (ap_remaining s)"
    "planned ` set (ap_remaining s) \<inter> doomed f0 es = {}" "\<exists>x. dk_records (ap_disk s) = [(p, x)]"
    using s(2) by (auto simp: apply_inv_def)
  have gone: "doomed f0 es \<subseteq> U'" using I(4,5) unfolding listed_def by blast
  let ?d = "(ap_disk s)\<lparr>dk_records := (if ap_remaining s = [] then [] else [(p, ap_remaining s)])\<rparr>"
  have "apply_reclaim_record env now d p = Inr (?d, ap_deleted s, ap_errors s)"
    using s(1) rec I(6) by (auto simp: apply_reclaim_record_def apply_upto_all apply_start_def dwithout_def)
  moreover have "planned ` set (ap_remaining s) \<subseteq> set es - doomed f0 es" using listed_sub [OF I(4)] I(5) by blast
  then have "removed_exactly f0 p es ?d" using files_done [OF I(3,1,2) gone] unfolding removed_exactly_def by auto
  ultimately show ?thesis by blast
qed

lemma sound_recovers:
  assumes fresh: "plan_fresh f0 es" and sound: "sound f0 p es d" and env: "undisturbed env"
  shows "\<exists>out d'. reclaim_artifacts True True env now q [] d = Inr (out, d') \<and> removed_exactly f0 p es d'"
proof (cases "dk_records d = []")
  case True
  then obtain R U where I: "R \<inter> U = {}" "R \<union> U \<subseteq> doomed f0 es" "files_at f0 R U (dk_files d)" "listed f0 es R U []"
    using sound unfolding sound_def recoverable_def by auto
  have "removed_exactly f0 p es d" by (rule removed_none [OF I(3,1,2,4) True])
  then show ?thesis using True by (auto simp: reclaim_artifacts_def resume_marking_pass_def dkeys_def)
next
  case False
  then obtain ents where rec: "dk_records d = [(p, ents)]" using sound unfolding sound_def by blast
  then have get: "dget (dk_records d) p = Some ents" by simp
  obtain R U where I: "R \<inter> U = {}" "R \<union> U \<subseteq> doomed f0 es" "files_at f0 R U (dk_files d)" "listed f0 es R U ents"
    by (rule soundE [OF sound get])
  obtain s R' where s: "rfold (resume_entry env now) (pass_start (dk_files d) []) ents = Inr s" "pass_inv f0 es True R U ents s R'"
    using resume_entries_inv [OF fresh I(1-3), of True env ents "[]" now "[]"] I(4) undisturbed_ok(2) [OF env] by auto
  have dist: "distinct es" using fresh by (simp add: plan_fresh_def distinct_map)
  have L: "listed f0 es R' U (ps_kept s)" by (rule pass_complete [OF dist I(1,4) s(2)])
  have P: "R' \<inter> U = {}" "R' \<union> U \<subseteq> doomed f0 es" "files_at f0 R' U (ps_files s)"
    "\<forall>e \<in> set (ps_kept s). planned e \<in> doomed f0 es \<longrightarrow> en_phase e = PHASE_MARKED \<and> en_error e = None"
    using s(2) by (simp_all add: pass_inv_def)
  show ?thesis
  proof (cases "ps_kept s = []")
    case True
    have "removed_exactly f0 p es \<lparr>dk_files = ps_files s, dk_records = []\<rparr>" by (rule removed_none [OF _ P(1,2)]) (use P(3) L True in simp_all)
    then show ?thesis using True rec s(1)
      by (auto simp: reclaim_artifacts_def resume_marking_pass_def resume_record_def dkeys_def dwithout_def)
  next
    case False
    let ?d = "\<lparr>dk_files = ps_files s, dk_records = [(p, ps_kept s)]\<rparr>"
    obtain d' removed errors where d': "apply_reclaim_record env now ?d p = Inr (d', removed, errors)" "removed_exactly f0 p es d'"
      using apply_finishes [OF fresh env, of ?d p "ps_kept s" R' U now] P L by auto
    have "resume_marking_pass env now d = Inr (?d, [p], ps_errors s)"
      using False rec s(1) by (simp add: resume_marking_pass_def resume_record_def dkeys_def)
    then show ?thesis using d' by (auto simp: reclaim_artifacts_def apply_next_def)
  qed
qed

text \<open>A whole reclamation without interruption.\<close>

lemma marked_ready:
  assumes "plan_fresh f0 es" and "e \<in> set (marked_entries s es)"
  shows "en_phase e = PHASE_MARKED \<and> en_error e = None"
proof -
  obtain i where "i < length es" "e = (es ! i)\<lparr>en_phase := PHASE_MARKED\<rparr>" using assms(2) by (auto simp: marked_entries_def in_set_enumerate_eq)
  then obtain x where x: "x \<in> set es" "e = x\<lparr>en_phase := PHASE_MARKED\<rparr>" by (metis nth_mem)
  have "en_error (planned x) = None" by (simp add: planned_def)
  then show ?thesis using x fresh_entry(1) [OF assms(1) x(1)] by simp
qed

lemma run_removes:
  assumes entries: "rmap (entry_for p) targets = Inr es" and some: "targets \<noteq> []" and fresh: "plan_fresh f0 es" and env: "undisturbed env"
  shows "\<exists>out d'. reclaim_artifacts True True env now p targets \<lparr>dk_files = f0, dk_records = []\<rparr> = Inr (out, d')
    \<and> (\<forall>x. dget (dk_files d') x = (if x \<in> en_id ` doomed f0 es then None else dget f0 x)) \<and> dk_records d' = []"
proof -
  obtain s R where s: "rfold (mark_entry env) (mark_start f0) (mark_order es) = Inr s" and inv: "mark_inv f0 es True (mark_order es) s R"
    using mark_entries_inv [OF fresh, of True env "mark_order es" "[]"] undisturbed_ok(2) [OF env] by auto
  have "set es = snd ` set (mark_order es)" unfolding mark_order_set by (metis map_snd_enumerate list.set_map)
  then have R: "R = doomed f0 es" "files_at f0 R {} (mk_files s)" using inv doomed_sub [of f0 es] by (auto simp: mark_inv_def)
  let ?es = "filter (\<lambda>e. e \<in> R) es" and ?k = "marked_entries s es"
  have "map planned ?es = ?es" by (rule map_idI) (use fresh_entry(1) [OF fresh] in auto)
  then have k: "map planned ?k = ?es" using marked_entries_planned [OF inv] by simp
  have D: "doomed f0 ?es = R" using doomed_of_doomed [of R f0 es] R(1) doomed_sub [of f0 es] by auto
  have image: "planned ` set ?k = R" using arg_cong [OF k, of set] R(1) doomed_sub [of f0 es] by auto
  have resumed: "resume_marking_pass env now \<lparr>dk_files = f0, dk_records = []\<rparr> = Inr (\<lparr>dk_files = f0, dk_records = []\<rparr>, [], [])"
    by (simp add: resume_marking_pass_def dkeys_def)
  show ?thesis
  proof (cases "?k = []")
    case True
    then have "R = {}" using image by simp
    then have "dget (mk_files s) x = (if x \<in> en_id ` doomed f0 es then None else dget f0 x)" for x using R unfolding files_at_def by auto
    then show ?thesis using True entries some s resumed by (simp add: reclaim_artifacts_def mark_reclaim_plan_def dwithout_def)
  next
    case False
    let ?d = "\<lparr>dk_files = mk_files s, dk_records = [(p, ?k)]\<rparr>"
    have "listed f0 ?es R {} ?k" unfolding listed_def D using image k by (auto intro!: exI [of _ "\<lambda>_. True"])
    then obtain d' removed errors where d': "apply_reclaim_record env now ?d p = Inr (d', removed, errors)" "removed_exactly f0 p ?es d'"
      using apply_finishes [OF fresh_filter [OF fresh] env, of ?d p ?k R "{}" "\<lambda>e. e \<in> R" now] R D marked_ready [OF fresh] by auto
    have "set ?es - doomed f0 ?es = {}" using D by auto
    moreover obtain rest where "dk_records d' = (if rest = [] then [] else [(p, rest)])" "planned ` set rest \<subseteq> set ?es - doomed f0 ?es"
      using d'(2) unfolding removed_exactly_def by blast
    ultimately have "dk_records d' = []" by (metis image_is_empty set_empty subset_empty)
    moreover have "\<forall>x. dget (dk_files d') x = (if x \<in> en_id ` doomed f0 es then None else dget f0 x)"
      using d'(2) unfolding removed_exactly_def D by (simp add: R(1))
    ultimately show ?thesis using False entries some s resumed d'(1)
      by (auto simp: reclaim_artifacts_def mark_reclaim_plan_def apply_next_def)
  qed
qed

end
