(* ===== verification/Reclaim_Safety.thy ===== *)
theory Reclaim_Safety
  imports Reclaim_Recovery
begin

text \<open>
  What the reclaim engine guarantees: recovery from every interruption, where a member can be meanwhile, an uninterrupted
  reclamation from the planner's targets, and what a record can make the engine unlink at all.
\<close>

section \<open>Guards of a deletion\<close>

text \<open>The entry allows the inode at the path to be unlinked.\<close>

definition allows :: "reclaim_entry \<Rightarrow> string \<Rightarrow> stat_info \<Rightarrow> bool" where
  "allows e x info \<longleftrightarrow> entry_tombstone_path e = Inr x \<and> en_phase e = PHASE_MARKED \<and> en_error e = None
     \<and> en_is_dir e = (st_kind info = DirectoryFile) \<and> identity_matches e info (en_is_dir e)"

lemma allows_same: "allows e x info' \<Longrightarrow> same_inode info info' \<Longrightarrow> allows e x info"
  by (auto simp: allows_def same_inode_def identity_matches_def split: if_splits)

text \<open>Between two points of a deletion every file is kept, the same inode, or an entry allows it to go.\<close>

definition guarded :: "reclaim_entry list \<Rightarrow> files \<Rightarrow> files \<Rightarrow> bool" where
  "guarded ents f f' \<longleftrightarrow> (\<forall>x. (dget f x = None \<longrightarrow> dget f' x = None)
     \<and> (\<forall>info. dget f x = Some info \<longrightarrow> (\<exists>info'. dget f' x = Some info' \<and> same_inode info info')
          \<or> dget f' x = None \<and> (\<exists>e \<in> set ents. allows e x info)))"

lemma guarded_refl: "guarded ents f f"
  by (simp add: guarded_def)

lemma guarded_trans:
  assumes "guarded [e] f g" and "guarded ents g h"
  shows "guarded (e # ents) f h"
proof -
  have "(dget f x = None \<longrightarrow> dget h x = None) \<and> (\<forall>info. dget f x = Some info \<longrightarrow> (\<exists>info'. dget h x = Some info' \<and> same_inode info info')
          \<or> dget h x = None \<and> (\<exists>e \<in> set (e # ents). allows e x info))" for x
  proof (cases "dget f x")
    case None
    then show ?thesis using assms unfolding guarded_def by simp
  next
    case (Some info)
    consider info' where "dget g x = Some info'" "same_inode info info'" | "dget g x = None" "allows e x info"
    proof -
      have "(\<exists>info'. dget g x = Some info' \<and> same_inode info info') \<or> dget g x = None \<and> (\<exists>e' \<in> set [e]. allows e' x info)"
        using assms(1) Some unfolding guarded_def by blast
      then show thesis using that by auto
    qed
    then show ?thesis
    proof cases
      case (1 info')
      then consider info2 where "dget h x = Some info2" "same_inode info' info2" | e' where "dget h x = None" "e' \<in> set ents" "allows e' x info'"
        using assms(2) unfolding guarded_def by blast
      then show ?thesis
      proof cases
        case (1 info2)
        then show ?thesis using Some same_inode_trans [OF \<open>same_inode info info'\<close> 1(2)] by auto
      next
        case (2 e')
        then show ?thesis using Some allows_same [OF 2(3) \<open>same_inode info info'\<close>] by auto
      qed
    next
      case 2
      then show ?thesis using assms(2) Some unfolding guarded_def by auto
    qed
  qed
  then show ?thesis unfolding guarded_def by blast
qed

lemma retire_files [simp]: "dk_files (ap_disk (retire p s post)) = dk_files (ap_disk s)"
  by (simp add: retire_def Let_def)

lemma apply_entry_guarded:
  assumes env: "env_ok env" and run: "apply_entry env now p s e post = Inr s'"
  shows "guarded [e] (dk_files (ap_disk s)) (dk_files (ap_disk s'))"
proof (cases "en_phase e \<noteq> PHASE_MARKED \<or> en_error e \<noteq> None")
  case True
  then show ?thesis using run unfolding apply_entry_def by (auto simp: guarded_refl)
next
  case False
  then obtain t where t: "entry_tombstone_path e = Inr t" using run by (auto simp: apply_entry_def rbind_def split: sum.splits)
  show ?thesis
  proof (cases "dget (dk_files (ap_disk s)) t")
    case None
    then show ?thesis using run False t unfolding apply_entry_def by (auto simp: guarded_refl)
  next
    case (Some info)
    show ?thesis
    proof (cases "en_is_dir e = (st_kind info = DirectoryFile) \<and> identity_matches e info (en_is_dir e)")
      case no: False
      then show ?thesis using run False t Some unfolding apply_entry_def by (auto simp: guarded_refl apply_fail_def split: if_splits)
    next
      case ok: True
      then have allow: "allows e t info" using False t unfolding allows_def by blast
      show ?thesis
      proof (cases "ev_unlink_fails env t info")
        case fails: (Some left)
        then have same: "same_inode info left" using env by (simp add: env_ok_def)
        have "dk_files (ap_disk s') = dset t left (dk_files (ap_disk s))"
          using run False t Some ok fails by (auto simp: apply_entry_def unlink_tombstone_def apply_fail_def)
        then show ?thesis using Some same unfolding guarded_def by (auto simp: dget_dset)
      next
        case None
        then have "dk_files (ap_disk s') = dwithout [t] (dk_files (ap_disk s))"
          using run False t Some ok by (auto simp: apply_entry_def unlink_tombstone_def)
        then show ?thesis using Some allow unfolding guarded_def by (auto simp: dget_dwithout)
      qed
    qed
  qed
qed

lemma apply_entries_guarded:
  assumes "env_ok env"
  shows "apply_entries env now p s ents = Inr s' \<Longrightarrow> guarded ents (dk_files (ap_disk s)) (dk_files (ap_disk s'))"
proof (induction ents arbitrary: s)
  case (Cons e post)
  obtain s1 where s1: "apply_entry env now p s e post = Inr s1" "apply_entries env now p s1 post = Inr s'"
    using Cons.prems by (auto simp: rbind_def split: sum.splits)
  show ?case by (rule guarded_trans [OF apply_entry_guarded [OF assms s1(1)] Cons.IH [OF s1(2)]])
qed (simp add: guarded_refl)

lemma allows_tombstone:
  assumes "allows e x info"
  shows "prefixed x"
  using assms unfolding allows_def entry_tombstone_path_def
  by (auto simp: prefixed_def rbind_def split: option.splits sum.splits if_splits)

section \<open>Guarantees\<close>

text \<open>C7: Whatever a record says, a deletion only ever removes what it allows: every path that holds something keeps its
  inode, or is the tombstone of a marked entry without a recorded failure, beside that entry's member and with the tombstone
  prefix, and holds the very inode the entry was planned for, file or directory as planned. Nothing appears.\<close>

theorem deletion_is_guarded:
  assumes "env_ok env" and "dget (dk_records d) p = Some ents" and "apply_reclaim_record env now d p = Inr (d', removed, errors)"
  shows "(dget (dk_files d) x = None \<longrightarrow> dget (dk_files d') x = None)
    \<and> (\<forall>info. dget (dk_files d) x = Some info \<longrightarrow> (\<exists>info'. dget (dk_files d') x = Some info' \<and> same_inode info info')
        \<or> dget (dk_files d') x = None \<and> prefixed x \<and> (\<exists>e \<in> set ents. allows e x info))"
proof -
  obtain s where s: "apply_entries env now p \<lparr>ap_disk = d, ap_remaining = [], ap_deleted = [], ap_errors = []\<rparr> ents = Inr s" "dk_files d' = dk_files (ap_disk s)"
    using assms(2,3) by (auto simp: apply_reclaim_record_def Let_def rbind_def split: sum.splits)
  from apply_entries_guarded [OF assms(1) s(1)] have "guarded ents (dk_files d) (dk_files d')" using s(2) by simp
  then show ?thesis using allows_tombstone unfolding guarded_def by blast
qed

text \<open>C4: Crash recovery. From every disk an interrupted worker leaves, at any point of marking, resuming or deleting and
  after any number of further interruptions with failing renames and unlinks, the next worker that is not disturbed returns,
  removes exactly the doomed members, changes nothing else, and leaves a record only for members that stay.\<close>

theorem interrupted_reclaim_recovers:
  assumes "plan_fresh f0 es" and "interrupted f0 p es d" and "undisturbed env"
  shows "\<exists>out d'. reclaim_artifacts True True env now q [] d = Inr (out, d') \<and> removed_exactly f0 p es d'"
  by (rule sound_recovers [OF assms(1) interrupted_sound [OF assms(2,1)] assms(3)])

text \<open>C5: No interruption loses or spoils a member. On every such disk a path that is neither a doomed member nor the tombstone
  of one is as it was before; a doomed member is untouched at its place, or wholly at its tombstone as the same inode, and
  then the durable record still names it, or gone from both.\<close>

theorem interrupted_disk_is_accounted:
  assumes "plan_fresh f0 es" and "interrupted f0 p es d"
  shows "(x \<notin> en_id ` doomed f0 es \<and> x \<notin> tombstone_of ` doomed f0 es \<longrightarrow> dget (dk_files d) x = dget f0 x)
    \<and> (e \<in> doomed f0 es \<longrightarrow>
         dget (dk_files d) (en_id e) = dget f0 (en_id e) \<and> dget (dk_files d) (tombstone_of e) = None
           \<and> e \<in> planned ` set (dget_or (dk_records d) p [])
       \<or> dget (dk_files d) (en_id e) = None \<and> e \<in> planned ` set (dget_or (dk_records d) p [])
           \<and> (\<exists>info0 info. dget f0 (en_id e) = Some info0 \<and> dget (dk_files d) (tombstone_of e) = Some info \<and> same_inode info0 info)
       \<or> dget (dk_files d) (en_id e) = None \<and> dget (dk_files d) (tombstone_of e) = None)"
proof -
  obtain ents R U where I: "dk_records d = [(p, ents)] \<or> ents = [] \<and> dk_records d = []" "R \<inter> U = {}" "R \<union> U \<subseteq> doomed f0 es"
    "files_at f0 R U (dk_files d)" "listed f0 es R U ents"
    using interrupted_sound [OF assms(2,1)] unfolding sound_def recoverable_def by blast
  have rec: "dget_or (dk_records d) p [] = ents" using I(1) by (auto simp: dget_or_def)
  have sub: "R \<union> U \<subseteq> set es" using I(3) doomed_sub by blast
  have frame: "dget (dk_files d) x = dget f0 x" if "x \<notin> en_id ` doomed f0 es" "x \<notin> tombstone_of ` doomed f0 es"
  proof -
    have "x \<notin> en_id ` (R \<union> U)" "x \<notin> tombstone_of ` R" using that I(3) by blast+
    then show ?thesis using I(4) unfolding files_at_def by blast
  qed
  have named: "e \<in> planned ` set ents" if "e \<in> doomed f0 es" "e \<notin> U" using I(5) that unfolding listed_def by blast
  consider "e \<in> U" | "e \<in> R" "e \<notin> U" | "e \<notin> R" "e \<notin> U" by blast
  then show ?thesis
  proof cases
    case 1
    then show ?thesis using files_at_gone [OF assms(1) I(4) sub 1 I(2)] frame by blast
  next
    case 2
    then show ?thesis using files_at_renamed [OF I(4) 2(1)] named frame unfolding rec by blast
  next
    case 3
    show ?thesis
    proof (cases "e \<in> doomed f0 es")
      case True
      then have "e \<in> set es" using doomed_sub by blast
      then show ?thesis using files_at_waiting [OF assms(1) I(4) sub _ 3] named [OF True 3(2)] frame unfolding rec by blast
    qed (use frame in blast)
  qed
qed

text \<open>C6: A reclamation from the planner's targets. With targets that fit the disk, under different ids, a worker that is not
  disturbed renames and unlinks exactly the doomed members, those that are still the planned inode and no symlink together with
  all members of their group before them, changes nothing else and leaves no record.\<close>

theorem reclamation_removes_plan:
  assumes "rmap (entry_for p) targets = Inr es" and "CHR ''/'' \<notin> set p" and "distinct (map rt_id targets)"
    and "\<forall>t \<in> set targets. fits p f0 t" and "undisturbed env"
  shows "\<exists>out d'. reclaim_artifacts True True env now p targets \<lparr>dk_files = f0, dk_records = []\<rparr> = Inr (out, d')
    \<and> (\<forall>x. dget (dk_files d') x = (if x \<in> en_id ` doomed f0 es then None else dget f0 x)) \<and> dk_records d' = []"
proof (cases "targets = []")
  case True
  then have "doomed f0 es = {}" using assms(1) doomed_sub [of f0 es] by simp
  then show ?thesis using True by (simp add: reclaim_artifacts_def resume_marking_pass_def dkeys_def)
next
  case False
  have "plan_fresh f0 es" by (rule targets_fresh [OF assms(1-3)]) (use assms(4) in blast)
  from run_removes [OF assms(1) False this assms(5)] show ?thesis .
qed

section \<open>Examples\<close>

text \<open>Two groups: a log, a symlink and a log behind it; an incident directory and its manifest.\<close>

definition demo_inode :: "file_kind \<Rightarrow> int \<Rightarrow> stat_info" where
  "demo_inode k i = \<lparr>st_kind = k, st_dev = 1, st_ino = i, st_size = 5, st_mtime_ns = 7\<rparr>"

definition demo_disk :: files where
  "demo_disk = [(''logs/a'', demo_inode RegularFile 10), (''logs/b'', demo_inode SymlinkFile 11), (''logs/c'', demo_inode RegularFile 12),
     (''q/d'', demo_inode DirectoryFile 13), (''q/e'', demo_inode RegularFile 14), (''keep'', demo_inode RegularFile 15)]"

definition demo_target :: "string \<Rightarrow> string \<Rightarrow> bool \<Rightarrow> int \<Rightarrow> reclaim_target" where
  "demo_target i g dir ino = \<lparr>rt_id = i, rt_is_dir = dir, rt_device = 1, rt_inode = ino, rt_size = 5, rt_mtime_ns = 7, rt_root_id = g\<rparr>"

definition demo_targets :: "reclaim_target list" where
  "demo_targets = [demo_target ''q/d'' ''q/d'' True 13, demo_target ''logs/a'' ''logs/c'' False 10,
     demo_target ''logs/b'' ''logs/c'' False 11, demo_target ''logs/c'' ''logs/c'' False 12, demo_target ''q/e'' ''q/d'' False 14]"

definition demo_entry :: "string \<Rightarrow> string \<Rightarrow> string \<Rightarrow> bool \<Rightarrow> int \<Rightarrow> reclaim_entry" where
  "demo_entry i g t dir ino = \<lparr>en_id = i, en_root_id = g, en_tombstone = Some t, en_phase = PHASE_MARKING, en_is_dir = dir,
     en_device = 1, en_inode = ino, en_size = 5, en_mtime_ns = 7, en_error = None, en_first_failed = None, en_failure_count = 0\<rparr>"

definition demo_entries :: "reclaim_entry list" where
  "demo_entries = [demo_entry ''q/d'' ''q/d'' ''q/.reclaiming-p1-d'' True 13, demo_entry ''logs/a'' ''logs/c'' ''logs/.reclaiming-p1-a'' False 10,
     demo_entry ''logs/b'' ''logs/c'' ''logs/.reclaiming-p1-b'' False 11, demo_entry ''logs/c'' ''logs/c'' ''logs/.reclaiming-p1-c'' False 12,
     demo_entry ''q/e'' ''q/d'' ''q/.reclaiming-p1-e'' False 14]"

definition demo_env :: reclaim_env where
  "demo_env = \<lparr>ev_rename_fails = (\<lambda>_. False), ev_unlink_fails = (\<lambda>_ _. None)\<rparr>"

lemma demo_entries_are: "rmap (entry_for ''p1'') demo_targets = Inr demo_entries"
  by code_simp

lemma demo_fits: "\<forall>t \<in> set demo_targets. fits ''p1'' demo_disk t"
  by code_simp

lemma demo_ids: "distinct (map rt_id demo_targets)"
  by code_simp

lemma demo_fresh: "plan_fresh demo_disk demo_entries"
  by (rule targets_fresh [OF demo_entries_are _ demo_ids]) (use demo_fits in simp_all)

lemma demo_undisturbed: "undisturbed demo_env"
  by (simp add: undisturbed_def demo_env_def)

text \<open>The doomed entries, computed.\<close>

lemma doomed_computed:
  assumes "distinct es"
  shows "doomed fs es = set (filter (\<lambda>e. movable fs e \<and> list_all (\<lambda>x. en_root_id x = en_root_id e \<longrightarrow> movable fs x) (takeWhile (\<lambda>x. x \<noteq> e) es)) es)"
    (is "_ = set (filter ?P es)")
proof -
  have "e \<in> doomed fs es \<longleftrightarrow> ?P e" if mem: "e \<in> set es" for e
  proof -
    obtain xs ys where es: "es = xs @ e # ys" and new: "e \<notin> set xs" using split_list_first [OF mem] by blast
    have "takeWhile (\<lambda>x. x \<noteq> e) es = xs" unfolding es using new by (subst takeWhile_append2) auto
    then show ?thesis using doomed_at [of xs e ys fs] assms es by (simp add: list_all_iff)
  qed
  then show ?thesis using doomed_sub [of fs es] by auto
qed

lemma demo_distinct: "distinct demo_entries"
  by (rule fresh_entry(7) [OF demo_fresh, of "hd demo_entries"]) (simp add: demo_entries_def)

lemma demo_doomed: "en_id ` doomed demo_disk demo_entries = {''q/d'', ''logs/a'', ''q/e''}"
proof -
  have "map en_id (filter (\<lambda>e. movable demo_disk e \<and> list_all (\<lambda>x. en_root_id x = en_root_id e \<longrightarrow> movable demo_disk x)
      (takeWhile (\<lambda>x. x \<noteq> e) demo_entries)) demo_entries) = [''q/d'', ''logs/a'', ''q/e'']" by code_simp
  from arg_cong [OF this, of set] show ?thesis unfolding doomed_computed [OF demo_distinct] by simp
qed

text \<open>A worker that died after the first two renames.\<close>

definition demo_marking :: mark_state where
  "demo_marking = \<lparr>mk_files = [(''logs/a'', demo_inode RegularFile 10), (''logs/b'', demo_inode SymlinkFile 11),
     (''logs/c'', demo_inode RegularFile 12), (''keep'', demo_inode RegularFile 15),
     (''q/.reclaiming-p1-d'', demo_inode DirectoryFile 13), (''q/.reclaiming-p1-e'', demo_inode RegularFile 14)],
     mk_done = [0, 4], mk_abandoned = [], mk_marked = [''q/d'', ''q/e''], mk_failed = [], mk_skipped = [], mk_reasons = []\<rparr>"

lemma demo_dies: "rfold (mark_entry demo_env) (mark_start demo_disk) (take 2 (mark_order demo_entries)) = Inr demo_marking"
  by code_simp

lemma demo_interrupted: "interrupted demo_disk ''p1'' demo_entries (only_record ''p1'' (mk_files demo_marking) demo_entries)"
  by (rule interrupted.marking [OF demo_dies])

text \<open>The record of one marked file.\<close>

definition demo_record :: reclaim_disk where
  "demo_record = \<lparr>dk_files = [(''q/.reclaiming-p1-e'', demo_inode RegularFile 14), (''keep'', demo_inode RegularFile 15)],
     dk_records = [(''p1'', [(demo_entry ''q/e'' ''q/d'' ''q/.reclaiming-p1-e'' False 14)\<lparr>en_phase := PHASE_MARKED\<rparr>])]\<rparr>"

theorem deletion_is_guarded_witness:
  "\<exists>d' removed errors. apply_reclaim_record demo_env ''t'' demo_record ''p1'' = Inr (d', removed, errors)
    \<and> dget (dk_files d') ''q/.reclaiming-p1-e'' = None
    \<and> ((dget (dk_files demo_record) ''keep'' = None \<longrightarrow> dget (dk_files d') ''keep'' = None)
      \<and> (\<forall>info. dget (dk_files demo_record) ''keep'' = Some info \<longrightarrow> (\<exists>info'. dget (dk_files d') ''keep'' = Some info' \<and> same_inode info info')
        \<or> dget (dk_files d') ''keep'' = None \<and> prefixed ''keep'' \<and> (\<exists>e \<in> set (dget_or (dk_records demo_record) ''p1'' []). allows e ''keep'' info)))"
proof -
  have ents: "dget (dk_records demo_record) ''p1'' = Some (dget_or (dk_records demo_record) ''p1'' [])"
    by (simp add: demo_record_def dget_or_def)
  have run: "apply_reclaim_record demo_env ''t'' demo_record ''p1''
      = Inr (\<lparr>dk_files = [(''keep'', demo_inode RegularFile 15)], dk_records = []\<rparr>, [''q/e''], [])" by code_simp
  note deletion_is_guarded [OF undisturbed_ok(1) [OF demo_undisturbed] ents run, of "''keep''"]
  then show ?thesis using run by fastforce
qed

theorem interrupted_reclaim_recovers_witness:
  "\<exists>out d'. reclaim_artifacts True True demo_env ''t'' ''p2'' [] (only_record ''p1'' (mk_files demo_marking) demo_entries) = Inr (out, d')
    \<and> removed_exactly demo_disk ''p1'' demo_entries d'"
  by (rule interrupted_reclaim_recovers [OF demo_fresh demo_interrupted demo_undisturbed])

theorem interrupted_disk_is_accounted_witness:
  "let d = only_record ''p1'' (mk_files demo_marking) demo_entries; e = demo_entries ! 1 in
   e \<in> doomed demo_disk demo_entries \<and>
   (dget (dk_files d) (en_id e) = dget demo_disk (en_id e) \<and> dget (dk_files d) (tombstone_of e) = None
      \<and> e \<in> planned ` set (dget_or (dk_records d) ''p1'' [])
    \<or> dget (dk_files d) (en_id e) = None \<and> e \<in> planned ` set (dget_or (dk_records d) ''p1'' [])
      \<and> (\<exists>info0 info. dget demo_disk (en_id e) = Some info0 \<and> dget (dk_files d) (tombstone_of e) = Some info \<and> same_inode info0 info)
    \<or> dget (dk_files d) (en_id e) = None \<and> dget (dk_files d) (tombstone_of e) = None)"
proof -
  have "demo_entries ! 1 \<in> doomed demo_disk demo_entries"
    unfolding doomed_computed [OF demo_distinct] by code_simp
  then show ?thesis using interrupted_disk_is_accounted [OF demo_fresh demo_interrupted, of "''x''" "demo_entries ! 1"]
    unfolding Let_def by blast
qed

theorem reclamation_removes_plan_witness:
  "\<exists>out d'. reclaim_artifacts True True demo_env ''t'' ''p1'' demo_targets \<lparr>dk_files = demo_disk, dk_records = []\<rparr> = Inr (out, d')
    \<and> (\<forall>x. dget (dk_files d') x = (if x \<in> {''q/d'', ''logs/a'', ''q/e''} then None else dget demo_disk x)) \<and> dk_records d' = []"
  using reclamation_removes_plan [OF demo_entries_are _ demo_ids demo_fits demo_undisturbed, of "''t''"] unfolding demo_doomed by simp

end
