(* ===== verification/Spec2Isabelle.thy ===== *)
theory Spec2Isabelle
  imports Selector_Refine Wal_Reader Source_Retry Publication_Barrier Batch_Lineage
    Prefix_Evidence Journal_Router Codex_Segments Reset_Anchors Window_Attribution Drain_Admission
    Retention_Bounds Retention_Policy Reclaim_Safety
begin

text \<open>
  A verification of the deterministic kernels of cctally.

  \<^bold>\<open>The program.\<close> cctally keeps an append-only journal of JSON lines as its source of truth and derives
  SQLite stores from it. The decisions that must not go wrong are taken by modules named
  \<open>bin/_lib_*.py\<close> that do little or no I/O of their own; the glue modules \<open>bin/_cctally_*.py\<close> read bytes,
  call them, and write what they return. This development models those kernels.

  \<^bold>\<open>Shared theories.\<close>
    \<^item> \<open>Prelude\<close>: dictionaries as association lists in insertion order, results that may raise
      (\<open>error + 'a\<close> with \<open>rbind\<close>, \<open>rfold\<close>), \<open>sorted(set(\<dots>))\<close>, decimal text; the interface \<open>codec\<close>.
    \<^item> \<open>Py_Json\<close>: decoded JSON values and the canonical encoding (\<open>_canonical_json\<close> of
      \<open>bin/_lib_journal.py\<close>).

  \<^bold>\<open>The journal.\<close>
    \<^item> \<open>Account_Protocol\<close>, \<open>Account_Admission\<close>: \<open>bin/_lib_account_protocol.py\<close>. Stamps on journal
      lines, the cutover and its two revisions with their codecs (interpretations of \<open>codec\<close>); then the
      family allow-list, the admission predicate \<open>classify_admission\<close> and the population digest.
    \<^item> \<open>Journal_Records\<close>, \<open>Journal_Batches\<close>: \<open>bin/_lib_journal.py\<close>, from line identity to the
      builders and validators of the correction protocol.
    \<^item> \<open>Journal_Fold\<close>, \<open>Journal_Selection\<close>: the accumulator \<open>SelectorFold\<close> with \<open>fold_records\<close> (phase 1)
      and \<open>resolve_batches\<close> (phase 2), then \<open>resolve_effective_events\<close>: acknowledgement, winners,
      conflicts. The state is the record \<open>selector_fold\<close>, one field per attribute.
    \<^item> \<open>Selector_State\<close>, \<open>Selector_Merge\<close>, \<open>Selector_Resume\<close>, \<open>Selector_Sim\<close>, \<open>Selector_Refine\<close>:
      \<open>bin/_lib_selector_state.py\<close>. The durable rows of a selection, the fold they seed, the merge of a
      delta into them; then what the seeded fold knows of the prefix (\<open>Selector_Resume\<close>), the simulation
      between the seeded and the full fold (\<open>Selector_Sim\<close>), and the refinement of the full selection.
    \<^item> \<open>Quota_Lineage\<close>, \<open>Batch_Lineage\<close>: \<open>bin/_lib_quota_lineage.py\<close> and the lineage pass of
      \<open>_lib_selector_state.py\<close>. The accounts a batch of corrections touches, the assessment of a fit's
      lineage, which correction rows a reader may leave out, the digests a fit carries.
    \<^item> \<open>Journal_Router\<close>, \<open>Prefix_Evidence\<close>: \<open>bin/_lib_journal_router.py\<close>. The mergeable last-seen fold,
      and the streaming accumulator that stands for \<open>journal_prefix_hash\<close> of \<open>bin/_cctally_journal.py\<close>.

  \<^bold>\<open>The Codex side.\<close>
    \<^item> \<open>Anchor_Forest\<close>, \<open>Reset_Anchors\<close>: the reset anchors of \<open>bin/_lib_quota.py\<close>. Parent pointers with
      path compression and their representatives; then the linear rule, \<open>ResetAnchorIndex\<close> and
      \<open>ResetAnchorComponents\<close>, one record field per attribute.
    \<^item> \<open>Window_Attribution\<close>: \<open>bin/_lib_codex_window_attribution.py\<close>, the continuity fold of
      \<open>bin/_lib_quota.py\<close>, the overlay of \<open>bin/_cctally_quota.py\<close> that composes them, and the spend plan of
      \<open>bin/_lib_codex_account_adoption.py\<close>.
    \<^item> \<open>Codex_Segments\<close>: \<open>bin/_lib_codex_segments.py\<close>, turns cut into bounded segments.
    \<^item> \<open>Publication_Barrier\<close>: \<open>bin/_lib_codex_publication_barrier.py\<close>, when a conversation may be sealed.
    \<^item> \<open>Drain_Admission\<close>: \<open>bin/_lib_codex_drain_admission.py\<close>. One record for what processes share, one
      machine per process that makes a system call per step (\<open>check_step\<close> inside a check of \<open>fresh_requests\<close>,
      \<open>admit_step\<close> around it), their interleaving as an inductive step relation; \<open>fresh_requests\<close> itself is a
      check nothing interferes with, which \<open>check_runs\<close> proves equal to the steps.
    \<^item> \<open>Source_Retry\<close>: \<open>bin/_lib_source_retry.py\<close>, the throttle of degraded generations and its runs.

  \<^bold>\<open>Storage.\<close>
    \<^item> \<open>Reclaim_Geometry\<close>, \<open>Reclaim_Plan\<close>, \<open>Wal_Reader\<close>: \<open>bin/_lib_reclaim_planner.py\<close>. Where an
      incremental vacuum of an SQLite file ends, which pages it moves, how much write-ahead log a
      chunk of steps needs, and the reader that serves pages of one committed snapshot.
    \<^item> \<open>Retention_Graph\<close>, \<open>Retention_Selection\<close>, \<open>Retention_Plan\<close>, \<open>Retention_Bounds\<close>, \<open>Retention_Policy\<close>:
      \<open>bin/_lib_artifact_retention.py\<close>. The reference graph of retained artifacts, the closure a deletion of
      roots takes and its incremental selection, the planner with its age, count and byte bounds and the floor of
      damage shapes, what its deletions satisfy, and the strict resolver of the policy block.
    \<^item> \<open>Reclaim_Engine\<close>, \<open>Reclaim_Crash\<close>, \<open>Reclaim_Paths\<close>, \<open>Reclaim_Recovery\<close>, \<open>Reclaim_Safety\<close>: the reclaim engine of
      \<open>bin/_cctally_retention.py\<close>. Its disk (inodes by path, records by plan), targets, marking, resuming, deletion; the
      invariants each step keeps; paths and tombstones; the disks an interrupted worker leaves (the inductive predicate
      \<open>interrupted\<close>) and how they are completed; the guarantees.

  \<^bold>\<open>How they interact.\<close> A record built by \<open>Journal_Records\<close> or \<open>Journal_Batches\<close> is stamped and
  admitted under \<open>Account_Protocol\<close>; the admitted stream is folded by \<open>Journal_Fold\<close> and selected by
  \<open>Journal_Selection\<close>, whose acknowledgements rest on prefix digests that \<open>Prefix_Evidence\<close> computes while
  the stream passes; \<open>Selector_State\<close> stores that selection and continues the fold over the next delta, and
  \<open>Batch_Lineage\<close> records for every completed batch the accounts \<open>Quota_Lineage\<close> later assesses. On the Codex
  side the canonical anchors of \<open>Reset_Anchors\<close> are the reset component of the window keys that
  \<open>Window_Attribution\<close> attributes and adopts by. The reclaim and retention theories are independent of the journal; they share
  \<open>Py_Json\<close> for the plan's wire form and the policy block. The groups of a retention plan, each led by its root, become
  the targets of the reclaim engine (\<open>targets_for_plan\<close>), which never goes past a member it could not rename in a group: a
  referrer that stays keeps what it refers to.

  \<^bold>\<open>Interfaces.\<close> \<open>codec\<close> (the boundary codecs and the policy block), \<open>page_source\<close> (what the reclaim planner needs of a page
  reader, provided by the snapshot reader), \<open>mergeable\<close> and \<open>commutative_mergeable\<close> (a fold over parts,
  provided by the last-seen state), \<open>bucketed\<close> (probing three buckets is exhaustive, provided by the anchor
  index and by the components), \<open>observation_view\<close> (the callbacks of \<open>apply_resolution\<close>, provided by quota
  observations).

  \<^bold>\<open>What the lemmas show.\<close> For the account protocol: round trips of the codecs, a closed form of
  admission, that fences only exclude. For the journal: built records verify and are accepted by the
  validators; a completed batch has its certificate in the stream; a batch is atomic under crashes; folding
  may stop and resume; the selection is the highest revision, does not depend on the order of
  candidates, and acknowledges exactly the real violations that records with verified prefix evidence name; merging a delta into durable rows refines selecting
  again over everything; lineage footprints are the same incrementally, and the bisecting assessment is the
  documented predicate, its ops in journal order when the rows are; a streamed digest is the digest of the fed bytes; last-seen parts merge in any order. For
  the anchors: components are exactly tolerance connectivity, anchors are least by key and independent of
  arrival, unions announce the anchors they retire, lookups are logarithmic, the index is the linear scan. For
  attribution: the verdicts are the documented rules, native evidence is never overridden, the spend plan is
  exact and settles. For segments: bounds, no overlap, which segments an append leaves alone. For the drain
  gate: mutual exclusion between any two system calls, no admission on a check that lists the directory after a live
  request was put in place (a last check that had listed it before may still admit: \<open>blind_process_is_admitted\<close>),
  waiter lifetimes, the wait returns. For reclaim: the
  predicted size is exact, the freelist walk accepts only a freelist inside the file and returns exactly its part in the tail, a plan stays within its budget and survives its
  wire form, and the reader serves one snapshot. For retention: nothing protected is deleted, the selection is the closure,
  groups lead with referrers, bounds are met or reported exactly when protection alone stands against them, the oldest go
  first. For the reclaim engine: a deletion is guarded by the recorded inode whatever a record says; a worker may die at any
  step, any number of times, and the next one removes exactly the members that were doomed from the start, none of them
  being lost or touched meanwhile.

  \<^bold>\<open>Conventions.\<close> A Python \<open>str\<close> is the list of its code points, those below 256. The digest
  \<open>hashlib.sha256(\<dots>).hexdigest()\<close> is the argument \<open>H\<close>; where a fact needs its shape the hypothesis
  \<open>hexdigest H\<close> says that it is 64 lower-case hexadecimal digits. A running hash object is the bytes it has
  absorbed. A float is its \<open>repr\<close> text, or a rational where only its order and product matter
  (the epochs of retained artifacts). An aware datetime
  is its number of microseconds; an \<open>at\<close> time of the journal is its text. A set is a list without duplicates,
  a frozen set in a result is a set. A raised exception is \<open>Inl\<close>. Loops are structural recursion, folds, or
  recursion with a termination proof (the freelist walk by the pages not yet seen, the decimal and pointer-map
  loops by a number, the planning loop by the groups left). Two loops may run forever and are
  \<open>partial_function (option)\<close>, for which \<open>None\<close> is not returning: the recursion of \<open>_find\<close> over parent
  pointers and \<open>wait_until_no_fresh_requests\<close>; that they return is proved (\<open>find_depth\<close>,
  \<open>wait_returns\<close>). No fuel is used anywhere. Reading a file is a function of a \<open>world\<close>, the clock a function
  of the number of readings or a field of the shared state.

  \<^bold>\<open>Hypotheses.\<close> \<open>merge_refines_selection\<close> compares counters, coverage, batches, winners and conflicts, not
  the violation rows; it supposes that the merge returns no transition, that no candidate is a pre-revision quota arming state
  (\<open>no_legacy\<close>, those the code resolves to the last one, also a hypothesis of \<open>selection_is_highest_revision\<close>), that no
  new candidate lies before an old one of the same event and revision (\<open>no_late_twin\<close>, without which the merge
  always differs, see \<open>merge_misses_earlier_twin\<close>) and that coordinates split at the prefix (\<open>coordinates_split\<close>). Reset anchors use exact arithmetic where the code divides
  floating-point timestamps; the two agree while a timestamp has microsecond precision as a float. Recovery of a
  reclamation supposes a plan that is fresh when marking starts (\<open>plan_fresh\<close>: distinct members, free tombstones, derived in
  \<open>targets_fresh\<close> from targets that fit the disk), no other writer of these paths, record writes that succeed, and
  unlinks that, when they fail, leave the inode (\<open>env_ok\<close>).

  \<^bold>\<open>Not modelled.\<close> The glue modules (SQLite, files, locks, HTTP, rendering), the floating-point
  analytics, JSON text parsing, and the parts each theory's own text names.
\<close>

end
